(* ===== verification/Prelude.thy ===== *)
theory Prelude
  imports Main "HOL-Library.Word" "HOL-Library.Multiset"
begin

text \<open>
  Prelude of the development: the machine types, the result type of fallible kernel code
  (a panic, an undefined behaviour or a failed assertion is a value), the combinators that
  sequence such code, first-match scans of a fixed table (the \<open>for (p = table; ...)\<close> loops of
  the sources), C's remainder, and the generic lemmas the component theories share.
\<close>

section \<open>Machine types and results\<close>

type_synonym u8 = "8 word"
type_synonym u16 = "16 word"
type_synonym u32 = "32 word"

text \<open>
  \<open>Panic m\<close> is a call of the kernel's (or the shell's) \<open>panic(m)\<close>, or the message with which a host program exits; \<open>Fault m\<close> is a step the C
  semantics leaves undefined (a null or out-of-range access); \<open>AssertFail m\<close> is a failed
  \<open>assert\<close> of the user programs; \<open>Diverges m\<close> is a loop of the code that never ends or a sleep that
  only another process can end.
\<close>

datatype error = Panic string | Fault string | AssertFail string | Diverges string

type_synonym 'a result = "error + 'a"

named_theorems res_simps \<open>rewriting of sequenced fallible code\<close>

definition bind_r :: "'a result \<Rightarrow> ('a \<Rightarrow> 'b result) \<Rightarrow> 'b result" where
  "bind_r m f = (case m of Inl e \<Rightarrow> Inl e | Inr x \<Rightarrow> f x)"

lemma bind_r_Inl [simp, res_simps]: "bind_r (Inl e) f = Inl e"
  by (simp add: bind_r_def)

lemma bind_r_Inr [simp, res_simps]: "bind_r (Inr x) f = f x"
  by (simp add: bind_r_def)

lemma bind_r_eq_Inr [res_simps]:
  "bind_r m f = Inr y \<longleftrightarrow> (\<exists>x. m = Inr x \<and> f x = Inr y)"
  by (cases m) auto

lemma bind_r_eq_Inl [res_simps]:
  "bind_r m f = Inl e \<longleftrightarrow> m = Inl e \<or> (\<exists>x. m = Inr x \<and> f x = Inl e)"
  by (cases m) auto

lemma bind_r_assoc: "bind_r (bind_r m f) g = bind_r m (\<lambda>x. bind_r (f x) g)"
  by (cases m) auto

lemma bind_r_cong [fundef_cong]:
  "m = n \<Longrightarrow> (\<And>x. n = Inr x \<Longrightarrow> f x = g x) \<Longrightarrow> bind_r m f = bind_r n g"
  by (cases n) auto

text \<open>A loop over a list whose body may fail: it stops at the first failure.\<close>

fun fold_r :: "('a \<Rightarrow> 's \<Rightarrow> 's result) \<Rightarrow> 'a list \<Rightarrow> 's \<Rightarrow> 's result" where
  "fold_r f [] s = Inr s"
| "fold_r f (x # xs) s = bind_r (f x s) (fold_r f xs)"

lemma fold_r_append: "fold_r f (xs @ ys) s = bind_r (fold_r f xs s) (fold_r f ys)"
proof (induction xs arbitrary: s)
  case Nil
  then show ?case by simp
next
  case (Cons x xs)
  then show ?case by (cases "f x s") auto
qed

lemma fold_r_invariant:
  assumes "fold_r f xs s = Inr t" and "P s"
    and "\<And>x s t. x \<in> set xs \<Longrightarrow> P s \<Longrightarrow> f x s = Inr t \<Longrightarrow> P t"
  shows "P t"
  using assms
proof (induction xs arbitrary: s)
  case Nil
  then show ?case by simp
next
  case (Cons x xs)
  from Cons.prems(1) obtain u where u: "f x s = Inr u" "fold_r f xs u = Inr t"
    by (auto simp: bind_r_eq_Inr)
  from Cons.prems(2) u(1) have P: "P u"
    by (rule Cons.prems(3)[rotated]) simp
  show ?case
    by (rule Cons.IH[OF u(2) P]) (rule Cons.prems(3), simp_all)
qed

lemma fold_r_total:
  assumes "P s" and "\<And>x s. x \<in> set xs \<Longrightarrow> P s \<Longrightarrow> \<exists>t. f x s = Inr t \<and> P t"
  shows "\<exists>t. fold_r f xs s = Inr t \<and> P t"
  using assms
proof (induction xs arbitrary: s)
  case Nil
  then show ?case by simp
next
  case (Cons x xs)
  from Cons.prems(2)[of x s] Cons.prems(1) obtain u where u: "f x s = Inr u" "P u"
    by auto
  have "\<exists>t. fold_r f xs u = Inr t \<and> P t"
    by (rule Cons.IH[OF u(2)]) (simp add: Cons.prems(2))
  with u show ?case by simp
qed

section \<open>First match in a table\<close>

text \<open>
  \<open>find_from P i xs\<close> is the least index at or after \<open>i\<close> whose entry satisfies \<open>P\<close>, \<open>None\<close> when
  the scan runs off the table.
\<close>

fun find_idx :: "('a \<Rightarrow> bool) \<Rightarrow> 'a list \<Rightarrow> nat option" where
  "find_idx P [] = None"
| "find_idx P (x # xs) = (if P x then Some 0 else map_option Suc (find_idx P xs))"

definition find_from :: "('a \<Rightarrow> bool) \<Rightarrow> nat \<Rightarrow> 'a list \<Rightarrow> nat option" where
  "find_from P i xs = map_option (\<lambda>k. k + i) (find_idx P (drop i xs))"

lemma find_idx_Some:
  "find_idx P xs = Some i \<longleftrightarrow> i < length xs \<and> P (xs ! i) \<and> (\<forall>j<i. \<not> P (xs ! j))"
proof (induction xs arbitrary: i)
  case Nil
  then show ?case by simp
next
  case (Cons x xs)
  then show ?case
    by (cases i) (auto simp: nth_Cons less_Suc_eq_0_disj split: nat.splits)
qed

lemma find_idx_None: "find_idx P xs = None \<longleftrightarrow> (\<forall>x \<in> set xs. \<not> P x)"
  by (induction xs) auto

lemma find_idx_None_nth: "find_idx P xs = None \<longleftrightarrow> (\<forall>j < length xs. \<not> P (xs ! j))"
  by (auto simp: find_idx_None all_set_conv_all_nth)

lemma find_idx_lt [dest]: "find_idx P xs = Some i \<Longrightarrow> i < length xs"
  by (simp add: find_idx_Some)

lemma find_from_Some:
  "find_from P i xs = Some k \<longleftrightarrow>
     i \<le> k \<and> k < length xs \<and> P (xs ! k) \<and> (\<forall>j. i \<le> j \<and> j < k \<longrightarrow> \<not> P (xs ! j))"
proof
  assume "find_from P i xs = Some k"
  then obtain d where d: "find_idx P (drop i xs) = Some d" "k = d + i"
    by (auto simp: find_from_def)
  then have *: "d < length xs - i" "P (xs ! (i + d))" "\<And>j. j < d \<Longrightarrow> \<not> P (xs ! (i + j))"
    by (auto simp: find_idx_Some)
  have "\<not> P (xs ! j)" if "i \<le> j" "j < k" for j
    using *(3)[of "j - i"] that d by simp
  with * d show "i \<le> k \<and> k < length xs \<and> P (xs ! k) \<and> (\<forall>j. i \<le> j \<and> j < k \<longrightarrow> \<not> P (xs ! j))"
    by (auto simp: add.commute)
next
  assume a: "i \<le> k \<and> k < length xs \<and> P (xs ! k) \<and> (\<forall>j. i \<le> j \<and> j < k \<longrightarrow> \<not> P (xs ! j))"
  then have "find_idx P (drop i xs) = Some (k - i)"
    by (auto simp: find_idx_Some)
  with a show "find_from P i xs = Some k" by (simp add: find_from_def)
qed

lemma find_from_None:
  "find_from P i xs = None \<longleftrightarrow> (\<forall>j. i \<le> j \<and> j < length xs \<longrightarrow> \<not> P (xs ! j))"
proof
  assume "find_from P i xs = None"
  then have *: "\<And>d. d < length xs - i \<Longrightarrow> \<not> P (xs ! (i + d))"
    by (auto simp: find_from_def find_idx_None_nth)
  show "\<forall>j. i \<le> j \<and> j < length xs \<longrightarrow> \<not> P (xs ! j)"
  proof (intro allI impI)
    fix j assume "i \<le> j \<and> j < length xs"
    then show "\<not> P (xs ! j)" using *[of "j - i"] by (simp add: less_diff_conv)
  qed
qed (auto simp: find_from_def find_idx_None_nth)

section \<open>Integers\<close>

text \<open>C's remainder truncates towards zero; on non-negative operands it is \<open>mod\<close>.\<close>

definition crem :: "int \<Rightarrow> int \<Rightarrow> int" where
  "crem a b = sgn a * (\<bar>a\<bar> mod \<bar>b\<bar>)"

lemma crem_nonneg [simp]: "0 \<le> a \<Longrightarrow> 0 < b \<Longrightarrow> crem a b = a mod b"
  by (cases "a = 0") (auto simp: crem_def)

lemma mod_add_inj:
  fixes j j' st m :: nat
  assumes "j < m" "j' < m" "(st + j) mod m = (st + j') mod m"
  shows "j = j'"
proof -
  have *: "a = b" if "a \<le> b" "b < m" "(st + a) mod m = (st + b) mod m" for a b :: nat
  proof -
    have "m dvd (st + b) - (st + a)"
      using that by (subst mod_eq_dvd_iff_nat [symmetric]) auto
    then have "m dvd b - a" by simp
    with that show ?thesis
      by (metis diff_is_0_eq dvd_imp_le le_antisym less_imp_diff_less not_gr_zero not_less)
  qed
  show ?thesis
    using *[of j j'] *[of j' j] assms by (cases "j \<le> j'") auto
qed

text \<open>A 32-bit value below \<open>2 ^ 31\<close> is the same number signed.\<close>

lemma sint_small: "unat (n :: u32) < 2147483648 \<Longrightarrow> sint n = int (unat n)"
proof -
  assume "unat n < 2147483648"
  then have "int (unat n) < 2147483648" by linarith
  then have l: "uint n < 2147483648" by simp
  have "- (2 ^ 31) \<le> (0 :: int)" by simp
  then have "- (2 ^ 31) \<le> uint n" by (rule order_trans) simp
  then have "signed_take_bit 31 (uint n) = uint n" by (rule signed_take_bit_int_eq_self) (use l in simp)
  then show ?thesis by (simp add: sint_uint)
qed

section \<open>Lists\<close>

lemma list_update_map_upd: "i < length xs \<Longrightarrow> (xs[i := f (xs ! i)]) ! j = (if i = j then f (xs ! j) else xs ! j)"
  by (simp add: nth_list_update)

lemma mset_swap_nth:
  "i < length xs \<Longrightarrow> j < length xs \<Longrightarrow> mset (xs[i := xs ! j, j := xs ! i]) = mset xs"
  by (rule mset_swap)

end
