(* ===== verification/Proc_Table.thy ===== *)
theory Proc_Table
  imports Prelude
begin

text \<open>
  The kernel's process data (\<open>proc.h\<close>, \<open>procstat.h\<close>, the globals of \<open>proc.c\<close> and \<open>trap.c\<close>):
  the process table, the clock, and the rings of the multi-level feedback queue. A pointer to a
  slot of \<open>ptable.proc\<close> is the slot's index, a null pointer is \<open>None\<close>. Sleep channels are
  compared by address only, so a channel is the object whose address it is.
  The build chooses one scheduling policy (\<open>-D $(SCHEDULER)\<close> in the Makefile); the model takes
  the policy as an argument where the sources have an \<open>#ifdef\<close>.
\<close>

section \<open>Constants and types\<close>

definition NPROC :: nat where "NPROC = 64"
definition NOFILE :: nat where "NOFILE = 16"
definition PQ_COUNT :: int where "PQ_COUNT = 5"
definition MAX_PROC_COUNT :: int where "MAX_PROC_COUNT = 10000"
definition HIGHEST_PRIO_Q :: int where "HIGHEST_PRIO_Q = 0"
definition NO_Q_ALLOT :: int where "NO_Q_ALLOT = -1"
definition DEFAULT_PRIORITY :: int where "DEFAULT_PRIORITY = 60"

definition WAIT_LIMIT :: "int list" where
  "WAIT_LIMIT = [84, 83, 82, 81, 80]"

lemmas table_consts = NPROC_def NOFILE_def PQ_COUNT_def MAX_PROC_COUNT_def HIGHEST_PRIO_Q_def
  NO_Q_ALLOT_def DEFAULT_PRIORITY_def

datatype policy = DEFAULT | FCFS | PBS | MLFQ

datatype procstate = UNUSED | EMBRYO | SLEEPING | RUNNABLE | RUNNING | ZOMBIE

text \<open>The addresses processes sleep on: a process (\<open>wait\<close>), the clock, any other object.\<close>

datatype chan = ChanProc nat | ChanTicks | ChanAddr u32

record proc_stat =
  st_pid :: int
  st_runtime :: int
  num_run :: int
  alloted_q :: int
  alloted_pos :: int
  st_ticks :: "int list"
  actualTicks :: "int list"

record proc =
  sz :: u32
  pgdir :: u32
  kstack :: u32
  state :: procstate
  pid :: int
  parent :: "nat option"
  tf :: u32
  ctxt :: u32
  chan :: "chan option"
  killed :: bool
  ofile :: "nat option list"
  cwd :: "nat option"
  name :: string
  ctime :: int
  etime :: int
  rtime :: int
  priority :: int
  stat :: proc_stat
  latestQTime :: int

text \<open>
  The kernel's scheduling state. \<open>cproc\<close> is \<open>mycpu()->proc\<close> of the executing processor.
\<close>

record kst =
  procs :: "proc list"
  nextpid :: int
  initproc :: "nat option"
  ticks :: u32
  prioQ :: "nat \<Rightarrow> nat \<Rightarrow> nat option"
  prioQSize :: "nat \<Rightarrow> int"
  prioQStart :: "nat \<Rightarrow> int"
  cproc :: "nat option"

section \<open>Access to slots\<close>

definition upd_proc :: "nat \<Rightarrow> (proc \<Rightarrow> proc) \<Rightarrow> 'a kst_scheme \<Rightarrow> 'a kst_scheme" where
  "upd_proc p f s = s\<lparr>procs := (procs s)[p := f (procs s ! p)]\<rparr>"

definition pc :: "'a kst_scheme \<Rightarrow> nat \<Rightarrow> proc" where
  "pc s p = procs s ! p"

lemma length_upd_proc [simp]: "length (procs (upd_proc p f s)) = length (procs s)"
  by (simp add: upd_proc_def)

lemma pc_upd_proc: "p < length (procs s) \<Longrightarrow> pc (upd_proc p f s) q = (if q = p then f (pc s p) else pc s q)"
  by (simp add: pc_def upd_proc_def)

lemma pc_upd_same [simp]: "p < length (procs s) \<Longrightarrow> pc (upd_proc p f s) p = f (pc s p)"
  by (simp add: pc_upd_proc)

lemma pc_upd_other [simp]: "q \<noteq> p \<Longrightarrow> pc (upd_proc p f s) q = pc s q"
  by (simp add: pc_def upd_proc_def)

lemma upd_proc_frame [simp]:
  "nextpid (upd_proc p f s) = nextpid s" "initproc (upd_proc p f s) = initproc s"
  "ticks (upd_proc p f s) = ticks s" "prioQ (upd_proc p f s) = prioQ s"
  "prioQSize (upd_proc p f s) = prioQSize s" "prioQStart (upd_proc p f s) = prioQStart s"
  "cproc (upd_proc p f s) = cproc s" "kst.more (upd_proc p f s) = kst.more s"
  by (simp_all add: upd_proc_def)

lemma pc_frame [simp]:
  "pc (s\<lparr>prioQ := a\<rparr>) = pc s" "pc (s\<lparr>prioQSize := b\<rparr>) = pc s" "pc (s\<lparr>prioQStart := c\<rparr>) = pc s"
  "pc (s\<lparr>ticks := t\<rparr>) = pc s" "pc (s\<lparr>cproc := d\<rparr>) = pc s" "pc (s\<lparr>nextpid := n\<rparr>) = pc s"
  "pc (s\<lparr>initproc := i\<rparr>) = pc s"
  by (simp_all add: pc_def fun_eq_iff)

text \<open>\<open>map\<close>-style update of the whole table, for loops over \<open>ptable.proc\<close> without failures.\<close>

lemma set_conv_pc: "length (procs s) = n \<Longrightarrow> set (procs s) = pc s ` {..<n}"
  by (auto simp: pc_def in_set_conv_nth)

section \<open>Small operations of proc.c\<close>

text \<open>\<open>procIsDead\<close>: a null pointer, a killed process, a free slot, or one that cannot run.\<close>

definition procIsDead :: "'a kst_scheme \<Rightarrow> nat option \<Rightarrow> bool" where
  "procIsDead s po = (case po of None \<Rightarrow> True
     | Some p \<Rightarrow> killed (pc s p) \<or> pid (pc s p) = 0 \<or> state (pc s p) \<noteq> RUNNABLE)"

definition ifMeraProc :: "'a kst_scheme \<Rightarrow> nat option \<Rightarrow> bool" where
  "ifMeraProc s po = (case po of None \<Rightarrow> False | Some p \<Rightarrow> pid (pc s p) > 2)"

text \<open>\<open>ticks\<close> is unsigned, \<open>latestQTime\<close> an \<open>int\<close>: the difference is taken modulo \<open>2 ^ 32\<close> and
  returned as an \<open>int\<close>.\<close>

definition getTicks :: "'a kst_scheme \<Rightarrow> nat \<Rightarrow> int" where
  "getTicks s p = sint (ticks s - word_of_int (latestQTime (pc s p)))"

definition getQIdx :: "'a kst_scheme \<Rightarrow> nat \<Rightarrow> int" where
  "getQIdx s p = alloted_q (stat (pc s p))"

definition getQPos :: "'a kst_scheme \<Rightarrow> nat \<Rightarrow> int" where
  "getQPos s p = alloted_pos (stat (pc s p))"

end
