(* ===== verification/Fifo.thy ===== *)
theory Fifo
  imports Prelude
begin

text \<open>
  The contract of a first-in first-out buffer whose operations may fail: the rings of the
  scheduler and the byte ring of a pipe both provide it. \<open>items\<close> is the content, oldest first;
  \<open>fresh\<close> says when an element may be appended (room left, not queued yet).
\<close>

text \<open>Pop \<open>n\<close> times, collecting the elements in the order they come out.\<close>

fun drain :: "('s \<Rightarrow> ('a \<times> 's) result) \<Rightarrow> nat \<Rightarrow> 's \<Rightarrow> ('a list \<times> 's) result" where
  "drain pop 0 s = Inr ([], s)"
| "drain pop (Suc n) s =
     bind_r (pop s) (\<lambda>(x, s1). bind_r (drain pop n s1) (\<lambda>(xs, s2). Inr (x # xs, s2)))"

locale fifo =
  fixes inv :: "'s \<Rightarrow> bool"
    and items :: "'s \<Rightarrow> 'a list"
    and pop :: "'s \<Rightarrow> ('a \<times> 's) result"
    and push :: "'a \<Rightarrow> 's \<Rightarrow> 's result"
    and fresh :: "'a \<Rightarrow> 's \<Rightarrow> bool"
  assumes pop_items: "inv s \<Longrightarrow> items s = x # xs \<Longrightarrow> \<exists>t. pop s = Inr (x, t) \<and> inv t \<and> items t = xs"
    and pop_empty: "inv s \<Longrightarrow> items s = [] \<Longrightarrow> \<exists>e. pop s = Inl e"
    and push_items: "inv s \<Longrightarrow> fresh x s \<Longrightarrow> \<exists>t. push x s = Inr t \<and> inv t \<and> items t = items s @ [x]"
begin

lemma pop_iff: "inv s \<Longrightarrow> (\<exists>x t. pop s = Inr (x, t)) \<longleftrightarrow> items s \<noteq> []"
  by (metis Inl_Inr_False list.exhaust pop_empty pop_items)

lemma drain_items:
  assumes "inv s" "n \<le> length (items s)"
  shows "\<exists>t. drain pop n s = Inr (take n (items s), t) \<and> inv t \<and> items t = drop n (items s)"
  using assms
proof (induction n arbitrary: s)
  case 0
  then show ?case by simp
next
  case (Suc n)
  then obtain x xs where it: "items s = x # xs" by (cases "items s") auto
  with Suc.prems pop_items obtain s1 where s1: "pop s = Inr (x, s1)" "inv s1" "items s1 = xs"
    by blast
  with Suc.prems it have "n \<le> length (items s1)" by simp
  with Suc.IH[OF s1(2)] obtain t where
    "drain pop n s1 = Inr (take n xs, t) \<and> inv t \<and> items t = drop n xs"
    using s1(3) by blast
  with it s1 show ?case by simp
qed

text \<open>What is pushed behind \<open>n\<close> elements comes out after exactly those.\<close>

lemma push_then_drain:
  assumes "inv s" "fresh x s"
  shows "\<exists>t u. push x s = Inr t \<and> drain pop (Suc (length (items s))) t = Inr (items s @ [x], u) \<and> items u = []"
proof -
  from push_items[OF assms] obtain t where t: "push x s = Inr t" "inv t" "items t = items s @ [x]"
    by blast
  with drain_items[of t "Suc (length (items s))"] show ?thesis by fastforce
qed

end

end
