(* ===== verification/Mlfq.thy ===== *)
theory Mlfq
  imports Proc_Table Fifo
begin

text \<open>
  The rings of the multi-level feedback queue (\<open>proc.c\<close>, the \<open>#ifdef MLFQ\<close> functions from
  \<open>getFront\<close> to \<open>decPrio\<close>): five circular arrays \<open>prioQ[q][0..MAX_PROC_COUNT)\<close>, each with a
  start and a size. The theory models the array code, gives the abstract queue (the list of
  slots from front to back), proves that the array operations implement the list operations,
  and states the two invariants: the rings are well formed, and every queued process records
  the ring and the position it is queued at.
\<close>

section \<open>The array code\<close>

text \<open>An access to \<open>prioQ[q]\<close> with \<open>q\<close> outside \<open>0..PQ_COUNT-1\<close> is out of range.\<close>

definition q_ok :: "int \<Rightarrow> bool" where
  "q_ok q \<longleftrightarrow> 0 \<le> q \<and> q < PQ_COUNT"

definition getFront :: "int \<Rightarrow> 'a kst_scheme \<Rightarrow> nat option result" where
  "getFront q s =
    (if \<not> q_ok q then Inl (Fault ''prioQSize'')
     else if prioQSize s (nat q) = 0 then Inl (Panic ''Getting front of empty queue'')
     else Inr (prioQ s (nat q) (nat (prioQStart s (nat q)))))"

definition popFront :: "int \<Rightarrow> 'a kst_scheme \<Rightarrow> (nat option \<times> 'a kst_scheme) result" where
  "popFront q s =
    (if \<not> q_ok q then Inl (Fault ''prioQSize'')
     else if prioQSize s (nat q) = 0 then Inl (Panic ''Empty stack, cannot pop'')
     else bind_r (getFront q s) (\<lambda>p.
       let st = prioQStart s (nat q) + 1;
           st' = (if st = MAX_PROC_COUNT then 0 else st)
       in Inr (p, s\<lparr>prioQStart := (prioQStart s)(nat q := st'),
                    prioQSize := (prioQSize s)(nat q := prioQSize s (nat q) - 1)\<rparr>)))"

text \<open>Index used to insert new elements into the queue.\<close>

definition backIndex :: "nat \<Rightarrow> 'a kst_scheme \<Rightarrow> int" where
  "backIndex q s = crem (prioQStart s q + prioQSize s q) MAX_PROC_COUNT"

text \<open>The number of slots of a ring as a natural number.\<close>

definition RING :: nat where
  "RING = nat MAX_PROC_COUNT"

text \<open>
  The loops \<open>for (i = start; i != backIndex; i++, i %= MAX_PROC_COUNT)\<close> visit the ring from
  \<open>start\<close> up to the back index. The fuel is \<open>RING\<close>, the number of distinct indices, so a walk
  to an index of the ring always ends there (\<open>ring_walk_eq\<close>). When the size has become negative the
  back index may be negative (C's \<open>%\<close>) and is never met: the loop then goes round the ring for
  ever unless its body leaves it.
\<close>

fun ring_walk :: "nat \<Rightarrow> nat \<Rightarrow> nat \<Rightarrow> nat list" where
  "ring_walk 0 i b = []"
| "ring_walk (Suc n) i b = (if i = b then [] else i # ring_walk n ((i + 1) mod RING) b)"

definition pushBack :: "int \<Rightarrow> nat option \<Rightarrow> 'a kst_scheme \<Rightarrow> 'a kst_scheme result" where
  "pushBack q po s =
    (case po of None \<Rightarrow> Inl (Panic ''Cannot push back empty proc'')
     | Some p \<Rightarrow>
       if \<not> q_ok q then Inl (Fault ''prioQStart'')
       else
         let k = nat q; bi = backIndex k s;
             walk = (if bi < 0 then [0..<RING]
                     else ring_walk RING (nat (prioQStart s k)) (nat bi))
         in if \<exists>i \<in> set walk. (case prioQ s k i of None \<Rightarrow> False
                                | Some r \<Rightarrow> pid (pc s r) = pid (pc s p))
            then Inr s
            else if bi < 0 then Inl (Diverges ''pushBack'')
            else
              let s1 = upd_proc p (\<lambda>x. x\<lparr>stat := (stat x)\<lparr>alloted_q := q, alloted_pos := bi\<rparr>\<rparr>) s
              in Inr (s1\<lparr>prioQ := (prioQ s1)(k := (prioQ s1 k)(nat bi := Some p)),
                         prioQSize := (prioQSize s1)(k := prioQSize s1 k + 1)\<rparr>))"

text \<open>
  The shifting loop of \<open>deleteIdx\<close>: slot \<open>i\<close> takes the entry of slot \<open>i + 1\<close> and that process
  is told its new position; a null entry there would be dereferenced.
\<close>

fun shift_down :: "nat \<Rightarrow> nat list \<Rightarrow> 'a kst_scheme \<Rightarrow> 'a kst_scheme result" where
  "shift_down k [] s = Inr s"
| "shift_down k (i # is) s =
    (case prioQ s k ((i + 1) mod RING) of
       None \<Rightarrow> Inl (Fault ''prioQ[qIdx][i]->stat'')
     | Some r \<Rightarrow>
         shift_down k is
           (upd_proc r (\<lambda>x. x\<lparr>stat := (stat x)\<lparr>alloted_pos := int i\<rparr>\<rparr>)
             (s\<lparr>prioQ := (prioQ s)(k := (prioQ s k)(i := Some r))\<rparr>)))"

definition deleteIdx :: "int \<Rightarrow> int \<Rightarrow> 'a kst_scheme \<Rightarrow> 'a kst_scheme result" where
  "deleteIdx q idx s =
    (if \<not> q_ok q \<or> idx < 0 \<or> idx \<ge> MAX_PROC_COUNT then Inl (Fault ''prioQ'')
     else if prioQ s (nat q) (nat idx) = None then Inl (Panic ''Already deleted index'')
     else
       let k = nat q;
           s1 = s\<lparr>prioQ := (prioQ s)(k := (prioQ s k)(nat idx := None)),
                  prioQSize := (prioQSize s)(k := prioQSize s k - 1)\<rparr>
       in if backIndex k s1 < 0
          then bind_r (shift_down k (map (\<lambda>j. (nat idx + j) mod RING) [0..<RING]) s1)
                 (\<lambda>_. Inl (Diverges ''deleteIdx''))
          else shift_down k (ring_walk RING (nat idx) (nat (backIndex k s1))) s1)"

definition incPrio :: "nat \<Rightarrow> 'a kst_scheme \<Rightarrow> 'a kst_scheme result" where
  "incPrio p s =
    (let q = getQIdx s p; pos = getQPos s p in
     if q < 0 \<or> pos < 0 then Inl (Panic ''Invalid qi'')
     else bind_r (deleteIdx q pos s) (\<lambda>s1.
       if q = HIGHEST_PRIO_Q then pushBack q (Some p) s1
       else pushBack (q - 1) (Some p) s1))"

definition decPrio :: "nat \<Rightarrow> bool \<Rightarrow> 'a kst_scheme \<Rightarrow> 'a kst_scheme result" where
  "decPrio p retain s =
    (let q = getQIdx s p in
     if q < 0 then Inl (Panic ''Invalid q'')
     else
       let s1 = upd_proc p (\<lambda>x. x\<lparr>latestQTime := sint (ticks s)\<rparr>) s
       in if q = PQ_COUNT - 1 \<or> retain then pushBack q (Some p) s1
          else pushBack (q + 1) (Some p) s1)"

section \<open>The rings as lists\<close>

definition ring_pos :: "nat \<Rightarrow> 'a kst_scheme \<Rightarrow> nat \<Rightarrow> nat" where
  "ring_pos k s j = (nat (prioQStart s k) + j) mod RING"

text \<open>The queued slots of ring \<open>k\<close>, front first.\<close>

definition qlist :: "nat \<Rightarrow> 'a kst_scheme \<Rightarrow> nat option list" where
  "qlist k s = map (\<lambda>j. prioQ s k (ring_pos k s j)) [0..<nat (prioQSize s k)]"

definition qprocs :: "nat \<Rightarrow> 'a kst_scheme \<Rightarrow> nat list" where
  "qprocs k s = map the (qlist k s)"

text \<open>Well-formed rings: bounds, no null entry, no slot twice in a ring.\<close>

definition ring_inv :: "nat \<Rightarrow> 'a kst_scheme \<Rightarrow> bool" where
  "ring_inv k s \<longleftrightarrow>
     0 \<le> prioQStart s k \<and> prioQStart s k < MAX_PROC_COUNT \<and> 0 \<le> prioQSize s k \<and>
     None \<notin> set (qlist k s) \<and> distinct (qprocs k s) \<and>
     set (qprocs k s) \<subseteq> {..<length (procs s)} \<and> length (procs s) = NPROC"

text \<open>Every queued process knows its ring and its index there.\<close>

definition pos_inv :: "'a kst_scheme \<Rightarrow> bool" where
  "pos_inv s \<longleftrightarrow> (\<forall>k < nat PQ_COUNT. \<forall>j < nat (prioQSize s k). \<forall>p.
      prioQ s k (ring_pos k s j) = Some p \<longrightarrow>
      alloted_q (stat (pc s p)) = int k \<and> alloted_pos (stat (pc s p)) = int (ring_pos k s j))"

definition mlfq_inv :: "'a kst_scheme \<Rightarrow> bool" where
  "mlfq_inv s \<longleftrightarrow> (\<forall>k < nat PQ_COUNT. ring_inv k s) \<and> pos_inv s"

text \<open>What the queue code leaves of a process: everything but its queue record.\<close>

definition unq :: "proc \<Rightarrow> proc" where
  "unq x = x\<lparr>stat := (stat x)\<lparr>alloted_q := 0, alloted_pos := 0\<rparr>\<rparr>"

definition qframe :: "'a kst_scheme \<Rightarrow> 'a kst_scheme \<Rightarrow> bool" where
  "qframe s t \<longleftrightarrow> length (procs t) = length (procs s) \<and> nextpid t = nextpid s \<and>
     initproc t = initproc s \<and> ticks t = ticks s \<and> cproc t = cproc s \<and>
     kst.more t = kst.more s \<and> (\<forall>p. unq (pc t p) = unq (pc s p))"

lemma RING_val: "RING = 10000"
  by (simp add: RING_def MAX_PROC_COUNT_def)

lemma RING_pos [simp]: "0 < RING" "NPROC + 1 < RING" "int RING = MAX_PROC_COUNT"
  by (simp_all add: RING_val MAX_PROC_COUNT_def NPROC_def)

lemma qframe_refl [simp]: "qframe s s"
  by (simp add: qframe_def)

lemma qframe_trans [trans]: "qframe s t \<Longrightarrow> qframe t u \<Longrightarrow> qframe s u"
  by (simp add: qframe_def)

lemma unq_fields [simp]:
  "pid (unq x) = pid x" "state (unq x) = state x" "killed (unq x) = killed x"
  "chan (unq x) = chan x" "parent (unq x) = parent x" "latestQTime (unq x) = latestQTime x"
  "priority (unq x) = priority x" "ctime (unq x) = ctime x" "rtime (unq x) = rtime x"
  by (simp_all add: unq_def)

lemma qframe_fields:
  assumes "qframe s t"
  shows "pid (pc t p) = pid (pc s p)" "state (pc t p) = state (pc s p)"
    "killed (pc t p) = killed (pc s p)" "chan (pc t p) = chan (pc s p)"
    "parent (pc t p) = parent (pc s p)" "latestQTime (pc t p) = latestQTime (pc s p)"
    "priority (pc t p) = priority (pc s p)" "ctime (pc t p) = ctime (pc s p)"
    "length (procs t) = length (procs s)" "ticks t = ticks s" "nextpid t = nextpid s"
    "cproc t = cproc s" "initproc t = initproc s"
  using assms unfolding qframe_def by (metis unq_fields)+

lemma ring_walk_eq:
  assumes "i < RING" "n < RING" "n \<le> f"
  shows "ring_walk f i ((i + n) mod RING) = map (\<lambda>j. (i + j) mod RING) [0..<n]"
  using assms
proof (induction f arbitrary: i n)
  case 0
  then show ?case by simp
next
  case (Suc f)
  show ?case
  proof (cases n)
    case 0
    with Suc.prems show ?thesis by simp
  next
    case (Suc m)
    have ne: "i \<noteq> (i + n) mod RING"
      using mod_add_inj[of 0 RING n i] Suc.prems Suc by auto
    have eq: "(i + n) mod RING = ((i + 1) mod RING + m) mod RING"
      by (simp add: Suc mod_add_left_eq)
    have "ring_walk f ((i + 1) mod RING) ((i + n) mod RING)
        = map (\<lambda>j. ((i + 1) mod RING + j) mod RING) [0..<m]"
      unfolding eq using Suc.prems Suc by (intro Suc.IH) auto
    also have "\<dots> = map (\<lambda>j. (i + j) mod RING) [Suc 0..<n]"
      unfolding Suc map_Suc_upt[symmetric] by (simp add: mod_add_left_eq)
    finally show ?thesis
      using ne Suc.prems Suc by (simp add: upt_conv_Cons del: upt_Suc)
  qed
qed

lemma length_qlist [simp]: "length (qlist k s) = nat (prioQSize s k)"
  by (simp add: qlist_def)

lemma length_qprocs [simp]: "length (qprocs k s) = nat (prioQSize s k)"
  by (simp add: qprocs_def)

lemma ring_pos_lt [simp]: "ring_pos k s j < RING"
  by (simp add: ring_pos_def)

lemma ring_pos_inj:
  "ring_pos k s i = ring_pos k s j \<Longrightarrow> i < RING \<Longrightarrow> j < RING \<Longrightarrow> i = j"
  by (auto simp: ring_pos_def dest: mod_add_inj)

lemma ring_inv_size:
  assumes "ring_inv k s"
  shows "nat (prioQSize s k) \<le> NPROC" "prioQSize s k \<le> int NPROC"
proof -
  have "card (set (qprocs k s)) = nat (prioQSize s k)"
    using assms by (simp add: ring_inv_def distinct_card)
  moreover have "card (set (qprocs k s)) \<le> card {..<NPROC}"
    using assms by (intro card_mono) (auto simp: ring_inv_def)
  ultimately show "nat (prioQSize s k) \<le> NPROC" by simp
  then show "prioQSize s k \<le> int NPROC" by linarith
qed

lemma ring_inv_nth:
  assumes "ring_inv k s" "j < nat (prioQSize s k)"
  obtains p where "prioQ s k (ring_pos k s j) = Some p" "p = qprocs k s ! j" "p < length (procs s)"
proof -
  have "prioQ s k (ring_pos k s j) \<in> set (qlist k s)"
    using assms(2) by (auto simp: qlist_def)
  with assms(1) obtain p where p: "prioQ s k (ring_pos k s j) = Some p"
    by (cases "prioQ s k (ring_pos k s j)") (auto simp: ring_inv_def)
  then have "p = qprocs k s ! j"
    using assms(2) by (simp add: qprocs_def qlist_def)
  moreover from this have "p < length (procs s)"
    using assms nth_mem[of j "qprocs k s"] unfolding ring_inv_def
    by (metis length_qprocs lessThan_iff subsetD)
  ultimately show thesis using p that by blast
qed

lemma backIndex_eq:
  assumes "ring_inv k s"
  shows "backIndex k s = int (ring_pos k s (nat (prioQSize s k)))" "0 \<le> backIndex k s"
proof -
  have "backIndex k s = (prioQStart s k + prioQSize s k) mod MAX_PROC_COUNT"
    using assms by (simp add: backIndex_def ring_inv_def MAX_PROC_COUNT_def)
  also have "\<dots> = int ((nat (prioQStart s k) + nat (prioQSize s k)) mod RING)"
    using assms by (simp add: ring_inv_def zmod_int)
  finally show "backIndex k s = int (ring_pos k s (nat (prioQSize s k)))"
    by (simp add: ring_pos_def)
  then show "0 \<le> backIndex k s" by simp
qed

text \<open>The walk of the code from the start of a well-formed ring visits its live positions.\<close>

lemma ring_walk_live:
  assumes "ring_inv k s"
  shows "ring_walk RING (nat (prioQStart s k)) (nat (backIndex k s))
       = map (ring_pos k s) [0..<nat (prioQSize s k)]"
proof -
  have lt: "nat (prioQStart s k) < RING" "nat (prioQSize s k) < RING"
    using assms ring_inv_size[OF assms] RING_pos(2) by (auto simp: ring_inv_def RING_def)
  then show ?thesis
    using ring_walk_eq[OF lt, of RING] backIndex_eq(1)[OF assms]
    by (simp add: ring_pos_def[abs_def])
qed

section \<open>The operations on well-formed rings\<close>

lemma ring_cong:
  assumes "prioQ t k = prioQ s k" "prioQSize t k = prioQSize s k" "prioQStart t k = prioQStart s k"
  shows "ring_pos k t = ring_pos k s" "qlist k t = qlist k s" "qprocs k t = qprocs k s"
    "length (procs t) = length (procs s) \<Longrightarrow> ring_inv k t = ring_inv k s"
  using assms by (auto simp: ring_pos_def[abs_def] qlist_def qprocs_def ring_inv_def)

lemma getFront_hd:
  assumes "q_ok q" "ring_inv (nat q) s" "qprocs (nat q) s \<noteq> []"
  shows "getFront q s = Inr (Some (hd (qprocs (nat q) s)))"
proof -
  have sz: "0 < nat (prioQSize s (nat q))"
    using assms(3) length_qprocs[of "nat q" s] by (metis length_greater_0_conv)
  from ring_inv_nth[OF assms(2) sz] obtain p where
    p: "prioQ s (nat q) (ring_pos (nat q) s 0) = Some p" "p = qprocs (nat q) s ! 0" by blast
  have "ring_pos (nat q) s 0 = nat (prioQStart s (nat q))"
    using assms(2) by (auto simp: ring_pos_def ring_inv_def RING_def)
  with p sz assms show ?thesis
    by (simp add: getFront_def hd_conv_nth)
qed

lemma getFront_empty:
  assumes "q_ok q" "ring_inv (nat q) s" "qprocs (nat q) s = []"
  shows "getFront q s = Inl (Panic ''Getting front of empty queue'')"
    "popFront q s = Inl (Panic ''Empty stack, cannot pop'')"
proof -
  have "nat (prioQSize s (nat q)) = 0"
    using assms(3) length_qprocs[of "nat q" s] by simp
  with assms show "getFront q s = Inl (Panic ''Getting front of empty queue'')"
    "popFront q s = Inl (Panic ''Empty stack, cannot pop'')"
    by (auto simp: getFront_def popFront_def ring_inv_def)
qed

text \<open>The state after removing the front of ring \<open>k\<close>.\<close>

definition popped :: "nat \<Rightarrow> 'a kst_scheme \<Rightarrow> 'a kst_scheme" where
  "popped k s = s\<lparr>prioQStart := (prioQStart s)(k := int (ring_pos k s 1)),
                  prioQSize := (prioQSize s)(k := prioQSize s k - 1)\<rparr>"

lemma popped_fields [simp]:
  "prioQ (popped k s) = prioQ s" "prioQSize (popped k s) k = prioQSize s k - 1"
  "procs (popped k s) = procs s" "prioQStart (popped k s) k = int (ring_pos k s 1)"
  by (simp_all add: popped_def)

lemma ring_pos_popped [simp]: "ring_pos k (popped k s) j = ring_pos k s (Suc j)"
  by (simp add: ring_pos_def popped_def mod_add_left_eq)

lemma popFront_eq:
  assumes "q_ok q" "ring_inv (nat q) s" "qprocs (nat q) s \<noteq> []"
  shows "popFront q s = Inr (Some (hd (qprocs (nat q) s)), popped (nat q) s)"
proof -
  let ?k = "nat q" and ?st = "prioQStart s (nat q)"
  have bounds: "0 \<le> ?st" "?st < int RING"
    using assms(2) by (auto simp: ring_inv_def)
  have "(if ?st + 1 = MAX_PROC_COUNT then 0 else ?st + 1) = int (ring_pos ?k s 1)"
  proof (cases "?st + 1 = int RING")
    case True
    then have "nat ?st + 1 = RING" using bounds by linarith
    with True show ?thesis by (simp add: ring_pos_def)
  next
    case False
    then have "nat ?st + 1 < RING" using bounds by linarith
    with False bounds show ?thesis by (simp add: ring_pos_def)
  qed
  moreover have "prioQSize s ?k \<noteq> 0"
    using assms(3) length_qprocs[of ?k s] by (metis length_0_conv nat_0)
  ultimately show ?thesis
    using assms getFront_hd[OF assms]
    by (simp add: popFront_def popped_def Let_def)
qed

lemma qprocs_popped:
  assumes "ring_inv k s" "qprocs k s \<noteq> []"
  shows "qprocs k (popped k s) = tl (qprocs k s)" "ring_inv k (popped k s)"
    "k' \<noteq> k \<Longrightarrow> qprocs k' (popped k s) = qprocs k' s"
    "k' \<noteq> k \<Longrightarrow> ring_inv k' (popped k s) = ring_inv k' s"
proof -
  have pos: "0 < prioQSize s k"
    using assms length_qprocs[of k s] by (metis length_greater_0_conv zero_less_nat_eq)
  then have sz: "nat (prioQSize s k) = Suc (nat (prioQSize s k - 1))" by simp
  have ql: "qlist k (popped k s) = tl (qlist k s)"
    by (simp add: qlist_def sz upt_conv_Cons map_Suc_upt[symmetric] o_def del: upt_Suc map_Suc_upt)
  then show tl: "qprocs k (popped k s) = tl (qprocs k s)"
    by (simp add: qprocs_def map_tl)
  have "set (tl (qlist k s)) \<subseteq> set (qlist k s)" "set (tl (qprocs k s)) \<subseteq> set (qprocs k s)"
    using list.set_sel(2) by (metis subsetI tl_Nil)+
  moreover have "int (ring_pos k s 1) < MAX_PROC_COUNT"
    using ring_pos_lt[of k s 1] by (simp only: RING_pos(3)[symmetric] of_nat_less_iff)
  ultimately show "ring_inv k (popped k s)"
    using assms(1) pos unfolding ring_inv_def ql tl
    by (auto simp: distinct_tl)
qed (auto simp: popped_def qprocs_def qlist_def ring_pos_def[abs_def] ring_inv_def)

lemma qframe_popped [simp]: "qframe s (popped k s)"
  by (simp add: qframe_def popped_def)

text \<open>The state after appending slot \<open>p\<close> to ring \<open>q\<close>.\<close>

definition pushed :: "int \<Rightarrow> nat \<Rightarrow> 'a kst_scheme \<Rightarrow> 'a kst_scheme" where
  "pushed q p s =
    (let bi = backIndex (nat q) s;
         s1 = upd_proc p (\<lambda>x. x\<lparr>stat := (stat x)\<lparr>alloted_q := q, alloted_pos := bi\<rparr>\<rparr>) s
     in s1\<lparr>prioQ := (prioQ s1)(nat q := (prioQ s1 (nat q))(nat bi := Some p)),
           prioQSize := (prioQSize s1)(nat q := prioQSize s1 (nat q) + 1)\<rparr>)"

definition same_pid_queued :: "nat \<Rightarrow> nat \<Rightarrow> 'a kst_scheme \<Rightarrow> bool" where
  "same_pid_queued k p s \<longleftrightarrow> (\<exists>r \<in> set (qprocs k s). pid (pc s r) = pid (pc s p))"

lemma pushBack_eq:
  assumes "q_ok q" "ring_inv (nat q) s"
  shows "pushBack q (Some p) s = Inr (if same_pid_queued (nat q) p s then s else pushed q p s)"
proof -
  let ?k = "nat q"
  have "(\<exists>i \<in> set (map (ring_pos ?k s) [0..<nat (prioQSize s ?k)]).
           case prioQ s ?k i of None \<Rightarrow> False | Some r \<Rightarrow> pid (pc s r) = pid (pc s p))
        \<longleftrightarrow> same_pid_queued ?k p s" (is "?L \<longleftrightarrow> ?R")
  proof
    assume ?L
    then obtain j where j: "j < nat (prioQSize s ?k)"
      "case prioQ s ?k (ring_pos ?k s j) of None \<Rightarrow> False | Some r \<Rightarrow> pid (pc s r) = pid (pc s p)"
      by auto
    from ring_inv_nth[OF assms(2) j(1)] obtain r where
      r: "prioQ s ?k (ring_pos ?k s j) = Some r" "r = qprocs ?k s ! j" by blast
    then have "r \<in> set (qprocs ?k s)" using j(1) by simp
    with r j(2) show ?R by (auto simp: same_pid_queued_def)
  next
    assume ?R
    then obtain j where j: "j < nat (prioQSize s ?k)" "pid (pc s (qprocs ?k s ! j)) = pid (pc s p)"
      by (auto simp: same_pid_queued_def in_set_conv_nth)
    from ring_inv_nth[OF assms(2) j(1)] obtain r where
      "prioQ s ?k (ring_pos ?k s j) = Some r" "r = qprocs ?k s ! j" by blast
    with j show ?L by (auto intro!: bexI[of _ j])
  qed
  then show ?thesis
    using assms backIndex_eq(2)[OF assms(2)] ring_walk_live[OF assms(2)]
    by (simp add: pushBack_def pushed_def Let_def)
qed

lemma pushed_fields [simp]:
  "prioQStart (pushed q p s) = prioQStart s"
  "prioQSize (pushed q p s) (nat q) = prioQSize s (nat q) + 1"
  "length (procs (pushed q p s)) = length (procs s)"
  "ring_pos k (pushed q p s) = ring_pos k s"
  by (simp_all add: pushed_def Let_def ring_pos_def[abs_def])

lemma pushed_other:
  "k \<noteq> nat q \<Longrightarrow> prioQ (pushed q p s) k = prioQ s k"
  "k \<noteq> nat q \<Longrightarrow> prioQSize (pushed q p s) k = prioQSize s k"
  "r \<noteq> p \<Longrightarrow> pc (pushed q p s) r = pc s r"
  by (simp_all add: pushed_def Let_def)

lemma pc_pushed_same:
  "p < length (procs s) \<Longrightarrow> pc (pushed q p s) p =
     (pc s p)\<lparr>stat := (stat (pc s p))\<lparr>alloted_q := q, alloted_pos := backIndex (nat q) s\<rparr>\<rparr>"
  by (simp add: pushed_def Let_def)

lemma prioQ_pushed:
  assumes "ring_inv (nat q) s"
  shows "prioQ (pushed q p s) (nat q) =
    (prioQ s (nat q))(ring_pos (nat q) s (nat (prioQSize s (nat q))) := Some p)"
  using backIndex_eq(1)[OF assms] by (simp add: pushed_def Let_def)

lemma qframe_pushed [simp]: "p < length (procs s) \<Longrightarrow> qframe s (pushed q p s)"
  by (auto simp: qframe_def pushed_def Let_def pc_upd_proc unq_def)

lemma qlist_pushed:
  assumes inv: "ring_inv (nat q) s"
  shows "qlist (nat q) (pushed q p s) = qlist (nat q) s @ [Some p]"
proof -
  let ?k = "nat q" and ?n = "nat (prioQSize s (nat q))"
  have n: "nat (prioQSize s ?k + 1) = Suc ?n" "?n < RING"
    using inv ring_inv_size(1)[OF inv] RING_pos(2) by (auto simp: ring_inv_def)
  have "prioQ (pushed q p s) ?k (ring_pos ?k s j) = prioQ s ?k (ring_pos ?k s j)" if "j < ?n" for j
    using that n(2) by (auto simp: prioQ_pushed[OF inv] dest: ring_pos_inj)
  then show ?thesis
    by (simp add: qlist_def n prioQ_pushed[OF inv])
qed

lemma qprocs_pushed:
  assumes inv: "ring_inv (nat q) s"
  shows "qprocs (nat q) (pushed q p s) = qprocs (nat q) s @ [p]"
    "k \<noteq> nat q \<Longrightarrow> qprocs k (pushed q p s) = qprocs k s"
    "k \<noteq> nat q \<Longrightarrow> ring_inv k (pushed q p s) = ring_inv k s"
  using pushed_other(1,2)[of k q p s]
  by (simp_all add: qprocs_def qlist_pushed[OF inv]) (auto simp: qlist_def ring_inv_def qprocs_def)

lemma ring_inv_pushed:
  assumes inv: "ring_inv (nat q) s" and p: "p < length (procs s)" "p \<notin> set (qprocs (nat q) s)"
  shows "ring_inv (nat q) (pushed q p s)"
  using assms
  by (auto simp: ring_inv_def qlist_pushed[OF inv] qprocs_pushed(1)[OF inv])

text \<open>A slot is queued nowhere.\<close>

definition unqueued :: "nat \<Rightarrow> 'a kst_scheme \<Rightarrow> bool" where
  "unqueued p s \<longleftrightarrow> (\<forall>k < nat PQ_COUNT. p \<notin> set (qprocs k s))"

lemma q_ok_nat: "q_ok q \<Longrightarrow> nat q < nat PQ_COUNT"
  by (auto simp: q_ok_def PQ_COUNT_def)

lemma pos_invD:
  assumes "mlfq_inv s" "k < nat PQ_COUNT" "j < nat (prioQSize s k)"
  shows "alloted_q (stat (pc s (qprocs k s ! j))) = int k"
    "alloted_pos (stat (pc s (qprocs k s ! j))) = int (ring_pos k s j)"
proof -
  from assms obtain p where "prioQ s k (ring_pos k s j) = Some p" "p = qprocs k s ! j"
    using ring_inv_nth[of k s j] by (auto simp: mlfq_inv_def)
  with assms show "alloted_q (stat (pc s (qprocs k s ! j))) = int k"
    "alloted_pos (stat (pc s (qprocs k s ! j))) = int (ring_pos k s j)"
    by (auto simp: mlfq_inv_def pos_inv_def)
qed

lemma pos_inv_entry:
  assumes "mlfq_inv s" "k < nat PQ_COUNT" "x < nat (prioQSize s k)"
    "prioQ s k (ring_pos k s x) = Some p"
  shows "alloted_q (stat (pc s p)) = int k"
  using assms unfolding mlfq_inv_def pos_inv_def by blast

lemma pos_invI:
  assumes rings: "\<And>k. k < nat PQ_COUNT \<Longrightarrow> ring_inv k s"
    and "\<And>k j. k < nat PQ_COUNT \<Longrightarrow> j < nat (prioQSize s k) \<Longrightarrow>
      alloted_q (stat (pc s (qprocs k s ! j))) = int k \<and>
      alloted_pos (stat (pc s (qprocs k s ! j))) = int (ring_pos k s j)"
  shows "mlfq_inv s"
  unfolding mlfq_inv_def pos_inv_def
proof (intro conjI allI impI)
  fix k j p
  assume kj: "k < nat PQ_COUNT" "j < nat (prioQSize s k)" "prioQ s k (ring_pos k s j) = Some p"
  from ring_inv_nth[OF rings[OF kj(1)] kj(2)] kj(3) have "p = qprocs k s ! j"
    by (metis option.inject)
  with assms(2)[OF kj(1,2)] show "alloted_q (stat (pc s p)) = int k"
    "alloted_pos (stat (pc s p)) = int (ring_pos k s j)" by auto
qed (use rings in auto)

lemma mlfq_inv_pushed:
  assumes inv: "mlfq_inv s" and q: "q_ok q" and p: "p < length (procs s)" "unqueued p s"
  shows "mlfq_inv (pushed q p s)"
proof (rule pos_invI)
  have ri: "ring_inv k s" if "k < nat PQ_COUNT" for k
    using that inv by (simp add: mlfq_inv_def)
  note riq = ri[OF q_ok_nat[OF q]]
  have notin: "p \<notin> set (qprocs k s)" if "k < nat PQ_COUNT" for k
    using p(2) that by (simp add: unqueued_def)
  show "ring_inv k (pushed q p s)" if "k < nat PQ_COUNT" for k
    using that ri[OF that] ring_inv_pushed[OF riq p(1) notin[OF q_ok_nat[OF q]]]
    by (cases "k = nat q") (auto simp: qprocs_pushed(3)[OF riq])
  fix k j assume k: "k < nat PQ_COUNT" and j: "j < nat (prioQSize (pushed q p s) k)"
  show "alloted_q (stat (pc (pushed q p s) (qprocs k (pushed q p s) ! j))) = int k \<and>
      alloted_pos (stat (pc (pushed q p s) (qprocs k (pushed q p s) ! j))) =
        int (ring_pos k (pushed q p s) j)"
  proof (cases "j < nat (prioQSize s k)")
    case True
    let ?r = "qprocs k s ! j"
    have "?r \<in> set (qprocs k s)" using True by simp
    with notin[OF k] have "?r \<noteq> p" by auto
    moreover have "qprocs k (pushed q p s) ! j = ?r"
      using True qprocs_pushed[OF riq] by (cases "k = nat q") (auto simp: nth_append)
    ultimately show ?thesis using pos_invD[OF inv k True] by (simp add: pushed_other(3))
  next
    case False
    with j have kq: "k = nat q" by (cases "k = nat q") (auto simp: pushed_other(2))
    with j False have jn: "j = nat (prioQSize s k)" by (simp add: nat_add_distrib)
    then have "qprocs k (pushed q p s) ! j = p"
      using kq qprocs_pushed(1)[OF riq] by (simp add: nth_append)
    with kq q jn show ?thesis
      using backIndex_eq(1)[OF riq] by (simp add: pc_pushed_same[OF p(1)] q_ok_def)
  qed
qed

section \<open>Deletion from the middle of a ring\<close>

lemma set_stat_pos_unq: "unq (x\<lparr>stat := (stat x)\<lparr>alloted_pos := v\<rparr>\<rparr>) = unq x"
  by (simp add: unq_def)

text \<open>
  The effect of the shift from live position \<open>j\<close> to the new back \<open>n\<close>: every slot takes its
  successor's entry, the moved processes are told their new index, nothing else changes.
\<close>

definition shifted :: "nat \<Rightarrow> nat \<Rightarrow> nat \<Rightarrow> 'a kst_scheme \<Rightarrow> 'a kst_scheme \<Rightarrow> bool" where
  "shifted k j n s t \<longleftrightarrow> qframe s t \<and>
     prioQSize t = prioQSize s \<and> prioQStart t = prioQStart s \<and>
     (\<forall>k'. k' \<noteq> k \<longrightarrow> prioQ t k' = prioQ s k') \<and>
     (\<forall>i. j \<le> i \<and> i < n \<longrightarrow> prioQ t k (ring_pos k s i) = prioQ s k (ring_pos k s (Suc i))) \<and>
     (\<forall>x. x \<notin> ring_pos k s ` {j..<n} \<longrightarrow> prioQ t k x = prioQ s k x) \<and>
     (\<forall>i r. j \<le> i \<and> i < n \<and> prioQ s k (ring_pos k s (Suc i)) = Some r \<longrightarrow>
        alloted_q (stat (pc t r)) = alloted_q (stat (pc s r)) \<and>
        alloted_pos (stat (pc t r)) = int (ring_pos k s i)) \<and>
     (\<forall>r. Some r \<notin> (\<lambda>i. prioQ s k (ring_pos k s i)) ` {Suc j..n} \<longrightarrow> pc t r = pc s r)"

lemma shiftedD_pos:
  assumes "shifted k j n s t" "j \<le> i" "i < n" "prioQ s k (ring_pos k s (Suc i)) = Some r"
  shows "alloted_q (stat (pc t r)) = alloted_q (stat (pc s r))"
    "alloted_pos (stat (pc t r)) = int (ring_pos k s i)"
  using assms unfolding shifted_def by blast+

text \<open>One iteration of the loop.\<close>

definition shift1 :: "nat \<Rightarrow> nat \<Rightarrow> nat \<Rightarrow> 'a kst_scheme \<Rightarrow> 'a kst_scheme" where
  "shift1 k i r s = upd_proc r (\<lambda>x. x\<lparr>stat := (stat x)\<lparr>alloted_pos := int i\<rparr>\<rparr>)
             (s\<lparr>prioQ := (prioQ s)(k := (prioQ s k)(i := Some r))\<rparr>)"

lemma shift1_frame [simp]:
  "prioQSize (shift1 k i r s) = prioQSize s" "prioQStart (shift1 k i r s) = prioQStart s"
  "length (procs (shift1 k i r s)) = length (procs s)"
  "ring_pos k' (shift1 k i r s) = ring_pos k' s"
  "k' \<noteq> k \<Longrightarrow> prioQ (shift1 k i r s) k' = prioQ s k'"
  "prioQ (shift1 k i r s) k = (prioQ s k)(i := Some r)"
  by (simp_all add: shift1_def ring_pos_def[abs_def])

lemma pc_shift1: "r < length (procs s) \<Longrightarrow> pc (shift1 k i r s) x =
    (if x = r then (pc s r)\<lparr>stat := (stat (pc s r))\<lparr>alloted_pos := int i\<rparr>\<rparr> else pc s x)"
  by (simp add: shift1_def pc_upd_proc)

lemma qframe_shift1: "r < length (procs s) \<Longrightarrow> qframe s (shift1 k i r s)"
  by (auto simp: qframe_def pc_shift1 set_stat_pos_unq) (simp_all add: shift1_def)

lemma shift1_ring:
  assumes "n < RING" "j < i" "i \<le> n"
  shows "prioQ (shift1 k (ring_pos k s j) r s) k (ring_pos k s i) = prioQ s k (ring_pos k s i)"
  using assms by (auto dest: ring_pos_inj)

lemma shifted_step:
  assumes n: "n < RING" "j < n" and r: "r < length (procs s)" "prioQ s k (ring_pos k s (Suc j)) = Some r"
    and inj: "inj_on (\<lambda>i. prioQ s k (ring_pos k s i)) {Suc j..n}"
    and t: "shifted k (Suc j) n (shift1 k (ring_pos k s j) r s) t"
  shows "shifted k j n s t"
proof -
  let ?s1 = "shift1 k (ring_pos k s j) r s"
  have nx: "prioQ s k (ring_pos k s i) \<noteq> Some r" if "Suc j < i" "i \<le> n" for i
    using inj_onD[OF inj, of i "Suc j"] that r(2) n by auto
  have pj: "ring_pos k s j \<notin> ring_pos k s ` {Suc j..<n}"
    using n by (auto dest: ring_pos_inj)
  have im: "(\<lambda>i. prioQ ?s1 k (ring_pos k s i)) ` {Suc (Suc j)..n}
      = (\<lambda>i. prioQ s k (ring_pos k s i)) ` {Suc (Suc j)..n}"
    using n(1) by (intro image_cong refl shift1_ring) auto
  have "Some r \<notin> (\<lambda>i. prioQ s k (ring_pos k s i)) ` {Suc (Suc j)..n}"
    using nx by (force simp: Suc_le_eq)
  then have pcr: "pc t r = pc ?s1 r"
    using t im by (simp add: shifted_def del: shift1_frame(6))
  have "qframe s t"
    using t by (intro qframe_trans[OF qframe_shift1[OF r(1), of k "ring_pos k s j"]])
      (simp add: shifted_def)
  moreover have "prioQ t k (ring_pos k s i) = prioQ s k (ring_pos k s (Suc i))" if "j \<le> i" "i < n" for i
    using t pj r that shift1_ring[OF n(1), of j "Suc i" k s r]
    by (cases "i = j") (auto simp: shifted_def simp del: shift1_frame(6), simp)
  moreover have "prioQ t k x = prioQ s k x" if "x \<notin> ring_pos k s ` {j..<n}" for x
  proof -
    from that n have "x \<notin> ring_pos k s ` {Suc j..<n}" "x \<noteq> ring_pos k s j" by auto
    with t show ?thesis by (simp add: shifted_def)
  qed
  moreover have "alloted_q (stat (pc t r')) = alloted_q (stat (pc s r')) \<and>
        alloted_pos (stat (pc t r')) = int (ring_pos k s i)"
    if "j \<le> i" "i < n" "prioQ s k (ring_pos k s (Suc i)) = Some r'" for i r'
  proof (cases "i = j")
    case True
    with that r pcr show ?thesis by (simp add: pc_shift1)
  next
    case False
    with that have "prioQ ?s1 k (ring_pos k s (Suc i)) = Some r'" "Suc j \<le> i" "r' \<noteq> r"
      using shift1_ring[OF n(1), of j "Suc i" k s r] nx[of "Suc i"] by auto
    with t that r show ?thesis by (simp add: shifted_def pc_shift1 del: shift1_frame(6))
  qed
  moreover have "pc t r' = pc s r'" if "Some r' \<notin> (\<lambda>i. prioQ s k (ring_pos k s i)) ` {Suc j..n}" for r'
  proof -
    have "r' \<noteq> r" using that r(2) n by (force simp: image_iff)
    moreover have "Some r' \<notin> (\<lambda>i. prioQ s k (ring_pos k s i)) ` {Suc (Suc j)..n}"
      using that by auto
    then have "pc t r' = pc ?s1 r'"
      using t im by (simp add: shifted_def del: shift1_frame(6))
    ultimately show ?thesis using r by (simp add: pc_shift1)
  qed
  moreover have "prioQSize t = prioQSize s \<and> prioQStart t = prioQStart s \<and>
      (\<forall>k'. k' \<noteq> k \<longrightarrow> prioQ t k' = prioQ s k')"
    using t by (simp add: shifted_def)
  ultimately show ?thesis unfolding shifted_def by blast
qed

lemma shift_down_spec:
  assumes "n < RING" "j \<le> n"
    and "\<And>i. j \<le> i \<Longrightarrow> i < n \<Longrightarrow> \<exists>r < length (procs s). prioQ s k (ring_pos k s (Suc i)) = Some r"
    and "inj_on (\<lambda>i. prioQ s k (ring_pos k s i)) {Suc j..n}"
  shows "\<exists>t. shift_down k (map (ring_pos k s) [j..<n]) s = Inr t \<and> shifted k j n s t"
  using assms
proof (induction "n - j" arbitrary: j s)
  case 0
  then have "j = n" by simp
  then show ?case by (intro exI[of _ s]) (auto simp: shifted_def)
next
  case (Suc d)
  then have jn: "j < n" by simp
  obtain r where r: "r < length (procs s)" "prioQ s k (ring_pos k s (Suc j)) = Some r"
    using Suc.prems(3)[of j] jn by auto
  let ?s1 = "shift1 k (ring_pos k s j) r s"
  have q1: "prioQ ?s1 k (ring_pos k s i) = prioQ s k (ring_pos k s i)" if "j < i" "i \<le> n" for i
    using that by (rule shift1_ring[OF Suc.prems(1)])
  have "\<exists>t. shift_down k (map (ring_pos k ?s1) [Suc j..<n]) ?s1 = Inr t \<and> shifted k (Suc j) n ?s1 t"
  proof (rule Suc.hyps(1))
    show "inj_on (\<lambda>i. prioQ ?s1 k (ring_pos k ?s1 i)) {Suc (Suc j)..n}"
      using Suc.prems(4) q1 by (auto simp: inj_on_def simp del: shift1_frame(6))
  qed (use Suc.hyps(2) Suc.prems jn q1 in \<open>auto simp del: shift1_frame(6)\<close>)
  then obtain t where t: "shift_down k (map (ring_pos k s) [Suc j..<n]) ?s1 = Inr t"
    "shifted k (Suc j) n ?s1 t" by auto
  have "(ring_pos k s j + 1) mod RING = ring_pos k s (Suc j)"
    by (simp add: ring_pos_def mod_add_left_eq mod_Suc_eq)
  then have "shift_down k (map (ring_pos k s) [j..<n]) s = Inr t"
    using jn r t(1) by (simp add: upt_conv_Cons shift1_def)
  with shifted_step[OF Suc.prems(1) jn r Suc.prems(4) t(2)] show ?case by blast
qed

text \<open>The state in which \<open>deleteIdx\<close> starts to shift.\<close>

definition holed :: "nat \<Rightarrow> nat \<Rightarrow> 'a kst_scheme \<Rightarrow> 'a kst_scheme" where
  "holed k x s = s\<lparr>prioQ := (prioQ s)(k := (prioQ s k)(x := None)),
                  prioQSize := (prioQSize s)(k := prioQSize s k - 1)\<rparr>"

lemma holed_fields [simp]:
  "prioQStart (holed k x s) = prioQStart s" "procs (holed k x s) = procs s"
  "prioQSize (holed k x s) k = prioQSize s k - 1" "ring_pos k' (holed k x s) = ring_pos k' s"
  "prioQ (holed k x s) k = (prioQ s k)(x := None)"
  "k' \<noteq> k \<Longrightarrow> prioQ (holed k x s) k' = prioQ s k'"
  "k' \<noteq> k \<Longrightarrow> prioQSize (holed k x s) k' = prioQSize s k'" "pc (holed k x s) = pc s"
  by (simp_all add: holed_def ring_pos_def[abs_def])

lemma qframe_holed: "qframe s (holed k x s)"
  by (simp add: qframe_def) (simp add: holed_def)

lemma delete_walk:
  assumes inv: "ring_inv k s" and j: "j < nat (prioQSize s k)"
  defines "s1 \<equiv> holed k (ring_pos k s j) s"
  shows "0 \<le> backIndex k s1"
    "ring_walk RING (ring_pos k s j) (nat (backIndex k s1)) =
       map (ring_pos k s) [j..<nat (prioQSize s k) - 1]"
proof -
  let ?n = "nat (prioQSize s k) - 1"
  have n: "?n < RING" "j \<le> ?n"
    using j ring_inv_size(1)[OF inv] RING_pos(2) by auto
  have "backIndex k s1 = (prioQStart s k + (prioQSize s k - 1)) mod MAX_PROC_COUNT"
    using inv j by (simp add: backIndex_def s1_def ring_inv_def MAX_PROC_COUNT_def)
  also have "prioQStart s k + (prioQSize s k - 1) = int (nat (prioQStart s k) + ?n)"
    using inv j by (simp add: ring_inv_def)
  also have "\<dots> mod MAX_PROC_COUNT = int ((nat (prioQStart s k) + ?n) mod RING)"
    by (simp only: RING_pos(3)[symmetric] zmod_int)
  finally have b: "backIndex k s1 = int (ring_pos k s ?n)" by (simp add: ring_pos_def)
  then show "0 \<le> backIndex k s1" by simp
  have "ring_pos k s ?n = (ring_pos k s j + (?n - j)) mod RING"
    using n(2) by (metis (no_types, lifting) add.assoc le_add_diff_inverse mod_add_left_eq ring_pos_def)
  then have "ring_walk RING (ring_pos k s j) (nat (backIndex k s1)) =
      map (\<lambda>i. (ring_pos k s j + i) mod RING) [0..<?n - j]"
    using b n less_imp_diff_less[OF n(1), of j] ring_walk_eq[of "ring_pos k s j" "?n - j" RING]
    by simp
  also have "\<dots> = map (ring_pos k s) (map (\<lambda>i. j + i) [0..<?n - j])"
    by (simp add: ring_pos_def mod_add_left_eq add.assoc)
  also have "map (\<lambda>i. j + i) [0..<?n - j] = [j..<?n]"
    by (auto intro!: nth_equalityI)
  finally show "ring_walk RING (ring_pos k s j) (nat (backIndex k s1)) = map (ring_pos k s) [j..<?n]" .
qed

lemma entries_inj:
  assumes inv: "ring_inv k s"
  shows "inj_on (\<lambda>i. prioQ s k (ring_pos k s i)) {..<nat (prioQSize s k)}"
proof (rule inj_onI)
  fix a b assume ab: "a \<in> {..<nat (prioQSize s k)}" "b \<in> {..<nat (prioQSize s k)}"
    "prioQ s k (ring_pos k s a) = prioQ s k (ring_pos k s b)"
  then have "qprocs k s ! a = qprocs k s ! b" by (simp add: qprocs_def qlist_def)
  with ab inv show "a = b" by (simp add: ring_inv_def nth_eq_iff_index_eq)
qed

lemma deleteIdx_shifted:
  assumes q: "q_ok q" and inv: "ring_inv (nat q) s" and j: "j < nat (prioQSize s (nat q))"
  defines "s1 \<equiv> holed (nat q) (ring_pos (nat q) s j) s"
  shows "\<exists>t. deleteIdx q (int (ring_pos (nat q) s j)) s = Inr t \<and>
    shifted (nat q) j (nat (prioQSize s (nat q)) - 1) s1 t"
proof -
  let ?k = "nat q" and ?n = "nat (prioQSize s (nat q)) - 1" and ?x = "ring_pos (nat q) s j"
  have n: "?n < RING" "j \<le> ?n"
    using j ring_inv_size(1)[OF inv] RING_pos(2) by auto
  have ne: "ring_pos ?k s i \<noteq> ?x" if "j < i" "i \<le> ?n" for i
    using that n by (auto dest: ring_pos_inj)
  have q1: "prioQ s1 ?k (ring_pos ?k s i) = prioQ s ?k (ring_pos ?k s i)" if "j < i" "i \<le> ?n" for i
    using ne[OF that] by (simp add: s1_def)
  have "\<exists>t. shift_down ?k (map (ring_pos ?k s1) [j..<?n]) s1 = Inr t \<and> shifted ?k j ?n s1 t"
  proof (rule shift_down_spec[OF n])
    show "\<exists>r < length (procs s1). prioQ s1 ?k (ring_pos ?k s1 (Suc i)) = Some r"
      if "j \<le> i" "i < ?n" for i
    proof -
      from that have "Suc i < nat (prioQSize s ?k)" by simp
      from ring_inv_nth[OF inv this] show ?thesis
        using that q1[of "Suc i"] by (metis Suc_leI holed_fields(2,4) le_imp_less_Suc s1_def)
    qed
    have "inj_on (\<lambda>i. prioQ s ?k (ring_pos ?k s i)) {Suc j..?n}"
      using j by (intro inj_on_subset[OF entries_inj[OF inv]]) auto
    then show "inj_on (\<lambda>i. prioQ s1 ?k (ring_pos ?k s1 i)) {Suc j..?n}"
      using q1 by (simp add: inj_on_def s1_def)
  qed
  moreover have "prioQ s ?k ?x \<noteq> None"
    using ring_inv_nth[OF inv j] by auto
  moreover have "int ?x < MAX_PROC_COUNT"
    using ring_pos_lt[of ?k s j] by (simp only: RING_pos(3)[symmetric] of_nat_less_iff)
  ultimately show ?thesis
    using q delete_walk[OF inv j]
    by (simp add: deleteIdx_def Let_def s1_def) (simp add: holed_def)
qed

text \<open>The ring after the deletion, entry by entry.\<close>

lemma shifted_ring:
  assumes inv: "ring_inv k s" and j: "j < nat (prioQSize s k)"
    and t: "shifted k j (nat (prioQSize s k) - 1) (holed k (ring_pos k s j) s) t"
  shows "prioQStart t = prioQStart s" "nat (prioQSize t k) = nat (prioQSize s k) - 1"
    "0 \<le> prioQSize t k" "ring_pos k' t = ring_pos k' s" "qframe s t"
    "i < j \<Longrightarrow> prioQ t k (ring_pos k s i) = prioQ s k (ring_pos k s i)"
    "j \<le> i \<Longrightarrow> i < nat (prioQSize s k) - 1 \<Longrightarrow>
       prioQ t k (ring_pos k s i) = prioQ s k (ring_pos k s (Suc i))"
    "l \<noteq> k \<Longrightarrow> prioQ t l = prioQ s l" "l \<noteq> k \<Longrightarrow> prioQSize t l = prioQSize s l"
proof -
  let ?n = "nat (prioQSize s k) - 1" and ?x = "ring_pos k s j"
  have n: "?n < RING" "j \<le> ?n"
    using j ring_inv_size(1)[OF inv] RING_pos(2) by auto
  show st: "prioQStart t = prioQStart s" and "nat (prioQSize t k) = ?n" and "0 \<le> prioQSize t k"
    using t j by (auto simp: shifted_def)
  show "ring_pos k' t = ring_pos k' s" by (simp add: ring_pos_def[abs_def] st)
  show "qframe s t"
    using t by (intro qframe_trans[OF qframe_holed[of s k ?x]]) (simp add: shifted_def)
  show "prioQ t k (ring_pos k s i) = prioQ s k (ring_pos k s i)" if "i < j"
  proof -
    have "ring_pos k s i \<notin> ring_pos k s ` {j..<?n}" "ring_pos k s i \<noteq> ?x"
      using that n by (auto dest: ring_pos_inj)
    with t show ?thesis by (simp add: shifted_def)
  qed
  show "prioQ t k (ring_pos k s i) = prioQ s k (ring_pos k s (Suc i))" if "j \<le> i" "i < ?n"
  proof -
    have "ring_pos k s (Suc i) \<noteq> ?x" using that n by (auto dest: ring_pos_inj)
    with t that show ?thesis by (simp add: shifted_def)
  qed
  show "prioQ t l = prioQ s l" "prioQSize t l = prioQSize s l" if "l \<noteq> k"
    using t that by (simp_all add: shifted_def)
qed

lemma shifted_qlist:
  assumes inv: "ring_inv k s" and j: "j < nat (prioQSize s k)"
    and t: "shifted k j (nat (prioQSize s k) - 1) (holed k (ring_pos k s j) s) t"
  shows "qlist k t = take j (qlist k s) @ drop (Suc j) (qlist k s)"
    "qprocs k t = take j (qprocs k s) @ drop (Suc j) (qprocs k s)"
    "l \<noteq> k \<Longrightarrow> qprocs l t = qprocs l s" "ring_inv k t"
    "l \<noteq> k \<Longrightarrow> ring_inv l s \<Longrightarrow> ring_inv l t"
proof -
  note f = shifted_ring[OF assms]
  show ql: "qlist k t = take j (qlist k s) @ drop (Suc j) (qlist k s)"
  proof (rule nth_equalityI)
    show "length (qlist k t) = length (take j (qlist k s) @ drop (Suc j) (qlist k s))"
      using j by (simp add: f(2))
    fix i assume "i < length (qlist k t)"
    then show "qlist k t ! i = (take j (qlist k s) @ drop (Suc j) (qlist k s)) ! i"
      using j f(6)[of i] f(7)[of i] by (cases "i < j") (auto simp: qlist_def f(2,4) nth_append)
  qed
  then show qp: "qprocs k t = take j (qprocs k s) @ drop (Suc j) (qprocs k s)"
    by (simp add: qprocs_def take_map drop_map)
  have len: "length (procs t) = length (procs s)" using f(5) by (simp add: qframe_def)
  have "distinct (qprocs k t)"
    using inv by (auto simp: qp ring_inv_def dest: set_take_disj_set_drop_if_distinct[of _ j "Suc j"])
  moreover have "set (qlist k t) \<subseteq> set (qlist k s)" "set (qprocs k t) \<subseteq> set (qprocs k s)"
    by (auto simp: ql qp dest: in_set_takeD in_set_dropD)
  ultimately show "ring_inv k t"
    using inv f(1,3) len unfolding ring_inv_def by auto
  show "qprocs l t = qprocs l s" if "l \<noteq> k"
    using f(1,8,9) that by (intro ring_cong(3)) auto
  show "ring_inv l t" if "l \<noteq> k" "ring_inv l s"
    using f(1,8,9) that len by (simp add: ring_cong(4)[of t l s])
qed

lemma shifted_pos:
  assumes inv: "mlfq_inv s" and k: "k < nat PQ_COUNT" and j: "j < nat (prioQSize s k)"
    and t: "shifted k j (nat (prioQSize s k) - 1) (holed k (ring_pos k s j) s) t"
    and lj: "l < nat PQ_COUNT" "i < nat (prioQSize t l)"
  shows "alloted_q (stat (pc t (qprocs l t ! i))) = int l \<and>
    alloted_pos (stat (pc t (qprocs l t ! i))) = int (ring_pos l t i)"
proof -
  have ri: "ring_inv k s" "ring_inv l s" using inv k lj(1) by (auto simp: mlfq_inv_def)
  note f = shifted_ring[OF ri(1) j t] and g = shifted_qlist[OF ri(1) j t]
  let ?n = "nat (prioQSize s k) - 1" and ?E = "\<lambda>i. prioQ s k (ring_pos k s i)"
  have n: "?n < RING" using j ring_inv_size(1)[OF ri(1)] RING_pos(2) by auto
  have keep: "pc t r = pc s r" if "Some r \<notin> ?E ` {Suc j..?n}" for r
  proof -
    have "prioQ (holed k (ring_pos k s j) s) k (ring_pos k s i) = ?E i" if "Suc j \<le> i" "i \<le> ?n" for i
      using that n by (auto dest: ring_pos_inj)
    then have "Some r \<notin> (\<lambda>i. prioQ (holed k (ring_pos k s j) s) k (ring_pos k s i)) ` {Suc j..?n}"
      using that by (auto simp del: holed_fields(5) simp: image_iff)
    with t show ?thesis by (simp add: shifted_def)
  qed
  consider (other) "l \<noteq> k" | (low) "l = k" "i < j" | (high) "l = k" "j \<le> i" by linarith
  then show ?thesis
  proof cases
    case other
    then have i: "i < nat (prioQSize s l)" using lj(2) f(9) by simp
    have aq: "alloted_q (stat (pc s (qprocs l s ! i))) = int l" using pos_invD(1)[OF inv lj(1) i] .
    have "Some (qprocs l s ! i) \<notin> ?E ` {Suc j..?n}"
    proof
      assume "Some (qprocs l s ! i) \<in> ?E ` {Suc j..?n}"
      then obtain x where "Suc j \<le> x" "x \<le> ?n" "?E x = Some (qprocs l s ! i)" by force
      then have "alloted_q (stat (pc s (qprocs l s ! i))) = int k"
        using j by (intro pos_inv_entry[OF inv k]) auto
      with aq other show False by simp
    qed
    with keep other i show ?thesis
      using pos_invD[OF inv lj(1) i] by (simp add: g(3) f(4))
  next
    case low
    then have i: "i < nat (prioQSize s k)" using j by simp
    have qi: "qprocs k t ! i = qprocs k s ! i" using low j by (simp add: g(2) nth_append)
    have "Some (qprocs k s ! i) \<notin> ?E ` {Suc j..?n}"
    proof
      assume "Some (qprocs k s ! i) \<in> ?E ` {Suc j..?n}"
      then obtain x where x: "Suc j \<le> x" "x \<le> ?n" "?E x = Some (qprocs k s ! i)" by force
      moreover have "?E i = Some (qprocs k s ! i)" using ring_inv_nth[OF ri(1) i] by metis
      ultimately have "x = i" using inj_onD[OF entries_inj[OF ri(1)], of x i] i j by auto
      with x low show False by simp
    qed
    with keep low show ?thesis
      using pos_invD[OF inv k i] by (simp add: qi f(4))
  next
    case high
    then have i: "Suc i < nat (prioQSize s k)" "i < ?n" using lj(2) f(2) by auto
    have qi: "qprocs k t ! i = qprocs k s ! Suc i" using high j i by (simp add: g(2) nth_append)
    have "?E (Suc i) = Some (qprocs k s ! Suc i)" using ring_inv_nth[OF ri(1) i(1)] by metis
    moreover have "ring_pos k s (Suc i) \<noteq> ring_pos k s j"
      using high i n by (auto dest: ring_pos_inj)
    ultimately show ?thesis
      using shiftedD_pos[OF t high(2) i(2), of "qprocs k s ! Suc i"] high(1)
        pos_invD(1)[OF inv k i(1)] by (simp add: qi f(4))
  qed
qed

lemma deleteIdx_spec:
  assumes q: "q_ok q" and inv: "mlfq_inv s" and j: "j < nat (prioQSize s (nat q))"
  obtains t where "deleteIdx q (int (ring_pos (nat q) s j)) s = Inr t" "qframe s t"
    "qprocs (nat q) t = take j (qprocs (nat q) s) @ drop (Suc j) (qprocs (nat q) s)"
    "\<And>k. k \<noteq> nat q \<Longrightarrow> qprocs k t = qprocs k s" "mlfq_inv t"
proof -
  have ri: "ring_inv (nat q) s" using inv q_ok_nat[OF q] by (simp add: mlfq_inv_def)
  obtain t where t: "deleteIdx q (int (ring_pos (nat q) s j)) s = Inr t"
    "shifted (nat q) j (nat (prioQSize s (nat q)) - 1) (holed (nat q) (ring_pos (nat q) s j) s) t"
    using deleteIdx_shifted[OF q ri j] by blast
  have "mlfq_inv t"
  proof (rule pos_invI)
    show "ring_inv k t" if "k < nat PQ_COUNT" for k
      using that inv shifted_qlist(4,5)[OF ri j t(2)] by (cases "k = nat q") (auto simp: mlfq_inv_def)
  qed (rule shifted_pos[OF inv q_ok_nat[OF q] j t(2)])
  then show thesis
    using that[OF t(1)] shifted_qlist(2,3)[OF ri j t(2)] shifted_ring(5)[OF ri j t(2)] by blast
qed

section \<open>Promotion and demotion\<close>

lemma in_ring_unique:
  assumes "mlfq_inv s" "k < nat PQ_COUNT" "l < nat PQ_COUNT" "p \<in> set (qprocs k s)" "p \<in> set (qprocs l s)"
  shows "k = l"
proof -
  from assms(4,5) obtain i j where
    "i < nat (prioQSize s k)" "qprocs k s ! i = p" "j < nat (prioQSize s l)" "qprocs l s ! j = p"
    by (auto simp: in_set_conv_nth)
  with pos_invD(1)[OF assms(1,2)] pos_invD(1)[OF assms(1,3)] show ?thesis
    by (metis of_nat_eq_iff)
qed

lemma in_ring_getQIdx:
  assumes "mlfq_inv s" "k < nat PQ_COUNT" "p \<in> set (qprocs k s)"
  shows "getQIdx s p = int k"
  using assms pos_invD(1)[OF assms(1,2)] by (auto simp: in_set_conv_nth getQIdx_def)

lemma removed_not_in:
  assumes "distinct xs" "j < length xs"
  shows "xs ! j \<notin> set (take j xs @ drop (Suc j) xs)"
proof -
  have "distinct (take j xs @ xs ! j # drop (Suc j) xs)"
    unfolding id_take_nth_drop[OF assms(2), symmetric] by (rule assms(1))
  then show ?thesis by simp
qed

text \<open>
  \<open>pushBack\<close> of an unqueued process that no queued process shares a pid with: it is appended.
\<close>

lemma pushBack_fresh:
  assumes "mlfq_inv s" "q_ok q" "p < length (procs s)" "unqueued p s" "\<not> same_pid_queued (nat q) p s"
  shows "pushBack q (Some p) s = Inr (pushed q p s)" "mlfq_inv (pushed q p s)" "qframe s (pushed q p s)"
    "qprocs (nat q) (pushed q p s) = qprocs (nat q) s @ [p]"
    "l \<noteq> nat q \<Longrightarrow> qprocs l (pushed q p s) = qprocs l s" "getQIdx (pushed q p s) p = q"
proof -
  have ri: "ring_inv (nat q) s" using assms(1) q_ok_nat[OF assms(2)] by (simp add: mlfq_inv_def)
  show "pushBack q (Some p) s = Inr (pushed q p s)"
    using pushBack_eq[OF assms(2) ri] assms(5) by simp
  show "mlfq_inv (pushed q p s)" by (rule mlfq_inv_pushed[OF assms(1-4)])
  show "qframe s (pushed q p s)" using assms(3) by simp
  show "qprocs (nat q) (pushed q p s) = qprocs (nat q) s @ [p]" by (rule qprocs_pushed(1)[OF ri])
  show "l \<noteq> nat q \<Longrightarrow> qprocs l (pushed q p s) = qprocs l s" by (rule qprocs_pushed(2)[OF ri])
  show "getQIdx (pushed q p s) p = q" using assms(3) by (simp add: getQIdx_def pc_pushed_same)
qed

lemma incPrio_spec:
  assumes inv: "mlfq_inv s" and k: "k < nat PQ_COUNT" and j: "j < nat (prioQSize s k)"
    and p: "p = qprocs k s ! j" and dup: "\<And>r. r \<noteq> p \<Longrightarrow> r < NPROC \<Longrightarrow> pid (pc s r) \<noteq> pid (pc s p)"
  obtains t where "incPrio p s = Inr t" "mlfq_inv t" "qframe s t" "getQIdx t p = int (k - 1)"
    "\<And>l. qprocs l t = (if l = k then take j (qprocs k s) @ drop (Suc j) (qprocs k s) else qprocs l s)
         @ (if l = k - 1 then [p] else [])"
proof -
  have qk: "q_ok (int k)" "nat (int k) = k" "q_ok (int (k - 1))" using k by (auto simp: q_ok_def)
  have ri: "ring_inv l s" if "l < nat PQ_COUNT" for l using inv that by (simp add: mlfq_inv_def)
  have plt: "p < length (procs s)" "length (procs s) = NPROC"
    using ring_inv_nth[OF ri[OF k] j] p ri[OF k] by (auto simp: ring_inv_def)
  have pin: "p \<in> set (qprocs k s)" using p j by simp
  have q: "getQIdx s p = int k" "getQPos s p = int (ring_pos k s j)"
    using pos_invD[OF inv k j] by (simp_all add: getQIdx_def getQPos_def p)
  obtain u where u: "deleteIdx (int k) (int (ring_pos k s j)) s = Inr u" "qframe s u"
    "qprocs k u = take j (qprocs k s) @ drop (Suc j) (qprocs k s)"
    "\<And>l. l \<noteq> k \<Longrightarrow> qprocs l u = qprocs l s" "mlfq_inv u"
    using deleteIdx_spec[OF qk(1) inv, unfolded qk(2), OF j] by metis
  have unq: "unqueued p u"
    unfolding unqueued_def
  proof (intro allI impI)
    fix l assume l: "l < nat PQ_COUNT"
    show "p \<notin> set (qprocs l u)"
    proof (cases "l = k")
      case True
      have "distinct (qprocs k s)" using ri[OF k] by (simp add: ring_inv_def)
      from removed_not_in[OF this, of j] j show ?thesis unfolding True u(3) p by simp
    next
      case False
      then show ?thesis using u(4) in_ring_unique[OF inv k l pin] by auto
    qed
  qed
  have nd: "\<not> same_pid_queued (nat (int (k - 1))) p u"
  proof
    assume "same_pid_queued (nat (int (k - 1))) p u"
    then obtain r where r: "r \<in> set (qprocs (k - 1) u)" "pid (pc u r) = pid (pc u p)"
      by (auto simp: same_pid_queued_def)
    have "ring_inv (k - 1) u" using u(5) k by (simp add: mlfq_inv_def)
    with r(1) have "r < NPROC" by (auto simp: ring_inv_def)
    moreover have "r \<noteq> p" using r(1) unq k by (auto simp: unqueued_def)
    ultimately show False using dup[of r] r(2) qframe_fields(1)[OF u(2)] by simp
  qed
  note f = pushBack_fresh[OF u(5) qk(3) _ unq nd]
  have plu: "p < length (procs u)" using plt qframe_fields(9)[OF u(2)] by simp
  have "incPrio p s = pushBack (int (k - 1)) (Some p) u"
    using u(1) by (cases k) (simp_all add: incPrio_def q HIGHEST_PRIO_Q_def Let_def)
  with f[OF plu] u show thesis
    by (intro that[of "pushed (int (k - 1)) p u"]) (auto intro: qframe_trans)
qed

lemma decPrio_spec:
  fixes retain :: bool and s :: "'a kst_scheme" and p :: nat
  assumes inv: "mlfq_inv s" and q: "q_ok (getQIdx s p)" and p: "p < length (procs s)" "unqueued p s"
    and dup: "\<And>r. r \<noteq> p \<Longrightarrow> r < NPROC \<Longrightarrow> pid (pc s r) \<noteq> pid (pc s p)"
  defines "d \<equiv> (if retain then getQIdx s p else min (getQIdx s p + 1) (PQ_COUNT - 1))"
  obtains t where "decPrio p retain s = Inr t" "mlfq_inv t" "getQIdx t p = d"
    "latestQTime (pc t p) = sint (ticks s)"
    "\<And>l. qprocs l t = qprocs l s @ (if l = nat d then [p] else [])"
proof -
  let ?s1 = "upd_proc p (\<lambda>x. x\<lparr>latestQTime := sint (ticks s)\<rparr>) s"
  have same: "prioQ ?s1 = prioQ s" "prioQSize ?s1 = prioQSize s" "prioQStart ?s1 = prioQStart s" by simp_all
  have rc: "ring_pos l ?s1 = ring_pos l s" "qprocs l ?s1 = qprocs l s" "ring_inv l ?s1 = ring_inv l s" for l
    using ring_cong[of ?s1 l s] by simp_all
  have st: "stat (pc ?s1 r) = stat (pc s r)" "pid (pc ?s1 r) = pid (pc s r)" for r
    using p(1) by (simp_all add: pc_upd_proc)
  have inv1: "mlfq_inv ?s1" using inv by (simp add: mlfq_inv_def pos_inv_def rc st)
  have unq1: "unqueued p ?s1" using p(2) by (simp add: unqueued_def rc)
  have d: "q_ok d" using q by (auto simp: d_def q_ok_def PQ_COUNT_def)
  have nd: "\<not> same_pid_queued (nat d) p ?s1"
  proof
    assume "same_pid_queued (nat d) p ?s1"
    then obtain r where r: "r \<in> set (qprocs (nat d) s)" "pid (pc s r) = pid (pc s p)"
      by (auto simp: same_pid_queued_def rc st)
    have "ring_inv (nat d) s" using inv q_ok_nat[OF d] by (simp add: mlfq_inv_def)
    with r(1) have "r < NPROC" by (auto simp: ring_inv_def)
    moreover have "r \<noteq> p" using r(1) p(2) q_ok_nat[OF d] by (auto simp: unqueued_def)
    ultimately show False using dup r(2) by auto
  qed
  note f = pushBack_fresh[OF inv1 d _ unq1 nd]
  have "decPrio p retain s = pushBack d (Some p) ?s1"
    using q by (auto simp: decPrio_def d_def Let_def q_ok_def PQ_COUNT_def min_def)
  moreover have "latestQTime (pc (pushed d p ?s1) p) = sint (ticks s)"
    using p by (simp add: pc_pushed_same)
  ultimately show thesis
    using f p(1) by (intro that[of "pushed d p ?s1"]) (auto simp: rc)
qed


section \<open>The level of the other processes\<close>

lemma getQIdx_upd_proc:
  assumes "\<And>x. alloted_q (stat (f x)) = alloted_q (stat x)"
  shows "getQIdx (upd_proc p f s) r = getQIdx s r"
  using assms by (cases "p < length (procs s)")
    (auto simp: getQIdx_def pc_def upd_proc_def nth_list_update list_update_beyond)

lemma shift_down_getQIdx: "shift_down k is s = Inr t \<Longrightarrow> getQIdx t r = getQIdx s r"
proof (induction "is" arbitrary: s)
  case (Cons i "is")
  from Cons.prems obtain x where x: "prioQ s k ((i + 1) mod RING) = Some x"
    by (auto split: option.splits)
  have "getQIdx t r = getQIdx (upd_proc x (\<lambda>y. y\<lparr>stat := (stat y)\<lparr>alloted_pos := int i\<rparr>\<rparr>)
      (s\<lparr>prioQ := (prioQ s)(k := (prioQ s k)(i := Some x))\<rparr>)) r"
    by (rule Cons.IH) (use Cons.prems x in simp)
  then show ?case by (simp add: getQIdx_upd_proc) (simp add: getQIdx_def)
qed simp

lemma deleteIdx_getQIdx: "deleteIdx q idx s = Inr t \<Longrightarrow> getQIdx t r = getQIdx s r"
  by (auto simp: deleteIdx_def Let_def bind_r_eq_Inr getQIdx_def split: if_splits
      dest!: shift_down_getQIdx[of _ _ _ _ r])

lemma pushBack_getQIdx: "pushBack q (Some p) s = Inr t \<Longrightarrow> r \<noteq> p \<Longrightarrow> getQIdx t r = getQIdx s r"
  by (auto simp: pushBack_def Let_def getQIdx_def split: if_splits)

lemma incPrio_getQIdx: "incPrio p s = Inr t \<Longrightarrow> r \<noteq> p \<Longrightarrow> getQIdx t r = getQIdx s r"
  by (auto simp: incPrio_def Let_def bind_r_eq_Inr split: if_splits
      dest!: pushBack_getQIdx[of _ p _ _ r] deleteIdx_getQIdx[of _ _ _ _ r])

lemma mlfq_inv_popped:
  assumes inv: "mlfq_inv s" and k: "k < nat PQ_COUNT" and ne: "qprocs k s \<noteq> []"
  shows "mlfq_inv (popped k s)"
proof (rule pos_invI)
  have ri: "ring_inv l s" if "l < nat PQ_COUNT" for l using inv that by (simp add: mlfq_inv_def)
  note pp = qprocs_popped[OF ri[OF k] ne]
  show "ring_inv l (popped k s)" if "l < nat PQ_COUNT" for l
    using pp(2) pp(4)[of l] ri[OF that] by (cases "l = k") auto
  fix l j assume l: "l < nat PQ_COUNT" and j: "j < nat (prioQSize (popped k s) l)"
  have pc: "pc (popped k s) = pc s" by (simp add: fun_eq_iff pc_def)
  show "alloted_q (stat (pc (popped k s) (qprocs l (popped k s) ! j))) = int l \<and>
      alloted_pos (stat (pc (popped k s) (qprocs l (popped k s) ! j))) = int (ring_pos l (popped k s) j)"
  proof (cases "l = k")
    case True
    with j have "Suc j < nat (prioQSize s k)" by simp
    with pos_invD[OF inv k, of "Suc j"] True show ?thesis
      by (simp add: pc pp(1) nth_tl)
  next
    case False
    then have "ring_pos l (popped k s) j = ring_pos l s j" "prioQSize (popped k s) l = prioQSize s l"
      by (simp_all add: popped_def ring_pos_def)
    with False j pos_invD[OF inv l, of j] show ?thesis by (simp add: pc pp(3))
  qed
qed

end
