(* ===== verification/Sched.thy ===== *)
theory Sched
  imports Mlfq
begin

text \<open>
  Scheduling (\<open>proc.c\<close>: \<open>scheduler\<close>, \<open>timeToPreempt\<close>, \<open>updateStatsAndAging\<close>, \<open>wakeup1\<close>,
  \<open>sleep\<close>, \<open>yield\<close>, \<open>kill\<close>, \<open>set_prio\<close>, \<open>getpinfo\<close>; \<open>trap.c\<close>: the timer interrupt), for the four
  policies of the build. The scheduler's endless loop is cut at \<open>swtch\<close>: \<open>sched_pick\<close> is what it
  does from the top of the loop until it switches to a process, \<open>sched_return\<close> what it does when
  that process switches back. Everything here runs with \<open>ptable.lock\<close> held, so each
  definition is one atomic step on the state.
\<close>

section \<open>The clock and aging\<close>

text \<open>The body of the loop of \<open>updateStatsAndAging\<close> for one slot.\<close>

definition age_one :: "nat \<Rightarrow> 'a kst_scheme \<Rightarrow> 'a kst_scheme result" where
  "age_one p s =
    (if killed (pc s p) \<or> pid (pc s p) = 0 then Inr s
     else if state (pc s p) = RUNNABLE \<or> state (pc s p) = RUNNING then
       let q = getQIdx s p; tcks = getTicks s p + 1 in
       if state (pc s p) = RUNNING then
         (if \<not> q_ok q then Inl (Fault ''actualTicks'')
          else Inr (upd_proc p (\<lambda>x. x\<lparr>stat := (stat x)\<lparr>actualTicks :=
                 (actualTicks (stat x))[nat q := actualTicks (stat x) ! nat q + 1]\<rparr>\<rparr>) s))
       else if \<not> q_ok q then Inl (Fault ''WAIT_LIMIT'')
       else if tcks \<ge> WAIT_LIMIT ! nat q then incPrio p s
       else Inr s
     else Inr s)"

definition updateStatsAndAging :: "nat \<Rightarrow> 'a kst_scheme \<Rightarrow> 'a kst_scheme result" where
  "updateStatsAndAging cpu s =
    (if cpu \<noteq> 0 then Inl (Panic ''Must be called from cpu0 only'')
     else fold_r age_one [0..<NPROC] (s\<lparr>ticks := ticks s + 1\<rparr>))"

section \<open>Sleeping and waking\<close>

definition wake_one :: "policy \<Rightarrow> chan option \<Rightarrow> nat \<Rightarrow> 'a kst_scheme \<Rightarrow> 'a kst_scheme result" where
  "wake_one pol c p s =
    (if state (pc s p) = SLEEPING \<and> Proc_Table.chan (pc s p) = c then
       bind_r (if pol = MLFQ then pushBack (getQIdx s p) (Some p) s else Inr s)
         (\<lambda>s1. Inr (upd_proc p (\<lambda>x. x\<lparr>state := RUNNABLE\<rparr>) s1))
     else Inr s)"

definition wakeup1 :: "policy \<Rightarrow> chan option \<Rightarrow> 'a kst_scheme \<Rightarrow> 'a kst_scheme result" where
  "wakeup1 pol c s = fold_r (wake_one pol c) [0..<NPROC] s"

text \<open>\<open>sleep\<close> up to the switch to the scheduler; \<open>sleep_resume\<close> is its tail after waking.\<close>

definition sleep :: "chan option \<Rightarrow> 'a kst_scheme \<Rightarrow> 'a kst_scheme result" where
  "sleep c s = (case cproc s of None \<Rightarrow> Inl (Panic ''sleep'')
     | Some p \<Rightarrow> Inr (upd_proc p (\<lambda>x. x\<lparr>chan := c, state := SLEEPING\<rparr>) s))"

definition sleep_resume :: "nat \<Rightarrow> 'a kst_scheme \<Rightarrow> 'a kst_scheme" where
  "sleep_resume p s = upd_proc p (\<lambda>x. x\<lparr>chan := None\<rparr>) s"

text \<open>\<open>yield\<close> up to the switch to the scheduler.\<close>

definition yield :: "'a kst_scheme \<Rightarrow> 'a kst_scheme result" where
  "yield s = (case cproc s of None \<Rightarrow> Inl (Fault ''myproc()->state'')
     | Some p \<Rightarrow> Inr (upd_proc p (\<lambda>x. x\<lparr>state := RUNNABLE\<rparr>) s))"

definition kill :: "int \<Rightarrow> 'a kst_scheme \<Rightarrow> int \<times> 'a kst_scheme" where
  "kill pd s = (case find_idx (\<lambda>x. pid x = pd) (procs s) of
       None \<Rightarrow> (-1, s)
     | Some p \<Rightarrow> (0, upd_proc p (\<lambda>x. x\<lparr>killed := True,
           state := (if state x = SLEEPING then RUNNABLE else state x)\<rparr>) s))"

definition set_prio :: "int \<Rightarrow> 'a kst_scheme \<Rightarrow> (int \<times> 'a kst_scheme) result" where
  "set_prio np s =
    (if np < -1 \<or> np > 100 then Inr (-1, s)
     else case cproc s of None \<Rightarrow> Inl (Fault ''myproc()->priority'')
       | Some p \<Rightarrow> Inr (priority (pc s p), upd_proc p (\<lambda>x. x\<lparr>priority := np\<rparr>) s))"

section \<open>Preemption\<close>

definition better :: "policy \<Rightarrow> 'a kst_scheme \<Rightarrow> int \<Rightarrow> bool \<Rightarrow> nat \<Rightarrow> bool" where
  "better pol s prio same p \<longleftrightarrow> state (pc s p) = RUNNABLE \<and>
    (if pol = MLFQ then
       getQIdx s p \<noteq> NO_Q_ALLOT \<and> (getQIdx s p < prio \<or> getQIdx s p = prio \<and> same)
     else priority (pc s p) < prio \<or> priority (pc s p) = prio \<and> same)"

definition timeToPreempt :: "policy \<Rightarrow> int \<Rightarrow> bool \<Rightarrow> 'a kst_scheme \<Rightarrow> int" where
  "timeToPreempt pol prio same s =
    (case find_idx (better pol s prio same) [0..<NPROC] of
       None \<Rightarrow> 0
     | Some p \<Rightarrow> if pol = MLFQ then pid (pc s p) else 1)"

text \<open>
  What \<open>trap\<close> does on a timer interrupt. \<open>user\<close> says whether the interrupted code ran in user
  mode (\<open>(tf->cs & 3) == DPL_USER\<close>).
\<close>

datatype trap_action = Resume | Yield | Exit

definition timer_tick :: "policy \<Rightarrow> nat \<Rightarrow> 'a kst_scheme \<Rightarrow> 'a kst_scheme result" where
  "timer_tick pol cpu s =
    bind_r
      (if cpu = 0 then
         bind_r (if pol = MLFQ then updateStatsAndAging cpu s else Inr (s\<lparr>ticks := ticks s + 1\<rparr>))
           (wakeup1 pol (Some ChanTicks))
       else Inr s)
      (\<lambda>s1. Inr (case cproc s1 of None \<Rightarrow> s1
         | Some p \<Rightarrow> if state (pc s1 p) = RUNNING
                     then upd_proc p (\<lambda>x. x\<lparr>rtime := rtime x + 1\<rparr>) s1 else s1))"

definition preempt :: "policy \<Rightarrow> 'a kst_scheme \<Rightarrow> bool result" where
  "preempt pol s =
    (case cproc s of None \<Rightarrow> Inr False
     | Some p \<Rightarrow>
       (case pol of
          FCFS \<Rightarrow> Inr False
        | MLFQ \<Rightarrow>
            let q = getQIdx s p; tcks = getTicks s p in
            if q < 0 then Inl (Panic ''Invalid queue allotment'')
            else if state (pc s p) = RUNNING then
              if tcks \<noteq> 0 \<and> tcks \<ge> 2 ^ nat q then Inr True
              else Inr (timeToPreempt pol q False s \<noteq> 0)
            else Inr False
        | PBS \<Rightarrow> Inr (state (pc s p) = RUNNING \<and> timeToPreempt pol (priority (pc s p)) True s \<noteq> 0)
        | DEFAULT \<Rightarrow> Inr (state (pc s p) = RUNNING)))"

definition trap_timer :: "policy \<Rightarrow> nat \<Rightarrow> bool \<Rightarrow> 'a kst_scheme \<Rightarrow> (trap_action \<times> 'a kst_scheme) result" where
  "trap_timer pol cpu user s =
    bind_r (timer_tick pol cpu s) (\<lambda>s1.
      if (case cproc s1 of None \<Rightarrow> False | Some p \<Rightarrow> killed (pc s1 p)) \<and> user then Inr (Exit, s1)
      else bind_r (preempt pol s1) (\<lambda>b.
        if b then bind_r (yield s1) (\<lambda>s2. Inr (Yield, s2)) else Inr (Resume, s1)))"

section \<open>The scheduler\<close>

text \<open>
  \<open>switchuvm\<close> checks the process it switches to; the segment and page-table registers it loads
  are not part of the state.
\<close>

definition switchuvm :: "nat \<Rightarrow> 'a kst_scheme \<Rightarrow> 'a kst_scheme result" where
  "switchuvm p s =
    (if kstack (pc s p) = 0 then Inl (Panic ''switchuvm: no kstack'')
     else if pgdir (pc s p) = 0 then Inl (Panic ''switchuvm: no pgdir'')
     else Inr s)"

text \<open>Hand the processor to slot \<open>p\<close>: the statements before \<open>swtch\<close> under DEFAULT and PBS.\<close>

definition dispatch :: "nat \<Rightarrow> 'a kst_scheme \<Rightarrow> 'a kst_scheme result" where
  "dispatch p s = bind_r (switchuvm p (s\<lparr>cproc := Some p\<rparr>))
     (\<lambda>s1. Inr (upd_proc p (\<lambda>x. x\<lparr>state := RUNNING\<rparr>) s1))"

definition runnable :: "proc \<Rightarrow> bool" where
  "runnable x \<longleftrightarrow> state x = RUNNABLE"

text \<open>
  DEFAULT: the inner loop stands at slot \<open>i\<close>. The result is the slot switched to (the loop goes on
  behind it when the process comes back), or \<open>None\<close> at the end of a pass.
\<close>

definition sched_default :: "nat \<Rightarrow> 'a kst_scheme \<Rightarrow> (nat option \<times> 'a kst_scheme) result" where
  "sched_default i s = (case find_from runnable i (procs s) of
       None \<Rightarrow> Inr (None, s)
     | Some p \<Rightarrow> bind_r (dispatch p s) (\<lambda>s1. Inr (Some p, s1)))"

text \<open>FCFS: the scan for the smallest creation time.\<close>

fun fcfs_scan :: "'a kst_scheme \<Rightarrow> nat list \<Rightarrow> nat option \<Rightarrow> nat option" where
  "fcfs_scan s [] m = m"
| "fcfs_scan s (p # ps) m =
     fcfs_scan s ps
       (if state (pc s p) = RUNNABLE then
          (case m of None \<Rightarrow> Some p
           | Some q \<Rightarrow> if ctime (pc s p) < ctime (pc s q) then Some p else m)
        else m)"

text \<open>PBS: the smallest priority number of the runnable processes, 101 when there is none below.\<close>

fun pbs_min :: "'a kst_scheme \<Rightarrow> nat list \<Rightarrow> int \<Rightarrow> int" where
  "pbs_min s [] m = m"
| "pbs_min s (p # ps) m =
     pbs_min s ps (if state (pc s p) = RUNNABLE \<and> priority (pc s p) < m then priority (pc s p) else m)"

definition pbs_minPrio :: "'a kst_scheme \<Rightarrow> int" where
  "pbs_minPrio s = pbs_min s [0..<NPROC] 101"

text \<open>The second loop of PBS, at slot \<open>i\<close>, for the minimum \<open>m\<close> found by the first.\<close>

definition sched_pbs :: "int \<Rightarrow> nat \<Rightarrow> 'a kst_scheme \<Rightarrow> (nat option \<times> 'a kst_scheme) result" where
  "sched_pbs m i s = (case find_from (\<lambda>x. runnable x \<and> priority x = m) i (procs s) of
       None \<Rightarrow> Inr (None, s)
     | Some p \<Rightarrow> bind_r (dispatch p s) (\<lambda>s1. Inr (Some p, s1)))"

text \<open>After the process comes back: leave the loop when a better priority has become runnable.\<close>

definition pbs_return :: "int \<Rightarrow> 'a kst_scheme \<Rightarrow> bool \<times> 'a kst_scheme" where
  "pbs_return m s = (let s1 = s\<lparr>cproc := None\<rparr> in (pbs_minPrio s1 < m, s1))"

text \<open>
  MLFQ: the first loop queues a runnable process whose ring is empty; then the rings are scanned
  from the best one, dropping dead entries from the front, until a live process is in front.
  A ring has \<open>RING\<close> slots, so a loop that has dropped more entries than that will go on for ever.
\<close>

definition fill_one :: "nat \<Rightarrow> 'a kst_scheme \<Rightarrow> 'a kst_scheme result" where
  "fill_one p s =
    (if state (pc s p) = RUNNABLE then
       if getQIdx s p = NO_Q_ALLOT
       then Inl (Panic ''Should have been alloted in allocproc/wakeup1'')
       else if \<not> q_ok (getQIdx s p) then Inl (Fault ''prioQSize'')
       else if prioQSize s (nat (getQIdx s p)) = 0 then pushBack (getQIdx s p) (Some p) s
       else Inr s
     else Inr s)"

fun drop_dead :: "nat \<Rightarrow> int \<Rightarrow> 'a kst_scheme \<Rightarrow> (nat option \<times> 'a kst_scheme) result" where
  "drop_dead 0 q s = Inl (Diverges ''scheduler'')"
| "drop_dead (Suc n) q s =
    (if prioQSize s (nat q) = 0 then Inr (None, s)
     else bind_r (getFront q s) (\<lambda>po.
       if procIsDead s po then bind_r (popFront q s) (\<lambda>(_, s1). drop_dead n q s1)
       else Inr (po, s)))"

fun mlfq_scan :: "int list \<Rightarrow> 'a kst_scheme \<Rightarrow> (nat option \<times> 'a kst_scheme) result" where
  "mlfq_scan [] s = Inr (None, s)"
| "mlfq_scan (q # qs) s =
    bind_r (drop_dead (Suc RING) q s) (\<lambda>(po, s1).
      case po of None \<Rightarrow> mlfq_scan qs s1 | Some p \<Rightarrow> Inr (Some p, s1))"

definition mlfq_select :: "'a kst_scheme \<Rightarrow> (nat option \<times> 'a kst_scheme) result" where
  "mlfq_select s = bind_r (fold_r fill_one [0..<NPROC] s) (mlfq_scan [0, 1, 2, 3, 4])"

text \<open>The common tail of FCFS and MLFQ: switch to the allotted process, if there is one.\<close>

definition run_alloted :: "policy \<Rightarrow> nat option \<Rightarrow> 'a kst_scheme \<Rightarrow> 'a kst_scheme result" where
  "run_alloted pol po s =
    (case po of None \<Rightarrow> Inr s
     | Some p \<Rightarrow>
         bind_r (switchuvm p (s\<lparr>cproc := Some p\<rparr>)) (\<lambda>s1.
           if state (pc s1 p) \<noteq> RUNNABLE then Inl (Panic ''Non runnable process selected for execution'')
           else bind_r
             (if pol = MLFQ then
                bind_r (popFront (getQIdx s1 p) s1) (\<lambda>(_, s2).
                  Inr (upd_proc p (\<lambda>x. x\<lparr>stat := (stat x)\<lparr>num_run := num_run (stat x) + 1\<rparr>,
                                          latestQTime := sint (ticks s2)\<rparr>) s2))
              else Inr s1)
             (\<lambda>s3. Inr (upd_proc p (\<lambda>x. x\<lparr>state := RUNNING\<rparr>) s3))))"

definition sched_fcfs :: "'a kst_scheme \<Rightarrow> (nat option \<times> 'a kst_scheme) result" where
  "sched_fcfs s = (let po = fcfs_scan s [0..<NPROC] None in
     bind_r (run_alloted FCFS po s) (\<lambda>s1. Inr (po, s1)))"

definition sched_mlfq :: "'a kst_scheme \<Rightarrow> (nat option \<times> 'a kst_scheme) result" where
  "sched_mlfq s = bind_r (mlfq_select s) (\<lambda>(po, s1).
     bind_r (run_alloted MLFQ po s1) (\<lambda>s2. Inr (po, s2)))"

text \<open>MLFQ, after \<open>swtch\<close> returns: requeue the process that ran.\<close>

definition mlfq_return :: "nat \<Rightarrow> 'a kst_scheme \<Rightarrow> 'a kst_scheme result" where
  "mlfq_return p s =
    (let q = getQIdx s p; tcks = getTicks s p in
     bind_r
       (if state (pc s p) = SLEEPING \<or>
           (state (pc s p) = RUNNABLE \<and> tcks > 0 \<and> tcks < 2 ^ nat q) then decPrio p True s
        else if state (pc s p) = RUNNABLE \<and> tcks = 2 ^ nat q then decPrio p False s
        else Inr s)
       (\<lambda>s1. Inr (s1\<lparr>cproc := None\<rparr>)))"

text \<open>\<open>getpinfo\<close>: the entry of the table with the given pid, copied into the caller's record.\<close>

definition getpinfo :: "int \<Rightarrow> proc_stat \<Rightarrow> 'a kst_scheme \<Rightarrow> (int \<times> proc_stat) result" where
  "getpinfo pd ps s =
    (if pd = 0 then Inl (Panic ''Pid is not set'')
     else case find_idx (\<lambda>x. pid x = pd) (procs s) of
       None \<Rightarrow> Inr (-1, ps)
     | Some p \<Rightarrow> Inr (0, ps\<lparr>st_pid := pd, st_runtime := rtime (pc s p),
         alloted_q := alloted_q (stat (pc s p)), alloted_pos := alloted_pos (stat (pc s p)),
         num_run := num_run (stat (pc s p)), st_ticks := actualTicks (stat (pc s p))\<rparr>))"


section \<open>The invariant of the feedback queue scheduler\<close>

text \<open>Live pids are distinct; a process that can come to run has a pid and a queue level.\<close>

definition pids_inv :: "'a kst_scheme \<Rightarrow> bool" where
  "pids_inv s \<longleftrightarrow> (\<forall>p < NPROC. \<forall>r < NPROC. pid (pc s p) = pid (pc s r) \<and> pid (pc s p) \<noteq> 0 \<longrightarrow> p = r)"

definition active :: "proc \<Rightarrow> bool" where
  "active x \<longleftrightarrow> state x = RUNNABLE \<or> state x = RUNNING \<or> state x = SLEEPING"

definition sched_inv :: "'a kst_scheme \<Rightarrow> bool" where
  "sched_inv s \<longleftrightarrow> mlfq_inv s \<and> pids_inv s \<and>
     (\<forall>p < NPROC. active (pc s p) \<longrightarrow> pid (pc s p) \<noteq> 0 \<and> q_ok (getQIdx s p))"

lemma sched_invD:
  assumes "sched_inv s"
  shows "mlfq_inv s" "pids_inv s" "length (procs s) = NPROC" "k < nat PQ_COUNT \<Longrightarrow> ring_inv k s"
    "p < NPROC \<Longrightarrow> active (pc s p) \<Longrightarrow> pid (pc s p) \<noteq> 0" "p < NPROC \<Longrightarrow> active (pc s p) \<Longrightarrow> q_ok (getQIdx s p)"
proof -
  have "ring_inv 0 s" using assms by (simp add: sched_inv_def mlfq_inv_def PQ_COUNT_def)
  then show "length (procs s) = NPROC" by (simp add: ring_inv_def)
qed (use assms in \<open>auto simp: sched_inv_def mlfq_inv_def\<close>)

lemma pids_invD: "pids_inv s \<Longrightarrow> pid (pc s p) \<noteq> 0 \<Longrightarrow> p < NPROC \<Longrightarrow> r \<noteq> p \<Longrightarrow> r < NPROC \<Longrightarrow> pid (pc s r) \<noteq> pid (pc s p)"
  unfolding pids_inv_def by metis

text \<open>The invariant does not read the fields outside the queue record, the pid and the state.\<close>

lemma pids_inv_cong: "(\<And>p. pid (pc t p) = pid (pc s p)) \<Longrightarrow> pids_inv t = pids_inv s"
  by (simp add: pids_inv_def)

lemma sched_inv_qframe:
  assumes "sched_inv s" "qframe s t" "mlfq_inv t" "\<And>p. getQIdx t p = getQIdx s p"
  shows "sched_inv t"
proof -
  have "pids_inv t" using pids_inv_cong[OF qframe_fields(1)[OF assms(2)]] sched_invD(2)[OF assms(1)] by simp
  moreover have "active (pc t p) = active (pc s p)" for p
    by (simp add: active_def qframe_fields(2)[OF assms(2)])
  ultimately show ?thesis
    using assms(1,3,4) by (simp add: sched_inv_def qframe_fields(1)[OF assms(2)])
qed

lemma mlfq_inv_cong:
  assumes "prioQ t = prioQ s" "prioQSize t = prioQSize s" "prioQStart t = prioQStart s"
    "length (procs t) = length (procs s)"
    "\<And>p. alloted_q (stat (pc t p)) = alloted_q (stat (pc s p)) \<and> alloted_pos (stat (pc t p)) = alloted_pos (stat (pc s p))"
  shows "mlfq_inv t = mlfq_inv s"
proof -
  have r: "ring_pos k t = ring_pos k s" "ring_inv k t = ring_inv k s" for k
    using ring_cong[of t k s] assms by auto
  show ?thesis by (simp add: mlfq_inv_def pos_inv_def r assms(1,2,5))
qed

lemma sched_inv_upd_proc:
  assumes inv: "sched_inv s"
    and f: "\<And>x. pid (f x) = pid x \<and> alloted_q (stat (f x)) = alloted_q (stat x) \<and>
          alloted_pos (stat (f x)) = alloted_pos (stat x)"
    and act: "active (f (pc s p)) \<Longrightarrow> active (pc s p)"
  shows "sched_inv (upd_proc p f s)"
proof (cases "p < NPROC")
  case True
  then have pc: "pc (upd_proc p f s) r = (if r = p then f (pc s p) else pc s r)" for r
    using sched_invD(3)[OF inv] by (simp add: pc_upd_proc)
  have "mlfq_inv (upd_proc p f s)"
    using sched_invD(1)[OF inv] f by (subst mlfq_inv_cong[of _ s]) (auto simp: pc)
  moreover have "pids_inv (upd_proc p f s)"
    using sched_invD(2)[OF inv] f by (subst pids_inv_cong[of _ s]) (auto simp: pc)
  ultimately show ?thesis using inv f act by (auto simp: sched_inv_def getQIdx_def pc)
next
  case False
  then have "upd_proc p f s = s" using sched_invD(3)[OF inv] by (simp add: upd_proc_def list_update_beyond)
  with inv show ?thesis by simp
qed

lemma sched_inv_other [simp]: "sched_inv (s\<lparr>cproc := c\<rparr>) = sched_inv s" "sched_inv (s\<lparr>ticks := x\<rparr>) = sched_inv s"
  by (simp_all add: sched_inv_def pids_inv_def getQIdx_def mlfq_inv_cong[of "s\<lparr>cproc := c\<rparr>" s]
      mlfq_inv_cong[of "s\<lparr>ticks := x\<rparr>" s])

section \<open>Queueing a process at its own level\<close>

lemma pushBack_own:
  assumes inv: "mlfq_inv s" "pids_inv s" and p: "p < NPROC" "pid (pc s p) \<noteq> 0" "q_ok (getQIdx s p)"
  obtains t where "pushBack (getQIdx s p) (Some p) s = Inr t" "mlfq_inv t" "qframe s t"
    "\<And>r. getQIdx t r = getQIdx s r"
    "\<And>k. qprocs k t = (if k = nat (getQIdx s p) \<and> p \<notin> set (qprocs k s) then qprocs k s @ [p] else qprocs k s)"
proof -
  let ?q = "getQIdx s p"
  have ri: "ring_inv (nat ?q) s" using inv(1) q_ok_nat[OF p(3)] by (simp add: mlfq_inv_def)
  then have len: "p < length (procs s)" using p(1) by (simp add: ring_inv_def)
  have sub: "r < NPROC" if "r \<in> set (qprocs (nat ?q) s)" for r using ri that by (auto simp: ring_inv_def)
  have dup: "same_pid_queued (nat ?q) p s \<longleftrightarrow> p \<in> set (qprocs (nat ?q) s)"
    unfolding same_pid_queued_def using pids_invD[OF inv(2) p(2,1)] sub by metis
  show thesis
  proof (cases "p \<in> set (qprocs (nat ?q) s)")
    case True
    with dup pushBack_eq[OF p(3) ri, of p] inv show ?thesis by (intro that[of s]) auto
  next
    case False
    have unq: "unqueued p s"
      using in_ring_getQIdx[OF inv(1)] False by (fastforce simp: unqueued_def)
    note f = pushBack_fresh[OF inv(1) p(3) len unq]
    have "getQIdx (pushed ?q p s) r = getQIdx s r" for r
      using f(6) False dup by (cases "r = p") (simp_all add: getQIdx_def pushed_other(3))
    then show ?thesis
      using f False dup by (intro that[of "pushed ?q p s"]) auto
  qed
qed

lemma fill_one_spec:
  assumes inv: "sched_inv s" and p: "p < NPROC"
  obtains t where "fill_one p s = Inr t" "sched_inv t" "qframe s t" "\<And>r. getQIdx t r = getQIdx s r"
    "\<And>k. qprocs k s \<noteq> [] \<Longrightarrow> qprocs k t = qprocs k s"
proof (cases "state (pc s p) = RUNNABLE \<and> prioQSize s (nat (getQIdx s p)) = 0")
  case True
  then have act: "active (pc s p)" by (simp add: active_def)
  note q = sched_invD(6)[OF inv p act]
  obtain t where t: "pushBack (getQIdx s p) (Some p) s = Inr t" "mlfq_inv t" "qframe s t"
    "\<And>r. getQIdx t r = getQIdx s r"
    "\<And>k. qprocs k t = (if k = nat (getQIdx s p) \<and> p \<notin> set (qprocs k s) then qprocs k s @ [p] else qprocs k s)"
    using pushBack_own[OF sched_invD(1,2)[OF inv] p sched_invD(5)[OF inv p act] q] by metis
  have "fill_one p s = Inr t"
    using True q t(1) by (auto simp: fill_one_def q_ok_def NO_Q_ALLOT_def)
  moreover have "qprocs (nat (getQIdx s p)) s = []"
    using True by (simp add: qprocs_def qlist_def)
  ultimately show ?thesis
    using t sched_inv_qframe[OF inv t(3,2,4)] by (intro that[of t]) auto
next
  case False
  then have "fill_one p s = Inr s"
    using sched_invD(6)[OF inv p] by (auto simp: fill_one_def active_def q_ok_def NO_Q_ALLOT_def)
  with inv show ?thesis by (intro that[of s]) auto
qed


lemma fill_spec:
  assumes inv: "sched_inv s" and ps: "set ps \<subseteq> {..<NPROC}"
  obtains t where "fold_r fill_one ps s = Inr t" "sched_inv t" "qframe s t" "\<And>r. getQIdx t r = getQIdx s r"
    "\<And>k. qprocs k s \<noteq> [] \<Longrightarrow> qprocs k t = qprocs k s"
proof -
  let ?P = "\<lambda>t. sched_inv t \<and> qframe s t \<and> (\<forall>r. getQIdx t r = getQIdx s r) \<and>
    (\<forall>k. qprocs k s \<noteq> [] \<longrightarrow> qprocs k t = qprocs k s)"
  have "\<exists>t. fold_r fill_one ps s = Inr t \<and> ?P t"
  proof (rule fold_r_total)
    fix p u assume p: "p \<in> set ps" and u: "?P u"
    then have "p < NPROC" using ps by auto
    with u obtain t where "fill_one p u = Inr t" "sched_inv t" "qframe u t" "\<And>r. getQIdx t r = getQIdx u r"
      "\<And>k. qprocs k u \<noteq> [] \<Longrightarrow> qprocs k t = qprocs k u"
      using fill_one_spec[of u p] by metis
    with u show "\<exists>t. fill_one p u = Inr t \<and> ?P t"
      by (intro exI[of _ t]) (metis qframe_trans)
  qed (use inv in simp)
  then show thesis using that by blast
qed

section \<open>The choice of the next process\<close>

lemma qprocs_empty_iff: "ring_inv k s \<Longrightarrow> prioQSize s k = 0 \<longleftrightarrow> qprocs k s = []"
  by (auto simp: ring_inv_def qprocs_def qlist_def)

text \<open>A queued process the scheduler throws away.\<close>

definition dead :: "'a kst_scheme \<Rightarrow> nat \<Rightarrow> bool" where
  "dead s p \<longleftrightarrow> procIsDead s (Some p)"

lemma dead_popped [simp]: "dead (popped k s) = dead s"
  by (simp add: fun_eq_iff dead_def procIsDead_def pc_def)

lemma dead_qframe: "qframe s t \<Longrightarrow> dead t = dead s"
  by (simp add: fun_eq_iff dead_def procIsDead_def qframe_fields)

lemma sched_inv_popped:
  assumes "sched_inv s" "k < nat PQ_COUNT" "qprocs k s \<noteq> []"
  shows "sched_inv (popped k s)"
  by (rule sched_inv_qframe[OF assms(1) _ mlfq_inv_popped[OF sched_invD(1)[OF assms(1)] assms(2,3)]])
    (simp_all add: getQIdx_def pc_def)

lemma drop_dead_spec:
  assumes "sched_inv s" "k < nat PQ_COUNT" "length (qprocs k s) < n"
  obtains t where "drop_dead n (int k) s = Inr (case dropWhile (dead s) (qprocs k s) of [] \<Rightarrow> None | p # _ \<Rightarrow> Some p, t)"
    "sched_inv t" "qframe s t" "\<And>r. getQIdx t r = getQIdx s r" "qprocs k t = dropWhile (dead s) (qprocs k s)"
    "\<And>l. l \<noteq> k \<Longrightarrow> qprocs l t = qprocs l s"
  using assms
proof (induction n arbitrary: s thesis)
  case (Suc n)
  have q: "q_ok (int k)" "nat (int k) = k" using Suc.prems(3) by (auto simp: q_ok_def)
  note ri = sched_invD(4)[OF Suc.prems(2,3)]
  show ?case
  proof (cases "qprocs k s")
    case Nil
    with Suc.prems qprocs_empty_iff[OF ri] show ?thesis by (intro Suc.prems(1)[of s]) auto
  next
    case (Cons p ps)
    then have ne: "qprocs k s \<noteq> []" by simp
    note gf = getFront_hd[OF q(1), unfolded q(2), OF ri ne] and pf = popFront_eq[OF q(1), unfolded q(2), OF ri ne]
    show ?thesis
    proof (cases "dead s p")
      case True
      note pp = qprocs_popped[OF ri ne] and si = sched_inv_popped[OF Suc.prems(2,3) ne]
      have "length (qprocs k (popped k s)) < n" unfolding pp(1) using Suc.prems(4) Cons by simp
      from Suc.IH[OF _ si Suc.prems(3) this] obtain t where
        t: "drop_dead n (int k) (popped k s) =
             Inr (case dropWhile (dead s) ps of [] \<Rightarrow> None | p # _ \<Rightarrow> Some p, t)" "sched_inv t"
          "qframe (popped k s) t" "\<And>r. getQIdx t r = getQIdx (popped k s) r" "qprocs k t = dropWhile (dead s) ps"
          "\<And>l. l \<noteq> k \<Longrightarrow> qprocs l t = qprocs l (popped k s)"
        using pp(1) Cons by auto
      show ?thesis
      proof (rule Suc.prems(1)[of t])
        show "drop_dead (Suc n) (int k) s = Inr (case dropWhile (dead s) (qprocs k s) of [] \<Rightarrow> None | p # _ \<Rightarrow> Some p, t)"
          using gf pf Cons True t(1) qprocs_empty_iff[OF ri] by (simp add: dead_def)
        show "qframe s t" using qframe_trans[OF qframe_popped t(3)] .
      qed (use t pp Cons True in \<open>auto simp: getQIdx_def pc_def\<close>)
    next
      case False
      with gf Cons qprocs_empty_iff[OF ri] Suc.prems(2) show ?thesis
        by (intro Suc.prems(1)[of s]) (auto simp: dead_def)
    qed
  qed
qed simp

text \<open>
  The scan over the rings \<open>ks\<close>: it stops at the first ring with a live process, which is then in
  front of that ring.
\<close>

definition scanned :: "nat list \<Rightarrow> 'a kst_scheme \<Rightarrow> nat option \<Rightarrow> 'a kst_scheme \<Rightarrow> bool" where
  "scanned ks s po t \<longleftrightarrow> sched_inv t \<and> qframe s t \<and> (\<forall>r. getQIdx t r = getQIdx s r) \<and>
     (\<forall>l. l \<notin> set ks \<longrightarrow> qprocs l t = qprocs l s) \<and>
     (case po of
        None \<Rightarrow> (\<forall>k \<in> set ks. qprocs k t = [] \<and> (\<forall>r \<in> set (qprocs k s). dead s r))
      | Some p \<Rightarrow> \<not> dead s p \<and> (\<exists>as k bs. ks = as @ k # bs \<and> (\<exists>rest. qprocs k t = p # rest) \<and>
            qprocs k t = dropWhile (dead s) (qprocs k s) \<and>
            (\<forall>l \<in> set as. qprocs l t = [] \<and> (\<forall>r \<in> set (qprocs l s). dead s r))))"

lemma scanned_ConsI:
  assumes "distinct (k # ks)" and t: "sched_inv u" "qframe s u" "\<And>r. getQIdx u r = getQIdx s r"
      "qprocs k u = []" "\<And>l. l \<noteq> k \<Longrightarrow> qprocs l u = qprocs l s" "\<forall>r \<in> set (qprocs k s). dead s r"
    and sc: "scanned ks u po v"
  shows "scanned (k # ks) s po v"
proof -
  have k: "qprocs k v = []" using sc assms(1) t(4) by (simp add: scanned_def)
  have ks: "qprocs l u = qprocs l s" if "l \<in> set ks" for l
    using that assms(1) by (intro t(5)) auto
  have dd: "dead u = dead s" by (rule dead_qframe[OF t(2)])
  show ?thesis
  proof (cases po)
    case None
    with sc k ks t dd show ?thesis by (auto simp: scanned_def intro: qframe_trans)
  next
    case (Some p)
    with sc obtain as j bs rest where a: "ks = as @ j # bs" "qprocs j v = p # rest"
      "qprocs j v = dropWhile (dead s) (qprocs j u)" "\<forall>l \<in> set as. qprocs l v = [] \<and> (\<forall>r \<in> set (qprocs l u). dead s r)"
      by (auto simp: scanned_def dd)
    have "\<exists>as j bs. k # ks = as @ j # bs \<and> (\<exists>rest. qprocs j v = p # rest) \<and>
        qprocs j v = dropWhile (dead s) (qprocs j s) \<and>
        (\<forall>l \<in> set as. qprocs l v = [] \<and> (\<forall>r \<in> set (qprocs l s). dead s r))"
      using a k ks t(6) by (intro exI[of _ "k # as"] exI[of _ j] exI[of _ bs]) auto
    with Some sc t dd show ?thesis by (auto simp: scanned_def intro: qframe_trans)
  qed
qed

lemma mlfq_scan_spec:
  assumes "sched_inv s" "distinct ks" "set ks \<subseteq> {..<nat PQ_COUNT}"
  shows "\<exists>po t. mlfq_scan (map int ks) s = Inr (po, t) \<and> scanned ks s po t"
  using assms
proof (induction ks arbitrary: s)
  case Nil
  then show ?case by (simp add: scanned_def)
next
  case (Cons k ks)
  have k: "k < nat PQ_COUNT" using Cons.prems(3) by simp
  have "length (qprocs k s) < Suc RING"
    using ring_inv_size(1)[OF sched_invD(4)[OF Cons.prems(1) k]] RING_pos(2) by simp
  from drop_dead_spec[OF Cons.prems(1) k this] obtain u where
    u: "drop_dead (Suc RING) (int k) s = Inr (case dropWhile (dead s) (qprocs k s) of [] \<Rightarrow> None | p # _ \<Rightarrow> Some p, u)"
      "sched_inv u" "qframe s u" "\<And>r. getQIdx u r = getQIdx s r" "qprocs k u = dropWhile (dead s) (qprocs k s)"
      "\<And>l. l \<noteq> k \<Longrightarrow> qprocs l u = qprocs l s" by metis
  show ?case
  proof (cases "dropWhile (dead s) (qprocs k s)")
    case Nil
    then have alld: "\<forall>r \<in> set (qprocs k s). dead s r" by (simp add: dropWhile_eq_Nil_conv)
    from Cons.IH[OF u(2)] Cons.prems obtain po t where t: "mlfq_scan (map int ks) u = Inr (po, t)" "scanned ks u po t"
      by auto
    have "qprocs k u = []" using u(5) Nil by simp
    from scanned_ConsI[OF Cons.prems(2) u(2-4) this u(6) alld t(2)] have "scanned (k # ks) s po t" .
    then show ?thesis using u(1) Nil t(1) by (intro exI[of _ po] exI[of _ t]) (simp del: drop_dead.simps)
  next
    case c: (Cons p ps)
    then have "\<not> dead s p" by (metis dropWhile_eq_Cons_conv)
    then have "scanned (k # ks) s (Some p) u"
      using u(2-6) c unfolding scanned_def option.case
      by (intro conjI, simp_all) (rule exI[of _ "[]"], simp)
    then show ?thesis using u(1) c by (intro exI[of _ "Some p"] exI[of _ u]) (simp del: drop_dead.simps)
  qed
qed

text \<open>
  What the scheduler chooses: a live process in front of the best ring that holds a live process.
\<close>

definition best_choice :: "'a kst_scheme \<Rightarrow> nat option \<Rightarrow> 'a kst_scheme \<Rightarrow> bool" where
  "best_choice s po t \<longleftrightarrow>
     (case po of
        None \<Rightarrow> \<forall>k < nat PQ_COUNT. qprocs k t = [] \<and> (\<forall>r \<in> set (qprocs k s). dead s r)
      | Some p \<Rightarrow> \<not> dead s p \<and> p < NPROC \<and> q_ok (getQIdx s p) \<and>
          (\<exists>rest. qprocs (nat (getQIdx s p)) t = p # rest) \<and>
          (qprocs (nat (getQIdx s p)) s \<noteq> [] \<longrightarrow>
             qprocs (nat (getQIdx s p)) t = dropWhile (dead s) (qprocs (nat (getQIdx s p)) s)) \<and>
          (\<forall>l < nat (getQIdx s p). \<forall>r \<in> set (qprocs l s). dead s r))"

lemma upt_split: "[0..<n] = as @ k # bs \<Longrightarrow> k < n \<and> as = [0..<k]"
proof (induction n arbitrary: bs)
  case (Suc n)
  show ?case
  proof (cases bs rule: rev_cases)
    case Nil
    with Suc.prems show ?thesis by auto
  next
    case (snoc cs c)
    with Suc.prems have "[0..<n] = as @ k # cs" by auto
    from Suc.IH[OF this] show ?thesis by simp
  qed
qed simp

lemma mlfq_select_spec:
  assumes inv: "sched_inv s"
  obtains po t where "mlfq_select s = Inr (po, t)" "sched_inv t" "qframe s t" "\<And>r. getQIdx t r = getQIdx s r"
    "best_choice s po t"
proof -
  obtain u where u: "fold_r fill_one [0..<NPROC] s = Inr u" "sched_inv u" "qframe s u"
    "\<And>r. getQIdx u r = getQIdx s r" "\<And>k. qprocs k s \<noteq> [] \<Longrightarrow> qprocs k u = qprocs k s"
    using fill_spec[OF inv, of "[0..<NPROC]"] by (metis atLeast_upt subset_refl)
  have five: "map int [0..<nat PQ_COUNT] = [0, 1, 2, 3, 4]" by (simp add: PQ_COUNT_def upt_rec)
  from mlfq_scan_spec[OF u(2), of "[0..<nat PQ_COUNT]"] obtain po t where
    t: "mlfq_scan [0, 1, 2, 3, 4] u = Inr (po, t)" "scanned [0..<nat PQ_COUNT] u po t"
    unfolding five by (auto simp: lessThan_atLeast0)
  have sub: "set (qprocs k s) \<subseteq> set (qprocs k u)" for k using u(5)[of k] by (cases "qprocs k s") auto
  have dd: "dead u = dead s" by (rule dead_qframe[OF u(3)])
  have "best_choice s po t"
  proof (cases po)
    case None
    with t(2) sub dd show ?thesis by (fastforce simp: best_choice_def scanned_def)
  next
    case (Some p)
    with t(2) obtain as k bs rest where a: "[0..<nat PQ_COUNT] = as @ k # bs" "qprocs k t = p # rest"
      "qprocs k t = dropWhile (dead s) (qprocs k u)" "\<forall>l \<in> set as. \<forall>r \<in> set (qprocs l u). dead s r"
      "\<not> dead s p" "sched_inv t" "\<And>r. getQIdx t r = getQIdx s r"
      by (auto simp: scanned_def dd u(4))
    have k: "k < nat PQ_COUNT" "as = [0..<k]" using upt_split[OF a(1)] by auto
    have pin: "p \<in> set (qprocs k t)" using a(2) by simp
    have kq: "getQIdx s p = int k" using in_ring_getQIdx[OF sched_invD(1)[OF a(6)] k(1) pin] a(7) by simp
    have "p < NPROC" using sched_invD(4)[OF a(6) k(1)] pin by (auto simp: ring_inv_def)
    moreover have "\<forall>l < k. \<forall>r \<in> set (qprocs l s). dead s r" using a(4) k(2) sub by fastforce
    ultimately show ?thesis
      using Some a k(1) u(5)[of k] by (auto simp: best_choice_def kq q_ok_def)
  qed
  then show thesis
    using that[of po t] u t by (auto simp: mlfq_select_def scanned_def intro: qframe_trans)
qed

section \<open>Running the chosen process and requeueing it\<close>

definition loadable :: "proc \<Rightarrow> bool" where
  "loadable x \<longleftrightarrow> kstack x \<noteq> 0 \<and> pgdir x \<noteq> 0"

lemma run_alloted_mlfq:
  assumes inv: "sched_inv s" and p: "p < NPROC" "\<not> dead s p" "loadable (pc s p)"
    and front: "qprocs (nat (getQIdx s p)) s = p # rest"
  obtains t where "run_alloted MLFQ (Some p) s = Inr t" "sched_inv t" "unqueued p t" "cproc t = Some p"
    "pc t p = (pc s p)\<lparr>stat := (stat (pc s p))\<lparr>num_run := num_run (stat (pc s p)) + 1\<rparr>,
                        latestQTime := sint (ticks s), state := RUNNING\<rparr>"
    "\<And>r. r \<noteq> p \<Longrightarrow> pc t r = pc s r" "qprocs (nat (getQIdx s p)) t = rest"
    "\<And>l. l \<noteq> nat (getQIdx s p) \<Longrightarrow> qprocs l t = qprocs l s"
proof -
  let ?k = "nat (getQIdx s p)" and ?s1 = "s\<lparr>cproc := Some p\<rparr>"
  have st: "state (pc s p) = RUNNABLE" using p(2) by (simp add: dead_def procIsDead_def)
  then have act: "active (pc s p)" by (simp add: active_def)
  note q = sched_invD(6)[OF inv p(1) act]
  note k = q_ok_nat[OF q]
  have rc: "qprocs l ?s1 = qprocs l s" for l by (intro ring_cong) simp_all
  have inv1: "sched_inv ?s1" using inv by simp
  have ne: "qprocs ?k ?s1 \<noteq> []" by (simp add: rc front)
  note pf = popFront_eq[OF q sched_invD(4)[OF inv1 k] ne] and pp = qprocs_popped[OF sched_invD(4)[OF inv1 k] ne]
  let ?s2 = "popped ?k ?s1"
  define t where "t = upd_proc p (\<lambda>x. x\<lparr>state := RUNNING\<rparr>)
    (upd_proc p (\<lambda>x. x\<lparr>stat := (stat x)\<lparr>num_run := num_run (stat x) + 1\<rparr>, latestQTime := sint (ticks s)\<rparr>) ?s2)"
  have pc2: "pc ?s2 = pc s" by (simp add: fun_eq_iff pc_def)
  have len: "length (procs s) = NPROC" using sched_invD(3)[OF inv] by simp
  have "run_alloted MLFQ (Some p) s = Inr t"
    using p(3) st pf by (simp add: run_alloted_def switchuvm_def loadable_def t_def getQIdx_def)
      (simp add: popped_def)
  moreover have rt: "qprocs l t = qprocs l ?s2" for l by (intro ring_cong) (simp_all add: t_def)
  moreover have "sched_inv t"
    unfolding t_def by (intro sched_inv_upd_proc sched_inv_popped[OF inv1 k ne])
      (simp_all add: pc_upd_proc len p(1) pc2 active_def st)
  moreover have "unqueued p t"
    unfolding unqueued_def rt
  proof (intro allI impI)
    fix l assume l: "l < nat PQ_COUNT"
    have pin: "p \<in> set (qprocs ?k s)" by (simp add: front)
    show "p \<notin> set (qprocs l ?s2)"
    proof (cases "l = ?k")
      case True
      have "distinct (p # rest)" using sched_invD(4)[OF inv k] by (simp add: ring_inv_def front)
      with True pp(1) front show ?thesis by (simp add: rc)
    next
      case False
      with pp(3)[OF False] in_ring_unique[OF sched_invD(1)[OF inv] l k _ pin] show ?thesis by (auto simp: rc)
    qed
  qed
  moreover have "cproc t = Some p" by (simp add: t_def popped_def)
  ultimately show thesis
    by (intro that[of t]) (simp_all add: t_def len p(1) pc2 pp rc front)
qed

lemma mlfq_return_requeues:
  fixes s :: "'a kst_scheme" and p :: nat
  assumes inv: "sched_inv s" and p: "p < NPROC" "active (pc s p)" "unqueued p s"
  defines "q \<equiv> getQIdx s p" and "n \<equiv> getTicks s p" and "st \<equiv> state (pc s p)"
  shows "st = SLEEPING \<or> st = RUNNABLE \<and> 0 < n \<and> n < 2 ^ nat q \<Longrightarrow>
      \<exists>t. mlfq_return p s = Inr t \<and> mlfq_inv t \<and> (\<forall>l. qprocs l t = qprocs l s @ (if l = nat q then [p] else []))"
    "st = RUNNABLE \<and> n = 2 ^ nat q \<Longrightarrow>
      \<exists>t. mlfq_return p s = Inr t \<and> mlfq_inv t \<and>
        (\<forall>l. qprocs l t = qprocs l s @ (if l = nat (min (q + 1) (PQ_COUNT - 1)) then [p] else []))"
    "st = RUNNABLE \<and> (n \<le> 0 \<or> n > 2 ^ nat q) \<or> st = RUNNING \<Longrightarrow> mlfq_return p s = Inr (s\<lparr>cproc := None\<rparr>)"
proof -
  note i = sched_invD(1)[OF inv] and qok = sched_invD(6)[OF inv p(1,2)]
  have len: "p < length (procs s)" using sched_invD(3)[OF inv] p(1) by simp
  note d = decPrio_spec[OF i qok len p(3) pids_invD[OF sched_invD(2)[OF inv] sched_invD(5)[OF inv p(1,2)] p(1)]]
  have cp: "mlfq_inv (u\<lparr>cproc := None\<rparr>) = mlfq_inv u" "qprocs l (u\<lparr>cproc := None\<rparr>) = qprocs l u"
    for u :: "'a kst_scheme" and l
    by (simp_all add: mlfq_inv_cong[of "u\<lparr>cproc := None\<rparr>" u] ring_cong(3)[of "u\<lparr>cproc := None\<rparr>" _ u])
  show "\<exists>t. mlfq_return p s = Inr t \<and> mlfq_inv t \<and> (\<forall>l. qprocs l t = qprocs l s @ (if l = nat q then [p] else []))"
    if c: "st = SLEEPING \<or> st = RUNNABLE \<and> 0 < n \<and> n < 2 ^ nat q"
  proof -
    obtain t where "decPrio p True s = Inr t" "mlfq_inv t" "\<And>l. qprocs l t = qprocs l s @ (if l = nat q then [p] else [])"
      using d[of True] unfolding q_def by auto
    with c show ?thesis
      by (intro exI[of _ "t\<lparr>cproc := None\<rparr>"]) (auto simp: mlfq_return_def Let_def q_def n_def st_def cp)
  qed
  show "\<exists>t. mlfq_return p s = Inr t \<and> mlfq_inv t \<and>
        (\<forall>l. qprocs l t = qprocs l s @ (if l = nat (min (q + 1) (PQ_COUNT - 1)) then [p] else []))"
    if c: "st = RUNNABLE \<and> n = 2 ^ nat q"
  proof -
    obtain t where "decPrio p False s = Inr t" "mlfq_inv t"
      "\<And>l. qprocs l t = qprocs l s @ (if l = nat (min (q + 1) (PQ_COUNT - 1)) then [p] else [])"
      using d[of False] unfolding q_def by auto
    with c show ?thesis
      by (intro exI[of _ "t\<lparr>cproc := None\<rparr>"]) (auto simp: mlfq_return_def Let_def q_def n_def st_def cp)
  qed
  show "mlfq_return p s = Inr (s\<lparr>cproc := None\<rparr>)" if "st = RUNNABLE \<and> (n \<le> 0 \<or> n > 2 ^ nat q) \<or> st = RUNNING"
    using that by (auto simp: mlfq_return_def Let_def q_def n_def st_def)
qed

section \<open>Aging\<close>

text \<open>A process that has waited longer than the limit of its queue.\<close>

definition due :: "'a kst_scheme \<Rightarrow> nat \<Rightarrow> bool" where
  "due s p \<longleftrightarrow> state (pc s p) = RUNNABLE \<and> \<not> killed (pc s p) \<and> pid (pc s p) \<noteq> 0 \<and>
     getTicks s p + 1 \<ge> WAIT_LIMIT ! nat (getQIdx s p)"

text \<open>What aging leaves alone.\<close>

definition age_frame :: "'a kst_scheme \<Rightarrow> 'a kst_scheme \<Rightarrow> bool" where
  "age_frame s t \<longleftrightarrow> ticks t = ticks s \<and> cproc t = cproc s \<and>
     (\<forall>r. state (pc t r) = state (pc s r) \<and> pid (pc t r) = pid (pc s r) \<and> killed (pc t r) = killed (pc s r) \<and>
          latestQTime (pc t r) = latestQTime (pc s r) \<and> chan (pc t r) = chan (pc s r))"

lemma age_frame_trans: "age_frame s t \<Longrightarrow> age_frame t u \<Longrightarrow> age_frame s u"
  by (simp add: age_frame_def)

lemma age_frame_qframe: "qframe s t \<Longrightarrow> age_frame s t"
  by (simp add: age_frame_def qframe_fields)

text \<open>Membership in the rings after the processes in \<open>ps\<close> have been aged.\<close>

definition aged :: "nat set \<Rightarrow> 'a kst_scheme \<Rightarrow> 'a kst_scheme \<Rightarrow> bool" where
  "aged ps s t \<longleftrightarrow> sched_inv t \<and> age_frame s t \<and> (\<forall>r. r \<notin> ps \<longrightarrow> getQIdx t r = getQIdx s r) \<and>
     (\<forall>l < nat PQ_COUNT. \<forall>r. r \<in> set (qprocs l t) \<longleftrightarrow>
        (if r \<in> ps \<and> due s r then l = nat (getQIdx s r) - 1 else r \<in> set (qprocs l s)))"

definition waiting_queued :: "'a kst_scheme \<Rightarrow> bool" where
  "waiting_queued s \<longleftrightarrow> (\<forall>p < NPROC. state (pc s p) = RUNNABLE \<and> \<not> killed (pc s p) \<longrightarrow> \<not> unqueued p s)"

lemma age_promote:
  assumes inv: "sched_inv s" and p: "p < NPROC" "due s p" "\<not> unqueued p s"
  shows "\<exists>t. incPrio p s = Inr t \<and> aged {p} s t"
proof -
  note i = sched_invD(1)[OF inv]
  have act: "active (pc s p)" using p(2) by (simp add: due_def active_def)
  obtain k j where k: "k < nat PQ_COUNT" and j: "j < nat (prioQSize s k)" and pj: "p = qprocs k s ! j"
    using p(3) by (auto simp: unqueued_def in_set_conv_nth)
  have kq: "nat (getQIdx s p) = k" using in_ring_getQIdx[OF i k, of p] j pj by simp
  obtain t where t: "incPrio p s = Inr t" "mlfq_inv t" "qframe s t" "getQIdx t p = int (k - 1)"
    "\<And>l. qprocs l t = (if l = k then take j (qprocs k s) @ drop (Suc j) (qprocs k s) else qprocs l s)
         @ (if l = k - 1 then [p] else [])"
    using incPrio_spec[OF i k j pj pids_invD[OF sched_invD(2)[OF inv] sched_invD(5)[OF inv p(1) act] p(1)]] by metis
  note oth = incPrio_getQIdx[OF t(1)]
  have "sched_inv t"
    using inv t(2,4) pids_inv_cong[OF qframe_fields(1)[OF t(3)]] k oth qframe_fields(1,2)[OF t(3)]
    unfolding sched_inv_def active_def by (metis (no_types, lifting) int_nat_eq less_imp_diff_less nat_int of_nat_0_le_iff q_ok_def zless_nat_eq_int_zless)
  moreover have "r \<in> set (qprocs l t) \<longleftrightarrow> (if r = p then l = k - 1 else r \<in> set (qprocs l s))"
    if l: "l < nat PQ_COUNT" for l r
  proof -
    have d: "distinct (qprocs k s)" using sched_invD(4)[OF inv k] by (simp add: ring_inv_def)
    have "set (qprocs k s) = insert p (set (take j (qprocs k s) @ drop (Suc j) (qprocs k s)))"
      using j pj by (subst (1) id_take_nth_drop[of j "qprocs k s"]) auto
    moreover have "p \<notin> set (take j (qprocs k s) @ drop (Suc j) (qprocs k s))"
      using removed_not_in[OF d, of j] j pj by simp
    moreover have "p \<notin> set (qprocs l s)" if "l \<noteq> k"
      using in_ring_unique[OF i k l, of p] j pj that by auto
    ultimately show ?thesis by (auto simp: t(5))
  qed
  ultimately show ?thesis
    using t(1) p(2) oth age_frame_qframe[OF t(3)] by (auto simp: aged_def kq)
qed

lemma aged_upd_stat:
  assumes inv: "sched_inv s" and nd: "\<not> due s p"
    and f: "\<And>x. f x = x\<lparr>stat := (stat x)\<lparr>actualTicks := g x\<rparr>\<rparr>"
  shows "aged {p} s (upd_proc p f s)"
proof -
  have "sched_inv (upd_proc p f s)" by (rule sched_inv_upd_proc[OF inv]) (simp_all add: f active_def)
  moreover have "qprocs l (upd_proc p f s) = qprocs l s" for l by (intro ring_cong) simp_all
  moreover have "age_frame s (upd_proc p f s)"
  proof (cases "p < length (procs s)")
    case True
    then show ?thesis by (auto simp: age_frame_def f pc_upd_proc)
  qed (simp add: age_frame_def upd_proc_def list_update_beyond)
  ultimately show ?thesis using nd by (auto simp: aged_def getQIdx_upd_proc f)
qed

lemma aged_refl: "sched_inv s \<Longrightarrow> \<not> due s p \<Longrightarrow> aged {p} s s"
  by (auto simp: aged_def age_frame_def)

lemma age_one_spec:
  assumes inv: "sched_inv s" "waiting_queued s" and p: "p < NPROC"
  shows "\<exists>t. age_one p s = Inr t \<and> aged {p} s t"
proof (cases "due s p")
  case True
  then have act: "active (pc s p)" by (simp add: due_def active_def)
  note q = sched_invD(6)[OF inv(1) p act]
  have "\<not> unqueued p s" using inv(2) True p by (simp add: waiting_queued_def due_def)
  from age_promote[OF inv(1) p True this] True q show ?thesis
    by (simp add: age_one_def due_def Let_def)
next
  case False
  show ?thesis
  proof (cases "\<not> killed (pc s p) \<and> pid (pc s p) \<noteq> 0 \<and> state (pc s p) = RUNNING")
    case True
    then have "q_ok (getQIdx s p)" using sched_invD(6)[OF inv(1) p] by (simp add: active_def)
    with True aged_upd_stat[OF inv(1) False] show ?thesis
      by (simp add: age_one_def Let_def)
  next
    case nr: False
    have "q_ok (getQIdx s p)" if "state (pc s p) = RUNNABLE"
      using sched_invD(6)[OF inv(1) p] that by (simp add: active_def)
    with nr False have "age_one p s = Inr s" by (auto simp: age_one_def due_def Let_def)
    with aged_refl[OF inv(1) False] show ?thesis by blast
  qed
qed

lemma due_aged:
  assumes "aged ps s t" "r \<notin> ps"
  shows "due t r = due s r"
proof -
  have f: "ticks t = ticks s" "state (pc t r) = state (pc s r)" "killed (pc t r) = killed (pc s r)"
    "pid (pc t r) = pid (pc s r)" "latestQTime (pc t r) = latestQTime (pc s r)" "getQIdx t r = getQIdx s r"
    using assms by (auto simp: aged_def age_frame_def)
  then show ?thesis by (simp add: due_def getTicks_def)
qed

lemma waiting_queued_aged:
  assumes inv: "sched_inv s" and w: "waiting_queued s" and a: "aged {p} s t" and p: "p < NPROC"
  shows "waiting_queued t"
  unfolding waiting_queued_def
proof (intro allI impI)
  fix r assume r: "r < NPROC" "state (pc t r) = RUNNABLE \<and> \<not> killed (pc t r)"
  then have "\<not> unqueued r s" using w a by (auto simp: waiting_queued_def aged_def age_frame_def)
  then obtain l where l: "l < nat PQ_COUNT" "r \<in> set (qprocs l s)" by (auto simp: unqueued_def)
  show "\<not> unqueued r t"
  proof (cases "r = p \<and> due s p")
    case True
    have "nat (getQIdx s p) < nat PQ_COUNT"
      using True sched_invD(6)[OF inv p] q_ok_nat by (auto simp: due_def active_def)
    then have m: "nat (getQIdx s p) - 1 < nat PQ_COUNT" by (rule less_imp_diff_less)
    with a True have "r \<in> set (qprocs (nat (getQIdx s p) - 1) t)" by (auto simp: aged_def)
    with m show ?thesis by (auto simp: unqueued_def)
  next
    case False
    with a l have "r \<in> set (qprocs l t)" by (auto simp: aged_def)
    with l(1) show ?thesis by (auto simp: unqueued_def)
  qed
qed

lemma aged_compose:
  assumes a: "aged {p} s u" and b: "aged ps u t" and p: "p \<notin> ps"
  shows "aged (insert p ps) s t"
proof -
  have d: "due u r = due s r" "getQIdx u r = getQIdx s r" if "r \<noteq> p" for r
    using due_aged[OF a] a that by (auto simp: aged_def)
  have "r \<in> set (qprocs l t) \<longleftrightarrow>
      (if r \<in> insert p ps \<and> due s r then l = nat (getQIdx s r) - 1 else r \<in> set (qprocs l s))"
    if l: "l < nat PQ_COUNT" for l r
  proof -
    have "r \<in> set (qprocs l t) \<longleftrightarrow> (if r \<in> ps \<and> due u r then l = nat (getQIdx u r) - 1 else r \<in> set (qprocs l u))"
      using b l by (simp add: aged_def)
    moreover have "r \<in> set (qprocs l u) \<longleftrightarrow> (if r = p \<and> due s r then l = nat (getQIdx s r) - 1 else r \<in> set (qprocs l s))"
      using a l by (auto simp: aged_def)
    ultimately show ?thesis using d[of r] p by (cases "r = p") auto
  qed
  moreover have "getQIdx t r = getQIdx s r" if "r \<notin> insert p ps" for r
    using a b that by (simp add: aged_def)
  ultimately show ?thesis
    using a b unfolding aged_def by (auto intro: age_frame_trans)
qed

lemma aging_loop:
  assumes "sched_inv s" "waiting_queued s" "distinct ps" "set ps \<subseteq> {..<NPROC}"
  shows "\<exists>t. fold_r age_one ps s = Inr t \<and> aged (set ps) s t \<and> waiting_queued t"
  using assms
proof (induction ps arbitrary: s)
  case Nil
  then show ?case by (auto simp: aged_def age_frame_def)
next
  case (Cons p ps)
  then have p: "p < NPROC" by simp
  from age_one_spec[OF Cons.prems(1,2) p] obtain u where u: "age_one p s = Inr u" "aged {p} s u" by blast
  have "sched_inv u" using u(2) by (simp add: aged_def)
  from Cons.IH[OF this waiting_queued_aged[OF Cons.prems(1,2) u(2) p]] Cons.prems(3,4) obtain t where
    "fold_r age_one ps u = Inr t" "aged (set ps) u t" "waiting_queued t" by auto
  with u aged_compose[OF u(2), of "set ps" t] Cons.prems(3) show ?case by auto
qed

lemma updateStatsAndAging_spec:
  fixes s :: "'a kst_scheme"
  assumes "sched_inv s" "waiting_queued s"
  defines "s1 \<equiv> s\<lparr>ticks := ticks s + 1\<rparr>"
  shows "\<exists>t. updateStatsAndAging 0 s = Inr t \<and> aged {..<NPROC} s1 t \<and> waiting_queued t"
proof -
  have "qprocs l s1 = qprocs l s" for l by (intro ring_cong) (simp_all add: s1_def)
  then have "waiting_queued s1" using assms(2) by (simp add: waiting_queued_def unqueued_def s1_def)
  moreover have "sched_inv s1" using assms(1) by (simp add: s1_def)
  ultimately show ?thesis
    using aging_loop[of s1 "[0..<NPROC]"] by (simp add: updateStatsAndAging_def s1_def lessThan_atLeast0)
qed

section \<open>Waking up\<close>

definition sleeps_on :: "chan option \<Rightarrow> proc \<Rightarrow> bool" where
  "sleeps_on c x \<longleftrightarrow> state x = SLEEPING \<and> Proc_Table.chan x = c"

text \<open>The slots in \<open>ps\<close> have been looked at for sleepers on \<open>c\<close>.\<close>

definition woken :: "policy \<Rightarrow> chan option \<Rightarrow> nat set \<Rightarrow> 'a kst_scheme \<Rightarrow> 'a kst_scheme \<Rightarrow> bool" where
  "woken pol c ps s t \<longleftrightarrow> sched_inv t \<and> ticks t = ticks s \<and> (\<forall>r. getQIdx t r = getQIdx s r) \<and>
     (\<forall>r < NPROC. unq (pc t r) = unq (if r \<in> ps \<and> sleeps_on c (pc s r) then (pc s r)\<lparr>state := RUNNABLE\<rparr> else pc s r)) \<and>
     (\<forall>l < nat PQ_COUNT. set (qprocs l t) = set (qprocs l s) \<union>
        {r \<in> ps. pol = MLFQ \<and> r < NPROC \<and> sleeps_on c (pc s r) \<and> l = nat (getQIdx s r)})"

lemma unq_state: "unq (x\<lparr>state := st\<rparr>) = (unq x)\<lparr>state := st\<rparr>"
  by (simp add: unq_def)

lemma wake_one_spec:
  assumes inv: "sched_inv s" and p: "p < NPROC"
  shows "\<exists>t. wake_one pol c p s = Inr t \<and> woken pol c {p} s t"
proof (cases "sleeps_on c (pc s p)")
  case False
  then show ?thesis using inv by (auto simp: wake_one_def sleeps_on_def woken_def)
next
  case True
  then have act: "active (pc s p)" by (simp add: sleeps_on_def active_def)
  note sp = sched_invD[OF inv]
  obtain u where u: "(if pol = MLFQ then pushBack (getQIdx s p) (Some p) s else Inr s) = Inr u"
    "sched_inv u" "qframe s u" "\<And>r. getQIdx u r = getQIdx s r"
    "\<And>k. set (qprocs k u) = set (qprocs k s) \<union> {r. r = p \<and> pol = MLFQ \<and> k = nat (getQIdx s p)}"
  proof (cases "pol = MLFQ")
    case True
    obtain u where "pushBack (getQIdx s p) (Some p) s = Inr u" "mlfq_inv u" "qframe s u"
      "\<And>r. getQIdx u r = getQIdx s r"
      "\<And>k. qprocs k u = (if k = nat (getQIdx s p) \<and> p \<notin> set (qprocs k s) then qprocs k s @ [p] else qprocs k s)"
      using pushBack_own[OF sp(1,2) p sp(5)[OF p act] sp(6)[OF p act]] by metis
    with True inv sched_inv_qframe[OF inv] show ?thesis by (intro that[of u]) auto
  qed (use inv in \<open>auto intro: that[of s]\<close>)
  define t where "t = upd_proc p (\<lambda>x. x\<lparr>state := RUNNABLE\<rparr>) u"
  have len: "p < length (procs u)" using sched_invD(3)[OF u(2)] p by simp
  have "sched_inv t"
    unfolding t_def using act qframe_fields(2)[OF u(3), of p]
    by (intro sched_inv_upd_proc[OF u(2)]) (simp_all add: active_def)
  moreover have "qprocs k t = qprocs k u" for k by (intro ring_cong) (simp_all add: t_def)
  moreover have "getQIdx t r = getQIdx u r" for r by (simp add: t_def getQIdx_upd_proc)
  moreover have "unq (pc t r) = unq (if r = p then (pc s r)\<lparr>state := RUNNABLE\<rparr> else pc s r)" for r
    using u(3) len by (simp add: t_def pc_upd_proc unq_state qframe_def)
  moreover have "ticks t = ticks s" using qframe_fields(10)[OF u(3)] by (simp add: t_def)
  moreover have "wake_one pol c p s = Inr t" using True u(1) by (simp add: wake_one_def sleeps_on_def t_def)
  ultimately show ?thesis using True u(4,5) p by (auto simp: woken_def)
qed

lemma sleeps_on_unq: "sleeps_on c (unq x) = sleeps_on c x"
  by (simp add: sleeps_on_def)

lemma woken_compose:
  assumes a: "woken pol c {p} s u" and b: "woken pol c ps u t" and p: "p \<notin> ps"
  shows "woken pol c (insert p ps) s t"
proof -
  have u: "unq (pc u r) = unq (if r = p \<and> sleeps_on c (pc s r) then (pc s r)\<lparr>state := RUNNABLE\<rparr> else pc s r)"
    if "r < NPROC" for r using a that by (simp add: woken_def)
  have sl: "sleeps_on c (pc u r) = sleeps_on c (pc s r)" if "r \<in> ps" "r < NPROC" for r
  proof -
    from that p have "r \<noteq> p" by auto
    with u[OF that(2)] have "unq (pc u r) = unq (pc s r)" by simp
    then show ?thesis by (metis sleeps_on_unq)
  qed
  have "unq (pc t r) = unq (if r \<in> insert p ps \<and> sleeps_on c (pc s r) then (pc s r)\<lparr>state := RUNNABLE\<rparr> else pc s r)"
    if r: "r < NPROC" for r
  proof -
    have t: "unq (pc t r) = unq (if r \<in> ps \<and> sleeps_on c (pc u r) then (pc u r)\<lparr>state := RUNNABLE\<rparr> else pc u r)"
      using b r by (simp add: woken_def)
    show ?thesis
    proof (cases "r \<in> ps")
      case True
      with p have "unq (pc u r) = unq (pc s r)" using u[OF r] by auto
      with t True sl[OF True r] show ?thesis by (simp add: unq_state)
    qed (use t u[OF r] in auto)
  qed
  moreover have "set (qprocs l t) = set (qprocs l s) \<union> {r \<in> insert p ps. pol = MLFQ \<and> r < NPROC \<and>
      sleeps_on c (pc s r) \<and> l = nat (getQIdx s r)}" if l: "l < nat PQ_COUNT" for l
  proof -
    have "set (qprocs l u) = set (qprocs l s) \<union> {r \<in> {p}. pol = MLFQ \<and> r < NPROC \<and> sleeps_on c (pc s r) \<and> l = nat (getQIdx s r)}"
      using a l by (simp add: woken_def)
    moreover have "set (qprocs l t) = set (qprocs l u) \<union> {r \<in> ps. pol = MLFQ \<and> r < NPROC \<and> sleeps_on c (pc u r) \<and> l = nat (getQIdx s r)}"
      using a b l by (simp add: woken_def)
    ultimately show ?thesis using sl by auto
  qed
  ultimately show ?thesis using a b by (simp add: woken_def)
qed

lemma wake_loop:
  assumes "sched_inv s" "distinct ps" "set ps \<subseteq> {..<NPROC}"
  shows "\<exists>t. fold_r (wake_one pol c) ps s = Inr t \<and> woken pol c (set ps) s t"
  using assms
proof (induction ps arbitrary: s)
  case Nil
  then show ?case by (auto simp: woken_def)
next
  case (Cons p ps)
  then have p: "p < NPROC" by simp
  from wake_one_spec[OF Cons.prems(1) p] obtain u where u: "wake_one pol c p s = Inr u" "woken pol c {p} s u" by blast
  then have "sched_inv u" by (simp add: woken_def)
  from Cons.IH[OF this] Cons.prems(2,3) obtain t where "fold_r (wake_one pol c) ps u = Inr t" "woken pol c (set ps) u t"
    by auto
  with u woken_compose[OF u(2), of "set ps" t] Cons.prems(2) show ?case by auto
qed

lemma wakeup1_spec: "sched_inv s \<Longrightarrow> \<exists>t. wakeup1 pol c s = Inr t \<and> woken pol c {..<NPROC} s t"
  using wake_loop[of s "[0..<NPROC]" pol c] by (simp add: wakeup1_def lessThan_atLeast0)

text \<open>
  Without the feedback queue \<open>wakeup1\<close> needs no invariant: it is one pass over the table.
\<close>

lemma wake_one_plain:
  "pol \<noteq> MLFQ \<Longrightarrow> wake_one pol c p s =
     Inr (if sleeps_on c (pc s p) then upd_proc p (\<lambda>x. x\<lparr>state := RUNNABLE\<rparr>) s else s)"
  by (simp add: wake_one_def sleeps_on_def)

lemma wakeup1_plain_loop:
  assumes "pol \<noteq> MLFQ" "length (procs s) = NPROC" "distinct ps" "set ps \<subseteq> {..<NPROC}"
  shows "\<exists>t. fold_r (wake_one pol c) ps s = Inr t \<and> length (procs t) = NPROC \<and>
    (\<forall>r < NPROC. pc t r = (if r \<in> set ps \<and> sleeps_on c (pc s r) then (pc s r)\<lparr>state := RUNNABLE\<rparr> else pc s r))"
  using assms
proof (induction ps arbitrary: s)
  case (Cons p ps)
  let ?u = "if sleeps_on c (pc s p) then upd_proc p (\<lambda>x. x\<lparr>state := RUNNABLE\<rparr>) s else s"
  have pu: "pc ?u r = (if r = p \<and> sleeps_on c (pc s p) then (pc s p)\<lparr>state := RUNNABLE\<rparr> else pc s r)" for r
    using Cons.prems by (auto simp: pc_upd_proc)
  have "length (procs ?u) = NPROC" using Cons.prems by simp
  from Cons.IH[OF Cons.prems(1) this] Cons.prems(3,4) obtain t where t:
    "fold_r (wake_one pol c) ps ?u = Inr t" "length (procs t) = NPROC"
    "\<forall>r < NPROC. pc t r = (if r \<in> set ps \<and> sleeps_on c (pc ?u r) then (pc ?u r)\<lparr>state := RUNNABLE\<rparr> else pc ?u r)"
    by auto
  have "pc t r = (if r \<in> set (p # ps) \<and> sleeps_on c (pc s r) then (pc s r)\<lparr>state := RUNNABLE\<rparr> else pc s r)"
    if "r < NPROC" for r
    using t(3)[rule_format, OF that] Cons.prems(3) unfolding pu by (cases "r = p") auto
  with t(1,2) show ?case using wake_one_plain[OF Cons.prems(1), of c p s] by auto
qed simp

section \<open>The other policies\<close>

lemma fcfs_scan_spec:
  "fcfs_scan s ps m = Some p \<Longrightarrow>
     (p \<in> set ps \<and> state (pc s p) = RUNNABLE \<or> m = Some p) \<and>
     (\<forall>r \<in> set ps. state (pc s r) = RUNNABLE \<longrightarrow> ctime (pc s p) \<le> ctime (pc s r)) \<and>
     (\<forall>r. m = Some r \<longrightarrow> ctime (pc s p) \<le> ctime (pc s r))"
proof (induction s ps m rule: fcfs_scan.induct)
  case (2 s x ps m)
  then show ?case by (fastforce split: if_splits option.splits)
qed simp

lemma fcfs_scan_None: "fcfs_scan s ps m = None \<longleftrightarrow> m = None \<and> (\<forall>r \<in> set ps. state (pc s r) \<noteq> RUNNABLE)"
proof (induction s ps m rule: fcfs_scan.induct)
  case (2 s x ps m)
  then show ?case by (auto split: option.splits)
qed simp

lemma pbs_min_le:
  "pbs_min s ps m \<le> m" "r \<in> set ps \<Longrightarrow> state (pc s r) = RUNNABLE \<Longrightarrow> pbs_min s ps m \<le> priority (pc s r)"
proof (induction s ps m rule: pbs_min.induct)
  case (2 s p ps m)
  { case 1 from "2.IH"(1) show ?case by (auto split: if_splits) }
  { case 2 with "2.IH" show ?case by (fastforce split: if_splits) }
qed simp_all

lemma pbs_min_attained:
  "pbs_min s ps m < m \<Longrightarrow> \<exists>r \<in> set ps. state (pc s r) = RUNNABLE \<and> priority (pc s r) = pbs_min s ps m"
proof (induction s ps m rule: pbs_min.induct)
  case (2 s p ps m)
  then show ?case
    using pbs_min_le(1)[of s ps "priority (pc s p)"]
    by (cases "pbs_min s (p # ps) m < priority (pc s p)") (auto split: if_splits)
qed simp

end
