(* ===== verification/Sched_Props.thy ===== *)
theory Sched_Props
  imports Sched
begin

text \<open>
  The properties of the scheduler: the rings are first-in first-out queues, deletion removes the
  process it is asked to remove, aging promotes exactly the processes that are due, the chosen
  process is the best live one, and what each of the other policies chooses. The witnesses run
  the operations on the state after boot.
\<close>

section \<open>The rings implement the queue contract\<close>

definition ring_fresh :: "int \<Rightarrow> nat option \<Rightarrow> 'a kst_scheme \<Rightarrow> bool" where
  "ring_fresh q po s \<longleftrightarrow> (case po of None \<Rightarrow> False
     | Some p \<Rightarrow> p < length (procs s) \<and> p \<notin> set (qprocs (nat q) s) \<and> \<not> same_pid_queued (nat q) p s)"

interpretation ring: fifo "\<lambda>s. q_ok q \<and> ring_inv (nat q) s" "\<lambda>s. map Some (qprocs (nat q) s)" "popFront q" "pushBack q"
  "ring_fresh q" for q
proof
  fix s :: "'b kst_scheme" and x xs
  assume s: "q_ok q \<and> ring_inv (nat q) s" and it: "map Some (qprocs (nat q) s) = x # xs"
  then have ne: "qprocs (nat q) s \<noteq> []" by auto
  from s ne popFront_eq[of q s] qprocs_popped(1,2)[of "nat q" s] it
  show "\<exists>t. popFront q s = Inr (x, t) \<and> (q_ok q \<and> ring_inv (nat q) t) \<and> map Some (qprocs (nat q) t) = xs"
    by (intro exI[of _ "popped (nat q) s"]) (auto simp: map_tl)
next
  fix s :: "'b kst_scheme"
  assume "q_ok q \<and> ring_inv (nat q) s" "map Some (qprocs (nat q) s) = []"
  then show "\<exists>e. popFront q s = Inl e" using getFront_empty(2)[of q s] by simp
next
  fix s :: "'b kst_scheme" and x
  assume s: "q_ok q \<and> ring_inv (nat q) s" and f: "ring_fresh q x s"
  then obtain p where p: "x = Some p" "p < length (procs s)" "p \<notin> set (qprocs (nat q) s)" "\<not> same_pid_queued (nat q) p s"
    by (auto simp: ring_fresh_def split: option.splits)
  with s pushBack_eq[of q s p] ring_inv_pushed[of q s p] qprocs_pushed(1)[of q s p]
  show "\<exists>t. pushBack q x s = Inr t \<and> (q_ok q \<and> ring_inv (nat q) t) \<and> map Some (qprocs (nat q) t) = map Some (qprocs (nat q) s) @ [x]"
    by (intro exI[of _ "pushed q p s"]) auto
qed

section \<open>States for the witnesses\<close>

definition blank_proc :: proc where
  "blank_proc = \<lparr>sz = 0, pgdir = 0, kstack = 0, state = UNUSED, pid = 0, parent = None, tf = 0, ctxt = 0,
     chan = None, killed = False, ofile = replicate NOFILE None, cwd = None, name = '''', ctime = 0, etime = 0, rtime = 0,
     priority = 0, stat = \<lparr>st_pid = 0, st_runtime = 0, num_run = 0, alloted_q = 0, alloted_pos = 0,
       st_ticks = [0, 0, 0, 0, 0], actualTicks = [0, 0, 0, 0, 0]\<rparr>, latestQTime = 0\<rparr>"

text \<open>Static storage is zero at boot; \<open>nextpid\<close> is initialised to 1.\<close>

definition boot :: kst where
  "boot = \<lparr>procs = replicate NPROC blank_proc, nextpid = 1, initproc = None, ticks = 0,
     prioQ = (\<lambda>_ _. None), prioQSize = (\<lambda>_. 0), prioQStart = (\<lambda>_. 0), cproc = None\<rparr>"

lemma pc_boot: "p < NPROC \<Longrightarrow> pc boot p = blank_proc"
  by (simp add: pc_def boot_def)

lemma length_boot: "length (procs boot) = NPROC"
  by (simp add: boot_def)

lemma qprocs_boot: "qprocs k boot = []"
  by (simp add: qprocs_def qlist_def boot_def)

lemma sched_inv_boot: "sched_inv boot"
proof -
  have "ring_inv k boot" for k
    by (simp add: ring_inv_def qprocs_def qlist_def) (simp add: boot_def MAX_PROC_COUNT_def)
  then show ?thesis
    by (simp add: sched_inv_def mlfq_inv_def pos_inv_def pids_inv_def pc_boot)
      (simp add: boot_def blank_proc_def active_def)
qed

text \<open>Slot \<open>p\<close> filled with a process that is not queued yet.\<close>

definition with_proc :: "nat \<Rightarrow> proc \<Rightarrow> kst \<Rightarrow> kst" where
  "with_proc p x s = upd_proc p (\<lambda>_. x) s"

lemma sched_inv_with_proc:
  assumes inv: "sched_inv s" and p: "p < NPROC" "unqueued p s" and x: "pid x \<noteq> 0" "q_ok (alloted_q (stat x))"
    and new: "\<And>r. r < NPROC \<Longrightarrow> r \<noteq> p \<Longrightarrow> pid (pc s r) \<noteq> pid x"
  shows "sched_inv (with_proc p x s)" "qprocs k (with_proc p x s) = qprocs k s"
proof -
  let ?t = "with_proc p x s"
  have pc: "pc ?t r = (if r = p then x else pc s r)" for r
    using sched_invD(3)[OF inv] p(1) by (simp add: with_proc_def pc_upd_proc)
  have rc: "qprocs k ?t = qprocs k s" "ring_inv k ?t = ring_inv k s" "ring_pos k ?t = ring_pos k s" for k
    by (simp_all add: with_proc_def ring_cong[of "upd_proc p (\<lambda>_. x) s" k s])
  show "qprocs k ?t = qprocs k s" by (rule rc)
  have "mlfq_inv ?t"
  proof (rule pos_invI)
    show "ring_inv k ?t" if "k < nat PQ_COUNT" for k using sched_invD(4)[OF inv that] by (simp add: rc)
    fix k j assume kj: "k < nat PQ_COUNT" "j < nat (prioQSize ?t k)"
    then have j: "j < nat (prioQSize s k)" by (simp add: with_proc_def)
    then have "qprocs k s ! j \<noteq> p" using p(2) kj(1) by (metis length_qprocs nth_mem unqueued_def)
    with pos_invD[OF sched_invD(1)[OF inv] kj(1) j] show "alloted_q (stat (pc ?t (qprocs k ?t ! j))) = int k \<and>
      alloted_pos (stat (pc ?t (qprocs k ?t ! j))) = int (ring_pos k ?t j)" by (simp add: rc pc)
  qed
  moreover have "pids_inv ?t" using sched_invD(2)[OF inv] new p(1) x(1) unfolding pids_inv_def pc by metis
  ultimately show "sched_inv ?t" using inv x by (auto simp: sched_inv_def getQIdx_def pc)
qed

definition ready_proc :: "int \<Rightarrow> proc" where
  "ready_proc n = blank_proc\<lparr>state := RUNNABLE, pid := n, kstack := 4096, pgdir := 4096\<rparr>"

text \<open>One runnable process, not queued yet.\<close>

definition one_ready :: kst where
  "one_ready = with_proc 0 (ready_proc 1) boot"

lemma one_ready_facts:
  "sched_inv one_ready" "qprocs k one_ready = []" "pc one_ready 0 = ready_proc 1"
  "0 < r \<Longrightarrow> r < NPROC \<Longrightarrow> pc one_ready r = blank_proc" "length (procs one_ready) = NPROC" "ticks one_ready = 0"
proof -
  have "sched_inv one_ready \<and> qprocs k one_ready = qprocs k boot"
    unfolding one_ready_def
    by (intro conjI sched_inv_with_proc[OF sched_inv_boot])
      (simp_all add: unqueued_def qprocs_boot ready_proc_def blank_proc_def q_ok_def PQ_COUNT_def pc_boot, simp_all add: NPROC_def)
  then show "sched_inv one_ready" "qprocs k one_ready = []" by (simp_all add: qprocs_boot)
qed (simp_all add: one_ready_def with_proc_def pc_upd_proc length_boot pc_boot NPROC_def, simp add: boot_def)

text \<open>One runnable process at level \<open>q\<close>, queued there, \<open>n\<close> ticks after it was queued.\<close>

definition one_queued :: "int \<Rightarrow> u32 \<Rightarrow> kst" where
  "one_queued q n = (pushed q 0 one_ready)\<lparr>ticks := n\<rparr>"

lemma one_queued_facts:
  assumes q: "q_ok q"
  shows "sched_inv (one_queued q n)" "qprocs k (one_queued q n) = (if k = nat q then [0] else [])"
    "getQIdx (one_queued q n) 0 = q" "state (pc (one_queued q n) 0) = RUNNABLE" "killed (pc (one_queued q n) 0) = False"
    "pid (pc (one_queued q n) 0) = 1" "latestQTime (pc (one_queued q n) 0) = 0" "ticks (one_queued q n) = n"
    "0 < r \<Longrightarrow> r < NPROC \<Longrightarrow> pc (one_queued q n) r = blank_proc" "length (procs (one_queued q n)) = NPROC"
proof -
  note s = one_ready_facts
  have z: "0 < length (procs one_ready)" by (simp add: s(5) NPROC_def)
  have unq: "unqueued 0 one_ready" "\<not> same_pid_queued (nat q) 0 one_ready"
    by (simp_all add: unqueued_def same_pid_queued_def s(2))
  note f = pushBack_fresh[OF sched_invD(1)[OF s(1)] q z unq]
  have rc: "qprocs k (one_queued q n) = qprocs k (pushed q 0 one_ready)" for k
    unfolding one_queued_def by (intro ring_cong) simp_all
  show qp: "qprocs k (one_queued q n) = (if k = nat q then [0] else [])" using f(4,5) by (simp add: rc s(2))
  show qi: "getQIdx (one_queued q n) 0 = q" using f(6) by (simp add: one_queued_def getQIdx_def)
  have oth: "pc (one_queued q n) r = pc one_ready r" if "r \<noteq> 0" for r
    using that by (simp add: one_queued_def pushed_other(3))
  then show "0 < r \<Longrightarrow> r < NPROC \<Longrightarrow> pc (one_queued q n) r = blank_proc" using s(4) by simp
  show "state (pc (one_queued q n) 0) = RUNNABLE" "killed (pc (one_queued q n) 0) = False"
    "pid (pc (one_queued q n) 0) = 1" "latestQTime (pc (one_queued q n) 0) = 0"
    by (simp_all add: one_queued_def pc_pushed_same[OF z] s(3) ready_proc_def blank_proc_def)
  show len: "length (procs (one_queued q n)) = NPROC" by (simp add: one_queued_def s(5))
  have "pids_inv (pushed q 0 one_ready)"
    using sched_invD(2)[OF s(1)] pids_inv_cong[OF qframe_fields(1)[OF f(3)]] by simp
  moreover have "active (pc (pushed q 0 one_ready) r) \<Longrightarrow> r < NPROC \<Longrightarrow> r = 0" for r
    using s(4)[of r] by (cases r) (simp_all add: pushed_other(3) active_def blank_proc_def)
  moreover have "pid (pc (pushed q 0 one_ready) 0) \<noteq> 0 \<and> q_ok (getQIdx (pushed q 0 one_ready) 0)"
    using f(6) q by (simp add: pc_pushed_same[OF z] s(3) ready_proc_def)
  ultimately have "sched_inv (pushed q 0 one_ready)"
    using f(2) unfolding sched_inv_def by blast
  then show "sched_inv (one_queued q n)" by (simp add: one_queued_def)
qed (simp add: one_queued_def)

lemma waiting_queued_one: "q_ok q \<Longrightarrow> waiting_queued (one_queued q n)"
  unfolding waiting_queued_def
proof (intro allI impI)
  fix p assume q: "q_ok q" and p: "p < NPROC" "state (pc (one_queued q n) p) = RUNNABLE \<and> \<not> killed (pc (one_queued q n) p)"
  have "p = 0" using p one_queued_facts(9)[OF q, of p n] by (cases p) (auto simp: blank_proc_def)
  with q q_ok_nat[OF q] show "\<not> unqueued p (one_queued q n)" by (auto simp: unqueued_def one_queued_facts(2))
qed

section \<open>The feedback queue\<close>

text \<open>
  C1: one round of the MLFQ scheduler never fails on a state that satisfies the invariant (rings
  well formed, queued processes know their position, live pids distinct, stacks and page tables
  present). It chooses a process that is runnable and not killed, the first such of its ring, and no
  better ring holds such a process; that process is taken off the rings, marked running and its
  run counted, and the invariant holds again. When it chooses nothing, every queued process was
  dead and the rings are empty.
\<close>

theorem mlfq_round:
  assumes "sched_inv s" and "\<forall>p < NPROC. state (pc s p) = RUNNABLE \<longrightarrow> loadable (pc s p)"
  shows "\<exists>po t. sched_mlfq s = Inr (po, t) \<and> sched_inv t \<and>
    (case po of
       None \<Rightarrow> \<forall>k < nat PQ_COUNT. qprocs k t = [] \<and> (\<forall>r \<in> set (qprocs k s). dead s r)
     | Some p \<Rightarrow> p < NPROC \<and> \<not> dead s p \<and> q_ok (getQIdx s p) \<and>
         (\<forall>l < nat (getQIdx s p). \<forall>r \<in> set (qprocs l s). dead s r) \<and>
         (qprocs (nat (getQIdx s p)) s \<noteq> [] \<longrightarrow>
            dropWhile (dead s) (qprocs (nat (getQIdx s p)) s) = p # qprocs (nat (getQIdx s p)) t) \<and>
         unqueued p t \<and> cproc t = Some p \<and> state (pc t p) = RUNNING \<and>
         num_run (stat (pc t p)) = num_run (stat (pc s p)) + 1 \<and> latestQTime (pc t p) = sint (ticks s))"
proof -
  obtain po u where u: "mlfq_select s = Inr (po, u)" "sched_inv u" "qframe s u"
    "\<And>r. getQIdx u r = getQIdx s r" "best_choice s po u"
    using mlfq_select_spec[OF assms(1)] by metis
  show ?thesis
  proof (cases po)
    case None
    with u show ?thesis
      by (intro exI[of _ None] exI[of _ u]) (simp add: sched_mlfq_def run_alloted_def best_choice_def)
  next
    case (Some p)
    with u(5) obtain rest where p: "\<not> dead s p" "p < NPROC" "q_ok (getQIdx s p)" "qprocs (nat (getQIdx s p)) u = p # rest"
      by (auto simp: best_choice_def)
    have sp: "unq (pc u p) = unq (pc s p)" using u(3) by (simp add: qframe_def)
    then have eqs: "kstack (pc u p) = kstack (pc s p)" "pgdir (pc u p) = pgdir (pc s p)"
      "num_run (stat (pc u p)) = num_run (stat (pc s p))"
      by (auto simp: unq_def dest: arg_cong[of _ _ kstack] arg_cong[of _ _ pgdir] arg_cong[of _ _ "\<lambda>x. num_run (stat x)"])
    have "loadable (pc u p)" using assms(2) p(1,2) by (simp add: loadable_def eqs dead_def procIsDead_def)
    then obtain t where t: "run_alloted MLFQ (Some p) u = Inr t" "sched_inv t" "unqueued p t" "cproc t = Some p"
      "pc t p = (pc u p)\<lparr>stat := (stat (pc u p))\<lparr>num_run := num_run (stat (pc u p)) + 1\<rparr>,
                        latestQTime := sint (ticks u), state := RUNNING\<rparr>"
      "qprocs (nat (getQIdx s p)) t = rest"
      using run_alloted_mlfq[OF u(2) p(2), of rest] p u(4) dead_qframe[OF u(3)] by metis
    with u p Some show ?thesis
      by (intro exI[of _ po] exI[of _ t])
        (auto simp: sched_mlfq_def best_choice_def eqs qframe_fields(10)[OF u(3)])
  qed
qed

theorem mlfq_round_witness:
  "\<exists>t. sched_mlfq (one_queued 2 7) = Inr (Some 0, t) \<and> sched_inv t \<and> state (pc t 0) = RUNNING \<and>
     latestQTime (pc t 0) = 7"
proof -
  let ?s = "one_queued 2 7"
  have q: "q_ok 2" by (simp add: q_ok_def PQ_COUNT_def)
  note f = one_queued_facts[OF q, where n = 7]
  have live: "\<not> dead ?s 0" by (simp add: dead_def procIsDead_def f)
  have only: "p = 0" if "\<not> dead ?s p" "p < NPROC" for p
    using that f(9)[of p] by (cases p) (auto simp: dead_def procIsDead_def blank_proc_def)
  have "loadable (pc ?s 0)"
    by (simp add: one_queued_def pc_pushed_same one_ready_facts(3,5) NPROC_def ready_proc_def loadable_def)
  moreover have "p = 0" if "p < NPROC" "state (pc ?s p) = RUNNABLE" for p
    using that f(9)[of p] by (cases p) (auto simp: blank_proc_def)
  ultimately have load: "\<forall>p < NPROC. state (pc ?s p) = RUNNABLE \<longrightarrow> loadable (pc ?s p)" by blast
  from mlfq_round[OF f(1) load] obtain po t where t: "sched_mlfq ?s = Inr (po, t)" "sched_inv t"
    and c: "case po of None \<Rightarrow> \<forall>k < nat PQ_COUNT. qprocs k t = [] \<and> (\<forall>r \<in> set (qprocs k ?s). dead ?s r)
      | Some p \<Rightarrow> p < NPROC \<and> \<not> dead ?s p \<and> cproc t = Some p \<and> state (pc t p) = RUNNING \<and> latestQTime (pc t p) = sint (ticks ?s)"
    by (fastforce split: option.splits)
  have "po \<noteq> None"
  proof
    assume "po = None"
    with c have "\<forall>k < nat PQ_COUNT. \<forall>r \<in> set (qprocs k ?s). dead ?s r" by simp
    moreover have "2 < nat PQ_COUNT" by (simp add: PQ_COUNT_def)
    ultimately have "\<forall>r \<in> set (qprocs 2 ?s). dead ?s r" by blast
    with live show False by (simp add: f(2))
  qed
  with c only have "po = Some 0" by (auto split: option.splits)
  with c t f(8) show ?thesis by auto
qed

text \<open>
  C2: deleting the position a queued process records removes that process and no other: the ring
  keeps the order of the rest, the other rings are as before, nothing outside the queue records of
  the processes changes, and every remaining process records its new position.
\<close>

theorem deleteIdx_removes:
  assumes "mlfq_inv s" "k < nat PQ_COUNT" "p \<in> set (qprocs k s)"
  shows "\<exists>t. deleteIdx (getQIdx s p) (getQPos s p) s = Inr t \<and> mlfq_inv t \<and> qframe s t \<and>
    qprocs k t = remove1 p (qprocs k s) \<and> (\<forall>l. l \<noteq> k \<longrightarrow> qprocs l t = qprocs l s)"
proof -
  from assms(3) obtain j where j: "j < nat (prioQSize s k)" "p = qprocs k s ! j"
    by (auto simp: in_set_conv_nth)
  have q: "q_ok (int k)" "nat (int k) = k" using assms(2) by (auto simp: q_ok_def)
  have d: "distinct (qprocs k s)" using assms(1,2) by (simp add: mlfq_inv_def ring_inv_def)
  have "remove1 p (qprocs k s) = take j (qprocs k s) @ drop (Suc j) (qprocs k s)"
  proof -
    have sp: "qprocs k s = take j (qprocs k s) @ p # drop (Suc j) (qprocs k s)"
      using id_take_nth_drop[of j "qprocs k s"] j by simp
    then have "p \<notin> set (take j (qprocs k s))" using d by (metis distinct_append disjoint_iff list.set_intros(1))
    then show ?thesis by (subst sp) (simp add: remove1_append)
  qed
  moreover have "getQIdx s p = int k" "getQPos s p = int (ring_pos k s j)"
    using pos_invD[OF assms(1,2) j(1)] j(2) by (simp_all add: getQIdx_def getQPos_def)
  moreover obtain t where "deleteIdx (int k) (int (ring_pos k s j)) s = Inr t" "qframe s t"
    "qprocs k t = take j (qprocs k s) @ drop (Suc j) (qprocs k s)" "\<And>l. l \<noteq> k \<Longrightarrow> qprocs l t = qprocs l s" "mlfq_inv t"
    using deleteIdx_spec[OF q(1) assms(1), unfolded q(2), OF j(1)] by metis
  ultimately show ?thesis by auto
qed

theorem deleteIdx_removes_witness:
  "\<exists>t. deleteIdx 2 (getQPos (one_queued 2 7) 0) (one_queued 2 7) = Inr t \<and> qprocs 2 t = []"
proof -
  have q: "q_ok 2" by (simp add: q_ok_def PQ_COUNT_def)
  note f = one_queued_facts[OF q, where n = 7]
  have "2 < nat PQ_COUNT" "0 \<in> set (qprocs 2 (one_queued 2 7))" by (simp_all add: PQ_COUNT_def f(2))
  from deleteIdx_removes[OF sched_invD(1)[OF f(1)] this] f(2,3) show ?thesis by auto
qed

text \<open>
  C3: a timer tick of the boot processor ages the waiting processes. When every runnable process
  that is not killed is queued, the pass does not fail, every process that has waited its queue's limit
  is moved one queue up (and stays in the highest queue if it is there already), every other one stays
  in its queue, and the invariant is kept.
\<close>

theorem aging_promotes:
  assumes "sched_inv s" "waiting_queued s"
  shows "\<exists>t. updateStatsAndAging 0 s = Inr t \<and> sched_inv t \<and> waiting_queued t \<and> ticks t = ticks s + 1 \<and>
    (\<forall>l < nat PQ_COUNT. \<forall>r < NPROC. r \<in> set (qprocs l t) \<longleftrightarrow>
       (if due (s\<lparr>ticks := ticks s + 1\<rparr>) r then l = nat (getQIdx s r) - 1 else r \<in> set (qprocs l s)))"
proof -
  let ?s1 = "s\<lparr>ticks := ticks s + 1\<rparr>"
  from updateStatsAndAging_spec[OF assms] obtain t where
    t: "updateStatsAndAging 0 s = Inr t" "aged {..<NPROC} ?s1 t" "waiting_queued t" by blast
  have "qprocs l ?s1 = qprocs l s" for l by (intro ring_cong) simp_all
  moreover have "getQIdx ?s1 r = getQIdx s r" for r by (simp add: getQIdx_def)
  ultimately have "r \<in> set (qprocs l t) \<longleftrightarrow>
       (if due ?s1 r then l = nat (getQIdx s r) - 1 else r \<in> set (qprocs l s))" if "l < nat PQ_COUNT" "r < NPROC" for l r
    using t(2) that by (auto simp: aged_def)
  with t show ?thesis by (auto simp: aged_def age_frame_def)
qed

theorem aging_promotes_witness:
  "\<exists>t. updateStatsAndAging 0 (one_queued 2 80) = Inr t \<and> sched_inv t \<and> 0 \<in> set (qprocs 1 t)"
proof -
  have q: "q_ok 2" by (simp add: q_ok_def PQ_COUNT_def)
  note f = one_queued_facts[OF q, where n = 80]
  have "due ((one_queued 2 80)\<lparr>ticks := ticks (one_queued 2 80) + 1\<rparr>) 0"
    by (simp add: due_def getTicks_def f WAIT_LIMIT_def) (simp add: getQIdx_def f(3)[unfolded getQIdx_def])
  with aging_promotes[OF f(1) waiting_queued_one[OF q]] f(3) show ?thesis
    by (force simp: PQ_COUNT_def NPROC_def)
qed


definition one_asleep :: kst where
  "one_asleep = upd_proc 0 (\<lambda>x. x\<lparr>state := SLEEPING, chan := Some ChanTicks\<rparr>) (one_queued 2 7)"

lemma one_asleep_facts:
  "sched_inv one_asleep" "sleeps_on (Some ChanTicks) (pc one_asleep 0)" "getQIdx one_asleep 0 = 2"
proof -
  have q: "q_ok 2" by (simp add: q_ok_def PQ_COUNT_def)
  note f = one_queued_facts[OF q, where n = 7]
  have z: "0 < length (procs (one_queued 2 7))" by (simp add: f NPROC_def)
  show "sched_inv one_asleep"
    unfolding one_asleep_def by (rule sched_inv_upd_proc[OF f(1)]) (simp_all add: active_def f)
  show "sleeps_on (Some ChanTicks) (pc one_asleep 0)" "getQIdx one_asleep 0 = 2"
    using f(3) by (simp_all add: one_asleep_def pc_upd_same[OF z] sleeps_on_def getQIdx_def)
qed


text \<open>
  C5: a process that comes back from running is requeued by what it did: asleep, or runnable before
  the end of its slice of \<open>2 ^ q\<close> ticks, at the back of its own queue; runnable at the end of the slice, at
  the back of the next lower queue (the lowest keeps it). One that yields in the tick it was dispatched in (a
  better process became runnable), or that comes back later than its slice, is put in no queue at all, where
  the queues are the only place the scheduler takes a process from while its queue is not empty. The other
  queues are untouched and the positions stay right.
\<close>

theorem mlfq_requeue:
  assumes "sched_inv s" "p < NPROC" "unqueued p s" "state (pc s p) = SLEEPING \<or> state (pc s p) = RUNNABLE"
  shows "\<exists>t. mlfq_return p s = Inr t \<and> mlfq_inv t \<and>
    (\<forall>l. qprocs l t = qprocs l s @
       (if state (pc s p) = RUNNABLE \<and> (getTicks s p \<le> 0 \<or> 2 ^ nat (getQIdx s p) < getTicks s p) then []
        else if l = nat (if state (pc s p) = RUNNABLE \<and> getTicks s p = 2 ^ nat (getQIdx s p)
                    then min (getQIdx s p + 1) (PQ_COUNT - 1) else getQIdx s p) then [p] else []))"
proof -
  have act: "active (pc s p)" using assms(4) by (auto simp: active_def)
  note r = mlfq_return_requeues[OF assms(1,2) act assms(3)]
  show ?thesis
  proof (cases "state (pc s p) = RUNNABLE \<and> (getTicks s p \<le> 0 \<or> 2 ^ nat (getQIdx s p) < getTicks s p)")
    case True
    then have "mlfq_return p s = Inr (s\<lparr>cproc := None\<rparr>)" using r(3) by auto
    moreover have "mlfq_inv (s\<lparr>cproc := None\<rparr>)" "qprocs l (s\<lparr>cproc := None\<rparr>) = qprocs l s" for l
      using sched_invD(1)[OF assms(1)] by (simp_all add: mlfq_inv_cong[of "s\<lparr>cproc := None\<rparr>" s] ring_cong(3)[of "s\<lparr>cproc := None\<rparr>" _ s])
    ultimately show ?thesis unfolding if_P[OF True] by simp
  next
    case late: False
    show ?thesis unfolding if_not_P[OF late]
    proof (cases "state (pc s p) = RUNNABLE \<and> getTicks s p = 2 ^ nat (getQIdx s p)")
      case True
      with r(2) show "\<exists>t. mlfq_return p s = Inr t \<and> mlfq_inv t \<and> (\<forall>l. qprocs l t = qprocs l s @
         (if l = nat (if state (pc s p) = RUNNABLE \<and> getTicks s p = 2 ^ nat (getQIdx s p)
                    then min (getQIdx s p + 1) (PQ_COUNT - 1) else getQIdx s p) then [p] else []))" by simp
    next
      case False
      with assms(4) late have "state (pc s p) = SLEEPING \<or>
          state (pc s p) = RUNNABLE \<and> 0 < getTicks s p \<and> getTicks s p < 2 ^ nat (getQIdx s p)" by auto
      from r(1)[OF this] show "\<exists>t. mlfq_return p s = Inr t \<and> mlfq_inv t \<and> (\<forall>l. qprocs l t = qprocs l s @
         (if l = nat (if state (pc s p) = RUNNABLE \<and> getTicks s p = 2 ^ nat (getQIdx s p)
                    then min (getQIdx s p + 1) (PQ_COUNT - 1) else getQIdx s p) then [p] else []))" unfolding if_not_P[OF False] .
    qed
  qed
qed

definition one_back :: "u32 \<Rightarrow> kst" where
  "one_back n = one_ready\<lparr>ticks := n\<rparr>"

lemma one_back_facts:
  "sched_inv (one_back n)" "unqueued 0 (one_back n)" "state (pc (one_back n) 0) = RUNNABLE"
  "getQIdx (one_back n) 0 = 0" "getTicks (one_back n) 0 = sint n" "qprocs k (one_back n) = []"
proof -
  show q: "qprocs k (one_back n) = []" for k
    using one_ready_facts(2)[of k] ring_cong(3)[of "one_back n" k one_ready] by (simp add: one_back_def)
  then show "unqueued 0 (one_back n)" by (simp add: unqueued_def)
qed (simp_all add: one_back_def one_ready_facts ready_proc_def blank_proc_def getQIdx_def getTicks_def)

theorem mlfq_requeue_witness:
  "(\<exists>t. mlfq_return 0 (one_back 1) = Inr t \<and> qprocs 1 t = [0] \<and> qprocs 0 t = []) \<and> (\<exists>t. mlfq_return 0 (one_back 0) = Inr t \<and> (\<forall>l. qprocs l t = []))"
proof -
  have "\<exists>t. mlfq_return 0 (one_back 1) = Inr t \<and> mlfq_inv t \<and>
      (\<forall>l. qprocs l t = qprocs l (one_back 1) @ (if l = nat (if True then min (0 + 1) (PQ_COUNT - 1) else 0) then [0] else []))"
    using mlfq_requeue[OF one_back_facts(1) _ one_back_facts(2), of 1] one_back_facts(3-5)[of 1] by (simp add: NPROC_def)
  then obtain t where "mlfq_return 0 (one_back 1) = Inr t" "\<And>l. qprocs l t = (if l = 1 then [0] else [])"
    by (auto simp: one_back_facts(6) PQ_COUNT_def)
  moreover have "\<exists>t. mlfq_return 0 (one_back 0) = Inr t \<and> (\<forall>l. qprocs l t = [])"
    using mlfq_requeue[OF one_back_facts(1) _ one_back_facts(2), of 0] one_back_facts(3-5)[of 0] by (auto simp: NPROC_def one_back_facts(6))
  ultimately show ?thesis by simp
qed

section \<open>A stale position\<close>

text \<open>Two processes queued in ring 0, then the first taken off the ring but left runnable.\<close>

definition two_ready :: kst where
  "two_ready = with_proc 1 (ready_proc 2) one_ready"

definition stale :: kst where
  "stale = popped 0 (pushed 0 1 (pushed 0 0 two_ready))"

lemma two_ready_facts:
  "sched_inv two_ready" "qprocs k two_ready = []" "pc two_ready 0 = ready_proc 1" "pc two_ready 1 = ready_proc 2"
  "length (procs two_ready) = NPROC" "prioQSize two_ready = (\<lambda>_. 0)" "prioQStart two_ready = (\<lambda>_. 0)" "prioQ two_ready = (\<lambda>_ _. None)"
proof -
  note s = one_ready_facts
  have "pid (pc one_ready r) \<noteq> pid (ready_proc 2)" if "r < NPROC" for r
    using that s(3) s(4)[of r] by (cases r) (simp_all add: ready_proc_def blank_proc_def)
  moreover have "unqueued 1 one_ready" by (simp add: unqueued_def s(2))
  moreover have "(1::nat) < NPROC" by (simp add: NPROC_def)
  ultimately have "sched_inv two_ready \<and> qprocs k two_ready = qprocs k one_ready"
    unfolding two_ready_def
    by (intro conjI sched_inv_with_proc[OF s(1)]) (simp_all add: ready_proc_def blank_proc_def q_ok_def PQ_COUNT_def)
  then show "sched_inv two_ready" "qprocs k two_ready = []" by (simp_all add: s(2))
  show "pc two_ready 0 = ready_proc 1" "pc two_ready 1 = ready_proc 2"
    using s(3,5) by (simp_all add: two_ready_def with_proc_def pc_upd_proc NPROC_def)
qed (simp_all add: two_ready_def one_ready_def with_proc_def length_boot, simp_all add: boot_def)

lemma stale_ring:
  "prioQ stale 0 = (\<lambda>_. None)(0 := Some 0, 1 := Some 1)" "prioQStart stale 0 = 1" "prioQSize stale 0 = 1"
  "length (procs stale) = NPROC"
proof -
  note s = two_ready_facts
  have b0: "backIndex 0 two_ready = 0" by (simp add: backIndex_def s MAX_PROC_COUNT_def)
  have b1: "backIndex 0 (pushed 0 0 two_ready) = 1"
    by (simp add: backIndex_def pushed_def s MAX_PROC_COUNT_def Let_def)
  have h: "prioQ (pushed 0 p u) 0 = (prioQ u 0)(nat (backIndex 0 u) := Some p)" for p and u :: kst
    by (simp add: pushed_def Let_def)
  show "prioQ stale 0 = (\<lambda>_. None)(0 := Some 0, 1 := Some 1)"
    by (simp add: stale_def h b0 b1 s)
qed (simp_all add: stale_def ring_pos_def two_ready_facts pushed_def Let_def RING_val)

lemma stale_procs:
  "alloted_q (stat (pc stale 0)) = 0" "alloted_pos (stat (pc stale 0)) = 0" "pid (pc stale 0) = 1" "pid (pc stale 1) = 2"
  "state (pc stale 0) = RUNNABLE" "state (pc stale 1) = RUNNABLE"
proof -
  note s = two_ready_facts
  have z: "0 < length (procs two_ready)" "1 < length (procs (pushed 0 0 two_ready))" by (simp_all add: s(5) NPROC_def)
  have b0: "backIndex 0 two_ready = 0" by (simp add: backIndex_def s MAX_PROC_COUNT_def)
  have pc: "pc stale r = pc (pushed 0 1 (pushed 0 0 two_ready)) r" for r by (simp add: stale_def pc_def)
  show "alloted_q (stat (pc stale 0)) = 0" "alloted_pos (stat (pc stale 0)) = 0" "pid (pc stale 0) = 1"
    "state (pc stale 0) = RUNNABLE"
    by (simp_all add: pc pushed_other(3) pc_pushed_same[OF z(1)] b0 s(3) ready_proc_def)
  show "pid (pc stale 1) = 2" "state (pc stale 1) = RUNNABLE"
    using pc_pushed_same[OF z(2), of 0] s(4) by (simp_all add: pc pushed_other(3) ready_proc_def)
qed

lemma qprocs_stale: "qprocs 0 stale = [1]"
  by (simp add: qprocs_def qlist_def stale_ring ring_pos_def RING_val)

text \<open>
  Promoting a runnable process that is not queued takes another process off its queue. Slot 0 has
  been dispatched and left unqueued as in C6 but still records its old position; when it ages, \<open>deleteIdx\<close>
  shifts the entry of slot 1 out of the live part of the ring and slot 0 is queued in its place.
\<close>

lemma stale_promotion_evicts:
  "qprocs 0 stale = [1] \<and> state (pc stale 1) = RUNNABLE \<and> (\<exists>t. incPrio 0 stale = Inr t \<and> qprocs 0 t = [0])"
proof -
  let ?h = "stale\<lparr>prioQ := (prioQ stale)(0 := (prioQ stale 0)(0 := None)), prioQSize := (prioQSize stale)(0 := 0)\<rparr>"
  let ?d = "upd_proc 1 (\<lambda>x. x\<lparr>stat := (stat x)\<lparr>alloted_pos := 0\<rparr>\<rparr>)
     (?h\<lparr>prioQ := (prioQ ?h)(0 := (prioQ ?h 0)(0 := Some 1))\<rparr>)"
  have w: "ring_walk RING 0 (Suc 0) = [0]" using ring_walk_eq[of 0 1 RING] by (simp add: RING_val)
  have bi: "backIndex 0 ?h = 1" "backIndex 0 ?d = 1" by (simp_all add: backIndex_def stale_ring MAX_PROC_COUNT_def)
  have "shift_down 0 [0] ?h = Inr ?d" by (simp add: stale_ring RING_val)
  then have "deleteIdx 0 0 stale = Inr ?d"
    using bi(1) w by (simp add: deleteIdx_def stale_ring q_ok_def PQ_COUNT_def MAX_PROC_COUNT_def Let_def del: shift_down.simps)
  moreover have "ring_walk RING (Suc 0) (Suc 0) = []" using ring_walk_eq[of 1 0 RING] by (simp add: RING_val)
  then have "pushBack 0 (Some 0) ?d = Inr (pushed 0 0 ?d)"
    using bi(2) by (simp add: pushBack_def pushed_def q_ok_def PQ_COUNT_def Let_def stale_ring)
  moreover have "qprocs 0 (pushed 0 0 ?d) = [0]"
    using bi(2) by (simp add: qprocs_def qlist_def ring_pos_def stale_ring RING_val pushed_def Let_def)
  ultimately show ?thesis
    using qprocs_stale stale_procs by (simp add: incPrio_def getQIdx_def getQPos_def HIGHEST_PRIO_Q_def)
qed



section \<open>Preemption and time\<close>

text \<open>
  The tick counter may wrap: the age of a process is right for every wait below \<open>2 ^ 31\<close> ticks,
  whenever its clock was last set.
\<close>

lemma getTicks_wraps:
  assumes "latestQTime (pc s p) = sint (t0 :: u32)" "ticks s = t0 + of_nat n" "n < 2 ^ 31"
  shows "getTicks s p = int n"
proof -
  have "ticks s - word_of_int (latestQTime (pc s p)) = of_nat n" by (simp add: assms(1,2))
  moreover have "sint (of_nat n :: u32) = int n"
    using assms(3) signed_take_bit_int_eq_self[of 31 "int n"] by (simp add: sint_sbintrunc' signed_of_nat)
  ultimately show ?thesis by (simp add: getTicks_def)
qed

lemma timeToPreempt_iff:
  assumes "\<forall>r < NPROC. state (pc s r) = RUNNABLE \<longrightarrow> pid (pc s r) \<noteq> 0"
  shows "timeToPreempt pol q same s \<noteq> 0 \<longleftrightarrow> (\<exists>r < NPROC. better pol s q same r)"
proof (cases "find_idx (better pol s q same) [0..<NPROC]")
  case None
  then have "\<not> better pol s q same r" if "r < NPROC" for r using that by (simp add: find_idx_None)
  with None show ?thesis by (auto simp: timeToPreempt_def)
next
  case (Some r)
  then have "r < NPROC" "better pol s q same r" by (auto simp: find_idx_Some)
  with Some assms show ?thesis by (auto simp: timeToPreempt_def better_def)
qed



section \<open>The other policies\<close>

text \<open>
  FCFS runs a runnable process with the earliest creation time, and runs one whenever there
  is one.
\<close>

lemma fcfs_earliest:
  assumes "\<forall>p < NPROC. state (pc s p) = RUNNABLE \<longrightarrow> loadable (pc s p)" "length (procs s) = NPROC"
  shows "\<exists>po t. sched_fcfs s = Inr (po, t) \<and>
    (case po of None \<Rightarrow> t = s \<and> (\<forall>r < NPROC. state (pc s r) \<noteq> RUNNABLE)
     | Some p \<Rightarrow> p < NPROC \<and> state (pc s p) = RUNNABLE \<and> state (pc t p) = RUNNING \<and> cproc t = Some p \<and>
         (\<forall>r < NPROC. state (pc s r) = RUNNABLE \<longrightarrow> ctime (pc s p) \<le> ctime (pc s r)))"
proof (cases "fcfs_scan s [0..<NPROC] None")
  case None
  then have "\<forall>r < NPROC. state (pc s r) \<noteq> RUNNABLE" by (simp add: fcfs_scan_None)
  with None show ?thesis by (auto simp: sched_fcfs_def run_alloted_def)
next
  case (Some p)
  from fcfs_scan_spec[OF this] have p: "p < NPROC" "state (pc s p) = RUNNABLE"
    "\<forall>r < NPROC. state (pc s r) = RUNNABLE \<longrightarrow> ctime (pc s p) \<le> ctime (pc s r)" by auto
  with assms have "sched_fcfs s = Inr (Some p, upd_proc p (\<lambda>x. x\<lparr>state := RUNNING\<rparr>) (s\<lparr>cproc := Some p\<rparr>))"
    using Some by (simp add: sched_fcfs_def run_alloted_def switchuvm_def loadable_def Let_def)
  with p assms(2) show ?thesis by auto
qed

lemma loadable_one_ready: "\<forall>p < NPROC. state (pc one_ready p) = RUNNABLE \<longrightarrow> loadable (pc one_ready p)"
proof (intro allI impI)
  fix p assume "p < NPROC" "state (pc one_ready p) = RUNNABLE"
  then show "loadable (pc one_ready p)"
    using one_ready_facts(3) one_ready_facts(4)[of p]
    by (cases p) (simp_all add: loadable_def ready_proc_def blank_proc_def)
qed

lemma fcfs_earliest_witness: "\<exists>p t. sched_fcfs one_ready = Inr (Some p, t) \<and> state (pc t p) = RUNNING"
proof -
  have "state (pc one_ready 0) = RUNNABLE" "(0::nat) < NPROC"
    by (simp_all add: one_ready_facts ready_proc_def NPROC_def)
  with fcfs_earliest[OF loadable_one_ready one_ready_facts(5)] show ?thesis
    by (auto split: option.splits)
qed



text \<open>
  Under DEFAULT the loop, standing at slot \<open>i\<close>, dispatches the first runnable process at or
  behind \<open>i\<close>: no runnable slot is passed over.
\<close>

lemma default_round_robin:
  assumes "i \<le> p" "p < NPROC" "length (procs s) = NPROC" "state (pc s p) = RUNNABLE"
    and "\<forall>r < NPROC. state (pc s r) = RUNNABLE \<longrightarrow> loadable (pc s r)"
  shows "\<exists>r t. sched_default i s = Inr (Some r, t) \<and> i \<le> r \<and> r \<le> p \<and> state (pc s r) = RUNNABLE \<and>
    state (pc t r) = RUNNING \<and> cproc t = Some r \<and> (\<forall>x. x \<noteq> r \<longrightarrow> pc t x = pc s x)"
proof (cases "find_from runnable i (procs s)")
  case None
  with assms(1-4) show ?thesis by (auto simp: find_from_None runnable_def pc_def)
next
  case (Some r)
  then have r: "i \<le> r" "r < NPROC" "state (pc s r) = RUNNABLE" "r \<le> p"
    using assms(1-4) by (auto simp: find_from_Some runnable_def pc_def not_less[symmetric])
  with assms have "sched_default i s = Inr (Some r, upd_proc r (\<lambda>x. x\<lparr>state := RUNNING\<rparr>) (s\<lparr>cproc := Some r\<rparr>))"
    using Some by (simp add: sched_default_def dispatch_def switchuvm_def loadable_def)
  with r assms(3) show ?thesis by auto
qed

text \<open>
  C14: the rings are first-in first-out: a process pushed behind others comes out after exactly
  those that were queued before it.
\<close>

theorem ring_fifo_order:
  assumes "q_ok q" "ring_inv (nat q) s" "p < length (procs s)" "\<not> same_pid_queued (nat q) p s"
  shows "\<exists>t u. pushBack q (Some p) s = Inr t \<and>
    drain (popFront q) (Suc (length (qprocs (nat q) s))) t = Inr (map Some (qprocs (nat q) s) @ [Some p], u) \<and>
    qprocs (nat q) u = []"
proof -
  have "p \<notin> set (qprocs (nat q) s)" using assms(4) by (auto simp: same_pid_queued_def)
  with assms ring.push_then_drain[of q s "Some p"] show ?thesis by (auto simp: ring_fresh_def)
qed

theorem ring_fifo_order_witness:
  "\<exists>t u. pushBack 0 (Some 0) one_ready = Inr t \<and> drain (popFront 0) 1 t = Inr ([Some 0], u)"
  using ring_fifo_order[of 0 one_ready 0] sched_invD(4)[OF one_ready_facts(1), of 0] one_ready_facts(2,5)
  by (auto simp: q_ok_def PQ_COUNT_def NPROC_def same_pid_queued_def)

end
