(* ===== verification/Strings.thy ===== *)
theory Strings
  imports Prelude
begin

text \<open>
  Byte-addressed memory and the C string library of the kernel (\<open>string.c\<close>) and of the user programs
  (\<open>ulib.c\<close>). An address is a 32-bit word and pointer arithmetic wraps; the theorems assume that the
  objects do not run over the end of the address space, as C does. A loop that stops at a NUL byte is
  a \<open>partial_function\<close>: without a NUL in memory it never returns.
\<close>

type_synonym mem = "u32 \<Rightarrow> u8"

unbundle bit_operations_syntax

section \<open>Words in memory\<close>

text \<open>Little-endian 32-bit access.\<close>

definition get32 :: "mem \<Rightarrow> u32 \<Rightarrow> u32" where
  "get32 m a = ucast (m a) OR push_bit 8 (ucast (m (a + 1))) OR push_bit 16 (ucast (m (a + 2))) OR
     push_bit 24 (ucast (m (a + 3)))"

definition put32 :: "mem \<Rightarrow> u32 \<Rightarrow> u32 \<Rightarrow> mem" where
  "put32 m a v = m(a := ucast v, a + 1 := ucast (drop_bit 8 v), a + 2 := ucast (drop_bit 16 v),
     a + 3 := ucast (drop_bit 24 v))"

lemma get_put32 [simp]: "get32 (put32 m a v) a = v"
proof -
  have "get32 (put32 m a v) a = ucast (ucast v :: u8) OR push_bit 8 (ucast (ucast (drop_bit 8 v) :: u8)) OR
      push_bit 16 (ucast (ucast (drop_bit 16 v) :: u8)) OR push_bit 24 (ucast (ucast (drop_bit 24 v) :: u8))"
    by (simp add: get32_def put32_def)
  also have "\<dots> = v"
  proof (rule bit_word_eqI)
    fix n assume "n < LENGTH(32)"
    then show "bit (ucast (ucast v :: u8) OR push_bit 8 (ucast (ucast (drop_bit 8 v) :: u8)) OR
      push_bit 16 (ucast (ucast (drop_bit 16 v) :: u8)) OR push_bit 24 (ucast (ucast (drop_bit 24 v) :: u8)) :: u32) n = bit v n"
      by (cases "24 \<le> n"; cases "16 \<le> n") (auto simp: bit_simps not_less)
  qed
  finally show ?thesis .
qed

section \<open>Blocks of memory\<close>

definition bytes :: "mem \<Rightarrow> u32 \<Rightarrow> nat \<Rightarrow> u8 list" where
  "bytes m a n = map (\<lambda>i. m (a + of_nat i)) [0..<n]"

fun wr :: "mem \<Rightarrow> u32 \<Rightarrow> u8 list \<Rightarrow> mem" where
  "wr m a [] = m"
| "wr m a (x # xs) = wr (m(a := x)) (a + 1) xs"

text \<open>The block of \<open>n\<close> bytes at \<open>a\<close> fits below the end of the address space.\<close>

definition fits :: "u32 \<Rightarrow> nat \<Rightarrow> bool" where
  "fits a n \<longleftrightarrow> unat a + n \<le> 2 ^ 32"

definition inside :: "u32 \<Rightarrow> nat \<Rightarrow> u32 \<Rightarrow> bool" where
  "inside a n b \<longleftrightarrow> unat a \<le> unat b \<and> unat b < unat a + n"

lemma length_bytes [simp]: "length (bytes m a n) = n"
  by (simp add: bytes_def)

lemma nth_bytes [simp]: "i < n \<Longrightarrow> bytes m a n ! i = m (a + of_nat i)"
  by (simp add: bytes_def)

lemma bytes_Suc: "bytes m a (Suc n) = m a # bytes m (a + 1) n"
  by (simp add: bytes_def upt_conv_Cons map_Suc_upt[symmetric] ac_simps del: upt_Suc map_Suc_upt)

lemma bytes_snoc: "bytes m a (Suc n) = bytes m a n @ [m (a + of_nat n)]"
  by (simp add: bytes_def)

lemma bytes_0 [simp]: "bytes m a 0 = []"
  by (simp add: bytes_def)

lemma fits_Suc: "fits a (Suc n) \<Longrightarrow> n \<noteq> 0 \<Longrightarrow> fits (a + 1) n"
  by (simp add: fits_def unat_word_ariths)

lemma fits_le: "fits a n \<Longrightarrow> k \<le> n \<Longrightarrow> fits a k"
  by (simp add: fits_def)

lemma unat_off: "fits a n \<Longrightarrow> i < n \<Longrightarrow> unat (a + of_nat i) = unat a + i"
  by (simp add: fits_def unat_word_ariths unat_of_nat)

lemma inside_off: "fits a n \<Longrightarrow> inside a n b \<longleftrightarrow> (\<exists>i < n. b = a + of_nat i)"
proof
  assume f: "fits a n" and "inside a n b"
  then have i: "unat b - unat a < n" "unat b = unat a + (unat b - unat a)" by (auto simp: inside_def)
  then have "b = a + of_nat (unat b - unat a)" using unat_off[OF f i(1)] by (simp add: word_unat_eq_iff)
  with i(1) show "\<exists>i < n. b = a + of_nat i" by blast
next
  assume f: "fits a n" and "\<exists>i < n. b = a + of_nat i"
  then obtain i where i: "i < n" "b = a + of_nat i" by blast
  then show "inside a n b" using unat_off[OF f i(1)] by (simp add: inside_def)
qed

lemma off_inj:
  assumes "fits a n" "i < n" "j < n" "a + of_nat i = a + of_nat j"
  shows "i = j"
proof -
  have "unat a + i = unat a + j"
    unfolding unat_off[OF assms(1,2), symmetric] unat_off[OF assms(1,3), symmetric] assms(4) ..
  then show ?thesis by simp
qed

lemma bytes_eqI: "(\<And>i. i < n \<Longrightarrow> m (a + of_nat i) = m' (b + of_nat i)) \<Longrightarrow> bytes m a n = bytes m' b n"
  by (simp add: bytes_def)

lemma bytes_upd_outside: "\<not> inside a n b \<Longrightarrow> fits a n \<Longrightarrow> bytes (m(b := x)) a n = bytes m a n"
  by (auto intro!: bytes_eqI simp: inside_off)

lemma wr_append: "wr m a (xs @ ys) = wr (wr m a xs) (a + of_nat (length xs)) ys"
  by (induction xs arbitrary: m a) (simp_all add: ac_simps)

lemma wr_snoc: "wr m a (xs @ [x]) = (wr m a xs)(a + of_nat (length xs) := x)"
  by (simp add: wr_append)

text \<open>A written block reads back, and the rest of memory is as before.\<close>

lemma wr_apply:
  assumes "fits a (length xs)"
  shows "i < length xs \<Longrightarrow> wr m a xs (a + of_nat i) = xs ! i" "\<not> inside a (length xs) b \<Longrightarrow> wr m a xs b = m b"
  using assms
proof (induction xs rule: rev_induct)
  case (snoc x xs)
  { case 1
    show ?case
    proof (cases "i = length xs")
      case False
      with 1 have i: "i < length xs" by simp
      then have "a + of_nat i \<noteq> a + of_nat (length xs)" using off_inj[OF 1(2), of i "length xs"] by auto
      with snoc(1)[OF i fits_le[OF 1(2)]] i show ?thesis by (simp add: wr_snoc nth_append)
    qed (simp add: wr_snoc) }
  { case 2
    then have "b \<noteq> a + of_nat (length xs)" by (auto simp: inside_off)
    moreover have "\<not> inside a (length xs) b" using 2(1) by (auto simp: inside_def)
    ultimately show ?case using snoc(2)[OF _ fits_le[OF 2(2)]] by (simp add: wr_snoc) }
qed simp_all

lemma wr_upd_other:
  assumes "fits a (length xs)" "\<not> inside a (length xs) b"
  shows "wr (m(b := x)) a xs = (wr m a xs)(b := x)"
proof
  fix c
  show "wr (m(b := x)) a xs c = ((wr m a xs)(b := x)) c"
  proof (cases "inside a (length xs) c")
    case True
    with assms obtain i where "i < length xs" "c = a + of_nat i" "c \<noteq> b" by (auto simp: inside_off)
    then show ?thesis by (simp add: wr_apply(1)[OF assms(1)])
  next
    case False
    then show ?thesis using assms(2) by (simp add: wr_apply(2)[OF assms(1)])
  qed
qed

lemma bytes_wr: "fits a (length xs) \<Longrightarrow> bytes (wr m a xs) a (length xs) = xs"
  by (rule nth_equalityI) (simp_all add: wr_apply(1))

section \<open>string.c\<close>

text \<open>The string instructions \<open>rep stosb\<close> and \<open>rep stosl\<close> of \<open>x86.h\<close>.\<close>

fun stosb :: "mem \<Rightarrow> u32 \<Rightarrow> u8 \<Rightarrow> nat \<Rightarrow> mem" where
  "stosb m a c 0 = m"
| "stosb m a c (Suc n) = stosb (m(a := c)) (a + 1) c n"

fun stosl :: "mem \<Rightarrow> u32 \<Rightarrow> u32 \<Rightarrow> nat \<Rightarrow> mem" where
  "stosl m a v 0 = m"
| "stosl m a v (Suc n) = stosl (put32 m a v) (a + 4) v n"

definition memset :: "mem \<Rightarrow> u32 \<Rightarrow> u32 \<Rightarrow> u32 \<Rightarrow> mem" where
  "memset m dst c n =
    (if sint dst mod 4 = 0 \<and> n mod 4 = 0 then
       let c = c AND 0xFF in
       stosl m dst (push_bit 24 c OR push_bit 16 c OR push_bit 8 c OR c) (unat (n div 4))
     else stosb m dst (ucast c) (unat n))"

fun memcmp_loop :: "mem \<Rightarrow> u32 \<Rightarrow> u32 \<Rightarrow> nat \<Rightarrow> int" where
  "memcmp_loop m s1 s2 0 = 0"
| "memcmp_loop m s1 s2 (Suc n) =
     (if m s1 \<noteq> m s2 then uint (m s1) - uint (m s2) else memcmp_loop m (s1 + 1) (s2 + 1) n)"

definition memcmp :: "mem \<Rightarrow> u32 \<Rightarrow> u32 \<Rightarrow> u32 \<Rightarrow> int" where
  "memcmp m v1 v2 n = memcmp_loop m v1 v2 (unat n)"

fun copy_up :: "mem \<Rightarrow> u32 \<Rightarrow> u32 \<Rightarrow> nat \<Rightarrow> mem" where
  "copy_up m d s 0 = m"
| "copy_up m d s (Suc n) = copy_up (m(d := m s)) (d + 1) (s + 1) n"

text \<open>\<open>d\<close> and \<open>s\<close> point behind the bytes still to be copied.\<close>

fun copy_down :: "mem \<Rightarrow> u32 \<Rightarrow> u32 \<Rightarrow> nat \<Rightarrow> mem" where
  "copy_down m d s 0 = m"
| "copy_down m d s (Suc n) = copy_down (m(d - 1 := m (s - 1))) (d - 1) (s - 1) n"

definition memmove :: "mem \<Rightarrow> u32 \<Rightarrow> u32 \<Rightarrow> u32 \<Rightarrow> mem" where
  "memmove m dst src n =
    (if src < dst \<and> src + n > dst then copy_down m (dst + n) (src + n) (unat n)
     else copy_up m dst src (unat n))"

fun strncmp_loop :: "mem \<Rightarrow> u32 \<Rightarrow> u32 \<Rightarrow> nat \<Rightarrow> int" where
  "strncmp_loop m p q 0 = 0"
| "strncmp_loop m p q (Suc n) =
     (if m p \<noteq> 0 \<and> m p = m q then strncmp_loop m (p + 1) (q + 1) n else uint (m p) - uint (m q))"

definition strncmp :: "mem \<Rightarrow> u32 \<Rightarrow> u32 \<Rightarrow> u32 \<Rightarrow> int" where
  "strncmp m p q n = strncmp_loop m p q (unat n)"

text \<open>
  The first loop of \<open>strncpy\<close>: copy until a NUL has been copied or the count is used up; the results are
  the memory, the next destination and the count left.
\<close>

fun copy_str :: "mem \<Rightarrow> u32 \<Rightarrow> u32 \<Rightarrow> nat \<Rightarrow> mem \<times> u32 \<times> nat" where
  "copy_str m s t 0 = (m, s, 0)"
| "copy_str m s t (Suc n) =
     (if m t \<noteq> 0 then copy_str (m(s := m t)) (s + 1) (t + 1) n else (m(s := m t), s + 1, n))"

definition strncpy :: "mem \<Rightarrow> u32 \<Rightarrow> u32 \<Rightarrow> int \<Rightarrow> mem" where
  "strncpy m s t n = (let (m1, s1, k) = copy_str m s t (nat n) in stosb m1 s1 0 k)"

definition safestrcpy :: "mem \<Rightarrow> u32 \<Rightarrow> u32 \<Rightarrow> int \<Rightarrow> mem" where
  "safestrcpy m s t n =
    (if n \<le> 0 then m else let (m1, s1, _) = copy_str m s t (nat n - 1) in m1(s1 := 0))"

partial_function (option) strlen_from :: "mem \<Rightarrow> u32 \<Rightarrow> u32 \<Rightarrow> u32 option" where
  "strlen_from m s n = (if m (s + n) = 0 then Some n else strlen_from m s (n + 1))"

definition strlen :: "mem \<Rightarrow> u32 \<Rightarrow> u32 option" where
  "strlen m s = strlen_from m s 0"

section \<open>ulib.c\<close>

partial_function (option) strcpy_from :: "mem \<Rightarrow> u32 \<Rightarrow> u32 \<Rightarrow> mem option" where
  "strcpy_from m s t = (if m t = 0 then Some (m(s := 0)) else strcpy_from (m(s := m t)) (s + 1) (t + 1))"

partial_function (option) strcmp :: "mem \<Rightarrow> u32 \<Rightarrow> u32 \<Rightarrow> int option" where
  "strcmp m p q = (if m p \<noteq> 0 \<and> m p = m q then strcmp m (p + 1) (q + 1) else Some (uint (m p) - uint (m q)))"

partial_function (option) strchr :: "mem \<Rightarrow> u32 \<Rightarrow> u8 \<Rightarrow> u32 option" where
  "strchr m s c = (if m s = 0 then Some 0 else if m s = c then Some s else strchr m (s + 1) c)"

text \<open>\<open>atoi\<close> computes in \<open>int\<close>; the accumulator wraps at 32 bits.\<close>

partial_function (option) atoi_from :: "mem \<Rightarrow> u32 \<Rightarrow> u32 \<Rightarrow> u32 option" where
  "atoi_from m s n = (if 48 \<le> m s \<and> m s \<le> 57 then atoi_from m (s + 1) (n * 10 + ucast (m s) - 48) else Some n)"

definition atoi :: "mem \<Rightarrow> u32 \<Rightarrow> int option" where
  "atoi m s = map_option sint (atoi_from m s 0)"

definition umemset :: "mem \<Rightarrow> u32 \<Rightarrow> u32 \<Rightarrow> u32 \<Rightarrow> mem" where
  "umemset m dst c n = stosb m dst (ucast c) (unat n)"

definition umemmove :: "mem \<Rightarrow> u32 \<Rightarrow> u32 \<Rightarrow> int \<Rightarrow> mem" where
  "umemmove m dst src n = copy_up m dst src (nat n)"

section \<open>Filling and copying\<close>

lemma stosb_wr: "stosb m a c n = wr m a (replicate n c)"
  by (induction n arbitrary: m a) simp_all

lemma put32_wr: "put32 m a v = wr m a [ucast v, ucast (drop_bit 8 v), ucast (drop_bit 16 v), ucast (drop_bit 24 v)]"
  by (simp add: put32_def add.commute)

text \<open>The word with the byte \<open>d\<close> in every position.\<close>

definition splat :: "u32 \<Rightarrow> u32" where
  "splat d = push_bit 24 d OR push_bit 16 d OR push_bit 8 d OR d"

lemma splat_bytes:
  fixes c d :: u32
  assumes "d = take_bit 8 c"
  shows "ucast (splat d) = (ucast c :: u8)" "ucast (drop_bit 8 (splat d)) = (ucast c :: u8)"
    "ucast (drop_bit 16 (splat d)) = (ucast c :: u8)" "ucast (drop_bit 24 (splat d)) = (ucast c :: u8)"
proof -
  have b: "bit d i \<longleftrightarrow> bit c i \<and> i < 8" for i using assms by (auto simp: bit_take_bit_iff)
  show "ucast (splat d) = (ucast c :: u8)" "ucast (drop_bit 8 (splat d)) = (ucast c :: u8)"
    "ucast (drop_bit 16 (splat d)) = (ucast c :: u8)" "ucast (drop_bit 24 (splat d)) = (ucast c :: u8)"
    unfolding splat_def
    by (auto intro!: bit_word_eqI simp: bit_ucast_iff bit_or_iff bit_push_bit_iff bit_drop_bit_eq b)
qed

lemma stosl_wr: "stosl m a (splat (take_bit 8 c)) n = wr m a (replicate (4 * n) (ucast c))"
proof (induction n arbitrary: m a)
  case (Suc n)
  have four: "put32 m a (splat (take_bit 8 c)) = wr m a (replicate 4 (ucast c))"
    unfolding put32_wr splat_bytes[OF refl] by (simp add: eval_nat_numeral)
  have "stosl m a (splat (take_bit 8 c)) (Suc n) = wr (wr m a (replicate 4 (ucast c))) (a + 4) (replicate (4 * n) (ucast c))"
    by (simp only: stosl.simps Suc four)
  also have "\<dots> = wr m a (replicate 4 (ucast c) @ replicate (4 * n) (ucast c))"
    unfolding wr_append by simp
  finally show ?case by (simp add: replicate_add[symmetric])
qed simp

lemma memset_wr: "memset m dst c n = wr m dst (replicate (unat n) (ucast c))"
proof (cases "sint dst mod 4 = 0 \<and> n mod 4 = 0")
  case True
  then have "unat n mod 4 = 0" using unat_mod[of n 4] by simp
  then have n: "4 * unat (n div 4) = unat n" using mult_div_mod_eq[of 4 "unat n"] by (simp add: unat_div)
  have "c AND 0xFF = take_bit 8 c" by (simp add: take_bit_eq_mask mask_eq_exp_minus_1)
  with True show ?thesis
    unfolding memset_def Let_def splat_def[symmetric] by (simp only: stosl_wr n if_True simp_thms)
qed (auto simp: memset_def stosb_wr)

lemma copy_up_wr:
  assumes "fits s n" "fits d n" "\<not> (unat s < unat d \<and> unat d < unat s + n)"
  shows "copy_up m d s n = wr m d (bytes m s n)"
  using assms
proof (induction n arbitrary: m d s)
  case (Suc n)
  show ?case
  proof (cases n)
    case 0
    then show ?thesis by (simp add: bytes_Suc)
  next
    case (Suc k)
    then have n0: "n \<noteq> 0" by simp
    note f = fits_Suc[OF Suc.prems(1) n0] fits_Suc[OF Suc.prems(2) n0]
    have u: "unat (s + 1) = unat s + 1" "unat (d + 1) = unat d + 1"
      using unat_off[OF Suc.prems(1), of 1] unat_off[OF Suc.prems(2), of 1] n0 by simp_all
    have "\<not> inside (s + 1) n d" using Suc.prems(3) by (auto simp: inside_def u)
    then have same: "bytes (m(d := m s)) (s + 1) n = bytes m (s + 1) n" by (rule bytes_upd_outside) (rule f(1))
    have "copy_up (m(d := m s)) (d + 1) (s + 1) n = wr (m(d := m s)) (d + 1) (bytes (m(d := m s)) (s + 1) n)"
      using Suc.prems(3) by (intro Suc.IH f) (auto simp: u)
    then show ?thesis by (simp add: bytes_Suc same)
  qed
qed simp

lemma copy_down_wr:
  assumes "fits s n" "fits d n" "unat s \<le> unat d"
  shows "copy_down m (d + of_nat n) (s + of_nat n) n = wr m d (bytes m s n)"
  using assms
proof (induction n arbitrary: m)
  case (Suc n)
  have "\<not> inside s n (d + of_nat n)" using unat_off[OF Suc.prems(2), of n] Suc.prems(3) by (auto simp: inside_def)
  then have same: "bytes (m(d + of_nat n := m (s + of_nat n))) s n = bytes m s n"
    by (rule bytes_upd_outside) (rule fits_le[OF Suc.prems(1)], simp)
  have "copy_down m (d + of_nat (Suc n)) (s + of_nat (Suc n)) (Suc n)
      = wr (m(d + of_nat n := m (s + of_nat n))) d (bytes (m(d + of_nat n := m (s + of_nat n))) s n)"
    using Suc.IH[OF fits_le[OF Suc.prems(1)] fits_le[OF Suc.prems(2)] Suc.prems(3)] by (simp add: ac_simps)
  also have "\<dots> = (wr m d (bytes m s n))(d + of_nat n := m (s + of_nat n))"
    unfolding same using unat_off[OF Suc.prems(2), of n]
    by (intro wr_upd_other) (simp_all add: inside_def fits_le[OF Suc.prems(2)])
  finally show ?case by (simp add: bytes_snoc wr_snoc)
qed simp

lemma unat_plus1: "fits a (Suc n) \<Longrightarrow> n \<noteq> 0 \<Longrightarrow> unat (a + 1) = unat a + 1"
  using unat_off[of a "Suc n" 1] by simp

section \<open>NUL-terminated strings\<close>

definition cstr :: "mem \<Rightarrow> u32 \<Rightarrow> u8 list \<Rightarrow> bool" where
  "cstr m a xs \<longleftrightarrow> bytes m a (Suc (length xs)) = xs @ [0] \<and> 0 \<notin> set xs"

lemma cstr_Nil [simp]: "cstr m a [] \<longleftrightarrow> m a = 0"
  by (simp add: cstr_def bytes_Suc)

lemma cstr_Cons [simp]: "cstr m a (x # xs) \<longleftrightarrow> m a = x \<and> x \<noteq> 0 \<and> cstr m (a + 1) xs"
  by (auto simp: cstr_def bytes_Suc)

lemma cstr_upd: "fits a (Suc (length xs)) \<Longrightarrow> \<not> inside a (Suc (length xs)) b \<Longrightarrow> cstr (m(b := x)) a xs = cstr m a xs"
  by (simp add: cstr_def bytes_upd_outside)

definition apart :: "u32 \<Rightarrow> nat \<Rightarrow> u32 \<Rightarrow> nat \<Rightarrow> bool" where
  "apart a n b k \<longleftrightarrow> unat a + n \<le> unat b \<or> unat b + k \<le> unat a"

lemma copy_str_spec:
  assumes "cstr m t xs" "fits t (Suc (length xs))" "fits s n" "apart s n t (Suc (length xs))"
  shows "copy_str m s t n =
    (wr m s (take n (xs @ [0])), s + of_nat (length (take n (xs @ [0]))), n - Suc (length xs))"
  using assms
proof (induction n arbitrary: m s t xs)
  case (Suc n)
  show ?case
  proof (cases xs)
    case Nil
    with Suc.prems(1) show ?thesis by (simp add: fun_upd_def)
  next
    case (Cons x ys)
    with Suc.prems have x: "m t = x" "x \<noteq> 0" "cstr m (t + 1) ys" "fits t (Suc (Suc (length ys)))" by simp_all
    note ft = fits_Suc[OF x(4)]
    show ?thesis
    proof (cases "n = 0")
      case True
      with x Cons show ?thesis by (simp add: fun_upd_def)
    next
      case False
      note u = unat_plus1[OF x(4)] unat_plus1[OF Suc.prems(3) False]
      have "\<not> inside (t + 1) (Suc (length ys)) s"
        using Suc.prems(4) Cons u(1) by (auto simp: inside_def apart_def)
      then have "cstr (m(s := x)) (t + 1) ys" using x(3) ft by (simp add: cstr_upd)
      moreover have "apart (s + 1) n (t + 1) (Suc (length ys))"
        using Suc.prems(4) u Cons by (auto simp: apart_def)
      ultimately have "copy_str (m(s := x)) (s + 1) (t + 1) n =
          (wr (m(s := x)) (s + 1) (take n (ys @ [0])), s + 1 + of_nat (length (take n (ys @ [0]))), n - Suc (length ys))"
        using ft fits_Suc[OF Suc.prems(3) False] by (intro Suc.IH) (simp_all add: fun_upd_def)
      with x Cons show ?thesis by (simp add: ac_simps)
    qed
  qed
qed simp

lemma strncpy_wr:
  assumes "cstr m t xs" "fits t (Suc (length xs))" "fits s (nat n)" "apart s (nat n) t (Suc (length xs))"
  shows "strncpy m s t n = wr m s (take (nat n) xs @ replicate (nat n - length xs) 0)"
proof -
  let ?k = "nat n"
  have "strncpy m s t n = wr m s (take ?k (xs @ [0]) @ replicate (?k - Suc (length xs)) 0)"
    unfolding strncpy_def copy_str_spec[OF assms] prod.case Let_def stosb_wr wr_append[symmetric] ..
  also have "take ?k (xs @ [0]) @ replicate (?k - Suc (length xs)) 0 = take ?k xs @ replicate (?k - length xs) 0"
  proof (cases "?k \<le> length xs")
    case False
    then have "?k - length xs = Suc (?k - Suc (length xs))" by simp
    with False show ?thesis by simp
  qed simp
  finally show ?thesis .
qed

lemma safestrcpy_wr:
  assumes "cstr m t xs" "fits t (Suc (length xs))" "fits s (nat n)" "apart s (nat n) t (Suc (length xs))" "0 < n"
  shows "\<exists>k. safestrcpy m s t n = wr m s (take (nat n - 1) xs @ replicate k 0) \<and> 0 < k \<and> min (nat n - 1) (length xs) + k \<le> nat n"
proof -
  let ?k = "nat n - 1"
  have "apart s ?k t (Suc (length xs))" using assms(4) by (auto simp: apart_def)
  note c = copy_str_spec[OF assms(1,2) fits_le[OF assms(3), of ?k] this]
  have "safestrcpy m s t n = wr m s (take ?k (xs @ [0]) @ [0])"
    unfolding wr_snoc using assms(5) by (simp only: safestrcpy_def c prod.case Let_def not_le[symmetric] if_False)
  moreover have "take ?k (xs @ [0]) = take ?k xs @ replicate (if ?k \<le> length xs then 0 else 1) 0" by simp
  ultimately have "safestrcpy m s t n = wr m s (take ?k xs @ replicate (if ?k \<le> length xs then 1 else 2) 0)"
    by (simp add: numeral_2_eq_2)
  then show ?thesis using assms(5) by (intro exI[of _ "if ?k \<le> length xs then 1 else 2"]) auto
qed

lemma strlen_from_spec:
  assumes "cstr m (s + n) xs"
  shows "strlen_from m s n = Some (n + of_nat (length xs))"
  using assms
proof (induction xs arbitrary: n)
  case Nil
  then show ?case by (simp add: strlen_from.simps)
next
  case (Cons x xs)
  then have "strlen_from m s (n + 1) = Some (n + 1 + of_nat (length xs))" by (intro Cons.IH) (simp add: ac_simps)
  with Cons.prems show ?case by (simp add: strlen_from.simps[of m s n] ac_simps)
qed

lemma strncmp_eq_0:
  assumes "cstr m p xs" "cstr m q ys"
  shows "strncmp_loop m p q n = 0 \<longleftrightarrow> take n xs = take n ys"
  using assms
proof (induction n arbitrary: p q xs ys)
  case (Suc n)
  show ?case
  proof (cases "xs = [] \<or> ys = []")
    case True
    then show ?thesis using Suc.prems by (cases xs; cases ys) (auto simp: word_uint_eq_iff)
  next
    case False
    then obtain x xs' y ys' where e: "xs = x # xs'" "ys = y # ys'" by (meson neq_Nil_conv)
    show ?thesis
      using Suc.IH[of "p + 1" xs' "q + 1" ys'] Suc.prems unfolding e by (auto simp: word_uint_eq_iff)
  qed
qed simp

lemma strcmp_eq:
  assumes "cstr m p xs" "cstr m q ys"
  shows "\<exists>r. strcmp m p q = Some r \<and> (r = 0 \<longleftrightarrow> xs = ys)"
  using assms
proof (induction xs arbitrary: p q ys)
  case Nil
  then show ?case by (cases ys) (auto simp: strcmp.simps[of m p q] word_uint_eq_iff)
next
  case (Cons x xs)
  show ?case
  proof (cases ys)
    case Nil
    with Cons.prems show ?thesis by (auto simp: strcmp.simps[of m p q] word_uint_eq_iff)
  next
    case (Cons y zs)
    with Cons.prems Cons.IH[of "p + 1" "q + 1" zs] show ?thesis
      by (auto simp: strcmp.simps[of m p q] word_uint_eq_iff)
  qed
qed

lemma take_Suc_pad: "0 < k \<Longrightarrow> take (Suc (length p)) (p @ replicate k x) = p @ [x]"
  by (cases k) simp_all

section \<open>Properties of the string library\<close>

text \<open>
  \<open>memmove\<close> copies correctly whether or not the two blocks overlap: the destination holds what the
  source held before the call, and no byte outside the destination changes.
\<close>

lemma memmove_copies:
  assumes "fits dst (unat n)" "fits src (unat n)"
  shows "bytes (memmove m dst src n) dst (unat n) = bytes m src (unat n) \<and>
    (\<forall>b. \<not> inside dst (unat n) b \<longrightarrow> memmove m dst src n b = m b)"
proof -
  have "memmove m dst src n = wr m dst (bytes m src (unat n))"
  proof (cases "src < dst \<and> src + n > dst")
    case True
    then have "unat src \<le> unat dst" by (simp add: word_less_nat_alt)
    with True copy_down_wr[OF assms(2,1)] show ?thesis by (simp add: memmove_def)
  next
    case False
    have "\<not> (unat src < unat dst \<and> unat dst < unat src + unat n)"
    proof
      assume a: "unat src < unat dst \<and> unat dst < unat src + unat n"
      have "unat (src + n) = unat src + unat n \<or> unat src + unat n = 2 ^ 32"
        using assms(2) by (auto simp: fits_def unat_word_ariths)
      then show False
      proof
        assume "unat (src + n) = unat src + unat n"
        with a False show False by (simp add: word_less_nat_alt)
      next
        assume e: "unat src + unat n = 2 ^ 32"
        with assms(1) a show False by (simp add: fits_def)
      qed
    qed
    with False copy_up_wr[OF assms(2,1)] show ?thesis by (auto simp: memmove_def)
  qed
  moreover have l: "fits dst (length (bytes m src (unat n)))" using assms(1) by simp
  ultimately show ?thesis
    using bytes_wr[OF l, of m] wr_apply(2)[OF l] by simp
qed

lemma memmove_copies_witness:
  "bytes (memmove (\<lambda>a. ucast a) 12 10 5) 12 5 = [10, 11, 12, 13, 14]"
proof -
  have "fits 12 (unat (5 :: u32))" "fits 10 (unat (5 :: u32))" by (simp_all add: fits_def)
  from memmove_copies[OF this, of "\<lambda>a. ucast a"] show ?thesis by (simp add: bytes_def upt_rec)
qed

text \<open>\<open>memset\<close> fills exactly the given block with the low byte of its argument, also on the path that stores whole words.\<close>

lemma memset_fills:
  assumes "fits dst (unat n)"
  shows "bytes (memset m dst c n) dst (unat n) = replicate (unat n) (ucast c) \<and>
    (\<forall>b. \<not> inside dst (unat n) b \<longrightarrow> memset m dst c n b = m b)"
proof -
  have l: "fits dst (length (replicate (unat n) (ucast c :: u8)))" using assms by simp
  from bytes_wr[OF l, of m] wr_apply(2)[OF l] show ?thesis by (simp add: memset_wr)
qed

text \<open>
  \<open>safestrcpy\<close> leaves a NUL-terminated string in the destination, the longest prefix of the
  source that fits with its NUL into \<open>n\<close> bytes, and writes nothing outside those \<open>n\<close> bytes.
\<close>

lemma safestrcpy_terminates_string:
  assumes "cstr m t xs" "fits t (Suc (length xs))" "fits s (nat n)" "apart s (nat n) t (Suc (length xs))" "0 < n"
  shows "cstr (safestrcpy m s t n) s (take (nat n - 1) xs) \<and>
    (\<forall>b. \<not> inside s (nat n) b \<longrightarrow> safestrcpy m s t n b = m b)"
proof -
  obtain k where k: "safestrcpy m s t n = wr m s (take (nat n - 1) xs @ replicate k 0)" "0 < k"
    "min (nat n - 1) (length xs) + k \<le> nat n" using safestrcpy_wr[OF assms] by blast
  let ?w = "take (nat n - 1) xs @ replicate k 0 :: u8 list"
  have l: "fits s (length ?w)" using fits_le[OF assms(3)] k(3) by (simp add: min.commute)
  let ?p = "take (nat n - 1) xs"
  have w: "take (Suc (length ?p)) ?w = ?p @ [0]" by (rule take_Suc_pad[OF k(2)])
  have "bytes (wr m s ?w) s (Suc (length ?p)) = take (Suc (length ?p)) (bytes (wr m s ?w) s (length ?w))"
    using k(2) by (simp add: bytes_def take_map)
  then have "bytes (wr m s ?w) s (Suc (length ?p)) = ?p @ [0]" by (simp only: bytes_wr[OF l] w)
  moreover have "0 \<notin> set ?p" using assms(1) by (auto simp: cstr_def dest: in_set_takeD)
  moreover have "wr m s ?w b = m b" if "\<not> inside s (nat n) b" for b
    using that k(3) by (intro wr_apply(2)[OF l]) (auto simp: inside_def)
  ultimately show ?thesis unfolding cstr_def k(1) by blast
qed

end
