(* ===== verification/Printf.thy ===== *)
theory Printf
  imports Strings "HOL-Library.Monad_Syntax"
begin

text \<open>
  Formatted output of the user programs (\<open>printf.c\<close>). \<open>putc\<close> writes one byte to the descriptor, so the
  model returns the bytes written. \<open>printint\<close> collects digits in a buffer of 16 bytes; a write behind
  the buffer is a \<open>Fault\<close>, and the theorems show that it cannot happen. The variable arguments are read
  from the stack behind \<open>fmt\<close>.
\<close>

definition digits :: "u8 list" where
  "digits = [48, 49, 50, 51, 52, 53, 54, 55, 56, 57, 65, 66, 67, 68, 69, 70]"

text \<open>The digit loop, with the number of free bytes of \<open>buf\<close>.\<close>

fun put_digits :: "nat \<Rightarrow> u32 \<Rightarrow> u32 \<Rightarrow> u8 list \<Rightarrow> u8 list result" where
  "put_digits 0 x base buf = Inl (Fault ''buf'')"
| "put_digits (Suc n) x base buf =
    (let buf = buf @ [digits ! unat (x mod base)]; x = x div base in
     if x \<noteq> 0 then put_digits n x base buf else Inr buf)"

definition printint :: "u32 \<Rightarrow> u32 \<Rightarrow> bool \<Rightarrow> u8 list result" where
  "printint xx base sg =
    (let neg = sg \<and> sint xx < 0; x = (if neg then - xx else xx) in
     bind_r (put_digits 16 x base []) (\<lambda>buf.
       bind_r (if neg then if length buf < 16 then Inr (buf @ [45]) else Inl (Fault ''buf'') else Inr buf)
         (\<lambda>buf. Inr (rev buf))))"

partial_function (option) print_str :: "mem \<Rightarrow> u32 \<Rightarrow> u8 list \<Rightarrow> u8 list option" where
  "print_str m s out = (if m s = 0 then Some out else print_str m (s + 1) (out @ [m s]))"

text \<open>The string \<open>(null)\<close> that stands for a null pointer.\<close>

definition null_str :: "u8 list" where
  "null_str = [40, 110, 117, 108, 108, 41]"

text \<open>
  One step of the loop of \<open>printf\<close>: the character \<open>c\<close>, whether a percent sign came before it, the argument
  pointer and the output so far.
\<close>

definition printf_char :: "mem \<Rightarrow> u8 \<Rightarrow> bool \<Rightarrow> u32 \<Rightarrow> u8 list \<Rightarrow> (bool \<times> u32 \<times> u8 list) result option" where
  "printf_char m c pct ap out =
    (if \<not> pct then Some (Inr (if c = 37 then (True, ap, out) else (False, ap, out @ [c])))
     else if c = 100 then Some (bind_r (printint (get32 m ap) 10 True) (\<lambda>ds. Inr (False, ap + 4, out @ ds)))
     else if c = 120 \<or> c = 112 then Some (bind_r (printint (get32 m ap) 16 False) (\<lambda>ds. Inr (False, ap + 4, out @ ds)))
     else if c = 115 then
       (if get32 m ap = 0 then Some (Inr (False, ap + 4, out @ null_str))
        else print_str m (get32 m ap) out \<bind> (\<lambda>out. Some (Inr (False, ap + 4, out))))
     else if c = 99 then Some (Inr (False, ap + 4, out @ [ucast (get32 m ap)]))
     else if c = 37 then Some (Inr (False, ap, out @ [c]))
     else Some (Inr (False, ap, out @ [37, c])))"

partial_function (option) printf_from :: "mem \<Rightarrow> u32 \<Rightarrow> bool \<Rightarrow> u32 \<Rightarrow> u8 list \<Rightarrow> u8 list result option" where
  "printf_from m f pct ap out =
    (if m f = 0 then Some (Inr out)
     else printf_char m (m f) pct ap out \<bind> (\<lambda>r.
       case r of Inl e \<Rightarrow> Some (Inl e) | Inr (pct, ap, out) \<Rightarrow> printf_from m (f + 1) pct ap out))"

section \<open>Digits\<close>

lemma digits_nth: "d < 10 \<Longrightarrow> digits ! d = 48 + of_nat d"
proof -
  assume "d < 10"
  then have "d \<in> {0, 1, 2, 3, 4, 5, 6, 7, 8, 9}" by auto
  then show ?thesis by (auto simp: digits_def)
qed

text \<open>The value of decimal digits, least significant first.\<close>

fun dval :: "u8 list \<Rightarrow> nat" where
  "dval [] = 0"
| "dval (d # ds) = unat (d - 48) + 10 * dval ds"

definition is_digit :: "u8 \<Rightarrow> bool" where
  "is_digit c \<longleftrightarrow> 48 \<le> c \<and> c \<le> 57"

lemma digit_facts:
  assumes "d < 10"
  shows "is_digit (48 + of_nat d)" "unat (48 + of_nat d - 48 :: u8) = d" "digits ! d = 48 + of_nat d"
proof -
  from assms have "d \<in> {0, 1, 2, 3, 4, 5, 6, 7, 8, 9}" by auto
  then show "is_digit (48 + of_nat d)" "unat (48 + of_nat d - 48 :: u8) = d" by (auto simp: is_digit_def)
qed (rule digits_nth[OF assms])

text \<open>With room for enough digits the loop ends before the buffer does.\<close>

lemma put_digits_fits:
  assumes "1 < unat base" "unat x < unat base ^ n" "0 < n"
  shows "\<exists>ds. put_digits n x base buf = Inr (buf @ ds) \<and> length ds \<le> n"
  using assms(2,3)
proof (induction n arbitrary: x buf)
  case (Suc n)
  show ?case
  proof (cases "x div base = 0")
    case False
    have "unat (x div base) < unat base ^ n"
      using Suc.prems(1) assms(1) by (simp add: unat_div less_mult_imp_div_less mult.commute)
    moreover have "0 < n"
    proof (rule ccontr)
      assume "\<not> 0 < n"
      with calculation False show False by (simp add: unat_eq_zero)
    qed
    ultimately show ?thesis using Suc.IH[of "x div base" "buf @ [digits ! unat (x mod base)]"] False
      by (auto simp: Let_def)
  qed (simp add: Let_def)
qed simp

lemma put_digits_decimal:
  assumes "put_digits n x 10 buf = Inr r"
  shows "\<exists>ds. r = buf @ ds \<and> ds \<noteq> [] \<and> (\<forall>d \<in> set ds. is_digit d) \<and> dval ds = unat x"
  using assms
proof (induction n arbitrary: x buf)
  case (Suc n)
  have d: "unat (x mod 10) < 10" by (simp add: unat_mod)
  note df = digit_facts[OF d]
  have x: "unat x = unat (x mod 10) + 10 * unat (x div 10)" by (simp add: unat_mod unat_div)
  show ?case
  proof (cases "x div 10 = 0")
    case True
    with Suc.prems df x show ?thesis by (intro exI[of _ "[digits ! unat (x mod 10)]"]) (auto simp: Let_def)
  next
    case False
    with Suc.prems have "put_digits n (x div 10) 10 (buf @ [digits ! unat (x mod 10)]) = Inr r" by (simp add: Let_def)
    from Suc.IH[OF this] obtain ds where "r = (buf @ [digits ! unat (x mod 10)]) @ ds" "\<forall>d \<in> set ds. is_digit d"
      "dval ds = unat (x div 10)" by auto
    with df x show ?thesis by (intro exI[of _ "digits ! unat (x mod 10) # ds"]) auto
  qed
qed simp

lemma atoi_from_digits:
  assumes "bytes m s (length ds) = ds" "\<forall>d \<in> set ds. is_digit d" "\<not> is_digit (m (s + of_nat (length ds)))"
  shows "atoi_from m s n = Some (foldl (\<lambda>a d. a * 10 + ucast d - 48) n ds)"
  using assms
proof (induction ds arbitrary: s n)
  case Nil
  then show ?case by (auto simp: atoi_from.simps[of m s] is_digit_def)
next
  case (Cons d ds)
  then have "atoi_from m (s + 1) (n * 10 + ucast d - 48) = Some (foldl (\<lambda>a d. a * 10 + ucast d - 48) (n * 10 + ucast d - 48) ds)"
    by (intro Cons.IH) (simp_all add: bytes_Suc ac_simps)
  with Cons.prems show ?case by (simp add: atoi_from.simps[of m s] is_digit_def bytes_Suc)
qed

lemma digit_ucast: "is_digit d \<Longrightarrow> ucast d - 48 = (of_nat (unat (d - 48)) :: u32)"
proof -
  assume "is_digit d"
  then have "unat (d - 48) = unat d - 48" "48 \<le> unat d"
    by (auto simp: is_digit_def unat_sub word_le_nat_alt)
  then show ?thesis by (simp add: of_nat_diff)
qed

lemma foldl_dval: "\<forall>d \<in> set ds. is_digit d \<Longrightarrow> foldl (\<lambda>a d. a * 10 + ucast d - 48) 0 (rev ds) = (of_nat (dval ds) :: u32)"
proof (induction ds)
  case (Cons d ds)
  have "foldl (\<lambda>a d. a * 10 + ucast d - 48) 0 (rev (d # ds)) = of_nat (dval ds) * 10 + (ucast d - 48 :: u32)"
    using Cons by simp
  also have "\<dots> = of_nat (dval (d # ds))" using Cons.prems by (simp add: digit_ucast)
  finally show ?case .
qed simp

text \<open>
  \<open>printint\<close> never overruns its buffer: for base 10 and base 16 it prints at most 11 characters, for
  every argument.
\<close>

lemma printint_in_buffer:
  assumes "base = 10 \<or> base = 16"
  shows "\<exists>out. printint xx base sg = Inr out \<and> length out \<le> 11"
proof -
  define x where "x = (if sg \<and> sint xx < 0 then - xx else xx)"
  have lt: "unat x < 2 ^ 32" using unsigned_less[of x] by simp
  have "\<exists>n. 0 < n \<and> n \<le> 10 \<and> unat x < unat base ^ n"
  proof (cases "base = 10")
    case True
    with lt show ?thesis by (intro exI[of _ 10]) simp
  next
    case False
    with assms lt show ?thesis by (intro exI[of _ 8]) simp
  qed
  then obtain n where n: "0 < n" "n \<le> 10" "unat x < unat base ^ n" by blast
  have b: "1 < unat base" using assms by auto
  from put_digits_fits[OF b n(3,1), of "[]"] obtain ds where ds: "put_digits n x base [] = Inr ds" "length ds \<le> n" by auto
  have "put_digits (n + k) x base buf = put_digits n x base buf" if "put_digits n x base buf = Inr r" for k x buf r
    using that by (induction n arbitrary: x buf) (auto simp: Let_def split: if_splits)
  from this[OF ds(1), of "16 - n"] ds n(2) have "put_digits 16 x base [] = Inr ds" by simp
  with ds(2) n(2) show ?thesis by (auto simp: printint_def Let_def x_def)
qed

text \<open>
  Printing a non-negative number in decimal and reading it back with \<open>atoi\<close> gives the number,
  wherever the text stands in memory, as long as no digit follows it.
\<close>

lemma printint_atoi:
  assumes "printint xx 10 True = Inr out" "0 \<le> sint xx" "bytes m s (length out) = out"
    and "\<not> is_digit (m (s + of_nat (length out)))"
  shows "atoi m s = Some (sint xx)"
proof -
  from assms(1,2) obtain buf where buf: "put_digits 16 xx 10 [] = Inr buf" "out = rev buf"
    by (auto simp: printint_def Let_def bind_r_eq_Inr)
  from put_digits_decimal[OF buf(1)] have ds: "\<forall>d \<in> set buf. is_digit d" "dval buf = unat xx" by auto
  have "atoi_from m s 0 = Some (foldl (\<lambda>a d. a * 10 + ucast d - 48) 0 (rev buf))"
    using assms(3,4) ds(1) unfolding buf(2) by (intro atoi_from_digits) simp_all
  with ds show ?thesis by (simp add: atoi_def foldl_dval)
qed

lemma printint_atoi_witness: "atoi ((\<lambda>_. 0)(7 := 52, 8 := 50)) 7 = Some 42"
proof -
  have step: "put_digits (Suc n) 42 10 [] = put_digits n 4 10 [50]" "put_digits (Suc n) 4 10 [50] = Inr [50, 52]" for n
    by (simp_all add: Let_def digits_def)
  have "put_digits 16 42 10 [] = Inr [50, 52]"
    unfolding numeral_eq_Suc[of "num.Bit0 (num.Bit0 (num.Bit0 (num.Bit0 num.One)))"] step(1)
    using step(2)[of 14] by simp
  then have "printint 42 10 True = Inr [52, 50]" by (simp add: printint_def)
  moreover have "bytes ((\<lambda>_. 0)(7 := 52, 8 := 50)) 7 (length [52, 50 :: u8]) = [52, 50]" by (simp add: bytes_Suc)
  ultimately show ?thesis
    using printint_atoi[of 42 "[52, 50]" "(\<lambda>_. 0)(7 := 52, 8 := 50)" 7] by (simp add: is_digit_def)
qed

end
