(* ===== verification/Quicksort.thy ===== *)
theory Quicksort
  imports Prelude
begin

text \<open>
  The three quicksorts of \<open>A4/q1/q1.c\<close> (sequential, one process per half, one thread per half). The shared
  array is a map from index to value; a theorem about a sort of \<open>l..r\<close> says that no cell outside
  \<open>l..r\<close> changes. \<open>rand()\<close> is libc's: \<open>rnd l r\<close> is the value it returns when \<open>l..r\<close> is partitioned, which happens
  at most once per range in one run. The parallel versions take the order in which the two halves are
  done as a parameter; a half only touches its own cells, so the order does not matter.
\<close>

type_synonym arr = "int \<Rightarrow> int"

section \<open>The code\<close>

definition swap :: "arr \<Rightarrow> int \<Rightarrow> int \<Rightarrow> arr" where
  "swap a i j = (let t = a i; a = a(i := a j) in a(j := t))"

function ins_inner :: "arr \<Rightarrow> int \<Rightarrow> int \<Rightarrow> int \<Rightarrow> arr" where
  "ins_inner a i j r =
    (if j \<le> r then ins_inner (if a j < a i \<and> j \<le> r then swap a i j else a) i (j + 1) r else a)"
  by pat_completeness auto
termination by (relation "measure (\<lambda>(a, i, j, r). nat (r + 1 - j))") auto

function ins_outer :: "arr \<Rightarrow> int \<Rightarrow> int \<Rightarrow> arr" where
  "ins_outer a i r = (if i < r then ins_outer (ins_inner a i (i + 1) r) (i + 1) r else a)"
  by pat_completeness auto
termination by (relation "measure (\<lambda>(a, i, r). nat (r - i))") auto

definition insertionSort :: "arr \<Rightarrow> int \<Rightarrow> int \<Rightarrow> arr" where
  "insertionSort a l r = ins_outer a l r"

declare ins_inner.simps [simp del] ins_outer.simps [simp del]

text \<open>The two inner \<open>do\<close> loops of \<open>partition\<close>, after the first increment or decrement.\<close>

function scan_up :: "arr \<Rightarrow> int \<Rightarrow> int \<Rightarrow> int \<Rightarrow> int" where
  "scan_up a r pivot i = (if i \<le> r \<and> a i < pivot then scan_up a r pivot (i + 1) else i)"
  by pat_completeness auto
termination by (relation "measure (\<lambda>(a, r, pivot, i). nat (r + 1 - i))") auto

function scan_down :: "arr \<Rightarrow> int \<Rightarrow> int \<Rightarrow> int \<Rightarrow> int" where
  "scan_down a l pivot j = (if j \<ge> l \<and> a j > pivot then scan_down a l pivot (j - 1) else j)"
  by pat_completeness auto
termination by (relation "measure (\<lambda>(a, l, pivot, j). nat (j + 1 - l))") auto

declare scan_up.simps [simp del] scan_down.simps [simp del]

lemma scan_up_spec:
  "i \<le> scan_up a r pivot i \<and> (\<forall>k. i \<le> k \<and> k < scan_up a r pivot i \<longrightarrow> a k < pivot) \<and>
   (scan_up a r pivot i \<le> r \<longrightarrow> a (scan_up a r pivot i) \<ge> pivot)"
proof (induction a r pivot i rule: scan_up.induct)
  case (1 a r pivot i)
  show ?case
  proof (cases "i \<le> r \<and> a i < pivot")
    case True
    then have eq: "scan_up a r pivot i = scan_up a r pivot (i + 1)" by (subst scan_up.simps) simp
    have "k = i \<or> i + 1 \<le> k" if "i \<le> k" for k using that by linarith
    with 1[OF True] True show ?thesis unfolding eq by fastforce
  next
    case False
    then have "scan_up a r pivot i = i" by (subst scan_up.simps) auto
    with False show ?thesis by auto
  qed
qed

lemma scan_down_spec:
  "scan_down a l pivot j \<le> j \<and> (\<forall>k. scan_down a l pivot j < k \<and> k \<le> j \<longrightarrow> a k > pivot) \<and>
   (scan_down a l pivot j \<ge> l \<longrightarrow> a (scan_down a l pivot j) \<le> pivot)"
proof (induction a l pivot j rule: scan_down.induct)
  case (1 a l pivot j)
  show ?case
  proof (cases "j \<ge> l \<and> a j > pivot")
    case True
    then have eq: "scan_down a l pivot j = scan_down a l pivot (j - 1)" by (subst scan_down.simps) simp
    have "k = j \<or> k \<le> j - 1" if "k \<le> j" for k using that by linarith
    with 1[OF True] True show ?thesis unfolding eq by fastforce
  next
    case False
    then have "scan_down a l pivot j = j" by (subst scan_down.simps) auto
    with False show ?thesis by auto
  qed
qed

function part_loop :: "arr \<Rightarrow> int \<Rightarrow> int \<Rightarrow> int \<Rightarrow> int \<Rightarrow> int \<Rightarrow> int \<times> arr" where
  "part_loop a l r pivot i j =
    (let i' = scan_up a r pivot (i + 1); j' = scan_down a l pivot (j - 1) in
     if i' \<ge> j' then (j', a) else part_loop (swap a i' j') l r pivot i' j')"
  by pat_completeness auto
termination
proof (relation "measure (\<lambda>(a, l, r, pivot, i, j). nat (j - i))")
  fix a l r pivot i j i' j'
  assume "i' = scan_up a r pivot (i + 1)" "j' = scan_down a l pivot (j - 1)" "\<not> j' \<le> i'"
  with scan_up_spec[of "i + 1" a r pivot] scan_down_spec[of a l pivot "j - 1"]
  show "((swap a i' j', l, r, pivot, i', j'), a, l, r, pivot, i, j) \<in> measure (\<lambda>(a, l, r, pivot, i, j). nat (j - i))"
    by auto
qed simp

declare part_loop.simps [simp del]

definition qpartition :: "(int \<Rightarrow> int \<Rightarrow> nat) \<Rightarrow> arr \<Rightarrow> int \<Rightarrow> int \<Rightarrow> int \<times> arr" where
  "qpartition rnd a l r =
    (let len = r - l + 1; idx = int (rnd l r) mod len; pivot = a (l + idx) in part_loop a l r pivot (l - 1) (r + 1))"

section \<open>Permutations of a range\<close>

definition seg :: "arr \<Rightarrow> int \<Rightarrow> int \<Rightarrow> int multiset" where
  "seg a l r = image_mset a (mset_set {l..r})"

text \<open>\<open>b\<close> holds the values of \<open>a\<close> in \<open>l..r\<close> in some order, and equals \<open>a\<close> elsewhere.\<close>

definition perm_on :: "int \<Rightarrow> int \<Rightarrow> arr \<Rightarrow> arr \<Rightarrow> bool" where
  "perm_on l r a b \<longleftrightarrow> seg b l r = seg a l r \<and> (\<forall>k. k < l \<or> r < k \<longrightarrow> b k = a k)"

lemma perm_on_refl [simp]: "perm_on l r a a"
  by (simp add: perm_on_def)

lemma perm_on_trans [trans]: "perm_on l r a b \<Longrightarrow> perm_on l r b c \<Longrightarrow> perm_on l r a c"
  by (simp add: perm_on_def)

lemma swap_apply: "swap a i j k = (if k = i then a j else if k = j then a i else a k)"
  by (simp add: swap_def Let_def)

lemma perm_on_swap:
  assumes "l \<le> i" "i \<le> r" "l \<le> j" "j \<le> r"
  shows "perm_on l r a (swap a i j)"
proof -
  let ?f = "\<lambda>k. if k = i then j else if k = j then i else k"
  have inv: "?f (?f k) = k" for k by auto
  have inj: "inj_on ?f {l..r}" by (rule inj_onI) (metis inv)
  have "?f ` {l..r} \<subseteq> {l..r}" using assms by auto
  moreover have "k \<in> ?f ` {l..r}" if "k \<in> {l..r}" for k
    using that assms inv[of k] by (intro image_eqI[of _ _ "?f k"]) auto
  ultimately have im: "?f ` {l..r} = {l..r}" by blast
  have "swap a i j = a \<circ> ?f" by (auto simp: swap_apply fun_eq_iff)
  then have "seg (swap a i j) l r = image_mset a (image_mset ?f (mset_set {l..r}))"
    by (simp add: seg_def multiset.map_comp)
  also have "\<dots> = seg a l r" by (simp only: image_mset_mset_set[OF inj] im seg_def)
  finally show ?thesis using assms by (auto simp: perm_on_def swap_apply)
qed

lemma seg_split:
  assumes "l \<le> m" "m - 1 \<le> r"
  shows "seg a l r = seg a l (m - 1) + seg a m r"
proof -
  have "{l..r} = {l..m - 1} \<union> {m..r}" "{l..m - 1} \<inter> {m..r} = {}" using assms by auto
  then show ?thesis unfolding seg_def by (simp add: mset_set_Union)
qed

lemma seg_cong: "(\<And>k. l \<le> k \<Longrightarrow> k \<le> r \<Longrightarrow> a k = b k) \<Longrightarrow> seg a l r = seg b l r"
  unfolding seg_def by (intro image_mset_cong) auto

lemma perm_on_mono:
  assumes "perm_on l' r' a b" "l \<le> l'" "r' \<le> r"
  shows "perm_on l r a b"
proof (cases "l' \<le> r'")
  case True
  have "seg c l r = seg c l (l' - 1) + (seg c l' r' + seg c (r' + 1) r)" for c
    using seg_split[of l l' r c] seg_split[of l' "r' + 1" r c] assms(2,3) True by simp
  moreover have "seg b l (l' - 1) = seg a l (l' - 1)" "seg b (r' + 1) r = seg a (r' + 1) r"
    using assms(1) by (auto intro!: seg_cong simp: perm_on_def)
  ultimately show ?thesis using assms by (auto simp: perm_on_def)
next
  case False
  then have "b = a" using assms(1) by (auto simp: perm_on_def fun_eq_iff)
  then show ?thesis by simp
qed

text \<open>What holds of every cell of the range before holds after.\<close>

lemma perm_on_all:
  assumes "perm_on l r a b" "\<And>k. l \<le> k \<Longrightarrow> k \<le> r \<Longrightarrow> P (a k)" "l \<le> i" "i \<le> r"
  shows "P (b i)"
proof -
  have "b i \<in># seg b l r" using assms(3,4) by (simp add: seg_def)
  then have "b i \<in># seg a l r" using assms(1) by (simp add: perm_on_def)
  then show ?thesis using assms(2) by (auto simp: seg_def)
qed

section \<open>Insertion sort\<close>

definition sorted_on :: "int \<Rightarrow> int \<Rightarrow> arr \<Rightarrow> bool" where
  "sorted_on l r a \<longleftrightarrow> (\<forall>i j. l \<le> i \<and> i \<le> j \<and> j \<le> r \<longrightarrow> a i \<le> a j)"

lemma ins_inner_spec:
  assumes "i < j" "\<forall>k. i < k \<and> k < j \<longrightarrow> a i \<le> a k" "i \<le> r"
  shows "perm_on i r a (ins_inner a i j r) \<and> (\<forall>k. i < k \<and> k \<le> r \<longrightarrow> ins_inner a i j r i \<le> ins_inner a i j r k)"
  using assms
proof (induction a i j r rule: ins_inner.induct)
  case (1 a i j r)
  show ?case
  proof (cases "j \<le> r")
    case True
    let ?b = "if a j < a i \<and> j \<le> r then swap a i j else a"
    have eq: "ins_inner a i j r = ins_inner ?b i (j + 1) r" using True by (subst ins_inner.simps) simp
    have "perm_on i r a ?b" using 1(2,4) True by (auto intro!: perm_on_swap)
    moreover have "\<forall>k. i < k \<and> k < j + 1 \<longrightarrow> ?b i \<le> ?b k"
    proof (intro allI impI)
      fix k assume k: "i < k \<and> k < j + 1"
      then have "k = j \<or> k < j" by linarith
      then show "?b i \<le> ?b k" using 1(3)[rule_format, of k] k True by (auto simp: swap_apply)
    qed
    ultimately show ?thesis using 1(1)[OF True] 1(2,4) unfolding eq by (auto intro: perm_on_trans)
  next
    case False
    then have "ins_inner a i j r = a" by (subst ins_inner.simps) simp
    with 1(3) False show ?thesis by auto
  qed
qed

lemma ins_outer_spec: "perm_on i r a (ins_outer a i r) \<and> sorted_on i r (ins_outer a i r)"
proof (induction a i r rule: ins_outer.induct)
  case (1 a i r)
  show ?case
  proof (cases "i < r")
    case True
    let ?b = "ins_inner a i (i + 1) r"
    have eq: "ins_outer a i r = ins_outer ?b (i + 1) r" using True by (subst ins_outer.simps) simp
    have b: "perm_on i r a ?b" "\<forall>k. i < k \<and> k \<le> r \<longrightarrow> ?b i \<le> ?b k"
      using ins_inner_spec[of i "i + 1" a r] True by auto
    have c: "perm_on (i + 1) r ?b (ins_outer a i r)" "sorted_on (i + 1) r (ins_outer a i r)"
      using 1 True unfolding eq by auto
    have i: "ins_outer a i r i = ?b i" using c(1) by (simp add: perm_on_def)
    have "?b i \<le> ins_outer a i r k" if "i + 1 \<le> k" "k \<le> r" for k
      by (rule perm_on_all[OF c(1) _ that]) (use b(2) in auto)
    then have "sorted_on i r (ins_outer a i r)"
      using c(2) i unfolding sorted_on_def by (smt (verit) zless_imp_add1_zle)
    moreover have "perm_on i r a (ins_outer a i r)"
      using b(1) perm_on_mono[OF c(1)] by (auto intro: perm_on_trans)
    ultimately show ?thesis by blast
  next
    case False
    then have "ins_outer a i r = a" by (subst ins_outer.simps) simp
    moreover have "sorted_on i r a" unfolding sorted_on_def using False by (smt (verit))
    ultimately show ?thesis by simp
  qed
qed

lemma insertionSort_spec: "perm_on l r a (insertionSort a l r)" "sorted_on l r (insertionSort a l r)"
  using ins_outer_spec[of l r a] by (auto simp: insertionSort_def)

section \<open>Partition\<close>

lemma part_loop_spec:
  assumes "l - 1 \<le> i" "j \<le> r + 1" "l \<le> k" "k < j" "a k \<le> pivot"
  shows "l \<le> fst (part_loop a l r pivot i j) \<and> fst (part_loop a l r pivot i j) \<le> r \<and>
    perm_on l r a (snd (part_loop a l r pivot i j))"
  using assms
proof (induction a l r pivot i j arbitrary: k rule: part_loop.induct)
  case (1 a l r pivot i j)
  let ?i = "scan_up a r pivot (i + 1)" and ?j = "scan_down a l pivot (j - 1)"
  have i: "i < ?i" using scan_up_spec[of "i + 1" a r pivot] by auto
  have j: "?j \<le> j - 1" "k \<le> ?j"
    using scan_down_spec[of a l pivot "j - 1"] 1(5,6) by (auto simp: not_less[symmetric])
  then have jr: "l \<le> ?j" "?j \<le> r" "a ?j \<le> pivot"
    using scan_down_spec[of a l pivot "j - 1"] 1(3,4) by auto
  show ?case
  proof (cases "?i \<ge> ?j")
    case True
    then have "part_loop a l r pivot i j = (?j, a)" by (subst part_loop.simps) (simp add: Let_def)
    with jr show ?thesis by simp
  next
    case False
    then have eq: "part_loop a l r pivot i j = part_loop (swap a ?i ?j) l r pivot ?i ?j"
      by (subst part_loop.simps) (simp add: Let_def)
    have "perm_on l r a (swap a ?i ?j)" using False i jr 1(2) by (intro perm_on_swap) auto
    moreover have "l - 1 \<le> ?i" "?j \<le> r + 1" "l \<le> ?i" "?i < ?j" "swap a ?i ?j ?i \<le> pivot"
      using False i jr 1(2) by (auto simp: swap_apply)
    note 1(1)[OF refl refl False this]
    ultimately show ?thesis unfolding eq by (auto intro: perm_on_trans)
  qed
qed

lemma qpartition_spec:
  assumes "l \<le> r"
  shows "l \<le> fst (qpartition rnd a l r)" "fst (qpartition rnd a l r) \<le> r" "perm_on l r a (snd (qpartition rnd a l r))"
proof -
  let ?k = "l + int (rnd l r) mod (r - l + 1)"
  have "l \<le> ?k" "?k < r + 1" using assms pos_mod_bound[of "r - l + 1" "int (rnd l r)"] by auto
  from part_loop_spec[of l "l - 1" "r + 1" r ?k a "a ?k"] this
  show "l \<le> fst (qpartition rnd a l r)" "fst (qpartition rnd a l r) \<le> r" "perm_on l r a (snd (qpartition rnd a l r))"
    by (simp_all add: qpartition_def Let_def)
qed

lemma qpartition_range:
  "qpartition rnd a l r = (p, b) \<Longrightarrow> l \<le> r \<Longrightarrow> l \<le> p \<and> p \<le> r"
  using qpartition_spec(1,2)[of l r rnd a] by simp

section \<open>The three sorts\<close>

function normal_quicksort :: "(int \<Rightarrow> int \<Rightarrow> nat) \<Rightarrow> arr \<Rightarrow> int \<Rightarrow> int \<Rightarrow> arr" where
  "normal_quicksort rnd a l r =
    (if l \<ge> r then a
     else if r - l + 1 \<le> 5 then insertionSort a l r
     else let (pivotIdx, a) = qpartition rnd a l r;
              a = normal_quicksort rnd a l (pivotIdx - 1)
          in normal_quicksort rnd a (pivotIdx + 1) r)"
  by pat_completeness auto
termination
  by (relation "measure (\<lambda>(rnd, a, l, r). nat (r - l))") (auto dest!: sym[of "(_, _)"] qpartition_range)

text \<open>
  Threads: \<open>first l r\<close> says whether the thread of the left half of \<open>l..r\<close> does its work before the thread of
  the right half.
\<close>

function threaded_quicksort ::
  "(int \<Rightarrow> int \<Rightarrow> bool) \<Rightarrow> (int \<Rightarrow> int \<Rightarrow> nat) \<Rightarrow> arr \<Rightarrow> int \<Rightarrow> int \<Rightarrow> arr" where
  "threaded_quicksort first rnd a l r =
    (if l \<ge> r then a
     else if r - l + 1 \<le> 5 then insertionSort a l r
     else let (pivotIdx, a) = qpartition rnd a l r in
       if first l r
       then threaded_quicksort first rnd (threaded_quicksort first rnd a l (pivotIdx - 1)) (pivotIdx + 1) r
       else threaded_quicksort first rnd (threaded_quicksort first rnd a (pivotIdx + 1) r) l (pivotIdx - 1))"
  by pat_completeness auto
termination
  by (relation "measure (\<lambda>(first, rnd, a, l, r). nat (r - l))") (auto dest!: sym[of "(_, _)"] qpartition_range)

text \<open>
  Processes on shared memory: a call either returns or ends the process with \<open>_exit\<close>, leaving the
  shared array as it is. The parent waits for both children, whose way of ending does not matter to it.
\<close>

datatype 'a ending = Returned 'a | Exited 'a

definition memory_of :: "'a ending \<Rightarrow> 'a" where
  "memory_of e = (case e of Returned a \<Rightarrow> a | Exited a \<Rightarrow> a)"

function quicksort ::
  "(int \<Rightarrow> int \<Rightarrow> bool) \<Rightarrow> (int \<Rightarrow> int \<Rightarrow> nat) \<Rightarrow> arr \<Rightarrow> int \<Rightarrow> int \<Rightarrow> arr ending" where
  "quicksort first rnd a l r =
    (if l \<ge> r then Exited a
     else if r - l + 1 \<le> 5 then Returned (insertionSort a l r)
     else let (pivotIdx, a) = qpartition rnd a l r in
       Returned (if first l r
         then memory_of (quicksort first rnd (memory_of (quicksort first rnd a l (pivotIdx - 1))) (pivotIdx + 1) r)
         else memory_of (quicksort first rnd (memory_of (quicksort first rnd a (pivotIdx + 1) r)) l (pivotIdx - 1))))"
  by pat_completeness auto
termination
  by (relation "measure (\<lambda>(first, rnd, a, l, r). nat (r - l))") (auto dest!: sym[of "(_, _)"] qpartition_range)

declare normal_quicksort.simps [simp del] threaded_quicksort.simps [simp del] quicksort.simps [simp del]

section \<open>What a sort of a range reads and writes\<close>

definition agree :: "int \<Rightarrow> int \<Rightarrow> arr \<Rightarrow> arr \<Rightarrow> bool" where
  "agree l r a b \<longleftrightarrow> (\<forall>k. l \<le> k \<and> k \<le> r \<longrightarrow> a k = b k)"

lemma agree_swap: "agree l r a b \<Longrightarrow> l \<le> i \<Longrightarrow> i \<le> r \<Longrightarrow> l \<le> j \<Longrightarrow> j \<le> r \<Longrightarrow> agree l r (swap a i j) (swap b i j)"
  by (simp add: agree_def swap_apply)

lemma ins_inner_agree: "l \<le> i \<Longrightarrow> i < j \<Longrightarrow> agree l r a b \<Longrightarrow> agree l r (ins_inner a i j r) (ins_inner b i j r)"
proof (induction a i j r arbitrary: b rule: ins_inner.induct)
  case (1 a i j r)
  show ?case
  proof (cases "j \<le> r")
    case True
    have ij: "a i = b i" "a j = b j" using 1(2-4) True by (auto simp: agree_def)
    have "agree l r (if a j < a i \<and> j \<le> r then swap a i j else a) (if b j < b i \<and> j \<le> r then swap b i j else b)"
      using 1(2-4) True ij by (auto intro!: agree_swap)
    from 1(1)[OF True 1(2) _ this] 1(3) show ?thesis
      by (subst ins_inner.simps[of a], subst ins_inner.simps[of b]) (simp add: True)
  next
    case False
    with 1 show ?thesis by (simp add: ins_inner.simps[of a] ins_inner.simps[of b])
  qed
qed

lemma ins_outer_agree: "l \<le> i \<Longrightarrow> agree l r a b \<Longrightarrow> agree l r (ins_outer a i r) (ins_outer b i r)"
proof (induction a i r arbitrary: b rule: ins_outer.induct)
  case (1 a i r)
  show ?case
  proof (cases "i < r")
    case True
    have "agree l r (ins_inner a i (i + 1) r) (ins_inner b i (i + 1) r)" using 1(2,3) by (intro ins_inner_agree) auto
    from 1(1)[OF True _ this] 1(2) True show ?thesis by (simp add: ins_outer.simps[of a i] ins_outer.simps[of b i])
  next
    case False
    with 1 show ?thesis by (simp add: ins_outer.simps[of a i] ins_outer.simps[of b i])
  qed
qed

lemma scan_up_agree: "l \<le> i \<Longrightarrow> agree l r a b \<Longrightarrow> scan_up a r pivot i = scan_up b r pivot i"
proof (induction a r pivot i rule: scan_up.induct)
  case (1 a r pivot i)
  have "i \<le> r \<Longrightarrow> a i = b i" using 1(2,3) by (simp add: agree_def)
  with 1 show ?case by (subst scan_up.simps[of a], subst scan_up.simps[of b]) auto
qed

lemma scan_down_agree: "j \<le> r \<Longrightarrow> agree l r a b \<Longrightarrow> scan_down a l pivot j = scan_down b l pivot j"
proof (induction a l pivot j rule: scan_down.induct)
  case (1 a l pivot j)
  have "l \<le> j \<Longrightarrow> a j = b j" using 1(2,3) by (simp add: agree_def)
  with 1 show ?case by (subst scan_down.simps[of a], subst scan_down.simps[of b]) auto
qed

lemma part_loop_agree:
  assumes "l - 1 \<le> i" "j \<le> r + 1" "agree l r a b"
  shows "fst (part_loop a l r pivot i j) = fst (part_loop b l r pivot i j) \<and>
    agree l r (snd (part_loop a l r pivot i j)) (snd (part_loop b l r pivot i j))"
  using assms
proof (induction a l r pivot i j arbitrary: b rule: part_loop.induct)
  case (1 a l r pivot i j)
  let ?i = "scan_up a r pivot (i + 1)" and ?j = "scan_down a l pivot (j - 1)"
  have same: "scan_up b r pivot (i + 1) = ?i" "scan_down b l pivot (j - 1) = ?j"
    using 1(2-4) scan_up_agree[of l "i + 1" r a b] scan_down_agree[of "j - 1" r l a b] by auto
  have ij: "i < ?i" "?j \<le> j - 1" using scan_up_spec[of "i + 1" a r pivot] scan_down_spec[of a l pivot "j - 1"] by auto
  show ?case
  proof (cases "?i \<ge> ?j")
    case True
    with 1(4) show ?thesis by (simp add: part_loop.simps[of a] part_loop.simps[of b] same Let_def)
  next
    case False
    have "agree l r (swap a ?i ?j) (swap b ?i ?j)" using ij False 1(2-4) by (intro agree_swap) auto
    from 1(1)[OF refl refl False _ _ this] ij 1(2,3) False show ?thesis
      by (simp add: part_loop.simps[of a l r pivot i] part_loop.simps[of b l r pivot i] same Let_def)
  qed
qed

lemma qpartition_agree:
  assumes "l \<le> r" "agree l r a b"
  shows "fst (qpartition rnd a l r) = fst (qpartition rnd b l r)" "agree l r (snd (qpartition rnd a l r)) (snd (qpartition rnd b l r))"
proof -
  let ?k = "l + int (rnd l r) mod (r - l + 1)"
  have "l \<le> ?k" "?k \<le> r" using assms pos_mod_bound[of "r - l + 1" "int (rnd l r)"] by auto
  then have "a ?k = b ?k" using assms(2) by (simp add: agree_def)
  with part_loop_agree[of l "l - 1" "r + 1" r a b "a ?k"] assms(2)
  show "fst (qpartition rnd a l r) = fst (qpartition rnd b l r)" "agree l r (snd (qpartition rnd a l r)) (snd (qpartition rnd b l r))"
    by (simp_all add: qpartition_def Let_def)
qed

lemma normal_quicksort_cases:
  "l \<ge> r \<Longrightarrow> normal_quicksort rnd a l r = a"
  "l < r \<Longrightarrow> r - l + 1 \<le> 5 \<Longrightarrow> normal_quicksort rnd a l r = insertionSort a l r"
  "l < r \<Longrightarrow> 5 < r - l + 1 \<Longrightarrow> qpartition rnd a l r = (p, b) \<Longrightarrow>
     normal_quicksort rnd a l r = normal_quicksort rnd (normal_quicksort rnd b l (p - 1)) (p + 1) r"
  by (simp_all add: normal_quicksort.simps[of rnd a l r])

lemma normal_quicksort_perm: "perm_on l r a (normal_quicksort rnd a l r)"
proof (induction rnd a l r rule: normal_quicksort.induct)
  case (1 rnd a l r)
  consider "l \<ge> r" | "l < r" "r - l + 1 \<le> 5" | "l < r" "5 < r - l + 1" by linarith
  then show ?case
  proof cases
    case 3
    obtain p b where pb: "qpartition rnd a l r = (p, b)" by fastforce
    have p: "l \<le> p" "p \<le> r" "perm_on l r a b" using qpartition_spec[where l = l and r = r and rnd = rnd and a = a] 3(1) pb by auto
    have s: "\<not> l \<ge> r" "\<not> r - l + 1 \<le> 5" using 3 by simp_all
    let ?c = "normal_quicksort rnd b l (p - 1)"
    have "perm_on l (p - 1) b ?c" by (rule 1(1)[OF s pb[symmetric] refl])
    from perm_on_mono[OF this, of l r] have "perm_on l r b ?c" using p by simp
    moreover have "perm_on (p + 1) r ?c (normal_quicksort rnd ?c (p + 1) r)" by (rule 1(2)[OF s pb[symmetric] refl refl])
    from perm_on_mono[OF this, of l r] have "perm_on l r ?c (normal_quicksort rnd ?c (p + 1) r)" using p by simp
    ultimately show ?thesis
      using p(3) unfolding normal_quicksort_cases(3)[OF 3 pb] by (blast intro: perm_on_trans)
  qed (simp_all add: normal_quicksort_cases insertionSort_spec)
qed

lemma normal_quicksort_agree:
  "agree l r a b \<Longrightarrow> agree l r (normal_quicksort rnd a l r) (normal_quicksort rnd b l r)"
proof (induction rnd a l r arbitrary: b rule: normal_quicksort.induct)
  case (1 rnd a l r)
  consider "l \<ge> r" | "l < r" "r - l + 1 \<le> 5" | "l < r" "5 < r - l + 1" by linarith
  then show ?case
  proof cases
    case 1
    with "1.prems" show ?thesis by (simp add: normal_quicksort_cases(1))
  next
    case 2
    with "1.prems" show ?thesis by (simp add: normal_quicksort_cases(2) insertionSort_def ins_outer_agree)
  next
    case 3
    obtain p a' where pa: "qpartition rnd a l r = (p, a')" by fastforce
    then obtain b' where pb: "qpartition rnd b l r = (p, b')" and ab: "agree l r a' b'"
      using qpartition_agree[of l r a b rnd] 3(1) "1.prems" by (cases "qpartition rnd b l r") auto
    have s: "\<not> l \<ge> r" "\<not> r - l + 1 \<le> 5" using 3 by simp_all
    let ?a = "normal_quicksort rnd a' l (p - 1)" and ?b = "normal_quicksort rnd b' l (p - 1)"
    have p: "l \<le> p" "p \<le> r" using qpartition_range[OF pa] 3 by auto
    have "agree l (p - 1) a' b'" using ab p by (auto simp: agree_def)
    then have l: "agree l (p - 1) ?a ?b" by (rule "1.IH"(1)[OF s pa[symmetric] refl])
    have out: "?a k = a' k" "?b k = b' k" if "k < l \<or> p - 1 < k" for k
      using normal_quicksort_perm[of l "p - 1" a' rnd] normal_quicksort_perm[of l "p - 1" b' rnd] that
      by (auto simp: perm_on_def)
    have lr: "agree l r ?a ?b"
      unfolding agree_def
    proof (intro allI impI)
      fix k assume k: "l \<le> k \<and> k \<le> r"
      show "?a k = ?b k"
        using l out[of k] ab k by (cases "k \<le> p - 1") (auto simp: agree_def)
    qed
    then have "agree (p + 1) r ?a ?b" using p by (auto simp: agree_def)
    then have r: "agree (p + 1) r (normal_quicksort rnd ?a (p + 1) r) (normal_quicksort rnd ?b (p + 1) r)"
      by (rule "1.IH"(2)[OF s pa[symmetric] refl refl])
    have out2: "normal_quicksort rnd c (p + 1) r k = c k" if "k < p + 1" for c k
      using normal_quicksort_perm[of "p + 1" r c rnd] that by (auto simp: perm_on_def)
    show ?thesis
      unfolding normal_quicksort_cases(3)[OF 3 pa] normal_quicksort_cases(3)[OF 3 pb] agree_def
      using r lr out2 by (metis agree_def not_less)
  qed
qed

text \<open>Two sorts of disjoint ranges commute.\<close>

lemma quicksort_commute:
  assumes "r1 < l2"
  shows "normal_quicksort rnd (normal_quicksort rnd a l1 r1) l2 r2 = normal_quicksort rnd (normal_quicksort rnd a l2 r2) l1 r1"
proof
  let ?q = "normal_quicksort rnd"
  have out: "?q c l r k = c k" if "k < l \<or> r < k" for c l r k
    using normal_quicksort_perm[of l r c rnd] that by (auto simp: perm_on_def)
  have "agree l2 r2 (?q a l1 r1) a" "agree l1 r1 (?q a l2 r2) a" using out assms by (auto simp: agree_def)
  then have in2: "agree l2 r2 (?q (?q a l1 r1) l2 r2) (?q a l2 r2)" and in1: "agree l1 r1 (?q (?q a l2 r2) l1 r1) (?q a l1 r1)"
    by (auto intro: normal_quicksort_agree)
  fix k
  consider "l1 \<le> k \<and> k \<le> r1" | "l2 \<le> k \<and> k \<le> r2" | "\<not> (l1 \<le> k \<and> k \<le> r1) \<and> \<not> (l2 \<le> k \<and> k \<le> r2)" by blast
  then show "?q (?q a l1 r1) l2 r2 k = ?q (?q a l2 r2) l1 r1 k"
  proof cases
    case 1
    with in1 out[of k l2 r2 "?q a l1 r1"] assms show ?thesis by (auto simp: agree_def)
  next
    case 2
    with in2 out[of k l1 r1 "?q a l2 r2"] assms show ?thesis by (auto simp: agree_def)
  next
    case 3
    then show ?thesis using out[of k] by (metis not_less)
  qed
qed

lemma threaded_eq_normal: "threaded_quicksort first rnd a l r = normal_quicksort rnd a l r"
proof (induction first rnd a l r rule: threaded_quicksort.induct)
  case (1 first rnd a l r)
  show ?case
  proof (cases "l \<ge> r \<or> r - l + 1 \<le> 5")
    case True
    then show ?thesis
      by (cases "l \<ge> r") (simp_all add: threaded_quicksort.simps[of first rnd a l r] normal_quicksort.simps[of rnd a l r])
  next
    case False
    then have s: "\<not> l \<ge> r" "\<not> r - l + 1 \<le> 5" and 3: "l < r" "5 < r - l + 1" by simp_all
    obtain p b where pb: "qpartition rnd a l r = (p, b)" by fastforce
    note n = normal_quicksort_cases(3)[OF 3 pb]
    have eq: "threaded_quicksort first rnd a l r = (if first l r
      then threaded_quicksort first rnd (threaded_quicksort first rnd b l (p - 1)) (p + 1) r
      else threaded_quicksort first rnd (threaded_quicksort first rnd b (p + 1) r) l (p - 1))"
      by (subst threaded_quicksort.simps) (simp add: s pb)
    show ?thesis
    proof (cases "first l r")
      case True
      from 1(1)[OF s pb[symmetric] refl True] 1(2)[OF s pb[symmetric] refl True] True
      show ?thesis by (simp add: eq n)
    next
      case f: False
      have "normal_quicksort rnd (normal_quicksort rnd b (p + 1) r) l (p - 1) = normal_quicksort rnd (normal_quicksort rnd b l (p - 1)) (p + 1) r"
        by (rule quicksort_commute[symmetric]) simp
      with 1(3)[OF s pb[symmetric] refl f] 1(4)[OF s pb[symmetric] refl f] f
      show ?thesis by (simp add: eq n)
    qed
  qed
qed

lemma quicksort_eq_threaded: "memory_of (quicksort first rnd a l r) = threaded_quicksort first rnd a l r"
proof (induction first rnd a l r rule: quicksort.induct)
  case (1 first rnd a l r)
  show ?case
  proof (cases "l \<ge> r \<or> r - l + 1 \<le> 5")
    case True
    then show ?thesis
      by (cases "l \<ge> r") (simp_all add: threaded_quicksort.simps[of first rnd a l r] quicksort.simps[of first rnd a l r] memory_of_def)
  next
    case False
    then have s: "\<not> l \<ge> r" "\<not> r - l + 1 \<le> 5" by simp_all
    obtain p b where pb: "qpartition rnd a l r = (p, b)" by fastforce
    note ih = 1(1)[OF s pb[symmetric] refl] 1(2)[OF s pb[symmetric] refl] 1(3)[OF s pb[symmetric] refl] 1(4)[OF s pb[symmetric] refl]
    show ?thesis
      using ih by (subst quicksort.simps, subst threaded_quicksort.simps) (simp add: s pb memory_of_def[of "Returned _"])
  qed
qed

section \<open>Properties\<close>


definition six :: arr where
  "six = (\<lambda>_. 0)(0 := 3, 1 := 1, 2 := 2, 3 := 7, 4 := 8, 5 := 9)"

text \<open>
  The quicksorts do not sort. \<open>partition\<close> is Hoare's, which returns a split point, but the recursion
  leaves the element at that point out as if it were the pivot in its final place. For six elements and
  the first one drawn as pivot the result is out of order.
\<close>

lemma quicksort_unsorted:
  "map (normal_quicksort (\<lambda>_ _. 0) six 0 5) [0, 1, 2, 3, 4, 5] = [2, 1, 3, 7, 8, 9] \<and>
   \<not> sorted_on 0 5 (normal_quicksort (\<lambda>_ _. 0) six 0 5)"
proof -
  let ?b = "(\<lambda>_. 0)(0 := 2, 1 := 1, 2 := 3, 3 := 7, 4 := 8, 5 := 9) :: arr"
  have p: "qpartition (\<lambda>_ _. 0) six 0 5 = (1, ?b)"
    by (simp add: qpartition_def Let_def six_def part_loop.simps scan_up.simps scan_down.simps swap_def fun_upd_twist)
  have i: "insertionSort ?b 2 5 = ?b"
    by (simp add: insertionSort_def ins_outer.simps ins_inner.simps)
  have "normal_quicksort (\<lambda>_ _. 0) six 0 5 = ?b"
    using i by (simp add: normal_quicksort_cases(3)[OF _ _ p] normal_quicksort_cases(1,2))
  moreover have "\<not> sorted_on 0 5 ?b" unfolding sorted_on_def by (intro notI) (drule spec[of _ 0], drule spec[of _ 1], simp)
  ultimately show ?thesis by simp
qed

end
