(* ===== verification/Mergesort.thy ===== *)
theory Mergesort
  imports Quicksort
begin

text \<open>
  The merge sorts of \<open>A4/codes_assignment4_tutorial/concurrent_mergesort.c\<close>. The short ranges are sorted by the
  same exchange loops as in \<open>A4/q1/q1.c\<close> (\<open>ins_outer\<close>, written inline there). Indices are not negative, so
  C's division is \<open>div\<close>. The temporary array of \<open>merge\<close> is the list of values stored in it.
\<close>

section \<open>The code\<close>

text \<open>The inner loop: the elements of the right half that are not above \<open>v\<close>.\<close>

function take_right :: "arr \<Rightarrow> int \<Rightarrow> int \<Rightarrow> int \<Rightarrow> int list \<Rightarrow> int \<times> int list" where
  "take_right a v j r srt = (if j \<le> r \<and> a j \<le> v then take_right a v (j + 1) r (srt @ [a j]) else (j, srt))"
  by pat_completeness auto
termination by (relation "measure (\<lambda>(a, v, j, r, srt). nat (r + 1 - j))") auto

function merge_left :: "arr \<Rightarrow> int \<Rightarrow> int \<Rightarrow> int \<Rightarrow> int \<Rightarrow> int list \<Rightarrow> int \<times> int list" where
  "merge_left a i mid j r srt =
    (if i \<le> mid then
       let (j, srt) = take_right a (a i) j r srt in merge_left a (i + 1) mid j r (srt @ [a i])
     else (j, srt))"
  by pat_completeness auto
termination by (relation "measure (\<lambda>(a, i, mid, j, r, srt). nat (mid + 1 - i))") auto

text \<open>\<open>while (i <= hi) sorted[c++] = arr[i++]\<close>\<close>

function copy_rest :: "arr \<Rightarrow> int \<Rightarrow> int \<Rightarrow> int list \<Rightarrow> int list" where
  "copy_rest a i hi srt = (if i \<le> hi then copy_rest a (i + 1) hi (srt @ [a i]) else srt)"
  by pat_completeness auto
termination by (relation "measure (\<lambda>(a, i, hi, srt). nat (hi + 1 - i))") auto

declare take_right.simps [simp del] merge_left.simps [simp del] copy_rest.simps [simp del]

fun write_back :: "arr \<Rightarrow> int \<Rightarrow> int list \<Rightarrow> arr" where
  "write_back a i [] = a"
| "write_back a i (x # xs) = write_back (a(i := x)) (i + 1) xs"

text \<open>After the loop over the left half its index is \<open>mid + 1\<close>, unless the half is empty.\<close>

definition merge_halves :: "arr \<Rightarrow> int \<Rightarrow> int \<Rightarrow> arr" where
  "merge_halves a l r =
    (let mid = (l + r) div 2;
         (j, srt) = merge_left a l mid (mid + 1) r [];
         srt = copy_rest a (max l (mid + 1)) mid srt;
         srt = copy_rest a j r srt
     in write_back a l srt)"

function normal_mergesort :: "arr \<Rightarrow> int \<Rightarrow> int \<Rightarrow> arr" where
  "normal_mergesort a l r =
    (if l > r then a
     else if r - l + 1 \<le> 5 then ins_outer a l r
     else merge_halves (normal_mergesort (normal_mergesort a l ((l + r) div 2)) ((l + r) div 2 + 1) r) l r)"
  by pat_completeness auto
termination by (relation "measure (\<lambda>(a, l, r). nat (r + 1 - l))") auto

function threaded_mergesort :: "(int \<Rightarrow> int \<Rightarrow> bool) \<Rightarrow> arr \<Rightarrow> int \<Rightarrow> int \<Rightarrow> arr" where
  "threaded_mergesort first a l r =
    (if l > r then a
     else if r - l + 1 \<le> 5 then ins_outer a l r
     else
       let m = (l + r) div 2 in
       merge_halves
         (if first l r then threaded_mergesort first (threaded_mergesort first a l m) (m + 1) r
          else threaded_mergesort first (threaded_mergesort first a (m + 1) r) l m) l r)"
  by pat_completeness auto
termination by (relation "measure (\<lambda>(first, a, l, r). nat (r + 1 - l))") auto

function mergesort :: "(int \<Rightarrow> int \<Rightarrow> bool) \<Rightarrow> arr \<Rightarrow> int \<Rightarrow> int \<Rightarrow> arr ending" where
  "mergesort first a l r =
    (if l > r then Exited a
     else if r - l + 1 \<le> 5 then Returned (ins_outer a l r)
     else
       let m = (l + r) div 2 in
       Returned (merge_halves
         (if first l r then memory_of (mergesort first (memory_of (mergesort first a l m)) (m + 1) r)
          else memory_of (mergesort first (memory_of (mergesort first a (m + 1) r)) l m)) l r))"
  by pat_completeness auto
termination by (relation "measure (\<lambda>(first, a, l, r). nat (r + 1 - l))") auto

declare normal_mergesort.simps [simp del] threaded_mergesort.simps [simp del] mergesort.simps [simp del]

section \<open>Merging as a function on lists\<close>

definition vals :: "arr \<Rightarrow> int \<Rightarrow> int \<Rightarrow> int list" where
  "vals a l r = map a [l..r]"

lemma vals_rec: "vals a l r = (if l \<le> r then a l # vals a (l + 1) r else [])"
  by (simp add: vals_def upto.simps[of l])

lemma vals_split: "l \<le> m + 1 \<Longrightarrow> m \<le> r \<Longrightarrow> vals a l r = vals a l m @ vals a (m + 1) r"
  unfolding vals_def using upto_split1[of l "m + 1" r] by (cases "m = r") simp_all

fun merge_lists :: "int list \<Rightarrow> int list \<Rightarrow> int list" where
  "merge_lists [] ys = ys"
| "merge_lists (x # xs) ys = takeWhile (\<lambda>y. y \<le> x) ys @ x # merge_lists xs (dropWhile (\<lambda>y. y \<le> x) ys)"

lemma mset_merge_lists: "mset (merge_lists xs ys) = mset xs + mset ys"
proof (induction xs ys rule: merge_lists.induct)
  case (2 x xs ys)
  have "mset ys = mset (takeWhile (\<lambda>y. y \<le> x) ys) + mset (dropWhile (\<lambda>y. y \<le> x) ys)"
    by (metis mset_append takeWhile_dropWhile_id)
  with 2 show ?case by simp
qed simp

lemma set_merge_lists: "set (merge_lists xs ys) = set xs \<union> set ys"
  by (metis mset_merge_lists set_mset_mset set_mset_union)

lemma sorted_merge_lists: "sorted xs \<Longrightarrow> sorted ys \<Longrightarrow> sorted (merge_lists xs ys)"
proof (induction xs ys rule: merge_lists.induct)
  case (2 x xs ys)
  let ?t = "takeWhile (\<lambda>y. y \<le> x) ys" and ?d = "dropWhile (\<lambda>y. y \<le> x) ys"
  have d: "sorted ?t" "sorted ?d" using 2(3) by (simp_all add: sorted_takeWhile sorted_dropWhile)
  have "x \<le> y" if "y \<in> set ?d" for y
  proof (cases ?d)
    case (Cons z zs)
    then have "\<not> z \<le> x" by (metis dropWhile_eq_Cons_conv)
    with that d(2) Cons show ?thesis by auto
  next
    case Nil
    with that show ?thesis by (simp only: list.set empty_iff)
  qed
  then have "\<forall>y \<in> set (merge_lists xs ?d). x \<le> y" using 2(2) by (auto simp: set_merge_lists)
  moreover have "\<forall>y \<in> set ?t. y \<le> x" by (auto dest: set_takeWhileD)
  ultimately show ?case using 2 d by (fastforce simp: sorted_append)
qed simp

lemma take_right_spec:
  "take_right a v j r srt =
     (j + int (length (takeWhile (\<lambda>y. y \<le> v) (vals a j r))), srt @ takeWhile (\<lambda>y. y \<le> v) (vals a j r)) \<and>
   vals a (fst (take_right a v j r srt)) r = dropWhile (\<lambda>y. y \<le> v) (vals a j r)"
proof (induction a v j r srt rule: take_right.induct)
  case (1 a v j r srt)
  show ?case
  proof (cases "j \<le> r \<and> a j \<le> v")
    case True
    have eq: "take_right a v j r srt = take_right a v (j + 1) r (srt @ [a j])"
      using True by (subst take_right.simps) simp
    have vs: "vals a j r = a j # vals a (j + 1) r" using True by (subst vals_rec) simp
    show ?thesis using 1[OF True] True unfolding eq vs by auto
  next
    case False
    then have "take_right a v j r srt = (j, srt)" by (subst take_right.simps) auto
    moreover have "takeWhile (\<lambda>y. y \<le> v) (vals a j r) = []" "dropWhile (\<lambda>y. y \<le> v) (vals a j r) = vals a j r"
      using False vals_rec[of a j r] by (cases "j \<le> r"; simp)+
    ultimately show ?thesis by simp
  qed
qed

lemma merge_left_spec:
  "snd (merge_left a i mid j r srt) @ vals a (fst (merge_left a i mid j r srt)) r
     = srt @ merge_lists (vals a i mid) (vals a j r)"
proof (induction a i mid j r srt rule: merge_left.induct)
  case (1 a i mid j r srt)
  show ?case
  proof (cases "i \<le> mid")
    case True
    obtain j' srt' where t: "take_right a (a i) j r srt = (j', srt')" by fastforce
    have eq: "merge_left a i mid j r srt = merge_left a (i + 1) mid j' r (srt' @ [a i])"
      using True by (subst merge_left.simps) (simp add: t)
    have vs: "vals a i mid = a i # vals a (i + 1) mid" using True by (subst vals_rec) simp
    have s: "srt' = srt @ takeWhile (\<lambda>y. y \<le> a i) (vals a j r)" "vals a j' r = dropWhile (\<lambda>y. y \<le> a i) (vals a j r)"
      using take_right_spec[of a "a i" j r srt] t by auto
    show ?thesis using 1[OF True t[symmetric] refl] unfolding eq vs by (simp add: s)
  next
    case False
    then have "merge_left a i mid j r srt = (j, srt)" by (subst merge_left.simps) simp
    moreover have "vals a i mid = []" using False by (subst vals_rec) simp
    ultimately show ?thesis by simp
  qed
qed

lemma copy_rest_spec: "copy_rest a i hi srt = srt @ vals a i hi"
proof (induction a i hi srt rule: copy_rest.induct)
  case (1 a i hi srt)
  then show ?case using vals_rec[of a i hi] by (cases "i \<le> hi") (simp_all add: copy_rest.simps[of a i])
qed

lemma write_back_apply:
  "write_back a i xs k = (if i \<le> k \<and> k < i + int (length xs) then xs ! nat (k - i) else a k)"
proof (induction xs arbitrary: a i)
  case (Cons x xs)
  show ?case
  proof (cases "k = i")
    case False
    then have "nat (k - i) = Suc (nat (k - (i + 1)))" if "i \<le> k" using that by linarith
    with False Cons show ?thesis by auto
  next
    case True
    then show ?thesis using Cons[of "a(i := x)" "i + 1"] by (simp add: fun_upd_def)
  qed
qed simp

lemma length_vals: "length (vals a l r) = nat (r - l + 1)"
  by (simp add: vals_def)

lemma nth_vals: "l \<le> k \<Longrightarrow> k \<le> r \<Longrightarrow> vals a l r ! nat (k - l) = a k"
  by (simp add: vals_def)

lemma vals_cong: "(\<And>k. l \<le> k \<Longrightarrow> k \<le> r \<Longrightarrow> a k = b k) \<Longrightarrow> vals a l r = vals b l r"
  by (simp add: vals_def)

lemma vals_write_back:
  assumes "length xs = nat (r - l + 1)"
  shows "vals (write_back a l xs) l r = xs"
proof (rule nth_equalityI)
  show "length (vals (write_back a l xs) l r) = length xs" by (simp add: length_vals assms)
  fix n assume "n < length (vals (write_back a l xs) l r)"
  then have n: "int n < r - l + 1" by (simp add: length_vals)
  then have "vals (write_back a l xs) l r ! n = write_back a l xs (l + int n)"
    using nth_vals[of l "l + int n" r "write_back a l xs"] by simp
  with n assms show "vals (write_back a l xs) l r ! n = xs ! n" by (simp add: write_back_apply)
qed

lemma seg_vals: "seg a l r = mset (vals a l r)"
proof -
  have "mset [l..r] = mset_set {l..r}" by (metis distinct_upto mset_set_set set_upto)
  then show ?thesis by (simp add: seg_def vals_def)
qed

lemma sorted_on_vals: "sorted_on l r a \<longleftrightarrow> sorted (vals a l r)"
proof
  assume s: "sorted_on l r a"
  show "sorted (vals a l r)"
    unfolding sorted_iff_nth_mono
  proof (intro allI impI)
    fix i j assume ij: "i \<le> j" "j < length (vals a l r)"
    then have "int j < r - l + 1" by (simp add: length_vals)
    with ij(1) s nth_vals[of l "l + int i" r a] nth_vals[of l "l + int j" r a]
    show "vals a l r ! i \<le> vals a l r ! j" by (auto simp: sorted_on_def)
  qed
next
  assume s: "sorted (vals a l r)"
  show "sorted_on l r a"
    unfolding sorted_on_def
  proof (intro allI impI)
    fix i j assume ij: "l \<le> i \<and> i \<le> j \<and> j \<le> r"
    then have "vals a l r ! nat (i - l) \<le> vals a l r ! nat (j - l)"
      by (intro sorted_nth_mono[OF s]) (auto simp: length_vals)
    with ij show "a i \<le> a j" by (simp add: nth_vals)
  qed
qed

lemma merge_halves_eq:
  assumes "l \<le> r"
  shows "merge_halves a l r = write_back a l (merge_lists (vals a l ((l + r) div 2)) (vals a ((l + r) div 2 + 1) r))"
proof -
  let ?m = "(l + r) div 2"
  obtain j srt where m: "merge_left a l ?m (?m + 1) r [] = (j, srt)" by fastforce
  have "vals a (max l (?m + 1)) ?m = []" by (subst vals_rec) simp
  then show ?thesis
    using merge_left_spec[of a l ?m "?m + 1" r "[]"] m by (simp add: merge_halves_def Let_def copy_rest_spec)
qed

lemma merge_halves_spec:
  assumes "l \<le> r" "sorted_on l ((l + r) div 2) a" "sorted_on ((l + r) div 2 + 1) r a"
  shows "perm_on l r a (merge_halves a l r)" "sorted_on l r (merge_halves a l r)"
proof -
  let ?m = "(l + r) div 2"
  let ?x = "merge_lists (vals a l ?m) (vals a (?m + 1) r)"
  have m: "l \<le> ?m + 1" "?m \<le> r" using assms(1) by auto
  have ms: "mset ?x = mset (vals a l r)" by (simp add: mset_merge_lists vals_split[OF m])
  have len: "length ?x = nat (r - l + 1)" using arg_cong[OF ms, of size] by (simp add: length_vals)
  have v: "vals (merge_halves a l r) l r = ?x" by (simp add: merge_halves_eq[OF assms(1)] vals_write_back[OF len])
  then show "sorted_on l r (merge_halves a l r)"
    using assms(2,3) by (simp add: sorted_on_vals sorted_merge_lists)
  show "perm_on l r a (merge_halves a l r)"
    using v ms len by (auto simp: perm_on_def seg_vals merge_halves_eq[OF assms(1)] write_back_apply)
qed

section \<open>The sorts\<close>

definition sorts :: "int \<Rightarrow> int \<Rightarrow> arr \<Rightarrow> arr \<Rightarrow> bool" where
  "sorts l r a b \<longleftrightarrow> perm_on l r a b \<and> sorted_on l r b"

lemma sorts_unique:
  assumes "sorts l r a b" "sorts l r a c"
  shows "b = c"
proof
  fix k
  have "mset (vals b l r) = mset (vals c l r)" "sorted (vals b l r)" "sorted (vals c l r)"
    using assms by (auto simp: sorts_def perm_on_def seg_vals sorted_on_vals)
  then have "vals b l r = vals c l r" by (metis properties_for_sort)
  then show "b k = c k"
    using assms nth_vals[of l k r b] nth_vals[of l k r c] by (cases "l \<le> k \<and> k \<le> r") (auto simp: sorts_def perm_on_def)
qed

lemma sorted_on_frame: "perm_on l m a b \<Longrightarrow> r' < l \<or> m < l' \<Longrightarrow> sorted_on l' r' a \<Longrightarrow> sorted_on l' r' b"
  by (auto simp: sorted_on_def perm_on_def)

text \<open>Two sorted halves, in whichever order they were sorted, merge to a sorted whole.\<close>

lemma halves_then_merge:
  assumes "l \<le> r" "m = (l + r) div 2"
    and "sorts l m a b \<and> sorts (m + 1) r b c \<or> sorts (m + 1) r a b \<and> sorts l m b c"
  shows "sorts l r a (merge_halves c l r)"
proof -
  have m: "l \<le> m + 1" "m \<le> r" using assms(1,2) by auto
  have "perm_on l r a b" "perm_on l r b c"
    using assms(3) m by (auto simp: sorts_def intro: perm_on_mono)
  moreover have "sorted_on l m c" "sorted_on (m + 1) r c"
    using assms(3) sorted_on_frame[of "m + 1" r b c m l] sorted_on_frame[of l m b c r "m + 1"] by (auto simp: sorts_def)
  ultimately show ?thesis
    using merge_halves_spec[OF assms(1), of c] assms(2) by (auto simp: sorts_def intro: perm_on_trans)
qed

lemma normal_mergesort_sorts: "sorts l r a (normal_mergesort a l r)"
proof (induction a l r rule: normal_mergesort.induct)
  case (1 a l r)
  let ?m = "(l + r) div 2"
  show ?case
  proof (cases "l > r \<or> r - l + 1 \<le> 5")
    case True
    then show ?thesis using ins_outer_spec[of l r a]
      by (cases "l > r") (auto simp: normal_mergesort.simps[of a l r] sorts_def sorted_on_def)
  next
    case False
    then have s: "\<not> l > r" "\<not> r - l + 1 \<le> 5" by auto
    have "normal_mergesort a l r = merge_halves (normal_mergesort (normal_mergesort a l ?m) (?m + 1) r) l r"
      using s by (subst normal_mergesort.simps) simp
    with halves_then_merge[of l r ?m a "normal_mergesort a l ?m" "normal_mergesort (normal_mergesort a l ?m) (?m + 1) r"]
      1(1)[OF s] 1(2)[OF s] s show ?thesis by simp
  qed
qed

lemma threaded_mergesort_sorts: "sorts l r a (threaded_mergesort first a l r)"
proof (induction first a l r rule: threaded_mergesort.induct)
  case (1 first a l r)
  let ?m = "(l + r) div 2" and ?t = "threaded_mergesort first"
  show ?case
  proof (cases "l > r \<or> r - l + 1 \<le> 5")
    case True
    then show ?thesis using ins_outer_spec[of l r a]
      by (cases "l > r") (auto simp: threaded_mergesort.simps[of first a l r] sorts_def sorted_on_def)
  next
    case False
    then have s: "\<not> l > r" "\<not> r - l + 1 \<le> 5" by auto
    have eq: "?t a l r = merge_halves (if first l r then ?t (?t a l ?m) (?m + 1) r else ?t (?t a (?m + 1) r) l ?m) l r"
      using s by (subst threaded_mergesort.simps) (simp add: Let_def)
    show ?thesis
    proof (cases "first l r")
      case True
      with halves_then_merge[of l r ?m a "?t a l ?m" "?t (?t a l ?m) (?m + 1) r"] 1(1,2)[OF s refl True] s show ?thesis by (simp add: eq)
    next
      case f: False
      with halves_then_merge[of l r ?m a "?t a (?m + 1) r" "?t (?t a (?m + 1) r) l ?m"] 1(3,4)[OF s refl f] s show ?thesis by (simp add: eq)
    qed
  qed
qed

lemma mergesort_eq_threaded: "memory_of (mergesort first a l r) = threaded_mergesort first a l r"
proof (induction first a l r rule: mergesort.induct)
  case (1 first a l r)
  show ?case
  proof (cases "l > r \<or> r - l + 1 \<le> 5")
    case True
    then show ?thesis
      by (cases "l > r") (auto simp: threaded_mergesort.simps[of first a l r] mergesort.simps[of first a l r] memory_of_def)
  next
    case False
    then have s: "\<not> l > r" "\<not> r - l + 1 \<le> 5" by auto
    show ?thesis
      using 1(1,2)[OF s refl] 1(3,4)[OF s refl] s
      by (subst mergesort.simps, subst threaded_mergesort.simps) (simp add: Let_def memory_of_def[of "Returned _"])
  qed
qed

text \<open>
  C23: all three merge sorts sort: the range holds its values in ascending order, no other cell changes, and
  the parallel versions leave the same array as the sequential one whatever the order of the halves.
\<close>

theorem mergesorts_sort:
  "perm_on l r a (normal_mergesort a l r) \<and> sorted_on l r (normal_mergesort a l r) \<and>
   threaded_mergesort first a l r = normal_mergesort a l r \<and>
   memory_of (mergesort first a l r) = normal_mergesort a l r"
proof -
  have "threaded_mergesort first a l r = normal_mergesort a l r"
    by (rule sorts_unique[OF threaded_mergesort_sorts normal_mergesort_sorts])
  with normal_mergesort_sorts[of l r a] show ?thesis by (simp add: sorts_def mergesort_eq_threaded)
qed

end
