(* ===== verification/Cab.thy ===== *)
theory Cab
  imports Prelude
begin

text \<open>
  The cab service of \<open>A4/q3\<close>: cabs shared by rider threads under the mutex \<open>checkCab\<close>, and payments handed
  to server threads under \<open>checkPayment\<close> and a semaphore. Each critical section is one step; what a thread
  does between two critical sections is its phase. Printing and sleeping have no effect on the state. The
  cab type of a rider is drawn by \<open>rand()\<close>, so it is part of the initial state.
\<close>

section \<open>State\<close>

datatype cabStates = waitState | onRidePoolOne | onRidePoolFull | onRidePremier

record cab =
  cstate :: cabStates
  rider1 :: int
  rider2 :: int

text \<open>
  Where a rider thread stands: not arrived, about to book, in \<open>pthread_cond_timedwait\<close>, signalled but without the
  mutex yet, on a ride in a cab, after the ride (before and after \<open>sem_post\<close>), queued for payment, gone
  without a ride, gone after paying.
\<close>

datatype rphase = Arriving | Booking | Waiting | Woken | Riding nat | LeftCab | Posted | Queued | TimedOut | Gone

text \<open>A server: at the loop test, in \<open>sem_wait\<close>, after it, after the second test, taking the payment of a
  rider, closed.\<close>

datatype sphase = AtTop | AtSem | HasToken | Checked | Serving nat | Closed

record cabsys =
  taxis :: "cab list"
  cabType :: "int list"
  isWaiting :: "int list"
  phase :: "rphase list"
  totalCabsOpen :: int
  serversOpen :: nat
  ridersPaying :: "nat option list"
  ridersPayingCount :: int
  ridersLeftToExit :: int
  servers :: "sphase list"

definition POOL_CAB :: int where "POOL_CAB = 0"
definition PREMIER_CAB :: int where "PREMIER_CAB = 1"

section \<open>Cabs\<close>

text \<open>\<open>cab->state++\<close> in \<open>acceptRide\<close> relies on the order of the enumeration; from \<open>onRidePremier\<close> it leaves it.\<close>

definition acceptRide :: "cab \<Rightarrow> int \<Rightarrow> cab result" where
  "acceptRide c rideType =
    (if rideType = POOL_CAB then
       (case cstate c of
          onRidePoolFull \<Rightarrow> Inl (AssertFail ''cab->state != onRidePoolFull'')
        | waitState \<Rightarrow> Inr (c\<lparr>cstate := onRidePoolOne\<rparr>)
        | onRidePoolOne \<Rightarrow> Inr (c\<lparr>cstate := onRidePoolFull\<rparr>)
        | onRidePremier \<Rightarrow> Inl (Fault ''cab->state++''))
     else if cstate c \<noteq> waitState then Inl (AssertFail ''cab->state == waitState'')
     else Inr (c\<lparr>cstate := onRidePremier\<rparr>))"

definition usefulCab :: "int \<Rightarrow> cabStates \<Rightarrow> bool result" where
  "usefulCab reqCab st =
    (if reqCab = -1 then Inr False
     else if reqCab = POOL_CAB then Inr (st = waitState \<or> st = onRidePoolOne)
     else if reqCab = PREMIER_CAB then Inr (st = waitState)
     else Inl (AssertFail ''0''))"

text \<open>The loop of \<open>endRide\<close> that looks for a waiting rider; it comes back to the rider after at most
  \<open>ridersCount\<close> steps.\<close>

fun next_useful :: "nat \<Rightarrow> nat \<Rightarrow> nat \<Rightarrow> cabStates \<Rightarrow> int list \<Rightarrow> nat result" where
  "next_useful 0 j r st w = Inl (Diverges ''endRide'')"
| "next_useful (Suc n) j r st w =
    (if j = r then Inr j
     else bind_r (usefulCab (w ! j) st) (\<lambda>b. if b then Inr j else next_useful n ((j + 1) mod length w) r st w))"

definition free_seat :: "cab \<Rightarrow> nat \<Rightarrow> cab" where
  "free_seat c r =
    (if cstate c = onRidePremier \<or> cstate c = onRidePoolOne
     then c\<lparr>cstate := waitState, rider1 := -1, rider2 := -1\<rparr>
     else if cstate c = onRidePoolFull then
       (if rider1 c = int r then c\<lparr>cstate := onRidePoolOne, rider1 := rider2 c, rider2 := -1\<rparr>
        else c\<lparr>cstate := onRidePoolOne, rider2 := -1\<rparr>)
     else c)"

text \<open>\<open>pthread_cond_signal\<close> releases the rider when it is waiting on its condition, else it is lost.\<close>

definition signal :: "nat \<Rightarrow> cabsys \<Rightarrow> cabsys" where
  "signal j s = (if phase s ! j = Waiting then s\<lparr>phase := (phase s)[j := Woken]\<rparr> else s)"

definition endRide :: "nat \<Rightarrow> nat \<Rightarrow> cabsys \<Rightarrow> cabsys result" where
  "endRide c r s =
    (if cstate (taxis s ! c) = waitState then Inl (AssertFail ''cab->state != waitState'')
     else
       let s1 = s\<lparr>totalCabsOpen := totalCabsOpen s + 1, taxis := (taxis s)[c := free_seat (taxis s ! c) r]\<rparr>;
           n = length (isWaiting s)
       in bind_r (next_useful (Suc n) ((r + 1) mod n) r (cstate (taxis s1 ! c)) (isWaiting s1)) (\<lambda>j.
            Inr (if j = r then s1 else signal j s1)))"

section \<open>Riders\<close>

definition findCab :: "nat \<Rightarrow> cabsys \<Rightarrow> (nat \<times> cabsys) result" where
  "findCab r s =
    (if cabType s ! r = POOL_CAB then
       (case find_idx (\<lambda>c. cstate c = onRidePoolOne) (taxis s) of
          Some i \<Rightarrow> Inr (i, s\<lparr>taxis := (taxis s)[i := (taxis s ! i)\<lparr>cstate := onRidePoolFull, rider2 := int r\<rparr>]\<rparr>)
        | None \<Rightarrow>
            (case find_idx (\<lambda>c. cstate c = waitState) (taxis s) of
               Some i \<Rightarrow> Inr (i, s\<lparr>taxis := (taxis s)[i := (taxis s ! i)\<lparr>cstate := onRidePoolOne, rider1 := int r\<rparr>]\<rparr>)
             | None \<Rightarrow> Inl (AssertFail ''0'')))
     else
       (case find_idx (\<lambda>c. cstate c = waitState) (taxis s) of
          Some i \<Rightarrow> Inr (i, s\<lparr>taxis := (taxis s)[i := (taxis s ! i)\<lparr>rider1 := int r, cstate := onRidePremier\<rparr>]\<rparr>)
        | None \<Rightarrow> Inl (AssertFail ''0'')))"

text \<open>\<open>bookCab\<close> up to the release of the mutex: the rider rides, or waits for a signal.\<close>

definition bookCab :: "nat \<Rightarrow> cabsys \<Rightarrow> cabsys result" where
  "bookCab r s =
    (if totalCabsOpen s > 0 then
       bind_r (findCab r s) (\<lambda>(c, s1).
         Inr (s1\<lparr>totalCabsOpen := totalCabsOpen s1 - 1, phase := (phase s1)[r := Riding c]\<rparr>))
     else Inr (s\<lparr>isWaiting := (isWaiting s)[r := cabType s ! r], phase := (phase s)[r := Waiting]\<rparr>))"

text \<open>\<open>bookCab\<close> after \<open>pthread_cond_timedwait\<close>: a signalled rider books again, one that timed out leaves.\<close>

definition wakeRider :: "nat \<Rightarrow> bool \<Rightarrow> cabsys \<Rightarrow> cabsys" where
  "wakeRider r signalled s =
    s\<lparr>isWaiting := (isWaiting s)[r := -1], phase := (phase s)[r := if signalled then Booking else TimedOut]\<rparr>"

definition postPayment :: "nat \<Rightarrow> cabsys \<Rightarrow> cabsys" where
  "postPayment r s = s\<lparr>serversOpen := serversOpen s + 1, phase := (phase s)[r := Posted]\<rparr>"

definition queuePayment :: "nat \<Rightarrow> cabsys \<Rightarrow> cabsys result" where
  "queuePayment r s =
    (if \<not> (0 \<le> ridersPayingCount s \<and> nat (ridersPayingCount s) < length (ridersPaying s)) then Inl (Fault ''ridersPaying'')
     else Inr (s\<lparr>ridersPaying := (ridersPaying s)[nat (ridersPayingCount s) := Some r],
                ridersPayingCount := ridersPayingCount s + 1, phase := (phase s)[r := Queued]\<rparr>))"

section \<open>Servers\<close>

definition serverTop :: "nat \<Rightarrow> cabsys \<Rightarrow> cabsys" where
  "serverTop v s = s\<lparr>servers := (servers s)[v := if ridersLeftToExit s \<noteq> 0 then AtSem else Closed]\<rparr>"

text \<open>\<open>sem_wait\<close>: the server blocks while the semaphore is zero.\<close>

definition serverWait :: "nat \<Rightarrow> cabsys \<Rightarrow> cabsys option" where
  "serverWait v s =
    (if serversOpen s = 0 then None
     else Some (s\<lparr>serversOpen := serversOpen s - 1, servers := (servers s)[v := HasToken]\<rparr>))"

definition serverCheck :: "nat \<Rightarrow> cabsys \<Rightarrow> cabsys" where
  "serverCheck v s = s\<lparr>servers := (servers s)[v := if ridersLeftToExit s \<noteq> 0 then Checked else Closed]\<rparr>"

definition serverTake :: "nat \<Rightarrow> cabsys \<Rightarrow> cabsys result" where
  "serverTake v s =
    (if ridersPaying s = [] then Inl (Fault ''ridersPaying[0]'')
     else if ridersPaying s ! 0 = None then Inr (s\<lparr>servers := (servers s)[v := Closed]\<rparr>)
     else
       let k = ridersPayingCount s - 1 in
       if k < 0 \<or> length (ridersPaying s) \<le> nat k then Inl (Fault ''ridersPaying[ridersPayingCount - 1]'')
       else (case ridersPaying s ! nat k of
               None \<Rightarrow> Inl (Fault ''r->id'')
             | Some r \<Rightarrow> Inr (s\<lparr>ridersPaying := (ridersPaying s)[nat k := None], ridersPayingCount := k,
                               servers := (servers s)[v := Serving r]\<rparr>)))"

definition madePayment :: "nat \<Rightarrow> nat \<Rightarrow> cabsys \<Rightarrow> cabsys" where
  "madePayment v r s = s\<lparr>ridersLeftToExit := ridersLeftToExit s - 1, phase := (phase s)[r := Gone],
     servers := (servers s)[v := AtTop]\<rparr>"

section \<open>The system\<close>

definition init :: "nat \<Rightarrow> int list \<Rightarrow> nat \<Rightarrow> cabsys" where
  "init cabsCount types serversCount =
    \<lparr>taxis = replicate cabsCount \<lparr>cstate = waitState, rider1 = -1, rider2 = -1\<rparr>, cabType = types,
     isWaiting = map (\<lambda>_. -1) types, phase = map (\<lambda>_. Arriving) types, totalCabsOpen = int cabsCount, serversOpen = 0,
     ridersPaying = map (\<lambda>_. None) types, ridersPayingCount = 0, ridersLeftToExit = int (length types),
     servers = replicate serversCount AtTop\<rparr>"

text \<open>
  One step of some thread; a waiting rider may also wake up without a signal, as POSIX allows. The main
  thread posts the semaphore again when it has joined every rider thread.
\<close>

inductive step :: "cabsys \<Rightarrow> cabsys result \<Rightarrow> bool" where
  arrive: "r < length (phase s) \<Longrightarrow> phase s ! r = Arriving \<Longrightarrow> step s (Inr (s\<lparr>phase := (phase s)[r := Booking]\<rparr>))"
| book: "r < length (phase s) \<Longrightarrow> phase s ! r = Booking \<Longrightarrow> step s (bookCab r s)"
| spurious: "r < length (phase s) \<Longrightarrow> phase s ! r = Waiting \<Longrightarrow> step s (Inr (wakeRider r True s))"
| signalled: "r < length (phase s) \<Longrightarrow> phase s ! r = Woken \<Longrightarrow> step s (Inr (wakeRider r True s))"
| timeout: "r < length (phase s) \<Longrightarrow> phase s ! r = Waiting \<Longrightarrow> step s (Inr (wakeRider r False s))"
| end_ride: "r < length (phase s) \<Longrightarrow> phase s ! r = Riding c \<Longrightarrow>
     step s (bind_r (endRide c r s) (\<lambda>s1. Inr (s1\<lparr>phase := (phase s1)[r := LeftCab]\<rparr>)))"
| post: "r < length (phase s) \<Longrightarrow> phase s ! r = LeftCab \<Longrightarrow> step s (Inr (postPayment r s))"
| queue: "r < length (phase s) \<Longrightarrow> phase s ! r = Posted \<Longrightarrow> step s (queuePayment r s)"
| top: "v < length (servers s) \<Longrightarrow> servers s ! v = AtTop \<Longrightarrow> step s (Inr (serverTop v s))"
| sem: "v < length (servers s) \<Longrightarrow> servers s ! v = AtSem \<Longrightarrow> serverWait v s = Some t \<Longrightarrow> step s (Inr t)"
| check: "v < length (servers s) \<Longrightarrow> servers s ! v = HasToken \<Longrightarrow> step s (Inr (serverCheck v s))"
| take_pay: "v < length (servers s) \<Longrightarrow> servers s ! v = Checked \<Longrightarrow> step s (serverTake v s)"
| paid: "v < length (servers s) \<Longrightarrow> servers s ! v = Serving r \<Longrightarrow> step s (Inr (madePayment v r s))"
| release: "set (phase s) \<subseteq> {TimedOut, Queued, Gone} \<Longrightarrow> step s (Inr (s\<lparr>serversOpen := serversOpen s + 1\<rparr>))"

inductive reach :: "cabsys \<Rightarrow> cabsys \<Rightarrow> bool" for s0 where
  start: "reach s0 s0"
| go: "reach s0 s \<Longrightarrow> step s (Inr t) \<Longrightarrow> reach s0 t"

section \<open>The invariant\<close>

definition riding :: "cabsys \<Rightarrow> nat \<Rightarrow> nat set" where
  "riding s c = {r. r < length (phase s) \<and> phase s ! r = Riding c}"

text \<open>The state of a cab tells who is in it.\<close>

definition cab_ok :: "cabsys \<Rightarrow> nat \<Rightarrow> bool" where
  "cab_ok s c \<longleftrightarrow>
    (case cstate (taxis s ! c) of
       waitState \<Rightarrow> riding s c = {} \<and> rider1 (taxis s ! c) = -1 \<and> rider2 (taxis s ! c) = -1
     | onRidePoolOne \<Rightarrow> \<exists>r. riding s c = {r} \<and> rider1 (taxis s ! c) = int r \<and> rider2 (taxis s ! c) = -1 \<and>
         cabType s ! r = POOL_CAB
     | onRidePoolFull \<Rightarrow> \<exists>r q. r \<noteq> q \<and> riding s c = {r, q} \<and> rider1 (taxis s ! c) = int r \<and>
         rider2 (taxis s ! c) = int q \<and> cabType s ! r = POOL_CAB \<and> cabType s ! q = POOL_CAB
     | onRidePremier \<Rightarrow> \<exists>r. riding s c = {r} \<and> rider1 (taxis s ! c) = int r \<and> rider2 (taxis s ! c) = -1 \<and>
         cabType s ! r \<noteq> POOL_CAB)"

lemma cab_ok_cong:
  "taxis t ! c = taxis s ! c \<Longrightarrow> cabType t = cabType s \<Longrightarrow> riding t c = riding s c \<Longrightarrow> cab_ok t c = cab_ok s c"
  by (simp only: cab_ok_def)

definition on_ride :: "cabsys \<Rightarrow> nat set" where
  "on_ride s = {r. r < length (phase s) \<and> (\<exists>c. phase s ! r = Riding c)}"

definition pay_ok :: "cabsys \<Rightarrow> bool" where
  "pay_ok s \<longleftrightarrow> (\<exists>qs. ridersPaying s = map Some qs @ replicate (length (phase s) - length qs) None \<and>
     ridersPayingCount s = int (length qs) \<and> distinct qs \<and>
     (\<forall>r \<in> set qs. r < length (phase s) \<and> phase s ! r = Queued))"

definition cab_inv :: "cabsys \<Rightarrow> bool" where
  "cab_inv s \<longleftrightarrow>
     length (cabType s) = length (phase s) \<and> length (isWaiting s) = length (phase s) \<and>
     set (cabType s) \<subseteq> {0, 1} \<and> set (isWaiting s) \<subseteq> {-1, 0, 1} \<and>
     (\<forall>c < length (taxis s). cab_ok s c) \<and>
     (\<forall>r < length (phase s). \<forall>c. phase s ! r = Riding c \<longrightarrow> c < length (taxis s)) \<and>
     totalCabsOpen s = int (length (taxis s)) - int (card (on_ride s)) \<and> pay_ok s"

lemma finite_riding [simp]: "finite (riding s c)"
  by (simp add: riding_def)

lemma finite_on_ride [simp]: "finite (on_ride s)"
  by (simp add: on_ride_def)

definition quiet :: "rphase \<Rightarrow> bool" where
  "quiet x \<longleftrightarrow> x \<noteq> Queued \<and> (\<forall>c. x \<noteq> Riding c)"

lemma pay_ok_move:
  assumes "pay_ok s" "phase s ! r \<noteq> Queued" "phase t = (phase s)[r := x]"
    "ridersPaying t = ridersPaying s" "ridersPayingCount t = ridersPayingCount s"
  shows "pay_ok t"
proof -
  obtain qs where qs: "ridersPaying s = map Some qs @ replicate (length (phase s) - length qs) None"
    "ridersPayingCount s = int (length qs)" "distinct qs" "\<forall>k \<in> set qs. k < length (phase s) \<and> phase s ! k = Queued"
    using assms(1) by (auto simp: pay_ok_def)
  have "r \<notin> set qs" using qs(4) assms(2) by auto
  then have "\<forall>k \<in> set qs. k < length (phase t) \<and> phase t ! k = Queued"
    using qs(4) by (metis assms(3) length_list_update nth_list_update_neq)
  then show ?thesis
    using qs unfolding pay_ok_def by (intro exI[of _ qs]) (simp add: assms(3-5))
qed

text \<open>A step that moves a rider between phases that are neither riding nor queued.\<close>

lemma cab_inv_quiet:
  assumes "cab_inv s" "r < length (phase s)" "quiet (phase s ! r)" "quiet x" "phase t = (phase s)[r := x]"
    and "taxis t = taxis s" "cabType t = cabType s" "totalCabsOpen t = totalCabsOpen s"
    and "ridersPaying t = ridersPaying s" "ridersPayingCount t = ridersPayingCount s"
    and "length (isWaiting t) = length (isWaiting s)" "set (isWaiting t) \<subseteq> {-1, 0, 1}"
  shows "cab_inv t"
proof -
  have rd: "riding t c = riding s c" for c
    using assms(2-5) by (auto simp: riding_def quiet_def nth_list_update)
  have "pay_ok t"
    using assms(1,3) by (intro pay_ok_move[of s r t x]) (simp_all add: cab_inv_def quiet_def assms(5,9,10))
  moreover have "cab_ok t c = cab_ok s c" for c by (rule cab_ok_cong) (simp_all add: rd assms(6,7))
  moreover have "\<forall>k < length (phase t). \<forall>c. phase t ! k = Riding c \<longrightarrow> c < length (taxis t)"
    using assms(1,2,4,5,6) by (auto simp: cab_inv_def quiet_def nth_list_update)
  moreover have "on_ride t = on_ride s"
    using assms(2-5) by (auto simp: on_ride_def quiet_def nth_list_update)
  ultimately show ?thesis using assms by (simp add: cab_inv_def)
qed

text \<open>A step that does not touch the riders.\<close>

lemma cab_inv_servers:
  assumes "cab_inv s" "phase t = phase s" "taxis t = taxis s" "cabType t = cabType s" "totalCabsOpen t = totalCabsOpen s"
    and "ridersPaying t = ridersPaying s" "ridersPayingCount t = ridersPayingCount s" "isWaiting t = isWaiting s"
  shows "cab_inv t"
proof -
  have rd: "riding t c = riding s c" for c by (simp add: riding_def assms)
  moreover have "cab_ok t c = cab_ok s c" for c by (rule cab_ok_cong) (simp_all add: rd assms(3,4))
  ultimately show ?thesis using assms by (simp add: cab_inv_def on_ride_def pay_ok_def)
qed

text \<open>While fewer riders ride than there are cabs, some cab is idle.\<close>

lemma idle_cab:
  assumes inv: "cab_inv s" and "totalCabsOpen s > 0"
  shows "\<exists>c < length (taxis s). cstate (taxis s ! c) = waitState"
proof (rule ccontr)
  assume no: "\<not> ?thesis"
  have busy: "riding s c \<noteq> {}" if "c < length (taxis s)" for c
  proof -
    have "cab_ok s c" using inv that by (simp add: cab_inv_def)
    moreover have "cstate (taxis s ! c) \<noteq> waitState" using no that by blast
    ultimately show ?thesis by (auto simp: cab_ok_def split: cabStates.splits)
  qed
  define f where "f r = (case phase s ! r of Riding c \<Rightarrow> c | _ \<Rightarrow> 0)" for r
  have "{..<length (taxis s)} \<subseteq> f ` on_ride s"
  proof
    fix c assume "c \<in> {..<length (taxis s)}"
    with busy obtain r where "r \<in> riding s c" "c < length (taxis s)" by blast
    then have "r \<in> on_ride s" "f r = c" by (auto simp: on_ride_def riding_def f_def)
    then show "c \<in> f ` on_ride s" by blast
  qed
  then have "card {..<length (taxis s)} \<le> card (f ` on_ride s)" by (intro card_mono) simp_all
  also have "\<dots> \<le> card (on_ride s)" by (rule card_image_le) simp
  finally have "length (taxis s) \<le> card (on_ride s)" by simp
  with assms show False by (simp add: cab_inv_def)
qed

section \<open>Taking and leaving a seat\<close>

lemma cab_inv_enter:
  assumes inv: "cab_inv s" and c: "c < length (taxis s)" and r: "r < length (phase s)" "quiet (phase s ! r)"
    and t: "t = s\<lparr>taxis := (taxis s)[c := C], totalCabsOpen := totalCabsOpen s - 1, phase := (phase s)[r := Riding c]\<rparr>"
    and ok: "riding t c = insert r (riding s c) \<Longrightarrow> r \<notin> riding s c \<Longrightarrow> cab_ok t c"
  shows "cab_inv t"
proof -
  have rc: "riding t c = insert r (riding s c)" "r \<notin> riding s d" for d
    using r by (auto simp: riding_def t quiet_def nth_list_update)
  have rd: "riding t d = riding s d" if "d \<noteq> c" for d
    using that r by (auto simp: riding_def t quiet_def nth_list_update)
  have "r \<notin> on_ride s" using r(2) by (simp add: on_ride_def quiet_def)
  moreover have "on_ride t = insert r (on_ride s)"
    using r by (auto simp: on_ride_def t quiet_def nth_list_update)
  ultimately have card: "card (on_ride t) = card (on_ride s) + 1" by simp
  have "cab_ok t d" if "d < length (taxis s)" for d
  proof (cases "d = c")
    case False
    have "cab_ok t d = cab_ok s d" using False rd[OF False] by (intro cab_ok_cong) (simp_all add: t)
    with inv that show ?thesis by (simp add: cab_inv_def)
  qed (use ok rc in simp)
  moreover have "pay_ok t"
    using inv r(2) by (intro pay_ok_move[of s r t]) (simp_all add: cab_inv_def quiet_def t)
  moreover have "\<forall>k < length (phase t). \<forall>d. phase t ! k = Riding d \<longrightarrow> d < length (taxis t)"
    using inv c r(1) by (auto simp: cab_inv_def t nth_list_update split: if_splits)
  moreover have "totalCabsOpen t = int (length (taxis t)) - int (card (on_ride t))"
    using inv card by (simp add: cab_inv_def t)
  ultimately show ?thesis using inv by (simp add: cab_inv_def t)
qed

lemma cab_inv_leave:
  assumes inv: "cab_inv s" and r: "r < length (phase s)" "phase s ! r = Riding c"
    and t: "t = s\<lparr>taxis := (taxis s)[c := C], totalCabsOpen := totalCabsOpen s + 1, phase := (phase s)[r := LeftCab]\<rparr>"
    and ok: "riding t c = riding s c - {r} \<Longrightarrow> r \<in> riding s c \<Longrightarrow> cab_ok t c"
  shows "cab_inv t"
proof -
  have c: "c < length (taxis s)" using inv r by (auto simp: cab_inv_def)
  have rc: "riding t c = riding s c - {r}" "r \<in> riding s c"
    using r by (auto simp: riding_def t nth_list_update)
  have rd: "riding t d = riding s d" if "d \<noteq> c" for d
    using that r by (auto simp: riding_def t nth_list_update)
  have "r \<in> on_ride s" using r by (auto simp: on_ride_def)
  moreover have "on_ride t = on_ride s - {r}"
    using r by (auto simp: on_ride_def t nth_list_update)
  ultimately have "card (on_ride t) + 1 = card (on_ride s)"
    using card_Suc_Diff1[of "on_ride s" r] by simp
  then have card: "int (card (on_ride t)) = int (card (on_ride s)) - 1" by simp
  have "cab_ok t d" if "d < length (taxis s)" for d
  proof (cases "d = c")
    case False
    have "cab_ok t d = cab_ok s d" using False rd[OF False] by (intro cab_ok_cong) (simp_all add: t)
    with inv that show ?thesis by (simp add: cab_inv_def)
  qed (use ok rc in simp)
  moreover have "pay_ok t"
    using inv r(2) by (intro pay_ok_move[of s r t]) (simp_all add: cab_inv_def t)
  moreover have "\<forall>k < length (phase t). \<forall>d. phase t ! k = Riding d \<longrightarrow> d < length (taxis t)"
    using inv c r(1) by (auto simp: cab_inv_def t nth_list_update split: if_splits)
  moreover have "totalCabsOpen t = int (length (taxis t)) - int (card (on_ride t))"
    using inv card by (simp add: cab_inv_def t)
  ultimately show ?thesis using inv by (simp add: cab_inv_def t)
qed

lemma nth_range: "set xs \<subseteq> S \<Longrightarrow> i < length xs \<Longrightarrow> xs ! i \<in> S"
  using nth_mem by blast

lemma set_update_range: "set xs \<subseteq> S \<Longrightarrow> x \<in> S \<Longrightarrow> set (xs[i := x]) \<subseteq> S"
  using set_update_subset_insert[of xs i x] by auto

text \<open>Booking never hits an assertion.\<close>

lemma bookCab_ok:
  assumes inv: "cab_inv s" and r: "r < length (phase s)" "phase s ! r = Booking"
  shows "\<exists>t. bookCab r s = Inr t \<and> cab_inv t"
proof (cases "totalCabsOpen s > 0")
  case False
  let ?t = "s\<lparr>isWaiting := (isWaiting s)[r := cabType s ! r], phase := (phase s)[r := Waiting]\<rparr>"
  have "cabType s ! r \<in> {0, 1}" using inv r(1) by (intro nth_range) (auto simp: cab_inv_def)
  then have "set ((isWaiting s)[r := cabType s ! r]) \<subseteq> {-1, 0, 1}"
    using inv by (intro set_update_range) (auto simp: cab_inv_def)
  then have "cab_inv ?t" using r by (intro cab_inv_quiet[OF inv r(1)]) (simp_all add: quiet_def)
  with False show ?thesis by (simp add: bookCab_def)
next
  case True
  have q: "quiet (phase s ! r)" by (simp add: r quiet_def)
  have okc: "cab_ok s c" if "c < length (taxis s)" for c using inv that by (simp add: cab_inv_def)
  have "find_idx (\<lambda>c. cstate c = waitState) (taxis s) \<noteq> None"
    using idle_cab[OF inv True] by (auto simp: find_idx_None_nth)
  then obtain i where i: "find_idx (\<lambda>c. cstate c = waitState) (taxis s) = Some i" "i < length (taxis s)" "cstate (taxis s ! i) = waitState"
    by (auto simp: find_idx_Some)
  have wi: "riding s i = {}" "rider2 (taxis s ! i) = -1" using okc[OF i(2)] by (simp_all add: cab_ok_def i(3))
  show ?thesis
  proof (cases "cabType s ! r = POOL_CAB")
    case pool: True
    show ?thesis
    proof (cases "find_idx (\<lambda>c. cstate c = onRidePoolOne) (taxis s)")
      case None
      let ?C = "(taxis s ! i)\<lparr>cstate := onRidePoolOne, rider1 := int r\<rparr>"
      let ?t = "s\<lparr>taxis := (taxis s)[i := ?C], totalCabsOpen := totalCabsOpen s - 1, phase := (phase s)[r := Riding i]\<rparr>"
      have "cab_inv ?t" by (rule cab_inv_enter[OF inv i(2) r(1) q refl]) (auto simp: cab_ok_def i(2) wi pool)
      with True pool None i(1) show ?thesis by (simp add: bookCab_def findCab_def)
    next
      case (Some k)
      then have k: "k < length (taxis s)" "cstate (taxis s ! k) = onRidePoolOne" by (auto simp: find_idx_Some)
      let ?C = "(taxis s ! k)\<lparr>cstate := onRidePoolFull, rider2 := int r\<rparr>"
      let ?t = "s\<lparr>taxis := (taxis s)[k := ?C], totalCabsOpen := totalCabsOpen s - 1, phase := (phase s)[r := Riding k]\<rparr>"
      obtain x where x: "riding s k = {x}" "rider1 (taxis s ! k) = int x" "cabType s ! x = POOL_CAB"
        using okc[OF k(1)] by (auto simp: cab_ok_def k(2))
      have "cab_inv ?t" by (rule cab_inv_enter[OF inv k(1) r(1) q refl]) (auto simp: cab_ok_def k(1) x pool insert_commute)
      with True pool Some show ?thesis by (simp add: bookCab_def findCab_def)
    qed
  next
    case prem: False
    let ?C = "(taxis s ! i)\<lparr>rider1 := int r, cstate := onRidePremier\<rparr>"
    let ?t = "s\<lparr>taxis := (taxis s)[i := ?C], totalCabsOpen := totalCabsOpen s - 1, phase := (phase s)[r := Riding i]\<rparr>"
    have "cab_inv ?t" by (rule cab_inv_enter[OF inv i(2) r(1) q refl]) (auto simp: cab_ok_def i(2) wi prem)
    with True prem i(1) show ?thesis by (simp add: bookCab_def findCab_def)
  qed
qed

lemma next_useful_ok:
  assumes "set w \<subseteq> {-1, 0, 1}" "r < length w" "j < length w" "d < n" "(j + d) mod length w = r"
  shows "\<exists>k < length w. next_useful n j r st w = Inr k"
  using assms(3-5)
proof (induction n arbitrary: j d)
  case (Suc n)
  show ?case
  proof (cases "j = r")
    case True
    with assms(2) show ?thesis by simp
  next
    case False
    then have d: "d \<noteq> 0" using Suc.prems by (cases d) auto
    have "w ! j \<in> {-1, 0, 1}" using assms(1) Suc.prems(1) by (rule nth_range)
    then have "\<exists>b. usefulCab (w ! j) st = Inr b" by (auto simp: usefulCab_def POOL_CAB_def PREMIER_CAB_def)
    then obtain b where b: "usefulCab (w ! j) st = Inr b" by blast
    have "j + 1 + (d - 1) = j + d" using d by simp
    then have "((j + 1) mod length w + (d - 1)) mod length w = r"
      using mod_add_left_eq[of "j + 1" "length w" "d - 1"] Suc.prems(3) by simp
    moreover have "(j + 1) mod length w < length w" by (rule mod_less_divisor) (use assms(2) in linarith)
    ultimately have "\<exists>k < length w. next_useful n ((j + 1) mod length w) r st w = Inr k"
      using Suc.prems(2) d by (intro Suc.IH[of _ "d - 1"]) auto
    with False b Suc.prems(1) show ?thesis by auto
  qed
qed simp

lemma next_useful_from:
  assumes "set w \<subseteq> {-1, 0, 1}" "r < length w"
  shows "\<exists>k < length w. next_useful (Suc (length w)) ((r + 1) mod length w) r st w = Inr k"
proof (rule next_useful_ok[OF assms])
  show "(r + 1) mod length w < length w" by (rule mod_less_divisor) (use assms(2) in linarith)
  have "r + 1 + (length w - 1) = r + length w" using assms(2) by linarith
  then show "((r + 1) mod length w + (length w - 1)) mod length w = r"
    using mod_add_left_eq[of "r + 1" "length w" "length w - 1"] assms(2) by simp
qed simp

lemma cab_inv_signal: "cab_inv s \<Longrightarrow> j < length (phase s) \<Longrightarrow> cab_inv (signal j s)"
  unfolding signal_def
  by (auto intro!: cab_inv_quiet[of s j Woken] simp: quiet_def) (auto simp: cab_inv_def)

lemma free_seat_ok:
  assumes "cab_ok s c" "c < length (taxis s)" "r \<in> riding s c" "riding t c = riding s c - {r}"
    "cabType t = cabType s" "taxis t ! c = free_seat (taxis s ! c) r"
  shows "cab_ok t c"
proof (cases "cstate (taxis s ! c)")
  case onRidePoolFull
  with assms(1,3) obtain x y where xy: "x \<noteq> y" "riding s c = {x, y}" "rider1 (taxis s ! c) = int x"
    "rider2 (taxis s ! c) = int y" "cabType s ! x = POOL_CAB" "cabType s ! y = POOL_CAB" by (auto simp: cab_ok_def)
  have "r = x \<or> r = y" using assms(3) xy(2) by auto
  then show ?thesis using xy onRidePoolFull assms(4-6) by (auto simp: cab_ok_def free_seat_def)
qed (use assms in \<open>auto simp: cab_ok_def free_seat_def\<close>)

lemma endRide_ok:
  assumes inv: "cab_inv s" and r: "r < length (phase s)" "phase s ! r = Riding c"
  shows "\<exists>t. bind_r (endRide c r s) (\<lambda>s1. Inr (s1\<lparr>phase := (phase s1)[r := LeftCab]\<rparr>)) = Inr t \<and> cab_inv t"
proof -
  have c: "c < length (taxis s)" using inv r by (auto simp: cab_inv_def)
  have ok: "cab_ok s c" using inv c by (simp add: cab_inv_def)
  have rc: "r \<in> riding s c" using r by (simp add: riding_def)
  then have nw: "cstate (taxis s ! c) \<noteq> waitState" using ok by (auto simp: cab_ok_def)
  let ?C = "free_seat (taxis s ! c) r"
  let ?s1 = "s\<lparr>totalCabsOpen := totalCabsOpen s + 1, taxis := (taxis s)[c := ?C]\<rparr>"
  define t where "t = s\<lparr>taxis := (taxis s)[c := ?C], totalCabsOpen := totalCabsOpen s + 1, phase := (phase s)[r := LeftCab]\<rparr>"
  have w: "set (isWaiting s) \<subseteq> {-1, 0, 1}" "r < length (isWaiting s)" "length (isWaiting s) = length (phase s)"
    using inv r(1) by (auto simp: cab_inv_def)
  obtain j where j: "j < length (phase s)" "next_useful (Suc (length (isWaiting s))) ((r + 1) mod length (isWaiting s)) r
      (cstate (taxis ?s1 ! c)) (isWaiting s) = Inr j" using next_useful_from[OF w(1,2)] w(3) by metis
  have inv_t: "cab_inv t"
    by (rule cab_inv_leave[OF inv r t_def], rule free_seat_ok[OF ok c]) (simp_all add: t_def c)
  have e: "endRide c r s = Inr (if j = r then ?s1 else signal j ?s1)"
    using nw j(2) by (simp add: endRide_def Let_def del: next_useful.simps)
  show ?thesis
  proof (cases "j = r")
    case True
    then have "bind_r (endRide c r s) (\<lambda>s1. Inr (s1\<lparr>phase := (phase s1)[r := LeftCab]\<rparr>)) = Inr t"
      by (simp add: e t_def)
    with inv_t show ?thesis by blast
  next
    case False
    then have "bind_r (endRide c r s) (\<lambda>s1. Inr (s1\<lparr>phase := (phase s1)[r := LeftCab]\<rparr>)) = Inr (signal j t)"
      by (auto simp: e t_def signal_def list_update_swap)
    with cab_inv_signal[OF inv_t, of j] j(1) show ?thesis by (auto simp: t_def)
  qed
qed

lemma queuePayment_ok:
  assumes inv: "cab_inv s" and r: "r < length (phase s)" "phase s ! r = Posted"
  shows "\<exists>t. queuePayment r s = Inr t \<and> cab_inv t"
proof -
  let ?n = "length (phase s)"
  obtain qs where qs: "ridersPaying s = map Some qs @ replicate (?n - length qs) None" "ridersPayingCount s = int (length qs)"
    "distinct qs" "\<forall>k \<in> set qs. k < ?n \<and> phase s ! k = Queued"
    using inv by (auto simp: cab_inv_def pay_ok_def)
  have rq: "r \<notin> set qs" using qs(4) r by auto
  then have "set (r # qs) \<subseteq> {..<?n}" "distinct (r # qs)" using qs(3,4) r by auto
  then have "length (r # qs) \<le> ?n" using card_mono[of "{..<?n}" "set (r # qs)"] distinct_card[of "r # qs"] by simp
  then have lt: "length qs < ?n" by simp
  let ?t = "s\<lparr>ridersPaying := (ridersPaying s)[length qs := Some r], ridersPayingCount := int (length qs) + 1, phase := (phase s)[r := Queued]\<rparr>"
  obtain k where k: "?n - length qs = Suc k" using lt by (metis Suc_diff_Suc)
  have "(ridersPaying s)[length qs := Some r] = map Some (qs @ [r]) @ replicate (?n - length (qs @ [r])) None"
    using k by (simp add: qs(1) list_update_append)
  then have pay: "pay_ok ?t"
    unfolding pay_ok_def using qs rq r
    by (intro exI[of _ "qs @ [r]"]) (auto simp: nth_list_update)
  have rd: "riding ?t c = riding s c" for c using r by (auto simp: riding_def nth_list_update)
  have "cab_ok ?t c = cab_ok s c" for c by (rule cab_ok_cong) (simp_all add: rd)
  moreover have "on_ride ?t = on_ride s" using r by (auto simp: on_ride_def nth_list_update)
  moreover have "\<forall>k < ?n. \<forall>c. (phase s)[r := Queued] ! k = Riding c \<longrightarrow> c < length (taxis s)"
    using inv r(1) by (auto simp: cab_inv_def nth_list_update split: if_splits)
  ultimately have "cab_inv ?t" using inv pay by (simp add: cab_inv_def)
  moreover have "queuePayment r s = Inr ?t" using lt qs by (simp add: queuePayment_def)
  ultimately show ?thesis by blast
qed

lemma serverTake_ok:
  assumes inv: "cab_inv s" and n: "phase s \<noteq> []"
  shows "\<exists>t. serverTake v s = Inr t \<and> cab_inv t"
proof -
  let ?n = "length (phase s)"
  obtain qs where qs: "ridersPaying s = map Some qs @ replicate (?n - length qs) None" "ridersPayingCount s = int (length qs)"
    "distinct qs" "\<forall>k \<in> set qs. k < ?n \<and> phase s ! k = Queued"
    using inv by (auto simp: cab_inv_def pay_ok_def)
  show ?thesis
  proof (cases qs rule: rev_cases)
    case Nil
    then have "ridersPaying s \<noteq> []" "ridersPaying s ! 0 = None" using qs(1) n by auto
    then have "serverTake v s = Inr (s\<lparr>servers := (servers s)[v := Closed]\<rparr>)" by (simp add: serverTake_def)
    moreover have "cab_inv (s\<lparr>servers := (servers s)[v := Closed]\<rparr>)" by (rule cab_inv_servers[OF inv]) simp_all
    ultimately show ?thesis by blast
  next
    case (snoc ps r)
    let ?k = "length ps"
    let ?t = "s\<lparr>ridersPaying := (ridersPaying s)[?k := None], ridersPayingCount := int ?k, servers := (servers s)[v := Serving r]\<rparr>"
    have ne: "ridersPaying s \<noteq> []" "ridersPaying s ! 0 \<noteq> None" "ridersPaying s ! ?k = Some r" "?k < length (ridersPaying s)"
      using qs(1) snoc by (auto simp: nth_append)
    have "serverTake v s = Inr ?t" using ne qs(2) snoc by (auto simp: serverTake_def Let_def)
    moreover have "cab_inv ?t"
    proof -
      have lt: "length qs \<le> ?n"
        using card_mono[of "{..<?n}" "set qs"] distinct_card[OF qs(3)] qs(4) by auto
      have "(ridersPaying s)[?k := None] = map Some ps @ replicate (?n - length ps) None"
        using qs(1) snoc lt by (simp add: list_update_append Suc_diff_Suc[symmetric] flip: replicate_Suc)
      then have "pay_ok ?t"
        using qs snoc unfolding pay_ok_def by (intro exI[of _ ps]) simp
      moreover have rd: "riding ?t c = riding s c" for c by (simp add: riding_def)
      moreover have "cab_ok ?t c = cab_ok s c" for c by (rule cab_ok_cong) (simp_all add: rd)
      moreover have "on_ride ?t = on_ride s" by (simp add: on_ride_def)
      ultimately show ?thesis using inv by (simp add: cab_inv_def)
    qed
    ultimately show ?thesis by blast
  qed
qed

text \<open>A server only serves a rider that it took from the queue and that has not gone yet.\<close>

definition serve_ok :: "cabsys \<Rightarrow> bool" where
  "serve_ok s \<longleftrightarrow> (\<forall>v < length (servers s). \<forall>r. servers s ! v = Serving r \<longrightarrow>
     r < length (phase s) \<and> phase s ! r = Queued \<and> Some r \<notin> set (ridersPaying s)) \<and>
   (\<forall>v < length (servers s). \<forall>u < length (servers s). \<forall>r. servers s ! v = Serving r \<and> servers s ! u = Serving r \<longrightarrow> u = v)"

lemma serve_ok_riders:
  assumes "serve_ok s" "servers t = servers s" "length (phase t) = length (phase s)"
    and "\<And>q. q < length (phase s) \<Longrightarrow> phase s ! q = Queued \<Longrightarrow>
      phase t ! q = Queued \<and> (Some q \<in> set (ridersPaying t) \<longrightarrow> Some q \<in> set (ridersPaying s))"
  shows "serve_ok t"
  using assms(1) unfolding serve_ok_def assms(2,3) using assms(4) by blast

lemma serve_ok_servers:
  assumes "serve_ok s" "servers t = (servers s)[v := x]" "\<And>r. x \<noteq> Serving r" "phase t = phase s" "ridersPaying t = ridersPaying s"
  shows "serve_ok t"
proof -
  have "servers s ! u = Serving r" if "servers t ! u = Serving r" "u < length (servers t)" for u r
    using that assms(3) by (cases "u = v") (auto simp: assms(2))
  then show ?thesis using assms(1) unfolding serve_ok_def assms(4,5) by (simp add: assms(2))
qed

definition sys_inv :: "cabsys \<Rightarrow> bool" where
  "sys_inv s \<longleftrightarrow> cab_inv s \<and> serve_ok s \<and> phase s \<noteq> []"

lemma sys_inv_init:
  assumes "set types \<subseteq> {0, 1}" "types \<noteq> []"
  shows "sys_inv (init n types m)"
proof -
  have "riding (init n types m) c = {}" "on_ride (init n types m) = {}" for c by (auto simp: riding_def on_ride_def init_def)
  moreover have "pay_ok (init n types m)"
    unfolding pay_ok_def by (rule exI[of _ "[]"]) (simp add: init_def map_replicate_const)
  ultimately show ?thesis
    using assms by (auto simp: sys_inv_def cab_inv_def cab_ok_def serve_ok_def) (auto simp: init_def)
qed

section \<open>Every step keeps the invariant\<close>

inductive_cases stepE: "step s r"

lemma queued_update: "phase s ! r \<noteq> Queued \<Longrightarrow> phase s ! q = Queued \<Longrightarrow> (phase s)[r := x] ! q = Queued"
  by (cases "q = r") auto

lemma serve_ok_move:
  assumes "serve_ok s" "phase s ! r \<noteq> Queued" "phase t = (phase s)[r := x]" "servers t = servers s"
    and "set (ridersPaying t) \<subseteq> insert (Some r) (set (ridersPaying s))"
  shows "serve_ok t"
  using assms(2,5) queued_update[OF assms(2)] by (intro serve_ok_riders[OF assms(1,4)]) (auto simp: assms(3))

lemma bookCab_serve:
  assumes "serve_ok s" "phase s ! r = Booking" "bookCab r s = Inr t"
  shows "serve_ok t"
proof -
  have "\<exists>x. phase t = (phase s)[r := x]" "servers t = servers s" "ridersPaying t = ridersPaying s"
    using assms(3) by (auto simp: bookCab_def findCab_def bind_r_eq_Inr split: if_splits option.splits)
  with assms(1,2) show ?thesis by (auto intro: serve_ok_move[of s r])
qed

lemma endRide_serve:
  assumes "serve_ok s" "phase s ! r = Riding c"
    "bind_r (endRide c r s) (\<lambda>s1. Inr (s1\<lparr>phase := (phase s1)[r := LeftCab]\<rparr>)) = Inr t"
  shows "serve_ok t"
proof -
  obtain u where u: "endRide c r s = Inr u" "t = u\<lparr>phase := (phase u)[r := LeftCab]\<rparr>"
    using assms(3) by (auto simp: bind_r_eq_Inr)
  have f: "servers u = servers s" "ridersPaying u = ridersPaying s"
    using u(1) by (auto simp: endRide_def Let_def bind_r_eq_Inr signal_def split: if_splits)
  have "phase u = phase s \<or> (\<exists>j. phase s ! j = Waiting \<and> phase u = (phase s)[j := Woken])"
    using u(1) by (auto simp: endRide_def Let_def bind_r_eq_Inr signal_def split: if_splits simp del: next_useful.simps)
  then have "serve_ok u \<and> phase u ! r \<noteq> Queued"
  proof
    assume p: "phase u = phase s"
    with assms(1,2) f show ?thesis by (auto intro: serve_ok_riders[of s])
  next
    assume "\<exists>j. phase s ! j = Waiting \<and> phase u = (phase s)[j := Woken]"
    then obtain j where p: "phase s ! j = Waiting \<and> phase u = (phase s)[j := Woken]" by blast
    with assms(1) f have "serve_ok u" by (auto intro: serve_ok_move[of s j])
    moreover have "phase u ! r \<noteq> Queued"
      using p assms(2) by (cases "r = j"; cases "j < length (phase s)") auto
    ultimately show ?thesis by blast
  qed
  then show ?thesis using f u(2) by (auto intro: serve_ok_move[of u r])
qed

lemma serverTake_serve:
  assumes inv: "sys_inv s" and "serverTake v s = Inr t"
  shows "serve_ok t"
proof (cases "ridersPaying s ! 0 = None")
  case True
  then have "t = s\<lparr>servers := (servers s)[v := Closed]\<rparr>" using assms(2) by (auto simp: serverTake_def split: if_splits)
  then show ?thesis using inv by (intro serve_ok_servers[of s t v Closed]) (auto simp: sys_inv_def)
next
  case False
  let ?n = "length (phase s)"
  obtain qs where qs: "ridersPaying s = map Some qs @ replicate (?n - length qs) None" "ridersPayingCount s = int (length qs)"
    "distinct qs" "\<forall>k \<in> set qs. k < ?n \<and> phase s ! k = Queued"
    using inv by (auto simp: sys_inv_def cab_inv_def pay_ok_def)
  obtain ps r where snoc: "qs = ps @ [r]" using False qs(1,2) assms(2)
    by (cases qs rule: rev_cases) (auto simp: serverTake_def Let_def split: if_splits)
  have k: "ridersPaying s ! length ps = Some r" using qs(1) snoc by (simp add: nth_append)
  have t: "t = s\<lparr>ridersPaying := (ridersPaying s)[length ps := None], ridersPayingCount := int (length ps), servers := (servers s)[v := Serving r]\<rparr>"
    using assms(2) qs(2) snoc False k by (auto simp: serverTake_def Let_def split: if_splits)
  have "ridersPaying t = map Some ps @ None # replicate (?n - length qs) None"
    using qs(1) snoc by (simp add: t list_update_append)
  then have pay: "\<And>q. Some q \<in> set (ridersPaying t) \<Longrightarrow> Some q \<in> set (ridersPaying s)"
    "Some r \<notin> set (ridersPaying t)" "Some r \<in> set (ridersPaying s)"
    using qs(1,3) snoc by auto
  have s: "servers t = (servers s)[v := Serving r]" "phase t = phase s" by (simp_all add: t)
  have old: "servers s ! u = Serving q \<and> u \<noteq> v \<or> q = r \<and> u = v" if "servers t ! u = Serving q" "u < length (servers s)" for u q
    using that by (cases "u = v") (auto simp: s)
  have r: "r < ?n" "phase s ! r = Queued" using qs(4) snoc by auto
  have srv: "q < ?n \<and> phase s ! q = Queued \<and> Some q \<notin> set (ridersPaying s)" if "servers s ! u = Serving q" "u < length (servers s)" for u q
    using inv that by (auto simp: sys_inv_def serve_ok_def)
  show ?thesis
    unfolding serve_ok_def
  proof (intro conjI allI impI)
    fix u q assume "u < length (servers t)" "servers t ! u = Serving q"
    with old[of u q] srv[of u q] r pay show "q < length (phase t)" "phase t ! q = Queued" "Some q \<notin> set (ridersPaying t)"
      by (auto simp: s)
  next
    fix u w q assume u: "u < length (servers t)" "w < length (servers t)" "servers t ! u = Serving q \<and> servers t ! w = Serving q"
    have "\<lbrakk>servers s ! u = Serving q; servers s ! w = Serving q\<rbrakk> \<Longrightarrow> w = u"
      using inv u(1,2) by (auto simp: sys_inv_def serve_ok_def s)
    with u old[of u q] old[of w q] srv[of u q] srv[of w q] pay(3) show "w = u" by (auto simp: s)
  qed
qed

lemma madePayment_ok:
  assumes inv: "sys_inv s" and v: "v < length (servers s)" "servers s ! v = Serving r"
  shows "sys_inv (madePayment v r s)"
proof -
  let ?t = "madePayment v r s"
  have r: "r < length (phase s)" "phase s ! r = Queued" "Some r \<notin> set (ridersPaying s)"
    using inv v by (auto simp: sys_inv_def serve_ok_def)
  obtain qs where qs: "ridersPaying s = map Some qs @ replicate (length (phase s) - length qs) None" "ridersPayingCount s = int (length qs)"
    "distinct qs" "\<forall>k \<in> set qs. k < length (phase s) \<and> phase s ! k = Queued"
    using inv by (auto simp: sys_inv_def cab_inv_def pay_ok_def)
  have "r \<notin> set qs" using r(3) qs(1) by auto
  then have "\<forall>k \<in> set qs. k < length (phase s) \<and> (phase s)[r := Gone] ! k = Queued"
    using qs(4) by (metis nth_list_update_neq)
  then have pay: "pay_ok ?t" using qs unfolding pay_ok_def by (intro exI[of _ qs]) (simp add: madePayment_def)
  have rd: "riding ?t c = riding s c" for c
    using r by (auto simp: riding_def madePayment_def nth_list_update)
  have od: "on_ride ?t = on_ride s"
    using r by (auto simp: on_ride_def madePayment_def nth_list_update)
  have tx: "taxis ?t = taxis s" "cabType ?t = cabType s" by (simp_all add: madePayment_def)
  have "cab_ok ?t c = cab_ok s c" for c by (rule cab_ok_cong) (simp_all only: rd tx)
  moreover have "\<forall>k < length (phase s). \<forall>c. (phase s)[r := Gone] ! k = Riding c \<longrightarrow> c < length (taxis s)"
    using inv r(1) by (auto simp: sys_inv_def cab_inv_def nth_list_update split: if_splits)
  ultimately have "cab_inv ?t" using inv pay od by (simp add: sys_inv_def cab_inv_def) (simp add: madePayment_def)
  moreover have "serve_ok ?t"
    unfolding serve_ok_def
  proof (intro conjI allI impI)
    fix u q assume u: "u < length (servers ?t)" "servers ?t ! u = Serving q"
    then have uv: "u \<noteq> v" "servers s ! u = Serving q" by (cases "u = v"; auto simp: madePayment_def)+
    then have "q \<noteq> r" using inv u(1) v by (auto simp: sys_inv_def serve_ok_def madePayment_def)
    then show "q < length (phase ?t)" "phase ?t ! q = Queued" "Some q \<notin> set (ridersPaying ?t)"
      using inv u(1) uv by (auto simp: sys_inv_def serve_ok_def madePayment_def)
  next
    fix u w q assume "u < length (servers ?t)" "w < length (servers ?t)" "servers ?t ! u = Serving q \<and> servers ?t ! w = Serving q"
    moreover from this have "u \<noteq> v" "w \<noteq> v" by (auto simp: madePayment_def)
    ultimately show "w = u" using inv by (auto simp: sys_inv_def serve_ok_def madePayment_def)
  qed
  ultimately show ?thesis using inv by (simp add: sys_inv_def madePayment_def)
qed

lemma quiet_step:
  assumes "sys_inv s" "r < length (phase s)" "quiet (phase s ! r)" "quiet x" "phase t = (phase s)[r := x]"
    and "taxis t = taxis s" "cabType t = cabType s" "totalCabsOpen t = totalCabsOpen s" "servers t = servers s"
    and "ridersPaying t = ridersPaying s" "ridersPayingCount t = ridersPayingCount s"
    and "isWaiting t = isWaiting s \<or> (\<exists>y \<in> {-1, 0, 1}. isWaiting t = (isWaiting s)[r := y])"
  shows "sys_inv t"
proof -
  have w: "set (isWaiting s) \<subseteq> {-1, 0, 1}" using assms(1) by (simp add: sys_inv_def cab_inv_def)
  have "set (isWaiting t) \<subseteq> {-1, 0, 1}" using assms(12)
  proof (elim disjE bexE)
    fix y :: int assume "y \<in> {-1, 0, 1}" "isWaiting t = (isWaiting s)[r := y]"
    with set_update_range[OF w] show ?thesis by (simp only:)
  qed (use w in simp)
  moreover have "length (isWaiting t) = length (isWaiting s)" using assms(12) by auto
  ultimately have "cab_inv t" using assms by (intro cab_inv_quiet[of s r x t]) (auto simp: sys_inv_def)
  moreover have "serve_ok t"
    using assms by (intro serve_ok_move[of s r t x]) (auto simp: sys_inv_def quiet_def)
  ultimately show ?thesis using assms(1,2,5) by (auto simp: sys_inv_def)
qed

lemma server_step:
  assumes "sys_inv s" "servers t = (servers s)[v := x]" "\<And>r. x \<noteq> Serving r" "phase t = phase s" "taxis t = taxis s"
    "cabType t = cabType s" "totalCabsOpen t = totalCabsOpen s" "ridersPaying t = ridersPaying s"
    "ridersPayingCount t = ridersPayingCount s" "isWaiting t = isWaiting s"
  shows "sys_inv t"
  using assms cab_inv_servers[of s t] serve_ok_servers[of s t v x] by (simp add: sys_inv_def)

lemma length_phase:
  "bookCab r s = Inr t \<Longrightarrow> length (phase t) = length (phase s)"
  "bind_r (endRide c r s) (\<lambda>s1. Inr (s1\<lparr>phase := (phase s1)[r := LeftCab]\<rparr>)) = Inr t \<Longrightarrow> length (phase t) = length (phase s)"
  "queuePayment r s = Inr t \<Longrightarrow> length (phase t) = length (phase s)" "serverTake v s = Inr t \<Longrightarrow> length (phase t) = length (phase s)"
  by (auto simp: bookCab_def findCab_def endRide_def queuePayment_def serverTake_def signal_def Let_def bind_r_eq_Inr
      split: if_splits option.splits simp del: next_useful.simps)

lemma queuePayment_serve:
  assumes "serve_ok s" "phase s ! r = Posted" "queuePayment r s = Inr t"
  shows "serve_ok t"
proof -
  have t: "phase t = (phase s)[r := Queued]" "servers t = servers s"
    "ridersPaying t = (ridersPaying s)[nat (ridersPayingCount s) := Some r]"
    using assms(3) by (auto simp: queuePayment_def split: if_splits)
  show ?thesis
    using assms(1,2) set_update_subset_insert[of "ridersPaying s" "nat (ridersPayingCount s)" "Some r"]
    by (intro serve_ok_move[of s r t]) (auto simp: t)
qed

lemma sys_invI: "cab_inv t \<Longrightarrow> serve_ok t \<Longrightarrow> length (phase t) = length (phase s) \<Longrightarrow> sys_inv s \<Longrightarrow> sys_inv t"
  by (metis length_0_conv sys_inv_def)

lemma step_ok:
  assumes "step s res" "sys_inv s"
  shows "\<exists>t. res = Inr t \<and> sys_inv t"
  using assms(1)
proof cases
  case (arrive r)
  then show ?thesis using assms(2) by (auto intro!: quiet_step[of s r Booking] simp: quiet_def)
next
  case (book r)
  with bookCab_ok[of s r] bookCab_serve[of s r] length_phase(1)[of r s] assms(2) show ?thesis
    by (metis sys_invI sys_inv_def)
next
  case (spurious r)
  then show ?thesis using assms(2)
    by (auto intro!: quiet_step[of s r Booking] exI[of _ "wakeRider r True s"] simp: quiet_def wakeRider_def)
next
  case (signalled r)
  then show ?thesis using assms(2)
    by (auto intro!: quiet_step[of s r Booking] exI[of _ "wakeRider r True s"] simp: quiet_def wakeRider_def)
next
  case (timeout r)
  then show ?thesis using assms(2)
    by (auto intro!: quiet_step[of s r TimedOut] exI[of _ "wakeRider r False s"] simp: quiet_def wakeRider_def)
next
  case (end_ride r c)
  with endRide_ok[of s r c] endRide_serve[of s r c] length_phase(2)[of c r s] assms(2) show ?thesis
    by (metis sys_invI sys_inv_def)
next
  case (post r)
  then show ?thesis using assms(2)
    by (auto intro!: quiet_step[of s r Posted] exI[of _ "postPayment r s"] simp: quiet_def postPayment_def)
next
  case (queue r)
  with queuePayment_ok[of s r] queuePayment_serve[of s r] length_phase(3)[of r s] assms(2) show ?thesis
    by (metis sys_invI sys_inv_def)
next
  case (top v)
  then show ?thesis using assms(2) by (auto intro!: server_step[of s _ v "if ridersLeftToExit s \<noteq> 0 then AtSem else Closed"] simp: serverTop_def)
next
  case (sem v t)
  then show ?thesis using assms(2) by (auto intro!: server_step[of s _ v HasToken] simp: serverWait_def split: if_splits)
next
  case (check v)
  then show ?thesis using assms(2) by (auto intro!: server_step[of s _ v "if ridersLeftToExit s \<noteq> 0 then Checked else Closed"] simp: serverCheck_def)
next
  case (take_pay v)
  with serverTake_ok[of s v] serverTake_serve[of s v] length_phase(4)[of v s] assms(2) show ?thesis
    by (metis sys_invI sys_inv_def)
next
  case (paid v r)
  with madePayment_ok[OF assms(2)] show ?thesis by blast
next
  case release
  then show ?thesis using assms(2) cab_inv_servers[of s "s\<lparr>serversOpen := serversOpen s + 1\<rparr>"]
      serve_ok_riders[of s "s\<lparr>serversOpen := serversOpen s + 1\<rparr>"] by (auto simp: sys_inv_def)
qed

section \<open>Properties\<close>

lemma reach_inv: "reach s0 s \<Longrightarrow> sys_inv s0 \<Longrightarrow> sys_inv s"
  by (induction rule: reach.induct) (use step_ok in auto)

text \<open>
  C24: whatever the interleaving, no assertion of the cab service fails, no array is accessed out of
  range and no null rider is served, and the search for a rider to signal ends. In every reachable state a cab
  that is not idle carries exactly the riders its state says, two of type POOL in a full one and one
  alone in a premier one, and the count of open cabs is the number of cabs less the riders on a ride.
\<close>

theorem cabs_safe:
  assumes "set types \<subseteq> {0, 1}" "types \<noteq> []" "reach (init n types m) s"
  shows "(\<forall>res. step s res \<longrightarrow> (\<exists>t. res = Inr t)) \<and>
    (\<forall>c < length (taxis s). card (riding s c) =
       (case cstate (taxis s ! c) of waitState \<Rightarrow> 0 | onRidePoolOne \<Rightarrow> 1 | onRidePoolFull \<Rightarrow> 2 | onRidePremier \<Rightarrow> 1) \<and>
       (cstate (taxis s ! c) = onRidePremier \<longleftrightarrow> (\<exists>r \<in> riding s c. cabType s ! r \<noteq> POOL_CAB))) \<and>
    totalCabsOpen s = int (length (taxis s)) - int (card (on_ride s))"
proof -
  have inv: "sys_inv s" using reach_inv[OF assms(3)] sys_inv_init[OF assms(1,2)] by simp
  have "card (riding s c) =
       (case cstate (taxis s ! c) of waitState \<Rightarrow> 0 | onRidePoolOne \<Rightarrow> 1 | onRidePoolFull \<Rightarrow> 2 | onRidePremier \<Rightarrow> 1) \<and>
       (cstate (taxis s ! c) = onRidePremier \<longleftrightarrow> (\<exists>r \<in> riding s c. cabType s ! r \<noteq> POOL_CAB))" if "c < length (taxis s)" for c
  proof -
    have "cab_ok s c" using inv that by (simp add: sys_inv_def cab_inv_def)
    then show ?thesis by (cases "cstate (taxis s ! c)") (auto simp: cab_ok_def)
  qed
  moreover have "\<exists>t. res = Inr t" if "step s res" for res using step_ok[OF that inv] by blast
  moreover have "totalCabsOpen s = int (length (taxis s)) - int (card (on_ride s))"
    using inv by (simp add: sys_inv_def cab_inv_def)
  ultimately show ?thesis by blast
qed

theorem cabs_safe_witness:
  "(\<nexists>e. step (init 2 [0, 1] 1) (Inl e)) \<and> totalCabsOpen (init 2 [0, 1] 1) = 2 - int (card (on_ride (init 2 [0, 1] 1)))"
  using cabs_safe[of "[0, 1]" 2 1 "init 2 [0, 1] 1"] by (auto simp: reach.start init_def)

lemma reach_step: "reach s0 s \<Longrightarrow> step s (Inr t) \<Longrightarrow> reach s0 t"
  by (rule reach.go)

lemmas cab_code = init_def bookCab_def findCab_def postPayment_def serverTop_def serverWait_def serverCheck_def
  serverTake_def POOL_CAB_def

text \<open>
  A rider is turned away although a cab stands idle: the count of open cabs is charged once per
  rider and not once per cab, so two riders who share a pool cab use up the count of two cabs.
\<close>

lemma refused_with_idle_cab:
  "\<exists>s t. reach (init 2 [0, 0, 1] 1) s \<and> phase s ! 2 = Booking \<and> cstate (taxis s ! 1) = waitState \<and>
     bookCab 2 s = Inr t \<and> phase t ! 2 = Waiting"
proof -
  let ?s0 = "init 2 [0, 0, 1] 1"
  let ?a = "?s0\<lparr>phase := [Booking, Arriving, Arriving]\<rparr>"
  let ?b = "?a\<lparr>phase := [Booking, Booking, Arriving]\<rparr>"
  let ?c = "?b\<lparr>phase := [Booking, Booking, Booking]\<rparr>"
  let ?idle = "\<lparr>cstate = waitState, rider1 = -1, rider2 = -1\<rparr>"
  let ?d = "?c\<lparr>taxis := [\<lparr>cstate = onRidePoolOne, rider1 = 0, rider2 = -1\<rparr>, ?idle], totalCabsOpen := 1, phase := [Riding 0, Booking, Booking]\<rparr>"
  let ?e = "?d\<lparr>taxis := [\<lparr>cstate = onRidePoolFull, rider1 = 0, rider2 = 1\<rparr>, ?idle], totalCabsOpen := 0, phase := [Riding 0, Riding 0, Booking]\<rparr>"
  have "reach ?s0 ?a" by (rule reach_step[OF reach.start]) (use step.arrive[of 0 ?s0] in \<open>simp add: cab_code\<close>)
  then have "reach ?s0 ?b" by (rule reach_step) (use step.arrive[of 1 ?a] in \<open>simp add: cab_code\<close>)
  then have "reach ?s0 ?c" by (rule reach_step) (use step.arrive[of 2 ?b] in \<open>simp add: cab_code\<close>)
  then have "reach ?s0 ?d" by (rule reach_step) (use step.book[of 0 ?c] in \<open>simp add: cab_code numeral_2_eq_2\<close>)
  then have e: "reach ?s0 ?e" by (rule reach_step) (use step.book[of 1 ?d] in \<open>simp add: cab_code\<close>)
  show ?thesis
    by (intro exI[of _ ?e] exI[of _ "?e\<lparr>isWaiting := [-1, -1, 1], phase := [Riding 0, Riding 0, Waiting]\<rparr>"] conjI)
      (use e in \<open>simp_all add: cab_code\<close>)
qed

text \<open>
  The only server may close while a rider still has to pay: \<open>makePayment\<close> posts the semaphore before it
  queues the rider, so a server that takes the token in between finds the queue empty and leaves.
\<close>

lemma server_closes_early:
  "\<exists>s. reach (init 1 [1] 1) s \<and> servers s = [Closed] \<and> phase s = [Posted] \<and> ridersLeftToExit s = 1"
proof -
  let ?s0 = "init 1 [1] 1"
  let ?a = "?s0\<lparr>phase := [Booking]\<rparr>"
  let ?b = "?a\<lparr>taxis := [\<lparr>cstate = onRidePremier, rider1 = 0, rider2 = -1\<rparr>], totalCabsOpen := 0, phase := [Riding 0]\<rparr>"
  let ?c = "?b\<lparr>taxis := [\<lparr>cstate = waitState, rider1 = -1, rider2 = -1\<rparr>], totalCabsOpen := 1, phase := [LeftCab]\<rparr>"
  let ?d = "?c\<lparr>serversOpen := 1, phase := [Posted]\<rparr>"
  let ?e = "?d\<lparr>servers := [AtSem]\<rparr>"
  let ?f = "?e\<lparr>serversOpen := 0, servers := [HasToken]\<rparr>"
  let ?g = "?f\<lparr>servers := [Checked]\<rparr>"
  let ?h = "?g\<lparr>servers := [Closed]\<rparr>"
  have "reach ?s0 ?a" by (rule reach_step[OF reach.start]) (use step.arrive[of 0 ?s0] in \<open>simp add: cab_code\<close>)
  then have "reach ?s0 ?b" by (rule reach_step) (use step.book[of 0 ?a] in \<open>simp add: cab_code\<close>)
  then have "reach ?s0 ?c" by (rule reach_step) (use step.end_ride[of 0 ?b 0] in \<open>simp add: cab_code endRide_def free_seat_def\<close>)
  then have "reach ?s0 ?d" by (rule reach_step) (use step.post[of 0 ?c] in \<open>simp add: cab_code\<close>)
  then have "reach ?s0 ?e" by (rule reach_step) (use step.top[of 0 ?d] in \<open>simp add: cab_code\<close>)
  then have "reach ?s0 ?f" by (rule reach_step) (use step.sem[of 0 ?e ?f] in \<open>simp add: cab_code\<close>)
  then have "reach ?s0 ?g" by (rule reach_step) (use step.check[of 0 ?f] in \<open>simp add: cab_code\<close>)
  then have "reach ?s0 ?h" by (rule reach_step) (use step.take_pay[of 0 ?g] in \<open>simp add: cab_code\<close>)
  then show ?thesis by (intro exI[of _ ?h]) (simp add: cab_code)
qed

end
