(* ===== verification/Kalloc.thy ===== *)
theory Kalloc
  imports Strings
begin

text \<open>
  The physical page allocator (\<open>kalloc.c\<close>): a list of free pages threaded through the first word of each
  free page. The state is the kernel's view of memory, addressed by kernel virtual address, with the
  head of the list. \<open>kend\<close> is the linker's symbol \<open>end\<close>, the first address after the loaded kernel.
  \<open>kmem.lock\<close> makes each operation one atomic step once \<open>use_lock\<close> is set; before that one processor runs.
\<close>

section \<open>Pages\<close>

definition PGSIZE :: u32 where "PGSIZE = 4096"
definition KERNBASE :: u32 where "KERNBASE = 0x80000000"
definition EXTMEM :: u32 where "EXTMEM = 0x100000"
definition PHYSTOP :: u32 where "PHYSTOP = 0xE000000"
definition DEVSPACE :: u32 where "DEVSPACE = 0xFE000000"

definition V2P :: "u32 \<Rightarrow> u32" where "V2P a = a - KERNBASE"
definition P2V :: "u32 \<Rightarrow> u32" where "P2V a = a + KERNBASE"

definition PGROUNDUP :: "u32 \<Rightarrow> u32" where "PGROUNDUP sz = (sz + PGSIZE - 1) AND NOT (PGSIZE - 1)"
definition PGROUNDDOWN :: "u32 \<Rightarrow> u32" where "PGROUNDDOWN a = a AND NOT (PGSIZE - 1)"

lemmas layout = PGSIZE_def KERNBASE_def EXTMEM_def PHYSTOP_def DEVSPACE_def

section \<open>The allocator\<close>

record kmem =
  ram :: mem
  freelist :: u32
  use_lock :: bool

definition kfree :: "u32 \<Rightarrow> u32 \<Rightarrow> kmem \<Rightarrow> kmem result" where
  "kfree kend v s =
    (if v mod PGSIZE \<noteq> 0 \<or> v < kend \<or> V2P v \<ge> PHYSTOP then Inl (Panic ''kfree'')
     else let m = memset (ram s) v 1 PGSIZE
          in Inr (s\<lparr>ram := put32 m v (freelist s), freelist := v\<rparr>))"

definition kalloc :: "kmem \<Rightarrow> u32 \<times> kmem" where
  "kalloc s = (let r = freelist s in (r, if r \<noteq> 0 then s\<lparr>freelist := get32 (ram s) r\<rparr> else s))"

lemma V2P_bound:
  assumes "\<not> V2P p \<ge> PHYSTOP"
  shows "unat p < 0x8E000000" "0x80000000 \<le> unat p"
proof -
  have "\<not> 0xE000000 \<le> p - 0x80000000" using assms by (simp add: V2P_def layout)
  then have *: "uint (p - 0x80000000) < 0xE000000" by (simp add: word_le_def not_le)
  have r: "0 \<le> uint p" "uint p < 2 ^ 32" using uint_bounded[of p] by simp_all
  have e: "uint (p - 0x80000000) = (uint p - 0x80000000) mod 2 ^ 32" by (simp add: uint_word_ariths)
  have "0x80000000 \<le> uint p \<and> uint p < 0x8E000000"
  proof (cases "0x80000000 \<le> uint p")
    case True
    then have "(uint p - 0x80000000) mod 2 ^ 32 = uint p - 0x80000000" using r by (intro mod_pos_pos_trivial) auto
    with * e True show ?thesis by simp
  next
    case False
    then have "(uint p - 0x80000000) mod 2 ^ 32 = uint p - 0x80000000 + 2 ^ 32"
      using r by (subst mod_add_self2[symmetric], intro mod_pos_pos_trivial) auto
    then have "uint (p - 0x80000000) = uint p + 0x80000000" using e by simp
    with * r(1) show ?thesis by linarith
  qed
  then show "unat p < 0x8E000000" "0x80000000 \<le> unat p"
    unfolding unat_eq_nat_uint by (simp_all only: nat_less_iff[OF r(1)] le_nat_iff[OF r(1)] of_nat_numeral)
qed

lemma kfree_Inr:
  "kfree kend v s = Inr t \<Longrightarrow> v mod PGSIZE = 0 \<and> kend \<le> v \<and> V2P v < PHYSTOP \<and>
     t = s\<lparr>ram := put32 (memset (ram s) v 1 PGSIZE) v (freelist s), freelist := v\<rparr>"
  by (auto simp: kfree_def Let_def not_le not_less split: if_splits)

text \<open>The loop of \<open>freerange\<close> from page \<open>p\<close> on.\<close>

function free_from :: "u32 \<Rightarrow> u32 \<Rightarrow> u32 \<Rightarrow> kmem \<Rightarrow> kmem result" where
  "free_from kend p vend s =
    (if p + PGSIZE \<le> vend then bind_r (kfree kend p s) (free_from kend (p + PGSIZE) vend) else Inr s)"
  by pat_completeness auto

termination
proof (relation "measure (\<lambda>(kend, p, vend, s). 2 ^ 32 - unat p)")
  fix kend p vend s x
  assume "kfree kend p s = Inr x"
  then have "V2P p < PHYSTOP" using kfree_Inr by blast
  then have "unat p < 0x8E000000" by (intro V2P_bound) simp
  then have "unat (p + PGSIZE) = unat p + 4096" by (simp add: PGSIZE_def unat_word_ariths)
  then show "((kend, p + PGSIZE, vend, x), (kend, p, vend, s)) \<in> measure (\<lambda>(kend, p, vend, s). 2 ^ 32 - unat p)"
    using \<open>unat p < 0x8E000000\<close> by simp
qed simp

definition freerange :: "u32 \<Rightarrow> u32 \<Rightarrow> u32 \<Rightarrow> kmem \<Rightarrow> kmem result" where
  "freerange kend vstart vend s = free_from kend (PGROUNDUP vstart) vend s"

definition kinit1 :: "u32 \<Rightarrow> u32 \<Rightarrow> u32 \<Rightarrow> kmem \<Rightarrow> kmem result" where
  "kinit1 kend vstart vend s = freerange kend vstart vend (s\<lparr>use_lock := False\<rparr>)"

definition kinit2 :: "u32 \<Rightarrow> u32 \<Rightarrow> u32 \<Rightarrow> kmem \<Rightarrow> kmem result" where
  "kinit2 kend vstart vend s = bind_r (freerange kend vstart vend s) (\<lambda>t. Inr (t\<lparr>use_lock := True\<rparr>))"

section \<open>Page arithmetic\<close>

definition aligned :: "u32 \<Rightarrow> bool" where "aligned p \<longleftrightarrow> unat p mod 4096 = 0"

definition in_page :: "u32 \<Rightarrow> u32 \<Rightarrow> bool" where "in_page p b \<longleftrightarrow> inside p 4096 b"

text \<open>\<open>m'\<close> differs from \<open>m\<close> in page \<open>p\<close> at most.\<close>

definition off_page :: "u32 \<Rightarrow> mem \<Rightarrow> mem \<Rightarrow> bool" where
  "off_page p m m' \<longleftrightarrow> (\<forall>b. \<not> in_page p b \<longrightarrow> m' b = m b)"

lemma unat_lt32: "unat (a :: u32) < 4294967296"
  using unsigned_less[of a, where ?'a = nat] by simp

lemma aligned_mod: "v mod PGSIZE = 0 \<longleftrightarrow> aligned v"
  by (simp add: aligned_def PGSIZE_def word_arith_nat_mod word_unat_eq_iff unat_of_nat)

lemma PGROUNDDOWN_shift: "PGROUNDDOWN a = push_bit 12 (drop_bit 12 a)"
proof -
  have "PGROUNDDOWN a = a AND NOT (mask 12)" by (simp add: PGROUNDDOWN_def PGSIZE_def mask_eq_exp_minus_1)
  also have "\<dots> = push_bit 12 (drop_bit 12 a)" by (rule bit_word_eqI) (auto simp: bit_simps)
  finally show ?thesis .
qed

lemma unat_PGROUNDDOWN: "unat (PGROUNDDOWN a) = unat a div 4096 * 4096"
proof -
  have "unat a div 4096 * 4096 < 4294967296" using unat_lt32[of a] le_less_trans[OF div_times_less_eq_dividend[of "unat a" 4096]] by blast
  then show ?thesis unfolding PGROUNDDOWN_shift push_bit_eq_mult drop_bit_eq_div
    by (simp add: unat_word_ariths unat_div)
qed

lemma unat_PGROUNDUP: "unat a + 4096 \<le> 4294967296 \<Longrightarrow> unat (PGROUNDUP a) = (unat a + 4095) div 4096 * 4096"
proof -
  assume *: "unat a + 4096 \<le> 4294967296"
  have "PGROUNDUP a = PGROUNDDOWN (a + 4095)" by (simp add: PGROUNDUP_def PGROUNDDOWN_def PGSIZE_def algebra_simps)
  moreover have "unat (a + 4095) = unat a + 4095" using * by (simp add: unat_word_ariths)
  ultimately show ?thesis by (simp add: unat_PGROUNDDOWN)
qed

lemma aligned_PGROUNDDOWN [simp]: "aligned (PGROUNDDOWN a)"
  by (simp add: aligned_def unat_PGROUNDDOWN)

lemma aligned_fits: "aligned p \<Longrightarrow> fits p 4096"
proof -
  assume "aligned p"
  then obtain k where k: "unat p = 4096 * k" by (auto simp: aligned_def)
  then show ?thesis using unat_lt32[of p] by (simp add: fits_def)
qed

lemma in_page_iff: "aligned p \<Longrightarrow> in_page p b \<longleftrightarrow> PGROUNDDOWN b = p"
proof -
  assume "aligned p"
  then obtain k where k: "unat p = 4096 * k" by (auto simp: aligned_def)
  have "in_page p b \<longleftrightarrow> unat b div 4096 = k" by (auto simp: in_page_def inside_def k)
  then show ?thesis by (auto simp: word_unat_eq_iff unat_PGROUNDDOWN k)
qed

lemma in_page_unique: "aligned p \<Longrightarrow> aligned q \<Longrightarrow> in_page p b \<Longrightarrow> in_page q b \<Longrightarrow> p = q"
  by (simp add: in_page_iff)

lemma in_page_self [simp]: "in_page p p"
  by (simp add: in_page_def inside_def)

lemma off_page_refl [simp]: "off_page p m m"
  by (simp add: off_page_def)

lemma off_page_trans: "off_page p m m' \<Longrightarrow> off_page p m' m'' \<Longrightarrow> off_page p m m''"
  by (simp add: off_page_def)

lemma get32_cong:
  "m' a = m a \<Longrightarrow> m' (a + 1) = m (a + 1) \<Longrightarrow> m' (a + 2) = m (a + 2) \<Longrightarrow> m' (a + 3) = m (a + 3) \<Longrightarrow> get32 m' a = get32 m a"
  by (simp add: get32_def)

text \<open>An aligned word lies in one page.\<close>

lemma word_in_page:
  assumes "aligned p" "in_page p a" "unat a mod 4 = 0" "k < 4"
  shows "in_page p (a + of_nat k)"
proof -
  obtain j where j: "unat p = 4096 * j" using assms(1) by (auto simp: aligned_def)
  have b: "4096 * j \<le> unat a" "unat a < 4096 * j + 4096" using assms(2) by (auto simp: in_page_def inside_def j)
  have s: "4096 * j + 4096 \<le> 4294967296" using unat_lt32[of p] j by simp
  obtain c where c: "unat a = 4 * c" using assms(3) by auto
  then have "c < 1024 * j + 1024" using b by linarith
  then have "unat a + k < 4096 * j + 4096" using c assms(4) by linarith
  moreover from this s have "unat (a + of_nat k) = unat a + k" by (simp add: unat_word_ariths unat_of_nat)
  ultimately show ?thesis using b by (simp add: in_page_def inside_def j)
qed

lemma get32_off:
  assumes "off_page p m m'" "aligned p" "aligned q" "p \<noteq> q" "in_page q a" "unat a mod 4 = 0"
  shows "get32 m' a = get32 m a"
proof -
  have "m' (a + of_nat k) = m (a + of_nat k)" if "k < 4" for k
    using word_in_page[OF assms(3,5,6) that] in_page_unique[OF assms(2,3)] assms(1,4) by (auto simp: off_page_def)
  from this[of 0] this[of 1] this[of 2] this[of 3] show ?thesis by (intro get32_cong) simp_all
qed

lemma aligned4: "aligned p \<Longrightarrow> unat p mod 4 = 0"
  by (auto simp: aligned_def mod_eq_0_iff_dvd intro: dvd_trans[of 4 4096])

lemma off_page_memset: "aligned p \<Longrightarrow> off_page p m (memset m p c PGSIZE)"
  using wr_apply(2)[of p "replicate 4096 (ucast c)"] aligned_fits[of p]
  by (simp add: off_page_def in_page_def memset_wr PGSIZE_def)

lemma off_page_put32:
  assumes "aligned p" "in_page p a" "unat a mod 4 = 0"
  shows "off_page p m (put32 m a v)"
proof -
  have "b \<noteq> a + of_nat k" if "\<not> in_page p b" "k < 4" for b k
    using word_in_page[OF assms that(2)] that(1) by auto
  from this[of _ 0] this[of _ 1] this[of _ 2] this[of _ 3] show ?thesis
    by (auto simp: off_page_def put32_def)
qed

section \<open>The free list\<close>

definition page_ok :: "u32 \<Rightarrow> u32 \<Rightarrow> bool" where
  "page_ok kend v \<longleftrightarrow> aligned v \<and> kend \<le> v \<and> V2P v < PHYSTOP"

fun chain :: "mem \<Rightarrow> u32 \<Rightarrow> u32 list \<Rightarrow> bool" where
  "chain m a [] \<longleftrightarrow> a = 0"
| "chain m a (x # xs) \<longleftrightarrow> a = x \<and> chain m (get32 m x) xs"

definition free_pages :: "u32 \<Rightarrow> kmem \<Rightarrow> u32 list \<Rightarrow> bool" where
  "free_pages kend s xs \<longleftrightarrow> chain (ram s) (freelist s) xs \<and> distinct xs \<and> (\<forall>x \<in> set xs. page_ok kend x)"

lemma page_ok_nz: "page_ok kend v \<Longrightarrow> v \<noteq> 0"
  by (auto simp: page_ok_def V2P_def layout)

lemma chain_off:
  assumes "off_page p m m'" "aligned p" "\<forall>x \<in> set xs. aligned x \<and> x \<noteq> p" "chain m a xs"
  shows "chain m' a xs"
  using assms(3,4)
proof (induction xs arbitrary: a)
  case (Cons x xs)
  have "get32 m' x = get32 m x"
    using Cons.prems(1) by (intro get32_off[OF assms(1,2), of x]) (auto intro: aligned4)
  with Cons show ?case by simp
qed simp

lemma free_pages_off:
  "free_pages kend s xs \<Longrightarrow> off_page p (ram s) m \<Longrightarrow> aligned p \<Longrightarrow> p \<notin> set xs \<Longrightarrow> free_pages kend (s\<lparr>ram := m\<rparr>) xs"
  by (auto simp: free_pages_def page_ok_def intro: chain_off)

lemma kalloc_nil: "free_pages kend s [] \<Longrightarrow> kalloc s = (0, s)"
  by (simp add: free_pages_def kalloc_def)

lemma kalloc_cons:
  "free_pages kend s (x # xs) \<Longrightarrow> kalloc s = (x, s\<lparr>freelist := get32 (ram s) x\<rparr>) \<and>
     free_pages kend (s\<lparr>freelist := get32 (ram s) x\<rparr>) xs \<and> page_ok kend x \<and> x \<notin> set xs"
  using page_ok_nz[of kend x] by (auto simp: free_pages_def kalloc_def)

lemma kfree_ok:
  assumes "free_pages kend s xs" "page_ok kend v" "v \<notin> set xs"
  shows "\<exists>t. kfree kend v s = Inr t \<and> free_pages kend t (v # xs) \<and> off_page v (ram s) (ram t) \<and> use_lock t = use_lock s"
proof -
  let ?m = "put32 (memset (ram s) v 1 PGSIZE) v (freelist s)"
  let ?t = "s\<lparr>ram := ?m, freelist := v\<rparr>"
  have a: "aligned v" using assms(2) by (simp add: page_ok_def)
  have off: "off_page v (ram s) ?m"
    by (rule off_page_trans[OF off_page_memset off_page_put32]) (simp_all add: a aligned4)
  have "kfree kend v s = Inr ?t" using assms(2) by (simp add: kfree_def Let_def page_ok_def aligned_mod[symmetric] not_less not_le)
  moreover have "chain ?m (freelist s) xs"
    using assms by (intro chain_off[OF off a]) (auto simp: free_pages_def page_ok_def)
  then have "free_pages kend ?t (v # xs)" using assms by (simp add: free_pages_def)
  ultimately show ?thesis using off by simp
qed

section \<open>The allocator's contract\<close>

text \<open>
  What the rest of the kernel relies on: allocation takes the head of the list of available pages and
  freeing puts a valid page that is not available at its head.
\<close>

locale page_alloc =
  fixes alloc :: "'s \<Rightarrow> 'p option \<times> 's"
    and free :: "'p \<Rightarrow> 's \<Rightarrow> 's result"
    and rep :: "'s \<Rightarrow> 'p list \<Rightarrow> bool"
    and valid :: "'p \<Rightarrow> bool"
  assumes alloc_none: "rep s [] \<Longrightarrow> alloc s = (None, s)"
    and alloc_some: "rep s (x # xs) \<Longrightarrow> fst (alloc s) = Some x \<and> rep (snd (alloc s)) xs"
    and free_rep: "rep s xs \<Longrightarrow> valid p \<Longrightarrow> p \<notin> set xs \<Longrightarrow> \<exists>t. free p s = Inr t \<and> rep t (p # xs)"
    and rep_distinct: "rep s xs \<Longrightarrow> distinct xs"
begin

primrec allocs :: "nat \<Rightarrow> 's \<Rightarrow> 'p option list \<times> 's" where
  "allocs 0 s = ([], s)"
| "allocs (Suc n) s = (let (p, t) = alloc s; (ps, u) = allocs n t in (p # ps, u))"

lemma allocs_rep: "rep s (ps @ xs) \<Longrightarrow> fst (allocs (length ps) s) = map Some ps \<and> rep (snd (allocs (length ps) s)) xs"
proof (induction ps arbitrary: s)
  case (Cons p ps)
  then show ?case using alloc_some[of s p "ps @ xs"] by (auto simp: split_beta Let_def)
qed simp

lemma allocs_none: "rep s [] \<Longrightarrow> allocs n s = (replicate n None, s)"
  by (induction n) (auto simp: alloc_none)

lemma allocs_add: "fst (allocs (m + n) s) = fst (allocs m s) @ fst (allocs n (snd (allocs m s)))"
  by (induction m arbitrary: s) (auto simp: split_beta Let_def)

lemma allocs_exhaust: "rep s ps \<Longrightarrow> fst (allocs (length ps + n) s) = map Some ps @ replicate n None"
  using allocs_rep[of s ps "[]"] by (simp add: allocs_add allocs_none)

lemma free_all:
  assumes "rep s xs" "distinct ps" "set ps \<inter> set xs = {}" "\<forall>p \<in> set ps. valid p"
  shows "\<exists>t. fold_r free ps s = Inr t \<and> rep t (rev ps @ xs)"
  using assms
proof (induction ps arbitrary: s xs)
  case (Cons p ps)
  obtain t where t: "free p s = Inr t" "rep t (p # xs)" using free_rep[of s xs p] Cons.prems by auto
  have "\<exists>u. fold_r free ps t = Inr u \<and> rep u (rev ps @ p # xs)"
    using Cons.prems t(2) by (intro Cons.IH) auto
  with t(1) show ?case by auto
qed simp

end

definition kalloc_opt :: "kmem \<Rightarrow> u32 option \<times> kmem" where
  "kalloc_opt s = (case kalloc s of (r, t) \<Rightarrow> (if r = 0 then None else Some r, t))"

interpretation pages: page_alloc kalloc_opt "kfree kend" "free_pages kend" "page_ok kend" for kend
proof
  fix s x xs p
  show "kalloc_opt s = (None, s)" if "free_pages kend s []"
    using kalloc_nil[OF that] by (simp add: kalloc_opt_def)
  show "fst (kalloc_opt s) = Some x \<and> free_pages kend (snd (kalloc_opt s)) xs" if "free_pages kend s (x # xs)"
    using kalloc_cons[OF that] page_ok_nz by (auto simp: kalloc_opt_def)
  show "\<exists>t. kfree kend p s = Inr t \<and> free_pages kend t (p # xs)" if "free_pages kend s xs" "page_ok kend p" "p \<notin> set xs"
    using kfree_ok[OF that] by blast
  show "distinct xs" if "free_pages kend s xs" using that by (simp add: free_pages_def)
qed

section \<open>Initialisation\<close>

text \<open>The pages of \<open>[p, vend)\<close> in ascending order.\<close>

definition page_list :: "u32 \<Rightarrow> u32 \<Rightarrow> u32 list" where
  "page_list p vend = map (\<lambda>i. p + of_nat (4096 * i)) [0..<(unat vend - unat p) div 4096]"

lemma page_list_Nil: "unat vend < unat p + 4096 \<Longrightarrow> page_list p vend = []"
  by (simp add: page_list_def)

lemma unat_next_page: "unat p + 4096 < 4294967296 \<Longrightarrow> unat (p + 4096 :: u32) = unat p + 4096"
  by (simp add: unat_word_ariths)

lemma page_list_Cons:
  assumes "unat p + 4096 \<le> unat vend"
  shows "page_list p vend = p # page_list (p + 4096) vend"
proof -
  have u: "unat (p + 4096) = unat p + 4096" using assms unat_lt32[of vend] by (intro unat_next_page) simp
  obtain d where d: "unat vend - unat p = d + 4096" using assms le_Suc_ex by (metis add_diff_cancel_left' add.commute add.assoc)
  then have e: "unat vend - unat (p + 4096) = d" by (simp add: u)
  have n: "(unat vend - unat p) div 4096 = Suc (d div 4096)" unfolding d by simp
  show ?thesis unfolding page_list_def n e upt_conv_Cons[OF zero_less_Suc] list.map
    by (simp add: map_Suc_upt[symmetric] comp_def algebra_simps del: map_Suc_upt upt_Suc)
qed

lemma free_from_fold:
  assumes "\<forall>p \<in> set (page_list p vend). page_ok kend p"
  shows "unat p \<le> unat vend \<Longrightarrow> unat vend \<le> 0x8E000000 \<Longrightarrow> free_from kend p vend s = fold_r (kfree kend) (page_list p vend) s"
  using assms
proof (induction kend p vend s rule: free_from.induct)
  case (1 kend p vend s)
  note cut = unat_lt32[of vend]
  show ?case
  proof (cases "unat p + 4096 \<le> unat vend")
    case True
    then have u: "unat (p + 4096) = unat p + 4096" using cut by (intro unat_next_page) simp
    have g: "p + PGSIZE \<le> vend" using True u by (simp add: word_le_nat_alt PGSIZE_def)
    have ok: "\<forall>q \<in> set (page_list (p + PGSIZE) vend). page_ok kend q" using 1(4) by (simp add: page_list_Cons[OF True] PGSIZE_def)
    have "bind_r (kfree kend p s) (free_from kend (p + PGSIZE) vend)
        = bind_r (kfree kend p s) (fold_r (kfree kend) (page_list (p + PGSIZE) vend))"
      by (rule bind_r_cong[OF refl]) (rule 1(1)[OF g _ _ 1(3) ok], simp_all add: u PGSIZE_def True)
    then show ?thesis using g by (simp add: page_list_Cons[OF True] PGSIZE_def)
  next
    case False
    have "unat p + 4096 < 4294967296" using 1(2,3) by simp
    then have "\<not> p + PGSIZE \<le> vend" using False by (simp add: word_le_nat_alt PGSIZE_def unat_next_page)
    then show ?thesis using False by (simp add: page_list_Nil)
  qed
qed

lemma set_page_list:
  assumes "aligned p" "unat p \<le> unat vend"
  shows "set (page_list p vend) = {q. aligned q \<and> unat p \<le> unat q \<and> unat q + 4096 \<le> unat vend}" (is "?L = ?R")
proof -
  obtain k where k: "unat p = 4096 * k" using assms(1) by (auto simp: aligned_def)
  have u: "unat (p + of_nat (4096 * i)) = 4096 * (k + i)" if "i < (unat vend - unat p) div 4096" for i
  proof -
    have "4096 * Suc i \<le> unat vend - unat p" using that by (simp add: less_eq_div_iff_mult_less_eq Suc_le_eq[symmetric] mult.commute del: mult_Suc_right)
    then have "unat p + 4096 * i < 4294967296" using unat_lt32[of vend] by simp
    then show ?thesis using k by (simp add: unat_word_ariths unat_of_nat)
  qed
  have bound: "i < (unat vend - unat p) div 4096 \<longleftrightarrow> 4096 * (k + i) + 4096 \<le> unat vend" for i
    using assms(2) k by (simp add: Suc_le_eq[symmetric] less_eq_div_iff_mult_less_eq) linarith
  show ?thesis
  proof
    show "?L \<subseteq> ?R" using u bound by (auto simp: page_list_def aligned_def k)
    show "?R \<subseteq> ?L"
    proof
      fix q assume "q \<in> ?R"
      then obtain j where j: "unat q = 4096 * j" "k \<le> j" "4096 * j + 4096 \<le> unat vend" by (auto simp: aligned_def k)
      then have "j - k < (unat vend - unat p) div 4096" using bound[of "j - k"] by simp
      moreover from u[OF this] j have "q = p + of_nat (4096 * (j - k))" by (simp add: word_unat_eq_iff)
      ultimately show "q \<in> ?L" unfolding page_list_def by auto
    qed
  qed
qed

lemma distinct_page_list: "aligned p \<Longrightarrow> unat p \<le> unat vend \<Longrightarrow> distinct (page_list p vend)"
proof -
  assume a: "aligned p" "unat p \<le> unat vend"
  have "p + of_nat (4096 * i) \<noteq> p + of_nat (4096 * j)" if "i < j" "j < (unat vend - unat p) div 4096" for i j
  proof -
    have "4096 * j < 4294967296" "4096 * i < 4294967296"
      using that unat_lt32[of vend] less_eq_div_iff_mult_less_eq[of 4096 "Suc j" "unat vend - unat p"] by simp_all
    then have "unat (of_nat (4096 * i) :: u32) \<noteq> unat (of_nat (4096 * j) :: u32)" using that(1) by (simp add: unat_of_nat del: of_nat_mult)
    then show ?thesis by (metis add_left_cancel)
  qed
  then show ?thesis unfolding page_list_def distinct_map
    by (auto intro!: linorder_inj_onI[of "{0..<_}", simplified] simp: inj_on_def) (metis linorder_neqE_nat)
qed

lemma PGROUNDUP_bounds:
  assumes "unat a + 4096 \<le> 4294967296"
  shows "aligned (PGROUNDUP a)" "unat a \<le> unat (PGROUNDUP a)" "unat (PGROUNDUP a) < unat a + 4096"
proof -
  note u = unat_PGROUNDUP[OF assms]
  show "aligned (PGROUNDUP a)" by (simp add: aligned_def u)
  have "unat a + 4095 = (unat a + 4095) div 4096 * 4096 + (unat a + 4095) mod 4096" by simp
  moreover have "(unat a + 4095) mod 4096 < 4096" by simp
  ultimately show "unat a \<le> unat (PGROUNDUP a)" "unat (PGROUNDUP a) < unat a + 4096" unfolding u by linarith+
qed

lemma page_ok_range: "aligned q \<Longrightarrow> kend \<le> q \<Longrightarrow> 0x80000000 \<le> unat q \<Longrightarrow> unat q < 0x8E000000 \<Longrightarrow> page_ok kend q"
  unfolding page_ok_def V2P_def layout word_less_nat_alt by (simp add: unat_sub word_le_nat_alt)

text \<open>
  Initialising the empty allocator on \<open>[vstart, vend)\<close>, between the end of the kernel and the top of physical
  memory, succeeds and puts every page that lies wholly in the range on the free list, once and nothing else;
  from then on \<open>kalloc\<close> hands out these pages, each once, and returns 0 when all are taken.
\<close>

lemma kinit1_kalloc:
  assumes "KERNBASE \<le> kend" "kend \<le> vstart" "vstart \<le> vend" "V2P vend \<le> PHYSTOP" "PGROUNDUP vstart \<le> vend"
    and "freelist s = 0"
  shows "\<exists>t ps. kinit1 kend vstart vend s = Inr t \<and> distinct ps \<and>
     set ps = {q. aligned q \<and> vstart \<le> q \<and> unat q + 4096 \<le> unat vend} \<and>
     fst (pages.allocs (length ps + n) t) = map Some ps @ replicate n None"
proof -
  have k: "0x80000000 \<le> unat kend" "unat kend \<le> unat vstart" "unat vstart \<le> unat vend"
    using assms(1-3) by (simp_all add: word_le_nat_alt KERNBASE_def)
  then have v: "unat vend \<le> 0x8E000000"
    using assms(4) by (simp add: V2P_def word_le_nat_alt layout unat_sub)
  have b: "unat vstart + 4096 \<le> 4294967296" using k v by simp
  note p = PGROUNDUP_bounds[OF b]
  have le: "unat (PGROUNDUP vstart) \<le> unat vend" using assms(5) by (simp add: word_le_nat_alt)
  let ?p = "PGROUNDUP vstart" let ?ps = "page_list ?p vend"
  have ok: "\<forall>q \<in> set ?ps. page_ok kend q"
    using p k v unfolding set_page_list[OF p(1) le] by (auto intro!: page_ok_range simp: word_le_nat_alt)
  let ?s = "s\<lparr>use_lock := False\<rparr>"
  have "free_pages kend ?s []" using assms(6) by (simp add: free_pages_def)
  then obtain t where t: "fold_r (kfree kend) ?ps ?s = Inr t" "free_pages kend t (rev ?ps)"
    using pages.free_all[OF _ distinct_page_list[OF p(1) le], of kend ?s "[]"] ok by auto
  then have "kinit1 kend vstart vend s = Inr t"
    by (simp add: kinit1_def freerange_def free_from_fold[OF ok le v] del: free_from.simps)
  moreover have "set (rev ?ps) = {q. aligned q \<and> vstart \<le> q \<and> unat q + 4096 \<le> unat vend}"
    unfolding set_rev set_page_list[OF p(1) le] word_le_nat_alt
  proof (intro Collect_cong iffI)
    fix q assume q: "aligned q \<and> unat vstart \<le> unat q \<and> unat q + 4096 \<le> unat vend"
    then obtain j i where "unat q = 4096 * j" "unat ?p = 4096 * i" using p(1) by (auto simp: aligned_def elim!: dvdE)
    with q p(3) show "aligned q \<and> unat ?p \<le> unat q \<and> unat q + 4096 \<le> unat vend" by auto
  qed (use p(2) in auto)
  moreover have "fst (pages.allocs (length (rev ?ps) + n) t) = map Some (rev ?ps) @ replicate n None"
    using t(2) by (rule pages.allocs_exhaust)
  ultimately show ?thesis using distinct_page_list[OF p(1) le] by (intro exI[of _ t] exI[of _ "rev ?ps"]) simp
qed

lemma kinit1_kalloc_witness:
  "\<exists>t ps. kinit1 0x80100000 0x80100010 0x80103000 \<lparr>ram = (\<lambda>_. 0), freelist = 0, use_lock = True\<rparr> = Inr t \<and> distinct ps \<and>
     set ps = {q. aligned q \<and> 0x80100010 \<le> q \<and> unat q + 4096 \<le> unat (0x80103000 :: u32)} \<and>
     fst (pages.allocs (length ps + 1) t) = map Some ps @ replicate 1 None"
  by (rule kinit1_kalloc) (simp_all add: layout V2P_def PGROUNDUP_def)

end
