(* ===== verification/Vm.thy ===== *)
theory Vm
  imports Kalloc
begin

text \<open>
  Two-level page tables (\<open>vm.c\<close>, the paging part of \<open>mmu.h\<close>) in the kernel's memory. A page directory or
  table is a page of 1024 little-endian words; a pointer to an entry is the entry's address and 0 is the null
  pointer. A loop over pages takes a bound on its iterations: \<open>NPAGES\<close>, the number of pages of the address
  space, is never reached, because each iteration goes to a higher page.
  \<open>kdata\<close> is the linker's symbol \<open>data\<close>, the end of the kernel's text.
\<close>

section \<open>Page table entries\<close>

definition PTE_P :: u32 where "PTE_P = 1"
definition PTE_W :: u32 where "PTE_W = 2"
definition PTE_U :: u32 where "PTE_U = 4"

definition PDX :: "u32 \<Rightarrow> u32" where "PDX va = drop_bit 22 va AND 0x3FF"
definition PTX :: "u32 \<Rightarrow> u32" where "PTX va = drop_bit 12 va AND 0x3FF"
definition PGADDR :: "u32 \<Rightarrow> u32 \<Rightarrow> u32 \<Rightarrow> u32" where "PGADDR d t off = push_bit 22 d OR push_bit 12 t OR off"
definition PTE_ADDR :: "u32 \<Rightarrow> u32" where "PTE_ADDR pte = pte AND NOT 0xFFF"
definition PTE_FLAGS :: "u32 \<Rightarrow> u32" where "PTE_FLAGS pte = pte AND 0xFFF"

definition NPDENTRIES :: nat where "NPDENTRIES = 1024"
definition NPAGES :: nat where "NPAGES = 2 ^ 20"

definition getp :: "kmem \<Rightarrow> u32 \<Rightarrow> u32" where
  "getp s a = get32 (ram s) a"

definition setp :: "u32 \<Rightarrow> u32 \<Rightarrow> kmem \<Rightarrow> kmem" where
  "setp a v s = s\<lparr>ram := put32 (ram s) a v\<rparr>"

section \<open>Walking and mapping\<close>

text \<open>The result is the address of the entry, 0 for the null pointer.\<close>

definition walkpgdir :: "u32 \<Rightarrow> u32 \<Rightarrow> bool \<Rightarrow> kmem \<Rightarrow> u32 \<times> kmem" where
  "walkpgdir pgdir va alloc s =
    (let pde = pgdir + 4 * PDX va in
     if getp s pde AND PTE_P \<noteq> 0 then (P2V (PTE_ADDR (getp s pde)) + 4 * PTX va, s)
     else if \<not> alloc then (0, s)
     else (case kalloc s of (pgtab, t) \<Rightarrow>
       if pgtab = 0 then (0, t)
       else let t1 = t\<lparr>ram := memset (ram t) pgtab 0 PGSIZE\<rparr>;
                t2 = setp pde (V2P pgtab OR PTE_P OR PTE_W OR PTE_U) t1
            in (pgtab + 4 * PTX va, t2)))"

fun map_loop :: "nat \<Rightarrow> u32 \<Rightarrow> u32 \<Rightarrow> u32 \<Rightarrow> u32 \<Rightarrow> u32 \<Rightarrow> kmem \<Rightarrow> (int \<times> kmem) result" where
  "map_loop 0 pgdir a lst pa perm s = Inl (Diverges ''mappages'')"
| "map_loop (Suc n) pgdir a lst pa perm s =
    (case walkpgdir pgdir a True s of (pte, t) \<Rightarrow>
      if pte = 0 then Inr (-1, t)
      else if getp t pte AND PTE_P \<noteq> 0 then Inl (Panic ''remap'')
      else let u = setp pte (pa OR perm OR PTE_P) t in
        if a = lst then Inr (0, u)
        else map_loop n pgdir (a + PGSIZE) lst (pa + PGSIZE) perm u)"

definition mappages :: "u32 \<Rightarrow> u32 \<Rightarrow> u32 \<Rightarrow> u32 \<Rightarrow> u32 \<Rightarrow> kmem \<Rightarrow> (int \<times> kmem) result" where
  "mappages pgdir va siz pa perm s =
     map_loop NPAGES pgdir (PGROUNDDOWN va) (PGROUNDDOWN (va + siz - 1)) pa perm s"

section \<open>User memory\<close>

fun dealloc_loop :: "nat \<Rightarrow> u32 \<Rightarrow> u32 \<Rightarrow> u32 \<Rightarrow> u32 \<Rightarrow> kmem \<Rightarrow> kmem result" where
  "dealloc_loop 0 kend pgdir a oldsz s = Inl (Diverges ''deallocuvm'')"
| "dealloc_loop (Suc n) kend pgdir a oldsz s =
    (if a < oldsz then
       (case walkpgdir pgdir a False s of (pte, t) \<Rightarrow>
         if pte = 0 then dealloc_loop n kend pgdir (PGADDR (PDX a + 1) 0 0 - PGSIZE + PGSIZE) oldsz t
         else if getp t pte AND PTE_P \<noteq> 0 then
           let pa = PTE_ADDR (getp t pte) in
           if pa = 0 then Inl (Panic ''kfree'')
           else bind_r (kfree kend (P2V pa) t) (\<lambda>u. dealloc_loop n kend pgdir (a + PGSIZE) oldsz (setp pte 0 u))
         else dealloc_loop n kend pgdir (a + PGSIZE) oldsz t)
     else Inr s)"

definition deallocuvm :: "u32 \<Rightarrow> u32 \<Rightarrow> u32 \<Rightarrow> u32 \<Rightarrow> kmem \<Rightarrow> (u32 \<times> kmem) result" where
  "deallocuvm kend pgdir oldsz newsz s =
    (if newsz \<ge> oldsz then Inr (oldsz, s)
     else bind_r (dealloc_loop NPAGES kend pgdir (PGROUNDUP newsz) oldsz s) (\<lambda>t. Inr (newsz, t)))"

fun alloc_loop :: "nat \<Rightarrow> u32 \<Rightarrow> u32 \<Rightarrow> u32 \<Rightarrow> u32 \<Rightarrow> u32 \<Rightarrow> kmem \<Rightarrow> (u32 \<times> kmem) result" where
  "alloc_loop 0 kend pgdir a oldsz newsz s = Inl (Diverges ''allocuvm'')"
| "alloc_loop (Suc n) kend pgdir a oldsz newsz s =
    (if a < newsz then
       (case kalloc s of (mem, t) \<Rightarrow>
         if mem = 0 then bind_r (deallocuvm kend pgdir newsz oldsz t) (\<lambda>(_, u). Inr (0, u))
         else let t1 = t\<lparr>ram := memset (ram t) mem 0 PGSIZE\<rparr> in
           bind_r (mappages pgdir a PGSIZE (V2P mem) (PTE_W OR PTE_U) t1) (\<lambda>(r, t2).
             if r < 0 then
               bind_r (deallocuvm kend pgdir newsz oldsz t2) (\<lambda>(_, u). bind_r (kfree kend mem u) (\<lambda>v. Inr (0, v)))
             else alloc_loop n kend pgdir (a + PGSIZE) oldsz newsz t2))
     else Inr (newsz, s))"

definition allocuvm :: "u32 \<Rightarrow> u32 \<Rightarrow> u32 \<Rightarrow> u32 \<Rightarrow> kmem \<Rightarrow> (u32 \<times> kmem) result" where
  "allocuvm kend pgdir oldsz newsz s =
    (if newsz \<ge> KERNBASE then Inr (0, s)
     else if newsz < oldsz then Inr (oldsz, s)
     else alloc_loop NPAGES kend pgdir (PGROUNDUP oldsz) oldsz newsz s)"

definition free_pde :: "u32 \<Rightarrow> u32 \<Rightarrow> nat \<Rightarrow> kmem \<Rightarrow> kmem result" where
  "free_pde kend pgdir i s =
    (let pde = getp s (pgdir + 4 * of_nat i) in
     if pde AND PTE_P \<noteq> 0 then kfree kend (P2V (PTE_ADDR pde)) s else Inr s)"

definition freevm :: "u32 \<Rightarrow> u32 \<Rightarrow> kmem \<Rightarrow> kmem result" where
  "freevm kend pgdir s =
    (if pgdir = 0 then Inl (Panic ''freevm: no pgdir'')
     else bind_r (deallocuvm kend pgdir KERNBASE 0 s) (\<lambda>(_, t).
       bind_r (fold_r (free_pde kend pgdir) [0..<NPDENTRIES] t) (kfree kend pgdir)))"

definition inituvm :: "u32 \<Rightarrow> u32 \<Rightarrow> u32 \<Rightarrow> kmem \<Rightarrow> kmem result" where
  "inituvm pgdir ini sz s =
    (if sz \<ge> PGSIZE then Inl (Panic ''inituvm: more than a page'')
     else case kalloc s of (mem, t) \<Rightarrow>
       let t1 = t\<lparr>ram := memset (ram t) mem 0 PGSIZE\<rparr> in
       bind_r (mappages pgdir 0 PGSIZE (V2P mem) (PTE_W OR PTE_U) t1)
         (\<lambda>(_, t2). Inr (t2\<lparr>ram := memmove (ram t2) mem ini sz\<rparr>)))"

definition clearpteu :: "u32 \<Rightarrow> u32 \<Rightarrow> kmem \<Rightarrow> kmem result" where
  "clearpteu pgdir uva s =
    (case walkpgdir pgdir uva False s of (pte, t) \<Rightarrow>
      if pte = 0 then Inl (Panic ''clearpteu'') else Inr (setp pte (getp t pte AND NOT PTE_U) t))"

section \<open>Kernel mappings and copies\<close>

definition kmap :: "u32 \<Rightarrow> (u32 \<times> u32 \<times> u32 \<times> u32) list" where
  "kmap kdata =
    [(KERNBASE, 0, EXTMEM, PTE_W), (KERNBASE + EXTMEM, V2P (KERNBASE + EXTMEM), V2P kdata, 0),
     (kdata, V2P kdata, PHYSTOP, PTE_W), (DEVSPACE, DEVSPACE, 0, PTE_W)]"

fun map_kernel :: "u32 \<Rightarrow> u32 \<Rightarrow> (u32 \<times> u32 \<times> u32 \<times> u32) list \<Rightarrow> kmem \<Rightarrow> (u32 \<times> kmem) result" where
  "map_kernel kend pgdir [] s = Inr (pgdir, s)"
| "map_kernel kend pgdir ((virt, phys_start, phys_end, perm) # ks) s =
    bind_r (mappages pgdir virt (phys_end - phys_start) phys_start perm s) (\<lambda>(r, t).
      if r < 0 then bind_r (freevm kend pgdir t) (\<lambda>u. Inr (0, u)) else map_kernel kend pgdir ks t)"

definition setupkvm :: "u32 \<Rightarrow> u32 \<Rightarrow> kmem \<Rightarrow> (u32 \<times> kmem) result" where
  "setupkvm kend kdata s =
    (case kalloc s of (pgdir, t) \<Rightarrow>
      if pgdir = 0 then Inr (0, t)
      else let t1 = t\<lparr>ram := memset (ram t) pgdir 0 PGSIZE\<rparr> in
        if P2V PHYSTOP > DEVSPACE then Inl (Panic ''PHYSTOP too high'')
        else map_kernel kend pgdir (kmap kdata) t1)"

fun copy_loop :: "nat \<Rightarrow> u32 \<Rightarrow> u32 \<Rightarrow> u32 \<Rightarrow> u32 \<Rightarrow> u32 \<Rightarrow> kmem \<Rightarrow> (u32 \<times> kmem) result" where
  "copy_loop 0 kend pgdir d i siz s = Inl (Diverges ''copyuvm'')"
| "copy_loop (Suc n) kend pgdir d i siz s =
    (if i < siz then
       (case walkpgdir pgdir i False s of (pte, t) \<Rightarrow>
         if pte = 0 then Inl (Panic ''copyuvm: pte should exist'')
         else if getp t pte AND PTE_P = 0 then Inl (Panic ''copyuvm: page not present'')
         else let pa = PTE_ADDR (getp t pte); flags = PTE_FLAGS (getp t pte) in
           (case kalloc t of (mem, t1) \<Rightarrow>
             if mem = 0 then bind_r (freevm kend d t1) (\<lambda>u. Inr (0, u))
             else let t2 = t1\<lparr>ram := memmove (ram t1) mem (P2V pa) PGSIZE\<rparr> in
               bind_r (mappages d i PGSIZE (V2P mem) flags t2) (\<lambda>(r, t3).
                 if r < 0 then bind_r (kfree kend mem t3) (\<lambda>t4. bind_r (freevm kend d t4) (\<lambda>u. Inr (0, u)))
                 else copy_loop n kend pgdir d (i + PGSIZE) siz t3)))
     else Inr (d, s))"

definition copyuvm :: "u32 \<Rightarrow> u32 \<Rightarrow> u32 \<Rightarrow> u32 \<Rightarrow> kmem \<Rightarrow> (u32 \<times> kmem) result" where
  "copyuvm kend kdata pgdir siz s =
    bind_r (setupkvm kend kdata s) (\<lambda>(d, t). if d = 0 then Inr (0, t) else copy_loop NPAGES kend pgdir d 0 siz t)"

text \<open>\<open>uva2ka\<close> dereferences the entry without testing for the null pointer.\<close>

definition uva2ka :: "u32 \<Rightarrow> u32 \<Rightarrow> kmem \<Rightarrow> u32 result" where
  "uva2ka pgdir uva s =
    (case walkpgdir pgdir uva False s of (pte, t) \<Rightarrow>
      if pte = 0 then Inl (Fault ''uva2ka: null pte'')
      else if getp t pte AND PTE_P = 0 then Inr 0
      else if getp t pte AND PTE_U = 0 then Inr 0
      else Inr (P2V (PTE_ADDR (getp t pte))))"

fun copyout_loop :: "nat \<Rightarrow> u32 \<Rightarrow> u32 \<Rightarrow> u32 \<Rightarrow> u32 \<Rightarrow> kmem \<Rightarrow> (int \<times> kmem) result" where
  "copyout_loop 0 pgdir va buf len s = Inl (Diverges ''copyout'')"
| "copyout_loop (Suc k) pgdir va buf len s =
    (if len > 0 then
       let va0 = PGROUNDDOWN va in
       bind_r (uva2ka pgdir va0 s) (\<lambda>pa0.
         if pa0 = 0 then Inr (-1, s)
         else let n0 = PGSIZE - (va - va0); n = (if n0 > len then len else n0)
              in copyout_loop k pgdir (va0 + PGSIZE) (buf + n) (len - n)
                   (s\<lparr>ram := memmove (ram s) (pa0 + (va - va0)) buf n\<rparr>))
     else Inr (0, s))"

definition copyout :: "u32 \<Rightarrow> u32 \<Rightarrow> u32 \<Rightarrow> u32 \<Rightarrow> kmem \<Rightarrow> (int \<times> kmem) result" where
  "copyout pgdir va p len s = copyout_loop (NPAGES + 2) pgdir va p len s"

section \<open>Index arithmetic\<close>

lemma unat_PDX: "unat (PDX va) = unat va div 4194304"
proof -
  have m: "(0x3FF :: u32) = mask 10" by (simp add: mask_eq_exp_minus_1)
  have "unat va div 4194304 < 1024" using unat_lt32[of va] by (simp add: less_mult_imp_div_less)
  then show ?thesis unfolding PDX_def m take_bit_eq_mask[symmetric]
    by (simp add: take_bit_eq_mod drop_bit_eq_div unat_mod unat_div)
qed

lemma unat_PTX: "unat (PTX va) = unat va div 4096 mod 1024"
proof -
  have m: "(0x3FF :: u32) = mask 10" by (simp add: mask_eq_exp_minus_1)
  show ?thesis unfolding PTX_def m take_bit_eq_mask[symmetric]
    by (simp add: take_bit_eq_mod drop_bit_eq_div unat_mod unat_div)
qed

lemma PDX_lt: "unat (PDX va) < 1024"
  unfolding unat_PDX using unat_lt32[of va] by (simp add: less_mult_imp_div_less)

lemma PTX_lt: "unat (PTX va) < 1024"
  by (simp add: unat_PTX)

lemma same_page: "PDX va = PDX vb \<and> PTX va = PTX vb \<longleftrightarrow> PGROUNDDOWN va = PGROUNDDOWN vb"
proof -
  have "unat va div 4096 div 1024 = unat vb div 4096 div 1024 \<and> unat va div 4096 mod 1024 = unat vb div 4096 mod 1024
      \<longleftrightarrow> unat va div 4096 = unat vb div 4096" by (metis div_mult_mod_eq)
  then show ?thesis by (simp add: word_unat_eq_iff unat_PDX unat_PTX unat_PGROUNDDOWN div_mult2_eq[symmetric])
qed

lemma entry_addr:
  assumes "aligned p" "unat i < 1024"
  shows "unat (p + 4 * i) = unat p + 4 * unat i" "in_page p (p + 4 * i)" "unat (p + 4 * i) mod 4 = 0"
proof -
  obtain k where k: "unat p = 4096 * k" using assms(1) by (auto simp: aligned_def)
  have "4096 * k + 4096 \<le> 4294967296" using k unat_lt32[of p] by simp
  then show u: "unat (p + 4 * i) = unat p + 4 * unat i" using assms(2) k by (simp add: unat_word_ariths)
  show "in_page p (p + 4 * i)" using assms(2) by (simp add: in_page_def inside_def u)
  show "unat (p + 4 * i) mod 4 = 0" unfolding u k by (simp add: mod_eq_0_iff_dvd dvd_add)
qed

lemma entry_inj: "aligned p \<Longrightarrow> unat i < 1024 \<Longrightarrow> unat j < 1024 \<Longrightarrow> p + 4 * i = p + 4 * j \<longleftrightarrow> i = j"
  using entry_addr(1)[of p i] entry_addr(1)[of p j] by (auto simp: word_unat_eq_iff)

lemma page_ok_high: "page_ok kend p \<Longrightarrow> 0x80000000 \<le> unat p"
  using V2P_bound(2)[of p] by (simp add: page_ok_def not_le)

lemma entry_nz:
  assumes "page_ok kend p" "unat i < 1024"
  shows "p + 4 * i \<noteq> 0"
proof -
  have "0x80000000 \<le> unat p" using assms(1) by (rule page_ok_high)
  then show ?thesis using assms entry_addr(1)[of p i] by (auto simp: page_ok_def word_unat_eq_iff)
qed

lemma off_word: "i < 4 \<Longrightarrow> j < 4 \<Longrightarrow> 4 * (c :: nat) + i = 4 * d + j \<Longrightarrow> c = d"
  by linarith

lemma get32_put32_other:
  assumes "unat a mod 4 = 0" "unat b mod 4 = 0" "a \<noteq> b"
  shows "get32 (put32 m a v) b = get32 m b"
proof -
  obtain c d where c: "unat a = 4 * c" "unat b = 4 * d" using assms(1,2) by (auto elim!: dvdE)
  have "4 * c < 4294967296" "4 * d < 4294967296" using unat_lt32[of a] unat_lt32[of b] c by simp_all
  then have "unat (a + of_nat i) = 4 * c + i" "unat (b + of_nat i) = 4 * d + i" if "i < 4" for i
    using that c by (simp_all add: unat_word_ariths unat_of_nat)
  moreover have "c \<noteq> d" using assms(3) c by (auto simp: word_unat_eq_iff)
  ultimately have ne: "b + of_nat i \<noteq> a + of_nat j" if "i < 4" "j < 4" for i j
    using that by (metis off_word)
  have "put32 m a v (b + of_nat i) = m (b + of_nat i)" if "i < 4" for i
    using ne[OF that, of 0] ne[OF that, of 1] ne[OF that, of 2] ne[OF that, of 3] by (simp add: put32_def)
  from this[of 0] this[of 1] this[of 2] this[of 3] show ?thesis by (intro get32_cong) simp_all
qed

lemma P2V_V2P [simp]: "P2V (V2P p) = p"
  by (simp add: P2V_def V2P_def)

lemma V2P_P2V [simp]: "V2P (P2V p) = p"
  by (simp add: P2V_def V2P_def)

lemma aligned_low_bits: "aligned p \<longleftrightarrow> take_bit 12 p = 0"
  by (simp add: aligned_def take_bit_eq_mod word_unat_eq_iff unat_mod)

lemma aligned_V2P:
  assumes "page_ok kend p"
  shows "aligned (V2P p)"
proof -
  have "unat (V2P p) = unat p - 0x80000000"
    using page_ok_high[OF assms] by (simp add: V2P_def KERNBASE_def unat_sub word_le_nat_alt)
  moreover have "4096 dvd unat p" using assms by (auto simp: page_ok_def aligned_def)
  ultimately show ?thesis by (auto simp: aligned_def mod_eq_0_iff_dvd intro!: dvd_diff_nat)
qed

lemma PTE_ADDR_or:
  assumes "aligned q" "f AND 0xFFF = f"
  shows "PTE_ADDR (q OR f) = q"
proof -
  have m: "(0xFFF :: u32) = mask 12" by (simp add: mask_eq_exp_minus_1)
  have q: "\<not> bit q i" if "i < 12" for i
    using assms(1) that by (metis aligned_low_bits bit_0_eq bit_take_bit_iff bot_apply bot_bool_def)
  have f: "\<not> bit f i" if "\<not> i < 12" for i using assms(2) that unfolding m by (metis bit_and_iff bit_mask_iff)
  show ?thesis unfolding PTE_ADDR_def m
    by (rule bit_word_eqI) (use q f in \<open>auto simp: bit_simps\<close>)
qed

section \<open>The address space of a page directory\<close>

definition present :: "u32 \<Rightarrow> bool" where "present w \<longleftrightarrow> w AND PTE_P \<noteq> 0"

definition pde :: "kmem \<Rightarrow> u32 \<Rightarrow> u32 \<Rightarrow> u32" where "pde s pgdir d = getp s (pgdir + 4 * d)"

definition tabp :: "u32 \<Rightarrow> u32" where "tabp w = P2V (PTE_ADDR w)"

definition dirs :: "kmem \<Rightarrow> u32 \<Rightarrow> u32 set" where
  "dirs s pgdir = {d. unat d < 1024 \<and> present (pde s pgdir d)}"

definition tables :: "kmem \<Rightarrow> u32 \<Rightarrow> u32 set" where
  "tables s pgdir = (\<lambda>d. tabp (pde s pgdir d)) ` dirs s pgdir"

text \<open>The entry of the page of \<open>va\<close>, 0 when the directory has no table for it.\<close>

definition entry :: "kmem \<Rightarrow> u32 \<Rightarrow> u32 \<Rightarrow> u32" where
  "entry s pgdir va = (if present (pde s pgdir (PDX va)) then getp s (tabp (pde s pgdir (PDX va)) + 4 * PTX va) else 0)"

text \<open>
  A well-formed page directory beside the free list \<open>xs\<close>: its page, the pages of its tables and the free
  pages are pages of the allocator, and all of them are different.
\<close>

definition pt_ok :: "u32 \<Rightarrow> kmem \<Rightarrow> u32 \<Rightarrow> u32 list \<Rightarrow> bool" where
  "pt_ok kend s pgdir xs \<longleftrightarrow> free_pages kend s xs \<and> page_ok kend pgdir \<and> pgdir \<notin> set xs \<and> pgdir \<notin> tables s pgdir \<and>
     tables s pgdir \<inter> set xs = {} \<and> (\<forall>p \<in> tables s pgdir. page_ok kend p) \<and> inj_on (\<lambda>d. tabp (pde s pgdir d)) (dirs s pgdir)"

lemma present_0 [simp]: "\<not> present 0"
  by (simp add: present_def)

lemma present_bit: "present w \<longleftrightarrow> bit w 0"
  by (simp add: present_def PTE_P_def and_one_eq mod_2_eq_odd bit_0)

lemma present_or [simp]: "present (a OR b) \<longleftrightarrow> present a \<or> present b"
  by (simp add: present_bit bit_or_iff)

lemma present_P [simp]: "present PTE_P"
  by (simp add: present_def PTE_P_def)

lemma page_ok_aligned: "page_ok kend p \<Longrightarrow> aligned p"
  by (simp add: page_ok_def)

lemma pt_okD:
  assumes "pt_ok kend s pgdir xs"
  shows "free_pages kend s xs" "page_ok kend pgdir" "aligned pgdir" "pgdir \<notin> set xs" "pgdir \<notin> tables s pgdir"
    "tables s pgdir \<inter> set xs = {}" "\<And>p. p \<in> tables s pgdir \<Longrightarrow> page_ok kend p \<and> aligned p"
    "inj_on (\<lambda>d. tabp (pde s pgdir d)) (dirs s pgdir)"
  using assms by (auto simp: pt_ok_def page_ok_def)

lemma table_in: "d \<in> dirs s pgdir \<Longrightarrow> tabp (pde s pgdir d) \<in> tables s pgdir"
  by (simp add: tables_def)

lemma dirs_PDX: "PDX va \<in> dirs s pgdir \<longleftrightarrow> present (pde s pgdir (PDX va))"
  by (simp add: dirs_def PDX_lt)

text \<open>Writing a page that is neither the directory nor one of its tables keeps the address space.\<close>

lemma pde_off:
  assumes "pt_ok kend s pgdir xs" "off_page q (ram s) (ram t)" "aligned q" "q \<noteq> pgdir" "unat d < 1024"
  shows "pde t pgdir d = pde s pgdir d"
  unfolding pde_def getp_def
  using assms(4) by (intro get32_off[OF assms(2,3) pt_okD(3)[OF assms(1)]] entry_addr pt_okD(3)[OF assms(1)] assms(5)) simp

lemma space_off:
  assumes "pt_ok kend s pgdir xs" "off_page q (ram s) (ram t)" "aligned q" "q \<noteq> pgdir" "q \<notin> tables s pgdir"
  shows "dirs t pgdir = dirs s pgdir" "tables t pgdir = tables s pgdir" "entry t pgdir va = entry s pgdir va"
proof -
  note p = pde_off[OF assms(1-4)]
  show d: "dirs t pgdir = dirs s pgdir" using p by (auto simp: dirs_def)
  show "tables t pgdir = tables s pgdir" unfolding tables_def d using p by (auto simp: dirs_def)
  show "entry t pgdir va = entry s pgdir va"
  proof (cases "present (pde s pgdir (PDX va))")
    case True
    let ?T = "tabp (pde s pgdir (PDX va))"
    have T: "?T \<in> tables s pgdir" using True by (intro table_in) (simp add: dirs_PDX)
    note a = conjunct2[OF pt_okD(7)[OF assms(1) T]]
    have "getp t (?T + 4 * PTX va) = getp s (?T + 4 * PTX va)"
      unfolding getp_def using T assms(5) by (intro get32_off[OF assms(2,3) a] entry_addr[OF a] PTX_lt) auto
    with True show ?thesis by (simp add: entry_def p PDX_lt)
  qed (simp add: entry_def p PDX_lt)
qed

lemma pt_ok_off:
  assumes "pt_ok kend s pgdir xs" "off_page q (ram s) (ram t)" "aligned q" "q \<noteq> pgdir" "q \<notin> tables s pgdir"
    and "free_pages kend t ys" "set ys \<inter> insert pgdir (tables s pgdir) = {}"
  shows "pt_ok kend t pgdir ys"
proof -
  note p = pde_off[OF assms(1-4)] and sp = space_off[OF assms(1-5)]
  have "inj_on (\<lambda>d. tabp (pde t pgdir d)) (dirs s pgdir) \<longleftrightarrow> inj_on (\<lambda>d. tabp (pde s pgdir d)) (dirs s pgdir)"
    by (rule inj_on_cong) (simp add: p dirs_def)
  then show ?thesis using assms(1,6,7) unfolding pt_ok_def sp by auto
qed

text \<open>Writing the entry of one page changes that entry only.\<close>

lemma set_entry:
  assumes "pt_ok kend s pgdir xs" "present (pde s pgdir (PDX va))"
    and t_def: "t = setp (tabp (pde s pgdir (PDX va)) + 4 * PTX va) v s"
  shows "pt_ok kend t pgdir xs" "dirs t pgdir = dirs s pgdir" "tables t pgdir = tables s pgdir"
    "off_page (tabp (pde s pgdir (PDX va))) (ram s) (ram t)"
    "entry t pgdir vb = (if PGROUNDDOWN vb = PGROUNDDOWN va then v else entry s pgdir vb)"
proof -
  let ?T = "tabp (pde s pgdir (PDX va))"
  note ok = pt_okD[OF assms(1)]
  have T: "?T \<in> tables s pgdir" using assms(2) by (intro table_in) (simp add: dirs_PDX)
  then have a: "aligned ?T" "?T \<noteq> pgdir" "?T \<notin> set xs" using ok by auto
  note ea = entry_addr[OF a(1) PTX_lt]
  show off: "off_page ?T (ram s) (ram t)" unfolding t_def by (simp add: setp_def off_page_put32[OF a(1) ea(2,3)])
  note p = pde_off[OF assms(1) off a(1,2)]
  show d: "dirs t pgdir = dirs s pgdir" using p by (auto simp: dirs_def)
  show tb: "tables t pgdir = tables s pgdir" unfolding tables_def d using p by (auto simp: dirs_def)
  have fr: "free_pages kend t xs" using free_pages_off[OF ok(1) off a(1,3)] by (simp add: t_def setp_def)
  have "inj_on (\<lambda>d. tabp (pde t pgdir d)) (dirs s pgdir) \<longleftrightarrow> inj_on (\<lambda>d. tabp (pde s pgdir d)) (dirs s pgdir)"
    by (rule inj_on_cong) (simp add: p dirs_def)
  then show "pt_ok kend t pgdir xs" using assms(1) fr unfolding pt_ok_def tb d by simp
  show "entry t pgdir vb = (if PGROUNDDOWN vb = PGROUNDDOWN va then v else entry s pgdir vb)"
  proof (cases "present (pde s pgdir (PDX vb))")
    case True
    let ?U = "tabp (pde s pgdir (PDX vb))"
    have U: "?U \<in> tables s pgdir" using True by (intro table_in) (simp add: dirs_PDX)
    note b = conjunct2[OF ok(7)[OF U]] note eb = entry_addr[OF b PTX_lt[of vb]]
    have UT: "?U = ?T \<longleftrightarrow> PDX vb = PDX va"
      using inj_onD[OF ok(8)] True assms(2) by (auto simp: dirs_PDX)
    have same: "?U + 4 * PTX vb = ?T + 4 * PTX va \<longleftrightarrow> PGROUNDDOWN vb = PGROUNDDOWN va"
    proof (cases "?U = ?T")
      case True
      then show ?thesis using entry_inj[OF a(1) PTX_lt PTX_lt, of vb va] UT by (simp add: same_page[symmetric])
    next
      case False
      then have "?U + 4 * PTX vb \<noteq> ?T + 4 * PTX va" using in_page_unique[OF b a(1), of "?U + 4 * PTX vb"] eb(2) ea(2) by auto
      then show ?thesis using False UT by (simp add: same_page[symmetric])
    qed
    have "getp t (?U + 4 * PTX vb) = (if ?U + 4 * PTX vb = ?T + 4 * PTX va then v else getp s (?U + 4 * PTX vb))"
      unfolding t_def getp_def setp_def using get32_put32_other[OF ea(3) eb(3)] by auto
    with True same show ?thesis by (simp add: entry_def p PDX_lt)
  next
    case False
    then have "PGROUNDDOWN vb \<noteq> PGROUNDDOWN va" using assms(2) by (auto simp: same_page[symmetric])
    with False show ?thesis by (simp add: entry_def p PDX_lt)
  qed
qed

section \<open>Mapping one page\<close>

definition frame :: "u32 set \<Rightarrow> mem \<Rightarrow> mem \<Rightarrow> bool" where
  "frame A m m' \<longleftrightarrow> (\<forall>b. (\<forall>p \<in> A. \<not> in_page p b) \<longrightarrow> m' b = m b)"

text \<open>From \<open>s\<close> to \<open>t\<close> the directory took the free pages \<open>zs\<close> as new tables; only the directory, its tables and these pages were written.\<close>

definition grows :: "u32 \<Rightarrow> u32 \<Rightarrow> kmem \<Rightarrow> u32 list \<Rightarrow> kmem \<Rightarrow> u32 list \<Rightarrow> bool" where
  "grows kend pgdir s xs t ys \<longleftrightarrow> pt_ok kend t pgdir ys \<and>
     (\<exists>zs. xs = zs @ ys \<and> tables t pgdir = set zs \<union> tables s pgdir \<and>
        frame (insert pgdir (set zs \<union> tables s pgdir)) (ram s) (ram t))"

lemma frame_refl [simp]: "frame A m m"
  by (simp add: frame_def)

lemma frame_trans: "frame A m m' \<Longrightarrow> frame B m' m'' \<Longrightarrow> A \<union> B \<subseteq> C \<Longrightarrow> frame C m m''"
  unfolding frame_def by (metis Un_iff subsetD)

lemma frame_off: "off_page p m m' \<Longrightarrow> p \<in> A \<Longrightarrow> frame A m m'"
  by (auto simp: frame_def off_page_def)

lemma frame_off_page: "frame A m m' \<Longrightarrow> (\<And>p. p \<in> A \<Longrightarrow> aligned p) \<Longrightarrow> aligned q \<Longrightarrow> q \<notin> A \<Longrightarrow> in_page q b \<Longrightarrow> m' b = m b"
  unfolding frame_def using in_page_unique by blast

lemma grows_refl: "pt_ok kend s pgdir xs \<Longrightarrow> grows kend pgdir s xs s xs"
  by (auto simp: grows_def)

lemma grows_trans:
  assumes "grows kend pgdir s xs t ys" "grows kend pgdir t ys u zs"
  shows "grows kend pgdir s xs u zs"
proof -
  obtain as where a: "xs = as @ ys" "tables t pgdir = set as \<union> tables s pgdir" "frame (insert pgdir (set as \<union> tables s pgdir)) (ram s) (ram t)"
    using assms(1) by (auto simp: grows_def)
  obtain bs where b: "ys = bs @ zs" "tables u pgdir = set bs \<union> tables t pgdir" "frame (insert pgdir (set bs \<union> tables t pgdir)) (ram t) (ram u)"
    using assms(2) by (auto simp: grows_def)
  have "frame (insert pgdir (set (as @ bs) \<union> tables s pgdir)) (ram s) (ram u)"
    by (rule frame_trans[OF a(3) b(3)]) (auto simp: a(2))
  then show ?thesis using a(1,2) b(1,2) assms(2) unfolding grows_def by (intro conjI exI[of _ "as @ bs"]) auto
qed

lemma get32_zero: "m a = 0 \<Longrightarrow> m (a + 1) = 0 \<Longrightarrow> m (a + 2) = 0 \<Longrightarrow> m (a + 3) = 0 \<Longrightarrow> get32 m a = 0"
  by (simp add: get32_def)

lemma memset_page: "aligned x \<Longrightarrow> in_page x b \<Longrightarrow> memset m x c PGSIZE b = ucast c"
proof -
  assume x: "aligned x" "in_page x b"
  then obtain i where i: "i < 4096" "b = x + of_nat i" using inside_off[OF aligned_fits[OF x(1)]] by (auto simp: in_page_def)
  then show ?thesis
    using wr_apply(1)[of x "replicate 4096 (ucast c)" i] aligned_fits[OF x(1)] by (simp add: memset_wr PGSIZE_def)
qed

lemma memset_zero_word:
  assumes "aligned x" "unat i < 1024"
  shows "get32 (memset m x 0 PGSIZE) (x + 4 * i) = 0"
proof -
  note e = entry_addr[OF assms]
  have "memset m x 0 PGSIZE (x + 4 * i + of_nat k) = 0" if "k < 4" for k
    using memset_page[OF assms(1) word_in_page[OF assms(1) e(2,3) that], of m 0] by simp
  from this[of 0] this[of 1] this[of 2] this[of 3] show ?thesis by (intro get32_zero) simp_all
qed

text \<open>A new table for \<open>va\<close>: the free page \<open>x\<close>, zeroed, and the directory entry that refers to it.\<close>

lemma new_table:
  assumes "pt_ok kend s pgdir (x # ys)" "\<not> present (pde s pgdir (PDX va))"
    and t: "t = setp (pgdir + 4 * PDX va) (V2P x OR PTE_P OR PTE_W OR PTE_U)
      (s\<lparr>freelist := get32 (ram s) x, ram := memset (ram s) x 0 PGSIZE\<rparr>)"
  shows "grows kend pgdir s (x # ys) t ys" "pde t pgdir (PDX va) = V2P x OR PTE_P OR PTE_W OR PTE_U"
    "tabp (pde t pgdir (PDX va)) = x" "entry t pgdir vb = entry s pgdir vb"
proof -
  note ok = pt_okD[OF assms(1)]
  have x: "page_ok kend x" "x \<notin> set ys" "x \<noteq> pgdir" "x \<notin> tables s pgdir"
    using ok kalloc_cons[OF ok(1)] by auto
  note ax = page_ok_aligned[OF x(1)]
  let ?u = "s\<lparr>freelist := get32 (ram s) x, ram := memset (ram s) x 0 PGSIZE\<rparr>"
  have off: "off_page x (ram s) (ram ?u)" using off_page_memset[OF ax] by simp
  have fu: "free_pages kend ?u ys"
    using free_pages_off[OF _ _ ax x(2), of kend "s\<lparr>freelist := get32 (ram s) x\<rparr>"] kalloc_cons[OF ok(1)] off by simp
  have u: "pt_ok kend ?u pgdir ys" by (rule pt_ok_off[OF assms(1) off ax x(3,4) fu]) (use ok in auto)
  note su = space_off[OF assms(1) off ax x(3,4)]
  note e = entry_addr[OF ok(3) PDX_lt[of va]]
  have offt: "off_page pgdir (ram ?u) (ram t)" unfolding t by (simp add: setp_def off_page_put32[OF ok(3) e(2,3)])
  have pd: "pde t pgdir d = (if d = PDX va then V2P x OR PTE_P OR PTE_W OR PTE_U else pde s pgdir d)" if "unat d < 1024" for d
    using get32_put32_other[OF e(3) entry_addr(3)[OF ok(3) that]] entry_inj[OF ok(3) PDX_lt that, of va]
      pde_off[OF assms(1) off ax x(3) that] by (auto simp: t pde_def getp_def setp_def)
  show pv: "pde t pgdir (PDX va) = V2P x OR PTE_P OR PTE_W OR PTE_U" by (simp add: pd PDX_lt)
  have flags: "(PTE_P OR PTE_W OR PTE_U) AND 0xFFF = PTE_P OR PTE_W OR PTE_U" by (simp add: PTE_P_def PTE_W_def PTE_U_def)
  show tv: "tabp (pde t pgdir (PDX va)) = x"
    unfolding pv tabp_def using PTE_ADDR_or[OF aligned_V2P[OF x(1)] flags] by simp
  have nd: "PDX va \<notin> dirs s pgdir" using assms(2) by (simp add: dirs_PDX)
  have d: "dirs t pgdir = insert (PDX va) (dirs s pgdir)" by (auto simp: dirs_def pd PDX_lt)
  have same: "tabp (pde t pgdir d) = tabp (pde s pgdir d)" if "d \<in> dirs s pgdir" for d
    using that nd by (auto simp: dirs_def pd)
  have tb: "tables t pgdir = insert x (tables s pgdir)" unfolding tables_def d using same tv by auto
  have "inj_on (\<lambda>d. tabp (pde t pgdir d)) (dirs s pgdir)" using ok(8) same by (simp add: inj_on_def)
  moreover have "x \<notin> (\<lambda>d. tabp (pde t pgdir d)) ` dirs s pgdir" using x(4) same by (auto simp: tables_def)
  ultimately have inj: "inj_on (\<lambda>d. tabp (pde t pgdir d)) (dirs t pgdir)" unfolding d using tv nd by simp
  have "free_pages kend t ys" using free_pages_off[OF fu offt ok(3)] ok(4) by (simp add: t setp_def)
  then have pt: "pt_ok kend t pgdir ys" using ok x inj unfolding pt_ok_def tb by auto
  have "frame {x, pgdir} (ram s) (ram t)" by (rule frame_trans[OF frame_off[OF off] frame_off[OF offt]]) auto
  then have "frame (insert pgdir (set [x] \<union> tables s pgdir)) (ram s) (ram t)" by (auto simp: frame_def)
  then show "grows kend pgdir s (x # ys) t ys" using pt tb unfolding grows_def by (intro conjI exI[of _ "[x]"]) auto
  show "entry t pgdir vb = entry s pgdir vb"
  proof (cases "PDX vb = PDX va")
    case True
    have "getp t (x + 4 * PTX vb) = getp ?u (x + 4 * PTX vb)"
      unfolding getp_def using x(3) by (intro get32_off[OF offt ok(3) ax] entry_addr[OF ax PTX_lt]) auto
    also have "\<dots> = 0" using memset_zero_word[OF ax PTX_lt] by (simp add: getp_def)
    finally show ?thesis using True assms(2) tv by (simp add: entry_def)
  next
    case False
    have "entry t pgdir vb = entry ?u pgdir vb"
    proof (cases "present (pde s pgdir (PDX vb))")
      case p: True
      let ?U = "tabp (pde s pgdir (PDX vb))"
      have U: "?U \<in> tables s pgdir" using p by (intro table_in) (simp add: dirs_PDX)
      note aU = conjunct2[OF ok(7)[OF U]]
      have "getp t (?U + 4 * PTX vb) = getp ?u (?U + 4 * PTX vb)"
        unfolding getp_def using U ok(5) by (intro get32_off[OF offt ok(3) aU] entry_addr[OF aU PTX_lt]) auto
      then show ?thesis using False p by (simp add: entry_def pd PDX_lt pde_off[OF assms(1) off ax x(3)])
    qed (use False in \<open>simp add: entry_def pd PDX_lt pde_off[OF assms(1) off ax x(3)]\<close>)
    then show ?thesis by (simp add: su)
  qed
qed

lemma walk_alloc:
  assumes "pt_ok kend s pgdir xs" "walkpgdir pgdir va True s = (pte, t)"
  shows "pte = 0 \<and> t = s \<and> xs = [] \<or>
    (\<exists>ys. pte \<noteq> 0 \<and> grows kend pgdir s xs t ys \<and> length xs \<le> Suc (length ys) \<and> present (pde t pgdir (PDX va)) \<and>
       pte = tabp (pde t pgdir (PDX va)) + 4 * PTX va \<and> (\<forall>vb. entry t pgdir vb = entry s pgdir vb))"
proof (cases "present (pde s pgdir (PDX va))")
  case True
  then have w: "pte = tabp (pde s pgdir (PDX va)) + 4 * PTX va" "t = s"
    using assms(2) by (auto simp: walkpgdir_def Let_def present_def pde_def tabp_def)
  have "page_ok kend (tabp (pde s pgdir (PDX va)))"
    using True pt_okD(7)[OF assms(1)] by (simp add: table_in dirs_PDX)
  then have "pte \<noteq> 0" unfolding w by (rule entry_nz) (rule PTX_lt)
  with w True grows_refl[OF assms(1)] show ?thesis by (intro disjI2 exI[of _ xs]) simp
next
  case False
  note ok = pt_okD[OF assms(1)]
  show ?thesis
  proof (cases xs)
    case Nil
    then show ?thesis using assms(2) False kalloc_nil ok(1) by (simp add: walkpgdir_def Let_def present_def pde_def)
  next
    case (Cons x ys)
    let ?t = "setp (pgdir + 4 * PDX va) (V2P x OR PTE_P OR PTE_W OR PTE_U) (s\<lparr>freelist := get32 (ram s) x, ram := memset (ram s) x 0 PGSIZE\<rparr>)"
    have k: "kalloc s = (x, s\<lparr>freelist := get32 (ram s) x\<rparr>)" "page_ok kend x" using kalloc_cons ok(1) Cons by auto
    then have w: "pte = x + 4 * PTX va" "t = ?t"
      using assms(2) False page_ok_nz[OF k(2)] by (simp_all add: walkpgdir_def Let_def present_def pde_def)
    have "pt_ok kend s pgdir (x # ys)" using assms(1) Cons by simp
    note n = new_table[OF this False w(2)]
    have "pte \<noteq> 0" unfolding w by (rule entry_nz[OF k(2) PTX_lt])
    then show ?thesis using n w Cons by (intro disjI2 exI[of _ ys]) simp
  qed
qed

lemma PGROUNDDOWN_aligned: "aligned a \<Longrightarrow> PGROUNDDOWN a = a"
  using in_page_iff[of a a] by simp

lemma page_last: "aligned a \<Longrightarrow> PGROUNDDOWN (a + PGSIZE - 1) = a"
proof -
  assume a: "aligned a"
  have "unat (a + of_nat 4095) = unat a + 4095" by (rule unat_off[OF aligned_fits[OF a]]) simp
  then have "in_page a (a + PGSIZE - 1)" by (simp add: in_page_def inside_def PGSIZE_def add.commute)
  then show ?thesis using a by (simp add: in_page_iff)
qed

lemma mappages_one:
  assumes "pt_ok kend s pgdir xs" "aligned a" "\<not> present (entry s pgdir a)"
  shows "mappages pgdir a PGSIZE pa perm s = Inr (-1, s) \<and> xs = [] \<or>
    (\<exists>t ys. mappages pgdir a PGSIZE pa perm s = Inr (0, t) \<and> grows kend pgdir s xs t ys \<and> length xs \<le> Suc (length ys) \<and>
       (\<forall>vb. entry t pgdir vb = (if PGROUNDDOWN vb = a then pa OR perm OR PTE_P else entry s pgdir vb)))"
proof -
  obtain n where n: "NPAGES = Suc n" by (simp add: NPAGES_def not0_implies_Suc)
  note a = PGROUNDDOWN_aligned[OF assms(2)]
  obtain pte t where w: "walkpgdir pgdir a True s = (pte, t)" by fastforce
  have m: "mappages pgdir a PGSIZE pa perm s = (if pte = 0 then Inr (-1, t)
      else if getp t pte AND PTE_P \<noteq> 0 then Inl (Panic ''remap'') else Inr (0, setp pte (pa OR perm OR PTE_P) t))"
    by (simp add: mappages_def n page_last[OF assms(2)] a w Let_def)
  from walk_alloc[OF assms(1) w] show ?thesis
  proof
    assume "pte = 0 \<and> t = s \<and> xs = []"
    then show ?thesis by (simp add: m)
  next
    assume "\<exists>ys. pte \<noteq> 0 \<and> grows kend pgdir s xs t ys \<and> length xs \<le> Suc (length ys) \<and> present (pde t pgdir (PDX a)) \<and>
       pte = tabp (pde t pgdir (PDX a)) + 4 * PTX a \<and> (\<forall>vb. entry t pgdir vb = entry s pgdir vb)"
    then obtain ys where y: "pte \<noteq> 0" "grows kend pgdir s xs t ys" "present (pde t pgdir (PDX a))"
      "pte = tabp (pde t pgdir (PDX a)) + 4 * PTX a" "\<And>vb. entry t pgdir vb = entry s pgdir vb" "length xs \<le> Suc (length ys)" by blast
    let ?u = "setp pte (pa OR perm OR PTE_P) t"
    have pt: "pt_ok kend t pgdir ys" using y(2) by (simp add: grows_def)
    have "getp t pte = entry s pgdir a" using y(3,4) y(5)[of a] by (simp add: entry_def)
    then have r: "mappages pgdir a PGSIZE pa perm s = Inr (0, ?u)" using assms(3) y(1) by (simp add: m present_def)
    have "?u = setp (tabp (pde t pgdir (PDX a)) + 4 * PTX a) (pa OR perm OR PTE_P) t" using y(4) by simp
    note se = set_entry[OF pt y(3) this]
    have T: "tabp (pde t pgdir (PDX a)) \<in> tables t pgdir" using y(3) by (intro table_in) (simp add: dirs_PDX)
    have "grows kend pgdir t ys ?u ys"
      unfolding grows_def using se(1,3) frame_off[OF se(4), of "insert pgdir (tables t pgdir)"] T by (intro conjI exI[of _ "[]"]) auto
    then have "grows kend pgdir s xs ?u ys" by (rule grows_trans[OF y(2)])
    then show ?thesis using r se(5) a y(5,6) by (intro disjI2 exI[of _ ?u] exI[of _ ys]) simp
  qed
qed

section \<open>User pages\<close>

definition leaf :: "kmem \<Rightarrow> u32 \<Rightarrow> u32 \<Rightarrow> u32" where
  "leaf s pgdir va = P2V (PTE_ADDR (entry s pgdir va))"

definition mapped :: "kmem \<Rightarrow> u32 \<Rightarrow> u32 \<Rightarrow> bool" where
  "mapped s pgdir va \<longleftrightarrow> va < KERNBASE \<and> present (entry s pgdir va)"

definition users :: "kmem \<Rightarrow> u32 \<Rightarrow> u32 set" where
  "users s pgdir = {leaf s pgdir va | va. mapped s pgdir va}"

text \<open>
  A well-formed address space: the directory is well formed, and the pages mapped below \<open>KERNBASE\<close> are
  allocator pages, mapped once each, and neither free nor part of the page table.
\<close>

definition space_ok :: "u32 \<Rightarrow> kmem \<Rightarrow> u32 \<Rightarrow> u32 list \<Rightarrow> bool" where
  "space_ok kend s pgdir xs \<longleftrightarrow> KERNBASE < kend \<and> pt_ok kend s pgdir xs \<and> (\<forall>p \<in> users s pgdir. page_ok kend p) \<and>
     users s pgdir \<inter> (insert pgdir (set xs \<union> tables s pgdir)) = {} \<and>
     (\<forall>va vb. mapped s pgdir va \<longrightarrow> mapped s pgdir vb \<longrightarrow> leaf s pgdir va = leaf s pgdir vb \<longrightarrow> PGROUNDDOWN va = PGROUNDDOWN vb)"

lemma space_okD:
  assumes "space_ok kend s pgdir xs"
  shows "KERNBASE < kend" "pt_ok kend s pgdir xs" "\<And>p. p \<in> users s pgdir \<Longrightarrow> page_ok kend p \<and> p \<noteq> pgdir \<and> p \<notin> set xs \<and> p \<notin> tables s pgdir"
    "\<And>va vb. mapped s pgdir va \<Longrightarrow> mapped s pgdir vb \<Longrightarrow> leaf s pgdir va = leaf s pgdir vb \<Longrightarrow> PGROUNDDOWN va = PGROUNDDOWN vb"
  using assms unfolding space_ok_def by blast+

lemma usersI: "mapped s pgdir va \<Longrightarrow> leaf s pgdir va \<in> users s pgdir"
  by (auto simp: users_def)

lemma PGROUNDDOWN_user: "PGROUNDDOWN va < KERNBASE \<longleftrightarrow> va < KERNBASE"
proof -
  have "unat va div 4096 * 4096 < 2147483648 \<longleftrightarrow> unat va < 2147483648"
    using div_less_iff_less_mult[of 4096 "unat va" 524288] by simp
  then show ?thesis by (simp add: word_less_nat_alt unat_PGROUNDDOWN KERNBASE_def)
qed

lemma entry_page: "PGROUNDDOWN va = PGROUNDDOWN vb \<Longrightarrow> entry s pgdir va = entry s pgdir vb"
  unfolding same_page[symmetric] by (simp add: entry_def)

lemma mapped_page: "PGROUNDDOWN va = PGROUNDDOWN vb \<Longrightarrow> mapped s pgdir va = mapped s pgdir vb"
  unfolding mapped_def using entry_page[of va vb] PGROUNDDOWN_user[of va] PGROUNDDOWN_user[of vb] by simp

text \<open>Adding the mapping of one page.\<close>

lemma space_ok_add:
  assumes "space_ok kend s pgdir xs" "grows kend pgdir s xs t ys" "aligned a" "a < KERNBASE" "\<not> present (entry s pgdir a)"
    and e: "\<And>vb. entry t pgdir vb = (if PGROUNDDOWN vb = a then v else entry s pgdir vb)"
    and x: "present v" "P2V (PTE_ADDR v) = x" "page_ok kend x" "x \<notin> insert pgdir (set xs \<union> tables s pgdir \<union> users s pgdir)"
  shows "space_ok kend t pgdir ys" "users t pgdir = insert x (users s pgdir)"
proof -
  note ok = space_okD[OF assms(1)]
  obtain zs where z: "xs = zs @ ys" "tables t pgdir = set zs \<union> tables s pgdir" using assms(2) by (auto simp: grows_def)
  have m: "mapped t pgdir vb \<longleftrightarrow> PGROUNDDOWN vb = a \<or> mapped s pgdir vb" for vb
    using PGROUNDDOWN_user[of vb] assms(4,5) x(1) entry_page[of vb a s pgdir] by (auto simp: mapped_def e PGROUNDDOWN_aligned[OF assms(3)])
  have l: "leaf t pgdir vb = (if PGROUNDDOWN vb = a then x else leaf s pgdir vb)" for vb by (simp add: leaf_def e x(2))
  have n: "\<not> mapped s pgdir vb" if "PGROUNDDOWN vb = a" for vb
    using assms(5) that entry_page[of vb a s pgdir] PGROUNDDOWN_aligned[OF assms(3)] by (simp add: mapped_def)
  show u: "users t pgdir = insert x (users s pgdir)"
  proof
    show "users t pgdir \<subseteq> insert x (users s pgdir)" by (auto simp: users_def m l)
    show "insert x (users s pgdir) \<subseteq> users t pgdir"
      using usersI[of t pgdir a] n by (auto simp: users_def m l PGROUNDDOWN_aligned[OF assms(3)])
  qed
  have "PGROUNDDOWN va = PGROUNDDOWN vb" if "mapped t pgdir va" "mapped t pgdir vb" "leaf t pgdir va = leaf t pgdir vb" for va vb
  proof -
    have "leaf s pgdir w \<noteq> x" if "mapped s pgdir w" for w using usersI[OF that] x(4) by auto
    then show ?thesis using that ok(4)[of va vb] by (auto simp: m l split: if_splits)
  qed
  moreover have "pt_ok kend t pgdir ys" using assms(2) by (simp add: grows_def)
  moreover have "\<forall>p \<in> insert x (users s pgdir). page_ok kend p" using ok(3) x(3) by blast
  moreover have "insert x (users s pgdir) \<inter> insert pgdir (set ys \<union> tables t pgdir) = {}"
    unfolding z(2) using ok(3) x(4) by (fastforce simp: z(1))
  ultimately show "space_ok kend t pgdir ys" unfolding space_ok_def u using ok(1) by blast
qed

text \<open>Freeing the page of \<open>a\<close> and clearing its entry.\<close>

lemma space_ok_free:
  assumes "space_ok kend s pgdir xs" "mapped s pgdir a" "aligned a"
  defines "pte \<equiv> tabp (pde s pgdir (PDX a)) + 4 * PTX a"
  shows "\<exists>u. kfree kend (leaf s pgdir a) s = Inr u \<and> space_ok kend (setp pte 0 u) pgdir (leaf s pgdir a # xs) \<and>
     tables (setp pte 0 u) pgdir = tables s pgdir \<and> users (setp pte 0 u) pgdir = users s pgdir - {leaf s pgdir a} \<and>
     (\<forall>vb. entry (setp pte 0 u) pgdir vb = (if PGROUNDDOWN vb = a then 0 else entry s pgdir vb))"
proof -
  let ?l = "leaf s pgdir a"
  note ok = space_okD[OF assms(1)] note pk = pt_okD[OF ok(2)]
  note u = ok(3)[OF usersI[OF assms(2)]]
  obtain t where t: "kfree kend ?l s = Inr t" "free_pages kend t (?l # xs)" "off_page ?l (ram s) (ram t)"
    using kfree_ok[OF pk(1)] u by blast
  have al: "aligned ?l" using u by (auto intro: page_ok_aligned)
  have q: "?l \<noteq> pgdir" "?l \<notin> tables s pgdir" using u by auto
  have pt: "pt_ok kend t pgdir (?l # xs)" by (rule pt_ok_off[OF ok(2) t(3) al q t(2)]) (use pk q in auto)
  note sp = space_off[OF ok(2) t(3) al q] note pd = pde_off[OF ok(2) t(3) al q(1) PDX_lt]
  have pr: "present (pde s pgdir (PDX a))" using assms(2) by (auto simp: mapped_def entry_def split: if_splits)
  let ?v = "setp pte 0 t"
  have "?v = setp (tabp (pde t pgdir (PDX a)) + 4 * PTX a) 0 t" by (simp add: pte_def pd)
  moreover have "present (pde t pgdir (PDX a))" using pr by (simp add: pd)
  ultimately have se: "pt_ok kend ?v pgdir (?l # xs)" "tables ?v pgdir = tables s pgdir"
      "\<And>vb. entry ?v pgdir vb = (if PGROUNDDOWN vb = PGROUNDDOWN a then 0 else entry t pgdir vb)"
    using set_entry[OF pt, of a ?v 0] sp(2) by auto
  have e: "entry ?v pgdir vb = (if PGROUNDDOWN vb = a then 0 else entry s pgdir vb)" for vb
    by (simp add: se(3) sp(3) PGROUNDDOWN_aligned[OF assms(3)])
  have m: "mapped ?v pgdir vb \<longleftrightarrow> PGROUNDDOWN vb \<noteq> a \<and> mapped s pgdir vb" for vb by (simp add: mapped_def e)
  have l: "leaf ?v pgdir vb = leaf s pgdir vb" if "PGROUNDDOWN vb \<noteq> a" for vb using that by (simp add: leaf_def e)
  have us: "users ?v pgdir = users s pgdir - {?l}"
  proof
    show "users ?v pgdir \<subseteq> users s pgdir - {?l}"
      using ok(4)[OF _ assms(2)] PGROUNDDOWN_aligned[OF assms(3)] by (auto simp: users_def m l)
    show "users s pgdir - {?l} \<subseteq> users ?v pgdir"
    proof
      fix p assume "p \<in> users s pgdir - {?l}"
      then obtain vb where vb: "p = leaf s pgdir vb" "mapped s pgdir vb" "p \<noteq> ?l" by (auto simp: users_def)
      then have "PGROUNDDOWN vb \<noteq> a" using entry_page[of vb a s pgdir] PGROUNDDOWN_aligned[OF assms(3)] by (auto simp: leaf_def)
      then show "p \<in> users ?v pgdir" using vb usersI[of ?v pgdir vb] by (simp add: m l)
    qed
  qed
  have "space_ok kend ?v pgdir (?l # xs)"
    unfolding space_ok_def us se(2) using ok(1,3) ok(4) se(1) by (auto simp: m l)
  then show ?thesis using t(1) se(2) us e by blast
qed

section \<open>Ranges of pages\<close>

definition in_rng :: "u32 \<Rightarrow> u32 \<Rightarrow> u32 \<Rightarrow> bool" where
  "in_rng a z va \<longleftrightarrow> unat a \<le> unat (PGROUNDDOWN va) \<and> unat (PGROUNDDOWN va) < unat z"

lemma in_rng_empty: "unat z \<le> unat a \<Longrightarrow> \<not> in_rng a z va"
  by (simp add: in_rng_def)

lemma next_page:
  assumes "aligned a" "unat a < 0x80000000"
  shows "unat (a + PGSIZE) = unat a + 4096" "aligned (a + PGSIZE)"
proof -
  show "unat (a + PGSIZE) = unat a + 4096" using assms(2) by (simp add: PGSIZE_def unat_word_ariths)
  then show "aligned (a + PGSIZE)" using assms(1) by (simp add: aligned_def)
qed

lemma in_rng_step:
  assumes "aligned a" "unat a < unat z" "unat z \<le> 0x80000000"
  shows "in_rng a z va \<longleftrightarrow> PGROUNDDOWN va = a \<or> in_rng (a + PGSIZE) z va"
proof -
  obtain k where k: "unat a = 4096 * k" using assms(1) by (auto simp: aligned_def elim!: dvdE)
  obtain j where j: "unat (PGROUNDDOWN va) = 4096 * j" by (simp add: unat_PGROUNDDOWN)
  have "unat (a + PGSIZE) = 4096 * Suc k" using next_page(1)[OF assms(1)] assms k by simp
  moreover have "4096 * k \<le> 4096 * j \<longleftrightarrow> j = k \<or> 4096 * Suc k \<le> 4096 * j" by auto
  ultimately show ?thesis using assms(2) by (auto simp: in_rng_def word_unat_eq_iff j k)
qed

text \<open>Skipping to the next directory entry.\<close>

lemma next_dir:
  assumes "unat a < 0x80000000"
  defines "b \<equiv> PGADDR (PDX a + 1) 0 0 - PGSIZE + PGSIZE"
  shows "unat b = (unat a div 4194304 + 1) * 4194304" "aligned b" "unat a < unat b"
proof -
  have d: "unat a div 4194304 < 512" using assms(1) by (simp add: less_mult_imp_div_less)
  have "b = push_bit 22 (PDX a + 1)" by (simp add: b_def PGADDR_def)
  then have "b = PDX a * 4194304 + 4194304" by (simp add: push_bit_eq_mult)
  moreover have "unat (PDX a * 4194304) = unat a div 4194304 * 4194304" using d by (simp add: unat_word_ariths unat_PDX)
  ultimately show u: "unat b = (unat a div 4194304 + 1) * 4194304" using d by (simp add: unat_word_ariths)
  then show "aligned b" by (simp add: aligned_def mod_eq_0_iff_dvd)
  show "unat a < unat b" unfolding u using dividend_less_div_times[of 4194304 "unat a"] by simp
qed

lemma in_rng_dir:
  assumes "unat a < 0x80000000" "in_rng a z va" "\<not> in_rng (PGADDR (PDX a + 1) 0 0 - PGSIZE + PGSIZE) z va"
  shows "PDX va = PDX a"
proof -
  have "unat a \<le> unat (PGROUNDDOWN va)" "unat (PGROUNDDOWN va) < (unat a div 4194304 + 1) * 4194304"
    using assms next_dir(1)[OF assms(1)] by (auto simp: in_rng_def)
  then have "unat (PGROUNDDOWN va) div 4194304 = unat a div 4194304"
    using div_le_mono[of "unat a" "unat (PGROUNDDOWN va)" 4194304] less_mult_imp_div_less[of "unat (PGROUNDDOWN va)" "unat a div 4194304 + 1" 4194304]
    by simp
  then have "PDX (PGROUNDDOWN va) = PDX a" by (simp add: word_unat_eq_iff unat_PDX)
  moreover have "PDX (PGROUNDDOWN va) = PDX va" using same_page[of "PGROUNDDOWN va" va] PGROUNDDOWN_aligned by simp
  ultimately show ?thesis by simp
qed

lemma walk_noalloc:
  assumes "pt_ok kend s pgdir xs"
  shows "walkpgdir pgdir va False s = (if present (pde s pgdir (PDX va)) then tabp (pde s pgdir (PDX va)) + 4 * PTX va else 0, s)"
    "present (pde s pgdir (PDX va)) \<Longrightarrow> tabp (pde s pgdir (PDX va)) + 4 * PTX va \<noteq> 0 \<and>
       getp s (tabp (pde s pgdir (PDX va)) + 4 * PTX va) = entry s pgdir va"
proof -
  show "walkpgdir pgdir va False s = (if present (pde s pgdir (PDX va)) then tabp (pde s pgdir (PDX va)) + 4 * PTX va else 0, s)"
    by (simp add: walkpgdir_def Let_def present_def pde_def tabp_def)
  assume p: "present (pde s pgdir (PDX va))"
  then have "page_ok kend (tabp (pde s pgdir (PDX va)))" using pt_okD(7)[OF assms] by (simp add: table_in dirs_PDX)
  then show "tabp (pde s pgdir (PDX va)) + 4 * PTX va \<noteq> 0 \<and> getp s (tabp (pde s pgdir (PDX va)) + 4 * PTX va) = entry s pgdir va"
    using entry_nz PTX_lt p by (simp add: entry_def)
qed

lemma leaf_nz:
  assumes "space_ok kend s pgdir xs" "mapped s pgdir va"
  shows "PTE_ADDR (entry s pgdir va) \<noteq> 0"
proof
  assume "PTE_ADDR (entry s pgdir va) = 0"
  then have "leaf s pgdir va = KERNBASE" by (simp add: leaf_def P2V_def)
  moreover have "kend \<le> leaf s pgdir va" "KERNBASE < kend"
    using space_okD(1)[OF assms(1)] space_okD(3)[OF assms(1) usersI[OF assms(2)]] by (auto simp: page_ok_def)
  ultimately show False by simp
qed

section \<open>Shrinking and freeing\<close>

text \<open>\<open>unmapped s xs t ys a z\<close>: the pages of \<open>[a, z)\<close> are unmapped in \<open>t\<close>, the rest is as in \<open>s\<close>, and no page is lost.\<close>

definition unmapped :: "u32 \<Rightarrow> u32 \<Rightarrow> kmem \<Rightarrow> u32 list \<Rightarrow> kmem \<Rightarrow> u32 list \<Rightarrow> u32 \<Rightarrow> u32 \<Rightarrow> bool" where
  "unmapped kend pgdir s xs t ys a z \<longleftrightarrow> space_ok kend t pgdir ys \<and> tables t pgdir = tables s pgdir \<and>
     set ys \<union> users t pgdir = set xs \<union> users s pgdir \<and>
     (\<forall>va. in_rng a z va \<longrightarrow> \<not> present (entry t pgdir va)) \<and> (\<forall>va. \<not> in_rng a z va \<longrightarrow> entry t pgdir va = entry s pgdir va)"

lemma dealloc_loop_spec:
  assumes "space_ok kend s pgdir xs" "aligned a" "unat oldsz \<le> 0x80000000" "unat oldsz \<le> unat a + 4096 * n"
  shows "\<exists>t ys. dealloc_loop (Suc n) kend pgdir a oldsz s = Inr t \<and> unmapped kend pgdir s xs t ys a oldsz"
  using assms
proof (induction n arbitrary: a s xs)
  case 0
  then show ?case by (auto simp: unmapped_def word_less_nat_alt in_rng_empty)
next
  case (Suc n)
  show ?case
  proof (cases "unat a < unat oldsz")
    case False
    then show ?thesis using Suc.prems(1) by (intro exI[of _ s] exI[of _ xs]) (simp add: unmapped_def word_less_nat_alt in_rng_empty)
  next
    case True
    have lt: "unat a < 0x80000000" using True Suc.prems(3) by simp
    have au: "a < KERNBASE" using lt by (simp add: word_less_nat_alt KERNBASE_def)
    note pt = space_okD(2)[OF Suc.prems(1)] note w = walk_noalloc[OF pt, of a]
    note np = next_page[OF Suc.prems(2) lt] note step = in_rng_step[OF Suc.prems(2) True Suc.prems(3)]
    have fuel: "unat oldsz \<le> unat (a + PGSIZE) + 4096 * n" using np Suc.prems(4) by simp
    have go: "dealloc_loop (Suc (Suc n)) kend pgdir a oldsz s = (case walkpgdir pgdir a False s of (pte, t) \<Rightarrow>
         if pte = 0 then dealloc_loop (Suc n) kend pgdir (PGADDR (PDX a + 1) 0 0 - PGSIZE + PGSIZE) oldsz t
         else if getp t pte AND PTE_P \<noteq> 0 then
           let pa = PTE_ADDR (getp t pte) in
           if pa = 0 then Inl (Panic ''kfree'')
           else bind_r (kfree kend (P2V pa) t) (\<lambda>u. dealloc_loop (Suc n) kend pgdir (a + PGSIZE) oldsz (setp pte 0 u))
         else dealloc_loop (Suc n) kend pgdir (a + PGSIZE) oldsz t)"
      using True by (subst dealloc_loop.simps(2)) (simp add: word_less_nat_alt)
    consider (dir) "\<not> present (pde s pgdir (PDX a))" | (absent) "present (pde s pgdir (PDX a))" "\<not> present (entry s pgdir a)"
      | (here) "present (pde s pgdir (PDX a))" "present (entry s pgdir a)" by blast
    then show ?thesis
    proof cases
      case dir
      let ?b = "PGADDR (PDX a + 1) 0 0 - PGSIZE + PGSIZE"
      note nd = next_dir[OF lt]
      obtain k where k: "unat a = 4096 * k" using Suc.prems(2) by (auto simp: aligned_def elim!: dvdE)
      obtain j where j: "unat ?b = 4096 * j" using nd(2) by (auto simp: aligned_def elim!: dvdE)
      have "unat a + 4096 \<le> unat ?b" using nd(3) unfolding k j by simp
      then have "unat oldsz \<le> unat ?b + 4096 * n" using Suc.prems(4) by simp
      from Suc.IH[OF Suc.prems(1) nd(2) Suc.prems(3) this] obtain t ys
        where t: "dealloc_loop (Suc n) kend pgdir ?b oldsz s = Inr t" "unmapped kend pgdir s xs t ys ?b oldsz" by blast
      have "in_rng ?b oldsz va \<Longrightarrow> in_rng a oldsz va" for va using nd(3) by (simp add: in_rng_def)
      moreover have "\<not> present (entry s pgdir va)" if "in_rng a oldsz va" "\<not> in_rng ?b oldsz va" for va
        using in_rng_dir[OF lt that] dir by (simp add: entry_def)
      ultimately have "unmapped kend pgdir s xs t ys a oldsz" using t(2) unfolding unmapped_def by metis
      then show ?thesis using t(1) dir by (simp only: go w(1) if_False split prod.case if_True simp_thms) blast
    next
      case absent
      from Suc.IH[OF Suc.prems(1) np(2) Suc.prems(3) fuel] obtain t ys
        where t: "dealloc_loop (Suc n) kend pgdir (a + PGSIZE) oldsz s = Inr t" "unmapped kend pgdir s xs t ys (a + PGSIZE) oldsz" by blast
      have "\<not> present (entry s pgdir va)" if "PGROUNDDOWN va = a" for va
        using absent(2) entry_page[of va a] PGROUNDDOWN_aligned[OF Suc.prems(2)] that by simp
      then have "unmapped kend pgdir s xs t ys a oldsz" using t(2) unfolding unmapped_def step by metis
      moreover have "dealloc_loop (Suc (Suc n)) kend pgdir a oldsz s = Inr t"
        unfolding go w(1) using absent w(2) t(1) by (simp add: present_def del: dealloc_loop.simps)
      ultimately show ?thesis by blast
    next
      case here
      have m: "mapped s pgdir a" using here(2) au by (simp add: mapped_def)
      let ?pte = "tabp (pde s pgdir (PDX a)) + 4 * PTX a" let ?l = "leaf s pgdir a"
      obtain u where u: "kfree kend ?l s = Inr u" "space_ok kend (setp ?pte 0 u) pgdir (?l # xs)"
        "tables (setp ?pte 0 u) pgdir = tables s pgdir" "users (setp ?pte 0 u) pgdir = users s pgdir - {?l}"
        "\<And>vb. entry (setp ?pte 0 u) pgdir vb = (if PGROUNDDOWN vb = a then 0 else entry s pgdir vb)"
        using space_ok_free[OF Suc.prems(1) m Suc.prems(2)] by blast
      from Suc.IH[OF u(2) np(2) Suc.prems(3) fuel] obtain t ys
        where t: "dealloc_loop (Suc n) kend pgdir (a + PGSIZE) oldsz (setp ?pte 0 u) = Inr t"
          "unmapped kend pgdir (setp ?pte 0 u) (?l # xs) t ys (a + PGSIZE) oldsz" by blast
      have "set (?l # xs) \<union> (users s pgdir - {?l}) = set xs \<union> users s pgdir" using usersI[OF m] by auto
      then have "unmapped kend pgdir s xs t ys a oldsz"
        using t(2) u(5) unfolding unmapped_def step u(3,4) by (metis present_0)
      moreover have "dealloc_loop (Suc (Suc n)) kend pgdir a oldsz s = Inr t"
        unfolding go w(1) using here w(2) t(1) u(1) leaf_nz[OF Suc.prems(1) m]
        by (simp add: present_def leaf_def Let_def del: dealloc_loop.simps)
      ultimately show ?thesis by blast
    qed
  qed
qed

lemma PGROUNDUP_user: "unat z \<le> 0x80000000 \<Longrightarrow> aligned (PGROUNDUP z) \<and> unat z \<le> unat (PGROUNDUP z)"
  using PGROUNDUP_bounds[of z] by simp

text \<open>\<open>gone\<close>: as \<open>unmapped\<close>, when the page table may have grown.\<close>

definition gone :: "u32 \<Rightarrow> u32 \<Rightarrow> kmem \<Rightarrow> u32 list \<Rightarrow> kmem \<Rightarrow> u32 list \<Rightarrow> u32 \<Rightarrow> u32 \<Rightarrow> bool" where
  "gone kend pgdir s xs t ys a z \<longleftrightarrow> space_ok kend t pgdir ys \<and>
     set ys \<union> tables t pgdir \<union> users t pgdir = set xs \<union> tables s pgdir \<union> users s pgdir \<and>
     (\<forall>va. in_rng a z va \<longrightarrow> \<not> present (entry t pgdir va)) \<and> (\<forall>va. \<not> in_rng a z va \<longrightarrow> entry t pgdir va = entry s pgdir va)"

lemma unmapped_gone: "unmapped kend pgdir s xs t ys a z \<Longrightarrow> gone kend pgdir s xs t ys a z"
  unfolding unmapped_def gone_def by blast

lemma deallocuvm_spec:
  assumes "space_ok kend s pgdir xs" "unat oldsz \<le> 0x80000000" "unat newsz \<le> unat oldsz"
  shows "\<exists>t ys. deallocuvm kend pgdir oldsz newsz s = Inr (newsz, t) \<and> unmapped kend pgdir s xs t ys (PGROUNDUP newsz) oldsz"
proof -
  have r: "aligned (PGROUNDUP newsz)" "unat newsz \<le> unat (PGROUNDUP newsz)" using PGROUNDUP_user[of newsz] assms by auto
  show ?thesis
  proof (cases "unat newsz = unat oldsz")
    case True
    then have "deallocuvm kend pgdir oldsz newsz s = Inr (newsz, s)" by (simp add: deallocuvm_def word_le_nat_alt word_unat_eq_iff)
    moreover have "unmapped kend pgdir s xs s xs (PGROUNDUP newsz) oldsz"
      using assms(1) r True by (simp add: unmapped_def in_rng_empty)
    ultimately show ?thesis by blast
  next
    case False
    have np: "NPAGES = Suc (2 ^ 20 - 1)" by (simp add: NPAGES_def)
    obtain t ys where "dealloc_loop NPAGES kend pgdir (PGROUNDUP newsz) oldsz s = Inr t" "unmapped kend pgdir s xs t ys (PGROUNDUP newsz) oldsz"
      using dealloc_loop_spec[OF assms(1) r(1) assms(2), of "2 ^ 20 - 1"] assms(2) unfolding np by auto
    then show ?thesis using False assms(3) by (intro exI[of _ t] exI[of _ ys]) (simp add: deallocuvm_def word_le_nat_alt)
  qed
qed

lemma space_ok_off:
  assumes "space_ok kend s pgdir xs" "off_page q (ram s) (ram t)" "aligned q" "q \<noteq> pgdir" "q \<notin> tables s pgdir"
    and "free_pages kend t ys" "set ys \<inter> insert pgdir (tables s pgdir \<union> users s pgdir) = {}"
  shows "space_ok kend t pgdir ys" "users t pgdir = users s pgdir" "tables t pgdir = tables s pgdir" "entry t pgdir va = entry s pgdir va"
proof -
  note ok = space_okD[OF assms(1)] note sp = space_off[OF ok(2) assms(2-5)]
  show "tables t pgdir = tables s pgdir" "entry t pgdir va = entry s pgdir va" by (simp_all add: sp)
  have m: "mapped t pgdir = mapped s pgdir" "leaf t pgdir = leaf s pgdir" by (auto simp: fun_eq_iff mapped_def leaf_def sp)
  then show u: "users t pgdir = users s pgdir" by (simp add: users_def)
  have "pt_ok kend t pgdir ys" by (rule pt_ok_off[OF ok(2) assms(2-6)]) (use assms(7) in auto)
  then show "space_ok kend t pgdir ys" unfolding space_ok_def u m sp using ok assms(7) by blast
qed

text \<open>Taking the first free page in hand and clearing it.\<close>

lemma take_page:
  assumes "space_ok kend s pgdir (x # xs)" and t: "t = s\<lparr>freelist := get32 (ram s) x, ram := memset (ram s) x 0 PGSIZE\<rparr>"
  shows "kalloc s = (x, s\<lparr>freelist := get32 (ram s) x\<rparr>)" "x \<noteq> 0" "space_ok kend t pgdir xs" "users t pgdir = users s pgdir"
    "tables t pgdir = tables s pgdir" "entry t pgdir va = entry s pgdir va" "off_page x (ram s) (ram t)"
    "page_ok kend x" "x \<notin> insert pgdir (set xs \<union> tables s pgdir \<union> users s pgdir)" "in_page x b \<Longrightarrow> ram t b = 0"
proof -
  note ok = space_okD[OF assms(1)] note pk = pt_okD[OF ok(2)] note k = kalloc_cons[OF pk(1)]
  show "kalloc s = (x, s\<lparr>freelist := get32 (ram s) x\<rparr>)" using k by simp
  show xo: "page_ok kend x" using k by simp
  then show "x \<noteq> 0" by (rule page_ok_nz)
  show xn: "x \<notin> insert pgdir (set xs \<union> tables s pgdir \<union> users s pgdir)" using k pk ok(3) by auto
  have ax: "aligned x" using xo by (rule page_ok_aligned)
  show off: "off_page x (ram s) (ram t)" unfolding t using off_page_memset[OF ax] by simp
  have f: "free_pages kend t xs"
    using free_pages_off[OF _ _ ax, of kend "s\<lparr>freelist := get32 (ram s) x\<rparr>" xs] k off unfolding t by simp
  have d: "set xs \<inter> insert pgdir (tables s pgdir \<union> users s pgdir) = {}" using pk ok(3) by auto
  show "space_ok kend t pgdir xs" "users t pgdir = users s pgdir" "tables t pgdir = tables s pgdir" "entry t pgdir va = entry s pgdir va"
    using space_ok_off[OF assms(1) off ax _ _ f d] xn by auto
  show "ram t b = 0" if "in_page x b" unfolding t using memset_page[OF ax that, of "ram s" 0] by simp
qed

section \<open>Growing\<close>

text \<open>
  \<open>grown\<close>: every page of \<open>[a, z)\<close> is mapped writable for the user to a page of zeros taken from the free list,
  the rest is as in \<open>s\<close>, no page is lost, and only page table pages and free pages were written.
\<close>

definition grown :: "u32 \<Rightarrow> u32 \<Rightarrow> kmem \<Rightarrow> u32 list \<Rightarrow> kmem \<Rightarrow> u32 list \<Rightarrow> u32 \<Rightarrow> u32 \<Rightarrow> bool" where
  "grown kend pgdir s xs t ys a z \<longleftrightarrow> space_ok kend t pgdir ys \<and>
     set ys \<union> tables t pgdir \<union> users t pgdir = set xs \<union> tables s pgdir \<union> users s pgdir \<and>
     (\<forall>va. in_rng a z va \<longrightarrow> entry t pgdir va = V2P (leaf t pgdir va) OR (PTE_W OR PTE_U) OR PTE_P \<and> leaf t pgdir va \<in> set xs \<and>
        (\<forall>b. in_page (leaf t pgdir va) b \<longrightarrow> ram t b = 0)) \<and>
     (\<forall>va. \<not> in_rng a z va \<longrightarrow> entry t pgdir va = entry s pgdir va) \<and>
     frame (insert pgdir (set xs \<union> tables s pgdir)) (ram s) (ram t)"

text \<open>One iteration of \<open>allocuvm\<close>: a page in hand is mapped at \<open>a\<close>, or the page table could not grow.\<close>

lemma alloc_one:
  assumes "space_ok kend s pgdir (x # xs)" "aligned a" "unat a < 0x80000000" "\<not> present (entry s pgdir a)"
    and u: "u = s\<lparr>freelist := get32 (ram s) x, ram := memset (ram s) x 0 PGSIZE\<rparr>"
  shows "mappages pgdir a PGSIZE (V2P x) (PTE_W OR PTE_U) u = Inr (-1, u) \<and> xs = [] \<or>
    (\<exists>t ys. mappages pgdir a PGSIZE (V2P x) (PTE_W OR PTE_U) u = Inr (0, t) \<and> space_ok kend t pgdir ys \<and>
       (\<forall>va. entry t pgdir va = (if PGROUNDDOWN va = a then V2P x OR (PTE_W OR PTE_U) OR PTE_P else entry s pgdir va)) \<and>
       leaf t pgdir a = x \<and> (\<forall>b. in_page x b \<longrightarrow> ram t b = 0) \<and> x \<notin> insert pgdir (set ys \<union> tables t pgdir) \<and>
       set ys \<union> tables t pgdir \<union> users t pgdir = set (x # xs) \<union> tables s pgdir \<union> users s pgdir \<and>
       set ys \<subseteq> set xs \<and> set ys \<union> tables t pgdir \<subseteq> set xs \<union> tables s pgdir \<and> length xs \<le> Suc (length ys) \<and>
       frame (insert pgdir (set (x # xs) \<union> tables s pgdir)) (ram s) (ram t))"
proof -
  note tp = take_page[OF assms(1) u]
  note sp = space_okD[OF tp(3)] note pk = pt_okD[OF sp(2)]
  have au: "a < KERNBASE" using assms(3) by (simp add: word_less_nat_alt KERNBASE_def)
  let ?v = "V2P x OR (PTE_W OR PTE_U) OR PTE_P"
  have f: "((PTE_W OR PTE_U) OR PTE_P) AND 0xFFF = (PTE_W OR PTE_U) OR PTE_P" by (simp add: PTE_P_def PTE_W_def PTE_U_def)
  have v: "present ?v" "P2V (PTE_ADDR ?v) = x" using PTE_ADDR_or[OF aligned_V2P[OF tp(8)] f] by simp_all
  have na: "\<not> present (entry u pgdir a)" using assms(4) by (simp add: tp(6))
  from mappages_one[OF sp(2) assms(2) na, of "V2P x" "PTE_W OR PTE_U"] show ?thesis
  proof (elim disjE exE conjE)
    fix t ys assume t: "mappages pgdir a PGSIZE (V2P x) (PTE_W OR PTE_U) u = Inr (0, t)" "grows kend pgdir u xs t ys"
      and len: "length xs \<le> Suc (length ys)" and e: "\<forall>vb. entry t pgdir vb = (if PGROUNDDOWN vb = a then ?v else entry u pgdir vb)"
    have xn: "x \<notin> insert pgdir (set xs \<union> tables u pgdir \<union> users u pgdir)" using tp(4,5,9) by simp
    note so = space_ok_add[OF tp(3) t(2) assms(2) au na spec[OF e] v tp(8) xn]
    obtain zs where z: "xs = zs @ ys" "tables t pgdir = set zs \<union> tables s pgdir"
      "frame (insert pgdir (set zs \<union> tables s pgdir)) (ram u) (ram t)" using t(2) by (auto simp: grows_def tp(5))
    have fr: "frame (insert pgdir (set (x # xs) \<union> tables s pgdir)) (ram s) (ram t)"
      by (rule frame_trans[OF frame_off[OF tp(7), of "{x}"] z(3)]) (auto simp: z(1))
    have al: "aligned p" if "p \<in> insert pgdir (set zs \<union> tables s pgdir)" for p
      using that pk(3) pk(7) pk(1) by (auto simp: tp(5) z(1) free_pages_def page_ok_def)
    have zero: "ram t b = 0" if "in_page x b" for b
      using frame_off_page[OF z(3) al page_ok_aligned[OF tp(8)] _ that] tp(9,10) that by (auto simp: z(1))
    show ?thesis
      using t(1) e so z(1,2) len fr zero v(2) tp(4,5,6,9) PGROUNDDOWN_aligned[OF assms(2)]
      by (intro disjI2 exI[of _ t] exI[of _ ys] conjI) (auto simp: leaf_def)
  qed simp
qed

lemma in_rng_sub: "unat r \<le> unat a \<Longrightarrow> in_rng a z va \<Longrightarrow> in_rng r z va"
  by (simp add: in_rng_def)

lemma gone_after:
  assumes "gone kend pgdir t ys u zs r z"
    and "set ys \<union> tables t pgdir \<union> users t pgdir = set xs \<union> tables s pgdir \<union> users s pgdir"
    and "\<And>va. \<not> in_rng r z va \<Longrightarrow> entry t pgdir va = entry s pgdir va"
  shows "gone kend pgdir s xs u zs r z"
  using assms unfolding gone_def by metis

lemma grown_step:
  assumes v: "grown kend pgdir t ys v ws (a + PGSIZE) z" and a: "aligned a" "unat (a + PGSIZE) = unat a + 4096"
    and st: "\<And>va. in_rng a z va \<longleftrightarrow> PGROUNDDOWN va = a \<or> in_rng (a + PGSIZE) z va" and t: "space_ok kend t pgdir ys"
    and e: "\<forall>va. entry t pgdir va = (if PGROUNDDOWN va = a then V2P x OR (PTE_W OR PTE_U) OR PTE_P else entry s pgdir va)"
    and x: "leaf t pgdir a = x" "\<forall>b. in_page x b \<longrightarrow> ram t b = 0" "x \<notin> insert pgdir (set ys \<union> tables t pgdir)"
    and cons: "set ys \<union> tables t pgdir \<union> users t pgdir = set (x # zs) \<union> tables s pgdir \<union> users s pgdir"
    and sub: "set ys \<subseteq> set zs" "set ys \<union> tables t pgdir \<subseteq> set zs \<union> tables s pgdir"
    and fr: "frame (insert pgdir (set (x # zs) \<union> tables s pgdir)) (ram s) (ram t)" and xa: "aligned x"
  shows "grown kend pgdir s (x # zs) v ws a z"
proof -
  note g = v[unfolded grown_def]
  note pk = pt_okD[OF space_okD(2)[OF t]]
  have al: "aligned p" if "p \<in> insert pgdir (set ys \<union> tables t pgdir)" for p
    using that pk(3) pk(7) pk(1) by (auto simp: free_pages_def page_ok_def)
  have ev: "entry v pgdir va = entry t pgdir va" if "PGROUNDDOWN va = a" for va using g that a(2) by (simp add: in_rng_def)
  have lv: "leaf v pgdir va = x" if "PGROUNDDOWN va = a" for va
    using ev[OF that] e that x(1) PGROUNDDOWN_aligned[OF a(1)] by (simp add: leaf_def)
  have zero: "ram v b = 0" if "in_page x b" "aligned x" for b
    using frame_off_page[of "insert pgdir (set ys \<union> tables t pgdir)" "ram t" "ram v" x b] g al that x(2,3) by auto
  have "frame (insert pgdir (set (x # zs) \<union> tables s pgdir)) (ram s) (ram v)"
    by (rule frame_trans[OF fr, of "insert pgdir (set ys \<union> tables t pgdir)"]) (use g sub in auto)
  moreover have "entry v pgdir va = V2P (leaf v pgdir va) OR (PTE_W OR PTE_U) OR PTE_P \<and> leaf v pgdir va \<in> set (x # zs) \<and>
      (\<forall>b. in_page (leaf v pgdir va) b \<longrightarrow> ram v b = 0)" if "in_rng a z va" for va
  proof (cases "PGROUNDDOWN va = a")
    case True
    then show ?thesis using ev[OF True] lv[OF True] e zero[OF _ xa] by simp
  next
    case False
    then have "in_rng (a + PGSIZE) z va" using that st by simp
    then show ?thesis using g sub(1) by auto
  qed
  moreover have "entry v pgdir va = entry s pgdir va" if "\<not> in_rng a z va" for va using g that st e by metis
  moreover have "set ws \<union> tables v pgdir \<union> users v pgdir = set (x # zs) \<union> tables s pgdir \<union> users s pgdir"
    using g cons by simp
  ultimately show ?thesis using g unfolding grown_def by blast
qed

lemma alloc_loop_spec:
  assumes "space_ok kend s pgdir xs" "aligned a" "unat newsz < 0x80000000" "unat newsz \<le> unat a + 4096 * n"
    "unat (PGROUNDUP oldsz) \<le> unat a" "oldsz \<le> newsz" "\<And>va. in_rng a newsz va \<Longrightarrow> \<not> present (entry s pgdir va)"
  shows "\<exists>t ys. alloc_loop (Suc n) kend pgdir a oldsz newsz s = Inr (newsz, t) \<and> grown kend pgdir s xs t ys a newsz \<or>
    alloc_loop (Suc n) kend pgdir a oldsz newsz s = Inr (0, t) \<and> gone kend pgdir s xs t ys (PGROUNDUP oldsz) newsz \<and>
      unat a + 4096 * (length xs div 2) < unat newsz"
  using assms(1,2,4,5,7)
proof (induction n arbitrary: a s xs)
  case 0
  then show ?case by (intro exI[of _ s] exI[of _ xs]) (simp add: grown_def word_less_nat_alt in_rng_empty)
next
  case (Suc n)
  let ?r = "PGROUNDUP oldsz"
  note az = assms(3,6)
  show ?case
  proof (cases "unat a < unat newsz")
    case False
    then show ?thesis using Suc.prems(1) by (intro exI[of _ s] exI[of _ xs]) (simp add: grown_def word_less_nat_alt in_rng_empty)
  next
    case True
    have lt: "unat a < 0x80000000" "unat newsz \<le> 0x80000000" "unat oldsz \<le> unat newsz" using True az by (simp_all add: word_le_nat_alt)
    note np = next_page[OF Suc.prems(2) lt(1)] note st = in_rng_step[OF Suc.prems(2) True lt(2)]
    have here: "in_rng a newsz a" using True by (simp add: in_rng_def PGROUNDDOWN_aligned[OF Suc.prems(2)])
    have rng: "in_rng ?r newsz va" if "PGROUNDDOWN va = a" for va using that True Suc.prems(4) by (simp add: in_rng_def)
    have na: "\<not> present (entry s pgdir a)" using Suc.prems(5)[OF here] .
    have g: "a < newsz" using True by (simp add: word_less_nat_alt)
    show ?thesis
    proof (cases xs)
      case Nil
      then have k: "kalloc s = (0, s)" using kalloc_nil pt_okD(1) space_okD(2)[OF Suc.prems(1)] by blast
      obtain t ys where t: "deallocuvm kend pgdir newsz oldsz s = Inr (oldsz, t)" "unmapped kend pgdir s xs t ys ?r newsz"
        using deallocuvm_spec[OF Suc.prems(1) lt(2,3)] by blast
      then show ?thesis using True g by (intro exI[of _ t] exI[of _ ys] disjI2) (simp add: k unmapped_gone Nil)
    next
      case (Cons x zs)
      let ?u = "s\<lparr>freelist := get32 (ram s) x, ram := memset (ram s) x 0 PGSIZE\<rparr>"
      have sx: "space_ok kend s pgdir (x # zs)" using Suc.prems(1) Cons by simp
      note tp = take_page[OF sx refl]
      let ?m = "mappages pgdir a PGSIZE (V2P x) (PTE_W OR PTE_U) ?u"
      have go: "alloc_loop (Suc (Suc n)) kend pgdir a oldsz newsz s = bind_r ?m (\<lambda>(r, t2).
             if r < 0 then
               bind_r (deallocuvm kend pgdir newsz oldsz t2) (\<lambda>(_, u). bind_r (kfree kend x u) (\<lambda>v. Inr (0, v)))
             else alloc_loop (Suc n) kend pgdir (a + PGSIZE) oldsz newsz t2)"
        using g tp(1,2) by (subst alloc_loop.simps(2)) (simp add: Let_def)
      from alloc_one[OF sx Suc.prems(2) lt(1) na refl] show ?thesis
      proof (elim disjE exE conjE)
        assume m: "?m = Inr (-1, ?u)" and z: "zs = []"
        obtain t ys where t: "deallocuvm kend pgdir newsz oldsz ?u = Inr (oldsz, t)" "unmapped kend pgdir ?u zs t ys ?r newsz"
          using deallocuvm_spec[OF tp(3) lt(2,3)] by blast
        have sy: "space_ok kend t pgdir ys" "tables t pgdir = tables s pgdir" "set ys \<union> users t pgdir = users s pgdir"
          using t(2) z by (simp_all add: unmapped_def tp)
        have xn: "x \<notin> set ys" "x \<noteq> pgdir" "x \<notin> tables t pgdir" "x \<notin> users t pgdir" using sy tp(9) by auto
        obtain v where v: "kfree kend x t = Inr v" "free_pages kend v (x # ys)" "off_page x (ram t) (ram v)"
          using kfree_ok[OF pt_okD(1)[OF space_okD(2)[OF sy(1)]] tp(8) xn(1)] by blast
        have d: "set (x # ys) \<inter> insert pgdir (tables t pgdir \<union> users t pgdir) = {}"
          using xn space_okD(3)[OF sy(1)] pt_okD(4,6)[OF space_okD(2)[OF sy(1)]] by auto
        note so = space_ok_off[OF sy(1) v(3) page_ok_aligned[OF tp(8)] xn(2,3) v(2) d]
        have "gone kend pgdir s xs v (x # ys) ?r newsz"
          using t(2) sy so Cons z unfolding gone_def unmapped_def by (auto simp: tp)
        then show ?thesis using m t(1) v(1) True by (intro exI[of _ v] exI[of _ "x # ys"] disjI2) (simp add: go Cons z del: alloc_loop.simps)
      next
        fix t ys assume m: "?m = Inr (0, t)" and t: "space_ok kend t pgdir ys"
          "\<forall>va. entry t pgdir va = (if PGROUNDDOWN va = a then V2P x OR (PTE_W OR PTE_U) OR PTE_P else entry s pgdir va)"
          "leaf t pgdir a = x" "\<forall>b. in_page x b \<longrightarrow> ram t b = 0" "x \<notin> insert pgdir (set ys \<union> tables t pgdir)"
          and cons: "set ys \<union> tables t pgdir \<union> users t pgdir = set (x # zs) \<union> tables s pgdir \<union> users s pgdir"
          and sub: "set ys \<subseteq> set zs" "set ys \<union> tables t pgdir \<subseteq> set zs \<union> tables s pgdir" and len: "length zs \<le> Suc (length ys)"
          and fr: "frame (insert pgdir (set (x # zs) \<union> tables s pgdir)) (ram s) (ram t)"
        have fuel: "unat newsz \<le> unat (a + PGSIZE) + 4096 * n" using np Suc.prems(3) by simp
        have ra: "unat ?r \<le> unat (a + PGSIZE)" using np Suc.prems(4) by simp
        have ab: "\<not> present (entry t pgdir va)" if "in_rng (a + PGSIZE) newsz va" for va
          using that Suc.prems(5)[of va] st np t(2) by (auto simp: in_rng_def)
        have r: "alloc_loop (Suc (Suc n)) kend pgdir a oldsz newsz s = alloc_loop (Suc n) kend pgdir (a + PGSIZE) oldsz newsz t"
          by (simp add: go m del: alloc_loop.simps)
        from Suc.IH[OF t(1) np(2) fuel ra ab] obtain v ws where
          "alloc_loop (Suc n) kend pgdir (a + PGSIZE) oldsz newsz t = Inr (newsz, v) \<and> grown kend pgdir t ys v ws (a + PGSIZE) newsz \<or>
           alloc_loop (Suc n) kend pgdir (a + PGSIZE) oldsz newsz t = Inr (0, v) \<and> gone kend pgdir t ys v ws ?r newsz \<and>
             unat (a + PGSIZE) + 4096 * (length ys div 2) < unat newsz" by blast
        then show ?thesis
        proof (elim disjE conjE)
          assume v: "alloc_loop (Suc n) kend pgdir (a + PGSIZE) oldsz newsz t = Inr (newsz, v)" "grown kend pgdir t ys v ws (a + PGSIZE) newsz"
          have "grown kend pgdir s xs v ws a newsz"
            unfolding Cons by (rule grown_step[OF v(2) Suc.prems(2) np(1) st t(1,2) t(3,4,5) cons sub fr page_ok_aligned[OF tp(8)]])
          then show ?thesis using v(1) r by (intro exI[of _ v] exI[of _ ws] disjI1) (simp del: alloc_loop.simps)
        next
          assume v: "alloc_loop (Suc n) kend pgdir (a + PGSIZE) oldsz newsz t = Inr (0, v)" "gone kend pgdir t ys v ws ?r newsz"
            "unat (a + PGSIZE) + 4096 * (length ys div 2) < unat newsz"
          have "gone kend pgdir s xs v ws ?r newsz"
            by (rule gone_after[OF v(2)]) (use cons Cons t(2) rng in auto)
          moreover have "length xs div 2 \<le> length ys div 2 + 1" using len Cons by simp
          then have "4096 * (length xs div 2) \<le> 4096 * (length ys div 2) + 4096" by simp
          then have "unat a + 4096 * (length xs div 2) < unat newsz" using v(3) np(1) by linarith
          ultimately show ?thesis using v(1) r by (intro exI[of _ v] exI[of _ ws] disjI2) (simp del: alloc_loop.simps)
        qed
      qed
    qed
  qed
qed

section \<open>Freeing an address space\<close>

definition tabs_of :: "kmem \<Rightarrow> u32 \<Rightarrow> nat set \<Rightarrow> u32 set" where
  "tabs_of s pgdir D = {tabp (pde s pgdir (of_nat i)) | i. i \<in> D \<and> present (pde s pgdir (of_nat i))}"

lemma tabs_of_insert:
  "tabs_of s pgdir (insert i D) = (if present (pde s pgdir (of_nat i)) then insert (tabp (pde s pgdir (of_nat i))) (tabs_of s pgdir D) else tabs_of s pgdir D)"
  by (auto simp: tabs_of_def)

lemma unat_small: "i < 1024 \<Longrightarrow> unat (of_nat i :: u32) = i"
  by (simp add: unat_of_nat)

lemma tabs_of_all: "tabs_of s pgdir {..<1024} = tables s pgdir"
proof -
  have "tabp (pde s pgdir d) \<in> tabs_of s pgdir {..<1024}" if "d \<in> dirs s pgdir" for d
    using that by (auto simp: tabs_of_def dirs_def intro!: exI[of _ "unat d"])
  moreover have "of_nat i \<in> dirs s pgdir" if "i < 1024" "present (pde s pgdir (of_nat i))" for i
    using that by (simp add: dirs_def unat_small)
  ultimately show ?thesis by (auto simp: tabs_of_def tables_def)
qed

lemma tab_notin:
  assumes "pt_ok kend s pgdir xs" "i < 1024" "\<forall>j \<in> D. j < 1024" "i \<notin> D" "present (pde s pgdir (of_nat i))"
  shows "tabp (pde s pgdir (of_nat i)) \<notin> tabs_of s pgdir D"
proof
  assume "tabp (pde s pgdir (of_nat i)) \<in> tabs_of s pgdir D"
  then obtain j where j: "j \<in> D" "present (pde s pgdir (of_nat j))" "tabp (pde s pgdir (of_nat i)) = tabp (pde s pgdir (of_nat j))"
    by (auto simp: tabs_of_def)
  then have "of_nat i \<in> dirs s pgdir" "of_nat j \<in> dirs s pgdir" using assms by (auto simp: dirs_def unat_small)
  then have "(of_nat i :: u32) = of_nat j" using inj_onD[OF pt_okD(8)[OF assms(1)]] j(3) by blast
  then have "i = j" using unat_small[of i] unat_small[of j] assms(2,3) j(1) by metis
  then show False using j(1) assms(4) by simp
qed

lemma free_tables:
  assumes pt: "pt_ok kend t pgdir ys"
  shows "distinct ds \<Longrightarrow> \<forall>i \<in> set ds. i < 1024 \<Longrightarrow> free_pages kend u zs \<Longrightarrow> pgdir \<notin> set zs \<Longrightarrow>
    \<forall>i < 1024. pde u pgdir (of_nat i) = pde t pgdir (of_nat i) \<Longrightarrow> tabs_of t pgdir (set ds) \<inter> set zs = {} \<Longrightarrow>
    \<exists>v ws. fold_r (free_pde kend pgdir) ds u = Inr v \<and> free_pages kend v ws \<and> set ws = set zs \<union> tabs_of t pgdir (set ds)"
proof (induction ds arbitrary: u zs)
  case Nil
  then show ?case by (auto simp: tabs_of_def)
next
  case (Cons i ds)
  have i: "i < 1024" "i \<notin> set ds" "pde u pgdir (of_nat i) = pde t pgdir (of_nat i)" using Cons.prems by auto
  let ?p = "pde t pgdir (of_nat i)"
  have f: "free_pde kend pgdir i u = (if present ?p then kfree kend (tabp ?p) u else Inr u)"
    using i(3) by (simp add: free_pde_def Let_def present_def tabp_def pde_def)
  show ?case
  proof (cases "present ?p")
    case False
    then show ?thesis using Cons.IH[OF _ _ Cons.prems(3,4,5)] Cons.prems by (simp add: f tabs_of_insert)
  next
    case True
    have T: "tabp ?p \<in> tables t pgdir" using True i(1) by (intro table_in) (simp add: dirs_def unat_small)
    have ok: "page_ok kend (tabp ?p)" "tabp ?p \<noteq> pgdir" "tabp ?p \<notin> set zs" "aligned pgdir"
      using pt_okD[OF pt] T Cons.prems(6) True by (auto simp: tabs_of_insert)
    obtain v where v: "kfree kend (tabp ?p) u = Inr v" "free_pages kend v (tabp ?p # zs)" "off_page (tabp ?p) (ram u) (ram v)"
      using kfree_ok[OF Cons.prems(3) ok(1,3)] by blast
    have "pde v pgdir (of_nat j) = pde u pgdir (of_nat j)" if "j < 1024" for j
      unfolding pde_def getp_def
      by (rule get32_off[OF v(3) page_ok_aligned[OF ok(1)] ok(4,2)]) (use entry_addr[OF ok(4), of "of_nat j"] that in \<open>simp_all add: unat_small\<close>)
    then have eq: "\<forall>j < 1024. pde v pgdir (of_nat j) = pde t pgdir (of_nat j)" using Cons.prems(5) by simp
    have "tabp ?p \<notin> tabs_of t pgdir (set ds)" using tab_notin[OF pt i(1) _ i(2) True] Cons.prems(2) by simp
    then have dis: "tabs_of t pgdir (set ds) \<inter> set (tabp ?p # zs) = {}" using Cons.prems(6) True by (auto simp: tabs_of_insert)
    from Cons.IH[OF _ _ v(2) _ eq dis] Cons.prems(1,2,4) ok(2) obtain w ws where
      "fold_r (free_pde kend pgdir) ds v = Inr w" "free_pages kend w ws" "set ws = set (tabp ?p # zs) \<union> tabs_of t pgdir (set ds)" by auto
    then show ?thesis using True v(1) by (intro exI[of _ w] exI[of _ ws]) (auto simp: f tabs_of_insert)
  qed
qed

text \<open>A directory without tables, and two free pages.\<close>

definition two_free :: kmem where
  "two_free = \<lparr>ram = put32 (\<lambda>_. 0) 0x80102000 0x80103000, freelist = 0x80102000, use_lock = True\<rparr>"

lemma two_free_pages: "free_pages 0x80100000 two_free [0x80102000, 0x80103000]"
proof -
  have "get32 (put32 (\<lambda>_. 0) 0x80102000 0x80103000) 0x80103000 = get32 (\<lambda>_. 0) 0x80103000"
    by (rule get32_put32_other) simp_all
  then show ?thesis by (simp add: free_pages_def two_free_def page_ok_def aligned_def V2P_def layout get32_zero)
qed

lemma two_free_dirs: "dirs two_free 0x80101000 = {}"
proof -
  have "pde two_free 0x80101000 d = 0" if "unat d < 1024" for d
  proof -
    have a: "aligned 0x80101000" "aligned 0x80102000" by (simp_all add: aligned_def)
    have "get32 (put32 (\<lambda>_. 0) 0x80102000 0x80103000) (0x80101000 + 4 * d) = get32 (\<lambda>_. 0) (0x80101000 + 4 * d)"
      by (rule get32_off[OF off_page_put32[OF a(2)] a(2,1)]) (use entry_addr[OF a(1) that] in simp_all)
    then show ?thesis by (simp add: pde_def getp_def two_free_def get32_zero)
  qed
  then show ?thesis by (auto simp: dirs_def)
qed

lemma two_free_entry: "entry two_free 0x80101000 va = 0"
  using two_free_dirs dirs_PDX[where s = two_free and pgdir = "0x80101000" and va = va] by (simp add: entry_def)

lemma two_free_ok: "space_ok 0x80100000 two_free 0x80101000 [0x80102000, 0x80103000]"
proof -
  have "users two_free 0x80101000 = {}" by (simp add: users_def mapped_def two_free_entry)
  moreover have "\<not> mapped two_free 0x80101000 va" for va by (simp add: mapped_def two_free_entry)
  moreover have "pt_ok 0x80100000 two_free 0x80101000 [0x80102000, 0x80103000]"
    using two_free_pages by (simp add: pt_ok_def tables_def two_free_dirs page_ok_def aligned_def V2P_def layout)
  ultimately show ?thesis by (simp add: space_ok_def KERNBASE_def)
qed

lemma alloc_page_demo:
  "\<exists>t ys. allocuvm 0x80100000 0x80101000 0 4096 two_free = Inr (4096, t) \<and> grown 0x80100000 0x80101000 two_free [0x80102000, 0x80103000] t ys 0 4096"
proof -
  have z: "PGROUNDUP 0 = 0" by (simp add: PGROUNDUP_def PGSIZE_def)
  have np: "NPAGES = Suc (2 ^ 20 - 1)" by (simp add: NPAGES_def)
  have "allocuvm 0x80100000 0x80101000 0 4096 two_free = alloc_loop (Suc (2 ^ 20 - 1)) 0x80100000 0x80101000 0 0 4096 two_free"
    by (simp add: allocuvm_def z np KERNBASE_def)
  then show ?thesis using alloc_loop_spec[OF two_free_ok, of 0 4096 "2 ^ 20 - 1" 0] by (simp add: two_free_entry z aligned_def)
qed

text \<open>
  C28: growing a well-formed address space from \<open>oldsz\<close> to \<open>newsz\<close> below \<open>KERNBASE\<close>, with nothing mapped there yet,
  never panics. Either it returns \<open>newsz\<close> and every new page is mapped writable to a zeroed page of the free list
  of its own, all other mappings and all other memory as before; or it returns 0, which happens only
  when fewer than two free pages per new page were left, and then every mapping is as before. In both cases
  the address space stays well formed and no page is lost.
\<close>

theorem allocuvm_grows:
  assumes "space_ok kend s pgdir xs" "newsz < KERNBASE" "oldsz \<le> newsz"
    "\<And>va. in_rng (PGROUNDUP oldsz) newsz va \<Longrightarrow> \<not> present (entry s pgdir va)"
  shows "\<exists>t ys. allocuvm kend pgdir oldsz newsz s = Inr (newsz, t) \<and> grown kend pgdir s xs t ys (PGROUNDUP oldsz) newsz \<or>
    allocuvm kend pgdir oldsz newsz s = Inr (0, t) \<and> gone kend pgdir s xs t ys (PGROUNDUP oldsz) newsz \<and>
      unat (PGROUNDUP oldsz) + 4096 * (length xs div 2) < unat newsz"
proof -
  have n: "unat newsz < 0x80000000" "unat oldsz \<le> unat newsz" using assms(2,3) by (simp_all add: word_less_nat_alt word_le_nat_alt KERNBASE_def)
  have np: "NPAGES = Suc (2 ^ 20 - 1)" by (simp add: NPAGES_def)
  have a: "aligned (PGROUNDUP oldsz)" using PGROUNDUP_user[of oldsz] n by simp
  have "allocuvm kend pgdir oldsz newsz s = alloc_loop NPAGES kend pgdir (PGROUNDUP oldsz) oldsz newsz s"
    using leD[OF assms(3)] assms(2) by (simp add: allocuvm_def not_le[symmetric])
  then show ?thesis
    using alloc_loop_spec[OF assms(1) a n(1), of "2 ^ 20 - 1"] n assms(3,4) unfolding np by auto
qed

theorem allocuvm_grows_witness:
  "\<exists>t ys. allocuvm 0x80100000 0x80101000 0 4096 two_free = Inr (4096, t) \<and> grown 0x80100000 0x80101000 two_free [0x80102000, 0x80103000] t ys 0 4096"
proof -
  have z: "PGROUNDUP 0 = 0" by (simp add: PGROUNDUP_def PGSIZE_def)
  show ?thesis
    using allocuvm_grows[OF two_free_ok, of 4096 0] by (simp add: two_free_entry KERNBASE_def z)
qed

text \<open>
  C29: freeing a well-formed address space succeeds and puts each of its pages, the user pages, the page tables
  and the directory, on the free list exactly once: nothing leaks and nothing is freed twice.
\<close>

theorem freevm_frees_all:
  assumes "space_ok kend s pgdir xs"
  shows "\<exists>t ys. freevm kend pgdir s = Inr t \<and> free_pages kend t ys \<and> distinct ys \<and>
     set ys = insert pgdir (set xs \<union> users s pgdir \<union> tables s pgdir)"
proof -
  have z: "PGROUNDUP 0 = 0" by (simp add: PGROUNDUP_def PGSIZE_def)
  obtain t ys where t: "deallocuvm kend pgdir KERNBASE 0 s = Inr (0, t)" "unmapped kend pgdir s xs t ys 0 KERNBASE"
    using deallocuvm_spec[OF assms, of KERNBASE 0] by (auto simp: KERNBASE_def z)
  have sp: "space_ok kend t pgdir ys" "tables t pgdir = tables s pgdir" using t(2) by (auto simp: unmapped_def)
  note ok = space_okD[OF sp(1)] note pk = pt_okD[OF ok(2)]
  have "in_rng 0 KERNBASE va" if "va < KERNBASE" for va
    using that PGROUNDDOWN_user[of va] by (simp add: in_rng_def word_less_nat_alt)
  then have "users t pgdir = {}" using t(2) by (auto simp: unmapped_def users_def mapped_def)
  then have sy: "set ys = set xs \<union> users s pgdir" using t(2) by (auto simp: unmapped_def)
  have ds: "set [0..<NPDENTRIES] = {..<1024}" by (auto simp: NPDENTRIES_def)
  obtain v ws where v: "fold_r (free_pde kend pgdir) [0..<NPDENTRIES] t = Inr v" "free_pages kend v ws" "set ws = set ys \<union> tables t pgdir"
    using free_tables[OF ok(2) _ _ pk(1,4), of "[0..<NPDENTRIES]"] pk(6) unfolding ds tabs_of_all by auto
  have "pgdir \<notin> set ws" using v(3) pk(4,5) by auto
  then obtain w where w: "kfree kend pgdir v = Inr w" "free_pages kend w (pgdir # ws)" using kfree_ok[OF v(2) pk(2)] by blast
  then have "freevm kend pgdir s = Inr w" using t(1) v(1) page_ok_nz[OF pk(2)] by (simp add: freevm_def)
  moreover have "distinct (pgdir # ws)" using w(2) by (simp add: free_pages_def)
  ultimately show ?thesis using w(2) v(3) sy sp(2) by (intro exI[of _ w] exI[of _ "pgdir # ws"]) auto
qed

theorem freevm_frees_all_witness:
  "\<exists>t ys. freevm 0x80100000 0x80101000 two_free = Inr t \<and> free_pages 0x80100000 t ys \<and> distinct ys \<and>
     set ys = insert 0x80101000 (set [0x80102000, 0x80103000] \<union> users two_free 0x80101000 \<union> tables two_free 0x80101000)"
  by (rule freevm_frees_all[OF two_free_ok])

end
