(* ===== verification/Bio.thy ===== *)
theory Bio
  imports Prelude
begin

text \<open>
  The block cache (\<open>bio.c\<close>, \<open>buf.h\<close>) over the disk (\<open>iderw\<close> of \<open>ide.c\<close>). The LRU list is the list of the buffers'
  indices from the most to the least recently used one. A sleep lock is the pid of its holder. \<open>iderw\<close> returns
  when the controller has carried out the request, so it is one step; \<open>disk_writes\<close> records the blocks in the order they
  reach the disk, which is what a crash may cut off. An operation that has to wait for a buffer's sleep lock
  does not return before its holder releases it: that is the value \<open>Diverges\<close>. Reference counts count processes.
\<close>

section \<open>Buffers\<close>

definition NBUF :: nat where "NBUF = 30"
definition BSIZE :: nat where "BSIZE = 512"
definition FSSIZE :: u32 where "FSSIZE = 1000"

type_synonym block = "u8 list"

record buf =
  bvalid :: bool
  bdirty :: bool
  bdev :: u32
  blockno :: u32
  block_pid :: "int option"
  refcnt :: nat
  bdata :: block

record bcache =
  bufs :: "buf list"
  mru :: "nat list"
  disk :: "u32 \<Rightarrow> u32 \<Rightarrow> block"
  disk_writes :: "(u32 \<times> u32 \<times> block) list"
  havedisk1 :: bool

definition upd_buf :: "nat \<Rightarrow> (buf \<Rightarrow> buf) \<Rightarrow> bcache \<Rightarrow> bcache" where
  "upd_buf i f s = s\<lparr>bufs := (bufs s)[i := f (bufs s ! i)]\<rparr>"

definition zero_buf :: buf where
  "zero_buf = \<lparr>bvalid = False, bdirty = False, bdev = 0, blockno = 0, block_pid = None, refcnt = 0, bdata = replicate BSIZE 0\<rparr>"

definition binit :: "bcache \<Rightarrow> bcache" where
  "binit s = fold (\<lambda>b s. (upd_buf b (\<lambda>x. x\<lparr>block_pid := None\<rparr>) s)\<lparr>mru := b # mru s\<rparr>) [0..<NBUF] (s\<lparr>mru := []\<rparr>)"

section \<open>Operations\<close>

definition holdingsleep :: "int \<Rightarrow> nat \<Rightarrow> bcache \<Rightarrow> bool" where
  "holdingsleep pid b s \<longleftrightarrow> block_pid (bufs s ! b) = Some pid"

definition acquiresleep :: "int \<Rightarrow> nat \<Rightarrow> bcache \<Rightarrow> bcache result" where
  "acquiresleep pid b s =
    (if block_pid (bufs s ! b) \<noteq> None then Inl (Diverges ''acquiresleep'')
     else Inr (upd_buf b (\<lambda>x. x\<lparr>block_pid := Some pid\<rparr>) s))"

definition releasesleep :: "nat \<Rightarrow> bcache \<Rightarrow> bcache" where
  "releasesleep b s = upd_buf b (\<lambda>x. x\<lparr>block_pid := None\<rparr>) s"

definition iderw :: "int \<Rightarrow> nat \<Rightarrow> bcache \<Rightarrow> bcache result" where
  "iderw pid b s =
    (let x = bufs s ! b in
     if \<not> holdingsleep pid b s then Inl (Panic ''iderw: buf not locked'')
     else if bvalid x \<and> \<not> bdirty x then Inl (Panic ''iderw: nothing to do'')
     else if bdev x \<noteq> 0 \<and> \<not> havedisk1 s then Inl (Panic ''iderw: ide disk 1 not present'')
     else if blockno x \<ge> FSSIZE then Inl (Panic ''incorrect blockno'')
     else if bdirty x then
       Inr ((upd_buf b (\<lambda>x. x\<lparr>bvalid := True, bdirty := False\<rparr>) s)
         \<lparr>disk := (disk s)(bdev x := (disk s (bdev x))(blockno x := bdata x)),
          disk_writes := disk_writes s @ [(bdev x, blockno x, bdata x)]\<rparr>)
     else Inr (upd_buf b (\<lambda>x. x\<lparr>bdata := disk s (bdev x) (blockno x), bvalid := True, bdirty := False\<rparr>) s))"

definition bget :: "int \<Rightarrow> u32 \<Rightarrow> u32 \<Rightarrow> bcache \<Rightarrow> (nat \<times> bcache) result" where
  "bget pid dev blkno s =
    (case find (\<lambda>b. bdev (bufs s ! b) = dev \<and> blockno (bufs s ! b) = blkno) (mru s) of
       Some b \<Rightarrow> bind_r (acquiresleep pid b (upd_buf b (\<lambda>x. x\<lparr>refcnt := refcnt x + 1\<rparr>) s)) (\<lambda>t. Inr (b, t))
     | None \<Rightarrow>
       (case find (\<lambda>b. refcnt (bufs s ! b) = 0 \<and> \<not> bdirty (bufs s ! b)) (rev (mru s)) of
          Some b \<Rightarrow> bind_r (acquiresleep pid b
            (upd_buf b (\<lambda>x. x\<lparr>bdev := dev, blockno := blkno, bvalid := False, bdirty := False, refcnt := 1\<rparr>) s)) (\<lambda>t. Inr (b, t))
        | None \<Rightarrow> Inl (Panic ''bget: no buffers'')))"

definition bread :: "int \<Rightarrow> u32 \<Rightarrow> u32 \<Rightarrow> bcache \<Rightarrow> (nat \<times> bcache) result" where
  "bread pid dev blkno s =
    bind_r (bget pid dev blkno s) (\<lambda>(b, t).
      if \<not> bvalid (bufs t ! b) then bind_r (iderw pid b t) (\<lambda>u. Inr (b, u)) else Inr (b, t))"

definition bwrite :: "int \<Rightarrow> nat \<Rightarrow> bcache \<Rightarrow> bcache result" where
  "bwrite pid b s =
    (if \<not> holdingsleep pid b s then Inl (Panic ''bwrite'')
     else iderw pid b (upd_buf b (\<lambda>x. x\<lparr>bdirty := True\<rparr>) s))"

definition brelse :: "int \<Rightarrow> nat \<Rightarrow> bcache \<Rightarrow> bcache result" where
  "brelse pid b s =
    (if \<not> holdingsleep pid b s then Inl (Panic ''brelse'')
     else let t = upd_buf b (\<lambda>x. x\<lparr>refcnt := refcnt x - 1\<rparr>) (releasesleep b s)
          in Inr (if refcnt (bufs t ! b) = 0 then t\<lparr>mru := b # remove1 b (mru t)\<rparr> else t))"

text \<open>The holder of a buffer stores into it.\<close>

definition set_data :: "nat \<Rightarrow> block \<Rightarrow> bcache \<Rightarrow> bcache" where
  "set_data b d s = upd_buf b (\<lambda>x. x\<lparr>bdata := d\<rparr>) s"

section \<open>Invariant and view\<close>

text \<open>What a reader of a block sees: the cached data when it is valid, the disk's otherwise.\<close>

definition cached :: "bcache \<Rightarrow> u32 \<Rightarrow> u32 \<Rightarrow> nat \<Rightarrow> bool" where
  "cached s dev n b \<longleftrightarrow> b < NBUF \<and> bdev (bufs s ! b) = dev \<and> blockno (bufs s ! b) = n"

definition bview :: "bcache \<Rightarrow> u32 \<Rightarrow> u32 \<Rightarrow> block" where
  "bview s dev n =
    (case find (\<lambda>b. bdev (bufs s ! b) = dev \<and> blockno (bufs s ! b) = n) (mru s) of
       Some b \<Rightarrow> if bvalid (bufs s ! b) then bdata (bufs s ! b) else disk s dev n
     | None \<Rightarrow> disk s dev n)"

text \<open>
  The cache holds a block of a device other than 0 at most once (a buffer that was never used has device 0), every
  unreferenced clean buffer agrees with the disk, only referenced buffers are locked, and a buffer of a device holds data.
\<close>

definition bio_ok :: "bcache \<Rightarrow> bool" where
  "bio_ok s \<longleftrightarrow> length (bufs s) = NBUF \<and> set (mru s) = {..<NBUF} \<and> distinct (mru s) \<and> havedisk1 s \<and>
     (\<forall>b < NBUF. \<forall>c < NBUF. bdev (bufs s ! b) \<noteq> 0 \<longrightarrow> bdev (bufs s ! b) = bdev (bufs s ! c) \<longrightarrow>
        blockno (bufs s ! b) = blockno (bufs s ! c) \<longrightarrow> b = c) \<and>
     (\<forall>b < NBUF. refcnt (bufs s ! b) = 0 \<longrightarrow> block_pid (bufs s ! b) = None \<and>
        (bvalid (bufs s ! b) \<and> \<not> bdirty (bufs s ! b) \<longrightarrow> bdata (bufs s ! b) = disk s (bdev (bufs s ! b)) (blockno (bufs s ! b)))) \<and>
     (\<forall>b < NBUF. bdirty (bufs s ! b) \<or> bdev (bufs s ! b) \<noteq> 0 \<longrightarrow> bvalid (bufs s ! b))"

lemma bio_okD:
  assumes "bio_ok s"
  shows "length (bufs s) = NBUF" "set (mru s) = {..<NBUF}" "distinct (mru s)" "havedisk1 s"
    "\<And>dev n b c. dev \<noteq> 0 \<Longrightarrow> cached s dev n b \<Longrightarrow> cached s dev n c \<Longrightarrow> b = c"
    "\<And>b. b < NBUF \<Longrightarrow> refcnt (bufs s ! b) = 0 \<Longrightarrow> block_pid (bufs s ! b) = None"
    "\<And>b. b < NBUF \<Longrightarrow> refcnt (bufs s ! b) = 0 \<Longrightarrow> bvalid (bufs s ! b) \<Longrightarrow> \<not> bdirty (bufs s ! b) \<Longrightarrow>
       bdata (bufs s ! b) = disk s (bdev (bufs s ! b)) (blockno (bufs s ! b))"
    "\<And>b. b < NBUF \<Longrightarrow> bdirty (bufs s ! b) \<or> bdev (bufs s ! b) \<noteq> 0 \<Longrightarrow> bvalid (bufs s ! b)"
  using assms unfolding bio_ok_def cached_def by auto

lemma bio_okI:
  assumes "length (bufs s) = NBUF" "set (mru s) = {..<NBUF}" "distinct (mru s)" "havedisk1 s"
    "\<And>dev n b c. dev \<noteq> 0 \<Longrightarrow> cached s dev n b \<Longrightarrow> cached s dev n c \<Longrightarrow> b = c"
    "\<And>b. b < NBUF \<Longrightarrow> refcnt (bufs s ! b) = 0 \<Longrightarrow> block_pid (bufs s ! b) = None"
    "\<And>b. b < NBUF \<Longrightarrow> refcnt (bufs s ! b) = 0 \<Longrightarrow> bvalid (bufs s ! b) \<Longrightarrow> \<not> bdirty (bufs s ! b) \<Longrightarrow>
       bdata (bufs s ! b) = disk s (bdev (bufs s ! b)) (blockno (bufs s ! b))"
    "\<And>b. b < NBUF \<Longrightarrow> bdirty (bufs s ! b) \<or> bdev (bufs s ! b) \<noteq> 0 \<Longrightarrow> bvalid (bufs s ! b)"
  shows "bio_ok s"
proof -
  have "b = c" if "b < NBUF" "c < NBUF" "bdev (bufs s ! b) \<noteq> 0" "bdev (bufs s ! b) = bdev (bufs s ! c)" "blockno (bufs s ! b) = blockno (bufs s ! c)" for b c
    using assms(5)[of "bdev (bufs s ! b)" "blockno (bufs s ! b)" b c] that by (simp add: cached_def)
  then have "\<forall>b < NBUF. \<forall>c < NBUF. bdev (bufs s ! b) \<noteq> 0 \<longrightarrow> bdev (bufs s ! b) = bdev (bufs s ! c) \<longrightarrow>
      blockno (bufs s ! b) = blockno (bufs s ! c) \<longrightarrow> b = c" by simp
  moreover have "\<forall>b < NBUF. refcnt (bufs s ! b) = 0 \<longrightarrow> block_pid (bufs s ! b) = None \<and>
      (bvalid (bufs s ! b) \<and> \<not> bdirty (bufs s ! b) \<longrightarrow> bdata (bufs s ! b) = disk s (bdev (bufs s ! b)) (blockno (bufs s ! b)))"
    using assms(6,7) by simp
  moreover have "\<forall>b < NBUF. bdirty (bufs s ! b) \<or> bdev (bufs s ! b) \<noteq> 0 \<longrightarrow> bvalid (bufs s ! b)" using assms(8) by simp
  ultimately show ?thesis unfolding bio_ok_def using assms(1-4) by (intro conjI)
qed

lemma find_None_iff': "find P xs = None \<longleftrightarrow> (\<forall>x \<in> set xs. \<not> P x)"
  by (auto simp: find_None_iff)

lemma find_SomeD: "find P xs = Some x \<Longrightarrow> x \<in> set xs \<and> P x"
  by (metis find_Some_iff nth_mem)

lemma find_unique: "x \<in> set xs \<Longrightarrow> P x \<Longrightarrow> (\<And>y. y \<in> set xs \<Longrightarrow> P y \<Longrightarrow> y = x) \<Longrightarrow> find P xs = Some x"
  by (metis find_None_iff' find_SomeD not_None_eq)

lemma find_cached:
  assumes "bio_ok s" "dev \<noteq> 0" "cached s dev n b"
  shows "find (\<lambda>b. bdev (bufs s ! b) = dev \<and> blockno (bufs s ! b) = n) (mru s) = Some b"
  using assms bio_okD(2,5)[OF assms(1)] by (intro find_unique) (auto simp: cached_def)

lemma find_uncached:
  assumes "bio_ok s" "\<nexists>b. cached s dev n b"
  shows "find (\<lambda>b. bdev (bufs s ! b) = dev \<and> blockno (bufs s ! b) = n) (mru s) = None"
  using assms bio_okD(2)[OF assms(1)] by (auto simp: find_None_iff' cached_def)

lemma view_cached:
  assumes "bio_ok s" "dev \<noteq> 0" "cached s dev n b"
  shows "bview s dev n = (if bvalid (bufs s ! b) then bdata (bufs s ! b) else disk s dev n)"
  by (simp add: bview_def find_cached[OF assms])

lemma view_uncached: "bio_ok s \<Longrightarrow> \<nexists>b. cached s dev n b \<Longrightarrow> bview s dev n = disk s dev n"
  by (simp add: bview_def find_uncached)

text \<open>A view is determined by the buffers and the disk at that block.\<close>

lemma view_cong:
  assumes "bio_ok s" "bio_ok t" "dev \<noteq> 0" "disk t dev n = disk s dev n"
    "\<And>b. cached s dev n b \<longleftrightarrow> cached t dev n b"
    "\<And>b. cached s dev n b \<Longrightarrow> bvalid (bufs t ! b) = bvalid (bufs s ! b) \<and> bdata (bufs t ! b) = bdata (bufs s ! b)"
  shows "bview t dev n = bview s dev n"
proof (cases "\<exists>b. cached s dev n b")
  case True
  then obtain b where b: "cached s dev n b" ..
  then show ?thesis using view_cached[OF assms(1,3) b] view_cached[OF assms(2,3)] assms(4-6) by metis
next
  case False
  then show ?thesis using view_uncached[OF assms(1)] view_uncached[OF assms(2)] assms(4,5) by metis
qed

definition free_bufs :: "bcache \<Rightarrow> nat set" where
  "free_bufs s = {b. b < NBUF \<and> refcnt (bufs s ! b) = 0 \<and> \<not> bdirty (bufs s ! b)}"

definition dirty_at :: "bcache \<Rightarrow> u32 \<Rightarrow> u32 \<Rightarrow> bool" where
  "dirty_at s dev n \<longleftrightarrow> (\<exists>b. cached s dev n b \<and> bdirty (bufs s ! b))"

definition held :: "bcache \<Rightarrow> int \<Rightarrow> nat \<Rightarrow> u32 \<Rightarrow> u32 \<Rightarrow> bool" where
  "held s pid b dev n \<longleftrightarrow> cached s dev n b \<and> bvalid (bufs s ! b) \<and> block_pid (bufs s ! b) = Some pid \<and> refcnt (bufs s ! b) > 0"

lemma nth_upd_buf: "length (bufs s) = NBUF \<Longrightarrow> b < NBUF \<Longrightarrow> bufs (upd_buf b f s) ! c = (if c = b then f (bufs s ! b) else bufs s ! c)"
  by (simp add: upd_buf_def nth_list_update)

lemma upd_buf_simps [simp]: "disk (upd_buf b f s) = disk s" "disk_writes (upd_buf b f s) = disk_writes s" "mru (upd_buf b f s) = mru s"
  "havedisk1 (upd_buf b f s) = havedisk1 s" "length (bufs (upd_buf b f s)) = length (bufs s)"
  by (simp_all add: upd_buf_def)

text \<open>Taking a buffer that holds the block already.\<close>

lemma bread_hit:
  assumes ok: "bio_ok s" and d: "dev \<noteq> 0" and c: "cached s dev n b" and fr: "block_pid (bufs s ! b) = None" and v: "bvalid (bufs s ! b)"
    and t_def: "t = upd_buf b (\<lambda>x. x\<lparr>block_pid := Some pid\<rparr>) (upd_buf b (\<lambda>x. x\<lparr>refcnt := refcnt x + 1\<rparr>) s)"
  shows "bread pid dev n s = Inr (b, t)" "bio_ok t" "held t pid b dev n" "bufs t ! b = (bufs s ! b)\<lparr>block_pid := Some pid, refcnt := refcnt (bufs s ! b) + 1\<rparr>"
    "x \<noteq> b \<Longrightarrow> bufs t ! x = bufs s ! x" "disk t = disk s" "disk_writes t = disk_writes s" "mru t = mru s"
proof -
  have b: "b < NBUF" using c by (simp add: cached_def)
  note len = bio_okD(1)[OF ok]
  have n: "bufs t ! x = (if x = b then (bufs s ! b)\<lparr>block_pid := Some pid, refcnt := refcnt (bufs s ! b) + 1\<rparr> else bufs s ! x)" for x
    using len b by (simp add: t_def nth_upd_buf)
  show "bufs t ! b = (bufs s ! b)\<lparr>block_pid := Some pid, refcnt := refcnt (bufs s ! b) + 1\<rparr>" "x \<noteq> b \<Longrightarrow> bufs t ! x = bufs s ! x"
    by (simp_all add: n)
  show m: "disk t = disk s" "disk_writes t = disk_writes s" "mru t = mru s" by (simp_all add: t_def)
  show "bread pid dev n s = Inr (b, t)"
    using fr v b len by (simp add: bread_def bget_def find_cached[OF ok d c] acquiresleep_def nth_upd_buf t_def)
  show "held t pid b dev n" using c v by (simp add: held_def cached_def n)
  note D = bio_okD[OF ok]
  have cc: "cached t dev' m x = cached s dev' m x" for dev' m x by (simp add: cached_def n)
  show "bio_ok t"
  proof (rule bio_okI)
    show "length (bufs t) = NBUF" "set (mru t) = {..<NBUF}" "distinct (mru t)" "havedisk1 t" using D(1-4) by (simp_all add: t_def)
    show "x = y" if "dev' \<noteq> 0" "cached t dev' m x" "cached t dev' m y" for dev' m x y using D(5) that by (simp add: cc)
  qed (use D(6-8) in \<open>simp_all add: n m split: if_splits\<close>)
qed

text \<open>Recycling a free buffer.\<close>

lemma bread_miss:
  assumes ok: "bio_ok s" and d: "dev \<noteq> 0" and u: "\<nexists>b. cached s dev n b" and fr: "free_bufs s \<noteq> {}" and lt: "n < FSSIZE"
  obtains b t where "bread pid dev n s = Inr (b, t)" "b \<in> free_bufs s" "bio_ok t" "held t pid b dev n"
    "bufs t ! b = (bufs s ! b)\<lparr>bdev := dev, blockno := n, bvalid := True, bdirty := False, block_pid := Some pid, refcnt := 1, bdata := disk s dev n\<rparr>"
    "\<And>x. x \<noteq> b \<Longrightarrow> bufs t ! x = bufs s ! x" "disk t = disk s" "disk_writes t = disk_writes s" "mru t = mru s"
proof -
  note D = bio_okD[OF ok]
  let ?P = "\<lambda>b. refcnt (bufs s ! b) = 0 \<and> \<not> bdirty (bufs s ! b)"
  obtain b where b: "find ?P (rev (mru s)) = Some b"
  proof (cases "find ?P (rev (mru s))")
    case None
    then have "\<forall>x \<in> {..<NBUF}. \<not> ?P x" using D(2) by (simp add: find_None_iff')
    then show ?thesis using fr by (auto simp: free_bufs_def)
  qed
  from find_SomeD[OF b] have bf: "b < NBUF" "?P b" using D(2) by auto
  let ?x = "(bufs s ! b)\<lparr>bdev := dev, blockno := n, bvalid := False, bdirty := False, refcnt := 1, block_pid := Some pid\<rparr>"
  define u1 where "u1 = upd_buf b (\<lambda>x. x\<lparr>block_pid := Some pid\<rparr>)
    (upd_buf b (\<lambda>x. x\<lparr>bdev := dev, blockno := n, bvalid := False, bdirty := False, refcnt := 1\<rparr>) s)"
  define t where "t = upd_buf b (\<lambda>x. x\<lparr>bdata := disk s dev n, bvalid := True, bdirty := False\<rparr>) u1"
  have u1: "bufs u1 ! b = ?x" "length (bufs u1) = NBUF" "disk u1 = disk s" "havedisk1 u1"
    using D(1,4) bf(1) by (simp_all add: u1_def nth_upd_buf)
  have g: "bget pid dev n s = Inr (b, u1)"
    using find_uncached[OF ok u] b bf D(1,6) by (simp add: bget_def acquiresleep_def nth_upd_buf u1_def)
  have i: "iderw pid b u1 = Inr t"
    using u1 lt by (simp add: iderw_def Let_def holdingsleep_def t_def not_le upd_buf_def)
  have n: "bufs t ! x = (if x = b then (bufs s ! b)\<lparr>bdev := dev, blockno := n, bvalid := True, bdirty := False, block_pid := Some pid,
      refcnt := 1, bdata := disk s dev n\<rparr> else bufs s ! x)" for x
    using bf(1) u1 D(1) by (simp add: t_def nth_upd_buf u1_def)
  have m: "disk t = disk s" "disk_writes t = disk_writes s" "mru t = mru s" "length (bufs t) = NBUF" "havedisk1 t"
    using D(1,4) by (simp_all add: t_def u1_def)
  have cc: "cached t dev' m x \<longleftrightarrow> (if x = b then dev' = dev \<and> m = n else cached s dev' m x)" for dev' m x
    using bf(1) by (auto simp: cached_def n)
  have okt: "bio_ok t"
  proof (rule bio_okI)
    show "x = y" if "dev' \<noteq> 0" "cached t dev' m x" "cached t dev' m y" for dev' m x y
      using D(5)[OF that(1), of m x y] that(2,3) u unfolding cc by (cases "x = b"; cases "y = b") auto
  qed (use D m in \<open>simp_all add: n split: if_splits\<close>)
  have h: "held t pid b dev n" using bf(1) by (simp add: held_def cached_def n)
  have r: "bread pid dev n s = Inr (b, t)" using g u1 i by (simp add: bread_def)
  have f: "b \<in> free_bufs s" using bf by (simp add: free_bufs_def)
  show ?thesis by (rule that[OF r f okt h _ _ m(1,2,3)]) (simp_all add: n)
qed

text \<open>The effect of \<open>bread\<close> on the abstract state: only the lock and the count of one buffer.\<close>

lemma bread_spec:
  assumes ok: "bio_ok s" and d: "dev \<noteq> 0" and lt: "n < FSSIZE"
    and fr: "\<And>b. cached s dev n b \<Longrightarrow> refcnt (bufs s ! b) = 0" and av: "(\<exists>b. cached s dev n b) \<or> free_bufs s \<noteq> {}"
  obtains b t where "bread pid dev n s = Inr (b, t)" "bio_ok t" "held t pid b dev n" "bdata (bufs t ! b) = bview s dev n"
    "refcnt (bufs t ! b) = 1" "refcnt (bufs s ! b) = 0" "bdirty (bufs t ! b) = dirty_at s dev n" "\<And>x. x \<noteq> b \<Longrightarrow> bufs t ! x = bufs s ! x"
    "disk t = disk s" "disk_writes t = disk_writes s" "\<And>d' m. d' \<noteq> 0 \<Longrightarrow> bview t d' m = bview s d' m"
    "\<And>d' m. dirty_at t d' m = dirty_at s d' m" "free_bufs t = free_bufs s - {b}"
proof (cases "\<exists>b. cached s dev n b")
  case True
  then obtain b where b: "cached s dev n b" ..
  then have v: "bvalid (bufs s ! b)" and p: "block_pid (bufs s ! b) = None" and r: "refcnt (bufs s ! b) = 0"
    using bio_okD(6,8)[OF ok, of b] fr d by (auto simp: cached_def)
  define t where "t = upd_buf b (\<lambda>x. x\<lparr>block_pid := Some pid\<rparr>) (upd_buf b (\<lambda>x. x\<lparr>refcnt := refcnt x + 1\<rparr>) s)"
  note h = bread_hit[OF ok d b p v t_def]
  have c: "cached t d' m x \<longleftrightarrow> cached s d' m x" for d' m x using h(4) h(5)[of x] by (cases "x = b") (auto simp: cached_def)
  have same: "bdirty (bufs t ! x) = bdirty (bufs s ! x)" "bvalid (bufs t ! x) = bvalid (bufs s ! x)" "bdata (bufs t ! x) = bdata (bufs s ! x)" for x
    using h(4) h(5)[of x] by (cases "x = b"; simp)+
  have dd: "dirty_at s dev n \<longleftrightarrow> bdirty (bufs s ! b)" using b bio_okD(5)[OF ok d] by (auto simp: dirty_at_def)
  have da: "dirty_at t d' m = dirty_at s d' m" for d' m by (simp add: dirty_at_def c same)
  have vw: "bview t d' m = bview s d' m" if "d' \<noteq> 0" for d' m
    by (rule view_cong[OF ok h(2) that]) (simp_all add: c same h(6))
  have fb: "free_bufs t = free_bufs s - {b}"
  proof (intro set_eqI)
    fix x show "x \<in> free_bufs t \<longleftrightarrow> x \<in> free_bufs s - {b}"
      using h(4) h(5)[of x] by (cases "x = b") (auto simp: free_bufs_def)
  qed
  show thesis
    by (rule that[OF h(1-3) _ _ r _ h(5,6,7) vw da fb]) (use view_cached[OF ok d b] v same dd h(4) r in simp_all)
next
  case False
  with av have "free_bufs s \<noteq> {}" by blast
  from bread_miss[OF ok d False this lt, of pid] obtain b t where
    h: "bread pid dev n s = Inr (b, t)" "b \<in> free_bufs s" "bio_ok t" "held t pid b dev n"
    "bufs t ! b = (bufs s ! b)\<lparr>bdev := dev, blockno := n, bvalid := True, bdirty := False, block_pid := Some pid, refcnt := 1, bdata := disk s dev n\<rparr>"
    "\<And>x. x \<noteq> b \<Longrightarrow> bufs t ! x = bufs s ! x" "disk t = disk s" "disk_writes t = disk_writes s" "mru t = mru s" by metis
  have bl: "b < NBUF" "refcnt (bufs s ! b) = 0" "\<not> bdirty (bufs s ! b)" using h(2) by (auto simp: free_bufs_def)
  have c: "cached t d' m x \<longleftrightarrow> (if x = b then d' = dev \<and> m = n else cached s d' m x)" for d' m x
    using h(5) h(6)[of x] bl by (cases "x = b") (auto simp: cached_def)
  have dn: "\<not> dirty_at s dev n" using False by (auto simp: dirty_at_def)
  have da: "dirty_at t d' m = dirty_at s d' m" for d' m
  proof -
    have "cached t d' m x \<and> bdirty (bufs t ! x) \<longleftrightarrow> cached s d' m x \<and> bdirty (bufs s ! x)" for x
      using h(5) h(6)[of x] bl(3) by (cases "x = b") (auto simp: c)
    then show ?thesis by (simp add: dirty_at_def)
  qed
  have vw: "bview t d' m = bview s d' m" if nz: "d' \<noteq> 0" for d' m
  proof -
    consider (new) "d' = dev" "m = n" | (evicted) "\<not> (d' = dev \<and> m = n)" "cached s d' m b" | (other) "\<not> (d' = dev \<and> m = n)" "\<not> cached s d' m b"
      by blast
    then show ?thesis
    proof cases
      case new
      then show ?thesis using view_cached[OF h(3) d, of n b] view_uncached[OF ok False] h(5) by (simp add: c)
    next
      case evicted
      have "bdata (bufs s ! b) = disk s d' m" if "bvalid (bufs s ! b)"
        using bio_okD(7)[OF ok bl(1,2) that bl(3)] evicted(2) by (simp add: cached_def)
      then have "bview s d' m = disk s d' m" using view_cached[OF ok nz evicted(2)] by simp
      moreover have "\<not> cached t d' m x" for x
        using evicted bio_okD(5)[OF ok nz evicted(2), of x] by (cases "x = b") (simp_all add: c, blast)
      ultimately show ?thesis using view_uncached[OF h(3)] h(7) by simp
    next
      case other
      have "cached s d' m x \<longleftrightarrow> cached t d' m x" for x using other by (auto simp: c)
      moreover have "bvalid (bufs t ! x) = bvalid (bufs s ! x) \<and> bdata (bufs t ! x) = bdata (bufs s ! x)" if "cached s d' m x" for x
        using other(2) that h(6)[of x] by (cases "x = b") auto
      ultimately show ?thesis using h(7) by (intro view_cong[OF ok h(3) nz]) auto
    qed
  qed
  have fb: "free_bufs t = free_bufs s - {b}"
  proof (intro set_eqI)
    fix x show "x \<in> free_bufs t \<longleftrightarrow> x \<in> free_bufs s - {b}"
      using h(5) h(6)[of x] by (cases "x = b") (auto simp: free_bufs_def)
  qed
  show ?thesis
    by (rule that[OF h(1,3,4) _ _ bl(2) _ h(6,7,8) vw da fb]) (use view_uncached[OF ok False] h(5) dn in simp_all)
qed

lemma bwrite_spec:
  assumes ok: "bio_ok s" and d: "dev \<noteq> 0" and lt: "n < FSSIZE" and h: "held s pid b dev n"
  obtains t where "bwrite pid b s = Inr t" "bio_ok t" "held t pid b dev n" "bufs t ! b = (bufs s ! b)\<lparr>bvalid := True, bdirty := False\<rparr>"
    "\<And>x. x \<noteq> b \<Longrightarrow> bufs t ! x = bufs s ! x" "disk t = (disk s)(dev := (disk s dev)(n := bdata (bufs s ! b)))"
    "disk_writes t = disk_writes s @ [(dev, n, bdata (bufs s ! b))]"
    "\<And>d' m. d' \<noteq> 0 \<Longrightarrow> bview t d' m = bview s d' m"
    "\<And>d' m. dirty_at t d' m \<longleftrightarrow> dirty_at s d' m \<and> (d', m) \<noteq> (dev, n)" "free_bufs t = free_bufs s"
proof -
  note D = bio_okD[OF ok]
  have b: "b < NBUF" "bdev (bufs s ! b) = dev" "blockno (bufs s ! b) = n" "bvalid (bufs s ! b)" "block_pid (bufs s ! b) = Some pid" "0 < refcnt (bufs s ! b)"
    using h by (auto simp: held_def cached_def)
  define u where "u = upd_buf b (\<lambda>x. x\<lparr>bdirty := True\<rparr>) s"
  define t where "t = (upd_buf b (\<lambda>x. x\<lparr>bvalid := True, bdirty := False\<rparr>) u)
         \<lparr>disk := (disk s)(dev := (disk s dev)(n := bdata (bufs s ! b))), disk_writes := disk_writes s @ [(dev, n, bdata (bufs s ! b))]\<rparr>"
  have u: "bufs u ! b = (bufs s ! b)\<lparr>bdirty := True\<rparr>" "length (bufs u) = NBUF" "havedisk1 u" "disk u = disk s" "disk_writes u = disk_writes s"
    using D(1,4) b(1) by (simp_all add: u_def nth_upd_buf)
  have w: "bwrite pid b s = Inr t"
    using b u lt D by (simp add: bwrite_def holdingsleep_def iderw_def Let_def u_def[symmetric] not_le t_def)
  have n: "bufs t ! x = (if x = b then (bufs s ! b)\<lparr>bvalid := True, bdirty := False\<rparr> else bufs s ! x)" for x
    using b(1) D(1) u(2) by (simp add: t_def nth_upd_buf upd_buf_def u_def)
  have m: "disk t = (disk s)(dev := (disk s dev)(n := bdata (bufs s ! b)))" "disk_writes t = disk_writes s @ [(dev, n, bdata (bufs s ! b))]"
    "mru t = mru s" "length (bufs t) = NBUF" "havedisk1 t"
    using D(1,4) by (simp_all add: t_def u_def)
  have c: "cached t d' m x = cached s d' m x" for d' m x by (simp add: cached_def n)
  have okt: "bio_ok t"
  proof (rule bio_okI)
    show "x = y" if "d' \<noteq> 0" "cached t d' m x" "cached t d' m y" for d' m x y using D(5) that by (simp add: c)
    show "bdata (bufs t ! x) = disk t (bdev (bufs t ! x)) (blockno (bufs t ! x))"
      if "x < NBUF" "refcnt (bufs t ! x) = 0" "bvalid (bufs t ! x)" "\<not> bdirty (bufs t ! x)" for x
    proof -
      have x: "x \<noteq> b" using that(2) b(6) by (auto simp: n)
      then have "\<not> (bdev (bufs s ! x) = dev \<and> blockno (bufs s ! x) = n)"
        using D(5)[OF d, of n x b] that(1) b by (auto simp: cached_def)
      then show ?thesis using D(7)[of x] that x by (auto simp: n m(1))
    qed
  qed (use D m b in \<open>auto simp: n split: if_splits\<close>)
  have vw: "bview t d' m = bview s d' m" if "d' \<noteq> 0" for d' m
  proof (cases "d' = dev \<and> m = n")
    case True
    have cb: "cached s dev n b" using b by (simp add: cached_def)
    then show ?thesis using True view_cached[OF ok d cb] view_cached[OF okt d] b(4) by (simp add: c n)
  next
    case False
    then show ?thesis by (intro view_cong[OF ok okt that]) (auto simp: c n m(1) b(4))
  qed
  have da: "dirty_at t d' m \<longleftrightarrow> dirty_at s d' m \<and> (d', m) \<noteq> (dev, n)" for d' m
  proof -
    have "cached s d' m x \<and> bdirty (bufs t ! x) \<longleftrightarrow> cached s d' m x \<and> bdirty (bufs s ! x) \<and> (d', m) \<noteq> (dev, n)" for x
      using D(5)[OF d, of n x b] b by (cases "x = b") (auto simp: n cached_def)
    then show ?thesis by (auto simp: dirty_at_def c)
  qed
  have fb: "free_bufs t = free_bufs s"
    using b(6) by (intro set_eqI) (simp add: free_bufs_def n)
  have ht: "held t pid b dev n" using h by (simp add: held_def c n)
  show ?thesis by (rule that[OF w okt ht _ _ m(1,2) vw da fb]) (simp_all add: n)
qed

lemma brelse_spec:
  assumes ok: "bio_ok s" and d: "dev \<noteq> 0" and h: "held s pid b dev n" and r: "refcnt (bufs s ! b) = 1"
    and co: "bdirty (bufs s ! b) \<or> bdata (bufs s ! b) = disk s dev n"
  obtains t where "brelse pid b s = Inr t" "bio_ok t" "bufs t ! b = (bufs s ! b)\<lparr>block_pid := None, refcnt := 0\<rparr>"
    "\<And>x. x \<noteq> b \<Longrightarrow> bufs t ! x = bufs s ! x" "disk t = disk s" "disk_writes t = disk_writes s"
    "\<And>d' m. d' \<noteq> 0 \<Longrightarrow> bview t d' m = bview s d' m" "\<And>d' m. dirty_at t d' m = dirty_at s d' m"
    "free_bufs t = (if bdirty (bufs s ! b) then free_bufs s else insert b (free_bufs s))"
proof -
  note D = bio_okD[OF ok]
  have b: "b < NBUF" "bdev (bufs s ! b) = dev" "blockno (bufs s ! b) = n" "bvalid (bufs s ! b)" "block_pid (bufs s ! b) = Some pid"
    using h by (auto simp: held_def cached_def)
  define u where "u = upd_buf b (\<lambda>x. x\<lparr>refcnt := refcnt x - 1\<rparr>) (releasesleep b s)"
  define t where "t = u\<lparr>mru := b # remove1 b (mru u)\<rparr>"
  have n: "bufs t ! x = (if x = b then (bufs s ! b)\<lparr>block_pid := None, refcnt := 0\<rparr> else bufs s ! x)" for x
    using b(1) D(1) r by (simp add: t_def u_def releasesleep_def nth_upd_buf)
  have m: "disk t = disk s" "disk_writes t = disk_writes s" "mru t = b # remove1 b (mru s)" "length (bufs t) = NBUF" "havedisk1 t"
    using D(1,4) by (simp_all add: t_def u_def releasesleep_def)
  have "bufs u = bufs t" by (simp add: t_def)
  then have w: "brelse pid b s = Inr t"
    unfolding brelse_def Let_def u_def[symmetric] using b(5) n[of b] by (simp add: holdingsleep_def t_def)
  have c: "cached t d' m x = cached s d' m x" for d' m x by (simp add: cached_def n)
  have okt: "bio_ok t"
  proof (rule bio_okI)
    show "x = y" if "d' \<noteq> 0" "cached t d' m x" "cached t d' m y" for d' m x y using D(5) that by (simp add: c)
    show "set (mru t) = {..<NBUF}" "distinct (mru t)" using D(2,3) b(1) by (auto simp: m(3) set_remove1_eq)
    show "bdata (bufs t ! x) = disk t (bdev (bufs t ! x)) (blockno (bufs t ! x))"
      if "x < NBUF" "refcnt (bufs t ! x) = 0" "bvalid (bufs t ! x)" "\<not> bdirty (bufs t ! x)" for x
      using D(7)[of x] that co b by (cases "x = b") (auto simp: n m(1))
  qed (use D m(1,4,5) in \<open>auto simp: n split: if_splits\<close>)
  have vw: "bview t d' m = bview s d' m" if "d' \<noteq> 0" for d' m
    by (rule view_cong[OF ok okt that]) (simp_all add: c n m(1))
  have da: "dirty_at t d' m = dirty_at s d' m" for d' m
  proof -
    have "bdirty (bufs t ! x) = bdirty (bufs s ! x)" for x by (simp add: n)
    then show ?thesis by (simp add: dirty_at_def c)
  qed
  have fb: "free_bufs t = (if bdirty (bufs s ! b) then free_bufs s else insert b (free_bufs s))"
    using b(1) by (intro set_eqI) (auto simp: free_bufs_def n)
  show ?thesis by (rule that[OF w okt _ _ m(1,2) vw da fb]) (simp_all add: n)
qed

lemma set_data_spec:
  assumes ok: "bio_ok s" and d: "dev \<noteq> 0" and h: "held s pid b dev n"
  shows "bio_ok (set_data b x s)" "held (set_data b x s) pid b dev n" "bufs (set_data b x s) ! b = (bufs s ! b)\<lparr>bdata := x\<rparr>"
    "c \<noteq> b \<Longrightarrow> bufs (set_data b x s) ! c = bufs s ! c" "disk (set_data b x s) = disk s" "disk_writes (set_data b x s) = disk_writes s"
    "d' \<noteq> 0 \<Longrightarrow> bview (set_data b x s) d' m = (if d' = dev \<and> m = n then x else bview s d' m)"
    "dirty_at (set_data b x s) d' m = dirty_at s d' m" "free_bufs (set_data b x s) = free_bufs s"
proof -
  note D = bio_okD[OF ok]
  have b: "b < NBUF" "cached s dev n b" "bvalid (bufs s ! b)" "0 < refcnt (bufs s ! b)" using h by (auto simp: held_def cached_def)
  let ?t = "set_data b x s"
  have n: "bufs ?t ! c = (if c = b then (bufs s ! b)\<lparr>bdata := x\<rparr> else bufs s ! c)" for c
    using D(1) b(1) by (simp add: set_data_def nth_upd_buf)
  show "bufs ?t ! b = (bufs s ! b)\<lparr>bdata := x\<rparr>" "c \<noteq> b \<Longrightarrow> bufs ?t ! c = bufs s ! c" by (simp_all add: n)
  show m: "disk ?t = disk s" "disk_writes ?t = disk_writes s" by (simp_all add: set_data_def)
  have c: "cached ?t d' m x' = cached s d' m x'" for d' m x' by (simp add: cached_def n)
  show "held ?t pid b dev n" using h by (simp add: held_def c n)
  show okt: "bio_ok ?t"
  proof (rule bio_okI)
    show "y = z" if "d' \<noteq> 0" "cached ?t d' m y" "cached ?t d' m z" for d' m y z using D(5) that by (simp add: c)
    show "length (bufs ?t) = NBUF" "set (mru ?t) = {..<NBUF}" "distinct (mru ?t)" "havedisk1 ?t" using D(1-4) by (simp_all add: set_data_def)
  qed (use D(6-8) b(4) in \<open>simp_all add: n m split: if_splits\<close>)
  show "dirty_at ?t d' m = dirty_at s d' m"
  proof -
    have "bdirty (bufs ?t ! y) = bdirty (bufs s ! y)" for y by (simp add: n)
    then show ?thesis by (simp add: dirty_at_def c)
  qed
  show "free_bufs ?t = free_bufs s" using b(4) by (intro set_eqI) (simp add: free_bufs_def n)
  assume nz: "d' \<noteq> 0"
  show "bview ?t d' m = (if d' = dev \<and> m = n then x else bview s d' m)"
  proof (cases "d' = dev \<and> m = n")
    case True
    then show ?thesis using view_cached[OF okt d, of n b] b by (simp add: c n)
  next
    case False
    have "y \<noteq> b" if "cached s d' m y" for y using that b(2) False by (auto simp: cached_def)
    then have "bview ?t d' m = bview s d' m" by (intro view_cong[OF ok okt nz]) (auto simp: c n m)
    then show ?thesis using False by auto
  qed
qed

section \<open>Copying a block to disk\<close>

definition quiet :: "bcache \<Rightarrow> bool" where
  "quiet s \<longleftrightarrow> bio_ok s \<and> (\<forall>b < NBUF. refcnt (bufs s ! b) = 0)"

text \<open>The holder of two buffers copies the first into the second, writes it and releases both.\<close>

lemma copy_held:
  assumes ok: "bio_ok s" and d: "dev \<noteq> 0" and lt: "n < FSSIZE" and ha: "held s pid a dev m" and hb: "held s pid b dev n" and ne: "a \<noteq> b"
    and r: "refcnt (bufs s ! a) = 1" "refcnt (bufs s ! b) = 1" and co: "bdirty (bufs s ! a) \<or> bdata (bufs s ! a) = disk s dev m"
    and rest: "\<And>x. x < NBUF \<Longrightarrow> x \<noteq> a \<Longrightarrow> x \<noteq> b \<Longrightarrow> refcnt (bufs s ! x) = 0" and xy: "x = a \<and> y = b \<or> x = b \<and> y = a"
  obtains t where "bind_r (bwrite pid b (set_data b (bdata (bufs s ! a)) s)) (\<lambda>u. bind_r (brelse pid x u) (brelse pid y)) = Inr t" "quiet t"
    "disk t = (disk s)(dev := (disk s dev)(n := bdata (bufs s ! a)))" "disk_writes t = disk_writes s @ [(dev, n, bdata (bufs s ! a))]"
    "\<And>d' k. d' \<noteq> 0 \<Longrightarrow> bview t d' k = (if d' = dev \<and> k = n then bdata (bufs s ! a) else bview s d' k)"
    "\<And>d' k. dirty_at t d' k \<longleftrightarrow> dirty_at s d' k \<and> (d', k) \<noteq> (dev, n)"
    "free_bufs s \<subseteq> free_bufs t" "b \<in> free_bufs t" "a \<in> free_bufs t \<or> bdirty (bufs s ! a)"
proof -
  let ?v = "bdata (bufs s ! a)"
  note sd = set_data_spec[OF ok d hb, where x = ?v] note bs = sd(3)
  have mn: "m \<noteq> n" using bio_okD(5)[OF ok d, of n a b] ha hb ne by (auto simp: held_def)
  obtain u where u: "bwrite pid b (set_data b ?v s) = Inr u" "bio_ok u" "held u pid b dev n"
    "bufs u ! b = (bufs (set_data b ?v s) ! b)\<lparr>bvalid := True, bdirty := False\<rparr>"
    "\<And>x. x \<noteq> b \<Longrightarrow> bufs u ! x = bufs (set_data b ?v s) ! x" "disk u = (disk s)(dev := (disk s dev)(n := ?v))"
    "disk_writes u = disk_writes s @ [(dev, n, ?v)]" "\<And>d' m. d' \<noteq> 0 \<Longrightarrow> bview u d' m = bview (set_data b ?v s) d' m"
    "\<And>d' m. dirty_at u d' m \<longleftrightarrow> dirty_at s d' m \<and> (d', m) \<noteq> (dev, n)" "free_bufs u = free_bufs s"
    using bwrite_spec[OF sd(1) d lt sd(2)] by (auto simp: sd(5,6,8,9) bs)
  have ua: "bufs u ! a = bufs s ! a" using u(5)[OF ne] sd(4)[OF ne] by simp
  have ub: "bdata (bufs u ! b) = ?v" "\<not> bdirty (bufs u ! b)" "refcnt (bufs u ! b) = 1" using u(4) bs r(2) by simp_all
  have ha': "held u pid a dev m" using ha ua by (simp add: held_def cached_def)
  have coa: "bdirty (bufs u ! a) \<or> bdata (bufs u ! a) = disk u dev m" using co ua mn by (auto simp: u(6))
  have cob: "bdirty (bufs u ! b) \<or> bdata (bufs u ! b) = disk u dev n" using ub by (simp add: u(6))
  have hold: "held u pid x dev (if x = a then m else n)" "held u pid y dev (if y = a then m else n)"
    "bdirty (bufs u ! x) \<or> bdata (bufs u ! x) = disk u dev (if x = a then m else n)"
    "bdirty (bufs u ! y) \<or> bdata (bufs u ! y) = disk u dev (if y = a then m else n)" "refcnt (bufs u ! x) = 1" "refcnt (bufs u ! y) = 1" "x \<noteq> y"
    using xy ha' u(3) coa cob ne ub(3) r(1) ua by auto
  obtain v where v: "brelse pid x u = Inr v" "bio_ok v" "bufs v ! x = (bufs u ! x)\<lparr>block_pid := None, refcnt := 0\<rparr>"
    "\<And>c. c \<noteq> x \<Longrightarrow> bufs v ! c = bufs u ! c" "disk v = disk u" "disk_writes v = disk_writes u"
    "\<And>d' m. d' \<noteq> 0 \<Longrightarrow> bview v d' m = bview u d' m" "\<And>d' m. dirty_at v d' m = dirty_at u d' m"
    "free_bufs v = (if bdirty (bufs u ! x) then free_bufs u else insert x (free_bufs u))"
    using brelse_spec[OF u(2) d hold(1,5,3)] by blast
  have vy: "bufs v ! y = bufs u ! y" using v(4) hold(7) by metis
  have hy: "held v pid y dev (if y = a then m else n)" "refcnt (bufs v ! y) = 1" "bdirty (bufs v ! y) \<or> bdata (bufs v ! y) = disk v dev (if y = a then m else n)"
    using hold(2,4,6) vy by (simp_all add: held_def cached_def v(5))
  obtain w where w: "brelse pid y v = Inr w" "bio_ok w" "bufs w ! y = (bufs v ! y)\<lparr>block_pid := None, refcnt := 0\<rparr>"
    "\<And>c. c \<noteq> y \<Longrightarrow> bufs w ! c = bufs v ! c" "disk w = disk v" "disk_writes w = disk_writes v"
    "\<And>d' m. d' \<noteq> 0 \<Longrightarrow> bview w d' m = bview v d' m" "\<And>d' m. dirty_at w d' m = dirty_at v d' m"
    "free_bufs w = (if bdirty (bufs v ! y) then free_bufs v else insert y (free_bufs v))"
    using brelse_spec[OF v(2) d hy] by blast
  have "refcnt (bufs w ! c) = 0" if "c < NBUF" for c
  proof -
    consider "c = y" | "c = x" "c \<noteq> y" | "c \<noteq> x" "c \<noteq> y" "c \<noteq> a" "c \<noteq> b" using xy by blast
    then show ?thesis
      using rest[OF that] w(3) w(4)[of c] v(3) v(4)[of c] u(5)[of c] sd(4)[of c] by cases simp_all
  qed
  then have q: "quiet w" using w(2) by (simp add: quiet_def)
  have fr: "free_bufs s \<subseteq> free_bufs w" "b \<in> free_bufs w" "a \<in> free_bufs w \<or> bdirty (bufs s ! a)"
    using xy ub(2) ua vy by (auto simp: w(9) v(9) u(10))
  show ?thesis
    by (rule that[OF _ q _ _ _ _ fr]) (use u v w sd(7) in simp_all)
qed

end
