(* ===== verification/Log.thy ===== *)
theory Log
  imports Bio
begin

text \<open>
  The write-ahead log (\<open>log.c\<close>) over the block cache. A system call's writes are pinned in the cache by
  \<open>log_write\<close>; \<open>commit\<close> copies them to the log, writes the header, which is the commit point, installs them and
  clears the header. The functions below run while \<open>log.committing\<close> keeps other file system calls out, so each is a
  sequence of cache operations; \<open>log.lock\<close> makes \<open>begin_op\<close>, \<open>end_op\<close> and \<open>log_write\<close> atomic steps.
\<close>

section \<open>Words in a block\<close>

definition get_word :: "block \<Rightarrow> nat \<Rightarrow> u32" where
  "get_word d i = or (ucast (d ! (4 * i))) (or (push_bit 8 (ucast (d ! (4 * i + 1))))
     (or (push_bit 16 (ucast (d ! (4 * i + 2)))) (push_bit 24 (ucast (d ! (4 * i + 3))))))"

definition put_word :: "block \<Rightarrow> nat \<Rightarrow> u32 \<Rightarrow> block" where
  "put_word d i v = d[4 * i := ucast v, 4 * i + 1 := ucast (drop_bit 8 v), 4 * i + 2 := ucast (drop_bit 16 v), 4 * i + 3 := ucast (drop_bit 24 v)]"

lemma length_put_word [simp]: "length (put_word d i v) = length d"
  by (simp add: put_word_def)

lemma word_split:
  "or (ucast (ucast v :: u8)) (or (push_bit 8 (ucast (ucast (drop_bit 8 v) :: u8)))
     (or (push_bit 16 (ucast (ucast (drop_bit 16 v) :: u8))) (push_bit 24 (ucast (ucast (drop_bit 24 v) :: u8))))) = (v :: u32)"
proof (rule bit_word_eqI)
  fix n assume "n < LENGTH(32)"
  then show "bit (or (ucast (ucast v :: u8)) (or (push_bit 8 (ucast (ucast (drop_bit 8 v) :: u8)))
     (or (push_bit 16 (ucast (ucast (drop_bit 16 v) :: u8))) (push_bit 24 (ucast (ucast (drop_bit 24 v) :: u8))))) :: u32) n = bit v n"
    by (cases "24 \<le> n"; cases "16 \<le> n") (auto simp: bit_simps not_less)
qed

lemma get_put_word: "4 * i + 3 < length d \<Longrightarrow> get_word (put_word d i v) j = (if j = i then v else get_word d j)"
proof (cases "j = i")
  case True
  moreover assume "4 * i + 3 < length d"
  ultimately show ?thesis by (simp add: get_word_def put_word_def nth_list_update word_split)
next
  case False
  then have "4 * j + a \<noteq> 4 * i + b" if "a < 4" "b < 4" for a b using that by linarith
  from this[of 0 0] this[of 0 1] this[of 0 2] this[of 0 3] this[of 1 0] this[of 1 1] this[of 1 2] this[of 1 3]
    this[of 2 0] this[of 2 1] this[of 2 2] this[of 2 3] this[of 3 0] this[of 3 1] this[of 3 2] this[of 3 3]
  show ?thesis using False by (simp add: get_word_def put_word_def)
qed

section \<open>The log\<close>

definition MAXOPBLOCKS :: int where "MAXOPBLOCKS = 10"
definition LOGSIZE :: int where "LOGSIZE = 30"

text \<open>\<open>struct log\<close> with the cache below it; \<open>lhn\<close> and \<open>lhblock\<close> are the in-memory header.\<close>

record logst =
  cache :: bcache
  lstart :: u32
  lsize :: u32
  outstanding :: int
  committing :: bool
  ldev :: u32
  lhn :: int
  lhblock :: "u32 list"

definition lift_c :: "bcache result \<Rightarrow> logst \<Rightarrow> logst result" where
  "lift_c r l = bind_r r (\<lambda>c. Inr (l\<lparr>cache := c\<rparr>))"

definition install_one :: "int \<Rightarrow> nat \<Rightarrow> logst \<Rightarrow> logst result" where
  "install_one pid tail l =
    lift_c (bind_r (bread pid (ldev l) (lstart l + of_nat tail + 1) (cache l)) (\<lambda>(lbuf, c1).
      bind_r (bread pid (ldev l) (lhblock l ! tail) c1) (\<lambda>(dbuf, c2).
        bind_r (bwrite pid dbuf (set_data dbuf (bdata (bufs c2 ! lbuf)) c2)) (\<lambda>c3.
          bind_r (brelse pid lbuf c3) (brelse pid dbuf))))) l"

definition install_trans :: "int \<Rightarrow> logst \<Rightarrow> logst result" where
  "install_trans pid l = fold_r (install_one pid) [0..<nat (lhn l)] l"

text \<open>\<open>read_head\<close> copies as many block numbers as the header says; more than \<open>LOGSIZE\<close> overrun the array.\<close>

definition read_head :: "int \<Rightarrow> logst \<Rightarrow> logst result" where
  "read_head pid l =
    bind_r (bread pid (ldev l) (lstart l) (cache l)) (\<lambda>(b, c).
      let d = bdata (bufs c ! b); n = sint (get_word d 0) in
      if n > LOGSIZE then Inl (Fault ''read_head'')
      else bind_r (brelse pid b c) (\<lambda>c2.
        Inr (l\<lparr>cache := c2, lhn := n, lhblock := map (\<lambda>i. get_word d (i + 1)) [0..<nat n] @ drop (nat n) (lhblock l)\<rparr>)))"

definition head_block :: "logst \<Rightarrow> block \<Rightarrow> block" where
  "head_block l d = fold (\<lambda>i d. put_word d (i + 1) (lhblock l ! i)) [0..<nat (lhn l)] (put_word d 0 (of_int (lhn l)))"

definition write_head :: "int \<Rightarrow> logst \<Rightarrow> logst result" where
  "write_head pid l =
    lift_c (bind_r (bread pid (ldev l) (lstart l) (cache l)) (\<lambda>(b, c).
      bind_r (bwrite pid b (set_data b (head_block l (bdata (bufs c ! b))) c)) (brelse pid b))) l"

definition recover_from_log :: "int \<Rightarrow> logst \<Rightarrow> logst result" where
  "recover_from_log pid l =
    bind_r (read_head pid l) (\<lambda>l1. bind_r (install_trans pid l1) (\<lambda>l2. write_head pid (l2\<lparr>lhn := 0\<rparr>)))"

text \<open>\<open>readsb\<close> of \<open>fs.c\<close>: the super block is block 1; words 3 and 4 are \<open>nlog\<close> and \<open>logstart\<close>.\<close>

definition initlog :: "int \<Rightarrow> u32 \<Rightarrow> logst \<Rightarrow> logst result" where
  "initlog pid dev l =
    bind_r (bread pid dev 1 (cache l)) (\<lambda>(b, c).
      let sb = bdata (bufs c ! b) in
      bind_r (brelse pid b c) (\<lambda>c2.
        recover_from_log pid (l\<lparr>cache := c2, lstart := get_word sb 4, lsize := get_word sb 3, ldev := dev\<rparr>)))"

definition write_log_one :: "int \<Rightarrow> nat \<Rightarrow> logst \<Rightarrow> logst result" where
  "write_log_one pid tail l =
    lift_c (bind_r (bread pid (ldev l) (lstart l + of_nat tail + 1) (cache l)) (\<lambda>(tob, c1).
      bind_r (bread pid (ldev l) (lhblock l ! tail) c1) (\<lambda>(fromb, c2).
        bind_r (bwrite pid tob (set_data tob (bdata (bufs c2 ! fromb)) c2)) (\<lambda>c3.
          bind_r (brelse pid fromb c3) (brelse pid tob))))) l"

definition write_log :: "int \<Rightarrow> logst \<Rightarrow> logst result" where
  "write_log pid l = fold_r (write_log_one pid) [0..<nat (lhn l)] l"

definition commit :: "int \<Rightarrow> logst \<Rightarrow> logst result" where
  "commit pid l =
    (if lhn l > 0 then
       bind_r (write_log pid l) (\<lambda>l1. bind_r (write_head pid l1) (\<lambda>l2. bind_r (install_trans pid l2) (\<lambda>l3. write_head pid (l3\<lparr>lhn := 0\<rparr>))))
     else Inr l)"

text \<open>\<open>begin_op\<close> waits while a commit runs or the log might overflow; \<open>None\<close> is a sleep on the log.\<close>

definition begin_op :: "logst \<Rightarrow> logst option" where
  "begin_op l =
    (if committing l then None
     else if lhn l + (outstanding l + 1) * MAXOPBLOCKS > LOGSIZE then None
     else Some (l\<lparr>outstanding := outstanding l + 1\<rparr>))"

text \<open>\<open>end_op\<close> up to the release of the lock (the flag is \<open>do_commit\<close>), and the whole call.\<close>

definition end_op_start :: "logst \<Rightarrow> (bool \<times> logst) result" where
  "end_op_start l =
    (let l1 = l\<lparr>outstanding := outstanding l - 1\<rparr> in
     if committing l1 then Inl (Panic ''log.committing'')
     else if outstanding l1 = 0 then Inr (True, l1\<lparr>committing := True\<rparr>)
     else Inr (False, l1))"

definition end_op :: "int \<Rightarrow> logst \<Rightarrow> logst result" where
  "end_op pid l =
    bind_r (end_op_start l) (\<lambda>(do_commit, l1).
      if do_commit then bind_r (commit pid l1) (\<lambda>l2. Inr (l2\<lparr>committing := False\<rparr>)) else Inr l1)"

definition log_write :: "nat \<Rightarrow> logst \<Rightarrow> logst result" where
  "log_write b l =
    (if lhn l \<ge> LOGSIZE \<or> lhn l \<ge> sint (lsize l) - 1 then Inl (Panic ''too big a transaction'')
     else if outstanding l < 1 then Inl (Panic ''log_write outside of trans'')
     else let blkno = blockno (bufs (cache l) ! b);
              i = (case find_idx (\<lambda>x. x = blkno) (take (nat (lhn l)) (lhblock l)) of Some i \<Rightarrow> i | None \<Rightarrow> nat (lhn l))
          in Inr (l\<lparr>lhblock := (lhblock l)[i := blkno], lhn := if i = nat (lhn l) then lhn l + 1 else lhn l,
                cache := upd_buf b (\<lambda>x. x\<lparr>bdirty := True\<rparr>) (cache l)\<rparr>))"

section \<open>Two buffers at a time\<close>

lemma clean_view:
  assumes "quiet c" "dev \<noteq> 0" "\<not> dirty_at c dev n"
  shows "bview c dev n = disk c dev n"
proof (cases "\<exists>b. cached c dev n b")
  case True
  then obtain b where b: "cached c dev n b" ..
  have ok: "bio_ok c" using assms(1) by (simp add: quiet_def)
  have "bdata (bufs c ! b) = disk c dev n" if "bvalid (bufs c ! b)"
    using bio_okD(7)[OF ok, of b] that b assms by (auto simp: quiet_def cached_def dirty_at_def)
  then show ?thesis using view_cached[OF ok assms(2) b] by simp
qed (use assms view_uncached in \<open>auto simp: quiet_def\<close>)

lemma finite_free [simp]: "finite (free_bufs c)"
  by (simp add: free_bufs_def)

lemma free_count:
  assumes "quiet c" "dev \<noteq> 0" "\<And>d n. dirty_at c d n \<Longrightarrow> d = dev \<and> n \<in> A" "finite A"
  shows "NBUF \<le> card (free_bufs c) + card A"
proof -
  let ?D = "{b. b < NBUF \<and> bdirty (bufs c ! b)}"
  have ok: "bio_ok c" using assms(1) by (simp add: quiet_def)
  have d: "bdev (bufs c ! b) = dev \<and> blockno (bufs c ! b) \<in> A" if "b \<in> ?D" for b
    using assms(3)[of "bdev (bufs c ! b)" "blockno (bufs c ! b)"] that by (auto simp: dirty_at_def cached_def)
  have inj: "inj_on (\<lambda>b. blockno (bufs c ! b)) ?D"
  proof (rule inj_onI)
    fix b b' assume "b \<in> ?D" "b' \<in> ?D" "blockno (bufs c ! b) = blockno (bufs c ! b')"
    then show "b = b'" using d[of b] d[of b'] bio_okD(5)[OF ok assms(2), of "blockno (bufs c ! b)" b b'] by (auto simp: cached_def)
  qed
  have "card ?D \<le> card A" by (rule card_inj_on_le[OF inj]) (use d assms(4) in auto)
  moreover have "free_bufs c \<union> ?D = {..<NBUF}" using assms(1) by (auto simp: free_bufs_def quiet_def)
  then have "NBUF \<le> card (free_bufs c) + card ?D" by (metis card_Un_le card_lessThan)
  ultimately show ?thesis by simp
qed

lemma two_breads:
  assumes q: "quiet c" and d: "dev \<noteq> 0" and lt: "p < FSSIZE" "r < FSSIZE" "p \<noteq> r"
    and av: "2 \<le> card (free_bufs c) \<or> 1 \<le> card (free_bufs c) \<and> dirty_at c dev r"
  obtains b1 c1 b2 c2 where "bread pid dev p c = Inr (b1, c1)" "bread pid dev r c1 = Inr (b2, c2)" "bio_ok c2" "b1 \<noteq> b2"
    "held c2 pid b1 dev p" "held c2 pid b2 dev r" "bdata (bufs c2 ! b1) = bview c dev p" "bdata (bufs c2 ! b2) = bview c dev r"
    "refcnt (bufs c2 ! b1) = 1" "refcnt (bufs c2 ! b2) = 1" "bdirty (bufs c2 ! b1) \<or> bdata (bufs c2 ! b1) = disk c2 dev p"
    "bdirty (bufs c2 ! b2) \<or> bdata (bufs c2 ! b2) = disk c2 dev r" "\<And>x. x < NBUF \<Longrightarrow> x \<noteq> b1 \<Longrightarrow> x \<noteq> b2 \<Longrightarrow> refcnt (bufs c2 ! x) = 0"
    "disk c2 = disk c" "disk_writes c2 = disk_writes c" "\<And>d' m. d' \<noteq> 0 \<Longrightarrow> bview c2 d' m = bview c d' m"
    "\<And>d' m. dirty_at c2 d' m = dirty_at c d' m"
proof -
  have ok: "bio_ok c" and z: "\<And>b. b < NBUF \<Longrightarrow> refcnt (bufs c ! b) = 0" using q by (auto simp: quiet_def)
  have fn: "(\<exists>b. cached c dev p b) \<or> free_bufs c \<noteq> {}" using av by auto
  have z0: "refcnt (bufs c ! b) = 0" if "cached c dev p b" for b using that z by (simp add: cached_def)
  obtain b1 c1 where f: "bread pid dev p c = Inr (b1, c1)" "bio_ok c1" "held c1 pid b1 dev p" "bdata (bufs c1 ! b1) = bview c dev p"
    "refcnt (bufs c1 ! b1) = 1" "refcnt (bufs c ! b1) = 0" "bdirty (bufs c1 ! b1) = dirty_at c dev p" "\<And>x. x \<noteq> b1 \<Longrightarrow> bufs c1 ! x = bufs c ! x"
    "disk c1 = disk c" "disk_writes c1 = disk_writes c" "\<And>d' m. d' \<noteq> 0 \<Longrightarrow> bview c1 d' m = bview c d' m"
    "\<And>d' m. dirty_at c1 d' m = dirty_at c d' m" "free_bufs c1 = free_bufs c - {b1}"
    using bread_spec[OF ok d lt(1) z0 fn, of pid] by blast
  have z1: "refcnt (bufs c1 ! b) = 0" if "cached c1 dev r b" for b
    using that f(3) lt(3) f(8)[of b] z[of b] by (cases "b = b1") (auto simp: held_def cached_def)
  have av1: "(\<exists>b. cached c1 dev r b) \<or> free_bufs c1 \<noteq> {}"
    using av
  proof
    assume "2 \<le> card (free_bufs c)"
    then have "1 \<le> card (free_bufs c - {b1})" using card_Diff1_le[of "free_bufs c" b1] card_Diff_singleton_if[of "free_bufs c" b1] by (auto split: if_splits)
    then have "free_bufs c - {b1} \<noteq> {}" by (metis card.empty not_one_le_zero)
    then show ?thesis using f(13) by simp
  next
    assume "1 \<le> card (free_bufs c) \<and> dirty_at c dev r"
    then show ?thesis using f(12)[of dev r] by (auto simp: dirty_at_def)
  qed
  obtain b2 c2 where g: "bread pid dev r c1 = Inr (b2, c2)" "bio_ok c2" "held c2 pid b2 dev r" "bdata (bufs c2 ! b2) = bview c1 dev r"
    "refcnt (bufs c2 ! b2) = 1" "refcnt (bufs c1 ! b2) = 0" "bdirty (bufs c2 ! b2) = dirty_at c1 dev r" "\<And>x. x \<noteq> b2 \<Longrightarrow> bufs c2 ! x = bufs c1 ! x"
    "disk c2 = disk c1" "disk_writes c2 = disk_writes c1" "\<And>d' m. d' \<noteq> 0 \<Longrightarrow> bview c2 d' m = bview c1 d' m"
    "\<And>d' m. dirty_at c2 d' m = dirty_at c1 d' m" "free_bufs c2 = free_bufs c1 - {b2}"
    using bread_spec[OF f(2) d lt(2) z1 av1, of pid] by blast
  have ne: "b1 \<noteq> b2" using f(5) g(6) by auto
  note s1 = g(8)[OF ne]
  have co: "bdirty (bufs c2 ! b1) \<or> bdata (bufs c2 ! b1) = disk c2 dev p" "bdirty (bufs c2 ! b2) \<or> bdata (bufs c2 ! b2) = disk c2 dev r"
    using clean_view[OF q d, of p] clean_view[OF q d, of r] by (auto simp: s1 f(4,7,9,12) g(4,7,9) f(11)[OF d])
  have h1: "held c2 pid b1 dev p" using f(3) by (simp add: held_def cached_def s1)
  have rest: "refcnt (bufs c2 ! x) = 0" if "x < NBUF" "x \<noteq> b1" "x \<noteq> b2" for x using that z g(8) f(8) by metis
  show ?thesis
    by (rule that[OF f(1) g(1,2) ne h1 g(3) _ _ _ g(5) co rest])
      (use f g s1 d in simp_all)
qed

section \<open>Sequences of block writes\<close>

definition apply_w :: "(u32 \<times> block) list \<Rightarrow> (u32 \<Rightarrow> block) \<Rightarrow> u32 \<Rightarrow> block" where
  "apply_w ws f = fold (\<lambda>(n, v) f. f(n := v)) ws f"

lemma apply_w_simps [simp]: "apply_w [] f = f" "apply_w ((n, v) # ws) f = apply_w ws (f(n := v))" "apply_w (vs @ ws) f = apply_w ws (apply_w vs f)"
  by (simp_all add: apply_w_def)

lemma apply_w_other: "n \<notin> fst ` set ws \<Longrightarrow> apply_w ws f n = f n"
  by (induction ws arbitrary: f) (auto simp: fun_upd_apply)

lemma apply_w_map:
  assumes "distinct ks"
  shows "apply_w (map (\<lambda>k. (k, g k)) ks) f n = (if n \<in> set ks then g n else f n)"
  using assms by (induction ks arbitrary: f) (auto simp: apply_w_other image_iff)

text \<open>\<open>wrote dev ws c c'\<close>: from \<open>c\<close> to \<open>c'\<close> the blocks \<open>ws\<close> went to the disk, in this order, and nothing else changed.\<close>

definition wrote :: "u32 \<Rightarrow> (u32 \<times> block) list \<Rightarrow> bcache \<Rightarrow> bcache \<Rightarrow> bool" where
  "wrote dev ws c c' \<longleftrightarrow> quiet c' \<and> disk c' dev = apply_w ws (disk c dev) \<and> (\<forall>d. d \<noteq> dev \<longrightarrow> disk c' d = disk c d) \<and>
     disk_writes c' = disk_writes c @ map (\<lambda>(n, v). (dev, n, v)) ws \<and> (\<forall>m. bview c' dev m = apply_w ws (bview c dev) m) \<and>
     (\<forall>d m. dirty_at c' d m \<longleftrightarrow> dirty_at c d m \<and> \<not> (d = dev \<and> m \<in> fst ` set ws))"

lemma wrote_refl: "quiet c \<Longrightarrow> wrote dev [] c c"
  by (simp add: wrote_def)

lemma wrote_trans:
  assumes "wrote dev vs a b" "wrote dev ws b c"
  shows "wrote dev (vs @ ws) a c"
proof -
  have "bview b dev = apply_w vs (bview a dev)" using assms(1) by (auto simp: wrote_def)
  then show ?thesis using assms by (auto simp: wrote_def image_Un)
qed

lemma copied_wrote:
  assumes "quiet t" "disk t = (disk s)(dev := (disk s dev)(n := v))" "disk_writes t = disk_writes s @ [(dev, n, v)]"
    "\<And>d' k. d' \<noteq> 0 \<Longrightarrow> bview t d' k = (if d' = dev \<and> k = n then v else bview s d' k)"
    "\<And>d' k. dirty_at t d' k \<longleftrightarrow> dirty_at s d' k \<and> (d', k) \<noteq> (dev, n)" "dev \<noteq> 0"
    and c: "disk s = disk c" "disk_writes s = disk_writes c" "\<And>d' m. d' \<noteq> 0 \<Longrightarrow> bview s d' m = bview c d' m" "\<And>d' m. dirty_at s d' m = dirty_at c d' m"
  shows "wrote dev [(n, v)] c t"
  using assms by (auto simp: wrote_def fun_eq_iff)

lemma install_one_spec:
  assumes q: "quiet (cache l)" and d: "ldev l \<noteq> 0" and lt: "lstart l + of_nat tail + 1 < FSSIZE" "lhblock l ! tail < FSSIZE"
    "lstart l + of_nat tail + 1 \<noteq> lhblock l ! tail"
    and av: "2 \<le> card (free_bufs (cache l)) \<or> 1 \<le> card (free_bufs (cache l)) \<and> dirty_at (cache l) (ldev l) (lhblock l ! tail)"
  shows "\<exists>c. install_one pid tail l = Inr (l\<lparr>cache := c\<rparr>) \<and>
     wrote (ldev l) [(lhblock l ! tail, bview (cache l) (ldev l) (lstart l + of_nat tail + 1))] (cache l) c"
proof -
  let ?h = "lhblock l ! tail" and ?g = "lstart l + of_nat tail + 1" and ?c = "cache l" and ?dev = "ldev l"
  obtain b1 c1 b2 c2 where f: "bread pid ?dev ?g ?c = Inr (b1, c1)" "bread pid ?dev ?h c1 = Inr (b2, c2)" "bio_ok c2" "b1 \<noteq> b2"
    "held c2 pid b1 ?dev ?g" "held c2 pid b2 ?dev ?h" "bdata (bufs c2 ! b1) = bview ?c ?dev ?g" "bdata (bufs c2 ! b2) = bview ?c ?dev ?h"
    "refcnt (bufs c2 ! b1) = 1" "refcnt (bufs c2 ! b2) = 1" "bdirty (bufs c2 ! b1) \<or> bdata (bufs c2 ! b1) = disk c2 ?dev ?g"
    "bdirty (bufs c2 ! b2) \<or> bdata (bufs c2 ! b2) = disk c2 ?dev ?h" "\<And>x. x < NBUF \<Longrightarrow> x \<noteq> b1 \<Longrightarrow> x \<noteq> b2 \<Longrightarrow> refcnt (bufs c2 ! x) = 0"
    "disk c2 = disk ?c" "disk_writes c2 = disk_writes ?c" "\<And>d' m. d' \<noteq> 0 \<Longrightarrow> bview c2 d' m = bview ?c d' m"
    "\<And>d' m. dirty_at c2 d' m = dirty_at ?c d' m"
    using two_breads[OF q d lt av, of pid] by blast
  obtain t where t: "bind_r (bwrite pid b2 (set_data b2 (bdata (bufs c2 ! b1)) c2)) (\<lambda>u. bind_r (brelse pid b1 u) (brelse pid b2)) = Inr t" "quiet t"
    "disk t = (disk c2)(?dev := (disk c2 ?dev)(?h := bdata (bufs c2 ! b1)))" "disk_writes t = disk_writes c2 @ [(?dev, ?h, bdata (bufs c2 ! b1))]"
    "\<And>d' k. d' \<noteq> 0 \<Longrightarrow> bview t d' k = (if d' = ?dev \<and> k = ?h then bdata (bufs c2 ! b1) else bview c2 d' k)"
    "\<And>d' k. dirty_at t d' k \<longleftrightarrow> dirty_at c2 d' k \<and> (d', k) \<noteq> (?dev, ?h)"
    "free_bufs c2 \<subseteq> free_bufs t" "b2 \<in> free_bufs t" "b1 \<in> free_bufs t \<or> bdirty (bufs c2 ! b1)"
    using copy_held[OF f(3) d lt(2) f(5,6,4,9,10,11) f(13) disjI1[OF conjI[OF refl refl]]] by blast
  have "wrote ?dev [(?h, bview ?c ?dev ?g)] ?c t"
    using copied_wrote[OF t(2-6) d f(14-17)] by (simp add: f(7))
  moreover have "install_one pid tail l = Inr (l\<lparr>cache := t\<rparr>)"
    unfolding install_one_def f(1) bind_r_Inr split f(2) t(1) by (simp add: lift_c_def)
  ultimately show ?thesis by blast
qed

lemma write_log_one_spec:
  assumes q: "quiet (cache l)" and d: "ldev l \<noteq> 0" and lt: "lstart l + of_nat tail + 1 < FSSIZE" "lhblock l ! tail < FSSIZE"
    "lstart l + of_nat tail + 1 \<noteq> lhblock l ! tail"
    and av: "2 \<le> card (free_bufs (cache l)) \<or> 1 \<le> card (free_bufs (cache l)) \<and> dirty_at (cache l) (ldev l) (lhblock l ! tail)"
  shows "\<exists>c. write_log_one pid tail l = Inr (l\<lparr>cache := c\<rparr>) \<and>
     wrote (ldev l) [(lstart l + of_nat tail + 1, bview (cache l) (ldev l) (lhblock l ! tail))] (cache l) c"
proof -
  let ?h = "lhblock l ! tail" and ?g = "lstart l + of_nat tail + 1" and ?c = "cache l" and ?dev = "ldev l"
  obtain b1 c1 b2 c2 where f: "bread pid ?dev ?g ?c = Inr (b1, c1)" "bread pid ?dev ?h c1 = Inr (b2, c2)" "bio_ok c2" "b1 \<noteq> b2"
    "held c2 pid b1 ?dev ?g" "held c2 pid b2 ?dev ?h" "bdata (bufs c2 ! b1) = bview ?c ?dev ?g" "bdata (bufs c2 ! b2) = bview ?c ?dev ?h"
    "refcnt (bufs c2 ! b1) = 1" "refcnt (bufs c2 ! b2) = 1" "bdirty (bufs c2 ! b1) \<or> bdata (bufs c2 ! b1) = disk c2 ?dev ?g"
    "bdirty (bufs c2 ! b2) \<or> bdata (bufs c2 ! b2) = disk c2 ?dev ?h" "\<And>x. x < NBUF \<Longrightarrow> x \<noteq> b1 \<Longrightarrow> x \<noteq> b2 \<Longrightarrow> refcnt (bufs c2 ! x) = 0"
    "disk c2 = disk ?c" "disk_writes c2 = disk_writes ?c" "\<And>d' m. d' \<noteq> 0 \<Longrightarrow> bview c2 d' m = bview ?c d' m"
    "\<And>d' m. dirty_at c2 d' m = dirty_at ?c d' m"
    using two_breads[OF q d lt av, of pid] by blast
  obtain t where t: "bind_r (bwrite pid b1 (set_data b1 (bdata (bufs c2 ! b2)) c2)) (\<lambda>u. bind_r (brelse pid b2 u) (brelse pid b1)) = Inr t" "quiet t"
    "disk t = (disk c2)(?dev := (disk c2 ?dev)(?g := bdata (bufs c2 ! b2)))" "disk_writes t = disk_writes c2 @ [(?dev, ?g, bdata (bufs c2 ! b2))]"
    "\<And>d' k. d' \<noteq> 0 \<Longrightarrow> bview t d' k = (if d' = ?dev \<and> k = ?g then bdata (bufs c2 ! b2) else bview c2 d' k)"
    "\<And>d' k. dirty_at t d' k \<longleftrightarrow> dirty_at c2 d' k \<and> (d', k) \<noteq> (?dev, ?g)"
    "free_bufs c2 \<subseteq> free_bufs t" "b1 \<in> free_bufs t" "b2 \<in> free_bufs t \<or> bdirty (bufs c2 ! b2)"
    using copy_held[OF f(3) d lt(1) f(6,5) f(4)[symmetric] f(10,9,12) f(13) disjI1[OF conjI[OF refl refl]]] by blast
  have "wrote ?dev [(?g, bview ?c ?dev ?h)] ?c t"
    using copied_wrote[OF t(2-6) d f(14-17)] by (simp add: f(8))
  moreover have "write_log_one pid tail l = Inr (l\<lparr>cache := t\<rparr>)"
    unfolding write_log_one_def f(1) bind_r_Inr split f(2) t(1) by (simp add: lift_c_def)
  ultimately show ?thesis by blast
qed

lemma write_head_spec:
  assumes q: "quiet (cache l)" and d: "ldev l \<noteq> 0" and lt: "lstart l < FSSIZE" and av: "free_bufs (cache l) \<noteq> {}"
  shows "\<exists>c. write_head pid l = Inr (l\<lparr>cache := c\<rparr>) \<and>
     wrote (ldev l) [(lstart l, head_block l (bview (cache l) (ldev l) (lstart l)))] (cache l) c"
proof -
  let ?c = "cache l" and ?dev = "ldev l" and ?n = "lstart l"
  have ok: "bio_ok ?c" and z: "\<And>b. cached ?c ?dev ?n b \<Longrightarrow> refcnt (bufs ?c ! b) = 0" using q by (auto simp: quiet_def cached_def)
  obtain b c1 where f: "bread pid ?dev ?n ?c = Inr (b, c1)" "bio_ok c1" "held c1 pid b ?dev ?n" "bdata (bufs c1 ! b) = bview ?c ?dev ?n"
    "refcnt (bufs c1 ! b) = 1" "refcnt (bufs ?c ! b) = 0" "bdirty (bufs c1 ! b) = dirty_at ?c ?dev ?n" "\<And>x. x \<noteq> b \<Longrightarrow> bufs c1 ! x = bufs ?c ! x"
    "disk c1 = disk ?c" "disk_writes c1 = disk_writes ?c" "\<And>d' m. d' \<noteq> 0 \<Longrightarrow> bview c1 d' m = bview ?c d' m"
    "\<And>d' m. dirty_at c1 d' m = dirty_at ?c d' m" "free_bufs c1 = free_bufs ?c - {b}"
    using bread_spec[OF ok d lt z disjI2[OF av], of pid] by blast
  define v where "v = head_block l (bview ?c ?dev ?n)"
  note sd = set_data_spec[OF f(2) d f(3), where x = v]
  obtain u where u: "bwrite pid b (set_data b v c1) = Inr u" "bio_ok u" "held u pid b ?dev ?n"
    "bufs u ! b = (bufs (set_data b v c1) ! b)\<lparr>bvalid := True, bdirty := False\<rparr>"
    "\<And>x. x \<noteq> b \<Longrightarrow> bufs u ! x = bufs (set_data b v c1) ! x" "disk u = (disk ?c)(?dev := (disk ?c ?dev)(?n := v))"
    "disk_writes u = disk_writes ?c @ [(?dev, ?n, v)]" "\<And>d' m. d' \<noteq> 0 \<Longrightarrow> bview u d' m = bview (set_data b v c1) d' m"
    "\<And>d' m. dirty_at u d' m \<longleftrightarrow> dirty_at ?c d' m \<and> (d', m) \<noteq> (?dev, ?n)" "free_bufs u = free_bufs c1"
    using bwrite_spec[OF sd(1) d lt sd(2)] by (auto simp: sd(3,5,6,8,9) f(9,10,12))
  have ub: "refcnt (bufs u ! b) = 1" "bdirty (bufs u ! b) \<or> bdata (bufs u ! b) = disk u ?dev ?n"
    using u(4,6) sd(3) f(5) by simp_all
  obtain w where w: "brelse pid b u = Inr w" "bio_ok w" "bufs w ! b = (bufs u ! b)\<lparr>block_pid := None, refcnt := 0\<rparr>"
    "\<And>c. c \<noteq> b \<Longrightarrow> bufs w ! c = bufs u ! c" "disk w = disk u" "disk_writes w = disk_writes u"
    "\<And>d' m. d' \<noteq> 0 \<Longrightarrow> bview w d' m = bview u d' m" "\<And>d' m. dirty_at w d' m = dirty_at u d' m"
    "free_bufs w = (if bdirty (bufs u ! b) then free_bufs u else insert b (free_bufs u))"
    using brelse_spec[OF u(2) d u(3) ub] by blast
  have "refcnt (bufs w ! c) = 0" if "c < NBUF" for c
    using that q w(3) w(4)[of c] u(5)[of c] sd(4)[of c] f(8)[of c] by (cases "c = b") (simp_all add: quiet_def)
  then have qw: "quiet w" using w(2) by (simp add: quiet_def)
  have "wrote ?dev [(?n, v)] ?c w"
    by (rule copied_wrote[OF qw _ _ _ _ d, of ?c]) (use u w sd(7) f in simp_all)
  moreover have "write_head pid l = Inr (l\<lparr>cache := w\<rparr>)"
    unfolding write_head_def f(1) bind_r_Inr split f(4) v_def[symmetric] u(1) w(1) by (simp add: lift_c_def)
  ultimately show ?thesis unfolding v_def by blast
qed

section \<open>The header\<close>

definition BLOCKW :: nat where "BLOCKW = 128"

lemma length_fold_put: "length (fold (\<lambda>i d. put_word d (i + 1) (f i)) xs d) = length d"
  by (induction xs arbitrary: d) simp_all

lemma get_fold_put:
  assumes "distinct xs" "\<forall>i \<in> set xs. 4 * (i + 1) + 3 < length d"
  shows "get_word (fold (\<lambda>i d. put_word d (i + 1) (f i)) xs d) j = (if j \<noteq> 0 \<and> j - 1 \<in> set xs then f (j - 1) else get_word d j)"
  using assms
proof (induction xs arbitrary: d)
  case (Cons x xs)
  have "get_word (put_word d (x + 1) (f x)) j = (if j = x + 1 then f x else get_word d j)"
    using Cons.prems by (intro get_put_word) simp
  then show ?case using Cons by auto
qed simp

lemma head_block_words:
  assumes "0 \<le> lhn l" "lhn l \<le> 30" "length d = BSIZE"
  shows "get_word (head_block l d) 0 = of_int (lhn l)" "i < nat (lhn l) \<Longrightarrow> get_word (head_block l d) (i + 1) = lhblock l ! i"
    "length (head_block l d) = BSIZE"
proof -
  have "\<forall>i \<in> set [0..<nat (lhn l)]. 4 * (i + 1) + 3 < length (put_word d 0 (of_int (lhn l)))" using assms by (auto simp: BSIZE_def)
  from get_fold_put[OF distinct_upt this, of "\<lambda>i. lhblock l ! i"]
  show "get_word (head_block l d) 0 = of_int (lhn l)" "i < nat (lhn l) \<Longrightarrow> get_word (head_block l d) (i + 1) = lhblock l ! i"
    using assms by (simp_all add: head_block_def get_put_word BSIZE_def)
  show "length (head_block l d) = BSIZE" unfolding head_block_def length_fold_put using assms by simp
qed

section \<open>Installing and logging a whole transaction\<close>

definition home :: "logst \<Rightarrow> u32 list" where "home l = take (nat (lhn l)) (lhblock l)"

definition logblk :: "logst \<Rightarrow> nat \<Rightarrow> u32" where "logblk l i = lstart l + of_nat i + 1"

text \<open>
  A well-formed log: at most 29 block numbers, all different, of blocks of the disk outside the log, which
  itself lies on the disk; only blocks of the transaction are dirty in the cache.
\<close>

definition log_ok :: "logst \<Rightarrow> bool" where
  "log_ok l \<longleftrightarrow> quiet (cache l) \<and> ldev l \<noteq> 0 \<and> 0 \<le> lhn l \<and> lhn l \<le> 29 \<and> length (lhblock l) = 30 \<and> distinct (home l) \<and>
     unat (lstart l) + 30 < 1000 \<and> (\<forall>b \<in> set (home l). b < FSSIZE \<and> (unat b < unat (lstart l) \<or> unat (lstart l) + 30 < unat b)) \<and>
     (\<forall>d n. dirty_at (cache l) d n \<longrightarrow> d = ldev l \<and> n \<in> set (home l))"

lemma log_okD:
  assumes "log_ok l"
  shows "quiet (cache l)" "ldev l \<noteq> 0" "0 \<le> lhn l" "lhn l \<le> 29" "length (lhblock l) = 30" "distinct (home l)"
    "\<And>d n. dirty_at (cache l) d n \<Longrightarrow> d = ldev l \<and> n \<in> set (home l)" "length (home l) = nat (lhn l)" "lstart l < FSSIZE"
    "\<And>i. i < nat (lhn l) \<Longrightarrow> home l ! i = lhblock l ! i \<and> home l ! i \<in> set (home l) \<and> home l ! i < FSSIZE"
    "\<And>i. i < 30 \<Longrightarrow> unat (logblk l i) = unat (lstart l) + i + 1 \<and> logblk l i < FSSIZE"
    "\<And>b i. b \<in> set (home l) \<Longrightarrow> i < 30 \<Longrightarrow> b \<noteq> logblk l i" "lstart l \<notin> set (home l)"
proof -
  show "quiet (cache l)" "ldev l \<noteq> 0" "0 \<le> lhn l" "lhn l \<le> 29" "length (lhblock l) = 30" "distinct (home l)"
    "\<And>d n. dirty_at (cache l) d n \<Longrightarrow> d = ldev l \<and> n \<in> set (home l)" using assms by (auto simp: log_ok_def)
  show len: "length (home l) = nat (lhn l)" using assms by (auto simp: home_def log_ok_def min_def)
  show "lstart l < FSSIZE" using assms by (simp add: log_ok_def FSSIZE_def word_less_nat_alt)
  show "home l ! i = lhblock l ! i \<and> home l ! i \<in> set (home l) \<and> home l ! i < FSSIZE" if "i < nat (lhn l)" for i
  proof -
    have "home l ! i \<in> set (home l)" using len that by simp
    then show ?thesis using assms that by (simp add: home_def log_ok_def)
  qed
  show u: "unat (logblk l i) = unat (lstart l) + i + 1 \<and> logblk l i < FSSIZE" if "i < 30" for i
  proof -
    have "unat (lstart l) + 30 < 1000" using assms by (simp add: log_ok_def)
    then have "unat (logblk l i) = unat (lstart l) + i + 1"
      using that by (simp add: logblk_def unat_word_ariths unat_of_nat)
    then show ?thesis using that \<open>unat (lstart l) + 30 < 1000\<close> by (simp add: FSSIZE_def word_less_nat_alt)
  qed
  show "b \<noteq> logblk l i" if "b \<in> set (home l)" "i < 30" for b i
    using assms that u[OF that(2)] by (auto simp: log_ok_def)
  show "lstart l \<notin> set (home l)" using assms by (auto simp: log_ok_def)
qed

lemma log_free:
  assumes "log_ok l"
  shows "1 \<le> card (free_bufs (cache l))" "b \<in> set (home l) \<Longrightarrow> \<not> dirty_at (cache l) (ldev l) b \<Longrightarrow> 2 \<le> card (free_bufs (cache l))"
proof -
  note D = log_okD[OF assms]
  have c: "card (set (home l)) \<le> 29" using D(4,8) card_length[of "home l"] by simp
  then show "1 \<le> card (free_bufs (cache l))" using free_count[OF D(1,2) D(7)] by (simp add: NBUF_def)
  assume b: "b \<in> set (home l)" "\<not> dirty_at (cache l) (ldev l) b"
  have "d = ldev l \<and> n \<in> set (home l) - {b}" if "dirty_at (cache l) d n" for d n using D(7)[OF that] that b(2) by auto
  from free_count[OF D(1,2) this] show "2 \<le> card (free_bufs (cache l))" using c b(1) by (simp add: NBUF_def)
qed

lemma wrote_log_ok:
  assumes "log_ok l" "wrote (ldev l) ws (cache l) c"
  shows "log_ok (l\<lparr>cache := c\<rparr>)"
  using assms unfolding log_ok_def by (auto simp: wrote_def home_def)

lemma home_cache [simp]: "home (l\<lparr>cache := c\<rparr>) = home l" "logblk (l\<lparr>cache := c\<rparr>) i = logblk l i"
  by (simp_all add: home_def logblk_def)

text \<open>Both loops are the same up to the direction of the copy.\<close>

lemma log_loop:
  assumes ok: "log_ok l" and m: "m \<le> nat (lhn l)"
    and one: "\<And>c i. log_ok (l\<lparr>cache := c\<rparr>) \<Longrightarrow> i < nat (lhn l) \<Longrightarrow>
      \<exists>c'. f i (l\<lparr>cache := c\<rparr>) = Inr (l\<lparr>cache := c'\<rparr>) \<and> wrote (ldev l) [(dst i, bview c (ldev l) (src i))] c c'"
    and sep: "\<And>i j. i < nat (lhn l) \<Longrightarrow> j < nat (lhn l) \<Longrightarrow> dst i \<noteq> src j"
  shows "\<exists>c. fold_r f [0..<m] l = Inr (l\<lparr>cache := c\<rparr>) \<and> log_ok (l\<lparr>cache := c\<rparr>) \<and>
     wrote (ldev l) (map (\<lambda>i. (dst i, bview (cache l) (ldev l) (src i))) [0..<m]) (cache l) c"
  using m
proof (induction m)
  case 0
  then show ?case using ok wrote_refl[OF log_okD(1)[OF ok]] by (intro exI[of _ "cache l"]) simp
next
  case (Suc m)
  let ?ws = "map (\<lambda>i. (dst i, bview (cache l) (ldev l) (src i))) [0..<m]"
  obtain c where c: "fold_r f [0..<m] l = Inr (l\<lparr>cache := c\<rparr>)" "log_ok (l\<lparr>cache := c\<rparr>)" "wrote (ldev l) ?ws (cache l) c"
    using Suc by auto
  have lt: "m < nat (lhn l)" using Suc.prems by simp
  obtain c' where c': "f m (l\<lparr>cache := c\<rparr>) = Inr (l\<lparr>cache := c'\<rparr>)" "wrote (ldev l) [(dst m, bview c (ldev l) (src m))] c c'"
    using one[OF c(2) lt] by blast
  have "src m \<noteq> dst i" if "i < m" for i using sep[of i m] that lt by auto
  then have "src m \<notin> fst ` set ?ws" by (auto simp: image_iff)
  then have "bview c (ldev l) (src m) = bview (cache l) (ldev l) (src m)"
    using c(3) apply_w_other[of "src m" ?ws "bview (cache l) (ldev l)"] by (simp add: wrote_def)
  then have w: "wrote (ldev l) (?ws @ [(dst m, bview (cache l) (ldev l) (src m))]) (cache l) c'"
    using wrote_trans[OF c(3) c'(2)] by simp
  have "log_ok (l\<lparr>cache := c'\<rparr>)" using wrote_log_ok[OF ok w] .
  moreover have "fold_r f [0..<Suc m] l = Inr (l\<lparr>cache := c'\<rparr>)" using c(1) c'(1) by (simp add: fold_r_append)
  ultimately show ?case using w by (intro exI[of _ c']) simp
qed

lemma install_trans_spec:
  assumes "log_ok l"
  shows "\<exists>c. install_trans pid l = Inr (l\<lparr>cache := c\<rparr>) \<and> log_ok (l\<lparr>cache := c\<rparr>) \<and>
     wrote (ldev l) (map (\<lambda>i. (home l ! i, bview (cache l) (ldev l) (logblk l i))) [0..<nat (lhn l)]) (cache l) c"
  unfolding install_trans_def
proof (rule log_loop[OF assms le_refl])
  fix c i assume a: "log_ok (l\<lparr>cache := c\<rparr>)" "i < nat (lhn l)"
  note D = log_okD[OF a(1)]
  have i: "i < 30" using a(2) D(4) by simp
  have h: "home l ! i = lhblock l ! i" "home l ! i \<in> set (home l)" "home l ! i < FSSIZE" using D(10)[of i] a(2) by auto
  have av: "2 \<le> card (free_bufs c) \<or> 1 \<le> card (free_bufs c) \<and> dirty_at c (ldev l) (lhblock l ! i)"
    using log_free[OF a(1)] h(1,2) by auto
  show "\<exists>c'. install_one pid i (l\<lparr>cache := c\<rparr>) = Inr (l\<lparr>cache := c'\<rparr>) \<and> wrote (ldev l) [(home l ! i, bview c (ldev l) (logblk l i))] c c'"
    using install_one_spec[of "l\<lparr>cache := c\<rparr>" i pid] D(1,2) D(11)[OF i] D(12)[of "home l ! i" i] h i av by (simp add: logblk_def)
next
  fix i j assume "i < nat (lhn l)" "j < nat (lhn l)"
  moreover have "nat (lhn l) \<le> 29" using log_okD(4)[OF assms] by simp
  ultimately show "home l ! i \<noteq> logblk l j" using log_okD(12)[OF assms, of "home l ! i" j] log_okD(10)[OF assms, of i] by auto
qed

lemma write_log_spec:
  assumes "log_ok l"
  shows "\<exists>c. write_log pid l = Inr (l\<lparr>cache := c\<rparr>) \<and> log_ok (l\<lparr>cache := c\<rparr>) \<and>
     wrote (ldev l) (map (\<lambda>i. (logblk l i, bview (cache l) (ldev l) (home l ! i))) [0..<nat (lhn l)]) (cache l) c"
  unfolding write_log_def
proof (rule log_loop[OF assms le_refl])
  fix c i assume a: "log_ok (l\<lparr>cache := c\<rparr>)" "i < nat (lhn l)"
  note D = log_okD[OF a(1)]
  have i: "i < 30" using a(2) D(4) by simp
  have h: "home l ! i = lhblock l ! i" "home l ! i \<in> set (home l)" "home l ! i < FSSIZE" using D(10)[of i] a(2) by auto
  have av: "2 \<le> card (free_bufs c) \<or> 1 \<le> card (free_bufs c) \<and> dirty_at c (ldev l) (lhblock l ! i)"
    using log_free[OF a(1)] h(1,2) by auto
  show "\<exists>c'. write_log_one pid i (l\<lparr>cache := c\<rparr>) = Inr (l\<lparr>cache := c'\<rparr>) \<and> wrote (ldev l) [(logblk l i, bview c (ldev l) (home l ! i))] c c'"
    using write_log_one_spec[of "l\<lparr>cache := c\<rparr>" i pid] D(1,2) D(11)[OF i] D(12)[of "home l ! i" i] h i av by (simp add: logblk_def)
next
  fix i j assume "i < nat (lhn l)" "j < nat (lhn l)"
  moreover have "nat (lhn l) \<le> 29" using log_okD(4)[OF assms] by simp
  ultimately show "logblk l i \<noteq> home l ! j" using log_okD(12)[OF assms, of "home l ! j" i] log_okD(10)[OF assms, of j] by auto
qed

section \<open>Commit\<close>

text \<open>The blocks a commit writes, in order: the log, the header, the home blocks, the cleared header.\<close>

definition commit_writes :: "logst \<Rightarrow> (u32 \<times> block) list" where
  "commit_writes l =
    (let V = bview (cache l) (ldev l); hd1 = head_block l (V (lstart l)) in
     map (\<lambda>i. (logblk l i, V (home l ! i))) [0..<nat (lhn l)] @ [(lstart l, hd1)] @
     map (\<lambda>i. (home l ! i, V (home l ! i))) [0..<nat (lhn l)] @ [(lstart l, head_block (l\<lparr>lhn := 0\<rparr>) hd1)])"

lemma log_blocks_apart:
  assumes "log_ok l"
  shows "lstart l \<notin> set (map (logblk l) [0..<nat (lhn l)])" "distinct (map (logblk l) [0..<nat (lhn l)])"
    "set (home l) \<inter> set (map (logblk l) [0..<nat (lhn l)]) = {}"
proof -
  note D = log_okD[OF assms]
  have n: "nat (lhn l) \<le> 29" using D(4) by simp
  have u: "unat (logblk l i) = unat (lstart l) + i + 1" if "i < nat (lhn l)" for i using D(11)[of i] that n by simp
  show "lstart l \<notin> set (map (logblk l) [0..<nat (lhn l)])" using u by fastforce
  show "distinct (map (logblk l) [0..<nat (lhn l)])" 
    unfolding distinct_map inj_on_def using u by (metis add_diff_cancel_left' add_diff_cancel_right' atLeastLessThan_iff distinct_upt set_upt)
  show "set (home l) \<inter> set (map (logblk l) [0..<nat (lhn l)]) = {}" 
  proof -
    have "logblk l i \<notin> set (home l)" if "i < nat (lhn l)" for i using D(12)[of "logblk l i" i] that n by auto
    then show ?thesis by auto
  qed
qed

lemma apply_w_pairs:
  assumes "distinct (map f [0..<n])" "i < n"
  shows "apply_w (map (\<lambda>i. (f i, g i)) [0..<n]) h (f i) = g i"
proof -
  have "apply_w (map (\<lambda>i. (f i, g i)) [0..<n]) h (f i) = g i" if "i < n" "\<And>j. j < n \<Longrightarrow> j \<noteq> i \<Longrightarrow> f j \<noteq> f i" for n
    using that
  proof (induction n)
    case (Suc n)
    show ?case
    proof (cases "i = n")
      case False
      have "f i \<noteq> f n" using Suc.prems(2)[of n] False by auto
      then show ?thesis using Suc False by simp
    qed simp
  qed simp
  moreover have "f j \<noteq> f i" if "j < n" "j \<noteq> i" for j using assms that by (auto simp: distinct_map inj_on_def)
  ultimately show ?thesis using assms(2) by blast
qed

lemma apply_w_miss: "n \<notin> set (map f xs) \<Longrightarrow> apply_w (map (\<lambda>i. (f i, g i)) xs) h n = h n"
  by (rule apply_w_other) auto

lemma wrote_view: "wrote dev ws c c' \<Longrightarrow> bview c' dev m = apply_w ws (bview c dev) m"
  by (simp add: wrote_def)

lemma commit_spec:
  assumes ok: "log_ok l" and n: "0 < lhn l"
  shows "\<exists>c. commit pid l = Inr (l\<lparr>lhn := 0, cache := c\<rparr>) \<and> wrote (ldev l) (commit_writes l) (cache l) c"
proof -
  let ?d = "ldev l" and ?V = "bview (cache l) (ldev l)" and ?n = "nat (lhn l)"
  let ?A = "map (\<lambda>i. (logblk l i, ?V (home l ! i))) [0..<?n]"
  let ?h = "head_block l (?V (lstart l))"
  note ap = log_blocks_apart[OF ok] note D = log_okD[OF ok]
  obtain c1 where c1: "write_log pid l = Inr (l\<lparr>cache := c1\<rparr>)" "log_ok (l\<lparr>cache := c1\<rparr>)" "wrote ?d ?A (cache l) c1"
    using write_log_spec[OF ok] by blast
  have v1: "bview c1 ?d (lstart l) = ?V (lstart l)"
    by (simp only: wrote_view[OF c1(3)] apply_w_miss[OF ap(1)])
  have hb: "head_block (l\<lparr>cache := c\<rparr>) = head_block l" for c by (simp add: fun_eq_iff head_block_def)
  have f1: "free_bufs c1 \<noteq> {}" using log_free(1)[OF c1(2)] by auto
  obtain c2 where c2: "write_head pid (l\<lparr>cache := c1\<rparr>) = Inr (l\<lparr>cache := c2\<rparr>)" "wrote ?d [(lstart l, ?h)] c1 c2"
    using write_head_spec[of "l\<lparr>cache := c1\<rparr>" pid] log_okD(1,2,9)[OF c1(2)] f1 by (auto simp: v1 hb)
  have w2: "wrote ?d (?A @ [(lstart l, ?h)]) (cache l) c2" by (rule wrote_trans[OF c1(3) c2(2)])
  have ok2: "log_ok (l\<lparr>cache := c2\<rparr>)" by (rule wrote_log_ok[OF ok w2])
  have v2: "bview c2 ?d (logblk l i) = ?V (home l ! i)" if "i < ?n" for i
  proof -
    have "logblk l i \<noteq> lstart l" using ap(1) that by force
    then show ?thesis using apply_w_pairs[OF ap(2) that] by (simp add: wrote_view[OF w2])
  qed
  let ?B = "map (\<lambda>i. (home l ! i, ?V (home l ! i))) [0..<?n]"
  have B: "map (\<lambda>i. (home l ! i, bview c2 ?d (logblk l i))) [0..<?n] = ?B" using v2 by simp
  obtain c3 where c3: "install_trans pid (l\<lparr>cache := c2\<rparr>) = Inr (l\<lparr>cache := c3\<rparr>)" "log_ok (l\<lparr>cache := c3\<rparr>)" "wrote ?d ?B c2 c3"
    using install_trans_spec[OF ok2, of pid] by (auto simp: B)
  have w3: "wrote ?d ((?A @ [(lstart l, ?h)]) @ ?B) (cache l) c3" by (rule wrote_trans[OF w2 c3(3)])
  have nb: "lstart l \<notin> set (map (\<lambda>i. home l ! i) [0..<?n])" using D(8,13) by (auto simp: in_set_conv_nth)
  have v3: "bview c3 ?d (lstart l) = ?h" unfolding wrote_view[OF w3] apply_w_simps apply_w_miss[OF nb] by simp
  have f3: "free_bufs c3 \<noteq> {}" using log_free(1)[OF c3(2)] by auto
  have hb0: "head_block (l\<lparr>cache := c3, lhn := 0\<rparr>) = head_block (l\<lparr>lhn := 0\<rparr>)" by (simp add: fun_eq_iff head_block_def)
  obtain c4 where c4: "write_head pid (l\<lparr>cache := c3, lhn := 0\<rparr>) = Inr (l\<lparr>lhn := 0, cache := c4\<rparr>)"
    "wrote ?d [(lstart l, head_block (l\<lparr>lhn := 0\<rparr>) ?h)] c3 c4"
    using write_head_spec[of "l\<lparr>cache := c3, lhn := 0\<rparr>" pid] log_okD(1,2,9)[OF c3(2)] f3 by (auto simp: v3 hb0)
  have "wrote ?d (((?A @ [(lstart l, ?h)]) @ ?B) @ [(lstart l, head_block (l\<lparr>lhn := 0\<rparr>) ?h)]) (cache l) c4"
    by (rule wrote_trans[OF w3 c4(2)])
  then have "wrote ?d (commit_writes l) (cache l) c4" by (simp add: commit_writes_def Let_def)
  moreover have "commit pid l = Inr (l\<lparr>lhn := 0, cache := c4\<rparr>)"
    using n by (simp add: commit_def c1(1) c2(1) c3(1) c4(1))
  ultimately show ?thesis by blast
qed

section \<open>Recovery\<close>

lemma read_block:
  assumes q: "quiet c" and d: "dev \<noteq> 0" and lt: "n < FSSIZE" and av: "free_bufs c \<noteq> {}"
  shows "\<exists>b c1 c2. bread pid dev n c = Inr (b, c1) \<and> bdata (bufs c1 ! b) = bview c dev n \<and> brelse pid b c1 = Inr c2 \<and> wrote dev [] c c2"
proof -
  have ok: "bio_ok c" and z: "\<And>b. cached c dev n b \<Longrightarrow> refcnt (bufs c ! b) = 0" using q by (auto simp: quiet_def cached_def)
  obtain b c1 where f: "bread pid dev n c = Inr (b, c1)" "bio_ok c1" "held c1 pid b dev n" "bdata (bufs c1 ! b) = bview c dev n"
    "refcnt (bufs c1 ! b) = 1" "refcnt (bufs c ! b) = 0" "bdirty (bufs c1 ! b) = dirty_at c dev n" "\<And>x. x \<noteq> b \<Longrightarrow> bufs c1 ! x = bufs c ! x"
    "disk c1 = disk c" "disk_writes c1 = disk_writes c" "\<And>d' m. d' \<noteq> 0 \<Longrightarrow> bview c1 d' m = bview c d' m"
    "\<And>d' m. dirty_at c1 d' m = dirty_at c d' m" "free_bufs c1 = free_bufs c - {b}"
    using bread_spec[OF ok d lt z disjI2[OF av], of pid] by blast
  have co: "bdirty (bufs c1 ! b) \<or> bdata (bufs c1 ! b) = disk c1 dev n" using clean_view[OF q d, of n] by (auto simp: f(4,7,9))
  obtain w where w: "brelse pid b c1 = Inr w" "bio_ok w" "bufs w ! b = (bufs c1 ! b)\<lparr>block_pid := None, refcnt := 0\<rparr>"
    "\<And>x. x \<noteq> b \<Longrightarrow> bufs w ! x = bufs c1 ! x" "disk w = disk c1" "disk_writes w = disk_writes c1"
    "\<And>d' m. d' \<noteq> 0 \<Longrightarrow> bview w d' m = bview c1 d' m" "\<And>d' m. dirty_at w d' m = dirty_at c1 d' m"
    "free_bufs w = (if bdirty (bufs c1 ! b) then free_bufs c1 else insert b (free_bufs c1))"
    using brelse_spec[OF f(2) d f(3,5) co] by blast
  have "refcnt (bufs w ! x) = 0" if "x < NBUF" for x
    using that q w(3) w(4)[of x] f(8)[of x] by (cases "x = b") (simp_all add: quiet_def)
  then have "wrote dev [] c w" using w f d by (simp add: wrote_def quiet_def)
  then show ?thesis using f(1,4) w(1) by blast
qed

text \<open>The memory after a restart: zeroed static data, with what the crash left on the disk.\<close>

definition boot_cache :: "(u32 \<Rightarrow> u32 \<Rightarrow> block) \<Rightarrow> bcache" where
  "boot_cache d = binit \<lparr>bufs = replicate NBUF zero_buf, mru = [], disk = d, disk_writes = [], havedisk1 = True\<rparr>"

definition boot_log :: "(u32 \<Rightarrow> u32 \<Rightarrow> block) \<Rightarrow> logst" where
  "boot_log d = \<lparr>cache = boot_cache d, lstart = 0, lsize = 0, outstanding = 0, committing = False, ldev = 0, lhn = 0, lhblock = replicate 30 0\<rparr>"

lemma binit_fold:
  "n \<le> NBUF \<Longrightarrow> fold (\<lambda>b s. (upd_buf b (\<lambda>x. x\<lparr>block_pid := None\<rparr>) s)\<lparr>mru := b # mru s\<rparr>) [0..<n]
     \<lparr>bufs = replicate NBUF zero_buf, mru = [], disk = d, disk_writes = [], havedisk1 = True\<rparr>
   = \<lparr>bufs = replicate NBUF zero_buf, mru = rev [0..<n], disk = d, disk_writes = [], havedisk1 = True\<rparr>"
proof (induction n)
  case (Suc n)
  have "(replicate NBUF zero_buf)[n := (zero_buf\<lparr>block_pid := None\<rparr>)] = replicate NBUF zero_buf"
    using Suc.prems by (simp add: list_update_same_conv zero_buf_def)
  then show ?case using Suc by (simp add: upd_buf_def)
qed simp

lemma boot_cache_eq: "boot_cache d = \<lparr>bufs = replicate NBUF zero_buf, mru = rev [0..<NBUF], disk = d, disk_writes = [], havedisk1 = True\<rparr>"
  using binit_fold[of NBUF d] by (simp add: boot_cache_def binit_def)

lemma boot_cache_ok:
  "quiet (boot_cache d)" "\<not> dirty_at (boot_cache d) dev n" "disk (boot_cache d) = d" "dev \<noteq> 0 \<Longrightarrow> bview (boot_cache d) dev n = d dev n"
proof -
  have b: "bufs (boot_cache d) ! i = zero_buf" if "i < NBUF" for i using that by (simp add: boot_cache_eq)
  have "bio_ok (boot_cache d)"
  proof (rule bio_okI)
    show "x = y" if "dev \<noteq> 0" "cached (boot_cache d) dev n x" "cached (boot_cache d) dev n y" for dev n x y
      using that b[of x] by (auto simp: cached_def zero_buf_def)
  qed (auto simp: boot_cache_eq zero_buf_def)
  then show q: "quiet (boot_cache d)" using b by (simp add: quiet_def zero_buf_def)
  show nd: "\<not> dirty_at (boot_cache d) dev n" for dev n using b by (auto simp: dirty_at_def cached_def zero_buf_def)
  show "disk (boot_cache d) = d" by (simp add: boot_cache_eq)
  then show "bview (boot_cache d) dev n = d dev n" if "dev \<noteq> 0" using clean_view[OF q that nd] by simp
qed

lemma recover_boot:
  assumes d: "dev \<noteq> 0" and sb: "get_word (D dev 1) 4 = start" and st: "unat start + 30 < 1000" "1 < unat start"
    and n: "sint (get_word (D dev start) 0) = int (length bs)" "length bs \<le> 29"
    and bl: "\<And>i. i < length bs \<Longrightarrow> get_word (D dev start) (i + 1) = bs ! i" and di: "distinct bs"
    and hm: "\<forall>b \<in> set bs. b < FSSIZE \<and> (unat b < unat start \<or> unat start + 30 < unat b)"
  shows "\<exists>l. initlog pid dev (boot_log D) = Inr l \<and>
    (\<forall>b. b \<noteq> start \<longrightarrow> disk (cache l) dev b = apply_w (map (\<lambda>i. (bs ! i, D dev (start + of_nat i + 1))) [0..<length bs]) (D dev) b)"
proof -
  let ?c0 = "boot_cache D"
  have free: "free_bufs c \<noteq> {}" if "quiet c" "\<And>d n. \<not> dirty_at c d n" for c
    using free_count[OF that(1) d, of "{}"] that(2) by (auto simp: NBUF_def)
  have lt: "(1 :: u32) < FSSIZE" "start < FSSIZE" using st by (simp_all add: FSSIZE_def word_less_nat_alt)
  note bc = boot_cache_ok[where d = D]
  obtain b1 c1 c2 where c2: "bread pid dev 1 ?c0 = Inr (b1, c1)" "bdata (bufs c1 ! b1) = D dev 1" "brelse pid b1 c1 = Inr c2" "wrote dev [] ?c0 c2"
    using read_block[OF bc(1) d lt(1) free[OF bc(1,2)], of pid] bc(4)[OF d] by auto
  have q2: "quiet c2" "\<And>d n. \<not> dirty_at c2 d n" "\<And>m. bview c2 dev m = D dev m" "disk c2 dev = D dev"
    using c2(4) bc d by (simp_all add: wrote_def)
  obtain b3 c3 c4 where c4: "bread pid dev start c2 = Inr (b3, c3)" "bdata (bufs c3 ! b3) = D dev start" "brelse pid b3 c3 = Inr c4" "wrote dev [] c2 c4"
    using read_block[OF q2(1) d lt(2) free[OF q2(1,2)], of pid] q2(3) by auto
  have q4: "quiet c4" "\<And>d n. \<not> dirty_at c4 d n" "\<And>m. bview c4 dev m = D dev m" "disk c4 dev = D dev"
    using c4(4) q2 by (simp_all add: wrote_def)
  define l0 where "l0 = (boot_log D)\<lparr>cache := c2, lstart := start, lsize := get_word (D dev 1) 3, ldev := dev\<rparr>"
  define l1 where "l1 = l0\<lparr>cache := c4, lhn := int (length bs), lhblock := bs @ drop (length bs) (replicate 30 0)\<rparr>"
  have ini: "initlog pid dev (boot_log D) = recover_from_log pid l0"
    by (simp add: initlog_def boot_log_def c2(1,2,3) sb l0_def Let_def)
  have "map (\<lambda>i. get_word (D dev start) (i + 1)) [0..<length bs] = bs" using bl by (intro nth_equalityI) simp_all
  then have rh: "read_head pid l0 = Inr l1"
    using n by (simp add: read_head_def l0_def boot_log_def c4(1,2,3) Let_def LOGSIZE_def l1_def)
  have hl: "home l1 = bs" "logblk l1 i = start + of_nat i + 1" for i using n(2) by (simp_all add: home_def l1_def logblk_def l0_def)
  have ok: "log_ok l1"
    using n(2) q4 d st di hm unfolding log_ok_def hl by (simp add: l1_def l0_def)
  have l1: "ldev l1 = dev" "lstart l1 = start" "cache l1 = c4" "nat (lhn l1) = length bs" by (simp_all add: l1_def l0_def)
  let ?B = "map (\<lambda>i. (bs ! i, D dev (start + of_nat i + 1))) [0..<length bs]"
  obtain c5 where c5: "install_trans pid l1 = Inr (l1\<lparr>cache := c5\<rparr>)" "log_ok (l1\<lparr>cache := c5\<rparr>)" "wrote dev ?B c4 c5"
    using install_trans_spec[OF ok, of pid] by (auto simp: l1 hl q4(3))
  let ?l2 = "l1\<lparr>cache := c5, lhn := 0\<rparr>"
  have "free_bufs c5 \<noteq> {}" using log_free(1)[OF c5(2)] by auto
  then obtain c6 v where c6: "write_head pid ?l2 = Inr (?l2\<lparr>cache := c6\<rparr>)" "wrote dev [(start, v)] c5 c6"
    using write_head_spec[of ?l2 pid] log_okD(1,2,9)[OF c5(2)] by (auto simp: l1)
  have w: "wrote dev (?B @ [(start, v)]) c4 c6" by (rule wrote_trans[OF c5(3) c6(2)])
  have "initlog pid dev (boot_log D) = Inr (?l2\<lparr>cache := c6\<rparr>)"
    unfolding ini recover_from_log_def rh bind_r_Inr c5(1) c6(1) ..
  moreover have "disk c6 dev b = apply_w ?B (D dev) b" if "b \<noteq> start" for b
    using w that q4(4) by (simp add: wrote_def)
  ultimately show ?thesis by (intro exI[of _ "?l2\<lparr>cache := c6\<rparr>"]) simp
qed

definition in_log :: "logst \<Rightarrow> u32 \<Rightarrow> bool" where
  "in_log l b \<longleftrightarrow> unat (lstart l) \<le> unat b \<and> unat b \<le> unat (lstart l) + 30"

text \<open>The disk when the machine stops after the first \<open>k\<close> of the writes \<open>ws\<close>.\<close>

definition crash_disk :: "logst \<Rightarrow> (u32 \<times> block) list \<Rightarrow> nat \<Rightarrow> u32 \<Rightarrow> u32 \<Rightarrow> block" where
  "crash_disk l ws k = (disk (cache l))(ldev l := apply_w (take k ws) (disk (cache l) (ldev l)))"

lemma in_log_logblk: "log_ok l \<Longrightarrow> i < nat (lhn l) \<Longrightarrow> in_log l (logblk l i)"
  using log_okD(4)[of l] log_okD(11)[of l i] by (simp add: in_log_def)

lemma not_in_log: "\<not> in_log l b \<Longrightarrow> b \<noteq> lstart l"
  by (auto simp: in_log_def)

lemma apply_w_prefix: "n \<notin> set (map f [0..<m]) \<Longrightarrow> apply_w (take k (map (\<lambda>i. (f i, g i)) [0..<m])) h n = h n"
  by (rule apply_w_other) (auto dest!: in_set_takeD)

lemma home_upt: "log_ok l \<Longrightarrow> map (\<lambda>i. home l ! i) [0..<nat (lhn l)] = home l"
  using log_okD(8)[of l] by (metis map_nth)

lemma apply_w_home:
  assumes "log_ok l"
  shows "apply_w (map (\<lambda>i. (home l ! i, V (home l ! i))) [0..<nat (lhn l)]) h b = (if b \<in> set (home l) then V b else h b)"
proof -
  have "map (\<lambda>i. (home l ! i, V (home l ! i))) [0..<nat (lhn l)] = map (\<lambda>b. (b, V b)) (home l)"
    by (subst home_upt[OF assms, symmetric]) simp
  then show ?thesis using apply_w_map[OF log_okD(6)[OF assms]] by simp
qed

text \<open>Recovery on a disk whose header is clear, and on one whose header lists the transaction.\<close>

definition sb_ok :: "logst \<Rightarrow> (u32 \<Rightarrow> block) \<Rightarrow> bool" where
  "sb_ok l D \<longleftrightarrow> get_word (D 1) 4 = lstart l \<and> 1 < unat (lstart l)"

lemma recover_clear:
  assumes "log_ok l" "sb_ok l (D (ldev l))" "get_word (D (ldev l) (lstart l)) 0 = 0"
  shows "\<exists>u. initlog pid (ldev l) (boot_log D) = Inr u \<and> (\<forall>b. \<not> in_log l b \<longrightarrow> disk (cache u) (ldev l) b = D (ldev l) b)"
proof -
  have "unat (lstart l) + 30 < 1000" using assms(1) by (simp add: log_ok_def)
  then obtain u where "initlog pid (ldev l) (boot_log D) = Inr u" "\<forall>b. b \<noteq> lstart l \<longrightarrow> disk (cache u) (ldev l) b = D (ldev l) b"
    using recover_boot[OF log_okD(2)[OF assms(1)], of D "lstart l" "[]"] assms(2,3) by (auto simp: sb_ok_def)
  then show ?thesis using not_in_log by blast
qed

lemma recover_full:
  assumes ok: "log_ok l" and sb: "sb_ok l (D (ldev l))" and w: "get_word (D (ldev l) (lstart l)) 0 = of_int (lhn l)"
    "\<And>i. i < nat (lhn l) \<Longrightarrow> get_word (D (ldev l) (lstart l)) (i + 1) = home l ! i"
    "\<And>i. i < nat (lhn l) \<Longrightarrow> D (ldev l) (logblk l i) = V (home l ! i)"
  shows "\<exists>u. initlog pid (ldev l) (boot_log D) = Inr u \<and>
    (\<forall>b. \<not> in_log l b \<longrightarrow> disk (cache u) (ldev l) b = (if b \<in> set (home l) then V b else D (ldev l) b))"
proof -
  note L = log_okD[OF ok]
  have st: "unat (lstart l) + 30 < 1000" "\<forall>b \<in> set (home l). b < FSSIZE \<and> (unat b < unat (lstart l) \<or> unat (lstart l) + 30 < unat b)"
    using ok by (simp_all add: log_ok_def)
  have s: "sint (get_word (D (ldev l) (lstart l)) 0) = int (length (home l))"
    using L(3,4,8) by (simp add: w(1) signed_of_int signed_take_bit_int_eq_self)
  have len: "length (home l) \<le> 29" using L(4,8) by simp
  have w2: "\<And>i. i < length (home l) \<Longrightarrow> get_word (D (ldev l) (lstart l)) (i + 1) = home l ! i" using w(2) L(8) by simp
  have mp: "map (\<lambda>i. (home l ! i, D (ldev l) (lstart l + of_nat i + 1))) [0..<length (home l)]
      = map (\<lambda>i. (home l ! i, V (home l ! i))) [0..<nat (lhn l)]" using w(3) L(8) by (simp add: logblk_def)
  have "get_word (D (ldev l) 1) 4 = lstart l" "1 < unat (lstart l)" using sb by (simp_all add: sb_ok_def)
  from recover_boot[of "ldev l" D "lstart l" "home l" pid, OF L(2) this(1) st(1) this(2) s len w2 L(6) st(2)] obtain u where "initlog pid (ldev l) (boot_log D) = Inr u"
    "\<forall>b. b \<noteq> lstart l \<longrightarrow> disk (cache u) (ldev l) b = apply_w (map (\<lambda>i. (home l ! i, V (home l ! i))) [0..<nat (lhn l)]) (D (ldev l)) b"
    unfolding mp by blast
  then show ?thesis using not_in_log by (intro exI[of _ u]) (simp add: apply_w_home[OF ok])
qed

text \<open>What the disk holds after a prefix of the commit's writes.\<close>

lemma crash_prefix:
  assumes ok: "log_ok l" and sb: "sb_ok l (disk (cache l) (ldev l))" "1 \<notin> set (home l)" and k: "k \<le> 2 * nat (lhn l) + 2"
  defines "h1 \<equiv> head_block l (bview (cache l) (ldev l) (lstart l))" and "n \<equiv> nat (lhn l)" and "D \<equiv> disk (cache l) (ldev l)" and "V \<equiv> bview (cache l) (ldev l)"
    and "C \<equiv> crash_disk l (commit_writes l) k (ldev l)"
  shows "sb_ok l C" "C (lstart l) = (if k \<le> n then D (lstart l) else if k < 2 * n + 2 then h1 else head_block (l\<lparr>lhn := 0\<rparr>) h1)"
    "n < k \<Longrightarrow> i < n \<Longrightarrow> C (logblk l i) = V (home l ! i)"
    "\<not> in_log l b \<Longrightarrow> b \<notin> set (home l) \<Longrightarrow> C b = D b" "\<not> in_log l b \<Longrightarrow> k \<le> n \<Longrightarrow> C b = D b"
    "\<not> in_log l b \<Longrightarrow> b \<in> set (home l) \<Longrightarrow> k = 2 * n + 2 \<Longrightarrow> C b = V b"
proof -
  let ?A = "map (\<lambda>i. (logblk l i, V (home l ! i))) [0..<n]" and ?B = "map (\<lambda>i. (home l ! i, V (home l ! i))) [0..<n]"
  let ?h0 = "head_block (l\<lparr>lhn := 0\<rparr>) h1" and ?s = "lstart l"
  note ap = log_blocks_apart[OF ok, folded n_def] note L = log_okD[OF ok]
  have ws: "commit_writes l = ?A @ (?s, h1) # ?B @ [(?s, ?h0)]" by (simp add: commit_writes_def Let_def h1_def n_def V_def)
  have C: "C = apply_w (take k (commit_writes l)) D" by (simp add: C_def crash_disk_def D_def)
  have hm: "b \<notin> set (map (\<lambda>i. home l ! i) [0..<n])" if "b \<notin> set (home l)" for b using that home_upt[OF ok] by (simp add: n_def)
  have early: "C = apply_w (take k ?A) D" if "k \<le> n" using that by (simp add: C ws)
  have later: "C = apply_w (take (k - Suc n) (?B @ [(?s, ?h0)])) ((apply_w ?A D)(?s := h1))" if "n < k"
    using that by (simp add: C ws take_Cons' Suc_diff_Suc)
  have mid: "C = apply_w (take (k - Suc n) ?B) ((apply_w ?A D)(?s := h1))" if "n < k" "k < 2 * n + 2" using that by (simp add: later)
  have late: "C = (apply_w ?B ((apply_w ?A D)(?s := h1)))(?s := ?h0)" if "k = 2 * n + 2" using that by (simp add: later)
  have cases: "k \<le> n \<or> n < k \<and> k < 2 * n + 2 \<or> k = 2 * n + 2" using k by (auto simp: n_def)
  have s: "?s \<notin> set (home l)" "?s \<notin> set (map (logblk l) [0..<n])" using L(13) ap(1) by auto
  have gen: "C b = D b" if "b \<noteq> ?s" "b \<notin> set (home l)" "b \<notin> set (map (logblk l) [0..<n])" for b
    using cases that
    by (elim disjE) (simp_all add: early mid late apply_w_prefix[OF that(3)] apply_w_prefix[OF hm[OF that(2)]] apply_w_miss[OF that(3)] apply_w_miss[OF hm[OF that(2)]])
  have out: "b \<noteq> ?s" "b \<notin> set (map (logblk l) [0..<n])" if "\<not> in_log l b" for b
    using that in_log_logblk[OF ok] by (auto simp: in_log_def n_def)
  have "\<not> in_log l 1" using sb(1) by (simp add: in_log_def sb_ok_def)
  then have "C 1 = D 1" using gen[OF out(1) sb(2) out(2)] by simp
  then show "sb_ok l C" using sb(1) by (simp add: sb_ok_def D_def)
  show "C ?s = (if k \<le> n then D ?s else if k < 2 * n + 2 then h1 else ?h0)"
    using cases by (elim disjE) (simp_all add: early mid late apply_w_prefix[OF s(2)] apply_w_prefix[OF hm[OF s(1)]])
  show "\<not> in_log l b \<Longrightarrow> b \<notin> set (home l) \<Longrightarrow> C b = D b" using gen out by blast
  show "\<not> in_log l b \<Longrightarrow> k \<le> n \<Longrightarrow> C b = D b" using out[of b] by (simp add: early apply_w_prefix)
  show "\<not> in_log l b \<Longrightarrow> b \<in> set (home l) \<Longrightarrow> k = 2 * n + 2 \<Longrightarrow> C b = V b"
    using out(1)[of b] by (simp add: late apply_w_home[OF ok, folded n_def])
  assume i: "n < k" "i < n"
  have "logblk l i \<in> set (map (logblk l) [0..<n])" using i(2) by simp
  then have "logblk l i \<notin> set (home l)" "logblk l i \<noteq> ?s" using ap(1,3) by (blast, metis)
  then show "C (logblk l i) = V (home l ! i)"
    using cases i by (elim disjE) (simp_all add: mid late apply_w_prefix[OF hm] apply_w_miss[OF hm] apply_w_pairs[OF ap(2)])
qed


text \<open>A transaction of one block, 40, on a disk whose log starts at block 2.\<close>

definition demo_disk :: "u32 \<Rightarrow> u32 \<Rightarrow> block" where
  "demo_disk d n = (if n = 1 then put_word (replicate BSIZE 0) 4 2 else replicate BSIZE 0)"

definition demo_buf :: buf where
  "demo_buf = \<lparr>bvalid = True, bdirty = True, bdev = 1, blockno = 40, block_pid = None, refcnt = 0, bdata = replicate BSIZE 7\<rparr>"

definition demo_log :: logst where
  "demo_log = \<lparr>cache = (boot_cache demo_disk)\<lparr>bufs := (replicate NBUF zero_buf)[0 := demo_buf]\<rparr>, lstart = 2, lsize = 30,
     outstanding = 0, committing = True, ldev = 1, lhn = 1, lhblock = 40 # replicate 29 0\<rparr>"

lemma demo_bufs: "b < NBUF \<Longrightarrow> bufs (cache demo_log) ! b = (if b = 0 then demo_buf else zero_buf)"
  by (simp add: demo_log_def nth_list_update)

lemma demo_cached: "cached (cache demo_log) d n b \<Longrightarrow> d \<noteq> 0 \<Longrightarrow> b = 0 \<and> d = 1 \<and> n = 40"
  using demo_bufs[of b] by (cases "b = 0") (auto simp: cached_def demo_buf_def zero_buf_def)

lemma demo_quiet: "quiet (cache demo_log)"
proof -
  have "bio_ok (cache demo_log)"
  proof (rule bio_okI)
    show "x = y" if "d \<noteq> 0" "cached (cache demo_log) d n x" "cached (cache demo_log) d n y" for d n x y
      using demo_cached that by blast
    show "length (bufs (cache demo_log)) = NBUF" "havedisk1 (cache demo_log)" by (simp_all add: demo_log_def boot_cache_eq)
    show "set (mru (cache demo_log)) = {..<NBUF}" "distinct (mru (cache demo_log))" by (auto simp: demo_log_def boot_cache_eq)
  qed (auto simp: demo_bufs demo_buf_def zero_buf_def split: if_splits)
  then show ?thesis by (simp add: quiet_def demo_bufs demo_buf_def zero_buf_def)
qed

lemma demo_ok: "log_ok demo_log" "home demo_log = [40]" "bview (cache demo_log) 1 40 = replicate BSIZE 7" "sb_ok demo_log (disk (cache demo_log) 1)"
proof -
  show h: "home demo_log = [40]" by (simp add: home_def demo_log_def)
  have nb: "0 < NBUF" by (simp add: NBUF_def)
  have c: "cached (cache demo_log) 1 40 0" using demo_bufs[OF nb] nb by (simp add: cached_def demo_buf_def)
  show "bview (cache demo_log) 1 40 = replicate BSIZE 7"
    using view_cached[OF _ _ c] demo_quiet demo_bufs[OF nb] by (simp add: quiet_def demo_buf_def)
  have "d = 1 \<and> n = 40" if dt: "dirty_at (cache demo_log) d n" for d n
  proof -
    obtain b where b: "cached (cache demo_log) d n b" "bdirty (bufs (cache demo_log) ! b)" using dt unfolding dirty_at_def by blast
    then have "b = 0" using demo_bufs[of b] by (auto simp: cached_def zero_buf_def split: if_splits)
    then show ?thesis using b(1) demo_bufs[OF nb] by (auto simp: cached_def demo_buf_def)
  qed
  then show "log_ok demo_log" unfolding log_ok_def h using demo_quiet by (auto simp: demo_log_def FSSIZE_def)
  show "sb_ok demo_log (disk (cache demo_log) 1)"
    by (simp add: sb_ok_def demo_log_def boot_cache_eq demo_disk_def get_put_word BSIZE_def)
qed


definition thirty_blocks :: logst where
  "thirty_blocks = (boot_log (\<lambda>_ _. []))\<lparr>lsize := 30,
     cache := \<lparr>bufs = map (\<lambda>i. zero_buf\<lparr>bdev := 1, blockno := of_nat (100 + i), bvalid := True\<rparr>) [0..<NBUF],
       mru = [0..<NBUF], disk = (\<lambda>_ _. []), disk_writes = [], havedisk1 = True\<rparr>\<rparr>"

lemma log_write_fresh:
  assumes "0 \<le> lhn l" "lhn l < 29" "lsize l = 30" "1 \<le> outstanding l" "blockno (bufs (cache l) ! b) \<notin> set (take (nat (lhn l)) (lhblock l))"
  shows "log_write b l = Inr (l\<lparr>lhblock := (lhblock l)[nat (lhn l) := blockno (bufs (cache l) ! b)], lhn := lhn l + 1,
     cache := upd_buf b (\<lambda>x. x\<lparr>bdirty := True\<rparr>) (cache l)\<rparr>)"
proof -
  have "find_idx (\<lambda>x. x = blockno (bufs (cache l) ! b)) (take (nat (lhn l)) (lhblock l)) = None"
    using assms(5) by (auto simp: find_idx_None)
  then show ?thesis using assms(1-4) by (simp add: log_write_def LOGSIZE_def Let_def)
qed

lemma thirty_writes:
  assumes "i \<le> 29"
  shows "\<exists>l. fold_r log_write [0..<i] (thirty_blocks\<lparr>outstanding := 3\<rparr>) = Inr l \<and> lhn l = int i \<and> lsize l = 30 \<and> outstanding l = 3 \<and>
    length (lhblock l) = 30 \<and> take i (lhblock l) = map (\<lambda>j. of_nat (100 + j)) [0..<i] \<and>
    length (bufs (cache l)) = 30 \<and> (\<forall>b < 30. blockno (bufs (cache l) ! b) = of_nat (100 + b))"
  using assms
proof (induction i)
  case 0
  then show ?case by (simp add: thirty_blocks_def boot_log_def NBUF_def)
next
  case (Suc i)
  then obtain l where l: "fold_r log_write [0..<i] (thirty_blocks\<lparr>outstanding := 3\<rparr>) = Inr l" "lhn l = int i" "lsize l = 30" "outstanding l = 3"
    "length (lhblock l) = 30" "take i (lhblock l) = map (\<lambda>j. of_nat (100 + j)) [0..<i]"
    "length (bufs (cache l)) = 30" "\<forall>b < 30. blockno (bufs (cache l) ! b) = of_nat (100 + b)" by auto
  have i: "i < 29" using Suc.prems by simp
  have u: "unat (of_nat (100 + j) :: u32) = 100 + j" if "j < 30" for j using that by (simp add: unat_of_nat del: of_nat_add)
  have ne: "(of_nat (100 + i) :: u32) \<noteq> of_nat (100 + j)" if "j < i" for j
  proof
    assume "(of_nat (100 + i) :: u32) = of_nat (100 + j)"
    then have "100 + i = 100 + j" using u[of i] u[of j] that i by simp
    then show False using that by simp
  qed
  have "set (take (nat (lhn l)) (lhblock l)) = (\<lambda>j. of_nat (100 + j)) ` {0..<i}" using l(2,6) by (simp del: of_nat_add)
  then have "of_nat (100 + i) \<notin> set (take (nat (lhn l)) (lhblock l))" using ne by (simp add: image_iff del: of_nat_add)
  then have "log_write i l = Inr (l\<lparr>lhblock := (lhblock l)[i := of_nat (100 + i)], lhn := int i + 1, cache := upd_buf i (\<lambda>x. x\<lparr>bdirty := True\<rparr>) (cache l)\<rparr>)"
    using log_write_fresh[of l i] l i by simp
  moreover have "take (Suc i) ((lhblock l)[i := of_nat (100 + i)]) = map (\<lambda>j. of_nat (100 + j)) [0..<Suc i]"
    using l(5,6) i by (simp add: take_Suc_conv_app_nth)
  moreover have "blockno (bufs (upd_buf i (\<lambda>x. x\<lparr>bdirty := True\<rparr>) (cache l)) ! b) = of_nat (100 + b)" if "b < 30" for b
    using l(7,8) i that by (simp add: upd_buf_def nth_list_update)
  ultimately show ?case using l by (simp add: fold_r_append)
qed

text \<open>
  C33: three file system calls that \<open>begin_op\<close> admits together, each entitled to write \<open>MAXOPBLOCKS\<close> blocks, may not
  do so: the log of \<open>mkfs\<close> has 30 blocks and the header takes one, so the 30th block of the transaction panics
  although \<open>begin_op\<close> reserved room for it.
\<close>

theorem log_reservation_short:
  "\<exists>l1 l2 l3. begin_op thirty_blocks = Some l1 \<and> begin_op l1 = Some l2 \<and> begin_op l2 = Some l3 \<and>
     fold_r log_write [0..<nat (3 * MAXOPBLOCKS)] l3 = Inl (Panic ''too big a transaction'')"
proof -
  obtain l where "fold_r log_write [0..<29] (thirty_blocks\<lparr>outstanding := 3\<rparr>) = Inr l" "lhn l = 29" "lsize l = 30"
    using thirty_writes[of 29] by auto
  moreover from this have "log_write 29 l = Inl (Panic ''too big a transaction'')" by (simp add: log_write_def)
  moreover have "[0..<nat (3 * MAXOPBLOCKS)] = [0..<29] @ [29]" 
    using upt_Suc_append[of 0 29] by (simp add: MAXOPBLOCKS_def)
  ultimately have "fold_r log_write [0..<nat (3 * MAXOPBLOCKS)] (thirty_blocks\<lparr>outstanding := 3\<rparr>) = Inl (Panic ''too big a transaction'')"
    by (simp add: fold_r_append)
  moreover have "begin_op thirty_blocks = Some (thirty_blocks\<lparr>outstanding := 1\<rparr>)"
    "begin_op (thirty_blocks\<lparr>outstanding := 1\<rparr>) = Some (thirty_blocks\<lparr>outstanding := 2\<rparr>)"
    "begin_op (thirty_blocks\<lparr>outstanding := 2\<rparr>) = Some (thirty_blocks\<lparr>outstanding := 3\<rparr>)"
    by (simp_all add: begin_op_def thirty_blocks_def boot_log_def MAXOPBLOCKS_def LOGSIZE_def)
  ultimately show ?thesis by blast
qed

end
