(* ===== verification/Fs.thy ===== *)
theory Fs
  imports Log
begin

text \<open>
  The file system (\<open>fs.c\<close>, \<open>fs.h\<close>, \<open>stat.h\<close>): block allocator, inodes and their cache, file contents, directories
  and path names. The layer below is the view of the blocks that the buffer cache and the log keep (\<open>Bio\<close>, \<open>Log\<close>):
  \<open>bread\<close> is \<open>getblk\<close>, and storing into the buffer followed by \<open>log_write\<close> and \<open>brelse\<close> is \<open>putblk\<close>; the theory
  \<open>Fs_Layer\<close> shows that the code of \<open>bio.c\<close> and \<open>log.c\<close> implements the two.
\<close>

section \<open>On-disk format and state\<close>

definition ROOTINO :: u32 where "ROOTINO = 1"
definition ROOTDEV :: u32 where "ROOTDEV = 1"
definition NDIRECT :: nat where "NDIRECT = 12"
definition NINDIRECT :: nat where "NINDIRECT = 128"
definition MAXFILE :: nat where "MAXFILE = 140"
definition IPB :: u32 where "IPB = 8"
definition BPB :: nat where "BPB = 4096"
definition DIRSIZ :: nat where "DIRSIZ = 14"
definition NINODE :: nat where "NINODE = 50"
definition NDEV :: int where "NDEV = 10"
definition T_DIR :: u16 where "T_DIR = 1"
definition T_FILE :: u16 where "T_FILE = 2"
definition T_DEV :: u16 where "T_DEV = 3"

record superblock =
  sb_size :: u32
  sb_nblocks :: u32
  sb_ninodes :: u32
  sb_nlog :: u32
  sb_logstart :: u32
  sb_inodestart :: u32
  sb_bmapstart :: u32

text \<open>\<open>ilk\<close> is the pid of the holder of the inode's sleep lock.\<close>

record inode =
  idev :: u32
  inum :: u32
  iref :: int
  ilk :: "int option"
  ivalid :: bool
  itype :: u16
  imajor :: u16
  iminor :: u16
  inlink :: u16
  isize :: u32
  iaddrs :: "u32 list"

text \<open>
  \<open>blk\<close> is the contents of the blocks of a device, \<open>logged\<close> the block numbers of the running transaction, \<open>ops\<close> the
  number of system calls in it, \<open>hold\<close> the blocks whose buffer the caller keeps locked while it calls the allocator.
\<close>

record fsst =
  blk :: "u32 \<Rightarrow> u32 \<Rightarrow> block"
  logged :: "u32 list"
  ops :: int
  hold :: "u32 list"
  sb :: superblock
  icache :: "inode list"

definition IBLOCK :: "u32 \<Rightarrow> superblock \<Rightarrow> u32" where "IBLOCK i b = i div IPB + sb_inodestart b"
definition BBLOCK :: "u32 \<Rightarrow> superblock \<Rightarrow> u32" where "BBLOCK b x = b div of_nat BPB + sb_bmapstart x"

definition getblk :: "u32 \<Rightarrow> u32 \<Rightarrow> fsst \<Rightarrow> block result" where
  "getblk dev n s =
    (if n \<in> set (hold s) then Inl (Diverges ''acquiresleep'')
     else if n \<ge> FSSIZE then Inl (Panic ''incorrect blockno'')
     else Inr (blk s dev n))"

definition putblk :: "u32 \<Rightarrow> u32 \<Rightarrow> block \<Rightarrow> fsst \<Rightarrow> fsst result" where
  "putblk dev n d s =
    (if int (length (logged s)) \<ge> LOGSIZE \<or> int (length (logged s)) \<ge> sint (sb_nlog (sb s)) - 1 then Inl (Panic ''too big a transaction'')
     else if ops s < 1 then Inl (Panic ''log_write outside of trans'')
     else Inr (s\<lparr>blk := (blk s)(dev := (blk s dev)(n := d)), logged := if n \<in> set (logged s) then logged s else logged s @ [n]\<rparr>))"

definition readsb :: "u32 \<Rightarrow> fsst \<Rightarrow> superblock result" where
  "readsb dev s =
    bind_r (getblk dev 1 s) (\<lambda>d.
      Inr \<lparr>sb_size = get_word d 0, sb_nblocks = get_word d 1, sb_ninodes = get_word d 2, sb_nlog = get_word d 3,
        sb_logstart = get_word d 4, sb_inodestart = get_word d 5, sb_bmapstart = get_word d 6\<rparr>)"

section \<open>Block allocator\<close>

definition bzero :: "u32 \<Rightarrow> u32 \<Rightarrow> fsst \<Rightarrow> fsst result" where
  "bzero dev bno s = bind_r (getblk dev bno s) (\<lambda>_. putblk dev bno (replicate BSIZE 0) s)"

definition bit_free :: "block \<Rightarrow> nat \<Rightarrow> bool" where
  "bit_free d bi \<longleftrightarrow> and (d ! (bi div 8)) (push_bit (bi mod 8) 1) = 0"

fun balloc_from :: "u32 \<Rightarrow> nat list \<Rightarrow> fsst \<Rightarrow> (u32 \<times> fsst) result" where
  "balloc_from dev [] s = Inl (Panic ''balloc: out of blocks'')"
| "balloc_from dev (b # bs) s =
    bind_r (getblk dev (BBLOCK (of_nat b) (sb s)) s) (\<lambda>d.
      case find (bit_free d) [0..<min BPB (unat (sb_size (sb s)) - b)] of
        Some bi \<Rightarrow>
          bind_r (putblk dev (BBLOCK (of_nat b) (sb s)) (d[bi div 8 := or (d ! (bi div 8)) (push_bit (bi mod 8) 1)]) s) (\<lambda>s1.
            bind_r (bzero dev (of_nat (b + bi)) s1) (\<lambda>s2. Inr (of_nat (b + bi), s2)))
      | None \<Rightarrow> balloc_from dev bs s)"

definition balloc :: "u32 \<Rightarrow> fsst \<Rightarrow> (u32 \<times> fsst) result" where
  "balloc dev s = balloc_from dev (map (\<lambda>i. i * BPB) [0..<(unat (sb_size (sb s)) + BPB - 1) div BPB]) s"

definition bfree :: "u32 \<Rightarrow> u32 \<Rightarrow> fsst \<Rightarrow> fsst result" where
  "bfree dev b s =
    bind_r (getblk dev (BBLOCK b (sb s)) s) (\<lambda>d.
      let bi = unat b mod BPB in
      if bit_free d bi then Inl (Panic ''freeing free block'')
      else putblk dev (BBLOCK b (sb s)) (d[bi div 8 := and (d ! (bi div 8)) (not (push_bit (bi mod 8) 1))]) s)"

section \<open>Inodes\<close>

text \<open>The 16-bit fields of the disk inode (little endian), and its words.\<close>

definition get_half :: "block \<Rightarrow> nat \<Rightarrow> u16" where
  "get_half d i = or (ucast (d ! (2 * i))) (push_bit 8 (ucast (d ! (2 * i + 1))))"

definition put_half :: "block \<Rightarrow> nat \<Rightarrow> u16 \<Rightarrow> block" where
  "put_half d i v = d[2 * i := ucast v, 2 * i + 1 := ucast (drop_bit 8 v)]"

definition inode_slot :: "u32 \<Rightarrow> nat" where "inode_slot n = unat (n mod IPB)"

text \<open>Bytes \<open>64 k\<close> to \<open>64 k + 63\<close> of an inode block are the disk inode \<open>k\<close>.\<close>

definition store_dinode :: "nat \<Rightarrow> inode \<Rightarrow> block \<Rightarrow> block" where
  "store_dinode k ip d =
    fold (\<lambda>j d. put_word d (16 * k + 3 + j) (iaddrs ip ! j)) [0..<NDIRECT + 1]
      (put_word (put_half (put_half (put_half (put_half d (32 * k) (itype ip)) (32 * k + 1) (imajor ip)) (32 * k + 2) (iminor ip))
         (32 * k + 3) (inlink ip)) (16 * k + 2) (isize ip))"

definition load_dinode :: "nat \<Rightarrow> block \<Rightarrow> inode \<Rightarrow> inode" where
  "load_dinode k d ip = ip\<lparr>itype := get_half d (32 * k), imajor := get_half d (32 * k + 1), iminor := get_half d (32 * k + 2),
     inlink := get_half d (32 * k + 3), isize := get_word d (16 * k + 2),
     iaddrs := map (\<lambda>j. get_word d (16 * k + 3 + j)) [0..<NDIRECT + 1]\<rparr>"

definition upd_inode :: "nat \<Rightarrow> (inode \<Rightarrow> inode) \<Rightarrow> fsst \<Rightarrow> fsst" where
  "upd_inode i f s = s\<lparr>icache := (icache s)[i := f (icache s ! i)]\<rparr>"

definition iinit :: "u32 \<Rightarrow> fsst \<Rightarrow> fsst result" where
  "iinit dev s =
    (let s1 = s\<lparr>icache := map (\<lambda>ip. ip\<lparr>ilk := None\<rparr>) (icache s)\<rparr> in
     bind_r (readsb dev s1) (\<lambda>b. Inr (s1\<lparr>sb := b\<rparr>)))"

definition iget :: "u32 \<Rightarrow> u32 \<Rightarrow> fsst \<Rightarrow> (nat \<times> fsst) result" where
  "iget dev n s =
    (case find_idx (\<lambda>ip. iref ip > 0 \<and> idev ip = dev \<and> inum ip = n) (icache s) of
       Some i \<Rightarrow> Inr (i, upd_inode i (\<lambda>ip. ip\<lparr>iref := iref ip + 1\<rparr>) s)
     | None \<Rightarrow>
       (case find_idx (\<lambda>ip. iref ip = 0) (icache s) of
          Some i \<Rightarrow> Inr (i, upd_inode i (\<lambda>ip. ip\<lparr>idev := dev, inum := n, iref := 1, ivalid := False\<rparr>) s)
        | None \<Rightarrow> Inl (Panic ''iget: no inodes'')))"

fun ialloc_from :: "u32 \<Rightarrow> u16 \<Rightarrow> nat list \<Rightarrow> fsst \<Rightarrow> (nat \<times> fsst) result" where
  "ialloc_from dev ty [] s = Inl (Panic ''ialloc: no inodes'')"
| "ialloc_from dev ty (n # ns) s =
    bind_r (getblk dev (IBLOCK (of_nat n) (sb s)) s) (\<lambda>d.
      let k = inode_slot (of_nat n) in
      if get_half d (32 * k) = 0 then
        bind_r (putblk dev (IBLOCK (of_nat n) (sb s)) (put_half (take (64 * k) d @ replicate 64 0 @ drop (64 * k + 64) d) (32 * k) ty) s)
          (iget dev (of_nat n))
      else ialloc_from dev ty ns s)"

definition ialloc :: "u32 \<Rightarrow> u16 \<Rightarrow> fsst \<Rightarrow> (nat \<times> fsst) result" where
  "ialloc dev ty s = ialloc_from dev ty [1..<unat (sb_ninodes (sb s))] s"

definition iupdate :: "nat \<Rightarrow> fsst \<Rightarrow> fsst result" where
  "iupdate i s =
    (let ip = icache s ! i; b = IBLOCK (inum ip) (sb s) in
     bind_r (getblk (idev ip) b s) (\<lambda>d. putblk (idev ip) b (store_dinode (inode_slot (inum ip)) ip d) s))"

definition idup :: "nat \<Rightarrow> fsst \<Rightarrow> nat \<times> fsst" where
  "idup i s = (i, upd_inode i (\<lambda>ip. ip\<lparr>iref := iref ip + 1\<rparr>) s)"

definition ilock :: "int \<Rightarrow> nat \<Rightarrow> fsst \<Rightarrow> fsst result" where
  "ilock pid i s =
    (if iref (icache s ! i) < 1 then Inl (Panic ''ilock'')
     else if ilk (icache s ! i) \<noteq> None then Inl (Diverges ''acquiresleep'')
     else let s1 = upd_inode i (\<lambda>ip. ip\<lparr>ilk := Some pid\<rparr>) s; ip = icache s1 ! i in
       if ivalid ip then Inr s1
       else bind_r (getblk (idev ip) (IBLOCK (inum ip) (sb s)) s1) (\<lambda>d.
         let s2 = upd_inode i (\<lambda>ip. (load_dinode (inode_slot (inum ip)) d ip)\<lparr>ivalid := True\<rparr>) s1 in
         if itype (icache s2 ! i) = 0 then Inl (Panic ''ilock: no type'') else Inr s2))"

definition iunlock :: "int \<Rightarrow> nat \<Rightarrow> fsst \<Rightarrow> fsst result" where
  "iunlock pid i s =
    (if ilk (icache s ! i) \<noteq> Some pid \<or> iref (icache s ! i) < 1 then Inl (Panic ''iunlock'')
     else Inr (upd_inode i (\<lambda>ip. ip\<lparr>ilk := None\<rparr>) s))"

section \<open>File contents\<close>

definition bmap :: "nat \<Rightarrow> nat \<Rightarrow> fsst \<Rightarrow> (u32 \<times> fsst) result" where
  "bmap i bn s =
    (let ip = icache s ! i; dev = idev ip in
     if bn < NDIRECT then
       (if iaddrs ip ! bn = 0 then
          bind_r (balloc dev s) (\<lambda>(addr, s1). Inr (addr, upd_inode i (\<lambda>ip. ip\<lparr>iaddrs := (iaddrs ip)[bn := addr]\<rparr>) s1))
        else Inr (iaddrs ip ! bn, s))
     else if bn - NDIRECT < NINDIRECT then
       bind_r (if iaddrs ip ! NDIRECT = 0 then
                 bind_r (balloc dev s) (\<lambda>(addr, s1). Inr (addr, upd_inode i (\<lambda>ip. ip\<lparr>iaddrs := (iaddrs ip)[NDIRECT := addr]\<rparr>) s1))
               else Inr (iaddrs ip ! NDIRECT, s)) (\<lambda>(ind, s1).
         bind_r (getblk dev ind s1) (\<lambda>a.
           if get_word a (bn - NDIRECT) = 0 then
             bind_r (balloc dev (s1\<lparr>hold := ind # hold s1\<rparr>)) (\<lambda>(addr, s2).
               bind_r (putblk dev ind (put_word (blk s2 dev ind) (bn - NDIRECT) addr) s2) (\<lambda>s3. Inr (addr, s3\<lparr>hold := hold s1\<rparr>)))
           else Inr (get_word a (bn - NDIRECT), s1)))
     else Inl (Panic ''bmap: out of range''))"

definition trunc_direct :: "nat \<Rightarrow> nat \<Rightarrow> fsst \<Rightarrow> fsst result" where
  "trunc_direct i k s =
    (let ip = icache s ! i in
     if iaddrs ip ! k \<noteq> 0 then
       bind_r (bfree (idev ip) (iaddrs ip ! k) s) (\<lambda>s1. Inr (upd_inode i (\<lambda>ip. ip\<lparr>iaddrs := (iaddrs ip)[k := 0]\<rparr>) s1))
     else Inr s)"

definition trunc_indirect :: "u32 \<Rightarrow> u32 \<Rightarrow> nat \<Rightarrow> fsst \<Rightarrow> fsst result" where
  "trunc_indirect dev ind j s =
    (let a = get_word (blk s dev ind) j in if a \<noteq> 0 then bfree dev a s else Inr s)"

definition itrunc :: "nat \<Rightarrow> fsst \<Rightarrow> fsst result" where
  "itrunc i s =
    bind_r (fold_r (trunc_direct i) [0..<NDIRECT] s) (\<lambda>s1.
      let ip = icache s1 ! i; dev = idev ip; ind = iaddrs ip ! NDIRECT in
      bind_r (if ind \<noteq> 0 then
          bind_r (getblk dev ind s1) (\<lambda>_.
            bind_r (fold_r (trunc_indirect dev ind) [0..<NINDIRECT] (s1\<lparr>hold := ind # hold s1\<rparr>)) (\<lambda>s2.
              bind_r (bfree dev ind (s2\<lparr>hold := hold s1\<rparr>)) (\<lambda>s3. Inr (upd_inode i (\<lambda>ip. ip\<lparr>iaddrs := (iaddrs ip)[NDIRECT := 0]\<rparr>) s3))))
        else Inr s1) (\<lambda>s4.
        iupdate i (upd_inode i (\<lambda>ip. ip\<lparr>isize := 0\<rparr>) s4)))"

definition iput :: "int \<Rightarrow> nat \<Rightarrow> fsst \<Rightarrow> fsst result" where
  "iput pid i s =
    (if ilk (icache s ! i) \<noteq> None then Inl (Diverges ''acquiresleep'')
     else let s1 = upd_inode i (\<lambda>ip. ip\<lparr>ilk := Some pid\<rparr>) s; ip = icache s1 ! i in
       bind_r (if ivalid ip \<and> inlink ip = 0 \<and> iref ip = 1 then
           bind_r (itrunc i s1) (\<lambda>s2. bind_r (iupdate i (upd_inode i (\<lambda>ip. ip\<lparr>itype := 0\<rparr>) s2)) (\<lambda>s3.
             Inr (upd_inode i (\<lambda>ip. ip\<lparr>ivalid := False\<rparr>) s3)))
         else Inr s1) (\<lambda>s4.
         Inr (upd_inode i (\<lambda>ip. ip\<lparr>iref := iref ip - 1\<rparr>) (upd_inode i (\<lambda>ip. ip\<lparr>ilk := None\<rparr>) s4))))"

definition iunlockput :: "int \<Rightarrow> nat \<Rightarrow> fsst \<Rightarrow> fsst result" where
  "iunlockput pid i s = bind_r (iunlock pid i s) (iput pid i)"

record stat =
  st_type :: u16
  st_dev :: u32
  st_ino :: u32
  st_nlink :: u16
  st_size :: u32

definition stati :: "nat \<Rightarrow> fsst \<Rightarrow> stat" where
  "stati i s = (let ip = icache s ! i in
     \<lparr>st_type = itype ip, st_dev = idev ip, st_ino = inum ip, st_nlink = inlink ip, st_size = isize ip\<rparr>)"

text \<open>The device switch: \<open>devsw[major]\<close>, with null entries as \<open>None\<close>.\<close>

record devsw =
  dread :: "(nat \<Rightarrow> u32 \<Rightarrow> fsst \<Rightarrow> (int \<times> u8 list \<times> fsst) result) option"
  dwrite :: "(nat \<Rightarrow> u8 list \<Rightarrow> u32 \<Rightarrow> fsst \<Rightarrow> (int \<times> fsst) result) option"

type_synonym devtab = "int \<Rightarrow> devsw"

text \<open>The copy loops; the offsets do not wrap because \<open>readi\<close> and \<open>writei\<close> refuse \<open>off + n < off\<close> first.\<close>

function readi_loop :: "nat \<Rightarrow> nat \<Rightarrow> nat \<Rightarrow> fsst \<Rightarrow> (u8 list \<times> fsst) result" where
  "readi_loop i off n s =
    (if n = 0 then Inr ([], s)
     else let m = min n (BSIZE - off mod BSIZE) in
       bind_r (bmap i (off div BSIZE) s) (\<lambda>(a, s1).
         bind_r (getblk (idev (icache s ! i)) a s1) (\<lambda>d.
           bind_r (readi_loop i (off + m) (n - m) s1) (\<lambda>(ds, s2). Inr (take m (drop (off mod BSIZE) d) @ ds, s2)))))"
  by pat_completeness auto
termination by (relation "measure (\<lambda>(i, off, n, s). n)") (auto simp: BSIZE_def)

definition readi :: "devtab \<Rightarrow> nat \<Rightarrow> u32 \<Rightarrow> u32 \<Rightarrow> fsst \<Rightarrow> (int \<times> u8 list \<times> fsst) result" where
  "readi dt i off n s =
    (let ip = icache s ! i in
     if itype ip = T_DEV then
       (if sint (imajor ip) < 0 \<or> sint (imajor ip) \<ge> NDEV then Inr (-1, [], s)
        else case dread (dt (sint (imajor ip))) of None \<Rightarrow> Inr (-1, [], s) | Some f \<Rightarrow> f i n s)
     else if off > isize ip \<or> off + n < off then Inr (-1, [], s)
     else let n1 = (if off + n > isize ip then isize ip - off else n) in
       bind_r (readi_loop i (unat off) (unat n1) s) (\<lambda>(ds, s1). Inr (sint n1, ds, s1)))"

function writei_loop :: "nat \<Rightarrow> u8 list \<Rightarrow> nat \<Rightarrow> nat \<Rightarrow> fsst \<Rightarrow> fsst result" where
  "writei_loop i src off n s =
    (if n = 0 then Inr s
     else let m = min n (BSIZE - off mod BSIZE) in
       bind_r (bmap i (off div BSIZE) s) (\<lambda>(a, s1).
         bind_r (getblk (idev (icache s ! i)) a s1) (\<lambda>d.
           bind_r (putblk (idev (icache s ! i)) a (take (off mod BSIZE) d @ take m src @ drop (off mod BSIZE + m) d) s1)
             (writei_loop i (drop m src) (off + m) (n - m)))))"
  by pat_completeness auto
termination by (relation "measure (\<lambda>(i, src, off, n, s). n)") (auto simp: BSIZE_def)

declare readi_loop.simps [simp del] writei_loop.simps [simp del]

definition writei :: "devtab \<Rightarrow> nat \<Rightarrow> u8 list \<Rightarrow> u32 \<Rightarrow> u32 \<Rightarrow> fsst \<Rightarrow> (int \<times> fsst) result" where
  "writei dt i src off n s =
    (let ip = icache s ! i in
     if itype ip = T_DEV then
       (if sint (imajor ip) < 0 \<or> sint (imajor ip) \<ge> NDEV then Inr (-1, s)
        else case dwrite (dt (sint (imajor ip))) of None \<Rightarrow> Inr (-1, s) | Some f \<Rightarrow> f i src n s)
     else if off > isize ip \<or> off + n < off then Inr (-1, s)
     else if off + n > of_nat (MAXFILE * BSIZE) then Inr (-1, s)
     else bind_r (writei_loop i src (unat off) (unat n) s) (\<lambda>s1.
       bind_r (if n > 0 \<and> off + n > isize (icache s1 ! i) then iupdate i (upd_inode i (\<lambda>ip. ip\<lparr>isize := off + n\<rparr>) s1) else Inr s1)
         (\<lambda>s2. Inr (sint n, s2))))"

end
