(* ===== verification/Dir.thy ===== *)
theory Dir
  imports Fs
begin

text \<open>
  Directories and path names (\<open>fs.c\<close> from \<open>namecmp\<close> on). A directory is a file of 16-byte entries; a path is the list
  of its bytes before the terminating NUL, a name is a \<open>DIRSIZ\<close>-byte array.
\<close>

definition DESIZE :: nat where "DESIZE = 16"

fun namecmp :: "u8 list \<Rightarrow> u8 list \<Rightarrow> int" where
  "namecmp (x # xs) (y # ys) = (if x = 0 \<or> x \<noteq> y then uint x - uint y else namecmp xs ys)"
| "namecmp _ _ = 0"

definition de_inum :: "u8 list \<Rightarrow> u16" where "de_inum de = get_half de 0"
definition de_name :: "u8 list \<Rightarrow> u8 list" where "de_name de = drop 2 de"

definition offsets :: "u32 \<Rightarrow> nat list" where
  "offsets sz = map (\<lambda>k. k * DESIZE) [0..<(unat sz + DESIZE - 1) div DESIZE]"

fun lookup_from :: "devtab \<Rightarrow> nat \<Rightarrow> u8 list \<Rightarrow> nat list \<Rightarrow> fsst \<Rightarrow> ((nat \<times> nat) option \<times> fsst) result" where
  "lookup_from dt dp name [] s = Inr (None, s)"
| "lookup_from dt dp name (off # offs) s =
    bind_r (readi dt dp (of_nat off) (of_nat DESIZE) s) (\<lambda>(r, de, s1).
      if r \<noteq> int DESIZE then Inl (Panic ''dirlookup read'')
      else if de_inum de = 0 then lookup_from dt dp name offs s1
      else if namecmp name (de_name de) = 0 then
        bind_r (iget (idev (icache s1 ! dp)) (ucast (de_inum de)) s1) (\<lambda>(i, s2). Inr (Some (i, off), s2))
      else lookup_from dt dp name offs s1)"

text \<open>The result pairs the inode with the offset of the entry (\<open>*poff\<close>).\<close>

definition dirlookup :: "devtab \<Rightarrow> nat \<Rightarrow> u8 list \<Rightarrow> fsst \<Rightarrow> ((nat \<times> nat) option \<times> fsst) result" where
  "dirlookup dt dp name s =
    (if itype (icache s ! dp) \<noteq> T_DIR then Inl (Panic ''dirlookup not DIR'')
     else lookup_from dt dp name (offsets (isize (icache s ! dp))) s)"

text \<open>The first free entry, or the offset behind the last one.\<close>

fun empty_from :: "devtab \<Rightarrow> nat \<Rightarrow> nat \<Rightarrow> nat list \<Rightarrow> fsst \<Rightarrow> (nat \<times> fsst) result" where
  "empty_from dt dp eod [] s = Inr (eod, s)"
| "empty_from dt dp eod (off # offs) s =
    bind_r (readi dt dp (of_nat off) (of_nat DESIZE) s) (\<lambda>(r, de, s1).
      if r \<noteq> int DESIZE then Inl (Panic ''dirlink read'')
      else if de_inum de = 0 then Inr (off, s1)
      else empty_from dt dp eod offs s1)"

definition name_pad :: "u8 list \<Rightarrow> u8 list" where
  "name_pad name = (let p = takeWhile (\<lambda>c. c \<noteq> 0) (take DIRSIZ name) in p @ replicate (DIRSIZ - length p) 0)"

definition mk_dirent :: "u8 list \<Rightarrow> u32 \<Rightarrow> u8 list" where
  "mk_dirent name n = put_half [0, 0] 0 (ucast n) @ name_pad name"

definition dirlink :: "int \<Rightarrow> devtab \<Rightarrow> nat \<Rightarrow> u8 list \<Rightarrow> u32 \<Rightarrow> fsst \<Rightarrow> (int \<times> fsst) result" where
  "dirlink pid dt dp name n s =
    bind_r (dirlookup dt dp name s) (\<lambda>(r, s1).
      case r of
        Some (i, _) \<Rightarrow> bind_r (iput pid i s1) (\<lambda>s2. Inr (-1, s2))
      | None \<Rightarrow>
        bind_r (empty_from dt dp (length (offsets (isize (icache s1 ! dp))) * DESIZE) (offsets (isize (icache s1 ! dp))) s1) (\<lambda>(off, s2).
          bind_r (writei dt dp (mk_dirent name n) (of_nat off) (of_nat DESIZE) s2) (\<lambda>(w, s3).
            if w \<noteq> int DESIZE then Inl (Panic ''dirlink'') else Inr (0, s3))))"

section \<open>Paths\<close>

definition slash :: u8 where "slash = 0x2F"

text \<open>
  \<open>skipelem\<close>: the path behind the first element, and the array \<open>name\<close> with that element: cut to \<open>DIRSIZ\<close> bytes,
  or ended by a NUL with the bytes behind it left as they were.
\<close>

definition skipelem :: "u8 list \<Rightarrow> u8 list \<Rightarrow> (u8 list \<times> u8 list) option" where
  "skipelem path name =
    (let p = dropWhile (\<lambda>c. c = slash) path in
     if p = [] then None
     else let e = takeWhile (\<lambda>c. c \<noteq> slash) p; q = dropWhile (\<lambda>c. c \<noteq> slash) p in
       Some (dropWhile (\<lambda>c. c = slash) q,
         if length e \<ge> DIRSIZ then take DIRSIZ e @ drop DIRSIZ name else e @ [0] @ drop (length e + 1) name))"

lemma skipelem_shorter: "skipelem path name = Some (rest, name') \<Longrightarrow> length rest < length path"
proof -
  assume a: "skipelem path name = Some (rest, name')"
  define p where "p = dropWhile (\<lambda>c. c = slash) path"
  have p: "p \<noteq> []" "length p \<le> length path" using a by (auto simp: skipelem_def p_def Let_def length_dropWhile_le split: if_splits)
  have "hd p \<noteq> slash" using p(1) hd_dropWhile[of "\<lambda>c. c = slash" path] by (auto simp: p_def)
  then have "length (dropWhile (\<lambda>c. c \<noteq> slash) p) < length p"
    using p(1) length_dropWhile_le[of _ "tl p"] by (cases p) (auto simp: le_imp_less_Suc)
  moreover have "rest = dropWhile (\<lambda>c. c = slash) (dropWhile (\<lambda>c. c \<noteq> slash) p)" using a by (auto simp: skipelem_def p_def Let_def split: if_splits)
  ultimately show ?thesis using p(2) length_dropWhile_le[of "\<lambda>c. c = slash" "dropWhile (\<lambda>c. c \<noteq> slash) p"] by simp
qed

function namex_loop :: "int \<Rightarrow> devtab \<Rightarrow> nat \<Rightarrow> u8 list \<Rightarrow> bool \<Rightarrow> u8 list \<Rightarrow> fsst \<Rightarrow> (nat option \<times> u8 list \<times> fsst) result" where
  "namex_loop pid dt i path par name s =
    (case skipelem path name of
       None \<Rightarrow> if par then bind_r (iput pid i s) (\<lambda>s1. Inr (None, name, s1)) else Inr (Some i, name, s)
     | Some (rest, name1) \<Rightarrow>
         bind_r (ilock pid i s) (\<lambda>s1.
           if itype (icache s1 ! i) \<noteq> T_DIR then bind_r (iunlockput pid i s1) (\<lambda>s2. Inr (None, name1, s2))
           else if par \<and> rest = [] then bind_r (iunlock pid i s1) (\<lambda>s2. Inr (Some i, name1, s2))
           else bind_r (dirlookup dt i name1 s1) (\<lambda>(r, s2).
             case r of
               None \<Rightarrow> bind_r (iunlockput pid i s2) (\<lambda>s3. Inr (None, name1, s3))
             | Some (nxt, _) \<Rightarrow> bind_r (iunlockput pid i s2) (namex_loop pid dt nxt rest par name1))))"
  by pat_completeness auto
termination by (relation "measure (\<lambda>(pid, dt, i, path, par, name, s). length path)") (auto intro: skipelem_shorter)

declare namex_loop.simps [simp del]

definition namex :: "int \<Rightarrow> devtab \<Rightarrow> nat \<Rightarrow> u8 list \<Rightarrow> bool \<Rightarrow> u8 list \<Rightarrow> fsst \<Rightarrow> (nat option \<times> u8 list \<times> fsst) result" where
  "namex pid dt cwd path par name s =
    bind_r (if path \<noteq> [] \<and> hd path = slash then iget ROOTDEV ROOTINO s else Inr (idup cwd s)) (\<lambda>(i, s1).
      namex_loop pid dt i path par name s1)"

definition namei :: "int \<Rightarrow> devtab \<Rightarrow> nat \<Rightarrow> u8 list \<Rightarrow> fsst \<Rightarrow> (nat option \<times> fsst) result" where
  "namei pid dt cwd path s = bind_r (namex pid dt cwd path False (replicate DIRSIZ 0) s) (\<lambda>(r, _, s1). Inr (r, s1))"

definition nameiparent :: "int \<Rightarrow> devtab \<Rightarrow> nat \<Rightarrow> u8 list \<Rightarrow> u8 list \<Rightarrow> fsst \<Rightarrow> (nat option \<times> u8 list \<times> fsst) result" where
  "nameiparent pid dt cwd path name s = namex pid dt cwd path True name s"

end
