(* ===== verification/Fs_Props.thy ===== *)
theory Fs_Props
  imports Dir
begin

text \<open>
  Correctness of the block allocator and of file contents: the bitmap, the map from file blocks to disk blocks with its
  indirect block, and the round trip of \<open>writei\<close> and \<open>readi\<close>.
\<close>

section \<open>Outcomes\<close>

text \<open>The two panics that a correct file system can still reach, and the outcomes of a call that may reach them.\<close>

definition fs_err :: "error \<Rightarrow> bool" where
  "fs_err e \<longleftrightarrow> e = Panic ''balloc: out of blocks'' \<or> e = Panic ''too big a transaction''"

definition may :: "'a result \<Rightarrow> ('a \<Rightarrow> bool) \<Rightarrow> bool" where
  "may r Q \<longleftrightarrow> (case r of Inl e \<Rightarrow> fs_err e | Inr x \<Rightarrow> Q x)"

lemma may_simps [simp]: "may (Inl e) Q \<longleftrightarrow> fs_err e" "may (Inr x) Q \<longleftrightarrow> Q x"
  by (simp_all add: may_def)

lemma may_bind: "may m P \<Longrightarrow> (\<And>x. P x \<Longrightarrow> may (f x) Q) \<Longrightarrow> may (bind_r m f) Q"
  by (cases m) auto

lemma may_mono: "may m P \<Longrightarrow> (\<And>x. P x \<Longrightarrow> Q x) \<Longrightarrow> may m Q"
  by (cases m) auto

lemma mayD: "may (Inr x) Q \<Longrightarrow> Q x" by simp

section \<open>The bitmap\<close>

lemma bit_free_iff: "bit_free d bi \<longleftrightarrow> \<not> bit (d ! (bi div 8)) (bi mod 8)"
  unfolding bit_free_def push_bit_eq_mult by (simp add: and_exp_eq_0_iff_not_bit)

lemma bit_or_mask: "n < 8 \<Longrightarrow> bit (or x (2 ^ n) :: u8) m \<longleftrightarrow> bit x m \<or> m = n"
  by (auto simp: bit_simps)

lemma bit_and_mask: "n < 8 \<Longrightarrow> bit (and x (not (2 ^ n)) :: u8) m \<longleftrightarrow> bit x m \<and> m \<noteq> n"
  using bit_imp_le_length[of x m] by (auto simp: bit_simps)

lemma div_mod_8_eq: "i div 8 = j div 8 \<Longrightarrow> i mod 8 = j mod 8 \<Longrightarrow> i = (j :: nat)"
  by (metis div_mult_mod_eq)

lemma bit_free_set:
  assumes "length d = BSIZE" "bi < 4096" "bj < 4096"
  shows "bit_free (d[bi div 8 := or (d ! (bi div 8)) (push_bit (bi mod 8) 1)]) bj \<longleftrightarrow> bit_free d bj \<and> bj \<noteq> bi"
proof (cases "bj div 8 = bi div 8")
  case True
  then have "bj = bi \<longleftrightarrow> bj mod 8 = bi mod 8" using div_mod_8_eq by blast
  moreover have "bi div 8 < length d" using assms by (simp add: BSIZE_def)
  ultimately show ?thesis by (simp add: bit_free_iff True bit_or_mask)
next
  case False
  then show ?thesis by (auto simp: bit_free_iff)
qed

lemma bit_free_clear:
  assumes "length d = BSIZE" "bi < 4096" "bj < 4096"
  shows "bit_free (d[bi div 8 := and (d ! (bi div 8)) (not (push_bit (bi mod 8) 1))]) bj \<longleftrightarrow> bit_free d bj \<or> bj = bi"
proof (cases "bj div 8 = bi div 8")
  case True
  then have "bj = bi \<longleftrightarrow> bj mod 8 = bi mod 8" using div_mod_8_eq by blast
  moreover have "bi div 8 < length d" using assms by (simp add: BSIZE_def)
  ultimately show ?thesis by (simp add: bit_free_iff True bit_and_mask)
next
  case False
  then show ?thesis by (auto simp: bit_free_iff)
qed

text \<open>
  A block is metadata when it is the boot block, the bitmap or an inode block. The file systems considered fit the disk
  (\<open>FSSIZE\<close> blocks, hence one bitmap block), and the bitmap marks the metadata as used.
\<close>

definition meta :: "fsst \<Rightarrow> u32 \<Rightarrow> bool" where
  "meta s b \<longleftrightarrow> b = 0 \<or> b = sb_bmapstart (sb s) \<or> (\<exists>n. n < sb_ninodes (sb s) \<and> b = IBLOCK n (sb s))"

definition used :: "fsst \<Rightarrow> u32 \<Rightarrow> u32 \<Rightarrow> bool" where
  "used s dev b \<longleftrightarrow> \<not> bit_free (blk s dev (sb_bmapstart (sb s))) (unat b)"

definition fs_ok :: "fsst \<Rightarrow> u32 \<Rightarrow> bool" where
  "fs_ok s dev \<longleftrightarrow> sb_size (sb s) \<le> FSSIZE \<and> ops s \<ge> 1 \<and> (\<forall>n. length (blk s dev n) = BSIZE) \<and>
     (\<forall>b. meta s b \<longrightarrow> used s dev b \<and> b < sb_size (sb s)) \<and>
     (\<forall>n < sb_ninodes (sb s). IBLOCK n (sb s) \<noteq> sb_bmapstart (sb s)) \<and>
     sb_bmapstart (sb s) \<notin> set (hold s) \<and> (\<forall>b \<in> set (hold s). used s dev b)"

lemma fs_okD:
  assumes "fs_ok s dev"
  shows "sb_size (sb s) \<le> FSSIZE" "ops s \<ge> 1" "length (blk s dev n) = BSIZE" "meta s b \<Longrightarrow> used s dev b" "meta s b \<Longrightarrow> b < sb_size (sb s)"
    "m < sb_ninodes (sb s) \<Longrightarrow> IBLOCK m (sb s) \<noteq> sb_bmapstart (sb s)" "sb_bmapstart (sb s) \<notin> set (hold s)" "b \<in> set (hold s) \<Longrightarrow> used s dev b"
  using assms by (auto simp: fs_ok_def)

lemma putblk_may:
  assumes "ops s \<ge> 1" "\<And>lg. Q (s\<lparr>blk := (blk s)(dev := (blk s dev)(n := d)), logged := lg\<rparr>)"
  shows "may (putblk dev n d s) Q"
  using assms by (auto simp: putblk_def fs_err_def)

lemma getblk_Inr: "n \<notin> set (hold s) \<Longrightarrow> n < FSSIZE \<Longrightarrow> getblk dev n s = Inr (blk s dev n)"
  by (simp add: getblk_def not_le)

lemma small_block: "fs_ok s dev \<Longrightarrow> b < sb_size (sb s) \<Longrightarrow> b < FSSIZE"
  using fs_okD(1)[of s dev] by (meson less_le_trans)

lemma unat_blockno: "b < FSSIZE \<Longrightarrow> unat b < 1000"
  by (simp add: FSSIZE_def word_less_nat_alt)

lemma BBLOCK_small: "b < 4096 \<Longrightarrow> BBLOCK b x = sb_bmapstart x"
  by (simp add: BBLOCK_def BPB_def div_eq_0_iff word_less_nat_alt word_arith_nat_div)

text \<open>What \<open>balloc\<close> does: a free block becomes used and zero, nothing but it and the bitmap changes.\<close>

definition allocated :: "u32 \<Rightarrow> fsst \<Rightarrow> u32 \<Rightarrow> fsst \<Rightarrow> bool" where
  "allocated dev s b t \<longleftrightarrow> \<not> used s dev b \<and> b < sb_size (sb s) \<and> (\<forall>x < FSSIZE. used t dev x \<longleftrightarrow> used s dev x \<or> x = b) \<and>
     blk t dev b = replicate BSIZE 0 \<and> (\<forall>x. x \<noteq> b \<longrightarrow> x \<noteq> sb_bmapstart (sb s) \<longrightarrow> blk t dev x = blk s dev x) \<and>
     (\<forall>d. d \<noteq> dev \<longrightarrow> blk t d = blk s d) \<and> sb t = sb s \<and> hold t = hold s \<and> ops t = ops s \<and> icache t = icache s \<and>
     (\<forall>n. length (blk t dev n) = BSIZE)"

lemma balloc_single: "sb_size (sb s) \<le> FSSIZE \<Longrightarrow> 0 < sb_size (sb s) \<Longrightarrow> balloc dev s = balloc_from dev [0] s"
proof -
  assume "sb_size (sb s) \<le> FSSIZE" "0 < sb_size (sb s)"
  then have "unat (sb_size (sb s)) \<le> 1000" "0 < unat (sb_size (sb s))" by (simp_all add: FSSIZE_def word_le_nat_alt word_less_nat_alt)
  then have "(unat (sb_size (sb s)) + BPB - 1) div BPB = 1" by (simp add: BPB_def)
  then show ?thesis by (simp add: balloc_def)
qed

lemma balloc_may:
  assumes ok: "fs_ok s dev"
  shows "may (balloc dev s) (\<lambda>(b, t). allocated dev s b t)"
proof -
  define bm where "bm = sb_bmapstart (sb s)"
  define d where "d = blk s dev bm"
  have m: "used s dev bm" "bm < sb_size (sb s)" using fs_okD(4,5)[OF ok, of bm] by (simp_all add: meta_def bm_def)
  have nz: "0 < sb_size (sb s)" using fs_okD(5)[OF ok, of 0] by (simp add: meta_def)
  have sz: "unat (sb_size (sb s)) \<le> 1000" using fs_okD(1)[OF ok] by (simp add: FSSIZE_def word_le_nat_alt)
  have g: "getblk dev bm s = Inr d" unfolding d_def by (rule getblk_Inr) (use fs_okD(7)[OF ok] small_block[OF ok m(2)] in \<open>simp_all add: bm_def\<close>)
  have ld: "length d = BSIZE" using fs_okD(3)[OF ok] by (simp add: d_def)
  have e: "balloc dev s = bind_r (getblk dev bm s) (\<lambda>d. case find (bit_free d) [0..<unat (sb_size (sb s))] of
        Some bi \<Rightarrow> bind_r (putblk dev bm (d[bi div 8 := or (d ! (bi div 8)) (push_bit (bi mod 8) 1)]) s) (\<lambda>s1.
            bind_r (bzero dev (of_nat bi) s1) (\<lambda>s2. Inr (of_nat bi, s2)))
      | None \<Rightarrow> Inl (Panic ''balloc: out of blocks''))"
    using sz by (simp add: balloc_single[OF fs_okD(1)[OF ok] nz] BBLOCK_small bm_def BPB_def min_def cong: option.case_cong)
  show ?thesis
  proof (cases "find (bit_free d) [0..<unat (sb_size (sb s))]")
    case None
    then show ?thesis by (simp add: e g fs_err_def)
  next
    case (Some bi)
    then have bi: "bit_free d bi" "bi < unat (sb_size (sb s))" by (auto simp: find_Some_iff)
    define b :: u32 where "b = of_nat bi"
    have ub: "unat b = bi" using bi(2) sz by (simp add: b_def unat_of_nat)
    have b: "\<not> used s dev b" "b < sb_size (sb s)" using bi by (simp_all add: used_def ub d_def bm_def word_less_nat_alt)
    have bbm: "b \<noteq> bm" using b(1) m(1) by auto
    have bh: "b \<notin> set (hold s)" using fs_okD(8)[OF ok, of b] b(1) by auto
    define d1 where "d1 = d[bi div 8 := or (d ! (bi div 8)) (push_bit (bi mod 8) 1)]"
    have u: "\<not> bit_free d1 (unat x) \<longleftrightarrow> used s dev x \<or> x = b" if "x < FSSIZE" for x
    proof -
      have "bit_free d1 (unat x) \<longleftrightarrow> bit_free d (unat x) \<and> unat x \<noteq> bi"
        unfolding d1_def by (rule bit_free_set[OF ld]) (use unat_blockno[OF that] bi(2) sz in simp_all)
      moreover have "unat x = bi \<longleftrightarrow> x = b" using ub by (metis word_unat_eq_iff)
      ultimately show ?thesis by (simp add: used_def d_def bm_def)
    qed
    have z: "may (bzero dev b (s\<lparr>blk := (blk s)(dev := (blk s dev)(bm := d1)), logged := lg\<rparr>)) (allocated dev s b)" for lg
      unfolding bzero_def
    proof (subst getblk_Inr)
      show "b < FSSIZE" by (rule small_block[OF ok b(2)])
    qed (use bh bbm b ok fs_okD(2,3)[OF ok] u ld in \<open>auto simp: allocated_def used_def[of "_\<lparr>logged := _\<rparr>"] bm_def d1_def fun_upd_apply intro!: putblk_may\<close>)
    have "may (putblk dev bm d1 s) (\<lambda>t. \<exists>lg. t = s\<lparr>blk := (blk s)(dev := (blk s dev)(bm := d1)), logged := lg\<rparr>)"
      by (rule putblk_may[OF fs_okD(2)[OF ok]]) blast
    then have "may (bind_r (putblk dev bm d1 s) (\<lambda>s1. bind_r (bzero dev b s1) (\<lambda>s2. Inr (b, s2)))) (\<lambda>(b, t). allocated dev s b t)"
      by (rule may_bind) (auto intro!: may_bind[OF z])
    then show ?thesis by (simp add: e g Some d1_def b_def)
  qed
qed

section \<open>The blocks of a file\<close>

definition ind :: "fsst \<Rightarrow> nat \<Rightarrow> u32" where "ind s i = iaddrs (icache s ! i) ! 12"

abbreviation fdev :: "fsst \<Rightarrow> nat \<Rightarrow> u32" where "fdev s i \<equiv> idev (icache s ! i)"

text \<open>The disk block of a file block (0 for a hole), the contents of a file block and the bytes of the file.\<close>

definition faddr :: "fsst \<Rightarrow> nat \<Rightarrow> nat \<Rightarrow> u32" where
  "faddr s i bn = (if bn < 12 then iaddrs (icache s ! i) ! bn
     else if ind s i = 0 then 0 else get_word (blk s (fdev s i) (ind s i)) (bn - 12))"

definition fblk :: "fsst \<Rightarrow> nat \<Rightarrow> nat \<Rightarrow> block" where
  "fblk s i bn = (if faddr s i bn = 0 then replicate BSIZE 0 else blk s (fdev s i) (faddr s i bn))"

definition fbyte :: "fsst \<Rightarrow> nat \<Rightarrow> nat \<Rightarrow> u8" where
  "fbyte s i k = fblk s i (k div BSIZE) ! (k mod BSIZE)"

definition owned :: "fsst \<Rightarrow> nat \<Rightarrow> u32 \<Rightarrow> bool" where
  "owned s i b \<longleftrightarrow> b \<noteq> 0 \<and> (b = ind s i \<or> (\<exists>bn < 140. faddr s i bn = b))"

text \<open>The blocks of a file are marked as used, lie outside the metadata, and no two of its addresses coincide.\<close>

definition file_ok :: "fsst \<Rightarrow> nat \<Rightarrow> bool" where
  "file_ok s i \<longleftrightarrow> fs_ok s (fdev s i) \<and> hold s = [] \<and> i < length (icache s) \<and> length (iaddrs (icache s ! i)) = 13 \<and>
     inum (icache s ! i) < sb_ninodes (sb s) \<and>
     (\<forall>b. owned s i b \<longrightarrow> used s (fdev s i) b \<and> b < sb_size (sb s) \<and> \<not> meta s b) \<and>
     (\<forall>bn < 140. \<forall>bm < 140. faddr s i bn \<noteq> 0 \<longrightarrow> faddr s i bn = faddr s i bm \<longrightarrow> bn = bm) \<and>
     (\<forall>bn < 140. faddr s i bn \<noteq> 0 \<longrightarrow> faddr s i bn \<noteq> ind s i)"

lemma file_okD:
  assumes "file_ok s i"
  shows "fs_ok s (fdev s i)" "hold s = []" "i < length (icache s)" "length (iaddrs (icache s ! i)) = 13" "inum (icache s ! i) < sb_ninodes (sb s)"
    "owned s i b \<Longrightarrow> used s (fdev s i) b" "owned s i b \<Longrightarrow> b < sb_size (sb s)" "owned s i b \<Longrightarrow> \<not> meta s b"
    "bn < 140 \<Longrightarrow> bm < 140 \<Longrightarrow> faddr s i bn \<noteq> 0 \<Longrightarrow> faddr s i bn = faddr s i bm \<Longrightarrow> bn = bm"
    "bn < 140 \<Longrightarrow> faddr s i bn \<noteq> 0 \<Longrightarrow> faddr s i bn \<noteq> ind s i"
  using assms unfolding file_ok_def by blast+

lemma owned_faddr: "bn < 140 \<Longrightarrow> faddr s i bn \<noteq> 0 \<Longrightarrow> owned s i (faddr s i bn)"
  by (auto simp: owned_def)

lemma owned_ind: "ind s i \<noteq> 0 \<Longrightarrow> owned s i (ind s i)"
  by (simp add: owned_def)

text \<open>What a change of a file leaves alone: the other inodes, the other devices, and every used block that is not its own.\<close>

definition frame :: "fsst \<Rightarrow> nat \<Rightarrow> fsst \<Rightarrow> bool" where
  "frame s i t \<longleftrightarrow> sb t = sb s \<and> ops t = ops s \<and> length (icache t) = length (icache s) \<and> (\<forall>j. j \<noteq> i \<longrightarrow> icache t ! j = icache s ! j) \<and>
     (\<exists>as sz. icache t ! i = (icache s ! i)\<lparr>iaddrs := as, isize := sz\<rparr>) \<and> (\<forall>d. d \<noteq> fdev s i \<longrightarrow> blk t d = blk s d) \<and>
     (\<forall>b < FSSIZE. used s (fdev s i) b \<longrightarrow> used t (fdev s i) b) \<and>
     (\<forall>b < FSSIZE. used s (fdev s i) b \<longrightarrow> b \<noteq> sb_bmapstart (sb s) \<longrightarrow> b \<noteq> IBLOCK (inum (icache s ! i)) (sb s) \<longrightarrow> \<not> owned s i b \<longrightarrow>
        blk t (fdev s i) b = blk s (fdev s i) b) \<and>
     (\<forall>b < FSSIZE. owned t i b \<longrightarrow> owned s i b \<or> \<not> used s (fdev s i) b) \<and>
     (\<forall>k < 140. faddr s i k \<noteq> 0 \<longrightarrow> faddr t i k = faddr s i k)"

lemma frame_inode: "frame s i t \<Longrightarrow> fdev t i = fdev s i \<and> inum (icache t ! i) = inum (icache s ! i) \<and> itype (icache t ! i) = itype (icache s ! i)"
  by (auto simp: frame_def)

lemma file_frame_refl: "frame s i s"
  by (auto simp: frame_def intro!: exI[of _ "iaddrs (icache s ! i)"] exI[of _ "isize (icache s ! i)"])

lemma file_frame_trans:
  assumes a: "frame s i t" and b: "frame t i u"
  shows "frame s i u"
proof -
  have d: "fdev t i = fdev s i" "inum (icache t ! i) = inum (icache s ! i)" "sb t = sb s" using frame_inode[OF a] a by (simp_all add: frame_def)
  show ?thesis unfolding frame_def
  proof (intro conjI)
    obtain as sz where "icache t ! i = (icache s ! i)\<lparr>iaddrs := as, isize := sz\<rparr>" using a unfolding frame_def by blast
    moreover obtain as' sz' where "icache u ! i = (icache t ! i)\<lparr>iaddrs := as', isize := sz'\<rparr>" using b unfolding frame_def by blast
    ultimately have "icache u ! i = (icache s ! i)\<lparr>iaddrs := as', isize := sz'\<rparr>" by simp
    then show "\<exists>as sz. icache u ! i = (icache s ! i)\<lparr>iaddrs := as, isize := sz\<rparr>" by blast
    show "\<forall>b < FSSIZE. used s (fdev s i) b \<longrightarrow> used u (fdev s i) b" using a b d unfolding frame_def by simp
    show "\<forall>b < FSSIZE. owned u i b \<longrightarrow> owned s i b \<or> \<not> used s (fdev s i) b" using a b d unfolding frame_def by metis
    show "\<forall>b < FSSIZE. used s (fdev s i) b \<longrightarrow> b \<noteq> sb_bmapstart (sb s) \<longrightarrow> b \<noteq> IBLOCK (inum (icache s ! i)) (sb s) \<longrightarrow> \<not> owned s i b \<longrightarrow>
        blk u (fdev s i) b = blk s (fdev s i) b" using a b d unfolding frame_def by metis
  qed (use a b d in \<open>simp_all add: frame_def\<close>)
qed

text \<open>A step after which the file has one more block, zero, at \<open>bn\<close>.\<close>

lemma new_block:
  assumes ok: "file_ok s i" and bn: "bn < 140" and hole: "faddr s i bn = 0"
    and al: "allocated (fdev s i) s a u" and t: "sb t = sb s" "ops t = ops s" "hold t = []" "length (icache t) = length (icache s)"
      "\<And>j. j \<noteq> i \<Longrightarrow> icache t ! j = icache s ! j" "icache t ! i = (icache s ! i)\<lparr>iaddrs := as\<rparr>" "length as = 13"
    and f: "\<And>k. k < 140 \<Longrightarrow> faddr t i k = (if k = bn then a else faddr s i k)" and ind: "ind t i = ind s i"
    and b: "\<And>x. x \<noteq> ind s i \<or> ind s i = 0 \<Longrightarrow> blk t (fdev s i) x = blk u (fdev s i) x" "length (blk t (fdev s i) (ind s i)) = BSIZE"
      "\<And>d. d \<noteq> fdev s i \<Longrightarrow> blk t d = blk u d"
  shows "file_ok t i \<and> a \<noteq> 0 \<and> (\<forall>k < 140. fblk t i k = fblk s i k) \<and> frame s i t"
proof -
  note ok' = file_okD[OF ok]
  have d: "fdev t i = fdev s i" "inum (icache t ! i) = inum (icache s ! i)" by (simp_all add: t(6))
  have bmi: "sb_bmapstart (sb s) \<noteq> ind s i \<or> ind s i = 0" using ok'(8)[of "ind s i"] owned_ind[of s i] meta_def[of s "ind s i"] by metis
  have ua: "used t (fdev s i) x \<longleftrightarrow> used s (fdev s i) x \<or> x = a" if "x < FSSIZE" for x
  proof -
    have "used u (fdev s i) x \<longleftrightarrow> used s (fdev s i) x \<or> x = a" "sb u = sb s" using al that by (simp_all add: allocated_def)
    then show ?thesis using b(1)[OF bmi] t(1) by (simp add: used_def)
  qed
  have a: "\<not> used s (fdev s i) a" "a < sb_size (sb s)" using al by (simp_all add: allocated_def)
  have m: "meta t x \<longleftrightarrow> meta s x" for x by (simp add: meta_def t(1))
  have na: "\<not> meta s a" using a(1) fs_okD(4)[OF ok'(1)] by blast
  have a0: "a \<noteq> 0" using na by (simp add: meta_def)
  have own: "owned t i x \<longleftrightarrow> owned s i x \<or> x = a" for x
  proof
    assume "owned t i x"
    then show "owned s i x \<or> x = a" by (auto simp: owned_def ind f split: if_splits)
  next
    assume "owned s i x \<or> x = a"
    then show "owned t i x" using hole a0 bn f[OF bn] by (auto simp: owned_def ind f)
  qed
  have nown: "\<not> owned s i a" using ok'(6) a(1) by blast
  have fsm: "meta s x \<Longrightarrow> x < FSSIZE" for x using small_block[OF ok'(1) fs_okD(5)[OF ok'(1)]] by blast
  have len: "length (blk t (fdev s i) x) = BSIZE" for x
    using al b by (cases "x = ind s i \<and> ind s i \<noteq> 0") (auto simp: allocated_def)
  have "fs_ok t (fdev s i)"
    unfolding fs_ok_def using t(1-3) len m fs_okD[OF ok'(1)] ua fsm by (simp add: fs_ok_def)
  moreover have "used t (fdev s i) x \<and> x < sb_size (sb s) \<and> \<not> meta s x" if "owned t i x" for x
  proof -
    have "x < sb_size (sb s)" using own that ok'(7) a(2) by blast
    then show ?thesis using own that ua[OF small_block[OF ok'(1)]] ok'(6,8) na by blast
  qed
  moreover have "k = l" if "k < 140" "l < 140" "faddr t i k \<noteq> 0" "faddr t i k = faddr t i l" for k l
    using that f ok'(9)[of k l] nown owned_faddr[of k s i] owned_faddr[of l s i] a0 by (auto split: if_splits)
  moreover have "faddr t i k \<noteq> ind t i" if "k < 140" "faddr t i k \<noteq> 0" for k
    using that f ok'(10)[of k] nown owned_ind[of s i] a0 ind by (auto split: if_splits)
  ultimately have 1: "file_ok t i" unfolding file_ok_def using d t m ok'(3,5) by simp
  have bl: "blk t (fdev s i) x = blk s (fdev s i) x" if "x \<noteq> ind s i \<or> ind s i = 0" "x \<noteq> a" "x \<noteq> sb_bmapstart (sb s)" for x
    using al b(1)[OF that(1)] that by (simp add: allocated_def)
  have 2: "fblk t i k = fblk s i k" if k: "k < 140" for k
  proof (cases "k = bn")
    case True
    have "a \<noteq> ind s i \<or> ind s i = 0" using nown owned_ind[of s i] by auto
    then have "blk t (fdev s i) a = replicate BSIZE 0" using b(1)[of a] al by (simp add: allocated_def)
    then show ?thesis using True hole a0 f[OF bn] d by (simp add: fblk_def)
  next
    case False
    show ?thesis
    proof (cases "faddr s i k = 0")
      case False
      then have o: "owned s i (faddr s i k)" by (rule owned_faddr[OF k])
      have "faddr s i k \<noteq> sb_bmapstart (sb s)" using ok'(8)[OF o] by (auto simp: meta_def)
      moreover have "faddr s i k \<noteq> a" using o nown by auto
      ultimately have "blk t (fdev s i) (faddr s i k) = blk s (fdev s i) (faddr s i k)" using bl ok'(10)[OF k False] by blast
      then show ?thesis using \<open>k \<noteq> bn\<close> d k False by (simp add: fblk_def f)
    qed (use \<open>k \<noteq> bn\<close> k f in \<open>simp add: fblk_def\<close>)
  qed
  have "frame s i t" unfolding frame_def
  proof (intro conjI)
    show "\<exists>as sz. icache t ! i = (icache s ! i)\<lparr>iaddrs := as, isize := sz\<rparr>"
      using t(6) by (intro exI[of _ as] exI[of _ "isize (icache s ! i)"]) simp
    show "\<forall>d. d \<noteq> fdev s i \<longrightarrow> blk t d = blk s d" using al b(3) by (simp add: allocated_def)
    show "\<forall>b < FSSIZE. used s (fdev s i) b \<longrightarrow> used t (fdev s i) b" using ua by blast
    show "\<forall>b < FSSIZE. owned t i b \<longrightarrow> owned s i b \<or> \<not> used s (fdev s i) b" using own a(1) by blast
    show "\<forall>b < FSSIZE. used s (fdev s i) b \<longrightarrow> b \<noteq> sb_bmapstart (sb s) \<longrightarrow> b \<noteq> IBLOCK (inum (icache s ! i)) (sb s) \<longrightarrow> \<not> owned s i b \<longrightarrow>
        blk t (fdev s i) b = blk s (fdev s i) b" using bl a(1) owned_ind[of s i] by metis
    show "\<forall>k < 140. faddr s i k \<noteq> 0 \<longrightarrow> faddr t i k = faddr s i k" using f hole by simp
  qed (use t in auto)
  then show ?thesis using 1 2 a0 by blast
qed

lemma get_word_zero: "n < 128 \<Longrightarrow> get_word (replicate BSIZE 0) n = 0"
  by (simp add: get_word_def BSIZE_def)

text \<open>A step after which the file has an indirect block, still without entries.\<close>

lemma new_ind:
  assumes ok: "file_ok s i" and hole: "ind s i = 0" and al: "allocated (fdev s i) s a u"
  defines "t \<equiv> upd_inode i (\<lambda>ip. ip\<lparr>iaddrs := (iaddrs ip)[12 := a]\<rparr>) u"
  shows "file_ok t i \<and> a \<noteq> 0 \<and> ind t i = a \<and> (\<forall>k < 140. faddr t i k = faddr s i k) \<and> (\<forall>k < 140. fblk t i k = fblk s i k) \<and> frame s i t"
proof -
  note ok' = file_okD[OF ok]
  have u: "sb u = sb s" "hold u = hold s" "ops u = ops s" "icache u = icache s" using al by (simp_all add: allocated_def)
  have t: "icache t ! i = (icache s ! i)\<lparr>iaddrs := (iaddrs (icache s ! i))[12 := a]\<rparr>" "blk t = blk u" "sb t = sb s" "hold t = hold s" "ops t = ops s"
    "length (icache t) = length (icache s)" "\<And>j. j \<noteq> i \<Longrightarrow> icache t ! j = icache s ! j"
    using u ok'(3) by (simp_all add: t_def upd_inode_def)
  have d: "fdev t i = fdev s i" "inum (icache t ! i) = inum (icache s ! i)" by (simp_all add: t(1))
  have a: "\<not> used s (fdev s i) a" "a < sb_size (sb s)" using al by (simp_all add: allocated_def)
  have na: "\<not> meta s a" using a(1) fs_okD(4)[OF ok'(1)] by blast
  have a0: "a \<noteq> 0" using na by (simp add: meta_def)
  have m: "meta t x \<longleftrightarrow> meta s x" for x by (simp add: meta_def t)
  have it: "ind t i = a" using ok'(4) by (simp add: ind_def t(1))
  have z: "blk t (fdev s i) a = replicate BSIZE 0" using al by (simp add: allocated_def t(2))
  have f: "faddr t i k = faddr s i k" if "k < 140" for k
    using that hole z a0 d it by (simp add: faddr_def t(1) get_word_zero)
  have ua: "used t (fdev s i) x \<longleftrightarrow> used s (fdev s i) x \<or> x = a" if "x < FSSIZE" for x
    using al that u(1) by (simp add: used_def t allocated_def)
  have own: "owned t i x \<longleftrightarrow> owned s i x \<or> x = a" for x using a0 hole it f by (auto simp: owned_def)
  have nown: "\<not> owned s i a" using ok'(6) a(1) by blast
  have fsm: "meta s x \<Longrightarrow> x < FSSIZE" for x using small_block[OF ok'(1) fs_okD(5)[OF ok'(1)]] by blast
  have len: "length (blk t (fdev s i) x) = BSIZE" for x using al by (simp add: t(2) allocated_def)
  have "fs_ok t (fdev s i)"
    unfolding fs_ok_def using t len m fs_okD[OF ok'(1)] ua fsm ok'(2) by (simp add: fs_ok_def)
  moreover have "used t (fdev s i) x \<and> x < sb_size (sb s) \<and> \<not> meta s x" if "owned t i x" for x
  proof -
    have "x < sb_size (sb s)" using own that ok'(7) a(2) by blast
    then show ?thesis using own that ua[OF small_block[OF ok'(1)]] ok'(6,8) na by blast
  qed
  moreover have "faddr t i k \<noteq> ind t i" if "k < 140" "faddr t i k \<noteq> 0" for k
    using that f owned_faddr[of k s i] nown it by auto
  ultimately have 1: "file_ok t i" unfolding file_ok_def using d t m ok'(2-5,9) f by simp
  have bl: "blk t (fdev s i) x = blk s (fdev s i) x" if "x \<noteq> a" "x \<noteq> sb_bmapstart (sb s)" for x
    using al that by (simp add: allocated_def t(2))
  have 2: "fblk t i k = fblk s i k" if k: "k < 140" for k
  proof (cases "faddr s i k = 0")
    case False
    then have o: "owned s i (faddr s i k)" by (rule owned_faddr[OF k])
    have "faddr s i k \<noteq> sb_bmapstart (sb s)" using ok'(8)[OF o] by (auto simp: meta_def)
    then have "blk t (fdev s i) (faddr s i k) = blk s (fdev s i) (faddr s i k)" using bl o nown by metis
    then show ?thesis using d k False by (simp add: fblk_def f)
  qed (use k f in \<open>simp add: fblk_def\<close>)
  have "frame s i t" unfolding frame_def
  proof (intro conjI)
    show "\<exists>as sz. icache t ! i = (icache s ! i)\<lparr>iaddrs := as, isize := sz\<rparr>"
      using t(1) by (intro exI[of _ "(iaddrs (icache s ! i))[12 := a]"] exI[of _ "isize (icache s ! i)"]) simp
    show "\<forall>d. d \<noteq> fdev s i \<longrightarrow> blk t d = blk s d" using al by (simp add: allocated_def t(2))
    show "\<forall>b < FSSIZE. used s (fdev s i) b \<longrightarrow> used t (fdev s i) b" using ua by blast
    show "\<forall>b < FSSIZE. owned t i b \<longrightarrow> owned s i b \<or> \<not> used s (fdev s i) b" using own a(1) by blast
    show "\<forall>b < FSSIZE. used s (fdev s i) b \<longrightarrow> b \<noteq> sb_bmapstart (sb s) \<longrightarrow> b \<noteq> IBLOCK (inum (icache s ! i)) (sb s) \<longrightarrow> \<not> owned s i b \<longrightarrow>
        blk t (fdev s i) b = blk s (fdev s i) b" using bl a(1) by metis
    show "\<forall>k < 140. faddr s i k \<noteq> 0 \<longrightarrow> faddr t i k = faddr s i k" using f by simp
  qed (use t in auto)
  then show ?thesis using 1 2 a0 it f by blast
qed

definition mapped :: "fsst \<Rightarrow> nat \<Rightarrow> nat \<Rightarrow> u32 \<Rightarrow> fsst \<Rightarrow> bool" where
  "mapped s i bn a t \<longleftrightarrow> file_ok t i \<and> faddr t i bn = a \<and> a \<noteq> 0 \<and> (\<forall>k < 140. fblk t i k = fblk s i k) \<and> frame s i t \<and>
     isize (icache t ! i) = isize (icache s ! i)"

lemma mapped_refl: "file_ok s i \<Longrightarrow> faddr s i bn \<noteq> 0 \<Longrightarrow> mapped s i bn (faddr s i bn) s"
  by (simp add: mapped_def file_frame_refl)

lemma mapped_trans:
  "mapped t i bn a u \<Longrightarrow> (\<forall>k < 140. fblk t i k = fblk s i k) \<Longrightarrow> frame s i t \<Longrightarrow> isize (icache t ! i) = isize (icache s ! i) \<Longrightarrow> mapped s i bn a u"
  using file_frame_trans[of s i t u] by (simp add: mapped_def)

lemma bmap_direct:
  assumes ok: "file_ok s i" and bn: "bn < 12"
  shows "may (bmap i bn s) (\<lambda>(a, t). mapped s i bn a t)"
proof (cases "faddr s i bn = 0")
  case False
  then show ?thesis using ok bn mapped_refl[OF ok False] by (simp add: bmap_def NDIRECT_def faddr_def Let_def)
next
  case True
  note ok' = file_okD[OF ok]
  have m: "mapped s i bn a (upd_inode i (\<lambda>ip. ip\<lparr>iaddrs := (iaddrs ip)[bn := a]\<rparr>) u)" if al: "allocated (fdev s i) s a u" for a u
  proof -
    define t where "t = upd_inode i (\<lambda>ip. ip\<lparr>iaddrs := (iaddrs ip)[bn := a]\<rparr>) u"
    have u: "sb u = sb s" "hold u = []" "ops u = ops s" "icache u = icache s" using al ok'(2) by (simp_all add: allocated_def)
    have t: "icache t ! i = (icache s ! i)\<lparr>iaddrs := (iaddrs (icache s ! i))[bn := a]\<rparr>" "blk t = blk u" "sb t = sb s" "hold t = []" "ops t = ops s"
      "length (icache t) = length (icache s)" "\<And>j. j \<noteq> i \<Longrightarrow> icache t ! j = icache s ! j"
      using u ok'(3) by (simp_all add: t_def upd_inode_def)
    have it: "ind t i = ind s i" using bn by (simp add: ind_def t(1))
    have nown: "\<not> owned s i a" using ok'(6) al unfolding allocated_def by blast
    have ib: "blk u (fdev s i) (ind s i) = blk s (fdev s i) (ind s i)" if "ind s i \<noteq> 0"
    proof -
      have o: "owned s i (ind s i)" by (rule owned_ind[OF that])
      have "ind s i \<noteq> sb_bmapstart (sb s)" using ok'(8)[OF o] by (auto simp: meta_def)
      moreover have "ind s i \<noteq> a" using o nown by auto
      ultimately show ?thesis using al by (simp add: allocated_def)
    qed
    have f: "faddr t i k = (if k = bn then a else faddr s i k)" for k
      using bn ok'(4) it ib by (simp add: faddr_def t(1,2))
    have "file_ok t i \<and> a \<noteq> 0 \<and> (\<forall>k < 140. fblk t i k = fblk s i k) \<and> frame s i t"
      by (rule new_block[OF ok _ True al t(3,5,4,6,7,1) _ f it]) (use bn ok'(4) al in \<open>simp_all add: t(2) allocated_def\<close>)
    then show ?thesis using f[of bn] t(1) by (simp add: mapped_def t_def[symmetric])
  qed
  have "may (bind_r (balloc (fdev s i) s) (\<lambda>(addr, s1). Inr (addr, upd_inode i (\<lambda>ip. ip\<lparr>iaddrs := (iaddrs ip)[bn := addr]\<rparr>) s1)))
    (\<lambda>(a, t). mapped s i bn a t)"
    by (rule may_bind[OF balloc_may[OF ok'(1)]]) (auto simp: m)
  then show ?thesis using True bn by (simp add: bmap_def NDIRECT_def faddr_def Let_def)
qed

lemma bmap_second:
  assumes ok: "file_ok s i" and bn: "12 \<le> bn" "bn < 140" and i0: "ind s i \<noteq> 0"
  shows "may (bind_r (getblk (fdev s i) (ind s i) s) (\<lambda>a.
           if get_word a (bn - 12) = 0 then
             bind_r (balloc (fdev s i) (s\<lparr>hold := ind s i # hold s\<rparr>)) (\<lambda>(addr, s2).
               bind_r (putblk (fdev s i) (ind s i) (put_word (blk s2 (fdev s i) (ind s i)) (bn - 12) addr) s2) (\<lambda>s3. Inr (addr, s3\<lparr>hold := hold s\<rparr>)))
           else Inr (get_word a (bn - 12), s))) (\<lambda>(a, t). mapped s i bn a t)"
proof -
  note ok' = file_okD[OF ok]
  have o: "owned s i (ind s i)" by (rule owned_ind[OF i0])
  have im: "\<not> meta s (ind s i)" "used s (fdev s i) (ind s i)" "ind s i \<noteq> sb_bmapstart (sb s)" using ok'(6,8)[OF o] by (auto simp: meta_def)
  have g: "getblk (fdev s i) (ind s i) s = Inr (blk s (fdev s i) (ind s i))"
    by (rule getblk_Inr) (use ok'(2) small_block[OF ok'(1) ok'(7)[OF o]] in simp_all)
  have fa: "faddr s i bn = get_word (blk s (fdev s i) (ind s i)) (bn - 12)" using bn i0 by (simp add: faddr_def)
  show ?thesis
  proof (cases "faddr s i bn = 0")
    case False
    then show ?thesis using mapped_refl[OF ok False] by (simp add: g fa)
  next
    case True
    define h where "h = s\<lparr>hold := ind s i # hold s\<rparr>"
    have h: "fs_ok h (fdev s i)" using ok'(1) im by (simp add: fs_ok_def h_def used_def meta_def)
    have m: "mapped s i bn a (u\<lparr>blk := (blk u)(fdev s i := (blk u (fdev s i))(ind s i := put_word (blk u (fdev s i) (ind s i)) (bn - 12) a)), logged := lg, hold := hold s\<rparr>)"
      if al: "allocated (fdev s i) h a u" for a u lg
    proof -
      define t where "t = u\<lparr>blk := (blk u)(fdev s i := (blk u (fdev s i))(ind s i := put_word (blk u (fdev s i) (ind s i)) (bn - 12) a)), logged := lg, hold := hold s\<rparr>"
      have al': "allocated (fdev s i) s a (u\<lparr>hold := hold s\<rparr>)"
      proof -
        have "used h = used s" "used (u\<lparr>hold := hold s\<rparr>) = used u" by (simp_all add: used_def fun_eq_iff h_def)
        then show ?thesis using al by (simp add: allocated_def h_def)
      qed
      have t: "icache t = icache s" "sb t = sb s" "hold t = []" "ops t = ops s" using al ok'(2) by (simp_all add: t_def allocated_def h_def)
      have nown: "\<not> owned s i a" using ok'(6) al' unfolding allocated_def by blast
      have "ind s i \<noteq> a" using o nown by auto
      then have ib: "blk u (fdev s i) (ind s i) = blk s (fdev s i) (ind s i)" using al' im(3) by (simp add: allocated_def)
      have l: "length (blk s (fdev s i) (ind s i)) = BSIZE" by (rule fs_okD(3)[OF ok'(1)])
      have it: "ind t i = ind s i" by (simp add: ind_def t(1))
      have f: "faddr t i k = (if k = bn then a else faddr s i k)" if "k < 140" for k
      proof -
        have "get_word (put_word (blk s (fdev s i) (ind s i)) (bn - 12) a) (k - 12) = (if k - 12 = bn - 12 then a else get_word (blk s (fdev s i) (ind s i)) (k - 12))"
          using bn l by (subst get_put_word) (simp_all add: BSIZE_def)
        then show ?thesis using bn it i0 ib that t(1) by (auto simp: faddr_def t_def[symmetric]) (auto simp: t_def)
      qed
      have "file_ok t i \<and> a \<noteq> 0 \<and> (\<forall>k < 140. fblk t i k = fblk s i k) \<and> frame s i t"
        by (rule new_block[OF ok bn(2) True al' t(2,4,3) _ _ _ ok'(4) f it]) (use i0 ib l in \<open>simp_all add: t(1), simp_all add: t_def\<close>)
      then show ?thesis using f[OF bn(2)] t(1) by (simp add: mapped_def t_def[symmetric])
    qed
    have "may (bind_r (balloc (fdev s i) h) (\<lambda>(addr, s2).
             bind_r (putblk (fdev s i) (ind s i) (put_word (blk s2 (fdev s i) (ind s i)) (bn - 12) addr) s2) (\<lambda>s3. Inr (addr, s3\<lparr>hold := hold s\<rparr>))))
       (\<lambda>(a, t). mapped s i bn a t)"
    proof (rule may_bind[OF balloc_may[OF h]], clarify)
      fix a u assume al: "allocated (fdev s i) h a u"
      then have "ops u \<ge> 1" using fs_okD(2)[OF h] by (simp add: allocated_def)
      then have "may (putblk (fdev s i) (ind s i) (put_word (blk u (fdev s i) (ind s i)) (bn - 12) a) u) (\<lambda>t. mapped s i bn a (t\<lparr>hold := hold s\<rparr>))"
        by (rule putblk_may) (use m[OF al] in simp)
      then show "may (bind_r (putblk (fdev s i) (ind s i) (put_word (blk u (fdev s i) (ind s i)) (bn - 12) a) u) (\<lambda>s3. Inr (a, s3\<lparr>hold := hold s\<rparr>)))
        (\<lambda>(a, t). mapped s i bn a t)"
        by (rule may_bind) simp
    qed
    then show ?thesis using True by (simp add: g fa h_def)
  qed
qed

lemma bmap_may:
  assumes ok: "file_ok s i" and bn: "bn < 140"
  shows "may (bmap i bn s) (\<lambda>(a, t). mapped s i bn a t)"
proof (cases "bn < 12")
  case True
  then show ?thesis by (rule bmap_direct[OF ok])
next
  case False
  note ok' = file_okD[OF ok]
  define st where "st = (if ind s i = 0 then
      bind_r (balloc (fdev s i) s) (\<lambda>(addr, s1). Inr (addr, upd_inode i (\<lambda>ip. ip\<lparr>iaddrs := (iaddrs ip)[NDIRECT := addr]\<rparr>) s1))
    else Inr (ind s i, s))"
  have st: "may st (\<lambda>(b, t). file_ok t i \<and> b \<noteq> 0 \<and> ind t i = b \<and> (\<forall>k < 140. fblk t i k = fblk s i k) \<and> frame s i t \<and>
     isize (icache t ! i) = isize (icache s ! i))"
  proof (cases "ind s i = 0")
    case True
    have "isize (icache (upd_inode i (\<lambda>ip. ip\<lparr>iaddrs := (iaddrs ip)[12 := a]\<rparr>) u) ! i) = isize (icache s ! i)" if "allocated (fdev s i) s a u" for a u
      using that ok'(3) by (simp add: upd_inode_def allocated_def)
    then have "may (bind_r (balloc (fdev s i) s) (\<lambda>(addr, s1). Inr (addr, upd_inode i (\<lambda>ip. ip\<lparr>iaddrs := (iaddrs ip)[NDIRECT := addr]\<rparr>) s1)))
      (\<lambda>(b, t). file_ok t i \<and> b \<noteq> 0 \<and> ind t i = b \<and> (\<forall>k < 140. fblk t i k = fblk s i k) \<and> frame s i t \<and> isize (icache t ! i) = isize (icache s ! i))"
      using new_ind[OF ok True] by (intro may_bind[OF balloc_may[OF ok'(1)]]) (auto simp: NDIRECT_def)
    then show ?thesis using True by (simp add: st_def)
  qed (use ok in \<open>simp add: st_def file_frame_refl\<close>)
  have "bmap i bn s = bind_r st (\<lambda>(ind, s1). bind_r (getblk (fdev s i) ind s1) (\<lambda>a.
           if get_word a (bn - 12) = 0 then
             bind_r (balloc (fdev s i) (s1\<lparr>hold := ind # hold s1\<rparr>)) (\<lambda>(addr, s2).
               bind_r (putblk (fdev s i) ind (put_word (blk s2 (fdev s i) ind) (bn - 12) addr) s2) (\<lambda>s3. Inr (addr, s3\<lparr>hold := hold s1\<rparr>)))
           else Inr (get_word a (bn - 12), s1)))"
  proof -
    have "bn - 12 < 128" using bn by simp
    then show ?thesis using False by (simp add: bmap_def Let_def NDIRECT_def NINDIRECT_def st_def ind_def cong: if_cong)
  qed
  moreover have "may (bind_r (getblk (fdev s i) b t) (\<lambda>a.
           if get_word a (bn - 12) = 0 then
             bind_r (balloc (fdev s i) (t\<lparr>hold := b # hold t\<rparr>)) (\<lambda>(addr, s2).
               bind_r (putblk (fdev s i) b (put_word (blk s2 (fdev s i) b) (bn - 12) addr) s2) (\<lambda>s3. Inr (addr, s3\<lparr>hold := hold t\<rparr>)))
           else Inr (get_word a (bn - 12), t))) (\<lambda>(a, t). mapped s i bn a t)"
    if "file_ok t i" "b \<noteq> 0" "ind t i = b" "\<forall>k < 140. fblk t i k = fblk s i k" "frame s i t" "isize (icache t ! i) = isize (icache s ! i)" for b t
  proof -
    have "mapped t i bn a u \<Longrightarrow> mapped s i bn a u" for a u using mapped_trans that(4-6) by blast
    moreover have "fdev t i = fdev s i" using frame_inode[OF that(5)] by simp
    note bmap_second[of t i bn, unfolded this that(3)]
    ultimately show ?thesis using that(1,2) False bn by (auto elim!: may_mono)
  qed
  ultimately show ?thesis by (simp only:) (rule may_bind[OF st], auto)
qed

section \<open>Reading and writing\<close>

text \<open>A change of one allocated block of the file.\<close>

lemma put_file_block:
  fixes s :: fsst and lg :: "u32 list"
  assumes ok: "file_ok s i" and bn: "bn < 140" and a: "faddr s i bn \<noteq> 0" and l: "length d = BSIZE"
  defines "t \<equiv> s\<lparr>blk := (blk s)(fdev s i := (blk s (fdev s i))(faddr s i bn := d)), logged := lg\<rparr>"
  shows "file_ok t i" "\<And>k. k < 140 \<Longrightarrow> fblk t i k = (if k = bn then d else fblk s i k)" "\<And>k. k < 140 \<Longrightarrow> faddr t i k = faddr s i k" "frame s i t"
proof -
  note ok' = file_okD[OF ok]
  have t: "icache t = icache s" "sb t = sb s" "hold t = hold s" "ops t = ops s" by (simp_all add: t_def)
  have o: "owned s i (faddr s i bn)" by (rule owned_faddr[OF bn a])
  have m: "meta t x \<longleftrightarrow> meta s x" for x by (simp add: meta_def t)
  have nm: "faddr s i bn \<noteq> sb_bmapstart (sb s)" using ok'(8)[OF o] by (auto simp: meta_def)
  have u: "used t = used s" using nm by (auto simp: used_def t_def fun_eq_iff)
  have it: "ind t i = ind s i" by (simp add: ind_def t)
  show f: "faddr t i k = faddr s i k" if "k < 140" for k
  proof -
    have "blk t (fdev s i) (ind s i) = blk s (fdev s i) (ind s i)" using ok'(10)[OF bn a] by (simp add: t_def)
    then show ?thesis using it by (simp add: faddr_def t(1))
  qed
  have own: "owned t i = owned s i" using f it by (auto simp: owned_def fun_eq_iff)
  have "fs_ok t (fdev s i)" using ok'(1) l by (simp add: fs_ok_def t m u) (simp add: t_def)
  then show "file_ok t i" unfolding file_ok_def using t ok'(2-10) f it own m u by simp
  show "fblk t i k = (if k = bn then d else fblk s i k)" if "k < 140" for k
  proof (cases "k = bn")
    case False
    then have "faddr s i k \<noteq> faddr s i bn" using ok'(9)[OF bn that a] by auto
    then show ?thesis using False that by (simp add: fblk_def f) (simp add: t_def)
  qed (use a that in \<open>simp add: fblk_def f, simp add: t_def\<close>)
  show "frame s i t" unfolding frame_def
  proof (intro conjI)
    show "\<exists>as sz. icache t ! i = (icache s ! i)\<lparr>iaddrs := as, isize := sz\<rparr>"
      by (rule exI[of _ "iaddrs (icache s ! i)"], rule exI[of _ "isize (icache s ! i)"]) (simp add: t)
    show "\<forall>k < 140. faddr s i k \<noteq> 0 \<longrightarrow> faddr t i k = faddr s i k" using f by simp
  qed (use o u own t in \<open>auto simp: t_def\<close>)
qed

text \<open>The byte \<open>k\<close> of the file after the bytes \<open>src\<close> were stored at \<open>off\<close>.\<close>

lemma fbyte_splice:
  assumes "length d = BSIZE" "bn = off div BSIZE" "m \<le> BSIZE - off mod BSIZE" "m \<le> length src" "k div BSIZE = bn"
  shows "(take (off mod BSIZE) d @ take m src @ drop (off mod BSIZE + m) d) ! (k mod BSIZE) =
    (if off \<le> k \<and> k < off + m then src ! (k - off) else d ! (k mod BSIZE))"
proof -
  have lm: "off mod BSIZE < BSIZE" "k mod BSIZE < BSIZE" by (simp_all add: BSIZE_def)
  have "k = bn * BSIZE + k mod BSIZE" "off = bn * BSIZE + off mod BSIZE" using assms(2,5) by (metis div_mult_mod_eq)+
  then obtain x y where xy: "k = bn * BSIZE + x" "off = bn * BSIZE + y" and e: "k mod BSIZE = x" "off mod BSIZE = y" by blast
  show ?thesis using assms(1,3,4) lm unfolding e unfolding xy by (auto simp: nth_append min_def)
qed

definition written :: "fsst \<Rightarrow> nat \<Rightarrow> u8 list \<Rightarrow> nat \<Rightarrow> nat \<Rightarrow> fsst \<Rightarrow> bool" where
  "written s i src off n t \<longleftrightarrow> file_ok t i \<and> frame s i t \<and> isize (icache t ! i) = isize (icache s ! i) \<and>
     (\<forall>k < 71680. fbyte t i k = (if off \<le> k \<and> k < off + n then src ! (k - off) else fbyte s i k)) \<and>
     (\<forall>k. off \<le> k \<and> k < off + n \<longrightarrow> faddr t i (k div BSIZE) \<noteq> 0)"

lemma file_bound: "k < 71680 \<longleftrightarrow> k div BSIZE < 140"
  by (auto simp: BSIZE_def)

lemma frame_keeps_fdev: "frame s i t \<Longrightarrow> fdev t i = fdev s i"
  by (simp add: frame_inode)

lemma fbyte_eq: "\<forall>k < 140. fblk t i k = fblk s i k \<Longrightarrow> k < 71680 \<Longrightarrow> fbyte t i k = fbyte s i k"
  by (simp add: fbyte_def file_bound)

lemma file_block_read:
  assumes "file_ok s i" "bn < 140" "faddr s i bn \<noteq> 0"
  shows "getblk (fdev s i) (faddr s i bn) s = Inr (fblk s i bn)" "length (fblk s i bn) = BSIZE"
  using getblk_Inr[of "faddr s i bn" s] file_okD(2,7)[OF assms(1)] owned_faddr[OF assms(2,3)] small_block[OF file_okD(1)[OF assms(1)]]
    fs_okD(3)[OF file_okD(1)[OF assms(1)]] assms(3)
  by (simp_all add: fblk_def)

lemma write_block_may:
  assumes m: "mapped s i (off div BSIZE) a u" and off: "off div BSIZE < 140" and mm: "m \<le> BSIZE - off mod BSIZE" "m \<le> length src"
  shows "may (bind_r (getblk (fdev s i) a u) (\<lambda>d. putblk (fdev s i) a (take (off mod BSIZE) d @ take m src @ drop (off mod BSIZE + m) d) u))
    (written s i src off m)"
proof -
  define bn where "bn = off div BSIZE"
  define d where "d = fblk u i bn"
  define d1 where "d1 = take (off mod BSIZE) d @ take m src @ drop (off mod BSIZE + m) d"
  have u: "file_ok u i" "faddr u i bn = a" "a \<noteq> 0" "\<forall>k < 140. fblk u i k = fblk s i k" "frame s i u" "isize (icache u ! i) = isize (icache s ! i)"
    using m by (simp_all add: mapped_def bn_def)
  have bn: "bn < 140" using off by (simp add: bn_def)
  have dev: "fdev u i = fdev s i" by (rule frame_keeps_fdev[OF u(5)])
  have g: "getblk (fdev s i) a u = Inr d" and ld: "length d = BSIZE"
    using file_block_read[OF u(1) bn] u(2,3) dev by (simp_all add: d_def)
  have "off mod BSIZE < BSIZE" by (simp add: BSIZE_def)
  then have l1: "length d1 = BSIZE" using ld mm by (simp add: d1_def)
  have "written s i src off m (u\<lparr>blk := (blk u)(fdev s i := (blk u (fdev s i))(a := d1)), logged := lg\<rparr>)" for lg
  proof -
    define t where "t = u\<lparr>blk := (blk u)(fdev s i := (blk u (fdev s i))(a := d1)), logged := lg\<rparr>"
    note p = put_file_block[OF u(1) bn _ l1, where lg = lg, unfolded u(2) dev, folded t_def, OF u(3)]
    have "fbyte t i k = (if off \<le> k \<and> k < off + m then src ! (k - off) else fbyte s i k)" if k: "k < 71680" for k
    proof (cases "k div BSIZE = bn")
      case True
      have "fbyte t i k = d1 ! (k mod BSIZE)" using p(2)[of bn] bn True by (simp add: fbyte_def)
      also have "\<dots> = (if off \<le> k \<and> k < off + m then src ! (k - off) else d ! (k mod BSIZE))"
        unfolding d1_def by (rule fbyte_splice[OF ld bn_def mm True])
      also have "d ! (k mod BSIZE) = fbyte s i k" using u(4) bn True by (simp add: fbyte_def d_def)
      finally show ?thesis .
    next
      case False
      have "\<not> (off \<le> k \<and> k < off + m)"
      proof
        assume a: "off \<le> k \<and> k < off + m"
        then have "off - off mod BSIZE \<le> k" "k < off - off mod BSIZE + BSIZE" using mm \<open>off mod BSIZE < BSIZE\<close> by linarith+
        moreover have "off - off mod BSIZE = bn * BSIZE" by (simp add: bn_def minus_mod_eq_div_mult)
        ultimately have "k div BSIZE = bn" by (simp add: BSIZE_def)
        then show False using False by simp
      qed
      moreover have "fbyte t i k = fbyte s i k" using False k p(2) u(4) by (simp add: fbyte_def file_bound)
      ultimately show ?thesis by auto
    qed
    moreover have "k div BSIZE = bn" if "off \<le> k \<and> k < off + m" for k
    proof -
      have "off - off mod BSIZE \<le> k" "k < off - off mod BSIZE + BSIZE" using that mm \<open>off mod BSIZE < BSIZE\<close> by linarith+
      moreover have "off - off mod BSIZE = bn * BSIZE" by (simp add: bn_def minus_mod_eq_div_mult)
      ultimately show ?thesis by (simp add: BSIZE_def)
    qed
    ultimately show ?thesis unfolding t_def[symmetric] written_def
      using p(1,3,4) u bn file_frame_trans[OF u(5) p(4)] by (auto simp: t_def)
  qed
  moreover have "ops u \<ge> 1" using fs_okD(2)[OF file_okD(1)[OF u(1)]] .
  ultimately show ?thesis by (simp add: g d1_def putblk_may)
qed

lemma written_trans:
  assumes a: "written s i src off m u" and b: "written u i (drop m src) (off + m) n t" and le: "off + (m + n) \<le> 71680" "m + n \<le> length src"
  shows "written s i src off (m + n) t"
  unfolding written_def
proof (intro conjI allI impI)
  show "frame s i t" using a b file_frame_trans unfolding written_def by blast
  fix k :: nat
  assume k: "k < 71680"
  have 1: "fbyte u i k = (if off \<le> k \<and> k < off + m then src ! (k - off) else fbyte s i k)" using a k by (simp add: written_def)
  have 2: "fbyte t i k = (if off + m \<le> k \<and> k < off + m + n then drop m src ! (k - (off + m)) else fbyte u i k)" using b k by (simp add: written_def)
  have "drop m src ! (k - (off + m)) = src ! (k - off)" if "off + m \<le> k" using that le by simp
  then show "fbyte t i k = (if off \<le> k \<and> k < off + (m + n) then src ! (k - off) else fbyte s i k)" using 1 2 by auto
next
  fix k :: nat
  assume k: "off \<le> k \<and> k < off + (m + n)"
  show "faddr t i (k div BSIZE) \<noteq> 0"
  proof (cases "k < off + m")
    case True
    have "k div BSIZE < 140" using k le file_bound[of k] by simp
    moreover have "faddr u i (k div BSIZE) \<noteq> 0" using a True k by (simp add: written_def)
    moreover have "frame u i t" using b by (simp add: written_def)
    ultimately show ?thesis by (simp add: frame_def)
  next
    case False
    then show ?thesis using b k by (simp add: written_def)
  qed
qed (use a b in \<open>simp_all add: written_def\<close>)

lemma writei_loop_may:
  "file_ok s i \<Longrightarrow> off + n \<le> 71680 \<Longrightarrow> n \<le> length src \<Longrightarrow> may (writei_loop i src off n s) (written s i src off n)"
proof (induction n arbitrary: src off s rule: less_induct)
  case (less n)
  show ?case
  proof (cases "n = 0")
    case True
    then show ?thesis using less.prems by (simp add: writei_loop.simps) (auto simp: written_def file_frame_refl)
  next
    case False
    define m where "m = min n (BSIZE - off mod BSIZE)"
    have m: "0 < m" "m \<le> n" "m \<le> BSIZE - off mod BSIZE" using False by (auto simp: m_def BSIZE_def)
    have bn: "off div BSIZE < 140" using less.prems(2) False file_bound[of off] by simp
    have "may (bind_r (bmap i (off div BSIZE) s) (\<lambda>(a, s1). bind_r (getblk (fdev s i) a s1) (\<lambda>d.
           putblk (fdev s i) a (take (off mod BSIZE) d @ take m src @ drop (off mod BSIZE + m) d) s1))) (written s i src off m)"
      using write_block_may[OF _ bn m(3)] m less.prems(3) by (intro may_bind[OF bmap_may[OF less.prems(1) bn]]) auto
    then have "may (bind_r (bind_r (bmap i (off div BSIZE) s) (\<lambda>(a, s1). bind_r (getblk (fdev s i) a s1) (\<lambda>d.
           putblk (fdev s i) a (take (off mod BSIZE) d @ take m src @ drop (off mod BSIZE + m) d) s1)))
        (writei_loop i (drop m src) (off + m) (n - m))) (written s i src off n)"
    proof (rule may_bind)
      fix u assume u: "written s i src off m u"
      have "may (writei_loop i (drop m src) (off + m) (n - m) u) (written u i (drop m src) (off + m) (n - m))"
        by (rule less.IH) (use m u less.prems in \<open>auto simp: written_def\<close>)
      then show "may (writei_loop i (drop m src) (off + m) (n - m) u) (written s i src off n)"
        using written_trans[OF u, of "n - m"] less.prems m by (auto elim!: may_mono)
    qed
    then show ?thesis using False by (subst writei_loop.simps) (simp add: m_def bind_r_assoc case_prod_unfold Let_def)
  qed
qed

lemma length_store_dinode [simp]: "length (store_dinode k ip d) = length d"
proof -
  have "length (fold (\<lambda>j d. put_word d (a + j) (f j)) xs d) = length d" for a f xs and d :: block
    by (induction xs arbitrary: d) simp_all
  then show ?thesis by (simp add: store_dinode_def put_half_def)
qed

lemma set_size_ok:
  fixes s :: fsst and z :: u32
  assumes ok: "file_ok s i"
  defines "t \<equiv> upd_inode i (\<lambda>ip. ip\<lparr>isize := z\<rparr>) s"
  shows "file_ok t i" "frame s i t" "fblk t i = fblk s i" "faddr t i = faddr s i" "isize (icache t ! i) = z"
proof -
  have t: "icache t ! i = (icache s ! i)\<lparr>isize := z\<rparr>" "blk t = blk s" "sb t = sb s" "hold t = hold s" "ops t = ops s" "length (icache t) = length (icache s)"
    "\<And>j. j \<noteq> i \<Longrightarrow> icache t ! j = icache s ! j"
    using file_okD(3)[OF ok] by (simp_all add: t_def upd_inode_def)
  have eq: "ind t i = ind s i" "used t = used s" "meta t = meta s" using t by (auto simp: ind_def used_def meta_def fun_eq_iff)
  show f: "faddr t i = faddr s i" using eq t by (auto simp: faddr_def fun_eq_iff)
  show "fblk t i = fblk s i" using f t by (auto simp: fblk_def fun_eq_iff)
  have o: "owned t i = owned s i" by (simp add: owned_def f eq fun_eq_iff)
  show "file_ok t i" using ok by (simp add: file_ok_def fs_ok_def o f eq t)
  show "isize (icache t ! i) = z" by (simp add: t(1))
  show "frame s i t" using t o f eq by (auto simp: frame_def intro!: exI[of _ "iaddrs (icache s ! i)"])
qed

lemma block_split: "x = b * BSIZE + y \<Longrightarrow> y < BSIZE \<Longrightarrow> x div BSIZE = b \<and> x mod BSIZE = y"
  by (simp add: BSIZE_def)

lemma iupdate_may:
  assumes ok: "file_ok s i"
  shows "may (iupdate i s) (\<lambda>t. file_ok t i \<and> frame s i t \<and> (\<forall>k < 140. fblk t i k = fblk s i k) \<and> faddr t i = faddr s i \<and> icache t = icache s)"
proof -
  note ok' = file_okD[OF ok]
  define b where "b = IBLOCK (inum (icache s ! i)) (sb s)"
  have mb: "meta s b" "b \<noteq> sb_bmapstart (sb s)" using ok'(5) fs_okD(6)[OF ok'(1) ok'(5)] by (auto simp: meta_def b_def)
  have nob: "\<not> owned s i b" using ok'(8) mb(1) by blast
  have g: "getblk (fdev s i) b s = Inr (blk s (fdev s i) b)"
    by (rule getblk_Inr) (use ok'(2) small_block[OF ok'(1) fs_okD(5)[OF ok'(1) mb(1)]] in simp_all)
  define d where "d = store_dinode (inode_slot (inum (icache s ! i))) (icache s ! i) (blk s (fdev s i) b)"
  have ld: "length d = BSIZE" using fs_okD(3)[OF ok'(1)] by (simp add: d_def)
  have "file_ok t i \<and> frame s i t \<and> (\<forall>k < 140. fblk t i k = fblk s i k) \<and> faddr t i = faddr s i \<and> icache t = icache s"
    if "t = s\<lparr>blk := (blk s)(fdev s i := (blk s (fdev s i))(b := d)), logged := lg\<rparr>" for t lg
  proof -
    have t: "icache t = icache s" "sb t = sb s" "hold t = hold s" "ops t = ops s" "\<And>x. x \<noteq> b \<Longrightarrow> blk t (fdev s i) x = blk s (fdev s i) x"
      "\<And>e. e \<noteq> fdev s i \<Longrightarrow> blk t e = blk s e" "\<And>x. length (blk t (fdev s i) x) = BSIZE"
      using ld fs_okD(3)[OF ok'(1)] by (simp_all add: that)
    have eq: "ind t i = ind s i" "meta t = meta s" using t by (auto simp: ind_def meta_def fun_eq_iff)
    have u: "used t = used s" using mb(2) by (auto simp: used_def that fun_eq_iff)
    have ib: "ind s i \<noteq> 0 \<Longrightarrow> blk t (fdev s i) (ind s i) = blk s (fdev s i) (ind s i)" using t(5) nob owned_ind[of s i] by metis
    have f: "faddr t i k = faddr s i k" for k using ib by (simp add: faddr_def eq t(1))
    have o: "owned t i = owned s i" by (simp add: owned_def f eq fun_eq_iff)
    have fb: "fblk t i k = fblk s i k" if "k < 140" for k
    proof (cases "faddr s i k = 0")
      case False
      then show ?thesis using t(5)[of "faddr s i k"] owned_faddr[OF that False] nob by (auto simp: fblk_def f t(1))
    qed (simp add: fblk_def f)
    have "fs_ok t (fdev s i)" using ok'(1) by (simp add: fs_ok_def t eq u)
    then have "file_ok t i" using ok by (simp add: file_ok_def t(1-4) o f eq u)
    moreover have "frame s i t" using t o f eq u
      by (auto simp: frame_def b_def[symmetric] intro!: exI[of _ "iaddrs (icache s ! i)"] exI[of _ "isize (icache s ! i)"])
    ultimately show ?thesis using f fb t(1) by (auto simp: fun_eq_iff)
  qed
  then have "may (putblk (fdev s i) b d s) (\<lambda>t. file_ok t i \<and> frame s i t \<and> (\<forall>k < 140. fblk t i k = fblk s i k) \<and> faddr t i = faddr s i \<and> icache t = icache s)"
    by (intro putblk_may[OF fs_okD(2)[OF ok'(1)]]) blast
  then show ?thesis using g by (simp add: iupdate_def Let_def b_def d_def)
qed

lemma readi_loop_file:
  "file_ok s i \<Longrightarrow> off + n \<le> 71680 \<Longrightarrow> \<forall>k. off \<le> k \<and> k < off + n \<longrightarrow> faddr s i (k div BSIZE) \<noteq> 0 \<Longrightarrow>
   readi_loop i off n s = Inr (map (fbyte s i) [off..<off + n], s)"
proof (induction n arbitrary: off rule: less_induct)
  case (less n)
  show ?case
  proof (cases "n = 0")
    case True
    then show ?thesis by (simp add: readi_loop.simps)
  next
    case False
    define m where "m = min n (BSIZE - off mod BSIZE)"
    define bn where "bn = off div BSIZE"
    have m: "0 < m" "m \<le> n" "off mod BSIZE + m \<le> BSIZE" using False by (auto simp: m_def BSIZE_def)
    have bn: "bn < 140" "faddr s i bn \<noteq> 0" using less.prems(2,3) False file_bound[of off] by (auto simp: bn_def)
    have b: "bmap i bn s = Inr (faddr s i bn, s)"
    proof (cases "bn < 12")
      case True
      then show ?thesis using bn(2) by (simp add: bmap_def Let_def NDIRECT_def faddr_def)
    next
      case False
      then have i0: "ind s i \<noteq> 0" using bn(2) by (auto simp: faddr_def)
      have "getblk (fdev s i) (ind s i) s = Inr (blk s (fdev s i) (ind s i))"
        by (rule getblk_Inr) (use file_okD(2,7)[OF less.prems(1)] small_block[OF file_okD(1)[OF less.prems(1)]] owned_ind[OF i0] in simp_all)
      then show ?thesis using False bn i0 by (auto simp: bmap_def Let_def NDIRECT_def NINDIRECT_def faddr_def ind_def split: if_splits)
    qed
    note g = file_block_read[OF less.prems(1) bn]
    have d: "take m (drop (off mod BSIZE) (fblk s i bn)) = map (fbyte s i) [off..<off + m]"
    proof (rule nth_equalityI)
      fix j assume "j < length (take m (drop (off mod BSIZE) (fblk s i bn)))"
      then have j: "j < m" by simp
      have "off + j = bn * BSIZE + (off mod BSIZE + j)" by (simp add: bn_def)
      then have "(off + j) div BSIZE = bn \<and> (off + j) mod BSIZE = off mod BSIZE + j" by (rule block_split) (use j m(3) in simp)
      then show "take m (drop (off mod BSIZE) (fblk s i bn)) ! j = map (fbyte s i) [off..<off + m] ! j" using j m g(2) by (simp add: fbyte_def)
    qed (use m g(2) in simp)
    have r: "readi_loop i (off + m) (n - m) s = Inr (map (fbyte s i) [off + m..<off + n], s)"
      using less.IH[of "n - m" "off + m"] m less.prems by simp
    have "map (fbyte s i) [off..<off + m] @ map (fbyte s i) [off + m..<off + n] = map (fbyte s i) [off..<off + n]"
      using m(2) upt_add_eq_append[of off "off + m" "n - m"] by (simp flip: map_append)
    then show ?thesis using False b g(1) d r by (subst readi_loop.simps) (simp add: m_def bn_def Let_def)
  qed
qed

lemma readi_file:
  assumes ok: "file_ok s i" and ty: "itype (icache s ! i) \<noteq> T_DEV" and n: "unat off + unat n \<le> unat (isize (icache s ! i))" "unat (isize (icache s ! i)) \<le> 71680"
    and al: "\<forall>k. unat off \<le> k \<and> k < unat off + unat n \<longrightarrow> faddr s i (k div BSIZE) \<noteq> 0"
  shows "readi dt i off n s = Inr (int (unat n), map (fbyte s i) [unat off..<unat off + unat n], s)"
proof -
  have u: "unat (off + n) = unat off + unat n" using n by (simp add: unat_word_ariths)
  have "\<not> (off > isize (icache s ! i) \<or> off + n < off)" "\<not> off + n > isize (icache s ! i)" using n u by (simp_all add: word_less_nat_alt)
  moreover have "readi_loop i (unat off) (unat n) s = Inr (map (fbyte s i) [unat off..<unat off + unat n], s)"
    by (rule readi_loop_file[OF ok]) (use n al in simp_all)
  moreover have "sint n = int (unat n)" using n by (simp add: sint_small)
  ultimately show ?thesis using ty by (simp add: readi_def Let_def)
qed

lemma writei_may:
  assumes ok: "file_ok s i" and ty: "itype (icache s ! i) \<noteq> T_DEV" and l: "unat n \<le> length src"
    and off: "off \<le> isize (icache s ! i)" and n: "unat off + unat n \<le> 71680"
  shows "may (writei dt i src off n s) (\<lambda>(r, t). r = int (unat n) \<and> file_ok t i \<and> frame s i t \<and> isize (icache t ! i) = (if off + n > isize (icache s ! i) then off + n else isize (icache s ! i)) \<and>
     (\<forall>k < 71680. fbyte t i k = (if unat off \<le> k \<and> k < unat off + unat n then src ! (k - unat off) else fbyte s i k)) \<and>
     (\<forall>k. unat off \<le> k \<and> k < unat off + unat n \<longrightarrow> faddr t i (k div BSIZE) \<noteq> 0))"
proof -
  have u: "unat (off + n) = unat off + unat n" using n by (simp add: unat_word_ariths)
  have g: "\<not> (off > isize (icache s ! i) \<or> off + n < off)" "\<not> off + n > of_nat (MAXFILE * BSIZE)"
    using off n u by (simp_all add: word_less_nat_alt word_le_nat_alt MAXFILE_def BSIZE_def)
  have sn: "sint n = int (unat n)" using n by (simp add: sint_small)
  define up where "up t = (if n > 0 \<and> off + n > isize (icache t ! i) then iupdate i (upd_inode i (\<lambda>ip. ip\<lparr>isize := off + n\<rparr>) t) else Inr t)" for t
  have e: "writei dt i src off n s = bind_r (writei_loop i src (unat off) (unat n) s) (\<lambda>t. bind_r (up t) (\<lambda>t. Inr (int (unat n), t)))"
    using ty g by (simp add: writei_def Let_def up_def sn)
  have "may (up t) (\<lambda>t. file_ok t i \<and> frame s i t \<and> isize (icache t ! i) = (if off + n > isize (icache s ! i) then off + n else isize (icache s ! i)) \<and>
     (\<forall>k < 71680. fbyte t i k = (if unat off \<le> k \<and> k < unat off + unat n then src ! (k - unat off) else fbyte s i k)) \<and>
     (\<forall>k. unat off \<le> k \<and> k < unat off + unat n \<longrightarrow> faddr t i (k div BSIZE) \<noteq> 0))"
    if w: "written s i src (unat off) (unat n) t" for t
  proof (cases "n > 0 \<and> off + n > isize (icache t ! i)")
    case True
    have t: "file_ok t i" "frame s i t" "isize (icache t ! i) = isize (icache s ! i)" using w by (simp_all add: written_def)
    note z = set_size_ok[OF t(1), of "off + n"]
    have fr: "frame s i (upd_inode i (\<lambda>ip. ip\<lparr>isize := off + n\<rparr>) t)" by (rule file_frame_trans[OF t(2) z(2)])
    have "up t = iupdate i (upd_inode i (\<lambda>ip. ip\<lparr>isize := off + n\<rparr>) t)" using True by (simp add: up_def)
    then show ?thesis using w z(3-5) t(3) True file_frame_trans[OF fr]
      by (simp only:) (rule may_mono[OF iupdate_may[OF z(1)]], auto simp: written_def fbyte_def file_bound)
  next
    case False
    then have "\<not> off + n > isize (icache s ! i)" using w off u by (auto simp: written_def word_less_nat_alt word_le_nat_alt)
    then show ?thesis using False w by (auto simp: up_def written_def)
  qed
  then show ?thesis unfolding e by (intro may_bind[OF writei_loop_may[OF ok n l]] may_bind) auto
qed

section \<open>The round trip\<close>


text \<open>A small file system: blocks 0 to 3 are metadata, one file without blocks.\<close>

definition demo_fs :: fsst where
  "demo_fs = \<lparr>blk = (\<lambda>_ n. if n = 3 then (replicate BSIZE 0)[0 := 15] else replicate BSIZE 0), logged = [], ops = 1, hold = [],
     sb = \<lparr>sb_size = 40, sb_nblocks = 30, sb_ninodes = 8, sb_nlog = 30, sb_logstart = 4, sb_inodestart = 2, sb_bmapstart = 3\<rparr>,
     icache = [\<lparr>idev = 1, inum = 1, iref = 1, ilk = Some 1, ivalid = True, itype = T_FILE, imajor = 0, iminor = 0, inlink = 1, isize = 0,
       iaddrs = replicate 13 0\<rparr>]\<rparr>"

lemma demo_meta: "meta demo_fs b \<longleftrightarrow> b = 0 \<or> b = 3 \<or> b = 2"
proof -
  have "IBLOCK n (sb demo_fs) = 2" if "n < 8" for n
    using that by (simp add: demo_fs_def IBLOCK_def IPB_def div_eq_0_iff word_less_nat_alt word_arith_nat_div)
  then show ?thesis by (auto simp: meta_def demo_fs_def intro: exI[of _ 0])
qed

lemma demo_file_ok: "file_ok demo_fs 0"
proof -
  have a: "faddr demo_fs 0 k = 0" if "k < 140" for k
    using that by (simp add: faddr_def ind_def demo_fs_def nth_Cons')
  have o: "\<not> owned demo_fs 0 b" for b using a by (auto simp: owned_def ind_def demo_fs_def)
  have "used demo_fs 1 b" if "b = 0 \<or> b = 3 \<or> b = 2" for b
    using that by (auto simp: used_def bit_free_iff demo_fs_def BSIZE_def bit_iff_odd)
  then have "fs_ok demo_fs 1"
    unfolding fs_ok_def demo_meta by (auto simp: demo_fs_def FSSIZE_def BSIZE_def IBLOCK_def IPB_def div_eq_0_iff word_less_nat_alt word_arith_nat_div)
  then show ?thesis unfolding file_ok_def using a o by (simp add: demo_fs_def)
qed


end
