(* ===== verification/Fs_Layer.thy ===== *)
theory Fs_Layer
  imports Fs
begin

text \<open>
  The block layer under \<open>fs.c\<close>: the idioms \<open>bread; brelse\<close> and \<open>bread; modify; log_write; brelse\<close> of \<open>bio.c\<close> and \<open>log.c\<close>
  implement the \<open>getblk\<close> and \<open>putblk\<close> of the file system model, whatever is cached, evicted or already in the transaction.
\<close>

definition read_block :: "int \<Rightarrow> u32 \<Rightarrow> u32 \<Rightarrow> logst \<Rightarrow> (block \<times> logst) result" where
  "read_block pid dev n l =
    bind_r (bread pid dev n (cache l)) (\<lambda>(b, c). bind_r (brelse pid b c) (\<lambda>c1. Inr (bdata (bufs c ! b), l\<lparr>cache := c1\<rparr>)))"

definition update_block :: "int \<Rightarrow> u32 \<Rightarrow> u32 \<Rightarrow> (block \<Rightarrow> block) \<Rightarrow> logst \<Rightarrow> logst result" where
  "update_block pid dev n f l =
    bind_r (bread pid dev n (cache l)) (\<lambda>(b, c).
      bind_r (log_write b (l\<lparr>cache := set_data b (f (bdata (bufs c ! b))) c\<rparr>)) (\<lambda>l1.
        bind_r (brelse pid b (cache l1)) (\<lambda>c1. Inr (l1\<lparr>cache := c1\<rparr>))))"

text \<open>The file system state that a state of log and cache stands for; device 0 marks a buffer that was never used.\<close>

definition sim :: "logst \<Rightarrow> fsst \<Rightarrow> bool" where
  "sim l s \<longleftrightarrow> log_ok l \<and> sint (lsize l) \<le> 30 \<and> (\<forall>d n. d \<noteq> 0 \<longrightarrow> blk s d n = bview (cache l) d n) \<and> logged s = home l \<and>
     ops s = outstanding l \<and> sb_nlog (sb s) = lsize l \<and> hold s = []"

lemma set_dirty_spec:
  assumes ok: "bio_ok s" and d: "dev \<noteq> 0" and h: "held s pid b dev n"
  defines "t \<equiv> upd_buf b (\<lambda>x. x\<lparr>bdirty := True\<rparr>) s"
  shows "bio_ok t" "held t pid b dev n" "bufs t ! b = (bufs s ! b)\<lparr>bdirty := True\<rparr>" "\<And>c. c \<noteq> b \<Longrightarrow> bufs t ! c = bufs s ! c"
    "\<And>d' m. d' \<noteq> 0 \<Longrightarrow> bview t d' m = bview s d' m" "\<And>d' m. dirty_at t d' m \<longleftrightarrow> dirty_at s d' m \<or> d' = dev \<and> m = n"
proof -
  note D = bio_okD[OF ok]
  have b: "b < NBUF" "cached s dev n b" "bvalid (bufs s ! b)" "0 < refcnt (bufs s ! b)" using h by (auto simp: held_def cached_def)
  have n: "bufs t ! c = (if c = b then (bufs s ! b)\<lparr>bdirty := True\<rparr> else bufs s ! c)" for c
    using D(1) b(1) by (simp add: t_def nth_upd_buf)
  show "bufs t ! b = (bufs s ! b)\<lparr>bdirty := True\<rparr>" "\<And>c. c \<noteq> b \<Longrightarrow> bufs t ! c = bufs s ! c" by (simp_all add: n)
  have c: "cached t d' m x' = cached s d' m x'" for d' m x' by (simp add: cached_def n)
  show "held t pid b dev n" using h by (simp add: held_def c n)
  have m: "disk t = disk s" by (simp add: t_def)
  show okt: "bio_ok t"
  proof (rule bio_okI)
    show "y = z" if "d' \<noteq> 0" "cached t d' m y" "cached t d' m z" for d' m y z using D(5) that by (simp add: c)
    show "length (bufs t) = NBUF" "set (mru t) = {..<NBUF}" "distinct (mru t)" "havedisk1 t" using D(1-4) by (simp_all add: t_def)
  qed (use D(6-8) b(3,4) in \<open>simp_all add: n m split: if_splits\<close>)
  show "dirty_at t d' m \<longleftrightarrow> dirty_at s d' m \<or> d' = dev \<and> m = n" for d' m
  proof -
    have "bdirty (bufs t ! y) \<longleftrightarrow> bdirty (bufs s ! y) \<or> y = b" for y by (simp add: n)
    moreover have "cached s d' m b \<longleftrightarrow> d' = dev \<and> m = n" using b(2) by (auto simp: cached_def)
    ultimately show ?thesis by (auto simp: dirty_at_def c)
  qed
  show "bview t d' m = bview s d' m" if "d' \<noteq> 0" for d' m
    by (rule view_cong[OF ok okt that]) (simp_all add: c n m)
qed

lemma sim_bread:
  assumes sm: "sim l s" and lt: "n < FSSIZE"
  obtains b c where "bread pid (ldev l) n (cache l) = Inr (b, c)" "bio_ok c" "held c pid b (ldev l) n" "bdata (bufs c ! b) = bview (cache l) (ldev l) n"
    "refcnt (bufs c ! b) = 1" "\<And>x. x < NBUF \<Longrightarrow> x \<noteq> b \<Longrightarrow> refcnt (bufs c ! x) = 0" "bdirty (bufs c ! b) = dirty_at (cache l) (ldev l) n"
    "disk c = disk (cache l)" "\<And>d' m. d' \<noteq> 0 \<Longrightarrow> bview c d' m = bview (cache l) d' m" "\<And>d' m. dirty_at c d' m = dirty_at (cache l) d' m"
proof -
  have ok: "log_ok l" using sm by (simp add: sim_def)
  note D = log_okD[OF ok]
  have q: "bio_ok (cache l)" "\<And>b. b < NBUF \<Longrightarrow> refcnt (bufs (cache l) ! b) = 0" using D(1) by (simp_all add: quiet_def)
  have fr: "free_bufs (cache l) \<noteq> {}" using log_free(1)[OF ok] by auto
  show thesis
  proof (rule bread_spec[OF q(1) D(2) lt _ disjI2[OF fr], where pid = pid])
    fix b t
    assume a: "bread pid (ldev l) n (cache l) = Inr (b, t)" "bio_ok t" "held t pid b (ldev l) n" "bdata (bufs t ! b) = bview (cache l) (ldev l) n"
      "refcnt (bufs t ! b) = 1" "bdirty (bufs t ! b) = dirty_at (cache l) (ldev l) n" "\<And>x. x \<noteq> b \<Longrightarrow> bufs t ! x = bufs (cache l) ! x"
      "disk t = disk (cache l)" "\<And>d' m. d' \<noteq> 0 \<Longrightarrow> bview t d' m = bview (cache l) d' m" "\<And>d' m. dirty_at t d' m = dirty_at (cache l) d' m"
    show thesis by (rule that[OF a(1-5) _ a(6) a(8-10)]) (simp_all add: a(7) q(2))
  qed (auto simp: cached_def q(2))
qed

lemma read_block_sim:
  assumes sm: "sim l s" and lt: "n < FSSIZE"
  shows "\<exists>l'. read_block pid (ldev l) n l = Inr (blk s (ldev l) n, l') \<and> sim l' s \<and> ldev l' = ldev l \<and> lstart l' = lstart l"
proof -
  have ok: "log_ok l" using sm by (simp add: sim_def)
  note D = log_okD[OF ok]
  obtain b c where c: "bread pid (ldev l) n (cache l) = Inr (b, c)" "bio_ok c" "held c pid b (ldev l) n" "bdata (bufs c ! b) = bview (cache l) (ldev l) n"
    "refcnt (bufs c ! b) = 1" "\<And>x. x < NBUF \<Longrightarrow> x \<noteq> b \<Longrightarrow> refcnt (bufs c ! x) = 0" "bdirty (bufs c ! b) = dirty_at (cache l) (ldev l) n"
    "disk c = disk (cache l)" "\<And>d' m. d' \<noteq> 0 \<Longrightarrow> bview c d' m = bview (cache l) d' m" "\<And>d' m. dirty_at c d' m = dirty_at (cache l) d' m"
    using sim_bread[OF sm lt, where pid = pid] by blast
  have "bdirty (bufs c ! b) \<or> bdata (bufs c ! b) = disk c (ldev l) n" using c(4,7,8) clean_view[OF D(1,2)] by (cases "dirty_at (cache l) (ldev l) n") simp_all
  then obtain t where t: "brelse pid b c = Inr t" "bio_ok t" "bufs t ! b = (bufs c ! b)\<lparr>block_pid := None, refcnt := 0\<rparr>"
    "\<And>x. x \<noteq> b \<Longrightarrow> bufs t ! x = bufs c ! x" "\<And>d' m. d' \<noteq> 0 \<Longrightarrow> bview t d' m = bview c d' m" "\<And>d' m. dirty_at t d' m = dirty_at c d' m"
    by (rule brelse_spec[OF c(2) D(2) c(3,5)]) blast
  have "refcnt (bufs t ! x) = 0" if "x < NBUF" for x using c(6)[OF that] t(3,4) by (cases "x = b") simp_all
  then have "quiet t" using t(2) by (simp add: quiet_def)
  then have "log_ok (l\<lparr>cache := t\<rparr>)" using ok t(6) c(10) unfolding log_ok_def by (simp add: home_def)
  then have "sim (l\<lparr>cache := t\<rparr>) s" using sm t(5) c(9) by (simp add: sim_def)
  moreover have "read_block pid (ldev l) n l = Inr (blk s (ldev l) n, l\<lparr>cache := t\<rparr>)"
    using sm D(2) by (simp add: read_block_def c(1,4) t(1) sim_def)
  ultimately show ?thesis by (intro exI[of _ "l\<lparr>cache := t\<rparr>"]) simp
qed

text \<open>The block number list of the header after \<open>log_write\<close>.\<close>

lemma log_write_home:
  fixes l :: logst and b :: nat
  assumes "0 \<le> lhn l" "lhn l < 30" "length (lhblock l) = 30" "\<not> (lhn l \<ge> LOGSIZE \<or> lhn l \<ge> sint (lsize l) - 1)" "outstanding l \<ge> 1"
  defines "n \<equiv> blockno (bufs (cache l) ! b)"
  obtains l' where "log_write b l = Inr l'" "cache l' = upd_buf b (\<lambda>x. x\<lparr>bdirty := True\<rparr>) (cache l)"
    "home l' = (if n \<in> set (home l) then home l else home l @ [n])" "lhn l' = int (length (home l'))" "length (lhblock l') = 30"
    "ldev l' = ldev l" "lstart l' = lstart l" "lsize l' = lsize l" "outstanding l' = outstanding l"
proof (cases "find_idx (\<lambda>x. x = n) (home l)")
  case None
  define l' where "l' = l\<lparr>lhblock := (lhblock l)[nat (lhn l) := n], lhn := lhn l + 1, cache := upd_buf b (\<lambda>x. x\<lparr>bdirty := True\<rparr>) (cache l)\<rparr>"
  have "nat (lhn l + 1) = Suc (nat (lhn l))" using assms(1) by simp
  then have "home l' = home l @ [n]" using assms(1-3) by (simp add: l'_def home_def take_Suc_conv_app_nth)
  moreover have "n \<notin> set (home l)" using None by (auto simp: find_idx_None)
  moreover have "log_write b l = Inr l'" using None assms(4,5) by (simp add: log_write_def Let_def home_def[symmetric] n_def[symmetric] l'_def)
  moreover have "length (home l) = nat (lhn l)" using assms(2,3) by (simp add: home_def)
  ultimately show thesis using assms(1,3) by (intro that[of l']) (simp_all add: l'_def)
next
  case (Some i)
  then have i: "i < length (home l)" "home l ! i = n" by (simp_all add: find_idx_Some)
  have il: "i < nat (lhn l)" using i(1) by (simp add: home_def)
  then have e: "lhblock l ! i = n" using i(2) by (simp add: home_def)
  define l' where "l' = l\<lparr>lhblock := (lhblock l)[i := n], cache := upd_buf b (\<lambda>x. x\<lparr>bdirty := True\<rparr>) (cache l)\<rparr>"
  have "lhblock l' = lhblock l" using e by (simp add: l'_def list_update_same_conv[symmetric] flip: e)
  then have "home l' = home l" by (simp add: home_def) (simp add: l'_def)
  moreover have "log_write b l = Inr l'" using Some il assms(4,5) by (simp add: log_write_def Let_def home_def[symmetric] n_def[symmetric] l'_def)
  moreover have "n \<in> set (home l)" using i by auto
  moreover have "length (home l) = nat (lhn l)" using assms(2,3) by (simp add: home_def)
  ultimately show thesis using assms(1,3) by (intro that[of l']) (simp_all add: l'_def)
qed

lemma update_block_sim:
  assumes sm: "sim l s" and lt: "n < FSSIZE" and out: "\<not> in_log l n" and len: "outstanding l \<ge> 1"
    and room: "\<not> (int (length (logged s)) \<ge> LOGSIZE \<or> int (length (logged s)) \<ge> sint (sb_nlog (sb s)) - 1)"
  shows "\<exists>l' s'. update_block pid (ldev l) n f l = Inr l' \<and> putblk (ldev l) n (f (blk s (ldev l) n)) s = Inr s' \<and> sim l' s' \<and>
    ldev l' = ldev l \<and> lstart l' = lstart l"
proof -
  have ok: "log_ok l" and ls: "sint (lsize l) \<le> 30" using sm by (simp_all add: sim_def)
  note D = log_okD[OF ok]
  have lh: "int (length (home l)) = lhn l" using D(3,8) by simp
  have r: "\<not> (lhn l \<ge> LOGSIZE \<or> lhn l \<ge> sint (lsize l) - 1)" using room sm lh by (simp add: sim_def)
  obtain b c where c: "bread pid (ldev l) n (cache l) = Inr (b, c)" "bio_ok c" "held c pid b (ldev l) n" "bdata (bufs c ! b) = bview (cache l) (ldev l) n"
    "refcnt (bufs c ! b) = 1" "\<And>x. x < NBUF \<Longrightarrow> x \<noteq> b \<Longrightarrow> refcnt (bufs c ! x) = 0" "bdirty (bufs c ! b) = dirty_at (cache l) (ldev l) n"
    "disk c = disk (cache l)" "\<And>d' m. d' \<noteq> 0 \<Longrightarrow> bview c d' m = bview (cache l) d' m" "\<And>d' m. dirty_at c d' m = dirty_at (cache l) d' m"
    using sim_bread[OF sm lt, where pid = pid] by blast
  define v where "v = f (bview (cache l) (ldev l) n)"
  define c1 where "c1 = set_data b v c"
  note sd = set_data_spec[OF c(2) D(2) c(3), where x = v, folded c1_def]
  define l1 where "l1 = l\<lparr>cache := c1\<rparr>"
  have bn: "blockno (bufs (cache l1) ! b) = n" using c(3) sd(3) by (simp add: l1_def held_def cached_def)
  have l1: "0 \<le> lhn l1" "lhn l1 < 30" "length (lhblock l1) = 30" "\<not> (lhn l1 \<ge> LOGSIZE \<or> lhn l1 \<ge> sint (lsize l1) - 1)" "outstanding l1 \<ge> 1"
    using D(3,4,5) r len by (simp_all add: l1_def)
  obtain l2 where l2': "log_write b l1 = Inr l2" "cache l2 = upd_buf b (\<lambda>x. x\<lparr>bdirty := True\<rparr>) (cache l1)"
    "home l2 = (if blockno (bufs (cache l1) ! b) \<in> set (home l1) then home l1 else home l1 @ [blockno (bufs (cache l1) ! b)])" "lhn l2 = int (length (home l2))"
    "length (lhblock l2) = 30" "ldev l2 = ldev l1" "lstart l2 = lstart l1" "lsize l2 = lsize l1" "outstanding l2 = outstanding l1"
    using log_write_home[OF l1, of b] by blast
  have "cache l1 = c1" "home l1 = home l" "ldev l1 = ldev l" "lstart l1 = lstart l" "lsize l1 = lsize l" "outstanding l1 = outstanding l" by (simp_all add: l1_def)
  note l2 = l2'[unfolded bn, unfolded this]
  note dt = set_dirty_spec[OF sd(1) D(2) sd(2), folded l2(2)]
  have "refcnt (bufs (cache l2) ! b) = 1" "bdirty (bufs (cache l2) ! b)" using dt(3) sd(3) c(5) by simp_all
  then obtain t where t: "brelse pid b (cache l2) = Inr t" "bio_ok t" "bufs t ! b = (bufs (cache l2) ! b)\<lparr>block_pid := None, refcnt := 0\<rparr>"
    "\<And>x. x \<noteq> b \<Longrightarrow> bufs t ! x = bufs (cache l2) ! x" "\<And>d' m. d' \<noteq> 0 \<Longrightarrow> bview t d' m = bview (cache l2) d' m" "\<And>d' m. dirty_at t d' m = dirty_at (cache l2) d' m"
    by (rule brelse_spec[OF dt(1) D(2) dt(2) _ disjI1]) blast
  have "refcnt (bufs t ! x) = 0" if "x < NBUF" for x using c(6)[OF that] t(3,4) dt(4) sd(4) by (cases "x = b") simp_all
  then have qt: "quiet t" using t(2) by (simp add: quiet_def)
  have view: "bview t d m = (if d = ldev l \<and> m = n then v else bview (cache l) d m)" if "d \<noteq> 0" for d m
    using that t(5) dt(5) sd(7) c(9) by simp
  have dirty: "dirty_at t d m \<longleftrightarrow> dirty_at (cache l) d m \<or> d = ldev l \<and> m = n" for d m using t(6) dt(6) sd(8) c(10) by simp
  define l3 where "l3 = l2\<lparr>cache := t\<rparr>"
  have h3: "home l3 = (if n \<in> set (home l) then home l else home l @ [n])" using l2(3) by (simp add: l3_def)
  have len3: "lhn l3 \<le> 29" using l2(4) h3 D(4) lh r ls l2(3) by (auto simp: l3_def)
  have nl: "unat n < unat (lstart l) \<or> unat (lstart l) + 30 < unat n" using out by (auto simp: in_log_def)
  have hs: "b < FSSIZE \<and> (unat b < unat (lstart l) \<or> unat (lstart l) + 30 < unat b)" if "b \<in> set (home l)" for b
    using ok that by (simp add: log_ok_def)
  have "log_ok l3" unfolding log_ok_def
  proof (intro conjI ballI)
    show "\<forall>d n. dirty_at (cache l3) d n \<longrightarrow> d = ldev l3 \<and> n \<in> set (home l3)" using dirty D(7) h3 l2(6) by (auto simp: l3_def)
    show "unat (lstart l3) + 30 < 1000" using ok l2(7) by (simp add: log_ok_def l3_def)
    show "distinct (home l3)" using h3 D(6) by simp
    show "b < FSSIZE" "unat b < unat (lstart l3) \<or> unat (lstart l3) + 30 < unat b" if "b \<in> set (home l3)" for b
      using that h3 hs[of b] lt nl l2(7) by (auto simp: l3_def split: if_splits)
  qed (use qt D(2) l2 len3 in \<open>simp_all add: l3_def\<close>)
  moreover define s' where "s' = s\<lparr>blk := (blk s)(ldev l := (blk s (ldev l))(n := v)), logged := if n \<in> set (logged s) then logged s else logged s @ [n]\<rparr>"
  ultimately have "sim l3 s'" using sm view h3 l2(8,9) by (simp add: sim_def) (simp add: l3_def)
  moreover have "putblk (ldev l) n (f (blk s (ldev l) n)) s = Inr s'"
    using room len sm D(2) by (simp add: putblk_def s'_def v_def sim_def)
  moreover have "update_block pid (ldev l) n f l = Inr l3"
    using c(1,4) l2(1) t(1) by (simp add: update_block_def v_def[symmetric] c1_def[symmetric] l1_def[symmetric] l3_def)
  ultimately show ?thesis using l2(6,7) by (intro exI[of _ l3] exI[of _ s']) (simp add: l3_def)
qed


text \<open>The layer right after boot with a file system call begun.\<close>

definition demo_tx :: logst where
  "demo_tx = (boot_log (\<lambda>_ _. replicate BSIZE 0))\<lparr>lstart := 2, lsize := 30, outstanding := 1, ldev := 1\<rparr>"

definition demo_view :: fsst where
  "demo_view = \<lparr>blk = (\<lambda>_ _. replicate BSIZE 0), logged = [], ops = 1, hold = [],
     sb = \<lparr>sb_size = 0, sb_nblocks = 0, sb_ninodes = 0, sb_nlog = 30, sb_logstart = 2, sb_inodestart = 0, sb_bmapstart = 0\<rparr>, icache = []\<rparr>"

lemma demo_sim: "sim demo_tx demo_view"
proof -
  have "log_ok demo_tx"
    unfolding log_ok_def using boot_cache_ok(1,2) by (simp add: demo_tx_def boot_log_def home_def)
  then show ?thesis unfolding sim_def using boot_cache_ok(4)
    by (simp add: demo_tx_def demo_view_def boot_log_def home_def)
qed


end
