(* ===== verification/Loader.thy ===== *)
theory Loader
  imports Fs_Props Vm
begin

text \<open>
  Loading a program segment (\<open>loaduvm\<close> of \<open>vm.c\<close>): the bytes of a file go to the pages that an address space maps at the segment's
  addresses. This is where the file system model and the page tables meet.
\<close>

section \<open>Loading segments\<close>

definition load_len :: "u32 \<Rightarrow> u32 \<Rightarrow> u32" where "load_len siz i = (if siz - i < PGSIZE then siz - i else PGSIZE)"

fun load_loop :: "nat \<Rightarrow> devtab \<Rightarrow> u32 \<Rightarrow> u32 \<Rightarrow> nat \<Rightarrow> u32 \<Rightarrow> u32 \<Rightarrow> u32 \<Rightarrow> fsst \<Rightarrow> kmem \<Rightarrow> (int \<times> fsst \<times> kmem) result" where
  "load_loop 0 dt dir addr ip off siz i f m = Inl (Diverges ''loaduvm'')"
| "load_loop (Suc k) dt dir addr ip off siz i f m =
    (if i < siz then
       (case walkpgdir dir (addr + i) False m of (pte, m1) \<Rightarrow>
         if pte = 0 then Inl (Panic ''loaduvm: address should exist'')
         else
           let n = load_len siz i in
           bind_r (readi dt ip (off + i) n f) (\<lambda>(r, ds, f1).
             let m2 = m1\<lparr>ram := wr (ram m1) (P2V (PTE_ADDR (getp m1 pte))) ds\<rparr> in
             if of_int r \<noteq> n then Inr (-1, f1, m2) else load_loop k dt dir addr ip off siz (i + PGSIZE) f1 m2))
     else Inr (0, f, m))"

definition loaduvm :: "devtab \<Rightarrow> u32 \<Rightarrow> u32 \<Rightarrow> nat \<Rightarrow> u32 \<Rightarrow> u32 \<Rightarrow> fsst \<Rightarrow> kmem \<Rightarrow> (int \<times> fsst \<times> kmem) result" where
  "loaduvm dt dir addr ip off siz f m =
    (if addr mod PGSIZE \<noteq> 0 then Inl (Panic ''loaduvm: addr must be page aligned'')
     else load_loop NPAGES dt dir addr ip off siz 0 f m)"

section \<open>User bytes and file bytes\<close>

definition ubyte :: "kmem \<Rightarrow> u32 \<Rightarrow> u32 \<Rightarrow> u8" where
  "ubyte m dir va = ram m (leaf m dir va + (va - PGROUNDDOWN va))"

text \<open>The bytes \<open>g\<close> are what reading the file gives between \<open>off\<close> and \<open>off + siz\<close>.\<close>

definition file_reads :: "devtab \<Rightarrow> fsst \<Rightarrow> nat \<Rightarrow> u32 \<Rightarrow> u32 \<Rightarrow> (nat \<Rightarrow> u8) \<Rightarrow> bool" where
  "file_reads dt f ip off siz g \<longleftrightarrow> (\<forall>i n. unat i + unat n \<le> unat siz \<longrightarrow>
     readi dt ip (off + i) n f = Inr (int (unat n), map (\<lambda>k. g (unat i + k)) [0..<unat n], f))"

lemma file_reads_file:
  assumes "file_ok f ip" "itype (icache f ! ip) \<noteq> T_DEV" "unat off + unat siz \<le> unat (isize (icache f ! ip))" "unat (isize (icache f ! ip)) \<le> 71680"
    "\<forall>k. unat off \<le> k \<and> k < unat off + unat siz \<longrightarrow> faddr f ip (k div BSIZE) \<noteq> 0"
  shows "file_reads dt f ip off siz (\<lambda>k. fbyte f ip (unat off + k))"
  unfolding file_reads_def
proof (intro allI impI)
  fix i n :: u32 assume b: "unat i + unat n \<le> unat siz"
  have u: "unat (off + i) = unat off + unat i" using b assms(3,4) by (simp add: unat_word_ariths)
  have "readi dt ip (off + i) n f = Inr (int (unat n), map (fbyte f ip) [unat (off + i)..<unat (off + i) + unat n], f)"
    by (rule readi_file[OF assms(1,2)]) (use b u assms in auto)
  moreover have "map (fbyte f ip) [a..<a + n] = map (\<lambda>k. fbyte f ip (a + k)) [0..<n]" for a n by (rule nth_equalityI) simp_all
  ultimately show "readi dt ip (off + i) n f = Inr (int (unat n), map (\<lambda>k. fbyte f ip (unat off + (unat i + k))) [0..<unat n], f)" by (simp only: u add.assoc[symmetric])
qed

section \<open>One page\<close>

text \<open>Bytes stored at the start of a user page: the page tables stay, and the user sees exactly these bytes change.\<close>

lemma store_page:
  assumes ok: "space_ok kend m dir xs" and v: "mapped m dir v" "aligned v" and l: "length ds \<le> 4096"
    and m2: "m2 = m\<lparr>ram := wr (ram m) (leaf m dir v) ds\<rparr>"
  shows "space_ok kend m2 dir xs" "entry m2 dir va = entry m dir va"
    "mapped m dir va \<Longrightarrow> ubyte m2 dir va = (if PGROUNDDOWN va = v \<and> unat (va - v) < length ds then ds ! unat (va - v) else ubyte m dir va)"
proof -
  let ?q = "leaf m dir v"
  note S = space_okD[OF ok]
  have q: "page_ok kend ?q" "?q \<noteq> dir" "?q \<notin> set xs" "?q \<notin> tables m dir" using S(3)[OF usersI[OF v(1)]] by auto
  have al: "aligned ?q" by (rule page_ok_aligned[OF q(1)])
  obtain c where c: "unat ?q = 4096 * c" using al by (auto simp: aligned_def)
  have room: "unat ?q + 4096 \<le> 4294967296" using unat_lt32[of ?q] c by simp
  have ft: "fits ?q (length ds)" using l room by (simp add: fits_def)
  have off: "off_page ?q (ram m) (ram m2)"
    unfolding off_page_def m2 by (auto intro!: wr_apply(2)[OF ft] simp: in_page_def inside_def) (use l in linarith)+
  have fp: "free_pages kend m2 xs" using free_pages_off[OF _ off al q(3), of kend] pt_okD(1)[OF S(2)] by (simp add: m2)
  have dj: "set xs \<inter> insert dir (tables m dir \<union> users m dir) = {}" using ok pt_okD[OF S(2)] by (auto simp: space_ok_def)
  note so = space_ok_off[OF ok off al q(2,4) fp dj]
  show "space_ok kend m2 dir xs" "entry m2 dir va = entry m dir va" by (rule so)+
  assume ma: "mapped m dir va"
  have lf: "leaf m2 dir va = leaf m dir va" by (simp add: leaf_def so(4))
  have rm: "ram m2 = wr (ram m) ?q ds" by (simp add: m2)
  let ?o = "va - PGROUNDDOWN va"
  have o: "unat ?o < 4096" "PGROUNDDOWN va + ?o = va"
  proof -
    have "unat ?o = unat va - unat (PGROUNDDOWN va)" by (rule unat_sub) (simp add: word_le_nat_alt unat_PGROUNDDOWN)
    then show "unat ?o < 4096" by (simp add: unat_PGROUNDDOWN minus_div_mult_eq_mod)
  qed simp
  show "ubyte m2 dir va = (if PGROUNDDOWN va = v \<and> unat (va - v) < length ds then ds ! unat (va - v) else ubyte m dir va)"
  proof (cases "PGROUNDDOWN va = v")
    case True
    have lv: "leaf m dir va = ?q" using entry_page[of va v m dir] True PGROUNDDOWN_aligned[OF v(2)] by (simp add: leaf_def)
    show ?thesis
    proof (cases "unat ?o < length ds")
      case True2: True
      then have "wr (ram m) ?q ds (?q + of_nat (unat ?o)) = ds ! unat ?o" by (rule wr_apply(1)[OF ft])
      then show ?thesis using True True2 by (simp add: ubyte_def lf lv rm)
    next
      case False2: False
      have "unat (?q + ?o) = unat ?q + unat ?o" using o(1) room by (simp add: unat_word_ariths)
      then have "wr (ram m) ?q ds (?q + ?o) = ram m (?q + ?o)" using False2 by (intro wr_apply(2)[OF ft]) (simp add: inside_def)
      then show ?thesis using True False2 lv by (simp add: ubyte_def lf rm)
    qed
  next
    case False
    have "leaf m dir va \<noteq> ?q"
    proof
      assume "leaf m dir va = ?q"
      then have "PGROUNDDOWN va = PGROUNDDOWN v" using ok ma v(1) unfolding space_ok_def by blast
      then show False using False PGROUNDDOWN_aligned[OF v(2)] by simp
    qed
    moreover have ap: "aligned (leaf m dir va)" using page_ok_aligned S(3)[OF usersI[OF ma]] by blast
    moreover have "in_page (leaf m dir va) (leaf m dir va + ?o)"
    proof -
      obtain e where e: "unat (leaf m dir va) = 4096 * e" using ap by (auto simp: aligned_def)
      have "unat (leaf m dir va) + 4096 \<le> 4294967296" using unat_lt32[of "leaf m dir va"] e by simp
      then have "unat (leaf m dir va + ?o) = unat (leaf m dir va) + unat ?o" using o(1) by (simp add: unat_word_ariths)
      then show ?thesis using o(1) by (simp add: in_page_def inside_def)
    qed
    ultimately have "\<not> in_page ?q (leaf m dir va + ?o)" using in_page_unique[OF al, of "leaf m dir va" "leaf m dir va + ?o"] by auto
    then have "ram m2 (leaf m dir va + ?o) = ram m (leaf m dir va + ?o)" using off by (simp add: off_page_def)
    then show ?thesis using False by (simp add: ubyte_def lf)
  qed
qed

section \<open>The loop\<close>

definition loaded :: "u32 \<Rightarrow> u32 \<Rightarrow> u32 list \<Rightarrow> kmem \<Rightarrow> kmem \<Rightarrow> nat \<Rightarrow> nat \<Rightarrow> (nat \<Rightarrow> u8) \<Rightarrow> bool" where
  "loaded kend dir xs m m' a z g \<longleftrightarrow> space_ok kend m' dir xs \<and> (\<forall>va. entry m' dir va = entry m dir va) \<and>
     (\<forall>va. mapped m dir va \<longrightarrow> ubyte m' dir va = (if a \<le> unat va \<and> unat va < z then g (unat va) else ubyte m dir va))"

lemma load_loop_spec:
  assumes "space_ok kend m dir xs" and a: "aligned addr" "unat addr + unat siz \<le> 0x80000000" and "unat i mod 4096 = 0" "unat siz \<le> unat i + 4096 * n"
    and mp: "\<forall>va. unat addr \<le> unat va \<and> unat va < unat addr + unat siz \<longrightarrow> mapped m dir va"
    and rd: "file_reads dt f ip off siz g"
  shows "\<exists>m'. load_loop (Suc n) dt dir addr ip off siz i f m = Inr (0, f, m') \<and>
    loaded kend dir xs m m' (unat addr + unat i) (unat addr + unat siz) (\<lambda>k. g (k - unat addr))"
  using assms(1,4-6)
proof (induction n arbitrary: i m)
  case 0
  then have "\<not> i < siz" by (simp add: word_less_nat_alt)
  then show ?case using 0 by (auto simp: loaded_def)
next
  case (Suc n)
  show ?case
  proof (cases "i < siz")
    case False
    then have "unat siz \<le> unat i" by (simp add: word_less_nat_alt)
    then show ?thesis using Suc.prems(1) False by (subst load_loop.simps) (auto simp: loaded_def)
  next
    case True
    then have lt: "unat i < unat siz" by (simp add: word_less_nat_alt)
    define v where "v = addr + i"
    define k where "k = load_len siz i"
    have uv: "unat v = unat addr + unat i" using lt a(2) by (simp add: v_def unat_word_ariths)
    have av: "aligned v" using a(1) Suc.prems(2) uv by (simp add: aligned_def mod_eq_0_iff_dvd)
    have mv: "mapped m dir v" using Suc.prems(4) uv lt by simp
    have us: "unat (siz - i) = unat siz - unat i" by (rule unat_sub) (use lt in \<open>simp add: word_le_nat_alt\<close>)
    have k: "unat k = min (unat siz - unat i) 4096" by (auto simp: k_def load_len_def PGSIZE_def us word_less_nat_alt)
    let ?ds = "map (\<lambda>j. g (unat i + j)) [0..<unat k]"
    define m2 where "m2 = m\<lparr>ram := wr (ram m) (leaf m dir v) ?ds\<rparr>"
    note P = space_okD(2)[OF Suc.prems(1)]
    have pr: "present (pde m dir (PDX v))" using mv by (auto simp: mapped_def entry_def split: if_splits)
    note W = walk_noalloc[OF P, of v]
    have rk: "readi dt ip (off + i) k f = Inr (int (unat k), ?ds, f)"
    proof -
      have "unat i + unat k \<le> unat siz" using k lt by simp
      then show ?thesis using rd unfolding file_reads_def by blast
    qed
    have step: "load_loop (Suc (Suc n)) dt dir addr ip off siz i f m = load_loop (Suc n) dt dir addr ip off siz (i + PGSIZE) f m2"
      using True W(1) W(2)[OF pr] pr rk unfolding load_loop.simps(2)[of "Suc n"] v_def[symmetric] k_def[symmetric]
      by (simp add: res_simps m2_def leaf_def)
    have st: "space_ok kend m2 dir xs" "\<And>va. entry m2 dir va = entry m dir va"
      "\<And>va. mapped m dir va \<Longrightarrow> ubyte m2 dir va = (if PGROUNDDOWN va = v \<and> unat (va - v) < unat k then ?ds ! unat (va - v) else ubyte m dir va)"
      using store_page[OF Suc.prems(1) mv av _ m2_def] k by simp_all
    have mm: "mapped m2 dir va = mapped m dir va" for va using st(2) by (simp add: mapped_def)
    have ui: "unat (i + PGSIZE) = unat i + 4096" using lt a(2) by (simp add: PGSIZE_def unat_word_ariths)
    obtain m' where m': "load_loop (Suc n) dt dir addr ip off siz (i + PGSIZE) f m2 = Inr (0, f, m')"
      "loaded kend dir xs m2 m' (unat addr + (unat i + 4096)) (unat addr + unat siz) (\<lambda>k. g (k - unat addr))"
      using Suc.IH[OF st(1), of "i + PGSIZE"] Suc.prems(2-4) ui mm by auto
    have "ubyte m' dir va = (if unat addr + unat i \<le> unat va \<and> unat va < unat addr + unat siz then g (unat va - unat addr) else ubyte m dir va)" if ma: "mapped m dir va" for va
    proof -
      have r: "PGROUNDDOWN va = v \<longleftrightarrow> unat v \<le> unat va \<and> unat va < unat v + 4096"
        using in_page_iff[OF av, of va] by (auto simp: in_page_def inside_def)
      have s: "unat (va - v) = unat va - unat v" if "unat v \<le> unat va" using that by (intro unat_sub) (simp add: word_le_nat_alt)
      have b2: "ubyte m2 dir va = (if unat v \<le> unat va \<and> unat va < unat v + unat k then g (unat va - unat addr) else ubyte m dir va)"
        using st(3)[OF ma] r s k uv by auto
      show ?thesis using m'(2) ma mm b2 uv k lt unfolding loaded_def by auto
    qed
    then show ?thesis using step m' st(2) by (auto simp: loaded_def)
  qed
qed

section \<open>Properties\<close>

text \<open>
  C25: the loader puts the file where the program expects it. When the addresses of a segment are mapped in a well-formed address space
  and the file has the bytes \<open>g\<close> at the segment's offset, \<open>loaduvm\<close> neither panics nor fails: the user finds byte \<open>k\<close> of the segment at its
  \<open>k\<close>-th address, every other user byte and every mapping is as before (a segment that ends inside a page leaves the rest of that page),
  and the address space stays well formed.
\<close>

theorem loaduvm_loads:
  assumes "space_ok kend m dir xs" "addr mod PGSIZE = 0" "unat addr + unat siz \<le> unat KERNBASE"
    and "\<forall>va. unat addr \<le> unat va \<and> unat va < unat addr + unat siz \<longrightarrow> mapped m dir va"
    and "file_reads dt f ip off siz g"
  shows "\<exists>m'. loaduvm dt dir addr ip off siz f m = Inr (0, f, m') \<and> space_ok kend m' dir xs \<and> (\<forall>va. entry m' dir va = entry m dir va) \<and>
    (\<forall>va. mapped m dir va \<longrightarrow> ubyte m' dir va =
       (if unat addr \<le> unat va \<and> unat va < unat addr + unat siz then g (unat va - unat addr) else ubyte m dir va))"
proof -
  have np: "NPAGES = Suc (2 ^ 20 - 1)" by (simp add: NPAGES_def)
  have k: "unat addr + unat siz \<le> 0x80000000" using assms(3) by (simp add: KERNBASE_def)
  have "\<exists>m'. load_loop (Suc (2 ^ 20 - 1)) dt dir addr ip off siz 0 f m = Inr (0, f, m') \<and>
    loaded kend dir xs m m' (unat addr + unat (0 :: u32)) (unat addr + unat siz) (\<lambda>k. g (k - unat addr))"
    by (rule load_loop_spec[OF assms(1) _ k _ _ assms(4,5)]) (use assms(2) k in \<open>simp_all add: aligned_mod\<close>)
  then show ?thesis using assms(2) unfolding loaduvm_def np by (auto simp: loaded_def)
qed

text \<open>A page mapped by \<open>allocuvm\<close>, and five bytes from a device.\<close>

definition seven_dev :: devtab where
  "seven_dev = (\<lambda>_. \<lparr>dread = Some (\<lambda>_ n s. Inr (int (unat n), replicate (unat n) 7, s)), dwrite = None\<rparr>)"

definition seven_fs :: fsst where
  "seven_fs = demo_fs\<lparr>icache := [(icache demo_fs ! 0)\<lparr>itype := T_DEV, imajor := 1\<rparr>]\<rparr>"

lemma seven_reads: "file_reads seven_dev seven_fs 0 0 5 (\<lambda>_. 7)"
proof -
  have "map (\<lambda>_. 7) [0..<n] = replicate n (7 :: u8)" for n by (simp add: map_replicate_const)
  then show ?thesis by (simp add: file_reads_def readi_def seven_fs_def seven_dev_def NDEV_def Let_def)
qed

theorem loaduvm_loads_witness:
  "\<exists>m m'. allocuvm 0x80100000 0x80101000 0 4096 two_free = Inr (4096, m) \<and> loaduvm seven_dev 0x80101000 0 0 0 5 seven_fs m = Inr (0, seven_fs, m') \<and>
     ubyte m' 0x80101000 4 = 7 \<and> ubyte m' 0x80101000 5 = 0"
proof -
  have z: "PGROUNDUP 0 = 0" by (simp add: PGROUNDUP_def PGSIZE_def)
  obtain m ys where m: "allocuvm 0x80100000 0x80101000 0 4096 two_free = Inr (4096, m)" "grown 0x80100000 0x80101000 two_free [0x80102000, 0x80103000] m ys 0 4096"
    using alloc_page_demo by blast
  have ok: "space_ok 0x80100000 m 0x80101000 ys" using m(2) by (simp add: grown_def)
  have pg: "PGROUNDDOWN va = 0" if "unat va < 4096" for va using that by (simp add: word_unat_eq_iff unat_PGROUNDDOWN)
  have r: "in_rng 0 4096 va" if "unat va < 4096" for va using pg[OF that] by (simp add: in_rng_def)
  have mp: "mapped m 0x80101000 va" if "unat va < 4096" for va
    using m(2) r[OF that] that by (auto simp: grown_def mapped_def word_less_nat_alt KERNBASE_def)
  have z5: "ubyte m 0x80101000 5 = 0"
  proof -
    have "\<forall>b. in_page (leaf m 0x80101000 5) b \<longrightarrow> ram m b = 0" "leaf m 0x80101000 5 \<in> set [0x80102000, 0x80103000]" using m(2) r[of 5] by (auto simp: grown_def)
    then show ?thesis using pg[of 5] by (auto simp: ubyte_def in_page_def inside_def)
  qed
  obtain m' where m': "loaduvm seven_dev 0x80101000 0 0 0 5 seven_fs m = Inr (0, seven_fs, m')"
    "\<And>va. mapped m 0x80101000 va \<Longrightarrow> ubyte m' 0x80101000 va = (if unat va < 5 then 7 else ubyte m 0x80101000 va)"
    using loaduvm_loads[OF ok, of 0 5 seven_dev seven_fs 0 0 "\<lambda>_. 7"] mp seven_reads by (auto simp: KERNBASE_def)
  show ?thesis using m(1) m' mp[of 4] mp[of 5] z5 by auto
qed

end
