(* ===== verification/Pipe.thy ===== *)
theory Pipe
  imports Fifo
begin

text \<open>
  Pipes (\<open>pipe.c\<close>): a ring of 512 bytes with two free-running 32-bit counters. The pipe's lock is held from
  the entry of an operation to its return, except while it sleeps, so a run of an operation from entry or
  wakeup to the next sleep or return is one atomic step. A step gives the channels it wakes, in order.
\<close>

section \<open>The ring\<close>

definition PIPESIZE :: u32 where "PIPESIZE = 512"

record pipe =
  pdata :: "nat \<Rightarrow> u8"
  nread :: u32
  nwrite :: u32
  readopen :: bool
  writeopen :: bool

datatype pchan = ChNread | ChNwrite

definition pipe_new :: "(nat \<Rightarrow> u8) \<Rightarrow> pipe" where
  "pipe_new junk = \<lparr>pdata = junk, nread = 0, nwrite = 0, readopen = True, writeopen = True\<rparr>"

definition put_byte :: "u8 \<Rightarrow> pipe \<Rightarrow> pipe" where
  "put_byte b p = p\<lparr>pdata := (pdata p)(unat (nwrite p mod PIPESIZE) := b), nwrite := nwrite p + 1\<rparr>"

definition get_byte :: "pipe \<Rightarrow> u8 \<times> pipe" where
  "get_byte p = (pdata p (unat (nread p mod PIPESIZE)), p\<lparr>nread := nread p + 1\<rparr>)"

section \<open>Writing, reading, closing\<close>

text \<open>The outcome of a run: the operation returned, or sleeps with the bytes that are left to write.\<close>

datatype wres = Wrote | WFailed | WSleeps "u8 list"
datatype rres = Got "u8 list" | RFailed | RSleeps

fun write_loop :: "bool \<Rightarrow> u8 list \<Rightarrow> pipe \<Rightarrow> wres \<times> pipe \<times> pchan list" where
  "write_loop killed [] p = (Wrote, p, [ChNread])"
| "write_loop killed (b # bs) p =
    (if nwrite p = nread p + PIPESIZE then
       if \<not> readopen p \<or> killed then (WFailed, p, []) else (WSleeps (b # bs), p, [ChNread])
     else write_loop killed bs (put_byte b p))"

definition pipewrite :: "bool \<Rightarrow> u8 list \<Rightarrow> pipe \<Rightarrow> wres \<times> pipe \<times> pchan list" where
  "pipewrite killed addr p = write_loop killed addr p"

fun read_loop :: "nat \<Rightarrow> pipe \<Rightarrow> u8 list \<times> pipe" where
  "read_loop 0 p = ([], p)"
| "read_loop (Suc n) p =
    (if nread p = nwrite p then ([], p)
     else case get_byte p of (b, q) \<Rightarrow> (case read_loop n q of (bs, r) \<Rightarrow> (b # bs, r)))"

definition piperead :: "bool \<Rightarrow> nat \<Rightarrow> pipe \<Rightarrow> rres \<times> pipe \<times> pchan list" where
  "piperead killed n p =
    (if nread p = nwrite p \<and> writeopen p then (if killed then RFailed else RSleeps, p, [])
     else case read_loop n p of (bs, q) \<Rightarrow> (Got bs, q, [ChNwrite]))"

text \<open>The flag is true when the page of the pipe is freed.\<close>

definition pipeclose :: "bool \<Rightarrow> pipe \<Rightarrow> pipe \<times> pchan list \<times> bool" where
  "pipeclose writable p =
    (let q = (if writable then p\<lparr>writeopen := False\<rparr> else p\<lparr>readopen := False\<rparr>)
     in (q, [if writable then ChNread else ChNwrite], \<not> readopen q \<and> \<not> writeopen q))"

section \<open>The ring holds a sequence\<close>

definition pcount :: "pipe \<Rightarrow> nat" where "pcount p = unat (nwrite p - nread p)"

definition content :: "pipe \<Rightarrow> u8 list" where
  "content p = map (\<lambda>k. pdata p (unat ((nread p + of_nat k) mod PIPESIZE))) [0..<pcount p]"

definition pipe_ok :: "pipe \<Rightarrow> bool" where "pipe_ok p \<longleftrightarrow> pcount p \<le> 512"

lemma length_content [simp]: "length (content p) = pcount p"
  by (simp add: content_def)

lemma pipe_new_ok [simp]: "pipe_ok (pipe_new j)" "content (pipe_new j) = []"
  by (simp_all add: pipe_new_def pipe_ok_def content_def pcount_def)

lemma content_close [simp]:
  "content (p\<lparr>writeopen := x\<rparr>) = content p" "content (p\<lparr>readopen := x\<rparr>) = content p"
  "pcount (p\<lparr>writeopen := x\<rparr>) = pcount p" "pcount (p\<lparr>readopen := x\<rparr>) = pcount p"
  "pipe_ok (p\<lparr>writeopen := x\<rparr>) = pipe_ok p" "pipe_ok (p\<lparr>readopen := x\<rparr>) = pipe_ok p"
  by (simp_all add: content_def pcount_def pipe_ok_def)

lemma full_iff: "nwrite p = nread p + PIPESIZE \<longleftrightarrow> pcount p = 512"
proof -
  have "nwrite p = nread p + PIPESIZE \<longleftrightarrow> nwrite p - nread p = 512" by (auto simp: PIPESIZE_def diff_eq_eq add.commute)
  then show ?thesis by (simp add: pcount_def word_unat_eq_iff)
qed

lemma empty_iff: "nread p = nwrite p \<longleftrightarrow> pcount p = 0"
  by (auto simp: pcount_def unat_eq_zero)

lemma pcount_Suc:
  assumes "pcount p < 512"
  shows "unat (nwrite p + 1 - nread p) = Suc (pcount p)"
proof -
  have e: "nwrite p + 1 - nread p = (nwrite p - nread p) + 1" by simp
  show ?thesis using assms unfolding e pcount_def by (simp add: unat_word_ariths)
qed

lemma nwrite_eq: "nwrite p = nread p + of_nat (pcount p)"
  by (simp add: pcount_def)

text \<open>The size of the ring divides the range of the counters, so a slot is determined across the wrap-around.\<close>

lemma slot_unat: "unat ((a :: u32) mod PIPESIZE) = unat a mod 512"
  by (simp add: PIPESIZE_def unat_mod)

lemma slot_inj:
  assumes "i < 512" "j < 512" "unat (((a :: u32) + of_nat i) mod PIPESIZE) = unat ((a + of_nat j) mod PIPESIZE)"
  shows "i = j"
proof -
  have s: "unat ((a + of_nat k) mod PIPESIZE) = (unat a + k) mod 512" for k
  proof -
    have "unat (a + of_nat k) mod 512 = (unat a + k) mod 4294967296 mod 512" by (simp add: unat_word_ariths unat_of_nat mod_add_right_eq)
    also have "\<dots> = (unat a + k) mod 512" by (rule mod_mod_cancel) simp
    finally show ?thesis by (simp add: slot_unat)
  qed
  show ?thesis using assms mod_add_inj[of i 512 j "unat a"] by (simp add: s)
qed

lemma put_byte_content:
  assumes "pcount p < 512"
  shows "content (put_byte b p) = content p @ [b]" "pipe_ok (put_byte b p)"
proof -
  have c: "pcount (put_byte b p) = Suc (pcount p)" using pcount_Suc[OF assms] by (simp add: pcount_def put_byte_def)
  then show "pipe_ok (put_byte b p)" using assms by (simp add: pipe_ok_def)
  have "pdata (put_byte b p) (unat ((nread p + of_nat k) mod PIPESIZE)) = pdata p (unat ((nread p + of_nat k) mod PIPESIZE))"
    if "k < pcount p" for k
    using slot_inj[of k "pcount p" "nread p"] that assms nwrite_eq[of p] by (auto simp: put_byte_def)
  moreover have "pdata (put_byte b p) (unat ((nread p + of_nat (pcount p)) mod PIPESIZE)) = b"
    using nwrite_eq[of p] by (simp add: put_byte_def)
  ultimately show "content (put_byte b p) = content p @ [b]"
    unfolding content_def c by (simp add: put_byte_def)
qed

lemma get_byte_content:
  assumes "pcount p \<noteq> 0" "pipe_ok p"
  shows "content p = fst (get_byte p) # content (snd (get_byte p))" "pipe_ok (snd (get_byte p))"
proof -
  obtain c where c: "pcount p = Suc c" using assms(1) not0_implies_Suc by blast
  have "nwrite p - nread p = of_nat (Suc c)" using nwrite_eq[of p] c by simp
  then have "nwrite p - (nread p + 1) = of_nat c" by (simp add: algebra_simps)
  then have d: "pcount (snd (get_byte p)) = c"
    using assms(2) c by (simp add: pcount_def get_byte_def pipe_ok_def unat_of_nat)
  then show "pipe_ok (snd (get_byte p))" using assms(2) c by (simp add: pipe_ok_def)
  show "content p = fst (get_byte p) # content (snd (get_byte p))"
    unfolding content_def c d upt_conv_Cons[OF zero_less_Suc]
    by (simp add: get_byte_def map_Suc_upt[symmetric] comp_def algebra_simps del: map_Suc_upt upt_Suc)
qed

interpretation pipe: fifo pipe_ok content
  "\<lambda>p. if nread p = nwrite p then Inl (Fault ''empty'') else Inr (get_byte p)"
  "\<lambda>b p. Inr (put_byte b p)" "\<lambda>b p. nwrite p \<noteq> nread p + PIPESIZE"
proof
  fix p x xs
  assume p: "pipe_ok p" "content p = x # xs"
  then have "pcount p \<noteq> 0" by (metis length_content length_0_conv list.distinct(1))
  then show "\<exists>t. (if nread p = nwrite p then Inl (Fault ''empty'') else Inr (get_byte p)) = Inr (x, t) \<and> pipe_ok t \<and> content t = xs"
    using p get_byte_content[of p] by (cases "get_byte p") (auto simp: empty_iff)
next
  fix p assume "pipe_ok p" "content p = []"
  then show "\<exists>e. (if nread p = nwrite p then Inl (Fault ''empty'') else Inr (get_byte p)) = Inl e"
    by (metis empty_iff length_content list.size(3))
next
  fix p x assume "pipe_ok p" "nwrite p \<noteq> nread p + PIPESIZE"
  then have "pcount p < 512" by (simp add: pipe_ok_def full_iff)
  then show "\<exists>t. Inr (put_byte x p) = Inr t \<and> pipe_ok t \<and> content t = content p @ [x]"
    using put_byte_content by blast
qed

lemma write_loop_spec:
  assumes "write_loop k bs p = (r, q, ws)" "pipe_ok p"
  shows "\<exists>done rest. bs = done @ rest \<and> content q = content p @ done \<and> pipe_ok q \<and> readopen q = readopen p \<and> writeopen q = writeopen p \<and>
     (r = Wrote \<and> rest = [] \<and> ws = [ChNread] \<or> r = WSleeps rest \<and> rest \<noteq> [] \<and> pcount q = 512 \<and> ws = [ChNread] \<or>
      r = WFailed \<and> pcount q = 512 \<and> (\<not> readopen p \<or> k) \<and> ws = [] )"
  using assms
proof (induction k bs p rule: write_loop.induct)
  case (2 k b bs p)
  show ?case
  proof (cases "pcount p = 512")
    case True
    then have e: "nwrite p = nread p + PIPESIZE" by (simp add: full_iff)
    show ?thesis using 2(2,3) True by (intro exI[of _ "[]"] exI[of _ "b # bs"]) (auto simp: e split: if_splits)
  next
    case False
    then have f: "nwrite p \<noteq> nread p + PIPESIZE" "pcount p < 512" using 2(3) by (simp_all add: full_iff pipe_ok_def)
    note c = put_byte_content[OF f(2), of b]
    have "write_loop k bs (put_byte b p) = (r, q, ws)" using 2(2) f(1) by simp
    from 2(1)[OF f(1) this c(2)] obtain d rest where d: "bs = d @ rest" "content q = content (put_byte b p) @ d" "pipe_ok q"
      "readopen q = readopen (put_byte b p) \<and> writeopen q = writeopen (put_byte b p)"
      "r = Wrote \<and> rest = [] \<and> ws = [ChNread] \<or> r = WSleeps rest \<and> rest \<noteq> [] \<and> pcount q = 512 \<and> ws = [ChNread] \<or>
       r = WFailed \<and> pcount q = 512 \<and> (\<not> readopen (put_byte b p) \<or> k) \<and> ws = []" by blast
    have "readopen (put_byte b p) = readopen p" "writeopen (put_byte b p) = writeopen p" by (simp_all add: put_byte_def)
    then show ?thesis using d c(1) by (intro exI[of _ "b # d"] exI[of _ rest]) auto
  qed
qed auto

lemma read_loop_spec:
  assumes "read_loop n p = (bs, q)" "pipe_ok p"
  shows "content p = bs @ content q \<and> length bs = min n (pcount p) \<and> pipe_ok q \<and> readopen q = readopen p \<and> writeopen q = writeopen p"
  using assms
proof (induction n p arbitrary: bs rule: read_loop.induct)
  case (2 n p)
  show ?case
  proof (cases "pcount p = 0")
    case True
    then show ?thesis using 2(2,3) by (auto simp: empty_iff)
  next
    case False
    note c = get_byte_content[OF False 2(3)]
    obtain b r where g: "get_byte p = (b, r)" by fastforce
    obtain cs where r: "read_loop n r = (cs, q)" "bs = b # cs"
      using 2(2) False g by (auto simp: empty_iff split: prod.splits)
    have "content r = cs @ content q \<and> length cs = min n (pcount r) \<and> pipe_ok q \<and> readopen q = readopen r \<and> writeopen q = writeopen r"
      using 2(1)[of b r cs] False g r c by (simp add: empty_iff)
    moreover have "pcount p = Suc (pcount r)" using arg_cong[OF c(1), of length] g by simp
    moreover have "readopen r = readopen p" "writeopen r = writeopen p" using g by (auto simp: get_byte_def)
    ultimately show ?thesis using c g r by auto
  qed
qed auto

section \<open>Writers and readers of one pipe\<close>

text \<open>
  A process in \<open>pipewrite\<close> is about to run with the bytes it has left, or asleep on \<open>nwrite\<close>; one in
  \<open>piperead\<close> is about to run or asleep on \<open>nread\<close>. \<open>kill\<close> makes a sleeping process run again. The write end is closed
  when no process is in \<open>pipewrite\<close>, since a process in the call holds a reference to the file, and so for the read end.
  \<open>sent\<close> and \<open>received\<close> record the bytes that went into and came out of the pipe, and \<open>wkilled\<close> that a write
  was cut short because its process was killed.
\<close>

datatype wphase = WIdle | WReady "u8 list" | WAsleep "u8 list"
datatype rphase = RIdle | RReady nat | RAsleep nat

record psys =
  thepipe :: pipe
  writers :: "wphase list"
  readers :: "rphase list"
  sent :: "u8 list"
  received :: "u8 list"
  freed :: bool
  wkilled :: bool

fun wake_w :: "wphase \<Rightarrow> wphase" where
  "wake_w (WAsleep bs) = WReady bs" | "wake_w w = w"

fun wake_r :: "rphase \<Rightarrow> rphase" where
  "wake_r (RAsleep n) = RReady n" | "wake_r r = r"

definition pwake :: "pchan list \<Rightarrow> psys \<Rightarrow> psys" where
  "pwake ws s = s\<lparr>writers := if ChNwrite \<in> set ws then map wake_w (writers s) else writers s,
     readers := if ChNread \<in> set ws then map wake_r (readers s) else readers s\<rparr>"

fun wnext :: "wres \<Rightarrow> wphase" where
  "wnext (WSleeps bs) = WAsleep bs" | "wnext r = WIdle"

fun rnext :: "nat \<Rightarrow> rres \<Rightarrow> rphase" where
  "rnext n RSleeps = RAsleep n" | "rnext n r = RIdle"

fun rbytes :: "rres \<Rightarrow> u8 list" where
  "rbytes (Got bs) = bs" | "rbytes r = []"

inductive pstep :: "psys \<Rightarrow> psys \<Rightarrow> bool" where
  w_call: "i < length (writers s) \<Longrightarrow> writers s ! i = WIdle \<Longrightarrow> writeopen (thepipe s) \<Longrightarrow>
    pstep s (s\<lparr>writers := (writers s)[i := WReady bs]\<rparr>)"
| w_run: "i < length (writers s) \<Longrightarrow> writers s ! i = WReady bs \<Longrightarrow> pipewrite k bs (thepipe s) = (r, q, ws) \<Longrightarrow>
    pstep s ((pwake ws s)\<lparr>thepipe := q, writers := (writers (pwake ws s))[i := wnext r],
       sent := sent s @ drop (pcount (thepipe s)) (content q), wkilled := wkilled s \<or> r = WFailed \<and> readopen (thepipe s)\<rparr>)"
| w_kill: "i < length (writers s) \<Longrightarrow> pstep s (s\<lparr>writers := (writers s)[i := wake_w (writers s ! i)]\<rparr>)"
| r_call: "i < length (readers s) \<Longrightarrow> readers s ! i = RIdle \<Longrightarrow> readopen (thepipe s) \<Longrightarrow>
    pstep s (s\<lparr>readers := (readers s)[i := RReady n]\<rparr>)"
| r_run: "i < length (readers s) \<Longrightarrow> readers s ! i = RReady n \<Longrightarrow> piperead k n (thepipe s) = (r, q, ws) \<Longrightarrow>
    pstep s ((pwake ws s)\<lparr>thepipe := q, readers := (readers (pwake ws s))[i := rnext n r], received := received s @ rbytes r\<rparr>)"
| r_kill: "i < length (readers s) \<Longrightarrow> pstep s (s\<lparr>readers := (readers s)[i := wake_r (readers s ! i)]\<rparr>)"
| close_w: "writeopen (thepipe s) \<Longrightarrow> set (writers s) \<subseteq> {WIdle} \<Longrightarrow> pipeclose True (thepipe s) = (q, ws, f) \<Longrightarrow>
    pstep s ((pwake ws s)\<lparr>thepipe := q, freed := f\<rparr>)"
| close_r: "readopen (thepipe s) \<Longrightarrow> set (readers s) \<subseteq> {RIdle} \<Longrightarrow> pipeclose False (thepipe s) = (q, ws, f) \<Longrightarrow>
    pstep s ((pwake ws s)\<lparr>thepipe := q, freed := f\<rparr>)"

inductive preach :: "psys \<Rightarrow> psys \<Rightarrow> bool" for s0 where
  start: "preach s0 s0"
| go: "preach s0 s \<Longrightarrow> pstep s t \<Longrightarrow> preach s0 t"

definition pinit :: "(nat \<Rightarrow> u8) \<Rightarrow> nat \<Rightarrow> nat \<Rightarrow> psys" where
  "pinit junk w r = \<lparr>thepipe = pipe_new junk, writers = replicate w WIdle, readers = replicate r RIdle, sent = [], received = [], freed = False, wkilled = False\<rparr>"

definition pinv :: "psys \<Rightarrow> bool" where
  "pinv s \<longleftrightarrow> pipe_ok (thepipe s) \<and> received s @ content (thepipe s) = sent s \<and>
     (\<forall>bs. WAsleep bs \<in> set (writers s) \<longrightarrow> pcount (thepipe s) = 512) \<and>
     (\<forall>n. RAsleep n \<in> set (readers s) \<longrightarrow> (pcount (thepipe s) = 0 \<or> wkilled s) \<and> writeopen (thepipe s)) \<and>
     (\<not> writeopen (thepipe s) \<longrightarrow> set (writers s) \<subseteq> {WIdle}) \<and> (\<not> readopen (thepipe s) \<longrightarrow> set (readers s) \<subseteq> {RIdle}) \<and>
     (freed s \<longleftrightarrow> \<not> readopen (thepipe s) \<and> \<not> writeopen (thepipe s))"

inductive_cases pstepE: "pstep s t"

lemma wake_w_asleep [simp]: "wake_w w \<noteq> WAsleep bs" "wake_w w = WIdle \<longleftrightarrow> w = WIdle"
  by (cases w; simp)+

lemma wake_r_asleep [simp]: "wake_r r \<noteq> RAsleep n" "wake_r r = RIdle \<longleftrightarrow> r = RIdle"
  by (cases r; simp)+

lemma wake_none [simp]: "WAsleep bs \<notin> wake_w ` A" "RAsleep n \<notin> wake_r ` B"
  by (metis imageE wake_w_asleep(1), metis imageE wake_r_asleep(1))

lemma set_upd: "x \<in> set (xs[i := y]) \<Longrightarrow> x = y \<or> x \<in> set xs"
  by (meson in_mono insertE set_update_subset_insert)

lemma only_idle_upd: "set xs \<subseteq> {y} \<Longrightarrow> set (xs[i := y]) \<subseteq> {y}"
  using set_update_subset_insert[of xs i y] by blast

lemma only_idle_wake: "set ws \<subseteq> {WIdle} \<Longrightarrow> set (map wake_w ws) \<subseteq> {WIdle}" "set rs \<subseteq> {RIdle} \<Longrightarrow> set (map wake_r rs) \<subseteq> {RIdle}"
  by auto

lemma pinv_write:
  assumes "pinv s" "i < length (writers s)" "writers s ! i = WReady bs" "pipewrite k bs (thepipe s) = (r, q, ws)"
  shows "pinv ((pwake ws s)\<lparr>thepipe := q, writers := (writers (pwake ws s))[i := wnext r],
       sent := sent s @ drop (pcount (thepipe s)) (content q), wkilled := wkilled s \<or> r = WFailed \<and> readopen (thepipe s)\<rparr>)" (is "pinv ?t")
proof -
  note I = assms(1)[unfolded pinv_def]
  have wi: "WReady bs \<in> set (writers s)" using assms(2,3) nth_mem by metis
  then have wo: "writeopen (thepipe s)" using I by auto
  obtain d rest where d: "bs = d @ rest" "content q = content (thepipe s) @ d" "pipe_ok q" "readopen q = readopen (thepipe s)"
    "writeopen q = writeopen (thepipe s)"
    "r = Wrote \<and> rest = [] \<and> ws = [ChNread] \<or> r = WSleeps rest \<and> rest \<noteq> [] \<and> pcount q = 512 \<and> ws = [ChNread] \<or>
      r = WFailed \<and> pcount q = 512 \<and> (\<not> readopen (thepipe s) \<or> k) \<and> ws = []"
    using write_loop_spec[of k bs "thepipe s" r q ws] assms(4) I by (auto simp: pipewrite_def)
  have len: "pcount q = pcount (thepipe s) + length d" using arg_cong[OF d(2), of length] by simp
  have nw: "ChNwrite \<notin> set ws" using d(6) by auto
  then have w: "writers ?t = (writers s)[i := wnext r]" by (simp add: pwake_def)
  have asleep: "pcount q = 512" if "WAsleep cs \<in> set (writers ?t)" for cs
  proof -
    have "WAsleep cs = wnext r \<or> WAsleep cs \<in> set (writers s)" using that set_upd unfolding w by metis
    moreover have "pcount q = 512" if "WAsleep cs = wnext r" using that d(6) by (cases r) auto
    moreover have "pcount q = 512" if "WAsleep cs \<in> set (writers s)"
      using that I len d(3) by (auto simp: pipe_ok_def)
    ultimately show ?thesis by blast
  qed
  have rd: "(pcount q = 0 \<or> wkilled ?t) \<and> writeopen q" if "RAsleep n \<in> set (readers ?t)" for n
  proof -
    have a: "RAsleep n \<in> set (readers s)" "ChNread \<notin> set ws" using that by (auto simp: pwake_def split: if_splits)
    then have "r = WFailed" using d(6) by auto
    moreover have "readopen (thepipe s)" using I a(1) by auto
    ultimately show ?thesis using d(5) wo by simp
  qed
  have "received s @ content q = sent s @ drop (pcount (thepipe s)) (content q)"
    using I d(2) by (metis append_assoc append_eq_conv_conj length_content)
  moreover have "set (readers ?t) \<subseteq> {RIdle}" if "\<not> readopen (thepipe s)"
    using I that only_idle_wake(2)[of "readers s"] by (simp add: pwake_def)
  ultimately show ?thesis
    using I d asleep rd wo unfolding pinv_def by (simp add: pwake_def)
qed

lemma pinv_read:
  assumes "pinv s" "i < length (readers s)" "readers s ! i = RReady n" "piperead k n (thepipe s) = (r, q, ws)"
  shows "pinv ((pwake ws s)\<lparr>thepipe := q, readers := (readers (pwake ws s))[i := rnext n r], received := received s @ rbytes r\<rparr>)"
    (is "pinv ?t")
proof -
  note I = assms(1)[unfolded pinv_def]
  have ri: "RReady n \<in> set (readers s)" using assms(2,3) nth_mem by metis
  then have ro: "readopen (thepipe s)" using I by auto
  show ?thesis
  proof (cases "pcount (thepipe s) = 0 \<and> writeopen (thepipe s)")
    case True
    then have q: "q = thepipe s" "ws = []" "rbytes r = []" "RAsleep m = rnext n r \<Longrightarrow> m = n" for m
      using assms(4) by (auto simp: piperead_def empty_iff split: if_splits)
    have "(pcount q = 0 \<or> wkilled s) \<and> writeopen q" using True q by simp
    then show ?thesis using I ro q by (auto simp: pinv_def pwake_def)
  next
    case False
    then obtain bs where bs: "read_loop n (thepipe s) = (bs, q)" "r = Got bs" "ws = [ChNwrite]"
      using assms(4) by (auto simp: piperead_def empty_iff split: prod.splits)
    note c = read_loop_spec[OF bs(1)]
    have c: "content (thepipe s) = bs @ content q" "length bs = min n (pcount (thepipe s))" "pipe_ok q"
        "readopen q = readopen (thepipe s)" "writeopen q = writeopen (thepipe s)" using c I by auto
    have len: "pcount q \<le> pcount (thepipe s)" using arg_cong[OF c(1), of length] by simp
    have "RAsleep m \<in> set (readers s)" if "RAsleep m \<in> set ((readers s)[i := RIdle])" for m
      using that set_upd[of "RAsleep m"] by fastforce
    then have rd: "(pcount q = 0 \<or> wkilled s) \<and> writeopen q" if "RAsleep m \<in> set ((readers s)[i := RIdle])" for m
      using that I len c(5) by fastforce
    have "\<not> writeopen (thepipe s) \<Longrightarrow> set (map wake_w (writers s)) \<subseteq> {WIdle}" using I only_idle_wake(1) by blast
    then show ?thesis using I c bs rd ro by (auto simp: pinv_def pwake_def)
  qed
qed

lemma pinv_step: "pstep s t \<Longrightarrow> pinv s \<Longrightarrow> pinv t"
proof (induction rule: pstep.induct)
  case (w_call i s bs)
  have "WAsleep cs \<in> set (writers s)" if "WAsleep cs \<in> set ((writers s)[i := WReady bs])" for cs
    using that set_upd[of "WAsleep cs"] by fastforce
  then show ?case using w_call by (auto simp: pinv_def)
next
  case (w_run i s bs k r q ws)
  then show ?case by (intro pinv_write)
next
  case (w_kill i s)
  have "WAsleep cs \<in> set (writers s)" if "WAsleep cs \<in> set ((writers s)[i := wake_w (writers s ! i)])" for cs
    using that set_upd[of "WAsleep cs"] by (metis wake_w_asleep(1))
  moreover have "set ((writers s)[i := wake_w (writers s ! i)]) \<subseteq> {WIdle}" if "set (writers s) \<subseteq> {WIdle}"
  proof -
    have "writers s ! i = WIdle" using that nth_mem[OF w_kill(1)] by blast
    then show ?thesis using only_idle_upd[OF that, of i] by simp
  qed
  ultimately show ?case using w_kill by (auto simp: pinv_def)
next
  case (r_call i s n)
  have "RAsleep m \<in> set (readers s)" if "RAsleep m \<in> set ((readers s)[i := RReady n])" for m
    using that set_upd[of "RAsleep m"] by fastforce
  then show ?case using r_call by (auto simp: pinv_def)
next
  case (r_run i s n k r q ws)
  then show ?case by (intro pinv_read)
next
  case (r_kill i s)
  have "RAsleep m \<in> set (readers s)" if "RAsleep m \<in> set ((readers s)[i := wake_r (readers s ! i)])" for m
    using that set_upd[of "RAsleep m"] by (metis wake_r_asleep(1))
  moreover have "set ((readers s)[i := wake_r (readers s ! i)]) \<subseteq> {RIdle}" if "set (readers s) \<subseteq> {RIdle}"
  proof -
    have "readers s ! i = RIdle" using that nth_mem[OF r_kill(1)] by blast
    then show ?thesis using only_idle_upd[OF that, of i] by simp
  qed
  ultimately show ?case using r_kill by (auto simp: pinv_def)
next
  case (close_w s q ws f)
  note I = close_w.prems[unfolded pinv_def]
  have q: "q = (thepipe s)\<lparr>writeopen := False\<rparr>" "ws = [ChNread]" "f \<longleftrightarrow> \<not> readopen (thepipe s)"
    using close_w.hyps(3) by (auto simp: pipeclose_def Let_def)
  have "RAsleep n \<notin> set (map wake_r (readers s))" for n by simp
  moreover have "WAsleep bs \<notin> set (writers s)" for bs using close_w.hyps(2) by blast
  ultimately show ?case using I q close_w.hyps(2) only_idle_wake(2)[of "readers s"] unfolding pinv_def by (simp add: pwake_def)
next
  case (close_r s q ws f)
  note I = close_r.prems[unfolded pinv_def]
  have q: "q = (thepipe s)\<lparr>readopen := False\<rparr>" "ws = [ChNwrite]" "f \<longleftrightarrow> \<not> writeopen (thepipe s)"
    using close_r.hyps(3) by (auto simp: pipeclose_def Let_def)
  have "WAsleep bs \<notin> set (map wake_w (writers s))" for bs by simp
  moreover have "RAsleep n \<notin> set (readers s)" for n using close_r.hyps(2) by blast
  ultimately show ?case using I q close_r.hyps(2) only_idle_wake(1)[of "writers s"] unfolding pinv_def by (simp add: pwake_def)
qed

lemma pinv_init: "pinv (pinit junk w r)"
  by (auto simp: pinv_def pinit_def pipe_new_def pipe_ok_def content_def pcount_def)

lemma pinv_reach: "preach s0 s \<Longrightarrow> pinv s0 \<Longrightarrow> pinv s"
  by (induction rule: preach.induct) (auto intro: pinv_step)


lemma preach_run:
  "i < length (writers s) \<Longrightarrow> writers s ! i = WReady bs \<Longrightarrow> pipewrite k bs (thepipe s) = (r, q, ws) \<Longrightarrow> preach s0 s \<Longrightarrow>
   preach s0 ((pwake ws s)\<lparr>thepipe := q, writers := (writers (pwake ws s))[i := wnext r],
       sent := sent s @ drop (pcount (thepipe s)) (content q), wkilled := wkilled s \<or> r = WFailed \<and> readopen (thepipe s)\<rparr>)"
  by (erule preach.go) (rule pstep.w_run)


lemma write_fills:
  assumes "pcount p + length ds = 512"
  shows "write_loop True (ds @ [b]) p = (WFailed, foldl (\<lambda>p b. put_byte b p) p ds, []) \<and> pcount (foldl (\<lambda>p b. put_byte b p) p ds) = 512 \<and>
     writeopen (foldl (\<lambda>p b. put_byte b p) p ds) = writeopen p"
  using assms
proof (induction ds arbitrary: p)
  case Nil
  then show ?case by (simp add: full_iff)
next
  case (Cons d ds)
  then have c: "pcount p < 512" by simp
  have "pcount (put_byte d p) = Suc (pcount p)" using pcount_Suc[OF c] by (simp add: pcount_def put_byte_def)
  with Cons c show ?case by (simp add: full_iff put_byte_def)
qed

text \<open>
  C31: a write that is cut short because its process was killed does not wake the readers: there is a reachable state
  in which the ring is full, the write end is open, every writer has returned, and the reader is still asleep.
\<close>

theorem killed_writer_loses_wakeup:
  "\<exists>s. preach (pinit junk 1 1) s \<and> pcount (thepipe s) = 512 \<and> writeopen (thepipe s) \<and> writers s = [WIdle] \<and> readers s = [RAsleep 1]"
proof -
  define ds :: "u8 list" where "ds = replicate 512 0"
  have len: "length ds = 512" by (simp add: ds_def)
  let ?a = "pinit junk 1 1"
  let ?b = "?a\<lparr>readers := [RReady 1]\<rparr>"
  let ?c = "?b\<lparr>readers := [RAsleep 1]\<rparr>"
  let ?bs = "ds @ [0]"
  let ?d = "?c\<lparr>writers := [WReady ?bs]\<rparr>"
  let ?q = "foldl (\<lambda>p b. put_byte b p) (pipe_new junk) ds"
  let ?e = "(pwake [] ?d)\<lparr>thepipe := ?q, writers := (writers (pwake [] ?d))[0 := wnext WFailed],
       sent := sent ?d @ drop (pcount (thepipe ?d)) (content ?q), wkilled := wkilled ?d \<or> WFailed = WFailed \<and> readopen (thepipe ?d)\<rparr>"
  have b: "preach ?a ?b" using preach.go[OF preach.start pstep.r_call[of 0 ?a 1]] by (simp add: pinit_def pipe_new_def)
  have "piperead False 1 (thepipe ?b) = (RSleeps, thepipe ?b, [])" by (simp add: piperead_def pinit_def pipe_new_def)
  from preach.go[OF b pstep.r_run[OF _ _ this, of 0]] have c: "preach ?a ?c" by (simp add: pwake_def pinit_def)
  have d: "preach ?a ?d" using preach.go[OF c pstep.w_call[of 0 ?c ?bs]] by (simp add: pinit_def pipe_new_def)
  have f: "write_loop True ?bs (pipe_new junk) = (WFailed, ?q, []) \<and> pcount ?q = 512 \<and> writeopen ?q = writeopen (pipe_new junk)"
    by (rule write_fills) (simp add: pipe_new_def pcount_def len)
  then have run: "pipewrite True ?bs (thepipe ?d) = (WFailed, ?q, [])" by (simp add: pipewrite_def pinit_def)
  have e: "preach ?a ?e" by (rule preach_run[OF _ _ run d]) simp_all
  show ?thesis using e f by (intro exI[of _ ?e]) (simp add: pwake_def pinit_def pipe_new_def)
qed

end
