(* ===== verification/File.thy ===== *)
theory File
  imports Dir Pipe Kalloc
begin

text \<open>
  The file table (\<open>file.c\<close>, \<open>pipealloc\<close> of \<open>pipe.c\<close>) and the part of the process that file system calls use. A pointer
  to a file structure is its index in \<open>ftable\<close>, a pointer to a pipe is the address of its page. The calls of one
  process are modelled as it runs alone: a sleep that only another process can end is the outcome \<open>Diverges\<close>.
\<close>

section \<open>State\<close>

definition NFILE :: nat where "NFILE = 100"

datatype ftype = FD_NONE | FD_PIPE | FD_INODE

record filest =
  ftyp :: ftype
  fref :: int
  readable :: bool
  writable :: bool
  fpipe :: u32
  fip :: nat
  foff :: u32

text \<open>
  \<open>ofiles\<close>, \<open>curdir\<close>, \<open>mypid\<close> and \<open>mykilled\<close> are fields of \<open>myproc()\<close>; \<open>woken\<close> records the wakeups of the pipe operations,
  \<open>kend\<close> is the end of the kernel that \<open>kfree\<close> checks addresses against.
\<close>

record sysst =
  fsys :: fsst
  ftable :: "filest list"
  pipes :: "u32 \<Rightarrow> pipe"
  kpages :: kmem
  kend :: u32
  woken :: "(u32 \<times> pchan) list"
  ofiles :: "nat option list"
  curdir :: "nat option"
  mypid :: int
  mykilled :: bool

definition upd_file :: "nat \<Rightarrow> (filest \<Rightarrow> filest) \<Rightarrow> sysst \<Rightarrow> sysst" where
  "upd_file f g s = s\<lparr>ftable := (ftable s)[f := g (ftable s ! f)]\<rparr>"

definition on_fs :: "(fsst \<Rightarrow> fsst result) \<Rightarrow> sysst \<Rightarrow> sysst result" where
  "on_fs g s = bind_r (g (fsys s)) (\<lambda>t. Inr (s\<lparr>fsys := t\<rparr>))"

text \<open>
  \<open>begin_op\<close> and \<open>end_op\<close> on the block view: the reservation is counted in \<open>ops\<close>, a commit empties the transaction and
  leaves the blocks as they are seen.
\<close>

definition begin_tx :: "fsst \<Rightarrow> fsst result" where
  "begin_tx s = (if int (length (logged s)) + (ops s + 1) * MAXOPBLOCKS > LOGSIZE then Inl (Diverges ''begin_op'') else Inr (s\<lparr>ops := ops s + 1\<rparr>))"

definition end_tx :: "fsst \<Rightarrow> fsst result" where
  "end_tx s = Inr (if ops s - 1 = 0 then s\<lparr>ops := 0, logged := []\<rparr> else s\<lparr>ops := ops s - 1\<rparr>)"

section \<open>file.c\<close>

definition filealloc :: "sysst \<Rightarrow> nat option \<times> sysst" where
  "filealloc s =
    (case find_idx (\<lambda>f. fref f = 0) (ftable s) of
       Some f \<Rightarrow> (Some f, upd_file f (\<lambda>x. x\<lparr>fref := 1\<rparr>) s)
     | None \<Rightarrow> (None, s))"

definition filedup :: "nat \<Rightarrow> sysst \<Rightarrow> sysst result" where
  "filedup f s =
    (if fref (ftable s ! f) < 1 then Inl (Panic ''filedup'')
     else Inr (upd_file f (\<lambda>x. x\<lparr>fref := fref x + 1\<rparr>) s))"

definition pipe_close :: "u32 \<Rightarrow> bool \<Rightarrow> sysst \<Rightarrow> sysst result" where
  "pipe_close p w s =
    (case pipeclose w (pipes s p) of (q, ch, gone) \<Rightarrow>
       let s1 = s\<lparr>pipes := (pipes s)(p := q), woken := woken s @ map (Pair p) ch\<rparr> in
       if gone then bind_r (kfree (kend s) p (kpages s)) (\<lambda>k. Inr (s1\<lparr>kpages := k\<rparr>)) else Inr s1)"

definition fileclose :: "nat \<Rightarrow> sysst \<Rightarrow> sysst result" where
  "fileclose f s =
    (let ff = ftable s ! f in
     if fref ff < 1 then Inl (Panic ''fileclose'')
     else if fref ff - 1 > 0 then Inr (upd_file f (\<lambda>x. x\<lparr>fref := fref x - 1\<rparr>) s)
     else let s1 = upd_file f (\<lambda>x. x\<lparr>fref := 0, ftyp := FD_NONE\<rparr>) s in
       case ftyp ff of
         FD_PIPE \<Rightarrow> pipe_close (fpipe ff) (writable ff) s1
       | FD_INODE \<Rightarrow> bind_r (on_fs begin_tx s1) (\<lambda>s2. bind_r (on_fs (iput (mypid s) (fip ff)) s2) (on_fs end_tx))
       | FD_NONE \<Rightarrow> Inr s1)"

definition filestat :: "nat \<Rightarrow> sysst \<Rightarrow> (stat option \<times> sysst) result" where
  "filestat f s =
    (let ff = ftable s ! f in
     if ftyp ff = FD_INODE then
       bind_r (on_fs (ilock (mypid s) (fip ff)) s) (\<lambda>s1.
         bind_r (on_fs (iunlock (mypid s) (fip ff)) s1) (\<lambda>s2. Inr (Some (stati (fip ff) (fsys s1)), s2)))
     else Inr (None, s))"

text \<open>The result pairs the return value with the bytes stored at \<open>addr\<close>.\<close>

definition fileread :: "devtab \<Rightarrow> nat \<Rightarrow> int \<Rightarrow> sysst \<Rightarrow> (int \<times> u8 list \<times> sysst) result" where
  "fileread dt f n s =
    (let ff = ftable s ! f in
     if \<not> readable ff then Inr (-1, [], s)
     else case ftyp ff of
       FD_PIPE \<Rightarrow>
         (case piperead (mykilled s) (nat n) (pipes s (fpipe ff)) of (r, q, ch) \<Rightarrow>
            let s1 = s\<lparr>pipes := (pipes s)(fpipe ff := q), woken := woken s @ map (Pair (fpipe ff)) ch\<rparr> in
            (case r of Got bs \<Rightarrow> Inr (int (length bs), bs, s1) | RFailed \<Rightarrow> Inr (-1, [], s1) | RSleeps \<Rightarrow> Inl (Diverges ''piperead'')))
     | FD_INODE \<Rightarrow>
         bind_r (on_fs (ilock (mypid s) (fip ff)) s) (\<lambda>s1.
           bind_r (readi dt (fip ff) (foff ff) (of_int n) (fsys s1)) (\<lambda>(r, bs, t).
             let s2 = s1\<lparr>fsys := t\<rparr>; s3 = (if r > 0 then upd_file f (\<lambda>x. x\<lparr>foff := foff x + of_int r\<rparr>) s2 else s2) in
             bind_r (on_fs (iunlock (mypid s) (fip ff)) s3) (\<lambda>s4. Inr (r, bs, s4))))
     | FD_NONE \<Rightarrow> Inl (Panic ''fileread''))"

definition MAXWRITE :: int where "MAXWRITE = ((MAXOPBLOCKS - 1 - 1 - 2) div 2) * 512"

text \<open>One round of the loop of \<open>filewrite\<close>: at most \<open>MAXWRITE\<close> bytes in a transaction of their own.\<close>

definition filewrite_round :: "devtab \<Rightarrow> nat \<Rightarrow> u8 list \<Rightarrow> int \<Rightarrow> sysst \<Rightarrow> (int \<times> sysst) result" where
  "filewrite_round dt f bs n1 s =
    (let ff = ftable s ! f in
     bind_r (on_fs begin_tx s) (\<lambda>s1. bind_r (on_fs (ilock (mypid s) (fip ff)) s1) (\<lambda>s2.
       bind_r (writei dt (fip ff) bs (foff ff) (of_int n1) (fsys s2)) (\<lambda>(r, t).
         let s3 = s2\<lparr>fsys := t\<rparr>; s4 = (if r > 0 then upd_file f (\<lambda>x. x\<lparr>foff := foff x + of_int r\<rparr>) s3 else s3) in
         bind_r (on_fs (iunlock (mypid s) (fip ff)) s4) (\<lambda>s5. bind_r (on_fs end_tx s5) (\<lambda>s6. Inr (r, s6)))))))"

function filewrite_loop :: "devtab \<Rightarrow> nat \<Rightarrow> u8 list \<Rightarrow> int \<Rightarrow> int \<Rightarrow> sysst \<Rightarrow> (int \<times> sysst) result" where
  "filewrite_loop dt f bs i n s =
    (if i < n then
       let n1 = (if n - i > MAXWRITE then MAXWRITE else n - i) in
       bind_r (filewrite_round dt f (drop (nat i) bs) n1 s) (\<lambda>(r, s1).
         if r < 0 then Inr (i, s1)
         else if r \<noteq> n1 then Inl (Panic ''short filewrite'')
         else filewrite_loop dt f bs (i + r) n s1)
     else Inr (i, s))"
  by pat_completeness auto
termination by (relation "measure (\<lambda>(dt, f, bs, i, n, s). nat (n - i))") (auto simp: MAXWRITE_def MAXOPBLOCKS_def)

declare filewrite_loop.simps [simp del]

definition filewrite :: "devtab \<Rightarrow> nat \<Rightarrow> u8 list \<Rightarrow> int \<Rightarrow> sysst \<Rightarrow> (int \<times> sysst) result" where
  "filewrite dt f bs n s =
    (let ff = ftable s ! f in
     if \<not> writable ff then Inr (-1, s)
     else case ftyp ff of
       FD_PIPE \<Rightarrow>
         (case pipewrite (mykilled s) (take (nat n) bs) (pipes s (fpipe ff)) of (r, q, ch) \<Rightarrow>
            let s1 = s\<lparr>pipes := (pipes s)(fpipe ff := q), woken := woken s @ map (Pair (fpipe ff)) ch\<rparr> in
            (case r of Wrote \<Rightarrow> Inr (n, s1) | WFailed \<Rightarrow> Inr (-1, s1) | WSleeps _ \<Rightarrow> Inl (Diverges ''pipewrite'')))
     | FD_INODE \<Rightarrow> bind_r (filewrite_loop dt f bs 0 n s) (\<lambda>(i, s1). Inr (if i = n then n else -1, s1))
     | FD_NONE \<Rightarrow> Inl (Panic ''filewrite''))"

section \<open>pipealloc\<close>

definition close_opt :: "nat option \<Rightarrow> sysst \<Rightarrow> sysst result" where
  "close_opt fo s = (case fo of Some f \<Rightarrow> fileclose f s | None \<Rightarrow> Inr s)"

definition pipealloc :: "sysst \<Rightarrow> ((nat \<times> nat) option \<times> sysst) result" where
  "pipealloc s =
    (case filealloc s of (f0, s0) \<Rightarrow>
     case (if f0 = None then (None, s0) else filealloc s0) of (f1, s1) \<Rightarrow>
     (case (f0, f1) of
        (Some a, Some b) \<Rightarrow>
          (case kalloc (kpages s1) of (p, k) \<Rightarrow>
             if p = 0 then bind_r (fileclose a (s1\<lparr>kpages := k\<rparr>)) (\<lambda>s2. bind_r (fileclose b s2) (\<lambda>s3. Inr (None, s3)))
             else let s2 = s1\<lparr>kpages := k, pipes := (pipes s1)(p := pipe_new (pdata (pipes s1 p)))\<rparr> in
               Inr (Some (a, b),
                 upd_file b (\<lambda>x. x\<lparr>ftyp := FD_PIPE, readable := False, writable := True, fpipe := p\<rparr>)
                   (upd_file a (\<lambda>x. x\<lparr>ftyp := FD_PIPE, readable := True, writable := False, fpipe := p\<rparr>) s2)))
      | _ \<Rightarrow> bind_r (close_opt f0 s1) (\<lambda>s2. bind_r (close_opt f1 s2) (\<lambda>s3. Inr (None, s3)))))"

end
