(* ===== verification/Sysfile.thy ===== *)
theory Sysfile
  imports File
begin

text \<open>
  The file system calls (\<open>sysfile.c\<close>) and the fetching of their arguments from user memory (\<open>syscall.c\<close>). A call takes the
  memory, size and stack pointer of the calling process and returns the value for the caller, the user context with
  what the call stored there, and the kernel's state.
\<close>

section \<open>Arguments\<close>

record uctx =
  umem :: mem
  usz :: u32
  uesp :: u32

definition fetchint :: "u32 \<Rightarrow> uctx \<Rightarrow> int option" where
  "fetchint addr u = (if addr \<ge> usz u \<or> addr + 4 > usz u then None else Some (sint (get32 (umem u) addr)))"

text \<open>The string at an address: the bytes before the first NUL below the size of the process.\<close>

definition fetchstr :: "u32 \<Rightarrow> uctx \<Rightarrow> u8 list option" where
  "fetchstr addr u =
    (if addr \<ge> usz u then None
     else map_option (bytes (umem u) addr) (find_idx (\<lambda>c. c = 0) (bytes (umem u) addr (unat (usz u) - unat addr))))"

definition argint :: "nat \<Rightarrow> uctx \<Rightarrow> int option" where
  "argint n u = fetchint (uesp u + 4 + 4 * of_nat n) u"

definition argptr :: "nat \<Rightarrow> int \<Rightarrow> uctx \<Rightarrow> u32 option" where
  "argptr n len u =
    (case argint n u of None \<Rightarrow> None
     | Some i \<Rightarrow> if len < 0 \<or> of_int i \<ge> usz u \<or> of_int i + of_int len > usz u then None else Some (of_int i))"

definition argstr :: "nat \<Rightarrow> uctx \<Rightarrow> u8 list option" where
  "argstr n u = (case argint n u of None \<Rightarrow> None | Some a \<Rightarrow> fetchstr (of_int a) u)"

type_synonym sysret = "(int \<times> uctx \<times> sysst) result"

section \<open>File descriptors\<close>

definition argfd :: "nat \<Rightarrow> uctx \<Rightarrow> sysst \<Rightarrow> (nat \<times> nat) option" where
  "argfd n u s =
    (case argint n u of None \<Rightarrow> None
     | Some fd \<Rightarrow> if fd < 0 \<or> fd \<ge> 16 then None else map_option (Pair (nat fd)) (ofiles s ! nat fd))"

definition fdalloc :: "nat \<Rightarrow> sysst \<Rightarrow> nat option \<times> sysst" where
  "fdalloc f s =
    (case find_idx (\<lambda>x. x = None) (ofiles s) of
       Some fd \<Rightarrow> (Some fd, s\<lparr>ofiles := (ofiles s)[fd := Some f]\<rparr>)
     | None \<Rightarrow> (None, s))"

definition sys_dup :: "uctx \<Rightarrow> sysst \<Rightarrow> sysret" where
  "sys_dup u s =
    (case argfd 0 u s of None \<Rightarrow> Inr (-1, u, s)
     | Some (_, f) \<Rightarrow>
       (case fdalloc f s of (None, s1) \<Rightarrow> Inr (-1, u, s1)
        | (Some fd, s1) \<Rightarrow> bind_r (filedup f s1) (\<lambda>s2. Inr (int fd, u, s2))))"

definition sys_read :: "devtab \<Rightarrow> uctx \<Rightarrow> sysst \<Rightarrow> sysret" where
  "sys_read dt u s =
    (case (argfd 0 u s, argint 2 u) of
       (Some (_, f), Some n) \<Rightarrow>
         (case argptr 1 n u of None \<Rightarrow> Inr (-1, u, s)
          | Some p \<Rightarrow> bind_r (fileread dt f n s) (\<lambda>(r, bs, s1). Inr (r, u\<lparr>umem := wr (umem u) p bs\<rparr>, s1)))
     | _ \<Rightarrow> Inr (-1, u, s))"

definition sys_write :: "devtab \<Rightarrow> uctx \<Rightarrow> sysst \<Rightarrow> sysret" where
  "sys_write dt u s =
    (case (argfd 0 u s, argint 2 u) of
       (Some (_, f), Some n) \<Rightarrow>
         (case argptr 1 n u of None \<Rightarrow> Inr (-1, u, s)
          | Some p \<Rightarrow> bind_r (filewrite dt f (bytes (umem u) p (nat n)) n s) (\<lambda>(r, s1). Inr (r, u, s1)))
     | _ \<Rightarrow> Inr (-1, u, s))"

definition sys_close :: "uctx \<Rightarrow> sysst \<Rightarrow> sysret" where
  "sys_close u s =
    (case argfd 0 u s of None \<Rightarrow> Inr (-1, u, s)
     | Some (fd, f) \<Rightarrow> bind_r (fileclose f (s\<lparr>ofiles := (ofiles s)[fd := None]\<rparr>)) (\<lambda>s1. Inr (0, u, s1)))"

text \<open>\<open>struct stat\<close> in memory: 20 bytes with two bytes of padding behind each \<open>short\<close>.\<close>

definition put_stat :: "mem \<Rightarrow> u32 \<Rightarrow> stat \<Rightarrow> mem" where
  "put_stat m p st =
    (let m1 = m(p := ucast (st_type st), p + 1 := ucast (drop_bit 8 (st_type st)));
         m2 = put32 (put32 m1 (p + 4) (st_dev st)) (p + 8) (st_ino st);
         m3 = m2(p + 12 := ucast (st_nlink st), p + 13 := ucast (drop_bit 8 (st_nlink st)))
     in put32 m3 (p + 16) (st_size st))"

definition sys_fstat :: "uctx \<Rightarrow> sysst \<Rightarrow> sysret" where
  "sys_fstat u s =
    (case (argfd 0 u s, argptr 1 20 u) of
       (Some (_, f), Some p) \<Rightarrow>
         bind_r (filestat f s) (\<lambda>(r, s1).
           case r of Some st \<Rightarrow> Inr (0, u\<lparr>umem := put_stat (umem u) p st\<rparr>, s1) | None \<Rightarrow> Inr (-1, u, s1))
     | _ \<Rightarrow> Inr (-1, u, s))"

section \<open>Names\<close>

text \<open>The end of a call inside its transaction: \<open>end_op\<close>, then the return value.\<close>

definition finish :: "int \<Rightarrow> uctx \<Rightarrow> sysst \<Rightarrow> sysret" where
  "finish r u s = bind_r (on_fs end_tx s) (\<lambda>s1. Inr (r, u, s1))"

definition cwd_of :: "sysst \<Rightarrow> nat" where
  "cwd_of s = (case curdir s of Some i \<Rightarrow> i | None \<Rightarrow> 0)"

definition lookup_path :: "devtab \<Rightarrow> u8 list \<Rightarrow> sysst \<Rightarrow> (nat option \<times> sysst) result" where
  "lookup_path dt path s = bind_r (namei (mypid s) dt (cwd_of s) path (fsys s)) (\<lambda>(r, t). Inr (r, s\<lparr>fsys := t\<rparr>))"

definition lookup_parent :: "devtab \<Rightarrow> u8 list \<Rightarrow> sysst \<Rightarrow> (nat option \<times> u8 list \<times> sysst) result" where
  "lookup_parent dt path s =
    bind_r (nameiparent (mypid s) dt (cwd_of s) path (replicate DIRSIZ 0) (fsys s)) (\<lambda>(r, nm, t). Inr (r, nm, s\<lparr>fsys := t\<rparr>))"

definition add_nlink :: "nat \<Rightarrow> u16 \<Rightarrow> fsst \<Rightarrow> fsst result" where
  "add_nlink i k t = iupdate i (upd_inode i (\<lambda>ip. ip\<lparr>inlink := inlink ip + k\<rparr>) t)"

definition link_bad :: "nat \<Rightarrow> uctx \<Rightarrow> sysst \<Rightarrow> sysret" where
  "link_bad ip u s =
    bind_r (on_fs (ilock (mypid s) ip) s) (\<lambda>s1. bind_r (on_fs (add_nlink ip (-1)) s1) (\<lambda>s2.
      bind_r (on_fs (iunlockput (mypid s) ip) s2) (finish (-1) u)))"

definition link_to :: "devtab \<Rightarrow> nat \<Rightarrow> u8 list \<Rightarrow> uctx \<Rightarrow> sysst \<Rightarrow> sysret" where
  "link_to dt ip new u s =
    bind_r (lookup_parent dt new s) (\<lambda>(dpo, nm, s1).
      case dpo of None \<Rightarrow> link_bad ip u s1
      | Some dp \<Rightarrow>
        bind_r (on_fs (ilock (mypid s) dp) s1) (\<lambda>s2.
          bind_r (if idev (icache (fsys s2) ! dp) \<noteq> idev (icache (fsys s2) ! ip) then Inr (-1, fsys s2)
                  else dirlink (mypid s) dt dp nm (inum (icache (fsys s2) ! ip)) (fsys s2)) (\<lambda>(r, t).
            bind_r (on_fs (iunlockput (mypid s) dp) (s2\<lparr>fsys := t\<rparr>)) (\<lambda>s3.
              if r < 0 then link_bad ip u s3
              else bind_r (on_fs (iput (mypid s) ip) s3) (finish 0 u)))))"

definition sys_link :: "devtab \<Rightarrow> uctx \<Rightarrow> sysst \<Rightarrow> sysret" where
  "sys_link dt u s =
    (case (argstr 0 u, argstr 1 u) of
       (Some old, Some new) \<Rightarrow>
         bind_r (on_fs begin_tx s) (\<lambda>s0. bind_r (lookup_path dt old s0) (\<lambda>(ipo, s1).
           case ipo of None \<Rightarrow> finish (-1) u s1
           | Some ip \<Rightarrow>
             bind_r (on_fs (ilock (mypid s) ip) s1) (\<lambda>s2.
               if itype (icache (fsys s2) ! ip) = T_DIR then bind_r (on_fs (iunlockput (mypid s) ip) s2) (finish (-1) u)
               else bind_r (on_fs (add_nlink ip 1) s2) (\<lambda>s3. bind_r (on_fs (iunlock (mypid s) ip) s3) (link_to dt ip new u)))))
     | _ \<Rightarrow> Inr (-1, u, s))"

fun isdirempty_from :: "devtab \<Rightarrow> nat \<Rightarrow> nat list \<Rightarrow> fsst \<Rightarrow> (bool \<times> fsst) result" where
  "isdirempty_from dt dp [] s = Inr (True, s)"
| "isdirempty_from dt dp (off # offs) s =
    bind_r (readi dt dp (of_nat off) (of_nat DESIZE) s) (\<lambda>(r, de, s1).
      if r \<noteq> int DESIZE then Inl (Panic ''isdirempty: readi'')
      else if de_inum de \<noteq> 0 then Inr (False, s1)
      else isdirempty_from dt dp offs s1)"

definition isdirempty :: "devtab \<Rightarrow> nat \<Rightarrow> fsst \<Rightarrow> (bool \<times> fsst) result" where
  "isdirempty dt dp s = isdirempty_from dt dp (drop 2 (offsets (isize (icache s ! dp)))) s"

definition unlink_bad :: "nat \<Rightarrow> uctx \<Rightarrow> sysst \<Rightarrow> sysret" where
  "unlink_bad dp u s = bind_r (on_fs (iunlockput (mypid s) dp) s) (finish (-1) u)"

text \<open>The removal of the entry at \<open>off\<close> of \<open>dp\<close>, which names the locked inode \<open>ip\<close>.\<close>

definition unlink_entry :: "devtab \<Rightarrow> nat \<Rightarrow> nat \<Rightarrow> nat \<Rightarrow> uctx \<Rightarrow> sysst \<Rightarrow> sysret" where
  "unlink_entry dt dp ip off u s =
    bind_r (writei dt dp (replicate DESIZE 0) (of_nat off) (of_nat DESIZE) (fsys s)) (\<lambda>(w, t).
      if w \<noteq> int DESIZE then Inl (Panic ''unlink: writei'')
      else let s1 = s\<lparr>fsys := t\<rparr> in
        bind_r (if itype (icache t ! ip) = T_DIR then on_fs (add_nlink dp (-1)) s1 else Inr s1) (\<lambda>s2.
          bind_r (on_fs (iunlockput (mypid s) dp) s2) (\<lambda>s3. bind_r (on_fs (add_nlink ip (-1)) s3) (\<lambda>s4.
            bind_r (on_fs (iunlockput (mypid s) ip) s4) (finish 0 u)))))"

definition sys_unlink :: "devtab \<Rightarrow> uctx \<Rightarrow> sysst \<Rightarrow> sysret" where
  "sys_unlink dt u s =
    (case argstr 0 u of None \<Rightarrow> Inr (-1, u, s)
     | Some path \<Rightarrow>
       bind_r (on_fs begin_tx s) (\<lambda>s0. bind_r (lookup_parent dt path s0) (\<lambda>(dpo, nm, s1).
         case dpo of None \<Rightarrow> finish (-1) u s1
         | Some dp \<Rightarrow>
           bind_r (on_fs (ilock (mypid s) dp) s1) (\<lambda>s2.
             if namecmp nm [46, 0] = 0 \<or> namecmp nm [46, 46, 0] = 0 then unlink_bad dp u s2
             else bind_r (dirlookup dt dp nm (fsys s2)) (\<lambda>(r, t).
               case r of None \<Rightarrow> unlink_bad dp u (s2\<lparr>fsys := t\<rparr>)
               | Some (ip, off) \<Rightarrow>
                 bind_r (on_fs (ilock (mypid s) ip) (s2\<lparr>fsys := t\<rparr>)) (\<lambda>s3.
                   if sint (inlink (icache (fsys s3) ! ip)) < 1 then Inl (Panic ''unlink: nlink < 1'')
                   else bind_r (if itype (icache (fsys s3) ! ip) = T_DIR then isdirempty dt ip (fsys s3) else Inr (True, fsys s3)) (\<lambda>(e, t1).
                     let s4 = s3\<lparr>fsys := t1\<rparr> in
                     if \<not> e then bind_r (on_fs (iunlockput (mypid s) ip) s4) (unlink_bad dp u)
                     else unlink_entry dt dp ip off u s4)))))))"

text \<open>\<open>create\<close>: an existing file is opened when a file is asked for; a new directory gets its two entries first.\<close>

definition create_new :: "devtab \<Rightarrow> int \<Rightarrow> nat \<Rightarrow> u8 list \<Rightarrow> u16 \<Rightarrow> u16 \<Rightarrow> u16 \<Rightarrow> fsst \<Rightarrow> (nat option \<times> fsst) result" where
  "create_new dt pid dp nm ty maj mnr t =
    bind_r (ialloc (idev (icache t ! dp)) ty t) (\<lambda>(ip, t1). bind_r (ilock pid ip t1) (\<lambda>t2.
      bind_r (iupdate ip (upd_inode ip (\<lambda>x. x\<lparr>imajor := maj, iminor := mnr, inlink := 1\<rparr>) t2)) (\<lambda>t3.
        bind_r (if ty = T_DIR then
            bind_r (add_nlink dp 1 t3) (\<lambda>t4. bind_r (dirlink pid dt ip [46, 0] (inum (icache t4 ! ip)) t4) (\<lambda>(r1, t5).
              if r1 < 0 then Inl (Panic ''create dots'')
              else bind_r (dirlink pid dt ip [46, 46, 0] (inum (icache t5 ! dp)) t5) (\<lambda>(r2, t6).
                if r2 < 0 then Inl (Panic ''create dots'') else Inr t6)))
          else Inr t3) (\<lambda>t7.
          bind_r (dirlink pid dt dp nm (inum (icache t7 ! ip)) t7) (\<lambda>(r, t8).
            if r < 0 then Inl (Panic ''create: dirlink'')
            else bind_r (iunlockput pid dp t8) (\<lambda>t9. Inr (Some ip, t9)))))))"

definition create :: "devtab \<Rightarrow> u8 list \<Rightarrow> u16 \<Rightarrow> u16 \<Rightarrow> u16 \<Rightarrow> sysst \<Rightarrow> (nat option \<times> sysst) result" where
  "create dt path ty maj mnr s =
    bind_r (lookup_parent dt path s) (\<lambda>(dpo, nm, s1).
      case dpo of None \<Rightarrow> Inr (None, s1)
      | Some dp \<Rightarrow>
        bind_r (on_fs (ilock (mypid s) dp) s1) (\<lambda>s2. bind_r (dirlookup dt dp nm (fsys s2)) (\<lambda>(r, t).
          case r of
            Some (ip, _) \<Rightarrow>
              bind_r (on_fs (iunlockput (mypid s) dp) (s2\<lparr>fsys := t\<rparr>)) (\<lambda>s3. bind_r (on_fs (ilock (mypid s) ip) s3) (\<lambda>s4.
                if ty = T_FILE \<and> itype (icache (fsys s4) ! ip) = T_FILE then Inr (Some ip, s4)
                else bind_r (on_fs (iunlockput (mypid s) ip) s4) (\<lambda>s5. Inr (None, s5))))
          | None \<Rightarrow> bind_r (create_new dt (mypid s) dp nm ty maj mnr t) (\<lambda>(r, t1). Inr (r, s2\<lparr>fsys := t1\<rparr>)))))"

definition O_WRONLY :: u32 where "O_WRONLY = 1"
definition O_RDWR :: u32 where "O_RDWR = 2"
definition O_CREATE :: u32 where "O_CREATE = 0x200"

text \<open>The inode to open, locked; \<open>None\<close> when the call fails.\<close>

definition open_inode :: "devtab \<Rightarrow> u8 list \<Rightarrow> u32 \<Rightarrow> sysst \<Rightarrow> (nat option \<times> sysst) result" where
  "open_inode dt path omode s =
    (if and omode O_CREATE \<noteq> 0 then create dt path T_FILE 0 0 s
     else bind_r (lookup_path dt path s) (\<lambda>(ipo, s1).
       case ipo of None \<Rightarrow> Inr (None, s1)
       | Some ip \<Rightarrow> bind_r (on_fs (ilock (mypid s) ip) s1) (\<lambda>s2.
           if itype (icache (fsys s2) ! ip) = T_DIR \<and> omode \<noteq> 0 then bind_r (on_fs (iunlockput (mypid s) ip) s2) (\<lambda>s3. Inr (None, s3))
           else Inr (Some ip, s2))))"

definition sys_open :: "devtab \<Rightarrow> uctx \<Rightarrow> sysst \<Rightarrow> sysret" where
  "sys_open dt u s =
    (case (argstr 0 u, argint 1 u) of
       (Some path, Some om) \<Rightarrow>
         (let omode = of_int om :: u32 in
          bind_r (on_fs begin_tx s) (\<lambda>s0. bind_r (open_inode dt path omode s0) (\<lambda>(ipo, s1).
            case ipo of None \<Rightarrow> finish (-1) u s1
            | Some ip \<Rightarrow>
              (case filealloc s1 of (fo, s2) \<Rightarrow>
               case (case fo of None \<Rightarrow> (None, s2) | Some f \<Rightarrow> fdalloc f s2) of (fdo, s3) \<Rightarrow>
               (case (fo, fdo) of
                  (Some f, Some fd) \<Rightarrow>
                    bind_r (on_fs (iunlock (mypid s) ip) s3) (\<lambda>s4. bind_r (on_fs end_tx s4) (\<lambda>s5.
                      Inr (int fd, u, upd_file f (\<lambda>x. x\<lparr>ftyp := FD_INODE, fip := ip, foff := 0, readable := (and omode O_WRONLY = 0),
                        writable := (and omode O_WRONLY \<noteq> 0 \<or> and omode O_RDWR \<noteq> 0)\<rparr>) s5)))
                | _ \<Rightarrow> bind_r (close_opt fo s3) (\<lambda>s4. bind_r (on_fs (iunlockput (mypid s) ip) s4) (finish (-1) u)))))))
     | _ \<Rightarrow> Inr (-1, u, s))"

text \<open>\<open>sys_mkdir\<close> and \<open>sys_mknod\<close> fetch their arguments inside the transaction.\<close>

definition make_node :: "devtab \<Rightarrow> u8 list option \<Rightarrow> u16 \<Rightarrow> u16 \<Rightarrow> u16 \<Rightarrow> uctx \<Rightarrow> sysst \<Rightarrow> sysret" where
  "make_node dt po ty maj mnr u s =
    bind_r (on_fs begin_tx s) (\<lambda>s0.
      case po of None \<Rightarrow> finish (-1) u s0
      | Some path \<Rightarrow> bind_r (create dt path ty maj mnr s0) (\<lambda>(ipo, s1).
          case ipo of None \<Rightarrow> finish (-1) u s1
          | Some ip \<Rightarrow> bind_r (on_fs (iunlockput (mypid s) ip) s1) (finish 0 u)))"

definition sys_mkdir :: "devtab \<Rightarrow> uctx \<Rightarrow> sysst \<Rightarrow> sysret" where
  "sys_mkdir dt u s = make_node dt (argstr 0 u) T_DIR 0 0 u s"

definition sys_mknod :: "devtab \<Rightarrow> uctx \<Rightarrow> sysst \<Rightarrow> sysret" where
  "sys_mknod dt u s =
    (case (argint 1 u, argint 2 u) of
       (Some maj, Some mnr) \<Rightarrow> make_node dt (argstr 0 u) T_DEV (of_int maj) (of_int mnr) u s
     | _ \<Rightarrow> make_node dt None T_DEV 0 0 u s)"

definition sys_chdir :: "devtab \<Rightarrow> uctx \<Rightarrow> sysst \<Rightarrow> sysret" where
  "sys_chdir dt u s =
    bind_r (on_fs begin_tx s) (\<lambda>s0.
      case argstr 0 u of None \<Rightarrow> finish (-1) u s0
      | Some path \<Rightarrow> bind_r (lookup_path dt path s0) (\<lambda>(ipo, s1).
          case ipo of None \<Rightarrow> finish (-1) u s1
          | Some ip \<Rightarrow> bind_r (on_fs (ilock (mypid s) ip) s1) (\<lambda>s2.
              if itype (icache (fsys s2) ! ip) \<noteq> T_DIR then bind_r (on_fs (iunlockput (mypid s) ip) s2) (finish (-1) u)
              else bind_r (on_fs (iunlock (mypid s) ip) s2) (\<lambda>s3. bind_r (on_fs (iput (mypid s) (cwd_of s)) s3) (\<lambda>s4.
                bind_r (on_fs end_tx s4) (\<lambda>s5. Inr (0, u, s5\<lparr>curdir := Some ip\<rparr>)))))))"

section \<open>exec's arguments and pipes\<close>

definition MAXARG :: nat where "MAXARG = 32"

text \<open>The argument vector of \<open>exec\<close>: at most \<open>MAXARG - 1\<close> strings and the null that ends it.\<close>

fun fetch_argv :: "nat \<Rightarrow> u32 \<Rightarrow> uctx \<Rightarrow> u8 list list option" where
  "fetch_argv 0 uargv u = None"
| "fetch_argv (Suc k) uargv u =
    (case fetchint uargv u of None \<Rightarrow> None
     | Some uarg \<Rightarrow> if uarg = 0 then Some []
        else (case fetchstr (of_int uarg) u of None \<Rightarrow> None
              | Some a \<Rightarrow> map_option (Cons a) (fetch_argv k (uargv + 4) u)))"

definition sys_exec :: "(u8 list \<Rightarrow> u8 list list \<Rightarrow> uctx \<Rightarrow> sysst \<Rightarrow> sysret) \<Rightarrow> uctx \<Rightarrow> sysst \<Rightarrow> sysret" where
  "sys_exec exec u s =
    (case (argstr 0 u, argint 1 u) of
       (Some path, Some uargv) \<Rightarrow>
         (case fetch_argv MAXARG (of_int uargv) u of None \<Rightarrow> Inr (-1, u, s) | Some argv \<Rightarrow> exec path argv u s)
     | _ \<Rightarrow> Inr (-1, u, s))"

definition sys_pipe :: "uctx \<Rightarrow> sysst \<Rightarrow> sysret" where
  "sys_pipe u s =
    (case argptr 0 8 u of None \<Rightarrow> Inr (-1, u, s)
     | Some p \<Rightarrow>
       bind_r (pipealloc s) (\<lambda>(r, s1).
         case r of None \<Rightarrow> Inr (-1, u, s1)
         | Some (rf, wfl) \<Rightarrow>
           (case fdalloc rf s1 of
              (None, s2) \<Rightarrow> bind_r (fileclose rf s2) (\<lambda>s3. bind_r (fileclose wfl s3) (\<lambda>s4. Inr (-1, u, s4)))
            | (Some fd0, s2) \<Rightarrow>
              (case fdalloc wfl s2 of
                 (None, s3) \<Rightarrow>
                   bind_r (fileclose rf (s3\<lparr>ofiles := (ofiles s3)[fd0 := None]\<rparr>)) (\<lambda>s4. bind_r (fileclose wfl s4) (\<lambda>s5. Inr (-1, u, s5)))
               | (Some fd1, s3) \<Rightarrow>
                   Inr (0, u\<lparr>umem := put32 (put32 (umem u) p (of_nat fd0)) (p + 4) (of_nat fd1)\<rparr>, s3)))))"

end
