(* ===== verification/Sysfile_Props.thy ===== *)
theory Sysfile_Props
  imports Sysfile
begin

text \<open>
  Reference counts of the file table under every file system call, and the bounds of the memory that the argument
  checks let a call touch.
\<close>

section \<open>Calls that leave descriptors and counts alone\<close>

definition fdsame :: "sysst \<Rightarrow> sysst \<Rightarrow> bool" where
  "fdsame s t \<longleftrightarrow> ofiles t = ofiles s \<and> map (\<lambda>x. (ftyp x, fref x)) (ftable t) = map (\<lambda>x. (ftyp x, fref x)) (ftable s)"

definition keeps :: "('a \<Rightarrow> sysst) \<Rightarrow> sysst \<Rightarrow> 'a result \<Rightarrow> bool" where
  "keeps p s m \<longleftrightarrow> (case m of Inl e \<Rightarrow> True | Inr x \<Rightarrow> fdsame s (p x))"

named_theorems keeps_intros \<open>operations that keep descriptors and reference counts\<close>

lemma fdsame_refl [simp]: "fdsame s s"
  by (simp add: fdsame_def)

lemma fdsame_trans: "fdsame s t \<Longrightarrow> fdsame t u \<Longrightarrow> fdsame s u"
  by (simp add: fdsame_def)

lemma fdsame_fields [simp]:
  "fdsame s (t\<lparr>fsys := a\<rparr>) = fdsame s t" "fdsame s (t\<lparr>pipes := b\<rparr>) = fdsame s t" "fdsame s (t\<lparr>kpages := c\<rparr>) = fdsame s t"
  "fdsame s (t\<lparr>woken := d\<rparr>) = fdsame s t" "fdsame s (t\<lparr>curdir := e\<rparr>) = fdsame s t"
  by (simp_all add: fdsame_def)

lemma keeps_simps [simp]: "keeps p s (Inl e)" "keeps p s (Inr x) \<longleftrightarrow> fdsame s (p x)"
  by (simp_all add: keeps_def)

lemma keeps_bind:
  assumes "keeps p s m" "\<And>x. fdsame s (p x) \<Longrightarrow> keeps q s (f x)"
  shows "keeps q s (bind_r m f)"
  using assms by (cases m) auto

lemma keeps_bind_eq:
  assumes "keeps p s m" "\<And>x. m = Inr x \<Longrightarrow> fdsame s (p x) \<Longrightarrow> keeps q s (f x)"
  shows "keeps q s (bind_r m f)"
  using assms by (cases m) auto

lemma keeps_any: "(\<And>x. keeps q s (f x)) \<Longrightarrow> keeps q s (bind_r m f)"
  by (cases m) auto

lemma keeps_on_fs: "fdsame s t \<Longrightarrow> keeps (\<lambda>x. x) s (on_fs g t)"
  by (cases "g (fsys t)") (simp_all add: on_fs_def)

lemma fdsame_upd_file: "(\<And>x. ftyp (g x) = ftyp x \<and> fref (g x) = fref x) \<Longrightarrow> fdsame s (upd_file f g t) = fdsame s t"
proof -
  assume a: "\<And>x. ftyp (g x) = ftyp x \<and> fref (g x) = fref x"
  have "map (\<lambda>x. (ftyp x, fref x)) ((ftable t)[f := g (ftable t ! f)]) = map (\<lambda>x. (ftyp x, fref x)) (ftable t)"
    using a by (cases "f < length (ftable t)") (simp_all add: map_update list_update_same_conv list_update_beyond)
  then show ?thesis by (simp add: fdsame_def upd_file_def)
qed

text \<open>Steps of a call: file system operations, and computations that only read the state.\<close>

lemmas keeps_fs [keeps_intros] = keeps_bind[OF keeps_on_fs]

lemmas keeps_pure [keeps_intros] =
  keeps_any[where m = "writei dt i b off n t"] keeps_any[where m = "readi dt i off n t"] keeps_any[where m = "dirlookup dt i nm t"]
  keeps_any[where m = "dirlink k dt i nm n t"] keeps_any[where m = "if c then Inr (r, t) else dirlink k dt i nm n t"]
  keeps_any[where m = "if c then isdirempty dt i t else Inr (b, t)"] keeps_any[where m = "isdirempty dt i t"] keeps_any[where m = "create_new dt k i nm ty ma mi t"]
  keeps_any[where m = "namei k dt i nm t"] keeps_any[where m = "nameiparent k dt i nm b t"] keeps_any[where m = "kfree e q km"]
  for dt i b off n t nm k c r ty ma mi e q km

abbreviation "kp3 \<equiv> \<lambda>(r, u, t). t"

lemma keeps_finish [keeps_intros]: "fdsame s t \<Longrightarrow> keeps kp3 s (finish r u t)"
  unfolding finish_def by (auto intro!: keeps_intros)

lemma keeps_lookup: "fdsame s t \<Longrightarrow> keeps snd s (lookup_path dt p t)" "fdsame s t \<Longrightarrow> keeps kp3 s (lookup_parent dt p t)"
  unfolding lookup_path_def lookup_parent_def by (auto intro!: keeps_intros)

lemmas keeps_lookups [keeps_intros] = keeps_bind[OF keeps_lookup(1)] keeps_bind[OF keeps_lookup(2)]

lemma keeps_link_bad [keeps_intros]: "fdsame s t \<Longrightarrow> keeps kp3 s (link_bad ip u t)"
  unfolding link_bad_def by (auto intro!: keeps_intros)

lemma keeps_link_to [keeps_intros]: "fdsame s t \<Longrightarrow> keeps kp3 s (link_to dt ip new u t)"
  unfolding link_to_def by (auto split: option.splits intro!: keeps_intros)

lemma keeps_sys_link: "keeps kp3 s (sys_link dt u s)"
  unfolding sys_link_def by (auto split: option.splits intro!: keeps_intros)

lemma keeps_unlink_bad [keeps_intros]: "fdsame s t \<Longrightarrow> keeps kp3 s (unlink_bad dp u t)"
  unfolding unlink_bad_def by (auto intro!: keeps_intros)

lemma keeps_unlink_entry [keeps_intros]: "fdsame s t \<Longrightarrow> keeps kp3 s (unlink_entry dt dp ip off u t)"
  unfolding unlink_entry_def Let_def
  by (intro keeps_intros) (auto intro!: keeps_intros)

lemma keeps_sys_unlink: "keeps kp3 s (sys_unlink dt u s)"
  unfolding sys_unlink_def Let_def by (auto split: option.splits intro!: keeps_intros)

lemma keeps_create: "fdsame s t \<Longrightarrow> keeps snd s (create dt p ty ma mi t)"
  unfolding create_def by (auto split: option.splits intro!: keeps_intros)

lemma keeps_open_inode: "fdsame s t \<Longrightarrow> keeps snd s (open_inode dt p m t)"
  unfolding open_inode_def by (auto split: option.splits intro!: keeps_intros keeps_create)

lemmas keeps_creates [keeps_intros] = keeps_bind[OF keeps_create] keeps_bind[OF keeps_open_inode]

lemma keeps_make_node: "keeps kp3 s (make_node dt po ty ma mi u s)"
  unfolding make_node_def by (auto split: option.splits intro!: keeps_intros)

lemma keeps_sys_mk: "keeps kp3 s (sys_mkdir dt u s)" "keeps kp3 s (sys_mknod dt u s)"
  by (auto simp: sys_mkdir_def sys_mknod_def keeps_make_node split: option.splits)

lemma keeps_sys_chdir: "keeps kp3 s (sys_chdir dt u s)"
  unfolding sys_chdir_def by (auto split: option.splits intro!: keeps_intros)

lemma keeps_filestat: "keeps snd s (filestat f s)"
  unfolding filestat_def Let_def by (auto intro!: keeps_intros)

lemma keeps_sys_fstat: "keeps kp3 s (sys_fstat u s)"
  unfolding sys_fstat_def by (auto split: option.splits intro!: keeps_bind[OF keeps_filestat])

lemma keeps_fileread: "keeps kp3 s (fileread dt f n s)"
  unfolding fileread_def Let_def
  by (auto simp: fdsame_upd_file split: ftype.splits rres.splits prod.splits intro!: keeps_intros)

lemma keeps_sys_read: "keeps kp3 s (sys_read dt u s)"
  unfolding sys_read_def by (auto split: option.splits intro!: keeps_bind[OF keeps_fileread])

lemma keeps_filewrite_round: "fdsame s t \<Longrightarrow> keeps snd s (filewrite_round dt f bs n t)"
  unfolding filewrite_round_def Let_def by (auto simp: fdsame_upd_file intro!: keeps_intros)

lemma keeps_filewrite_loop: "fdsame s t \<Longrightarrow> keeps snd s (filewrite_loop dt f bs i n t)"
proof (induction dt f bs i n t rule: filewrite_loop.induct)
  case (1 dt f bs i n t)
  show ?case
  proof (cases "i < n")
    case True
    define n1 where "n1 = (if n - i > MAXWRITE then MAXWRITE else n - i)"
    have "keeps snd s (bind_r (filewrite_round dt f (drop (nat i) bs) n1 t) (\<lambda>(r, s1).
         if r < 0 then Inr (i, s1) else if r \<noteq> n1 then Inl (Panic ''short filewrite'') else filewrite_loop dt f bs (i + r) n s1))"
      by (rule keeps_bind_eq[OF keeps_filewrite_round[OF 1(2)]]) (use 1(1)[OF True n1_def] in auto)
    then show ?thesis using True by (subst filewrite_loop.simps) (simp add: n1_def[symmetric] Let_def)
  next
    case False
    then show ?thesis using 1(2) by (subst filewrite_loop.simps) simp
  qed
qed

lemma keeps_filewrite: "keeps snd s (filewrite dt f bs n s)"
  unfolding filewrite_def Let_def
  by (auto split: ftype.splits wres.splits prod.splits intro!: keeps_bind[OF keeps_filewrite_loop])

lemma keeps_sys_write: "keeps kp3 s (sys_write dt u s)"
  unfolding sys_write_def by (auto split: option.splits intro!: keeps_bind[OF keeps_filewrite])

section \<open>Reference counts\<close>

text \<open>How often the process's descriptors refer to a file structure.\<close>

definition fds :: "sysst \<Rightarrow> nat \<Rightarrow> nat" where "fds s f = count_list (ofiles s) (Some f)"

text \<open>
  Every count is the number of descriptors that refer to the structure, here and in the other processes (\<open>other\<close>);
  a free structure has type \<open>FD_NONE\<close>.
\<close>

definition ftab_ok :: "(nat \<Rightarrow> nat) \<Rightarrow> sysst \<Rightarrow> bool" where
  "ftab_ok other s \<longleftrightarrow> length (ofiles s) = 16 \<and> length (ftable s) = NFILE \<and> (\<forall>f < NFILE. fref (ftable s ! f) = int (fds s f + other f)) \<and>
     (\<forall>f < NFILE. fref (ftable s ! f) = 0 \<longrightarrow> ftyp (ftable s ! f) = FD_NONE) \<and> (\<forall>f. Some f \<in> set (ofiles s) \<longrightarrow> f < NFILE)"

lemma ftab_okD:
  assumes "ftab_ok other s"
  shows "length (ofiles s) = 16" "length (ftable s) = NFILE" "f < NFILE \<Longrightarrow> fref (ftable s ! f) = int (fds s f + other f)"
    "f < NFILE \<Longrightarrow> fref (ftable s ! f) = 0 \<Longrightarrow> ftyp (ftable s ! f) = FD_NONE" "Some f \<in> set (ofiles s) \<Longrightarrow> f < NFILE"
  using assms by (auto simp: ftab_ok_def)

lemma ftab_cong: "ofiles t = ofiles s \<Longrightarrow> ftable t = ftable s \<Longrightarrow> ftab_ok other s \<longleftrightarrow> ftab_ok other t"
  by (simp add: ftab_ok_def fds_def)

lemma fdsame_ok:
  assumes "fdsame s t" "ftab_ok other s"
  shows "ftab_ok other t"
proof -
  have l: "length (ftable t) = length (ftable s)" using assms(1) map_eq_imp_length_eq unfolding fdsame_def by blast
  have "(ftyp (ftable t ! f), fref (ftable t ! f)) = (ftyp (ftable s ! f), fref (ftable s ! f))" if "f < length (ftable s)" for f
    using assms(1) l that nth_map[of f "ftable t" "\<lambda>x. (ftyp x, fref x)"] nth_map[of f "ftable s" "\<lambda>x. (ftyp x, fref x)"]
    by (simp add: fdsame_def)
  then show ?thesis using assms(2) l assms(1) by (simp add: ftab_ok_def fds_def fdsame_def)
qed

lemma keeps_ok: "keeps p s m \<Longrightarrow> m = Inr x \<Longrightarrow> ftab_ok other s \<Longrightarrow> ftab_ok other (p x)"
  using fdsame_ok by auto

lemma count_list_update:
  assumes "i < length xs"
  shows "count_list (xs[i := y]) x + (if xs ! i = x then 1 else 0) = count_list xs x + (if y = x then 1 else 0)"
  using assms
proof (induction xs arbitrary: i)
  case (Cons a xs)
  show ?case
  proof (cases i)
    case (Suc j)
    then show ?thesis using Cons.IH[of j] Cons.prems by (simp split: if_splits)
  qed simp
qed simp

lemma fds_update:
  assumes "i < length (ofiles s)"
  shows "fds (s\<lparr>ofiles := (ofiles s)[i := y]\<rparr>) f + (if ofiles s ! i = Some f then 1 else 0) = fds s f + (if y = Some f then 1 else 0)"
  using count_list_update[OF assms, of y "Some f"] by (simp add: fds_def)

lemma fd_release:
  assumes ok: "ftab_ok other s" and fd: "fd < 16" "ofiles s ! fd = Some f"
  shows "ftab_ok (other(f := other f + 1)) (s\<lparr>ofiles := (ofiles s)[fd := None]\<rparr>)"
proof -
  note D = ftab_okD[OF ok]
  have "fds (s\<lparr>ofiles := (ofiles s)[fd := None]\<rparr>) g + (other(f := other f + 1)) g = fds s g + other g" for g
    using fds_update[of fd s None g] fd D(1) by (auto split: if_splits)
  moreover have "g < NFILE" if "Some g \<in> set ((ofiles s)[fd := None])" for g
    using that D(5) set_update_subset_insert[of "ofiles s" fd None] by auto
  ultimately show ?thesis using D by (simp add: ftab_ok_def)
qed

lemma fd_take:
  assumes ok: "ftab_ok (other(f := other f + 1)) s" and fd: "fd < 16" "ofiles s ! fd = None" and f: "f < NFILE"
  shows "ftab_ok other (s\<lparr>ofiles := (ofiles s)[fd := Some f]\<rparr>)"
proof -
  note D = ftab_okD[OF ok]
  have "fds (s\<lparr>ofiles := (ofiles s)[fd := Some f]\<rparr>) g + other g = fds s g + (other(f := other f + 1)) g" for g
    using fds_update[of fd s "Some f" g] fd D(1) by (auto split: if_splits)
  moreover have "g < NFILE" if "Some g \<in> set ((ofiles s)[fd := Some f])" for g
    using that D(5) f set_update_subset_insert[of "ofiles s" fd "Some f"] by auto
  ultimately show ?thesis using D by (simp add: ftab_ok_def)
qed

lemma ref_change:
  assumes ok: "ftab_ok other s" and f: "f < NFILE" and g: "fref (g (ftable s ! f)) = int (fds s f + k)"
    "fref (g (ftable s ! f)) = 0 \<longrightarrow> ftyp (g (ftable s ! f)) = FD_NONE"
  shows "ftab_ok (other(f := k)) (upd_file f g s)"
  using ok f g by (auto simp: ftab_ok_def upd_file_def nth_list_update fds_def)

lemma filealloc_ok:
  assumes ok: "ftab_ok other s" and a: "filealloc s = (Some f, t)"
  shows "ftab_ok (other(f := other f + 1)) t \<and> f < NFILE \<and> ofiles t = ofiles s \<and> other f = 0"
proof -
  note D = ftab_okD[OF ok]
  have f: "find_idx (\<lambda>f. fref f = 0) (ftable s) = Some f" "t = upd_file f (\<lambda>x. x\<lparr>fref := 1\<rparr>) s"
    using a by (auto simp: filealloc_def split: option.splits)
  then have "f < NFILE" "fref (ftable s ! f) = 0" using D(2) by (simp_all add: find_idx_Some)
  then have "fds s f + other f = 0" using D(3)[of f] by simp
  then show ?thesis using ref_change[OF ok \<open>f < NFILE\<close>, of "\<lambda>x. x\<lparr>fref := 1\<rparr>" "other f + 1"] \<open>f < NFILE\<close> f(2) by (simp add: upd_file_def)
qed

lemma filealloc_none: "filealloc s = (None, t) \<Longrightarrow> t = s"
  by (auto simp: filealloc_def split: option.splits)

lemma keeps_pipe_close: "fdsame s t \<Longrightarrow> keeps (\<lambda>x. x) s (pipe_close p w t)"
  unfolding pipe_close_def Let_def by (auto split: prod.splits intro!: keeps_intros)

text \<open>Closing a file structure gives up one reference that no descriptor holds.\<close>

lemma fileclose_ok:
  assumes ok: "ftab_ok other s" and f: "f < NFILE" "other f > 0" and c: "fileclose f s = Inr t"
  shows "ftab_ok (other(f := other f - 1)) t \<and> ofiles t = ofiles s"
proof -
  note D = ftab_okD[OF ok]
  have r: "fref (ftable s ! f) = int (fds s f + other f)" by (rule D(3)[OF f(1)])
  show ?thesis
  proof (cases "fref (ftable s ! f) - 1 > 0")
    case True
    have "ftab_ok (other(f := other f - 1)) (upd_file f (\<lambda>x. x\<lparr>fref := fref x - 1\<rparr>) s)"
      by (rule ref_change[OF ok f(1)]) (use r f(2) True in simp_all)
    moreover have "t = upd_file f (\<lambda>x. x\<lparr>fref := fref x - 1\<rparr>) s" using c True r f(2) by (simp add: fileclose_def Let_def)
    ultimately show ?thesis by (simp add: upd_file_def)
  next
    case False
    define s1 where "s1 = upd_file f (\<lambda>x. x\<lparr>fref := 0, ftyp := FD_NONE\<rparr>) s"
    have ok1: "ftab_ok (other(f := other f - 1)) s1"
      unfolding s1_def by (rule ref_change[OF ok f(1)]) (use r f(2) False in simp_all)
    have "keeps (\<lambda>x. x) s1 (fileclose f s)"
      using False r f(2) unfolding fileclose_def Let_def s1_def[symmetric]
      by (auto split: ftype.splits intro!: keeps_intros keeps_pipe_close keeps_on_fs)
    then have "fdsame s1 t" using c by simp
    then show ?thesis using fdsame_ok[OF _ ok1] by (simp add: fdsame_def s1_def upd_file_def)
  qed
qed

lemma fileclose_ret:
  assumes ok: "ftab_ok (other(f := other f + 1)) s" and f: "f < NFILE" and c: "fileclose f s = Inr t"
  shows "ftab_ok other t \<and> ofiles t = ofiles s"
proof -
  have "ftab_ok ((other(f := other f + 1))(f := (other(f := other f + 1)) f - 1)) t \<and> ofiles t = ofiles s"
    by (rule fileclose_ok[OF ok f _ c]) simp
  then show ?thesis by simp
qed

lemma close_two:
  assumes ok: "ftab_ok (other(a := other a + 1, b := other b + 1)) s" and ab: "a < NFILE" "b < NFILE" "a \<noteq> b"
    and c: "fileclose a s = Inr s1" "fileclose b s1 = Inr t"
  shows "ftab_ok other t"
proof -
  have "other(a := other a + 1, b := other b + 1) = (other(b := other b + 1))(a := (other(b := other b + 1)) a + 1)" using ab(3) by (auto simp: fun_eq_iff)
  then have "ftab_ok (other(b := other b + 1)) s1" using fileclose_ret[OF _ ab(1) c(1)] ok by metis
  then show ?thesis using fileclose_ret[OF _ ab(2) c(2)] by blast
qed

lemma fdalloc_cases:
  assumes "fdalloc f s = (r, t)" "length (ofiles s) = 16"
  obtains "r = None" "t = s" | fd where "r = Some fd" "fd < 16" "ofiles s ! fd = None" "t = s\<lparr>ofiles := (ofiles s)[fd := Some f]\<rparr>"
proof (cases "find_idx (\<lambda>x. x = None) (ofiles s)")
  case None
  then show thesis using assms that(1) by (simp add: fdalloc_def)
next
  case (Some fd)
  then have "fd < 16" "ofiles s ! fd = None" using assms(2) by (simp_all add: find_idx_Some)
  moreover have "r = Some fd" "t = s\<lparr>ofiles := (ofiles s)[fd := Some f]\<rparr>" using assms(1) Some by (simp_all add: fdalloc_def)
  ultimately show thesis using that(2) by blast
qed

lemma argfd_Some:
  assumes "argfd n u s = Some (fd, f)"
  shows "fd < 16" "ofiles s ! fd = Some f"
  using assms by (auto simp: argfd_def split: option.splits if_splits)

lemma argfd_file: "ftab_ok other s \<Longrightarrow> argfd n u s = Some (fd, f) \<Longrightarrow> f < NFILE \<and> fds s f > 0"
proof -
  assume a: "ftab_ok other s" "argfd n u s = Some (fd, f)"
  have "Some f \<in> set (ofiles s)" using argfd_Some[OF a(2)] ftab_okD(1)[OF a(1)] nth_mem[of fd "ofiles s"] by simp
  then show ?thesis using ftab_okD(5)[OF a(1)] count_notin by (auto simp: fds_def intro: Nat.gr0I dest: count_list_0_iff[THEN iffD1])
qed

lemma sys_dup_ok:
  assumes ok: "ftab_ok other s"
  obtains r t where "sys_dup u s = Inr (r, u, t)" "ftab_ok other t"
proof (cases "argfd 0 u s")
  case None
  then show thesis using that[of "-1" s] ok by (simp add: sys_dup_def)
next
  case (Some p)
  then obtain fd0 f where p: "argfd 0 u s = Some (fd0, f)" by (cases p) auto
  note f = argfd_file[OF ok p]
  obtain r1 s1 where a: "fdalloc f s = (r1, s1)" by fastforce
  show thesis
  proof (rule fdalloc_cases[OF a ftab_okD(1)[OF ok]])
    assume "r1 = None" "s1 = s"
    then show thesis using that[of "-1" s] ok p a by (simp add: sys_dup_def)
  next
    fix fd assume r: "r1 = Some fd" "fd < 16" "ofiles s ! fd = None" "s1 = s\<lparr>ofiles := (ofiles s)[fd := Some f]\<rparr>"
    have rf: "fref (ftable s ! f) = int (fds s f + other f)" using ftab_okD(3)[OF ok] f by blast
    have "ftab_ok (other(f := other f + 1)) (upd_file f (\<lambda>x. x\<lparr>fref := fref x + 1\<rparr>) s)"
      by (rule ref_change[OF ok]) (use f rf in simp_all)
    from fd_take[OF this r(2)] have "ftab_ok other ((upd_file f (\<lambda>x. x\<lparr>fref := fref x + 1\<rparr>) s)\<lparr>ofiles := (ofiles s)[fd := Some f]\<rparr>)"
      using r f by (simp add: upd_file_def)
    then have "ftab_ok other (upd_file f (\<lambda>x. x\<lparr>fref := fref x + 1\<rparr>) s1)" by (rule ftab_cong[THEN iffD1, rotated 2]) (simp_all add: upd_file_def r(4))
    moreover have "sys_dup u s = Inr (int fd, u, upd_file f (\<lambda>x. x\<lparr>fref := fref x + 1\<rparr>) s1)"
      using p a r f rf by (simp add: sys_dup_def filedup_def)
    ultimately show thesis using that by blast
  qed
qed

lemma sys_close_ok:
  assumes ok: "ftab_ok other s" and c: "sys_close u s = Inr (r, u', t)"
  shows "ftab_ok other t"
proof (cases "argfd 0 u s")
  case None
  then show ?thesis using ok c by (simp add: sys_close_def)
next
  case (Some p)
  then obtain fd f where p: "argfd 0 u s = Some (fd, f)" by (cases p) auto
  have "fileclose f (s\<lparr>ofiles := (ofiles s)[fd := None]\<rparr>) = Inr t" using c p by (auto simp: sys_close_def bind_r_eq_Inr)
  then have "ftab_ok ((other(f := other f + 1))(f := other f)) t"
    using fileclose_ok[OF fd_release[OF ok argfd_Some[OF p]], of f t] argfd_file[OF ok p] by simp
  then show ?thesis by simp
qed

text \<open>A free structure is taken and closed again without having been set up.\<close>

lemma open_fail_ok:
  assumes ok: "ftab_ok other s" and a: "filealloc s = (Some f, s2)" and c: "fileclose f s2 = Inr t"
  shows "ftab_ok other t \<and> ofiles t = ofiles s"
proof -
  have al: "ftab_ok (other(f := other f + 1)) s2" "f < NFILE" "ofiles s2 = ofiles s" using filealloc_ok[OF ok a] by blast+
  show ?thesis using fileclose_ret[OF al(1,2) c] al(3) by simp
qed

lemma sys_open_ok:
  assumes ok: "ftab_ok other s" and c: "sys_open dt u s = Inr (r, u', t)"
  shows "ftab_ok other t"
proof (cases "argstr 0 u = None \<or> argint 1 u = None")
  case True
  then show ?thesis using ok c by (auto simp: sys_open_def split: option.splits)
next
  case False
  then obtain path om where p: "argstr 0 u = Some path" "argint 1 u = Some om" by auto
  define omode where "omode = (of_int om :: u32)"
  obtain s0 ipo s1 where s1: "on_fs begin_tx s = Inr s0" "open_inode dt path omode s0 = Inr (ipo, s1)"
    using c p by (auto simp: sys_open_def Let_def bind_r_eq_Inr omode_def split: option.splits)
  have k1: "fdsame s s0" using keeps_on_fs[of s s begin_tx] s1(1) by simp
  have k2: "fdsame s s1" using keeps_open_inode[OF k1, of dt path omode] s1(2) by simp
  have ok1: "ftab_ok other s1" by (rule fdsame_ok[OF k2 ok])
  show ?thesis
  proof (cases ipo)
    case None
    then have "finish (-1) u s1 = Inr (r, u', t)" using c p s1 by (simp add: sys_open_def Let_def omode_def)
    then show ?thesis using keeps_finish[of s1 s1 "-1" u] fdsame_ok[OF _ ok1] by simp
  next
    case (Some ip)
    obtain fo s2 where al: "filealloc s1 = (fo, s2)" by fastforce
    define rest where "rest s4 = bind_r (on_fs (iunlockput (mypid s) ip) s4) (finish (-1) u)" for s4
    have restk: "keeps kp3 s4 (rest s4)" for s4 unfolding rest_def by (auto intro!: keeps_intros)
    show ?thesis
    proof (cases fo)
      case None
      then have "rest s2 = Inr (r, u', t)" using c p s1 Some al by (simp add: sys_open_def Let_def omode_def close_opt_def rest_def)
      moreover have "s2 = s1" using filealloc_none al None by blast
      ultimately show ?thesis using keeps_ok[OF restk[of s1] _ ok1] by auto
    next
      case fo: (Some f)
      obtain fdo s3 where fa: "fdalloc f s2 = (fdo, s3)" by fastforce
      note alo = filealloc_ok[OF ok1 al[unfolded fo]]
      have l: "length (ofiles s2) = 16" using alo ftab_okD(1)[OF ok1] by simp
      show ?thesis
      proof (rule fdalloc_cases[OF fa l])
        assume n: "fdo = None" "s3 = s2"
        then obtain s4 where s4: "fileclose f s2 = Inr s4" "rest s4 = Inr (r, u', t)"
          using c p s1 Some al fo fa by (auto simp: sys_open_def Let_def omode_def[symmetric] close_opt_def rest_def bind_r_eq_Inr)
        have "ftab_ok other s4" using open_fail_ok[OF ok1 al[unfolded fo] s4(1)] by simp
        then show ?thesis using keeps_ok[OF restk[of s4] s4(2)] by simp
      next
        fix fd assume n: "fdo = Some fd" "fd < 16" "ofiles s2 ! fd = None" "s3 = s2\<lparr>ofiles := (ofiles s2)[fd := Some f]\<rparr>"
        have ok3: "ftab_ok other s3" unfolding n(4) using alo by (intro fd_take[OF _ n(2,3)]) blast+
        define g :: "filest \<Rightarrow> filest" where "g = (\<lambda>x. x\<lparr>ftyp := FD_INODE, fip := ip, foff := 0, readable := (and omode O_WRONLY = 0),
                        writable := (and omode O_WRONLY \<noteq> 0 \<or> and omode O_RDWR \<noteq> 0)\<rparr>)"
        obtain s4 s5 where s5: "on_fs (iunlock (mypid s) ip) s3 = Inr s4" "on_fs end_tx s4 = Inr s5" "t = upd_file f g s5"
          using c p s1 Some al fo fa n(1) by (auto simp: sys_open_def Let_def omode_def[symmetric] g_def bind_r_eq_Inr)
        have k4: "fdsame s3 s4" using keeps_on_fs[of s3 s3 "iunlock (mypid s) ip"] s5(1) by simp
        have k5: "fdsame s3 s5" using keeps_on_fs[OF k4, of end_tx] s5(2) by simp
        have ok5: "ftab_ok other s5" by (rule fdsame_ok[OF k5 ok3])
        have rf: "fref (ftable s5 ! f) = int (fds s5 f + other f)" using ftab_okD(3)[OF ok5] alo by simp
        have "fds s5 f > 0"
        proof -
          have "ofiles s5 ! fd = Some f" "fd < length (ofiles s5)" using k5 n(2,4) l by (simp_all add: fdsame_def)
          then have "Some f \<in> set (ofiles s5)" by (metis nth_mem)
          then show ?thesis by (auto simp: fds_def intro: Nat.gr0I dest: count_list_0_iff[THEN iffD1])
        qed
        then have "ftab_ok (other(f := other f)) (upd_file f g s5)"
          by (intro ref_change[OF ok5]) (use alo rf in \<open>simp_all add: g_def\<close>)
        then show ?thesis using s5(3) by simp
      qed
    qed
  qed
qed

lemma pipealloc_ok:
  assumes ok: "ftab_ok other s" and c: "pipealloc s = Inr (r, t)"
  shows "(r = None \<longrightarrow> ftab_ok other t) \<and> (\<forall>a b. r = Some (a, b) \<longrightarrow> ofiles t = ofiles s \<and> a < NFILE \<and> b < NFILE \<and> a \<noteq> b \<and>
     ftab_ok (other(a := other a + 1, b := other b + 1)) t)"
proof -
  obtain f0 s0 where a0: "filealloc s = (f0, s0)" by fastforce
  show ?thesis
  proof (cases f0)
    case None
    then have "s0 = s" using filealloc_none a0 by blast
    then show ?thesis using c a0 None ok by (simp add: pipealloc_def close_opt_def)
  next
    case (Some a)
    have al0: "ftab_ok (other(a := other a + 1)) s0" "a < NFILE" "ofiles s0 = ofiles s" using filealloc_ok[OF ok a0[unfolded Some]] by blast+
    obtain f1 s1 where a1: "filealloc s0 = (f1, s1)" by fastforce
    show ?thesis
    proof (cases f1)
      case None
      then have e: "s1 = s0" using filealloc_none a1 by blast
      then have "fileclose a s0 = Inr t" "r = None" using c a0 a1 Some None by (auto simp: pipealloc_def close_opt_def bind_r_eq_Inr)
      then show ?thesis using open_fail_ok[OF ok a0[unfolded Some]] by simp
    next
      case f1: (Some b)
      let ?o1 = "other(a := other a + 1)"
      have al1: "ftab_ok (?o1(b := ?o1 b + 1)) s1" "b < NFILE" "ofiles s1 = ofiles s0" "?o1 b = 0" using filealloc_ok[OF al0(1) a1[unfolded f1]] by blast+
      have ab: "a \<noteq> b" using al1(4) by auto
      obtain q k where kl: "kalloc (kpages s1) = (q, k)" by fastforce
      have okk: "ftab_ok (?o1(b := ?o1 b + 1)) (s1\<lparr>kpages := k\<rparr>)" using al1(1) by (rule ftab_cong[THEN iffD1, rotated 2]) simp_all
      show ?thesis
      proof (cases "q = 0")
        case True
        then obtain s2 where s2: "fileclose a (s1\<lparr>kpages := k\<rparr>) = Inr s2" "fileclose b s2 = Inr t" "r = None"
          using c a0 a1 Some f1 kl by (auto simp: pipealloc_def bind_r_eq_Inr)
        have "?o1(b := ?o1 b + 1) = other(a := other a + 1, b := other b + 1)" using ab by auto
        then have "ftab_ok other t" using close_two[OF _ al0(2) al1(2) ab s2(1,2)] okk by metis
        then show ?thesis using s2(3) by simp
      next
        case False
        define s2 where "s2 = s1\<lparr>kpages := k, pipes := (pipes s1)(q := pipe_new (pdata (pipes s1 q)))\<rparr>"
        define ga :: "filest \<Rightarrow> filest" where "ga = (\<lambda>x. x\<lparr>ftyp := FD_PIPE, readable := True, writable := False, fpipe := q\<rparr>)"
        define gb :: "filest \<Rightarrow> filest" where "gb = (\<lambda>x. x\<lparr>ftyp := FD_PIPE, readable := False, writable := True, fpipe := q\<rparr>)"
        have t: "r = Some (a, b)" "t = upd_file b gb (upd_file a ga s2)"
          using c a0 a1 Some f1 kl False by (simp_all add: pipealloc_def Let_def s2_def ga_def gb_def)
        let ?o2 = "other(a := other a + 1, b := other b + 1)"
        have o2: "?o1(b := ?o1 b + 1) = ?o2" using ab by auto
        have ok2: "ftab_ok ?o2 s2" using al1(1)[unfolded o2] by (rule ftab_cong[THEN iffD1, rotated 2]) (simp_all add: s2_def)
        have "ftab_ok (?o2(a := ?o2 a)) (upd_file a ga s2)"
          using ftab_okD(3)[OF ok2 al0(2)] ab by (intro ref_change[OF ok2 al0(2)]) (simp_all add: ga_def)
        then have ok3: "ftab_ok ?o2 (upd_file a ga s2)" by (simp only: fun_upd_triv)
        have "ftab_ok (?o2(b := ?o2 b)) t" unfolding t(2)
          using ftab_okD(3)[OF ok3 al1(2)] by (intro ref_change[OF ok3 al1(2)]) (simp_all add: gb_def)
        then have "ftab_ok ?o2 t" by (simp only: fun_upd_triv)
        moreover have "ofiles t = ofiles s" using al0(3) al1(3) by (simp add: t(2) upd_file_def s2_def)
        ultimately show ?thesis using t(1) ab al0(2) al1(2) by simp
      qed
    qed
  qed
qed

lemma sys_pipe_ok:
  assumes ok: "ftab_ok other s" and c: "sys_pipe u s = Inr (r, u', t)"
  shows "ftab_ok other t"
proof (cases "argptr 0 8 u")
  case None
  then show ?thesis using ok c by (simp add: sys_pipe_def)
next
  case (Some p)
  then obtain x s1 where x: "pipealloc s = Inr (x, s1)" using c by (auto simp: sys_pipe_def bind_r_eq_Inr)
  note P = pipealloc_ok[OF ok x]
  show ?thesis
  proof (cases x)
    case None
    then show ?thesis using c Some x P by (simp add: sys_pipe_def)
  next
    case x': (Some ab)
    then obtain a b where ab: "x = Some (a, b)" by (cases ab) auto
    let ?o2 = "other(a := other a + 1, b := other b + 1)" and ?o1 = "other(b := other b + 1)"
    have q: "ofiles s1 = ofiles s" "a < NFILE" "b < NFILE" "a \<noteq> b" "ftab_ok ?o2 s1" using P ab by auto
    have l: "length (ofiles s1) = 16" using q(1) ftab_okD(1)[OF ok] by simp
    have tw: "?o2 = ?o1(a := ?o1 a + 1)" using q(4) by (auto simp: fun_eq_iff)
    obtain y s2 where y: "fdalloc a s1 = (y, s2)" by fastforce
    show ?thesis
    proof (rule fdalloc_cases[OF y l])
      assume n: "y = None" "s2 = s1"
      then obtain s3 where "fileclose a s1 = Inr s3" "fileclose b s3 = Inr t"
        using c Some x ab y by (auto simp: sys_pipe_def bind_r_eq_Inr)
      then show ?thesis by (rule close_two[OF q(5,2,3,4)])
    next
      fix fd0 assume n: "y = Some fd0" "fd0 < 16" "ofiles s1 ! fd0 = None" "s2 = s1\<lparr>ofiles := (ofiles s1)[fd0 := Some a]\<rparr>"
      have ok2: "ftab_ok ?o1 s2" unfolding n(4) by (rule fd_take[OF q(5)[unfolded tw] n(2,3) q(2)])
      obtain z s3 where z: "fdalloc b s2 = (z, s3)" by fastforce
      show ?thesis
      proof (rule fdalloc_cases[OF z ftab_okD(1)[OF ok2]])
        assume m: "z = None" "s3 = s2"
        then obtain s4 where s4: "fileclose a (s2\<lparr>ofiles := (ofiles s2)[fd0 := None]\<rparr>) = Inr s4" "fileclose b s4 = Inr t"
          using c Some x ab y n(1) z by (auto simp: sys_pipe_def bind_r_eq_Inr)
        have "ofiles s2 ! fd0 = Some a" using n(2,4) l by simp
        then have "ftab_ok (?o1(a := ?o1 a + 1)) (s2\<lparr>ofiles := (ofiles s2)[fd0 := None]\<rparr>)" by (rule fd_release[OF ok2 n(2)])
        then show ?thesis using close_two[OF _ q(2,3,4) s4] tw by metis
      next
        fix fd1 assume m: "z = Some fd1" "fd1 < 16" "ofiles s2 ! fd1 = None" "s3 = s2\<lparr>ofiles := (ofiles s2)[fd1 := Some b]\<rparr>"
        have "ftab_ok other s3" unfolding m(4) by (rule fd_take[OF ok2 m(2,3) q(3)])
        then show ?thesis using c Some x ab y n(1) z m(1) by (simp add: sys_pipe_def)
      qed
    qed
  qed
qed

text \<open>The file system calls.\<close>

definition file_calls :: "devtab \<Rightarrow> (uctx \<Rightarrow> sysst \<Rightarrow> sysret) set" where
  "file_calls dt = {sys_dup, sys_close, sys_pipe, sys_fstat, sys_read dt, sys_write dt, sys_open dt, sys_link dt, sys_unlink dt, sys_mkdir dt, sys_mknod dt, sys_chdir dt}"

lemma file_calls_ok:
  assumes ok: "ftab_ok other s" and c: "c \<in> file_calls dt" "c u s = Inr (r, u', t)"
  shows "ftab_ok other t"
proof -
  have "ftab_ok other t" if "sys_dup u s = Inr (r, u', t)"
    using sys_dup_ok[OF ok, of u] that by (metis Inr_inject prod.inject)
  moreover have "ftab_ok other t" if "c \<in> {sys_fstat, sys_read dt, sys_write dt, sys_link dt, sys_unlink dt, sys_mkdir dt, sys_mknod dt, sys_chdir dt}"
  proof -
    have "keeps kp3 s (c u s)"
      using that keeps_sys_fstat keeps_sys_read keeps_sys_write keeps_sys_link keeps_sys_unlink keeps_sys_mk keeps_sys_chdir by auto
    from keeps_ok[OF this c(2) ok] show ?thesis by simp
  qed
  ultimately show ?thesis using c sys_close_ok[OF ok] sys_open_ok[OF ok] sys_pipe_ok[OF ok] unfolding file_calls_def by blast
qed

text \<open>
  C36: every file system call keeps the reference counts of the file table exact, also when it fails half way (no free
  structure, no free descriptor, no page for a pipe, a path that does not exist): a structure's count is the number of
  descriptors that refer to it in this process and, as given by \<open>other\<close>, in the others, and a free structure has
  type \<open>FD_NONE\<close>, so the error path of \<open>sys_open\<close> and \<open>sys_pipe\<close> never closes somebody else's inode or pipe. \<open>sys_dup\<close>
  never panics.
\<close>

theorem fd_refcounts:
  assumes "ftab_ok other s" and "c \<in> file_calls dt"
  shows "(\<forall>r u' t. c u s = Inr (r, u', t) \<longrightarrow> ftab_ok other t) \<and> (\<exists>r t. sys_dup u s = Inr (r, u, t))"
  using file_calls_ok[OF assms] sys_dup_ok[OF assms(1), of u] by blast

definition demo_sys :: sysst where
  "demo_sys = \<lparr>fsys = \<lparr>blk = (\<lambda>_ _. []), logged = [], ops = 0, hold = [], sb = \<lparr>sb_size = 0, sb_nblocks = 0, sb_ninodes = 0, sb_nlog = 0,
       sb_logstart = 0, sb_inodestart = 0, sb_bmapstart = 0\<rparr>, icache = []\<rparr>,
     ftable = \<lparr>ftyp = FD_PIPE, fref = 1, readable = True, writable = False, fpipe = 0, fip = 0, foff = 0\<rparr> #
       replicate 99 \<lparr>ftyp = FD_NONE, fref = 0, readable = False, writable = False, fpipe = 0, fip = 0, foff = 0\<rparr>,
     pipes = (\<lambda>_. pipe_new (\<lambda>_. 0)), kpages = \<lparr>ram = (\<lambda>_. 0), freelist = 0, use_lock = True\<rparr>, kend = 0, woken = [],
     ofiles = Some 0 # replicate 15 None, curdir = None, mypid = 3, mykilled = False\<rparr>"

theorem fd_refcounts_witness:
  "\<exists>r t. sys_dup \<lparr>umem = (\<lambda>_. 0), usz = 4096, uesp = 0\<rparr> demo_sys = Inr (r, \<lparr>umem = (\<lambda>_. 0), usz = 4096, uesp = 0\<rparr>, t) \<and> ftab_ok (\<lambda>_. 0) t"
proof -
  have "ftab_ok (\<lambda>_. 0) demo_sys"
    by (auto simp: ftab_ok_def demo_sys_def NFILE_def fds_def nth_Cons' count_list_0_iff split: if_splits)
  from fd_refcounts[OF this, of sys_dup "\<lambda>_. \<lparr>dread = None, dwrite = None\<rparr>" "\<lparr>umem = (\<lambda>_. 0), usz = 4096, uesp = 0\<rparr>"]
  show ?thesis unfolding file_calls_def by blast
qed

section \<open>User memory\<close>

text \<open>Where the kernel stores into user memory.\<close>

lemma wr_outside: "\<not> inside a (length bs) b \<Longrightarrow> fits a (length bs) \<Longrightarrow> wr m a bs b = m b"
  by (auto simp: wr_apply inside_off)

lemma argptr_bounds:
  assumes "argptr n len u = Some p" "unat (usz u) \<le> 2147483648" "len < 2147483648"
  shows "unat p + nat len \<le> unat (usz u)" "0 \<le> len"
proof -
  obtain i where i: "p = of_int i" "\<not> len < 0" "\<not> p \<ge> usz u" "\<not> p + of_int len > usz u"
    using assms(1) by (auto simp: argptr_def split: option.splits if_splits)
  show l: "0 \<le> len" using i(2) by simp
  obtain k where k: "len = int k" "k < 2147483648" using l assms(3) by (metis nat_0_le nat_less_iff of_nat_numeral int_ops(3) of_nat_less_iff)
  then have ul: "unat (of_int len :: u32) = nat len" by (simp add: unat_of_nat)
  have "unat p < 2147483648" using i(3) assms(2) by (simp add: word_le_nat_alt)
  then have "unat (p + of_int len) = unat p + nat len" using ul assms(3) l by (simp add: unat_word_ariths nat_less_iff)
  then show "unat p + nat len \<le> unat (usz u)" using i(4) by (simp add: word_less_nat_alt)
qed

lemma readi_loop_length: "readi_loop i off n s = Inr (ds, t) \<Longrightarrow> length ds \<le> n"
proof (induction n arbitrary: off s ds rule: less_induct)
  case (less n)
  show ?case
  proof (cases "n = 0")
    case True
    then show ?thesis using less.prems by (simp add: readi_loop.simps)
  next
    case False
    define m where "m = min n (BSIZE - off mod BSIZE)"
    have m: "0 < m" "m \<le> n" using False by (simp_all add: m_def BSIZE_def)
    obtain d s1 es where "readi_loop i (off + m) (n - m) s1 = Inr (es, t)" "ds = take m (drop (off mod BSIZE) d) @ es"
      using less.prems[unfolded readi_loop.simps[of i off n s]] False by (auto simp: Let_def m_def[symmetric] bind_r_eq_Inr split: prod.splits)
    then show ?thesis using less.IH[of "n - m" "off + m" s1 es] m by simp
  qed
qed

lemma read_loop_length: "read_loop n p = (bs, q) \<Longrightarrow> length bs \<le> n"
  by (induction n arbitrary: p bs q) (auto split: if_splits prod.splits)

text \<open>A device never stores more than it was asked for.\<close>

definition dev_bounded :: "devtab \<Rightarrow> bool" where
  "dev_bounded dt \<longleftrightarrow> (\<forall>m f i n s r bs t. dread (dt m) = Some f \<longrightarrow> f i n s = Inr (r, bs, t) \<longrightarrow> length bs \<le> unat n)"

lemma readi_length:
  assumes "dev_bounded dt" "readi dt i off n s = Inr (r, bs, t)"
  shows "length bs \<le> unat n"
proof (cases "itype (icache s ! i) = T_DEV")
  case True
  then have "bs = [] \<or> (\<exists>f. dread (dt (sint (imajor (icache s ! i)))) = Some f \<and> f i n s = Inr (r, bs, t))"
    using assms(2) by (auto simp: readi_def Let_def split: if_splits option.splits)
  then show ?thesis using assms(1) unfolding dev_bounded_def by (metis le0 list.size(3))
next
  case False
  then obtain n1 where "bs = [] \<or> readi_loop i (unat off) (unat n1) s = Inr (bs, t)" "n1 = n \<or> off + n > isize (icache s ! i) \<and> n1 = isize (icache s ! i) - off"
     "\<not> (off > isize (icache s ! i) \<or> off + n < off) \<or> bs = []"
    using assms(2) by (auto simp: readi_def Let_def bind_r_eq_Inr split: if_splits)
  moreover have "unat (isize (icache s ! i) - off) \<le> unat n" if "off \<le> isize (icache s ! i)" "\<not> off + n < off" "off + n > isize (icache s ! i)"
  proof -
    have "unat (off + n) = unat off + unat n" using that(2) no_olen_add_nat[of off n] by (simp add: not_less unat_plus_simple)
    then show ?thesis using that by (simp add: unat_sub word_less_nat_alt word_le_nat_alt)
  qed
  ultimately show ?thesis using readi_loop_length[of i "unat off" "unat n1" s bs t] by (auto simp: not_less)
qed

lemma argint_range: "argint n u = Some k \<Longrightarrow> k < 2147483648"
proof -
  assume "argint n u = Some k"
  then obtain w :: u32 where "k = sint w" by (auto simp: argint_def fetchint_def split: if_splits)
  then show ?thesis using sint_lt[of w] by simp
qed

lemma fileread_length:
  assumes "dev_bounded dt" "fileread dt f n s = Inr (r, bs, t)" "0 \<le> n" "n < 2147483648"
  shows "length bs \<le> nat n"
proof -
  obtain k where k: "n = int k" "k < 2147483648" using assms(3,4) by (metis nat_0_le nat_less_iff of_nat_numeral of_nat_less_iff)
  have u: "unat (of_int n :: u32) = nat n" using k by (simp add: unat_of_nat)
  show ?thesis
  proof (cases "ftyp (ftable s ! f)")
    case FD_PIPE
    obtain x q ch where x: "piperead (mykilled s) (nat n) (pipes s (fpipe (ftable s ! f))) = (x, q, ch)" by (metis prod_cases3)
    have "bs = [] \<or> x = Got bs" using assms(2) FD_PIPE x by (auto simp: fileread_def Let_def split: if_splits rres.splits)
    then show ?thesis using x read_loop_length by (auto simp: piperead_def split: if_splits prod.splits)
  next
    case FD_INODE
    then have "bs = [] \<or> (\<exists>i off s1 r t. readi dt i off (of_int n) s1 = Inr (r, bs, t))"
      using assms(2) by (auto simp: fileread_def Let_def bind_r_eq_Inr split: if_splits)
    then show ?thesis using readi_length[OF assms(1)] u by fastforce
  qed (use assms(2) in \<open>auto simp: fileread_def Let_def split: if_splits\<close>)
qed

lemma wr_above:
  assumes "unat p + length bs \<le> unat z" "\<not> a < z"
  shows "wr m p bs a = m a"
proof (cases "bs = []")
  case False
  have f: "fits p (length bs)" using assms(1) unat_lt32[of z] by (simp add: fits_def)
  have "\<not> inside p (length bs) a"
  proof
    assume "inside p (length bs) a"
    then obtain i where "i < length bs" "a = p + of_nat i" using inside_off[OF f] by blast
    then have "unat a < unat z" using unat_off[OF f] assms(1) by simp
    then show False using assms(2) by (simp add: word_less_nat_alt)
  qed
  then show ?thesis by (rule wr_outside[OF _ f])
qed simp

lemma put32_above:
  assumes "unat p + k + 4 \<le> unat z" "\<not> a < z"
  shows "put32 m (p + of_nat k) v a = m a"
proof -
  have "unat (p + of_nat k) = unat p + k" using assms(1) unat_lt32[of z] by (simp add: unat_word_ariths unat_of_nat)
  then show ?thesis unfolding put32_wr using assms by (intro wr_above[where z = z]) simp_all
qed

lemma upd_above:
  fixes p z a :: u32
  assumes "unat p + k < unat z" "\<not> a < z"
  shows "a \<noteq> p + of_nat k"
proof -
  have "unat (p + of_nat k) = unat p + k" using assms(1) unat_lt32[of z] by (simp add: unat_word_ariths unat_of_nat)
  then show ?thesis using assms by (auto simp: word_less_nat_alt)
qed

lemma put_stat_above:
  assumes "unat p + 20 \<le> unat z" "\<not> a < z"
  shows "put_stat m p st a = m a"
proof -
  have "put32 m (p + 4) v a = m a" "put32 m (p + 8) v a = m a" "put32 m (p + 16) v a = m a" for m v
    using put32_above[of p 4 z a] put32_above[of p 8 z a] put32_above[of p 16 z a] assms by simp_all
  moreover have "a \<noteq> p" "a \<noteq> p + 1" "a \<noteq> p + 12" "a \<noteq> p + 13"
    using upd_above[of p 0 z a] upd_above[of p 1 z a] upd_above[of p 12 z a] upd_above[of p 13 z a] assms by simp_all
  ultimately show ?thesis by (simp add: put_stat_def Let_def)
qed

lemma sys_pipe_stores:
  assumes c: "sys_pipe u s = Inr (r, u', t)"
  shows "u' = u \<or> (\<exists>p v w. argptr 0 8 u = Some p \<and> u' = u\<lparr>umem := put32 (put32 (umem u) p v) (p + 4) w\<rparr>)"
proof (cases "argptr 0 8 u")
  case None
  then show ?thesis using c by (simp add: sys_pipe_def)
next
  case (Some p)
  then obtain x s1 where x: "pipealloc s = Inr (x, s1)" using c by (auto simp: sys_pipe_def bind_r_eq_Inr)
  show ?thesis
  proof (cases x)
    case None
    then show ?thesis using c Some x by (simp add: sys_pipe_def)
  next
    case x': (Some ab)
    obtain y s2 where y: "fdalloc (fst ab) s1 = (y, s2)" by fastforce
    obtain z s3 where z: "fdalloc (snd ab) s2 = (z, s3)" by fastforce
    show ?thesis using c Some x x' y z by (cases ab; cases y; cases z) (auto simp: sys_pipe_def bind_r_eq_Inr)
  qed
qed

text \<open>
  C37: the calls that store into user memory (\<open>read\<close>, \<open>fstat\<close>, \<open>pipe\<close>) change nothing at or above the size of the calling
  process, whatever address and length it passed, although the checks of \<open>argptr\<close> are made in wrapping 32-bit arithmetic.
  The process is smaller than \<open>KERNBASE\<close>, and no device stores more bytes than it was asked for.
\<close>

theorem user_stores_bounded:
  assumes "usz u \<le> KERNBASE" and "dev_bounded dt" and "c \<in> {sys_read dt, sys_fstat, sys_pipe}" and "c u s = Inr (r, u', t)" and "\<not> a < usz u"
  shows "umem u' a = umem u a"
proof -
  have z: "unat (usz u) \<le> 2147483648" using assms(1) by (simp add: KERNBASE_def word_le_nat_alt)
  have rd: "umem u' a = umem u a" if c: "sys_read dt u s = Inr (r, u', t)"
  proof -
    have "u' = u \<or> (\<exists>f n p bs. argint 2 u = Some n \<and> argptr 1 n u = Some p \<and> fileread dt f n s = Inr (r, bs, t) \<and> u' = u\<lparr>umem := wr (umem u) p bs\<rparr>)"
      using c by (auto simp: sys_read_def bind_r_eq_Inr split: option.splits) blast
    then consider "u' = u" | f n p bs where "argint 2 u = Some n" "argptr 1 n u = Some p" "fileread dt f n s = Inr (r, bs, t)" "u' = u\<lparr>umem := wr (umem u) p bs\<rparr>"
      by blast
    then show ?thesis
    proof cases
      case (2 f n p bs)
      note n = argint_range[OF 2(1)] note p = argptr_bounds[OF 2(2) z n]
      have "length bs \<le> nat n" by (rule fileread_length[OF assms(2) 2(3) p(2) n])
      then show ?thesis using wr_above[of p bs "usz u" a] p(1) assms(5) 2(4) by simp
    qed simp
  qed
  have "u' = u \<or> (\<exists>p st. argptr 1 20 u = Some p \<and> u' = u\<lparr>umem := put_stat (umem u) p st\<rparr>)" if "sys_fstat u s = Inr (r, u', t)"
    using that by (auto simp: sys_fstat_def bind_r_eq_Inr split: option.splits) blast
  then have st: "umem u' a = umem u a" if "sys_fstat u s = Inr (r, u', t)"
    using that argptr_bounds[OF _ z, of 1 20] put_stat_above[OF _ assms(5)] by fastforce
  have "u' = u \<or> (\<exists>p v w. argptr 0 8 u = Some p \<and> u' = u\<lparr>umem := put32 (put32 (umem u) p v) (p + 4) w\<rparr>)" if "sys_pipe u s = Inr (r, u', t)"
    using sys_pipe_stores[OF that] .
  then have pp: "umem u' a = umem u a" if "sys_pipe u s = Inr (r, u', t)"
    using that argptr_bounds[OF _ z, of 0 8] put32_above[OF _ assms(5), of _ 0] put32_above[OF _ assms(5), of _ 4] by fastforce
  show ?thesis using assms(3,4) rd st pp by blast
qed

text \<open>A read of two bytes from the pipe of the demonstration state into address 100.\<close>

definition demo_u :: uctx where
  "demo_u = \<lparr>umem = (\<lambda>_. 0)(8 := 100, 12 := 2), usz = 4096, uesp = 0\<rparr>"

definition demo_read :: sysst where
  "demo_read = demo_sys\<lparr>pipes := (\<lambda>_. put_byte 8 (put_byte 7 (pipe_new (\<lambda>_. 0))))\<rparr>"

theorem user_stores_bounded_witness:
  "\<exists>r u' t. sys_read (\<lambda>_. \<lparr>dread = None, dwrite = None\<rparr>) demo_u demo_read = Inr (r, u', t) \<and> r = 2 \<and> umem u' 100 = 7 \<and> umem u' 5000 = 0"
proof -
  have f: "fileread (\<lambda>_. \<lparr>dread = None, dwrite = None\<rparr>) 0 2 demo_read =
    Inr (2, [7, 8], demo_read\<lparr>pipes := (pipes demo_read)(0 := (pipes demo_read 0)\<lparr>nread := 2\<rparr>), woken := [(0, ChNwrite)]\<rparr>)"
  proof -
    have "read_loop (Suc (Suc 0)) (put_byte 8 (put_byte 7 (pipe_new (\<lambda>_. 0)))) = ([7, 8], (put_byte 8 (put_byte 7 (pipe_new (\<lambda>_. 0))))\<lparr>nread := 2\<rparr>)"
      by (simp add: put_byte_def pipe_new_def get_byte_def PIPESIZE_def)
    moreover have "nat 2 = Suc (Suc 0)" by simp
    ultimately show ?thesis
      by (simp only: fileread_def piperead_def) (simp add: demo_read_def demo_sys_def put_byte_def pipe_new_def Let_def)
  qed
  have c: "sys_read (\<lambda>_. \<lparr>dread = None, dwrite = None\<rparr>) demo_u demo_read =
    Inr (2, demo_u\<lparr>umem := wr (umem demo_u) 100 [7, 8]\<rparr>, demo_read\<lparr>pipes := (pipes demo_read)(0 := (pipes demo_read 0)\<lparr>nread := 2\<rparr>), woken := [(0, ChNwrite)]\<rparr>)"
    using f by (simp add: sys_read_def argfd_def argint_def argptr_def fetchint_def get32_def demo_u_def demo_read_def demo_sys_def)
  have "umem (demo_u\<lparr>umem := wr (umem demo_u) 100 [7, 8]\<rparr>) 5000 = umem demo_u 5000"
    by (rule user_stores_bounded[where c = "sys_read (\<lambda>_. \<lparr>dread = None, dwrite = None\<rparr>)", OF _ _ _ c, where dt = "\<lambda>_. \<lparr>dread = None, dwrite = None\<rparr>"])
      (simp_all add: demo_u_def KERNBASE_def dev_bounded_def)
  then show ?thesis unfolding c by (simp add: demo_u_def)
qed

end
