(* ===== verification/Proc_Life.thy ===== *)
theory Proc_Life
  imports Sched Vm Sysfile_Props
begin

text \<open>
  The life of a process (\<open>proc.c\<close>): \<open>allocproc\<close>, \<open>userinit\<close>, \<open>growproc\<close>, \<open>fork\<close>, \<open>exit\<close>, \<open>wait\<close> and \<open>waitx\<close>, on the
  process table and queues of \<open>Sched\<close> together with the file system, file table, pipes and memory of \<open>Sysfile\<close>. Each call is
  one step of the process that makes it; it ends when the call returns or the process enters the scheduler.
\<close>

section \<open>State\<close>

text \<open>
  The fields \<open>ofiles\<close>, \<open>curdir\<close>, \<open>mypid\<close> and \<open>mykilled\<close> of \<open>io\<close> have a meaning only during a system call, when they are
  loaded from the running process.
\<close>

record kworld = kst +
  io :: sysst

text \<open>Addresses fixed by the linker: \<open>trapret\<close>, \<open>forkret\<close>, \<open>data\<close>, and the image and the size of \<open>initcode\<close>.\<close>

record ksyms =
  sym_trapret :: u32
  sym_forkret :: u32
  sym_data :: u32
  sym_initcode :: u32
  sym_initsize :: u32

definition KSTACKSIZE :: u32 where "KSTACKSIZE = 4096"
definition TF_SIZE :: u32 where "TF_SIZE = 76"
definition CTX_SIZE :: u32 where "CTX_SIZE = 20"

definition kmem_of :: "kworld \<Rightarrow> kmem" where "kmem_of w = kpages (io w)"

definition set_kmem :: "kmem \<Rightarrow> kworld \<Rightarrow> kworld" where
  "set_kmem k w = w\<lparr>io := (io w)\<lparr>kpages := k\<rparr>\<rparr>"

definition set_ram :: "mem \<Rightarrow> kworld \<Rightarrow> kworld" where
  "set_ram m w = set_kmem ((kmem_of w)\<lparr>ram := m\<rparr>) w"

definition kend_of :: "kworld \<Rightarrow> u32" where "kend_of w = kend (io w)"

text \<open>A file operation on behalf of process \<open>p\<close>, with the wakeups of the pipes it touched.\<close>

definition pipe_chan :: "u32 \<times> pchan \<Rightarrow> chan" where
  "pipe_chan c = (case c of (p, ChNread) \<Rightarrow> ChanAddr (p + 564) | (p, ChNwrite) \<Rightarrow> ChanAddr (p + 568))"

definition load_proc :: "nat \<Rightarrow> kworld \<Rightarrow> sysst" where
  "load_proc p w = (io w)\<lparr>ofiles := ofile (pc w p), curdir := cwd (pc w p), mypid := pid (pc w p), mykilled := killed (pc w p), File.woken := []\<rparr>"

definition store_proc :: "policy \<Rightarrow> nat \<Rightarrow> sysst \<Rightarrow> kworld \<Rightarrow> kworld result" where
  "store_proc pol p s w =
    fold_r (\<lambda>c. wakeup1 pol (Some (pipe_chan c))) (File.woken s)
      (upd_proc p (\<lambda>x. x\<lparr>ofile := ofiles s, cwd := curdir s\<rparr>) (w\<lparr>io := s\<rparr>))"

section \<open>Creation\<close>

definition initProcMyStyle :: "policy \<Rightarrow> nat option \<Rightarrow> kworld \<Rightarrow> kworld result" where
  "initProcMyStyle pol po w =
    (case po of None \<Rightarrow> Inr w
     | Some p \<Rightarrow>
       if pid (pc w p) = 0 then Inr w
       else bind_r
         (if pol = MLFQ then bind_r (pushBack HIGHEST_PRIO_Q (Some p) w) (\<lambda>w1. Inr (upd_proc p (\<lambda>x. x\<lparr>latestQTime := sint (ticks w1)\<rparr>) w1))
          else Inr w)
         (\<lambda>w1. Inr (upd_proc p (\<lambda>x. x\<lparr>ctime := sint (ticks w1), rtime := 0, etime := -1\<rparr>) w1)))"

text \<open>The new kernel stack: the trap frame on top, below it the return address \<open>trapret\<close> and a context that starts at \<open>forkret\<close>.\<close>

definition setup_stack :: "ksyms \<Rightarrow> nat \<Rightarrow> kworld \<Rightarrow> kworld" where
  "setup_stack ks p w =
    (let sp1 = kstack (pc w p) + KSTACKSIZE - TF_SIZE; sp2 = sp1 - 4; sp3 = sp2 - CTX_SIZE;
         m1 = put32 (ram (kmem_of w)) sp2 (sym_trapret ks);
         m2 = put32 (memset m1 sp3 0 CTX_SIZE) (sp3 + 16) (sym_forkret ks)
     in upd_proc p (\<lambda>x. x\<lparr>tf := sp1, ctxt := sp3\<rparr>) (set_ram m2 w))"

text \<open>\<open>nextpid\<close> is a signed \<open>int\<close>, whose increment is undefined at its largest value.\<close>

definition allocproc :: "ksyms \<Rightarrow> policy \<Rightarrow> kworld \<Rightarrow> (nat option \<times> kworld) result" where
  "allocproc ks pol w =
    (case find_idx (\<lambda>x. state x = UNUSED) (procs w) of
       None \<Rightarrow> Inr (None, w)
     | Some p \<Rightarrow>
       if nextpid w \<ge> 2 ^ 31 - 1 then Inl (Fault ''nextpid++'')
       else
         let w1 = (upd_proc p (\<lambda>x. x\<lparr>state := EMBRYO, pid := nextpid w\<rparr>) w)\<lparr>nextpid := nextpid w + 1\<rparr> in
         case kalloc (kmem_of w1) of (k, m) \<Rightarrow>
         let w2 = upd_proc p (\<lambda>x. x\<lparr>kstack := k\<rparr>) (set_kmem m w1) in
         if k = 0 then Inr (None, upd_proc p (\<lambda>x. x\<lparr>state := UNUSED\<rparr>) w2)
         else
           let w3 = setup_stack ks p w2;
               w4 = (if pol = PBS then upd_proc p (\<lambda>x. x\<lparr>priority := DEFAULT_PRIORITY\<rparr>) w3 else w3)
           in bind_r (initProcMyStyle pol (Some p) w4) (\<lambda>w5. Inr (Some p, w5)))"

text \<open>
  Offsets in \<open>struct trapframe\<close>: \<open>eax\<close> 28, \<open>es\<close> 40, \<open>ds\<close> 44, \<open>eip\<close> 56, \<open>cs\<close> 60, \<open>eflags\<close> 64, \<open>esp\<close> 68, \<open>ss\<close> 72; the
  segment registers are 16 bits with padding. \<open>SEG_UCODE << 3 | DPL_USER\<close> is 0x1B, \<open>SEG_UDATA << 3 | DPL_USER\<close> is 0x23.
\<close>

definition put16 :: "mem \<Rightarrow> u32 \<Rightarrow> u16 \<Rightarrow> mem" where
  "put16 m a v = m(a := ucast v, a + 1 := ucast (drop_bit 8 v))"

definition user_tf :: "u32 \<Rightarrow> mem \<Rightarrow> mem" where
  "user_tf t m =
    (let m1 = memset m t 0 TF_SIZE; m2 = put16 m1 (t + 60) 0x1B; m3 = put16 m2 (t + 44) 0x23; m4 = put16 m3 (t + 40) 0x23;
         m5 = put16 m4 (t + 72) 0x23; m6 = put32 m5 (t + 64) 0x200; m7 = put32 m6 (t + 68) PGSIZE
     in put32 m7 (t + 56) 0)"

definition userinit :: "ksyms \<Rightarrow> policy \<Rightarrow> devtab \<Rightarrow> kworld \<Rightarrow> kworld result" where
  "userinit ks pol dt w =
    bind_r (allocproc ks pol w) (\<lambda>(po, w1).
      case po of None \<Rightarrow> Inl (Fault ''userinit: p->pgdir'')
      | Some p \<Rightarrow>
        bind_r (setupkvm (kend_of w1) (sym_data ks) (kmem_of w1)) (\<lambda>(d, m).
          if d = 0 then Inl (Panic ''userinit: out of memory?'')
          else bind_r (inituvm d (sym_initcode ks) (sym_initsize ks) m) (\<lambda>m1.
            let w2 = upd_proc p (\<lambda>x. x\<lparr>pgdir := d, sz := PGSIZE\<rparr>) (set_kmem m1 (w1\<lparr>initproc := Some p\<rparr>));
                w3 = set_ram (user_tf (tf (pc w2 p)) (ram (kmem_of w2))) w2;
                w4 = upd_proc p (\<lambda>x. x\<lparr>Proc_Table.name := ''initcode''\<rparr>) w3
            in bind_r (namei (pid (pc w4 p)) dt 0 [47] (fsys (io w4))) (\<lambda>(c, f).
              Inr (upd_proc p (\<lambda>x. x\<lparr>cwd := c, state := RUNNABLE\<rparr>) (w4\<lparr>io := (io w4)\<lparr>fsys := f\<rparr>\<rparr>))))))"

definition growproc :: "int \<Rightarrow> kworld \<Rightarrow> (int \<times> kworld) result" where
  "growproc n w =
    (case cproc w of None \<Rightarrow> Inl (Fault ''curproc->sz'')
     | Some p \<Rightarrow>
       let sz0 = sz (pc w p); d = pgdir (pc w p);
           finish_grow = (\<lambda>sz1 m. let w1 = upd_proc p (\<lambda>x. x\<lparr>sz := sz1\<rparr>) (set_kmem m w) in bind_r (switchuvm p w1) (\<lambda>w2. Inr (0, w2)))
       in if n > 0 then
            bind_r (allocuvm (kend_of w) d sz0 (sz0 + of_int n) (kmem_of w)) (\<lambda>(sz1, m). if sz1 = 0 then Inr (-1, set_kmem m w) else finish_grow sz1 m)
          else if n < 0 then
            bind_r (deallocuvm (kend_of w) d sz0 (sz0 + of_int n) (kmem_of w)) (\<lambda>(sz1, m). if sz1 = 0 then Inr (-1, set_kmem m w) else finish_grow sz1 m)
          else finish_grow sz0 (kmem_of w))"

text \<open>One round of the descriptor loop of \<open>fork\<close>.\<close>

definition fork_fd :: "nat \<Rightarrow> nat \<Rightarrow> nat \<Rightarrow> kworld \<Rightarrow> kworld result" where
  "fork_fd cur np i w =
    (case ofile (pc w cur) ! i of
       None \<Rightarrow> Inr w
     | Some f \<Rightarrow> bind_r (filedup f (io w)) (\<lambda>s. Inr (upd_proc np (\<lambda>x. x\<lparr>ofile := (ofile x)[i := Some f]\<rparr>) (w\<lparr>io := s\<rparr>))))"

text \<open>The child gets the parent's memory already copied; the rest of \<open>fork\<close> after \<open>copyuvm\<close> succeeded.\<close>

definition fork_child :: "policy \<Rightarrow> nat \<Rightarrow> nat \<Rightarrow> kworld \<Rightarrow> (int \<times> kworld) result" where
  "fork_child pol cur np w =
    (let w1 = upd_proc np (\<lambda>x. x\<lparr>sz := sz (pc w cur), parent := Some cur\<rparr>) w;
         t = tf (pc w1 np);
         w2 = set_ram (put32 (memmove (ram (kmem_of w1)) t (tf (pc w1 cur)) TF_SIZE) (t + 28) 0) w1;
         w3 = (if pol = PBS then upd_proc np (\<lambda>x. x\<lparr>priority := (if ifMeraProc w2 (Some np) then pid x div 2 else DEFAULT_PRIORITY)\<rparr>) w2 else w2)
     in bind_r (fold_r (fork_fd cur np) [0..<NOFILE] w3) (\<lambda>w4.
       case cwd (pc w4 cur) of None \<Rightarrow> Inl (Fault ''idup'')
       | Some c \<Rightarrow>
         (case idup c (fsys (io w4)) of (c', f) \<Rightarrow>
            let w5 = upd_proc np (\<lambda>x. x\<lparr>cwd := Some c', Proc_Table.name := take 15 (Proc_Table.name (pc w4 cur))\<rparr>) (w4\<lparr>io := (io w4)\<lparr>fsys := f\<rparr>\<rparr>)
            in Inr (pid (pc w5 np), upd_proc np (\<lambda>x. x\<lparr>state := RUNNABLE\<rparr>) w5))))"

definition fork :: "ksyms \<Rightarrow> policy \<Rightarrow> kworld \<Rightarrow> (int \<times> kworld) result" where
  "fork ks pol w =
    (case cproc w of None \<Rightarrow> Inl (Fault ''curproc->pgdir'')
     | Some cur \<Rightarrow>
       bind_r (allocproc ks pol w) (\<lambda>(po, w1).
         case po of None \<Rightarrow> Inr (-1, w1)
         | Some np \<Rightarrow>
           bind_r (copyuvm (kend_of w1) (sym_data ks) (pgdir (pc w1 cur)) (sz (pc w1 cur)) (kmem_of w1)) (\<lambda>(d, m).
             let w2 = upd_proc np (\<lambda>x. x\<lparr>pgdir := d\<rparr>) (set_kmem m w1) in
             if d = 0 then
               bind_r (kfree (kend_of w2) (kstack (pc w2 np)) (kmem_of w2)) (\<lambda>m1.
                 Inr (-1, upd_proc np (\<lambda>x. x\<lparr>kstack := 0, state := UNUSED\<rparr>) (set_kmem m1 w2)))
             else fork_child pol cur np w2)))"

section \<open>Termination\<close>

definition exit_fd :: "policy \<Rightarrow> nat \<Rightarrow> nat \<Rightarrow> kworld \<Rightarrow> kworld result" where
  "exit_fd pol cur fd w =
    (case ofile (pc w cur) ! fd of
       None \<Rightarrow> Inr w
     | Some f \<Rightarrow>
       bind_r (fileclose f (load_proc cur w)) (\<lambda>s. store_proc pol cur (s\<lparr>ofiles := (ofiles s)[fd := None]\<rparr>) w))"

definition exit_cwd :: "nat \<Rightarrow> kworld \<Rightarrow> kworld result" where
  "exit_cwd cur w =
    bind_r (begin_tx (fsys (io w))) (\<lambda>f1.
      case cwd (pc w cur) of None \<Rightarrow> Inl (Fault ''iput'')
      | Some c \<Rightarrow> bind_r (iput (pid (pc w cur)) c f1) (\<lambda>f2. bind_r (end_tx f2) (\<lambda>f3.
          Inr (upd_proc cur (\<lambda>x. x\<lparr>cwd := None, etime := sint (ticks w)\<rparr>) (w\<lparr>io := (io w)\<lparr>fsys := f3\<rparr>\<rparr>)))))"

definition reparent :: "policy \<Rightarrow> nat \<Rightarrow> nat \<Rightarrow> 'a kst_scheme \<Rightarrow> 'a kst_scheme result" where
  "reparent pol cur p s =
    (if parent (pc s p) = Some cur then
       let s1 = upd_proc p (\<lambda>x. x\<lparr>parent := initproc s\<rparr>) s in
       if state (pc s1 p) = ZOMBIE then wakeup1 pol (map_option ChanProc (initproc s1)) s1 else Inr s1
     else Inr s)"

text \<open>\<open>exit\<close> up to the switch to the scheduler, from which it does not come back.\<close>

definition exit_proc :: "policy \<Rightarrow> kworld \<Rightarrow> kworld result" where
  "exit_proc pol w =
    (case cproc w of None \<Rightarrow> Inl (Fault ''curproc->ofile'')
     | Some cur \<Rightarrow>
       if initproc w = Some cur then Inl (Panic ''init exiting'')
       else bind_r (fold_r (exit_fd pol cur) [0..<NOFILE] w) (\<lambda>w1.
         bind_r (exit_cwd cur w1) (\<lambda>w2.
           bind_r (wakeup1 pol (map_option ChanProc (parent (pc w2 cur))) w2) (\<lambda>w3.
             bind_r (fold_r (reparent pol cur) [0..<NPROC] w3) (\<lambda>w4.
               Inr (upd_proc cur (\<lambda>x. x\<lparr>state := ZOMBIE\<rparr>) w4))))))"

section \<open>Collection\<close>

text \<open>Where the scan of \<open>wait\<close> stops: the first zombie child, else whether there are children at all.\<close>

definition zombie_child :: "nat \<Rightarrow> proc \<Rightarrow> bool" where
  "zombie_child cur x \<longleftrightarrow> parent x = Some cur \<and> state x = ZOMBIE"

definition free_mem :: "nat \<Rightarrow> kworld \<Rightarrow> kworld result" where
  "free_mem p w =
    bind_r (kfree (kend_of w) (kstack (pc w p)) (kmem_of w)) (\<lambda>m1.
      bind_r (freevm (kend_of w) (pgdir (pc w p)) m1) (\<lambda>m2.
        Inr (upd_proc p (\<lambda>x. x\<lparr>kstack := 0, pid := 0, parent := None, Proc_Table.name := [], killed := False, state := UNUSED\<rparr>) (set_kmem m2 w))))"

text \<open>One round of the loop of \<open>wait\<close>: \<open>Some r\<close> when it returns \<open>r\<close>, \<open>None\<close> when it goes to sleep.\<close>

definition wait_round :: "kworld \<Rightarrow> (int option \<times> kworld) result" where
  "wait_round w =
    (case cproc w of None \<Rightarrow> Inl (Fault ''curproc->killed'')
     | Some cur \<Rightarrow>
       (case find_idx (zombie_child cur) (procs w) of
          Some p \<Rightarrow> bind_r (free_mem p w) (\<lambda>w1. Inr (Some (pid (pc w p)), upd_proc p (\<lambda>x. x\<lparr>etime := sint (ticks w)\<rparr>) w1))
        | None \<Rightarrow>
          if (\<forall>x \<in> set (procs w). parent x \<noteq> Some cur) \<or> killed (pc w cur) then Inr (Some (-1), w)
          else bind_r (sleep (Some (ChanProc cur)) w) (\<lambda>w1. Inr (None, w1))))"

text \<open>\<open>waitx\<close> also reports \<open>*wtime\<close> and \<open>*rtime\<close> of the child it collected.\<close>

definition waitx_round :: "kworld \<Rightarrow> (int option \<times> (int \<times> int) option \<times> kworld) result" where
  "waitx_round w =
    (case cproc w of None \<Rightarrow> Inl (Fault ''curproc->killed'')
     | Some cur \<Rightarrow>
       (case find_idx (zombie_child cur) (procs w) of
          Some p \<Rightarrow>
            let w0 = upd_proc p (\<lambda>x. x\<lparr>etime := sint (ticks w)\<rparr>) w; x = pc w0 p in
            bind_r (free_mem p w0) (\<lambda>w1. Inr (Some (pid x), Some (etime x - ctime x - rtime x, rtime x), w1))
        | None \<Rightarrow>
          if (\<forall>x \<in> set (procs w). parent x \<noteq> Some cur) \<or> killed (pc w cur) then Inr (Some (-1), None, w)
          else bind_r (sleep (Some (ChanProc cur)) w) (\<lambda>w1. Inr (None, None, w1))))"

section \<open>What scheduling leaves alone\<close>

text \<open>
  No scheduling operation changes who a process is, its place in the tree, its descriptors or its memory, and none moves a
  process into or out of the states \<open>UNUSED\<close>, \<open>EMBRYO\<close> and \<open>ZOMBIE\<close>.
\<close>

definition tkeep :: "proc \<Rightarrow> proc \<Rightarrow> bool" where
  "tkeep x y \<longleftrightarrow> pid y = pid x \<and> parent y = parent x \<and> ofile y = ofile x \<and> cwd y = cwd x \<and> kstack y = kstack x \<and> pgdir y = pgdir x \<and>
     (state y = state x \<or> active x \<and> active y)"

definition tframe :: "'a kst_scheme \<Rightarrow> 'a kst_scheme \<Rightarrow> bool" where
  "tframe s t \<longleftrightarrow> length (procs t) = length (procs s) \<and> nextpid t = nextpid s \<and> initproc t = initproc s \<and> kst.more t = kst.more s \<and>
     (\<forall>p. tkeep (pc s p) (pc t p))"

definition tkeeps :: "('b \<Rightarrow> 'a kst_scheme) \<Rightarrow> 'a kst_scheme \<Rightarrow> 'b result \<Rightarrow> bool" where
  "tkeeps f s m \<longleftrightarrow> (case m of Inl e \<Rightarrow> True | Inr x \<Rightarrow> tframe s (f x))"

named_theorems tk_intros \<open>operations that keep the process tree\<close>

lemma tkeep_refl [simp]: "tkeep x x"
  by (simp add: tkeep_def)

lemma tframe_refl [simp]: "tframe s s"
  by (simp add: tframe_def)

lemma tkeep_trans: "tkeep x y \<Longrightarrow> tkeep y z \<Longrightarrow> tkeep x z"
  by (auto simp: tkeep_def active_def)

lemma tframe_trans: "tframe s t \<Longrightarrow> tframe t u \<Longrightarrow> tframe s u"
  unfolding tframe_def using tkeep_trans by metis

lemma tframe_fields [simp]:
  "tframe s (t\<lparr>prioQ := a\<rparr>) = tframe s t" "tframe s (t\<lparr>prioQSize := b\<rparr>) = tframe s t" "tframe s (t\<lparr>prioQStart := c\<rparr>) = tframe s t"
  "tframe s (t\<lparr>ticks := d\<rparr>) = tframe s t" "tframe s (t\<lparr>cproc := e\<rparr>) = tframe s t"
  by (simp_all add: tframe_def)

lemma tframe_upd: "tframe s t \<Longrightarrow> tkeep (pc t p) (f (pc t p)) \<Longrightarrow> tframe s (upd_proc p f t)"
proof (rule tframe_trans[of s t], assumption)
  assume k: "tkeep (pc t p) (f (pc t p))"
  have "tkeep (pc t q) (pc (upd_proc p f t) q)" for q
  proof (cases "q = p \<and> p < length (procs t)")
    case False
    then have "pc (upd_proc p f t) q = pc t q" by (cases "p < length (procs t)") (auto simp: pc_def upd_proc_def list_update_beyond)
    then show ?thesis by simp
  qed (simp add: k)
  then show "tframe t (upd_proc p f t)" by (simp add: tframe_def)
qed

lemma tkeeps_simps [simp]: "tkeeps f s (Inl e)" "tkeeps f s (Inr x) \<longleftrightarrow> tframe s (f x)"
  by (simp_all add: tkeeps_def)

lemma tkeeps_bind: "tkeeps f s m \<Longrightarrow> (\<And>x. tframe s (f x) \<Longrightarrow> m = Inr x \<Longrightarrow> tkeeps g s (h x)) \<Longrightarrow> tkeeps g s (bind_r m h)"
  by (cases m) auto

lemma tkeeps_any: "(\<And>x. m = Inr x \<Longrightarrow> tkeeps g s (h x)) \<Longrightarrow> tkeeps g s (bind_r m h)"
  by (cases m) auto

lemma tkeeps_fold:
  assumes "\<And>x u. tframe s u \<Longrightarrow> tkeeps (\<lambda>y. y) s (h x u)" "tframe s t"
  shows "tkeeps (\<lambda>y. y) s (fold_r h xs t)"
  using assms(2)
proof (induction xs arbitrary: t)
  case (Cons x xs)
  show ?case unfolding fold_r.simps by (rule tkeeps_bind[OF assms(1)[OF Cons.prems]]) (rule Cons.IH)
qed simp

lemma tkeep_stat [simp]:
  "tkeep x (x\<lparr>Proc_Table.stat := a\<rparr>)" "tkeep x (x\<lparr>latestQTime := b\<rparr>)" "tkeep x (x\<lparr>rtime := c\<rparr>)" "tkeep x (x\<lparr>priority := d\<rparr>)"
  "tkeep x (x\<lparr>Proc_Table.stat := a, latestQTime := b\<rparr>)" "tkeep x (x\<lparr>ctime := b, rtime := c, etime := d\<rparr>)" "tkeep x (x\<lparr>Proc_Table.sz := e\<rparr>)"
  by (simp_all add: tkeep_def)

lemma tkeeps_pushBack [tk_intros]: "tframe s t \<Longrightarrow> tkeeps (\<lambda>y. y) s (pushBack q po t)"
  unfolding pushBack_def Let_def by (auto split: option.splits intro: tframe_upd)

lemma tkeeps_popFront [tk_intros]: "tframe s t \<Longrightarrow> tkeeps snd s (popFront q t)"
  unfolding popFront_def Let_def by (auto intro!: tkeeps_any)

lemma tkeeps_shift_down: "tframe s t \<Longrightarrow> tkeeps (\<lambda>y. y) s (shift_down k is t)"
proof (induction k "is" t rule: shift_down.induct)
  case (2 k i "is" t)
  then show ?case by (cases "prioQ t k ((i + 1) mod RING)") (simp_all add: tframe_upd)
qed simp

lemma tkeeps_deleteIdx [tk_intros]: "tframe s t \<Longrightarrow> tkeeps (\<lambda>y. y) s (deleteIdx q i t)"
  unfolding deleteIdx_def Let_def by (auto intro!: tkeeps_any tkeeps_shift_down)

lemma tkeeps_incPrio [tk_intros]: "tframe s t \<Longrightarrow> tkeeps (\<lambda>y. y) s (incPrio p t)"
  unfolding incPrio_def Let_def by (auto intro!: tk_intros tkeeps_bind[OF tkeeps_deleteIdx])

lemma tkeeps_decPrio [tk_intros]: "tframe s t \<Longrightarrow> tkeeps (\<lambda>y. y) s (decPrio p r t)"
  unfolding decPrio_def Let_def by (auto intro!: tk_intros tframe_upd)

lemma tkeeps_age_one: "tframe s t \<Longrightarrow> tkeeps (\<lambda>y. y) s (age_one p t)"
  unfolding age_one_def Let_def by (auto intro!: tk_intros tframe_upd)

lemma tkeeps_updateStats [tk_intros]: "tframe s t \<Longrightarrow> tkeeps (\<lambda>y. y) s (updateStatsAndAging c t)"
  unfolding updateStatsAndAging_def by (auto intro!: tkeeps_fold tkeeps_age_one)

lemma tframe_state: "tframe s t \<Longrightarrow> active (pc t p) \<Longrightarrow> active (x\<lparr>state := st\<rparr>) \<Longrightarrow> tframe s (upd_proc p (\<lambda>x. x\<lparr>state := st\<rparr>) t)"
  by (rule tframe_upd) (simp_all add: tkeep_def active_def)

lemma tframe_active: "tframe s t \<Longrightarrow> active (pc t p) = active (pc s p)"
  unfolding tframe_def tkeep_def active_def by metis

lemma tkeeps_wakeup1 [tk_intros]: "tframe s t \<Longrightarrow> tkeeps (\<lambda>y. y) s (wakeup1 pol c t)"
  unfolding wakeup1_def
proof (rule tkeeps_fold)
  fix p u assume u: "tframe s u"
  show "tkeeps (\<lambda>y. y) s (wake_one pol c p u)"
  proof (cases "state (pc u p) = SLEEPING \<and> Proc_Table.chan (pc u p) = c")
    case True
    have a: "active (pc v p)" if "tframe u v" for v using tframe_active[OF that, of p] True by (simp add: active_def)
    have "tkeeps (\<lambda>y. y) u (wake_one pol c p u)"
      unfolding wake_one_def using True
      by (auto intro!: tkeeps_bind[OF tkeeps_pushBack] tframe_upd simp: a tkeep_def) (use a in \<open>simp_all add: active_def\<close>)
    then show ?thesis using tframe_trans[OF u] by (cases "wake_one pol c p u") auto
  qed (auto simp: wake_one_def u)
qed

lemma tkeeps_timer_tick: "tkeeps (\<lambda>y. y) s (timer_tick pol cpu s)"
proof -
  have "tkeeps (\<lambda>y. y) s (if cpu = 0 then bind_r (if pol = MLFQ then updateStatsAndAging cpu s else Inr (s\<lparr>ticks := ticks s + 1\<rparr>)) (wakeup1 pol (Some ChanTicks)) else Inr s)"
    by (auto intro!: tk_intros tkeeps_bind[OF tkeeps_updateStats])
  then show ?thesis unfolding timer_tick_def
    by (rule tkeeps_bind) (auto split: option.splits intro!: tframe_upd)
qed

lemma tkeeps_yield: "(\<And>p. cproc s = Some p \<Longrightarrow> active (pc s p)) \<Longrightarrow> tkeeps (\<lambda>y. y) s (yield s)"
  unfolding yield_def by (auto split: option.splits intro!: tframe_upd simp: tkeep_def active_def)

lemma tkeeps_sleep: "(\<And>p. cproc s = Some p \<Longrightarrow> active (pc s p)) \<Longrightarrow> tkeeps (\<lambda>y. y) s (sleep c s)"
  unfolding sleep_def by (auto split: option.splits intro!: tframe_upd simp: tkeep_def active_def)

lemma tframe_kill: "tframe s (snd (kill pd s))"
  unfolding kill_def by (auto split: option.splits intro!: tframe_upd simp: tkeep_def active_def)

lemma tkeeps_set_prio: "tkeeps snd s (set_prio np s)"
  unfolding set_prio_def by (auto split: option.splits intro!: tframe_upd)

lemma tkeeps_switchuvm: "tframe s t \<Longrightarrow> tkeeps (\<lambda>y. y) s (switchuvm p t)"
  by (simp add: switchuvm_def)

lemma switchuvm_same: "switchuvm p t = Inr u \<Longrightarrow> u = t"
  by (auto simp: switchuvm_def split: if_splits)

lemma tkeeps_dispatch: "state (pc s p) = RUNNABLE \<Longrightarrow> tkeeps (\<lambda>y. y) s (dispatch p s)"
  unfolding dispatch_def
  by (rule tkeeps_any) (auto dest!: switchuvm_same intro!: tframe_upd simp: tkeep_def active_def)

lemma tkeeps_drop_dead: "tframe s t \<Longrightarrow> tkeeps snd s (drop_dead n q t)"
proof (induction n q t rule: drop_dead.induct)
  case (2 n q t)
  show ?case
  proof (cases "prioQSize t (nat q) = 0")
    case False
    show ?thesis unfolding drop_dead.simps if_not_P[OF False]
    proof (rule tkeeps_any)
      fix po assume po: "getFront q t = Inr po"
      have "tkeeps snd s (bind_r (popFront q t) (\<lambda>(_, s1). drop_dead n q s1))" if d: "procIsDead t po"
        by (rule tkeeps_bind[OF tkeeps_popFront[OF 2(2)]]) (use 2(1)[OF False po d] in auto)
      then show "tkeeps snd s (if procIsDead t po then bind_r (popFront q t) (\<lambda>(_, s1). drop_dead n q s1) else Inr (po, t))"
        using 2(2) by simp
    qed
  qed (simp add: 2(2))
qed simp

lemma tkeeps_mlfq_scan: "tframe s t \<Longrightarrow> tkeeps snd s (mlfq_scan qs t)"
proof (induction qs arbitrary: t)
  case (Cons q qs)
  show ?case unfolding mlfq_scan.simps
    by (rule tkeeps_bind[OF tkeeps_drop_dead[OF Cons(2)]]) (use Cons(1) in \<open>auto split: option.splits prod.splits\<close>)
qed simp

lemma tkeeps_mlfq_select: "tkeeps snd s (mlfq_select s)"
proof -
  have "tkeeps (\<lambda>y. y) s (fold_r fill_one [0..<NPROC] s)"
    by (rule tkeeps_fold) (auto simp: fill_one_def intro!: tk_intros)
  then show ?thesis unfolding mlfq_select_def by (rule tkeeps_bind) (rule tkeeps_mlfq_scan)
qed

lemma tkeeps_run_alloted: "tframe s t \<Longrightarrow> tkeeps (\<lambda>y. y) s (run_alloted pol po t)"
proof (cases po)
  case (Some p)
  assume t: "tframe s t"
  let ?t = "t\<lparr>cproc := Some p\<rparr>"
  define m where "m = (if pol = MLFQ then bind_r (popFront (getQIdx ?t p) ?t) (\<lambda>(_, s2).
      Inr (upd_proc p (\<lambda>x. x\<lparr>stat := (Proc_Table.stat x)\<lparr>num_run := num_run (Proc_Table.stat x) + 1\<rparr>, latestQTime := sint (ticks s2)\<rparr>) s2)) else Inr ?t)"
  have m: "tkeeps (\<lambda>y. y) ?t m" unfolding m_def
    by (auto intro!: tkeeps_bind[OF tkeeps_popFront] tframe_upd split: prod.splits)
  have "tkeeps (\<lambda>y. y) ?t (bind_r m (\<lambda>s3. Inr (upd_proc p (\<lambda>x. x\<lparr>state := RUNNING\<rparr>) s3)))" if "state (pc t p) = RUNNABLE"
    by (rule tkeeps_bind[OF m]) (use that tframe_active[of ?t _ p] in \<open>auto intro!: tframe_upd simp: tkeep_def active_def\<close>)
  then have "tkeeps (\<lambda>y. y) ?t (run_alloted pol po t)"
    by (simp add: run_alloted_def Some switchuvm_def m_def)
  then show ?thesis using tframe_trans[of s ?t] t by (cases "run_alloted pol po t") auto
qed (simp add: run_alloted_def)

lemma tkeeps_sched_mlfq: "tkeeps snd s (sched_mlfq s)"
  unfolding sched_mlfq_def
  by (rule tkeeps_bind[OF tkeeps_mlfq_select]) (auto intro!: tkeeps_bind[OF tkeeps_run_alloted] split: prod.splits)

lemma tkeeps_sched_fcfs: "tkeeps snd s (sched_fcfs s)"
  unfolding sched_fcfs_def Let_def by (auto intro!: tkeeps_bind[OF tkeeps_run_alloted])

lemma tkeeps_sched_default: "tkeeps snd s (sched_default i s)"
  unfolding sched_default_def
  by (auto split: option.splits simp: find_from_Some runnable_def pc_def[symmetric] intro!: tkeeps_bind[OF tkeeps_dispatch])

lemma tkeeps_sched_pbs: "tkeeps snd s (sched_pbs m i s)"
  unfolding sched_pbs_def
  by (auto split: option.splits simp: find_from_Some runnable_def pc_def[symmetric] intro!: tkeeps_bind[OF tkeeps_dispatch])

text \<open>The scheduler between two switches: to a process, and back from one.\<close>

definition sched_pick :: "policy \<Rightarrow> nat \<Rightarrow> 'a kst_scheme \<Rightarrow> (nat option \<times> 'a kst_scheme) result" where
  "sched_pick pol i s =
    (case pol of DEFAULT \<Rightarrow> sched_default i s | FCFS \<Rightarrow> sched_fcfs s | PBS \<Rightarrow> sched_pbs (pbs_minPrio s) i s | MLFQ \<Rightarrow> sched_mlfq s)"

definition sched_return :: "policy \<Rightarrow> nat \<Rightarrow> 'a kst_scheme \<Rightarrow> 'a kst_scheme result" where
  "sched_return pol p s = (if pol = MLFQ then mlfq_return p s else Inr (s\<lparr>cproc := None\<rparr>))"

lemma tkeeps_sched_pick: "tkeeps snd s (sched_pick pol i s)"
  by (simp add: sched_pick_def tkeeps_sched_mlfq tkeeps_sched_fcfs tkeeps_sched_default tkeeps_sched_pbs split: policy.split)

lemma sched_return_frame:
  assumes "sched_return pol p s = Inr t"
  shows "tframe s t" "cproc t = None"
proof -
  have "tkeeps (\<lambda>y. y) s (sched_return pol p s)"
    unfolding sched_return_def mlfq_return_def Let_def by (auto intro!: tkeeps_bind[OF tkeeps_decPrio])
  then show "tframe s t" by (simp add: assms)
  show "cproc t = None" using assms by (auto simp: sched_return_def mlfq_return_def Let_def bind_r_eq_Inr split: if_splits)
qed

section \<open>The process tree\<close>

text \<open>
  Pids of used slots are positive, distinct and below \<open>nextpid\<close>; \<open>init\<close> is alive; the parent of every other used slot is
  alive, so that every zombie has a process that can collect it; the running process is alive.
\<close>

definition used :: "proc \<Rightarrow> bool" where "used x \<longleftrightarrow> state x \<noteq> UNUSED"

definition tree_inv :: "'a kst_scheme \<Rightarrow> bool" where
  "tree_inv s \<longleftrightarrow> length (procs s) = NPROC \<and> 0 < nextpid s \<and>
     (\<forall>p < NPROC. state (pc s p) \<noteq> EMBRYO \<and> 0 \<le> pid (pc s p) \<and> pid (pc s p) < nextpid s \<and> (used (pc s p) \<longrightarrow> pid (pc s p) \<noteq> 0)) \<and>
     pids_inv s \<and>
     (\<exists>i < NPROC. initproc s = Some i \<and> active (pc s i)) \<and>
     (\<forall>p < NPROC. used (pc s p) \<and> initproc s \<noteq> Some p \<longrightarrow> (\<exists>q < NPROC. parent (pc s p) = Some q \<and> active (pc s q))) \<and>
     (\<forall>p < NPROC. \<not> used (pc s p) \<longrightarrow> parent (pc s p) = None)"

definition cur_inv :: "'a kst_scheme \<Rightarrow> bool" where
  "cur_inv s \<longleftrightarrow> (\<forall>p. cproc s = Some p \<longrightarrow> p < NPROC \<and> active (pc s p))"

lemma tree_invD:
  assumes "tree_inv s"
  shows "length (procs s) = NPROC" "0 < nextpid s" "p < NPROC \<Longrightarrow> state (pc s p) \<noteq> EMBRYO" "p < NPROC \<Longrightarrow> 0 \<le> pid (pc s p)"
    "p < NPROC \<Longrightarrow> pid (pc s p) < nextpid s" "p < NPROC \<Longrightarrow> used (pc s p) \<Longrightarrow> pid (pc s p) \<noteq> 0" "pids_inv s"
    "\<exists>i < NPROC. initproc s = Some i \<and> active (pc s i)"
    "p < NPROC \<Longrightarrow> used (pc s p) \<Longrightarrow> initproc s \<noteq> Some p \<Longrightarrow> \<exists>q < NPROC. parent (pc s p) = Some q \<and> active (pc s q)"
    "p < NPROC \<Longrightarrow> \<not> used (pc s p) \<Longrightarrow> parent (pc s p) = None"
  using assms by (simp_all add: tree_inv_def)

lemma tframe_used: "tframe s t \<Longrightarrow> used (pc t p) = used (pc s p)"
  unfolding tframe_def tkeep_def active_def used_def by (metis procstate.distinct(3,5,7))

lemma tframeD:
  assumes "tframe s t"
  shows "pid (pc t p) = pid (pc s p)" "parent (pc t p) = parent (pc s p)" "ofile (pc t p) = ofile (pc s p)" "cwd (pc t p) = cwd (pc s p)"
    "length (procs t) = length (procs s)" "nextpid t = nextpid s" "initproc t = initproc s" "kst.more t = kst.more s"
    "state (pc t p) = state (pc s p) \<or> active (pc s p) \<and> active (pc t p)"
  using assms by (auto simp: tframe_def tkeep_def)

text \<open>What the tree is made of: equal pids, parents, and states up to moves between the live ones.\<close>

definition pkeep :: "proc \<Rightarrow> proc \<Rightarrow> bool" where
  "pkeep x y \<longleftrightarrow> pid y = pid x \<and> parent y = parent x \<and> (state y = state x \<or> active x \<and> active y)"

definition pframe :: "'a kst_scheme \<Rightarrow> 'a kst_scheme \<Rightarrow> bool" where
  "pframe s t \<longleftrightarrow> length (procs t) = length (procs s) \<and> nextpid t = nextpid s \<and> initproc t = initproc s \<and> (\<forall>p. pkeep (pc s p) (pc t p))"

lemma tkeep_pkeep: "tkeep x y \<Longrightarrow> pkeep x y"
  by (simp add: tkeep_def pkeep_def)

lemma tframe_pframe: "tframe s t \<Longrightarrow> pframe s t"
  by (simp add: tframe_def pframe_def tkeep_pkeep)

lemma pkeepD:
  assumes "pkeep x y"
  shows "pid y = pid x" "parent y = parent x" "active y = active x" "used y = used x" "state y = EMBRYO \<longleftrightarrow> state x = EMBRYO"
  using assms by (auto simp: pkeep_def active_def used_def)

lemma tree_inv_pframe:
  assumes "pframe s t" "tree_inv s"
  shows "tree_inv t"
proof -
  have "pkeep (pc s p) (pc t p)" for p using assms(1) by (simp add: pframe_def)
  note K = pkeepD[OF this]
  show ?thesis using assms by (simp add: tree_inv_def pids_inv_def pframe_def K)
qed

lemma tree_inv_tframe: "tframe s t \<Longrightarrow> tree_inv s \<Longrightarrow> tree_inv t"
  using tree_inv_pframe tframe_pframe by blast

section \<open>The running process and the entries of the rings\<close>

text \<open>The entries of the rings point into the table; \<open>c\<close> is the running process.\<close>

definition typed :: "nat option \<Rightarrow> 'a kst_scheme \<Rightarrow> bool" where
  "typed c s \<longleftrightarrow> cproc s = c \<and> (\<forall>k i p. prioQ s k i = Some p \<longrightarrow> p < NPROC)"

definition tykeeps :: "nat option \<Rightarrow> ('b \<Rightarrow> 'a kst_scheme) \<Rightarrow> 'b result \<Rightarrow> bool" where
  "tykeeps c f m \<longleftrightarrow> (case m of Inl e \<Rightarrow> True | Inr x \<Rightarrow> typed c (f x))"

lemma tykeeps_simps [simp]: "tykeeps c f (Inl e)" "tykeeps c f (Inr x) \<longleftrightarrow> typed c (f x)"
  by (simp_all add: tykeeps_def)

lemma tykeeps_bind: "tykeeps c f m \<Longrightarrow> (\<And>x. typed c (f x) \<Longrightarrow> m = Inr x \<Longrightarrow> tykeeps c g (h x)) \<Longrightarrow> tykeeps c g (bind_r m h)"
  by (cases m) auto

lemma tykeeps_any: "(\<And>x. m = Inr x \<Longrightarrow> tykeeps c g (h x)) \<Longrightarrow> tykeeps c g (bind_r m h)"
  by (cases m) auto

lemma tykeeps_fold:
  assumes "\<And>x u. x \<in> set xs \<Longrightarrow> typed c u \<Longrightarrow> tykeeps c (\<lambda>y. y) (h x u)" "typed c t"
  shows "tykeeps c (\<lambda>y. y) (fold_r h xs t)"
  using assms
proof (induction xs arbitrary: t)
  case (Cons x xs)
  have "tykeeps c (\<lambda>y. y) (h x t)" by (rule Cons.prems(1)) (simp_all add: Cons.prems(2))
  then show ?case unfolding fold_r.simps by (rule tykeeps_bind) (rule Cons.IH, rule Cons.prems(1), simp_all)
qed simp

lemma typed_fields [simp]:
  "typed c (upd_proc p f t) = typed c t" "typed c (t\<lparr>prioQSize := b\<rparr>) = typed c t" "typed c (t\<lparr>prioQStart := b'\<rparr>) = typed c t"
  "typed c (t\<lparr>ticks := d\<rparr>) = typed c t" "typed c (t\<lparr>initproc := i\<rparr>) = typed c t" "typed c (t\<lparr>nextpid := n\<rparr>) = typed c t"
  by (simp_all add: typed_def)

lemma typed_prioQ: "typed c t \<Longrightarrow> (\<And>p. v = Some p \<Longrightarrow> p < NPROC) \<Longrightarrow> typed c (t\<lparr>prioQ := (prioQ t)(k := (prioQ t k)(i := v))\<rparr>)"
  by (auto simp: typed_def)

lemma tykeeps_pushBack: "typed c t \<Longrightarrow> p < NPROC \<Longrightarrow> tykeeps c (\<lambda>y. y) (pushBack q (Some p) t)"
  unfolding pushBack_def Let_def using typed_prioQ[of c "upd_proc p f t" "Some p" for f] by (auto split: option.splits)

lemma tykeeps_popFront: "typed c t \<Longrightarrow> tykeeps c snd (popFront q t)"
  unfolding popFront_def Let_def by (auto intro!: tykeeps_any)

lemma tykeeps_shift_down: "typed c t \<Longrightarrow> tykeeps c (\<lambda>y. y) (shift_down k is t)"
proof (induction k "is" t rule: shift_down.induct)
  case (2 k i "is" t)
  show ?case
  proof (cases "prioQ t k ((i + 1) mod RING)")
    case (Some r)
    then have "r < NPROC" using 2(2) by (simp add: typed_def)
    then show ?thesis using Some 2(1)[OF Some] typed_prioQ[OF 2(2), of "Some r" k i] by simp
  qed simp
qed simp

lemma tykeeps_deleteIdx: "typed c t \<Longrightarrow> tykeeps c (\<lambda>y. y) (deleteIdx q i t)"
  unfolding deleteIdx_def Let_def using typed_prioQ[of c t None] by (auto intro!: tykeeps_any tykeeps_shift_down)

lemma tykeeps_incPrio: "typed c t \<Longrightarrow> p < NPROC \<Longrightarrow> tykeeps c (\<lambda>y. y) (incPrio p t)"
  unfolding incPrio_def Let_def by (auto intro!: tykeeps_bind[OF tykeeps_deleteIdx] tykeeps_pushBack)

lemma tykeeps_decPrio: "typed c t \<Longrightarrow> p < NPROC \<Longrightarrow> tykeeps c (\<lambda>y. y) (decPrio p r t)"
  unfolding decPrio_def Let_def by (auto intro!: tykeeps_pushBack)

lemma tykeeps_updateStats: "typed c t \<Longrightarrow> tykeeps c (\<lambda>y. y) (updateStatsAndAging cpu t)"
  unfolding updateStatsAndAging_def
  by (auto intro!: tykeeps_fold tykeeps_incPrio simp: age_one_def Let_def)

lemma tykeeps_wakeup1: "typed c t \<Longrightarrow> tykeeps c (\<lambda>y. y) (wakeup1 pol ch t)"
  unfolding wakeup1_def by (auto intro!: tykeeps_fold tykeeps_bind[OF tykeeps_pushBack] simp: wake_one_def)

lemma tykeeps_timer_tick: "typed c s \<Longrightarrow> tykeeps c (\<lambda>y. y) (timer_tick pol cpu s)"
proof -
  assume "typed c s"
  then have "tykeeps c (\<lambda>y. y) (if cpu = 0 then bind_r (if pol = MLFQ then updateStatsAndAging cpu s else Inr (s\<lparr>ticks := ticks s + 1\<rparr>)) (wakeup1 pol (Some ChanTicks)) else Inr s)"
    by (auto intro!: tykeeps_wakeup1 tykeeps_bind[OF tykeeps_updateStats])
  then show ?thesis unfolding timer_tick_def by (rule tykeeps_bind) (auto split: option.splits)
qed

lemma sched_return_typed: "typed c s \<Longrightarrow> p < NPROC \<Longrightarrow> sched_return pol p s = Inr t \<Longrightarrow> typed None t"
proof -
  assume a: "typed c s" "p < NPROC" "sched_return pol p s = Inr t"
  have r: "typed None (u\<lparr>cproc := None\<rparr>)" if "typed c u" for u :: "'a kst_scheme" using that by (simp add: typed_def)
  have d: "typed c u" if "decPrio p b s = Inr u" for b u using tykeeps_decPrio[OF a(1,2), of b] that by simp
  show ?thesis using a d r by (auto simp: sched_return_def mlfq_return_def Let_def bind_r_eq_Inr split: if_splits)
qed

lemma drop_dead_ptr: "typed c t \<Longrightarrow> drop_dead n q t = Inr (po, u) \<Longrightarrow> typed c u \<and> (\<forall>p. po = Some p \<longrightarrow> p < NPROC)"
proof (induction n q t rule: drop_dead.induct)
  case (2 n q t)
  show ?case
  proof (cases "prioQSize t (nat q) = 0")
    case False
    obtain po' where g: "getFront q t = Inr po'" using 2(3) False by (cases "getFront q t") auto
    show ?thesis
    proof (cases "procIsDead t po'")
      case True
      obtain x s1 where p: "popFront q t = Inr (x, s1)" using 2(3) False g True by (cases "popFront q t") auto
      have "typed c s1" using tykeeps_popFront[OF 2(2), of q] p by simp
      then show ?thesis using 2(1)[OF False g True p refl] 2(3) False g True p by simp
    next
      case f: False
      have "po = po'" "u = t" using 2(3) False g f by auto
      moreover have "p < NPROC" if "po' = Some p" for p
        using g that 2(2) by (auto simp: getFront_def typed_def split: if_splits)
      ultimately show ?thesis using 2(2) by simp
    qed
  qed (use 2 in simp)
qed simp

lemma mlfq_scan_ptr: "typed c t \<Longrightarrow> mlfq_scan qs t = Inr (po, u) \<Longrightarrow> typed c u \<and> (\<forall>p. po = Some p \<longrightarrow> p < NPROC)"
proof (induction qs arbitrary: t)
  case (Cons q qs)
  obtain po' s1 where d: "drop_dead (Suc RING) q t = Inr (po', s1)" using Cons.prems(2) by (auto simp: bind_r_eq_Inr)
  note p = drop_dead_ptr[OF Cons.prems(1) d]
  show ?case using Cons.IH[of s1] Cons.prems(2) d p by (cases po') auto
qed auto

definition cur_ok :: "'a kst_scheme \<Rightarrow> bool" where
  "cur_ok s \<longleftrightarrow> typed (cproc s) s \<and> cur_inv s"

lemma cur_okI: "typed c s \<Longrightarrow> (\<And>p. c = Some p \<Longrightarrow> p < NPROC \<and> active (pc s p)) \<Longrightarrow> cur_ok s"
  by (auto simp: cur_ok_def cur_inv_def typed_def)

lemma cur_ok_tframe: "cur_ok s \<Longrightarrow> tframe s t \<Longrightarrow> typed (cproc s) t \<Longrightarrow> cur_ok t"
  by (rule cur_okI) (auto simp: cur_ok_def cur_inv_def tframe_active)

lemma dispatch_cur:
  assumes "typed None s" "length (procs s) = NPROC" "p < NPROC" "dispatch p s = Inr t"
  shows "cur_ok t"
proof -
  have t: "t = upd_proc p (\<lambda>x. x\<lparr>state := RUNNING\<rparr>) (s\<lparr>cproc := Some p\<rparr>)"
    using assms(4) by (auto simp: dispatch_def switchuvm_def split: if_splits)
  show ?thesis by (rule cur_okI[of "Some p"]) (use assms in \<open>auto simp: t typed_def active_def\<close>)
qed

lemma run_alloted_cur:
  assumes "typed None s" "length (procs s) = NPROC" "\<And>p. po = Some p \<Longrightarrow> p < NPROC" "run_alloted pol po s = Inr t"
  shows "cur_ok t"
proof (cases po)
  case None
  then show ?thesis using assms by (auto simp: run_alloted_def intro: cur_okI)
next
  case (Some p)
  let ?s = "s\<lparr>cproc := Some p\<rparr>"
  have p: "p < NPROC" using assms(3) Some by simp
  have ty: "typed (Some p) ?s" using assms(1) by (simp add: typed_def)
  obtain u where u: "typed (Some p) u" "length (procs u) = NPROC" "t = upd_proc p (\<lambda>x. x\<lparr>state := RUNNING\<rparr>) u"
  proof (cases "pol = MLFQ")
    case True
    obtain x v where v: "popFront (getQIdx ?s p) ?s = Inr (x, v)"
      using assms(4) Some True by (auto simp: run_alloted_def switchuvm_def bind_r_eq_Inr split: if_splits)
    have "typed (Some p) v" using tykeeps_popFront[OF ty, of "getQIdx ?s p"] v by simp
    moreover have "length (procs v) = NPROC" using tkeeps_popFront[OF tframe_refl, of ?s "getQIdx ?s p"] v assms(2) by (simp add: tframe_def)
    ultimately show ?thesis using assms(4) Some True v
      by (intro that[of "upd_proc p (\<lambda>x. x\<lparr>stat := (Proc_Table.stat x)\<lparr>num_run := num_run (Proc_Table.stat x) + 1\<rparr>, latestQTime := sint (ticks v)\<rparr>) v"])
        (auto simp: run_alloted_def switchuvm_def split: if_splits)
  next
    case False
    then show ?thesis using assms(2,4) Some ty by (intro that[of ?s]) (auto simp: run_alloted_def switchuvm_def split: if_splits)
  qed
  show ?thesis by (rule cur_okI[of "Some p"]) (use u p in \<open>auto simp: active_def\<close>)
qed

lemma mlfq_select_ptr: "typed c s \<Longrightarrow> mlfq_select s = Inr (po, t) \<Longrightarrow> typed c t \<and> (\<forall>p. po = Some p \<longrightarrow> p < NPROC)"
proof -
  assume a: "typed c s" "mlfq_select s = Inr (po, t)"
  obtain u where u: "fold_r fill_one [0..<NPROC] s = Inr u" "mlfq_scan [0, 1, 2, 3, 4] u = Inr (po, t)"
    using a(2) by (auto simp: mlfq_select_def bind_r_eq_Inr)
  have "tykeeps c (\<lambda>y. y) (fold_r fill_one [0..<NPROC] s)"
    by (rule tykeeps_fold[OF _ a(1)]) (auto simp: fill_one_def intro!: tykeeps_pushBack)
  then have "typed c u" using u(1) by simp
  then show ?thesis by (rule mlfq_scan_ptr[OF _ u(2)])
qed

lemma fcfs_scan_in: "fcfs_scan s ps m = Some p \<Longrightarrow> p \<in> set ps \<or> m = Some p"
  by (induction s ps m rule: fcfs_scan.induct) (auto split: if_splits option.splits)

lemma sched_pick_cur:
  assumes "typed None s" "length (procs s) = NPROC" "sched_pick pol i s = Inr (po, t)"
  shows "cur_ok t"
proof (cases pol)
  case DEFAULT
  then show ?thesis using assms dispatch_cur[OF assms(1,2)]
    by (auto simp: sched_pick_def sched_default_def bind_r_eq_Inr find_from_Some intro: cur_okI split: option.splits)
next
  case FCFS
  then show ?thesis using assms run_alloted_cur[OF assms(1,2)] fcfs_scan_in[of s "[0..<NPROC]" None]
    by (auto simp: sched_pick_def sched_fcfs_def bind_r_eq_Inr Let_def)
next
  case PBS
  then show ?thesis using assms dispatch_cur[OF assms(1,2)]
    by (auto simp: sched_pick_def sched_pbs_def bind_r_eq_Inr find_from_Some intro: cur_okI split: option.splits)
next
  case MLFQ
  obtain u where u: "mlfq_select s = Inr (po, u)" "run_alloted MLFQ po u = Inr t"
    using assms(3) MLFQ by (auto simp: sched_pick_def sched_mlfq_def bind_r_eq_Inr)
  have "length (procs u) = NPROC" using tkeeps_mlfq_select[of s] u(1) assms(2) by (simp add: tframe_def)
  then show ?thesis using run_alloted_cur[OF _ _ _ u(2)] mlfq_select_ptr[OF assms(1) u(1)] by blast
qed

section \<open>Changes of one slot\<close>

text \<open>A step that changes a dead slot: it may stay or become free, or become a child of a live process.\<close>

lemma tree_inv_slot:
  assumes inv: "tree_inv s" and p: "p < NPROC" "\<not> active (pc s p)"
    and t: "length (procs t) = NPROC" "initproc t = initproc s" "nextpid s \<le> nextpid t"
      "\<And>q. q < NPROC \<Longrightarrow> q \<noteq> p \<Longrightarrow> pkeep (pc s q) (pc t q)"
    and new: "state (pc t p) \<noteq> EMBRYO" "0 \<le> pid (pc t p)" "pid (pc t p) < nextpid t" "used (pc t p) \<Longrightarrow> pid (pc t p) \<noteq> 0"
      "\<And>q. q < NPROC \<Longrightarrow> q \<noteq> p \<Longrightarrow> pid (pc t p) \<noteq> 0 \<Longrightarrow> pid (pc s q) \<noteq> pid (pc t p)"
      "used (pc t p) \<Longrightarrow> \<exists>q < NPROC. parent (pc t p) = Some q \<and> active (pc s q)" "\<not> used (pc t p) \<Longrightarrow> parent (pc t p) = None"
  shows "tree_inv t"
proof -
  note D = tree_invD[OF inv]
  note k = pkeepD[OF t(4)]
  have st: "state (pc t q) \<noteq> EMBRYO \<and> 0 \<le> pid (pc t q) \<and> pid (pc t q) < nextpid t \<and> (used (pc t q) \<longrightarrow> pid (pc t q) \<noteq> 0)" if "q < NPROC" for q
  proof (cases "q = p")
    case False
    note kq = k[OF that False]
    have "state (pc t q) \<noteq> EMBRYO" using kq(5) D(3)[OF that] by simp
    then show ?thesis using kq(1,4) D(4,5,6)[OF that] t(3) by (simp add: order.strict_trans2)
  qed (use new in simp)
  have "pids_inv t" unfolding pids_inv_def
  proof (intro allI impI)
    fix a b assume ab: "a < NPROC" "b < NPROC" "pid (pc t a) = pid (pc t b) \<and> pid (pc t a) \<noteq> 0"
    consider "a = p" | "b = p" | "a \<noteq> p" "b \<noteq> p" by blast
    then show "a = b"
    proof cases
      case 3
      then show ?thesis using ab k(1)[of a] k(1)[of b] D(7) unfolding pids_inv_def by metis
    qed (use ab new(5) k(1) in \<open>force+\<close>)
  qed
  moreover obtain i where i: "i < NPROC" "initproc s = Some i" "active (pc s i)" using D(8) by blast
  have act: "active (pc t q)" if "q < NPROC" "active (pc s q)" for q using that p(2) k(3)[of q] by (cases "q = p") auto
  have "\<exists>r < NPROC. parent (pc t q) = Some r \<and> active (pc t r)" if "q < NPROC" "used (pc t q)" "initproc t \<noteq> Some q" for q
  proof (cases "q = p")
    case True
    then show ?thesis using new(6) that(2) act by blast
  next
    case False
    then show ?thesis using D(9)[of q] that k(2,4)[OF that(1) False] t(2) act by auto
  qed
  moreover have "parent (pc t q) = None" if "q < NPROC" "\<not> used (pc t q)" for q
    using that k(2,4)[of q] D(10)[of q] new(7) by (cases "q = p") auto
  ultimately show ?thesis using t(1,2) D(2) t(3) st i act[OF i(1,3)] unfolding tree_inv_def by (auto simp: order.strict_trans2)
qed

end
