(* ===== verification/Exec.thy ===== *)
theory Exec
  imports Loader Proc_Life
begin

text \<open>
  \<open>exec\<close> (\<open>exec.c\<close>). The file is read through the file system model into the
  pages of a new address space; the argument strings, which the caller has fetched from the old address space, are copied to
  its stack. The process is changed only at the end.
\<close>

section \<open>The program file\<close>

definition field32 :: "u8 list \<Rightarrow> nat \<Rightarrow> u32" where "field32 ds k = get32 (\<lambda>a. ds ! unat a) (of_nat k)"
definition field16 :: "u8 list \<Rightarrow> nat \<Rightarrow> nat" where "field16 ds k = unat (ds ! k) + 256 * unat (ds ! (k + 1))"

definition ELF_MAGIC :: u32 where "ELF_MAGIC = 0x464C457F"
definition ELF_PROG_LOAD :: u32 where "ELF_PROG_LOAD = 1"

record elfhdr =
  elf_magic :: u32
  elf_entry :: u32
  elf_phoff :: u32
  elf_phnum :: nat

record proghdr =
  ph_type :: u32
  ph_off :: u32
  ph_vaddr :: u32
  ph_filesz :: u32
  ph_memsz :: u32

definition elfhdr_of :: "u8 list \<Rightarrow> elfhdr" where
  "elfhdr_of ds = \<lparr>elf_magic = field32 ds 0, elf_entry = field32 ds 24, elf_phoff = field32 ds 28, elf_phnum = field16 ds 44\<rparr>"

definition proghdr_of :: "u8 list \<Rightarrow> proghdr" where
  "proghdr_of ds = \<lparr>ph_type = field32 ds 0, ph_off = field32 ds 4, ph_vaddr = field32 ds 8, ph_filesz = field32 ds 16, ph_memsz = field32 ds 20\<rparr>"

text \<open>The loop over the program headers: the size reached, or \<open>None\<close> for \<open>goto bad\<close>.\<close>

fun exec_segs :: "devtab \<Rightarrow> u32 \<Rightarrow> u32 \<Rightarrow> nat \<Rightarrow> nat \<Rightarrow> u32 \<Rightarrow> u32 \<Rightarrow> fsst \<Rightarrow> kmem \<Rightarrow> (u32 option \<times> fsst \<times> kmem) result" where
  "exec_segs dt ke dir ip 0 off siz f m = Inr (Some siz, f, m)"
| "exec_segs dt ke dir ip (Suc k) off siz f m =
    bind_r (readi dt ip off 32 f) (\<lambda>(r, ds, f1).
      if r \<noteq> 32 then Inr (None, f1, m)
      else
        let ph = proghdr_of ds; end_va = ph_vaddr ph + ph_memsz ph in
        if ph_type ph \<noteq> ELF_PROG_LOAD then exec_segs dt ke dir ip k (off + 32) siz f1 m
        else if ph_memsz ph < ph_filesz ph then Inr (None, f1, m)
        else if end_va < ph_vaddr ph then Inr (None, f1, m)
        else bind_r (allocuvm ke dir siz end_va m) (\<lambda>(sz1, m1).
          if sz1 = 0 then Inr (None, f1, m1)
          else if ph_vaddr ph mod PGSIZE \<noteq> 0 then Inr (None, f1, m1)
          else bind_r (loaduvm dt dir (ph_vaddr ph) ip (ph_off ph) (ph_filesz ph) f1 m1) (\<lambda>(r, f2, m2).
            if r < 0 then Inr (None, f2, m2) else exec_segs dt ke dir ip k (off + 32) sz1 f2 m2)))"

section \<open>The stack\<close>

text \<open>\<open>copyout\<close> of bytes that are not in the memory of the new address space.\<close>

fun copyout_data :: "nat \<Rightarrow> u32 \<Rightarrow> u32 \<Rightarrow> u8 list \<Rightarrow> kmem \<Rightarrow> (int \<times> kmem) result" where
  "copyout_data 0 dir va ds m = Inl (Diverges ''copyout'')"
| "copyout_data (Suc k) dir va ds m =
    (if ds \<noteq> [] then
       let va0 = PGROUNDDOWN va in
       bind_r (uva2ka dir va0 m) (\<lambda>pa0.
         if pa0 = 0 then Inr (-1, m)
         else let n = min (unat (PGSIZE - (va - va0))) (length ds)
              in copyout_data k dir (va0 + PGSIZE) (drop n ds) (m\<lparr>ram := wr (ram m) (pa0 + (va - va0)) (take n ds)\<rparr>))
     else Inr (0, m))"

fun push_args :: "u32 \<Rightarrow> u32 \<Rightarrow> u32 list \<Rightarrow> u8 list list \<Rightarrow> kmem \<Rightarrow> ((u32 \<times> u32 list) option \<times> kmem) result" where
  "push_args dir sp ptrs [] m = Inr (Some (sp, ptrs), m)"
| "push_args dir sp ptrs (a # as) m =
    (if length ptrs \<ge> MAXARG then Inr (None, m)
     else
       let sp1 = and (sp - (of_nat (length a) + 1)) (NOT 3) in
       bind_r (copyout_data (NPAGES + 2) dir sp1 (a @ [0]) m) (\<lambda>(r, m1).
         if r < 0 then Inr (None, m1) else push_args dir sp1 (ptrs @ [sp1]) as m1))"

definition word_bytes :: "u32 \<Rightarrow> u8 list" where
  "word_bytes v = [ucast v, ucast (drop_bit 8 v), ucast (drop_bit 16 v), ucast (drop_bit 24 v)]"

text \<open>The stack of the new image: its two pages, the strings, and the frame of \<open>main\<close>. \<open>None\<close> is \<open>goto bad\<close>.\<close>

definition exec_stack :: "u32 \<Rightarrow> u32 \<Rightarrow> u32 \<Rightarrow> u8 list list \<Rightarrow> kmem \<Rightarrow> ((u32 \<times> u32) option \<times> kmem) result" where
  "exec_stack ke dir sz0 argv m =
    (let sz1 = PGROUNDUP sz0 in
     bind_r (allocuvm ke dir sz1 (sz1 + 2 * PGSIZE) m) (\<lambda>(siz, m1).
       if siz = 0 then Inr (None, m1)
       else bind_r (clearpteu dir (siz - 2 * PGSIZE) m1) (\<lambda>m2.
         bind_r (push_args dir siz [] argv m2) (\<lambda>(r, m3).
           case r of None \<Rightarrow> Inr (None, m3)
           | Some (sp, ptrs) \<Rightarrow>
             let argc = of_nat (length ptrs); ustack = [0xffffffff, argc, sp - (argc + 1) * 4] @ ptrs @ [0]; sp1 = sp - (3 + argc + 1) * 4 in
             bind_r (copyout_data (NPAGES + 2) dir sp1 (concat (map word_bytes ustack)) m3) (\<lambda>(r, m4).
               if r < 0 then Inr (None, m4) else Inr (Some (siz, sp1), m4))))))"

section \<open>exec\<close>

definition with_fs :: "fsst \<Rightarrow> kworld \<Rightarrow> kworld" where "with_fs f w = w\<lparr>io := (io w)\<lparr>fsys := f\<rparr>\<rparr>"

text \<open>The label \<open>bad\<close>: the directory of the new image if there is one, the inode if it is still locked.\<close>

definition exec_bad :: "u32 \<Rightarrow> nat option \<Rightarrow> int \<Rightarrow> kworld \<Rightarrow> (int \<times> kworld) result" where
  "exec_bad dir ipo pd w =
    bind_r (if dir \<noteq> 0 then bind_r (freevm (kend_of w) dir (kmem_of w)) (\<lambda>m. Inr (set_kmem m w)) else Inr w) (\<lambda>w1.
      case ipo of None \<Rightarrow> Inr (-1, w1)
      | Some ip \<Rightarrow> bind_r (iunlockput pd ip (fsys (io w1))) (\<lambda>f. bind_r (end_tx f) (\<lambda>f1. Inr (-1, with_fs f1 w1))))"

text \<open>The name for debugging: what follows the last slash, cut to 15 characters.\<close>

fun last_elem :: "u8 list \<Rightarrow> u8 list \<Rightarrow> u8 list" where
  "last_elem l [] = l"
| "last_elem l (c # cs) = last_elem (if c = 47 then cs else l) cs"

definition exec_commit :: "nat \<Rightarrow> u8 list \<Rightarrow> u32 \<Rightarrow> u32 \<Rightarrow> u32 \<Rightarrow> u32 \<Rightarrow> kworld \<Rightarrow> (int \<times> kworld) result" where
  "exec_commit p path d sz1 entry0 sp w =
    (let old = pgdir (pc w p); t = tf (pc w p);
         w1 = upd_proc p (\<lambda>x. x\<lparr>Proc_Table.name := map (\<lambda>b. char_of (unat b)) (take 15 (last_elem path path)), pgdir := d, sz := sz1\<rparr>) w;
         w2 = set_ram (put32 (put32 (ram (kmem_of w1)) (t + 56) entry0) (t + 68) sp) w1
     in bind_r (switchuvm p w2) (\<lambda>w3. bind_r (freevm (kend_of w3) old (kmem_of w3)) (\<lambda>m. Inr (0, set_kmem m w3))))"

definition exec :: "ksyms \<Rightarrow> devtab \<Rightarrow> u8 list \<Rightarrow> u8 list list \<Rightarrow> kworld \<Rightarrow> (int \<times> kworld) result" where
  "exec ks dt path argv w =
    (case cproc w of None \<Rightarrow> Inl (Fault ''curproc'')
     | Some p \<Rightarrow>
       let pd = pid (pc w p) in
       bind_r (begin_tx (fsys (io w))) (\<lambda>f0.
       bind_r (namei pd dt (cwd_of (load_proc p w)) path f0) (\<lambda>(ipo, f1).
         case ipo of None \<Rightarrow> bind_r (end_tx f1) (\<lambda>f2. Inr (-1, with_fs f2 w))
         | Some ip \<Rightarrow>
           bind_r (ilock pd ip f1) (\<lambda>f2. bind_r (readi dt ip 0 52 f2) (\<lambda>(r, ds, f3).
             let elf = elfhdr_of ds in
             if r \<noteq> 52 \<or> elf_magic elf \<noteq> ELF_MAGIC then exec_bad 0 (Some ip) pd (with_fs f3 w)
             else bind_r (setupkvm (kend_of w) (sym_data ks) (kmem_of w)) (\<lambda>(d, m).
               if d = 0 then exec_bad 0 (Some ip) pd (set_kmem m (with_fs f3 w))
               else bind_r (exec_segs dt (kend_of w) d ip (elf_phnum elf) (elf_phoff elf) 0 f3 m) (\<lambda>(so, f4, m1).
                 case so of None \<Rightarrow> exec_bad d (Some ip) pd (set_kmem m1 (with_fs f4 w))
                 | Some sz0 \<Rightarrow>
                   bind_r (iunlockput pd ip f4) (\<lambda>f5. bind_r (end_tx f5) (\<lambda>f6.
                     bind_r (exec_stack (kend_of w) d sz0 argv m1) (\<lambda>(st, m2).
                       let w1 = set_kmem m2 (with_fs f6 w) in
                       case st of None \<Rightarrow> exec_bad d None pd w1
                       | Some (sz1, sp) \<Rightarrow> exec_commit p path d sz1 (elf_entry elf) sp w1))))))))))"

section \<open>What exec changes\<close>

text \<open>File system and memory; everything else of the kernel's state is as before.\<close>

definition fs_mem :: "kworld \<Rightarrow> kworld \<Rightarrow> bool" where
  "fs_mem w t \<longleftrightarrow> (\<exists>f m. t = w\<lparr>io := (io w)\<lparr>fsys := f, kpages := m\<rparr>\<rparr>)"

lemma fs_mem_refl: "fs_mem w w"
  by (auto simp: fs_mem_def intro!: exI[of _ "fsys (io w)"] exI[of _ "kpages (io w)"])

lemma fs_mem_kmem: "fs_mem w t \<Longrightarrow> fs_mem w (set_kmem m t)"
proof -
  assume "fs_mem w t"
  then obtain f m0 where "t = w\<lparr>io := (io w)\<lparr>fsys := f, kpages := m0\<rparr>\<rparr>" by (auto simp: fs_mem_def)
  then have "set_kmem m t = w\<lparr>io := (io w)\<lparr>fsys := f, kpages := m\<rparr>\<rparr>" by (simp add: set_kmem_def)
  then show ?thesis unfolding fs_mem_def by blast
qed

lemma fs_mem_fs: "fs_mem w t \<Longrightarrow> fs_mem w (with_fs f t)"
proof -
  assume "fs_mem w t"
  then obtain f0 m where "t = w\<lparr>io := (io w)\<lparr>fsys := f0, kpages := m\<rparr>\<rparr>" by (auto simp: fs_mem_def)
  then have "with_fs f t = w\<lparr>io := (io w)\<lparr>fsys := f, kpages := m\<rparr>\<rparr>" by (simp add: with_fs_def)
  then show ?thesis unfolding fs_mem_def by blast
qed

lemmas fs_mem_intros = fs_mem_refl fs_mem_kmem fs_mem_fs

text \<open>A failed \<open>exec\<close> returns -1 and leaves the process table alone; a successful one changes name, directory and size of the caller.\<close>

definition exec_res :: "nat \<Rightarrow> kworld \<Rightarrow> (int \<times> kworld) result \<Rightarrow> bool" where
  "exec_res p w res \<longleftrightarrow> (\<forall>r t. res = Inr (r, t) \<longrightarrow>
     r = -1 \<and> fs_mem w t \<or> r = 0 \<and> (\<exists>u nm d z. fs_mem w u \<and> t = upd_proc p (\<lambda>x. x\<lparr>Proc_Table.name := nm, pgdir := d, sz := z\<rparr>) u))"

lemma exec_res_bind: "(\<And>x. exec_res p w (g x)) \<Longrightarrow> exec_res p w (bind_r a g)"
  by (cases a) (auto simp: exec_res_def)

lemma exec_res_fail: "fs_mem w t \<Longrightarrow> exec_res p w (Inr (-1, t))"
  by (simp add: exec_res_def)

lemma exec_res_bad: "fs_mem w w1 \<Longrightarrow> exec_res p w (exec_bad d ipo pd w1)"
  unfolding exec_bad_def by (cases ipo) (auto simp: exec_res_def bind_r_eq_Inr intro: fs_mem_intros split: if_splits)

lemma exec_res_commit: "fs_mem w w1 \<Longrightarrow> exec_res p w (exec_commit p path d z e sp w1)"
proof -
  assume w1: "fs_mem w w1"
  let ?nm = "map (\<lambda>b. char_of (unat b)) (take 15 (last_elem path path)) :: string"
  let ?g = "\<lambda>x. x\<lparr>Proc_Table.name := ?nm, pgdir := d, sz := z\<rparr>"
  let ?m = "put32 (put32 (ram (kmem_of w1)) (tf (pc w1 p) + 56) e) (tf (pc w1 p) + 68) sp"
  have c: "set_kmem m (upd_proc p ?g u) = upd_proc p ?g (set_kmem m u)" "kmem_of (upd_proc p ?g u) = kmem_of u" for m and u :: kworld
    by (simp_all add: set_kmem_def upd_proc_def kmem_of_def)
  have "r = 0 \<and> t = upd_proc p ?g (set_kmem m (set_ram ?m w1))"
    if "exec_commit p path d z e sp w1 = Inr (r, t)" "switchuvm p (set_ram ?m (upd_proc p ?g w1)) = Inr w3" "freevm (kend_of w3) (pgdir (pc w1 p)) (kmem_of w3) = Inr m" for r t m w3
    using that switchuvm_same[OF that(2)] unfolding exec_commit_def Let_def c by (simp add: set_ram_def c res_simps)
  moreover have "fs_mem w (set_kmem m (set_ram ?m w1))" for m using w1 by (auto simp: set_ram_def intro: fs_mem_intros)
  ultimately show ?thesis
    unfolding exec_res_def exec_commit_def Let_def c bind_r_eq_Inr by blast
qed

lemma exec_frame: "cproc w = Some p \<Longrightarrow> exec_res p w (exec ks dt path argv w)"
  unfolding exec_def
  by (auto simp: Let_def intro!: exec_res_bind exec_res_fail exec_res_bad exec_res_commit fs_mem_intros split: option.split prod.split)

end
