(* ===== verification/Systems.thy ===== *)
theory Systems
  imports Main
begin

text \<open>
  Interfaces for step systems. An \<open>invariant_system\<close> is a step relation with a predicate that every step keeps; a
  \<open>simulated_system\<close> has in addition an abstraction under which every step is a sequence of steps of an abstract relation. The
  components interpret them with their own step relations, and use what is proved here once about whole runs.
\<close>

locale invariant_system =
  fixes step :: "'s \<Rightarrow> 's \<Rightarrow> bool" and inv :: "'s \<Rightarrow> bool"
  assumes step_inv: "inv s \<Longrightarrow> step s t \<Longrightarrow> inv t"
begin

lemma run_inv: "step\<^sup>*\<^sup>* s t \<Longrightarrow> inv s \<Longrightarrow> inv t"
  by (induction rule: rtranclp_induct) (auto intro: step_inv)

text \<open>What every step from a state that satisfies the invariant keeps, a run keeps.\<close>

lemma run_keeps:
  assumes "step\<^sup>*\<^sup>* s t" "inv s" "P s" "\<And>x y. inv x \<Longrightarrow> P x \<Longrightarrow> step x y \<Longrightarrow> P y"
  shows "P t"
proof -
  have "inv t \<and> P t" using assms(1)
  proof (induction rule: rtranclp_induct)
    case (step y z)
    then show ?case using assms(4) step_inv by blast
  qed (use assms(2,3) in simp)
  then show ?thesis by simp
qed

end

locale simulated_system = invariant_system +
  fixes astep :: "'a \<Rightarrow> 'a \<Rightarrow> bool" and abs :: "'s \<Rightarrow> 'a"
  assumes step_sim: "inv s \<Longrightarrow> step s t \<Longrightarrow> astep\<^sup>*\<^sup>* (abs s) (abs t)"
begin

lemma run_sim: "step\<^sup>*\<^sup>* s t \<Longrightarrow> inv s \<Longrightarrow> astep\<^sup>*\<^sup>* (abs s) (abs t)"
proof (induction rule: rtranclp_induct)
  case (step y z)
  then have "inv y" using run_inv by blast
  then show ?case using step step_sim by (meson rtranclp_trans)
qed simp

end

end
