(* ===== verification/Life_Props.thy ===== *)
theory Life_Props
  imports Exec Systems
begin

text \<open>
  What the system calls that create, end and collect processes do to the process tree and to the reference counts of the
  file table, and the invariant of the whole kernel: every sequence of scheduling decisions, timer interrupts and calls keeps
  both.
\<close>

section \<open>Frames of the memory state\<close>

lemma io_more: "kst.more s = kst.more t \<Longrightarrow> io s = io (t :: kworld)"
  by (cases s, cases t) simp

lemma io_upd_proc [simp]: "io (upd_proc p f w) = io w"
  by (simp add: upd_proc_def)

lemma set_kmem_simps [simp]:
  "procs (set_kmem m w) = procs w" "nextpid (set_kmem m w) = nextpid w" "initproc (set_kmem m w) = initproc w" "cproc (set_kmem m w) = cproc w"
  "ticks (set_kmem m w) = ticks w" "pc (set_kmem m w) = pc w" "io (set_kmem m w) = (io w)\<lparr>kpages := m\<rparr>" "prioQ (set_kmem m w) = prioQ w"
  by (simp_all add: set_kmem_def pc_def fun_eq_iff)

lemma set_ram_simps [simp]:
  "procs (set_ram m w) = procs w" "nextpid (set_ram m w) = nextpid w" "initproc (set_ram m w) = initproc w" "cproc (set_ram m w) = cproc w"
  "ticks (set_ram m w) = ticks w" "pc (set_ram m w) = pc w" "ftable (io (set_ram m w)) = ftable (io w)" "prioQ (set_ram m w) = prioQ w"
  "fsys (io (set_ram m w)) = fsys (io w)"
  by (simp_all add: set_ram_def)

lemma setup_stack_simps [simp]:
  "nextpid (setup_stack ks p w) = nextpid w" "initproc (setup_stack ks p w) = initproc w" "cproc (setup_stack ks p w) = cproc w"
  "length (procs (setup_stack ks p w)) = length (procs w)" "ftable (io (setup_stack ks p w)) = ftable (io w)" "prioQ (setup_stack ks p w) = prioQ w"
  "q \<noteq> p \<Longrightarrow> pc (setup_stack ks p w) q = pc w q"
  by (simp_all add: setup_stack_def Let_def)

lemma setup_stack_pc:
  "p < length (procs w) \<Longrightarrow> \<exists>a b. pc (setup_stack ks p w) p = (pc w p)\<lparr>tf := a, ctxt := b\<rparr>"
  by (auto simp: setup_stack_def Let_def)

lemma typed_kworld [simp]: "typed c (set_kmem m w) = typed c w" "typed c (set_ram rm w) = typed c w" "typed c (setup_stack ks p w) = typed c w"
  "typed c (w\<lparr>io := i\<rparr>) = typed c w"
  by (simp_all add: typed_def)

section \<open>Creation\<close>

lemma initProc_frame:
  assumes "initProcMyStyle pol (Some p) w = Inr t"
  shows "tframe w t" "p < NPROC \<Longrightarrow> typed c w \<Longrightarrow> typed c t"
proof -
  have "tkeeps (\<lambda>y. y) w (initProcMyStyle pol (Some p) w)"
    unfolding initProcMyStyle_def by (auto simp: bind_r_assoc intro!: tkeeps_bind[OF tkeeps_pushBack] tframe_upd)
  then show "tframe w t" by (simp add: assms)
  have "p < NPROC \<Longrightarrow> typed c w \<Longrightarrow> tykeeps c (\<lambda>y. y) (initProcMyStyle pol (Some p) w)"
    unfolding initProcMyStyle_def by (auto simp: bind_r_assoc intro!: tykeeps_bind[OF tykeeps_pushBack])
  then show "p < NPROC \<Longrightarrow> typed c w \<Longrightarrow> typed c t" by (simp add: assms)
qed

lemma initProc_cproc: "initProcMyStyle pol (Some p) w = Inr t \<Longrightarrow> cproc t = cproc w"
  by (auto simp: initProcMyStyle_def pushBack_def Let_def bind_r_eq_Inr split: if_splits)

text \<open>What a call may have changed besides slot \<open>p\<close>: nothing of the tree, the descriptors and the file table.\<close>

definition born :: "nat \<Rightarrow> kworld \<Rightarrow> kworld \<Rightarrow> bool" where
  "born p w t \<longleftrightarrow> p < NPROC \<and> state (pc w p) = UNUSED \<and> length (procs t) = length (procs w) \<and> initproc t = initproc w \<and>
     nextpid t = nextpid w + 1 \<and> pid (pc t p) = nextpid w \<and> parent (pc t p) = parent (pc w p) \<and> ofile (pc t p) = ofile (pc w p) \<and>
     (\<forall>q. q \<noteq> p \<longrightarrow> tkeep (pc w q) (pc t q)) \<and> ftable (io t) = ftable (io w) \<and> cproc t = cproc w"

lemma allocproc_none:
  assumes "allocproc ks pol w = Inr (None, t)" "length (procs w) = NPROC"
  shows "t = w \<or> (\<exists>p. born p w t \<and> state (pc t p) = UNUSED \<and> prioQ t = prioQ w)"
proof (cases "find_idx (\<lambda>x. state x = UNUSED) (procs w)")
  case None
  then show ?thesis using assms(1) by (simp add: allocproc_def)
next
  case (Some p)
  then have p: "p < NPROC" "state (pc w p) = UNUSED" using assms(2) by (auto simp: find_idx_Some pc_def)
  define w1 where "w1 = (upd_proc p (\<lambda>x. x\<lparr>state := EMBRYO, pid := nextpid w\<rparr>) w)\<lparr>nextpid := nextpid w + 1\<rparr>"
  obtain k m where k: "kalloc (kmem_of w1) = (k, m)" by fastforce
  have "t = upd_proc p (\<lambda>x. x\<lparr>state := UNUSED\<rparr>) (upd_proc p (\<lambda>x. x\<lparr>kstack := k\<rparr>) (set_kmem m w1))"
    using assms(1) Some k[unfolded w1_def] by (auto simp: allocproc_def Let_def bind_r_eq_Inr w1_def split: if_splits)
  then have "born p w t \<and> state (pc t p) = UNUSED \<and> prioQ t = prioQ w" using p assms(2) by (simp add: born_def w1_def)
  then show ?thesis by blast
qed

lemma allocproc_some:
  assumes "allocproc ks pol w = Inr (Some p, t)" "length (procs w) = NPROC"
  shows "born p w t" "typed c w \<Longrightarrow> typed c t"
proof -
  have f: "find_idx (\<lambda>x. state x = UNUSED) (procs w) = Some p" "nextpid w < 2 ^ 31 - 1"
    using assms(1) by (auto simp: allocproc_def Let_def bind_r_eq_Inr split: option.splits if_splits prod.splits)
  then have p: "p < NPROC" "state (pc w p) = UNUSED" using assms(2) by (auto simp: find_idx_Some pc_def)
  define w1 where "w1 = (upd_proc p (\<lambda>x. x\<lparr>state := EMBRYO, pid := nextpid w\<rparr>) w)\<lparr>nextpid := nextpid w + 1\<rparr>"
  obtain k m where k: "kalloc (kmem_of w1) = (k, m)" by fastforce
  define w2 where "w2 = upd_proc p (\<lambda>x. x\<lparr>kstack := k\<rparr>) (set_kmem m w1)"
  define w4 where "w4 = (if pol = PBS then upd_proc p (\<lambda>x. x\<lparr>priority := DEFAULT_PRIORITY\<rparr>) (setup_stack ks p w2) else setup_stack ks p w2)"
  have i: "initProcMyStyle pol (Some p) w4 = Inr t"
    using assms(1) f k[unfolded w1_def] by (auto simp: allocproc_def Let_def bind_r_eq_Inr w4_def w2_def w1_def split: if_splits)
  have l: "length (procs w2) = NPROC" by (simp add: w2_def w1_def assms(2))
  obtain a b where st: "pc (setup_stack ks p w2) p = (pc w2 p)\<lparr>tf := a, ctxt := b\<rparr>" using setup_stack_pc[of p w2 ks] l p by auto
  have x: "pid (pc w4 p) = nextpid w" "parent (pc w4 p) = parent (pc w p)" "ofile (pc w4 p) = ofile (pc w p)"
    using p assms(2) l st by (simp_all add: w4_def w2_def w1_def)
  have y: "length (procs w4) = NPROC" "initproc w4 = initproc w" "nextpid w4 = nextpid w + 1" "ftable (io w4) = ftable (io w)" "cproc w4 = cproc w"
    "prioQ w4 = prioQ w" "\<And>q. q \<noteq> p \<Longrightarrow> pc w4 q = pc w q"
    using assms(2) by (simp_all add: w4_def w2_def w1_def)
  note T = initProc_frame(1)[OF i] note D = tframeD[OF T]
  have "tkeep (pc w q) (pc t q)" if "q \<noteq> p" for q using T y(7)[OF that] by (metis tframe_def)
  moreover have "typed c t" if "typed c w" for c
    using initProc_frame(2)[OF i p(1), of c] that y(5,6) by (simp add: typed_def)
  moreover have "cproc t = cproc w" using initProc_cproc[OF i] y(5) by simp
  ultimately show "born p w t" "typed c w \<Longrightarrow> typed c t"
    using p D x y assms(2) io_more[OF D(8)] by (simp_all add: born_def)
qed

section \<open>Reference counts over all processes\<close>

definition refs :: "nat set \<Rightarrow> 'a kst_scheme \<Rightarrow> nat \<Rightarrow> nat" where
  "refs P w f = (\<Sum>p \<in> P. count_list (ofile (pc w p)) (Some f))"

text \<open>Every count of the file table is the number of descriptors that refer to the structure, in all processes.\<close>

definition file_ref :: "kworld \<Rightarrow> bool" where
  "file_ref w \<longleftrightarrow> length (ftable (io w)) = NFILE \<and>
     (\<forall>p < NPROC. length (ofile (pc w p)) = 16 \<and> (\<forall>f. Some f \<in> set (ofile (pc w p)) \<longrightarrow> f < NFILE)) \<and>
     (\<forall>f < NFILE. fref (ftable (io w) ! f) = int (refs {..<NPROC} w f) \<and> (fref (ftable (io w) ! f) = 0 \<longrightarrow> ftyp (ftable (io w) ! f) = FD_NONE))"

text \<open>Only live processes have open files.\<close>

definition idle_files :: "'a kst_scheme \<Rightarrow> bool" where
  "idle_files w \<longleftrightarrow> (\<forall>p < NPROC. \<not> active (pc w p) \<longrightarrow> set (ofile (pc w p)) \<subseteq> {None})"

abbreviation others :: "nat \<Rightarrow> 'a kst_scheme \<Rightarrow> nat \<Rightarrow> nat" where
  "others c w \<equiv> refs ({..<NPROC} - {c}) w"

lemma refs_split: "c < NPROC \<Longrightarrow> refs {..<NPROC} w f = count_list (ofile (pc w c)) (Some f) + others c w f"
  unfolding refs_def by (rule sum.remove) simp_all

lemma refs_cong: "(\<And>p. p \<in> P \<Longrightarrow> ofile (pc t p) = ofile (pc w p)) \<Longrightarrow> refs P t = refs P w"
  by (auto simp: refs_def fun_eq_iff intro!: sum.cong)

lemma load_proc_simps [simp]: "ofiles (load_proc c w) = ofile (pc w c)" "ftable (load_proc c w) = ftable (io w)"
  by (simp_all add: load_proc_def)

lemma file_ref_ftab: "file_ref w \<Longrightarrow> c < NPROC \<Longrightarrow> ftab_ok (others c w) (load_proc c w)"
  by (simp add: file_ref_def ftab_ok_def fds_def refs_split)

text \<open>A step of process \<open>c\<close> that keeps the counts exact in its own view keeps them exact overall.\<close>

lemma ftab_file_ref:
  assumes w: "file_ref w" "c < NPROC" and s: "ftab_ok (others c w) s"
    and t: "ofile (pc t c) = ofiles s" "\<And>q. q < NPROC \<Longrightarrow> q \<noteq> c \<Longrightarrow> ofile (pc t q) = ofile (pc w q)" "ftable (io t) = ftable s"
  shows "file_ref t"
proof -
  have o: "others c t = others c w" by (rule refs_cong) (use t(2) in auto)
  have "length (ofile (pc t p)) = 16 \<and> (\<forall>f. Some f \<in> set (ofile (pc t p)) \<longrightarrow> f < NFILE)" if "p < NPROC" for p
    using that w t(1,2) ftab_okD(1,5)[OF s] by (cases "p = c") (simp_all add: file_ref_def)
  then show ?thesis using ftab_okD(2,3,4)[OF s] by (simp add: file_ref_def t refs_split[OF w(2)] o fds_def)
qed

lemma file_ref_same:
  assumes "file_ref w" "\<And>p. p < NPROC \<Longrightarrow> ofile (pc t p) = ofile (pc w p)" "ftable (io t) = ftable (io w)"
  shows "file_ref t"
proof -
  have "refs {..<NPROC} t = refs {..<NPROC} w" by (rule refs_cong) (use assms(2) in auto)
  then show ?thesis using assms by (simp add: file_ref_def)
qed

lemma file_ref_tframe: "tframe w t \<Longrightarrow> file_ref w \<Longrightarrow> file_ref t"
  by (rule file_ref_same[of w]) (simp_all add: tframeD(3) io_more[OF tframeD(8)])

lemma idle_files_tframe: "tframe w t \<Longrightarrow> idle_files w \<Longrightarrow> idle_files t"
  by (simp add: idle_files_def tframeD(3) tframe_active)

subsection \<open>fork\<close>

text \<open>Only the descriptors of slot \<open>np\<close> and the counts change.\<close>

definition filled :: "nat \<Rightarrow> kworld \<Rightarrow> kworld \<Rightarrow> bool" where
  "filled np w t \<longleftrightarrow> file_ref t \<and> length (procs t) = NPROC \<and> cproc t = cproc w \<and> prioQ t = prioQ w \<and> initproc t = initproc w \<and>
     nextpid t = nextpid w \<and> (\<forall>q. q \<noteq> np \<longrightarrow> pc t q = pc w q) \<and> (\<exists>fs. pc t np = (pc w np)\<lparr>ofile := fs\<rparr>)"

lemma filled_refl: "file_ref w \<Longrightarrow> length (procs w) = NPROC \<Longrightarrow> filled np w w"
  by (auto simp: filled_def intro: exI[of _ "ofile (pc w np)"])

lemma filled_trans: "filled np w u \<Longrightarrow> filled np u t \<Longrightarrow> filled np w t"
  by (auto simp: filled_def)

lemma fork_fd_ok:
  assumes w: "file_ref w" "length (procs w) = NPROC" and p: "cur < NPROC" "np < NPROC" "np \<noteq> cur" and i: "i < 16" "ofile (pc w np) ! i = None"
  shows "\<exists>t. fork_fd cur np i w = Inr t \<and> filled np w t \<and> ofile (pc t np) = (ofile (pc w np))[i := ofile (pc w cur) ! i]"
proof (cases "ofile (pc w cur) ! i")
  case None
  have "(ofile (pc w np))[i := None] = ofile (pc w np)" using i(2) by (metis list_update_id)
  then show ?thesis using None w by (simp add: fork_fd_def filled_refl)
next
  case (Some f)
  have l: "length (ofile (pc w np)) = 16" "length (ofile (pc w cur)) = 16" using w(1) p by (simp_all add: file_ref_def)
  have "Some f \<in> set (ofile (pc w cur))" using Some l i(1) by (metis nth_mem)
  then have f: "f < NFILE" "count_list (ofile (pc w cur)) (Some f) > 0" using w(1) p(1) by (auto simp: file_ref_def count_list_0_iff simp flip: neq0_conv)
  have r: "fref (ftable (io w) ! f) \<ge> 1" using w(1) f refs_split[OF p(1), of w f] by (simp add: file_ref_def)
  define s where "s = upd_file f (\<lambda>x. x\<lparr>fref := fref x + 1\<rparr>) (load_proc np w)"
  have s: "filedup f (load_proc np w) = Inr s" using r by (simp add: filedup_def s_def)
  have ok: "ftab_ok ((others np w)(f := others np w f + 1)) s" unfolding s_def
    by (rule ref_change[OF file_ref_ftab[OF w(1) p(2)] f(1)])
      (use ftab_okD(3)[OF file_ref_ftab[OF w(1) p(2)] f(1)] in simp_all)
  have ok2: "ftab_ok (others np w) (s\<lparr>ofiles := (ofiles s)[i := Some f]\<rparr>)"
    by (rule fd_take[OF ok i(1) _ f(1)]) (simp add: s_def upd_file_def i(2))
  define t where "t = upd_proc np (\<lambda>x. x\<lparr>ofile := (ofile x)[i := Some f]\<rparr>) (w\<lparr>io := upd_file f (\<lambda>x. x\<lparr>fref := fref x + 1\<rparr>) (io w)\<rparr>)"
  have e: "fork_fd cur np i w = Inr t" using r by (simp add: fork_fd_def Some filedup_def t_def)
  have pcio: "pc (w\<lparr>io := a\<rparr>) = pc w" for a by (simp add: pc_def fun_eq_iff)
  have "file_ref t"
    by (rule ftab_file_ref[OF w(1) p(2) ok2]) (use p w(2) in \<open>simp_all add: t_def s_def upd_file_def pcio\<close>)
  then show ?thesis using e w(2) p Some by (auto simp: t_def pcio filled_def)
qed

lemma fork_fds_ok:
  assumes "file_ref w" "length (procs w) = NPROC" "cur < NPROC" "np < NPROC" "np \<noteq> cur" "set is \<subseteq> {..<16}" "distinct is" "\<forall>i \<in> set is. ofile (pc w np) ! i = None"
  shows "\<exists>t. fold_r (fork_fd cur np) is w = Inr t \<and> filled np w t"
  using assms
proof (induction "is" arbitrary: w)
  case Nil
  then show ?case by (simp add: filled_refl)
next
  case (Cons i "is")
  obtain u where u: "fork_fd cur np i w = Inr u" "filled np w u" "ofile (pc u np) = (ofile (pc w np))[i := ofile (pc w cur) ! i]"
    using fork_fd_ok[OF Cons.prems(1-5), of i] Cons.prems(6,8) by auto
  have n: "\<forall>j \<in> set is. ofile (pc u np) ! j = None" 
  proof
    fix j assume "j \<in> set is"
    then have "j \<noteq> i" "ofile (pc w np) ! j = None" using Cons.prems(7,8) by auto
    then show "ofile (pc u np) ! j = None" by (simp add: u(3))
  qed
  have f: "file_ref u" "length (procs u) = NPROC" using u(2) by (simp_all add: filled_def)
  obtain t where "fold_r (fork_fd cur np) is u = Inr t" "filled np u t"
    using Cons.IH[OF f Cons.prems(3-5)] Cons.prems(6,7) n by auto
  then show ?case using u(1) filled_trans[OF u(2)] by simp
qed

text \<open>The invariant of the kernel.\<close>

definition kernel_inv :: "kworld \<Rightarrow> bool" where
  "kernel_inv w \<longleftrightarrow> tree_inv w \<and> cur_ok w \<and> file_ref w \<and> idle_files w"

lemma kernel_invD: "kernel_inv w \<Longrightarrow> tree_inv w" "kernel_inv w \<Longrightarrow> cur_ok w" "kernel_inv w \<Longrightarrow> file_ref w" "kernel_inv w \<Longrightarrow> idle_files w"
  by (simp_all add: kernel_inv_def)

lemma cur_okD: "cur_ok w \<Longrightarrow> typed (cproc w) w" "cur_ok w \<Longrightarrow> cproc w = Some c \<Longrightarrow> c < NPROC" "cur_ok w \<Longrightarrow> cproc w = Some c \<Longrightarrow> active (pc w c)"
  by (simp_all add: cur_ok_def cur_inv_def)

lemma kernel_inv_tframe: "kernel_inv w \<Longrightarrow> tframe w t \<Longrightarrow> cur_ok t \<Longrightarrow> kernel_inv t"
  by (simp add: kernel_inv_def tree_inv_tframe file_ref_tframe idle_files_tframe)

lemma pc_io [simp]: "pc (w\<lparr>io := a\<rparr>) = pc w"
  by (simp add: pc_def fun_eq_iff)

text \<open>The end of \<open>allocproc\<close> or \<open>fork\<close>: the new slot is free again, or it is a child of a live process.\<close>

lemma born_tree:
  assumes inv: "tree_inv w" and b: "born p w u"
    and t: "length (procs t) = length (procs u)" "initproc t = initproc u" "nextpid t = nextpid u" "\<And>q. q \<noteq> p \<Longrightarrow> pc t q = pc u q" "pid (pc t p) = pid (pc u p)"
    and new: "state (pc t p) = UNUSED \<and> parent (pc t p) = parent (pc u p) \<or>
      state (pc t p) = RUNNABLE \<and> (\<exists>c < NPROC. parent (pc t p) = Some c \<and> active (pc w c))"
  shows "tree_inv t"
proof -
  note D = tree_invD[OF inv]
  have b': "p < NPROC" "state (pc w p) = UNUSED" "length (procs u) = NPROC" "initproc u = initproc w" "nextpid u = nextpid w + 1" "pid (pc u p) = nextpid w"
    "parent (pc u p) = parent (pc w p)" "\<And>q. q \<noteq> p \<Longrightarrow> tkeep (pc w q) (pc u q)" using b D(1) by (simp_all add: born_def)
  show ?thesis
  proof (rule tree_inv_slot[OF inv b'(1)])
    show "pid (pc w q) \<noteq> pid (pc t p)" if "q < NPROC" for q using D(5)[OF that] b'(6) t(5) by simp
    show "pkeep (pc w q) (pc t q)" if "q < NPROC" "q \<noteq> p" for q using b'(8)[OF that(2)] t(4)[OF that(2)] by (simp add: tkeep_pkeep)
    show "\<not> used (pc t p) \<Longrightarrow> parent (pc t p) = None" using new D(10)[OF b'(1)] b'(2,7) by (auto simp: used_def)
    show "used (pc t p) \<Longrightarrow> \<exists>q < NPROC. parent (pc t p) = Some q \<and> active (pc w q)" using new by (auto simp: used_def)
  qed (use b' t new D(2) in \<open>auto simp: active_def used_def\<close>)
qed

lemma born_others: "born p w u \<Longrightarrow> q \<noteq> p \<Longrightarrow> active (pc u q) = active (pc w q) \<and> ofile (pc u q) = ofile (pc w q)"
  unfolding born_def tkeep_def active_def by metis

lemma born_file_ref: "born p w u \<Longrightarrow> file_ref w \<Longrightarrow> file_ref u"
  by (rule file_ref_same[of w]) (auto simp: born_def tkeep_def)

lemma born_idle: "born p w u \<Longrightarrow> idle_files w \<Longrightarrow> set (ofile (pc u p)) \<subseteq> {None}"
  by (auto simp: born_def idle_files_def active_def)

lemma idle_slot:
  assumes "idle_files w" "born p w u" "\<And>q. q \<noteq> p \<Longrightarrow> pc t q = pc u q" "active (pc t p) \<or> set (ofile (pc t p)) \<subseteq> {None}"
  shows "idle_files t"
  unfolding idle_files_def
proof (intro allI impI)
  fix q assume q: "q < NPROC" "\<not> active (pc t q)"
  show "set (ofile (pc t q)) \<subseteq> {None}"
  proof (cases "q = p")
    case False
    then show ?thesis using born_others[OF assms(2) False] assms(1,3) q by (simp add: idle_files_def)
  qed (use assms(4) q in simp)
qed

lemma cur_ok_slot:
  assumes "cur_ok w" "born p w u" "typed (cproc w) t" "\<And>q. q \<noteq> p \<Longrightarrow> pc t q = pc u q"
  shows "cur_ok t"
proof (rule cur_okI[OF assms(3)])
  fix c assume c: "cproc w = Some c"
  have a: "c < NPROC" "active (pc w c)" using cur_okD[OF assms(1)] c by auto
  then have "c \<noteq> p" using assms(2) by (auto simp: born_def active_def)
  then show "c < NPROC \<and> active (pc t c)" using a born_others[OF assms(2)] assms(4) by simp
qed

lemma all_None: "set xs \<subseteq> {None} \<Longrightarrow> i < length xs \<Longrightarrow> xs ! i = None"
  by (meson nth_mem singletonD subsetD)

lemma fork_child_ok:
  assumes inv: "kernel_inv w" and b: "born np w u" and cur: "cproc w = Some cur" and ty: "typed (cproc w) u" and f: "fork_child pol cur np u = Inr (r, t)"
  shows "kernel_inv t \<and> cproc t = cproc w"
proof -
  note K = kernel_invD[OF inv] and C = cur_okD[OF kernel_invD(2)[OF inv]]
  have c: "cur < NPROC" "active (pc w cur)" "np \<noteq> cur" "np < NPROC" using C(2,3)[OF cur] b by (auto simp: born_def active_def)
  have l: "length (procs u) = NPROC" using b tree_invD(1)[OF K(1)] by (simp add: born_def)
  define w1 where "w1 = upd_proc np (\<lambda>x. x\<lparr>sz := sz (pc u cur), parent := Some cur\<rparr>) u"
  define w2 where "w2 = set_ram (put32 (memmove (ram (kmem_of w1)) (tf (pc w1 np)) (tf (pc w1 cur)) TF_SIZE) (tf (pc w1 np) + 28) 0) w1"
  define w3 where "w3 = (if pol = PBS then upd_proc np (\<lambda>x. x\<lparr>priority := (if ifMeraProc w2 (Some np) then pid x div 2 else DEFAULT_PRIORITY)\<rparr>) w2 else w2)"
  have x: "parent (pc w3 np) = Some cur" "pid (pc w3 np) = pid (pc u np)" "ofile (pc w3 np) = ofile (pc u np)" "\<And>q. q \<noteq> np \<Longrightarrow> pc w3 q = pc u q"
    "length (procs w3) = NPROC" "initproc w3 = initproc u" "nextpid w3 = nextpid u" "typed (cproc w) w3" "ftable (io w3) = ftable (io u)"
    using l c ty by (simp_all add: w3_def w2_def w1_def)
  have fr: "file_ref w3"
  proof (rule file_ref_same[OF born_file_ref[OF b K(3)]])
    show "ofile (pc w3 p) = ofile (pc u p)" for p using x(3,4) by (cases "p = np") simp_all
  qed (rule x(9))
  have "set (ofile (pc w3 np)) \<subseteq> {None}" using born_idle[OF b K(4)] x(3) by simp
  moreover have "length (ofile (pc w3 np)) = 16" using fr c by (simp add: file_ref_def)
  ultimately have n: "\<forall>i \<in> set [0..<NOFILE]. ofile (pc w3 np) ! i = None"
    by (simp add: NOFILE_def all_None)
  obtain w4 where w4: "fold_r (fork_fd cur np) [0..<NOFILE] w3 = Inr w4" "filled np w3 w4"
    using fork_fds_ok[OF fr x(5) c(1,4,3) _ _ n] by (auto simp: NOFILE_def atLeast0LessThan)
  obtain t: "\<And>q. q \<noteq> np \<Longrightarrow> pc t q = pc u q" "parent (pc t np) = Some cur" "pid (pc t np) = pid (pc u np)" "state (pc t np) = RUNNABLE"
    "ofile (pc t np) = ofile (pc w4 np)" "length (procs t) = NPROC" "initproc t = initproc u" "nextpid t = nextpid u" "typed (cproc w) t" "ftable (io t) = ftable (io w4)"
  proof -
    obtain cw where "cwd (pc w4 cur) = Some cw" using f w4(1) unfolding fork_child_def w1_def[symmetric] Let_def w2_def[symmetric] w3_def[symmetric]
      by (auto split: option.splits)
    then have te: "t = upd_proc np (\<lambda>x. x\<lparr>state := RUNNABLE\<rparr>) (upd_proc np (\<lambda>x. x\<lparr>cwd := Some cw, Proc_Table.name := take 15 (Proc_Table.name (pc w4 cur))\<rparr>)
        (w4\<lparr>io := (io w4)\<lparr>fsys := snd (idup cw (fsys (io w4)))\<rparr>\<rparr>))"
      using f w4(1) unfolding fork_child_def w1_def[symmetric] Let_def w2_def[symmetric] w3_def[symmetric] by (auto simp: idup_def)
    show ?thesis by (rule that) (use w4(2) x c te in \<open>auto simp: filled_def typed_def\<close>)
  qed
  have "tree_inv t" by (rule born_tree[OF K(1) b]) (use t l c in auto)
  moreover have "cur_ok t" by (rule cur_ok_slot[OF K(2) b t(9) t(1)])
  moreover have "file_ref t"
  proof (rule file_ref_same[of w4])
    show "file_ref w4" using w4(2) by (simp add: filled_def)
    show "ofile (pc t p) = ofile (pc w4 p)" for p using t(1,5) w4(2) x(4) by (cases "p = np") (simp_all add: filled_def)
  qed (rule t(10))
  moreover have "idle_files t" by (rule idle_slot[OF K(4) b t(1)]) (simp_all add: t(4) active_def)
  ultimately show ?thesis using t(9) by (simp add: kernel_inv_def typed_def)
qed

lemma born_memory:
  assumes "born np w u" "length (procs w) = NPROC"
  shows "born np w (upd_proc np (\<lambda>x. x\<lparr>pgdir := d\<rparr>) (set_kmem m u))"
  using assms by (simp add: born_def)

lemma fork_ok:
  assumes inv: "kernel_inv w" and f: "fork ks pol w = Inr (r, t)"
  shows "kernel_inv t \<and> cproc t = cproc w"
proof -
  note K = kernel_invD[OF inv] and C = cur_okD[OF kernel_invD(2)[OF inv]]
  have l: "length (procs w) = NPROC" by (rule tree_invD(1)[OF K(1)])
  obtain cur where cur: "cproc w = Some cur" using f by (auto simp: fork_def split: option.splits)
  obtain po u where a: "allocproc ks pol w = Inr (po, u)" using f cur by (cases "allocproc ks pol w") (auto simp: fork_def)
  have freed: "kernel_inv v \<and> cproc v = cproc w" if b: "born p w u" and v: "state (pc v p) = UNUSED" "\<And>q. q \<noteq> p \<Longrightarrow> pc v q = pc u q" "pid (pc v p) = pid (pc u p)"
    "parent (pc v p) = parent (pc u p)" "ofile (pc v p) = ofile (pc u p)" "length (procs v) = length (procs u)" "initproc v = initproc u"
    "nextpid v = nextpid u" "typed (cproc w) v" "ftable (io v) = ftable (io u)" for p v
  proof -
    have "tree_inv v" by (rule born_tree[OF K(1) b]) (use v in auto)
    moreover have "cur_ok v" by (rule cur_ok_slot[OF K(2) b v(9,2)])
    moreover have "file_ref v"
    proof (rule file_ref_same[OF born_file_ref[OF b K(3)] _ v(10)])
      show "ofile (pc v q) = ofile (pc u q)" for q using v(2,5) by (cases "q = p") simp_all
    qed
    moreover have "idle_files v" by (rule idle_slot[OF K(4) b v(2)]) (use born_idle[OF b K(4)] v(5) in simp_all)
    ultimately show ?thesis using v(9) by (simp add: kernel_inv_def typed_def)
  qed
  show ?thesis
  proof (cases po)
    case None
    have "t = u" using f cur a None by (simp add: fork_def)
    moreover have "u = w \<or> (\<exists>p. born p w u \<and> state (pc u p) = UNUSED \<and> prioQ u = prioQ w)" using allocproc_none[OF _ l] a None by simp
    moreover have "kernel_inv u \<and> cproc u = cproc w" if "born p w u" "state (pc u p) = UNUSED" "prioQ u = prioQ w" for p
      by (rule freed[OF that(1,2)]) (use that C(1) in \<open>simp_all add: typed_def born_def\<close>)
    ultimately show ?thesis using inv by blast
  next
    case (Some np)
    have b: "born np w u" and ty: "typed (cproc w) u" using allocproc_some[of ks pol w np u] a Some l C(1) by auto
    have n: "np < NPROC" "length (procs u) = NPROC" using b l by (simp_all add: born_def)
    obtain d m where m: "copyuvm (kend_of u) (sym_data ks) (pgdir (pc u cur)) (sz (pc u cur)) (kmem_of u) = Inr (d, m)"
      using f cur a Some by (cases "copyuvm (kend_of u) (sym_data ks) (pgdir (pc u cur)) (sz (pc u cur)) (kmem_of u)") (auto simp: fork_def)
    define v where "v = upd_proc np (\<lambda>x. x\<lparr>pgdir := d\<rparr>) (set_kmem m u)"
    have e: "(if d = 0 then bind_r (kfree (kend_of v) (kstack (pc v np)) (kmem_of v)) (\<lambda>m1. Inr (-1, upd_proc np (\<lambda>x. x\<lparr>kstack := 0, state := UNUSED\<rparr>) (set_kmem m1 v)))
        else fork_child pol cur np v) = Inr (r, t)" 
      using f cur a Some m by (cases "d = 0") (simp_all add: fork_def v_def Let_def)
    show ?thesis
    proof (cases "d = 0")
      case True
      then obtain m1 where t: "t = upd_proc np (\<lambda>x. x\<lparr>kstack := 0, state := UNUSED\<rparr>) (set_kmem m1 v)" using e by (auto simp: bind_r_eq_Inr)
      show ?thesis by (rule freed[OF b]) (use n ty in \<open>simp_all add: t v_def\<close>)
    next
      case False
      then show ?thesis using e fork_child_ok[OF inv born_memory[OF b l, of d m] cur] ty by (simp add: v_def)
    qed
  qed
qed

section \<open>File operations of a process\<close>

lemma store_proc_frame:
  assumes "store_proc pol p s w = Inr t"
  shows "tframe (upd_proc p (\<lambda>x. x\<lparr>ofile := ofiles s, cwd := curdir s\<rparr>) (w\<lparr>io := s\<rparr>)) t" "typed c w \<Longrightarrow> typed c t"
proof -
  let ?b = "upd_proc p (\<lambda>x. x\<lparr>ofile := ofiles s, cwd := curdir s\<rparr>) (w\<lparr>io := s\<rparr>)"
  have "tkeeps (\<lambda>y. y) ?b (store_proc pol p s w)"
    unfolding store_proc_def by (rule tkeeps_fold) (auto intro: tkeeps_wakeup1)
  then show "tframe ?b t" by (simp add: assms)
  have "typed c w \<Longrightarrow> tykeeps c (\<lambda>y. y) (store_proc pol p s w)"
    unfolding store_proc_def by (rule tykeeps_fold) (auto intro: tykeeps_wakeup1)
  then show "typed c w \<Longrightarrow> typed c t" by (simp add: assms)
qed

text \<open>What a file operation of process \<open>c\<close> leaves: the tree, and every other process's descriptors.\<close>

definition fstep :: "nat \<Rightarrow> kworld \<Rightarrow> kworld \<Rightarrow> bool" where
  "fstep c w t \<longleftrightarrow> pframe w t \<and> typed (cproc w) t \<and> file_ref t \<and> (\<forall>q. q \<noteq> c \<longrightarrow> ofile (pc t q) = ofile (pc w q))"

lemma pframe_refl [simp]: "pframe s s"
  by (simp add: pframe_def pkeep_def)

lemma pframe_trans: "pframe s t \<Longrightarrow> pframe t u \<Longrightarrow> pframe s u"
  unfolding pframe_def pkeep_def active_def by metis

lemma pframe_active: "pframe s t \<Longrightarrow> active (pc t p) = active (pc s p)"
  by (metis pframe_def pkeepD(3))

lemma fstep_trans: "fstep c w t \<Longrightarrow> fstep c t u \<Longrightarrow> fstep c w u"
  unfolding fstep_def using pframe_trans by (metis typed_def)

lemma fstep_store:
  assumes w: "file_ref w" "length (procs w) = NPROC" "c < NPROC" "typed (cproc w) w" and s: "ftab_ok (others c w) s" and st: "store_proc pol c s w = Inr t"
  shows "fstep c w t \<and> ofile (pc t c) = ofiles s"
proof -
  let ?b = "upd_proc c (\<lambda>x. x\<lparr>ofile := ofiles s, cwd := curdir s\<rparr>) (w\<lparr>io := s\<rparr>)"
  note T = store_proc_frame[OF st]
  have b: "pframe w ?b"
  proof -
    have "pkeep (pc w q) (pc ?b q)" for q
      using w(2,3) by (cases "q = c") (simp_all add: pkeep_def)
    then show ?thesis by (simp add: pframe_def)
  qed
  have o: "ofile (pc t c) = ofiles s" "\<And>q. q \<noteq> c \<Longrightarrow> ofile (pc t q) = ofile (pc w q)" using tframeD(3)[OF T(1)] w(2,3) by simp_all
  have "file_ref t" by (rule ftab_file_ref[OF w(1,3) s o]) (use io_more[OF tframeD(8)[OF T(1)]] in simp_all)
  then show ?thesis using pframe_trans[OF b tframe_pframe[OF T(1)]] T(2)[OF w(4)] o by (simp add: fstep_def)
qed

lemma fstep_kernel:
  assumes "kernel_inv w" "fstep c w t" "cproc w = Some c"
  shows "kernel_inv t"
proof -
  note K = kernel_invD[OF assms(1)] and C = cur_okD[OF kernel_invD(2)[OF assms(1)]]
  have f: "pframe w t" "typed (cproc w) t" "file_ref t" "\<And>q. q \<noteq> c \<Longrightarrow> ofile (pc t q) = ofile (pc w q)" using assms(2) by (simp_all add: fstep_def)
  have "cur_ok t" by (rule cur_okI[OF f(2)]) (use C(2,3) pframe_active[OF f(1)] in simp)
  moreover have "idle_files t" unfolding idle_files_def
  proof (intro allI impI)
    fix p assume p: "p < NPROC" "\<not> active (pc t p)"
    then have "p \<noteq> c" "\<not> active (pc w p)" using C(3)[OF assms(3)] pframe_active[OF f(1)] by auto
    then show "set (ofile (pc t p)) \<subseteq> {None}" using K(4) p(1) f(4) by (simp add: idle_files_def)
  qed
  ultimately show ?thesis using tree_inv_pframe[OF f(1) K(1)] f(3) by (simp add: kernel_inv_def)
qed

subsection \<open>exit\<close>

lemma fileclose_cases:
  assumes "fileclose f s = Inr t"
  shows "fref (ftable s ! f) \<ge> 1" "fdsame (upd_file f (\<lambda>x. if fref x - 1 > 0 then x\<lparr>fref := fref x - 1\<rparr> else x\<lparr>fref := 0, ftyp := FD_NONE\<rparr>) s) t"
proof -
  show r: "fref (ftable s ! f) \<ge> 1" using assms by (auto simp: fileclose_def Let_def split: if_splits)
  let ?g = "\<lambda>x. if fref x - 1 > 0 then x\<lparr>fref := fref x - 1\<rparr> else x\<lparr>fref := 0, ftyp := FD_NONE\<rparr>"
  show "fdsame (upd_file f ?g s) t"
  proof (cases "fref (ftable s ! f) - 1 > 0")
    case True
    then have "t = upd_file f ?g s" using assms r by (simp add: fileclose_def Let_def upd_file_def)
    then show ?thesis by simp
  next
    case False
    define s1 where "s1 = upd_file f (\<lambda>x. x\<lparr>fref := 0, ftyp := FD_NONE\<rparr>) s"
    have e: "upd_file f ?g s = s1" using False by (simp add: upd_file_def s1_def)
    have "keeps (\<lambda>x. x) s1 (fileclose f s)"
      using False r unfolding fileclose_def Let_def s1_def[symmetric]
      by (auto split: ftype.splits intro!: keeps_intros keeps_pipe_close keeps_on_fs)
    then show ?thesis using assms e by simp
  qed
qed

lemma close_slot:
  assumes ok: "ftab_ok other s" and fd: "fd < 16" "ofiles s ! fd = Some f" and c: "fileclose f s = Inr t"
  shows "ftab_ok other (t\<lparr>ofiles := (ofiles t)[fd := None]\<rparr>) \<and> ofiles t = ofiles s"
proof -
  let ?g = "\<lambda>x. if fref x - 1 > 0 then x\<lparr>fref := fref x - 1\<rparr> else x\<lparr>fref := 0, ftyp := FD_NONE\<rparr>"
  let ?s0 = "s\<lparr>ofiles := (ofiles s)[fd := None]\<rparr>"
  note R = fileclose_cases[OF c]
  have f: "f < NFILE" using ftab_okD(1,5)[OF ok] fd by (metis nth_mem)
  have ok0: "ftab_ok (other(f := other f + 1)) ?s0" by (rule fd_release[OF ok fd])
  have r: "fref (ftable ?s0 ! f) = int (fds ?s0 f + other f) + 1" using ftab_okD(3)[OF ok0 f] by simp
  have r2: "fref (?g (ftable ?s0 ! f)) = int (fds ?s0 f + other f)" using r by simp
  have ok1: "ftab_ok ((other(f := other f + 1))(f := other f)) (upd_file f ?g ?s0)"
    by (rule ref_change[OF ok0 f]) (use r r2 in simp_all)
  then have ok1': "ftab_ok other (upd_file f ?g ?s0)" by simp
  have "ofiles t = ofiles s" using R(2) by (simp add: fdsame_def upd_file_def)
  moreover from this have "fdsame (upd_file f ?g ?s0) (t\<lparr>ofiles := (ofiles t)[fd := None]\<rparr>)" using R(2) by (simp add: fdsame_def upd_file_def)
  ultimately show ?thesis using fdsame_ok[OF _ ok1'] by blast
qed

lemma exit_fd_ok:
  assumes w: "file_ref w" "length (procs w) = NPROC" "c < NPROC" "typed (cproc w) w" and fd: "fd < 16" and e: "exit_fd pol c fd w = Inr t"
  shows "fstep c w t \<and> ofile (pc t c) = (ofile (pc w c))[fd := None]"
proof (cases "ofile (pc w c) ! fd")
  case None
  have "(ofile (pc w c))[fd := None] = ofile (pc w c)" using None by (metis list_update_id)
  then show ?thesis using e None w by (simp add: exit_fd_def fstep_def)
next
  case (Some f)
  then obtain s where s: "fileclose f (load_proc c w) = Inr s" "store_proc pol c (s\<lparr>ofiles := (ofiles s)[fd := None]\<rparr>) w = Inr t"
    using e by (auto simp: exit_fd_def bind_r_eq_Inr)
  have k: "ftab_ok (others c w) (s\<lparr>ofiles := (ofiles s)[fd := None]\<rparr>) \<and> ofiles s = ofile (pc w c)"
    by (rule close_slot[OF file_ref_ftab[OF w(1,3)] fd _ s(1), unfolded load_proc_simps, OF Some])
  show ?thesis using fstep_store[OF w conjunct1[OF k] s(2)] conjunct2[OF k] by simp
qed

lemma fstepD:
  assumes "fstep c w t" "length (procs w) = NPROC"
  shows "file_ref t" "length (procs t) = NPROC" "typed (cproc t) t" "cproc t = cproc w" "initproc t = initproc w"
  using assms by (auto simp: fstep_def pframe_def typed_def)

lemma exit_fds_ok:
  assumes "file_ref w" "length (procs w) = NPROC" "c < NPROC" "typed (cproc w) w" "set is \<subseteq> {..<16}" "fold_r (exit_fd pol c) is w = Inr t"
  shows "fstep c w t \<and> (\<forall>i < 16. i \<in> set is \<or> ofile (pc w c) ! i = None \<longrightarrow> ofile (pc t c) ! i = None)"
  using assms
proof (induction "is" arbitrary: w)
  case Nil
  then show ?case by (auto simp: fstep_def)
next
  case (Cons i "is")
  obtain u where u: "exit_fd pol c i w = Inr u" "fold_r (exit_fd pol c) is u = Inr t" using Cons.prems(6) by (auto simp: bind_r_eq_Inr)
  have i: "i < 16" "set is \<subseteq> {..<16}" using Cons.prems(5) by auto
  have s: "fstep c w u" "ofile (pc u c) = (ofile (pc w c))[i := None]" using exit_fd_ok[OF Cons.prems(1-4) i(1) u(1)] by auto
  note D = fstepD[OF s(1) Cons.prems(2)]
  have t: "fstep c u t" "\<And>j. j < 16 \<Longrightarrow> j \<in> set is \<or> ofile (pc u c) ! j = None \<Longrightarrow> ofile (pc t c) ! j = None"
    using Cons.IH[OF D(1,2) Cons.prems(3) D(3) i(2) u(2)] by auto
  have l: "length (ofile (pc w c)) = 16" using Cons.prems(1,3) by (simp add: file_ref_def)
  have "ofile (pc t c) ! j = None" if "j < 16" "j \<in> set (i # is) \<or> ofile (pc w c) ! j = None" for j
    by (rule t(2)[OF that(1)]) (use that l i(1) s(2) in \<open>cases "j = i"; simp\<close>)
  then show ?case using fstep_trans[OF s(1) t(1)] by simp
qed

lemma exit_cwd_ok:
  assumes w: "file_ref w" "length (procs w) = NPROC" "c < NPROC" "typed (cproc w) w" and e: "exit_cwd c w = Inr t"
  shows "fstep c w t \<and> ofile (pc t c) = ofile (pc w c)"
proof -
  obtain f where t: "t = upd_proc c (\<lambda>x. x\<lparr>cwd := None, etime := sint (ticks w)\<rparr>) (w\<lparr>io := (io w)\<lparr>fsys := f\<rparr>\<rparr>)"
    using e by (auto simp: exit_cwd_def bind_r_eq_Inr split: option.splits)
  have p: "ofile (pc t q) = ofile (pc w q) \<and> pkeep (pc w q) (pc t q)" for q
    using w(2,3) by (cases "q = c") (simp_all add: t pkeep_def)
  have "file_ref t" by (rule file_ref_same[OF w(1)]) (use p in \<open>simp_all add: t\<close>)
  then show ?thesis using p w(4) by (simp add: fstep_def pframe_def) (simp add: t)
qed

text \<open>Handing a child to \<open>init\<close> keeps the tree.\<close>

lemma tree_inv_adopt:
  assumes inv: "tree_inv s" and p: "p < NPROC" "parent (pc s p) \<noteq> None"
  shows "tree_inv (upd_proc p (\<lambda>x. x\<lparr>parent := initproc s\<rparr>) s)"
proof -
  let ?t = "upd_proc p (\<lambda>x. x\<lparr>parent := initproc s\<rparr>) s"
  note D = tree_invD[OF inv]
  obtain i where i: "i < NPROC" "initproc s = Some i" "active (pc s i)" using D(8) by blast
  have k: "pid (pc ?t q) = pid (pc s q)" "state (pc ?t q) = state (pc s q)" "parent (pc ?t q) = (if q = p then initproc s else parent (pc s q))" for q
    using D(1) p(1) by (simp_all add: pc_upd_proc)
  have a: "active (pc ?t q) = active (pc s q)" "used (pc ?t q) = used (pc s q)" for q using k(2)[of q] by (simp_all add: active_def used_def)
  have u: "used (pc s p)" using D(10)[OF p(1)] p(2) by blast
  have "\<exists>r < NPROC. parent (pc ?t q) = Some r \<and> active (pc s r)" if "q < NPROC" "used (pc s q)" "initproc s \<noteq> Some q" for q
    using D(9)[OF that] i k(3)[of q] by (cases "q = p") auto
  moreover have "parent (pc ?t q) = None" if "q < NPROC" "\<not> used (pc s q)" for q using D(10)[OF that] that u k(3)[of q] by auto
  ultimately show ?thesis using inv by (simp add: tree_inv_def pids_inv_def k(1,2) a)
qed

text \<open>A step of the loop over the children of \<open>c\<close>, and what it leaves.\<close>

definition adopts :: "nat \<Rightarrow> 'a kst_scheme \<Rightarrow> 'a kst_scheme \<Rightarrow> bool" where
  "adopts c s t \<longleftrightarrow> tree_inv t \<and> initproc t = initproc s \<and> kst.more t = kst.more s \<and> (\<forall>d. typed d s \<longrightarrow> typed d t) \<and>
     (\<forall>q. ofile (pc t q) = ofile (pc s q) \<and> active (pc t q) = active (pc s q) \<and> (parent (pc s q) \<noteq> Some c \<longrightarrow> parent (pc t q) \<noteq> Some c))"

lemma adopts_trans: "adopts c s t \<Longrightarrow> adopts c t u \<Longrightarrow> adopts c s u"
  by (simp add: adopts_def)

lemma adopts_tframe: "tree_inv s \<Longrightarrow> tframe s t \<Longrightarrow> (\<And>d. typed d s \<Longrightarrow> typed d t) \<Longrightarrow> adopts c s t"
  by (simp add: adopts_def tree_inv_tframe tframeD tframe_active)

lemma adopts_refl: "tree_inv s \<Longrightarrow> adopts c s s"
  by (simp add: adopts_def)

lemma adopts_wakeup1:
  assumes "tree_inv s" "wakeup1 pol ch s = Inr t"
  shows "adopts c s t"
proof (rule adopts_tframe[OF assms(1)])
  show "tframe s t" using tkeeps_wakeup1[OF tframe_refl, of s pol ch] assms(2) by simp
  show "typed d s \<Longrightarrow> typed d t" for d using tykeeps_wakeup1[of d s pol ch] assms(2) by simp
qed

lemma reparent_ok:
  assumes inv: "tree_inv s" and p: "p < NPROC" and i: "initproc s \<noteq> Some c" and r: "reparent pol c p s = Inr t"
  shows "adopts c s t \<and> parent (pc t p) \<noteq> Some c"
proof (cases "parent (pc s p) = Some c")
  case False
  then show ?thesis using r inv by (simp add: reparent_def adopts_refl)
next
  case True
  define s1 where "s1 = upd_proc p (\<lambda>x. x\<lparr>parent := initproc s\<rparr>) s"
  have l: "length (procs s) = NPROC" by (rule tree_invD(1)[OF inv])
  have t1: "tree_inv s1" unfolding s1_def by (rule tree_inv_adopt[OF inv p]) (simp add: True)
  have x: "parent (pc s1 p) = initproc s" using l p by (simp add: s1_def)
  have "adopts c s s1"
  proof -
    have "ofile (pc s1 q) = ofile (pc s q) \<and> active (pc s1 q) = active (pc s q) \<and> (parent (pc s q) \<noteq> Some c \<longrightarrow> parent (pc s1 q) \<noteq> Some c)" for q
      using l p i by (simp add: s1_def pc_upd_proc active_def)
    then show ?thesis using t1 by (simp add: adopts_def) (simp add: s1_def)
  qed
  moreover have "adopts c s1 t"
    using r True adopts_wakeup1[OF t1] adopts_refl[OF t1] unfolding reparent_def s1_def[symmetric] Let_def by (auto split: if_splits)
  moreover from this have "parent (pc t p) \<noteq> Some c" using x i by (auto simp: adopts_def)
  ultimately show ?thesis using adopts_trans by blast
qed

lemma reparent_all:
  assumes "tree_inv s" "set ps \<subseteq> {..<NPROC}" "initproc s \<noteq> Some c" "fold_r (reparent pol c) ps s = Inr t"
  shows "adopts c s t \<and> (\<forall>p \<in> set ps. parent (pc t p) \<noteq> Some c)"
  using assms
proof (induction ps arbitrary: s)
  case Nil
  then show ?case by (simp add: adopts_refl)
next
  case (Cons p ps)
  obtain u where u: "reparent pol c p s = Inr u" "fold_r (reparent pol c) ps u = Inr t" using Cons.prems(4) by (auto simp: bind_r_eq_Inr)
  have a: "adopts c s u" "parent (pc u p) \<noteq> Some c" using reparent_ok[OF Cons.prems(1) _ Cons.prems(3) u(1)] Cons.prems(2) by auto
  have "adopts c u t \<and> (\<forall>q \<in> set ps. parent (pc t q) \<noteq> Some c)"
    by (rule Cons.IH[OF _ _ _ u(2)]) (use a Cons.prems(2,3) in \<open>auto simp: adopts_def\<close>)
  then show ?case using a adopts_trans[of c s u t] by (auto simp: adopts_def)
qed

text \<open>A process without children becomes a zombie.\<close>

lemma tree_inv_zombie:
  assumes inv: "tree_inv s" and c: "c < NPROC" "active (pc s c)" "initproc s \<noteq> Some c" and n: "\<And>q. q < NPROC \<Longrightarrow> parent (pc s q) \<noteq> Some c"
  shows "tree_inv (upd_proc c (\<lambda>x. x\<lparr>state := ZOMBIE\<rparr>) s)"
proof -
  let ?t = "upd_proc c (\<lambda>x. x\<lparr>state := ZOMBIE\<rparr>) s"
  note D = tree_invD[OF inv]
  have k: "pid (pc ?t q) = pid (pc s q)" "parent (pc ?t q) = parent (pc s q)" "state (pc ?t q) = (if q = c then ZOMBIE else state (pc s q))" for q
    using D(1) c(1) by (simp_all add: pc_upd_proc)
  have a: "active (pc ?t q) \<longleftrightarrow> active (pc s q) \<and> q \<noteq> c" "used (pc ?t q) \<longleftrightarrow> used (pc s q)" for q
    using c(2) k(3)[of q] by (auto simp: active_def used_def)
  have "\<exists>r < NPROC. parent (pc s q) = Some r \<and> active (pc s r) \<and> r \<noteq> c" if "q < NPROC" "used (pc s q)" "initproc s \<noteq> Some q" for q
    using D(9)[OF that] n[OF that(1)] by auto
  then show ?thesis using inv c(3) by (auto simp: tree_inv_def pids_inv_def k a)
qed

lemma exit_ok:
  assumes inv: "kernel_inv w" and c: "cproc w = Some c" and e: "exit_proc pol w = Inr t" and r: "sched_return pol c t = Inr v"
  shows "kernel_inv v"
proof -
  note K = kernel_invD[OF inv] and C = cur_okD[OF kernel_invD(2)[OF inv]]
  have l: "length (procs w) = NPROC" by (rule tree_invD(1)[OF K(1)])
  have cn: "c < NPROC" "active (pc w c)" using C(2,3)[OF c] by auto
  have i: "initproc w \<noteq> Some c" using e c by (auto simp: exit_proc_def)
  obtain w1 w2 w3 w4 where s: "fold_r (exit_fd pol c) [0..<NOFILE] w = Inr w1" "exit_cwd c w1 = Inr w2" "wakeup1 pol (map_option ChanProc (parent (pc w2 c))) w2 = Inr w3"
    "fold_r (reparent pol c) [0..<NPROC] w3 = Inr w4" "t = upd_proc c (\<lambda>x. x\<lparr>state := ZOMBIE\<rparr>) w4"
    using e c i by (auto simp: exit_proc_def bind_r_eq_Inr)
  have ns: "set [0..<NOFILE] \<subseteq> {..<16}" "set [0..<NPROC] \<subseteq> {..<NPROC}" by (auto simp: NOFILE_def)
  have f1: "fstep c w w1" "\<And>j. j < 16 \<Longrightarrow> ofile (pc w1 c) ! j = None" using exit_fds_ok[OF K(3) l cn(1) C(1) ns(1) s(1)] by (auto simp: NOFILE_def)
  note D1 = fstepD[OF f1(1) l]
  have f2: "fstep c w1 w2" "ofile (pc w2 c) = ofile (pc w1 c)" using exit_cwd_ok[OF D1(1,2) cn(1) D1(3) s(2)] by auto
  note D2 = fstepD[OF f2(1) D1(2)] and F = fstep_trans[OF f1(1) f2(1)]
  have k2: "kernel_inv w2" by (rule fstep_kernel[OF inv F c])
  note T2 = kernel_invD[OF k2]
  have a3: "adopts c w2 w3" by (rule adopts_wakeup1[OF T2(1) s(3)])
  have i3: "tree_inv w3" "initproc w3 \<noteq> Some c" using a3 D1(5) D2(5) i by (simp_all add: adopts_def)
  have a4: "adopts c w2 w4" "\<And>p. p < NPROC \<Longrightarrow> parent (pc w4 p) \<noteq> Some c"
    using reparent_all[OF i3(1) ns(2) i3(2) s(4)] adopts_trans[OF a3] by auto
  have x: "tree_inv w4" "initproc w4 = initproc w2" "io w4 = io w2" "typed (Some c) w4" "\<And>q. ofile (pc w4 q) = ofile (pc w2 q)" "\<And>q. active (pc w4 q) = active (pc w2 q)"
    using a4(1) D2(3,4) D1(4) c io_more[of w4 w2] by (simp_all add: adopts_def)
  have l4: "length (procs w4) = NPROC" by (rule tree_invD(1)[OF x(1)])
  have ac: "active (pc w4 c)" using x(6) F pframe_active cn(2) unfolding fstep_def by blast
  have tt: "tree_inv t" unfolding s(5) by (rule tree_inv_zombie[OF x(1) cn(1) ac _ a4(2)]) (use x(2) D1(5) D2(5) i in simp_all)
  have ot: "ofile (pc t q) = ofile (pc w2 q)" for q using x(5) l4 cn(1) by (simp add: s(5) pc_upd_proc)
  have "set (ofile (pc w2 c)) \<subseteq> {None}"
  proof -
    have "length (ofile (pc w2 c)) = 16" using T2(3) cn(1) by (simp add: file_ref_def)
    then show ?thesis using f1(2) f2(2) by (auto simp: in_set_conv_nth)
  qed
  then have it: "idle_files t" using T2(4) x(6) l4 cn(1) unfolding idle_files_def ot by (auto simp: s(5) pc_upd_proc split: if_splits)
  have ft: "file_ref t" by (rule file_ref_same[OF T2(3)]) (use ot x(3) in \<open>simp_all add: s(5)\<close>)
  note R = sched_return_frame[OF r]
  have "typed (Some c) t" using x(4) by (simp add: s(5))
  then have "cur_ok v" by (intro cur_okI[OF sched_return_typed[OF _ cn(1) r]]) auto
  then show ?thesis using tree_inv_tframe[OF R(1) tt] file_ref_tframe[OF R(1) ft] idle_files_tframe[OF R(1) it] by (simp add: kernel_inv_def)
qed

subsection \<open>wait\<close>

lemma free_mem_eq:
  assumes "free_mem p w = Inr t"
  obtains m where "t = upd_proc p (\<lambda>x. x\<lparr>kstack := 0, pid := 0, parent := None, Proc_Table.name := [], killed := False, state := UNUSED\<rparr>) (set_kmem m w)"
  using assms by (auto simp: free_mem_def bind_r_eq_Inr)

text \<open>A dead slot is given back to the table.\<close>

definition reaped :: "nat \<Rightarrow> kworld \<Rightarrow> kworld \<Rightarrow> bool" where
  "reaped p w t \<longleftrightarrow> length (procs t) = length (procs w) \<and> initproc t = initproc w \<and> nextpid t = nextpid w \<and> cproc t = cproc w \<and> prioQ t = prioQ w \<and>
     ftable (io t) = ftable (io w) \<and> (\<forall>q. q \<noteq> p \<longrightarrow> pc t q = pc w q) \<and> ofile (pc t p) = ofile (pc w p) \<and>
     state (pc t p) = UNUSED \<and> pid (pc t p) = 0 \<and> parent (pc t p) = None"

lemma reap_ok:
  assumes inv: "kernel_inv w" and p: "p < NPROC" "\<not> active (pc w p)" and r: "reaped p w t"
  shows "kernel_inv t"
proof -
  note K = kernel_invD[OF inv] and C = cur_okD[OF kernel_invD(2)[OF inv]]
  have x: "length (procs t) = NPROC" "initproc t = initproc w" "nextpid t = nextpid w" "cproc t = cproc w" "prioQ t = prioQ w" "ftable (io t) = ftable (io w)"
    "\<And>q. q \<noteq> p \<Longrightarrow> pc t q = pc w q" "ofile (pc t p) = ofile (pc w p)" "state (pc t p) = UNUSED" "pid (pc t p) = 0" "parent (pc t p) = None"
    using r tree_invD(1)[OF K(1)] by (simp_all add: reaped_def)
  have o: "ofile (pc t q) = ofile (pc w q)" for q using x(7,8) by (cases "q = p") simp_all
  have "tree_inv t"
    by (rule tree_inv_slot[OF K(1) p]) (use x tree_invD(2)[OF K(1)] in \<open>auto simp: pkeep_def used_def\<close>)
  moreover have "cur_ok t"
  proof (rule cur_okI[of "cproc w"])
    show "typed (cproc w) t" using C(1) x(4,5) by (simp add: typed_def)
    show "c < NPROC \<and> active (pc t c)" if "cproc w = Some c" for c using C(2,3)[OF that] p(2) x(7)[of c] by (cases "c = p") auto
  qed
  moreover have "file_ref t" by (rule file_ref_same[OF K(3)]) (use o x(6) in simp_all)
  moreover have "idle_files t" unfolding idle_files_def o
  proof (intro allI impI)
    fix q assume "q < NPROC" "\<not> active (pc t q)"
    then show "set (ofile (pc w q)) \<subseteq> {None}" using K(4) p x(7)[of q] by (cases "q = p") (simp_all add: idle_files_def)
  qed
  ultimately show ?thesis by (simp add: kernel_inv_def)
qed

text \<open>A process that gives up the processor and stays alive.\<close>

lemma switch_ok:
  assumes inv: "kernel_inv w" and c: "cproc w = Some c" and t: "tframe w t" "typed (Some c) t" and r: "sched_return pol c t = Inr v"
  shows "kernel_inv v"
proof (rule kernel_inv_tframe[OF inv])
  note R = sched_return_frame[OF r]
  show "tframe w v" by (rule tframe_trans[OF t(1) R(1)])
  have "c < NPROC" using cur_okD(2)[OF kernel_invD(2)[OF inv] c] .
  then show "cur_ok v" by (intro cur_okI[OF sched_return_typed[OF t(2) _ r]]) auto
qed

lemma sleep_ok:
  assumes inv: "kernel_inv w" and c: "cproc w = Some c" and s: "sleep ch w = Inr t"
  shows "tframe w t" "typed (Some c) t"
proof -
  note C = cur_okD[OF kernel_invD(2)[OF inv]]
  show "tframe w t" using tkeeps_sleep[of w ch] C(3) s by simp
  show "typed (Some c) t" using s c C(1) by (auto simp: sleep_def)
qed

lemma zombie_slot: "length (procs w) = NPROC \<Longrightarrow> find_idx (zombie_child c) (procs w) = Some p \<Longrightarrow> p < NPROC \<and> parent (pc w p) = Some c \<and> state (pc w p) = ZOMBIE"
  by (auto simp: find_idx_Some zombie_child_def pc_def)

lemma wait_ok:
  assumes inv: "kernel_inv w" and c: "cproc w = Some c" and s: "wait_round w = Inr (r, t)"
  shows "r \<noteq> None \<Longrightarrow> kernel_inv t \<and> cproc t = Some c" "r = None \<Longrightarrow> tframe w t \<and> typed (Some c) t"
proof -
  have l: "length (procs w) = NPROC" by (rule tree_invD(1)[OF kernel_invD(1)[OF inv]])
  have "(r \<noteq> None \<longrightarrow> kernel_inv t \<and> cproc t = Some c) \<and> (r = None \<longrightarrow> tframe w t \<and> typed (Some c) t)"
  proof (cases "find_idx (zombie_child c) (procs w)")
    case None
    then show ?thesis using s c inv sleep_ok[OF inv c] by (auto simp: wait_round_def bind_r_eq_Inr split: if_splits)
  next
    case (Some p)
    note z = zombie_slot[OF l Some]
    obtain w1 where w1: "free_mem p w = Inr w1" "r = Some (pid (pc w p))" "t = upd_proc p (\<lambda>x. x\<lparr>etime := sint (ticks w)\<rparr>) w1"
      using s c Some by (auto simp: wait_round_def bind_r_eq_Inr)
    obtain m where "w1 = upd_proc p (\<lambda>x. x\<lparr>kstack := 0, pid := 0, parent := None, Proc_Table.name := [], killed := False, state := UNUSED\<rparr>) (set_kmem m w)"
      using free_mem_eq[OF w1(1)] by blast
    then have "reaped p w t" using z l by (simp add: reaped_def w1(3))
    then show ?thesis using reap_ok[OF inv, of p t] z w1(2) c by (simp add: active_def reaped_def)
  qed
  then show "r \<noteq> None \<Longrightarrow> kernel_inv t \<and> cproc t = Some c" "r = None \<Longrightarrow> tframe w t \<and> typed (Some c) t" by blast+
qed

lemma waitx_ok:
  assumes inv: "kernel_inv w" and c: "cproc w = Some c" and s: "waitx_round w = Inr (r, x, t)"
  shows "r \<noteq> None \<Longrightarrow> kernel_inv t \<and> cproc t = Some c" "r = None \<Longrightarrow> tframe w t \<and> typed (Some c) t"
proof -
  have l: "length (procs w) = NPROC" by (rule tree_invD(1)[OF kernel_invD(1)[OF inv]])
  have "(r \<noteq> None \<longrightarrow> kernel_inv t \<and> cproc t = Some c) \<and> (r = None \<longrightarrow> tframe w t \<and> typed (Some c) t)"
  proof (cases "find_idx (zombie_child c) (procs w)")
    case None
    then show ?thesis using s c inv sleep_ok[OF inv c] by (auto simp: waitx_round_def bind_r_eq_Inr split: if_splits)
  next
    case (Some p)
    note z = zombie_slot[OF l Some]
    have f: "free_mem p (upd_proc p (\<lambda>x. x\<lparr>etime := sint (ticks w)\<rparr>) w) = Inr t" "r \<noteq> None"
      using s c Some by (auto simp: waitx_round_def bind_r_eq_Inr Let_def)
    obtain m where "t = upd_proc p (\<lambda>x. x\<lparr>kstack := 0, pid := 0, parent := None, Proc_Table.name := [], killed := False, state := UNUSED\<rparr>)
        (set_kmem m (upd_proc p (\<lambda>x. x\<lparr>etime := sint (ticks w)\<rparr>) w))"
      using free_mem_eq[OF f(1)] by blast
    then have "reaped p w t" using z l by (simp add: reaped_def)
    then show ?thesis using reap_ok[OF inv, of p t] z f(2) c by (auto simp: active_def reaped_def)
  qed
  then show "r \<noteq> None \<Longrightarrow> kernel_inv t \<and> cproc t = Some c" "r = None \<Longrightarrow> tframe w t \<and> typed (Some c) t" by blast+
qed

section \<open>All steps of the kernel\<close>

text \<open>
  One step of the processor: a call of the running process up to its return or to the scheduler's next decision, a timer
  interrupt, the scheduler choosing the next process, the trap frame being set on entry to the kernel, or memory being written
  (by the program, or the value of a call going into the trap frame).
\<close>

inductive kstep :: "ksyms \<Rightarrow> policy \<Rightarrow> devtab \<Rightarrow> kworld \<Rightarrow> kworld \<Rightarrow> bool" for ks pol dt where
  Fork: "fork ks pol w = Inr (r, t) \<Longrightarrow> kstep ks pol dt w t"
| Exit: "cproc w = Some c \<Longrightarrow> exit_proc pol w = Inr u \<Longrightarrow> sched_return pol c u = Inr t \<Longrightarrow> kstep ks pol dt w t"
| Wait: "cproc w = Some c \<Longrightarrow> wait_round w = Inr (Some r, t) \<Longrightarrow> kstep ks pol dt w t"
| WaitSleep: "cproc w = Some c \<Longrightarrow> wait_round w = Inr (None, u) \<Longrightarrow> sched_return pol c u = Inr t \<Longrightarrow> kstep ks pol dt w t"
| Waitx: "cproc w = Some c \<Longrightarrow> waitx_round w = Inr (Some r, x, t) \<Longrightarrow> kstep ks pol dt w t"
| WaitxSleep: "cproc w = Some c \<Longrightarrow> waitx_round w = Inr (None, x, u) \<Longrightarrow> sched_return pol c u = Inr t \<Longrightarrow> kstep ks pol dt w t"
| Grow: "cproc w = Some c \<Longrightarrow> growproc n w = Inr (r, t) \<Longrightarrow> kstep ks pol dt w t"
| Exec: "cproc w = Some c \<Longrightarrow> exec ks dt path argv w = Inr (r, t) \<Longrightarrow> kstep ks pol dt w t"
| Files: "cproc w = Some c \<Longrightarrow> f \<in> file_calls dt \<Longrightarrow> f u (load_proc c w) = Inr (r, u', s) \<Longrightarrow> store_proc pol c s w = Inr t \<Longrightarrow> kstep ks pol dt w t"
| Sleep: "cproc w = Some c \<Longrightarrow> sleep ch w = Inr u \<Longrightarrow> sched_return pol c u = Inr t \<Longrightarrow> kstep ks pol dt w t"
| Woken: "cproc w = Some c \<Longrightarrow> kstep ks pol dt w (sleep_resume c w)"
| Frame: "cproc w = Some c \<Longrightarrow> kstep ks pol dt w (upd_proc c (\<lambda>x. x\<lparr>tf := a\<rparr>) w)"
| Ram: "kstep ks pol dt w (set_ram m w)"
| Kill: "kstep ks pol dt w (snd (kill pd w))"
| Prio: "set_prio np w = Inr (r, t) \<Longrightarrow> kstep ks pol dt w t"
| Timer: "trap_timer pol cpu user w = Inr (a, t) \<Longrightarrow> a \<noteq> Yield \<Longrightarrow> kstep ks pol dt w t"
| Preempt: "cproc w = Some c \<Longrightarrow> trap_timer pol cpu user w = Inr (Yield, u) \<Longrightarrow> sched_return pol c u = Inr t \<Longrightarrow> kstep ks pol dt w t"
| Sched: "cproc w = None \<Longrightarrow> sched_pick pol i w = Inr (po, t) \<Longrightarrow> kstep ks pol dt w t"

lemma growproc_ok:
  assumes inv: "kernel_inv w" and c: "cproc w = Some c" and g: "growproc n w = Inr (r, t)"
  shows "fstep c w t"
proof -
  note K = kernel_invD[OF inv] and C = cur_okD[OF kernel_invD(2)[OF inv]]
  have l: "length (procs w) = NPROC" "c < NPROC" using tree_invD(1)[OF K(1)] C(2)[OF c] by simp_all
  obtain z m where t: "t = set_kmem m w \<or> t = upd_proc c (\<lambda>x. x\<lparr>sz := z\<rparr>) (set_kmem m w)"
  proof -
    have s: "switchuvm c u = Inr v \<Longrightarrow> v = u" for u v :: kworld by (rule switchuvm_same)
    show ?thesis using g c that s by (cases "n > 0"; cases "n < 0") (fastforce simp: growproc_def Let_def bind_r_eq_Inr split: if_splits prod.splits)+
  qed
  have p: "ofile (pc t q) = ofile (pc w q) \<and> pkeep (pc w q) (pc t q)" for q using t l by (cases "q = c") (auto simp: pkeep_def)
  have x: "ftable (io t) = ftable (io w)" "typed (cproc w) t" "length (procs t) = length (procs w)" "nextpid t = nextpid w" "initproc t = initproc w"
    using t C(1) by auto
  have "file_ref t" by (rule file_ref_same[OF K(3)]) (use p x in simp_all)
  then show "fstep c w t" using p x by (simp add: fstep_def pframe_def)
qed

text \<open>A failed \<open>exec\<close> and a successful one keep descriptors, family and state of every process.\<close>

lemma exec_ok:
  assumes inv: "kernel_inv w" and c: "cproc w = Some c" and e: "exec ks dt path argv w = Inr (r, t)"
  shows "fstep c w t"
proof -
  note K = kernel_invD[OF inv] and C = cur_okD[OF kernel_invD(2)[OF inv]]
  have l: "length (procs w) = NPROC" "c < NPROC" using tree_invD(1)[OF K(1)] C(2)[OF c] by simp_all
  have "\<exists>u. fs_mem w u \<and> (t = u \<or> (\<exists>nm d z. t = upd_proc c (\<lambda>x. x\<lparr>Proc_Table.name := nm, pgdir := d, sz := z\<rparr>) u))"
    using exec_frame[OF c, of ks dt path argv] e unfolding exec_res_def by auto
  then obtain u where u0: "fs_mem w u" and u: "t = u \<or> (\<exists>nm d z. t = upd_proc c (\<lambda>x. x\<lparr>Proc_Table.name := nm, pgdir := d, sz := z\<rparr>) u)" by auto
  have uw: "procs u = procs w" "cproc u = cproc w" "prioQ u = prioQ w" "nextpid u = nextpid w" "initproc u = initproc w" "ftable (io u) = ftable (io w)"
    using u0 by (auto simp: fs_mem_def)
  have p: "ofile (pc t q) = ofile (pc w q) \<and> pkeep (pc w q) (pc t q)" for q 
    using u l uw by (cases "q = c") (auto simp: pkeep_def pc_def upd_proc_def)
  have x: "ftable (io t) = ftable (io w)" "typed (cproc w) t" "length (procs t) = length (procs w)" "nextpid t = nextpid w" "initproc t = initproc w"
    using u uw C(1) by (auto simp: typed_def upd_proc_def)
  have "file_ref t" by (rule file_ref_same[OF K(3)]) (use p x in simp_all)
  then show "fstep c w t" using p x by (simp add: fstep_def pframe_def)
qed

lemma trap_timer_ok:
  assumes inv: "kernel_inv w" and s: "trap_timer pol cpu user w = Inr (a, t)"
  shows "tframe w t" "typed (cproc w) t"
proof -
  note C = cur_okD[OF kernel_invD(2)[OF inv]]
  obtain u where u: "timer_tick pol cpu w = Inr u" using s by (auto simp: trap_timer_def bind_r_eq_Inr)
  have f: "tframe w u" "typed (cproc w) u" using tkeeps_timer_tick[of w pol cpu] tykeeps_timer_tick[OF C(1), of pol cpu] u by simp_all
  have t: "t = u \<or> yield u = Inr t" using s u by (auto simp: trap_timer_def bind_r_eq_Inr split: if_splits)
  have "tkeeps (\<lambda>y. y) u (yield u)"
    by (rule tkeeps_yield) (use C(3) f tframe_active[OF f(1)] in \<open>simp add: typed_def\<close>)
  moreover have "tykeeps (cproc w) (\<lambda>y. y) (yield u)" using f(2) by (simp add: yield_def split: option.split)
  ultimately show "tframe w t" "typed (cproc w) t" using t f tframe_trans[OF f(1)] by auto
qed

lemma kstep_inv:
  assumes "kstep ks pol dt w t" "kernel_inv w"
  shows "kernel_inv t"
  using assms
proof (induction rule: kstep.induct)
  case (Fork w r t)
  then show ?case using fork_ok by blast
next
  case (Exit w c u t)
  then show ?case by (blast intro: exit_ok)
next
  case (Wait w c r t)
  then show ?case using wait_ok(1) by blast
next
  case (WaitSleep w c u t)
  then show ?case using wait_ok(2)[OF WaitSleep(4,1,2)] switch_ok[OF WaitSleep(4,1)] by blast
next
  case (Waitx w c r x t)
  then show ?case using waitx_ok(1) by blast
next
  case (WaitxSleep w c x u t)
  then show ?case using waitx_ok(2)[OF WaitxSleep(4,1,2)] switch_ok[OF WaitxSleep(4,1)] by blast
next
  case (Grow w c n r t)
  show ?case by (rule fstep_kernel[OF Grow(3) growproc_ok[OF Grow(3,1,2)] Grow(1)])
next
  case (Exec w c path argv r t)
  show ?case by (rule fstep_kernel[OF Exec(3) exec_ok[OF Exec(3,1,2)] Exec(1)])
next
  case (Files w c f u r u' s t)
  note K = kernel_invD[OF Files(5)] and C = cur_okD[OF kernel_invD(2)[OF Files(5)]]
  have c: "c < NPROC" by (rule C(2)[OF Files(1)])
  have "ftab_ok (others c w) s" by (rule file_calls_ok[OF file_ref_ftab[OF K(3) c] Files(2,3)])
  then have "fstep c w t" using fstep_store[OF K(3) tree_invD(1)[OF K(1)] c C(1) _ Files(4)] by blast
  then show ?case by (rule fstep_kernel[OF Files(5) _ Files(1)])
next
  case (Sleep w c ch u t)
  then show ?case using switch_ok[OF Sleep(4,1) sleep_ok[OF Sleep(4,1,2)]] by blast
next
  case (Woken w c)
  have f: "tframe w (sleep_resume c w)" unfolding sleep_resume_def by (rule tframe_upd) (simp_all add: tkeep_def active_def)
  show ?case
    by (rule kernel_inv_tframe[OF Woken(2) f], rule cur_ok_tframe[OF kernel_invD(2)[OF Woken(2)] f])
      (use cur_okD(1)[OF kernel_invD(2)[OF Woken(2)]] in \<open>simp add: sleep_resume_def\<close>)
next
  case (Frame w c a)
  have f: "tframe w (upd_proc c (\<lambda>x. x\<lparr>tf := a\<rparr>) w)" by (rule tframe_upd) (simp_all add: tkeep_def active_def)
  show ?case
    by (rule kernel_inv_tframe[OF Frame(2) f], rule cur_ok_tframe[OF kernel_invD(2)[OF Frame(2)] f])
      (use cur_okD(1)[OF kernel_invD(2)[OF Frame(2)]] in simp)
next
  case (Ram w m)
  note K = kernel_invD[OF Ram]
  have f: "pframe w (set_ram m w)" by (simp add: pframe_def pkeep_def)
  have "file_ref (set_ram m w)" by (rule file_ref_same[OF K(3)]) simp_all
  moreover have "cur_ok (set_ram m w)" using K(2) by (simp add: cur_ok_def cur_inv_def)
  ultimately show ?case using tree_inv_pframe[OF f K(1)] K(4) by (simp add: kernel_inv_def idle_files_def)
next
  case (Kill w pd)
  show ?case
    by (rule kernel_inv_tframe[OF Kill tframe_kill], rule cur_ok_tframe[OF kernel_invD(2)[OF Kill] tframe_kill])
      (use cur_okD(1)[OF kernel_invD(2)[OF Kill]] in \<open>simp add: kill_def split: option.split\<close>)
next
  case (Prio np w r t)
  have f: "tframe w t" "typed (cproc w) t" using tkeeps_set_prio[of w np] Prio(1) cur_okD(1)[OF kernel_invD(2)[OF Prio(2)]]
    by (auto simp: set_prio_def split: if_splits option.splits)
  show ?case by (rule kernel_inv_tframe[OF Prio(2) f(1)], rule cur_ok_tframe[OF kernel_invD(2)[OF Prio(2)] f])
next
  case (Timer cpu user w a t)
  note f = trap_timer_ok[OF Timer(3,1)]
  show ?case by (rule kernel_inv_tframe[OF Timer(3) f(1)], rule cur_ok_tframe[OF kernel_invD(2)[OF Timer(3)] f])
next
  case (Preempt w c cpu user u t)
  then show ?case using switch_ok[OF Preempt(4,1)] trap_timer_ok[OF Preempt(4,2)] Preempt(1) by simp
next
  case (Sched w i po t)
  have "tframe w t" using tkeeps_sched_pick[of w pol i] Sched(2) by simp
  moreover have "cur_ok t"
    by (rule sched_pick_cur[OF _ _ Sched(2)]) (use Sched cur_okD(1)[OF kernel_invD(2)[OF Sched(3)]] tree_invD(1)[OF kernel_invD(1)[OF Sched(3)]] in simp_all)
  ultimately show ?case by (rule kernel_inv_tframe[OF Sched(3)])
qed

interpretation kernel: invariant_system "kstep ks pol dt" kernel_inv for ks pol dt
  by unfold_locales (rule kstep_inv)

section \<open>From boot\<close>

text \<open>The tables as the loader leaves them: zeroed, with \<open>nextpid\<close> 1.\<close>

definition boot_world :: "kworld \<Rightarrow> bool" where
  "boot_world w \<longleftrightarrow> length (procs w) = NPROC \<and> nextpid w = 1 \<and> typed None w \<and>
     (\<forall>p < NPROC. state (pc w p) = UNUSED \<and> pid (pc w p) = 0 \<and> parent (pc w p) = None \<and> ofile (pc w p) = replicate 16 None) \<and>
     length (ftable (io w)) = NFILE \<and> (\<forall>f < NFILE. fref (ftable (io w) ! f) = 0 \<and> ftyp (ftable (io w) ! f) = FD_NONE)"

lemma count_replicate_None [simp]: "count_list (replicate n None) (Some f) = 0"
  by (simp add: count_list_0_iff)

lemma boot_kernel:
  assumes w: "boot_world w" and b: "born p w u" "typed None u"
    and t: "length (procs t) = length (procs u)" "initproc t = Some p" "nextpid t = nextpid u" "\<And>q. q \<noteq> p \<Longrightarrow> pc t q = pc u q"
      "pid (pc t p) = pid (pc u p)" "ofile (pc t p) = ofile (pc u p)" "state (pc t p) = RUNNABLE" "typed None t" "ftable (io t) = ftable (io u)"
  shows "kernel_inv t"
proof -
  have B: "p < NPROC" "length (procs u) = NPROC" "nextpid u = 2" "pid (pc u p) = 1" "ofile (pc u p) = replicate 16 None" "ftable (io u) = ftable (io w)"
    "\<And>q. q \<noteq> p \<Longrightarrow> tkeep (pc w q) (pc u q)" using w b(1) by (auto simp: boot_world_def born_def)
  have o: "state (pc t q) = UNUSED" "pid (pc t q) = 0" "parent (pc t q) = None" "ofile (pc t q) = replicate 16 None" if "q < NPROC" "q \<noteq> p" for q
    using w that B(7)[OF that(2)] t(4)[OF that(2)] by (auto simp: boot_world_def tkeep_def active_def)
  have all: "ofile (pc t q) = replicate 16 None" if "q < NPROC" for q using o(4)[OF that] t(6) B(5) by (cases "q = p") simp_all
  have "tree_inv t" unfolding tree_inv_def
  proof (intro conjI allI impI)
    show "pids_inv t" unfolding pids_inv_def using o(2) by metis
    show "\<exists>i < NPROC. initproc t = Some i \<and> active (pc t i)" using B(1) t(2,7) by (simp add: active_def)
  next
    fix q assume q: "q < NPROC" "used (pc t q) \<and> initproc t \<noteq> Some q"
    then show "\<exists>r < NPROC. parent (pc t q) = Some r \<and> active (pc t r)" using o(1)[OF q(1)] t(2) by (auto simp: used_def)
  next
    fix q assume q: "q < NPROC"
    have "q = p \<or> state (pc t q) = UNUSED \<and> pid (pc t q) = 0 \<and> parent (pc t q) = None" using o[OF q] by blast
    then show "state (pc t q) \<noteq> EMBRYO" "0 \<le> pid (pc t q)" "pid (pc t q) < nextpid t" "used (pc t q) \<Longrightarrow> pid (pc t q) \<noteq> 0" "\<not> used (pc t q) \<Longrightarrow> parent (pc t q) = None"
      using t(3,5,7) B(3,4) by (auto simp: used_def)
  qed (use t B in simp_all)
  moreover have "cur_ok t" by (rule cur_okI[OF t(8)]) simp
  moreover have "refs {..<NPROC} t f = 0" for f using all by (simp add: refs_def)
  then have "file_ref t" using w all t(9) B(6) by (simp add: file_ref_def boot_world_def)
  moreover have "idle_files t" using all by (simp add: idle_files_def)
  ultimately show ?thesis by (simp add: kernel_inv_def)
qed

lemma userinit_ok:
  assumes w: "boot_world w" and e: "userinit ks pol dt w = Inr t"
  shows "kernel_inv t"
proof -
  have l: "length (procs w) = NPROC" "typed None w" using w by (simp_all add: boot_world_def)
  obtain p u where a: "allocproc ks pol w = Inr (Some p, u)"
    using e by (cases "allocproc ks pol w") (auto simp: userinit_def split: prod.splits option.splits)
  note b = allocproc_some[OF a l(1)]
  have n: "p < NPROC" "length (procs u) = NPROC" using b(1) l(1) by (simp_all add: born_def)
  obtain d m where m: "setupkvm (kend_of u) (sym_data ks) (kmem_of u) = Inr (d, m)" "d \<noteq> 0"
    using e a by (cases "setupkvm (kend_of u) (sym_data ks) (kmem_of u)") (auto simp: userinit_def split: if_splits)
  obtain m1 where m1: "inituvm d (sym_initcode ks) (sym_initsize ks) m = Inr m1"
    using e a m by (cases "inituvm d (sym_initcode ks) (sym_initsize ks) m") (auto simp: userinit_def)
  define w2 where "w2 = upd_proc p (\<lambda>x. x\<lparr>pgdir := d, sz := PGSIZE\<rparr>) (set_kmem m1 (u\<lparr>initproc := Some p\<rparr>))"
  define w3 where "w3 = set_ram (user_tf (tf (pc w2 p)) (ram (kmem_of w2))) w2"
  define w4 where "w4 = upd_proc p (\<lambda>x. x\<lparr>Proc_Table.name := ''initcode''\<rparr>) w3"
  have "bind_r (namei (pid (pc w4 p)) dt 0 [47] (fsys (io w4))) (\<lambda>(c, f).
      Inr (upd_proc p (\<lambda>x. x\<lparr>cwd := c, state := RUNNABLE\<rparr>) (w4\<lparr>io := (io w4)\<lparr>fsys := f\<rparr>\<rparr>))) = Inr t"
    using e a m m1 by (simp add: userinit_def Let_def w2_def w3_def w4_def)
  then obtain c f where t: "t = upd_proc p (\<lambda>x. x\<lparr>cwd := c, state := RUNNABLE\<rparr>) (w4\<lparr>io := (io w4)\<lparr>fsys := f\<rparr>\<rparr>)" by (auto simp: bind_r_eq_Inr)
  show ?thesis
    by (rule boot_kernel[OF w b(1) b(2)[OF l(2)]]) (use n b(2)[OF l(2)] in \<open>simp_all add: t w4_def w3_def w2_def\<close>)
qed

section \<open>No zombie is lost\<close>

lemma wait_collects:
  assumes inv: "tree_inv t" and z: "z < NPROC" "state (pc t z) = ZOMBIE" "parent (pc t z) = Some q" and w: "wait_round (t\<lparr>cproc := Some q\<rparr>) = Inr (r, v)"
  shows "\<exists>y < NPROC. state (pc t y) = ZOMBIE \<and> parent (pc t y) = Some q \<and> r = Some (pid (pc t y)) \<and> 0 < pid (pc t y) \<and> state (pc v y) = UNUSED"
proof -
  note D = tree_invD[OF inv]
  have "zombie_child q (procs t ! z)" "z < length (procs t)" using z D(1) by (simp_all add: zombie_child_def pc_def)
  then obtain y where y: "find_idx (zombie_child q) (procs t) = Some y" by (cases "find_idx (zombie_child q) (procs t)") (auto simp: find_idx_None_nth)
  note Z = zombie_slot[of t, OF D(1) y]
  have p: "pid (pc t y) > 0" using D(4,6)[of y] Z by (auto simp: used_def order_le_less)
  obtain w1 where w1: "free_mem y (t\<lparr>cproc := Some q\<rparr>) = Inr w1" "r = Some (pid (pc t y))" "v = upd_proc y (\<lambda>x. x\<lparr>etime := sint (ticks t)\<rparr>) w1"
    using w y by (auto simp: wait_round_def bind_r_eq_Inr)
  obtain m where "w1 = upd_proc y (\<lambda>x. x\<lparr>kstack := 0, pid := 0, parent := None, Proc_Table.name := [], killed := False, state := UNUSED\<rparr>) (set_kmem m (t\<lparr>cproc := Some q\<rparr>))"
    using free_mem_eq[OF w1(1)] by blast
  then have "state (pc v y) = UNUSED" using Z D(1) w1(3) by simp
  then show ?thesis using Z p w1(2) by blast
qed


text \<open>A kernel with three processes: \<open>init\<close> asleep in \<open>wait\<close>, the running shell, and a zombie child of the shell.\<close>

definition demo_proc :: proc where
  "demo_proc = \<lparr>sz = 0, pgdir = 0, kstack = 0, state = UNUSED, pid = 0, parent = None, tf = 0, ctxt = 0, chan = None, killed = False,
     ofile = replicate 16 None, cwd = None, name = [], ctime = 0, etime = 0, rtime = 0, priority = 60,
     stat = \<lparr>st_pid = 0, st_runtime = 0, num_run = 0, alloted_q = 0, alloted_pos = 0, st_ticks = [0, 0, 0, 0, 0], actualTicks = [0, 0, 0, 0, 0]\<rparr>, latestQTime = 0\<rparr>"

definition demo_inode :: inode where
  "demo_inode = \<lparr>idev = 1, inum = 1, iref = 3, ilk = None, ivalid = True, itype = 1, imajor = 0, iminor = 0, inlink = 1, isize = 0, iaddrs = replicate 13 0\<rparr>"

definition demo_world :: kworld where
  "demo_world = \<lparr>procs = [demo_proc\<lparr>state := SLEEPING, pid := 1, chan := Some (ChanProc 0), cwd := Some 0\<rparr>,
       demo_proc\<lparr>state := RUNNING, pid := 2, parent := Some 0, cwd := Some 0\<rparr>, demo_proc\<lparr>state := ZOMBIE, pid := 3, parent := Some 1\<rparr>] @ replicate 61 demo_proc,
     nextpid = 4, initproc = Some 0, ticks = 5, prioQ = (\<lambda>_ _. None), prioQSize = (\<lambda>_. 0), prioQStart = (\<lambda>_. 0), cproc = Some 1,
     io = demo_sys\<lparr>fsys := (fsys demo_sys)\<lparr>icache := [demo_inode]\<rparr>,
       ftable := replicate 100 \<lparr>ftyp = FD_NONE, fref = 0, readable = False, writable = False, fpipe = 0, fip = 0, foff = 0\<rparr>\<rparr>\<rparr>"

lemma demo_pc:
  "p < NPROC \<Longrightarrow> pc demo_world p =
    (if p = 0 then demo_proc\<lparr>state := SLEEPING, pid := 1, chan := Some (ChanProc 0), cwd := Some 0\<rparr>
     else if p = 1 then demo_proc\<lparr>state := RUNNING, pid := 2, parent := Some 0, cwd := Some 0\<rparr>
     else if p = 2 then demo_proc\<lparr>state := ZOMBIE, pid := 3, parent := Some 1\<rparr> else demo_proc)"
  by (simp add: pc_def demo_world_def NPROC_def nth_Cons')

lemma demo_fields [simp]:
  "initproc demo_world = Some 0" "nextpid demo_world = 4" "cproc demo_world = Some 1" "prioQ demo_world = (\<lambda>_ _. None)" "length (procs demo_world) = NPROC"
  "ftable (io demo_world) = replicate 100 \<lparr>ftyp = FD_NONE, fref = 0, readable = False, writable = False, fpipe = 0, fip = 0, foff = 0\<rparr>"
  by (simp_all add: demo_world_def NPROC_def)

lemma demo_inv: "kernel_inv demo_world"
proof -
  have o: "ofile (pc demo_world p) = replicate 16 None" if "p < NPROC" for p using that by (simp add: demo_pc demo_proc_def)
  have "tree_inv demo_world" unfolding tree_inv_def
  proof (intro conjI allI impI)
    show "pids_inv demo_world" by (auto simp: pids_inv_def demo_pc demo_proc_def split: if_splits)
    show "\<exists>i < NPROC. initproc demo_world = Some i \<and> active (pc demo_world i)"
      by (rule exI[of _ 0]) (simp add: demo_pc active_def NPROC_def)
  next
    fix p assume "p < NPROC" "used (pc demo_world p) \<and> initproc demo_world \<noteq> Some p"
    then have "p = 1 \<or> p = 2" by (auto simp: demo_pc used_def demo_proc_def split: if_splits)
    then show "\<exists>q < NPROC. parent (pc demo_world p) = Some q \<and> active (pc demo_world q)"
      by (elim disjE) (simp_all add: demo_pc active_def NPROC_def)
  qed (auto simp: demo_pc demo_proc_def used_def split: if_splits)
  moreover have "cur_ok demo_world"
    by (rule cur_okI[of "Some 1"]) (simp_all add: typed_def demo_pc active_def NPROC_def)
  moreover have "refs {..<NPROC} demo_world f = 0" for f using o by (simp add: refs_def)
  then have "file_ref demo_world" using o by (simp add: file_ref_def NFILE_def)
  moreover have "idle_files demo_world" using o by (simp add: idle_files_def)
  ultimately show ?thesis by (simp add: kernel_inv_def)
qed

lemma demo_exit: "case exit_proc DEFAULT demo_world of Inl e \<Rightarrow> False | Inr t \<Rightarrow> state (procs t ! 2) = ZOMBIE \<and> parent (procs t ! 2) = Some 0"
  by code_simp

definition demo_syms :: ksyms where
  "demo_syms = \<lparr>sym_trapret = 0x80105000, sym_forkret = 0x80103000, sym_data = 0x80108000, sym_initcode = 0x8010A460, sym_initsize = 44\<rparr>"


end
