(* ===== verification/Syscall.thy ===== *)
theory Syscall
  imports Life_Props
begin

text \<open>
  The system call interface: the process calls of \<open>sysproc.c\<close>, the table and the dispatcher of \<open>syscall.c\<close>, and the branch of \<open>trap\<close> (\<open>trap.c\<close>) that
  enters it. A call ends in one of three ways: it returns a value, the process goes to sleep inside it (and takes it up again when it is woken), or
  the process exits.
\<close>

datatype call_end = Ret int | Sleeps | Exited

type_synonym kret = "(call_end \<times> uctx \<times> kworld) result"

section \<open>Process calls\<close>

definition sys_fork :: "ksyms \<Rightarrow> policy \<Rightarrow> uctx \<Rightarrow> kworld \<Rightarrow> kret" where
  "sys_fork ks pol u w = bind_r (fork ks pol w) (\<lambda>(r, t). Inr (Ret r, u, t))"

definition sys_exit :: "policy \<Rightarrow> uctx \<Rightarrow> kworld \<Rightarrow> kret" where
  "sys_exit pol u w =
    (if cproc w = None then Inl (Panic ''Exitinng dead process'') else bind_r (exit_proc pol w) (\<lambda>t. Inr (Exited, u, t)))"

definition ret_or_sleep :: "int option \<Rightarrow> call_end" where
  "ret_or_sleep r = (case r of Some v \<Rightarrow> Ret v | None \<Rightarrow> Sleeps)"

definition sys_wait :: "uctx \<Rightarrow> kworld \<Rightarrow> kret" where
  "sys_wait u w = bind_r (wait_round w) (\<lambda>(r, t). Inr (ret_or_sleep r, u, t))"

definition sys_waitx :: "uctx \<Rightarrow> kworld \<Rightarrow> kret" where
  "sys_waitx u w =
    (case (argptr 0 4 u, argptr 1 4 u) of
       (Some wtime, Some rtim) \<Rightarrow>
         bind_r (waitx_round w) (\<lambda>(r, x, t).
           Inr (ret_or_sleep r,
             (case x of None \<Rightarrow> u | Some (wt, rt) \<Rightarrow> u\<lparr>umem := put32 (put32 (umem u) rtim (of_int rt)) wtime (of_int wt)\<rparr>), t))
     | _ \<Rightarrow> Inr (Ret (-1), u, w))"

definition sys_kill :: "uctx \<Rightarrow> kworld \<Rightarrow> kret" where
  "sys_kill u w = (case argint 0 u of None \<Rightarrow> Inr (Ret (-1), u, w) | Some pd \<Rightarrow> (case kill pd w of (r, t) \<Rightarrow> Inr (Ret r, u, t)))"

definition sys_getpid :: "nat \<Rightarrow> uctx \<Rightarrow> kworld \<Rightarrow> kret" where
  "sys_getpid c u w = Inr (Ret (pid (pc w c)), u, w)"

text \<open>The record in user memory: \<open>pid\<close>, \<open>runtime\<close>, \<open>num_run\<close>, \<open>allotedQ[2]\<close> and \<open>ticks[5]\<close>, in this order. \<open>sizeof(ps)\<close> is the size of the pointer, 4.\<close>

definition put_words :: "mem \<Rightarrow> u32 \<Rightarrow> int list \<Rightarrow> mem" where
  "put_words m a vs = fold (\<lambda>(i, v) m. put32 m (a + 4 * of_nat i) (of_int v)) (enumerate 0 vs) m"

definition put_pstat :: "mem \<Rightarrow> u32 \<Rightarrow> proc_stat \<Rightarrow> mem" where
  "put_pstat m a ps = put_words m a ([st_pid ps, st_runtime ps, num_run ps, alloted_q ps, alloted_pos ps] @ take 5 (st_ticks ps))"

definition sys_getpinfo :: "uctx \<Rightarrow> kworld \<Rightarrow> kret" where
  "sys_getpinfo u w =
    (case (argptr 0 4 u, argint 1 u) of
       (Some p, Some pd) \<Rightarrow>
         if p = 0 then Inl (Panic ''Pointer is empty :/'')
         else bind_r (getpinfo pd \<lparr>st_pid = 0, st_runtime = 0, num_run = 0, alloted_q = 0, alloted_pos = 0, st_ticks = [], actualTicks = []\<rparr> w) (\<lambda>(r, ps).
           Inr (Ret r, if r = 0 then u\<lparr>umem := put_pstat (umem u) p ps\<rparr> else u, w))
     | _ \<Rightarrow> Inr (Ret (-1), u, w))"

definition sys_sbrk :: "nat \<Rightarrow> uctx \<Rightarrow> kworld \<Rightarrow> kret" where
  "sys_sbrk c u w =
    (case argint 0 u of None \<Rightarrow> Inr (Ret (-1), u, w)
     | Some n \<Rightarrow> bind_r (growproc n w) (\<lambda>(r, t). Inr (Ret (if r < 0 then -1 else sint (sz (pc w c))), u, t)))"

text \<open>\<open>sys_sleep\<close> from the test of its loop on, with the \<open>ticks0\<close> it started at. The comparison is unsigned.\<close>

definition sys_sleep :: "nat \<Rightarrow> u32 \<Rightarrow> uctx \<Rightarrow> kworld \<Rightarrow> kret" where
  "sys_sleep c ticks0 u w =
    (case argint 0 u of None \<Rightarrow> Inr (Ret (-1), u, w)
     | Some n \<Rightarrow>
       if ticks w - ticks0 < of_int n then
         (if killed (pc w c) then Inr (Ret (-1), u, w) else bind_r (sleep (Some ChanTicks) w) (\<lambda>t. Inr (Sleeps, u, t)))
       else Inr (Ret 0, u, w))"

definition sys_uptime :: "uctx \<Rightarrow> kworld \<Rightarrow> kret" where
  "sys_uptime u w = Inr (Ret (sint (ticks w)), u, w)"

definition sys_set_priority :: "uctx \<Rightarrow> kworld \<Rightarrow> kret" where
  "sys_set_priority u w =
    (case argint 0 u of None \<Rightarrow> Inr (Ret (-1), u, w) | Some np \<Rightarrow> bind_r (set_prio np w) (\<lambda>(r, t). Inr (Ret r, u, t)))"

section \<open>File calls and exec on the whole kernel\<close>

definition file_call :: "(uctx \<Rightarrow> sysst \<Rightarrow> sysret) \<Rightarrow> policy \<Rightarrow> nat \<Rightarrow> uctx \<Rightarrow> kworld \<Rightarrow> kret" where
  "file_call f pol c u w = bind_r (f u (load_proc c w)) (\<lambda>(r, u1, s). bind_r (store_proc pol c s w) (\<lambda>t. Inr (Ret r, u1, t)))"

text \<open>What the process sees of its memory: the bytes its page directory maps, its size, and the stack pointer of its trap frame.\<close>

definition image_ctx :: "nat \<Rightarrow> kworld \<Rightarrow> uctx" where
  "image_ctx c w =
    \<lparr>umem = (\<lambda>va. ubyte (kmem_of w) (pgdir (pc w c)) va), usz = sz (pc w c), uesp = get32 (ram (kmem_of w)) (tf (pc w c) + 68)\<rparr>"

definition exec_call :: "ksyms \<Rightarrow> devtab \<Rightarrow> nat \<Rightarrow> uctx \<Rightarrow> kworld \<Rightarrow> kret" where
  "exec_call ks dt c u w =
    (case (argstr 0 u, argint 1 u) of
       (Some path, Some uargv) \<Rightarrow>
         (case fetch_argv MAXARG (of_int uargv) u of None \<Rightarrow> Inr (Ret (-1), u, w)
          | Some argv \<Rightarrow> bind_r (exec ks dt path argv w) (\<lambda>(r, t). Inr (Ret r, if r = 0 then image_ctx c t else u, t)))
     | _ \<Rightarrow> Inr (Ret (-1), u, w))"

section \<open>Dispatch\<close>

text \<open>The table of \<open>syscall.c\<close>, entries 1 to 24.\<close>

definition syscalls :: "ksyms \<Rightarrow> policy \<Rightarrow> devtab \<Rightarrow> nat \<Rightarrow> u32 \<Rightarrow> (uctx \<Rightarrow> kworld \<Rightarrow> kret) list" where
  "syscalls ks pol dt c ticks0 =
    [sys_fork ks pol, sys_exit pol, sys_wait, file_call sys_pipe pol c, file_call (sys_read dt) pol c, sys_kill, exec_call ks dt c,
     file_call sys_fstat pol c, file_call (sys_chdir dt) pol c, file_call sys_dup pol c, sys_getpid c, sys_sbrk c, sys_sleep c ticks0, sys_uptime,
     file_call (sys_open dt) pol c, file_call (sys_write dt) pol c, file_call (sys_mknod dt) pol c, file_call (sys_unlink dt) pol c,
     file_call (sys_link dt) pol c, file_call (sys_mkdir dt) pol c, file_call sys_close pol c, sys_waitx, sys_getpinfo, sys_set_priority]"

text \<open>The value goes to \<open>eax\<close> of the trap frame, at offset 28.\<close>

definition put_eax :: "nat \<Rightarrow> int \<Rightarrow> kworld \<Rightarrow> kworld" where
  "put_eax c r w = set_ram (put32 (ram (kmem_of w)) (tf (pc w c) + 28) (of_int r)) w"

definition syscall :: "ksyms \<Rightarrow> policy \<Rightarrow> devtab \<Rightarrow> nat \<Rightarrow> u32 \<Rightarrow> uctx \<Rightarrow> kworld \<Rightarrow> kret" where
  "syscall ks pol dt c ticks0 u w =
    (let num = sint (get32 (ram (kmem_of w)) (tf (pc w c) + 28)) in
     bind_r (if num > 0 \<and> num < 25 then (syscalls ks pol dt c ticks0 ! nat (num - 1)) u w else Inr (Ret (-1), u, w)) (\<lambda>(e, u1, t).
       case e of Ret r \<Rightarrow> Inr (Ret r, u1, put_eax c r t) | _ \<Rightarrow> Inr (e, u1, t)))"

text \<open>\<open>trap\<close> for \<open>T_SYSCALL\<close>: a killed process exits before and after the call.\<close>

definition trap_syscall :: "ksyms \<Rightarrow> policy \<Rightarrow> devtab \<Rightarrow> u32 \<Rightarrow> u32 \<Rightarrow> uctx \<Rightarrow> kworld \<Rightarrow> kret" where
  "trap_syscall ks pol dt tfp ticks0 u w =
    (case cproc w of None \<Rightarrow> bind_r (exit_proc pol w) (\<lambda>t. Inr (Exited, u, t))
     | Some c \<Rightarrow>
       if killed (pc w c) then bind_r (exit_proc pol w) (\<lambda>t. Inr (Exited, u, t))
       else bind_r (syscall ks pol dt c ticks0 u (upd_proc c (\<lambda>x. x\<lparr>tf := tfp\<rparr>) w)) (\<lambda>(e, u1, t).
         case e of
           Ret r \<Rightarrow> if killed (pc t c) then bind_r (exit_proc pol t) (\<lambda>v. Inr (Exited, u1, v)) else Inr (Ret r, u1, t)
         | _ \<Rightarrow> Inr (e, u1, t)))"

section \<open>A call is a run of kernel steps\<close>

text \<open>
  What every handler keeps: if it returns, the kernel has taken steps of \<open>kstep\<close> and the same process runs; if the process
  sleeps or exits, it has done so when the scheduler has the processor again.
\<close>

definition runs :: "ksyms \<Rightarrow> policy \<Rightarrow> devtab \<Rightarrow> nat \<Rightarrow> kworld \<Rightarrow> call_end \<Rightarrow> kworld \<Rightarrow> bool" where
  "runs ks pol dt c w e t \<longleftrightarrow>
    (case e of Ret r \<Rightarrow> (kstep ks pol dt)\<^sup>*\<^sup>* w t \<and> cproc t = Some c
     | _ \<Rightarrow> \<forall>v. sched_return pol c t = Inr v \<longrightarrow> (kstep ks pol dt)\<^sup>*\<^sup>* w v)"

definition handled :: "ksyms \<Rightarrow> policy \<Rightarrow> devtab \<Rightarrow> nat \<Rightarrow> kworld \<Rightarrow> kret \<Rightarrow> bool" where
  "handled ks pol dt c w m \<longleftrightarrow> (case m of Inl _ \<Rightarrow> True | Inr (e, u, t) \<Rightarrow> runs ks pol dt c w e t)"

lemma handled_simps [simp]:
  "handled ks pol dt c w (Inl x)" "handled ks pol dt c w (Inr (e, u, t)) = runs ks pol dt c w e t"
  by (simp_all add: handled_def)

lemma runs_same [simp]: "cproc w = Some c \<Longrightarrow> runs ks pol dt c w (Ret r) w"
  by (simp add: runs_def)

lemma runs_step: "kstep ks pol dt w t \<Longrightarrow> cproc t = Some c \<Longrightarrow> runs ks pol dt c w (Ret r) t"
  by (simp add: runs_def)

lemma runs_switch: "(\<And>v. sched_return pol c t = Inr v \<Longrightarrow> kstep ks pol dt w v) \<Longrightarrow> e = Sleeps \<or> e = Exited \<Longrightarrow> runs ks pol dt c w e t"
  by (auto simp: runs_def)

lemma runs_trans: "(kstep ks pol dt)\<^sup>*\<^sup>* w t \<Longrightarrow> runs ks pol dt c t e u \<Longrightarrow> runs ks pol dt c w e u"
  by (auto simp: runs_def split: call_end.splits)

lemma handled_bind: "(\<And>x. m = Inr x \<Longrightarrow> handled ks pol dt c w (f x)) \<Longrightarrow> handled ks pol dt c w (bind_r m f)"
  by (cases m) simp_all


subsection \<open>The handlers\<close>

lemma sys_fork_handled: "kernel_inv w \<Longrightarrow> cproc w = Some c \<Longrightarrow> handled ks pol dt c w (sys_fork ks pol u w)"
  unfolding sys_fork_def by (rule handled_bind) (auto intro!: runs_step kstep.Fork dest: fork_ok)

lemma sys_exit_handled: "cproc w = Some c \<Longrightarrow> handled ks pol dt c w (sys_exit pol u w)"
  by (auto simp: sys_exit_def intro!: handled_bind runs_switch kstep.Exit)

lemma runs_wait:
  "(\<And>p. r = Some p \<Longrightarrow> kstep ks pol dt w t \<and> cproc t = Some c) \<Longrightarrow> (\<And>v. r = None \<Longrightarrow> sched_return pol c t = Inr v \<Longrightarrow> kstep ks pol dt w v) \<Longrightarrow>
   runs ks pol dt c w (ret_or_sleep r) t"
  by (cases r) (simp_all add: ret_or_sleep_def runs_step runs_switch)

lemma sys_wait_handled:
  assumes "kernel_inv w" "cproc w = Some c"
  shows "handled ks pol dt c w (sys_wait u w)"
  unfolding sys_wait_def
  by (rule handled_bind) (use assms wait_ok[OF assms] in \<open>auto intro!: runs_wait intro: kstep.Wait kstep.WaitSleep\<close>)

lemma sys_waitx_handled:
  assumes "kernel_inv w" "cproc w = Some c"
  shows "handled ks pol dt c w (sys_waitx u w)"
proof -
  have "runs ks pol dt c w (ret_or_sleep r) t" if e: "waitx_round w = Inr (r, x, t)" for r x t
    by (rule runs_wait) (use e assms waitx_ok[OF assms] in \<open>auto intro: kstep.Waitx kstep.WaitxSleep\<close>)
  then show ?thesis using assms(2) by (auto simp: sys_waitx_def intro!: handled_bind split: option.splits)
qed

lemma kill_cproc [simp]: "cproc (snd (kill pd w)) = cproc w"
  by (simp add: kill_def split: option.split)

lemma sys_kill_handled:
  assumes "cproc w = Some c"
  shows "handled ks pol dt c w (sys_kill u w)"
proof -
  have "runs ks pol dt c w (Ret r) t" if "kill pd w = (r, t)" for pd r t
    using runs_step[OF kstep.Kill[of ks pol dt w pd], of c] kill_cproc[of pd w] assms that by simp
  then show ?thesis using assms by (auto simp: sys_kill_def split: option.split prod.split)
qed

lemma quiet_handled:
  assumes "cproc w = Some c"
  shows "handled ks pol dt c w (sys_getpid c u w)" "handled ks pol dt c w (sys_uptime u w)" "handled ks pol dt c w (sys_getpinfo u w)"
  using assms by (auto simp: sys_getpid_def sys_uptime_def sys_getpinfo_def intro!: handled_bind split: option.splits)

lemma sys_sbrk_handled:
  assumes "kernel_inv w" "cproc w = Some c"
  shows "handled ks pol dt c w (sys_sbrk c u w)"
proof -
  have l: "length (procs w) = NPROC" by (rule tree_invD(1)[OF kernel_invD(1)[OF assms(1)]])
  have "kstep ks pol dt w t" "cproc t = Some c" if "growproc n w = Inr (r, t)" for n r t
    using kstep.Grow[OF assms(2) that] fstepD(4)[OF growproc_ok[OF assms that] l] assms(2) by simp_all
  then show ?thesis using assms(2) by (auto simp: sys_sbrk_def intro!: handled_bind runs_step split: option.split)
qed

lemma sys_sleep_handled: "cproc w = Some c \<Longrightarrow> handled ks pol dt c w (sys_sleep c ticks0 u w)"
  by (auto simp: sys_sleep_def intro!: handled_bind runs_switch intro: kstep.Sleep split: option.split)

lemma sys_set_priority_handled: "cproc w = Some c \<Longrightarrow> handled ks pol dt c w (sys_set_priority u w)"
  by (auto simp: sys_set_priority_def set_prio_def intro!: handled_bind runs_step intro: kstep.Prio split: option.split if_splits)

lemma file_call_handled:
  assumes "kernel_inv w" "cproc w = Some c" "f \<in> file_calls dt"
  shows "handled ks pol dt c w (file_call f pol c u w)"
proof -
  note K = kernel_invD[OF assms(1)]
  have "runs ks pol dt c w (Ret r) t" if "f u (load_proc c w) = Inr (r, u', s)" "store_proc pol c s w = Inr t" for r u' s t
    using runs_step[OF kstep.Files[OF assms(2,3) that]] store_proc_frame(2)[OF that(2) cur_okD(1)[OF K(2)]] assms(2) by (simp add: typed_def)
  then show ?thesis by (auto simp: file_call_def intro!: handled_bind)
qed

lemma exec_call_handled:
  assumes "kernel_inv w" "cproc w = Some c"
  shows "handled ks pol dt c w (exec_call ks dt c u w)"
proof -
  have l: "length (procs w) = NPROC" by (rule tree_invD(1)[OF kernel_invD(1)[OF assms(1)]])
  have "kstep ks pol dt w t" "cproc t = Some c" if "exec ks dt path argv w = Inr (r, t)" for path argv r t
    using kstep.Exec[OF assms(2) that] fstepD(4)[OF exec_ok[OF assms that] l] assms(2) by simp_all
  then show ?thesis using assms(2) by (auto simp: exec_call_def intro!: handled_bind runs_step split: option.split)
qed

lemmas handlers_inv = sys_fork_handled sys_wait_handled sys_waitx_handled sys_sbrk_handled file_call_handled exec_call_handled

lemmas handlers_cur = sys_exit_handled sys_kill_handled quiet_handled sys_sleep_handled sys_set_priority_handled

lemma syscalls_handled:
  assumes "kernel_inv w" "cproc w = Some c" "f \<in> set (syscalls ks pol dt c ticks0)"
  shows "handled ks pol dt c w (f u w)"
  using assms(3) handlers_inv[OF assms(1,2)] handlers_cur[OF assms(2)] by (auto simp: syscalls_def file_calls_def)

subsection \<open>Dispatch\<close>

lemma syscalls_length: "length (syscalls ks pol dt c ticks0) = 24"
  by (simp add: syscalls_def)

lemma syscall_handled:
  assumes "kernel_inv w" "cproc w = Some c"
  shows "handled ks pol dt c w (syscall ks pol dt c ticks0 u w)"
proof -
  define num where "num = sint (get32 (ram (kmem_of w)) (tf (pc w c) + 28))"
  have h: "handled ks pol dt c w ((syscalls ks pol dt c ticks0 ! nat (num - 1)) u w)" if "num > 0 \<and> num < 25"
    by (rule syscalls_handled[OF assms], rule nth_mem) (use that in \<open>auto simp: syscalls_length nat_less_iff\<close>)
  have "runs ks pol dt c w (Ret r) (put_eax c r t)" if "runs ks pol dt c w (Ret r) t" for r t
    using that by (auto simp: runs_def put_eax_def intro: rtranclp.rtrancl_into_rtrancl kstep.Ram)
  then have k: "handled ks pol dt c w (case x of (e, u1, t) \<Rightarrow> case e of Ret r \<Rightarrow> Inr (Ret r, u1, put_eax c r t) | _ \<Rightarrow> Inr (e, u1, t))"
    if "handled ks pol dt c w (Inr x)" for x
    using that by (cases x) (auto split: call_end.split)
  show ?thesis unfolding syscall_def Let_def num_def[symmetric]
    by (rule handled_bind, rule k) (use h assms in \<open>auto split: if_splits\<close>)
qed

lemma syscall_eax:
  assumes "syscall ks pol dt c ticks0 u w = Inr (Ret r, u1, t)"
  shows "get32 (ram (kmem_of t)) (tf (pc t c) + 28) = of_int r"
proof -
  obtain e0 u0 t0 where "(case e0 of Ret x \<Rightarrow> Inr (Ret x, u0, put_eax c x t0) | _ \<Rightarrow> Inr (e0, u0, t0)) = (Inr (Ret r, u1, t) :: kret)"
    using assms unfolding syscall_def Let_def bind_r_eq_Inr by (metis (no_types, lifting) case_prod_beta)
  then have "t = put_eax c r t0" by (cases e0) simp_all
  then show ?thesis by (simp add: put_eax_def set_ram_def kmem_of_def set_kmem_def)
qed

lemma exit_runs: "cproc w = Some c \<Longrightarrow> exit_proc pol w = Inr t \<Longrightarrow> runs ks pol dt c w Exited t"
  by (rule runs_switch) (auto intro: kstep.Exit)

lemma trap_syscall_runs:
  assumes "kernel_inv w" "cproc w = Some c" "trap_syscall ks pol dt tfp ticks0 u w = Inr (e, u1, t)"
  shows "runs ks pol dt c w e t \<and> (\<forall>r. e = Ret r \<longrightarrow> \<not> killed (pc t c) \<and> get32 (ram (kmem_of t)) (tf (pc t c) + 28) = of_int r)"
proof (cases "killed (pc w c)")
  case True
  then show ?thesis using assms exit_runs[OF assms(2)] by (auto simp: trap_syscall_def bind_r_eq_Inr)
next
  case False
  define w1 where "w1 = upd_proc c (\<lambda>x. x\<lparr>tf := tfp\<rparr>) w"
  have k: "kstep ks pol dt w w1" unfolding w1_def by (rule kstep.Frame[OF assms(2)])
  have w1: "kernel_inv w1" "cproc w1 = Some c" using kstep_inv[OF k assms(1)] assms(2) by (simp_all add: w1_def)
  obtain e1 u2 t1 where s: "syscall ks pol dt c ticks0 u w1 = Inr (e1, u2, t1)"
    using assms(2,3) False by (auto simp: trap_syscall_def bind_r_eq_Inr w1_def)
  have r: "runs ks pol dt c w e1 t1"
    using runs_trans[of ks pol dt w w1 c e1 t1] rtranclp.rtrancl_into_rtrancl[OF rtranclp.rtrancl_refl, of "kstep ks pol dt" w w1] k syscall_handled[OF w1, of ks pol dt ticks0 u] s by simp
  show ?thesis
  proof (cases "\<exists>r. e1 = Ret r \<and> killed (pc t1 c)")
    case True
    then obtain x where x: "e1 = Ret x" "killed (pc t1 c)" by blast
    have "exit_proc pol t1 = Inr t" "e = Exited" using assms(2,3) False s x by (auto simp: trap_syscall_def bind_r_eq_Inr w1_def)
    moreover have "(kstep ks pol dt)\<^sup>*\<^sup>* w t1" "cproc t1 = Some c" using r x(1) by (simp_all add: runs_def)
    ultimately show ?thesis using exit_runs runs_trans by blast
  next
    case no: False
    then have "e = e1" "t = t1" using assms(2,3) False s by (auto simp: trap_syscall_def bind_r_eq_Inr w1_def split: call_end.splits)
    then show ?thesis using r no syscall_eax s by blast
  qed
qed


text \<open>The shell of \<open>demo_world\<close> calls \<open>getpid\<close>, number 11.\<close>

definition demo_trap :: kworld where
  "demo_trap = set_ram (put32 (\<lambda>_. 0) 0x80001FD8 11) demo_world"

lemma demo_trap_eval:
  "\<exists>u1 t. trap_syscall demo_syms DEFAULT (\<lambda>_. \<lparr>dread = None, dwrite = None\<rparr>) 0x80001FBC 5 \<lparr>umem = (\<lambda>_. 0), usz = 0, uesp = 0\<rparr> demo_trap = Inr (Ret 2, u1, t)"
proof -
  have p: "pc demo_trap 1 = demo_proc\<lparr>state := RUNNING, pid := 2, parent := Some 0, cwd := Some 0\<rparr>" "cproc demo_trap = Some 1" "length (procs demo_trap) = NPROC"
    "ram (kmem_of demo_trap) = put32 (\<lambda>_. 0) 0x80001FD8 11"
    by (simp_all add: demo_trap_def demo_pc NPROC_def kmem_of_def set_ram_def set_kmem_def)
  have "ram (kmem_of (upd_proc 1 f demo_trap)) = ram (kmem_of demo_trap)" for f by (simp add: kmem_of_def)
  then show ?thesis using p
    by (simp add: trap_syscall_def syscall_def Let_def syscalls_def sys_getpid_def put_eax_def demo_proc_def NPROC_def)
qed


end
