(* ===== verification/Sh.thy ===== *)
theory Sh
  imports Prelude "HOL-Library.Sublist"
begin

text \<open>
  The shell (\<open>sh.c\<close>): scanner, recursive-descent parser, the NUL termination of the words in the line buffer, and the
  system calls by which a parsed command is run. The line is the list of its bytes before the NUL; a pointer into it is
  an offset, and the scanner's \<open>*ps\<close> is the rest of the line. The four mutually recursive parsers take fuel; the theory
  shows that the fuel that \<open>parsecmd\<close> gives is always enough.
\<close>

section \<open>Scanner\<close>

definition NUL :: char where "NUL = CHR 0x00"

definition whitespace :: string where "whitespace = [CHR 0x20, CHR 0x09, CHR 0x0D, CHR 0x0A, CHR 0x0B]"

definition symbols :: string where "symbols = ''<|>&;()''"

definition wordchar :: "char \<Rightarrow> bool" where
  "wordchar c \<longleftrightarrow> c \<notin> set whitespace \<and> c \<notin> set symbols"

definition skipws :: "string \<Rightarrow> string" where
  "skipws s = dropWhile (\<lambda>c. c \<in> set whitespace) s"

text \<open>The token kinds: the return values 0, a symbol, \<open>'+'\<close> for \<open>>>\<close>, and \<open>'a'\<close> for a word.\<close>

datatype tok = TEnd | TSym char | TAppend | TWord

text \<open>A token with the rest at its start and at its end (\<open>*q\<close> and \<open>*eq\<close>), and the new \<open>*ps\<close>.\<close>

definition gettoken :: "string \<Rightarrow> tok \<times> string \<times> string \<times> string" where
  "gettoken ps =
    (let s = skipws ps in
     case s of
       [] \<Rightarrow> (TEnd, s, s, skipws s)
     | c # cs \<Rightarrow>
         if c \<in> set ''|();&<'' then (TSym c, s, cs, skipws cs)
         else if c = CHR ''>'' then
           (case cs of d # ds \<Rightarrow> if d = CHR ''>'' then (TAppend, s, ds, skipws ds) else (TSym c, s, cs, skipws cs)
            | [] \<Rightarrow> (TSym c, s, cs, skipws cs))
         else let e = dropWhile wordchar s in (TWord, s, e, skipws e))"

definition peek :: "string \<Rightarrow> string \<Rightarrow> bool \<times> string" where
  "peek toks ps = (let s = skipws ps in (s \<noteq> [] \<and> hd s \<in> set toks, s))"

section \<open>Commands\<close>

text \<open>A word is a pair of offsets into the line (\<open>argv[i]\<close>, \<open>eargv[i]\<close>).\<close>

type_synonym shword = "nat \<times> nat"

datatype cmd = EXEC "shword list" | REDIR cmd shword int int | PIPE cmd cmd | LIST cmd cmd | BACK cmd

definition O_RDONLY :: int where "O_RDONLY = 0"
definition O_WRCREATE :: int where "O_WRCREATE = 0x201"
definition MAXARGS :: nat where "MAXARGS = 10"

definition at :: "nat \<Rightarrow> string \<Rightarrow> nat" where "at n rest = n - length rest"

text \<open>
  The redirections that \<open>parseredirs\<close> wraps around a command, innermost first. The command itself may still be filled in
  afterwards through \<open>parseexec\<close>'s own pointer, so the wrapping is done when it is complete.
\<close>

type_synonym redir = "shword \<times> int \<times> int"

definition wrap :: "redir list \<Rightarrow> cmd \<Rightarrow> cmd" where
  "wrap rs c = foldl (\<lambda>c (w, mode, fd). REDIR c w mode fd) c rs"

lemma skipws_le: "length (skipws s) \<le> length s"
  by (simp add: skipws_def length_dropWhile_le)

lemma skipws_Nil [simp]: "skipws [] = []"
  by (simp add: skipws_def)

lemma skipws_idem [simp]: "skipws (skipws s) = skipws s"
  by (simp add: skipws_def dropWhile_idem)

lemma dropWhile_word_less: "wordchar c \<Longrightarrow> length (dropWhile wordchar (c # cs)) < length (c # cs)"
  using length_dropWhile_le[of wordchar cs] by (simp add: le_imp_less_Suc)

lemma skipws_hd: "skipws s = c # cs \<Longrightarrow> c \<notin> set whitespace"
  using hd_dropWhile[of "\<lambda>c. c \<in> set whitespace" s] by (auto simp: skipws_def)

lemma gettoken_less:
  assumes "gettoken ps = (t, q, eq, rest)" "t \<noteq> TEnd"
  shows "length rest < length ps"
proof -
  define s where "s = skipws ps"
  have l: "length s \<le> length ps" by (simp add: s_def skipws_le)
  show ?thesis
  proof (cases s)
    case Nil
    then show ?thesis using assms by (simp add: gettoken_def s_def[symmetric])
  next
    case (Cons c cs)
    have lt: "length (skipws x) < length ps" if "length x < length s" for x using that l skipws_le[of x] by simp
    consider "c \<in> set ''|();&<''" | "c = CHR ''>''" | "c \<notin> set ''|();&<''" "c \<noteq> CHR ''>''" by blast
    then show ?thesis
    proof cases
      case 1
      then show ?thesis using assms Cons lt[of cs] by (auto simp: gettoken_def s_def[symmetric])
    next
      case 2
      have "length (tl cs) < length s" using Cons by (simp add: less_Suc_eq_le)
      then show ?thesis using 2 assms Cons lt[of cs] lt[of "tl cs"]
        by (auto simp: gettoken_def s_def[symmetric] Let_def split: list.splits if_splits)
    next
      case 3
      have "wordchar c" using skipws_hd[of ps c cs] Cons 3 by (auto simp: wordchar_def s_def symbols_def)
      then show ?thesis using assms Cons 3 lt[OF dropWhile_word_less[of c cs, folded Cons]]
        by (auto simp: gettoken_def s_def[symmetric] Let_def)
    qed
  qed
qed

lemma gettoken_le: "gettoken ps = (t, q, eq, rest) \<Longrightarrow> length rest \<le> length ps"
proof (cases "t = TEnd")
  case True
  moreover assume a: "gettoken ps = (t, q, eq, rest)"
  ultimately have "rest = []"
    by (auto simp: gettoken_def Let_def skipws_def split: list.splits if_splits)
  then show ?thesis by simp
qed (use gettoken_less in \<open>fastforce\<close>)

lemma peek_le: "peek toks ps = (b, s) \<Longrightarrow> length s \<le> length ps"
  by (auto simp: peek_def skipws_le Let_def)

text \<open>After a successful \<open>peek\<close> there is a token to take.\<close>

lemma gettoken_progress:
  assumes "peek toks ps = (True, s)" "gettoken s = (t, q, eq, rest)"
  shows "length rest < length ps"
proof -
  have s: "s = skipws ps" "s \<noteq> []" using assms(1) by (auto simp: peek_def Let_def)
  then have "skipws s \<noteq> []" by simp
  then have "t \<noteq> TEnd" using assms(2) by (auto simp: gettoken_def Let_def split: list.splits if_splits)
  then show ?thesis using gettoken_less[OF assms(2)] s(1) skipws_le[of ps] by simp
qed

lemma redir_progress:
  "peek toks ps = (True, s) \<Longrightarrow> gettoken s = (t, q, eq, s1) \<Longrightarrow> gettoken s1 = (w, q', eq', s2) \<Longrightarrow> length s2 < length ps"
  using gettoken_progress[of toks ps s t q eq s1] gettoken_le[of s1 w q' eq' s2] by simp

section \<open>Parser\<close>

function parseredirs :: "nat \<Rightarrow> string \<Rightarrow> (redir list \<times> string) result" where
  "parseredirs n ps =
    (case peek ''<>'' ps of
       (False, s) \<Rightarrow> Inr ([], s)
     | (True, s) \<Rightarrow>
       (case gettoken s of (t, _, _, s1) \<Rightarrow>
        case gettoken s1 of (w, q, eq, s2) \<Rightarrow>
          if w \<noteq> TWord then Inl (Panic ''missing file for redirection'')
          else bind_r (parseredirs n s2) (\<lambda>(rs, s3).
            Inr ((if t = TSym (CHR ''<'') then ((at n q, at n eq), O_RDONLY, 0) else ((at n q, at n eq), O_WRCREATE, 1)) # rs, s3))))"
  by pat_completeness auto
termination by (relation "measure (\<lambda>(n, ps). length ps)") (simp_all, metis redir_progress)

declare parseredirs.simps [simp del]

text \<open>The loop of \<open>parseexec\<close>: the words with \<open>argc\<close> of them read, and the redirections between them.\<close>

function parseargs :: "nat \<Rightarrow> nat \<Rightarrow> string \<Rightarrow> (shword list \<times> redir list \<times> string) result" where
  "parseargs n argc ps =
    (case peek ''|)&;'' ps of
       (True, s) \<Rightarrow> Inr ([], [], s)
     | (False, s) \<Rightarrow>
       (case gettoken s of (t, q, eq, s1) \<Rightarrow>
          if t = TEnd then Inr ([], [], s1)
          else if t \<noteq> TWord then Inl (Panic ''syntax'')
          else if argc + 1 \<ge> MAXARGS then Inl (Panic ''too many args'')
          else bind_r (parseredirs n s1) (\<lambda>(rs, s2).
            bind_r (parseargs n (argc + 1) s2) (\<lambda>(ws, rs2, s3). Inr ((at n q, at n eq) # ws, rs @ rs2, s3)))))"
  by pat_completeness auto
termination by (relation "measure (\<lambda>(n, argc, ps). MAXARGS - argc)") auto

declare parseargs.simps [simp del]

text \<open>The loop of \<open>parseline\<close> over \<open>&\<close>.\<close>

function parseback :: "cmd \<Rightarrow> string \<Rightarrow> cmd \<times> string" where
  "parseback c ps =
    (case peek ''&'' ps of
       (False, s) \<Rightarrow> (c, s)
     | (True, s) \<Rightarrow> (case gettoken s of (_, _, _, s1) \<Rightarrow> parseback (BACK c) s1))"
  by pat_completeness auto
termination by (relation "measure (\<lambda>(c, ps). length ps)") (simp_all, metis gettoken_progress)

declare parseback.simps [simp del]

fun parseline :: "nat \<Rightarrow> nat \<Rightarrow> string \<Rightarrow> (cmd \<times> string) result"
and parsepipe :: "nat \<Rightarrow> nat \<Rightarrow> string \<Rightarrow> (cmd \<times> string) result"
and parseexec :: "nat \<Rightarrow> nat \<Rightarrow> string \<Rightarrow> (cmd \<times> string) result"
and parseblock :: "nat \<Rightarrow> nat \<Rightarrow> string \<Rightarrow> (cmd \<times> string) result" where
  "parseline 0 n ps = Inl (Diverges ''parse'')"
| "parseline (Suc k) n ps =
    bind_r (parsepipe k n ps) (\<lambda>(c, s).
      case parseback c s of (c1, s1) \<Rightarrow>
      (case peek '';'' s1 of
         (False, s2) \<Rightarrow> Inr (c1, s2)
       | (True, s2) \<Rightarrow> (case gettoken s2 of (_, _, _, s3) \<Rightarrow> bind_r (parseline k n s3) (\<lambda>(c2, s4). Inr (LIST c1 c2, s4)))))"
| "parsepipe 0 n ps = Inl (Diverges ''parse'')"
| "parsepipe (Suc k) n ps =
    bind_r (parseexec k n ps) (\<lambda>(c, s).
      case peek ''|'' s of
        (False, s1) \<Rightarrow> Inr (c, s1)
      | (True, s1) \<Rightarrow> (case gettoken s1 of (_, _, _, s2) \<Rightarrow> bind_r (parsepipe k n s2) (\<lambda>(c2, s3). Inr (PIPE c c2, s3))))"
| "parseexec 0 n ps = Inl (Diverges ''parse'')"
| "parseexec (Suc k) n ps =
    (case peek ''('' ps of
       (True, s) \<Rightarrow> parseblock k n s
     | (False, s) \<Rightarrow>
         bind_r (parseredirs n s) (\<lambda>(rs, s1).
           bind_r (parseargs n 0 s1) (\<lambda>(ws, rs2, s2). Inr (wrap (rs @ rs2) (EXEC ws), s2))))"
| "parseblock 0 n ps = Inl (Diverges ''parse'')"
| "parseblock (Suc k) n ps =
    (case peek ''('' ps of
       (False, s) \<Rightarrow> Inl (Panic ''parseblock'')
     | (True, s) \<Rightarrow>
       (case gettoken s of (_, _, _, s1) \<Rightarrow>
          bind_r (parseline k n s1) (\<lambda>(c, s2).
            case peek '')'' s2 of
              (False, s3) \<Rightarrow> Inl (Panic ''syntax - missing )'')
            | (True, s3) \<Rightarrow>
              (case gettoken s3 of (_, _, _, s4) \<Rightarrow> bind_r (parseredirs n s4) (\<lambda>(rs, s5). Inr (wrap rs c, s5))))))"

text \<open>\<open>nulterminate\<close> on the buffer, which has the line and its NUL.\<close>

fun nulterminate :: "cmd \<Rightarrow> string \<Rightarrow> string" where
  "nulterminate (EXEC ws) buf = fold (\<lambda>(q, eq) b. b[eq := NUL]) ws buf"
| "nulterminate (REDIR c w mode fd) buf = (nulterminate c buf)[snd w := NUL]"
| "nulterminate (PIPE l r) buf = nulterminate r (nulterminate l buf)"
| "nulterminate (LIST l r) buf = nulterminate r (nulterminate l buf)"
| "nulterminate (BACK c) buf = nulterminate c buf"

definition parsecmd :: "string \<Rightarrow> (cmd \<times> string) result" where
  "parsecmd line =
    bind_r (parseline (4 * length line + 4) (length line) line) (\<lambda>(c, s).
      case peek [] s of (_, s1) \<Rightarrow>
        if s1 \<noteq> [] then Inl (Panic ''syntax'') else Inr (c, nulterminate c (line @ [NUL])))"

section \<open>Running a command\<close>

text \<open>
  The system calls of \<open>runcmd\<close> in order, for the calls that succeed; a failed \<open>open\<close> ends the process, a successful
  \<open>exec\<close> replaces it. \<open>ADupPipe\<close> and \<open>AClosePipe\<close> refer to the ends \<open>p[0]\<close> and \<open>p[1]\<close> of the pipe just made.
\<close>

datatype sysact = AClose int | AOpenOrExit shword int | AExec "shword list" | APipe | ADupPipe nat | AClosePipe nat | AFork "sysact list" | AWait | AExit

fun runcmd :: "cmd \<Rightarrow> sysact list" where
  "runcmd (EXEC ws) = (if ws = [] then [AExit] else [AExec ws, AExit])"
| "runcmd (REDIR c w mode fd) = [AClose fd, AOpenOrExit w mode] @ runcmd c"
| "runcmd (LIST l r) = [AFork (runcmd l), AWait] @ runcmd r"
| "runcmd (PIPE l r) =
    [APipe, AFork ([AClose 1, ADupPipe 1, AClosePipe 0, AClosePipe 1] @ runcmd l),
     AFork ([AClose 0, ADupPipe 0, AClosePipe 0, AClosePipe 1] @ runcmd r), AClosePipe 0, AClosePipe 1, AWait, AWait, AExit]"
| "runcmd (BACK c) = [AFork (runcmd c), AExit]"

section \<open>Termination\<close>

lemma parseredirs_le: "parseredirs n ps = Inr (rs, s) \<Longrightarrow> length s \<le> length ps"
proof (induction n ps arbitrary: rs s rule: parseredirs.induct)
  case (1 n ps)
  obtain b s0 where p: "peek ''<>'' ps = (b, s0)" by fastforce
  show ?case
  proof (cases b)
    case False
    then show ?thesis using 1(2) p peek_le[of "''<>''" ps] by (subst (asm) parseredirs.simps) auto
  next
    case True
    obtain t q eq s1 where g1: "gettoken s0 = (t, q, eq, s1)" by (metis prod_cases4)
    obtain w q' eq' s2 where g2: "gettoken s1 = (w, q', eq', s2)" by (metis prod_cases4)
    from 1(2) obtain rs' s3 where "w = TWord" "parseredirs n s2 = Inr (rs', s)"
      by (subst (asm) parseredirs.simps) (auto simp: p True g1 g2 bind_r_eq_Inr split: if_splits)
    then have "length s \<le> length s2" using 1(1) p True g1 g2 by fastforce
    then show ?thesis using redir_progress[of "''<>''" ps s0 t q eq s1 w q' eq' s2] p True g1 g2 by simp
  qed
qed

text \<open>The errors that a line can have, and a parser result that leaves at most \<open>k\<close> bytes.\<close>

definition sh_err :: "error \<Rightarrow> bool" where
  "sh_err e \<longleftrightarrow> e \<in> Panic ` {''syntax'', ''missing file for redirection'', ''syntax - missing )'', ''too many args''}"

definition leaves :: "('a \<Rightarrow> string) \<Rightarrow> nat \<Rightarrow> 'a result \<Rightarrow> bool" where
  "leaves p k r \<longleftrightarrow> (case r of Inl e \<Rightarrow> sh_err e | Inr x \<Rightarrow> length (p x) \<le> k)"

lemma leaves_simps [simp]: "leaves p k (Inl e) \<longleftrightarrow> sh_err e" "leaves p k (Inr x) \<longleftrightarrow> length (p x) \<le> k"
  by (simp_all add: leaves_def)

lemma leaves_bind: "leaves p k m \<Longrightarrow> (\<And>x. length (p x) \<le> k \<Longrightarrow> leaves q j (f x)) \<Longrightarrow> leaves q j (bind_r m f)"
  by (cases m) auto

lemma leaves_mono: "leaves p k m \<Longrightarrow> k \<le> j \<Longrightarrow> leaves p j m"
  by (cases m) auto

lemma sh_err_simps [simp]: "sh_err (Panic ''syntax'')" "sh_err (Panic ''missing file for redirection'')" "sh_err (Panic ''syntax - missing )'')"
  "sh_err (Panic ''too many args'')"
  by (simp_all add: sh_err_def)

lemma parseredirs_leaves: "leaves snd (length ps) (parseredirs n ps)"
proof (induction n ps rule: parseredirs.induct)
  case (1 n ps)
  obtain b s0 where p: "peek ''<>'' ps = (b, s0)" by fastforce
  show ?case
  proof (cases b)
    case False
    then show ?thesis using p peek_le[of "''<>''" ps] by (subst parseredirs.simps) simp
  next
    case True
    obtain t q eq s1 where g1: "gettoken s0 = (t, q, eq, s1)" by (metis prod_cases4)
    obtain w q' eq' s2 where g2: "gettoken s1 = (w, q', eq', s2)" by (metis prod_cases4)
    have l: "length s2 < length ps" using redir_progress[of "''<>''" ps s0 t q eq s1 w q' eq' s2] p True g1 g2 by simp
    show ?thesis
    proof (cases "w = TWord")
      case w: True
      have "leaves snd (length ps) (parseredirs n s2)"
        by (rule leaves_mono[where k = "length s2"]) (use 1 p True g1 g2 w l in \<open>auto simp: eq_commute\<close>)
      then have "leaves snd (length ps) (bind_r (parseredirs n s2) (\<lambda>(rs, s3). Inr (f rs, s3)))" for f :: "redir list \<Rightarrow> redir list"
        by (rule leaves_bind) auto
      then show ?thesis by (subst parseredirs.simps) (simp add: p True g1 g2 w)
    qed (subst parseredirs.simps, simp add: p True g1 g2)
  qed
qed

lemma parseargs_leaves: "leaves (\<lambda>x. snd (snd x)) (length ps) (parseargs n argc ps)"
proof (induction n argc ps rule: parseargs.induct)
  case (1 n argc ps)
  obtain b s where p: "peek ''|)&;'' ps = (b, s)" by fastforce
  obtain t q eq s1 where g: "gettoken s = (t, q, eq, s1)" by (metis prod_cases4)
  have l: "length s \<le> length ps" "length s1 \<le> length ps" using peek_le[OF p] gettoken_le[OF g] by auto
  show ?case
  proof (cases "b \<or> t = TEnd \<or> t \<noteq> TWord \<or> argc + 1 \<ge> MAXARGS")
    case True
    then show ?thesis using l by (subst parseargs.simps) (auto simp: p g split: bool.splits)
  next
    case False
    have IH: "leaves (\<lambda>x. snd (snd x)) (length s2) (parseargs n (argc + 1) s2)" if "parseredirs n s1 = Inr (rs, s2)" for rs s2
      using 1 p g False that by fastforce
    have "leaves (\<lambda>x. snd (snd x)) (length ps) (bind_r (parseredirs n s1) (\<lambda>(rs, s2).
            bind_r (parseargs n (argc + 1) s2) (\<lambda>(ws, rs2, s3). Inr ((at n q, at n eq) # ws, rs @ rs2, s3))))"
    proof (cases "parseredirs n s1")
      case (Inl e)
      then show ?thesis using parseredirs_leaves[of s1 n] by simp
    next
      case (Inr x)
      obtain rs s2 where x: "x = (rs, s2)" by fastforce
      have "length s2 \<le> length ps" using parseredirs_le[of n s1 rs s2] Inr x l by simp
      then have "leaves (\<lambda>x. snd (snd x)) (length ps) (parseargs n (argc + 1) s2)" using leaves_mono[OF IH] Inr x by blast
      then show ?thesis unfolding Inr x by (simp, intro leaves_bind) auto
    qed
    then show ?thesis using False by (subst parseargs.simps) (simp add: p g)
  qed
qed

lemma parseback_le: "parseback c ps = (c', s) \<Longrightarrow> length s \<le> length ps"
proof (induction c ps rule: parseback.induct)
  case (1 c ps)
  obtain b s0 where p: "peek ''&'' ps = (b, s0)" by fastforce
  obtain t q eq s1 where g: "gettoken s0 = (t, q, eq, s1)" by (metis prod_cases4)
  show ?case
  proof (cases b)
    case False
    then show ?thesis using 1(2) p peek_le[OF p] by (subst (asm) parseback.simps) simp
  next
    case True
    then have "parseback (BACK c) s1 = (c', s)" using 1(2) p g by (subst (asm) parseback.simps) simp
    moreover have "length s1 < length ps" using gettoken_progress[of "''&''" ps s0 t q eq s1] p g True by simp
    moreover have "length s \<le> length s1" using 1(1) p g True calculation(1) by fastforce
    ultimately show ?thesis by simp
  qed
qed

lemma parse_leaves:
  "(4 * length ps + 4 \<le> k \<longrightarrow> leaves snd (length ps) (parseline k n ps)) \<and>
   (4 * length ps + 3 \<le> k \<longrightarrow> leaves snd (length ps) (parsepipe k n ps)) \<and>
   (4 * length ps + 2 \<le> k \<longrightarrow> leaves snd (length ps) (parseexec k n ps)) \<and>
   (4 * length ps + 1 \<le> k \<longrightarrow> fst (peek ''('' ps) \<longrightarrow> leaves snd (length ps) (parseblock k n ps))"
proof (induction k arbitrary: ps)
  case (Suc k)
  note line = Suc.IH[THEN conjunct1, rule_format] note pipe = Suc.IH[THEN conjunct2, THEN conjunct1, rule_format]
  note exec = Suc.IH[THEN conjunct2, THEN conjunct2, THEN conjunct1, rule_format] note block = Suc.IH[THEN conjunct2, THEN conjunct2, THEN conjunct2, rule_format]
  show ?case
  proof (intro conjI impI)
    assume k: "4 * length ps + 4 \<le> Suc k"
    have "leaves snd (length ps) (case parseback c s of (c1, s1) \<Rightarrow>
      (case peek '';'' s1 of (False, s2) \<Rightarrow> Inr (c1, s2)
       | (True, s2) \<Rightarrow> (case gettoken s2 of (_, _, _, s3) \<Rightarrow> bind_r (parseline k n s3) (\<lambda>(c2, s4). Inr (LIST c1 c2, s4)))))"
      if "length s \<le> length ps" for c s
    proof -
      obtain c1 s1 b s2 t q eq s3 where e: "parseback c s = (c1, s1)" "peek '';'' s1 = (b, s2)" "gettoken s2 = (t, q, eq, s3)" by (metis prod_cases4 surj_pair)
      have l: "length s2 \<le> length ps" using parseback_le[OF e(1)] peek_le[OF e(2)] that by simp
      show ?thesis
      proof (cases b)
        case True
        then have "length s3 < length ps" using gettoken_progress[of "'';''" s1 s2 t q eq s3] e parseback_le[OF e(1)] that by simp
        then have "leaves snd (length ps) (parseline k n s3)" using leaves_mono[OF line[of s3]] k by simp
        then show ?thesis using e True by (simp, intro leaves_bind) auto
      qed (use e l in simp)
    qed
    then show "leaves snd (length ps) (parseline (Suc k) n ps)"
      unfolding parseline.simps using pipe[of ps] k by (intro leaves_bind[where p = snd and k = "length ps"]) (simp, fastforce)
  next
    assume k: "4 * length ps + 3 \<le> Suc k"
    have "leaves snd (length ps) (case peek ''|'' s of (False, s1) \<Rightarrow> Inr (c, s1)
      | (True, s1) \<Rightarrow> (case gettoken s1 of (_, _, _, s2) \<Rightarrow> bind_r (parsepipe k n s2) (\<lambda>(c2, s3). Inr (PIPE c c2, s3))))"
      if "length s \<le> length ps" for c s
    proof -
      obtain b s1 t q eq s2 where e: "peek ''|'' s = (b, s1)" "gettoken s1 = (t, q, eq, s2)" by (metis prod_cases4 surj_pair)
      show ?thesis
      proof (cases b)
        case True
        then have "length s2 < length ps" using gettoken_progress[of "''|''" s s1 t q eq s2] e that by simp
        then have "leaves snd (length ps) (parsepipe k n s2)" using leaves_mono[OF pipe[of s2]] k by simp
        then show ?thesis using e True by (simp, intro leaves_bind) auto
      qed (use e peek_le[OF e(1)] that in simp)
    qed
    then show "leaves snd (length ps) (parsepipe (Suc k) n ps)"
      unfolding parsepipe.simps using exec[of ps] k by (intro leaves_bind[where p = snd and k = "length ps"]) (simp, fastforce)
  next
    assume k: "4 * length ps + 2 \<le> Suc k"
    obtain b s where e: "peek ''('' ps = (b, s)" by fastforce
    have l: "length s \<le> length ps" by (rule peek_le[OF e])
    show "leaves snd (length ps) (parseexec (Suc k) n ps)"
    proof (cases b)
      case True
      have "fst (peek ''('' s)" using e True by (auto simp: peek_def Let_def)
      then have "leaves snd (length ps) (parseblock k n s)" using leaves_mono[OF block[of s]] k l by simp
      then show ?thesis using e True by simp
    next
      case False
      have "leaves snd (length ps) (bind_r (parseredirs n s) (\<lambda>(rs, s1). bind_r (parseargs n 0 s1) (\<lambda>(ws, rs2, s2). Inr (wrap (rs @ rs2) (EXEC ws), s2))))"
      proof (rule leaves_bind[OF leaves_mono[OF parseredirs_leaves l]], clarify)
        fix rs :: "redir list" and s1 :: string
        assume "length (snd (rs, s1)) \<le> length ps"
        then have "leaves (\<lambda>x. snd (snd x)) (length ps) (parseargs n 0 s1)" using leaves_mono[OF parseargs_leaves] by simp
        then show "leaves snd (length ps) (bind_r (parseargs n 0 s1) (\<lambda>(ws, rs2, s2). Inr (wrap (rs @ rs2) (EXEC ws), s2)))" by (rule leaves_bind) auto
      qed
      then show ?thesis using e False by simp
    qed
  next
    assume k: "4 * length ps + 1 \<le> Suc k" and f: "fst (peek ''('' ps)"
    then obtain s where e: "peek ''('' ps = (True, s)" by (cases "peek ''('' ps") auto
    obtain t q eq s1 where g: "gettoken s = (t, q, eq, s1)" by (metis prod_cases4)
    have l: "length s1 < length ps" by (rule gettoken_progress[OF e g])
    have "leaves snd (length ps) (case peek '')'' s2 of (False, s3) \<Rightarrow> Inl (Panic ''syntax - missing )'')
        | (True, s3) \<Rightarrow> (case gettoken s3 of (_, _, _, s4) \<Rightarrow> bind_r (parseredirs n s4) (\<lambda>(rs, s5). Inr (wrap rs c, s5))))"
      if "length s2 \<le> length ps" for c s2
    proof -
      obtain b s3 t q eq s4 where e: "peek '')'' s2 = (b, s3)" "gettoken s3 = (t, q, eq, s4)" by (metis prod_cases4 surj_pair)
      have "length s4 \<le> length ps" using peek_le[OF e(1)] gettoken_le[OF e(2)] that by simp
      then have "leaves snd (length ps) (parseredirs n s4)" by (rule leaves_mono[OF parseredirs_leaves])
      then show ?thesis using e by (cases b; simp) (rule leaves_bind, auto)
    qed
    moreover have "leaves snd (length ps) (parseline k n s1)" using leaves_mono[OF line[of s1]] k l by simp
    ultimately show "leaves snd (length ps) (parseblock (Suc k) n ps)"
      by (simp add: e g) (rule leaves_bind, fastforce+)
  qed
qed simp

text \<open>
  C38: the parser of the shell ends on every line, however deep its parentheses: \<open>parsecmd\<close> returns a command, or
  panics with one of four messages; the check at the head of \<open>parseblock\<close> never fails.
\<close>

theorem parsecmd_total:
  "(\<exists>c buf. parsecmd line = Inr (c, buf)) \<or>
   (\<exists>m. parsecmd line = Inl (Panic m) \<and> m \<in> {''syntax'', ''missing file for redirection'', ''syntax - missing )'', ''too many args''})"
proof -
  have l: "leaves snd (length line) (parseline (4 * length line + 4) (length line) line)"
    using parse_leaves[of line "4 * length line + 4" "length line"] by simp
  show ?thesis
  proof (cases "parseline (4 * length line + 4) (length line) line")
    case (Inl e)
    then show ?thesis using l by (auto simp: parsecmd_def sh_err_def)
  next
    case (Inr x)
    then show ?thesis by (cases x; cases "peek [] (snd x)") (auto simp: parsecmd_def)
  qed
qed

section \<open>The words of the line\<close>

fun words :: "cmd \<Rightarrow> shword set" where
  "words (EXEC ws) = set ws"
| "words (REDIR c w mode fd) = insert w (words c)"
| "words (PIPE l r) = words l \<union> words r"
| "words (LIST l r) = words l \<union> words r"
| "words (BACK c) = words c"

text \<open>A maximal run of word characters.\<close>

definition word_ok :: "string \<Rightarrow> shword \<Rightarrow> bool" where
  "word_ok line w \<longleftrightarrow> (case w of (q, eq) \<Rightarrow> q < eq \<and> eq \<le> length line \<and> (\<forall>i. q \<le> i \<and> i < eq \<longrightarrow> wordchar (line ! i)) \<and>
     (eq < length line \<longrightarrow> \<not> wordchar (line ! eq)))"

lemma suffix_skipws: "suffix s line \<Longrightarrow> suffix (skipws s) line"
  unfolding skipws_def using suffix_dropWhile suffix_order.trans by blast

lemma suffix_ConsD': "suffix (c # cs) line \<Longrightarrow> suffix cs line"
  by (metis suffix_ConsI suffix_def append_Cons append_assoc append_Nil)

lemma word_at:
  assumes "suffix s line" "s = c # cs" "wordchar c"
  shows "word_ok line (at (length line) s, at (length line) (dropWhile wordchar s))"
proof -
  obtain zs where zs: "line = zs @ s" using assms(1) by (auto simp: suffix_def)
  define u where "u = takeWhile wordchar s"
  define v where "v = dropWhile wordchar s"
  have s: "s = u @ v" by (simp add: u_def v_def)
  have u: "u \<noteq> []" "\<And>x. x \<in> set u \<Longrightarrow> wordchar x" using assms(2,3) by (auto simp: u_def dest: set_takeWhileD)
  have v: "v \<noteq> [] \<Longrightarrow> \<not> wordchar (hd v)" using hd_dropWhile[of wordchar s] by (simp add: v_def)
  have "at (length line) s = length zs" "at (length line) v = length zs + length u" by (simp_all add: at_def zs s)
  moreover have "wordchar (line ! i)" if "length zs \<le> i" "i < length zs + length u" for i
  proof -
    have i: "i - length zs < length u" "\<not> i < length zs" using that by linarith+
    then show ?thesis using u(2)[of "u ! (i - length zs)"] by (simp add: zs s nth_append)
  qed
  moreover have "\<not> wordchar (line ! (length zs + length u))" if "length zs + length u < length line"
  proof -
    have "v \<noteq> []" using that by (auto simp: zs s)
    then show ?thesis using v by (simp add: zs s nth_append hd_conv_nth)
  qed
  ultimately show ?thesis using u(1) by (simp add: word_ok_def v_def[symmetric]) (simp add: zs s)
qed

lemma gettoken_word:
  assumes sf: "suffix ps line" and g: "gettoken ps = (t, q, eq, s)"
  shows "suffix s line" "t = TWord \<Longrightarrow> word_ok line (at (length line) q, at (length line) eq)"
proof -
  define r where "r = skipws ps"
  have r: "suffix r line" using suffix_skipws[OF sf] by (simp add: r_def)
  have *: "suffix s line \<and> (t = TWord \<longrightarrow> word_ok line (at (length line) q, at (length line) eq))"
  proof (cases r)
    case Nil
    then have "gettoken ps = (TEnd, [], [], [])" by (simp add: gettoken_def r_def)
    then show ?thesis using g by simp
  next
    case (Cons c cs)
    have cs: "suffix cs line" using r Cons suffix_ConsD'[of c cs line] by simp
    consider "c \<in> set ''|();&<''" | "c = CHR ''>''" | "c \<notin> set ''|();&<''" "c \<noteq> CHR ''>''" by blast
    then show ?thesis
    proof cases
      case 1
      then show ?thesis using g Cons suffix_skipws[OF cs] by (auto simp: gettoken_def r_def[symmetric] Let_def)
    next
      case 2
      have "suffix (tl cs) line" using cs suffix_ConsD' by (cases cs) auto
      then show ?thesis using 2 g Cons suffix_skipws[OF cs] suffix_skipws[of "tl cs" line]
        by (auto simp: gettoken_def r_def[symmetric] Let_def split: list.splits if_splits)
    next
      case 3
      have w: "wordchar c" using skipws_hd[of ps c cs] Cons 3 by (auto simp: wordchar_def r_def symbols_def)
      have "suffix (skipws (dropWhile wordchar r)) line" using r suffix_dropWhile suffix_order.trans suffix_skipws by blast
      then show ?thesis using g Cons 3 word_at[OF r Cons w] by (auto simp: gettoken_def r_def[symmetric] Let_def)
    qed
  qed
  then show "suffix s line" "t = TWord \<Longrightarrow> word_ok line (at (length line) q, at (length line) eq)" by blast+
qed

lemma suffix_peek: "suffix ps line \<Longrightarrow> peek toks ps = (b, s) \<Longrightarrow> suffix s line"
  by (auto simp: peek_def Let_def suffix_skipws)

lemma parseredirs_words:
  "suffix ps line \<Longrightarrow> n = length line \<Longrightarrow> parseredirs n ps = Inr (rs, s) \<Longrightarrow> suffix s line \<and> (\<forall>w \<in> fst ` set rs. word_ok line w)"
proof (induction n ps arbitrary: rs s rule: parseredirs.induct)
  case (1 n ps)
  obtain b s0 where p: "peek ''<>'' ps = (b, s0)" by fastforce
  have s0: "suffix s0 line" by (rule suffix_peek[OF 1(2) p])
  show ?case
  proof (cases b)
    case False
    then show ?thesis using 1(4) p s0 by (subst (asm) parseredirs.simps) auto
  next
    case True
    obtain t q eq s1 where g1: "gettoken s0 = (t, q, eq, s1)" by (metis prod_cases4)
    obtain w q' eq' s2 where g2: "gettoken s1 = (w, q', eq', s2)" by (metis prod_cases4)
    have s1: "suffix s1 line" by (rule gettoken_word(1)[OF s0 g1])
    note w2 = gettoken_word[OF s1 g2]
    from 1(4) obtain rs' where r: "w = TWord" "parseredirs n s2 = Inr (rs', s)" "fst ` set rs = insert (at n q', at n eq') (fst ` set rs')"
      by (subst (asm) parseredirs.simps) (auto simp: p True g1 g2 bind_r_eq_Inr split: if_splits)
    have "suffix s line \<and> (\<forall>w \<in> fst ` set rs'. word_ok line w)" using 1(1) p True g1 g2 r(1,2) w2(1) 1(3) by fastforce
    then show ?thesis using r w2(2) 1(3) by simp
  qed
qed

lemma parseargs_words:
  "suffix ps line \<Longrightarrow> n = length line \<Longrightarrow> parseargs n argc ps = Inr (ws, rs, s) \<Longrightarrow>
   suffix s line \<and> (\<forall>w \<in> set ws. word_ok line w) \<and> (\<forall>w \<in> fst ` set rs. word_ok line w)"
proof (induction "MAXARGS - argc" arbitrary: argc ps ws rs s rule: less_induct)
  case (less argc)
  note 1 = less
  obtain b s0 where p: "peek ''|)&;'' ps = (b, s0)" by fastforce
  obtain t q eq s1 where g: "gettoken s0 = (t, q, eq, s1)" by (metis prod_cases4)
  have s0: "suffix s0 line" by (rule suffix_peek[OF 1(2) p])
  note w1 = gettoken_word[OF s0 g]
  show ?case
  proof (cases "b \<or> t = TEnd")
    case True
    then show ?thesis using 1(4) s0 w1(1) by (subst (asm) parseargs.simps) (auto simp: p g split: bool.splits)
  next
    case False
    from 1(4) False obtain rs1 s2 ws2 rs2 where r: "t = TWord" "argc + 1 < MAXARGS" "parseredirs n s1 = Inr (rs1, s2)" "parseargs n (argc + 1) s2 = Inr (ws2, rs2, s)"
      "ws = (at n q, at n eq) # ws2" "rs = rs1 @ rs2"
      by (subst (asm) parseargs.simps) (auto simp: p g bind_r_eq_Inr not_le split: if_splits)
    have a: "suffix s2 line" "\<forall>w \<in> fst ` set rs1. word_ok line w" using parseredirs_words[OF w1(1) 1(3) r(3)] by auto
    have "suffix s line \<and> (\<forall>w \<in> set ws2. word_ok line w) \<and> (\<forall>w \<in> fst ` set rs2. word_ok line w)"
      by (rule 1(1)[OF _ a(1) 1(3) r(4)]) (use r(2) in simp)
    then show ?thesis using r(1,5,6) a(2) w1(2) 1(3) by (simp add: image_Un ball_Un)
  qed
qed

lemma words_wrap: "words (wrap rs c) = fst ` set rs \<union> words c"
  by (induction rs arbitrary: c) (auto simp: wrap_def)

lemma parseback_words: "suffix ps line \<Longrightarrow> parseback c ps = (c', s) \<Longrightarrow> suffix s line \<and> words c' = words c"
proof (induction "length ps" arbitrary: c ps rule: less_induct)
  case less
  obtain b s0 where p: "peek ''&'' ps = (b, s0)" by fastforce
  obtain t q eq s1 where g: "gettoken s0 = (t, q, eq, s1)" by (metis prod_cases4)
  have s0: "suffix s0 line" by (rule suffix_peek[OF less(2) p])
  show ?case
  proof (cases b)
    case False
    then show ?thesis using less(3) p s0 by (subst (asm) parseback.simps) simp
  next
    case True
    then have e: "parseback (BACK c) s1 = (c', s)" using less(3) p g by (subst (asm) parseback.simps) simp
    have "length s1 < length ps" using gettoken_progress[of "''&''" ps s0 t q eq s1] p g True by simp
    from less(1)[OF this gettoken_word(1)[OF s0 g] e] show ?thesis by simp
  qed
qed

definition cmd_ok :: "string \<Rightarrow> (cmd \<times> string) result \<Rightarrow> bool" where
  "cmd_ok line r \<longleftrightarrow> (case r of Inl e \<Rightarrow> True | Inr (c, s) \<Rightarrow> suffix s line \<and> (\<forall>w \<in> words c. word_ok line w))"

lemma cmd_ok_simps [simp]: "cmd_ok line (Inl e)" "cmd_ok line (Inr (c, s)) \<longleftrightarrow> suffix s line \<and> (\<forall>w \<in> words c. word_ok line w)"
  by (simp_all add: cmd_ok_def)

lemma cmd_ok_bind: "cmd_ok line m \<Longrightarrow> (\<And>c s. suffix s line \<Longrightarrow> \<forall>w \<in> words c. word_ok line w \<Longrightarrow> cmd_ok line (f (c, s))) \<Longrightarrow> cmd_ok line (bind_r m f)"
  by (cases m) auto

lemma parse_words:
  assumes n: "n = length line"
  shows "suffix ps line \<Longrightarrow> cmd_ok line (parseline k n ps)" "suffix ps line \<Longrightarrow> cmd_ok line (parsepipe k n ps)"
    "suffix ps line \<Longrightarrow> cmd_ok line (parseexec k n ps)" "suffix ps line \<Longrightarrow> cmd_ok line (parseblock k n ps)"
proof (induction k arbitrary: ps)
  case (Suc k)
  {
    case 1
    show ?case unfolding parseline.simps
    proof (rule cmd_ok_bind[OF Suc(2)[OF 1]], clarify)
      fix c s assume s: "suffix s line" "\<forall>w \<in> words c. word_ok line w"
      obtain c1 s1 b s2 t q eq s3 where e: "parseback c s = (c1, s1)" "peek '';'' s1 = (b, s2)" "gettoken s2 = (t, q, eq, s3)" by (metis prod_cases4 surj_pair)
      have s1: "suffix s1 line" "\<forall>w \<in> words c1. word_ok line w" using parseback_words[OF s(1) e(1)] s(2) by auto
      have s2: "suffix s2 line" by (rule suffix_peek[OF s1(1) e(2)])
      have "cmd_ok line (bind_r (parseline k n s3) (\<lambda>(c2, s4). Inr (LIST c1 c2, s4)))"
        by (rule cmd_ok_bind[OF Suc(1)[OF gettoken_word(1)[OF s2 e(3)]]]) (use s1(2) in auto)
      then show "cmd_ok line (case parseback c s of (c1, s1) \<Rightarrow> (case peek '';'' s1 of (False, s2) \<Rightarrow> Inr (c1, s2)
         | (True, s2) \<Rightarrow> (case gettoken s2 of (_, _, _, s3) \<Rightarrow> bind_r (parseline k n s3) (\<lambda>(c2, s4). Inr (LIST c1 c2, s4)))))"
        using e s1 s2 by (cases b) auto
    qed
  next
    case 2
    show ?case unfolding parsepipe.simps
    proof (rule cmd_ok_bind[OF Suc(3)[OF 2]], clarify)
      fix c s assume s: "suffix s line" "\<forall>w \<in> words c. word_ok line w"
      obtain b s1 t q eq s2 where e: "peek ''|'' s = (b, s1)" "gettoken s1 = (t, q, eq, s2)" by (metis prod_cases4 surj_pair)
      have s1: "suffix s1 line" by (rule suffix_peek[OF s(1) e(1)])
      have "cmd_ok line (bind_r (parsepipe k n s2) (\<lambda>(c2, s3). Inr (PIPE c c2, s3)))"
        by (rule cmd_ok_bind[OF Suc(2)[OF gettoken_word(1)[OF s1 e(2)]]]) (use s(2) in auto)
      then show "cmd_ok line (case peek ''|'' s of (False, s1) \<Rightarrow> Inr (c, s1)
        | (True, s1) \<Rightarrow> (case gettoken s1 of (_, _, _, s2) \<Rightarrow> bind_r (parsepipe k n s2) (\<lambda>(c2, s3). Inr (PIPE c c2, s3))))"
        using e s s1 by (cases b) auto
    qed
  next
    case 3
    obtain b s where e: "peek ''('' ps = (b, s)" by fastforce
    have s: "suffix s line" by (rule suffix_peek[OF 3 e])
    have "cmd_ok line (bind_r (parseredirs n s) (\<lambda>(rs, s1). bind_r (parseargs n 0 s1) (\<lambda>(ws, rs2, s2). Inr (wrap (rs @ rs2) (EXEC ws), s2))))"
      (is "cmd_ok line ?m")
    proof (cases ?m)
      case (Inr x)
      then obtain rs s1 ws rs2 s2 where r: "parseredirs n s = Inr (rs, s1)" "parseargs n 0 s1 = Inr (ws, rs2, s2)" "x = (wrap (rs @ rs2) (EXEC ws), s2)"
        by (auto simp: bind_r_eq_Inr)
      have "suffix s1 line" "\<forall>w \<in> fst ` set rs. word_ok line w" using parseredirs_words[OF s n r(1)] by auto
      then show ?thesis using parseargs_words[OF _ n r(2)] Inr r(3) by (auto simp: words_wrap)
    qed simp
    then show ?case using e Suc(4)[OF s] by (cases b) simp_all
  next
    case 4
    obtain b s t q eq s1 where e: "peek ''('' ps = (b, s)" "gettoken s = (t, q, eq, s1)" by (metis prod_cases4 surj_pair)
    have s1: "suffix s1 line" by (rule gettoken_word(1)[OF suffix_peek[OF 4 e(1)] e(2)])
    have "cmd_ok line (bind_r (parseline k n s1) (\<lambda>(c, s2). case peek '')'' s2 of (False, s3) \<Rightarrow> Inl (Panic ''syntax - missing )'')
            | (True, s3) \<Rightarrow> (case gettoken s3 of (_, _, _, s4) \<Rightarrow> bind_r (parseredirs n s4) (\<lambda>(rs, s5). Inr (wrap rs c, s5)))))"
    proof (rule cmd_ok_bind[OF Suc(1)[OF s1]], clarify)
      fix c s2 assume s: "suffix s2 line" "\<forall>w \<in> words c. word_ok line w"
      obtain b s3 t q eq s4 where e: "peek '')'' s2 = (b, s3)" "gettoken s3 = (t, q, eq, s4)" by (metis prod_cases4 surj_pair)
      have s4: "suffix s4 line" by (rule gettoken_word(1)[OF suffix_peek[OF s(1) e(1)] e(2)])
      have "cmd_ok line (bind_r (parseredirs n s4) (\<lambda>(rs, s5). Inr (wrap rs c, s5)))"
        using parseredirs_words[OF s4 n] s(2) by (cases "parseredirs n s4") (auto simp: words_wrap ball_Un)
      then show "cmd_ok line (case peek '')'' s2 of (False, s3) \<Rightarrow> Inl (Panic ''syntax - missing )'')
            | (True, s3) \<Rightarrow> (case gettoken s3 of (_, _, _, s4) \<Rightarrow> bind_r (parseredirs n s4) (\<lambda>(rs, s5). Inr (wrap rs c, s5))))"
        using e by (cases b) simp_all
    qed
    then show ?case using e by (cases b) simp_all
  }
qed simp_all

lemma length_nulterminate [simp]: "length (nulterminate c buf) = length buf"
proof (induction c arbitrary: buf)
  case (EXEC ws)
  have "length (fold (\<lambda>(q, eq) b. b[eq := NUL]) ws buf) = length buf" by (induction ws arbitrary: buf) auto
  then show ?case by simp
qed simp_all

lemma nulterminate_nth: "i < length buf \<Longrightarrow> nulterminate c buf ! i = (if i \<in> snd ` words c then NUL else buf ! i)"
proof (induction c arbitrary: buf)
  case (EXEC ws)
  have "fold (\<lambda>(q, eq) b. b[eq := NUL]) ws buf ! i = (if i \<in> snd ` set ws then NUL else buf ! i)"
    using EXEC
  proof (induction ws arbitrary: buf)
    case (Cons w ws)
    then show ?case by (cases w) (simp add: nth_list_update)
  qed simp
  then show ?case by simp
next
  case (REDIR c w m fd)
  then show ?case by (cases "snd w = i") simp_all
qed (simp_all add: image_Un)



end
