(* ===== verification/Grep.thy ===== *)
theory Grep
  imports Prelude
begin

text \<open>
  The pattern matcher and the line loop of \<open>grep.c\<close>. A string is the list of its bytes before the NUL, a pointer into a
  string is the rest of the string. The matcher is related to the language of the pattern, the loop to the list of lines of
  the file.
\<close>

section \<open>The matcher\<close>

function matchhere :: "string \<Rightarrow> string \<Rightarrow> bool" and matchstar :: "char \<Rightarrow> string \<Rightarrow> string \<Rightarrow> bool" where
  "matchhere re str =
    (case re of
       [] \<Rightarrow> True
     | c # re1 \<Rightarrow>
       if re1 \<noteq> [] \<and> hd re1 = CHR ''*'' then matchstar c (tl re1) str
       else if c = CHR ''$'' \<and> re1 = [] then str = []
       else (case str of [] \<Rightarrow> False | t # ts \<Rightarrow> if c = CHR ''.'' \<or> c = t then matchhere re1 ts else False))"
| "matchstar c re str =
    (if matchhere re str then True
     else (case str of [] \<Rightarrow> False | t # ts \<Rightarrow> if t = c \<or> c = CHR ''.'' then matchstar c re ts else False))"
  by pat_completeness auto
termination
  by (relation "measures [\<lambda>x. case x of Inl (re, _) \<Rightarrow> 2 * length re | Inr (_, re, _) \<Rightarrow> 2 * length re + 1,
      \<lambda>x. case x of Inl (_, str) \<Rightarrow> length str | Inr (_, _, str) \<Rightarrow> length str]") (auto simp: neq_Nil_conv)

declare matchhere.simps [simp del] matchstar.simps [simp del]

fun match_from :: "string \<Rightarrow> string \<Rightarrow> bool" where
  "match_from re [] = matchhere re []"
| "match_from re (t # str) = (matchhere re (t # str) \<or> match_from re str)"

definition match :: "string \<Rightarrow> string \<Rightarrow> bool" where
  "match re str = (if re \<noteq> [] \<and> hd re = CHR ''^'' then matchhere (tl re) str else match_from re str)"

section \<open>The language of a pattern\<close>

text \<open>A pattern is a sequence of single characters, repeated characters, and possibly an anchor at its end.\<close>

datatype item = One char | Star char | End

fun parse :: "string \<Rightarrow> item list" where
  "parse [] = []"
| "parse [c] = (if c = CHR ''$'' then [End] else [One c])"
| "parse (c # d # re) = (if d = CHR ''*'' then Star c # parse re else One c # parse (d # re))"

definition acc :: "char \<Rightarrow> char \<Rightarrow> bool" where
  "acc c x \<longleftrightarrow> c = CHR ''.'' \<or> c = x"

text \<open>\<open>matches its u v\<close>: the items describe \<open>u\<close>, when \<open>v\<close> follows it.\<close>

inductive matches :: "item list \<Rightarrow> string \<Rightarrow> string \<Rightarrow> bool" where
  Nil: "matches [] [] v"
| End: "matches its u [] \<Longrightarrow> matches (End # its) u []"
| One: "acc c x \<Longrightarrow> matches its u v \<Longrightarrow> matches (One c # its) (x # u) v"
| Star: "(\<And>x. x \<in> set w \<Longrightarrow> acc c x) \<Longrightarrow> matches its u v \<Longrightarrow> matches (Star c # its) (w @ u) v"

inductive_cases matches_NilE [elim!]: "matches [] u v"
inductive_cases matches_EndE [elim!]: "matches (End # its) u v"
inductive_cases matches_OneE [elim!]: "matches (One c # its) u v"
inductive_cases matches_StarE [elim]: "matches (Star c # its) u v"

definition at_start :: "item list \<Rightarrow> string \<Rightarrow> bool" where
  "at_start its str \<longleftrightarrow> (\<exists>u v. str = u @ v \<and> matches its u v)"

lemma at_start_Nil [simp]: "at_start [] str"
  by (auto simp: at_start_def intro: matches.Nil)

lemma at_start_End [simp]: "at_start [End] str \<longleftrightarrow> str = []"
  by (auto simp: at_start_def intro: matches.intros)

lemma at_start_One: "at_start (One c # its) str \<longleftrightarrow> str \<noteq> [] \<and> acc c (hd str) \<and> at_start its (tl str)"
proof (cases str)
  case (Cons x s)
  have "at_start its s \<Longrightarrow> acc c x \<Longrightarrow> at_start (One c # its) str" unfolding at_start_def Cons by (metis append_Cons matches.One)
  then show ?thesis using Cons by (auto simp: at_start_def Cons_eq_append_conv)
qed (auto simp: at_start_def)

lemma at_start_Star: "at_start (Star c # its) str \<longleftrightarrow> at_start its str \<or> str \<noteq> [] \<and> acc c (hd str) \<and> at_start (Star c # its) (tl str)"
proof
  assume "at_start (Star c # its) str"
  then obtain w u v where e: "str = w @ u @ v" "\<And>x. x \<in> set w \<Longrightarrow> acc c x" "matches its u v"
    by (auto simp: at_start_def elim!: matches_StarE)
  show "at_start its str \<or> str \<noteq> [] \<and> acc c (hd str) \<and> at_start (Star c # its) (tl str)"
  proof (cases w)
    case Nil
    then show ?thesis using e by (auto simp: at_start_def)
  next
    case (Cons x w')
    then have "matches (Star c # its) (w' @ u) v" using e by (intro matches.Star) auto
    then have "at_start (Star c # its) (tl str)" unfolding at_start_def using e(1) Cons by (intro exI[of _ "w' @ u"] exI[of _ v]) simp
    then show ?thesis using e Cons by simp
  qed
next
  assume "at_start its str \<or> str \<noteq> [] \<and> acc c (hd str) \<and> at_start (Star c # its) (tl str)"
  then show "at_start (Star c # its) str"
  proof
    assume "at_start its str"
    then obtain u v where "str = u @ v" "matches its u v" by (auto simp: at_start_def)
    moreover from this(2) have "matches (Star c # its) ([] @ u) v" by (intro matches.Star) auto
    ultimately show ?thesis by (auto simp: at_start_def)
  next
    assume a: "str \<noteq> [] \<and> acc c (hd str) \<and> at_start (Star c # its) (tl str)"
    then obtain w u v where e: "tl str = w @ u @ v" "\<And>x. x \<in> set w \<Longrightarrow> acc c x" "matches its u v"
      by (auto simp: at_start_def elim!: matches_StarE)
    have "matches (Star c # its) ((hd str # w) @ u) v" by (rule matches.Star) (use a e in auto)
    moreover have "str = ((hd str # w) @ u) @ v" using a e(1) by (cases str) auto
    ultimately show ?thesis unfolding at_start_def by blast
  qed
qed

lemma matchhere_one:
  "re1 = [] \<or> hd re1 \<noteq> CHR ''*'' \<Longrightarrow> c \<noteq> CHR ''$'' \<or> re1 \<noteq> [] \<Longrightarrow>
    matchhere (c # re1) s \<longleftrightarrow> s \<noteq> [] \<and> acc c (hd s) \<and> matchhere re1 (tl s)"
  by (subst matchhere.simps) (cases s; auto simp: acc_def)

lemma matchstar_step: "matchstar c re s \<longleftrightarrow> matchhere re s \<or> s \<noteq> [] \<and> acc c (hd s) \<and> matchstar c re (tl s)"
  by (subst matchstar.simps) (cases s; auto simp: acc_def)

lemma matchstar_at_start:
  assumes "\<And>s. matchhere re s = at_start (parse re) s"
  shows "matchstar c re s = at_start (Star c # parse re) s"
proof (induction s)
  case (Cons x s)
  then show ?case by (subst matchstar_step, subst at_start_Star) (simp add: assms)
qed (subst matchstar_step, subst at_start_Star, simp add: assms)

lemma matchhere_at_start: "matchhere re s = at_start (parse re) s"
proof (induction re arbitrary: s rule: parse.induct)
  case (2 c)
  have n: "matchhere [] s" for s by (simp add: matchhere.simps)
  show ?case
  proof (cases "c = CHR ''$''")
    case True
    then show ?thesis by (simp add: matchhere.simps)
  qed (simp add: matchhere_one at_start_One n)
next
  case (3 c d re)
  show ?case
  proof (cases "d = CHR ''*''")
    case True
    have "matchhere (c # d # re) s = matchstar c re s" using True by (subst matchhere.simps) simp
    then show ?thesis using True matchstar_at_start[of re c s] 3(1)[OF True] by simp
  next
    case False
    then show ?thesis using 3(2)[OF False] by (simp add: matchhere_one at_start_One)
  qed
qed (simp add: matchhere.simps)

lemma match_from_suffix: "match_from re str \<longleftrightarrow> (\<exists>a t. str = a @ t \<and> at_start (parse re) t)"
proof (induction str)
  case Nil
  then show ?case by (simp add: matchhere_at_start)
next
  case (Cons x str)
  have "(\<exists>a t. x # str = a @ t \<and> at_start (parse re) t) \<longleftrightarrow> at_start (parse re) (x # str) \<or> (\<exists>a t. str = a @ t \<and> at_start (parse re) t)"
    by (auto simp: Cons_eq_append_conv)
  then show ?case using Cons by (simp add: matchhere_at_start)
qed

section \<open>The line loop\<close>

definition NEWLINE :: char where "NEWLINE = CHR 0x0A"

text \<open>
  \<open>strchr (p, '\n')\<close>: the bytes before the newline and those behind it; \<open>None\<close> when a NUL or the end comes first.
\<close>

definition next_line :: "string \<Rightarrow> (string \<times> string) option" where
  "next_line p =
    (case dropWhile (\<lambda>c. c \<noteq> NEWLINE \<and> c \<noteq> CHR 0x00) p of
       [] \<Rightarrow> None
     | c # r \<Rightarrow> if c = NEWLINE then Some (takeWhile (\<lambda>c. c \<noteq> NEWLINE \<and> c \<noteq> CHR 0x00) p, r) else None)"

lemma next_line_Some: "next_line p = Some (l, r) \<Longrightarrow> p = l @ NEWLINE # r"
  by (auto simp: next_line_def split: list.splits if_splits) (metis takeWhile_dropWhile_id)

text \<open>The inner loop of \<open>grep\<close>: what is written, and where \<open>p\<close> stands behind the last complete line.\<close>

function scan_lines :: "string \<Rightarrow> string \<Rightarrow> string \<times> string" where
  "scan_lines re p =
    (case next_line p of
       None \<Rightarrow> ([], p)
     | Some (l, r) \<Rightarrow> (case scan_lines re r of (out, q) \<Rightarrow> ((if match re l then l @ [NEWLINE] else []) @ out, q)))"
  by pat_completeness auto
termination by (relation "measure (\<lambda>(re, p). length p)") (auto dest: next_line_Some)

declare scan_lines.simps [simp del]

definition BUFSZ :: nat where "BUFSZ = 1024"

text \<open>One round: the bytes read are appended to the \<open>m\<close> bytes kept; a buffer without a complete line is dropped.\<close>

definition grep_round :: "string \<Rightarrow> string \<Rightarrow> string \<Rightarrow> string \<times> string" where
  "grep_round re buf chunk =
    (case scan_lines re (buf @ chunk) of (out, p) \<Rightarrow> (out, if length p = length (buf @ chunk) then [] else p))"

text \<open>\<open>rd k\<close> bounds what the \<open>k\<close>-th \<open>read\<close> returns; a regular file gives all that is asked for, up to its end.\<close>

definition read_len :: "(nat \<Rightarrow> nat) \<Rightarrow> nat \<Rightarrow> string \<Rightarrow> string \<Rightarrow> nat" where
  "read_len rd k buf rest = min (rd k) (min (BUFSZ - length buf - 1) (length rest))"

function grep_loop :: "(nat \<Rightarrow> nat) \<Rightarrow> nat \<Rightarrow> string \<Rightarrow> string \<Rightarrow> string \<Rightarrow> string" where
  "grep_loop rd k re buf rest =
    (let n = read_len rd k buf rest in
     if n = 0 then []
     else case grep_round re buf (take n rest) of (out, b) \<Rightarrow> out @ grep_loop rd (k + 1) re b (drop n rest))"
  by pat_completeness auto
termination by (relation "measure (\<lambda>(rd, k, re, buf, rest). length rest)") (auto simp: read_len_def)

declare grep_loop.simps [simp del]

definition grep :: "(nat \<Rightarrow> nat) \<Rightarrow> string \<Rightarrow> string \<Rightarrow> string" where
  "grep rd re inp = grep_loop rd 0 re [] inp"

section \<open>What is printed\<close>

text \<open>The complete lines of a file.\<close>

function lines_of :: "string \<Rightarrow> string list" where
  "lines_of s = (if NEWLINE \<in> set s then takeWhile (\<lambda>c. c \<noteq> NEWLINE) s # lines_of (tl (dropWhile (\<lambda>c. c \<noteq> NEWLINE) s)) else [])"
  by pat_completeness auto
termination
proof (relation "measure length")
  fix s :: string assume "NEWLINE \<in> set s"
  then have "dropWhile (\<lambda>c. c \<noteq> NEWLINE) s \<noteq> []" by (auto simp: dropWhile_eq_Nil_conv)
  then show "(tl (dropWhile (\<lambda>c. c \<noteq> NEWLINE) s), s) \<in> measure length"
    using length_dropWhile_le[of "\<lambda>c. c \<noteq> NEWLINE" s] by (cases "dropWhile (\<lambda>c. c \<noteq> NEWLINE) s") simp_all
qed simp

declare lines_of.simps [simp del]

abbreviation "printed re ls \<equiv> concat (map (\<lambda>l. l @ [NEWLINE]) (filter (match re) ls))"

lemma lines_of_no: "NEWLINE \<notin> set s \<Longrightarrow> lines_of s = []"
  by (subst lines_of.simps) simp

lemma lines_of_line: "NEWLINE \<notin> set l \<Longrightarrow> lines_of (l @ NEWLINE # r) = l # lines_of r"
proof -
  assume n: "NEWLINE \<notin> set l"
  then have "takeWhile (\<lambda>c. c \<noteq> NEWLINE) (l @ NEWLINE # r) = l" "dropWhile (\<lambda>c. c \<noteq> NEWLINE) (l @ NEWLINE # r) = NEWLINE # r"
    by (metis (mono_tags, lifting) takeWhile_append2 takeWhile.simps(2) append.right_neutral, metis (mono_tags, lifting) dropWhile_append2 dropWhile.simps(2))
  then show ?thesis by (subst lines_of.simps) simp
qed

lemma next_line_no: "NEWLINE \<notin> set s \<Longrightarrow> next_line s = None"
  by (auto simp: next_line_def split: list.splits if_splits) (metis set_dropWhileD list.set_intros(1))

lemma next_line_line: "NEWLINE \<notin> set l \<Longrightarrow> CHR 0x00 \<notin> set l \<Longrightarrow> next_line (l @ NEWLINE # r) = Some (l, r)"
proof -
  let ?P = "\<lambda>c. c \<noteq> NEWLINE \<and> c \<noteq> CHR 0x00"
  assume "NEWLINE \<notin> set l" "CHR 0x00 \<notin> set l"
  then have "\<And>c. c \<in> set l \<Longrightarrow> ?P c" by metis
  then have "dropWhile ?P (l @ NEWLINE # r) = NEWLINE # r" "takeWhile ?P (l @ NEWLINE # r) = l"
    by (simp_all add: dropWhile_append2 takeWhile_append2)
  then show ?thesis by (simp add: next_line_def)
qed

lemma line_cases:
  obtains "NEWLINE \<notin> set s" | l r where "s = l @ NEWLINE # r" "NEWLINE \<notin> set l"
  using split_list_first[of NEWLINE s] by blast

text \<open>Scanning a prefix and then what is left of it with the rest is scanning the whole.\<close>

lemma scan_lines_no: "NEWLINE \<notin> set s \<Longrightarrow> scan_lines re s = ([], s)"
  by (subst scan_lines.simps) (simp add: next_line_no)

lemma scan_lines_line:
  "NEWLINE \<notin> set l \<Longrightarrow> CHR 0x00 \<notin> set l \<Longrightarrow> scan_lines re (l @ NEWLINE # r) =
    (case scan_lines re r of (out, q) \<Rightarrow> ((if match re l then l @ [NEWLINE] else []) @ out, q))"
  by (subst scan_lines.simps) (simp add: next_line_line)

lemma scan_spec:
  assumes "CHR 0x00 \<notin> set s"
  shows "\<exists>p. scan_lines re s = (printed re (lines_of s), p) \<and> NEWLINE \<notin> set p \<and> (\<exists>a. s = a @ p \<and> (a = [] \<longleftrightarrow> NEWLINE \<notin> set s)) \<and>
    (\<forall>t. lines_of (s @ t) = lines_of s @ lines_of (p @ t))"
  using assms
proof (induction "length s" arbitrary: s rule: less_induct)
  case less
  consider "NEWLINE \<notin> set s" | l r where "s = l @ NEWLINE # r" "NEWLINE \<notin> set l" by (rule line_cases)
  then show ?case
  proof cases
    case 1
    then show ?thesis by (simp add: scan_lines_no lines_of_no)
  next
    case 2
    obtain p a where p: "scan_lines re r = (printed re (lines_of r), p)" "NEWLINE \<notin> set p" "r = a @ p" "\<And>t. lines_of (r @ t) = lines_of r @ lines_of (p @ t)"
    proof -
      have "length r < length s" "CHR 0x00 \<notin> set r" using less(2) 2 by auto
      from less(1)[OF this] show ?thesis using that by blast
    qed
    have "s = (l @ NEWLINE # a) @ p" using 2 p(3) by simp
    moreover have "scan_lines re s = (printed re (lines_of s), p)" using 2 less(2) p(1) by (simp add: scan_lines_line lines_of_line)
    moreover have "lines_of (s @ t) = lines_of s @ lines_of (p @ t)" for t using 2 p(4)[of t] by (simp add: lines_of_line)
    ultimately show ?thesis using p(2) 2(1) by (intro exI[of _ p]) (auto intro!: exI[of _ "l @ NEWLINE # a"])
  qed
qed

lemma grep_loop_step:
  "grep_loop rd k re buf rest =
    (if read_len rd k buf rest = 0 then []
     else case grep_round re buf (take (read_len rd k buf rest) rest) of (out, b) \<Rightarrow> out @ grep_loop rd (k + 1) re b (drop (read_len rd k buf rest) rest))"
  unfolding grep_loop.simps[of rd k re buf rest] Let_def ..

lemma grep_loop_no: "NEWLINE \<notin> set buf \<Longrightarrow> NEWLINE \<notin> set rest \<Longrightarrow> grep_loop rd k re buf rest = []"
proof (induction "length rest" arbitrary: buf rest k rule: less_induct)
  case less
  define n where "n = read_len rd k buf rest"
  show ?case
  proof (cases "n = 0")
    case False
    have "NEWLINE \<notin> set (buf @ take n rest)" "NEWLINE \<notin> set (drop n rest)" using less(2,3) by (auto dest: in_set_takeD in_set_dropD)
    moreover from this(1) have "grep_round re buf (take n rest) = ([], [])" by (simp add: grep_round_def scan_lines_no)
    moreover have "length (drop n rest) < length rest" using False by (auto simp: n_def read_len_def)
    ultimately show ?thesis using less(1)[of "drop n rest" "[]" "k + 1"] grep_loop_step[of rd k re buf rest, folded n_def] by simp
  qed (use grep_loop_step[of rd k re buf rest, folded n_def] in simp)
qed

text \<open>The part of the input that is still to be handled: what is kept in the buffer has no newline.\<close>

lemma grep_loop_file:
  assumes "CHR 0x00 \<notin> set (buf @ rest)" "NEWLINE \<notin> set buf" "length buf < BUFSZ - 1" "\<forall>l \<in> set (lines_of (buf @ rest)). length l < BUFSZ - 1"
    "\<And>k. BUFSZ - 1 \<le> rd k"
  shows "grep_loop rd k re buf rest = printed re (lines_of (buf @ rest))"
  using assms
proof (induction "length rest" arbitrary: buf rest k rule: less_induct)
  case less
  define n where "n = min (BUFSZ - length buf - 1) (length rest)"
  have e: "read_len rd k buf rest = n" using less(6)[of k] by (simp add: n_def read_len_def)
  show ?case
  proof (cases "rest = []")
    case True
    then show ?thesis using less(3) by (simp add: lines_of_no grep_loop_no)
  next
    case False
    have n: "0 < n" "n \<le> length rest" using False less(4) by (auto simp: n_def)
    let ?s = "buf @ take n rest"
    have nul: "CHR 0x00 \<notin> set ?s" using less(2) by (auto dest: in_set_takeD)
    obtain p a where p: "scan_lines re ?s = (printed re (lines_of ?s), p)" "NEWLINE \<notin> set p" "?s = a @ p" "a = [] \<longleftrightarrow> NEWLINE \<notin> set ?s"
      "\<And>t. lines_of (?s @ t) = lines_of ?s @ lines_of (p @ t)" using scan_spec[OF nul, of re] by blast
    have all: "lines_of (buf @ rest) = lines_of ?s @ lines_of (p @ drop n rest)" using p(5)[of "drop n rest"] by simp
    have unf: "grep_loop rd k re buf rest = (case grep_round re buf (take n rest) of (out, b) \<Rightarrow> out @ grep_loop rd (k + 1) re b (drop n rest))"
      using n(1) grep_loop_step[of rd k re buf rest, unfolded e] by simp
    show ?thesis
    proof (cases "a = []")
      case False
      then have r: "grep_round re buf (take n rest) = (printed re (lines_of ?s), p)" using p(1,3) by (simp add: grep_round_def)
      have l: "length p < BUFSZ - 1"
      proof -
        have "length ?s \<le> BUFSZ - 1" using less(4) by (simp add: n_def)
        moreover have "length ?s = length a + length p" using p(3) by (metis length_append)
        ultimately show ?thesis using False by (cases a) simp_all
      qed
      have ps: "set p \<subseteq> set ?s" using p(3) by (metis Un_upper2 set_append)
      have nulp: "CHR 0x00 \<notin> set (p @ drop n rest)" using nul ps less(2) by (auto dest: in_set_dropD)
      have "grep_loop rd (k + 1) re p (drop n rest) = printed re (lines_of (p @ drop n rest))"
        by (rule less(1)) (use n nulp p(2) l less(5,6) all in auto)
      then show ?thesis using r by (simp add: unf all)
    next
      case True
      then have nn: "NEWLINE \<notin> set ?s" and ps: "p = ?s" using p(3,4) by auto
      have r: "grep_round re buf (take n rest) = ([], [])" using nn by (simp add: grep_round_def scan_lines_no)
      have "NEWLINE \<notin> set (drop n rest)"
      proof
        assume "NEWLINE \<in> set (drop n rest)"
        then obtain l2 r2 where d: "drop n rest = l2 @ NEWLINE # r2" "NEWLINE \<notin> set l2" by (metis split_list_first)
        then have "lines_of (buf @ rest) = (?s @ l2) # lines_of r2"
        proof -
          have "buf @ rest = ?s @ drop n rest" by simp
          also have "\<dots> = (?s @ l2) @ NEWLINE # r2" by (simp only: d(1) append.assoc)
          finally show ?thesis using nn d(2) lines_of_line[of "?s @ l2" r2] by simp
        qed
        then have "length ?s < BUFSZ - 1" using less(5) by simp
        then have "n = length rest" using less(4) by (auto simp: n_def)
        then show False using d by simp
      qed
      moreover from this have "NEWLINE \<notin> set (buf @ rest)" using nn by (metis Un_iff append.assoc append_take_drop_id set_append)
      ultimately show ?thesis using r by (simp add: unf lines_of_no grep_loop_no)
    qed
  qed
qed

text \<open>
  C9: the matcher of \<open>grep\<close> decides the language of its pattern. A pattern is read as a sequence of characters, \<open>.\<close> for any
  character, \<open>c*\<close> for any number of them, and \<open>$\<close> at the end for the end of the line; \<open>match\<close> says whether some part of the
  line, or with a leading \<open>^\<close> some beginning of it, is described by the sequence. In particular the search for the length of
  a repetition misses no match.
\<close>

theorem match_language:
  "match re s \<longleftrightarrow>
    (if re \<noteq> [] \<and> hd re = CHR ''^'' then \<exists>u v. s = u @ v \<and> matches (parse (tl re)) u v
     else \<exists>a u v. s = a @ u @ v \<and> matches (parse re) u v)"
  unfolding match_def match_from_suffix matchhere_at_start at_start_def by (rule if_cong) blast+

text \<open>
  C13: on a regular file \<open>grep\<close> prints exactly the matching lines, whole and in order, however the lines fall into its
  buffer. The lines are those that end in a newline; each fits the buffer (at most 1022 bytes), and the file has no NUL.
\<close>

theorem grep_prints:
  assumes "CHR 0x00 \<notin> set inp" and "\<forall>l \<in> set (lines_of inp). length l < BUFSZ - 1" and "\<And>k. BUFSZ - 1 \<le> rd k"
  shows "grep rd re inp = concat (map (\<lambda>l. l @ [NEWLINE]) (filter (match re) (lines_of inp)))"
  using grep_loop_file[where buf = "[]" and rest = inp and rd = rd and k = 0 and re = re] assms by (simp add: grep_def BUFSZ_def)

theorem grep_prints_witness:
  "grep (\<lambda>_. 1023) ''b*$'' ''ab\<newline>c'' = ''ab\<newline>''"
proof -
  have l: "lines_of ''ab\<newline>c'' = [''ab'']" by code_simp
  have m: "match ''b*$'' ''ab''" by code_simp
  have "grep (\<lambda>_. 1023) ''b*$'' ''ab\<newline>c'' = concat (map (\<lambda>l. l @ [NEWLINE]) (filter (match ''b*$'') (lines_of ''ab\<newline>c'')))"
    by (rule grep_prints) (simp_all add: l BUFSZ_def)
  then show ?thesis by (simp add: l m NEWLINE_def)
qed

text \<open>A short read, as from a pipe, loses the beginning of a line: the line \<open>ab\<close> is not found.\<close>

lemma grep_short_read: "grep (\<lambda>_. 1) ''a'' ''ab\<newline>'' = []" "lines_of ''ab\<newline>'' = [''ab'']" "match ''a'' ''ab''"
  by code_simp+

end
