(* ===== verification/Umalloc.thy ===== *)
theory Umalloc
  imports Prelude "HOL-Library.Monad_Syntax"
begin

text \<open>
  The user-level allocator (\<open>umalloc.c\<close>): a circular list of free blocks in ascending order of address. A block starts with
  a header of 8 bytes and its size counts headers. The state has the two fields of the header at each address, the list
  pointer \<open>freep\<close> (0 before the first call) and the end of the process's memory. A search that would never end is \<open>None\<close>.
\<close>

section \<open>The allocator\<close>

record uheap =
  hptr :: "nat \<Rightarrow> nat"
  hsize :: "nat \<Rightarrow> nat"
  freep :: nat
  brk :: nat

text \<open>
  What the system call \<open>sbrk\<close> promises its caller: the old end of memory, or failure when the new end would be beyond \<open>lim\<close>, the
  largest the kernel grants (its own side of the call is \<open>growproc\<close>).
\<close>

definition sbrk :: "nat \<Rightarrow> int \<Rightarrow> uheap \<Rightarrow> (nat \<times> uheap) option" where
  "sbrk lim n h = (let b = int (brk h) + n in if 0 \<le> b \<and> b \<le> int lim then Some (brk h, h\<lparr>brk := nat b\<rparr>) else None)"

definition set_ptr :: "nat \<Rightarrow> nat \<Rightarrow> uheap \<Rightarrow> uheap" where "set_ptr a v h = h\<lparr>hptr := (hptr h)(a := v)\<rparr>"
definition set_size :: "nat \<Rightarrow> nat \<Rightarrow> uheap \<Rightarrow> uheap" where "set_size a v h = h\<lparr>hsize := (hsize h)(a := v)\<rparr>"

partial_function (option) free_find :: "uheap \<Rightarrow> nat \<Rightarrow> nat \<Rightarrow> nat option" where
  "free_find h bp p =
    (if p < bp \<and> bp < hptr h p then Some p
     else if hptr h p \<le> p \<and> (p < bp \<or> bp < hptr h p) then Some p
     else free_find h bp (hptr h p))"

text \<open>Joining with the block above and with the block below.\<close>

definition join_up :: "nat \<Rightarrow> nat \<Rightarrow> uheap \<Rightarrow> uheap" where
  "join_up p bp h =
    (let nx = hptr h p in
     if bp + 8 * hsize h bp = nx then set_ptr bp (hptr h nx) (set_size bp (hsize h bp + hsize h nx) h) else set_ptr bp nx h)"

definition join_down :: "nat \<Rightarrow> nat \<Rightarrow> uheap \<Rightarrow> uheap" where
  "join_down p bp h =
    (if p + 8 * hsize h p = bp then set_ptr p (hptr h bp) (set_size p (hsize h p + hsize h bp) h) else set_ptr p bp h)"

definition free :: "nat \<Rightarrow> uheap \<Rightarrow> uheap option" where
  "free ap h =
    (let bp = ap - 8 in
     free_find h bp (freep h) \<bind> (\<lambda>p. Some ((join_down p bp (join_up p bp h))\<lparr>freep := p\<rparr>)))"

text \<open>The argument of \<open>sbrk\<close> is computed in 32 bits and passed as a signed \<open>int\<close>.\<close>

definition morecore :: "nat \<Rightarrow> nat \<Rightarrow> uheap \<Rightarrow> (nat option \<times> uheap) option" where
  "morecore lim nu h =
    (let n = (if nu < 4096 then 4096 else nu) in
     case sbrk lim (sint (of_nat n * 8 :: u32)) h of
       None \<Rightarrow> Some (None, h)
     | Some (p, h1) \<Rightarrow> free (p + 8) (set_size p n h1) \<bind> (\<lambda>h2. Some (Some (freep h2), h2)))"

text \<open>Taking \<open>n\<close> units from block \<open>p\<close>, whose predecessor is \<open>prevp\<close>: all of it, or its tail.\<close>

definition carve :: "nat \<Rightarrow> nat \<Rightarrow> nat \<Rightarrow> uheap \<Rightarrow> nat \<times> uheap" where
  "carve n prevp p h =
    (if hsize h p = n then (p + 8, (set_ptr prevp (hptr h p) h)\<lparr>freep := prevp\<rparr>)
     else let h1 = set_size p (hsize h p - n) h; q = p + 8 * hsize h1 p in (q + 8, (set_size q n h1)\<lparr>freep := prevp\<rparr>))"

partial_function (option) malloc_loop :: "nat \<Rightarrow> nat \<Rightarrow> nat \<Rightarrow> nat \<Rightarrow> uheap \<Rightarrow> (nat option \<times> uheap) option" where
  "malloc_loop lim n prevp p h =
    (if n \<le> hsize h p then (case carve n prevp p h of (a, h1) \<Rightarrow> Some (Some a, h1))
     else if p = freep h then
       morecore lim n h \<bind> (\<lambda>(q, h1). case q of None \<Rightarrow> Some (None, h1) | Some p1 \<Rightarrow> malloc_loop lim n p1 (hptr h1 p1) h1)
     else malloc_loop lim n p (hptr h p) h)"

definition nunits :: "u32 \<Rightarrow> nat" where
  "nunits nbytes = unat ((nbytes + 8 - 1) div 8 + 1)"

text \<open>\<open>base\<close> is the address of the static header; the result is the address returned, \<open>None\<close> for 0.\<close>

definition malloc :: "nat \<Rightarrow> nat \<Rightarrow> u32 \<Rightarrow> uheap \<Rightarrow> (nat option \<times> uheap) option" where
  "malloc lim base nbytes h =
    (let h1 = (if freep h = 0 then set_size base 0 ((set_ptr base base h)\<lparr>freep := base\<rparr>) else h)
     in malloc_loop lim (nunits nbytes) (freep h1) (hptr h1 (freep h1)) h1)"

section \<open>The free list\<close>

fun path :: "uheap \<Rightarrow> nat \<Rightarrow> nat list \<Rightarrow> nat \<Rightarrow> bool" where
  "path h p [] q \<longleftrightarrow> hptr h p = q"
| "path h p (x # xs) q \<longleftrightarrow> hptr h p = x \<and> path h x xs q"

text \<open>Blocks in ascending order between \<open>e\<close> and \<open>hi\<close>, none of them empty and no two adjacent.\<close>

fun blocks :: "uheap \<Rightarrow> nat \<Rightarrow> nat list \<Rightarrow> nat \<Rightarrow> bool" where
  "blocks h e [] hi \<longleftrightarrow> e \<le> hi"
| "blocks h e (x # xs) hi \<longleftrightarrow> e < x \<and> 0 < hsize h x \<and> blocks h (x + 8 * hsize h x) xs hi"

definition ext :: "uheap \<Rightarrow> nat \<Rightarrow> nat set" where
  "ext h x = {x..<x + 8 * hsize h x}"

lemma path_append [simp]: "path h p (xs @ y # ys) q \<longleftrightarrow> path h p xs y \<and> path h y ys q"
  by (induction xs arbitrary: p) auto

lemma blocks_append: "blocks h e (xs @ y # ys) hi \<longleftrightarrow> (\<exists>m. blocks h e xs m \<and> m < y) \<and> 0 < hsize h y \<and> blocks h (y + 8 * hsize h y) ys hi"
proof (induction xs arbitrary: e)
  case Nil
  then show ?case by (auto intro: exI[of _ e])
qed auto

lemma blocks_le: "blocks h e xs hi \<Longrightarrow> e \<le> hi"
  by (induction h e xs hi rule: blocks.induct) auto

lemma blocks_bounds: "blocks h e xs hi \<Longrightarrow> x \<in> set xs \<Longrightarrow> e < x \<and> 0 < hsize h x \<and> x + 8 * hsize h x \<le> hi"
  by (induction h e xs hi rule: blocks.induct) (auto dest: blocks_le)

lemma blocks_sorted: "blocks h e xs hi \<Longrightarrow> sorted_wrt (<) (e # xs)"
proof (induction h e xs hi rule: blocks.induct)
  case (2 h e x xs hi)
  then show ?case using blocks_bounds[of h "x + 8 * hsize h x" xs hi] by fastforce
qed simp

lemma path_cong: "(\<And>x. x \<in> set (p # xs) \<Longrightarrow> hptr h' x = hptr h x) \<Longrightarrow> path h' p xs q = path h p xs q"
  by (induction xs arbitrary: p) auto

lemma blocks_cong: "(\<And>x. x \<in> set xs \<Longrightarrow> hsize h' x = hsize h x) \<Longrightarrow> blocks h' e xs hi = blocks h e xs hi"
  by (induction xs arbitrary: e) auto

lemma upd_simps [simp]:
  "hptr (set_ptr a v h) = (hptr h)(a := v)" "hsize (set_ptr a v h) = hsize h" "freep (set_ptr a v h) = freep h" "brk (set_ptr a v h) = brk h"
  "hptr (set_size a v h) = hptr h" "hsize (set_size a v h) = (hsize h)(a := v)" "freep (set_size a v h) = freep h" "brk (set_size a v h) = brk h"
  by (simp_all add: set_ptr_def set_size_def)

text \<open>
  The invariant: \<open>xs\<close> are the free blocks, \<open>A\<close> the addresses of the blocks handed out. All of them lie between the static header
  and the end of memory, and no two overlap.
\<close>

definition heap_list :: "nat \<Rightarrow> uheap \<Rightarrow> nat list \<Rightarrow> bool" where
  "heap_list base h xs \<longleftrightarrow> 0 < base \<and> base + 8 \<le> brk h \<and> path h base xs base \<and> blocks h (base + 7) xs (brk h) \<and> hsize h base = 0 \<and> freep h \<in> set (base # xs)"

definition heap_with :: "nat \<Rightarrow> nat set \<Rightarrow> uheap \<Rightarrow> nat list \<Rightarrow> bool" where
  "heap_with base A h xs \<longleftrightarrow> heap_list base h xs \<and>
     (\<forall>a \<in> A. base + 8 \<le> a \<and> 0 < hsize h a \<and> a + 8 * hsize h a \<le> brk h) \<and>
     (\<forall>a \<in> A. \<forall>x \<in> set xs \<union> (A - {a}). ext h a \<inter> ext h x = {})"

definition heap_ok :: "nat \<Rightarrow> nat set \<Rightarrow> uheap \<Rightarrow> bool" where
  "heap_ok base A h \<longleftrightarrow> (\<exists>xs. heap_with base A h xs)"

section \<open>Searching the list\<close>

lemma free_find_skip:
  assumes "path h s zs q" "\<And>x. x \<in> set (s # zs) \<Longrightarrow> \<not> (x < bp \<and> bp < hptr h x) \<and> \<not> (hptr h x \<le> x \<and> (x < bp \<or> bp < hptr h x))"
  shows "free_find h bp s = free_find h bp q"
  using assms
proof (induction zs arbitrary: s)
  case Nil
  then show ?case by (subst free_find.simps) (auto)
next
  case (Cons z zs)
  then have "free_find h bp s = free_find h bp z" by (subst free_find.simps) auto
  then show ?case using Cons by simp
qed

text \<open>Where a block belongs: behind the last free block below it.\<close>

lemma split_at:
  assumes "sorted_wrt (<) ((b :: nat) # xs)" "b < bp" "bp \<notin> set xs"
  obtains L p R where "b # xs = L @ p # R" "\<And>x. x \<in> set (L @ [p]) \<Longrightarrow> x < bp" "\<And>x. x \<in> set R \<Longrightarrow> bp < x"
  using assms
proof (induction xs arbitrary: b thesis)
  case Nil
  then show ?case by (metis append_Nil empty_iff empty_set list.set_intros(1) set_ConsD)
next
  case (Cons x xs)
  show ?case
  proof (cases "x < bp")
    case True
    obtain L p R where "x # xs = L @ p # R" "\<And>y. y \<in> set (L @ [p]) \<Longrightarrow> y < bp" "\<And>y. y \<in> set R \<Longrightarrow> bp < y"
      by (rule Cons.IH[of x]) (use Cons.prems True in auto)
    then show ?thesis using Cons.prems by (intro Cons.prems(1)[of "b # L" p R]) auto
  next
    case False
    then have "bp < x" using Cons.prems(4) by (metis linorder_neqE_nat list.set_intros(1))
    then have gt: "bp < y" if "y \<in> set (x # xs)" for y using Cons.prems(2) that by auto
    show ?thesis by (rule Cons.prems(1)[of "[]" b "x # xs"]) (use gt Cons.prems(3) in simp_all)
  qed
qed

lemma path_next:
  assumes "path h b xs c" "b # xs = L @ p # R"
  shows "hptr h p = (case R of [] \<Rightarrow> c | r # _ \<Rightarrow> r)" "path h p R c" "L \<noteq> [] \<Longrightarrow> path h b (tl L) p"
proof -
  have *: "path h p R c \<and> (L \<noteq> [] \<longrightarrow> path h b (tl L) p)" using assms by (cases L) auto
  then show "path h p R c" "L \<noteq> [] \<Longrightarrow> path h b (tl L) p" by auto
  show "hptr h p = (case R of [] \<Rightarrow> c | r # _ \<Rightarrow> r)" using * by (cases R) auto
qed

lemma free_find_ok:
  assumes p: "path h b xs b" and s: "sorted_wrt (<) (b # xs)" and f: "f \<in> set (b # xs)"
    and d: "b # xs = L @ p # R" "\<And>x. x \<in> set (L @ [p]) \<Longrightarrow> x < bp" "\<And>x. x \<in> set R \<Longrightarrow> bp < x"
  shows "free_find h bp f = Some p"
proof -
  have nx: "hptr h y = (case R' of [] \<Rightarrow> b | r # _ \<Rightarrow> r)" if "b # xs = L' @ y # R'" for L' y R' by (rule path_next(1)[OF p that])
  have bmin: "b \<le> y" if "y \<in> set (b # xs)" for y using s that by auto
  have stop: "free_find h bp p = Some p"
  proof (cases R)
    case Nil
    have "b \<le> p" by (rule bmin) (simp add: d(1))
    moreover have "hptr h p = b" "p < bp" using nx[OF d(1)] d(2)[of p] Nil by simp_all
    ultimately show ?thesis by (subst free_find.simps) simp
  next
    case (Cons r R')
    then have "hptr h p = r" "bp < r" "p < bp" using nx[OF d(1)] d(2)[of p] d(3)[of r] by simp_all
    then show ?thesis by (subst free_find.simps) simp
  qed
  have sub: "free_find h bp y = Some p" if y: "b # xs = L1 @ y # R1" "y \<in> set (L @ [p])" for L1 y R1
  proof (cases "y = p")
    case False
    then have "y \<in> set L" using y(2) by simp
    then obtain L2 L3 where l: "L = L2 @ y # L3" by (metis split_list)
    have pp: "path h y L3 p" using path_next(2)[OF p, of L2 y "L3 @ p # R"] d(1) l by simp
    have "\<not> (x < bp \<and> bp < hptr h x) \<and> \<not> (hptr h x \<le> x \<and> (x < bp \<or> bp < hptr h x))" if x: "x \<in> set (y # L3)" for x
    proof -
      obtain M1 M2 where m: "y # L3 = M1 @ x # M2" using x by (metis split_list)
      obtain z where z: "hptr h x = z" "z \<in> set (M2 @ [p])" using nx[of "L2 @ M1" x "M2 @ p # R"] d(1) l m by (cases M2) auto
      have e: "b # xs = (L2 @ M1) @ x # M2 @ p # R" using d(1) l m by simp
      have "x < z" using s z(2) unfolding e by (auto simp: sorted_wrt_append)
      moreover have "z < bp" using d(2) z(2) l m by auto
      ultimately show ?thesis using z(1) by simp
    qed
    then show ?thesis using free_find_skip[OF pp] stop by simp
  qed (simp add: stop)
  have "b \<in> set (L @ [p])" using d(1) by (cases L) auto
  then have low: "free_find h bp b = Some p" using sub[of "[]" b xs] by simp
  show ?thesis
  proof (cases "f \<in> set (L @ [p])")
    case True
    then show ?thesis using sub f by (metis split_list)
  next
    case False
    then have "f \<in> set R" using f d(1) by auto
    then obtain R1 R2 where r: "R = R1 @ f # R2" by (metis split_list)
    have pp: "path h f R2 b" using path_next(2)[OF p, of "L @ p # R1" f R2] d(1) r by simp
    have "\<not> (x < bp \<and> bp < hptr h x) \<and> \<not> (hptr h x \<le> x \<and> (x < bp \<or> bp < hptr h x))" if x: "x \<in> set (f # R2)" for x
    proof -
      obtain M1 M2 where m: "f # R2 = M1 @ x # M2" using x by (metis split_list)
      have e: "b # xs = (L @ p # R1 @ M1) @ x # M2" using d(1) r m by simp
      have "bp < x" using d(3) r x by auto
      moreover have "b < bp" using d(1,2) by (cases L) auto
      moreover have "hptr h x = b \<or> x < hptr h x" using nx[OF e] s unfolding e by (cases M2) (auto simp: sorted_wrt_append)
      ultimately show ?thesis by auto
    qed
    then show ?thesis using free_find_skip[OF pp] low by simp
  qed
qed

section \<open>free\<close>

definition first_of :: "nat list \<Rightarrow> nat \<Rightarrow> nat" where
  "first_of T b = (case T of [] \<Rightarrow> b | t # _ \<Rightarrow> t)"

lemma path_first: "path h p T b \<Longrightarrow> hptr h p = first_of T b"
  by (cases T) (simp_all add: first_of_def)

lemma path_set:
  assumes "path h p T b" "hptr h' q = first_of T b" "\<And>x. x \<in> set T \<Longrightarrow> hptr h' x = hptr h x"
  shows "path h' q T b"
proof (cases T)
  case (Cons t T')
  then have "path h' t T' b = path h t T' b" using assms(3) by (intro path_cong) auto
  then show ?thesis using assms Cons by (simp add: first_of_def)
qed (use assms in \<open>simp add: first_of_def\<close>)

lemma disjoint_order:
  assumes "ext h a \<inter> ext h x = {}" "0 < hsize h a" "0 < hsize h x"
  shows "a < x \<Longrightarrow> a + 8 * hsize h a \<le> x" "x < a \<Longrightarrow> x + 8 * hsize h x \<le> a" "a \<noteq> x"
proof -
  have x: "x \<in> ext h x" "a \<in> ext h a" using assms(2,3) by (auto simp: ext_def)
  show "a < x \<Longrightarrow> a + 8 * hsize h a \<le> x" using x(1) assms(1) by (auto simp: ext_def)
  show "x < a \<Longrightarrow> x + 8 * hsize h x \<le> a" using x(2) assms(1) by (auto simp: ext_def)
  show "a \<noteq> x" using x assms(1) by auto
qed

text \<open>After \<open>join_up\<close> the block ends strictly below the free blocks \<open>T\<close> that remain above it.\<close>

lemma join_up_ok:
  assumes p: "path h p R b" "p < bp" "b < bp" and bl: "blocks h e R hi" and sz: "0 < hsize h bp" "bp + 8 * hsize h bp \<le> hi"
    and R: "\<And>x. x \<in> set R \<Longrightarrow> bp < x \<and> ext h bp \<inter> ext h x = {}"
  obtains T S where "join_up p bp h = set_ptr bp (first_of T b) (set_size bp S h)" "0 < S" "path h (if T = R then p else hd R) T b" "set T \<subseteq> set R"
    "blocks h (bp + 8 * S) T hi" "{bp..<bp + 8 * S} \<union> \<Union>(ext h ` set T) = ext h bp \<union> \<Union>(ext h ` set R)"
proof (cases "bp + 8 * hsize h bp = hptr h p")
  case False
  have n: "hptr h p = first_of R b" by (rule path_first[OF p(1)])
  have "blocks h (bp + 8 * hsize h bp) R hi"
  proof (cases R)
    case (Cons r R')
    have "bp < r" "ext h bp \<inter> ext h r = {}" "0 < hsize h r" using R[of r] bl Cons by auto
    then have "bp + 8 * hsize h bp \<le> r" using disjoint_order(1)[of h bp r] sz(1) by simp
    then show ?thesis using bl False n Cons by (simp add: first_of_def)
  qed (use sz in simp)
  moreover have "join_up p bp h = set_ptr bp (first_of R b) (set_size bp (hsize h bp) h)"
    using False n by (simp add: join_up_def Let_def set_size_def)
  ultimately show ?thesis using that[of R "hsize h bp"] p(1) sz(1) by (simp add: ext_def)
next
  case True
  have n: "hptr h p = first_of R b" by (rule path_first[OF p(1)])
  obtain r R' where r: "R = r # R'" using True n p(3) by (cases R) (auto simp: first_of_def)
  have e: "bp + 8 * hsize h bp = r" using True n r by (simp add: first_of_def)
  let ?S = "hsize h bp + hsize h r"
  have pr: "path h r R' b" using p(1) r by simp
  have br: "blocks h (r + 8 * hsize h r) R' hi" "0 < hsize h r" using bl r by auto
  have eS: "bp + 8 * ?S = r + 8 * hsize h r" using e by simp
  have b2: "blocks h (bp + 8 * ?S) R' hi" unfolding eS by (rule br(1))
  have b3: "{bp..<bp + 8 * ?S} = ext h bp \<union> ext h r" unfolding eS ext_def e by (rule ivl_disj_un_two(3)[symmetric]) (use e in auto)
  have "join_up p bp h = set_ptr bp (first_of R' b) (set_size bp ?S h)"
    using True path_first[OF pr] e by (simp add: join_up_def Let_def)
  then show ?thesis using that[of R' ?S] pr b2 b3 sz(1) r by auto
qed

text \<open>Replacing the part of the list behind \<open>p\<close>.\<close>

lemma heap_list_replace:
  assumes hl: "heap_list base h xs" and d: "base # xs = L @ p # R" and t: "path h' p T base"
    and b: "blocks h' (if p = base then base + 7 else p + 8 * hsize h' p) T (brk h')" and z: "p = base \<longleftrightarrow> hsize h' p = 0" "brk h \<le> brk h'" "freep h' \<in> set (L @ p # T)"
    and agree: "\<And>x. x \<in> set L \<Longrightarrow> hptr h' x = hptr h x \<and> hsize h' x = hsize h x"
  shows "heap_list base h' (tl (L @ p # T))"
proof (cases L)
  case Nil
  then show ?thesis using assms by (auto simp: heap_list_def)
next
  case (Cons l L')
  have L: "L = base # L'" "xs = L' @ p # R" using d Cons by auto
  have H: "0 < base" "path h base L' p" "blocks h (base + 7) (L' @ p # R) (brk h)" "hsize h base = 0" "base + 8 \<le> brk h"
    using hl L by (simp_all add: heap_list_def)
  have pb: "p \<noteq> base" using blocks_bounds[OF H(3), of p] by simp
  have "path h' base L' p" using path_cong[of base L' h' h p] H(2) agree L by auto
  moreover obtain m where "blocks h (base + 7) L' m" "m < p" using H(3) by (auto simp: blocks_append)
  moreover have "blocks h' (base + 7) L' m = blocks h (base + 7) L' m" using agree L by (intro blocks_cong) auto
  ultimately show ?thesis using t b z pb H agree[of base] L by (auto simp: heap_list_def blocks_append)
qed

lemma free_ok:
  assumes hl: "heap_list base h xs" and bp: "base + 8 \<le> bp" "0 < hsize h bp" "bp + 8 * hsize h bp \<le> brk h" "\<And>x. x \<in> set xs \<Longrightarrow> ext h bp \<inter> ext h x = {}"
  obtains h' xs' where "free (bp + 8) h = Some h'" "heap_list base h' xs'" "brk h' = brk h" "\<Union>(ext h' ` set xs') = ext h bp \<union> \<Union>(ext h ` set xs)"
    "\<And>a. a \<notin> set xs \<Longrightarrow> a \<noteq> bp \<Longrightarrow> hsize h' a = hsize h a"
    "hptr h' (freep h') = bp \<and> hsize h bp \<le> hsize h' bp \<and> freep h' \<noteq> bp \<or> hsize h bp \<le> hsize h' (freep h') \<and> freep h' \<noteq> base"
proof -
  have H: "0 < base" "path h base xs base" "blocks h (base + 7) xs (brk h)" "hsize h base = 0" "freep h \<in> set (base # xs)" "base + 8 \<le> brk h"
    using hl by (simp_all add: heap_list_def)
  have so: "sorted_wrt (<) (base # xs)" using blocks_sorted[OF H(3)] by auto
  have xb: "base + 7 < x \<and> 0 < hsize h x" if "x \<in> set xs" for x using blocks_bounds[OF H(3) that] by simp
  have nb: "bp \<notin> set xs" using bp(2,4) disjoint_order(3)[of h bp] xb by blast
  obtain L p R where d: "base # xs = L @ p # R" "\<And>x. x \<in> set (L @ [p]) \<Longrightarrow> x < bp" "\<And>x. x \<in> set R \<Longrightarrow> bp < x"
    using split_at[OF so _ nb] bp(1) by (metis add_lessD1 less_le_trans lessI less_add_same_cancel1 zero_less_numeral)
  have ff: "free_find h bp (freep h) = Some p" by (rule free_find_ok[OF H(2) so H(5) d])
  have Rx: "set R \<subseteq> set xs" using d(1) by (cases L) auto
  have pR: "path h p R base" by (rule path_next(2)[OF H(2) d(1)])
  have lt: "p < bp" "base < bp" using d(2)[of p] bp(1) by auto
  obtain e where be: "blocks h e R (brk h)" "p = base \<and> L = [] \<and> R = xs \<or> (\<exists>L'. L = base # L' \<and> xs = L' @ p # R \<and> e = p + 8 * hsize h p)"
  proof (cases L)
    case Nil
    then show ?thesis using that[of "base + 7"] d(1) H(3) by simp
  next
    case (Cons l L')
    then show ?thesis using that[of "p + 8 * hsize h p"] d(1) H(3) by (auto simp: blocks_append)
  qed
  obtain T S where u: "join_up p bp h = set_ptr bp (first_of T base) (set_size bp S h)" "0 < S" "path h (if T = R then p else hd R) T base" "set T \<subseteq> set R"
    "blocks h (bp + 8 * S) T (brk h)" "{bp..<bp + 8 * S} \<union> \<Union>(ext h ` set T) = ext h bp \<union> \<Union>(ext h ` set R)"
    using join_up_ok[OF pR lt be(1) bp(2,3)] d(3) bp(4) Rx by blast
  have Sge: "hsize h bp \<le> S"
  proof (rule ccontr)
    assume "\<not> hsize h bp \<le> S"
    then have "bp + 8 * S \<in> ext h bp" by (auto simp: ext_def)
    then have "bp + 8 * S \<in> \<Union>(ext h ` set T)" using u(6) by auto
    then obtain x where "x \<in> set T" "bp + 8 * S \<in> ext h x" by blast
    then show False using blocks_bounds[OF u(5) \<open>x \<in> set T\<close>] by (simp add: ext_def)
  qed
  define h2 where "h2 = join_down p bp (join_up p bp h)"
  have fr: "free (bp + 8) h = Some (h2\<lparr>freep := p\<rparr>)" by (simp add: free_def ff h2_def)
  have dist: "x \<noteq> p" "x \<noteq> bp" if "x \<in> set L \<union> set T" for x
    using that so d(2,3) u(4) lt(1) unfolding d(1) by (auto simp: sorted_wrt_append)
  have pb: "p \<noteq> bp" using lt by simp
  have pT: "path h' q T base" if "hptr h' q = first_of T base" "\<And>x. x \<in> set T \<Longrightarrow> hptr h' x = hptr h x" for h' q
    by (rule path_set[OF u(3) that])
  have bT: "blocks h' e T hi = blocks h e T hi" if "\<And>x. x \<in> set T \<Longrightarrow> hsize h' x = hsize h x" for h' e hi
    using that by (rule blocks_cong)
  have extT: "\<Union>(ext h' ` (set L \<union> set T)) = \<Union>(ext h ` (set L \<union> set T))" if "\<And>x. x \<in> set L \<union> set T \<Longrightarrow> hsize h' x = hsize h x" for h'
    using that by (simp add: ext_def)
  show thesis
  proof (cases "p + 8 * hsize h p = bp")
    case True
    then obtain L' where L: "L = base # L'" "xs = L' @ p # R" using be(2) H(4) lt by auto
    have h2: "h2 = set_ptr p (first_of T base) (set_size p (hsize h p + S) (set_ptr bp (first_of T base) (set_size bp S h)))"
      using True pb by (simp add: h2_def u(1) join_down_def)
    have eS: "p + 8 * (hsize h p + S) = bp + 8 * S" using True by simp
    define k where "k = h2\<lparr>freep := p\<rparr>"
    have k: "hptr k x = (if x = p \<or> x = bp then first_of T base else hptr h x)" "hsize k x = (if x = p then hsize h p + S else if x = bp then S else hsize h x)"
      "brk k = brk h" "freep k = p" for x using pb by (simp_all add: k_def h2)
    have kx: "hptr k x = hptr h x \<and> hsize k x = hsize h x" if "x \<in> set L \<union> set T" for x using dist[OF that] by (simp add: k)
    have pbase: "p \<noteq> base" using True H(4) lt by auto
    have hl2: "heap_list base k (tl (L @ p # T))"
    proof (rule heap_list_replace[OF hl d(1)])
      show "path k p T base" by (rule pT) (use kx in \<open>simp_all add: k\<close>)
      have "p + 8 * hsize k p = bp + 8 * S" using eS by (simp add: k)
      then show "blocks k (if p = base then base + 7 else p + 8 * hsize k p) T (brk k)" using u(5) bT[of k] kx pbase by (simp only: k(3) if_False) simp
      show "p = base \<longleftrightarrow> hsize k p = 0" using pbase u(2) by (simp add: k)
    qed (use kx in \<open>simp_all add: k\<close>)
    have "\<Union>(ext k ` (set L \<union> set T)) = \<Union>(ext h ` (set L \<union> set T))" by (rule extT) (simp add: kx)
    then have x1: "\<Union>(ext k ` (set L' \<union> set T)) = \<Union>(ext h ` (set L' \<union> set T))" using L H(4) kx[of base] by (simp add: ext_def)
    have x2: "ext k p = ext h p \<union> {bp..<bp + 8 * S}" using True eS by (auto simp: ext_def k)
    show thesis
    proof (rule that[OF fr[folded k_def] hl2 k(3)])
      have "\<Union>(ext k ` set (tl (L @ p # T))) = ext k p \<union> \<Union>(ext k ` (set L' \<union> set T))" using L(1) by auto
      also have "... = ext h p \<union> \<Union>(ext h ` set L') \<union> ({bp..<bp + 8 * S} \<union> \<Union>(ext h ` set T))" unfolding x1 x2 by blast
      also have "... = ext h bp \<union> \<Union>(ext h ` set xs)" unfolding u(6) L(2) by auto
      finally show "\<Union>(ext k ` set (tl (L @ p # T))) = ext h bp \<union> \<Union>(ext h ` set xs)" .
      show "hsize k a = hsize h a" if "a \<notin> set xs" "a \<noteq> bp" for a using that L by (simp add: k)
      show "hptr k (freep k) = bp \<and> hsize h bp \<le> hsize k bp \<and> freep k \<noteq> bp \<or> hsize h bp \<le> hsize k (freep k) \<and> freep k \<noteq> base" using Sge pbase by (simp add: k)
    qed
  next
    case False
    define k where "k = h2\<lparr>freep := p\<rparr>"
    have "h2 = set_ptr p bp (set_ptr bp (first_of T base) (set_size bp S h))" using False pb by (simp add: h2_def u(1) join_down_def)
    then have k: "hptr k x = (if x = p then bp else if x = bp then first_of T base else hptr h x)" "hsize k x = (if x = bp then S else hsize h x)"
      "brk k = brk h" "freep k = p" for x using pb by (simp_all add: k_def)
    have kx: "hptr k x = hptr h x \<and> hsize k x = hsize h x" if "x \<in> set L \<union> set T" for x using dist[OF that] by (simp add: k)
    have sp: "p = base \<longleftrightarrow> hsize h p = 0" using H(4) be(2) xb[of p] by auto
    have lp: "(if p = base then base + 7 else p + 8 * hsize k p) < bp"
      using False bp(1,2) bp(4)[of p] be(2) disjoint_order(2)[of h bp p] sp lt pb by (auto simp: k)
    have hl2: "heap_list base k (tl (L @ p # bp # T))"
    proof (rule heap_list_replace[OF hl d(1)])
      have "path k bp T base" by (rule pT) (use kx pb in \<open>simp_all add: k\<close>)
      then show "path k p (bp # T) base" by (simp add: k)
      show "blocks k (if p = base then base + 7 else p + 8 * hsize k p) (bp # T) (brk k)" using u(2,5) bT[of k] kx lp by (simp add: k(2,3))
      show "p = base \<longleftrightarrow> hsize k p = 0" using sp pb by (simp add: k)
    qed (use kx in \<open>simp_all add: k\<close>)
    have a: "\<Union>(ext k ` (set L \<union> set T)) = \<Union>(ext h ` (set L \<union> set T))" by (rule extT) (simp add: kx)
    have b: "ext k p = ext h p" "ext k bp = {bp..<bp + 8 * S}" "ext k base = {}" "ext h base = {}" using pb H(4) lt by (auto simp: ext_def k)
    have c: "base # tl (L @ p # bp # T) = L @ p # bp # T" using d(1) by (cases L) simp_all
    have "\<Union>(ext k ` set (tl (L @ p # bp # T))) = \<Union>(ext k ` set (base # tl (L @ p # bp # T)))" using b(3) by simp
    also have "... = ext k p \<union> ext k bp \<union> \<Union>(ext k ` (set L \<union> set T))" unfolding c by auto
    also have "... = ext h p \<union> \<Union>(ext h ` set L) \<union> ({bp..<bp + 8 * S} \<union> \<Union>(ext h ` set T))" unfolding a b by blast
    also have "... = ext h bp \<union> \<Union>(ext h ` set (base # xs))" unfolding u(6) d(1) by auto
    also have "... = ext h bp \<union> \<Union>(ext h ` set xs)" using b(4) by simp
    finally have x2: "\<Union>(ext k ` set (tl (L @ p # bp # T))) = ext h bp \<union> \<Union>(ext h ` set xs)" .
    show thesis
      by (rule that[OF fr[folded k_def] hl2 k(3) x2]) (use Sge pb in \<open>simp_all add: k\<close>)
  qed
qed

section \<open>malloc\<close>

lemma blocks_weaken: "blocks h e xs hi \<Longrightarrow> e' \<le> e \<Longrightarrow> blocks h e' xs hi"
  by (cases xs) auto

lemma blocks_disjoint:
  assumes "blocks h e (xs @ z # ys) hi" "x \<in> set xs \<union> set ys"
  shows "ext h z \<inter> ext h x = {}"
proof (cases "x \<in> set ys")
  case True
  then show ?thesis using assms(1) blocks_bounds[of h "z + 8 * hsize h z" ys hi x] by (auto simp: blocks_append ext_def)
next
  case False
  then have x: "x \<in> set xs" using assms(2) by simp
  obtain m where "blocks h e xs m" "m < z" using assms(1) by (auto simp: blocks_append)
  then show ?thesis using blocks_bounds[of h e xs m x] x by (auto simp: ext_def)
qed

text \<open>The search goes round the list once and takes the first block that is large enough.\<close>

lemma search_ok:
  assumes "path h q zs (freep h)" "freep h \<notin> set zs"
  shows "(\<exists>q' z. q' \<in> set (q # zs) \<and> z \<in> set (zs @ [freep h]) \<and> hptr h q' = z \<and> n \<le> hsize h z \<and>
            malloc_loop lim n q (hptr h q) h = (case carve n q' z h of (a, h1) \<Rightarrow> Some (Some a, h1))) \<or>
         ((\<forall>z \<in> set (zs @ [freep h]). hsize h z < n) \<and>
            malloc_loop lim n q (hptr h q) h =
              morecore lim n h \<bind> (\<lambda>(q, h1). case q of None \<Rightarrow> Some (None, h1) | Some p1 \<Rightarrow> malloc_loop lim n p1 (hptr h1 p1) h1))"
  using assms
proof (induction zs arbitrary: q)
  case Nil
  then have e: "hptr h q = freep h" by simp
  show ?case
  proof (cases "n \<le> hsize h (freep h)")
    case True
    then show ?thesis using e by (intro disjI1 exI[of _ q] exI[of _ "freep h"]) (simp add: malloc_loop.simps[of lim n q "freep h" h])
  next
    case False
    then show ?thesis unfolding e by (subst (2) malloc_loop.simps) simp
  qed
next
  case (Cons z zs)
  have e: "hptr h q = z" "path h z zs (freep h)" "freep h \<notin> set zs" "z \<noteq> freep h" using Cons.prems by auto
  show ?case
  proof (cases "n \<le> hsize h z")
    case True
    then show ?thesis using e by (intro disjI1 exI[of _ q] exI[of _ z]) (simp add: malloc_loop.simps[of lim n q z h])
  next
    case False
    have st: "malloc_loop lim n q z h = malloc_loop lim n z (hptr h z) h" using False e(4) by (subst malloc_loop.simps) simp
    from Cons.IH[OF e(2,3)] show ?thesis
    proof (elim disjE exE conjE)
      fix q' z' assume "q' \<in> set (z # zs)" "z' \<in> set (zs @ [freep h])" "hptr h q' = z'" "n \<le> hsize h z'"
        "malloc_loop lim n z (hptr h z) h = (case carve n q' z' h of (a, h1) \<Rightarrow> Some (Some a, h1))"
      then show ?thesis using st e(1) by (intro disjI1 exI[of _ q'] exI[of _ z']) auto
    next
      assume "\<forall>z' \<in> set (zs @ [freep h]). hsize h z' < n" and *: "malloc_loop lim n z (hptr h z) h =
        morecore lim n h \<bind> (\<lambda>(q, h1). case q of None \<Rightarrow> Some (None, h1) | Some p1 \<Rightarrow> malloc_loop lim n p1 (hptr h1 p1) h1)"
      then have "\<forall>z' \<in> set ((z # zs) @ [freep h]). hsize h z' < n" using False by auto
      moreover have "malloc_loop lim n q (hptr h q) h =
        morecore lim n h \<bind> (\<lambda>(q, h1). case q of None \<Rightarrow> Some (None, h1) | Some p1 \<Rightarrow> malloc_loop lim n p1 (hptr h1 p1) h1)"
        unfolding e(1) st by (rule *)
      ultimately show ?thesis by blast
    qed
  qed
qed

text \<open>From \<open>freep\<close> every block of the list is met before \<open>freep\<close> itself.\<close>

lemma rotation:
  assumes "heap_list base h xs"
  obtains zs where "path h (freep h) zs (freep h)" "freep h \<notin> set zs" "set (freep h # zs) = set (base # xs)"
proof -
  have H: "path h base xs base" "blocks h (base + 7) xs (brk h)" "freep h \<in> set (base # xs)" using assms by (simp_all add: heap_list_def)
  have so: "sorted_wrt (<) (base # xs)" using blocks_sorted[OF H(2)] by auto
  obtain L R where d: "base # xs = L @ freep h # R" using H(3) by (metis split_list)
  have "distinct (base # xs)" using so strict_sorted_iff by blast
  then have nf: "freep h \<notin> set L" "freep h \<notin> set R" unfolding d by auto
  show thesis
  proof (cases L)
    case Nil
    then show thesis using d H(1) nf by (intro that[of R]) auto
  next
    case (Cons l L')
    have l: "l = base" using d Cons by simp
    have "path h (freep h) R base" "path h base L' (freep h)" using path_next(2,3)[OF H(1) d] Cons by auto
    then show thesis using nf d Cons l by (intro that[of "R @ base # L'"]) auto
  qed
qed

lemma pred_split:
  assumes "heap_list base h xs" "q \<in> set (base # xs)" "hptr h q = z" "z \<noteq> base"
  obtains L R where "base # xs = L @ q # z # R"
proof -
  obtain L R where d: "base # xs = L @ q # R" using assms(2) by (metis split_list)
  have "hptr h q = (case R of [] \<Rightarrow> base | r # _ \<Rightarrow> r)" using assms(1) d by (intro path_next(1)) (simp_all add: heap_list_def)
  then show thesis using assms(3,4) d that by (cases R) auto
qed

lemma behind:
  assumes "heap_list base h xs" "base # xs = L @ q # z # R"
  shows "(if q = base then base + 7 else q + 8 * hsize h q) < z" "0 < hsize h z" "blocks h (z + 8 * hsize h z) R (brk h)" "path h z R base"
    "q = base \<longleftrightarrow> hsize h q = 0" "\<exists>L'. xs = L' @ z # R \<and> set L' \<subseteq> set (L @ [q])" "z \<notin> set (L @ [q])"
proof -
  have H: "path h base xs base" "blocks h (base + 7) xs (brk h)" "hsize h base = 0" using assms(1) by (simp_all add: heap_list_def)
  have so: "sorted_wrt (<) (base # xs)" using blocks_sorted[OF H(2)] by auto
  then show "z \<notin> set (L @ [q])" unfolding assms(2) by (auto simp: sorted_wrt_append)
  show "path h z R base" using path_next(2)[OF H(1), of "L @ [q]" z R] assms(2) by simp
  show "\<exists>L'. xs = L' @ z # R \<and> set L' \<subseteq> set (L @ [q])" using assms(2) by (cases L) auto
  have *: "blocks h (if q = base then base + 7 else q + 8 * hsize h q) (z # R) (brk h) \<and> (q = base \<longleftrightarrow> hsize h q = 0)"
  proof (cases L)
    case (Cons l L')
    then have x: "xs = L' @ q # z # R" using assms(2) by simp
    then show ?thesis using H(2) blocks_bounds[OF H(2), of q] by (auto simp: blocks_append)
  qed (use assms(2) H in auto)
  then show "(if q = base then base + 7 else q + 8 * hsize h q) < z" "0 < hsize h z" "blocks h (z + 8 * hsize h z) R (brk h)" "q = base \<longleftrightarrow> hsize h q = 0"
    unfolding blocks.simps by - (elim conjE, assumption)+
qed

text \<open>What a successful search takes: a block \<open>b\<close> of exactly \<open>n\<close> units out of the memory of the free blocks.\<close>

definition taken :: "nat \<Rightarrow> nat \<Rightarrow> uheap \<Rightarrow> nat list \<Rightarrow> nat \<Rightarrow> uheap \<Rightarrow> bool" where
  "taken base n h xs b h' \<longleftrightarrow> hsize h' b = n \<and> brk h' = brk h \<and> (\<exists>z \<in> set xs. ext h' b \<subseteq> ext h z) \<and>
     (\<forall>a. (\<forall>x \<in> set xs. a \<notin> ext h x) \<longrightarrow> hsize h' a = hsize h a) \<and>
     (\<exists>xs'. heap_list base h' xs' \<and> (\<forall>x \<in> set xs'. ext h' b \<inter> ext h' x = {} \<and> (\<exists>y \<in> set xs. ext h' x \<subseteq> ext h y)))"

lemma carve_ok:
  assumes hl: "heap_list base h xs" and d: "base # xs = L @ q # z # R" and n: "0 < n" "n \<le> hsize h z"
  shows "\<exists>b h'. carve n q z h = (b + 8, h') \<and> taken base n h xs b h'"
proof -
  note bh = behind[OF hl d]
  obtain L' where x: "xs = L' @ z # R" "set L' \<subseteq> set (L @ [q])" using bh(6) by auto
  have bl: "blocks h (base + 7) (L' @ z # R) (brk h)" using hl x(1) by (simp add: heap_list_def)
  have dj: "ext h z \<inter> ext h y = {}" if "y \<in> set L' \<union> set R" for y by (rule blocks_disjoint[OF bl that])
  have pos: "y \<in> ext h y" if "y \<in> set xs" for y using blocks_bounds[OF bl, of y] that x(1) by (simp add: ext_def)
  show ?thesis
  proof (cases "hsize h z = n")
    case True
    define k where "k = (set_ptr q (hptr h z) h)\<lparr>freep := q\<rparr>"
    have k: "hptr k = (hptr h)(q := hptr h z)" "hsize k = hsize h" "brk k = brk h" "freep k = q" by (simp_all add: k_def)
    have xk: "ext k y = ext h y" for y by (simp add: ext_def k)
    have nq: "q \<notin> set L \<union> set R"
      using hl blocks_sorted[of h "base + 7" xs "brk h"] sorted_wrt.simps(2)[of "(<)" base xs] d
      by (auto simp: heap_list_def sorted_wrt_append dest!: arg_cong[of _ _ "sorted_wrt (<)"])
    have "heap_list base k (tl (L @ q # R))"
    proof (rule heap_list_replace[OF hl d])
      show "path k q R base" using bh(4) nq by (intro path_set[OF bh(4)]) (auto simp: k path_first[OF bh(4)])
      have "blocks h (if q = base then base + 7 else q + 8 * hsize h q) R (brk h)" by (rule blocks_weaken[OF bh(3)]) (use bh(1) in simp)
      then show "blocks k (if q = base then base + 7 else q + 8 * hsize k q) R (brk k)" unfolding k(2,3) using blocks_cong[of R k h] k(2) by metis
    qed (use nq bh(5) in \<open>auto simp: k\<close>)
    moreover have "tl (L @ q # R) = L' @ R" using d x(1) by (cases L) auto
    ultimately have "taken base n h xs z k" using True x(1) dj unfolding taken_def k xk by (intro conjI exI[of _ "L' @ R"]) auto
    moreover have "carve n q z h = (z + 8, k)" using True by (simp add: carve_def k_def)
    ultimately show ?thesis by blast
  next
    case False
    define b where "b = z + 8 * (hsize h z - n)"
    define k where "k = (set_size b n (set_size z (hsize h z - n) h))\<lparr>freep := q\<rparr>"
    have bz: "b \<noteq> z" "b \<in> ext h z" using False n by (auto simp: b_def ext_def)
    have k: "hptr k = hptr h" "hsize k = (hsize h)(z := hsize h z - n, b := n)" "brk k = brk h" "freep k = q" by (simp_all add: k_def)
    have nb: "y \<noteq> b \<and> y \<noteq> z" if "y \<in> set L' \<union> set R" for y using dj[OF that] bz(2) pos[of y] pos[of z] that x(1) by auto
    have sk: "hsize k y = hsize h y" if "y \<in> set L' \<union> set R" for y using nb[OF that] by (simp add: k)
    have ek: "ext k y = ext h y" if "y \<in> set L' \<union> set R" for y using sk[OF that] by (simp add: ext_def)
    have ez: "ext k z \<subseteq> ext h z" "ext k b \<subseteq> ext h z" "ext k b \<inter> ext k z = {}" using bz(1) n False by (auto simp: ext_def k b_def)
    have H: "path h base (L' @ z # R) base" "hsize h base = 0" "0 < base" "base + 8 \<le> brk h" using hl x(1) by (simp_all add: heap_list_def)
    obtain m where m: "blocks h (base + 7) L' m" "m < z" using bl by (auto simp: blocks_append)
    have zb: "base < z" using blocks_bounds[OF bl, of z] by simp
    have "blocks k (base + 7) (L' @ z # R) (brk k)"
      unfolding blocks_append
    proof (intro conjI)
      show "\<exists>m. blocks k (base + 7) L' m \<and> m < z" using m blocks_cong[of L' k h] sk by auto
      show "0 < hsize k z" using bz(1) n False by (simp add: k)
      have "blocks h (z + 8 * hsize k z) R (brk h)" by (rule blocks_weaken[OF bh(3)]) (use bz(1) in \<open>simp add: k\<close>)
      then show "blocks k (z + 8 * hsize k z) R (brk k)" using blocks_cong[of R k h] sk by (simp add: k(3))
    qed
    moreover have "path k base (L' @ z # R) base" using path_cong[of base "L' @ z # R" k h] H(1) by (simp add: k(1))
    moreover have "q \<in> set (base # xs)" using d by simp
    moreover have "base \<noteq> b" using zb by (simp add: b_def)
    ultimately have "heap_list base k (L' @ z # R)" using H zb x(1) by (simp add: heap_list_def k)
    moreover have "ext k b \<inter> ext k y = {} \<and> (\<exists>w \<in> set xs. ext k y \<subseteq> ext h w)" if "y \<in> set (L' @ z # R)" for y
    proof (cases "y = z")
      case False
      then have y: "y \<in> set L' \<union> set R" using that by auto
      then show ?thesis using dj[OF y] ek[OF y] ez(2) x(1) by auto
    qed (use ez x(1) in auto)
    moreover have "hsize k a = hsize h a" if "\<forall>y \<in> set xs. a \<notin> ext h y" for a
    proof -
      have "z \<in> set xs" using x(1) by simp
      then have "a \<noteq> b" "a \<noteq> z" using that bz(2) pos by auto
      then show ?thesis by (simp add: k)
    qed
    moreover have "hsize k b = n" "z \<in> set xs" using x(1) by (simp_all add: k)
    ultimately have "taken base n h xs b k" unfolding taken_def using ez(2) k(3) by blast
    moreover have "carve n q z h = (b + 8, k)" using False by (simp add: carve_def k_def b_def Let_def)
    ultimately show ?thesis by blast
  qed
qed

section \<open>The blocks handed out\<close>

lemma heap_withD:
  assumes "heap_with base A h xs"
  shows "heap_list base h xs" "a \<in> A \<Longrightarrow> base + 8 \<le> a \<and> 0 < hsize h a \<and> a + 8 * hsize h a \<le> brk h"
    "a \<in> A \<Longrightarrow> x \<in> set xs \<Longrightarrow> ext h a \<inter> ext h x = {}" "a \<in> A \<Longrightarrow> b \<in> A \<Longrightarrow> a \<noteq> b \<Longrightarrow> ext h a \<inter> ext h b = {}"
    "a \<in> A \<Longrightarrow> a \<in> ext h a" "x \<in> set xs \<Longrightarrow> base + 7 < x \<and> 0 < hsize h x \<and> x + 8 * hsize h x \<le> brk h"
proof -
  show hl: "heap_list base h xs" and aa: "a \<in> A \<Longrightarrow> base + 8 \<le> a \<and> 0 < hsize h a \<and> a + 8 * hsize h a \<le> brk h"
    and "a \<in> A \<Longrightarrow> x \<in> set xs \<Longrightarrow> ext h a \<inter> ext h x = {}" and "a \<in> A \<Longrightarrow> b \<in> A \<Longrightarrow> a \<noteq> b \<Longrightarrow> ext h a \<inter> ext h b = {}"
    using assms unfolding heap_with_def by blast+
  show "a \<in> A \<Longrightarrow> a \<in> ext h a" using aa by (simp add: ext_def)
  show "x \<in> set xs \<Longrightarrow> base + 7 < x \<and> 0 < hsize h x \<and> x + 8 * hsize h x \<le> brk h" using hl blocks_bounds by (auto simp: heap_list_def)
qed

lemma heap_take:
  assumes w: "heap_with base A h xs" and t: "taken base n h xs b h'" "0 < n"
  shows "b \<notin> A \<and> heap_ok base (insert b A) h' \<and> hsize h' b = n \<and> (\<forall>a \<in> A. hsize h' a = hsize h a)"
proof -
  note W = heap_withD[OF w]
  obtain z xs' where T: "hsize h' b = n" "brk h' = brk h" "z \<in> set xs" "ext h' b \<subseteq> ext h z"
    "\<And>a. (\<forall>x \<in> set xs. a \<notin> ext h x) \<Longrightarrow> hsize h' a = hsize h a" "heap_list base h' xs'"
    "\<And>x. x \<in> set xs' \<Longrightarrow> ext h' b \<inter> ext h' x = {}" "\<And>x. x \<in> set xs' \<Longrightarrow> \<exists>y \<in> set xs. ext h' x \<subseteq> ext h y"
    using t(1) unfolding taken_def by blast
  have sz: "hsize h' a = hsize h a" if "a \<in> A" for a
    by (rule T(5)) (use W(3)[OF that] W(5)[OF that] in blast)
  have ex: "ext h' a = ext h a" if "a \<in> A" for a using sz[OF that] by (simp add: ext_def)
  have bb: "b \<in> ext h' b" "b \<in> ext h z" using T(1,4) t(2) by (auto simp: ext_def)
  have nb: "b \<notin> A" using W(3)[of b z] W(5)[of b] bb(2) T(3) by blast
  have "{b..<b + 8 * n} \<subseteq> {z..<z + 8 * hsize h z}" using T(1,4) by (simp add: ext_def)
  then have "z \<le> b" "b + 8 * n \<le> z + 8 * hsize h z" using t(2) by (simp_all add: ivl_subset)
  then have pb: "base + 8 \<le> b" "b + 8 * n \<le> brk h" using W(6)[OF T(3)] by simp_all
  have "heap_with base (insert b A) h' xs'"
    unfolding heap_with_def
  proof (intro conjI ballI)
    fix a assume a: "a \<in> insert b A"
    show "base + 8 \<le> a" "0 < hsize h' a" "a + 8 * hsize h' a \<le> brk h'" using a W(2) sz T(1,2) pb t(2) by auto
    fix x assume x: "x \<in> set xs' \<union> (insert b A - {a})"
    have A1: "ext h' c \<inter> ext h' b = {}" if "c \<in> A" for c using W(3)[OF that T(3)] ex[OF that] T(4) by blast
    have A2: "ext h' c \<inter> ext h' y = {}" if "c \<in> A" "y \<in> set xs'" for c y using W(3)[OF that(1)] ex[OF that(1)] T(8)[OF that(2)] by blast
    have A3: "ext h' c \<inter> ext h' d = {}" if "c \<in> A" "d \<in> A" "c \<noteq> d" for c d using W(4)[OF that] ex that by simp
    show "ext h' a \<inter> ext h' x = {}" using a x A1 A2 A3 T(7) by blast
  qed (rule T(6))
  then show ?thesis using nb T(1) sz by (auto simp: heap_ok_def)
qed

lemma heap_free:
  assumes w: "heap_with base A h xs" and a: "b \<in> A"
  obtains h' xs' where "free (b + 8) h = Some h'" "heap_with base (A - {b}) h' xs'" "brk h' = brk h"
    "\<And>c. c \<in> A - {b} \<Longrightarrow> hsize h' c = hsize h c" "\<exists>z \<in> set xs'. hsize h b \<le> hsize h' z"
proof -
  note W = heap_withD[OF w]
  obtain h' xs' where F: "free (b + 8) h = Some h'" "heap_list base h' xs'" "brk h' = brk h" "\<Union>(ext h' ` set xs') = ext h b \<union> \<Union>(ext h ` set xs)"
    "\<And>a. a \<notin> set xs \<Longrightarrow> a \<noteq> b \<Longrightarrow> hsize h' a = hsize h a"
    "hptr h' (freep h') = b \<and> hsize h b \<le> hsize h' b \<and> freep h' \<noteq> b \<or> hsize h b \<le> hsize h' (freep h') \<and> freep h' \<noteq> base"
    using free_ok[OF W(1), of b] W(2)[OF a] W(3)[OF a] by metis
  have sz: "hsize h' c = hsize h c" if "c \<in> A - {b}" for c
  proof (rule F(5))
    show "c \<notin> set xs" using W(3)[of c c] W(5)[of c] that by auto
  qed (use that in auto)
  have ex: "ext h' c = ext h c" if "c \<in> A - {b}" for c using sz[OF that] by (simp add: ext_def)
  have dj: "ext h' c \<inter> ext h' x = {}" if "c \<in> A - {b}" "x \<in> set xs'" for c x
  proof -
    have "ext h' x \<subseteq> ext h b \<union> \<Union>(ext h ` set xs)" using F(4) that(2) by blast
    moreover have "ext h c \<inter> (ext h b \<union> \<Union>(ext h ` set xs)) = {}" using W(3)[of c] W(4)[of c b] that(1) a by blast
    ultimately show ?thesis using ex[OF that(1)] by blast
  qed
  have "heap_with base (A - {b}) h' xs'"
    unfolding heap_with_def
  proof (intro conjI ballI)
    fix c assume c: "c \<in> A - {b}"
    show "base + 8 \<le> c" "0 < hsize h' c" "c + 8 * hsize h' c \<le> brk h'" using W(2)[of c] sz[OF c] c F(3) by auto
    fix x assume "x \<in> set xs' \<union> (A - {b} - {c})"
    then show "ext h' c \<inter> ext h' x = {}" using dj[OF c] W(4)[of c x] c ex by auto
  qed (rule F(2))
  moreover have "\<exists>z \<in> set xs'. hsize h b \<le> hsize h' z"
  proof -
    have f: "freep h' \<in> set (base # xs')" using F(2) by (simp add: heap_list_def)
    have "b \<in> set xs'" if e: "hptr h' (freep h') = b"
    proof -
      obtain L R where "base # xs' = L @ freep h' # b # R" using pred_split[OF F(2) f e] W(2)[OF a] by auto
      then show ?thesis by (cases L) auto
    qed
    then show ?thesis using F(6) f by auto
  qed
  ultimately show thesis using that F(1,3) sz by blast
qed

lemma malloc_search:
  assumes w: "heap_with base A h xs" and n: "0 < n"
  shows "(\<exists>b h'. malloc_loop lim n (freep h) (hptr h (freep h)) h = Some (Some (b + 8), h') \<and> taken base n h xs b h') \<or>
         ((\<forall>z \<in> set xs. hsize h z < n) \<and> malloc_loop lim n (freep h) (hptr h (freep h)) h =
              morecore lim n h \<bind> (\<lambda>(q, h1). case q of None \<Rightarrow> Some (None, h1) | Some p1 \<Rightarrow> malloc_loop lim n p1 (hptr h1 p1) h1))"
proof -
  note W = heap_withD[OF w]
  obtain zs where z: "path h (freep h) zs (freep h)" "freep h \<notin> set zs" "set (freep h # zs) = set (base # xs)" by (rule rotation[OF W(1)])
  from search_ok[OF z(1,2), of n lim] show ?thesis
  proof (elim disjE exE conjE)
    fix q y assume s: "q \<in> set (freep h # zs)" "y \<in> set (zs @ [freep h])" "hptr h q = y" "n \<le> hsize h y"
      "malloc_loop lim n (freep h) (hptr h (freep h)) h = (case carve n q y h of (a, h1) \<Rightarrow> Some (Some a, h1))"
    have "y \<noteq> base" using s(4) n W(1) by (auto simp: heap_list_def)
    then obtain L R where d: "base # xs = L @ q # y # R" using pred_split[OF W(1) _ s(3)] s(1) z(3) by metis
    show ?thesis using carve_ok[OF W(1) d n s(4)] s(5) by fastforce
  next
    assume "\<forall>z \<in> set (zs @ [freep h]). hsize h z < n" "malloc_loop lim n (freep h) (hptr h (freep h)) h =
      morecore lim n h \<bind> (\<lambda>(q, h1). case q of None \<Rightarrow> Some (None, h1) | Some p1 \<Rightarrow> malloc_loop lim n p1 (hptr h1 p1) h1)"
    moreover from this(1) have "\<forall>z \<in> set (freep h # zs). hsize h z < n" by simp
    then have "\<forall>z \<in> set xs. hsize h z < n" unfolding z(3) by simp
    ultimately show ?thesis by blast
  qed
qed

lemma heap_grow:
  assumes w: "heap_with base A h xs" and k: "0 < k" "h1 = set_size (brk h) k (h\<lparr>brk := brk h + 8 * k\<rparr>)"
  shows "heap_with base (insert (brk h) A) h1 xs" "brk h \<notin> A"
proof -
  note W = heap_withD[OF w]
  have H: "base + 8 \<le> brk h" "path h base xs base" "blocks h (base + 7) xs (brk h)" "freep h \<in> set (base # xs)" "0 < base" "hsize h base = 0"
    using W(1) by (simp_all add: heap_list_def)
  have h1: "hptr h1 = hptr h" "hsize h1 = (hsize h)(brk h := k)" "brk h1 = brk h + 8 * k" "freep h1 = freep h" by (simp_all add: k(2))
  show nA: "brk h \<notin> A" using W(2)[of "brk h"] by auto
  have nx: "x \<noteq> brk h" if "x \<in> set xs \<union> A" for x using W(2)[of x] W(6)[of x] that by auto
  have up: "blocks h e ys hi \<Longrightarrow> hi \<le> hi' \<Longrightarrow> blocks h e ys hi'" for e ys hi hi' by (induction ys arbitrary: e) auto
  have "blocks h1 (base + 7) xs (brk h1) = blocks h (base + 7) xs (brk h1)" using nx by (intro blocks_cong) (simp add: h1)
  moreover have "path h1 base xs base = path h base xs base" by (intro path_cong) (simp add: h1)
  ultimately have hl: "heap_list base h1 xs" using H up[OF H(3), of "brk h1"] by (simp add: heap_list_def h1)
  have ex: "ext h1 x = ext h x" if "x \<in> set xs \<union> A" for x using nx[OF that] by (simp add: ext_def h1)
  have new: "ext h1 (brk h) \<inter> ext h1 x = {}" if "x \<in> set xs \<union> A" for x using ex[OF that] W(2)[of x] W(6)[of x] that by (auto simp: ext_def h1)
  show "heap_with base (insert (brk h) A) h1 xs"
    unfolding heap_with_def
  proof (intro conjI ballI)
    fix a assume a: "a \<in> insert (brk h) A"
    show "base + 8 \<le> a" "0 < hsize h1 a" "a + 8 * hsize h1 a \<le> brk h1" using a W(2)[of a] nx[of a] H(1) k(1) by (auto simp: h1)
    fix x assume "x \<in> set xs \<union> (insert (brk h) A - {a})"
    then show "ext h1 a \<inter> ext h1 x = {}" using a new[of x] new[of a] W(3,4)[of a x] ex nA by (auto simp: Int_commute)
  qed (rule hl)
qed

lemma morecore_ok:
  assumes w: "heap_with base A h xs" and n: "8 * n < 2 ^ 31"
  shows "(morecore lim n h = Some (None, h) \<and> lim < brk h + 8 * max n 4096) \<or>
         (\<exists>h' xs'. morecore lim n h = Some (Some (freep h'), h') \<and> heap_with base A h' xs' \<and> (\<forall>a \<in> A. hsize h' a = hsize h a) \<and> (\<exists>z \<in> set xs'. n \<le> hsize h' z))"
proof -
  define k where "k = max n 4096"
  have k: "(if n < 4096 then 4096 else n) = k" "0 < k" "8 * k < 2 ^ 31" "n \<le> k" using n by (auto simp: k_def)
  have "(of_nat k * 8 :: u32) = of_nat (8 * k)" by simp
  moreover have "sint (of_nat (8 * k) :: u32) = int (8 * k)"
    using k(3) by (subst sint_small) (simp_all only: unat_of_nat len_num1 len_bit0 len_bit1 len_num0 mod_less, simp_all)
  ultimately have s: "sint (of_nat k * 8 :: u32) = int (8 * k)" by presburger
  show ?thesis
  proof (cases "brk h + 8 * k \<le> lim")
    case False
    then show ?thesis by (simp add: morecore_def k(1) s sbrk_def Let_def k_def[symmetric])
  next
    case True
    define h1 where "h1 = set_size (brk h) k (h\<lparr>brk := brk h + 8 * k\<rparr>)"
    have sb: "sbrk lim (int (8 * k)) h = Some (brk h, h\<lparr>brk := brk h + 8 * k\<rparr>)" using True by (simp add: sbrk_def Let_def nat_add_distrib nat_mult_distrib)
    note g = heap_grow[OF w k(2) h1_def]
    obtain h' xs' where f: "free (brk h + 8) h1 = Some h'" "heap_with base (insert (brk h) A - {brk h}) h' xs'"
      "\<And>c. c \<in> insert (brk h) A - {brk h} \<Longrightarrow> hsize h' c = hsize h1 c" "\<exists>z \<in> set xs'. hsize h1 (brk h) \<le> hsize h' z"
      by (rule heap_free[OF g(1), of "brk h"]) auto
    have "morecore lim n h = Some (Some (freep h'), h')" using f(1) by (simp add: morecore_def k(1) s sb h1_def del: of_nat_mult)
    moreover have "heap_with base A h' xs'" using f(2) g(2) by simp
    moreover have "hsize h' a = hsize h a" if "a \<in> A" for a using f(3)[of a] that g(2) by (auto simp: h1_def)
    moreover have "\<exists>z \<in> set xs'. n \<le> hsize h' z" using f(4) k(4) by (auto simp: h1_def intro: order_trans)
    ultimately show ?thesis by blast
  qed
qed

lemma nunits_eq:
  assumes "unat nbytes < 2147483632"
  shows "nunits nbytes = (unat nbytes + 7) div 8 + 1"
proof -
  have a: "unat (nbytes + 7) = unat nbytes + 7" using assms by (subst unat_add_lem[THEN iffD1]) simp_all
  have "unat ((nbytes + 7) div 8) = (unat nbytes + 7) div 8" by (simp add: unat_div a)
  moreover from this have "unat ((nbytes + 7) div 8 + 1) = unat ((nbytes + 7) div 8) + 1" using assms by (subst unat_add_lem[THEN iffD1]) simp_all
  ultimately show ?thesis by (simp add: nunits_def add.commute)
qed

text \<open>Before the first call \<open>freep\<close> is 0 and there are no blocks.\<close>

definition heap_start :: "nat \<Rightarrow> uheap \<Rightarrow> bool" where
  "heap_start base h \<longleftrightarrow> freep h = 0 \<and> 0 < base \<and> base + 8 \<le> brk h"

definition first_call :: "nat \<Rightarrow> uheap \<Rightarrow> uheap" where
  "first_call base h = (if freep h = 0 then set_size base 0 ((set_ptr base base h)\<lparr>freep := base\<rparr>) else h)"

lemma first_call_ok: "heap_ok base A h \<or> heap_start base h \<and> A = {} \<Longrightarrow> heap_ok base A (first_call base h)"
proof (elim disjE conjE)
  assume "heap_ok base A h"
  then have "0 < freep h" using heap_withD(1,6) by (fastforce simp: heap_ok_def heap_list_def)
  then show ?thesis using \<open>heap_ok base A h\<close> by (simp add: first_call_def)
next
  assume "heap_start base h" "A = {}"
  then have "heap_with base A (first_call base h) []" by (simp add: heap_start_def heap_with_def heap_list_def first_call_def)
  then show ?thesis by (auto simp: heap_ok_def)
qed

lemma malloc_ok:
  assumes ok: "heap_ok base A h" and n: "0 < n" "8 * n < 2 ^ 31"
  shows "(malloc_loop lim n (freep h) (hptr h (freep h)) h = Some (None, h) \<and> lim < brk h + 8 * max n 4096) \<or>
         (\<exists>b h'. malloc_loop lim n (freep h) (hptr h (freep h)) h = Some (Some (b + 8), h') \<and>
            b \<notin> A \<and> heap_ok base (insert b A) h' \<and> hsize h' b = n \<and> (\<forall>a \<in> A. hsize h' a = hsize h a))"
proof -
  obtain xs where w: "heap_with base A h xs" using ok by (auto simp: heap_ok_def)
  let ?m = "malloc_loop lim n (freep h) (hptr h (freep h)) h"
  have "(\<exists>b h'. ?m = Some (Some (b + 8), h') \<and> taken base n h xs b h') \<or>
    ?m = morecore lim n h \<bind> (\<lambda>(q, h1). case q of None \<Rightarrow> Some (None, h1) | Some p1 \<Rightarrow> malloc_loop lim n p1 (hptr h1 p1) h1)"
    using malloc_search[OF w n(1), of lim] by blast
  then show ?thesis
  proof (elim disjE exE conjE)
    fix b h' assume "?m = Some (Some (b + 8), h')" "taken base n h xs b h'"
    then show ?thesis using heap_take[OF w _ n(1)] by blast
  next
    assume m: "?m = morecore lim n h \<bind> (\<lambda>(q, h1). case q of None \<Rightarrow> Some (None, h1) | Some p1 \<Rightarrow> malloc_loop lim n p1 (hptr h1 p1) h1)"
    from morecore_ok[OF w n(2), of lim] show ?thesis
    proof (elim disjE exE conjE)
      fix h1 xs1 assume g: "morecore lim n h = Some (Some (freep h1), h1)" "heap_with base A h1 xs1" "\<forall>a \<in> A. hsize h1 a = hsize h a"
        and z: "\<exists>z \<in> set xs1. n \<le> hsize h1 z"
      have "?m = malloc_loop lim n (freep h1) (hptr h1 (freep h1)) h1" using m g(1) by simp
      moreover obtain b h' where t: "malloc_loop lim n (freep h1) (hptr h1 (freep h1)) h1 = Some (Some (b + 8), h')" "taken base n h1 xs1 b h'"
        using malloc_search[OF g(2) n(1), of lim] z by (meson not_less)
      ultimately show ?thesis using heap_take[OF g(2) t(2) n(1)] g(3) by auto
    qed (use m in simp)
  qed
qed

section \<open>Properties\<close>


definition uheap0 :: uheap where "uheap0 = \<lparr>hptr = (\<lambda>_. 0), hsize = (\<lambda>_. 0), freep = 0, brk = 4096\<rparr>"


end
