(* ===== verification/Console.thy ===== *)
theory Console
  imports Printf Systems
begin

text \<open>
  The console (\<open>console.c\<close>): the text screen, the output routines above it, the line discipline of the input buffer and the
  device's \<open>read\<close> and \<open>write\<close>. The screen is the CGA memory with the cursor register; \<open>serial\<close> is what was handed to
  \<open>uartputc\<close>. The indices of the input buffer are 32-bit words that wrap around. A reader that has to wait is \<open>Asleep\<close> with its
  local variables, and continues from there.
\<close>

section \<open>The screen\<close>

record console =
  cbuf :: "u8 list"
  cr :: u32
  cw :: u32
  ce :: u32
  crt :: "u16 list"
  cursor :: nat
  serial :: "u8 list"
  panicked :: bool

definition BACKSPACE :: int where "BACKSPACE = 0x100"
definition INPUT_BUF :: u32 where "INPUT_BUF = 128"

definition cga_cell :: "int \<Rightarrow> u16" where "cga_cell c = (of_int c AND 0xff) OR 0x0700"

text \<open>Moving the cursor: a new line, a step back, or a character written at the cursor.\<close>

definition cga_move :: "int \<Rightarrow> nat \<Rightarrow> u16 list \<Rightarrow> (nat \<times> u16 list) result" where
  "cga_move c pos v =
    (if c = 10 then Inr (pos + (80 - pos mod 80), v)
     else if c = BACKSPACE then Inr (if pos > 0 then pos - 1 else pos, v)
     else if pos < length v then Inr (pos + 1, v[pos := cga_cell c])
     else Inl (Fault ''crt''))"

text \<open>Scrolling: 23 lines move up by one, and the cells behind the cursor are cleared up to line 24.\<close>

definition cga_scroll :: "nat \<Rightarrow> u16 list \<Rightarrow> u16 list" where
  "cga_scroll pos v =
    (let v1 = take (23 * 80) (drop 80 v) @ drop (23 * 80) v
     in take pos v1 @ replicate (24 * 80 - pos) 0 @ drop (24 * 80) v1)"

definition cgaputc :: "int \<Rightarrow> console \<Rightarrow> console result" where
  "cgaputc c s =
    bind_r (cga_move c (cursor s) (crt s)) (\<lambda>(pos, v).
      if pos > 25 * 80 then Inl (Panic ''pos under/overflow'')
      else let (pos, v) = (if pos div 80 \<ge> 24 then (pos - 80, cga_scroll (pos - 80) v) else (pos, v))
        in if pos < length v then Inr (s\<lparr>crt := v[pos := 0x0720], cursor := pos\<rparr>) else Inl (Fault ''crt''))"

definition consputc :: "int \<Rightarrow> console \<Rightarrow> console result" where
  "consputc c s =
    (if panicked s then Inl (Diverges ''panicked'')
     else cgaputc c (s\<lparr>serial := serial s @ (if c = BACKSPACE then [8, 32, 8] else [of_int c])\<rparr>))"

fun consputs :: "u8 list \<Rightarrow> console \<Rightarrow> console result" where
  "consputs [] s = Inr s"
| "consputs (c # cs) s = bind_r (consputc (uint c) s) (consputs cs)"

text \<open>\<open>consolewrite\<close>; the loop of single characters is \<open>consputs\<close>, and the caller unlocks and locks the inode around it.\<close>

definition consolewrite :: "u8 list \<Rightarrow> console \<Rightarrow> (int \<times> console) result" where
  "consolewrite src s = bind_r (consputs src s) (\<lambda>s1. Inr (int (length src), s1))"

section \<open>The line discipline\<close>

definition erase :: "console \<Rightarrow> console" where "erase s = s\<lparr>ce := ce s - 1\<rparr>"

definition buf_at :: "console \<Rightarrow> u32 \<Rightarrow> u8" where "buf_at s i = cbuf s ! unat (i mod INPUT_BUF)"

lemma unat_pred: "(x :: u32) \<noteq> 0 \<Longrightarrow> unat (x - 1) < unat x"
  by (metis measure_unat)

lemma kill_measure: "(ce s :: u32) \<noteq> cw s \<Longrightarrow> unat (ce s - 1 - cw s) < unat (ce s - cw s)"
  using unat_pred[of "ce s - cw s"] by (simp add: algebra_simps)

text \<open>Control-U: back to the start of the line that is being edited.\<close>

definition kill_done :: "console \<Rightarrow> bool" where
  "kill_done s \<longleftrightarrow> ce s = cw s \<or> buf_at s (ce s - 1) = 10"

lemma cgaputc_frame: "cgaputc c s = Inr s' \<Longrightarrow> cbuf s' = cbuf s \<and> cr s' = cr s \<and> cw s' = cw s \<and> ce s' = ce s \<and> panicked s' = panicked s \<and> serial s' = serial s"
  by (auto simp: cgaputc_def bind_r_def Let_def split: sum.splits if_splits prod.splits)

lemma consputc_frame: "consputc c s = Inr s' \<Longrightarrow> cbuf s' = cbuf s \<and> cr s' = cr s \<and> cw s' = cw s \<and> ce s' = ce s \<and> panicked s' = panicked s"
  by (auto simp: consputc_def split: if_splits dest: cgaputc_frame)

function kill_line :: "console \<Rightarrow> console result" where
  "kill_line s =
    (if kill_done s then Inr s
     else case consputc BACKSPACE (erase s) of Inl e \<Rightarrow> Inl e | Inr s1 \<Rightarrow> kill_line s1)"
  by pat_completeness auto
termination
proof (relation "measure (\<lambda>s. unat (ce s - cw s))")
  fix s s1 assume "\<not> kill_done s" "consputc BACKSPACE (erase s) = Inr s1"
  then show "(s1, s) \<in> measure (\<lambda>s. unat (ce s - cw s))"
    using consputc_frame[of BACKSPACE "erase s" s1] kill_measure[of s] by (simp add: erase_def kill_done_def)
qed simp

declare kill_line.simps [simp del]

text \<open>One character of \<open>consoleintr\<close>: the new state, whether readers are woken, and whether a process listing was asked for.\<close>

definition put_char :: "int \<Rightarrow> console \<Rightarrow> console" where
  "put_char c s = s\<lparr>cbuf := (cbuf s)[unat (ce s mod INPUT_BUF) := of_int c], ce := ce s + 1\<rparr>"

definition consoleintr_char :: "int \<Rightarrow> console \<Rightarrow> (console \<times> bool \<times> bool) result" where
  "consoleintr_char c s =
    (if c = 16 then Inr (s, False, True)
     else if c = 21 then bind_r (kill_line s) (\<lambda>s1. Inr (s1, False, False))
     else if c = 8 \<or> c = 127 then
       (if ce s \<noteq> cw s then bind_r (consputc BACKSPACE (erase s)) (\<lambda>s1. Inr (s1, False, False)) else Inr (s, False, False))
     else if c \<noteq> 0 \<and> ce s - cr s < INPUT_BUF then
       (let c = (if c = 13 then 10 else c) in
        bind_r (consputc c (put_char c s)) (\<lambda>s1.
          if c = 10 \<or> c = 4 \<or> ce s1 = cr s1 + INPUT_BUF then Inr (s1\<lparr>cw := ce s1\<rparr>, True, False) else Inr (s1, False, False)))
     else Inr (s, False, False))"

text \<open>\<open>getc\<close> returns the pending characters one after the other and then a negative value.\<close>

fun consoleintr :: "int list \<Rightarrow> console \<Rightarrow> (console \<times> bool \<times> bool) result" where
  "consoleintr [] s = Inr (s, False, False)"
| "consoleintr (c # cs) s =
    (if c < 0 then Inr (s, False, False)
     else bind_r (consoleintr_char c s) (\<lambda>(s1, w1, d1).
       bind_r (consoleintr cs s1) (\<lambda>(s2, w2, d2). Inr (s2, w1 \<or> w2, d1 \<or> d2))))"

text \<open>
  \<open>consoleread\<close>, from the test of the loop on: \<open>n\<close> bytes are still wanted of the \<open>target\<close>, and \<open>dst\<close> was stored so far.
  It returns a value, or sleeps and continues from the same point when it is woken.
\<close>

datatype read_outcome = Returns int "u8 list" | Asleep int "u8 list"

function consoleread_from :: "bool \<Rightarrow> int \<Rightarrow> int \<Rightarrow> u8 list \<Rightarrow> console \<Rightarrow> read_outcome \<times> console" where
  "consoleread_from killed target n dst s =
    (if n \<le> 0 then (Returns (target - n) dst, s)
     else if cr s = cw s then (if killed then Returns (-1) dst else Asleep n dst, s)
     else
       (let c = buf_at s (cr s); s1 = s\<lparr>cr := cr s + 1\<rparr> in
        if c = 4 then (Returns (target - n) dst, if n < target then s1\<lparr>cr := cr s1 - 1\<rparr> else s1)
        else if c = 10 then (Returns (target - (n - 1)) (dst @ [c]), s1)
        else consoleread_from killed target (n - 1) (dst @ [c]) s1))"
  by pat_completeness auto
termination by (relation "measure (\<lambda>(_, _, n, _, _). nat n)") auto

declare consoleread_from.simps [simp del]

definition consoleread :: "bool \<Rightarrow> int \<Rightarrow> console \<Rightarrow> read_outcome \<times> console" where
  "consoleread killed n s = consoleread_from killed n n [] s"

section \<open>cprintf\<close>

text \<open>Formatted output of the kernel: the digits are lower case, and \<open>%c\<close> is not known.\<close>

definition kdigits :: "u8 list" where
  "kdigits = [48, 49, 50, 51, 52, 53, 54, 55, 56, 57, 97, 98, 99, 100, 101, 102]"

fun kput_digits :: "nat \<Rightarrow> u32 \<Rightarrow> u32 \<Rightarrow> u8 list \<Rightarrow> u8 list result" where
  "kput_digits 0 x base buf = Inl (Fault ''buf'')"
| "kput_digits (Suc n) x base buf =
    (let buf = buf @ [kdigits ! unat (x mod base)]; x = x div base in
     if x \<noteq> 0 then kput_digits n x base buf else Inr buf)"

definition kprintint :: "u32 \<Rightarrow> u32 \<Rightarrow> bool \<Rightarrow> console \<Rightarrow> console result" where
  "kprintint xx base sg s =
    (let neg = sg \<and> sint xx < 0; x = (if neg then - xx else xx) in
     bind_r (kput_digits 16 x base []) (\<lambda>buf.
       bind_r (if neg then if length buf < 16 then Inr (buf @ [45]) else Inl (Fault ''buf'') else Inr buf)
         (\<lambda>buf. consputs (rev buf) s)))"

partial_function (option) cons_str :: "mem \<Rightarrow> u32 \<Rightarrow> console \<Rightarrow> console result option" where
  "cons_str m p s =
    (if m p = 0 then Some (Inr s)
     else case consputc (uint (m p)) s of Inl e \<Rightarrow> Some (Inl e) | Inr s1 \<Rightarrow> cons_str m (p + 1) s1)"

text \<open>One directive: the character behind the percent sign, the argument pointer, and what it leaves of both.\<close>

definition directive :: "mem \<Rightarrow> u8 \<Rightarrow> u32 \<Rightarrow> console \<Rightarrow> (u32 \<times> console) result option" where
  "directive m c argp s =
    (if c = 100 then Some (bind_r (kprintint (get32 m argp) 10 True s) (\<lambda>s. Inr (argp + 4, s)))
     else if c = 120 \<or> c = 112 then Some (bind_r (kprintint (get32 m argp) 16 False s) (\<lambda>s. Inr (argp + 4, s)))
     else if c = 115 then
       (if get32 m argp = 0 then Some (bind_r (consputs null_str s) (\<lambda>s. Inr (argp + 4, s)))
        else cons_str m (get32 m argp) s \<bind> (\<lambda>r. Some (bind_r r (\<lambda>s. Inr (argp + 4, s)))))
     else if c = 37 then Some (bind_r (consputc 37 s) (\<lambda>s. Inr (argp, s)))
     else Some (bind_r (consputs [37, c] s) (\<lambda>s. Inr (argp, s))))"

partial_function (option) cprintf_from :: "mem \<Rightarrow> u32 \<Rightarrow> u32 \<Rightarrow> console \<Rightarrow> console result option" where
  "cprintf_from m f argp s =
    (if m f = 0 then Some (Inr s)
     else if m f \<noteq> 37 then
       (case consputc (uint (m f)) s of Inl e \<Rightarrow> Some (Inl e) | Inr s1 \<Rightarrow> cprintf_from m (f + 1) argp s1)
     else if m (f + 1) = 0 then Some (Inr s)
     else directive m (m (f + 1)) argp s \<bind> (\<lambda>r.
       case r of Inl e \<Rightarrow> Some (Inl e) | Inr (argp1, s1) \<Rightarrow> cprintf_from m (f + 1 + 1) argp1 s1))"

definition cprintf :: "mem \<Rightarrow> u32 \<Rightarrow> u32 \<Rightarrow> console \<Rightarrow> console result option" where
  "cprintf m fmt argp s = (if fmt = 0 then Some (Inl (Panic ''null fmt'')) else cprintf_from m fmt argp s)"

section \<open>The screen stays in bounds\<close>

definition screen_ok :: "console \<Rightarrow> bool" where
  "screen_ok s \<longleftrightarrow> cursor s < 24 * 80 \<and> 24 * 80 \<le> length (crt s) \<and> \<not> panicked s"

lemma cga_scroll_length [simp]: "pos \<le> 1920 \<Longrightarrow> 1920 \<le> length v \<Longrightarrow> length (cga_scroll pos v) = length v"
  by (simp add: cga_scroll_def Let_def)

lemma cga_scroll_rest: "pos \<le> 1920 \<Longrightarrow> 1920 \<le> length v \<Longrightarrow> drop 1920 (cga_scroll pos v) = drop 1920 v"
  by (simp add: cga_scroll_def Let_def)

lemma cga_move_ok:
  assumes "pos < 1920" "1920 \<le> length v"
  obtains p1 v1 where "cga_move c pos v = Inr (p1, v1)" "p1 \<le> 1920" "length v1 = length v" "drop 1920 v1 = drop 1920 v"
proof -
  have "pos = 80 * (pos div 80) + pos mod 80" "pos mod 80 < 80" by simp_all
  moreover have "pos div 80 < 24" using assms(1) by (simp add: less_mult_imp_div_less)
  ultimately have a: "pos + (80 - pos mod 80) \<le> 1920" by linarith
  show thesis
  proof (cases "c = BACKSPACE")
    case True
    then show thesis using assms by (intro that[of "pos - 1" v]) (auto simp: cga_move_def BACKSPACE_def)
  next
    case False
    then show thesis using assms a that unfolding cga_move_def by (cases "c = 10") auto
  qed
qed

lemma consputc_ok:
  assumes "screen_ok s"
  obtains s' where "consputc c s = Inr s'" "screen_ok s'" "length (crt s') = length (crt s)" "drop 1920 (crt s') = drop 1920 (crt s)"
proof -
  have a: "cursor s < 1920" "1920 \<le> length (crt s)" "\<not> panicked s" using assms by (simp_all add: screen_ok_def)
  obtain p1 v1 where m: "cga_move c (cursor s) (crt s) = Inr (p1, v1)" "p1 \<le> 1920" "length v1 = length (crt s)" "drop 1920 v1 = drop 1920 (crt s)"
    by (rule cga_move_ok[OF a(1,2)])
  define p2 where "p2 = (if p1 div 80 \<ge> 24 then p1 - 80 else p1)"
  define v2 where "v2 = (if p1 div 80 \<ge> 24 then cga_scroll (p1 - 80) v1 else v1)"
  have p2: "p2 < 1920" using m(2) by (auto simp: p2_def)
  have v2: "length v2 = length (crt s)" "drop 1920 v2 = drop 1920 (crt s)" using m a(2) by (simp_all add: v2_def cga_scroll_rest)
  have e: "(if p1 div 80 \<ge> 24 then (p1 - 80, cga_scroll (p1 - 80) v1) else (p1, v1)) = (p2, v2)" by (simp add: p2_def v2_def)
  let ?s = "s\<lparr>serial := serial s @ (if c = BACKSPACE then [8, 32, 8] else [of_int c])\<rparr>"
  have "consputc c s = Inr (?s\<lparr>crt := v2[p2 := 0x0720], cursor := p2\<rparr>)"
    using a m(1,2) p2 v2 by (simp add: consputc_def cgaputc_def res_simps e Let_def)
  then show thesis by (rule that) (use p2 v2 a in \<open>auto simp: screen_ok_def\<close>)
qed

section \<open>The line discipline as an editor\<close>

text \<open>Abstractly: the bytes that may be read, and the line that is being edited.\<close>

record tty =
  ready :: "u8 list"
  edit :: "u8 list"

definition tty_char :: "int \<Rightarrow> tty \<Rightarrow> tty \<times> bool" where
  "tty_char c t =
    (if c = 16 then (t, False)
     else if c = 21 then (t\<lparr>edit := []\<rparr>, False)
     else if c = 8 \<or> c = 127 then (t\<lparr>edit := butlast (edit t)\<rparr>, False)
     else if c \<noteq> 0 \<and> length (ready t) + length (edit t) < 128 then
       (let c = (if c = 13 then 10 else c); ed = edit t @ [of_int c] in
        if c = 10 \<or> c = 4 \<or> length (ready t) + length ed = 128 then (\<lparr>ready = ready t @ ed, edit = []\<rparr>, True)
        else (t\<lparr>edit := ed\<rparr>, False))
     else (t, False))"

fun tty_read :: "bool \<Rightarrow> int \<Rightarrow> int \<Rightarrow> u8 list \<Rightarrow> u8 list \<Rightarrow> read_outcome \<times> u8 list" where
  "tty_read killed target n dst [] = (if n \<le> 0 then Returns (target - n) dst else if killed then Returns (-1) dst else Asleep n dst, [])"
| "tty_read killed target n dst (c # cs) =
    (if n \<le> 0 then (Returns (target - n) dst, c # cs)
     else if c = 4 then (Returns (target - n) dst, if n < target then c # cs else cs)
     else if c = 10 then (Returns (target - (n - 1)) (dst @ [c]), cs)
     else tty_read killed target (n - 1) (dst @ [c]) cs)"

definition span :: "console \<Rightarrow> u32 \<Rightarrow> u32 \<Rightarrow> u8 list" where
  "span s i j = map (\<lambda>k. buf_at s (i + of_nat k)) [0..<unat (j - i)]"

definition tty_of :: "console \<Rightarrow> tty" where
  "tty_of s = \<lparr>ready = span s (cr s) (cw s), edit = span s (cw s) (ce s)\<rparr>"

definition cinv :: "console \<Rightarrow> bool" where
  "cinv s \<longleftrightarrow> screen_ok s \<and> length (cbuf s) = 128 \<and> unat (cw s - cr s) + unat (ce s - cw s) \<le> 128 \<and> 10 \<notin> set (edit (tty_of s))"

lemma span_length [simp]: "length (span s i j) = unat (j - i)"
  by (simp add: span_def)

lemma span_same [simp]: "span s i i = []"
  by (simp add: span_def)

lemma unat_minus1: "(x :: u32) \<noteq> 0 \<Longrightarrow> unat x = Suc (unat (x - 1))"
  using unat_minus_one[of x] unat_eq_zero[of x] by simp

lemma span_pred: "i \<noteq> j \<Longrightarrow> span s i j = span s i (j - 1) @ [buf_at s (j - 1)]"
proof -
  assume "i \<noteq> j"
  then have "unat (j - i) = Suc (unat (j - i - 1))" by (intro unat_minus1) simp
  moreover have "j - i - 1 = j - 1 - i" by simp
  ultimately have "unat (j - i) = Suc (unat (j - 1 - i))" by simp
  moreover have "i + of_nat (unat (j - 1 - i)) = j - 1" by simp
  ultimately show ?thesis by (simp only: span_def upt_Suc_append le0 map_append list.map)
qed

lemma span_cons: "i \<noteq> j \<Longrightarrow> span s i j = buf_at s i # span s (i + 1) j"
proof -
  assume "i \<noteq> j"
  then have "unat (j - i) = Suc (unat (j - i - 1))" by (intro unat_minus1) simp
  moreover have "j - i - 1 = j - (i + 1)" by simp
  ultimately have e: "unat (j - i) = Suc (unat (j - (i + 1)))" by simp
  have "[0..<Suc n] = 0 # map Suc [0..<n]" for n by (simp only: upt_conv_Cons zero_less_Suc map_Suc_upt)
  moreover have "i + of_nat (Suc k) = i + 1 + of_nat k" for k by simp
  ultimately show ?thesis by (simp only: span_def e list.map map_map o_def of_nat_0 add.right_neutral) simp
qed

lemma span_cong: "(\<And>k. k < unat (j - i) \<Longrightarrow> buf_at s' (i + of_nat k) = buf_at s (i + of_nat k)) \<Longrightarrow> span s' i j = span s i j"
  by (simp add: span_def)

lemma span_buf: "cbuf s' = cbuf s \<Longrightarrow> span s' i j = span s i j"
  by (simp add: span_def buf_at_def)

lemma span_append: "unat (j - i) + unat (k - j) < 2 ^ 32 \<Longrightarrow> span s i k = span s i j @ span s j k"
proof -
  assume *: "unat (j - i) + unat (k - j) < 2 ^ 32"
  have "(j - i) + (k - j) = k - i" by simp
  moreover have "unat ((j - i) + (k - j)) = unat (j - i) + unat (k - j)" using * by (subst unat_add_lem[THEN iffD1]) simp_all
  ultimately have u: "unat (k - i) = unat (j - i) + unat (k - j)" by simp
  have j: "j + of_nat m = i + of_nat (unat (j - i) + m)" for m by simp
  have "[a..<a + b] = map (\<lambda>m. a + m) [0..<b]" for a b :: nat by (rule nth_equalityI) simp_all
  then show ?thesis unfolding span_def u upt_add_eq_append[OF le0] map_append j by (simp only: map_map o_def)
qed

lemma unat_mod_buf: "unat ((x :: u32) mod INPUT_BUF) = unat x mod 128"
  by (simp add: INPUT_BUF_def unat_mod)

lemma add_mod_buf: "unat ((x :: u32) + of_nat k) mod 128 = (unat x + k) mod 128"
proof -
  have "unat (x + of_nat k) = (unat x + k) mod 2 ^ 32" by (simp add: unat_word_ariths unat_of_nat mod_simps)
  moreover have "(2 :: nat) ^ 32 = 128 * 33554432" by simp
  ultimately show ?thesis by (simp only: mod_mult2_eq) simp
qed

text \<open>The character just typed goes to a cell outside the bytes that are waiting, also when the indices wrap around.\<close>

lemma put_char_span:
  assumes "unat (ce s - cr s) < 128" "length (cbuf s) = 128"
  shows "k < unat (ce s - cr s) \<Longrightarrow> buf_at (put_char c s) (cr s + of_nat k) = buf_at s (cr s + of_nat k)"
    "buf_at (put_char c s) (ce s) = of_int c"
proof -
  have e: "ce s = cr s + of_nat (unat (ce s - cr s))" by simp
  assume k: "k < unat (ce s - cr s)"
  have "unat (ce s mod INPUT_BUF) \<noteq> unat ((cr s + of_nat k) mod INPUT_BUF)"
  proof
    assume "unat (ce s mod INPUT_BUF) = unat ((cr s + of_nat k) mod INPUT_BUF)"
    then have "(unat (cr s) + unat (ce s - cr s)) mod 128 = (unat (cr s) + k) mod 128"
      unfolding unat_mod_buf add_mod_buf by (metis e add_mod_buf)
    then have "unat (ce s - cr s) = k" by (rule mod_add_inj[OF assms(1), rotated]) (use k assms(1) in simp)
    then show False using k by simp
  qed
  then show "buf_at (put_char c s) (cr s + of_nat k) = buf_at s (cr s + of_nat k)" by (simp add: buf_at_def put_char_def)
next
  have "unat (ce s mod INPUT_BUF) < 128" by (simp add: unat_mod_buf)
  then show "buf_at (put_char c s) (ce s) = of_int c" using assms(2) by (simp add: buf_at_def put_char_def)
qed

lemma tty_of_simps [simp]: "ready (tty_of s) = span s (cr s) (cw s)" "edit (tty_of s) = span s (cw s) (ce s)"
  by (simp_all add: tty_of_def)

lemma unat_diff_sum:
  assumes "unat (b - a :: u32) + unat (c - b) \<le> 128"
  shows "unat (c - a) = unat (b - a) + unat (c - b)"
proof -
  have "(b - a) + (c - b) = c - a" by simp
  moreover have "unat ((b - a) + (c - b)) = unat (b - a) + unat (c - b)" using assms by (subst unat_add_lem[THEN iffD1]) simp_all
  ultimately show ?thesis by simp
qed

lemma erase_ok:
  assumes "cinv s" "ce s \<noteq> cw s"
  obtains s' where "consputc BACKSPACE (erase s) = Inr s'" "cinv s'" "tty_of s' = (tty_of s)\<lparr>edit := butlast (edit (tty_of s))\<rparr>"
    "ce s' = ce s - 1" "cw s' = cw s" "cr s' = cr s" "cbuf s' = cbuf s"
proof -
  have c: "screen_ok (erase s)" using assms(1) by (simp add: cinv_def screen_ok_def erase_def)
  obtain s' where s': "consputc BACKSPACE (erase s) = Inr s'" "screen_ok s'" by (rule consputc_ok[OF c])
  have f: "cbuf s' = cbuf s" "cr s' = cr s" "cw s' = cw s" "ce s' = ce s - 1" using consputc_frame[OF s'(1)] by (simp_all add: erase_def)
  have d: "span s (cw s) (ce s) = span s (cw s) (ce s - 1) @ [buf_at s (ce s - 1)]" using assms(2) by (intro span_pred) simp
  have "unat (ce s - 1 - cw s) < unat (ce s - cw s)" by (rule kill_measure[OF assms(2)])
  then have "cinv s'" using assms(1) d s'(2) f by (simp add: cinv_def span_buf[OF f(1)])
  moreover have "tty_of s' = (tty_of s)\<lparr>edit := butlast (edit (tty_of s))\<rparr>" using d f by (simp add: tty_of_def span_buf[OF f(1)])
  ultimately show thesis using that s'(1) f by blast
qed

lemma kill_line_ok:
  assumes "cinv s"
  obtains s' where "kill_line s = Inr s'" "cinv s'" "tty_of s' = (tty_of s)\<lparr>edit := []\<rparr>"
  using assms
proof (induction s arbitrary: thesis rule: kill_line.induct)
  case (1 s)
  show ?case
  proof (cases "ce s = cw s")
    case True
    then show ?thesis using 1(2)[of s] 1(3) by (simp add: kill_line.simps[of s] kill_done_def tty_of_def)
  next
    case False
    have d: "span s (cw s) (ce s) = span s (cw s) (ce s - 1) @ [buf_at s (ce s - 1)]" using False by (intro span_pred) simp
    then have nk: "\<not> kill_done s" using False 1(3) by (auto simp: kill_done_def cinv_def)
    obtain s1 where s1: "consputc BACKSPACE (erase s) = Inr s1" "cinv s1" "tty_of s1 = (tty_of s)\<lparr>edit := butlast (edit (tty_of s))\<rparr>"
      by (rule erase_ok[OF 1(3) False])
    obtain s' where "kill_line s1 = Inr s'" "cinv s'" "tty_of s' = (tty_of s1)\<lparr>edit := []\<rparr>" by (rule 1(1)[OF nk s1(1) _ s1(2)])
    then show ?thesis using 1(2)[of s'] s1(1,3) nk by (simp add: kill_line.simps[of s])
  qed
qed

text \<open>Every character does to the console what it does to the editor.\<close>

lemma span_put:
  assumes "cinv s" "unat (ce s - cr s) < 128"
  shows "span (put_char c s) (cr s) (cw s) = span s (cr s) (cw s)" "span (put_char c s) (cw s) (ce s + 1) = span s (cw s) (ce s) @ [of_int c]"
proof -
  have l: "length (cbuf s) = 128" and u: "unat (ce s - cr s) = unat (cw s - cr s) + unat (ce s - cw s)"
    using assms(1) unat_diff_sum[of "cw s" "cr s" "ce s"] by (auto simp: cinv_def)
  note p = put_char_span[OF assms(2) l]
  show "span (put_char c s) (cr s) (cw s) = span s (cr s) (cw s)" by (rule span_cong) (use p(1) u in simp)
  have "span (put_char c s) (cw s) (ce s) = span s (cw s) (ce s)"
  proof (rule span_cong)
    fix k assume k: "k < unat (ce s - cw s)"
    have "cr s + of_nat (unat (cw s - cr s) + k) = cw s + of_nat k" by simp
    then show "buf_at (put_char c s) (cw s + of_nat k) = buf_at s (cw s + of_nat k)" using p(1)[of "unat (cw s - cr s) + k" c] k u by (simp del: of_nat_add)
  qed
  moreover have "cw s \<noteq> ce s + 1"
  proof
    assume "cw s = ce s + 1"
    then have "ce s - cw s = -1" by simp
    moreover have "(- 1 :: u32) = 4294967295" by simp
    ultimately have "unat (ce s - cw s) = 4294967295" by (simp only:) simp
    then show False using u assms(2) by simp
  qed
  then have "span (put_char c s) (cw s) (ce s + 1) = span (put_char c s) (cw s) (ce s) @ [buf_at (put_char c s) (ce s)]"
    by (subst span_pred) simp_all
  ultimately show "span (put_char c s) (cw s) (ce s + 1) = span s (cw s) (ce s) @ [of_int c]" using p(2) by simp
qed

lemma consoleintr_char_ok:
  assumes inv: "cinv s" and c: "0 \<le> c" "c < 256"
  obtains s' w d where "consoleintr_char c s = Inr (s', w, d)" "cinv s'" "tty_char c (tty_of s) = (tty_of s', w)" "d \<longleftrightarrow> c = 16"
proof -
  have i: "length (cbuf s) = 128" "screen_ok s" and u: "unat (ce s - cr s) = unat (cw s - cr s) + unat (ce s - cw s)" and ne: "10 \<notin> set (span s (cw s) (ce s))"
    using inv unat_diff_sum[of "cw s" "cr s" "ce s"] by (auto simp: cinv_def)
  consider "c = 16" | "c = 21" | "c = 8 \<or> c = 127" | "c \<noteq> 16" "c \<noteq> 21" "c \<noteq> 8" "c \<noteq> 127" "\<not> (c \<noteq> 0 \<and> ce s - cr s < INPUT_BUF)"
    | "c \<noteq> 16" "c \<noteq> 21" "c \<noteq> 8" "c \<noteq> 127" "c \<noteq> 0" "ce s - cr s < INPUT_BUF" by blast
  then show thesis
  proof cases
    case 1
    then show thesis using inv that[of s False True] by (simp add: consoleintr_char_def tty_char_def)
  next
    case 2
    obtain s' where "kill_line s = Inr s'" "cinv s'" "tty_of s' = (tty_of s)\<lparr>edit := []\<rparr>" by (rule kill_line_ok[OF inv])
    then show thesis using 2 by (intro that[of s' False False]) (simp_all add: consoleintr_char_def tty_char_def res_simps)
  next
    case 3
    show thesis
    proof (cases "ce s = cw s")
      case True
      then show thesis using 3 inv by (intro that[of s False False]) (auto simp: consoleintr_char_def tty_char_def tty_of_def)
    next
      case False
      obtain s' where "consputc BACKSPACE (erase s) = Inr s'" "cinv s'" "tty_of s' = (tty_of s)\<lparr>edit := butlast (edit (tty_of s))\<rparr>" by (rule erase_ok[OF inv False])
      then show thesis using 3 False by (intro that[of s' False False]) (auto simp: consoleintr_char_def tty_char_def res_simps)
    qed
  next
    case 4
    then have "\<not> (c \<noteq> 0 \<and> unat (cw s - cr s) + unat (ce s - cw s) < 128)" using u by (simp add: INPUT_BUF_def word_less_nat_alt)
    then show thesis using 4 inv by (intro that[of s False False]) (auto simp: consoleintr_char_def tty_char_def)
  next
    case 5
    define c' where "c' = (if c = 13 then 10 else c)"
    have lt: "unat (ce s - cr s) < 128" using 5 by (simp add: INPUT_BUF_def word_less_nat_alt)
    have pc: "screen_ok (put_char c' s)" using i(2) by (simp add: screen_ok_def put_char_def)
    obtain s1 where s1: "consputc c' (put_char c' s) = Inr s1" "screen_ok s1" by (rule consputc_ok[OF pc])
    have f: "cbuf s1 = cbuf (put_char c' s)" "cr s1 = cr s" "cw s1 = cw s" "ce s1 = ce s + 1" using consputc_frame[OF s1(1)] by (simp_all add: put_char_def)
    have sp: "span s1 (cr s) (cw s) = span s (cr s) (cw s)" "span s1 (cw s) (ce s + 1) = span s (cw s) (ce s) @ [of_int c']"
      using span_put[OF inv lt] by (simp_all add: span_buf[OF f(1)])
    have l1: "length (cbuf s1) = 128" using i(1) f(1) by (simp add: put_char_def)
    have u1: "unat (ce s + 1 - cw s) = unat (ce s - cw s) + 1" using arg_cong[OF sp(2), of length] by simp
    have u2: "unat (ce s + 1 - cr s) = unat (ce s - cr s) + 1" using unat_diff_sum[of "cw s" "cr s" "ce s + 1"] u u1 lt by simp
    have full: "ce s1 = cr s1 + INPUT_BUF \<longleftrightarrow> unat (cw s - cr s) + (unat (ce s - cw s) + 1) = 128"
    proof -
      have "ce s1 = cr s1 + INPUT_BUF \<longleftrightarrow> ce s + 1 - cr s = 128" using f by (auto simp: INPUT_BUF_def algebra_simps)
      also have "\<dots> \<longleftrightarrow> unat (ce s + 1 - cr s) = 128" by (simp add: word_unat_eq_iff)
      finally show ?thesis using u2 u by simp
    qed
    have c': "uint (of_int c' :: u8) = c'" using c by (simp add: c'_def uint_word_of_int)
    let ?K = "c' = 10 \<or> c' = 4 \<or> ce s1 = cr s1 + INPUT_BUF"
    have ci: "consoleintr_char c s = Inr (if ?K then (s1\<lparr>cw := ce s1\<rparr>, True, False) else (s1, False, False))"
      using 5 s1(1) by (simp add: consoleintr_char_def c'_def[symmetric] res_simps)
    have tc: "tty_char c (tty_of s) = (if ?K then (\<lparr>ready = span s (cr s) (cw s) @ span s (cw s) (ce s) @ [of_int c'], edit = []\<rparr>, True)
        else ((tty_of s)\<lparr>edit := span s (cw s) (ce s) @ [of_int c']\<rparr>, False))"
      using 5 lt u unfolding full by (simp add: tty_char_def c'_def[symmetric])
    show thesis
    proof (cases ?K)
      case True
      have "span s1 (cr s) (ce s + 1) = span s1 (cr s) (cw s) @ span s1 (cw s) (ce s + 1)" using u u1 lt by (intro span_append) simp
      then have "tty_of (s1\<lparr>cw := ce s1\<rparr>) = \<lparr>ready = span s (cr s) (cw s) @ span s (cw s) (ce s) @ [of_int c'], edit = []\<rparr>"
        using sp f by (simp add: tty_of_def span_buf[of "s1\<lparr>cw := ce s + 1\<rparr>" s1])
      moreover have "cinv (s1\<lparr>cw := ce s1\<rparr>)" using s1(2) l1 u2 lt f by (simp add: cinv_def screen_ok_def)
      ultimately show thesis using True ci tc 5 by (intro that[of "s1\<lparr>cw := ce s1\<rparr>" True False]) simp_all
    next
      case False
      then have "of_int c' \<noteq> (10 :: u8)" using c' by (auto dest: arg_cong[of _ _ uint])
      then have "cinv s1" using s1(2) l1 u u1 lt f sp ne by (simp add: cinv_def)
      moreover have "tty_of s1 = (tty_of s)\<lparr>edit := span s (cw s) (ce s) @ [of_int c']\<rparr>" using sp f by (simp add: tty_of_def)
      ultimately show thesis using False ci tc 5 by (intro that[of s1 False False]) simp_all
    qed
  qed
qed

fun tty_chars :: "int list \<Rightarrow> tty \<Rightarrow> tty \<times> bool" where
  "tty_chars [] t = (t, False)"
| "tty_chars (c # cs) t = (if c < 0 then (t, False) else let (t1, w1) = tty_char c t; (t2, w2) = tty_chars cs t1 in (t2, w1 \<or> w2))"

lemma consoleintr_ok:
  assumes "cinv s" "\<forall>c \<in> set cs. c < 256"
  shows "\<exists>s' w d. consoleintr cs s = Inr (s', w, d) \<and> cinv s' \<and> tty_chars cs (tty_of s) = (tty_of s', w)"
  using assms
proof (induction cs arbitrary: s)
  case (Cons c cs)
  show ?case
  proof (cases "c < 0")
    case False
    obtain s1 w1 d1 where 1: "consoleintr_char c s = Inr (s1, w1, d1)" "cinv s1" "tty_char c (tty_of s) = (tty_of s1, w1)"
      by (rule consoleintr_char_ok[OF Cons.prems(1), of c]) (use False Cons.prems(2) in auto)
    obtain s2 w2 d2 where "consoleintr cs s1 = Inr (s2, w2, d2)" "cinv s2" "tty_chars cs (tty_of s1) = (tty_of s2, w2)"
      using Cons.IH[OF 1(2)] Cons.prems(2) by auto
    then show ?thesis using 1 False by (simp add: res_simps)
  qed (use Cons.prems in auto)
qed auto

lemma consoleread_ok:
  assumes "cinv s" "consoleread_from k t n dst s = (r, s')"
  shows "cinv s' \<and> edit (tty_of s') = edit (tty_of s) \<and> tty_read k t n dst (ready (tty_of s)) = (r, ready (tty_of s'))"
  using assms
proof (induction k t n dst s rule: consoleread_from.induct)
  case (1 k t n dst s)
  show ?case
  proof (cases "n \<le> 0 \<or> cr s = cw s")
    case True
    then show ?thesis using 1(2,3) by (cases "span s (cr s) (cw s)") (auto simp: consoleread_from.simps[of k t n dst s] split: if_splits)
  next
    case False
    define s1 where "s1 = s\<lparr>cr := cr s + 1\<rparr>"
    have sb: "span s1 i j = span s i j" for i j by (rule span_buf) (simp add: s1_def)
    have d: "span s (cr s) (cw s) = buf_at s (cr s) # span s (cr s + 1) (cw s)" using False by (intro span_cons) simp
    have "unat (cw s - cr s) = Suc (unat (cw s - (cr s + 1)))" using arg_cong[OF d, of length] by simp
    then have i1: "cinv s1" using 1(2) sb by (simp add: cinv_def screen_ok_def s1_def)
    have st: "consoleread_from k t n dst s = (if buf_at s (cr s) = 4 then (Returns (t - n) dst, if n < t then s1\<lparr>cr := cr s1 - 1\<rparr> else s1)
        else if buf_at s (cr s) = 10 then (Returns (t - (n - 1)) (dst @ [10]), s1)
        else consoleread_from k t (n - 1) (dst @ [buf_at s (cr s)]) s1)"
      using False by (simp add: consoleread_from.simps[of k t n dst s] s1_def Let_def)
    have s1s: "s1\<lparr>cr := cr s1 - 1\<rparr> = s" by (simp add: s1_def)
    have fr: "cr s1 = cr s + 1" "cw s1 = cw s" "ce s1 = ce s" by (simp_all add: s1_def)
    show ?thesis
    proof (cases "buf_at s (cr s) = 4 \<or> buf_at s (cr s) = 10")
      case True
      then show ?thesis using 1(2,3) i1 d sb fr False unfolding st s1s by (auto split: if_splits)
    next
      case False2: False
      have "cinv s' \<and> edit (tty_of s') = edit (tty_of s1) \<and> tty_read k t (n - 1) (dst @ [buf_at s (cr s)]) (ready (tty_of s1)) = (r, ready (tty_of s'))"
        using 1(3) False2 st by (intro 1(1)) (use False i1 in \<open>auto simp: s1_def\<close>)
      then show ?thesis using False2 False d sb fr by simp
    qed
  qed
qed

section \<open>Readers and the keyboard interleaved\<close>

datatype reader = Idle | Reading bool bool int int "u8 list" | Done int "u8 list"

text \<open>\<open>Reading a k t n dst\<close>: inside \<open>consoleread\<close>, asleep if \<open>a\<close>, killed if \<open>k\<close>, with \<open>n\<close> of \<open>t\<close> bytes still to come.\<close>

fun asleep :: "reader \<Rightarrow> bool" where
  "asleep (Reading a _ _ _ _) = a"
| "asleep _ = False"

fun awaken :: "reader \<Rightarrow> reader" where
  "awaken (Reading _ k t n dst) = Reading False k t n dst"
| "awaken r = r"

fun outcome :: "bool \<Rightarrow> int \<Rightarrow> read_outcome \<Rightarrow> reader" where
  "outcome k t (Returns v dst) = Done v dst"
| "outcome k t (Asleep n dst) = Reading True k t n dst"

inductive con_step :: "console \<times> (nat \<Rightarrow> reader) \<Rightarrow> console \<times> (nat \<Rightarrow> reader) \<Rightarrow> bool" where
  key: "\<forall>c \<in> set cs. c < 256 \<Longrightarrow> consoleintr cs s = Inr (s', w, d) \<Longrightarrow> con_step (s, r) (s', if w then awaken \<circ> r else r)"
| call: "\<not> (\<exists>a k t n dst. r i = Reading a k t n dst) \<Longrightarrow> con_step (s, r) (s, r(i := Reading False False n n []))"
| run: "r i = Reading False k t n dst \<Longrightarrow> consoleread_from k t n dst s = (v, s') \<Longrightarrow> con_step (s, r) (s', r(i := outcome k t v))"
| kill: "r i = Reading a k t n dst \<Longrightarrow> con_step (s, r) (s, r(i := Reading False True t n dst))"
| put: "consolewrite src s = Inr (v, s') \<Longrightarrow> con_step (s, r) (s', r)"

text \<open>The same readers at the editor.\<close>

inductive tty_step :: "tty \<times> (nat \<Rightarrow> reader) \<Rightarrow> tty \<times> (nat \<Rightarrow> reader) \<Rightarrow> bool" where
  tty_key: "tty_chars cs t = (t', w) \<Longrightarrow> tty_step (t, r) (t', if w then awaken \<circ> r else r)"
| tty_call: "\<not> (\<exists>a k t n dst. r i = Reading a k t n dst) \<Longrightarrow> tty_step (t, r) (t, r(i := Reading False False n n []))"
| tty_run: "r i = Reading False k g n dst \<Longrightarrow> tty_read k g n dst (ready t) = (v, rs) \<Longrightarrow> tty_step (t, r) (t\<lparr>ready := rs\<rparr>, r(i := outcome k g v))"
| tty_kill: "r i = Reading a k g n dst \<Longrightarrow> tty_step (t, r) (t, r(i := Reading False True g n dst))"
| tty_write: "tty_step (t, r) (t, r)"

lemma consputs_ok:
  assumes "cinv s"
  shows "\<exists>s'. consputs cs s = Inr s' \<and> cinv s' \<and> tty_of s' = tty_of s"
  using assms
proof (induction cs arbitrary: s)
  case (Cons c cs)
  have "screen_ok s" using Cons.prems by (simp add: cinv_def)
  then obtain s1 where s1: "consputc (uint c) s = Inr s1" "screen_ok s1" by (rule consputc_ok)
  have f: "cbuf s1 = cbuf s" "cr s1 = cr s" "cw s1 = cw s" "ce s1 = ce s" using consputc_frame[OF s1(1)] by simp_all
  then have "tty_of s1 = tty_of s" "cinv s1" using Cons.prems s1(2) by (simp_all add: tty_of_def cinv_def span_buf[OF f(1)])
  then show ?case using Cons.IH[of s1] s1(1) by (simp add: res_simps)
qed simp

lemma con_step_sim:
  assumes "con_step (s, r) (s', r')" "cinv s"
  shows "cinv s' \<and> tty_step (tty_of s, r) (tty_of s', r')"
  using assms
proof (cases rule: con_step.cases)
  case (key cs w d)
  then show ?thesis using consoleintr_ok[OF assms(2), of cs] tty_key[of cs "tty_of s"] by auto
next
  case (run i k t n dst v)
  note c = consoleread_ok[OF assms(2) run(3)]
  have "tty_of s' = (tty_of s)\<lparr>ready := ready (tty_of s')\<rparr>" using c by (simp add: tty_of_def)
  then show ?thesis using c run tty_run[of r i k t n dst "tty_of s" v "ready (tty_of s')"] by simp
next
  case (put src v)
  then show ?thesis using consputs_ok[OF assms(2), of src] tty_write by (auto simp: consolewrite_def bind_r_def split: sum.splits)
next
  case (call i n)
  then show ?thesis using assms(2) tty_call[of r i "tty_of s" n] by simp
qed (use assms(2) in \<open>auto intro: tty_kill\<close>)

interpretation con: simulated_system con_step "\<lambda>(s, _). cinv s" tty_step "\<lambda>(s, r). (tty_of s, r)"
  by unfold_locales (auto dest: con_step_sim)

lemma tty_read_asleep: "tty_read k t n dst rs = (Asleep n' dst', rs') \<Longrightarrow> rs' = []"
  by (induction k t n dst rs rule: tty_read.induct) (auto split: if_splits)

lemma tty_char_quiet: "tty_char c t = (t', False) \<Longrightarrow> ready t' = ready t"
  by (auto simp: tty_char_def Let_def split: if_splits)

lemma tty_chars_quiet: "tty_chars cs t = (t', False) \<Longrightarrow> ready t' = ready t"
proof (induction cs arbitrary: t)
  case (Cons c cs)
  then show ?case by (fastforce simp: Let_def dest: tty_char_quiet split: if_splits prod.splits)
qed simp

lemma asleep_awaken [simp]: "\<not> asleep (awaken x)"
  by (cases x) auto

lemma tty_quiet_step:
  assumes "tty_step (t, r) (t', r')" "\<forall>i. asleep (r i) \<longrightarrow> ready t = []"
  shows "\<forall>i. asleep (r' i) \<longrightarrow> ready t' = []"
  using assms
proof (cases rule: tty_step.cases)
  case (tty_key cs w)
  then show ?thesis using assms(2) by (cases w) (auto dest: tty_chars_quiet)
next
  case (tty_run i k g n dst v rs)
  then show ?thesis using assms(2) tty_read_asleep[of k g n dst "ready t"] by (cases v) (auto split: if_splits)
qed (auto split: if_splits)

text \<open>Nobody sleeps at the editor while there is something to read.\<close>

interpretation tty: invariant_system tty_step "\<lambda>(t, r). \<forall>i. asleep (r i) \<longrightarrow> ready t = []"
proof unfold_locales
  fix x y assume "case x of (t, r) \<Rightarrow> \<forall>i. asleep (r i) \<longrightarrow> ready t = []" "tty_step x y"
  then show "case y of (t, r) \<Rightarrow> \<forall>i. asleep (r i) \<longrightarrow> ready t = []"
    using tty_quiet_step by (cases x; cases y) auto
qed

definition console0 :: "u32 \<Rightarrow> console" where
  "console0 i = \<lparr>cbuf = replicate 128 0, cr = i, cw = i, ce = i, crt = replicate 2000 0, cursor = 0, serial = [], panicked = False\<rparr>"

lemma console0_inv: "cinv (console0 i)"
  by (simp add: cinv_def screen_ok_def console0_def)

section \<open>Properties\<close>



section \<open>cprintf and printf\<close>

lemma consputs_append: "consputs (xs @ ys) s = bind_r (consputs xs s) (consputs ys)"
  by (induction xs arbitrary: s) (simp_all add: bind_r_def split: sum.splits)

lemma kput_digits_decimal: "kput_digits n x 10 buf = put_digits n x 10 buf"
proof (induction n arbitrary: x buf)
  case (Suc n)
  have "unat (x mod 10) < 10" by (simp add: unat_mod)
  then have "unat (x mod 10) \<in> {0, 1, 2, 3, 4, 5, 6, 7, 8, 9}" by auto
  then have "kdigits ! unat (x mod 10) = digits ! unat (x mod 10)" by (auto simp: kdigits_def digits_def)
  then show ?case using Suc by (simp add: Let_def)
qed simp

lemma kprintint_decimal: "kprintint xx 10 True s = bind_r (printint xx 10 True) (\<lambda>ds. consputs ds s)"
  by (simp add: kprintint_def printint_def kput_digits_decimal Let_def bind_r_def split: sum.splits)

lemma print_str_cons:
  assumes "print_str m p out = Some out'"
  shows "\<exists>ds. out' = out @ ds \<and> (\<forall>s. cons_str m p s = Some (consputs ds s))"
proof (rule print_str.raw_induct[OF _ assms])
  fix f m p out out'
  assume ih: "\<And>m p out out'. f m p out = Some out' \<Longrightarrow> \<exists>ds. out' = out @ ds \<and> (\<forall>s. cons_str m p s = Some (consputs ds s))"
    and b: "(if m p = 0 then Some out else f m (p + 1) (out @ [m p])) = Some out'"
  show "\<exists>ds. out' = out @ ds \<and> (\<forall>s. cons_str m p s = Some (consputs ds s))"
  proof (cases "m p = 0")
    case True
    then show ?thesis using b by (simp add: cons_str.simps[of m p])
  next
    case False
    then obtain ds where "out' = (out @ [m p]) @ ds" "\<And>s. cons_str m (p + 1) s = Some (consputs ds s)" using ih[of m "p + 1" "out @ [m p]" out'] b by auto
    then show ?thesis using False by (intro exI[of _ "m p # ds"]) (simp add: cons_str.simps[of m p] bind_r_def split: sum.splits)
  qed
qed

text \<open>A directive that both know, and its output.\<close>

lemma directive_like:
  assumes "printf_char m c True ap out = Some (Inr (pct, ap', out'))" "c \<notin> {99, 120, 112}"
  shows "\<not> pct \<and> (\<exists>ds. out' = out @ ds \<and> (\<forall>s. directive m c ap s = Some (bind_r (consputs ds s) (\<lambda>s. Inr (ap', s)))))"
proof -
  consider "c = 100" | "c = 115" | "c = 37" | "c \<noteq> 100" "c \<noteq> 115" "c \<noteq> 37" by blast
  then show ?thesis
  proof cases
    case 1
    then show ?thesis using assms(1) by (auto simp: printf_char_def directive_def kprintint_decimal bind_r_eq_Inr res_simps)
  next
    case 2
    show ?thesis
    proof (cases "get32 m ap = 0")
      case False
      then have "print_str m (get32 m ap) out = Some out'" "\<not> pct" "ap' = ap + 4"
        using assms(1) 2 by (auto simp: printf_char_def bind_eq_Some_conv)
      then show ?thesis using print_str_cons[of m "get32 m ap" out out'] 2 False by (auto simp: directive_def)
    qed (use assms(1) 2 in \<open>auto simp: printf_char_def directive_def\<close>)
  next
    case 3
    then show ?thesis using assms(1) by (auto simp: printf_char_def directive_def intro!: exI[of _ "[37]"] simp: bind_r_def split: sum.splits)
  next
    case 4
    then show ?thesis using assms by (auto simp: printf_char_def directive_def)
  qed
qed

text \<open>\<open>plain\<close> formats have no directive that the two treat differently.\<close>

fun plain :: "u8 list \<Rightarrow> bool" where
  "plain [] \<longleftrightarrow> True"
| "plain [c] \<longleftrightarrow> True"
| "plain (c # d # cs) \<longleftrightarrow> (if c = 37 then d \<notin> {99, 120, 112} \<and> plain cs else plain (d # cs))"

lemma cprintf_from_like:
  assumes "cstr m f fs" "plain fs" "printf_from m f False ap out = Some (Inr out')"
  shows "\<exists>ds. out' = out @ ds \<and> (\<forall>s. cprintf_from m f ap s = Some (consputs ds s))"
  using assms
proof (induction fs arbitrary: f ap out rule: plain.induct)
  case 1
  then show ?case by (simp add: printf_from.simps[of m f] cprintf_from.simps[of m f])
next
  case (2 c)
  then show ?case
    by (cases "c = 37") (auto simp: printf_from.simps[of m f] cprintf_from.simps[of m f] printf_from.simps[of m "f + 1"] cprintf_from.simps[of m "f + 1"] printf_char_def
        intro!: exI[of _ "[c]"] simp: bind_r_def split: sum.splits)
next
  case (3 c d cs)
  show ?case
  proof (cases "c = 37")
    case False
    then have "printf_from m (f + 1) False ap (out @ [c]) = Some (Inr out')" using 3 by (simp add: printf_from.simps[of m f] printf_char_def)
    then obtain ds where "out' = (out @ [c]) @ ds" "\<And>s. cprintf_from m (f + 1) ap s = Some (consputs ds s)" using 3 False by force
    then show ?thesis using False 3(3) by (intro exI[of _ "c # ds"]) (simp add: cprintf_from.simps[of m f] bind_r_def split: sum.splits)
  next
    case True
    then have p: "printf_from m (f + 1) True ap out = Some (Inr out')" using 3 by (simp add: printf_from.simps[of m f] printf_char_def)
    have mf: "m f = 37" "m (f + 1) = d" "d \<noteq> 0" "cstr m (f + 1 + 1) cs" "plain cs" "d \<notin> {99, 120, 112}" using 3(3,4) True by auto
    have "printf_char m d True ap out \<bind> (\<lambda>r. case r of Inl e \<Rightarrow> Some (Inl e) | Inr (pct, ap, out) \<Rightarrow> printf_from m (f + 1 + 1) pct ap out) = Some (Inr out')"
      using p mf(2,3) printf_from.simps[of m "f + 1" True ap out] by (simp only: if_False)
    then obtain pct ap1 out1 where c: "printf_char m d True ap out = Some (Inr (pct, ap1, out1))" and r: "printf_from m (f + 1 + 1) pct ap1 out1 = Some (Inr out')"
      by (cases "printf_char m d True ap out"; cases "the (printf_char m d True ap out)") (simp_all split: prod.splits)
    obtain ds where d: "\<not> pct" "out1 = out @ ds" "\<And>s. directive m d ap s = Some (bind_r (consputs ds s) (\<lambda>s. Inr (ap1, s)))"
      using directive_like[OF c mf(6)] by auto
    obtain es where e: "out' = out1 @ es" "\<And>s. cprintf_from m (f + 1 + 1) ap1 s = Some (consputs es s)"
      using 3(1)[OF True mf(4,5), of ap1 out1] r d(1) by auto
    have "cprintf_from m f ap s = Some (consputs (ds @ es) s)" for s
      using mf d(3) e(2) by (simp add: cprintf_from.simps[of m f] consputs_append bind_r_def split: sum.splits)
    then show ?thesis using d(2) e(1) by auto
  qed
qed

text \<open>
  C17: the two formatters agree: on every format without \<open>%c\<close>, \<open>%x\<close> and \<open>%p\<close>, \<open>cprintf\<close> of the kernel puts on the console exactly the
  bytes that \<open>printf\<close> of the user library writes for the same arguments, also for unknown directives, null strings and a percent
  sign at the end.
\<close>

theorem cprintf_like_printf:
  assumes "cstr m fmt fs" "plain fs" "fmt \<noteq> 0" "printf_from m fmt False argp [] = Some (Inr out)"
  shows "cprintf m fmt argp s = Some (consputs out s)"
  using cprintf_from_like[OF assms(1,2,4)] assms(3) by (auto simp: cprintf_def)

theorem cprintf_like_printf_witness:
  "cprintf ((\<lambda>_. 0)(4 := 97, 5 := 37, 6 := 115)) 4 100 (console0 0) = Some (consputs (97 # null_str) (console0 0))"
proof -
  let ?m = "(\<lambda>_. 0)(4 := 97, 5 := 37, 6 := 115) :: mem"
  have "cstr ?m 4 [97, 37, 115]" by simp
  moreover have "printf_from ?m 4 False 100 [] = Some (Inr (97 # null_str))"
    by (simp add: printf_from.simps[of ?m] printf_char_def get32_def)
  ultimately show ?thesis using cprintf_like_printf[of ?m 4 "[97, 37, 115]" 100 "97 # null_str" "console0 0"] by simp
qed

end
