(* ===== verification/Biryani.thy ===== *)
theory Biryani
  imports Prelude Systems
begin

text \<open>
  The serving of biryani (\<open>A4/q2\<close>): robot chefs, serving tables and students are threads, and \<open>main\<close> ends the simulation
  when every student has a seat. What a thread does under a mutex is one step; what it does next is its phase. A table's mutex that
  is left locked is recorded. Random numbers are choices of the step. Printing has no effect, except that the students
  announced as served are recorded.
\<close>

section \<open>State\<close>

record table =
  biryaniAmountRemaining :: int
  needVessel :: int
  readyToServe :: bool
  slotsLeft :: int
  studentsEatingHere :: "int list"

record robot =
  biryaniVesselsRemaining :: int
  vesselSize :: int

datatype student_phase = Arriving | Looking nat | Seated

text \<open>
  A table: before its first stores, at the test of robot \<open>i\<close>, at the lock of robot \<open>i\<close>, behind the scan, at the test of the inner loop, reading
  its amount, entering \<open>ready_to_serve_table\<close>, waiting there for its slots, behind the inner loop, gone.
\<close>

datatype table_phase = TStart | Scan nat | AskRobot nat | Scanned bool | Inner | Amount | Ready | WaitFull | Outer | TGone

datatype robot_phase = Cooking | Storing int int | Stored | Emptying | RGone

datatype main_phase = JoinStudents | ClearTables nat | ClearRobots nat | ClearAgain nat | JoinTables nat | EndRobot nat | JoinRobot nat | Over

record mess =
  tables :: "table list"
  robots :: "robot list"
  gameOver :: bool
  leftLocked :: "bool list"
  studentAt :: "student_phase list"
  tableAt :: "table_phase list"
  robotAt :: "robot_phase list"
  mainAt :: main_phase
  served :: "int list"

definition set_table :: "nat \<Rightarrow> table \<Rightarrow> mess \<Rightarrow> mess" where "set_table i t s = s\<lparr>tables := (tables s)[i := t]\<rparr>"
definition set_robot :: "nat \<Rightarrow> robot \<Rightarrow> mess \<Rightarrow> mess" where "set_robot i r s = s\<lparr>robots := (robots s)[i := r]\<rparr>"
definition student_to :: "nat \<Rightarrow> student_phase \<Rightarrow> mess \<Rightarrow> mess" where "student_to i p s = s\<lparr>studentAt := (studentAt s)[i := p]\<rparr>"
definition table_to :: "nat \<Rightarrow> table_phase \<Rightarrow> mess \<Rightarrow> mess" where "table_to i p s = s\<lparr>tableAt := (tableAt s)[i := p]\<rparr>"
definition robot_to :: "nat \<Rightarrow> robot_phase \<Rightarrow> mess \<Rightarrow> mess" where "robot_to i p s = s\<lparr>robotAt := (robotAt s)[i := p]\<rparr>"

section \<open>Students\<close>

text \<open>The search for a free entry runs past the array when there is none.\<close>

fun free_entry :: "int list \<Rightarrow> nat \<Rightarrow> nat result" where
  "free_entry [] j = Inl (Fault ''studentsEatingHere'')"
| "free_entry (x # xs) j = (if x \<noteq> -1 then free_entry xs (j + 1) else Inr j)"

definition student_in_slot :: "nat \<Rightarrow> table \<Rightarrow> table result" where
  "student_in_slot me t =
    bind_r (free_entry (studentsEatingHere t) 0) (\<lambda>j. Inr (t\<lparr>studentsEatingHere := (studentsEatingHere t)[j := int me]\<rparr>))"

text \<open>One round of \<open>wait_for_slot\<close>, at table \<open>i\<close>.\<close>

definition wait_for_slot :: "nat \<Rightarrow> nat \<Rightarrow> mess \<Rightarrow> mess result" where
  "wait_for_slot me i s =
    (if i < length (tables s) then
       (let t = tables s ! i in
        if readyToServe t \<and> slotsLeft t > 0 then
          bind_r (student_in_slot me (t\<lparr>slotsLeft := slotsLeft t - 1\<rparr>)) (\<lambda>t1. Inr (student_to me Seated (set_table i t1 s)))
        else Inr (student_to me (Looking (i + 1)) s))
     else Inr (student_to me (Looking 0) s))"

section \<open>Tables\<close>

definition clear_entries :: "table \<Rightarrow> table" where
  "clear_entries t = t\<lparr>studentsEatingHere := replicate 10 (-1) @ drop 10 (studentsEatingHere t)\<rparr>"

text \<open>\<open>ready_to_serve_table\<close>: its first critical section, which returns with the mutex held when the game is over, with the number of slots drawn.\<close>

definition open_slots :: "nat \<Rightarrow> int \<Rightarrow> mess \<Rightarrow> mess" where
  "open_slots i slots s =
    (if gameOver s then table_to i Inner (s\<lparr>leftLocked := (leftLocked s)[i := True]\<rparr>)
     else table_to i WaitFull (set_table i ((clear_entries (tables s ! i))\<lparr>slotsLeft := slots, readyToServe := True\<rparr>) s))"

text \<open>The polling loop and the serving phase behind it.\<close>

definition serve_full :: "nat \<Rightarrow> mess \<Rightarrow> mess" where
  "serve_full i s =
    (let t = tables s ! i in
     if slotsLeft t = 0 then
       table_to i Inner ((set_table i (clear_entries (t\<lparr>readyToServe := False\<rparr>)) s)
         \<lparr>served := served s @ takeWhile (\<lambda>x. x \<noteq> -1) (take 10 (studentsEatingHere t))\<rparr>)
     else s)"

definition table_start :: "nat \<Rightarrow> mess \<Rightarrow> mess" where
  "table_start i s = table_to i (Scan 0) (set_table i ((tables s ! i)\<lparr>biryaniAmountRemaining := 0, needVessel := 1\<rparr>) s)"

definition table_scan :: "nat \<Rightarrow> nat \<Rightarrow> mess \<Rightarrow> mess" where
  "table_scan i j s =
    (if j < length (robots s) then table_to i (if gameOver s then TGone else AskRobot j) s else table_to i (Scanned False) s)"

definition table_ask :: "nat \<Rightarrow> nat \<Rightarrow> mess \<Rightarrow> mess" where
  "table_ask i j s =
    (let r = robots s ! j; t = tables s ! i in
     if biryaniVesselsRemaining r > 0 then
       table_to i (Scanned True)
         (set_table i (t\<lparr>biryaniAmountRemaining := biryaniAmountRemaining t + vesselSize r\<rparr>)
           (set_robot j (r\<lparr>biryaniVesselsRemaining := biryaniVesselsRemaining r - 1\<rparr>) s))
     else table_to i (Scan (j + 1)) s)"

definition table_scanned :: "nat \<Rightarrow> bool \<Rightarrow> mess \<Rightarrow> mess" where
  "table_scanned i flag s = table_to i (if gameOver s then TGone else if flag then Inner else Scan 0) s"

definition table_inner :: "nat \<Rightarrow> mess \<Rightarrow> mess" where
  "table_inner i s = table_to i (if gameOver s then Outer else Amount) s"

definition table_amount :: "nat \<Rightarrow> mess \<Rightarrow> mess" where
  "table_amount i s = table_to i (if biryaniAmountRemaining (tables s ! i) > 0 then Ready else Inner) s"

definition table_outer :: "nat \<Rightarrow> mess \<Rightarrow> mess" where
  "table_outer i s = table_to i (if gameOver s then TGone else Scan 0) s"

section \<open>Robots\<close>

text \<open>\<open>prepBiryani\<close> behind its sleep, storing the vessels, and its tests behind the store (two tests in a row, of a flag that is only ever set).\<close>

definition robot_cooked :: "nat \<Rightarrow> int \<Rightarrow> int \<Rightarrow> mess \<Rightarrow> mess" where
  "robot_cooked i numOfVessels capacityStudents s = robot_to i (if gameOver s then RGone else Storing numOfVessels capacityStudents) s"

definition robot_store :: "nat \<Rightarrow> int \<Rightarrow> int \<Rightarrow> mess \<Rightarrow> mess" where
  "robot_store i n c s = robot_to i Stored (set_robot i \<lparr>biryaniVesselsRemaining = n, vesselSize = c\<rparr> s)"

definition robot_stored :: "nat \<Rightarrow> mess \<Rightarrow> mess" where
  "robot_stored i s = robot_to i (if gameOver s then RGone else Emptying) s"

definition biryani_ready :: "nat \<Rightarrow> mess \<Rightarrow> mess" where
  "biryani_ready i s = (if biryaniVesselsRemaining (robots s ! i) = 0 then robot_to i RGone s else s)"

section \<open>main\<close>

definition clear_slots :: "nat \<Rightarrow> mess \<Rightarrow> mess" where
  "clear_slots i s = (let t = tables s ! i in if slotsLeft t > 0 then set_table i (t\<lparr>slotsLeft := 0\<rparr>) s else s)"

definition clear_vessels :: "nat \<Rightarrow> mess \<Rightarrow> mess" where
  "clear_vessels i s =
    (let r = robots s ! i in if biryaniVesselsRemaining r > 0 then set_robot i (r\<lparr>biryaniVesselsRemaining := 0\<rparr>) s else s)"

text \<open>The next step of \<open>main\<close>; \<open>None\<close> while it waits.\<close>

fun main_next :: "main_phase \<Rightarrow> mess \<Rightarrow> mess option" where
  "main_next JoinStudents s =
    (if \<forall>p \<in> set (studentAt s). p = Seated then Some (s\<lparr>gameOver := True, mainAt := ClearTables 0\<rparr>) else None)"
| "main_next (ClearTables i) s =
    (if i < length (tables s) then if leftLocked s ! i then None else Some ((clear_slots i s)\<lparr>mainAt := ClearTables (i + 1)\<rparr>)
     else Some (s\<lparr>mainAt := ClearRobots 0\<rparr>))"
| "main_next (ClearRobots i) s =
    (if i < length (robots s) then Some ((clear_vessels i s)\<lparr>mainAt := ClearRobots (i + 1)\<rparr>) else Some (s\<lparr>mainAt := ClearAgain 0\<rparr>))"
| "main_next (ClearAgain i) s =
    (if i < length (tables s) then if leftLocked s ! i then None else Some ((clear_slots i s)\<lparr>mainAt := ClearAgain (i + 1)\<rparr>)
     else Some (s\<lparr>mainAt := JoinTables 0\<rparr>))"
| "main_next (JoinTables i) s =
    (if i < length (tables s) then if tableAt s ! i = TGone then Some (s\<lparr>mainAt := JoinTables (i + 1)\<rparr>) else None
     else Some (s\<lparr>mainAt := EndRobot 0\<rparr>))"
| "main_next (EndRobot i) s =
    (if i < length (robots s) then Some ((clear_vessels i s)\<lparr>mainAt := JoinRobot i\<rparr>) else Some (s\<lparr>mainAt := Over\<rparr>))"
| "main_next (JoinRobot i) s = (if robotAt s ! i = RGone then Some (s\<lparr>mainAt := EndRobot (i + 1)\<rparr>) else None)"
| "main_next Over s = None"

definition mess0 :: "nat \<Rightarrow> nat \<Rightarrow> nat \<Rightarrow> mess" where
  "mess0 robotCount studentCount tableCount =
    \<lparr>tables = replicate tableCount \<lparr>biryaniAmountRemaining = 0, needVessel = 0, readyToServe = False, slotsLeft = 0, studentsEatingHere = replicate 11 0\<rparr>,
     robots = replicate robotCount \<lparr>biryaniVesselsRemaining = 0, vesselSize = 0\<rparr>, gameOver = False,
     leftLocked = replicate tableCount False, studentAt = replicate studentCount Arriving, tableAt = replicate tableCount TStart,
     robotAt = replicate robotCount Cooking, mainAt = JoinStudents, served = []\<rparr>"

section \<open>Steps\<close>

text \<open>A student that runs past the array is a step to a failure.\<close>

definition unlocked :: "mess \<Rightarrow> nat \<Rightarrow> bool" where
  "unlocked s i \<longleftrightarrow> (i < length (tables s) \<longrightarrow> \<not> leftLocked s ! i)"

inductive student_step :: "nat \<Rightarrow> mess \<Rightarrow> mess result \<Rightarrow> bool" for me where
  arrive: "me < length (studentAt s) \<Longrightarrow> studentAt s ! me = Arriving \<Longrightarrow> student_step me s (Inr (student_to me (Looking 0) s))"
| look: "me < length (studentAt s) \<Longrightarrow> studentAt s ! me = Looking i \<Longrightarrow> unlocked s i \<Longrightarrow> student_step me s (wait_for_slot me i s)"

inductive table_step :: "nat \<Rightarrow> mess \<Rightarrow> mess \<Rightarrow> bool" for i where
  "i < length (tables s) \<Longrightarrow> tableAt s ! i = TStart \<Longrightarrow> table_step i s (table_start i s)"
| "i < length (tables s) \<Longrightarrow> tableAt s ! i = Scan j \<Longrightarrow> table_step i s (table_scan i j s)"
| "i < length (tables s) \<Longrightarrow> tableAt s ! i = AskRobot j \<Longrightarrow> unlocked s i \<Longrightarrow> table_step i s (table_ask i j s)"
| "i < length (tables s) \<Longrightarrow> tableAt s ! i = Scanned f \<Longrightarrow> table_step i s (table_scanned i f s)"
| "i < length (tables s) \<Longrightarrow> tableAt s ! i = Inner \<Longrightarrow> table_step i s (table_inner i s)"
| "i < length (tables s) \<Longrightarrow> tableAt s ! i = Amount \<Longrightarrow> unlocked s i \<Longrightarrow> table_step i s (table_amount i s)"
| "i < length (tables s) \<Longrightarrow> tableAt s ! i = Ready \<Longrightarrow> unlocked s i \<Longrightarrow>
    1 \<le> slots \<Longrightarrow> slots \<le> min 10 (biryaniAmountRemaining (tables s ! i)) \<Longrightarrow> table_step i s (open_slots i slots s)"
| "i < length (tables s) \<Longrightarrow> tableAt s ! i = WaitFull \<Longrightarrow> unlocked s i \<Longrightarrow> table_step i s (serve_full i s)"
| "i < length (tables s) \<Longrightarrow> tableAt s ! i = Outer \<Longrightarrow> table_step i s (table_outer i s)"

inductive robot_step :: "nat \<Rightarrow> mess \<Rightarrow> mess \<Rightarrow> bool" for i where
  "i < length (robots s) \<Longrightarrow> robotAt s ! i = Cooking \<Longrightarrow> 1 \<le> n \<Longrightarrow> n \<le> 10 \<Longrightarrow> 25 \<le> c \<Longrightarrow> c \<le> 50 \<Longrightarrow> robot_step i s (robot_cooked i n c s)"
| "i < length (robots s) \<Longrightarrow> robotAt s ! i = Storing n c \<Longrightarrow> robot_step i s (robot_store i n c s)"
| "i < length (robots s) \<Longrightarrow> robotAt s ! i = Stored \<Longrightarrow> robot_step i s (robot_stored i s)"
| "i < length (robots s) \<Longrightarrow> robotAt s ! i = Emptying \<Longrightarrow> robot_step i s (biryani_ready i s)"

inductive mess_step :: "mess \<Rightarrow> mess \<Rightarrow> bool" where
  by_student: "student_step i s (Inr t) \<Longrightarrow> mess_step s t"
| by_table: "table_step i s t \<Longrightarrow> mess_step s t"
| by_robot: "robot_step i s t \<Longrightarrow> mess_step s t"
| by_main: "main_next (mainAt s) s = Some t \<Longrightarrow> mess_step s t"

section \<open>Seats\<close>

definition seats :: "table \<Rightarrow> int list" where
  "seats t = (if readyToServe t then takeWhile (\<lambda>x. x \<noteq> -1) (take 10 (studentsEatingHere t)) else [])"

text \<open>While a table is ready its entries are the students seated, then free entries; the last of the eleven entries is never used.\<close>

definition table_ok :: "table \<Rightarrow> bool" where
  "table_ok t \<longleftrightarrow> length (studentsEatingHere t) = 11 \<and> 0 \<le> slotsLeft t \<and> slotsLeft t \<le> 10 \<and>
     (readyToServe t \<longrightarrow> (\<exists>ss y. studentsEatingHere t = ss @ replicate (10 - length ss) (-1) @ [y] \<and> -1 \<notin> set ss \<and> int (length ss) + slotsLeft t \<le> 10))"

lemma takeWhile_all: "-1 \<notin> set (ss :: int list) \<Longrightarrow> takeWhile (\<lambda>x. x \<noteq> -1) (ss @ replicate n (-1)) = ss"
  by (induction ss) (auto simp: takeWhile_eq_Nil_iff intro: Nat.gr0_conv_Suc)

lemma seats_eq:
  assumes "readyToServe t" "studentsEatingHere t = ss @ replicate (10 - length ss) (-1) @ [y]" "-1 \<notin> set ss" "length ss \<le> 10"
  shows "seats t = ss"
proof -
  have "take 10 (studentsEatingHere t) = ss @ replicate (10 - length ss) (-1)" using assms(2,4) by simp
  then show ?thesis using assms(1) takeWhile_all[OF assms(3)] by (simp add: seats_def)
qed

lemma free_entry_at: "-1 \<notin> set ss \<Longrightarrow> free_entry (ss @ (-1) # xs) j = Inr (j + length ss)"
  by (induction ss arbitrary: j) auto

lemma student_in_slot_ok:
  assumes ok: "table_ok t" "readyToServe t" "0 < slotsLeft t"
  obtains t1 where "student_in_slot me (t\<lparr>slotsLeft := slotsLeft t - 1\<rparr>) = Inr t1" "table_ok t1" "readyToServe t1" "seats t1 = seats t @ [int me]"
proof -
  obtain ss y where e: "studentsEatingHere t = ss @ replicate (10 - length ss) (-1) @ [y]" "-1 \<notin> set ss" "int (length ss) + slotsLeft t \<le> 10"
    using ok by (auto simp: table_ok_def)
  have l: "length ss < 10" using e(3) ok(3) by simp
  then have r: "replicate (10 - length ss) (-1 :: int) = -1 # replicate (9 - length ss) (-1)" by (simp flip: replicate_Suc)
  have f: "free_entry (studentsEatingHere t) 0 = Inr (length ss)" unfolding e(1) r using free_entry_at[OF e(2), of _ 0] by simp
  define t1 where "t1 = t\<lparr>slotsLeft := slotsLeft t - 1, studentsEatingHere := (ss @ [int me]) @ replicate (10 - length (ss @ [int me])) (-1) @ [y]\<rparr>"
  have s1: "seats t1 = ss @ [int me]" by (rule seats_eq) (use ok(2) e(2) l in \<open>simp_all add: t1_def\<close>)
  have "(studentsEatingHere t)[length ss := int me] = (ss @ [int me]) @ replicate (10 - length (ss @ [int me])) (-1) @ [y]"
    unfolding e(1) r by (simp add: list_update_append)
  then have "student_in_slot me (t\<lparr>slotsLeft := slotsLeft t - 1\<rparr>) = Inr t1" using f by (simp add: student_in_slot_def res_simps t1_def)
  moreover have "table_ok t1" unfolding table_ok_def
    using ok e(2,3) l by (intro conjI impI exI[of _ "ss @ [int me]"] exI[of _ y]) (auto simp: t1_def table_ok_def)
  moreover have "seats t = ss" by (rule seats_eq[OF ok(2) e(1,2)]) (use l in simp)
  ultimately show thesis using that s1 ok(2) by (simp add: t1_def)
qed

lemma clear_entries_ok: "table_ok t \<Longrightarrow> 1 \<le> n \<Longrightarrow> n \<le> 10 \<Longrightarrow> table_ok ((clear_entries t)\<lparr>slotsLeft := n, readyToServe := True\<rparr>) \<and> seats ((clear_entries t)\<lparr>slotsLeft := n, readyToServe := True\<rparr>) = []"
proof -
  assume a: "table_ok t" "1 \<le> n" "n \<le> 10"
  let ?t = "(clear_entries t)\<lparr>slotsLeft := n, readyToServe := True\<rparr>"
  have l: "length (drop 10 (studentsEatingHere t)) = 1" using a(1) by (simp add: table_ok_def)
  then obtain y where y: "drop 10 (studentsEatingHere t) = [y]" by (metis One_nat_def length_0_conv length_Suc_conv)
  have e: "studentsEatingHere ?t = [] @ replicate (10 - length ([] :: int list)) (-1) @ [y]" by (simp add: clear_entries_def y)
  have "seats ?t = []" by (rule seats_eq[OF _ e]) simp_all
  moreover have "table_ok ?t" unfolding table_ok_def
  proof (intro conjI impI)
    show "\<exists>ss y. studentsEatingHere ?t = ss @ replicate (10 - length ss) (-1) @ [y] \<and> -1 \<notin> set ss \<and> int (length ss) + slotsLeft ?t \<le> 10"
      using e a(3) by (intro exI[of _ "[]"] exI[of _ y]) simp
  qed (use a in \<open>simp_all add: clear_entries_def y\<close>)
  ultimately show ?thesis by simp
qed

section \<open>The invariant\<close>

definition in_seats :: "mess \<Rightarrow> int multiset" where
  "in_seats s = mset (concat (map seats (tables s)))"

definition seated :: "mess \<Rightarrow> nat set" where
  "seated s = {j. j < length (studentAt s) \<and> studentAt s ! j = Seated}"

definition table_inv :: "mess \<Rightarrow> nat \<Rightarrow> bool" where
  "table_inv s i \<longleftrightarrow> table_ok (tables s ! i) \<and> (readyToServe (tables s ! i) \<longleftrightarrow> tableAt s ! i = WaitFull) \<and>
     (leftLocked s ! i \<longrightarrow> gameOver s \<and> tableAt s ! i \<in> {Inner, Outer, TGone})"

fun main_ok :: "main_phase \<Rightarrow> mess \<Rightarrow> bool" where
  "main_ok JoinStudents s \<longleftrightarrow> \<not> gameOver s"
| "main_ok (JoinTables k) s \<longleftrightarrow> gameOver s \<and> (\<forall>p \<in> set (studentAt s). p = Seated) \<and> (\<forall>i < k. i < length (tables s) \<longrightarrow> tableAt s ! i = TGone)"
| "main_ok (ClearTables k) s \<longleftrightarrow> gameOver s \<and> (\<forall>p \<in> set (studentAt s). p = Seated)"
| "main_ok (ClearRobots k) s \<longleftrightarrow> gameOver s \<and> (\<forall>p \<in> set (studentAt s). p = Seated)"
| "main_ok (ClearAgain k) s \<longleftrightarrow> gameOver s \<and> (\<forall>p \<in> set (studentAt s). p = Seated)"
| "main_ok _ s \<longleftrightarrow> gameOver s \<and> (\<forall>p \<in> set (studentAt s). p = Seated) \<and> (\<forall>i < length (tables s). tableAt s ! i = TGone)"

definition mess_inv :: "mess \<Rightarrow> bool" where
  "mess_inv s \<longleftrightarrow> length (tableAt s) = length (tables s) \<and> length (leftLocked s) = length (tables s) \<and> length (robotAt s) = length (robots s) \<and>
     (\<forall>i < length (tables s). table_inv s i) \<and> mset (served s) + in_seats s = image_mset int (mset_set (seated s)) \<and> main_ok (mainAt s) s"

lemma finite_seated [simp]: "finite (seated s)"
  by (simp add: seated_def)

lemma concat_update:
  assumes "i < length ts"
  shows "mset (concat (map f (ts[i := x]))) + mset (f (ts ! i)) = mset (concat (map f ts)) + mset (f x)"
proof -
  have "ts = take i ts @ ts ! i # drop (Suc i) ts" using assms by (simp add: id_take_nth_drop)
  then have "mset (concat (map f ts)) = mset (concat (map f (take i ts))) + mset (f (ts ! i)) + mset (concat (map f (drop (Suc i) ts)))"
    by (metis (no_types, lifting) append.assoc concat.simps(2) concat_append list.simps(9) map_append mset_append)
  moreover have "mset (concat (map f (ts[i := x]))) = mset (concat (map f (take i ts))) + mset (f x) + mset (concat (map f (drop (Suc i) ts)))"
    using assms by (simp add: upd_conv_take_nth_drop)
  ultimately show ?thesis by simp
qed

lemma main_ok_mono:
  assumes "main_ok m s" "gameOver s' = gameOver s" "studentAt s' = studentAt s" "length (tables s') = length (tables s)"
    "\<And>i. i < length (tables s) \<Longrightarrow> tableAt s ! i = TGone \<Longrightarrow> tableAt s' ! i = TGone"
  shows "main_ok m s'"
  using assms by (cases m) auto

text \<open>A step of table \<open>i\<close>, or of \<open>main\<close> on table \<open>i\<close>.\<close>

lemma mess_inv_table:
  assumes inv: "mess_inv s" and i: "i < length (tables s)"
    and eq: "tables s' = (tables s)[i := t]" "tableAt s' = (tableAt s)[i := p]" "leftLocked s' = (leftLocked s)[i := b]" "gameOver s' = gameOver s"
      "studentAt s' = studentAt s" "mainAt s' = mainAt s" "length (robots s') = length (robots s)" "robotAt s' = robotAt s"
    and t: "table_ok t" "readyToServe t \<longleftrightarrow> p = WaitFull" "b \<longrightarrow> gameOver s \<and> p \<in> {Inner, Outer, TGone}" "tableAt s ! i = TGone \<longrightarrow> p = TGone"
    and m: "mset (served s') + mset (seats t) = mset (served s) + mset (seats (tables s ! i))"
  shows "mess_inv s'"
proof -
  have l: "length (tableAt s) = length (tables s)" "length (leftLocked s) = length (tables s)" and ti: "\<And>j. j < length (tables s) \<Longrightarrow> table_inv s j"
    and mo: "main_ok (mainAt s) s" and ms: "mset (served s) + in_seats s = image_mset int (mset_set (seated s))" "length (robotAt s) = length (robots s)"
    using inv by (auto simp: mess_inv_def)
  have "table_inv s' j" if "j < length (tables s)" for j
    using ti[OF that] t i l eq by (cases "j = i") (auto simp: table_inv_def)
  moreover have "main_ok (mainAt s) s'" by (rule main_ok_mono[OF mo]) (use eq t(4) i l in \<open>auto simp: nth_list_update\<close>)
  moreover have "mset (served s') + in_seats s' = mset (served s) + in_seats s"
  proof -
    let ?A = "mset (seats (tables s ! i))" and ?B = "mset (seats t)"
    have "(mset (served s') + in_seats s') + (?B + ?A) = (mset (served s') + ?B) + (in_seats s' + ?A)" by (simp add: ac_simps)
    also have "\<dots> = (mset (served s) + ?A) + (in_seats s + ?B)" using concat_update[OF i, of seats t] by (simp only: m in_seats_def eq(1))
    also have "\<dots> = (mset (served s) + in_seats s) + (?B + ?A)" by (simp add: ac_simps)
    finally show ?thesis by (simp only: add_right_cancel)
  qed
  ultimately show ?thesis using l eq ms by (simp add: mess_inv_def seated_def)
qed

lemma mess_inv_rest:
  assumes "mess_inv s" "tables s' = tables s" "tableAt s' = tableAt s" "leftLocked s' = leftLocked s" "gameOver s' = gameOver s" "studentAt s' = studentAt s"
    "served s' = served s" "length (robots s') = length (robots s)" "length (robotAt s') = length (robotAt s)" "main_ok (mainAt s') s"
  shows "mess_inv s'"
proof -
  have "main_ok (mainAt s') s'" by (rule main_ok_mono[OF assms(10)]) (use assms in simp_all)
  then show ?thesis using assms by (simp add: mess_inv_def table_inv_def in_seats_def seated_def)
qed

lemmas to_defs = set_table_def set_robot_def student_to_def table_to_def robot_to_def

lemma mess_invD:
  assumes "mess_inv s" "i < length (tables s)"
  shows "table_ok (tables s ! i)" "readyToServe (tables s ! i) \<longleftrightarrow> tableAt s ! i = WaitFull" "leftLocked s ! i \<Longrightarrow> gameOver s \<and> tableAt s ! i \<in> {Inner, Outer, TGone}"
    "length (tableAt s) = length (tables s)" "length (leftLocked s) = length (tables s)"
  using assms by (auto simp: mess_inv_def table_inv_def)

lemma table_ok_amount [simp]: "table_ok (t\<lparr>biryaniAmountRemaining := a\<rparr>) = table_ok t" "seats (t\<lparr>biryaniAmountRemaining := a\<rparr>) = seats t"
  "table_ok (t\<lparr>needVessel := b\<rparr>) = table_ok t" "seats (t\<lparr>needVessel := b\<rparr>) = seats t"
  by (simp_all add: table_ok_def seats_def)

lemma table_step_inv:
  assumes inv: "mess_inv s" and st: "table_step i s s'"
  shows "mess_inv s'"
proof -
  have i: "i < length (tables s)" using st by (cases rule: table_step.cases)
  note D = mess_invD[OF inv i]
  have same: "mess_inv (table_to i p s)" if "p \<noteq> WaitFull" "tableAt s ! i \<noteq> WaitFull" "tableAt s ! i \<noteq> TGone" "leftLocked s ! i \<longrightarrow> p \<in> {Inner, Outer, TGone}" for p
    by (rule mess_inv_table[OF inv i, where t = "tables s ! i" and p = p and b = "leftLocked s ! i"])
      (use D that in \<open>auto simp: to_defs\<close>)
  from st show ?thesis
  proof (cases rule: table_step.cases)
    case 1
    show ?thesis unfolding 1(1)
      by (rule mess_inv_table[OF inv i, where t = "(tables s ! i)\<lparr>biryaniAmountRemaining := 0, needVessel := 1\<rparr>" and p = "Scan 0" and b = "leftLocked s ! i"])
        (use D 1 in \<open>auto simp: to_defs table_start_def\<close>)
  next
    case (2 j)
    then show ?thesis using D by (auto simp: table_scan_def intro!: same)
  next
    case (3 j)
    show ?thesis
    proof (cases "biryaniVesselsRemaining (robots s ! j) > 0")
      case True
      show ?thesis unfolding 3(1)
        by (rule mess_inv_table[OF inv i, where t = "(tables s ! i)\<lparr>biryaniAmountRemaining := biryaniAmountRemaining (tables s ! i) + vesselSize (robots s ! j)\<rparr>"
              and p = "Scanned True" and b = "leftLocked s ! i"]) (use D 3 True in \<open>auto simp: to_defs table_ask_def Let_def\<close>)
    qed (use 3 D in \<open>auto simp: table_ask_def Let_def intro!: same\<close>)
  next
    case (7 slots)
    show ?thesis
    proof (cases "gameOver s")
      case True
      show ?thesis unfolding 7(1)
        by (rule mess_inv_table[OF inv i, where t = "tables s ! i" and p = Inner and b = True]) (use D 7 True in \<open>auto simp: to_defs open_slots_def\<close>)
    next
      case False
      have c: "table_ok ((clear_entries (tables s ! i))\<lparr>slotsLeft := slots, readyToServe := True\<rparr>)" "seats ((clear_entries (tables s ! i))\<lparr>slotsLeft := slots, readyToServe := True\<rparr>) = []"
        using clear_entries_ok[OF D(1), of slots] 7 by auto
      have "seats (tables s ! i) = []" using D(2) 7 by (simp add: seats_def)
      then show ?thesis unfolding 7(1)
        by (intro mess_inv_table[OF inv i, where t = "(clear_entries (tables s ! i))\<lparr>slotsLeft := slots, readyToServe := True\<rparr>" and p = WaitFull and b = "leftLocked s ! i"])
          (use c D 7 False in \<open>auto simp: to_defs open_slots_def\<close>)
    qed
  next
    case 8
    show ?thesis
    proof (cases "slotsLeft (tables s ! i) = 0")
      case True
      let ?t = "clear_entries ((tables s ! i)\<lparr>readyToServe := False\<rparr>)"
      have "table_ok ?t" "seats ?t = []" using D(1) by (auto simp: table_ok_def clear_entries_def seats_def)
      moreover have "seats (tables s ! i) = takeWhile (\<lambda>x. x \<noteq> -1) (take 10 (studentsEatingHere (tables s ! i)))" using D(2) 8 by (simp add: seats_def)
      ultimately show ?thesis unfolding 8(1)
        by (intro mess_inv_table[OF inv i, where t = ?t and p = Inner and b = "leftLocked s ! i"])
          (use D 8 True in \<open>auto simp: to_defs serve_full_def Let_def clear_entries_def\<close>)
    qed (use 8 inv in \<open>simp add: serve_full_def Let_def\<close>)
  qed (use D in \<open>auto simp: table_scanned_def table_inner_def table_amount_def table_outer_def intro!: same\<close>)
qed

lemma robot_step_inv: "mess_inv s \<Longrightarrow> robot_step i s s' \<Longrightarrow> mess_inv s'"
proof -
  assume a: "mess_inv s" "robot_step i s s'"
  have "main_ok (mainAt s) s" using a(1) by (simp add: mess_inv_def)
  with a(2) show ?thesis
    by (cases rule: robot_step.cases; intro mess_inv_rest[OF a(1)])
      (auto simp: robot_cooked_def robot_store_def robot_stored_def biryani_ready_def to_defs)
qed

lemma seated_move: "p \<noteq> Seated \<Longrightarrow> me < length (studentAt s) \<Longrightarrow> studentAt s ! me \<noteq> Seated \<Longrightarrow> seated (student_to me p s) = seated s"
  by (auto simp: seated_def student_to_def nth_list_update)

lemma not_over: "mess_inv s \<Longrightarrow> me < length (studentAt s) \<Longrightarrow> studentAt s ! me \<noteq> Seated \<Longrightarrow> mainAt s = JoinStudents \<and> \<not> gameOver s"
proof -
  assume a: "mess_inv s" "me < length (studentAt s)" "studentAt s ! me \<noteq> Seated"
  then have "\<not> (\<forall>p \<in> set (studentAt s). p = Seated)" by auto
  then show ?thesis using a(1) by (cases "mainAt s") (auto simp: mess_inv_def)
qed

lemma student_move_inv:
  assumes "mess_inv s" "me < length (studentAt s)" "studentAt s ! me \<noteq> Seated" "p \<noteq> Seated"
  shows "mess_inv (student_to me p s)"
proof -
  have "mainAt s = JoinStudents" "\<not> gameOver s" using not_over[OF assms(1-3)] by auto
  then show ?thesis using assms(1) seated_move[OF assms(4,2,3)] by (simp add: mess_inv_def table_inv_def in_seats_def student_to_def)
qed

lemma wait_for_slot_ok:
  assumes inv: "mess_inv s" and me: "me < length (studentAt s)" "studentAt s ! me = Looking i"
  shows "\<exists>s'. wait_for_slot me i s = Inr s' \<and> mess_inv s'"
proof (cases "i < length (tables s) \<and> readyToServe (tables s ! i) \<and> slotsLeft (tables s ! i) > 0")
  case False
  then show ?thesis using student_move_inv[OF inv me(1)] me(2) by (auto simp: wait_for_slot_def Let_def)
next
  case True
  note D = mess_invD[OF inv, of i]
  have no: "mainAt s = JoinStudents" "\<not> gameOver s" using not_over[OF inv me(1)] me(2) by auto
  obtain t1 where t1: "student_in_slot me ((tables s ! i)\<lparr>slotsLeft := slotsLeft (tables s ! i) - 1\<rparr>) = Inr t1" "table_ok t1" "readyToServe t1" "seats t1 = seats (tables s ! i) @ [int me]"
    using student_in_slot_ok[of "tables s ! i" me] True D(1) by blast
  let ?s = "student_to me Seated (set_table i t1 s)"
  have "wait_for_slot me i s = Inr ?s" using True t1(1) by (simp add: wait_for_slot_def Let_def res_simps)
  moreover have "table_inv ?s j" if "j < length (tables s)" for j
    using mess_invD[OF inv that] t1(2,3) True by (cases "j = i") (auto simp: table_inv_def to_defs)
  moreover have "mset (served ?s) + in_seats ?s = image_mset int (mset_set (seated ?s))"
  proof -
    have "in_seats ?s = in_seats s + {#int me#}"
      using concat_update[of i "tables s" seats t1] True t1(4) by (simp add: in_seats_def to_defs)
    moreover have "seated ?s = insert me (seated s)" "me \<notin> seated s" using me by (auto simp: seated_def to_defs nth_list_update)
    ultimately show ?thesis using inv by (simp add: mess_inv_def to_defs)
  qed
  moreover have "main_ok (mainAt ?s) ?s" using no by (simp add: to_defs)
  ultimately show ?thesis using inv by (simp add: mess_inv_def to_defs)
qed

lemma student_step_inv:
  assumes "mess_inv s" "student_step me s r"
  shows "\<exists>s'. r = Inr s' \<and> mess_inv s'"
  using assms(2)
proof (cases rule: student_step.cases)
  case arrive
  then show ?thesis using student_move_inv[OF assms(1)] by auto
next
  case (look i)
  then show ?thesis using wait_for_slot_ok[OF assms(1)] by simp
qed

lemma clear_slots_inv:
  assumes inv: "mess_inv s" and i: "i < length (tables s)"
  shows "mess_inv (clear_slots i s)"
proof (cases "slotsLeft (tables s ! i) > 0")
  case True
  note D = mess_invD[OF inv i]
  have "table_ok ((tables s ! i)\<lparr>slotsLeft := 0\<rparr>)" "seats ((tables s ! i)\<lparr>slotsLeft := 0\<rparr>) = seats (tables s ! i)"
    using D(1) by (fastforce simp: table_ok_def seats_def)+
  then show ?thesis
    by (intro mess_inv_table[OF inv i, where t = "(tables s ! i)\<lparr>slotsLeft := 0\<rparr>" and p = "tableAt s ! i" and b = "leftLocked s ! i"])
      (use D True in \<open>auto simp: clear_slots_def Let_def to_defs\<close>)
qed (use inv in \<open>simp add: clear_slots_def\<close>)

lemma clear_slots_frame [simp]: "gameOver (clear_slots i s) = gameOver s" "studentAt (clear_slots i s) = studentAt s" "length (tables (clear_slots i s)) = length (tables s)"
  "tableAt (clear_slots i s) = tableAt s" "mainAt (clear_slots i s) = mainAt s"
  by (simp_all add: clear_slots_def Let_def to_defs)

lemma clear_vessels_inv: "mess_inv s \<Longrightarrow> mess_inv (clear_vessels i s)"
  by (rule mess_inv_rest[of s]) (auto simp: clear_vessels_def Let_def to_defs mess_inv_def)

lemma clear_vessels_frame [simp]: "gameOver (clear_vessels i s) = gameOver s" "studentAt (clear_vessels i s) = studentAt s" "tables (clear_vessels i s) = tables s"
  "tableAt (clear_vessels i s) = tableAt s" "mainAt (clear_vessels i s) = mainAt s"
  by (simp_all add: clear_vessels_def Let_def to_defs)

lemma mess_inv_main: "mess_inv s \<Longrightarrow> main_ok m s \<Longrightarrow> mess_inv (s\<lparr>mainAt := m\<rparr>)"
  by (rule mess_inv_rest[of s]) (auto simp: mess_inv_def)

lemma main_step_inv:
  assumes inv: "mess_inv s" and st: "main_next (mainAt s) s = Some s'"
  shows "mess_inv s'"
proof -
  have mo: "main_ok (mainAt s) s" using inv by (simp add: mess_inv_def)
  show ?thesis
  proof (cases "mainAt s")
    case JoinStudents
    then show ?thesis using st inv by (auto simp: mess_inv_def table_inv_def in_seats_def seated_def split: if_splits)
  next
    case (JoinTables k)
    then show ?thesis using st inv mo by (auto simp: less_Suc_eq intro!: mess_inv_main split: if_splits)
  qed (use st inv mo in \<open>auto intro!: mess_inv_main clear_slots_inv clear_vessels_inv split: if_splits\<close>)
qed

lemma mess_step_inv: "mess_inv s \<Longrightarrow> mess_step s t \<Longrightarrow> mess_inv t"
  by (erule mess_step.cases) (auto dest: student_step_inv table_step_inv robot_step_inv main_step_inv)

interpretation mess: invariant_system mess_step mess_inv
  by unfold_locales (rule mess_step_inv)

lemma mess0_inv: "mess_inv (mess0 r n t)"
proof -
  have "seated (mess0 r n t) = {}" by (auto simp: seated_def mess0_def)
  then show ?thesis by (auto simp: mess_inv_def mess0_def table_inv_def table_ok_def in_seats_def seats_def)
qed

section \<open>Runs with one robot, one student and one table\<close>

definition one :: "int \<Rightarrow> int \<Rightarrow> bool \<Rightarrow> int \<Rightarrow> int list \<Rightarrow> int \<Rightarrow> int \<Rightarrow> bool \<Rightarrow> bool \<Rightarrow> student_phase \<Rightarrow> table_phase \<Rightarrow> robot_phase \<Rightarrow> main_phase \<Rightarrow> int list \<Rightarrow> mess" where
  "one am nv rd sl ea ve vs go lk sp tp rp mp sv =
    \<lparr>tables = [\<lparr>biryaniAmountRemaining = am, needVessel = nv, readyToServe = rd, slotsLeft = sl, studentsEatingHere = ea\<rparr>],
     robots = [\<lparr>biryaniVesselsRemaining = ve, vesselSize = vs\<rparr>], gameOver = go, leftLocked = [lk], studentAt = [sp], tableAt = [tp], robotAt = [rp],
     mainAt = mp, served = sv\<rparr>"

lemmas mess_code = to_defs table_start_def table_scan_def table_ask_def table_scanned_def table_inner_def table_amount_def table_outer_def open_slots_def
  serve_full_def clear_entries_def robot_cooked_def robot_store_def robot_stored_def biryani_ready_def wait_for_slot_def student_in_slot_def clear_slots_def clear_vessels_def
  unlocked_def Let_def res_simps

abbreviation runs :: "mess \<Rightarrow> mess \<Rightarrow> bool" where
  "runs s t \<equiv> mess_step\<^sup>*\<^sup>* s t"

definition none :: "int list" where "none = replicate 10 (-1) @ [0]"
definition first :: "int list" where "first = 0 # replicate 9 (-1) @ [0]"

lemma run_then: "runs s t \<Longrightarrow> mess_step t u \<Longrightarrow> runs s u"
  by (rule rtranclp.rtrancl_into_rtrancl)

lemma one_robot: "runs s (one am nv rd sl ea 0 0 False lk sp tp Cooking mp sv) \<Longrightarrow> runs s (one am nv rd sl ea 1 25 False lk sp tp Emptying mp sv)"
proof -
  assume a: "runs s (one am nv rd sl ea 0 0 False lk sp tp Cooking mp sv)"
  have "mess_step (one am nv rd sl ea 0 0 False lk sp tp Cooking mp sv) (one am nv rd sl ea 0 0 False lk sp tp (Storing 1 25) mp sv)"
    using by_robot[OF robot_step.intros(1)[of 0 "one am nv rd sl ea 0 0 False lk sp tp Cooking mp sv" 1 25]] by (simp add: mess_code one_def)
  moreover have "mess_step (one am nv rd sl ea 0 0 False lk sp tp (Storing 1 25) mp sv) (one am nv rd sl ea 1 25 False lk sp tp Stored mp sv)"
    using by_robot[OF robot_step.intros(2)[of 0 "one am nv rd sl ea 0 0 False lk sp tp (Storing 1 25) mp sv" 1 25]] by (simp add: mess_code one_def)
  moreover have "mess_step (one am nv rd sl ea 1 25 False lk sp tp Stored mp sv) (one am nv rd sl ea 1 25 False lk sp tp Emptying mp sv)"
    using by_robot[OF robot_step.intros(3)[of 0 "one am nv rd sl ea 1 25 False lk sp tp Stored mp sv"]] by (simp add: mess_code one_def)
  ultimately show ?thesis using a by (meson run_then)
qed

lemma one_table:
  "runs s (one 0 0 False 0 ea 1 25 False False sp TStart rp mp sv) \<Longrightarrow> length ea = 11 \<Longrightarrow> drop 10 ea = [0] \<Longrightarrow> runs s (one 25 1 True 1 none 0 25 False False sp WaitFull rp mp sv)"
proof -
  assume a: "runs s (one 0 0 False 0 ea 1 25 False False sp TStart rp mp sv)" and l: "length ea = 11" "drop 10 ea = [0]"
  let ?p = "\<lambda>am ve tp. one am 1 False 0 ea ve 25 False False sp tp rp mp sv"
  have 1: "mess_step (one 0 0 False 0 ea 1 25 False False sp TStart rp mp sv) (?p 0 1 (Scan 0))"
    using by_table[OF table_step.intros(1)[of 0 "one 0 0 False 0 ea 1 25 False False sp TStart rp mp sv"]] by (simp add: mess_code one_def)
  have 2: "mess_step (?p 0 1 (Scan 0)) (?p 0 1 (AskRobot 0))" using by_table[OF table_step.intros(2)[of 0 "?p 0 1 (Scan 0)" 0]] by (simp add: mess_code one_def)
  have 3: "mess_step (?p 0 1 (AskRobot 0)) (?p 25 0 (Scanned True))" using by_table[OF table_step.intros(3)[of 0 "?p 0 1 (AskRobot 0)" 0]] by (simp add: mess_code one_def)
  have 4: "mess_step (?p 25 0 (Scanned True)) (?p 25 0 Inner)" using by_table[OF table_step.intros(4)[of 0 "?p 25 0 (Scanned True)" True]] by (simp add: mess_code one_def)
  have 5: "mess_step (?p 25 0 Inner) (?p 25 0 Amount)" using by_table[OF table_step.intros(5)[of 0 "?p 25 0 Inner"]] by (simp add: mess_code one_def)
  have 6: "mess_step (?p 25 0 Amount) (?p 25 0 Ready)" using by_table[OF table_step.intros(6)[of 0 "?p 25 0 Amount"]] by (simp add: mess_code one_def)
  have 7: "mess_step (?p 25 0 Ready) (one 25 1 True 1 none 0 25 False False sp WaitFull rp mp sv)"
    using by_table[OF table_step.intros(7)[of 0 "?p 25 0 Ready" 1]] l by (simp add: mess_code one_def none_def)
  show ?thesis using a 1 2 3 4 5 6 7 by (meson run_then)
qed

lemma one_student: "runs s (one 25 1 True 1 none ve 25 False False Arriving WaitFull rp mp sv) \<Longrightarrow> runs s (one 25 1 True 0 first ve 25 False False Seated WaitFull rp mp sv)"
proof -
  assume a: "runs s (one 25 1 True 1 none ve 25 False False Arriving WaitFull rp mp sv)"
  let ?p = "\<lambda>sp. one 25 1 True 1 none ve 25 False False sp WaitFull rp mp sv"
  have 1: "mess_step (?p Arriving) (?p (Looking 0))" using by_student[OF student_step.arrive[of 0 "?p Arriving"]] by (simp add: mess_code one_def)
  have f: "free_entry none 0 = Inr 0" "none[0 := 0] = first" by (simp_all add: none_def first_def numeral_eq_Suc)
  have "wait_for_slot 0 0 (?p (Looking 0)) = Inr (one 25 1 True 0 first ve 25 False False Seated WaitFull rp mp sv)" by (simp add: mess_code one_def f)
  moreover have "student_step 0 (?p (Looking 0)) (wait_for_slot 0 0 (?p (Looking 0)))" by (rule student_step.look) (simp_all add: one_def mess_code)
  ultimately have 2: "mess_step (?p (Looking 0)) (one 25 1 True 0 first ve 25 False False Seated WaitFull rp mp sv)" by (metis by_student)
  show ?thesis using a 1 2 by (meson run_then)
qed

lemma mess0_one: "mess0 1 1 1 = one 0 0 False 0 (replicate 11 0) 0 0 False False Arriving TStart Cooking JoinStudents []"
  by (simp add: mess0_def one_def)

text \<open>The student has taken the only slot and waits to be served.\<close>

lemma one_seated: "runs (mess0 1 1 1) (one 25 1 True 0 first 0 25 False False Seated WaitFull Emptying JoinStudents [])"
proof -
  have "runs (mess0 1 1 1) (one 0 0 False 0 (replicate 11 0) 0 0 False False Arriving TStart Cooking JoinStudents [])" unfolding mess0_one by (rule rtranclp.rtrancl_refl)
  from one_table[OF one_robot[OF this]] show ?thesis by (intro one_student) (simp_all add: numeral_eq_Suc)
qed

lemma first_served: "takeWhile (\<lambda>x. x \<noteq> -1) (take 10 first) = [0]" "replicate 10 (-1) @ drop 10 first = none" "replicate 10 (-1) @ drop 10 none = none"
  by (simp_all add: first_def none_def numeral_eq_Suc)

text \<open>The table opens its slots again just after \<open>main\<close> has ended the game: it returns with its mutex held.\<close>

lemma one_stuck: "runs (mess0 1 1 1) (one 25 1 False 0 none 0 25 True True Seated Inner Emptying (ClearTables 0) [0])"
proof -
  let ?p = "\<lambda>tp. one 25 1 False 0 none 0 25 False False Seated tp Emptying JoinStudents [0]"
  let ?q = "one 25 1 False 0 none 0 25 True False Seated Ready Emptying (ClearTables 0) [0]"
  let ?a = "one 25 1 True 0 first 0 25 False False Seated WaitFull Emptying JoinStudents []"
  have 1: "mess_step ?a (?p Inner)" using by_table[OF table_step.intros(8)[of 0 ?a]] by (simp add: mess_code one_def first_served)
  have 2: "mess_step (?p Inner) (?p Amount)" using by_table[OF table_step.intros(5)[of 0 "?p Inner"]] by (simp add: mess_code one_def)
  have 3: "mess_step (?p Amount) (?p Ready)" using by_table[OF table_step.intros(6)[of 0 "?p Amount"]] by (simp add: mess_code one_def)
  have 4: "mess_step (?p Ready) ?q" by (rule by_main) (simp add: one_def)
  have 5: "mess_step ?q (one 25 1 False 0 none 0 25 True True Seated Inner Emptying (ClearTables 0) [0])"
    using by_table[OF table_step.intros(7)[of 0 ?q 1]] by (simp add: mess_code one_def)
  show ?thesis using one_seated 1 2 3 4 5 by (meson run_then)
qed

text \<open>The run in which everybody leaves.\<close>

lemma one_over: "runs (mess0 1 1 1) (one 25 1 False 0 none 0 25 True False Seated TGone RGone Over [0])"
proof -
  let ?a = "one 25 1 True 0 first 0 25 False False Seated WaitFull Emptying JoinStudents []"
  let ?p = "\<lambda>go tp mp. one 25 1 False 0 none 0 25 go False Seated tp Emptying mp [0]"
  let ?q = "\<lambda>mp. one 25 1 False 0 none 0 25 True False Seated TGone RGone mp [0]"
  have m: "mess_step (?p True tp (ClearTables 0)) (?p True tp (ClearTables 1))" "mess_step (?p True tp (ClearTables 1)) (?p True tp (ClearRobots 0))"
    "mess_step (?p True tp (ClearRobots 0)) (?p True tp (ClearRobots 1))" "mess_step (?p True tp (ClearRobots 1)) (?p True tp (ClearAgain 0))"
    "mess_step (?p True tp (ClearAgain 0)) (?p True tp (ClearAgain 1))" "mess_step (?p True tp (ClearAgain 1)) (?p True tp (JoinTables 0))" for tp
    by (rule by_main, simp add: one_def mess_code)+
  have e: "mess_step (?q (JoinTables 0)) (?q (JoinTables 1))" "mess_step (?q (JoinTables 1)) (?q (EndRobot 0))" "mess_step (?q (EndRobot 0)) (?q (JoinRobot 0))"
    "mess_step (?q (JoinRobot 0)) (?q (EndRobot 1))" "mess_step (?q (EndRobot 1)) (?q Over)"
    by (rule by_main, simp add: one_def mess_code)+
  have 1: "mess_step ?a (?p False Inner JoinStudents)" using by_table[OF table_step.intros(8)[of 0 ?a]] by (simp add: mess_code one_def first_served)
  have 2: "mess_step (?p False Inner JoinStudents) (?p True Inner (ClearTables 0))" by (rule by_main) (simp add: one_def)
  have 3: "mess_step (?p True Inner (JoinTables 0)) (?p True Outer (JoinTables 0))" using by_table[OF table_step.intros(5)[of 0 "?p True Inner (JoinTables 0)"]] by (simp add: mess_code one_def)
  have 4: "mess_step (?p True Outer (JoinTables 0)) (?p True TGone (JoinTables 0))" using by_table[OF table_step.intros(9)[of 0 "?p True Outer (JoinTables 0)"]] by (simp add: mess_code one_def)
  have 5: "mess_step (?p True TGone (JoinTables 0)) (?q (JoinTables 0))" using by_robot[OF robot_step.intros(4)[of 0 "?p True TGone (JoinTables 0)"]] by (simp add: mess_code one_def)
  have "runs (mess0 1 1 1) (?p True Inner (JoinTables 0))" using one_seated 1 2 m[of Inner] by (meson run_then)
  then show ?thesis using 3 4 5 e by (meson run_then)
qed

section \<open>Properties\<close>

lemma length_students: "runs (mess0 r n t) s \<Longrightarrow> length (studentAt s) = n"
proof (rule mess.run_keeps[of "mess0 r n t" s "\<lambda>s. length (studentAt s) = n"])
  fix x y assume "length (studentAt x) = n" "mess_step x y"
  from this(2,1) show "length (studentAt y) = n"
  proof (cases rule: mess_step.cases)
    case (by_student i)
    then show ?thesis using \<open>length (studentAt x) = n\<close>
      by (auto elim!: student_step.cases simp: wait_for_slot_def Let_def to_defs bind_r_def split: if_splits sum.splits)
  next
    case (by_main)
    then show ?thesis using \<open>length (studentAt x) = n\<close> by (cases "mainAt x") (auto split: if_splits)
  qed (auto elim!: table_step.cases robot_step.cases simp: mess_code)
qed (auto simp: mess0_inv, simp add: mess0_def)

text \<open>
  C18: in every run of the biryani serving, whatever the interleaving and the numbers drawn, no table has fewer than 0 or more than
  10 slots, no student who takes a slot searches past the eleven entries of the table, nobody is served twice, and when \<open>main\<close>
  reports that the simulation is over every student has been served exactly once.
\<close>

theorem students_served:
  assumes "runs (mess0 robotCount studentCount tableCount) s"
  shows "(\<forall>t \<in> set (tables s). 0 \<le> slotsLeft t \<and> slotsLeft t \<le> 10) \<and> (\<nexists>i e. student_step i s (Inl e)) \<and> distinct (served s) \<and>
    (mainAt s = Over \<longrightarrow> mset (served s) = mset (map int [0..<studentCount]))"
proof -
  have inv: "mess_inv s" using mess.run_inv[OF assms mess0_inv] .
  have n: "length (studentAt s) = studentCount" by (rule length_students[OF assms])
  have m: "mset (served s) + in_seats s = image_mset int (mset_set (seated s))" using inv by (simp add: mess_inv_def)
  have "table_ok t" if "t \<in> set (tables s)" for t using that mess_invD(1)[OF inv] by (auto simp: in_set_conv_nth)
  moreover have "distinct (served s)"
  proof -
    have "image_mset int (mset_set (seated s)) = mset_set (int ` seated s)" by (rule image_mset_mset_set) (simp add: inj_on_def)
    then have "mset (served s) \<subseteq># mset_set (int ` seated s)" using m by (metis mset_subset_eq_add_left)
    then have "count (mset (served s)) x \<le> 1" for x using mset_subset_eq_count[of _ _ x] by (metis count_mset_set(1) count_mset_set(3) finite_imageI finite_seated le_trans zero_le_one order_refl)
    then show ?thesis by (simp add: distinct_count_atmost_1 le_Suc_eq count_mset_0_iff)
  qed
  moreover have "mset (served s) = mset (map int [0..<studentCount])" if o: "mainAt s = Over"
  proof -
    have g: "\<forall>i < length (tables s). tableAt s ! i = TGone" "\<forall>p \<in> set (studentAt s). p = Seated" using inv o by (auto simp: mess_inv_def)
    have "seats t = []" if "t \<in> set (tables s)" for t
      using that mess_invD(2)[OF inv] g(1) by (auto simp: in_set_conv_nth seats_def)
    then have "in_seats s = {#}" by (simp add: in_seats_def)
    moreover have "seated s = {0..<studentCount}" using g(2) n by (auto simp: seated_def)
    ultimately show ?thesis using m by (simp add: mset_set_upto_eq_mset_upto)
  qed
  ultimately show ?thesis using student_step_inv[OF inv] by (auto simp: table_ok_def)
qed

theorem students_served_witness:
  "\<exists>s. runs (mess0 1 1 1) s \<and> mainAt s = Over \<and> mset (served s) = {#0#}"
proof -
  let ?s = "one 25 1 False 0 none 0 25 True False Seated TGone RGone Over [0]"
  have "mset (served ?s) = mset (map int [0..<1])" using students_served[OF one_over] by (simp add: one_def)
  then show ?thesis using one_over by (intro exI[of _ ?s]) (simp add: one_def)
qed

lemma table_step_locks:
  "table_step i x y \<Longrightarrow> length (tables y) = length (tables x) \<and> mainAt y = mainAt x \<and> leftLocked y \<in> {leftLocked x, (leftLocked x)[i := True]}"
  by (erule table_step.cases) (simp_all add: mess_code)

text \<open>
  C26: the simulation may hang. A table that enters \<open>ready_to_serve_table\<close> after the game is over returns with its mutex held,
  and \<open>main\<close>, which has seated every student, waits for that mutex for ever.
\<close>

theorem simulation_hangs:
  "\<exists>s. runs (mess0 1 1 1) s \<and> served s = [0] \<and> {t. runs s t} \<subseteq> {t. mainAt t = ClearTables 0}"
proof -
  let ?s = "one 25 1 False 0 none 0 25 True True Seated Inner Emptying (ClearTables 0) [0]"
  have inv: "mess_inv ?s" by (rule mess.run_inv[OF one_stuck mess0_inv])
  have keep: "leftLocked y ! 0 \<and> mainAt y = ClearTables 0 \<and> 0 < length (tables y)"
    if "leftLocked x ! 0 \<and> mainAt x = ClearTables 0 \<and> 0 < length (tables x)" "mess_inv x" "mess_step x y" for x y
    using that(3)
  proof (cases rule: mess_step.cases)
    case (by_student i)
    then show ?thesis using that(1) by (auto elim!: student_step.cases simp: wait_for_slot_def Let_def to_defs bind_r_def split: if_splits sum.splits)
  next
    case (by_table i)
    have "length (leftLocked x) = length (tables x)" using that(2) by (simp add: mess_inv_def)
    then show ?thesis using table_step_locks[OF by_table] that(1) by (cases "i = 0") auto
  next
    case (by_robot i)
    then show ?thesis using that(1) by (auto elim!: robot_step.cases simp: mess_code split: if_splits)
  next
    case by_main
    then show ?thesis using that(1) by simp
  qed
  have "leftLocked t ! 0 \<and> mainAt t = ClearTables 0 \<and> 0 < length (tables t)" if "runs ?s t" for t
  proof (rule mess.run_keeps[OF that inv])
    show "leftLocked ?s ! 0 \<and> mainAt ?s = ClearTables 0 \<and> 0 < length (tables ?s)" by (simp add: one_def)
  qed (rule keep)
  then show ?thesis using one_stuck by (intro exI[of _ ?s]) (auto simp: one_def)
qed

end
