(* ===== verification/Spinlock.thy ===== *)
theory Spinlock
  imports Strings Systems
begin

text \<open>
  Spin locks and the nesting of disabled interrupts (\<open>spinlock.c\<close>, \<open>mycpu\<close> and \<open>myproc\<close> of \<open>proc.c\<close>), on any number of processors
  that execute the code of \<open>acquire\<close> and \<open>release\<close> access by access: the two reads of \<open>holding\<close>, the atomic exchange, the store of
  the owner and the store that frees the lock are steps of their own, and the steps of different processors interleave freely.
\<close>

section \<open>State\<close>

text \<open>\<open>cpu_of\<close> is \<open>lk->cpu\<close>, the index in \<open>cpus\<close> or the null pointer. \<open>name\<close> is written once by \<open>initlock\<close> and not read.\<close>

record spinlock =
  locked :: u32
  cpu_of :: "nat option"
  pcs :: "u32 list"

text \<open>Where a processor stands in \<open>acquire\<close> or \<open>release\<close> of the lock with the given number; \<open>Dead\<close> after a \<open>panic\<close>.\<close>

datatype spoint =
    Outside
  | AcqRead nat | AcqCmp nat bool | Spin nat | Got nat
  | RelRead nat | RelCmp nat bool | RelClr nat | RelMov nat
  | Dead string

text \<open>The fields of \<open>struct cpu\<close> that the locks use, and the interrupt flag of \<open>eflags\<close>.\<close>

record spcpu =
  iflag :: bool
  ncli :: int
  intena :: bool
  point :: spoint

record machine =
  cpus :: "nat \<Rightarrow> spcpu"
  locks :: "nat \<Rightarrow> spinlock"

abbreviation on_cpu :: "nat \<Rightarrow> (spcpu \<Rightarrow> spcpu) \<Rightarrow> machine \<Rightarrow> machine" where
  "on_cpu c f s \<equiv> s\<lparr>cpus := (cpus s)(c := f (cpus s c))\<rparr>"

abbreviation on_lock :: "nat \<Rightarrow> (spinlock \<Rightarrow> spinlock) \<Rightarrow> machine \<Rightarrow> machine" where
  "on_lock l f s \<equiv> s\<lparr>locks := (locks s)(l := f (locks s l))\<rparr>"

definition initlock :: "nat \<Rightarrow> machine \<Rightarrow> machine" where
  "initlock l s = on_lock l (\<lambda>k. k\<lparr>locked := 0, cpu_of := None\<rparr>) s"

section \<open>Interrupt nesting\<close>

definition pushcli :: "spcpu \<Rightarrow> spcpu" where
  "pushcli x = x\<lparr>iflag := False, intena := (if ncli x = 0 then iflag x else intena x), ncli := ncli x + 1\<rparr>"

definition popcli :: "spcpu \<Rightarrow> spcpu result" where
  "popcli x =
    (if iflag x then Inl (Panic ''popcli - interruptible'')
     else if ncli x - 1 < 0 then Inl (Panic ''popcli'')
     else Inr (x\<lparr>ncli := ncli x - 1, iflag := (ncli x - 1 = 0 \<and> intena x)\<rparr>))"

text \<open>\<open>ids\<close> are the fields \<open>apicid\<close> of the \<open>ncpu\<close> processors found at boot, \<open>apicid\<close> what \<open>lapicid()\<close> reads.\<close>

definition mycpu :: "u32 list \<Rightarrow> u32 \<Rightarrow> spcpu \<Rightarrow> nat result" where
  "mycpu ids apicid x =
    (if iflag x then Inl (Panic ''mycpu called with interrupts enabled'')
     else case find_idx (\<lambda>a. a = apicid) ids of None \<Rightarrow> Inl (Panic ''unknown apicid'') | Some i \<Rightarrow> Inr i)"

definition myproc :: "u32 list \<Rightarrow> u32 \<Rightarrow> (nat \<Rightarrow> 'p) \<Rightarrow> spcpu \<Rightarrow> ('p \<times> spcpu) result" where
  "myproc ids apicid proc x =
    (let y = pushcli x in bind_r (mycpu ids apicid y) (\<lambda>i. bind_r (popcli y) (\<lambda>z. Inr (proc i, z))))"

section \<open>The call stack of the caller\<close>

fun walk_ebp :: "mem \<Rightarrow> nat \<Rightarrow> u32 \<Rightarrow> u32 list" where
  "walk_ebp m 0 ebp = []"
| "walk_ebp m (Suc n) ebp =
    (if ebp = 0 \<or> ebp < 0x80000000 \<or> ebp = 0xFFFFFFFF then []
     else get32 m (ebp + 4) # walk_ebp m n (get32 m ebp))"

definition getcallerpcs :: "mem \<Rightarrow> u32 \<Rightarrow> u32 list" where
  "getcallerpcs m v = (let ps = walk_ebp m 10 (v - 8) in ps @ replicate (10 - length ps) 0)"

section \<open>acquire and release\<close>

definition die :: "nat \<Rightarrow> string \<Rightarrow> machine \<Rightarrow> machine" where
  "die c msg s = on_cpu c (\<lambda>x. x\<lparr>point := Dead msg\<rparr>) s"

definition go :: "nat \<Rightarrow> spoint \<Rightarrow> machine \<Rightarrow> machine" where
  "go c p s = on_cpu c (\<lambda>x. x\<lparr>point := p\<rparr>) s"

definition pop_go :: "nat \<Rightarrow> spoint \<Rightarrow> machine \<Rightarrow> machine" where
  "pop_go c p s =
    (case popcli (cpus s c) of
       Inl (Panic msg) \<Rightarrow> die c msg s
     | Inl _ \<Rightarrow> s
     | Inr x \<Rightarrow> on_cpu c (\<lambda>_. x\<lparr>point := p\<rparr>) s)"

text \<open>\<open>acquire\<close> up to the first read of \<open>holding\<close>, which disables interrupts a second time; \<open>release\<close> likewise.\<close>

definition acquire :: "nat \<Rightarrow> nat \<Rightarrow> machine \<Rightarrow> machine" where
  "acquire c l s = on_cpu c (\<lambda>x. (pushcli (pushcli x))\<lparr>point := AcqRead l\<rparr>) s"

definition release :: "nat \<Rightarrow> nat \<Rightarrow> machine \<Rightarrow> machine" where
  "release c l s = on_cpu c (\<lambda>x. (pushcli x)\<lparr>point := RelRead l\<rparr>) s"

text \<open>The comparison of \<open>holding\<close> with the value \<open>b\<close> read for \<open>locked\<close>, and its \<open>popcli\<close>.\<close>

definition holding_cmp :: "nat \<Rightarrow> nat \<Rightarrow> bool \<Rightarrow> (bool \<Rightarrow> spoint) \<Rightarrow> machine \<Rightarrow> machine" where
  "holding_cmp c l b next s = pop_go c (next (b \<and> cpu_of (locks s l) = Some c)) s"

text \<open>One access of processor \<open>c\<close>; \<open>m\<close> and \<open>v\<close> are the memory and the address of the argument, for \<open>getcallerpcs\<close>.\<close>

definition cpu_step :: "mem \<Rightarrow> u32 \<Rightarrow> nat \<Rightarrow> machine \<Rightarrow> machine" where
  "cpu_step m v c s =
    (case point (cpus s c) of
       AcqRead l \<Rightarrow> go c (AcqCmp l (locked (locks s l) \<noteq> 0)) s
     | AcqCmp l b \<Rightarrow> holding_cmp c l b (\<lambda>r. if r then Dead ''acquire'' else Spin l) s
     | Spin l \<Rightarrow> go c (if locked (locks s l) \<noteq> 0 then Spin l else Got l) (on_lock l (\<lambda>k. k\<lparr>locked := 1\<rparr>) s)
     | Got l \<Rightarrow> go c Outside (on_lock l (\<lambda>k. k\<lparr>cpu_of := Some c, pcs := getcallerpcs m v\<rparr>) s)
     | RelRead l \<Rightarrow> go c (RelCmp l (locked (locks s l) \<noteq> 0)) s
     | RelCmp l b \<Rightarrow> holding_cmp c l b (\<lambda>r. if r then RelClr l else Dead ''release'') s
     | RelClr l \<Rightarrow> go c (RelMov l) (on_lock l (\<lambda>k. k\<lparr>pcs := (pcs k)[0 := 0], cpu_of := None\<rparr>) s)
     | RelMov l \<Rightarrow> pop_go c Outside (on_lock l (\<lambda>k. k\<lparr>locked := 0\<rparr>) s)
     | _ \<Rightarrow> s)"

text \<open>
  A processor outside the lock code may call \<open>acquire\<close> or \<open>release\<close> on any lock, and the code around it (the scheduler's \<open>sti\<close>, the
  entry and the return of an interrupt) changes the interrupt flag of the processors in \<open>K\<close> when they hold no lock.
\<close>

inductive spstep :: "nat set \<Rightarrow> machine \<Rightarrow> machine \<Rightarrow> bool" for K where
  Acquire: "point (cpus s c) = Outside \<Longrightarrow> spstep K s (acquire c l s)"
| Release: "point (cpus s c) = Outside \<Longrightarrow> spstep K s (release c l s)"
| Access: "spstep K s (cpu_step m v c s)"
| Toggle: "c \<in> K \<Longrightarrow> point (cpus s c) = Outside \<Longrightarrow> ncli (cpus s c) = 0 \<Longrightarrow> spstep K s (on_cpu c (\<lambda>x. x\<lparr>iflag := b\<rparr>) s)"

section \<open>Invariant\<close>

text \<open>A processor is inside a lock from the exchange that found it free to the store that frees it.\<close>

definition inside :: "machine \<Rightarrow> nat \<Rightarrow> nat \<Rightarrow> bool" where
  "inside s c l \<longleftrightarrow> cpu_of (locks s l) = Some c \<or> point (cpus s c) = Got l \<or> point (cpus s c) = RelMov l"

definition owned :: "machine \<Rightarrow> nat \<Rightarrow> nat set" where
  "owned s c = {l. cpu_of (locks s l) = Some c}"

text \<open>What the code a processor is in has added to \<open>ncli\<close>, on top of one for every lock it owns.\<close>

fun extra :: "spoint \<Rightarrow> int" where
  "extra (AcqRead l) = 2" | "extra (AcqCmp l b) = 2" | "extra (Spin l) = 1" | "extra (Got l) = 1"
| "extra (RelRead l) = 1" | "extra (RelCmp l b) = 1" | "extra (RelMov l) = 1"
| "extra (Dead m) = (if m = ''acquire'' then 1 else 0)" | "extra _ = 0"

text \<open>What is known about a lock at each point, and which panics can have happened.\<close>

definition point_ok :: "machine \<Rightarrow> nat \<Rightarrow> bool" where
  "point_ok s c \<longleftrightarrow>
    (case point (cpus s c) of
       AcqCmp l b \<Rightarrow> cpu_of (locks s l) = Some c \<longrightarrow> b
     | RelCmp l b \<Rightarrow> cpu_of (locks s l) = Some c \<longrightarrow> b
     | Spin l \<Rightarrow> cpu_of (locks s l) \<noteq> Some c
     | Got l \<Rightarrow> cpu_of (locks s l) = None
     | RelMov l \<Rightarrow> cpu_of (locks s l) = None
     | RelClr l \<Rightarrow> cpu_of (locks s l) = Some c
     | Dead m \<Rightarrow> m = ''acquire'' \<or> m = ''release''
     | _ \<Rightarrow> True)"

definition spin_inv :: "machine \<Rightarrow> bool" where
  "spin_inv s \<longleftrightarrow>
    (\<forall>l. locked (locks s l) \<noteq> 0 \<longleftrightarrow> (\<exists>c. inside s c l)) \<and>
    (\<forall>l c d. inside s c l \<longrightarrow> inside s d l \<longrightarrow> c = d) \<and>
    (\<forall>c. point_ok s c \<and> finite (owned s c) \<and> ncli (cpus s c) = int (card (owned s c)) + extra (point (cpus s c)) \<and>
       (ncli (cpus s c) > 0 \<longrightarrow> \<not> iflag (cpus s c)))"

lemma spin_invD:
  assumes "spin_inv s"
  shows "locked (locks s l) \<noteq> 0 \<longleftrightarrow> (\<exists>c. inside s c l)" "inside s c l \<Longrightarrow> inside s d l \<Longrightarrow> c = d" "point_ok s c" "finite (owned s c)"
    "ncli (cpus s c) = int (card (owned s c)) + extra (point (cpus s c))" "ncli (cpus s c) > 0 \<Longrightarrow> \<not> iflag (cpus s c)"
  using assms unfolding spin_inv_def by blast+

text \<open>A step of processor \<open>c\<close> that changes only its own part and perhaps one lock.\<close>

lemma spin_inv_local:
  assumes inv: "spin_inv s" and cp: "\<And>d. d \<noteq> c \<Longrightarrow> cpus t d = cpus s d"
    and lk: "\<And>l. locked (locks t l) \<noteq> 0 \<longleftrightarrow> (\<exists>d. inside t d l)" "\<And>l. inside t c l \<Longrightarrow> \<not> inside s c l \<Longrightarrow> \<not> (\<exists>d. inside s d l)"
    and own: "\<And>d l. d \<noteq> c \<Longrightarrow> cpu_of (locks t l) = Some d \<longleftrightarrow> cpu_of (locks s l) = Some d"
      "\<And>d l. d \<noteq> c \<Longrightarrow> inside s d l \<Longrightarrow> cpu_of (locks t l) = None \<longleftrightarrow> cpu_of (locks s l) = None"
    and me: "point_ok t c" "finite (owned t c)" "ncli (cpus t c) = int (card (owned t c)) + extra (point (cpus t c))" "ncli (cpus t c) > 0 \<Longrightarrow> \<not> iflag (cpus t c)"
  shows "spin_inv t"
proof -
  note D = spin_invD[OF inv]
  have i: "inside t d l \<longleftrightarrow> inside s d l" if "d \<noteq> c" for d l using cp[OF that] own(1)[OF that] by (simp add: inside_def)
  have o: "owned t d = owned s d" if "d \<noteq> c" for d using own(1)[OF that] by (simp add: owned_def)
  have "d = e" if "inside t d l" "inside t e l" for d e l
    using that i D(2) lk(2) by metis
  moreover have "point_ok t d \<and> finite (owned t d) \<and> ncli (cpus t d) = int (card (owned t d)) + extra (point (cpus t d)) \<and>
      (ncli (cpus t d) > 0 \<longrightarrow> \<not> iflag (cpus t d))" for d
  proof (cases "d = c")
    case False
    have "inside s d l \<Longrightarrow> cpu_of (locks t l) = None \<longleftrightarrow> cpu_of (locks s l) = None" for l using own(2)[OF False] .
    then have "point_ok t d" using D(3)[of d] cp[OF False] own(1)[OF False] by (auto simp: point_ok_def inside_def split: spoint.splits)
    then show ?thesis using D(4,5,6)[of d] by (simp add: cp[OF False] o[OF False])
  qed (use me in simp)
  ultimately show ?thesis unfolding spin_inv_def using lk(1) by blast
qed

text \<open>Steps that leave who is inside as it is, and, below, those that leave the owners as they are too.\<close>

lemma spin_inv_stay:
  assumes inv: "spin_inv s" and cp: "\<And>d. d \<noteq> c \<Longrightarrow> cpus t d = cpus s d"
    and lk: "\<And>l. locked (locks t l) \<noteq> 0 \<longleftrightarrow> locked (locks s l) \<noteq> 0" "\<And>l. inside t c l = inside s c l"
    and own: "\<And>d l. cpu_of (locks t l) \<noteq> cpu_of (locks s l) \<Longrightarrow> inside s c l \<and> (cpu_of (locks t l) = Some c \<or> cpu_of (locks t l) = None) \<and> (cpu_of (locks s l) = Some c \<or> cpu_of (locks s l) = None)"
    and me: "point_ok t c" "finite (owned t c)" "ncli (cpus t c) = int (card (owned t c)) + extra (point (cpus t c))" "ncli (cpus t c) > 0 \<Longrightarrow> \<not> iflag (cpus t c)"
  shows "spin_inv t"
proof (rule spin_inv_local[OF inv cp _ _ _ _ me])
  note D = spin_invD[OF inv]
  show o: "cpu_of (locks t l) = Some d \<longleftrightarrow> cpu_of (locks s l) = Some d" if "d \<noteq> c" for d l using own[of l] that by (metis option.distinct(1) option.inject)
  have "inside t d l = inside s d l" for d l using o[of d l] cp[of d] lk(2)[of l] by (cases "d = c") (simp_all add: inside_def)
  then show "locked (locks t l) \<noteq> 0 \<longleftrightarrow> (\<exists>d. inside t d l)" for l using lk(1) D(1) by simp
  show "cpu_of (locks t l) = None \<longleftrightarrow> cpu_of (locks s l) = None" if "d \<noteq> c" "inside s d l" for d l
    using own[of l] D(2)[of c l d] that by metis
qed (use lk in simp_all)

lemma spin_inv_quiet:
  assumes inv: "spin_inv s" and cp: "\<And>d. d \<noteq> c \<Longrightarrow> cpus t d = cpus s d"
    and lk: "\<And>l. locked (locks t l) \<noteq> 0 \<longleftrightarrow> locked (locks s l) \<noteq> 0" "\<And>l. cpu_of (locks t l) = cpu_of (locks s l)"
    and me: "\<And>l. point (cpus s c) \<noteq> Got l \<and> point (cpus s c) \<noteq> RelMov l \<and> point (cpus t c) \<noteq> Got l \<and> point (cpus t c) \<noteq> RelMov l"
      "point_ok t c" "ncli (cpus t c) - extra (point (cpus t c)) = ncli (cpus s c) - extra (point (cpus s c))" "ncli (cpus t c) > 0 \<Longrightarrow> \<not> iflag (cpus t c)"
  shows "spin_inv t"
proof -
  note D = spin_invD[OF inv]
  have o: "owned t c = owned s c" using lk(2) by (simp add: owned_def)
  then have f: "finite (owned t c)" "ncli (cpus t c) = int (card (owned t c)) + extra (point (cpus t c))" using D(4,5)[of c] me(3) by simp_all
  show ?thesis
    by (rule spin_inv_stay[OF inv cp lk(1) _ _ me(2) f me(4)]) (use lk(2) me(1) in \<open>simp_all add: inside_def\<close>)
qed

lemma pushcli_sel [simp]: "iflag (pushcli x) = False" "ncli (pushcli x) = ncli x + 1" "point (pushcli x) = point x"
  by (simp_all add: pushcli_def)

lemma acquire_inv: "spin_inv s \<Longrightarrow> point (cpus s c) = Outside \<Longrightarrow> spin_inv (acquire c l s)"
  by (rule spin_inv_quiet[of s c]) (simp_all add: acquire_def point_ok_def)

lemma release_inv: "spin_inv s \<Longrightarrow> point (cpus s c) = Outside \<Longrightarrow> spin_inv (release c l s)"
  by (rule spin_inv_quiet[of s c]) (simp_all add: release_def point_ok_def)

lemma toggle_inv: "spin_inv s \<Longrightarrow> point (cpus s c) = Outside \<Longrightarrow> ncli (cpus s c) = 0 \<Longrightarrow> spin_inv (on_cpu c (\<lambda>x. x\<lparr>iflag := b\<rparr>) s)"
  by (rule spin_inv_quiet[of s c]) (simp_all add: point_ok_def)

text \<open>With the nesting count of the invariant, \<open>popcli\<close> never panics.\<close>

lemma pop_go_eq:
  assumes "spin_inv s" "extra (point (cpus s c)) > 0"
  shows "pop_go c p s = on_cpu c (\<lambda>x. x\<lparr>ncli := ncli x - 1, iflag := (ncli x - 1 = 0 \<and> intena x), point := p\<rparr>) s"
proof -
  have "ncli (cpus s c) > 0" "\<not> iflag (cpus s c)" using spin_invD(5,6)[OF assms(1), of c] assms(2) by simp_all
  then show ?thesis by (simp add: pop_go_def popcli_def)
qed

lemma locked_owner: "spin_inv s \<Longrightarrow> cpu_of (locks s l) = Some c \<Longrightarrow> locked (locks s l) \<noteq> 0"
  using spin_invD(1) by (metis inside_def)

lemma read_inv:
  assumes inv: "spin_inv s" and p: "point (cpus s c) = AcqRead l \<or> point (cpus s c) = RelRead l"
  shows "spin_inv (cpu_step m v c s)"
proof -
  note D = spin_invD(5,6)[OF inv, of c]
  show ?thesis
    by (rule spin_inv_quiet[OF inv, of c]) (use p D locked_owner[OF inv, of l c] in \<open>auto simp: cpu_step_def go_def point_ok_def\<close>)
qed

lemma cmp_inv:
  assumes inv: "spin_inv s" and p: "point (cpus s c) = AcqCmp l b \<or> point (cpus s c) = RelCmp l b"
  shows "spin_inv (cpu_step m v c s)"
proof -
  note D = spin_invD(3,5,6)[OF inv, of c]
  have e: "extra (point (cpus s c)) > 0" using p by auto
  show ?thesis
    by (rule spin_inv_quiet[OF inv, of c])
      (use p D in \<open>auto simp: cpu_step_def holding_cmp_def pop_go_eq[OF inv e] point_ok_def split: if_splits\<close>)
qed

lemma spin_step_inv:
  assumes inv: "spin_inv s" and p: "point (cpus s c) = Spin l"
  shows "spin_inv (cpu_step m v c s)"
proof (cases "locked (locks s l) = 0")
  case False
  show ?thesis
    by (rule spin_inv_quiet[OF inv, of c]) (use p False spin_invD(3,5,6)[OF inv, of c] in \<open>auto simp: cpu_step_def go_def point_ok_def\<close>)
next
  case True
  let ?t = "cpu_step m v c s"
  note D = spin_invD[OF inv]
  have n: "\<not> inside s d l" for d using D(1)[of l] True by simp
  have t: "cpus ?t = (cpus s)(c := (cpus s c)\<lparr>point := Got l\<rparr>)" "\<And>k. cpu_of (locks ?t k) = cpu_of (locks s k)"
    "\<And>k. locked (locks ?t k) = (if k = l then 1 else locked (locks s k))"
    using p True by (simp_all add: cpu_step_def go_def)
  have i: "inside ?t d k \<longleftrightarrow> inside s d k \<or> d = c \<and> k = l" for d k using p by (auto simp: inside_def t)
  have o: "owned ?t c = owned s c" by (simp add: owned_def t(2))
  have l: "cpu_of (locks s l) = None" using n by (metis inside_def option.exhaust)
  show ?thesis
  proof (rule spin_inv_local[OF inv, of c])
    show "locked (locks ?t k) \<noteq> 0 \<longleftrightarrow> (\<exists>d. inside ?t d k)" for k using D(1)[of k] by (auto simp: t(3) i)
    show "ncli (cpus ?t c) = int (card (owned ?t c)) + extra (point (cpus ?t c))" using D(5)[of c] p by (simp add: t(1) o)
    show "ncli (cpus ?t c) > 0 \<Longrightarrow> \<not> iflag (cpus ?t c)" using D(6)[of c] by (simp add: t(1))
    show "point_ok ?t c" using l by (simp add: point_ok_def t)
  qed (use n i o D(4)[of c] in \<open>auto simp: t\<close>)
qed

lemma store_owner_inv:
  assumes inv: "spin_inv s" and p: "point (cpus s c) = Got l \<or> point (cpus s c) = RelClr l"
  shows "spin_inv (cpu_step m v c s)"
proof -
  let ?t = "cpu_step m v c s"
  note D = spin_invD[OF inv]
  have t: "\<And>k. cpu_of (locks ?t k) = (if k = l then if point (cpus s c) = Got l then Some c else None else cpu_of (locks s k))" "\<And>k. locked (locks ?t k) = locked (locks s k)"
    "cpus ?t = (cpus s)(c := (cpus s c)\<lparr>point := (if point (cpus s c) = Got l then Outside else RelMov l)\<rparr>)"
    using p by (auto simp: cpu_step_def go_def)
  have l: "cpu_of (locks s l) = (if point (cpus s c) = Got l then None else Some c)" using D(3)[of c] p by (auto simp: point_ok_def)
  have o: "owned ?t c = (if point (cpus s c) = Got l then insert l (owned s c) else owned s c - {l})" "l \<in> owned s c \<longleftrightarrow> point (cpus s c) \<noteq> Got l"
    using l by (auto simp: owned_def t(1))
  have k: "int (card (owned ?t c)) = int (card (owned s c)) + (if point (cpus s c) = Got l then 1 else - 1)"
    using o D(4)[of c] by (auto simp: card_Suc_Diff1 simp flip: card_Diff_singleton dest: card_Suc_Diff1)
  show ?thesis
  proof (rule spin_inv_stay[OF inv, of c])
    show "ncli (cpus ?t c) = int (card (owned ?t c)) + extra (point (cpus ?t c))" using D(5)[of c] p k by (auto simp: t(3))
    show "point_ok ?t c" by (simp add: point_ok_def t)
    show "finite (owned ?t c)" using D(4)[of c] o(1) by simp
    show "inside ?t c k = inside s c k" for k using p l by (auto simp: inside_def t)
  qed (use p l D(6)[of c] in \<open>auto simp: t inside_def split: if_splits\<close>)
qed

lemma free_inv:
  assumes inv: "spin_inv s" and p: "point (cpus s c) = RelMov l"
  shows "spin_inv (cpu_step m v c s)"
proof -
  let ?t = "cpu_step m v c s"
  note D = spin_invD[OF inv]
  have n: "ncli (cpus s c) > 0" "\<not> iflag (cpus s c)" using D(5,6)[of c] p by simp_all
  have t: "\<And>k. cpu_of (locks ?t k) = cpu_of (locks s k)" "\<And>k. locked (locks ?t k) = (if k = l then 0 else locked (locks s k))"
    "cpus ?t = (cpus s)(c := (cpus s c)\<lparr>ncli := ncli (cpus s c) - 1, iflag := (ncli (cpus s c) - 1 = 0 \<and> intena (cpus s c)), point := Outside\<rparr>)"
    using p n by (simp_all add: cpu_step_def pop_go_def popcli_def)
  have l: "cpu_of (locks s l) = None" "inside s c l" using D(3)[of c] p by (auto simp: point_ok_def inside_def)
  have i: "inside ?t d k \<longleftrightarrow> inside s d k \<and> k \<noteq> l" for d k
    using D(2)[of c l d] l p by (cases "d = c") (auto simp: inside_def t)
  have o: "owned ?t c = owned s c" by (simp add: owned_def t(1))
  show ?thesis
  proof (rule spin_inv_local[OF inv, of c])
    show "locked (locks ?t k) \<noteq> 0 \<longleftrightarrow> (\<exists>d. inside ?t d k)" for k using D(1)[of k] by (auto simp: t(2) i)
    show "ncli (cpus ?t c) = int (card (owned ?t c)) + extra (point (cpus ?t c))" using D(5)[of c] p by (simp add: t(3) o)
    show "point_ok ?t c" by (simp add: point_ok_def t)
  qed (use i o D(4)[of c] in \<open>auto simp: t\<close>)
qed

lemma spstep_inv:
  assumes "spin_inv s" "spstep K s t"
  shows "spin_inv t"
  using assms(2)
proof cases
  case (Access m v c)
  have "t = s" if "point (cpus s c) = Outside \<or> (\<exists>x. point (cpus s c) = Dead x)" using Access that by (auto simp: cpu_step_def)
  then show ?thesis unfolding Access(1)
    by (cases "point (cpus s c)") (use assms(1) Access(1) in \<open>auto intro: read_inv cmp_inv spin_step_inv store_owner_inv free_inv\<close>)
qed (use assms(1) in \<open>simp_all add: acquire_inv release_inv toggle_inv\<close>)

interpretation spin: invariant_system "spstep K" spin_inv for K
  by unfold_locales (rule spstep_inv)

section \<open>The interrupt flag\<close>

text \<open>The flag a processor has when it is out of all locks, or will have again.\<close>

definition base_flag :: "spcpu \<Rightarrow> bool" where
  "base_flag x = (if ncli x = 0 then iflag x else intena x)"

lemma base_pushcli: "ncli x \<ge> 0 \<Longrightarrow> base_flag (pushcli x) = base_flag x"
  by (simp add: base_flag_def pushcli_def)

lemma base_popcli: "popcli x = Inr y \<Longrightarrow> base_flag y = base_flag x \<and> ncli y = ncli x - 1"
  by (auto simp: base_flag_def popcli_def split: if_splits)

lemma base_point [simp]: "base_flag (x\<lparr>point := p\<rparr>) = base_flag x"
  by (simp add: base_flag_def)

lemma base_pop_go: "base_flag (cpus (pop_go c p s) d) = base_flag (cpus s d)"
  by (cases "popcli (cpus s c)") (auto simp: pop_go_def die_def dest!: base_popcli split: error.splits)

lemma base_step:
  assumes "spin_inv s" "spstep K s t" "c \<notin> K"
  shows "base_flag (cpus t c) = base_flag (cpus s c)"
proof -
  have n: "ncli (cpus s c) \<ge> 0"
    using spin_invD(5)[OF assms(1), of c] by (cases "point (cpus s c)") auto
  from assms(2) show ?thesis
  proof cases
    case (Access m v d)
    show ?thesis unfolding Access
      by (cases "point (cpus s d)") (auto simp: cpu_step_def go_def holding_cmp_def base_pop_go)
  qed (use assms(3) n in \<open>auto simp: acquire_def release_def base_pushcli\<close>)
qed

text \<open>\<open>myproc\<close> finds the process of the processor it runs on and leaves the interrupt state as it was.\<close>

lemma myproc_quiet:
  assumes "c < length ids" "distinct ids" "ncli x \<ge> 0" "ncli x > 0 \<Longrightarrow> \<not> iflag x"
  shows "\<exists>z. myproc ids (ids ! c) proc x = Inr (proc c, z) \<and> ncli z = ncli x \<and> iflag z = iflag x \<and> point z = point x"
proof -
  have f: "find_idx (\<lambda>a. a = ids ! c) ids = Some c"
    using assms(1,2) by (auto simp: find_idx_Some nth_eq_iff_index_eq)
  have p: "popcli (pushcli x) = Inr ((pushcli x)\<lparr>ncli := ncli x, iflag := iflag x\<rparr>)"
    using assms(3,4) by (auto simp: popcli_def pushcli_def)
  show ?thesis by (simp add: myproc_def Let_def mycpu_def f p)
qed

lemma getcallerpcs_length: "length (getcallerpcs m v) = 10"
proof -
  have "length (walk_ebp m n e) \<le> n" for n e by (induction n arbitrary: e) auto
  then show ?thesis by (simp add: getcallerpcs_def Let_def)
qed

lemma holding_decides:
  assumes "spin_inv t" "point (cpus t c) = AcqCmp l b \<or> point (cpus t c) = RelCmp l b"
  shows "point (cpus (cpu_step m v c t) c) =
    (if point (cpus t c) = AcqCmp l b then if inside t c l then Dead ''acquire'' else Spin l else if inside t c l then RelClr l else Dead ''release'')"
proof -
  have e: "extra (point (cpus t c)) > 0" using assms(2) by auto
  show ?thesis using assms(2) spin_invD(3)[OF assms(1), of c]
    by (auto simp: cpu_step_def holding_cmp_def pop_go_eq[OF assms(1) e] point_ok_def inside_def)
qed

section \<open>Mutual exclusion\<close>

definition spin_boot :: "machine \<Rightarrow> bool" where
  "spin_boot s \<longleftrightarrow> (\<forall>c. point (cpus s c) = Outside \<and> ncli (cpus s c) = 0) \<and> (\<forall>l. locked (locks s l) = 0 \<and> cpu_of (locks s l) = None)"

lemma boot_spin: "spin_boot s \<Longrightarrow> spin_inv s"
  by (simp add: spin_boot_def spin_inv_def inside_def owned_def point_ok_def)

text \<open>
  C11: spin locks exclude. However the accesses of any number of processors interleave, at most one processor is inside a lock;
  a processor that is inside a lock or spins for one has interrupts off, so no handler on it can wait for the same lock; and when a
  processor has left all its locks its interrupt flag is what it was before the first of them, however \<open>acquire\<close> and \<open>release\<close>
  were nested or overlapped. The checks in \<open>popcli\<close> never fail, and \<open>holding\<close> is exact although it reads the two fields in
  separate steps: \<open>acquire\<close> panics exactly when the processor already has the lock (instead of spinning for ever), and \<open>release\<close> exactly
  when it does not have it.
\<close>

theorem spinlocks_exclude:
  assumes "spin_boot s" and "(spstep K)\<^sup>*\<^sup>* s t"
  shows "(\<forall>l c d. inside t c l \<longrightarrow> inside t d l \<longrightarrow> c = d) \<and>
    (\<forall>c l. inside t c l \<or> point (cpus t c) = Spin l \<longrightarrow> \<not> iflag (cpus t c)) \<and>
    (\<forall>c. c \<notin> K \<longrightarrow> point (cpus t c) = Outside \<longrightarrow> owned t c = {} \<longrightarrow> iflag (cpus t c) = iflag (cpus s c)) \<and>
    (\<forall>c msg. point (cpus t c) = Dead msg \<longrightarrow> msg = ''acquire'' \<or> msg = ''release'') \<and>
    (\<forall>c l b m v. point (cpus t c) = AcqCmp l b \<longrightarrow> point (cpus (cpu_step m v c t) c) = (if inside t c l then Dead ''acquire'' else Spin l)) \<and>
    (\<forall>c l b m v. point (cpus t c) = RelCmp l b \<longrightarrow> point (cpus (cpu_step m v c t) c) = (if inside t c l then RelClr l else Dead ''release''))"
proof -
  have i: "spin_inv t" by (rule spin.run_inv[OF assms(2) boot_spin[OF assms(1)]])
  note D = spin_invD[OF i]
  have b: "base_flag (cpus t c) = base_flag (cpus s c)" if "c \<notin> K" for c
    by (rule spin.run_keeps[OF assms(2) boot_spin[OF assms(1)], where P = "\<lambda>x. base_flag (cpus x c) = base_flag (cpus s c)"])
      (use base_step that in auto)
  have "\<not> iflag (cpus t c)" if "inside t c l \<or> point (cpus t c) = Spin l" for c l
  proof -
    have "l \<in> owned t c \<or> extra (point (cpus t c)) > 0" using that by (auto simp: inside_def owned_def)
    then have "ncli (cpus t c) > 0" using D(4,5)[of c] by (cases "point (cpus t c)") (auto simp: card_gt_0_iff)
    then show ?thesis by (rule D(6))
  qed
  moreover have "iflag (cpus t c) = iflag (cpus s c)" if "c \<notin> K" "point (cpus t c) = Outside" "owned t c = {}" for c
    using b[OF that(1)] D(5)[of c] that assms(1) by (simp add: base_flag_def spin_boot_def)
  moreover have "msg = ''acquire'' \<or> msg = ''release''" if "point (cpus t c) = Dead msg" for c msg using D(3)[of c] that by (simp add: point_ok_def)
  ultimately show ?thesis using D(2) holding_decides[OF i] by simp
qed

text \<open>Two processors want lock 7: the first gets it while the second spins.\<close>

definition two_cpus :: machine where
  "two_cpus = \<lparr>cpus = (\<lambda>c. \<lparr>iflag = True, ncli = 0, intena = False, point = Outside\<rparr>), locks = (\<lambda>l. \<lparr>locked = 0, cpu_of = None, pcs = []\<rparr>)\<rparr>"

definition both_try :: machine where
  "both_try = (let f = cpu_step (\<lambda>_. 0) 0 in f 1 (f 0 (f 1 (f 0 (f 1 (f 0 (acquire 1 7 (acquire 0 7 two_cpus))))))))"

lemma both_try_run: "(spstep {})\<^sup>*\<^sup>* two_cpus both_try"
proof -
  have a: "spstep {} two_cpus (acquire 0 7 two_cpus)" by (rule spstep.Acquire) (simp add: two_cpus_def)
  have b: "spstep {} (acquire 0 7 two_cpus) (acquire 1 7 (acquire 0 7 two_cpus))" by (rule spstep.Acquire) (simp add: two_cpus_def acquire_def)
  have "(spstep {})\<^sup>*\<^sup>* two_cpus (acquire 1 7 (acquire 0 7 two_cpus))" using a b by (meson converse_rtranclp_into_rtranclp rtranclp.rtrancl_refl)
  moreover have "(spstep {})\<^sup>*\<^sup>* s (cpu_step m v c t)" if "(spstep {})\<^sup>*\<^sup>* s t" for s t m v c
    using that by (rule rtranclp.rtrancl_into_rtrancl) (rule spstep.Access)
  ultimately show ?thesis unfolding both_try_def Let_def by blast
qed

theorem spinlocks_exclude_witness:
  "inside both_try 0 7 \<and> \<not> inside both_try 1 7 \<and> point (cpus both_try 1) = Spin 7 \<and> \<not> iflag (cpus both_try 0) \<and> \<not> iflag (cpus both_try 1)"
proof -
  have s: "spin_boot two_cpus" by (simp add: spin_boot_def two_cpus_def)
  have p: "point (cpus both_try 0) = Got 7" "point (cpus both_try 1) = Spin 7" by code_simp+
  then show ?thesis using spinlocks_exclude[OF s both_try_run] by (auto simp: inside_def)
qed

end
