(* ===== verification/Reverse.thy ===== *)
theory Reverse
  imports Prelude
begin

unbundle bit_operations_syntax

text \<open>
  The two programs of assignment 1: \<open>Q1.c\<close> writes a file in reverse, block by block from its end, into the directory
  \<open>Assignment\<close>, and \<open>Q2.c\<close> reports permissions and checks that one file is the reverse of another. A disk is a map from path
  names to contents, so that two names of the same file are the same path. A read or seek behaves as documented: a read stops at the
  end of the file and leaves the rest of the buffer alone, a seek to a negative position fails and moves nothing, a write to a
  regular file writes all its bytes.
\<close>

type_synonym disk_map = "string \<Rightarrow> u8 list option"

definition s32 :: "int \<Rightarrow> int" where
  "s32 x = sint (word_of_int x :: 32 word)"

definition fill_buf :: "u8 list \<Rightarrow> u8 list \<Rightarrow> u8 list" where
  "fill_buf xs buf = xs @ drop (length xs) buf"

definition read_at :: "nat \<Rightarrow> nat \<Rightarrow> u8 list \<Rightarrow> u8 list" where
  "read_at n off c = take n (drop off c)"

definition write_at :: "nat \<Rightarrow> u8 list \<Rightarrow> u8 list \<Rightarrow> u8 list" where
  "write_at off xs c = take off (c @ replicate (off - length c) 0) @ xs @ drop (off + length xs) c"

definition seek_to :: "int \<Rightarrow> nat \<Rightarrow> nat" where
  "seek_to target off = (if target < 0 then off else nat target)"

section \<open>Q1: reversing\<close>

text \<open>\<open>reverse\<close>, and the same loop over the digits in \<open>printnum\<close>.\<close>

function rev_loop :: "int \<Rightarrow> int \<Rightarrow> 'a list \<Rightarrow> 'a list" where
  "rev_loop i j xs = (if i \<le> j then rev_loop (i + 1) (j - 1) (xs[nat i := xs ! nat j, nat j := xs ! nat i]) else xs)"
  by auto
termination
  by (relation "measure (\<lambda>(i, j, xs). nat (j - i + 1))") auto

declare rev_loop.simps [simp del]

definition reverse_buf :: "'a list \<Rightarrow> nat \<Rightarrow> 'a list" where
  "reverse_buf xs len = rev_loop 0 (int len - 1) xs"

text \<open>Digits, least significant first, into the 100 zero bytes of \<open>arr\<close>; then \<open>digs + 1\<close> bytes are written, the last a zero byte.\<close>

function dig_loop :: "int \<Rightarrow> nat \<Rightarrow> string \<Rightarrow> nat \<times> string" where
  "dig_loop num digs arr =
    (if num > 0 then dig_loop (num div 10) (digs + 1) (arr[digs := char_of (nat (num mod 10) + 48)]) else (digs, arr))"
  by auto
termination
  by (relation "measure (\<lambda>(n, d, a). nat n)") auto

declare dig_loop.simps [simp del]

definition printnum :: "int \<Rightarrow> string" where
  "printnum num =
    (let arr0 = replicate 100 (CHR 0x00);
         (digs, arr) = (if num = 0 then (1, arr0[0 := CHR ''0'']) else dig_loop num 0 arr0)
     in take (digs + 1) (reverse_buf arr digs))"

definition writeProgress :: "int \<Rightarrow> string" where
  "writeProgress percent = [CHR 0x0D, CHR 0x00] @ CHR 0x1B # ''[32m'' @ printnum percent @ CHR 0x1B # ''[0m'' @ [CHR 0x00] @ ''% of file written'' @ [CHR 0x00]"

text \<open>The part of the path after its last slash.\<close>

fun last_slash :: "string \<Rightarrow> nat \<Rightarrow> nat" where
  "last_slash p 0 = 0"
| "last_slash p (Suc n) = (if n < length p \<and> p ! n = CHR ''/'' then Suc n else last_slash p n)"

definition base_name :: "string \<Rightarrow> string" where
  "base_name p = drop (last_slash p (Suc (length p))) p"

definition out_path :: "string \<Rightarrow> string result" where
  "out_path p =
    (let b = base_name p in
     if length b \<ge> 400 then Inl (Fault ''fileName'')
     else if length (''Assignment/'' @ b) \<ge> 400 then Inl (Fault ''outFileName'')
     else Inr (''Assignment/'' @ b))"

definition block_size :: "nat \<Rightarrow> nat" where
  "block_size fileSize = nat (max (min (s32 (int (fileSize div 1000))) 1000000) 1)"

record rev_st =
  roff :: nat
  rbuf :: "u8 list"
  woff :: nat
  disk :: disk_map
  tty :: string

definition file_content :: "string \<Rightarrow> disk_map \<Rightarrow> u8 list" where
  "file_content p d = (case d p of None \<Rightarrow> [] | Some c \<Rightarrow> c)"

text \<open>Read \<open>n\<close> bytes, reverse them in the buffer, write them.\<close>

definition move_block :: "string \<Rightarrow> string \<Rightarrow> nat \<Rightarrow> rev_st \<Rightarrow> rev_st" where
  "move_block fdIn fdOut n s =
    (let xs = read_at n (roff s) (file_content fdIn (disk s));
         buf = reverse_buf (fill_buf xs (rbuf s)) n
     in s\<lparr>roff := roff s + length xs, rbuf := buf, woff := woff s + n,
          disk := (disk s)(fdOut \<mapsto> write_at (woff s) (take n buf) (file_content fdOut (disk s)))\<rparr>)"

fun rev_steps :: "string \<Rightarrow> string \<Rightarrow> nat \<Rightarrow> nat \<Rightarrow> nat \<Rightarrow> nat \<Rightarrow> nat \<Rightarrow> rev_st \<Rightarrow> rev_st" where
  "rev_steps fdIn fdOut fileSize step updateStep 0 i s = s"
| "rev_steps fdIn fdOut fileSize step updateStep (Suc k) i s =
    (let s1 = move_block fdIn fdOut step s;
         s2 = s1\<lparr>roff := seek_to (int (roff s1) - 2 * int step) (roff s1)\<rparr>;
         s3 = (if i mod updateStep = 0 then s2\<lparr>tty := tty s2 @ writeProgress (s32 (int (i * step * 100 div fileSize)))\<rparr> else s2)
     in rev_steps fdIn fdOut fileSize step updateStep k (i + 1) s3)"

text \<open>\<open>main\<close> from the two opens on, with the blocks; \<open>junk\<close> is what the buffer holds before the first read.\<close>

definition reverse_file :: "string \<Rightarrow> string \<Rightarrow> nat \<Rightarrow> u8 list \<Rightarrow> disk_map \<Rightarrow> string \<times> disk_map" where
  "reverse_file fdIn fdOut fileSize junk d =
    (let step = block_size fileSize; steps = fileSize div step; updateStep = max 1 (steps div 100);
         s0 = \<lparr>roff = seek_to (int (length (file_content fdIn d)) - int step) 0, rbuf = take step junk, woff = 0, disk = d, tty = []\<rparr>;
         s1 = rev_steps fdIn fdOut fileSize step updateStep steps 0 s0;
         left = nat (s32 (int (fileSize - steps * step)));
         s2 = move_block fdIn fdOut left (s1\<lparr>roff := 0\<rparr>)
     in (tty s2 @ writeProgress 100, disk s2))"

definition rev_main :: "string list \<Rightarrow> (string \<Rightarrow> bool) \<Rightarrow> u8 list \<Rightarrow> disk_map \<Rightarrow> (int \<times> string \<times> disk_map) result" where
  "rev_main argv can_create junk d =
    (if length argv \<noteq> 2 then
       Inr (1, ''Unexpected number of arguments. Put exactly one string argument indicating file name of file to reverse.'' @ [CHR 0x00], d)
     else
       let inFileName = argv ! 1 in
       bind_r (out_path inFileName) (\<lambda>outFileName.
         case d inFileName of
           None \<Rightarrow> Inr (1, [], d)
         | Some c \<Rightarrow>
             if \<not> can_create outFileName then Inr (1, [], d)
             else let (t, d1) = reverse_file inFileName outFileName (length c) junk (d(outFileName \<mapsto> [])) in Inr (0, t, d1)))"

section \<open>Q2: checking\<close>

fun reved_from :: "u8 list \<Rightarrow> u8 list \<Rightarrow> nat \<Rightarrow> nat \<Rightarrow> bool" where
  "reved_from a b i 0 = True"
| "reved_from a b i (Suc j) = (a ! i = b ! j \<and> reved_from a b (i + 1) j)"

definition isReved :: "u8 list \<Rightarrow> u8 list \<Rightarrow> nat \<Rightarrow> bool" where
  "isReved a b len = reved_from a b 0 len"

text \<open>C's division of integers, towards zero, by a positive number.\<close>

definition tdiv :: "int \<Rightarrow> int \<Rightarrow> int" where
  "tdiv a b = (if a < 0 then - ((- a) div b) else a div b)"

fun check_steps :: "u8 list \<Rightarrow> u8 list \<Rightarrow> nat \<Rightarrow> nat \<Rightarrow> nat \<Rightarrow> nat \<Rightarrow> u8 list \<Rightarrow> u8 list \<Rightarrow> (nat \<times> u8 list \<times> u8 list) option" where
  "check_steps a b step 0 o1 o2 buf buf2 = Some (o2, buf, buf2)"
| "check_steps a b step (Suc k) o1 o2 buf buf2 =
    (let xs = read_at step o1 a; ys = read_at step o2 b; buf = fill_buf xs buf; buf2 = fill_buf ys buf2
     in if \<not> isReved buf buf2 step then None
        else check_steps a b step k (seek_to (int (o1 + length xs) - 2 * int step) (o1 + length xs)) (o2 + length ys) buf buf2)"

definition reversed :: "string \<Rightarrow> string \<Rightarrow> u8 list \<Rightarrow> u8 list \<Rightarrow> disk_map \<Rightarrow> int" where
  "reversed newFilePath oldFilePath junk junk2 d =
    (case (d newFilePath, d oldFilePath) of
       (Some a, Some b) \<Rightarrow>
         if length a \<noteq> length b then 0
         else
           let fileSize = s32 (int (length a));
               step = nat (max (min (tdiv fileSize 1000) 1000000) 1);
               steps = tdiv fileSize (int step);
               left = nat (fileSize - steps * int step)
           in (case check_steps a b step (nat steps) (seek_to (int (length a) - int step) 0) 0 (take step junk) (take step junk2) of
                 None \<Rightarrow> 0
               | Some (o2, buf, buf2) \<Rightarrow>
                   if isReved (fill_buf (read_at left 0 a) buf) (fill_buf (read_at left o2 b) buf2) left then 1 else 0)
     | _ \<Rightarrow> -1)"

text \<open>\<open>printPerms\<close>: the mode of the path, if it can be examined.\<close>

definition perm_line :: "u32 \<Rightarrow> string \<Rightarrow> nat \<Rightarrow> string" where
  "perm_line mode proc i =
    (if i < 3 then ''User'' else if i < 6 then ''Group'' else ''Others'') @ '' has '' @
    (if i mod 3 = 0 then ''read'' else if i mod 3 = 1 then ''write'' else ''execute'') @ '' permission on '' @ proc @ '': '' @
    (if mode AND push_bit (8 - i) 1 \<noteq> 0 then ''Yes'' else ''No'') @ [CHR 0x0A]"

definition printPerms :: "u32 option \<Rightarrow> string \<Rightarrow> nat \<Rightarrow> string \<Rightarrow> int \<times> string" where
  "printPerms st path num proc =
    (case st of
       None \<Rightarrow> (1, if num = 3 then ''Directory is created: No'' @ [CHR 0x0A] else ''Could not stat file'' @ path)
     | Some mode \<Rightarrow>
         (0, (if num = 3 then ''Directory is created: Yes'' @ [CHR 0x0A] @
                (if mode AND 0xF000 = 0x4000 then ''Directory is created: Yes'' else ''Directory is created: It is not a directory :|'') @ [CHR 0x0A]
              else []) @ concat (map (perm_line mode proc) [0..<9]) @ ''--'' @ [CHR 0x0A]))"

definition check_main :: "string list \<Rightarrow> (string \<Rightarrow> u32 option) \<Rightarrow> u8 list \<Rightarrow> u8 list \<Rightarrow> disk_map \<Rightarrow> int \<times> string" where
  "check_main argv stat junk junk2 d =
    (if length argv \<noteq> 4 then
       (1, ''Please pass three path string arguments in this order: newfile, oldfile and the directory'' @ [CHR 0x00])
     else
       let perms = concat (map (\<lambda>i. snd (printPerms (stat (argv ! i)) (argv ! i) i ([''newfile'', ''oldfile'', ''directory''] ! (i - 1)))) [1..<4]);
           res = reversed (argv ! 1) (argv ! 2) junk junk2 d
       in (0, perms @ ''Whether file contents are reversed in newfile: '' @ (if res = -1 then [] else if res = 1 then ''Yes'' else ''No'')))"

section \<open>The loops\<close>

lemma rev_loop_nth:
  assumes "0 \<le> i" "j < int (length xs)"
  shows "length (rev_loop i j xs) = length xs"
    "k < length xs \<Longrightarrow> rev_loop i j xs ! k = (if i \<le> int k \<and> int k \<le> j then xs ! nat (i + j - int k) else xs ! k)"
  using assms
proof (induction i j xs rule: rev_loop.induct)
  case (1 i j xs)
  let ?ys = "xs[nat i := xs ! nat j, nat j := xs ! nat i]"
  {
    case 1
    then show ?case using "1.IH"(1) by (subst rev_loop.simps) simp
  next
    case 2
    show ?case
    proof (cases "i \<le> j")
      case True
      have sw: "?ys ! m = (if int m = j then xs ! nat i else if int m = i then xs ! nat j else xs ! m)" if "m < length xs" for m
        using that 2 True by (auto simp: nth_list_update nat_eq_iff)
      have "rev_loop i j xs ! k = (if i + 1 \<le> int k \<and> int k \<le> j - 1 then ?ys ! nat (i + j - int k) else ?ys ! k)"
        using "1.IH"(2)[OF True] 2 True by (subst rev_loop.simps) simp
      then show ?thesis using True 2 by (auto simp: sw nat_eq_iff)
    qed (subst rev_loop.simps, auto)
  }
qed

lemma reverse_buf_eq:
  assumes "n \<le> length xs"
  shows "reverse_buf xs n = rev (take n xs) @ drop n xs"
proof (rule nth_equalityI)
  show "length (reverse_buf xs n) = length (rev (take n xs) @ drop n xs)" using assms by (simp add: reverse_buf_def rev_loop_nth(1))
next
  fix k assume "k < length (reverse_buf xs n)"
  then have k: "k < length xs" using assms by (simp add: reverse_buf_def rev_loop_nth(1))
  have "nat (int n - 1 - int k) = n - Suc k" by simp
  then show "reverse_buf xs n ! k = (rev (take n xs) @ drop n xs) ! k"
    using assms k by (simp add: reverse_buf_def rev_loop_nth(2) nth_append rev_nth min_def)
qed

lemma reved_from_iff: "reved_from a b i j \<longleftrightarrow> (\<forall>k < j. a ! (i + k) = b ! (j - 1 - k))"
proof (induction j arbitrary: i)
  case (Suc j)
  have "(\<forall>k < Suc j. a ! (i + k) = b ! (j - k)) \<longleftrightarrow> a ! i = b ! j \<and> (\<forall>k < j. a ! (i + 1 + k) = b ! (j - 1 - k))"
    by (auto simp: less_Suc_eq_0_disj)
  then show ?case by (simp add: Suc)
qed simp

lemma isReved_iff:
  assumes "n \<le> length a" "n \<le> length b"
  shows "isReved a b n \<longleftrightarrow> take n a = rev (take n b)"
  using assms by (auto simp: isReved_def reved_from_iff list_eq_iff_nth_eq rev_nth min_def)

lemma fill_buf_simps:
  assumes "length xs \<le> length buf"
  shows "length (fill_buf xs buf) = length buf" "take (length xs) (fill_buf xs buf) = xs"
  using assms by (simp_all add: fill_buf_def)

lemma block_size_pos [simp]: "block_size n > 0" "block_size n \<le> 1000000"
  by (auto simp: block_size_def)

lemma s32_id: "- (2 ^ 31) \<le> x \<Longrightarrow> x < 2 ^ 31 \<Longrightarrow> s32 x = x"
  by (simp add: s32_def sint_sbintrunc' signed_take_bit_int_eq_self)

lemma s32_small: "x \<le> 1000000 \<Longrightarrow> nat (s32 (int x)) = x"
  by (subst s32_id) simp_all

text \<open>After block \<open>i\<close> the position moves to the block before it, if there is one.\<close>

lemma seek_back:
  assumes "(i + Suc k) * n \<le> sz" "k > 0" "off = sz - (i + 1) * n"
  shows "seek_to (int (off + n) - 2 * int n) (off + n) = sz - (i + 1 + 1) * n"
proof -
  have "(i + 2) * n \<le> (i + Suc k) * n" by (rule mult_right_mono) (use assms(2) in simp_all)
  then have "(i + 2) * n \<le> sz" using assms(1) by linarith
  then obtain q where q: "sz = (i + 2) * n + q" using le_Suc_ex by blast
  then have "off = q + n" by (simp add: assms(3))
  then show ?thesis using q by (simp add: seek_to_def)
qed

section \<open>Q1 writes the reverse\<close>

text \<open>\<open>g\<close> has been written and the next block starts at \<open>r\<close>, of an input that nothing changes.\<close>

definition copying :: "string \<Rightarrow> string \<Rightarrow> disk_map \<Rightarrow> nat \<Rightarrow> u8 list \<Rightarrow> rev_st \<Rightarrow> bool" where
  "copying a b d n g s \<longleftrightarrow> length (rbuf s) = n \<and> woff s = length g \<and> disk s = d(b \<mapsto> g)"

lemma move_block_ok:
  assumes s: "copying a b d n g s" and ab: "a \<noteq> b" and f: "d a = Some f" and n: "k \<le> n" "roff s + k \<le> length f"
  shows "copying a b d n (g @ rev (take k (drop (roff s) f))) (move_block a b k s)" "roff (move_block a b k s) = roff s + k"
proof -
  let ?xs = "take k (drop (roff s) f)" and ?s = "move_block a b k s"
  have l: "length ?xs = k" using n(2) by simp
  have c: "file_content a (disk s) = f" "file_content b (disk s) = g" using s ab f by (simp_all add: copying_def file_content_def)
  have b: "k \<le> length (rbuf s)" using s n(1) by (simp add: copying_def)
  then have x: "reverse_buf (fill_buf ?xs (rbuf s)) k = rev ?xs @ drop k (rbuf s)"
    using l by (simp add: reverse_buf_eq fill_buf_simps fill_buf_def)
  have w: "woff s = length g" using s by (simp add: copying_def)
  have "rbuf ?s = rev ?xs @ drop k (rbuf s)" "woff ?s = woff s + k" "roff ?s = roff s + k" "disk ?s = (disk s)(b \<mapsto> write_at (woff s) (take k (rev ?xs @ drop k (rbuf s))) g)"
    using x l by (simp_all add: move_block_def Let_def c read_at_def)
  moreover have "write_at (woff s) (take k (rev ?xs @ drop k (rbuf s))) g = g @ rev ?xs" using l by (simp add: write_at_def w)
  ultimately show "copying a b d n (g @ rev ?xs) ?s" "roff ?s = roff s + k" using s l b by (auto simp: copying_def)
qed

lemma rev_steps_ok:
  assumes "copying a b d n (rev (drop (length f - i * n) f)) s" "a \<noteq> b" "d a = Some f" "(i + k) * n \<le> length f"
    "k > 0 \<Longrightarrow> roff s = length f - (i + 1) * n"
  shows "copying a b d n (rev (drop (length f - (i + k) * n) f)) (rev_steps a b sz n u k i s)"
  using assms
proof (induction k arbitrary: i s)
  case (Suc k)
  let ?s1 = "move_block a b n s"
  have r: "roff s = length f - (i + 1) * n" using Suc.prems(5) by simp
  have l: "(i + 1) * n \<le> length f"
  proof -
    have "(i + 1) * n \<le> (i + Suc k) * n" by (rule mult_right_mono) simp_all
    then show ?thesis using Suc.prems(4) by linarith
  qed
  then have n: "roff s + n \<le> length f" by (simp add: r)
  note M = move_block_ok[OF Suc.prems(1-3) order.refl n]
  have e: "take n (drop (roff s) f) @ drop (length f - i * n) f = drop (length f - (i + 1) * n) f"
  proof -
    have "length f - i * n = n + roff s" using l by (simp add: r)
    then show ?thesis by (metis append_take_drop_id drop_drop r)
  qed
  then have g: "rev (drop (length f - i * n) f) @ rev (take n (drop (roff s) f)) = rev (drop (length f - (i + 1) * n) f)" by (metis rev_append)
  have roff1: "seek_to (int (roff ?s1) - 2 * int n) (roff ?s1) = length f - (i + 1 + 1) * n" if "k > 0"
    using seek_back[OF Suc.prems(4) that r] by (simp add: M(2))
  define s3 where "s3 = (let s2 = ?s1\<lparr>roff := seek_to (int (roff ?s1) - 2 * int n) (roff ?s1)\<rparr> in
    if i mod u = 0 then s2\<lparr>tty := tty s2 @ writeProgress (s32 (int (i * n * 100 div sz)))\<rparr> else s2)"
  have s3: "copying a b d n (rev (drop (length f - (i + 1) * n) f)) s3" "k > 0 \<Longrightarrow> roff s3 = length f - (i + 1 + 1) * n"
    using M(1) roff1 unfolding g by (simp_all add: s3_def Let_def copying_def)
  show ?case using Suc.IH[OF s3(1) Suc.prems(2,3)] Suc.prems(4) s3(2) by (simp add: s3_def Let_def)
qed simp

lemma reverse_file_ok:
  assumes "a \<noteq> b" "d a = Some f" "d b = Some []" "length junk \<ge> 1000000"
  shows "snd (reverse_file a b (length f) junk d) = d(b \<mapsto> rev f)"
proof -
  let ?n = "block_size (length f)" let ?k = "length f div ?n" let ?l = "length f - ?k * ?n"
  define s0 where "s0 = \<lparr>roff = seek_to (int (length f) - int ?n) 0, rbuf = take ?n junk, woff = 0, disk = d, tty = []\<rparr>"
  have k: "?k * ?n \<le> length f" by simp
  have r: "roff s0 = length f - ?n" if "?k > 0"
  proof -
    have "?n \<le> length f" using that by (metis div_less not_less_iff_gr_or_eq not_less)
    then show ?thesis by (simp add: s0_def seek_to_def nat_diff_distrib)
  qed
  have "?n \<le> length junk" using order.trans[OF block_size_pos(2) assms(4)] .
  then have s0: "copying a b d ?n [] s0" using assms(3) by (auto simp: copying_def s0_def fun_upd_idem_iff)
  define s1 where "s1 = rev_steps a b (length f) ?n (max 1 (?k div 100)) ?k 0 s0"
  have s1: "copying a b d ?n (rev (drop ?l f)) s1"
    using rev_steps_ok[of a b d ?n f 0 s0 ?k "length f" "max 1 (?k div 100)"] s0 assms(1,2) k r by (simp add: s1_def)
  have lt: "?l < ?n" by (simp add: mult.commute minus_mult_div_eq_mod)
  have le: "nat (s32 (int ?l)) = ?l" by (rule s32_small) (rule order.trans[OF less_imp_le[OF lt] block_size_pos(2)])
  have "copying a b d ?n (rev (drop ?l f) @ rev (take ?l (drop 0 f))) (move_block a b ?l (s1\<lparr>roff := 0\<rparr>))"
    using move_block_ok(1)[of a b d ?n "rev (drop ?l f)" "s1\<lparr>roff := 0\<rparr>" f ?l] s1 assms(1,2) lt by (simp add: copying_def)
  then have "disk (move_block a b ?l (s1\<lparr>roff := 0\<rparr>)) = d(b \<mapsto> rev f)" by (simp add: copying_def flip: rev_append)
  moreover have "file_content a d = f" using assms(2) by (simp add: file_content_def)
  ultimately show ?thesis unfolding reverse_file_def Let_def using le by (simp add: s1_def s0_def)
qed

section \<open>Q2 decides it\<close>

lemma read_eq:
  assumes "off + n \<le> length c" "length buf = m" "n \<le> m"
  shows "length (fill_buf (read_at n off c) buf) = m" "take n (fill_buf (read_at n off c) buf) = take n (drop off c)" "length (read_at n off c) = n"
proof -
  show l: "length (read_at n off c) = n" using assms(1) by (simp add: read_at_def)
  show "length (fill_buf (read_at n off c) buf) = m" using assms(2,3) l by (simp add: fill_buf_simps)
  show "take n (fill_buf (read_at n off c) buf) = take n (drop off c)"
    using fill_buf_simps(2)[of "read_at n off c" buf] assms(2,3) l by (simp add: read_at_def)
qed

lemma check_steps_ok:
  assumes "length a = sz" "length b = sz" "(i + k) * n \<le> sz" "length buf = n" "length buf2 = n" "k > 0 \<Longrightarrow> o1 = sz - (i + 1) * n" "n > 0"
  shows "(if take (k * n) (drop (sz - (i + k) * n) a) = rev (take (k * n) (drop (i * n) b))
      then \<exists>c1 c2. check_steps a b n k o1 (i * n) buf buf2 = Some ((i + k) * n, c1, c2) \<and> length c1 = n \<and> length c2 = n
      else check_steps a b n k o1 (i * n) buf buf2 = None)"
  using assms
proof (induction k arbitrary: i o1 buf buf2)
  case (Suc k)
  have "(i + 1) * n \<le> (i + Suc k) * n" by (rule mult_right_mono) simp_all
  then have l: "(i + 1) * n \<le> sz" using Suc.prems(3) by linarith
  have o1: "o1 = sz - (i + 1) * n" using Suc.prems(6) by simp
  have n1: "o1 + n \<le> length a" "i * n + n \<le> length b" using l Suc.prems(1,2) o1 by simp_all
  note A = read_eq[OF n1(1) Suc.prems(4) order.refl] and B = read_eq[OF n1(2) Suc.prems(5) order.refl]
  let ?b1 = "fill_buf (read_at n o1 a) buf" and ?b2 = "fill_buf (read_at n (i * n) b) buf2"
  have x: "isReved ?b1 ?b2 n \<longleftrightarrow> take n (drop o1 a) = rev (take n (drop (i * n) b))"
    using A(1,2) B(1,2) by (simp add: isReved_iff)
  have lo: "o1 = (sz - (i + Suc k) * n) + k * n" using Suc.prems(3) l by (simp add: o1 algebra_simps)
  have sp: "take (Suc k * n) (drop (sz - (i + Suc k) * n) a) = take (k * n) (drop (sz - (i + Suc k) * n) a) @ take n (drop o1 a)"
    using take_add[of "k * n" n "drop (sz - (i + Suc k) * n) a"] lo by (simp add: add.commute)
  have sq: "rev (take (Suc k * n) (drop (i * n) b)) = rev (take (k * n) (drop ((i + 1) * n) b)) @ rev (take n (drop (i * n) b))"
    using take_add[of n "k * n" "drop (i * n) b"] by (simp add: add.commute)
  have le: "length (take n (drop o1 a)) = length (rev (take n (drop (i * n) b)))" using n1 by simp
  have iff: "take (Suc k * n) (drop (sz - (i + Suc k) * n) a) = rev (take (Suc k * n) (drop (i * n) b)) \<longleftrightarrow>
      take n (drop o1 a) = rev (take n (drop (i * n) b)) \<and> take (k * n) (drop (sz - (i + 1 + k) * n) a) = rev (take (k * n) (drop ((i + 1) * n) b))"
    unfolding sp sq using le by (subst append_eq_append_conv) auto
  have o2: "k > 0 \<Longrightarrow> seek_to (int (o1 + n) - 2 * int n) (o1 + n) = sz - (i + 1 + 1) * n"
    by (rule seek_back[OF Suc.prems(3) _ o1])
  have IH: "if take (k * n) (drop (sz - (i + 1 + k) * n) a) = rev (take (k * n) (drop ((i + 1) * n) b))
      then \<exists>c1 c2. check_steps a b n k (seek_to (int (o1 + n) - 2 * int n) (o1 + n)) ((i + 1) * n) ?b1 ?b2 = Some ((i + 1 + k) * n, c1, c2) \<and> length c1 = n \<and> length c2 = n
      else check_steps a b n k (seek_to (int (o1 + n) - 2 * int n) (o1 + n)) ((i + 1) * n) ?b1 ?b2 = None"
    by (rule Suc.IH[OF Suc.prems(1,2) _ A(1) B(1) o2 Suc.prems(7)]) (use Suc.prems(3) in simp_all)
  show ?case unfolding iff using IH x A(3) B(3) by (auto simp: Let_def add.commute split: if_splits)
qed simp

lemma reversed_ok:
  assumes "d p = Some a" "d q = Some b" "length a < 2 ^ 31" "length junk \<ge> 1000000" "length junk2 \<ge> 1000000"
  shows "reversed p q junk junk2 d = (if a = rev b then 1 else 0)"
proof (cases "length a = length b")
  case False
  then show ?thesis using assms(1,2) by (auto simp: reversed_def)
next
  case True
  define sz where "sz = length a"
  define n where "n = nat (max (min (tdiv (int sz) 1000) 1000000) 1)"
  define k where "k = sz div n"
  define l where "l = sz - k * n"
  have n: "n > 0" "n \<le> 1000000" by (simp_all add: n_def)
  have z: "s32 (int (length a)) = int sz" "tdiv (int sz) (int n) = int k" using assms(3) by (simp_all add: sz_def s32_id tdiv_def k_def zdiv_int)
  have kn: "k * n \<le> sz" by (simp add: k_def)
  have ln: "l < n" "k * n + l = sz" using n(1) kn by (simp_all add: l_def k_def minus_div_mult_eq_mod)
  have left: "nat (int sz - int k * int n) = l" using kn by (simp add: l_def nat_diff_distrib flip: of_nat_mult)
  define o1 where "o1 = seek_to (int sz - int n) 0"
  have o1: "o1 = sz - (0 + 1) * n" if "k > 0"
  proof -
    have "n \<le> sz" using that by (metis div_less k_def not_less not_less_iff_gr_or_eq)
    then show ?thesis by (simp add: o1_def seek_to_def nat_diff_distrib)
  qed
  have lj: "length (take n junk) = n" "length (take n junk2) = n" using n(2) assms(4,5) by simp_all
  have C: "if take (k * n) (drop (sz - (0 + k) * n) a) = rev (take (k * n) (drop (0 * n) b))
      then \<exists>c1 c2. check_steps a b n k o1 (0 * n) (take n junk) (take n junk2) = Some ((0 + k) * n, c1, c2) \<and> length c1 = n \<and> length c2 = n
      else check_steps a b n k o1 (0 * n) (take n junk) (take n junk2) = None"
    by (rule check_steps_ok) (use True kn lj o1 n(1) in \<open>simp_all add: sz_def\<close>)
  have e: "reversed p q junk junk2 d = (case check_steps a b n k o1 0 (take n junk) (take n junk2) of None \<Rightarrow> 0
      | Some (o2, buf, buf2) \<Rightarrow> if isReved (fill_buf (read_at l 0 a) buf) (fill_buf (read_at l o2 b) buf2) l then 1 else 0)"
    unfolding reversed_def assms(1,2) prod.case option.case Let_def z(1) n_def[symmetric] z(2) left o1_def using True by (simp add: sz_def)
  have split: "a = rev b \<longleftrightarrow> take l a = rev (take l (drop (k * n) b)) \<and> drop l a = rev (take (k * n) b)"
  proof -
    have r: "rev b = rev (drop (k * n) b) @ rev (take (k * n) b)" by (simp flip: rev_append)
    have "take l (drop (k * n) b) = drop (k * n) b" "length (take l a) = length (rev (drop (k * n) b))" using True ln by (simp_all add: sz_def)
    then show ?thesis using append_eq_append_conv[of "take l a" "rev (drop (k * n) b)" "drop l a"] r by (metis append_take_drop_id)
  qed
  have dl: "take (k * n) (drop (sz - k * n) a) = drop l a" using ln by (simp add: l_def sz_def)
  show ?thesis
  proof (cases "drop l a = rev (take (k * n) b)")
    case no: False
    then show ?thesis using C e split by (simp add: dl)
  next
    case yes: True
    obtain c1 c2 where c: "check_steps a b n k o1 0 (take n junk) (take n junk2) = Some (k * n, c1, c2)" "length c1 = n" "length c2 = n"
      using C yes by (auto simp: dl)
    have b: "0 + l \<le> length a" "k * n + l \<le> length b" using True ln by (simp_all add: sz_def)
    have "isReved (fill_buf (read_at l 0 a) c1) (fill_buf (read_at l (k * n) b) c2) l \<longleftrightarrow> take l a = rev (take l (drop (k * n) b))"
      using read_eq(1,2)[OF b(1) c(2)] read_eq(1,2)[OF b(2) c(3)] ln(1) by (simp add: isReved_iff)
    then show ?thesis using e c(1) split yes by simp
  qed
qed

text \<open>\<open>Q2.c\<close> keeps the size in an \<open>int\<close>: of two files of the same size between 2 and 4 GB it compares nothing and says yes.\<close>

lemma reversed_large:
  assumes "d p = Some a" "d q = Some b" "length a = length b" "2 ^ 31 \<le> length a" "length a < 2 ^ 32"
  shows "reversed p q junk junk2 d = 1"
proof -
  define z where "z = s32 (int (length a))"
  have "z = int (length a) - 2 ^ 32"
  proof -
    have "z = (int (length a) + 2 ^ 31) mod 2 ^ 32 - 2 ^ 31" unfolding z_def s32_def by (subst int_word_sint) simp
    also have "(int (length a) + 2 ^ 31) mod 2 ^ 32 = int (length a) - 2 ^ 31" using assms(4,5) by (subst mod_pos_geq) simp_all
    finally show ?thesis by simp
  qed
  then have z: "z < 0" using assms(5) by simp
  then have n: "max (min (tdiv z 1000) 1000000) 1 = 1" by (auto simp: tdiv_def)
  have s: "tdiv z 1 = z" "nat z = 0" using z by (simp_all add: tdiv_def)
  show ?thesis unfolding reversed_def assms(1,2) prod.case option.case Let_def z_def[symmetric] n
    using assms(3) s by (simp add: isReved_def)
qed

text \<open>
  C7: reversing and checking agree. For an input of fewer than 2 GB whose name is not already that of the output file, \<open>Q1.c\<close> ends
  with status 0, the output file holds exactly the bytes of the input in reverse order (also when the size is 0, below a block, or
  not a multiple of the block, and although the seek before the first block of the file fails), no other file changes, and \<open>Q2.c\<close> then
  answers yes. For any two files with contents of fewer than 2 GB, \<open>Q2.c\<close> answers yes exactly when the first is the reverse of
  the second.
\<close>

theorem reverse_and_check:
  assumes "out_path inp = Inr out" and "out \<noteq> inp" and "d inp = Some f" and "length f < 2 ^ 31" and "can_create out"
    and "length junk \<ge> 1000000" and "length junk2 \<ge> 1000000"
  shows "\<exists>t d1. rev_main [prog, inp] can_create junk d = Inr (0, t, d1) \<and> d1 out = Some (rev f) \<and> (\<forall>p. p \<noteq> out \<longrightarrow> d1 p = d p) \<and>
    reversed out inp junk junk2 d1 = 1 \<and>
    (\<forall>d2 p q a b. d2 p = Some a \<longrightarrow> d2 q = Some b \<longrightarrow> length a < 2 ^ 31 \<longrightarrow> reversed p q junk junk2 d2 = (if a = rev b then 1 else 0))"
proof -
  have r: "snd (reverse_file inp out (length f) junk (d(out \<mapsto> []))) = d(out \<mapsto> rev f)"
    using reverse_file_ok[of inp out "d(out \<mapsto> [])" f junk] assms(2,3,6) by simp
  obtain t where "reverse_file inp out (length f) junk (d(out \<mapsto> [])) = (t, d(out \<mapsto> rev f))" using r by (metis prod.collapse)
  then have m: "rev_main [prog, inp] can_create junk d = Inr (0, t, d(out \<mapsto> rev f))" using assms(1,3,5) by (simp add: rev_main_def)
  have "reversed out inp junk junk2 (d(out \<mapsto> rev f)) = 1"
    using reversed_ok[of "d(out \<mapsto> rev f)" out "rev f" inp f] assms(2-4,6,7) by simp
  then show ?thesis using m reversed_ok assms(6,7) by auto
qed

theorem reverse_and_check_witness:
  "\<exists>t d1. rev_main [''q1'', ''t/abc''] (\<lambda>_. True) (replicate 1000000 0) [''t/abc'' \<mapsto> [1, 2, 3]] = Inr (0, t, d1) \<and>
     d1 ''Assignment/abc'' = Some [3, 2, 1] \<and> reversed ''Assignment/abc'' ''t/abc'' (replicate 1000000 0) (replicate 1000000 0) d1 = 1"
proof -
  have "out_path ''t/abc'' = Inr ''Assignment/abc''" by code_simp
  from reverse_and_check[OF this, of "[''t/abc'' \<mapsto> [1, 2, 3]]" "[1, 2, 3]" "\<lambda>_. True" "replicate 1000000 0" "replicate 1000000 0" "''q1''"]
  show ?thesis by fastforce
qed

end
