(* ===== verification/Gosh_Text.thy ===== *)
theory Gosh_Text
  imports Prelude
begin

text \<open>
  The parts of the shell GOSH (assignment 2) that work on text: \<open>trim\<close> (\<open>stringers.c\<close>), the command history and its file
  (\<open>history.c\<close>), and the directories (\<open>directory.c\<close>). A C string is the list of its characters before the terminating zero; the
  operating system's answers are arguments. Storing past the end of an array with a fixed size is a \<open>Fault\<close>.
\<close>

section \<open>Strings\<close>

definition isspace :: "char \<Rightarrow> bool" where
  "isspace c \<longleftrightarrow> c \<in> {CHR 0x20, CHR 0x09, CHR 0x0A, CHR 0x0B, CHR 0x0C, CHR 0x0D}"

text \<open>The loop from the end: the index of the last character that stays.\<close>

fun trim_end :: "string \<Rightarrow> nat \<Rightarrow> nat" where
  "trim_end s 0 = 0"
| "trim_end s (Suc e) = (if isspace (s ! Suc e) then trim_end s e else Suc e)"

definition trim :: "string \<Rightarrow> string" where
  "trim str = (let s = dropWhile isspace str in if s = [] then [] else take (Suc (trim_end s (length s - 1))) s)"

text \<open>The pieces that successive calls of \<open>strtok\<close> return: maximal runs without a delimiter.\<close>

function tokens :: "string \<Rightarrow> string \<Rightarrow> string list" where
  "tokens delim s =
    (let t = dropWhile (\<lambda>c. c \<in> set delim) s
     in if t = [] then [] else takeWhile (\<lambda>c. c \<notin> set delim) t # tokens delim (dropWhile (\<lambda>c. c \<notin> set delim) t))"
  by auto
termination
proof (relation "measure (length \<circ> snd)", goal_cases)
  case (2 delim s t)
  then obtain c cs where t: "t = c # cs" "c \<notin> set delim" by (metis dropWhile_eq_Cons_conv neq_Nil_conv)
  have "length (dropWhile (\<lambda>c. c \<notin> set delim) t) \<le> length cs" using t by (simp add: length_dropWhile_le)
  also have "length cs < length t" by (simp add: t)
  also have "length t \<le> length s" using 2(1) by (simp add: length_dropWhile_le)
  finally show ?case by simp
qed simp

declare tokens.simps [simp del]

definition NL :: char where "NL = CHR 0x0A"

definition c_string :: "string \<Rightarrow> string" where
  "c_string s = takeWhile (\<lambda>c. c \<noteq> CHR 0x00) s"

text \<open>\<open>atoi_str\<close> of the C library.\<close>

definition digits_value :: "string \<Rightarrow> int" where
  "digits_value s = fold (\<lambda>c n. 10 * n + int (of_char c) - 48) (takeWhile (\<lambda>c. of_char c \<ge> (48::nat) \<and> of_char c \<le> (57::nat)) s) 0"

definition atoi_str :: "string \<Rightarrow> int" where
  "atoi_str s = (case dropWhile isspace s of
     c # cs \<Rightarrow> if c = CHR ''-'' then - digits_value cs else if c = CHR ''+'' then digits_value cs else digits_value (c # cs)
   | [] \<Rightarrow> 0)"

section \<open>History\<close>

definition maxStored :: nat where "maxStored = 20"

text \<open>The stored commands and the file, \<open>None\<close> when it cannot be opened for writing.\<close>

record history =
  commandHistory :: "string list"
  hfile :: "string option"

definition retrieveStored :: "string option \<Rightarrow> string list result" where
  "retrieveStored f = (case f of None \<Rightarrow> Inr []
     | Some content \<Rightarrow>
         if length content \<ge> 1000 then Inl (Fault ''buf'')
         else let cs = filter (\<lambda>c. c \<noteq> []) (map trim (tokens [NL] (c_string content)))
              in if length cs > maxStored then Inl (Fault ''commandHistory'') else Inr cs)"

definition writeStored :: "history \<Rightarrow> history" where
  "writeStored h = (case hfile h of None \<Rightarrow> h | Some _ \<Rightarrow> h\<lparr>hfile := Some (concat (map (\<lambda>c. c @ [NL]) (commandHistory h)))\<rparr>)"

text \<open>The loop that moves every entry one place down.\<close>

fun hist_shift :: "nat \<Rightarrow> nat \<Rightarrow> string list \<Rightarrow> string list" where
  "hist_shift 0 i cs = cs"
| "hist_shift (Suc k) i cs = hist_shift k (i + 1) (cs[i := cs ! (i + 1)])"

definition addNewCommand :: "string \<Rightarrow> history \<Rightarrow> history" where
  "addNewCommand cmd h =
    (let cs = commandHistory h; storedCount = length cs in
     if storedCount > 0 \<and> cs ! (storedCount - 1) = cmd then h
     else if storedCount < maxStored then writeStored (h\<lparr>commandHistory := cs @ [cmd]\<rparr>)
     else writeStored (h\<lparr>commandHistory := (hist_shift (maxStored - 1) 0 cs)[maxStored - 1 := cmd]\<rparr>))"

definition printHistory :: "int \<Rightarrow> history \<Rightarrow> string list" where
  "printHistory n h = (let k = length (commandHistory h); lim = max (int k - n) 0 in map (\<lambda>i. commandHistory h ! i) [nat lim..<k])"

section \<open>Directories\<close>

text \<open>\<open>cwd\<close> is the working directory of the process; the rest is what the shell keeps.\<close>

record dirstate =
  cwd :: string
  currDirectories :: "string list"
  currDirString :: string
  homeDirPath :: "string list"
  expectedHomeDir :: string

definition updatePWD :: "dirstate \<Rightarrow> dirstate" where
  "updatePWD d = d\<lparr>currDirString := concat (map ((#) (CHR ''/'')) (currDirectories d))\<rparr>"

fun home_prefix :: "string list \<Rightarrow> string list \<Rightarrow> bool" where
  "home_prefix cur [] = True"
| "home_prefix [] (h # hs) = False"
| "home_prefix (c # cs) (h # hs) = (if c \<noteq> h then False else home_prefix cs hs)"

definition currDirIsHome :: "dirstate \<Rightarrow> bool" where
  "currDirIsHome d = home_prefix (currDirectories d) (homeDirPath d)"

definition printPWD :: "bool \<Rightarrow> bool \<Rightarrow> dirstate \<Rightarrow> string" where
  "printPWD printNewline printAbs d =
    (if currDirIsHome d \<and> \<not> printAbs
     then ''~'' @ concat (map ((#) (CHR ''/'')) (drop (length (homeDirPath d)) (currDirectories d)))
     else currDirString d) @ (if printNewline then [NL] else [])"

definition initDirSetup :: "bool \<Rightarrow> dirstate \<Rightarrow> dirstate result" where
  "initDirSetup updateHome d =
    (let d = (if updateHome then d\<lparr>expectedHomeDir := cwd d\<rparr> else d); ps = tokens ''/'' (cwd d) in
     if length ps > 100 then Inl (Fault ''currDirectories'')
     else Inr (updatePWD (if updateHome then d\<lparr>homeDirPath := ps, currDirectories := ps\<rparr> else d\<lparr>currDirectories := ps\<rparr>)))"

text \<open>\<open>os_chdir\<close> maps the working directory and a path to the new working directory, if there is one.\<close>

definition try_chdir :: "(string \<Rightarrow> string \<Rightarrow> string option) \<Rightarrow> string \<Rightarrow> dirstate \<Rightarrow> bool \<times> dirstate" where
  "try_chdir os_chdir p d = (case os_chdir (cwd d) p of None \<Rightarrow> (False, d) | Some w \<Rightarrow> (True, d\<lparr>cwd := w\<rparr>))"

definition changeDirectory :: "(string \<Rightarrow> string \<Rightarrow> string option) \<Rightarrow> string option \<Rightarrow> dirstate \<Rightarrow> dirstate result" where
  "changeDirectory os_chdir newDir d =
    (let (target, d1) =
       (case newDir of
          None \<Rightarrow> (expectedHomeDir d, snd (try_chdir os_chdir (expectedHomeDir d) d))
        | Some [] \<Rightarrow> (expectedHomeDir d, snd (try_chdir os_chdir (expectedHomeDir d) d))
        | Some (c # cs) \<Rightarrow>
            if c = CHR ''~'' then (if cs \<noteq> [] \<and> hd cs = CHR ''/'' then tl cs else cs, snd (try_chdir os_chdir (expectedHomeDir d) d))
            else (c # cs, d))
     in if target = [] then initDirSetup False d1
        else (case try_chdir os_chdir target d1 of (ok, d2) \<Rightarrow> if ok then initDirSetup False d2 else Inr d2))"

text \<open>The names \<open>ls\<close> shows, in the order of \<open>scandir\<close>, and the comparison it sorts by.\<close>

definition lower :: "char \<Rightarrow> nat" where
  "lower c = (let n = of_char c in if 65 \<le> n \<and> n \<le> 90 then n + 32 else n)"

fun strcasecmp :: "string \<Rightarrow> string \<Rightarrow> int" where
  "strcasecmp [] [] = 0"
| "strcasecmp [] (b # bs) = - int (lower b)"
| "strcasecmp (a # as) [] = int (lower a)"
| "strcasecmp (a # as) (b # bs) = (if lower a = lower b then strcasecmp as bs else int (lower a) - int (lower b))"

definition skip_dot :: "string \<Rightarrow> string" where
  "skip_dot s = (case s of [] \<Rightarrow> [] | c # cs \<Rightarrow> if c = CHR ''.'' then cs else c # cs)"

definition myCompare :: "string \<Rightarrow> string \<Rightarrow> int" where
  "myCompare a b = strcasecmp (skip_dot a) (skip_dot b)"

definition myFilter :: "string \<Rightarrow> bool" where
  "myFilter a \<longleftrightarrow> length a \<noteq> 0"

definition visible :: "bool \<Rightarrow> string \<Rightarrow> bool" where
  "visible showHidden f \<longleftrightarrow> showHidden \<or> f = [] \<or> hd f \<noteq> CHR ''.''"

section \<open>Lemmas on strings\<close>

lemma trim_end_le: "trim_end s e \<le> e"
  by (induction e) auto

lemma trim_end_spec:
  assumes "e < length s" "\<not> isspace (s ! 0)"
  shows "take (Suc (trim_end s e)) s = rev (dropWhile isspace (rev (take (Suc e) s)))"
  using assms
proof (induction e)
  case 0
  then show ?case by (simp add: take_Suc_conv_app_nth)
next
  case (Suc e)
  then show ?case by (simp add: take_Suc_conv_app_nth[of "Suc e"] rev_append)
qed

lemma trim_eq: "trim s = rev (dropWhile isspace (rev (dropWhile isspace s)))"
proof -
  let ?t = "dropWhile isspace s"
  show ?thesis
  proof (cases "?t = []")
    case False
    then have "\<not> isspace (?t ! 0)" using hd_dropWhile[OF False] by (simp add: hd_conv_nth)
    moreover have "trim s = take (Suc (trim_end ?t (length ?t - 1))) ?t" using False by (simp only: trim_def Let_def if_False)
    moreover have "length ?t - 1 < length ?t" "take (Suc (length ?t - 1)) ?t = ?t" using False by (simp_all only: length_greater_0_conv[symmetric] diff_less less_one Suc_diff_1 take_all_iff)
    ultimately show ?thesis using trim_end_spec[of "length ?t - 1" ?t] by metis
  qed (auto simp: trim_def dest: set_dropWhileD)
qed

lemma set_trim: "set (trim s) \<subseteq> set s"
proof -
  have "set (dropWhile isspace xs) \<subseteq> set xs" for xs by (rule set_dropWhileD[THEN subsetI])
  then show ?thesis by (auto simp: trim_eq dest!: set_dropWhileD)
qed

lemma tokens_Nil [simp]: "tokens D [] = []"
  by (subst tokens.simps) simp

lemma tokens_delim: "d \<in> set D \<Longrightarrow> tokens D (d # s) = tokens D s"
  by (subst (1 2) tokens.simps) simp

lemma tokens_piece:
  assumes "t \<noteq> []" "set t \<inter> set D = {}" "d \<in> set D"
  shows "tokens D (t @ d # s) = t # tokens D s"
proof -
  obtain c cs where t: "t = c # cs" using assms(1) by (cases t) auto
  have n: "\<forall>x \<in> set t. x \<notin> set D" using assms(2) by auto
  have "dropWhile (\<lambda>c. c \<in> set D) (t @ d # s) = t @ d # s" using n t by simp
  moreover have "takeWhile (\<lambda>c. c \<notin> set D) (t @ d # s) = t" "dropWhile (\<lambda>c. c \<notin> set D) (t @ d # s) = d # s"
    using n assms(3) by (simp_all add: takeWhile_append2 dropWhile_append2)
  ultimately show ?thesis using assms(1,3) by (subst tokens.simps) (simp add: Let_def tokens_delim)
qed

lemma tokens_single:
  assumes "t \<noteq> []" "set t \<inter> set D = {}"
  shows "tokens D t = [t]"
proof -
  have n: "\<forall>x \<in> set t. x \<notin> set D" using assms(2) by auto
  have "dropWhile (\<lambda>c. c \<in> set D) t = t" using assms(1) n by (cases t) auto
  moreover have "takeWhile (\<lambda>c. c \<notin> set D) t = t" "dropWhile (\<lambda>c. c \<notin> set D) t = []" using n by (simp_all add: takeWhile_eq_all_conv)
  ultimately show ?thesis using assms(1) by (subst tokens.simps) (simp only: Let_def if_False tokens_Nil)
qed

lemma tokens_lines:
  assumes "\<forall>c \<in> set cs. d \<notin> set c"
  shows "tokens [d] (concat (map (\<lambda>c. c @ [d]) cs)) = filter (\<lambda>c. c \<noteq> []) cs"
  using assms by (induction cs) (auto simp: tokens_delim tokens_piece)

section \<open>History\<close>

definition last_n :: "nat \<Rightarrow> 'a list \<Rightarrow> 'a list" where
  "last_n n xs = drop (length xs - n) xs"

lemma hist_shift_eq: "i + k < length cs \<Longrightarrow> hist_shift k i cs = take i cs @ take k (drop (i + 1) cs) @ drop (i + k) cs"
proof (induction k arbitrary: i cs)
  case 0
  then show ?case by simp
next
  case (Suc k)
  let ?ds = "cs[i := cs ! (i + 1)]"
  have "hist_shift (Suc k) i cs = take (i + 1) ?ds @ take k (drop (i + 2) ?ds) @ drop (i + 1 + k) ?ds" using Suc by simp
  moreover have "take (i + 1) ?ds = take i cs @ [cs ! (i + 1)]" using Suc.prems by (simp add: take_Suc_conv_app_nth)
  moreover have "drop (i + 1) cs = cs ! (i + 1) # drop (i + 2) cs" using Suc.prems Cons_nth_drop_Suc[of "i + 1" cs] by simp
  ultimately show ?case by simp
qed

lemma writeStored_hist [simp]: "commandHistory (writeStored h) = commandHistory h"
  by (simp add: writeStored_def split: option.split)

lemma addNewCommand_hist:
  assumes "length (commandHistory h) \<le> maxStored"
  shows "commandHistory (addNewCommand c h) =
    (if commandHistory h \<noteq> [] \<and> last (commandHistory h) = c then commandHistory h else last_n maxStored (commandHistory h @ [c]))"
proof (cases "length (commandHistory h) < maxStored")
  case True
  then show ?thesis by (auto simp: addNewCommand_def Let_def last_n_def last_conv_nth)
next
  case False
  let ?cs = "commandHistory h"
  have l: "length ?cs = 20" using assms False by (simp add: maxStored_def)
  have "hist_shift 19 0 ?cs = tl ?cs @ [?cs ! 19]" using hist_shift_eq[of 0 19 ?cs] l by (simp add: drop_Suc Cons_nth_drop_Suc[of 19, symmetric])
  moreover have "length (tl ?cs) = 19" using l by simp
  ultimately have "(hist_shift 19 0 ?cs)[19 := c] = tl ?cs @ [c]" by (simp add: list_update_append)
  then show ?thesis using l by (auto simp: addNewCommand_def Let_def last_n_def last_conv_nth maxStored_def drop_Suc)
qed

lemma last_n_len: "length (last_n n xs) \<le> n"
  by (simp add: last_n_def)

lemma last_n_snoc: "n > 0 \<Longrightarrow> last_n n (last_n n xs @ [x]) = last_n n (xs @ [x])"
proof -
  assume "n > 0"
  show ?thesis
  proof (cases "length xs < n")
    case False
    then have "length (last_n n xs) = n" by (simp add: last_n_def)
    then have "last_n n (last_n n xs @ [x]) = drop (Suc (length xs - n)) xs @ [x]" using \<open>n > 0\<close> by (simp add: last_n_def)
    then show ?thesis using False \<open>n > 0\<close> by (simp add: last_n_def Suc_diff_le)
  qed (simp add: last_n_def)
qed

lemma last_last_n: "n > 0 \<Longrightarrow> xs \<noteq> [] \<Longrightarrow> last_n n xs \<noteq> [] \<and> last (last_n n xs) = last xs"
  by (simp add: last_n_def last_drop not_le)

lemma add_many:
  "commandHistory h = last_n maxStored (remdups_adj ps) \<Longrightarrow>
   commandHistory (fold addNewCommand cs h) = last_n maxStored (remdups_adj (ps @ cs))"
proof (induction cs arbitrary: h ps)
  case (Cons c cs)
  have l: "length (commandHistory h) \<le> maxStored" by (simp add: Cons.prems last_n_len)
  have m: "maxStored > 0" by (simp add: maxStored_def)
  have rs: "remdups_adj (ps @ [c]) = (if ps \<noteq> [] \<and> last ps = c then remdups_adj ps else remdups_adj ps @ [c])"
    by (cases ps rule: rev_cases) (auto simp: remdups_adj_append' remdups_adj_append_two)
  have "commandHistory (addNewCommand c h) = last_n maxStored (remdups_adj (ps @ [c]))"
  proof (cases "ps = []")
    case True
    then show ?thesis using Cons.prems addNewCommand_hist[OF l, of c] by (simp add: last_n_def maxStored_def)
  next
    case False
    then have "commandHistory h \<noteq> []" "last (commandHistory h) = last ps" using last_last_n[OF m, of "remdups_adj ps"] Cons.prems by simp_all
    then show ?thesis using False addNewCommand_hist[OF l, of c] rs last_n_snoc[OF m, of "remdups_adj ps" c] Cons.prems by simp
  qed
  from Cons.IH[OF this] show ?case by simp
qed simp

definition lines :: "string list \<Rightarrow> string" where
  "lines cs = concat (map (\<lambda>c. c @ [NL]) cs)"

lemma addNewCommand_file:
  "hfile h = Some (lines (commandHistory h)) \<Longrightarrow> hfile (addNewCommand c h) = Some (lines (commandHistory (addNewCommand c h)))"
  by (auto simp: addNewCommand_def Let_def writeStored_def lines_def)

lemma add_many_file:
  "hfile h = Some (lines (commandHistory h)) \<Longrightarrow> hfile (fold addNewCommand cs h) = Some (lines (commandHistory (fold addNewCommand cs h)))"
  by (induction cs arbitrary: h) (simp_all add: addNewCommand_file)

lemma retrieve_lines:
  assumes "\<forall>c \<in> set cs. NL \<notin> set c \<and> CHR 0x00 \<notin> set c" "length cs \<le> maxStored" "length (lines cs) < 1000"
  shows "retrieveStored (Some (lines cs)) = Inr (filter (\<lambda>c. c \<noteq> []) (map trim cs))"
proof -
  have "CHR 0x00 \<notin> set (lines cs)" using assms(1) by (auto simp: lines_def NL_def)
  then have "c_string (lines cs) = lines cs" by (auto simp: c_string_def takeWhile_eq_all_conv)
  moreover have "tokens [NL] (lines cs) = filter (\<lambda>c. c \<noteq> []) cs" using assms(1) by (simp add: lines_def tokens_lines)
  moreover have "filter (\<lambda>c. c \<noteq> []) (map trim (filter (\<lambda>c. c \<noteq> []) cs)) = filter (\<lambda>c. c \<noteq> []) (map trim cs)"
    by (induction cs) (auto simp: trim_def)
  moreover have "length (filter (\<lambda>c. c \<noteq> []) (map trim cs)) \<le> maxStored" using order.trans[OF length_filter_le, of "map trim cs" maxStored] assms(2) by simp
  ultimately show ?thesis using assms(3) by (simp add: retrieveStored_def Let_def)
qed

lemma printHistory_last: "printHistory (int n) h = last_n n (commandHistory h)"
proof -
  let ?cs = "commandHistory h"
  have "nat (max (int (length ?cs) - int n) 0) = length ?cs - n" by simp
  moreover have "map (\<lambda>i. ?cs ! i) [length ?cs - n..<length ?cs] = drop (length ?cs - n) ?cs"
    by (metis add_0 drop_map drop_upt map_nth)
  ultimately show ?thesis by (simp only: printHistory_def Let_def last_n_def)
qed



section \<open>Directories\<close>

lemma home_prefix_iff: "home_prefix cur home \<longleftrightarrow> take (length home) cur = home"
  by (induction cur home rule: home_prefix.induct) auto

abbreviation path_of :: "string list \<Rightarrow> string" where
  "path_of ps \<equiv> concat (map ((#) (CHR ''/'')) ps)"

text \<open>What the prompt shows after the tilde continues the path of the home directory to the current one.\<close>

lemma printPWD_tilde:
  assumes "currDirIsHome d" "currDirString d = path_of (currDirectories d)"
  shows "\<exists>r. printPWD False False d = ''~'' @ r \<and> currDirString d = path_of (homeDirPath d) @ r"
proof -
  have "currDirectories d = homeDirPath d @ drop (length (homeDirPath d)) (currDirectories d)"
    using assms(1) by (metis append_take_drop_id currDirIsHome_def home_prefix_iff)
  then have "currDirString d = path_of (homeDirPath d) @ path_of (drop (length (homeDirPath d)) (currDirectories d))"
    unfolding assms(2) by (metis concat_append map_append)
  then show ?thesis using assms(1) by (intro exI[of _ "path_of (drop (length (homeDirPath d)) (currDirectories d))"]) (simp add: printPWD_def)
qed

lemma tokens_path:
  assumes "\<forall>c \<in> set ps. c \<noteq> [] \<and> CHR ''/'' \<notin> set c"
  shows "tokens ''/'' (path_of ps) = ps"
  using assms
proof (induction ps)
  case (Cons p ps)
  have "tokens ''/'' (p @ path_of ps) = p # tokens ''/'' (path_of ps)"
  proof (cases ps)
    case Nil
    then show ?thesis using Cons.prems tokens_single[of p "''/''"] by simp
  next
    case (Cons q qs)
    then show ?thesis using Cons.prems tokens_piece[of p "''/''" "CHR ''/''" "q @ path_of qs"] tokens_delim[of "CHR ''/''" "''/''"] by simp
  qed
  then show ?case using Cons by (simp add: tokens_delim)
qed simp

text \<open>The shell's directory string is the working directory, except at the root, where it is empty.\<close>

lemma initDirSetup_cwd:
  assumes "cwd d = path_of ps" "\<forall>c \<in> set ps. c \<noteq> [] \<and> CHR ''/'' \<notin> set c" "length ps \<le> 100"
  shows "\<exists>d1. initDirSetup b d = Inr d1 \<and> currDirString d1 = cwd d \<and> currDirectories d1 = ps \<and> (b \<longrightarrow> homeDirPath d1 = ps \<and> expectedHomeDir d1 = cwd d)"
  using assms tokens_path[OF assms(2)] by (auto simp: initDirSetup_def updatePWD_def Let_def)

lemma initDirSetup_root: "cwd d = ''/'' \<Longrightarrow> \<exists>d1. initDirSetup b d = Inr d1 \<and> currDirString d1 = []"
  by (auto simp: initDirSetup_def updatePWD_def Let_def tokens_delim)

end
