(* ===== verification/Gosh.thy ===== *)
theory Gosh
  imports Gosh_Text Systems
begin

text \<open>
  The command interpreter of GOSH: \<open>commands.c\<close>, \<open>takeInput.c\<close>, \<open>process.c\<close>, \<open>cronjob.c\<close>, \<open>print.c\<close> and the loop and signal handler
  of \<open>main.c\<close>. The state is what the shell keeps, with the files its standard descriptors refer to; what it does to the outside
  (text written, signals sent, processes started) is a list of events. The answers of the operating system are the record \<open>os\<close>.
  Buffers on the C heap are as long as what is stored in them.
\<close>

section \<open>State\<close>

datatype stream = Tty | FromFile string | ToFile string | AppendTo string

datatype event =
    Out stream string
  | Err string
  | Signal int int
  | Start string "string list" stream stream bool
  | Stage string "nat option" "nat option"
  | Watch bool int
  | Cron string int int

record gosh =
  hist :: history
  dirs_of :: dirstate
  pendingNames :: "string list"
  pendingIDs :: "int list"
  foregroundProcId :: int
  env :: "string \<Rightarrow> string option"
  fd0 :: stream
  fd1 :: stream
  events :: "event list"

text \<open>
  Whether a file can be opened for reading or created, the sorted names of a directory (\<open>None\<close> if it cannot be scanned), the new
  working directory, the pid of the next child (-1 if there is none), whether the waited-for child was stopped, the state letter
  of a process, the texts of a long listing and of \<open>pinfo\<close>, and the names for the prompt.
\<close>

record os =
  os_open :: "string \<Rightarrow> bool"
  os_create :: "string \<Rightarrow> bool"
  os_scandir :: "string \<Rightarrow> string \<Rightarrow> string list option"
  os_chdir :: "string \<Rightarrow> string \<Rightarrow> string option"
  os_fork :: int
  os_stopped :: bool
  os_status :: "int \<Rightarrow> char option"
  os_long :: "string list \<Rightarrow> string"
  os_pinfo :: "string option \<Rightarrow> string"
  os_user :: string
  os_machine :: string

text \<open>How \<open>execCommand\<close> ends: past its last line, by an early \<open>return\<close>, or by \<open>exit\<close> of the shell.\<close>

datatype ending = Finished | Returned | Quit

definition emit :: "event \<Rightarrow> gosh \<Rightarrow> gosh" where
  "emit e s = s\<lparr>events := events s @ [e]\<rparr>"

definition say :: "string \<Rightarrow> gosh \<Rightarrow> gosh" where
  "say t s = emit (Out (fd1 s) t) s"

definition on_dirs :: "(dirstate \<Rightarrow> dirstate result) \<Rightarrow> gosh \<Rightarrow> gosh result" where
  "on_dirs f s = bind_r (f (dirs_of s)) (\<lambda>d. Inr (s\<lparr>dirs_of := d\<rparr>))"

section \<open>Reading a line\<close>

definition tokenizeCommands :: "string \<Rightarrow> string list result" where
  "tokenizeCommands all =
    (let cs = filter (\<lambda>c. c \<noteq> []) (map trim (tokens '';'' all)) in if length cs > 125 then Inl (Fault ''commands'') else Inr cs)"

text \<open>The characters up to the newline go to a buffer of 100 bytes; without a newline the loop does not end.\<close>

definition takeInput :: "string \<Rightarrow> history \<Rightarrow> (string list \<times> history) result" where
  "takeInput keys h =
    (let line = takeWhile (\<lambda>c. c \<noteq> NL) keys in
     if length line \<ge> 100 then Inl (Fault ''s'')
     else if NL \<notin> set keys then Inl (Diverges ''getchar'')
     else if line = [] then Inr ([], h)
     else let x = c_string line; h1 = (if x \<noteq> [] \<and> hd x = CHR 0x1B then h else addNewCommand x h)
          in bind_r (tokenizeCommands x) (\<lambda>cs. Inr (cs, h1)))"

section \<open>Pipelines\<close>

fun countPipes :: "string \<Rightarrow> nat" where
  "countPipes [] = 0"
| "countPipes (c # cs) = (if c = CHR ''|'' then 1 else 0) + countPipes cs"

text \<open>
  Two pipe slots, even and odd, hold the number of the pipe made last in them; \<open>wr_open\<close> and \<open>rd_open\<close> are the ends that are open in
  the shell. A stage reads from and writes to the pipes with the given numbers, or what the shell has.
\<close>

record pipes =
  slot :: "bool \<Rightarrow> nat"
  wr_open :: "nat set"
  rd_open :: "nat set"

definition make_pipe :: "nat \<Rightarrow> pipes \<Rightarrow> pipes" where
  "make_pipe i p = p\<lparr>slot := (slot p)(odd i := i), wr_open := insert i (wr_open p), rd_open := insert i (rd_open p)\<rparr>"

definition stage_io :: "nat \<Rightarrow> nat \<Rightarrow> pipes \<Rightarrow> nat option \<times> nat option" where
  "stage_io n i p =
    (if i = 0 then (None, Some (slot p False))
     else if i = n - 1 then (Some (slot p (\<not> odd i)), None)
     else (Some (slot p (\<not> odd i)), Some (slot p (odd i))))"

definition close_ends :: "nat \<Rightarrow> nat \<Rightarrow> pipes \<Rightarrow> pipes" where
  "close_ends n i p =
    (if i = 0 then p\<lparr>wr_open := wr_open p - {slot p False}\<rparr>
     else if i = n - 1 then p\<lparr>rd_open := rd_open p - {slot p (\<not> odd i)}\<rparr>
     else p\<lparr>wr_open := wr_open p - {slot p (odd i)}, rd_open := rd_open p - {slot p (\<not> odd i)}\<rparr>)"

text \<open>\<open>cmds\<close> are the pieces between bars; a missing piece is a null pointer, which the child of that stage faults on.\<close>

fun run_stages :: "nat \<Rightarrow> string list \<Rightarrow> nat \<Rightarrow> nat \<Rightarrow> pipes \<Rightarrow> (event list \<times> pipes)" where
  "run_stages n cmds 0 i p = ([], p)"
| "run_stages n cmds (Suc k) i p =
    (let p1 = make_pipe i p; (r, w) = stage_io n i p1;
         (es, q) = run_stages n cmds k (i + 1) (close_ends n i p1)
     in (Stage (if i < length cmds then cmds ! i else ''NULL'') r w # es, q))"

definition handlePipelining :: "string \<Rightarrow> nat \<Rightarrow> gosh \<Rightarrow> gosh" where
  "handlePipelining commands n s =
    (let (es, p) = run_stages n (tokens ''|'' commands) n 0 \<lparr>slot = (\<lambda>_. 0), wr_open = {}, rd_open = {}\<rparr>
     in s\<lparr>events := events s @ es\<rparr>)"

section \<open>Parsing a command\<close>

record parsed =
  hasInput :: bool
  hasOutput :: bool
  hasAppend :: bool
  inp :: string
  outp :: string
  app :: string
  args :: "string list"

definition parse_arg :: "string \<Rightarrow> parsed \<Rightarrow> parsed" where
  "parse_arg a p =
    (if a = ''<'' then p\<lparr>hasInput := True\<rparr>
     else if hasInput p then p\<lparr>inp := a, hasInput := False\<rparr>
     else if a = ''>'' then p\<lparr>hasOutput := True\<rparr>
     else if hasOutput p then p\<lparr>outp := a, hasOutput := False\<rparr>
     else if a = ''>>'' then p\<lparr>hasAppend := True\<rparr>
     else if hasAppend p then p\<lparr>app := a, hasAppend := False\<rparr>
     else p\<lparr>args := args p @ [a]\<rparr>)"

definition parse_args :: "string \<Rightarrow> parsed" where
  "parse_args command =
    (let p = fold parse_arg (tokens [CHR 0x09, CHR '' ''] command)
               \<lparr>hasInput = False, hasOutput = False, hasAppend = False, inp = [], outp = [], app = [], args = []\<rparr>
     in p\<lparr>args := map trim (args p)\<rparr>)"

text \<open>The first \<open>&\<close> is taken out.\<close>

definition take_background :: "string list \<Rightarrow> string list \<times> bool" where
  "take_background as = (case find_idx (\<lambda>a. a = ''&'') as of None \<Rightarrow> (as, False) | Some i \<Rightarrow> (take i as @ drop (i + 1) as, True))"

text \<open>The loop that takes out an operator and what follows it, two places at a time.\<close>

fun strip_ops :: "nat \<Rightarrow> nat \<Rightarrow> string list \<Rightarrow> string list result" where
  "strip_ops 0 i as = Inr as"
| "strip_ops (Suc k) i as =
    (if i \<ge> length as then Inr as
     else if as ! i \<in> {''<'', ''>>'', ''>''} then
       (if length as < 2 then Inl (Fault ''args[argCount - 2]'') else strip_ops k (i + 1) (take (length as - 2) (take i as @ drop (i + 2) as)))
     else strip_ops k (i + 1) as)"

section \<open>Redirection\<close>

text \<open>\<open>Some\<close> when a file cannot be opened and \<open>execCommand\<close> returns.\<close>

definition redirect :: "os \<Rightarrow> parsed \<Rightarrow> gosh \<Rightarrow> bool \<times> gosh" where
  "redirect o1 p s =
    (if inp p \<noteq> [] \<and> \<not> os_open o1 (inp p) then (False, emit (Err ''Opening < file'') s)
     else let s = (if inp p \<noteq> [] then s\<lparr>fd0 := FromFile (inp p)\<rparr> else s) in
     if outp p \<noteq> [] \<and> \<not> os_create o1 (outp p) then (False, emit (Err ''Opening > file'') s)
     else let s = (if outp p \<noteq> [] then s\<lparr>fd1 := ToFile (outp p)\<rparr> else s) in
     if app p \<noteq> [] \<and> \<not> os_create o1 (app p) then (False, emit (Err ''Opening >> file'') s)
     else (True, if app p \<noteq> [] then s\<lparr>fd1 := AppendTo (app p)\<rparr> else s))"

definition restore :: "parsed \<Rightarrow> stream \<Rightarrow> stream \<Rightarrow> gosh \<Rightarrow> gosh" where
  "restore p in0 out0 s =
    (let s = (if inp p \<noteq> [] then s\<lparr>fd0 := in0\<rparr> else s)
     in if outp p \<noteq> [] \<or> app p \<noteq> [] then s\<lparr>fd1 := out0\<rparr> else s)"

section \<open>Jobs and processes\<close>

definition add_job :: "string \<Rightarrow> int \<Rightarrow> gosh \<Rightarrow> gosh result" where
  "add_job nm pd s =
    (if length (pendingIDs s) \<ge> 100 then Inl (Fault ''pendingIDs'')
     else Inr (s\<lparr>pendingNames := pendingNames s @ [nm], pendingIDs := pendingIDs s @ [pd]\<rparr>))"

definition execProcess :: "os \<Rightarrow> string \<Rightarrow> string list \<Rightarrow> bool \<Rightarrow> gosh \<Rightarrow> (int \<times> gosh) result" where
  "execProcess o1 cmd as isBackgroundJob s =
    (if os_fork o1 = -1 then Inr (-1, emit (Err ''Could not fork child'') s)
     else let s = emit (Start cmd as (fd0 s) (fd1 s) isBackgroundJob) s in
     if isBackgroundJob then Inr (os_fork o1, s)
     else bind_r (if os_stopped o1 then add_job cmd (os_fork o1) s else Inr s) (\<lambda>s. Inr (-1, s\<lparr>foregroundProcId := 0\<rparr>)))"

definition proc_status :: "char option \<Rightarrow> string option" where
  "proc_status st = (case st of None \<Rightarrow> None
     | Some c \<Rightarrow> Some (if c = CHR ''R'' then ''Running'' else if c = CHR ''S'' \<or> c = CHR ''D'' then ''Sleeping''
         else if c = CHR ''T'' \<or> c = CHR ''t'' then ''Stopped'' else if c = CHR ''Z'' then ''Defunct/zombie'' else ''Unknown process status''))"

section \<open>Built-in commands\<close>

function decimal_nat :: "nat \<Rightarrow> string" where
  "decimal_nat n = (if n < 10 then [char_of (n + 48)] else decimal_nat (n div 10) @ [char_of (n mod 10 + 48)])"
  by auto
termination
  by (relation "measure (\<lambda>n. n)") auto

declare decimal_nat.simps [simp del]

definition decimal :: "int \<Rightarrow> string" where
  "decimal n = (if n < 0 then ''-'' @ decimal_nat (nat (- n)) else decimal_nat (nat n))"

type_synonym cmd_result = "(ending \<times> gosh) result"

definition ls_flag :: "char \<Rightarrow> string list \<Rightarrow> bool" where
  "ls_flag c as \<longleftrightarrow> (\<exists>a \<in> set as. a \<noteq> [] \<and> hd a = CHR ''-'' \<and> c \<in> set (tl a))"

definition ls_dir :: "string list \<Rightarrow> string" where
  "ls_dir as = fold (\<lambda>a d. if a = [] \<or> hd a = CHR ''-'' \<or> a = ''&'' then d else a) as ''.''"

definition ls_cmd :: "os \<Rightarrow> string list \<Rightarrow> gosh \<Rightarrow> cmd_result" where
  "ls_cmd o1 as s =
    (let dir = ls_dir as; showHidden = ls_flag (CHR ''a'') as; d = dirs_of s in
     case os_scandir o1 (cwd d) dir of
       None \<Rightarrow> Inr (Quit, emit (Err ''scandir'') s)
     | Some names \<Rightarrow>
         let out = filter myFilter names; shown = filter (visible showHidden) out;
             d1 = snd (try_chdir (os_chdir o1) dir d); d2 = snd (try_chdir (os_chdir o1) (currDirString d1) d1);
             text_of = (if ls_flag (CHR ''l'') as then os_long o1 shown else concat (map (\<lambda>f. f @ [NL]) shown))
         in if length out > 1000 then Inl (Fault ''output'') else Inr (Finished, (say text_of s)\<lparr>dirs_of := d2\<rparr>))"

definition cd_cmd :: "os \<Rightarrow> string list \<Rightarrow> gosh \<Rightarrow> cmd_result" where
  "cd_cmd o1 as s =
    bind_r (on_dirs (changeDirectory (os_chdir o1) (Some (if length as > 1 then as ! 1 else ''~''))) s) (\<lambda>t. Inr (Finished, t))"

definition echo_text :: "string list \<Rightarrow> string" where
  "echo_text as = (let t = concat (map (\<lambda>a. a @ '' '') (drop 1 as)) in t @ (if t = [] then [] else [NL]))"

definition history_cmd :: "string list \<Rightarrow> gosh \<Rightarrow> gosh" where
  "history_cmd as s = say (concat (map (\<lambda>c. c @ [NL]) (printHistory (if length as = 2 then atoi_str (as ! 1) else 10) (hist s)))) s"

text \<open>The arguments of \<open>nightswatch\<close>, one at a time: \<open>-n\<close> was seen, the interval.\<close>

definition watch_arg :: "string \<Rightarrow> bool \<times> int \<times> gosh \<Rightarrow> bool \<times> int \<times> gosh" where
  "watch_arg a = (\<lambda>(takeInterval, interval, s).
     if a = ''-n'' then (True, interval, s)
     else if takeInterval then (False, atoi_str a, s)
     else if interval = -1 then (takeInterval, interval, say ''Did not specify interval'' s)
     else (takeInterval, interval, emit (Watch (a = ''dirty'') interval) s))"

definition nightswatch_cmd :: "string list \<Rightarrow> gosh \<Rightarrow> gosh" where
  "nightswatch_cmd as s = snd (snd (fold watch_arg (drop 1 as) (False, -1, s)))"

definition job_line :: "os \<Rightarrow> gosh \<Rightarrow> nat \<Rightarrow> string" where
  "job_line o1 s i =
    (if pendingIDs s ! i = 0 then []
     else ''['' @ decimal (int i + 1) @ ''] '' @ (case proc_status (os_status o1 (pendingIDs s ! i)) of None \<Rightarrow> ''(null)'' | Some t \<Rightarrow> t) @ '' '' @
       pendingNames s ! i @ '' ['' @ decimal (pendingIDs s ! i) @ '']'' @ [NL])"

definition jobs_cmd :: "os \<Rightarrow> gosh \<Rightarrow> gosh" where
  "jobs_cmd o1 s = say (concat (map (job_line o1 s) [0..<length (pendingIDs s)])) s"

definition kjob_cmd :: "string list \<Rightarrow> gosh \<Rightarrow> ending \<times> gosh" where
  "kjob_cmd as s =
    (if length as \<noteq> 3 then (Returned, say (''Error: usage kjob <jobNumber> <signalNumber>'' @ [NL]) s)
     else let idx = atoi_str (as ! 1) - 1 in
     if idx \<ge> int (length (pendingIDs s)) \<or> idx < 0 then (Returned, say ''Invalid job id'' s)
     else if pendingIDs s ! nat idx = 0 then (Returned, say ''Invalid job id'' s)
     else (Finished, emit (Signal (pendingIDs s ! nat idx) (atoi_str (as ! 2))) s))"

text \<open>\<open>putenv\<close> of the string \<open>var=value\<close>: the name is what stands before the first equals sign.\<close>

definition putenv :: "string \<Rightarrow> (string \<Rightarrow> string option) \<Rightarrow> string \<Rightarrow> string option" where
  "putenv kv e = (let k = takeWhile (\<lambda>c. c \<noteq> CHR ''='') kv in e(k \<mapsto> drop (length k + 1) kv))"

definition setenv_cmd :: "string list \<Rightarrow> gosh \<Rightarrow> ending \<times> gosh" where
  "setenv_cmd as s =
    (if length as < 2 \<or> length as > 3 then (Returned, say ''Invalid syntax! Should be: setenv var [value]'' s)
     else (Finished, s\<lparr>env := putenv (as ! 1 @ ''='' @ (if length as > 2 then as ! 2 else [])) (env s)\<rparr>))"

definition unsetenv_cmd :: "string list \<Rightarrow> gosh \<Rightarrow> ending \<times> gosh" where
  "unsetenv_cmd as s =
    (if length as \<noteq> 2 then (Returned, say ''Invalid syntax! Should be: unsetenv var'' s)
     else (Finished, if as ! 1 = [] \<or> CHR ''='' \<in> set (as ! 1) then s else s\<lparr>env := (env s)(as ! 1 := None)\<rparr>))"

definition getenv_cmd :: "string list \<Rightarrow> gosh \<Rightarrow> ending \<times> gosh" where
  "getenv_cmd as s =
    (if length as \<noteq> 2 then (Returned, say ''Invalid syntax! Should be: getenv var'' s)
     else (Finished, case env s (as ! 1) of Some v \<Rightarrow> say (v @ [NL]) s | None \<Rightarrow> say (''var '' @ as ! 1 @ '' not found'' @ [NL]) s))"

definition SIGCONT :: int where "SIGCONT = 18"
definition SIGTTIN :: int where "SIGTTIN = 21"
definition SIGTERM :: int where "SIGTERM = 15"
definition SIGKILL :: int where "SIGKILL = 9"

text \<open>The job a command names, unless the number is out of range or the job has ended.\<close>

definition job_pid :: "string list \<Rightarrow> gosh \<Rightarrow> (nat \<times> int) option" where
  "job_pid as s =
    (let jobn = atoi_str (as ! 1) in
     if jobn > int (length (pendingIDs s)) \<or> jobn \<le> 0 then None
     else if pendingIDs s ! nat (jobn - 1) = 0 then None else Some (nat (jobn - 1), pendingIDs s ! nat (jobn - 1)))"

definition fg_cmd :: "os \<Rightarrow> string list \<Rightarrow> gosh \<Rightarrow> cmd_result" where
  "fg_cmd o1 as s =
    (if length as \<noteq> 2 then Inr (Returned, say (''Usage: fg <jobNumber>'' @ [NL]) s)
     else case job_pid as s of
       None \<Rightarrow> Inr (Returned, say (''Invalid job number'' @ [NL]) s)
     | Some (j, pd) \<Rightarrow>
         let s1 = emit (Signal pd SIGCONT) (s\<lparr>foregroundProcId := pd\<rparr>); s2 = s1\<lparr>pendingIDs := (pendingIDs s1)[j := 0]\<rparr>
         in bind_r (if os_stopped o1 then add_job (pendingNames s2 ! j) pd s2 else Inr s2) (\<lambda>t. Inr (Finished, t)))"

definition bg_cmd :: "string list \<Rightarrow> gosh \<Rightarrow> ending \<times> gosh" where
  "bg_cmd as s =
    (if length as \<noteq> 2 then (Returned, say (''Usage: bg <jobNumber>'' @ [NL]) s)
     else case job_pid as s of
       None \<Rightarrow> (Returned, say (''Invalid job number'' @ [NL]) s)
     | Some (j, pd) \<Rightarrow> (Finished, emit (Signal pd SIGCONT) (emit (Signal pd SIGTTIN) s)))"

definition overkill_cmd :: "gosh \<Rightarrow> gosh" where
  "overkill_cmd s = fold (\<lambda>pd s. if pd = 0 then s else emit (Signal pd SIGKILL) (emit (Signal pd SIGTERM) s)) (pendingIDs s) s"

section \<open>cronjob\<close>

record cron =
  ccmd :: string
  interval :: int
  ctime :: int
  needs_c :: bool
  needs_t :: bool
  needs_p :: bool

definition cron_arg :: "string \<Rightarrow> cron \<Rightarrow> cron" where
  "cron_arg a c =
    (if a = ''-c'' then c\<lparr>needs_c := True\<rparr>
     else if a = ''-t'' then c\<lparr>needs_c := False, needs_t := True\<rparr>
     else if a = ''-p'' then c\<lparr>needs_c := False, needs_p := True\<rparr>
     else
       let c1 = (if needs_c c then c\<lparr>ccmd := ccmd c @ a @ '' ''\<rparr> else c);
           c2 = (if needs_t c1 then c1\<lparr>interval := atoi_str a, needs_t := False\<rparr> else c1)
       in if needs_p c2 then c2\<lparr>ctime := atoi_str a, needs_p := False\<rparr> else c2)"

definition cronjobParse :: "string list \<Rightarrow> gosh \<Rightarrow> gosh" where
  "cronjobParse as s =
    (let c = fold cron_arg as \<lparr>ccmd = [], interval = -1, ctime = -1, needs_c = False, needs_t = False, needs_p = False\<rparr> in
     if ccmd c = [] \<or> interval c = -1 \<or> ctime c = -1 then say ''Invalid format. Syntax: cronjob -c <cmd> -t <time> -p <period>'' s
     else emit (Cron (ccmd c) (interval c) (ctime c)) s)"

text \<open>The loop of the child of \<open>cronJob\<close>: how long it sleeps before each run of the command.\<close>

partial_function (option) cron_loop :: "int \<Rightarrow> int \<Rightarrow> int \<Rightarrow> int list option" where
  "cron_loop intervl tim now =
    (if now < tim then
       let sleepTime = (if tim - now \<le> intervl then tim - now else intervl)
       in Option.bind (cron_loop intervl tim (now + sleepTime)) (\<lambda>ts. Some (sleepTime # ts))
     else Some [])"

section \<open>execCommand\<close>

definition other_cmd :: "os \<Rightarrow> string \<Rightarrow> string list \<Rightarrow> bool \<Rightarrow> string \<Rightarrow> gosh \<Rightarrow> cmd_result" where
  "other_cmd o1 cmd as bg whole s =
    bind_r (execProcess o1 cmd as bg s) (\<lambda>(idOfChild, s).
      if idOfChild \<noteq> -1 then bind_r (add_job whole idOfChild s) (\<lambda>t. Inr (Finished, t)) else Inr (Finished, s))"

definition builtin :: "os \<Rightarrow> string \<Rightarrow> string list \<Rightarrow> bool \<Rightarrow> string \<Rightarrow> gosh \<Rightarrow> cmd_result" where
  "builtin o1 cmd as bg whole s =
    (if cmd = ''ls'' then ls_cmd o1 (drop 1 as) s
     else if cmd \<in> {''quit'', ''exit'', ''q''} then Inr (Quit, s)
     else if cmd = ''cd'' then cd_cmd o1 as s
     else if cmd = ''pwd'' then Inr (Finished, say (printPWD True True (dirs_of s)) s)
     else if cmd = ''echo'' then Inr (Finished, say (echo_text as) s)
     else if cmd = ''pinfo'' then Inr (Finished, say (os_pinfo o1 (if length as = 2 then Some (as ! 1) else None)) s)
     else if cmd = ''history'' then Inr (Finished, history_cmd as s)
     else if cmd = ''nightswatch'' then Inr (Finished, nightswatch_cmd as s)
     else if cmd = ''jobs'' then Inr (Finished, jobs_cmd o1 s)
     else if cmd = ''kjob'' then Inr (kjob_cmd as s)
     else if cmd = ''setenv'' then Inr (setenv_cmd as s)
     else if cmd = ''unsetenv'' then Inr (unsetenv_cmd as s)
     else if cmd = ''getenv'' then Inr (getenv_cmd as s)
     else if cmd = ''fg'' then fg_cmd o1 as s
     else if cmd = ''bg'' then Inr (bg_cmd as s)
     else if cmd = ''overkill'' then Inr (Finished, overkill_cmd s)
     else if cmd = ''cronjob'' then Inr (Finished, cronjobParse as s)
     else other_cmd o1 cmd as bg whole s)"

definition run_simple :: "os \<Rightarrow> string \<Rightarrow> gosh \<Rightarrow> cmd_result" where
  "run_simple o1 command s =
    (let p = parse_args command; (as, bg) = take_background (args p) in
     bind_r (strip_ops (length as) 0 as) (\<lambda>as.
       let (ok, s1) = redirect o1 p s in
       if \<not> ok then Inr (Returned, s1)
       else case args p of
         [] \<Rightarrow> Inl (Fault ''strcmp(cmd)'')
       | cmd # _ \<Rightarrow>
           bind_r (builtin o1 cmd as bg command s1) (\<lambda>(e, t).
             Inr (e, if e = Finished then restore p (fd0 s) (fd1 s) t else t))))"

text \<open>The escape sequences of a line of arrow keys, three characters each: how far up the history.\<close>

fun arrow_offset :: "string \<Rightarrow> int" where
  "arrow_offset (a # b # c # cs) = (if c = CHR ''A'' then 1 else -1) + arrow_offset cs"
| "arrow_offset _ = 0"

definition ESC :: char where "ESC = CHR 0x1B"

definition prompt :: "os \<Rightarrow> gosh \<Rightarrow> string" where
  "prompt o1 s = ESC # ''[32m'' @ os_user o1 @ ''@'' @ os_machine o1 @ '':'' @ printPWD True False (dirs_of s) @ ''$ '' @ ESC # ''[0m''"

text \<open>The fuel bounds how often a line of arrows recalls another line of arrows.\<close>

fun execCommand :: "nat \<Rightarrow> os \<Rightarrow> string \<Rightarrow> gosh \<Rightarrow> cmd_result" where
  "execCommand 0 o1 command s = Inl (Diverges ''handleArrows'')"
| "execCommand (Suc k) o1 command s =
    (if command \<noteq> [] \<and> hd command = ESC then
       let offset = arrow_offset command; cs = commandHistory (hist s) in
       if offset < 0 \<or> int (length cs) < offset then Inr (Returned, say ''Command doesn't exist'' s)
       else if offset = 0 then Inl (Fault ''commandHistory[storedCount]'')
       else
         let c = cs ! (length cs - nat offset) in
         if length c > length command then Inl (Fault ''cmd2'')
         else
           let s1 = say (c @ [NL]) (say (prompt o1 s) s); s2 = s1\<lparr>hist := addNewCommand c (hist s1)\<rparr>
           in bind_r (execCommand k o1 c s2) (\<lambda>(e, t). Inr (if e = Quit then Quit else Returned, t))
     else if countPipes command > 0 then Inr (Returned, handlePipelining command (countPipes command + 1) s)
     else run_simple o1 command s)"

text \<open>One turn of the loop of \<open>main\<close>: the prompt, a line, its commands; it stops when the shell exits.\<close>

fun run_commands :: "nat \<Rightarrow> os \<Rightarrow> string list \<Rightarrow> gosh \<Rightarrow> cmd_result" where
  "run_commands k o1 [] s = Inr (Finished, s)"
| "run_commands k o1 (c # cs) s = bind_r (execCommand k o1 c s) (\<lambda>(e, t). if e = Quit then Inr (Quit, t) else run_commands k o1 cs t)"

definition inputter :: "nat \<Rightarrow> os \<Rightarrow> string \<Rightarrow> gosh \<Rightarrow> cmd_result" where
  "inputter k o1 keys s =
    (let s = say (prompt o1 s) (s\<lparr>foregroundProcId := 0\<rparr>) in
     bind_r (takeInput keys (hist s)) (\<lambda>(cs, h).
       bind_r (run_commands k o1 cs (s\<lparr>hist := h\<rparr>)) (\<lambda>(e, t).
         Inr (e, if cs = [] then say (''No command entered'' @ [NL]) t else t))))"

text \<open>The handler of \<open>SIGCHLD\<close>, for a child that has ended with the given code; for a pid not in the table the name it prints is not initialised.\<close>

definition childTermination :: "os \<Rightarrow> int \<Rightarrow> bool \<Rightarrow> int \<Rightarrow> gosh \<Rightarrow> gosh result" where
  "childTermination o1 pd exited code s =
    (if pd \<le> 0 then Inr s
     else case find_idx (\<lambda>q. q = pd) (rev (pendingIDs s)) of
       None \<Rightarrow> Inl (Fault ''naam'')
     | Some i \<Rightarrow>
         let naam = rev (pendingNames s) ! i; s1 = s\<lparr>pendingIDs := map (\<lambda>q. if q = pd then 0 else q) (pendingIDs s)\<rparr>;
             s2 = say (''JOBS: Process '' @ naam @ '' ('' @ decimal pd @ '') exited '' @
               (if exited \<and> code = 0 then ''normally.'' else ''with nzec '' @ decimal code @ ''.'') @ [NL]) s1
         in Inr (say (prompt o1 s2) s2))"

section \<open>Standard descriptors\<close>

abbreviation fds :: "gosh \<Rightarrow> stream \<times> stream" where
  "fds s \<equiv> (fd0 s, fd1 s)"

lemma emit_simps [simp]:
  "fd0 (emit e s) = fd0 s" "fd1 (emit e s) = fd1 s" "pendingIDs (emit e s) = pendingIDs s" "pendingNames (emit e s) = pendingNames s"
  "hist (emit e s) = hist s" "env (emit e s) = env s"
  by (simp_all add: emit_def)

lemma say_simps [simp]:
  "fd0 (say t s) = fd0 s" "fd1 (say t s) = fd1 s" "pendingIDs (say t s) = pendingIDs s" "pendingNames (say t s) = pendingNames s"
  "hist (say t s) = hist s" "env (say t s) = env s"
  by (simp_all add: say_def)

text \<open>What a command may do to the descriptors and to the job table: the former stay, entries of the latter stay or end, and new ones come last.\<close>

definition jobs_grow :: "gosh \<Rightarrow> gosh \<Rightarrow> bool" where
  "jobs_grow s t \<longleftrightarrow> length (pendingIDs s) \<le> length (pendingIDs t) \<and>
     (\<forall>i < length (pendingIDs s). pendingNames t ! i = pendingNames s ! i \<and> (pendingIDs t ! i = pendingIDs s ! i \<or> pendingIDs t ! i = 0))"

definition jobs_ok :: "gosh \<Rightarrow> bool" where
  "jobs_ok s \<longleftrightarrow> length (pendingNames s) = length (pendingIDs s) \<and> length (pendingIDs s) \<le> 100"

definition quiet :: "gosh \<Rightarrow> gosh \<Rightarrow> bool" where
  "quiet s t \<longleftrightarrow> fds t = fds s \<and> pendingIDs t = pendingIDs s \<and> pendingNames t = pendingNames s"

definition grows :: "gosh \<Rightarrow> gosh \<Rightarrow> bool" where
  "grows s t \<longleftrightarrow> fds t = fds s \<and> (jobs_ok s \<longrightarrow> jobs_ok t \<and> jobs_grow s t)"

lemma jobs_grow_refl [simp]: "jobs_grow s s"
  by (simp add: jobs_grow_def)

lemma jobs_grow_trans: "jobs_grow s t \<Longrightarrow> jobs_grow t u \<Longrightarrow> jobs_grow s u"
  unfolding jobs_grow_def by (metis (no_types, lifting) less_le_trans order_trans)

lemma quiet_refl [simp]: "quiet s s"
  by (simp add: quiet_def)

lemma quiet_trans: "quiet s t \<Longrightarrow> quiet t u \<Longrightarrow> quiet s u"
  by (simp add: quiet_def)

lemma quiet_emit [simp]: "quiet s (emit e t) = quiet s t" "quiet s (say x t) = quiet s t"
  by (simp_all add: quiet_def)

lemma quiet_grows: "quiet s t \<Longrightarrow> grows s t"
  by (simp add: quiet_def grows_def jobs_grow_def jobs_ok_def)

lemma jobs_trans: "grows s t \<Longrightarrow> grows t u \<Longrightarrow> grows s u"
  unfolding grows_def using jobs_grow_trans by (metis)

lemma add_job_grows: "add_job nm pd s = Inr t \<Longrightarrow> grows s t"
  by (auto simp: add_job_def grows_def jobs_ok_def jobs_grow_def nth_append split: if_splits)

lemma fold_quiet:
  assumes "\<And>x s. quiet s (f x s)"
  shows "quiet s (fold f xs s)"
proof (induction xs arbitrary: s)
  case (Cons x xs)
  show ?case using quiet_trans[OF assms Cons.IH] by simp
qed simp

lemma nightswatch_quiet: "quiet s (nightswatch_cmd as s)"
proof -
  have "quiet s (snd (snd x)) \<Longrightarrow> quiet s (snd (snd (fold watch_arg bs x)))" for bs x
  proof (induction bs arbitrary: x)
    case (Cons b bs)
    have "quiet s (snd (snd (watch_arg b x)))" using Cons.prems by (cases x) (simp add: watch_arg_def)
    then show ?case using Cons.IH by simp
  qed simp
  then show ?thesis by (simp add: nightswatch_cmd_def)
qed

lemma on_dirs_quiet: "on_dirs f s = Inr t \<Longrightarrow> quiet s t"
  by (auto simp: on_dirs_def bind_r_eq_Inr quiet_def)

lemma quiet_cmds:
  "quiet s (history_cmd as s)" "quiet s (jobs_cmd o1 s)" "quiet s (snd (kjob_cmd as s))" "quiet s (snd (setenv_cmd as s))" "quiet s (snd (unsetenv_cmd as s))"
  "quiet s (snd (getenv_cmd as s))" "quiet s (snd (bg_cmd as s))" "quiet s (cronjobParse as s)" "quiet s (overkill_cmd s)"
proof -
  show "quiet s (overkill_cmd s)" unfolding overkill_cmd_def by (rule fold_quiet) simp
  show "quiet s (snd (setenv_cmd as s))" "quiet s (snd (unsetenv_cmd as s))"
    by (simp_all add: setenv_cmd_def unsetenv_cmd_def quiet_def)
qed (auto simp: history_cmd_def jobs_cmd_def kjob_cmd_def getenv_cmd_def bg_cmd_def cronjobParse_def Let_def split: option.split)

lemma ls_quiet: "ls_cmd o1 as s = Inr (e, t) \<Longrightarrow> quiet s t"
  by (auto simp: ls_cmd_def Let_def quiet_def split: option.splits if_splits)

lemma fg_grows: "fg_cmd o1 as s = Inr (e, t) \<Longrightarrow> grows s t"
proof -
  assume f: "fg_cmd o1 as s = Inr (e, t)"
  show ?thesis
  proof (cases "length as \<noteq> 2 \<or> job_pid as s = None")
    case True
    then show ?thesis using f by (auto simp: fg_cmd_def intro!: quiet_grows split: if_splits)
  next
    case False
    then obtain j pd where j: "job_pid as s = Some (j, pd)" by auto
    define s2 where "s2 = (emit (Signal pd SIGCONT) (s\<lparr>foregroundProcId := pd\<rparr>))\<lparr>pendingIDs := (pendingIDs s)[j := 0]\<rparr>"
    have "(pendingIDs s)[j := 0] ! i = pendingIDs s ! i \<or> (pendingIDs s)[j := 0] ! i = 0" if "i < length (pendingIDs s)" for i
      using that by (cases "i = j") simp_all
    then have g: "grows s s2" by (auto simp: grows_def jobs_ok_def jobs_grow_def s2_def)
    have "add_job (pendingNames s2 ! j) pd s2 = Inr t \<or> t = s2"
      using f False j by (auto simp: fg_cmd_def Let_def s2_def bind_r_eq_Inr split: if_splits)
    then show ?thesis using g jobs_trans[OF g] add_job_grows by blast
  qed
qed

lemma other_grows: "other_cmd o1 cmd as bg whole s = Inr (e, t) \<Longrightarrow> grows s t"
proof -
  assume "other_cmd o1 cmd as bg whole s = Inr (e, t)"
  then obtain i u where x: "execProcess o1 cmd as bg s = Inr (i, u)" and t: "t = u \<or> add_job whole i u = Inr t"
    by (auto simp: other_cmd_def bind_r_eq_Inr split: if_splits)
  have "grows s u"
  proof -
    let ?s = "emit (Start cmd as (fd0 s) (fd1 s) bg) s"
    have q: "grows s ?s" by (rule quiet_grows) simp
    have "u = emit (Err ''Could not fork child'') s \<or> u = ?s \<or> (\<exists>v. (add_job cmd (os_fork o1) ?s = Inr v \<or> v = ?s) \<and> u = v\<lparr>foregroundProcId := 0\<rparr>)"
      using x by (auto simp: execProcess_def Let_def bind_r_eq_Inr split: if_splits)
    then consider "u = emit (Err ''Could not fork child'') s" | "u = ?s" | v where "add_job cmd (os_fork o1) ?s = Inr v \<or> v = ?s" "u = v\<lparr>foregroundProcId := 0\<rparr>"
      by blast
    then show ?thesis
    proof cases
      case (3 v)
      have "grows ?s v" using 3(1) add_job_grows[of cmd "os_fork o1" ?s v] quiet_grows[of ?s ?s] by auto
      moreover have "grows v u" unfolding 3(2) by (rule quiet_grows) (simp add: quiet_def)
      ultimately show ?thesis using jobs_trans[OF q] jobs_trans by blast
    qed (use q quiet_grows[of s "emit (Err ''Could not fork child'') s"] in simp_all)
  qed
  then show ?thesis using t jobs_trans add_job_grows by blast
qed

text \<open>The same for a result, so that the cases of the dispatch are rules.\<close>

definition gok :: "gosh \<Rightarrow> cmd_result \<Rightarrow> bool" where
  "gok s m \<longleftrightarrow> (\<forall>e t. m = Inr (e, t) \<longrightarrow> grows s t)"

lemma gok_rules:
  "gok s x \<Longrightarrow> gok s y \<Longrightarrow> gok s (if b then x else y)" "quiet s t \<Longrightarrow> gok s (Inr (e, t))" "quiet s (snd p) \<Longrightarrow> gok s (Inr p)"
  "gok s (ls_cmd o1 as s)" "gok s (cd_cmd o1 as s)" "gok s (fg_cmd o1 as s)" "gok s (other_cmd o1 cmd as bg whole s)"
  by (auto simp: gok_def quiet_grows cd_cmd_def bind_r_eq_Inr dest: ls_quiet on_dirs_quiet fg_grows other_grows)

lemma builtin_grows: "gok s (builtin o1 cmd as bg whole s)"
  unfolding builtin_def by (intro gok_rules(1); (rule gok_rules quiet_cmds nightswatch_quiet quiet_emit[THEN iffD2] quiet_refl)+)

lemma redirect_frame:
  "redirect o1 p s = (ok, t) \<Longrightarrow> pendingIDs t = pendingIDs s \<and> pendingNames t = pendingNames s \<and>
     (inp p = [] \<longrightarrow> fd0 t = fd0 s) \<and> (outp p = [] \<and> app p = [] \<longrightarrow> fd1 t = fd1 s)"
  by (auto simp: redirect_def Let_def split: if_splits)

lemma restore_frame:
  "pendingIDs (restore p i0 o0 t) = pendingIDs t" "pendingNames (restore p i0 o0 t) = pendingNames t"
  "fd0 (restore p i0 o0 t) = (if inp p = [] then fd0 t else i0)" "fd1 (restore p i0 o0 t) = (if outp p = [] \<and> app p = [] then fd1 t else o0)"
  by (auto simp: restore_def Let_def)

lemma run_simple_cases:
  assumes "run_simple o1 command s = Inr (e, t)"
  obtains s1 where "redirect o1 (parse_args command) s = (False, s1)" "e = Returned" "t = s1"
  | s1 u as bg cmd where "redirect o1 (parse_args command) s = (True, s1)" "builtin o1 cmd as bg command s1 = Inr (e, u)"
      "t = (if e = Finished then restore (parse_args command) (fd0 s) (fd1 s) u else u)"
proof -
  obtain as0 bg where b: "take_background (args (parse_args command)) = (as0, bg)" by fastforce
  obtain ok s1 where r: "redirect o1 (parse_args command) s = (ok, s1)" by fastforce
  show thesis using assms that r b
    by (cases ok; cases "args (parse_args command)") (auto simp: run_simple_def Let_def bind_r_eq_Inr)
qed

lemma run_simple_fds:
  assumes "run_simple o1 command s = Inr (e, t)"
  shows "e = Finished \<Longrightarrow> fds t = fds s" "e \<noteq> Finished \<Longrightarrow> fds t = fds (snd (redirect o1 (parse_args command) s))"
    "jobs_ok s \<Longrightarrow> jobs_ok t \<and> jobs_grow s t"
proof -
  let ?p = "parse_args command"
  have "(e = Finished \<longrightarrow> fds t = fds s) \<and> (e \<noteq> Finished \<longrightarrow> fds t = fds (snd (redirect o1 ?p s))) \<and> (jobs_ok s \<longrightarrow> jobs_ok t \<and> jobs_grow s t)"
    using assms
  proof (cases rule: run_simple_cases)
    case (1 s1)
    then show ?thesis using redirect_frame[OF 1(1)] by (auto simp: jobs_ok_def jobs_grow_def)
  next
    case (2 s1 u as bg cmd)
    have g: "grows s1 u" using builtin_grows[of s1 o1 cmd as bg command] 2(2) by (simp add: gok_def)
    note R = redirect_frame[OF 2(1)]
    have j: "jobs_ok s \<Longrightarrow> jobs_ok u \<and> jobs_grow s u" using g R by (simp add: grows_def jobs_ok_def jobs_grow_def)
    have k: "pendingIDs t = pendingIDs u" "pendingNames t = pendingNames u" using 2(3) by (auto simp: restore_frame)
    show ?thesis using g R 2(1,3) j k by (auto simp: grows_def restore_frame jobs_ok_def jobs_grow_def)
  qed
  then show "e = Finished \<Longrightarrow> fds t = fds s" "e \<noteq> Finished \<Longrightarrow> fds t = fds (snd (redirect o1 ?p s))" "jobs_ok s \<Longrightarrow> jobs_ok t \<and> jobs_grow s t"
    by blast+
qed

text \<open>
  C27: a command with redirections gives the shell its own descriptors back when it runs to its end, and never touches them
  when it has no redirection. But every early \<open>return\<close> (a file that cannot be opened after another has been, a wrong number of
  arguments or a wrong job number for \<open>kjob\<close>, \<open>fg\<close>, \<open>bg\<close>, \<open>setenv\<close>, \<open>unsetenv\<close> or \<open>getenv\<close>) leaves the descriptors as the redirections
  made so far have set them: the shell goes on with its own input or output in that file.
\<close>

theorem redirections_restored:
  assumes "run_simple o1 command s = Inr (e, t)"
  shows "(e = Finished \<longrightarrow> (fd0 t, fd1 t) = (fd0 s, fd1 s)) \<and>
    (inp (parse_args command) = [] \<and> outp (parse_args command) = [] \<and> app (parse_args command) = [] \<longrightarrow> (fd0 t, fd1 t) = (fd0 s, fd1 s)) \<and>
    (e = Returned \<longrightarrow> (fd0 t, fd1 t) = (let s1 = snd (redirect o1 (parse_args command) s) in (fd0 s1, fd1 s1)))"
proof -
  obtain ok s1 where r: "redirect o1 (parse_args command) s = (ok, s1)" by fastforce
  show ?thesis using run_simple_fds(1,2)[OF assms] redirect_frame[OF r] r by (cases "e = Finished") (auto simp: Let_def)
qed

definition any_os :: os where
  "any_os = \<lparr>os_open = (\<lambda>_. True), os_create = (\<lambda>_. True), os_scandir = (\<lambda>_ _. Some []), os_chdir = (\<lambda>_ p. Some p), os_fork = 77, os_stopped = False,
     os_status = (\<lambda>_. None), os_long = (\<lambda>_. []), os_pinfo = (\<lambda>_. []), os_user = ''u'', os_machine = ''m''\<rparr>"

definition new_gosh :: gosh where
  "new_gosh = \<lparr>hist = \<lparr>commandHistory = [], hfile = None\<rparr>, dirs_of = \<lparr>cwd = ''/h'', currDirectories = [''h''], currDirString = ''/h'', homeDirPath = [''h''], expectedHomeDir = ''/h''\<rparr>,
     pendingNames = [], pendingIDs = [], foregroundProcId = 0, env = (\<lambda>_. None), fd0 = Tty, fd1 = Tty, events = []\<rparr>"

lemma kjob_parse: "parse_args ''kjob 1 > f'' = \<lparr>hasInput = False, hasOutput = False, hasAppend = False, inp = [], outp = ''f'', app = [], args = [''kjob'', ''1'']\<rparr>"
  by code_simp

text \<open>\<open>kjob 1 > f\<close>, which lacks an argument, leaves the output of the shell in the file.\<close>

theorem redirections_restored_witness: "\<exists>t. run_simple any_os ''kjob 1 > f'' new_gosh = Inr (Returned, t) \<and> fd0 t = Tty \<and> fd1 t = ToFile ''f''"
proof -
  obtain t where t: "run_simple any_os ''kjob 1 > f'' new_gosh = Inr (Returned, t)"
    by (simp add: run_simple_def Let_def kjob_parse take_background_def redirect_def any_os_def builtin_def kjob_cmd_def numeral_2_eq_2)
  from redirections_restored[OF t] have "(fd0 t, fd1 t) = (Tty, ToFile ''f'')"
    by (simp add: kjob_parse redirect_def any_os_def new_gosh_def Let_def)
  then show ?thesis using t by simp
qed

section \<open>Jobs\<close>

lemma hist_upd_jobs: "jobs_ok (s\<lparr>hist := h\<rparr>) = jobs_ok s" "jobs_grow s (t\<lparr>hist := h\<rparr>) = jobs_grow s t" "jobs_ok (s\<lparr>foregroundProcId := p\<rparr>) = jobs_ok s"
  "jobs_grow (s\<lparr>hist := h\<rparr>) t = jobs_grow s t" "jobs_ok (say x s) = jobs_ok s" "jobs_grow (say x s) t = jobs_grow s t" "jobs_grow s (say x t) = jobs_grow s t"
  "jobs_grow (s\<lparr>foregroundProcId := p\<rparr>) t = jobs_grow s t"
  by (simp_all add: jobs_ok_def jobs_grow_def)

lemma execCommand_jobs: "execCommand k o1 command s = Inr (e, t) \<Longrightarrow> jobs_ok s \<Longrightarrow> jobs_ok t \<and> jobs_grow s t"
proof (induction k arbitrary: command s e t)
  case (Suc k)
  show ?case
  proof (cases "command \<noteq> [] \<and> hd command = ESC")
    case True
    then show ?thesis using Suc.prems Suc.IH
      by (fastforce simp: Let_def bind_r_eq_Inr hist_upd_jobs split: if_splits)
  next
    case False
    show ?thesis
    proof (cases "countPipes command > 0")
      case True
      then show ?thesis using Suc.prems False by (auto simp: handlePipelining_def jobs_ok_def jobs_grow_def split: prod.splits)
    next
      case no: False
      then show ?thesis using Suc.prems run_simple_fds(3)[of o1 command s e t] False by auto
    qed
  qed
qed simp

lemma run_commands_jobs: "run_commands k o1 cs s = Inr (e, t) \<Longrightarrow> jobs_ok s \<Longrightarrow> jobs_ok t \<and> jobs_grow s t"
proof (induction cs arbitrary: s)
  case (Cons c cs)
  obtain e1 u where u: "execCommand k o1 c s = Inr (e1, u)" "(if e1 = Quit then Inr (Quit, u) else run_commands k o1 cs u) = Inr (e, t)"
    using Cons.prems(1) by (auto simp: bind_r_eq_Inr)
  have j: "jobs_ok u \<and> jobs_grow s u" by (rule execCommand_jobs[OF u(1) Cons.prems(2)])
  show ?case
  proof (cases "e1 = Quit")
    case False
    then show ?thesis using u(2) j Cons.IH[of u] jobs_grow_trans by auto
  qed (use u(2) j in simp)
qed simp

text \<open>A line typed at the prompt, with whatever the system answers, or a child that ends.\<close>

inductive gstep :: "gosh \<Rightarrow> gosh \<Rightarrow> bool" where
  Line: "inputter k o1 keys s = Inr (e, t) \<Longrightarrow> gstep s t"
| Child: "childTermination o1 pd exited code s = Inr t \<Longrightarrow> gstep s t"

lemma gstep_jobs:
  assumes "jobs_ok s" "gstep s t"
  shows "jobs_ok t \<and> jobs_grow s t"
  using assms(2)
proof cases
  case (Line k o1 keys e)
  let ?s = "say (prompt o1 s) (s\<lparr>foregroundProcId := 0\<rparr>)"
  obtain cs h u where u: "run_commands k o1 cs (?s\<lparr>hist := h\<rparr>) = Inr (e, u)" "t = u \<or> t = say (''No command entered'' @ [NL]) u"
    using Line by (auto simp: inputter_def Let_def bind_r_eq_Inr simp del: run_commands.simps split: if_splits)
  have "jobs_ok u \<and> jobs_grow (?s\<lparr>hist := h\<rparr>) u" by (rule run_commands_jobs[OF u(1)]) (use assms(1) in \<open>simp add: hist_upd_jobs\<close>)
  then have "jobs_ok u \<and> jobs_grow s u" by (simp only: hist_upd_jobs)
  then show ?thesis using u(2) by (auto simp: hist_upd_jobs)
next
  case (Child o1 pd exited code)
  then show ?thesis using assms(1)
    by (auto simp: childTermination_def Let_def jobs_ok_def jobs_grow_def hist_upd_jobs split: if_splits option.splits)
qed

interpretation gosh_sys: invariant_system gstep jobs_ok
  by unfold_locales (use gstep_jobs in blast)


definition two_jobs :: gosh where
  "two_jobs = new_gosh\<lparr>pendingNames := [''a &'', ''b &''], pendingIDs := [7, 8]\<rparr>"


section \<open>cronjob and pipelines\<close>

text \<open>With a positive interval the command runs until the time is over; otherwise the child never ends.\<close>

lemma cron_loop_runs:
  assumes "intervl > 0"
  shows "\<exists>ts. cron_loop intervl tim now = Some ts \<and> sum_list ts = max 0 (tim - now) \<and> (\<forall>t \<in> set ts. 0 < t \<and> t \<le> intervl)"
proof (induction "nat (tim - now)" arbitrary: now rule: less_induct)
  case less
  show ?case
  proof (cases "now < tim")
    case True
    let ?s = "if tim - now \<le> intervl then tim - now else intervl"
    have s: "0 < ?s" "?s \<le> intervl" "now + ?s \<le> tim" using True assms by auto
    obtain ts where ts: "cron_loop intervl tim (now + ?s) = Some ts" "sum_list ts = max 0 (tim - (now + ?s))" "\<forall>t \<in> set ts. 0 < t \<and> t \<le> intervl"
      using less.hyps[of "now + ?s"] s True by auto
    have "cron_loop intervl tim now = Some (?s # ts)" using True ts(1) by (subst cron_loop.simps) (simp only: Let_def if_True Option.bind.simps)
    then show ?thesis using ts(2,3) s True by auto
  qed (subst cron_loop.simps, simp)
qed

lemma cron_loop_forever: "intervl \<le> 0 \<Longrightarrow> now < tim \<Longrightarrow> cron_loop intervl tim now = None"
proof (rule ccontr)
  assume i: "intervl \<le> 0" "now < tim" and "cron_loop intervl tim now \<noteq> None"
  then obtain ts where "cron_loop intervl tim now = Some ts" by blast
  then show False using i(2)
  proof (induction ts arbitrary: now)
    case Nil
    then show ?case by (subst (asm) cron_loop.simps) (auto simp: Let_def split: bind_splits)
  next
    case (Cons t ts)
    have "cron_loop intervl tim (now + intervl) = Some ts" using Cons.prems i(1)
      by (subst (asm) cron_loop.simps) (auto simp: Let_def split: bind_splits)
    then show ?case using Cons.IH[of "now + intervl"] Cons.prems(2) i(1) by simp
  qed
qed

text \<open>
  Every stage of a pipeline writes to the pipe the next one reads from, and the shell closes the writing end of that pipe before the
  next stage starts, which so sees the end of its input.
\<close>

lemma writing_end_closed: "i < n - 1 \<Longrightarrow> i \<notin> wr_open (close_ends n i (make_pipe i p))"
  by (auto simp: close_ends_def make_pipe_def)

lemma stages_wired:
  assumes "i + k = n" "n \<ge> 2" "i > 0 \<Longrightarrow> slot p (odd (i - 1)) = i - 1"
  shows "fst (run_stages n cmds k i p) =
    map (\<lambda>j. Stage (if j < length cmds then cmds ! j else ''NULL'') (if j = 0 then None else Some (j - 1)) (if j = n - 1 then None else Some j)) [i..<n]"
  using assms
proof (induction k arbitrary: i p)
  case (Suc k)
  let ?p = "close_ends n i (make_pipe i p)"
  have io: "stage_io n i (make_pipe i p) = (if i = 0 then None else Some (i - 1), if i = n - 1 then None else Some i)"
    using Suc.prems by (cases i) (auto simp: stage_io_def make_pipe_def)
  have "slot ?p (odd i) = i" by (simp add: close_ends_def make_pipe_def)
  then have IH: "fst (run_stages n cmds k (i + 1) ?p) =
      map (\<lambda>j. Stage (if j < length cmds then cmds ! j else ''NULL'') (if j = 0 then None else Some (j - 1)) (if j = n - 1 then None else Some j)) [i + 1..<n]"
    using Suc.IH[of "i + 1" ?p] Suc.prems(1,2) by simp
  have u: "[i..<n] = i # [i + 1..<n]" using Suc.prems(1) by (simp add: upt_conv_Cons)
  show ?case unfolding run_stages.simps(2) Let_def case_prod_beta io fst_conv snd_conv IH u list.map by (rule refl)
qed simp

lemma pipeline_wired:
  assumes "countPipes commands > 0"
  shows "events (handlePipelining commands (countPipes commands + 1) s) = events s @
    map (\<lambda>j. Stage (if j < length (tokens ''|'' commands) then tokens ''|'' commands ! j else ''NULL'') (if j = 0 then None else Some (j - 1))
      (if j = countPipes commands then None else Some j)) [0..<countPipes commands + 1]"
  using stages_wired[of 0 "countPipes commands + 1" "countPipes commands + 1"] assms
  by (simp add: handlePipelining_def case_prod_beta del: run_stages.simps upt_Suc)

end
