(* ===== verification/Mkfs.thy ===== *)
theory Mkfs
  imports Fs_Props
begin

text \<open>
  The program that makes the disk (\<open>mkfs.c\<close>): the disk layout, the allocators that only count upwards, appending to a
  file, and the root directory. The theory shows that the kernel finds on the image what was put there: after \<open>iinit\<close>,
  \<open>iget\<close> and \<open>ilock\<close> each inode satisfies the invariant of the file system and \<open>readi\<close> returns the contents of its file.
\<close>

section \<open>Layout and state\<close>

definition NINODES :: nat where "NINODES = 200"
definition nbitmap :: nat where "nbitmap = unat FSSIZE div (BSIZE * 8) + 1"
definition ninodeblocks :: nat where "ninodeblocks = NINODES div unat IPB + 1"
definition nlog :: nat where "nlog = nat LOGSIZE"
definition nmeta :: nat where "nmeta = 2 + nlog + ninodeblocks + nbitmap"
definition zeroes :: block where "zeroes = replicate BSIZE 0"

text \<open>The image \<open>fsfd\<close> in units of blocks, as every access is a whole block; the superblock; the two counters.\<close>

record mkst =
  image :: "block list"
  mksb :: superblock
  freeinode :: u32
  freeblock :: u32

text \<open>Conversion to Intel byte order: the four bytes of the result in memory, read back by the host, which is little endian.\<close>

definition xint :: "u32 \<Rightarrow> u32" where
  "xint x = get_word [ucast x, ucast (drop_bit 8 x), ucast (drop_bit 16 x), ucast (drop_bit 24 x)] 0"

definition xshort :: "u16 \<Rightarrow> u16" where
  "xshort x = get_half [ucast x, ucast (drop_bit 8 x)] 0"

text \<open>
  The position \<open>sec * BSIZE\<close> is computed in 32 bits. The host's file takes every write and grows by it, with zeros in
  between; a read behind its end returns no bytes, so \<open>rsect\<close> reports \<open>read\<close> and exits.
\<close>

definition sector :: "u32 \<Rightarrow> nat" where "sector sec = unat (sec * of_nat BSIZE) div BSIZE"

definition wsect :: "u32 \<Rightarrow> block \<Rightarrow> mkst \<Rightarrow> mkst" where
  "wsect sec d s =
    (let i = sector sec; m = image s in
     s\<lparr>image := if i < length m then m[i := d] else m @ replicate (i - length m) zeroes @ [d]\<rparr>)"

definition rsect :: "u32 \<Rightarrow> mkst \<Rightarrow> block result" where
  "rsect sec s = (let i = sector sec in if i < length (image s) then Inr (image s ! i) else Inl (Panic ''read''))"

section \<open>Inodes and blocks\<close>

text \<open>A \<open>struct dinode\<close> is an \<open>inode\<close> record whose fields for the kernel's cache stay at the values of \<open>din0\<close>.\<close>

definition din0 :: inode where
  "din0 = \<lparr>idev = 0, inum = 0, iref = 0, ilk = None, ivalid = False, itype = 0, imajor = 0, iminor = 0, inlink = 0, isize = 0,
     iaddrs = replicate (NDIRECT + 1) 0\<rparr>"

definition winode :: "u32 \<Rightarrow> inode \<Rightarrow> mkst \<Rightarrow> mkst result" where
  "winode n ip s =
    (let bn = IBLOCK n (mksb s) in
     bind_r (rsect bn s) (\<lambda>d. Inr (wsect bn (store_dinode (inode_slot n) ip d) s)))"

definition rinode :: "u32 \<Rightarrow> mkst \<Rightarrow> inode result" where
  "rinode n s = bind_r (rsect (IBLOCK n (mksb s)) s) (\<lambda>d. Inr (load_dinode (inode_slot n) d din0))"

definition mk_ialloc :: "u16 \<Rightarrow> mkst \<Rightarrow> (u32 \<times> mkst) result" where
  "mk_ialloc ty s =
    (let n = freeinode s; s1 = s\<lparr>freeinode := n + 1\<rparr> in
     bind_r (winode n (din0\<lparr>itype := xshort ty, inlink := xshort 1, isize := xint 0\<rparr>) s1) (\<lambda>s2. Inr (n, s2)))"

definition mk_balloc :: "int \<Rightarrow> mkst \<Rightarrow> mkst result" where
  "mk_balloc n s =
    (if n \<ge> int (BSIZE * 8) then Inl (AssertFail ''used < BSIZE*8'')
     else Inr (wsect (sb_bmapstart (mksb s)) (fold (\<lambda>i d. d[i div 8 := or (d ! (i div 8)) (push_bit (i mod 8) 1)]) [0..<nat n] zeroes) s))"

text \<open>The block of the file block \<open>fbn\<close>, allocated when there is none.\<close>

definition new_block_no :: "mkst \<Rightarrow> u32 \<times> mkst" where
  "new_block_no s = (xint (freeblock s), s\<lparr>freeblock := freeblock s + 1\<rparr>)"

definition slot_block :: "nat \<Rightarrow> inode \<Rightarrow> mkst \<Rightarrow> inode \<times> mkst" where
  "slot_block k ip s =
    (if xint (iaddrs ip ! k) = 0 then let (b, s1) = new_block_no s in (ip\<lparr>iaddrs := (iaddrs ip)[k := b]\<rparr>, s1) else (ip, s))"

definition append_block :: "nat \<Rightarrow> inode \<Rightarrow> mkst \<Rightarrow> (u32 \<times> inode \<times> mkst) result" where
  "append_block fbn ip s =
    (if fbn < NDIRECT then let (ip1, s1) = slot_block fbn ip s in Inr (xint (iaddrs ip1 ! fbn), ip1, s1)
     else let (ip1, s1) = slot_block NDIRECT ip s; a = xint (iaddrs ip1 ! NDIRECT) in
       bind_r (rsect a s1) (\<lambda>d.
         if get_word d (fbn - NDIRECT) = 0 then
           let (b, s2) = new_block_no s1; d1 = put_word d (fbn - NDIRECT) b in Inr (xint (get_word d1 (fbn - NDIRECT)), ip1, wsect a d1 s2)
         else Inr (xint (get_word d (fbn - NDIRECT)), ip1, s1)))"

text \<open>The loop of \<open>iappend\<close>; \<open>p\<close> is the rest of the bytes, so \<open>n\<close> is its length.\<close>

function iappend_loop :: "u8 list \<Rightarrow> u32 \<Rightarrow> inode \<Rightarrow> mkst \<Rightarrow> (u32 \<times> inode \<times> mkst) result" where
  "iappend_loop p off ip s =
    (if p = [] then Inr (off, ip, s)
     else let fbn = unat off div BSIZE; n1 = min (length p) ((fbn + 1) * BSIZE - unat off); o1 = unat off - fbn * BSIZE in
       if fbn \<ge> MAXFILE then Inl (AssertFail ''fbn < MAXFILE'')
       else bind_r (append_block fbn ip s) (\<lambda>(x, ip1, s1).
         bind_r (rsect x s1) (\<lambda>d.
           iappend_loop (drop n1 p) (off + of_nat n1) ip1 (wsect x (take o1 d @ take n1 p @ drop (o1 + n1) d) s1))))"
  by pat_completeness auto
termination
proof (relation "measure (\<lambda>(p, off, ip, s). length p)", goal_cases)
  case (2 p off ip s fbn n1 o1)
  have "unat off < (unat off div BSIZE + 1) * BSIZE" by (simp add: BSIZE_def)
  then show ?case using 2 by simp
qed simp

declare iappend_loop.simps [simp del]

definition iappend :: "u32 \<Rightarrow> u8 list \<Rightarrow> mkst \<Rightarrow> mkst result" where
  "iappend n p s =
    bind_r (rinode n s) (\<lambda>ip.
      bind_r (iappend_loop p (xint (isize ip)) ip s) (\<lambda>(off, ip1, s1). winode n (ip1\<lparr>isize := xint off\<rparr>) s1))"

section \<open>The program\<close>

definition init_sb :: superblock where
  "init_sb = \<lparr>sb_size = xint FSSIZE, sb_nblocks = xint (of_nat (unat FSSIZE - nmeta)), sb_ninodes = xint (of_nat NINODES), sb_nlog = xint (of_nat nlog),
     sb_logstart = xint 2, sb_inodestart = xint (2 + of_nat nlog), sb_bmapstart = xint (2 + of_nat nlog + of_nat ninodeblocks)\<rparr>"

definition sb_block :: "superblock \<Rightarrow> block" where
  "sb_block b = put_word (put_word (put_word (put_word (put_word (put_word (put_word zeroes 0 (sb_size b)) 1 (sb_nblocks b)) 2 (sb_ninodes b))
     3 (sb_nlog b)) 4 (sb_logstart b)) 5 (sb_inodestart b)) 6 (sb_bmapstart b)"

definition dir_entry :: "u8 list \<Rightarrow> u32 \<Rightarrow> u8 list" where
  "dir_entry name n = mk_dirent name (ucast (xshort (ucast n)))"

text \<open>
  One file of the command line. \<open>host\<close> gives the results of the successive \<open>read\<close>s of a file, or \<open>None\<close> when it cannot be
  opened; the copying ends at the first read without bytes. A leading underscore is not part of the name.
\<close>

definition file_name :: "u8 list \<Rightarrow> u8 list" where
  "file_name arg = (if arg \<noteq> [] \<and> hd arg = 0x5F then tl arg else arg)"

definition mk_file :: "(u8 list \<Rightarrow> u8 list list option) \<Rightarrow> u32 \<Rightarrow> u8 list \<Rightarrow> mkst \<Rightarrow> mkst result" where
  "mk_file host root arg s =
    (if slash \<in> set arg then Inl (AssertFail ''index'')
     else case host arg of
       None \<Rightarrow> Inl (Panic ''open'')
     | Some rs \<Rightarrow>
         bind_r (mk_ialloc T_FILE s) (\<lambda>(n, s1).
           bind_r (iappend root (dir_entry (file_name arg) n) s1) (fold_r (iappend n) (takeWhile (\<lambda>c. c \<noteq> []) rs))))"

definition fix_root :: "u32 \<Rightarrow> mkst \<Rightarrow> mkst result" where
  "fix_root root s =
    bind_r (rinode root s) (\<lambda>ip.
      let off = xint (isize ip); off1 = (off div of_nat BSIZE + 1) * of_nat BSIZE in winode root (ip\<lparr>isize := xint off1\<rparr>) s)"

definition mkfs :: "u8 list list \<Rightarrow> bool \<Rightarrow> (u8 list \<Rightarrow> u8 list list option) \<Rightarrow> mkst result" where
  "mkfs argv created host =
    (if length argv < 2 then Inl (Panic ''Usage: mkfs fs.img files...'')
     else if \<not> created then Inl (Panic ''open'')
     else
       let s0 = \<lparr>image = [], mksb = init_sb, freeinode = 1, freeblock = of_nat nmeta\<rparr>;
           s1 = fold (\<lambda>i. wsect (of_nat i) zeroes) [0..<unat FSSIZE] s0;
           s2 = wsect 1 (sb_block init_sb) s1 in
       bind_r (mk_ialloc T_DIR s2) (\<lambda>(root, s3).
         if root \<noteq> ROOTINO then Inl (AssertFail ''rootino == ROOTINO'')
         else bind_r (iappend root (dir_entry [0x2E] root) s3) (\<lambda>s4.
           bind_r (iappend root (dir_entry [0x2E, 0x2E] root) s4) (\<lambda>s5.
             bind_r (fold_r (mk_file host root) (drop 2 argv) s5) (\<lambda>s6.
               bind_r (fix_root root s6) (\<lambda>s7. mk_balloc (sint (freeblock s7)) s7))))))"

section \<open>The disk inode\<close>

lemma xint_id [simp]: "xint x = x"
  by (simp add: xint_def get_word_def word_split)

lemma half_split: "or (ucast (ucast v :: u8)) (push_bit 8 (ucast (ucast (drop_bit 8 v) :: u8))) = (v :: u16)"
proof (rule bit_word_eqI)
  fix n assume "n < LENGTH(16)"
  then show "bit (or (ucast (ucast v :: u8)) (push_bit 8 (ucast (ucast (drop_bit 8 v) :: u8))) :: u16) n = bit v n"
    by (cases "8 \<le> n") (auto simp: bit_simps not_less)
qed

lemma xshort_id [simp]: "xshort x = x"
  by (simp add: xshort_def get_half_def half_split)

lemma length_put_half [simp]: "length (put_half d i v) = length d"
  by (simp add: put_half_def)

lemma get_put_half: "2 * i + 1 < length d \<Longrightarrow> get_half (put_half d i v) j = (if j = i then v else get_half d j)"
proof (cases "j = i")
  case True
  moreover assume "2 * i + 1 < length d"
  ultimately show ?thesis by (simp add: get_half_def put_half_def half_split)
next
  case False
  then have "2 * j + a \<noteq> 2 * i + b" if "a < 2" "b < 2" for a b using that by linarith
  from this[of 0 0] this[of 0 1] this[of 1 0] this[of 1 1] show ?thesis using False by (simp add: get_half_def put_half_def)
qed

lemma get_half_put_word: "j div 2 \<noteq> i \<Longrightarrow> get_half (put_word d i v) j = get_half d j"
proof -
  assume "j div 2 \<noteq> i"
  then have "2 * j + a \<noteq> 4 * i + b" if "a < 2" "b < 4" for a b using that by linarith
  from this[of 0 0] this[of 0 1] this[of 0 2] this[of 0 3] this[of 1 0] this[of 1 1] this[of 1 2] this[of 1 3]
  show ?thesis by (simp add: get_half_def put_word_def)
qed

lemma get_word_put_half: "j div 2 \<noteq> i \<Longrightarrow> get_word (put_half d j v) i = get_word d i"
proof -
  assume "j div 2 \<noteq> i"
  then have "4 * i + b \<noteq> 2 * j + a" if "a < 2" "b < 4" for a b using that by linarith
  from this[of 0 0] this[of 0 1] this[of 0 2] this[of 0 3] this[of 1 0] this[of 1 1] this[of 1 2] this[of 1 3]
  show ?thesis by (simp add: get_word_def put_half_def)
qed

lemma fold_put_words:
  fixes d :: block and f :: "nat \<Rightarrow> u32" and a :: nat
  defines "F n \<equiv> fold (\<lambda>j d. put_word d (a + j) (f j)) [0..<n] d"
  assumes "4 * (a + n) \<le> length d"
  shows "length (F n) = length d" "get_word (F n) m = (if a \<le> m \<and> m < a + n then f (m - a) else get_word d m)"
    "m div 2 < a \<or> a + n \<le> m div 2 \<Longrightarrow> get_half (F n) m = get_half d m"
proof -
  have l: "length (F k) = length d" for k by (induction k) (simp_all add: F_def)
  show "length (F n) = length d" by (rule l)
  have "k \<le> n \<Longrightarrow> get_word (F k) m = (if a \<le> m \<and> m < a + k then f (m - a) else get_word d m)" for k
  proof (induction k)
    case (Suc k)
    have "4 * (a + k) + 3 < length (F k)" using Suc.prems assms(2) l[of k] by simp
    then have "get_word (F (Suc k)) m = (if m = a + k then f k else get_word (F k) m)" using get_put_word by (simp add: F_def)
    then show ?case using Suc by auto
  qed (auto simp: F_def)
  then show "get_word (F n) m = (if a \<le> m \<and> m < a + n then f (m - a) else get_word d m)" by simp
  have "m div 2 < a \<or> a + k \<le> m div 2 \<Longrightarrow> get_half (F k) m = get_half d m" for k
  proof (induction k)
    case (Suc k)
    then have "get_half (F k) m = get_half d m" "m div 2 \<noteq> a + k" by auto
    then show ?case by (simp add: F_def get_half_put_word)
  qed (simp add: F_def)
  then show "m div 2 < a \<or> a + n \<le> m div 2 \<Longrightarrow> get_half (F n) m = get_half d m" by simp
qed

lemma load_store_dinode:
  assumes "length d = BSIZE" "k < 8" "k' < 8" "length (iaddrs ip) = 13"
  shows "load_dinode k' (store_dinode k ip d) x =
    (if k' = k then x\<lparr>itype := itype ip, imajor := imajor ip, iminor := iminor ip, inlink := inlink ip, isize := isize ip, iaddrs := iaddrs ip\<rparr>
     else load_dinode k' d x)"
proof -
  define d1 where "d1 = put_half (put_half (put_half (put_half d (32 * k) (itype ip)) (32 * k + 1) (imajor ip)) (32 * k + 2) (iminor ip)) (32 * k + 3) (inlink ip)"
  define d2 where "d2 = put_word d1 (16 * k + 2) (isize ip)"
  have s: "store_dinode k ip d = fold (\<lambda>j d. put_word d (16 * k + 3 + j) (iaddrs ip ! j)) [0..<13] d2"
    by (simp add: store_dinode_def d2_def d1_def NDIRECT_def)
  have l: "length d1 = 512" "length d2 = 512" "64 * k + 64 \<le> 512" "64 * k' + 64 \<le> 512" using assms by (simp_all add: d1_def d2_def BSIZE_def)
  have "4 * (16 * k + 3 + 13) \<le> length d2" using l by simp
  note f = fold_put_words[OF this, where f = "\<lambda>j. iaddrs ip ! j", folded s]
  have w: "get_word d2 m = (if m = 16 * k + 2 then isize ip else get_word d1 m)" for m
    unfolding d2_def by (rule get_put_word) (use l in simp)
  have w1: "get_word d1 m = get_word d m" if "m div 16 \<noteq> k \<or> m mod 16 \<ge> 2" for m
  proof -
    have "16 * k \<noteq> m" "16 * k + 1 \<noteq> m" using that by auto
    then show ?thesis by (simp add: d1_def get_word_put_half)
  qed
  have h1: "get_half d1 m = (if m = 32 * k then itype ip else if m = 32 * k + 1 then imajor ip else if m = 32 * k + 2 then iminor ip
      else if m = 32 * k + 3 then inlink ip else get_half d m)" for m
    using l assms(1) by (simp add: d1_def get_put_half BSIZE_def)
  have h: "get_half (store_dinode k ip d) (32 * k' + m) = get_half d1 (32 * k' + m)" if "m < 4" for m
  proof -
    have e: "(32 * k' + m) div 2 = 16 * k' + m div 2" "m div 2 \<le> 1" using that by simp_all
    have "16 * k' + c < 16 * k + 3 \<or> 16 * k + 3 + 13 \<le> 16 * k' + c" if "c \<le> 1" for c
      using that by (cases "k' \<le> k") linarith+
    then have "(32 * k' + m) div 2 < 16 * k + 3 \<or> 16 * k + 3 + 13 \<le> (32 * k' + m) div 2" using e by simp
    moreover have "16 * k' + c \<noteq> 16 * k + 2" if "c \<le> 1" for c using that by presburger
    then have "(32 * k' + m) div 2 \<noteq> 16 * k + 2" using e by simp
    ultimately show ?thesis using f(3) by (simp add: d2_def get_half_put_word)
  qed
  have g: "get_word (store_dinode k ip d) (16 * k' + m) = (if k' = k then (if m = 2 then isize ip else iaddrs ip ! (m - 3)) else get_word d (16 * k' + m))"
    if "2 \<le> m" "m < 16" for m
  proof (cases "k' = k")
    case True
    then show ?thesis using that by (simp add: f(2) w)
  next
    case False
    then have "\<not> (16 * k + 3 \<le> 16 * k' + m \<and> 16 * k' + m < 16 * k + 3 + 13)" "16 * k' + m \<noteq> 16 * k + 2" using that by presburger+
    then have "get_word (store_dinode k ip d) (16 * k' + m) = get_word d1 (16 * k' + m)" by (simp only: f(2) w if_False)
    then show ?thesis using False that w1[of "16 * k' + m"] by simp
  qed
  have a: "map (\<lambda>j. get_word (store_dinode k ip d) (16 * k' + 3 + j)) [0..<13] =
      (if k' = k then iaddrs ip else map (\<lambda>j. get_word d (16 * k' + 3 + j)) [0..<13])"
    using g[of "3 + _"] assms(4) by (auto intro!: nth_equalityI simp: add.assoc)
  show ?thesis using a g[of 2] h[of 0] h[of 1] h[of 2] h[of 3]
    by (cases "k' = k") (simp_all add: load_dinode_def NDIRECT_def h1 add.assoc)
qed

section \<open>The layout invariant\<close>

text \<open>
  \<open>D\<close> gives the disk inode of each inode number below \<open>N\<close>, \<open>m\<close> the image and \<open>fb\<close> the first block not handed out. File
  block 140 stands for the indirect block. Every block a file owns lies between the metadata and \<open>fb\<close>, no block is owned
  twice, and the blocks from \<open>fb\<close> on are zero.
\<close>

definition adr :: "(nat \<Rightarrow> inode) \<Rightarrow> block list \<Rightarrow> nat \<Rightarrow> nat \<Rightarrow> u32" where
  "adr D m i bn = (if bn < 12 then iaddrs (D i) ! bn
     else if bn < 140 then (if iaddrs (D i) ! 12 = 0 then 0 else get_word (m ! unat (iaddrs (D i) ! 12)) (bn - 12))
     else iaddrs (D i) ! 12)"

definition byte_at :: "(nat \<Rightarrow> inode) \<Rightarrow> block list \<Rightarrow> nat \<Rightarrow> nat \<Rightarrow> u8" where
  "byte_at D m i k = (let a = adr D m i (k div BSIZE) in if a = 0 then 0 else m ! unat a ! (k mod BSIZE))"

definition lay :: "(nat \<Rightarrow> inode) \<Rightarrow> nat \<Rightarrow> block list \<Rightarrow> nat \<Rightarrow> bool" where
  "lay D N m fb \<longleftrightarrow> length m = 1000 \<and> (\<forall>b < 1000. length (m ! b) = BSIZE) \<and> 59 \<le> fb \<and> fb \<le> 1000 \<and>
     (\<forall>i \<in> {1..<N}. length (iaddrs (D i)) = 13) \<and>
     (\<forall>i \<in> {1..<N}. \<forall>bn \<le> 140. adr D m i bn \<noteq> 0 \<longrightarrow> 59 \<le> unat (adr D m i bn) \<and> unat (adr D m i bn) < fb) \<and>
     (\<forall>i \<in> {1..<N}. \<forall>j \<in> {1..<N}. \<forall>bn \<le> 140. \<forall>bm \<le> 140. adr D m i bn \<noteq> 0 \<longrightarrow> adr D m i bn = adr D m j bm \<longrightarrow> i = j \<and> bn = bm) \<and>
     (\<forall>b. fb \<le> b \<longrightarrow> b < 1000 \<longrightarrow> m ! b = zeroes)"

lemma layD:
  assumes "lay D N m fb"
  shows "length m = 1000" "b < 1000 \<Longrightarrow> length (m ! b) = BSIZE" "59 \<le> fb" "fb \<le> 1000" "i \<in> {1..<N} \<Longrightarrow> length (iaddrs (D i)) = 13"
    "i \<in> {1..<N} \<Longrightarrow> bn \<le> 140 \<Longrightarrow> adr D m i bn \<noteq> 0 \<Longrightarrow> 59 \<le> unat (adr D m i bn)"
    "i \<in> {1..<N} \<Longrightarrow> bn \<le> 140 \<Longrightarrow> adr D m i bn \<noteq> 0 \<Longrightarrow> unat (adr D m i bn) < fb"
    "i \<in> {1..<N} \<Longrightarrow> j \<in> {1..<N} \<Longrightarrow> bn \<le> 140 \<Longrightarrow> bm \<le> 140 \<Longrightarrow> adr D m i bn \<noteq> 0 \<Longrightarrow> adr D m i bn = adr D m j bm \<Longrightarrow> i = j \<and> bn = bm"
    "fb \<le> b \<Longrightarrow> b < 1000 \<Longrightarrow> m ! b = zeroes"
  using assms unfolding lay_def by blast+

text \<open>One allocation: the pointer \<open>sl\<close> of inode \<open>i\<close> becomes \<open>fb\<close> unless it is set already.\<close>

definition alloc_step :: "nat \<Rightarrow> nat \<Rightarrow> nat \<Rightarrow> (nat \<Rightarrow> inode) \<Rightarrow> block list \<Rightarrow> nat \<Rightarrow> (nat \<Rightarrow> inode) \<Rightarrow> block list \<Rightarrow> nat \<Rightarrow> bool" where
  "alloc_step N i sl D m fb D' m' fb' \<longleftrightarrow> lay D' N m' fb' \<and> fb' = fb + (if adr D m i sl = 0 then 1 else 0) \<and>
     (\<forall>j \<in> {1..<N}. \<forall>bn \<le> 140. adr D' m' j bn = (if j = i \<and> bn = sl \<and> adr D m i sl = 0 then of_nat fb else adr D m j bn)) \<and>
     (\<forall>j \<in> {1..<N}. \<forall>k < 71680. byte_at D' m' j k = byte_at D m j k) \<and> (\<forall>j. j \<noteq> i \<longrightarrow> D' j = D j) \<and>
     (\<exists>as. D' i = (D i)\<lparr>iaddrs := as\<rparr>) \<and> (\<forall>b < 59. m' ! b = m ! b)"

lemma alloc_step_refl: "lay D N m fb \<Longrightarrow> adr D m i sl \<noteq> 0 \<Longrightarrow> alloc_step N i sl D m fb D m fb"
  by (auto simp: alloc_step_def intro!: exI[of _ "iaddrs (D i)"])

lemma unat_of_nat_small: "n < 4294967296 \<Longrightarrow> unat (of_nat n :: u32) = n"
  by (simp add: unat_of_nat)

lemma block_index: "k < 71680 \<Longrightarrow> k div BSIZE < 140"
  by (simp add: BSIZE_def)

lemma alloc_stepI:
  assumes lay: "lay D N m fb" and fb: "fb < 1000" and i: "i \<in> {1..<N}" and sl: "sl \<le> 140" "adr D m i sl = 0"
    and m': "length m' = 1000" "\<And>b. b < 1000 \<Longrightarrow> length (m' ! b) = BSIZE" "\<And>b. b < 59 \<or> fb \<le> b \<Longrightarrow> m' ! b = m ! b"
    and dat: "\<And>j bn. j \<in> {1..<N} \<Longrightarrow> bn < 140 \<Longrightarrow> adr D m j bn \<noteq> 0 \<Longrightarrow> m' ! unat (adr D m j bn) = m ! unat (adr D m j bn)"
    and D': "\<And>j. j \<noteq> i \<Longrightarrow> D' j = D j" "D' i = (D i)\<lparr>iaddrs := as\<rparr>" "length as = 13"
    and a: "\<And>j bn. j \<in> {1..<N} \<Longrightarrow> bn \<le> 140 \<Longrightarrow> adr D' m' j bn = (if j = i \<and> bn = sl then of_nat fb else adr D m j bn)"
  shows "alloc_step N i sl D m fb D' m' (fb + 1)"
proof -
  note L = layD[OF lay]
  have u: "unat (of_nat fb :: u32) = fb" using fb by (simp add: unat_of_nat_small)
  have new: "adr D m j bn \<noteq> of_nat fb" if "j \<in> {1..<N}" "bn \<le> 140" for j bn
  proof
    assume e: "adr D m j bn = of_nat fb"
    then have "unat (adr D m j bn) = fb" by (simp add: u)
    moreover have "adr D m j bn \<noteq> 0" using e u L(3) by (metis unat_0 not_numeral_le_zero)
    ultimately show False using L(7)[OF that] by simp
  qed
  have b: "byte_at D' m' j k = byte_at D m j k" if "j \<in> {1..<N}" "k < 71680" for j k
  proof (cases "j = i \<and> k div BSIZE = sl")
    case True
    have "m' ! fb ! (k mod BSIZE) = 0" using m'(3)[of fb] L(9)[of fb] fb by (simp add: zeroes_def BSIZE_def)
    then show ?thesis using True a[OF that(1), of sl] sl u by (simp add: byte_at_def Let_def)
  next
    case False
    then show ?thesis using a[OF that(1), of "k div BSIZE"] dat[OF that(1), of "k div BSIZE"] block_index[OF that(2)] by (auto simp: byte_at_def Let_def)
  qed
  have ln: "length (iaddrs (D' j)) = 13" if "j \<in> {1..<N}" for j using that D' L(5) by (cases "j = i") auto
  have rng: "59 \<le> unat (adr D' m' j bn) \<and> unat (adr D' m' j bn) < fb + 1" if "j \<in> {1..<N}" "bn \<le> 140" "adr D' m' j bn \<noteq> 0" for j bn
    using that a[OF that(1,2)] L(3) L(6,7)[OF that(1,2)] u by (auto simp: less_Suc_eq split: if_splits)
  have inj: "j = j' \<and> bn = bm" if "j \<in> {1..<N}" "j' \<in> {1..<N}" "bn \<le> 140" "bm \<le> 140" "adr D' m' j bn \<noteq> 0" "adr D' m' j bn = adr D' m' j' bm" for j j' bn bm
  proof -
    consider "j = i" "bn = sl" "j' = i" "bm = sl" | "j = i" "bn = sl" "\<not> (j' = i \<and> bm = sl)" | "\<not> (j = i \<and> bn = sl)" "j' = i" "bm = sl"
      | "\<not> (j = i \<and> bn = sl)" "\<not> (j' = i \<and> bm = sl)" by blast
    then show ?thesis
    proof cases
      case 2
      then show ?thesis using that(6) a[OF that(1,3)] a[OF that(2,4)] new[OF that(2,4)] by (auto split: if_splits)
    next
      case 3
      then show ?thesis using that(6) a[OF that(1,3)] a[OF that(2,4)] new[OF that(1,3)] by (auto split: if_splits)
    next
      case 4
      then have "adr D m j bn \<noteq> 0" "adr D m j bn = adr D m j' bm" using that(5,6) a[OF that(1,3)] a[OF that(2,4)] by (auto split: if_splits)
      then show ?thesis by (rule L(8)[OF that(1-4)])
    qed simp
  qed
  have zero: "m' ! b = zeroes" if "fb + 1 \<le> b" "b < 1000" for b using that m'(3)[of b] L(9)[of b] by simp
  have "lay D' N m' (fb + 1)" unfolding lay_def using m'(1,2) L(3) fb ln rng inj zero by (simp add: Ball_def)
  then show ?thesis unfolding alloc_step_def using a b D' sl(2) m'(3) by (auto split: if_splits)
qed

section \<open>Allocation\<close>

lemma sector_small: "unat a < 1000 \<Longrightarrow> sector a = unat a"
proof -
  assume "unat a < 1000"
  then have "unat (a * of_nat BSIZE) = unat a * 512" by (simp add: BSIZE_def unat_word_ariths)
  then show ?thesis by (simp add: sector_def BSIZE_def)
qed

lemma rsect_small: "unat a < 1000 \<Longrightarrow> length (image s) = 1000 \<Longrightarrow> rsect a s = Inr (image s ! unat a)"
  by (simp add: rsect_def sector_small Let_def)

lemma wsect_small: "unat a < 1000 \<Longrightarrow> length (image s) = 1000 \<Longrightarrow> wsect a d s = s\<lparr>image := (image s)[unat a := d]\<rparr>"
  by (simp add: wsect_def sector_small Let_def)

lemma slot_block_step:
  assumes lay: "lay D N (image s) (unat (freeblock s))" and i: "i \<in> {1..<N}" and k: "k \<le> 12" and sl: "sl = (if k < 12 then k else 140)"
    and room: "adr D (image s) i sl = 0 \<Longrightarrow> unat (freeblock s) < 1000"
  shows "\<exists>ip1 s1. slot_block k (D i) s = (ip1, s1) \<and> alloc_step N i sl D (image s) (unat (freeblock s)) (D(i := ip1)) (image s1) (unat (freeblock s1)) \<and>
     s1 = s\<lparr>freeblock := freeblock s1\<rparr> \<and> image s1 = image s \<and> iaddrs ip1 ! k \<noteq> 0"
proof -
  note L = layD[OF lay]
  have a: "adr D (image s) i sl = iaddrs (D i) ! k" using k by (auto simp: sl adr_def)
  show ?thesis
  proof (cases "iaddrs (D i) ! k = 0")
    case False
    then show ?thesis using alloc_step_refl[OF lay] a by (auto simp: slot_block_def intro!: exI[of _ "D i"] exI[of _ s])
  next
    case True
    define as where "as = (iaddrs (D i))[k := freeblock s]"
    have fb: "unat (freeblock s) < 1000" using room a True by simp
    have nz: "freeblock s \<noteq> 0" using L(3) by auto
    have l: "length as = 13" using L(5)[OF i] by (simp add: as_def)
    have u1: "unat (freeblock s + 1) = unat (freeblock s) + 1" using fb by (simp add: unat_word_ariths)
    have z: "get_word (image s ! unat (freeblock s)) (bn - 12) = 0" if "bn < 140" for bn
      using L(9)[of "unat (freeblock s)"] fb that get_word_zero[of "bn - 12"] by (simp add: zeroes_def)
    have "alloc_step N i sl D (image s) (unat (freeblock s)) (D(i := (D i)\<lparr>iaddrs := as\<rparr>)) (image s) (unat (freeblock s) + 1)"
    proof (rule alloc_stepI[OF lay fb i, where as = as])
      fix j bn :: nat assume j: "j \<in> {1..<N}" "bn \<le> 140"
      show "adr (D(i := (D i)\<lparr>iaddrs := as\<rparr>)) (image s) j bn = (if j = i \<and> bn = sl then of_nat (unat (freeblock s)) else adr D (image s) j bn)"
        using j(2) k True z[of bn] nz L(5)[OF i] by (auto simp: adr_def as_def sl nth_list_update)
    qed (use L l k a True in \<open>auto simp: sl\<close>)
    then show ?thesis using True u1 nz L(5)[OF i] k by (auto simp: slot_block_def new_block_no_def as_def)
  qed
qed

lemma entry_block_step:
  assumes lay: "lay D N m fb" and fb: "fb < 1000" and i: "i \<in> {1..<N}" and bn: "12 \<le> fbn" "fbn < 140"
    and a: "adr D m i 140 \<noteq> 0" "adr D m i fbn = 0"
  shows "alloc_step N i fbn D m fb D (m[unat (adr D m i 140) := put_word (m ! unat (adr D m i 140)) (fbn - 12) (of_nat fb)]) (fb + 1)"
proof -
  note L = layD[OF lay]
  define x where "x = unat (adr D m i 140)"
  define d where "d = put_word (m ! x) (fbn - 12) (of_nat fb)"
  have x: "59 \<le> x" "x < fb" "x < 1000" using L(6,7)[OF i _ a(1)] fb by (simp_all add: x_def)
  have e140: "adr D m j 140 = iaddrs (D j) ! 12" for j by (simp add: adr_def)
  have ne: "unat (adr D m j b) \<noteq> x" if "j \<in> {1..<N}" "b \<le> 140" "adr D m j b \<noteq> 0" "\<not> (j = i \<and> b = 140)" for j b
    using L(8)[OF that(1) i that(2) _ that(3), of 140] that(4) by (auto simp: x_def word_unat_eq_iff)
  have g: "get_word d n = (if n = fbn - 12 then of_nat fb else get_word (m ! x) n)" for n
    unfolding d_def by (rule get_put_word) (use L(2)[OF x(3)] bn in \<open>simp add: BSIZE_def\<close>)
  have "alloc_step N i fbn D m fb D (m[x := d]) (fb + 1)"
  proof (rule alloc_stepI[OF lay fb i _ a(2), where as = "iaddrs (D i)"])
    fix j b :: nat assume j: "j \<in> {1..<N}" "b \<le> 140"
    have ix: "iaddrs (D i) ! 12 \<noteq> 0" "unat (iaddrs (D i) ! 12) = x" using a(1) by (simp_all add: x_def e140)
    show "adr D (m[x := d]) j b = (if j = i \<and> b = fbn then of_nat fb else adr D m j b)"
    proof (cases "j = i")
      case True
      then show ?thesis using bn ix g[of "b - 12"] x L(1) by (auto simp: adr_def)
    next
      case False
      then show ?thesis using ne[OF j(1), of 140] by (auto simp: adr_def e140)
    qed
  next
    fix j b assume "j \<in> {1..<N}" "b < 140" "adr D m j b \<noteq> 0"
    then show "m[x := d] ! unat (adr D m j b) = m ! unat (adr D m j b)" using ne[of j b] by auto
  next
    fix b :: nat assume "b < 1000"
    then show "length (m[x := d] ! b) = BSIZE" using L(1,2) x by (cases "b = x") (simp_all add: d_def)
  qed (use L(1) L(5)[OF i] x bn in auto)
  then show ?thesis by (simp add: x_def d_def)
qed

section \<open>Appending\<close>

text \<open>Inode \<open>i\<close> holds the bytes \<open>xs\<close>, with zeros behind them, in exactly the blocks it needs.\<close>

definition file_holds :: "(nat \<Rightarrow> inode) \<Rightarrow> block list \<Rightarrow> nat \<Rightarrow> u8 list \<Rightarrow> bool" where
  "file_holds D m i xs \<longleftrightarrow> length xs \<le> 71680 \<and> (\<forall>k < 71680. byte_at D m i k = (if k < length xs then xs ! k else 0)) \<and>
     (\<forall>bn < 140. adr D m i bn \<noteq> 0 \<longleftrightarrow> bn * 512 < length xs) \<and> (adr D m i 140 \<noteq> 0 \<longleftrightarrow> 6144 < length xs)"

definition nblk :: "nat \<Rightarrow> nat" where
  "nblk n = (n + 511) div 512 + (if 6144 < n then 1 else 0)"

text \<open>What work on inode \<open>i\<close> leaves alone.\<close>

definition others :: "nat \<Rightarrow> nat \<Rightarrow> (nat \<Rightarrow> inode) \<Rightarrow> block list \<Rightarrow> (nat \<Rightarrow> inode) \<Rightarrow> block list \<Rightarrow> bool" where
  "others N i D m D' m' \<longleftrightarrow> (\<forall>j \<in> {1..<N}. j \<noteq> i \<longrightarrow> (\<forall>bn \<le> 140. adr D' m' j bn = adr D m j bn) \<and> (\<forall>k < 71680. byte_at D' m' j k = byte_at D m j k)) \<and>
     (\<forall>j. j \<noteq> i \<longrightarrow> D' j = D j) \<and> (\<exists>as. D' i = (D i)\<lparr>iaddrs := as\<rparr>) \<and> (\<forall>b < 59. m' ! b = m ! b)"

lemma others_refl: "others N i D m D m"
  by (auto simp: others_def intro!: exI[of _ "iaddrs (D i)"])

lemma others_trans:
  assumes "others N i D m D' m'" "others N i D' m' D'' m''"
  shows "others N i D m D'' m''"
proof -
  obtain as as' where "D' i = (D i)\<lparr>iaddrs := as\<rparr>" "D'' i = (D' i)\<lparr>iaddrs := as'\<rparr>" using assms by (auto simp: others_def)
  then have "\<exists>as. D'' i = (D i)\<lparr>iaddrs := as\<rparr>" by auto
  then show ?thesis using assms unfolding others_def by simp
qed

lemma others_alloc: "alloc_step N i sl D m fb D' m' fb' \<Longrightarrow> others N i D m D' m'"
  by (auto simp: alloc_step_def others_def)

lemma others_holds: "others N i D m D' m' \<Longrightarrow> j \<in> {1..<N} \<Longrightarrow> j \<noteq> i \<Longrightarrow> file_holds D' m' j xs = file_holds D m j xs"
  by (auto simp: others_def file_holds_def)

lemma alloc_stepD:
  assumes "alloc_step N i sl D m fb D' m' fb'"
  shows "lay D' N m' fb'" "fb' = fb + (if adr D m i sl = 0 then 1 else 0)"
    "j \<in> {1..<N} \<Longrightarrow> b \<le> 140 \<Longrightarrow> adr D' m' j b = (if j = i \<and> b = sl \<and> adr D m i sl = 0 then of_nat fb else adr D m j b)"
    "j \<in> {1..<N} \<Longrightarrow> k < 71680 \<Longrightarrow> byte_at D' m' j k = byte_at D m j k"
  using assms unfolding alloc_step_def by blast+

lemma nblk_step:
  assumes "0 < n" "n \<le> 512 - l mod 512"
  shows "nblk (l + n) = nblk l + (if l mod 512 = 0 then 1 else 0) + (if l = 6144 then 1 else 0)"
proof -
  obtain q r where l: "l = q * 512 + r" "r < 512" "l mod 512 = r" by (metis div_mult_mod_eq mod_less_divisor zero_less_numeral)
  obtain t where t: "r + n = Suc t" "t < 512" using assms l by (cases "r + n") auto
  have "l + n + 511 = (q + 1) * 512 + t" using l t by simp
  then have a: "(l + n + 511) div 512 = q + 1" using t(2) by simp
  have b: "(l + 511) div 512 = (if r = 0 then q else q + 1)"
  proof (cases r)
    case 0
    then show ?thesis using l by simp
  next
    case (Suc c)
    then have "l + 511 = (q + 1) * 512 + c" "c < 512" using l by simp_all
    then show ?thesis using Suc by simp
  qed
  have c: "6144 < l + n \<longleftrightarrow> 6144 < l \<or> l = 6144"
  proof (cases "12 \<le> q")
    case False
    then have "q \<le> 11" by simp
    then show ?thesis using l(1,2) t by linarith
  qed (use l assms(1) in linarith)
  have d: "l = 6144 \<Longrightarrow> r = 0" using l(3) by simp
  show ?thesis unfolding nblk_def a b c l(3) by auto
qed

text \<open>What \<open>append_block\<close> does: it makes sure that file block \<open>fbn\<close> has a block.\<close>

definition app_step :: "nat \<Rightarrow> nat \<Rightarrow> nat \<Rightarrow> (nat \<Rightarrow> inode) \<Rightarrow> mkst \<Rightarrow> u32 \<Rightarrow> inode \<Rightarrow> mkst \<Rightarrow> bool" where
  "app_step N i fbn D s x ip1 s1 \<longleftrightarrow> lay (D(i := ip1)) N (image s1) (unat (freeblock s1)) \<and>
     s1 = s\<lparr>image := image s1, freeblock := freeblock s1\<rparr> \<and> x = adr (D(i := ip1)) (image s1) i fbn \<and> x \<noteq> 0 \<and>
     others N i D (image s) (D(i := ip1)) (image s1) \<and> (\<forall>k < 71680. byte_at (D(i := ip1)) (image s1) i k = byte_at D (image s) i k) \<and>
     (\<forall>b \<le> 140. adr (D(i := ip1)) (image s1) i b \<noteq> 0 \<longleftrightarrow> adr D (image s) i b \<noteq> 0 \<or> b = fbn \<or> (12 \<le> fbn \<and> b = 140)) \<and>
     unat (freeblock s1) = unat (freeblock s) + (if adr D (image s) i fbn = 0 then 1 else 0) + (if 12 \<le> fbn \<and> adr D (image s) i 140 = 0 then 1 else 0)"

lemma append_block_direct:
  assumes lay: "lay D N (image s) (unat (freeblock s))" and i: "i \<in> {1..<N}" and bn: "fbn < 12"
    and room: "adr D (image s) i fbn = 0 \<Longrightarrow> unat (freeblock s) < 1000"
  shows "\<exists>x ip1 s1. append_block fbn (D i) s = Inr (x, ip1, s1) \<and> app_step N i fbn D s x ip1 s1"
proof -
  have "\<exists>ip1 s1. slot_block fbn (D i) s = (ip1, s1) \<and> alloc_step N i fbn D (image s) (unat (freeblock s)) (D(i := ip1)) (image s1) (unat (freeblock s1)) \<and>
      s1 = s\<lparr>freeblock := freeblock s1\<rparr> \<and> image s1 = image s \<and> iaddrs ip1 ! fbn \<noteq> 0"
    by (rule slot_block_step[OF lay i]) (use bn room in auto)
  then obtain ip1 s1 where s1: "slot_block fbn (D i) s = (ip1, s1)"
    and st: "alloc_step N i fbn D (image s) (unat (freeblock s)) (D(i := ip1)) (image s1) (unat (freeblock s1))"
    and nz: "s1 = s\<lparr>freeblock := freeblock s1\<rparr>" "image s1 = image s" "iaddrs ip1 ! fbn \<noteq> 0" by blast
  have A: "append_block fbn (D i) s = Inr (iaddrs ip1 ! fbn, ip1, s1)" "iaddrs ip1 ! fbn = adr (D(i := ip1)) (image s1) i fbn"
    using bn s1 by (simp_all add: append_block_def NDIRECT_def adr_def)
  have a: "adr (D(i := ip1)) (image s1) i b \<noteq> 0 \<longleftrightarrow> adr D (image s) i b \<noteq> 0 \<or> b = fbn" if "b \<le> 140" for b
    using alloc_stepD(3)[OF st i that] nz(3) A(2) by (cases "b = fbn") simp_all
  have "s1 = s\<lparr>image := image s1, freeblock := freeblock s1\<rparr>" by (subst nz(1)) (simp add: nz(2))
  moreover have "unat (freeblock s1) = unat (freeblock s) + (if adr D (image s) i fbn = 0 then 1 else 0)" by (rule alloc_stepD(2)[OF st])
  moreover have "lay (D(i := ip1)) N (image s1) (unat (freeblock s1))" "\<forall>k < 71680. byte_at (D(i := ip1)) (image s1) i k = byte_at D (image s) i k"
    using alloc_stepD(1,4)[OF st] i by blast+
  ultimately have "app_step N i fbn D s (iaddrs ip1 ! fbn) ip1 s1"
    unfolding app_step_def using A(2) a nz(3) bn others_alloc[OF st] by simp
  then show ?thesis using A(1) by blast
qed

lemma append_block_indirect:
  assumes lay: "lay D N (image s) (unat (freeblock s))" and i: "i \<in> {1..<N}" and bn: "12 \<le> fbn" "fbn < 140"
    and room: "adr D (image s) i 140 = 0 \<Longrightarrow> unat (freeblock s) + 2 \<le> 1000" "adr D (image s) i fbn = 0 \<Longrightarrow> unat (freeblock s) < 1000"
  shows "\<exists>x ip1 s1. append_block fbn (D i) s = Inr (x, ip1, s1) \<and> app_step N i fbn D s x ip1 s1"
proof -
  have "\<exists>ip1 s1. slot_block 12 (D i) s = (ip1, s1) \<and> alloc_step N i 140 D (image s) (unat (freeblock s)) (D(i := ip1)) (image s1) (unat (freeblock s1)) \<and>
      s1 = s\<lparr>freeblock := freeblock s1\<rparr> \<and> image s1 = image s \<and> iaddrs ip1 ! 12 \<noteq> 0"
    by (rule slot_block_step[OF lay i]) (use room in auto)
  then obtain ip1 s1 where s1: "slot_block 12 (D i) s = (ip1, s1)"
    and st: "alloc_step N i 140 D (image s) (unat (freeblock s)) (D(i := ip1)) (image s1) (unat (freeblock s1))"
    and nz: "s1 = s\<lparr>freeblock := freeblock s1\<rparr>" "image s1 = image s" "iaddrs ip1 ! 12 \<noteq> 0" by blast
  define D1 where "D1 = D(i := ip1)"
  define m1 where "m1 = image s1"
  define a where "a = iaddrs ip1 ! 12"
  note st = st[folded D1_def m1_def]
  note L1 = layD[OF alloc_stepD(1)[OF st]]
  have a: "a = adr D1 m1 i 140" "a \<noteq> 0" "D1 i = ip1" using nz(3) by (simp_all add: a_def D1_def adr_def)
  have ua: "unat a < 1000" using L1(7)[OF i, of 140] L1(4) a by simp
  have w: "get_word (m1 ! unat a) (fbn - 12) = adr D1 m1 i fbn" using bn a by (simp add: adr_def a_def)
  have e: "adr D1 m1 i fbn = adr D (image s) i fbn" using alloc_stepD(3)[OF st i, of fbn] bn by simp
  have z: "adr D (image s) i 140 = 0 \<Longrightarrow> adr D (image s) i fbn = 0" using bn by (simp add: adr_def)
  have A: "append_block fbn (D i) s = (if adr D1 m1 i fbn = 0
       then Inr (xint (get_word (put_word (m1 ! unat a) (fbn - 12) (freeblock s1)) (fbn - 12)), ip1,
         wsect a (put_word (m1 ! unat a) (fbn - 12) (freeblock s1)) (s1\<lparr>freeblock := freeblock s1 + 1\<rparr>))
       else Inr (adr D1 m1 i fbn, ip1, s1))"
    using bn s1 rsect_small[OF ua, of s1] L1(1) w by (simp add: append_block_def NDIRECT_def new_block_no_def Let_def m1_def[symmetric] a_def[symmetric])
  show ?thesis
  proof (cases "adr D1 m1 i fbn = 0")
    case False
    then have "adr D (image s) i 140 \<noteq> 0" using e z by auto
    then have eq: "adr D1 m1 i b = adr D (image s) i b" if "b \<le> 140" for b using alloc_stepD(3)[OF st i that] by simp
    have "s1 = s\<lparr>image := m1, freeblock := freeblock s1\<rparr>" by (subst nz(1)) (simp add: nz(2) m1_def)
    moreover have "unat (freeblock s1) = unat (freeblock s)" using alloc_stepD(2)[OF st] \<open>adr D (image s) i 140 \<noteq> 0\<close> by simp
    ultimately have "app_step N i fbn D s (adr D1 m1 i fbn) ip1 s1"
      unfolding app_step_def D1_def[symmetric] m1_def[symmetric] using False eq e alloc_stepD(1,4)[OF st] others_alloc[OF st] i \<open>adr D (image s) i 140 \<noteq> 0\<close>
      by (auto simp: eq)
    then show ?thesis using A False by simp
  next
    case True
    define d where "d = put_word (m1 ! unat a) (fbn - 12) (freeblock s1)"
    define m2 where "m2 = m1[unat a := d]"
    have fb: "unat (freeblock s1) < 1000" using alloc_stepD(2)[OF st] room True e by (auto split: if_splits)
    then have u: "unat (freeblock s1 + 1) = unat (freeblock s1) + 1" by (simp add: unat_word_ariths)
    have st2: "alloc_step N i fbn D1 m1 (unat (freeblock s1)) D1 m2 (unat (freeblock s1) + 1)"
      using entry_block_step[OF alloc_stepD(1)[OF st] fb i bn] a True by (simp add: m2_def d_def)
    have W: "wsect a d (s1\<lparr>freeblock := freeblock s1 + 1\<rparr>) = s1\<lparr>freeblock := freeblock s1 + 1, image := m2\<rparr>"
      using wsect_small[OF ua] L1(1) by (simp add: m2_def m1_def)
    have x: "get_word d (fbn - 12) = freeblock s1" using get_put_word[of "fbn - 12" "m1 ! unat a"] L1(2)[OF ua] bn by (simp add: d_def BSIZE_def)
    have x2: "freeblock s1 = adr D1 m2 i fbn" "freeblock s1 \<noteq> 0" using alloc_stepD(3)[OF st2 i, of fbn] True bn L1(3) by auto
    have s2: "s1\<lparr>freeblock := freeblock s1 + 1, image := m2\<rparr> = s\<lparr>image := m2, freeblock := freeblock s1 + 1\<rparr>" by (subst nz(1)) simp
    have "adr D1 m2 i b \<noteq> 0 \<longleftrightarrow> adr D (image s) i b \<noteq> 0 \<or> b = fbn \<or> b = 140" if "b \<le> 140" for b
      using alloc_stepD(3)[OF st2 i that] alloc_stepD(3)[OF st i that] True x2 a by (cases "b = fbn"; cases "b = 140") auto
    then have "app_step N i fbn D s (freeblock s1) ip1 (s\<lparr>image := m2, freeblock := freeblock s1 + 1\<rparr>)"
      unfolding app_step_def D1_def[symmetric] using x2 u e True bn alloc_stepD(1,4)[OF st2] alloc_stepD(2,4)[OF st] others_trans[OF others_alloc[OF st] others_alloc[OF st2]] i
      by auto
    then show ?thesis using A True W x s2 by (simp add: d_def)
  qed
qed

lemma app_stepD:
  assumes "app_step N i fbn D s x ip1 s1"
  shows "lay (D(i := ip1)) N (image s1) (unat (freeblock s1))" "s1 = s\<lparr>image := image s1, freeblock := freeblock s1\<rparr>"
    "x = adr (D(i := ip1)) (image s1) i fbn" "x \<noteq> 0" "others N i D (image s) (D(i := ip1)) (image s1)"
    "k < 71680 \<Longrightarrow> byte_at (D(i := ip1)) (image s1) i k = byte_at D (image s) i k"
    "b \<le> 140 \<Longrightarrow> adr (D(i := ip1)) (image s1) i b \<noteq> 0 \<longleftrightarrow> adr D (image s) i b \<noteq> 0 \<or> b = fbn \<or> (12 \<le> fbn \<and> b = 140)"
    "unat (freeblock s1) = unat (freeblock s) + (if adr D (image s) i fbn = 0 then 1 else 0) + (if 12 \<le> fbn \<and> adr D (image s) i 140 = 0 then 1 else 0)"
  using assms unfolding app_step_def by blast+

lemma write_step:
  assumes lay: "lay D N m fb" and i: "i \<in> {1..<N}" and bn: "fbn < 140" and x: "x = adr D m i fbn" "x \<noteq> 0" and d: "length d = BSIZE"
  shows "lay D N (m[unat x := d]) fb" "others N i D m D (m[unat x := d])"
    "j \<in> {1..<N} \<Longrightarrow> b \<le> 140 \<Longrightarrow> adr D (m[unat x := d]) j b = adr D m j b"
    "k < 71680 \<Longrightarrow> byte_at D (m[unat x := d]) i k = (if k div BSIZE = fbn then d ! (k mod BSIZE) else byte_at D m i k)"
proof -
  note L = layD[OF lay]
  define m' where "m' = m[unat x := d]"
  have ux: "59 \<le> unat x" "unat x < fb" using L(6,7)[OF i, of fbn] bn x by simp_all
  have ne: "unat (adr D m j b) \<noteq> unat x" if "j \<in> {1..<N}" "b \<le> 140" "\<not> (j = i \<and> b = fbn)" for j b
    using L(8)[OF i that(1) _ that(2), of fbn] that(3) x bn by (auto simp: word_unat_eq_iff)
  have a: "adr D m' j b = adr D m j b" if "j \<in> {1..<N}" "b \<le> 140" for j b
    using ne[OF that(1), of 140] bn by (auto simp: adr_def m'_def)
  then show "j \<in> {1..<N} \<Longrightarrow> b \<le> 140 \<Longrightarrow> adr D (m[unat x := d]) j b = adr D m j b" by (simp add: m'_def)
  have bt: "byte_at D m' j k = (if j = i \<and> k div BSIZE = fbn then d ! (k mod BSIZE) else byte_at D m j k)" if "j \<in> {1..<N}" "k < 71680" for j k
    using a[OF that(1), of "k div BSIZE"] ne[OF that(1), of "k div BSIZE"] block_index[OF that(2)] x ux L(1,4) by (auto simp: byte_at_def Let_def m'_def)
  show "k < 71680 \<Longrightarrow> byte_at D (m[unat x := d]) i k = (if k div BSIZE = fbn then d ! (k mod BSIZE) else byte_at D m i k)"
    using bt[OF i, of k] by (simp add: m'_def)
  have "others N i D m D m'" unfolding others_def using a bt ux by (auto simp: m'_def intro!: exI[of _ "iaddrs (D i)"])
  then show "others N i D m D (m[unat x := d])" by (simp add: m'_def)
  have "length (m' ! b) = BSIZE" if "b < 1000" for b using L(1) L(2)[OF that] d that by (cases "b = unat x") (simp_all add: m'_def)
  moreover have "m' ! b = zeroes" if "fb \<le> b" "b < 1000" for b using L(9)[OF that] ux that by (simp add: m'_def)
  ultimately have "lay D N m' fb" using lay a unfolding lay_def by (simp add: m'_def)
  then show "lay D N (m[unat x := d]) fb" by (simp add: m'_def)
qed

text \<open>One round of the loop appends up to the end of the current block.\<close>

lemma holdsD:
  assumes "file_holds D m i xs" "length xs < 71680"
  shows "adr D m i (length xs div 512) = 0 \<longleftrightarrow> length xs mod 512 = 0" "adr D m i 140 = 0 \<longleftrightarrow> length xs \<le> 6144"
    "b < 140 \<Longrightarrow> adr D m i b \<noteq> 0 \<longleftrightarrow> b * 512 < length xs" "k < 71680 \<Longrightarrow> byte_at D m i k = (if k < length xs then xs ! k else 0)"
    "length xs div 512 < 140" "12 \<le> length xs div 512 \<and> length xs \<le> 6144 \<longleftrightarrow> length xs = 6144"
proof -
  show bn: "length xs div 512 < 140" using assms(2) by simp
  have "length xs div 512 * 512 < length xs \<longleftrightarrow> length xs mod 512 \<noteq> 0" using div_mult_mod_eq[of "length xs" 512] by linarith
  then show "adr D m i (length xs div 512) = 0 \<longleftrightarrow> length xs mod 512 = 0" using assms(1) bn by (auto simp: file_holds_def)
  show "12 \<le> length xs div 512 \<and> length xs \<le> 6144 \<longleftrightarrow> length xs = 6144" by auto
qed (use assms(1) in \<open>auto simp: file_holds_def\<close>)

lemma append_block_step:
  assumes lay: "lay D N (image s) (unat (freeblock s))" and i: "i \<in> {1..<N}" and h: "file_holds D (image s) i xs"
    and n: "0 < n" "n \<le> 512 - length xs mod 512" "length xs < 71680"
    and room: "unat (freeblock s) + nblk (length xs + n) \<le> 1000 + nblk (length xs)"
  shows "\<exists>x ip1 s1. append_block (length xs div 512) (D i) s = Inr (x, ip1, s1) \<and> app_step N i (length xs div 512) D s x ip1 s1 \<and>
    unat (freeblock s1) + nblk (length xs) = unat (freeblock s) + nblk (length xs + n)"
proof -
  define fbn where "fbn = length xs div 512"
  note H = holdsD[OF h n(3), folded fbn_def] and e = nblk_step[OF n(1,2)]
  have "\<exists>x ip1 s1. append_block fbn (D i) s = Inr (x, ip1, s1) \<and> app_step N i fbn D s x ip1 s1"
  proof (cases "fbn < 12")
    case True
    then show ?thesis using room e H(1) by (intro append_block_direct[OF lay i]) (auto split: if_splits)
  next
    case False
    then show ?thesis using room e H(1,2,5,6) by (intro append_block_indirect[OF lay i]) (auto split: if_splits)
  qed
  then obtain x ip1 s1 where A: "append_block fbn (D i) s = Inr (x, ip1, s1)" and st: "app_step N i fbn D s x ip1 s1" by blast
  then have "unat (freeblock s1) + nblk (length xs) = unat (freeblock s) + nblk (length xs + n)" using app_stepD(8)[OF st] e H(1,2,6) by auto
  then show ?thesis using A st unfolding fbn_def by blast
qed

lemma splice_nth:
  assumes "length d = 512" "length q = n" "n \<le> 512 - l mod 512" "k div 512 = l div 512"
  shows "(take (l mod 512) d @ q @ drop (l mod 512 + n) d) ! (k mod 512) = (if l \<le> k \<and> k < l + n then q ! (k - l) else d ! (k mod 512))"
proof -
  define a b c where "a = k mod 512" and "b = l mod 512" and "c = l div 512 * 512"
  have "k = c + a" "l = c + b" using assms(4) div_mult_mod_eq[of k 512] div_mult_mod_eq[of l 512] by (simp_all add: a_def b_def c_def)
  moreover have "a < 512" "b < 512" by (simp_all add: a_def b_def)
  ultimately show ?thesis using assms(1-3) unfolding a_def[symmetric] b_def[symmetric] by (auto simp: nth_append min_def)
qed

lemma same_block:
  fixes l k n :: nat
  assumes "l \<le> k" "k < l + n" "n \<le> 512 - l mod 512"
  shows "k div 512 = l div 512"
proof -
  define q r where "q = l div 512" and "r = l mod 512"
  have "l = q * 512 + r" using div_mult_mod_eq[of l 512] by (simp add: q_def r_def)
  then have "512 * q \<le> k" "k < 512 * Suc q" using assms unfolding r_def[symmetric] by simp_all
  then show ?thesis unfolding q_def[symmetric] by (rule div_nat_eqI)
qed

lemma starts_before:
  fixes l b n :: nat
  assumes "0 < n" "n \<le> 512 - l mod 512"
  shows "b * 512 < l \<or> b = l div 512 \<longleftrightarrow> b * 512 < l + n"
proof -
  define q r where "q = l div 512" and "r = l mod 512"
  have l: "l = q * 512 + r" "r < 512" using div_mult_mod_eq[of l 512] by (simp_all add: q_def r_def)
  consider "b \<le> q" | "q + 1 \<le> b" by linarith
  then have "b * 512 < l \<or> b = q \<longleftrightarrow> b * 512 < l + n"
  proof cases
    case 2
    then have "(q + 1) * 512 \<le> b * 512" by (rule mult_le_mono1)
    then show ?thesis using 2 l assms unfolding r_def[symmetric] by auto
  qed (use l assms(1) in auto)
  then show ?thesis by (simp add: q_def)
qed

lemma append_holds:
  assumes h: "file_holds D m i xs" and n: "0 < n" "n \<le> 512 - length xs mod 512" "length q = n" "length xs < 71680" and d: "length d = 512"
    and a: "\<And>b. b \<le> 140 \<Longrightarrow> adr D' m' i b \<noteq> 0 \<longleftrightarrow> adr D m i b \<noteq> 0 \<or> b = length xs div 512 \<or> (12 \<le> length xs div 512 \<and> b = 140)"
    and b: "\<And>k. k < 71680 \<Longrightarrow> byte_at D' m' i k = (if k div BSIZE = length xs div 512
       then (take (length xs mod 512) d @ q @ drop (length xs mod 512 + n) d) ! (k mod BSIZE) else byte_at D m i k)"
    and dk: "\<And>k. k < 71680 \<Longrightarrow> k div 512 = length xs div 512 \<Longrightarrow> d ! (k mod 512) = byte_at D m i k"
  shows "file_holds D' m' i (xs @ q)"
proof -
  define l where "l = length xs"
  note H = holdsD[OF h n(4), folded l_def]
  have dm: "l = l div 512 * 512 + l mod 512" "l mod 512 < 512" by simp_all
  have "byte_at D' m' i k = (if k < l + n then (xs @ q) ! k else 0)" if k: "k < 71680" for k
  proof (cases "k div 512 = l div 512")
    case True
    then show ?thesis using b[OF k] dk[OF k] H(4)[OF k] splice_nth[OF d n(3) n(2)[folded l_def]] by (auto simp: BSIZE_def nth_append l_def)
  next
    case False
    then have "\<not> (l \<le> k \<and> k < l + n)" using same_block[of l k n] n(2) by (auto simp: l_def)
    then show ?thesis using False b[OF k] H(4)[OF k] by (auto simp: BSIZE_def nth_append l_def)
  qed
  moreover have "adr D' m' i b \<noteq> 0 \<longleftrightarrow> b * 512 < l + n" if "b < 140" for b
  proof -
    have "adr D' m' i b \<noteq> 0 \<longleftrightarrow> b * 512 < l \<or> b = l div 512" using a[of b] H(3)[OF that] that by (simp add: l_def)
    also have "\<dots> \<longleftrightarrow> b * 512 < l + n" by (rule starts_before[OF n(1) n(2)[folded l_def]])
    finally show ?thesis .
  qed
  moreover have "adr D' m' i 140 \<noteq> 0 \<longleftrightarrow> 6144 < l + n"
  proof -
    have "12 \<le> l div 512 \<longleftrightarrow> 6144 < l \<or> l div 512 = 12" by auto
    then show ?thesis using a[of 140] H(2) starts_before[OF n(1) n(2)[folded l_def], of 12] by (auto simp: l_def[symmetric])
  qed
  moreover have "l + n \<le> 71680" using dm n(2)[folded l_def] H(5) by linarith
  ultimately show ?thesis unfolding file_holds_def using n(3) by (simp add: l_def)
qed

lemma append_round:
  assumes lay: "lay D N (image s) (unat (freeblock s))" and i: "i \<in> {1..<N}" and h: "file_holds D (image s) i xs"
    and n: "0 < n" "n \<le> 512 - length xs mod 512" "length q = n" "length xs < 71680"
    and room: "unat (freeblock s) + nblk (length xs + n) \<le> 1000 + nblk (length xs)"
  shows "\<exists>x ip1 s1 d. append_block (length xs div 512) (D i) s = Inr (x, ip1, s1) \<and> rsect x s1 = Inr d \<and>
     (let s2 = wsect x (take (length xs mod 512) d @ q @ drop (length xs mod 512 + n) d) s1 in
       lay (D(i := ip1)) N (image s2) (unat (freeblock s2)) \<and> s2 = s\<lparr>image := image s2, freeblock := freeblock s2\<rparr> \<and>
       others N i D (image s) (D(i := ip1)) (image s2) \<and> file_holds (D(i := ip1)) (image s2) i (xs @ q) \<and>
       unat (freeblock s2) + nblk (length xs) = unat (freeblock s) + nblk (length xs + n))"
proof -
  define l fbn where "l = length xs" and "fbn = l div 512"
  obtain x ip1 s1 where A: "append_block fbn (D i) s = Inr (x, ip1, s1)" and st: "app_step N i fbn D s x ip1 s1"
    and fb: "unat (freeblock s1) + nblk l = unat (freeblock s) + nblk (l + n)"
    using append_block_step[OF lay i h n(1,2,4) room] unfolding fbn_def l_def by blast
  note S = app_stepD[OF st] and L1 = layD[OF app_stepD(1)[OF st]]
  have bn: "fbn < 140" using n(4) by (simp add: fbn_def l_def)
  have ux: "unat x < 1000" using L1(4) L1(7)[OF i, of fbn] S(3,4) bn by simp
  define d where "d = image s1 ! unat x"
  define d1 where "d1 = take (l mod 512) d @ q @ drop (l mod 512 + n) d"
  define s2 where "s2 = wsect x d1 s1"
  have r: "rsect x s1 = Inr d" using rsect_small[OF ux L1(1)] by (simp add: d_def)
  have ld: "length d = 512" "length d1 = BSIZE" using L1(2)[OF ux] n by (simp_all add: d_def d1_def BSIZE_def l_def)
  have s2: "image s2 = (image s1)[unat x := d1]" "freeblock s2 = freeblock s1" "s2 = s\<lparr>image := image s2, freeblock := freeblock s2\<rparr>"
    using wsect_small[OF ux L1(1)] by (simp_all add: s2_def) (subst S(2), simp)
  note W = write_step[OF S(1) i bn S(3,4) ld(2), folded s2(1)]
  have "file_holds (D(i := ip1)) (image s2) i (xs @ q)"
  proof (rule append_holds[OF h n ld(1)])
    fix b :: nat assume "b \<le> 140"
    then show "adr (D(i := ip1)) (image s2) i b \<noteq> 0 \<longleftrightarrow> adr D (image s) i b \<noteq> 0 \<or> b = length xs div 512 \<or> (12 \<le> length xs div 512 \<and> b = 140)"
      using W(3)[OF i] S(7)[of b] by (simp add: fbn_def l_def)
  next
    fix k :: nat assume k: "k < 71680"
    show "byte_at (D(i := ip1)) (image s2) i k = (if k div BSIZE = length xs div 512
       then (take (length xs mod 512) d @ q @ drop (length xs mod 512 + n) d) ! (k mod BSIZE) else byte_at D (image s) i k)"
      using W(4)[OF k] S(6)[OF k] by (simp add: fbn_def l_def d1_def)
    assume "k div 512 = length xs div 512"
    then show "d ! (k mod 512) = byte_at D (image s) i k"
      using S(3,4) S(6)[OF k] by (simp add: byte_at_def Let_def BSIZE_def d_def fbn_def l_def)
  qed
  then show ?thesis using A r W(1) s2(2,3) others_trans[OF S(5) W(2)] fb
    unfolding fbn_def l_def by (intro exI[of _ x] exI[of _ ip1] exI[of _ s1] exI[of _ d]) (simp add: Let_def s2_def d1_def l_def)
qed

lemma nblk_mono: "a \<le> b \<Longrightarrow> nblk a \<le> nblk b"
  by (simp add: nblk_def div_le_mono add_mono)

lemma rest_of_block:
  fixes l :: nat
  shows "(l div 512 + 1) * 512 - l = 512 - l mod 512" "l - l div 512 * 512 = l mod 512"
proof -
  define q r where "q = l div 512" and "r = l mod 512"
  have "l = q * 512 + r" using div_mult_mod_eq[of l 512] by (simp add: q_def r_def)
  then have "(q + 1) * 512 - l = 512 - r" "l - q * 512 = r" by simp_all
  then show "(l div 512 + 1) * 512 - l = 512 - l mod 512" "l - l div 512 * 512 = l mod 512" by (simp_all add: q_def r_def)
qed

lemma iappend_loop_ok:
  "lay D N (image s) (unat (freeblock s)) \<Longrightarrow> i \<in> {1..<N} \<Longrightarrow> file_holds D (image s) i xs \<Longrightarrow> unat off = length xs \<Longrightarrow>
   length xs + length p \<le> 71680 \<Longrightarrow> unat (freeblock s) + nblk (length xs + length p) \<le> 1000 + nblk (length xs) \<Longrightarrow>
   \<exists>ip1 s1. iappend_loop p off (D i) s = Inr (of_nat (length (xs @ p)), ip1, s1) \<and> lay (D(i := ip1)) N (image s1) (unat (freeblock s1)) \<and>
     s1 = s\<lparr>image := image s1, freeblock := freeblock s1\<rparr> \<and> others N i D (image s) (D(i := ip1)) (image s1) \<and>
     file_holds (D(i := ip1)) (image s1) i (xs @ p) \<and> unat (freeblock s1) + nblk (length xs) = unat (freeblock s) + nblk (length xs + length p)"
proof (induction "length p" arbitrary: p xs off D s rule: less_induct)
  case less
  show ?case
  proof (cases "p = []")
    case True
    have "off = of_nat (length xs)" by (simp flip: less.prems(4))
    then show ?thesis using True less.prems others_refl by (intro exI[of _ "D i"] exI[of _ s]) (simp add: iappend_loop.simps)
  next
    case False
    define l n where "l = length xs" and "n = min (length p) (512 - l mod 512)"
    have n: "0 < n" "n \<le> 512 - l mod 512" "n \<le> length p" using False by (simp_all add: n_def)
    have l: "l < 71680" using less.prems(5) False by (cases p) (simp_all add: l_def)
    have room: "unat (freeblock s) + nblk (l + n) \<le> 1000 + nblk l"
      using less.prems(6) nblk_mono[of "l + n" "l + length p"] n(3) unfolding l_def by linarith
    obtain x ip1 s1 d s2 where A: "append_block (l div 512) (D i) s = Inr (x, ip1, s1)" "rsect x s1 = Inr d"
      and s2: "s2 = wsect x (take (l mod 512) d @ take n p @ drop (l mod 512 + n) d) s1"
      and B: "lay (D(i := ip1)) N (image s2) (unat (freeblock s2))" "s2 = s\<lparr>image := image s2, freeblock := freeblock s2\<rparr>"
        "others N i D (image s) (D(i := ip1)) (image s2)" "file_holds (D(i := ip1)) (image s2) i (xs @ take n p)"
        "unat (freeblock s2) + nblk l = unat (freeblock s) + nblk (l + n)"
      using append_round[OF less.prems(1-3), of n "take n p"] n l room unfolding l_def Let_def by auto
    have off: "unat (off + of_nat n) = length (xs @ take n p)" using less.prems(4,5) n(3) by (simp add: unat_word_ariths unat_of_nat)
    have q: "unat off div BSIZE = l div 512" "(l div 512 + 1) * BSIZE - unat off = 512 - l mod 512" "unat off - l div 512 * BSIZE = l mod 512" "\<not> MAXFILE \<le> l div 512"
      using less.prems(4) rest_of_block[of l] l by (simp_all add: BSIZE_def l_def MAXFILE_def)
    have step: "iappend_loop p off (D i) s = iappend_loop (drop n p) (off + of_nat n) ip1 s2"
      unfolding iappend_loop.simps[of p] by (simp only: Let_def q False A if_False bind_r_Inr prod.case n_def[symmetric] s2)
    have e: "l + n + length (drop n p) = l + length p" "length (xs @ take n p) = l + n" using n(3) by (simp_all add: l_def)
    have "\<exists>ip2 s3. iappend_loop (drop n p) (off + of_nat n) ((D(i := ip1)) i) s2 = Inr (of_nat (length ((xs @ take n p) @ drop n p)), ip2, s3) \<and>
        lay ((D(i := ip1))(i := ip2)) N (image s3) (unat (freeblock s3)) \<and> s3 = s2\<lparr>image := image s3, freeblock := freeblock s3\<rparr> \<and>
        others N i (D(i := ip1)) (image s2) ((D(i := ip1))(i := ip2)) (image s3) \<and> file_holds ((D(i := ip1))(i := ip2)) (image s3) i ((xs @ take n p) @ drop n p) \<and>
        unat (freeblock s3) + nblk (length (xs @ take n p)) = unat (freeblock s2) + nblk (length (xs @ take n p) + length (drop n p))"
      by (rule less.hyps[OF _ B(1) less.prems(2) B(4) off]) (use n False less.prems(5,6) B(5) e in \<open>simp_all add: l_def\<close>)
    then obtain ip2 s3 where C: "iappend_loop (drop n p) (off + of_nat n) ip1 s2 = Inr (of_nat (length (xs @ p)), ip2, s3)"
        "lay (D(i := ip2)) N (image s3) (unat (freeblock s3))" "s3 = s2\<lparr>image := image s3, freeblock := freeblock s3\<rparr>"
        "others N i (D(i := ip1)) (image s2) (D(i := ip2)) (image s3)" "file_holds (D(i := ip2)) (image s3) i (xs @ p)"
        "unat (freeblock s3) + nblk (l + n) = unat (freeblock s2) + nblk (l + length p)"
      unfolding e(2) e(1) by auto
    have "s3 = s\<lparr>image := image s3, freeblock := freeblock s3\<rparr>" by (subst C(3), subst B(2)) simp
    then show ?thesis using step C others_trans[OF B(3) C(4)] B(5) by (intro exI[of _ ip2] exI[of _ s3]) (simp add: l_def)
  qed
qed

section \<open>The image\<close>

lemma mkfs_layout [simp]:
  "sb_size init_sb = 1000" "sb_nblocks init_sb = 941" "sb_ninodes init_sb = 200" "sb_nlog init_sb = 30" "sb_logstart init_sb = 2"
  "sb_inodestart init_sb = 32" "sb_bmapstart init_sb = 58" "nmeta = 59"
  by (simp_all add: init_sb_def nmeta_def nlog_def ninodeblocks_def nbitmap_def NINODES_def FSSIZE_def BSIZE_def IPB_def LOGSIZE_def)

text \<open>The disk inodes of an image, and its abstract state: the contents \<open>c\<close> of the inodes below \<open>freeinode\<close>.\<close>

definition din_at :: "block list \<Rightarrow> nat \<Rightarrow> inode" where
  "din_at m i = load_dinode (i mod 8) (m ! (32 + i div 8)) din0"

definition mk_inv :: "mkst \<Rightarrow> nat \<Rightarrow> (nat \<Rightarrow> u8 list) \<Rightarrow> bool" where
  "mk_inv s N c \<longleftrightarrow> mksb s = init_sb \<and> unat (freeinode s) = N \<and> 1 \<le> N \<and> N \<le> 200 \<and>
     lay (din_at (image s)) N (image s) (unat (freeblock s)) \<and> image s ! 1 = sb_block init_sb \<and>
     (\<forall>i \<in> {1..<N}. file_holds (din_at (image s)) (image s) i (c i) \<and> isize (din_at (image s) i) = of_nat (length (c i)) \<and>
        inlink (din_at (image s) i) = 1 \<and> itype (din_at (image s) i) = (if i = 1 then T_DIR else T_FILE)) \<and>
     unat (freeblock s) = 59 + (\<Sum>i = 1..<N. nblk (length (c i)))"

lemma inode_place: "i < 200 \<Longrightarrow> unat (IBLOCK (of_nat i) init_sb) = 32 + i div 8" "i < 200 \<Longrightarrow> inode_slot (of_nat i) = i mod 8"
  by (simp_all add: IBLOCK_def IPB_def inode_slot_def unat_word_ariths unat_div unat_mod unat_of_nat)

lemma rinode_ok: "i < 200 \<Longrightarrow> mksb s = init_sb \<Longrightarrow> length (image s) = 1000 \<Longrightarrow> rinode (of_nat i) s = Inr (din_at (image s) i)"
  using rsect_small[of "IBLOCK (of_nat i) init_sb" s] by (simp add: rinode_def inode_place din_at_def)

definition clean :: "inode \<Rightarrow> bool" where
  "clean ip \<longleftrightarrow> idev ip = 0 \<and> inum ip = 0 \<and> iref ip = 0 \<and> ilk ip = None \<and> \<not> ivalid ip \<and> length (iaddrs ip) = 13"

lemma clean_din_at: "clean (din_at m i)"
  by (simp add: clean_def din_at_def load_dinode_def din0_def NDIRECT_def)

definition put_din :: "nat \<Rightarrow> inode \<Rightarrow> block list \<Rightarrow> block list" where
  "put_din i ip m = m[32 + i div 8 := store_dinode (i mod 8) ip (m ! (32 + i div 8))]"

lemma winode_ok:
  assumes "i < 200" "mksb s = init_sb" "length (image s) = 1000"
  shows "winode (of_nat i) ip s = Inr (s\<lparr>image := put_din i ip (image s)\<rparr>)"
  using assms rsect_small[of "IBLOCK (of_nat i) init_sb" s] wsect_small[of "IBLOCK (of_nat i) init_sb" s]
  by (simp add: winode_def inode_place put_din_def Let_def)

lemma din_at_put_din:
  assumes "i < 200" "length m = 1000" "\<And>b. b < 1000 \<Longrightarrow> length (m ! b) = BSIZE" "clean ip"
  shows "din_at (put_din i ip m) = (din_at m)(i := ip)"
proof
  fix j
  have l: "length (m ! (32 + i div 8)) = BSIZE" using assms(1,3) by simp
  have eq: "j = i \<longleftrightarrow> j div 8 = i div 8 \<and> j mod 8 = i mod 8" using div_mod_8_eq[of j i] by auto
  show "din_at (put_din i ip m) j = ((din_at m)(i := ip)) j"
  proof (cases "j div 8 = i div 8")
    case True
    have "put_din i ip m ! (32 + j div 8) = store_dinode (i mod 8) ip (m ! (32 + i div 8))" using True assms(1,2) by (simp add: put_din_def)
    then show ?thesis using load_store_dinode[OF l, of "i mod 8" "j mod 8" ip din0] assms(4) True eq by (auto simp: din_at_def clean_def din0_def)
  next
    case False
    then show ?thesis using eq by (auto simp: din_at_def put_din_def)
  qed
qed

text \<open>Writing a metadata block leaves the files alone.\<close>

lemma meta_write:
  assumes lay: "lay D N m fb" and b: "x < 59" "length d = BSIZE"
  shows "lay D N (m[x := d]) fb" "i \<in> {1..<N} \<Longrightarrow> bn \<le> 140 \<Longrightarrow> adr D (m[x := d]) i bn = adr D m i bn"
    "i \<in> {1..<N} \<Longrightarrow> file_holds D (m[x := d]) i xs = file_holds D m i xs"
proof -
  note L = layD[OF lay]
  have a: "adr D (m[x := d]) i bn = adr D m i bn" if "i \<in> {1..<N}" "bn \<le> 140" for i bn
    using L(6)[OF that(1), of 140] b by (auto simp: adr_def)
  then show "i \<in> {1..<N} \<Longrightarrow> bn \<le> 140 \<Longrightarrow> adr D (m[x := d]) i bn = adr D m i bn" .
  have "byte_at D (m[x := d]) i k = byte_at D m i k" if "i \<in> {1..<N}" "k < 71680" for i k
    using a[OF that(1), of "k div BSIZE"] L(6)[OF that(1), of "k div BSIZE"] block_index[OF that(2)] b by (auto simp: byte_at_def Let_def)
  then show "i \<in> {1..<N} \<Longrightarrow> file_holds D (m[x := d]) i xs = file_holds D m i xs" using a by (simp add: file_holds_def)
  have "length (m[x := d] ! y) = BSIZE" if "y < 1000" for y using that L(1,2) b by (cases "y = x") auto
  then show "lay D N (m[x := d]) fb" using lay a b unfolding lay_def by simp
qed

lemma put_din_write:
  assumes lay: "lay D N m fb" and i: "i < 200"
  shows "lay D N (put_din i ip m) fb" "put_din i ip m ! 1 = m ! 1" "j \<in> {1..<N} \<Longrightarrow> bn \<le> 140 \<Longrightarrow> adr D (put_din i ip m) j bn = adr D m j bn"
    "j \<in> {1..<N} \<Longrightarrow> file_holds D (put_din i ip m) j xs = file_holds D m j xs"
proof -
  have l: "length (store_dinode (i mod 8) ip (m ! (32 + i div 8))) = BSIZE" "32 + i div 8 < 59" using layD(2)[OF lay, of "32 + i div 8"] i by simp_all
  note W = meta_write[OF lay l(2,1), folded put_din_def]
  show "lay D N (put_din i ip m) fb" by (rule W(1))
  show "put_din i ip m ! 1 = m ! 1" by (simp add: put_din_def)
  show "j \<in> {1..<N} \<Longrightarrow> bn \<le> 140 \<Longrightarrow> adr D (put_din i ip m) j bn = adr D m j bn" by (rule W(2))
  show "j \<in> {1..<N} \<Longrightarrow> file_holds D (put_din i ip m) j xs = file_holds D m j xs" by (rule W(3))
qed

lemma adr_cong: "iaddrs (D' i) = iaddrs (D i) \<Longrightarrow> adr D' m i = adr D m i"
  by (simp add: adr_def fun_eq_iff)

lemma holds_cong: "iaddrs (D' i) = iaddrs (D i) \<Longrightarrow> file_holds D' m i xs = file_holds D m i xs"
  using adr_cong[of D' i D m] by (simp add: file_holds_def byte_at_def)

lemma lay_cong:
  assumes "\<And>i. i \<in> {1..<N} \<Longrightarrow> iaddrs (D' i) = iaddrs (D i)"
  shows "lay D' N m fb = lay D N m fb"
  using assms adr_cong[of D' _ D m] unfolding lay_def by simp

lemma mk_invD:
  assumes "mk_inv s N c"
  shows "mksb s = init_sb" "unat (freeinode s) = N" "1 \<le> N" "N \<le> 200" "lay (din_at (image s)) N (image s) (unat (freeblock s))"
    "image s ! 1 = sb_block init_sb" "i \<in> {1..<N} \<Longrightarrow> file_holds (din_at (image s)) (image s) i (c i)"
    "i \<in> {1..<N} \<Longrightarrow> isize (din_at (image s) i) = of_nat (length (c i))" "i \<in> {1..<N} \<Longrightarrow> inlink (din_at (image s) i) = 1"
    "i \<in> {1..<N} \<Longrightarrow> itype (din_at (image s) i) = (if i = 1 then T_DIR else T_FILE)"
    "unat (freeblock s) = 59 + (\<Sum>i = 1..<N. nblk (length (c i)))" "freeinode s = of_nat N"
  using assms by (auto simp: mk_inv_def)

lemma sum_update:
  fixes f :: "nat \<Rightarrow> nat"
  assumes "i \<in> {1..<N}"
  shows "(\<Sum>j = 1..<N. (f(i := v)) j) + f i = (\<Sum>j = 1..<N. f j) + v"
proof -
  have "(\<Sum>j = 1..<N. (f(i := v)) j) = v + (\<Sum>j \<in> {1..<N} - {i}. f j)" using assms by (subst sum.remove[of _ i]) (auto intro!: sum.cong)
  moreover have "(\<Sum>j = 1..<N. f j) = f i + (\<Sum>j \<in> {1..<N} - {i}. f j)" using assms by (subst sum.remove[of _ i]) auto
  ultimately show ?thesis by simp
qed

lemma iappend_ok:
  assumes inv: "mk_inv s N c" and i: "i \<in> {1..<N}" and l: "length (c i) + length p \<le> 71680"
    and room: "unat (freeblock s) + nblk (length (c i) + length p) \<le> 1000 + nblk (length (c i))"
  shows "\<exists>s1. iappend (of_nat i) p s = Inr s1 \<and> mk_inv s1 N (c(i := c i @ p)) \<and>
     unat (freeblock s1) + nblk (length (c i)) = unat (freeblock s) + nblk (length (c i) + length p)"
proof -
  note I = mk_invD[OF inv] and L = layD[OF mk_invD(5)[OF inv]]
  define D where "D = din_at (image s)"
  have i2: "i < 200" using i I(4) by simp
  have sz: "unat (isize (D i)) = length (c i)" using I(8)[OF i] l by (simp add: D_def unat_of_nat)
  obtain ip1 s1 where A: "iappend_loop p (isize (D i)) (D i) s = Inr (of_nat (length (c i @ p)), ip1, s1)"
    and B: "lay (D(i := ip1)) N (image s1) (unat (freeblock s1))" "s1 = s\<lparr>image := image s1, freeblock := freeblock s1\<rparr>"
      "others N i D (image s) (D(i := ip1)) (image s1)" "file_holds (D(i := ip1)) (image s1) i (c i @ p)"
      "unat (freeblock s1) + nblk (length (c i)) = unat (freeblock s) + nblk (length (c i) + length p)"
    using iappend_loop_ok[OF I(5) i I(7)[OF i] sz[unfolded D_def] l room] unfolding D_def by blast
  define ip2 where "ip2 = ip1\<lparr>isize := of_nat (length (c i @ p))\<rparr>"
  define s2 where "s2 = s1\<lparr>image := put_din i ip2 (image s1)\<rparr>"
  have sb1: "mksb s1 = init_sb" "freeinode s1 = freeinode s" using I(1) by (subst B(2), simp)+
  have r: "iappend (of_nat i) p s = Inr s2"
    using rinode_ok[OF i2 I(1) L(1)] A winode_ok[OF i2 sb1(1) layD(1)[OF B(1)], of ip2] by (simp add: iappend_def D_def[symmetric] ip2_def s2_def)
  obtain as where ip1: "ip1 = (D i)\<lparr>iaddrs := as\<rparr>" using B(3) by (auto simp: others_def)
  have cl: "clean ip2" using clean_din_at[of "image s" i] layD(5)[OF B(1) i] by (simp add: ip2_def ip1 D_def clean_def)
  define E where "E = din_at (image s2)"
  have E: "E j = (if j = i then ip2 else D j)" if "j \<in> {1..<N}" for j
  proof -
    have "32 + j div 8 < 59" using that I(4) by auto
    then have "din_at (image s1) j = D j" using B(3) by (simp add: others_def din_at_def D_def)
    then show ?thesis using din_at_put_din[OF i2 layD(1,2)[OF B(1)] cl] by (simp add: E_def s2_def)
  qed
  then have ad: "iaddrs (E j) = iaddrs ((D(i := ip1)) j)" if "j \<in> {1..<N}" for j using that by (simp add: ip2_def)
  note P = put_din_write[OF B(1) i2, where ip = ip2]
  have lay2: "lay E N (image s2) (unat (freeblock s2))" using P(1) lay_cong[of N E "D(i := ip1)", OF ad] by (simp add: s2_def)
  have h2: "file_holds E (image s2) j ((c(i := c i @ p)) j)" if "j \<in> {1..<N}" for j
    using holds_cong[of E j "D(i := ip1)", OF ad[OF that]] P(4)[OF that] B(4) others_holds[OF B(3) that] I(7)[OF that] by (cases "j = i") (simp_all add: s2_def D_def)
  have m1: "image s2 ! 1 = sb_block init_sb" using P(2) B(3) I(6) by (simp add: s2_def others_def)
  have E2: "isize (E j) = of_nat (length ((c(i := c i @ p)) j)) \<and> inlink (E j) = 1 \<and> itype (E j) = (if j = 1 then T_DIR else T_FILE)" if "j \<in> {1..<N}" for j
    using E[OF that] I(8-10)[OF that] by (cases "j = i") (auto simp: ip2_def ip1 D_def)
  have "(\<Sum>j = 1..<N. nblk (length ((c(i := c i @ p)) j))) + nblk (length (c i)) = (\<Sum>j = 1..<N. nblk (length (c j))) + nblk (length (c i @ p))"
    using sum_update[OF i, of "\<lambda>j. nblk (length (c j))" "nblk (length (c i @ p))"] by (simp add: fun_upd_def if_distrib[of length] if_distrib[of nblk] cong: if_cong)
  then have "unat (freeblock s2) = 59 + (\<Sum>j = 1..<N. nblk (length ((c(i := c i @ p)) j)))" using B(5) I(11) by (simp add: s2_def)
  then have "mk_inv s2 N (c(i := c i @ p))"
    unfolding mk_inv_def E_def[symmetric] using lay2 h2 m1 E2 sb1 I(2-4) by (simp add: s2_def)
  moreover have "unat (freeblock s2) + nblk (length (c i)) = unat (freeblock s) + nblk (length (c i) + length p)" using B(5) by (simp add: s2_def)
  ultimately show ?thesis using r by blast
qed

lemma ialloc_ok:
  assumes inv: "mk_inv s N c" and N: "N < 200" and ty: "ty = (if N = 1 then T_DIR else T_FILE)"
  shows "\<exists>s1. mk_ialloc ty s = Inr (of_nat N, s1) \<and> mk_inv s1 (N + 1) (c(N := [])) \<and> freeblock s1 = freeblock s"
proof -
  note I = mk_invD[OF inv] and L = layD[OF mk_invD(5)[OF inv]]
  define ip where "ip = din0\<lparr>itype := ty, inlink := 1, isize := 0\<rparr>"
  define s1 where "s1 = s\<lparr>freeinode := of_nat N + 1, image := put_din N ip (image s)\<rparr>"
  have r: "mk_ialloc ty s = Inr (of_nat N, s1)"
    using winode_ok[OF N, of "s\<lparr>freeinode := of_nat N + 1\<rparr>" ip] I(1,12) L(1) by (simp add: mk_ialloc_def ip_def s1_def Let_def)
  have cl: "clean ip" by (simp add: clean_def ip_def din0_def NDIRECT_def)
  define E where "E = din_at (image s1)"
  have E: "E = (din_at (image s))(N := ip)" using din_at_put_din[OF N L(1,2) cl] by (simp add: E_def s1_def)
  have eq: "iaddrs (E j) = iaddrs (din_at (image s) j)" if "j \<in> {1..<N}" for j using that by (simp add: E)
  note P = put_din_write[OF I(5) N, where ip = ip]
  have lay1: "lay E N (image s1) (unat (freeblock s1))" using P(1) lay_cong[of N E "din_at (image s)", OF eq] by (simp add: s1_def)
  have z: "adr E (image s1) N bn = 0" if "bn \<le> 140" for bn using that by (simp add: adr_def E ip_def din0_def NDIRECT_def nth_Cons')
  have sp: "j \<in> {1..<N + 1} \<longleftrightarrow> j = N \<or> j \<in> {1..<N}" for j using I(3) by auto
  have "length (iaddrs (E N)) = 13" by (simp add: E ip_def din0_def NDIRECT_def)
  then have lay2: "lay E (N + 1) (image s1) (unat (freeblock s1))" using lay1 z unfolding lay_def Ball_def sp by auto
  have hN: "file_holds E (image s1) N []" using z block_index by (simp add: file_holds_def byte_at_def less_imp_le)
  have h: "file_holds E (image s1) j (c j)" if "j \<in> {1..<N}" for j using holds_cong[of E j "din_at (image s)", OF eq[OF that]] P(4)[OF that] I(7)[OF that] by (simp add: s1_def)
  have u: "unat (freeinode s1) = N + 1" using N by (simp add: s1_def unat_word_ariths unat_of_nat)
  have f: "\<forall>j \<in> {1..<N + 1}. file_holds E (image s1) j ((c(N := [])) j) \<and> isize (E j) = of_nat (length ((c(N := [])) j)) \<and>
      inlink (E j) = 1 \<and> itype (E j) = (if j = 1 then T_DIR else T_FILE)"
    unfolding Ball_def sp using h hN I(8-10) ty by (auto simp: E ip_def)
  have "(\<Sum>j = 1..<N + 1. nblk (length ((c(N := [])) j))) = (\<Sum>j = 1..<N. nblk (length (c j)))" using I(3) by (simp add: nblk_def)
  then have "mk_inv s1 (N + 1) (c(N := []))"
    unfolding mk_inv_def E_def[symmetric] using u N I(1,3,6,11) P(2) lay2 f by (simp add: s1_def)
  moreover have "freeblock s1 = freeblock s" by (simp add: s1_def)
  ultimately show ?thesis using r by blast
qed

section \<open>The whole run\<close>

lemma iappends_ok:
  "mk_inv s N c \<Longrightarrow> i \<in> {1..<N} \<Longrightarrow> length (c i) + length (concat cs) \<le> 71680 \<Longrightarrow>
   unat (freeblock s) + nblk (length (c i) + length (concat cs)) \<le> 1000 + nblk (length (c i)) \<Longrightarrow>
   \<exists>s1. fold_r (iappend (of_nat i)) cs s = Inr s1 \<and> mk_inv s1 N (c(i := c i @ concat cs)) \<and>
     unat (freeblock s1) + nblk (length (c i)) = unat (freeblock s) + nblk (length (c i) + length (concat cs))"
proof (induction cs arbitrary: s c)
  case Nil
  then show ?case by simp
next
  case (Cons p cs)
  have room: "unat (freeblock s) + nblk (length (c i) + length p) \<le> 1000 + nblk (length (c i))"
    using Cons.prems(4) nblk_mono[of "length (c i) + length p" "length (c i) + length (concat (p # cs))"] by simp
  have "length (c i) + length p \<le> 71680" using Cons.prems(3) by simp
  with room obtain s1 where s1: "iappend (of_nat i) p s = Inr s1" "mk_inv s1 N (c(i := c i @ p))"
    "unat (freeblock s1) + nblk (length (c i)) = unat (freeblock s) + nblk (length (c i) + length p)"
    using iappend_ok[OF Cons.prems(1,2)] by blast
  show ?case using Cons.IH[OF s1(2) Cons.prems(2)] Cons.prems(3,4) s1(1,3) by (auto simp: add.assoc fun_upd_def cong: if_cong)
qed

lemma length_dir_entry [simp]: "length (dir_entry name n) = 16"
proof -
  have "length (takeWhile (\<lambda>c. c \<noteq> 0) (take DIRSIZ name)) \<le> DIRSIZ" using length_takeWhile_le[of "\<lambda>c. c \<noteq> 0" "take DIRSIZ name"] by simp
  then show ?thesis by (simp add: dir_entry_def mk_dirent_def name_pad_def Let_def DIRSIZ_def)
qed

text \<open>The bytes of a file of the command line.\<close>

definition file_data :: "(u8 list \<Rightarrow> u8 list list option) \<Rightarrow> u8 list \<Rightarrow> u8 list" where
  "file_data host arg = (case host arg of None \<Rightarrow> [] | Some rs \<Rightarrow> concat (takeWhile (\<lambda>c. c \<noteq> []) rs))"

definition file_fine :: "(u8 list \<Rightarrow> u8 list list option) \<Rightarrow> u8 list \<Rightarrow> bool" where
  "file_fine host arg \<longleftrightarrow> slash \<notin> set arg \<and> host arg \<noteq> None \<and> length (file_data host arg) \<le> MAXFILE * BSIZE"

lemma mk_file_ok:
  assumes inv: "mk_inv s N c" and N: "1 < N" "N < 200" and a: "file_fine host arg" and l: "length (c 1) + 16 \<le> 71680"
    and room: "unat (freeblock s) + nblk (length (c 1) + 16) + nblk (length (file_data host arg)) \<le> 1000 + nblk (length (c 1))"
  shows "\<exists>s1. mk_file host 1 arg s = Inr s1 \<and> mk_inv s1 (N + 1) (c(1 := c 1 @ dir_entry (file_name arg) (of_nat N), N := file_data host arg)) \<and>
     unat (freeblock s1) + nblk (length (c 1)) = unat (freeblock s) + nblk (length (c 1) + 16) + nblk (length (file_data host arg))"
proof -
  obtain rs where rs: "host arg = Some rs" "slash \<notin> set arg" "file_data host arg = concat (takeWhile (\<lambda>c. c \<noteq> []) rs)" "length (file_data host arg) \<le> 71680"
    using a by (auto simp: file_fine_def file_data_def MAXFILE_def BSIZE_def)
  obtain s1 where s1: "mk_ialloc T_FILE s = Inr (of_nat N, s1)" "mk_inv s1 (N + 1) (c(N := []))" "freeblock s1 = freeblock s"
    using ialloc_ok[OF inv N(2)] N(1) by auto
  obtain s2 where s2: "iappend (of_nat 1) (dir_entry (file_name arg) (of_nat N)) s1 = Inr s2"
    "mk_inv s2 (N + 1) (c(N := [], 1 := c 1 @ dir_entry (file_name arg) (of_nat N)))" "unat (freeblock s2) + nblk (length (c 1)) = unat (freeblock s) + nblk (length (c 1) + 16)"
    using iappend_ok[OF s1(2), of 1 "dir_entry (file_name arg) (of_nat N)"] s1(3) N l room by auto
  obtain s3 where s3: "fold_r (iappend (of_nat N)) (takeWhile (\<lambda>c. c \<noteq> []) rs) s2 = Inr s3"
    "mk_inv s3 (N + 1) (c(N := [], 1 := c 1 @ dir_entry (file_name arg) (of_nat N), N := file_data host arg))"
    "unat (freeblock s3) = unat (freeblock s2) + nblk (length (file_data host arg))"
    using iappends_ok[OF s2(2), of N "takeWhile (\<lambda>c. c \<noteq> []) rs"] s2(3) N room rs(3,4) by (auto simp: nblk_def)
  have "mk_file host 1 arg s = Inr s3" using s1(1) s2(1) s3(1) rs(1,2) by (simp add: mk_file_def)
  moreover have "c(N := [], 1 := x, N := y) = c(1 := x, N := y)" for x y by (simp add: fun_eq_iff)
  ultimately show ?thesis using s3(2,3) s2(3) by auto
qed

definition dir_entries :: "nat \<Rightarrow> u8 list list \<Rightarrow> u8 list" where
  "dir_entries N args = concat (map (\<lambda>k. dir_entry (file_name (args ! k)) (of_nat (N + k))) [0..<length args])"

lemma dir_entries_Cons: "dir_entries N (a # as) = dir_entry (file_name a) (of_nat N) @ dir_entries (N + 1) as"
  by (simp add: dir_entries_def map_upt_Suc ac_simps del: upt_Suc)

lemma length_dir_entries [simp]: "length (dir_entries N args) = 16 * length args"
  by (induction args arbitrary: N) (simp_all add: dir_entries_Cons, simp add: dir_entries_def)

lemma mk_files_ok:
  "mk_inv s N c \<Longrightarrow> 1 < N \<Longrightarrow> N + length args \<le> 200 \<Longrightarrow> \<forall>a \<in> set args. file_fine host a \<Longrightarrow> length (c 1) + 16 * length args \<le> 71680 \<Longrightarrow>
   unat (freeblock s) + nblk (length (c 1) + 16 * length args) + (\<Sum>a\<leftarrow>args. nblk (length (file_data host a))) \<le> 1000 + nblk (length (c 1)) \<Longrightarrow>
   \<exists>s1. fold_r (mk_file host 1) args s = Inr s1 \<and>
     mk_inv s1 (N + length args) (\<lambda>i. if i = 1 then c 1 @ dir_entries N args else if N \<le> i \<and> i < N + length args then file_data host (args ! (i - N)) else c i)"
proof (induction args arbitrary: s N c)
  case Nil
  have e: "(\<lambda>i. if i = 1 then c 1 @ dir_entries N [] else if N \<le> i \<and> i < N + length [] then file_data host ([] ! (i - N)) else c i) = c"
    by (auto simp: dir_entries_def)
  show ?case unfolding e using Nil.prems(1) by simp
next
  case (Cons a as)
  let ?c = "c(1 := c 1 @ dir_entry (file_name a) (of_nat N), N := file_data host a)"
  have "nblk (length (c 1) + 16) \<le> nblk (length (c 1) + 16 * length (a # as))" by (rule nblk_mono) simp
  then obtain s1 where s1: "mk_file host 1 a s = Inr s1" "mk_inv s1 (N + 1) ?c"
    "unat (freeblock s1) + nblk (length (c 1)) = unat (freeblock s) + nblk (length (c 1) + 16) + nblk (length (file_data host a))"
    using mk_file_ok[OF Cons.prems(1,2), of host a] Cons.prems(3-6) by auto
  have l: "length (?c 1) = length (c 1) + 16" using Cons.prems(2) by simp
  have "length (c 1) + 16 * length (a # as) = length (c 1) + 16 + 16 * length as" by simp
  then have room: "unat (freeblock s1) + nblk (length (c 1) + 16 + 16 * length as) + (\<Sum>a\<leftarrow>as. nblk (length (file_data host a))) \<le> 1000 + nblk (length (c 1) + 16)"
    using Cons.prems(6) s1(3) by (simp only: list.map sum_list.Cons)
  obtain s2 where s2: "fold_r (mk_file host 1) as s1 = Inr s2"
    "mk_inv s2 (N + 1 + length as) (\<lambda>i. if i = 1 then ?c 1 @ dir_entries (N + 1) as else if N + 1 \<le> i \<and> i < N + 1 + length as then file_data host (as ! (i - (N + 1))) else ?c i)"
    using Cons.IH[OF s1(2)] Cons.prems(2-5) room unfolding l by auto
  have "(\<lambda>i. if i = 1 then ?c 1 @ dir_entries (N + 1) as else if N + 1 \<le> i \<and> i < N + 1 + length as then file_data host (as ! (i - (N + 1))) else ?c i) =
    (\<lambda>i. if i = 1 then c 1 @ dir_entries N (a # as) else if N \<le> i \<and> i < N + length (a # as) then file_data host ((a # as) ! (i - N)) else c i)"
    using Cons.prems(2) by (auto simp: fun_eq_iff dir_entries_Cons nth_Cons' Suc_diff_le)
  then show ?case using s1(1) s2 by simp
qed

lemma zero_fill: "n \<le> 1000 \<Longrightarrow> image s = [] \<Longrightarrow> fold (\<lambda>i. wsect (of_nat i) zeroes) [0..<n] s = s\<lparr>image := replicate n zeroes\<rparr>"
proof (induction n)
  case 0
  then show ?case by simp
next
  case (Suc n)
  have "sector (of_nat n) = n" using Suc.prems(1) by (simp add: sector_small unat_of_nat)
  then show ?case using Suc by (simp add: wsect_def Let_def replicate_append_same)
qed

lemma start_ok:
  "mk_inv (wsect 1 (sb_block init_sb) (\<lparr>image = replicate 1000 zeroes, mksb = init_sb, freeinode = 1, freeblock = of_nat nmeta\<rparr>)) 1 c"
proof -
  have l: "length (sb_block init_sb) = BSIZE" by (simp add: sb_block_def zeroes_def)
  have "wsect 1 (sb_block init_sb) \<lparr>image = replicate 1000 zeroes, mksb = init_sb, freeinode = 1, freeblock = of_nat nmeta\<rparr> =
      \<lparr>image = (replicate 1000 zeroes)[1 := sb_block init_sb], mksb = init_sb, freeinode = 1, freeblock = of_nat nmeta\<rparr>"
    by (subst wsect_small) simp_all
  moreover have "length ((replicate 1000 zeroes)[1 := sb_block init_sb] ! b) = BSIZE" if "b < 1000" for b
    using that l by (cases "b = 1") (simp_all add: zeroes_def)
  ultimately show ?thesis by (simp add: mk_inv_def lay_def)
qed

lemma bitmap:
  assumes "n \<le> 4096"
  shows "length (fold (\<lambda>i d. d[i div 8 := or (d ! (i div 8)) (push_bit (i mod 8) 1)]) [0..<n] zeroes) = BSIZE"
    "b < 4096 \<Longrightarrow> bit_free (fold (\<lambda>i d. d[i div 8 := or (d ! (i div 8)) (push_bit (i mod 8) 1)]) [0..<n] zeroes) b \<longleftrightarrow> n \<le> b"
proof -
  let ?f = "\<lambda>n. fold (\<lambda>i d. d[i div 8 := or (d ! (i div 8)) (push_bit (i mod 8) 1)]) [0..<n] zeroes"
  have l: "length (?f k) = BSIZE" for k by (induction k) (simp_all add: zeroes_def)
  show "length (?f n) = BSIZE" by (rule l)
  have "k \<le> 4096 \<Longrightarrow> b < 4096 \<Longrightarrow> bit_free (?f k) b \<longleftrightarrow> k \<le> b" for k
  proof (induction k)
    case 0
    then show ?case by (simp add: bit_free_iff zeroes_def BSIZE_def)
  next
    case (Suc k)
    have "bit_free (?f (Suc k)) b \<longleftrightarrow> bit_free (?f k) b \<and> b \<noteq> k" using bit_free_set[OF l[of k], of k b] Suc.prems by simp
    then show ?case using Suc by auto
  qed
  then show "b < 4096 \<Longrightarrow> bit_free (?f n) b \<longleftrightarrow> n \<le> b" using assms by blast
qed

text \<open>
  A finished image: the layout invariant, the contents \<open>c\<close> with the sizes in the inodes (the size of the root directory is
  rounded up to the next block boundary, one block further when it is on a boundary already), and the bitmap.
\<close>

definition image_ok :: "block list \<Rightarrow> nat \<Rightarrow> (nat \<Rightarrow> u8 list) \<Rightarrow> nat \<Rightarrow> bool" where
  "image_ok m N c fb \<longleftrightarrow> lay (din_at m) N m fb \<and> 1 < N \<and> N \<le> 200 \<and> m ! 1 = sb_block init_sb \<and> (\<forall>b < 4096. bit_free (m ! 58) b \<longleftrightarrow> fb \<le> b) \<and>
     (\<forall>i \<in> {1..<N}. file_holds (din_at m) m i (c i) \<and> inlink (din_at m i) = 1 \<and> itype (din_at m i) = (if i = 1 then T_DIR else T_FILE) \<and>
        isize (din_at m i) = of_nat (if i = 1 then (length (c 1) div 512 + 1) * 512 else length (c i)))"

lemma finish_ok:
  assumes inv: "mk_inv s N c" and N: "1 < N" and l: "length (c 1) < 71168"
  shows "\<exists>s1 s2. fix_root 1 s = Inr s1 \<and> mk_balloc (sint (freeblock s1)) s1 = Inr s2 \<and> image_ok (image s2) N c (unat (freeblock s))"
proof -
  note I = mk_invD[OF inv] and L = layD[OF mk_invD(5)[OF inv]]
  define D where "D = din_at (image s)"
  define sz where "sz = (length (c 1) div 512 + 1) * 512"
  define ip where "ip = (D 1)\<lparr>isize := of_nat sz\<rparr>"
  define m1 where "m1 = put_din 1 ip (image s)"
  have "isize (D 1) = of_nat (length (c 1))" using I(8)[of 1] N by (simp add: D_def)
  moreover have "(of_nat (length (c 1)) div of_nat BSIZE + 1) * of_nat BSIZE = (of_nat sz :: u32)"
    using l by (simp add: word_unat_eq_iff sz_def BSIZE_def unat_word_ariths unat_div unat_of_nat)
  ultimately have F: "fix_root 1 s = Inr (s\<lparr>image := m1\<rparr>)"
    using rinode_ok[of 1 s] winode_ok[of 1 s ip] I(1) L(1) by (simp add: fix_root_def Let_def ip_def m1_def D_def)
  define bm where "bm = fold (\<lambda>i d. d[i div 8 := or (d ! (i div 8)) (push_bit (i mod 8) 1)]) [0..<unat (freeblock s)] zeroes"
  have fb: "unat (freeblock s) \<le> 1000" by (rule L(4))
  then have "int (unat (freeblock s)) \<le> 1000" by linarith
  then have fb': "uint (freeblock s) \<le> 1000" by simp
  have lm: "length m1 = 1000" using L(1) by (simp add: m1_def put_din_def)
  have B: "mk_balloc (sint (freeblock s)) (s\<lparr>image := m1\<rparr>) = Inr (s\<lparr>image := m1[58 := bm]\<rparr>)"
    using fb fb' wsect_small[of 58 "s\<lparr>image := m1\<rparr>" bm] lm I(1) by (simp add: mk_balloc_def sint_small BSIZE_def bm_def)
  have cl: "clean ip" using clean_din_at[of "image s" 1] by (simp add: ip_def D_def clean_def)
  have E1: "din_at m1 = D(1 := ip)" using din_at_put_din[OF _ L(1,2) cl, of 1] by (simp add: m1_def D_def)
  have E: "din_at (m1[58 := bm]) j = (D(1 := ip)) j" if "j < 200" for j
  proof -
    have "32 + j div 8 \<noteq> 58" using that by auto
    then show ?thesis using fun_cong[OF E1, of j] by (simp add: din_at_def)
  qed
  have ad: "iaddrs (din_at (m1[58 := bm]) j) = iaddrs (D j)" if "j \<in> {1..<N}" for j using E[of j] that I(4) by (simp add: ip_def)
  have c1: "(1 :: nat) < 200" "(58 :: nat) < 59" "length bm = BSIZE" using bitmap(1) fb by (simp_all add: bm_def)
  note P = put_din_write[OF I(5) c1(1), where ip = ip, folded m1_def D_def]
  note W = meta_write[OF P(1) c1(2,3)]
  have lay2: "lay (din_at (m1[58 := bm])) N (m1[58 := bm]) (unat (freeblock s))"
    using W(1) lay_cong[of N "din_at (m1[58 := bm])" D, OF ad] by simp
  have "file_holds (din_at (m1[58 := bm])) (m1[58 := bm]) j (c j)" if "j \<in> {1..<N}" for j
    using holds_cong[of "din_at (m1[58 := bm])" j D, OF ad[OF that]] W(3)[OF that] P(4)[OF that] I(7)[OF that] by (simp add: D_def)
  then have "image_ok (m1[58 := bm]) N c (unat (freeblock s))"
    unfolding image_ok_def using lay2 N I(4,6) P(2) bitmap(2)[of "unat (freeblock s)", folded bm_def] fb lm E I(8-10) by (auto simp: ip_def D_def sz_def)
  then show ?thesis using F B by simp
qed

definition mk_content :: "(u8 list \<Rightarrow> u8 list list option) \<Rightarrow> u8 list list \<Rightarrow> nat \<Rightarrow> u8 list" where
  "mk_content host args i =
    (if i = 1 then dir_entry [0x2E] ROOTINO @ dir_entry [0x2E, 0x2E] ROOTINO @ dir_entries 2 args else file_data host (args ! (i - 2)))"

definition blocks_needed :: "(u8 list \<Rightarrow> u8 list list option) \<Rightarrow> u8 list list \<Rightarrow> nat" where
  "blocks_needed host args = nmeta + nblk (32 + 16 * length args) + (\<Sum>a\<leftarrow>args. nblk (length (file_data host a)))"

lemma image_ok_cong: "image_ok m N c fb \<Longrightarrow> (\<And>i. i \<in> {1..<N} \<Longrightarrow> c' i = c i) \<Longrightarrow> image_ok m N c' fb"
  by (auto simp: image_ok_def)

lemma mkfs_ok:
  assumes args: "2 \<le> length argv" "args = drop 2 argv" "\<forall>a \<in> set args. file_fine host a" "length args \<le> 198"
    and room: "blocks_needed host args \<le> unat FSSIZE"
  shows "\<exists>s fb. mkfs argv True host = Inr s \<and> image_ok (image s) (length args + 2) (mk_content host args) fb"
proof -
  define s2 where "s2 = wsect 1 (sb_block init_sb) \<lparr>image = replicate 1000 zeroes, mksb = init_sb, freeinode = 1, freeblock = of_nat nmeta\<rparr>"
  define c0 :: "nat \<Rightarrow> u8 list" where "c0 = (\<lambda>_. [])"
  have i0: "mk_inv s2 1 c0" unfolding s2_def by (rule start_ok)
  have fb2: "unat (freeblock s2) = 59" using mk_invD(11)[OF i0] by simp
  have rm: "59 + nblk (32 + 16 * length args) + (\<Sum>a\<leftarrow>args. nblk (length (file_data host a))) \<le> 1000" using room by (simp add: blocks_needed_def FSSIZE_def)
  have n1: "nblk 0 = 0" "nblk 16 = 1" "nblk 32 = 1" by (simp_all add: nblk_def)
  have n2: "1 \<le> nblk (32 + 16 * length args)" using nblk_mono[of 32 "32 + 16 * length args"] n1 by simp
  obtain s3 where s3: "mk_ialloc T_DIR s2 = Inr (of_nat 1, s3)" "mk_inv s3 2 (c0(1 := []))" "freeblock s3 = freeblock s2"
    using ialloc_ok[OF i0] by (auto simp: numeral_2_eq_2)
  obtain s4 where s4: "iappend (of_nat 1) (dir_entry [0x2E] ROOTINO) s3 = Inr s4" "mk_inv s4 2 (c0(1 := dir_entry [0x2E] ROOTINO))" "unat (freeblock s4) = 60"
    using iappend_ok[OF s3(2), of 1 "dir_entry [0x2E] ROOTINO"] fb2 s3(3) n1 by auto
  obtain s5 where s5: "iappend (of_nat 1) (dir_entry [0x2E, 0x2E] ROOTINO) s4 = Inr s5"
      "mk_inv s5 2 (c0(1 := dir_entry [0x2E] ROOTINO @ dir_entry [0x2E, 0x2E] ROOTINO))" "unat (freeblock s5) = 60"
    using iappend_ok[OF s4(2), of 1 "dir_entry [0x2E, 0x2E] ROOTINO"] s4(3) n1 by auto
  let ?c = "c0(1 := dir_entry [0x2E] ROOTINO @ dir_entry [0x2E, 0x2E] ROOTINO)"
  obtain s6 where s6: "fold_r (mk_file host 1) args s5 = Inr s6"
    "mk_inv s6 (2 + length args) (\<lambda>i. if i = 1 then ?c 1 @ dir_entries 2 args else if 2 \<le> i \<and> i < 2 + length args then file_data host (args ! (i - 2)) else ?c i)"
    using mk_files_ok[OF s5(2), of args host] args(3,4) rm s5(3) n1 n2 by auto
  obtain s7 s8 where s8: "fix_root 1 s6 = Inr s7" "mk_balloc (sint (freeblock s7)) s7 = Inr s8"
    "image_ok (image s8) (2 + length args) (\<lambda>i. if i = 1 then ?c 1 @ dir_entries 2 args else if 2 \<le> i \<and> i < 2 + length args then file_data host (args ! (i - 2)) else ?c i) (unat (freeblock s6))"
    using finish_ok[OF s6(2)] args(4) by auto
  have "mkfs argv True host = Inr s8"
    using args(1,2) s3(1) s4(1) s5(1) s6(1) s8(1,2) zero_fill[of 1000 "\<lparr>image = [], mksb = init_sb, freeinode = 1, freeblock = of_nat nmeta\<rparr>"]
    by (simp add: mkfs_def Let_def FSSIZE_def s2_def ROOTINO_def)
  moreover have "image_ok (image s8) (2 + length args) (mk_content host args) (unat (freeblock s6))"
    by (rule image_ok_cong[OF s8(3)]) (auto simp: mk_content_def)
  ultimately show ?thesis by (auto simp: add.commute)
qed

section \<open>What the kernel finds\<close>

text \<open>The kernel's view of the image before \<open>iinit\<close>, in a transaction, with an empty inode cache; and opening inode \<open>n\<close>.\<close>

definition boot_fs :: "block list \<Rightarrow> fsst" where
  "boot_fs m = \<lparr>blk = (\<lambda>_ n. if unat n < length m then m ! unat n else zeroes), logged = [], ops = 1, hold = [],
     sb = \<lparr>sb_size = 0, sb_nblocks = 0, sb_ninodes = 0, sb_nlog = 0, sb_logstart = 0, sb_inodestart = 0, sb_bmapstart = 0\<rparr>,
     icache = replicate NINODE din0\<rparr>"

definition open_inum :: "int \<Rightarrow> u32 \<Rightarrow> block list \<Rightarrow> (nat \<times> fsst) result" where
  "open_inum pid n m =
    bind_r (iinit ROOTDEV (boot_fs m)) (\<lambda>s. bind_r (iget ROOTDEV n s) (\<lambda>(i, s1). bind_r (ilock pid i s1) (\<lambda>s2. Inr (i, s2))))"

lemma readsb_image:
  assumes "length m = 1000" "m ! 1 = sb_block init_sb"
  shows "readsb ROOTDEV (boot_fs m) = Inr init_sb"
proof -
  have "getblk ROOTDEV 1 (boot_fs m) = Inr (sb_block init_sb)" using assms by (simp add: getblk_def boot_fs_def FSSIZE_def word_le_nat_alt)
  moreover have "length zeroes = 512" by (simp add: zeroes_def BSIZE_def)
  ultimately show ?thesis by (simp add: readsb_def sb_block_def get_put_word)
qed

definition opened :: "int \<Rightarrow> block list \<Rightarrow> nat \<Rightarrow> fsst" where
  "opened pid m i = (boot_fs m)\<lparr>sb := init_sb,
     icache := (replicate NINODE din0)[0 := (din_at m i)\<lparr>idev := ROOTDEV, inum := of_nat i, iref := 1, ilk := Some pid, ivalid := True\<rparr>]\<rparr>"

lemma image_okD:
  assumes "image_ok m N c fb"
  shows "lay (din_at m) N m fb" "1 < N" "N \<le> 200" "m ! 1 = sb_block init_sb" "b < 4096 \<Longrightarrow> bit_free (m ! 58) b \<longleftrightarrow> fb \<le> b"
    "i \<in> {1..<N} \<Longrightarrow> file_holds (din_at m) m i (c i)" "i \<in> {1..<N} \<Longrightarrow> inlink (din_at m i) = 1"
    "i \<in> {1..<N} \<Longrightarrow> itype (din_at m i) = (if i = 1 then T_DIR else T_FILE)"
    "i \<in> {1..<N} \<Longrightarrow> isize (din_at m i) = of_nat (if i = 1 then (length (c 1) div 512 + 1) * 512 else length (c i))"
  using assms unfolding image_ok_def by blast+

lemma open_inum_ok:
  assumes ok: "image_ok m N c fb" and i: "i \<in> {1..<N}"
  shows "open_inum pid (of_nat i) m = Inr (0, opened pid m i)"
proof -
  note I = image_okD[OF ok] and L = layD[OF image_okD(1)[OF ok]]
  have i2: "i < 200" using i I(3) by simp
  have ic: "map (\<lambda>ip. ip\<lparr>ilk := None\<rparr>) (icache (boot_fs m)) = replicate NINODE din0" by (simp add: boot_fs_def din0_def)
  have b1: "(boot_fs m)\<lparr>icache := map (\<lambda>ip. ip\<lparr>ilk := None\<rparr>) (icache (boot_fs m))\<rparr> = boot_fs m" unfolding ic by (simp add: boot_fs_def)
  have s1: "iinit ROOTDEV (boot_fs m) = Inr ((boot_fs m)\<lparr>sb := init_sb\<rparr>)" using readsb_image[OF L(1) I(4)] by (simp add: iinit_def Let_def b1)
  define ip where "ip = din0\<lparr>idev := ROOTDEV, inum := of_nat i, iref := 1, ivalid := False\<rparr>"
  have nr: "find_idx (\<lambda>ip. iref ip > 0 \<and> idev ip = ROOTDEV \<and> inum ip = of_nat i) (replicate NINODE din0) = None"
    "find_idx (\<lambda>ip. iref ip = 0) (replicate NINODE din0) = Some 0" by (auto simp: find_idx_None find_idx_Some din0_def NINODE_def)
  have s2: "iget ROOTDEV (of_nat i) ((boot_fs m)\<lparr>sb := init_sb\<rparr>) = Inr (0, (boot_fs m)\<lparr>sb := init_sb, icache := (replicate NINODE din0)[0 := ip]\<rparr>)"
    using nr by (simp add: iget_def boot_fs_def upd_inode_def ip_def NINODE_def)
  have u: "unat (IBLOCK (of_nat i) init_sb) = 32 + i div 8" by (rule inode_place(1)[OF i2])
  then have lt: "IBLOCK (of_nat i) init_sb < FSSIZE" using i2 by (simp add: word_less_nat_alt FSSIZE_def)
  have g: "getblk ROOTDEV (IBLOCK (of_nat i) init_sb) s = Inr (m ! (32 + i div 8))" if "blk s = blk (boot_fs m)" "hold s = []" for s
  proof -
    have "i div 8 < 968" using i2 by simp
    then show ?thesis using that i2 u lt L(1) by (simp add: getblk_def boot_fs_def not_le)
  qed
  have ld: "load_dinode (i mod 8) (m ! (32 + i div 8)) (ip\<lparr>ilk := Some pid\<rparr>) =
      (din_at m i)\<lparr>idev := ROOTDEV, inum := of_nat i, iref := 1, ilk := Some pid, ivalid := False\<rparr>"
    by (simp add: din_at_def load_dinode_def ip_def din0_def)
  have ty: "itype (din_at m i) \<noteq> 0" using I(8)[OF i] by (simp add: T_DIR_def T_FILE_def)
  have "ilock pid 0 ((boot_fs m)\<lparr>sb := init_sb, icache := (replicate NINODE din0)[0 := ip]\<rparr>) = Inr (opened pid m i)"
    using g ld ty by (simp add: ilock_def Let_def upd_inode_def NINODE_def ip_def inode_place(2)[OF i2] opened_def boot_fs_def din0_def)
  then show ?thesis using s1 s2 by (simp add: open_inum_def)
qed

lemma opened_simps [simp]:
  "icache (opened pid m i) ! 0 = (din_at m i)\<lparr>idev := ROOTDEV, inum := of_nat i, iref := 1, ilk := Some pid, ivalid := True\<rparr>"
  "length (icache (opened pid m i)) = NINODE" "sb (opened pid m i) = init_sb" "hold (opened pid m i) = []" "ops (opened pid m i) = 1"
  "blk (opened pid m i) = blk (boot_fs m)"
  by (simp_all add: opened_def NINODE_def boot_fs_def)

lemma boot_blk: "unat n < length m \<Longrightarrow> blk (boot_fs m) dev n = m ! unat n"
  by (simp add: boot_fs_def)

lemma opened_addresses:
  assumes ok: "image_ok m N c fb" and i: "i \<in> {1..<N}"
  shows "ind (opened pid m i) 0 = adr (din_at m) m i 140" "bn < 140 \<Longrightarrow> faddr (opened pid m i) 0 bn = adr (din_at m) m i bn"
    "k < 71680 \<Longrightarrow> fbyte (opened pid m i) 0 k = byte_at (din_at m) m i k" "owned (opened pid m i) 0 b \<Longrightarrow> \<exists>bn \<le> 140. adr (din_at m) m i bn = b \<and> b \<noteq> 0"
proof -
  note L = layD[OF image_okD(1)[OF ok]]
  show ia: "ind (opened pid m i) 0 = adr (din_at m) m i 140" by (simp add: ind_def adr_def)
  have small: "unat (adr (din_at m) m i bn) < length m" if "bn \<le> 140" "adr (din_at m) m i bn \<noteq> 0" for bn using L(1,4) L(7)[OF i that] by simp
  have fa: "faddr (opened pid m i) 0 bn = adr (din_at m) m i bn" if "bn < 140" for bn
    using that ia small[of 140] boot_blk[of "adr (din_at m) m i 140" m] by (auto simp: faddr_def adr_def)
  then show "bn < 140 \<Longrightarrow> faddr (opened pid m i) 0 bn = adr (din_at m) m i bn" .
  show "fbyte (opened pid m i) 0 k = byte_at (din_at m) m i k" if "k < 71680"
    using fa[OF block_index[OF that]] small[of "k div BSIZE"] block_index[OF that] boot_blk[of "adr (din_at m) m i (k div BSIZE)" m]
    by (auto simp: fbyte_def fblk_def byte_at_def Let_def BSIZE_def)
  show "\<exists>bn \<le> 140. adr (din_at m) m i bn = b \<and> b \<noteq> 0" if "owned (opened pid m i) 0 b"
    using that fa ia unfolding owned_def by (metis less_imp_le order_refl)
qed

lemma iblock_image: "n < 200 \<Longrightarrow> unat (IBLOCK n init_sb) < 58"
proof -
  assume "n < 200"
  then have "unat (n div 8) < 25" by (simp add: word_less_nat_alt unat_div)
  then show ?thesis by (simp add: IBLOCK_def IPB_def unat_word_ariths)
qed

lemma meta_image: "meta (opened pid m i) b \<Longrightarrow> unat b < 59"
  using iblock_image by (force simp: meta_def)

lemma opened_file_ok:
  assumes ok: "image_ok m N c fb" and i: "i \<in> {1..<N}"
  shows "file_ok (opened pid m i) 0"
proof -
  note I = image_okD[OF ok] and L = layD[OF image_okD(1)[OF ok]] and A = opened_addresses[OF ok i]
  define t where "t = opened pid m i"
  have us: "used t ROOTDEV b" if "unat b < fb" for b
    using that I(5)[of "unat b"] L(1,4) boot_blk[of 58 m ROOTDEV] by (simp add: used_def t_def)
  have ow: "59 \<le> unat b \<and> unat b < fb" if "owned t 0 b" for b using A(4)[of pid b] L(6,7)[OF i] that by (auto simp: t_def)
  have sz: "unat b < 1000 \<Longrightarrow> b < 1000" for b :: u32 by (simp add: word_less_nat_alt)
  have mt: "meta t b \<Longrightarrow> unat b < 59" for b unfolding t_def by (rule meta_image)
  have len: "length (blk (boot_fs m) dev n) = BSIZE" for dev n using L(1,2) by (simp add: boot_fs_def zeroes_def)
  have ib: "IBLOCK n init_sb \<noteq> 58" if "n < 200" for n using iblock_image[OF that] by auto
  have "fs_ok t ROOTDEV"
    unfolding fs_ok_def using len ib mt us sz L(3) by (fastforce simp: t_def FSSIZE_def)
  moreover have "inum (icache t ! 0) < sb_ninodes (sb t)" using i I(3) by (simp add: t_def word_less_nat_alt unat_of_nat)
  moreover have "\<forall>b. owned t 0 b \<longrightarrow> used t ROOTDEV b \<and> b < sb_size (sb t) \<and> \<not> meta t b"
    using ow us mt sz L(4) by (fastforce simp: t_def)
  moreover have "\<forall>bn < 140. \<forall>bm < 140. faddr t 0 bn \<noteq> 0 \<longrightarrow> faddr t 0 bn = faddr t 0 bm \<longrightarrow> bn = bm"
    using A(2) L(8)[OF i i] unfolding t_def by (metis less_imp_le)
  moreover have "\<forall>bn < 140. faddr t 0 bn \<noteq> 0 \<longrightarrow> faddr t 0 bn \<noteq> ind t 0"
    using A(1,2) L(8)[OF i i, of _ 140] unfolding t_def by (metis less_imp_le order_less_irrefl order_refl)
  ultimately show ?thesis unfolding t_def[symmetric] file_ok_def using L(5)[OF i] by (simp add: t_def NINODE_def)
qed

lemma readi_opened:
  assumes ok: "image_ok m N c fb" and i: "i \<in> {1..<N}" and c1: "length (c 1) < 71168" and n: "off + n \<le> length (c i)"
  shows "readi dt 0 (of_nat off) (of_nat n) (opened pid m i) = Inr (int n, take n (drop off (c i)), opened pid m i)"
proof -
  note I = image_okD[OF ok] and A = opened_addresses[OF ok i]
  define t where "t = opened pid m i"
  have h: "length (c i) \<le> 71680" "\<And>k. k < 71680 \<Longrightarrow> byte_at (din_at m) m i k = (if k < length (c i) then c i ! k else 0)"
    "\<And>bn. bn < 140 \<Longrightarrow> adr (din_at m) m i bn \<noteq> 0 \<longleftrightarrow> bn * 512 < length (c i)" using I(6)[OF i] by (auto simp: file_holds_def)
  have u: "unat (of_nat off :: u32) = off" "unat (of_nat n :: u32) = n" using n h(1) by (simp_all add: unat_of_nat)
  define sz where "sz = (if i = 1 then (length (c 1) div 512 + 1) * 512 else length (c i))"
  have b: "length (c i) \<le> sz \<and> sz \<le> 71680"
  proof (cases "i = 1")
    case True
    have "length (c 1) div 512 < 139" using c1 by simp
    moreover have "length (c 1) \<le> (length (c 1) div 512 + 1) * 512" using dividend_less_div_times[of 512 "length (c 1)"] by simp
    ultimately show ?thesis using True by (simp add: sz_def)
  qed (use h(1) in \<open>simp add: sz_def\<close>)
  have s: "unat (isize (icache t ! 0)) = sz" using I(9)[OF i] b by (simp add: t_def sz_def unat_of_nat)
  have al: "faddr t 0 (k div BSIZE) \<noteq> 0" if "k < off + n" for k
  proof -
    have "k < 71680" "k div 512 * 512 < length (c i)" using that n h(1) by (auto intro: le_less_trans[OF div_times_less_eq_dividend])
    then show ?thesis using A(2)[OF block_index, of k] h(3)[OF block_index, of k] by (simp add: t_def BSIZE_def)
  qed
  have "readi dt 0 (of_nat off) (of_nat n) t = Inr (int n, map (fbyte t 0) [off..<off + n], t)"
    using readi_file[of t 0 "of_nat off" "of_nat n" dt] opened_file_ok[OF ok i, of pid] I(8)[OF i] al s b n by (simp add: u t_def T_DIR_def T_FILE_def T_DEV_def)
  moreover have "map (fbyte t 0) [off..<off + n] = take n (drop off (c i))"
    using A(3) h(1,2) n by (intro nth_equalityI) (simp_all add: t_def)
  ultimately show ?thesis by (simp add: t_def)
qed

section \<open>Looking up a file\<close>

definition root_names :: "u8 list list \<Rightarrow> u8 list list" where
  "root_names args = [0x2E] # [0x2E, 0x2E] # map file_name args"

definition root_ino :: "nat \<Rightarrow> u32" where "root_ino k = (if k < 2 then ROOTINO else of_nat k)"

lemma concat_entry:
  "\<forall>x \<in> set xs. length x = l \<Longrightarrow> k < length xs \<Longrightarrow> take l (drop (l * k) (concat xs)) = xs ! k"
proof (induction xs arbitrary: k)
  case (Cons x xs)
  then show ?case by (cases k) simp_all
qed simp

lemma root_content:
  "mk_content host args 1 = concat (map (\<lambda>k. dir_entry (root_names args ! k) (root_ino k)) [0..<length args + 2])"
proof -
  have "map (\<lambda>k. dir_entry (root_names args ! k) (root_ino k)) [0..<length args + 2] =
    dir_entry [0x2E] ROOTINO # dir_entry [0x2E, 0x2E] ROOTINO # map (\<lambda>k. dir_entry (file_name (args ! k)) (of_nat (2 + k))) [0..<length args]"
    by (rule nth_equalityI) (auto simp: root_names_def root_ino_def nth_Cons' numeral_2_eq_2 of_nat_diff simp del: upt_Suc)
  then show ?thesis by (simp add: mk_content_def dir_entries_def)
qed

lemma root_entry:
  "k < length args + 2 \<Longrightarrow> take 16 (drop (k * 16) (mk_content host args 1)) = dir_entry (root_names args ! k) (root_ino k)"
  unfolding root_content using concat_entry[of "map (\<lambda>k. dir_entry (root_names args ! k) (root_ino k)) [0..<length args + 2]" 16 k]
  by (simp add: mult.commute del: upt_Suc)

lemma entry_fields: "unat n < 65536 \<Longrightarrow> ucast (de_inum (dir_entry name n)) = n" "de_name (dir_entry name n) = name_pad name"
proof -
  have "(ucast (ucast x :: u32) :: u16) = x" for x :: u16 by (rule bit_word_eqI) (auto simp: bit_simps)
  then have "de_inum (dir_entry name n) = ucast n"
    by (simp add: de_inum_def dir_entry_def mk_dirent_def get_half_def put_half_def half_split)
  moreover assume "unat n < 65536"
  ultimately show "ucast (de_inum (dir_entry name n)) = n" by (simp add: word_unat_eq_iff unsigned_ucast_eq take_bit_nat_eq_self)
qed (simp add: de_name_def dir_entry_def mk_dirent_def put_half_def)

text \<open>The scan of the root directory passes the entries with other names and stops at the first with this one.\<close>

lemma lookup_root:
  assumes ok: "image_ok m (length args + 2) (mk_content host args) fb" and k: "k < length args + 2"
    and eq: "namecmp nm (name_pad (root_names args ! k)) = 0" and before: "\<And>j. j < k \<Longrightarrow> namecmp nm (name_pad (root_names args ! j)) \<noteq> 0"
    and n: "j0 + r = k" "K > k" "length args \<le> 198"
  shows "lookup_from dt 0 nm (map (\<lambda>j. j * DESIZE) [j0..<K]) (opened pid m 1) =
    bind_r (iget ROOTDEV (root_ino k) (opened pid m 1)) (\<lambda>(i, s). Inr (Some (i, k * 16), s))"
proof -
  have one: "(1 :: nat) \<in> {1..<length args + 2}" by simp
  have l: "length (mk_content host args 1) = 16 * (length args + 2)" by (simp add: mk_content_def)
  have rd: "readi dt 0 (of_nat (j * DESIZE)) (of_nat DESIZE) (opened pid m 1) = Inr (int DESIZE, dir_entry (root_names args ! j) (root_ino j), opened pid m 1)"
    if "j < length args + 2" for j
    using readi_opened[OF ok one, of "j * 16" 16 dt pid] root_entry[OF that, of host] that l n(3) by (simp add: DESIZE_def)
  have nz: "de_inum (dir_entry nm' (root_ino j)) \<noteq> 0" "ucast (de_inum (dir_entry nm' (root_ino j))) = root_ino j" if "j < length args + 2" for j nm'
  proof -
    have u: "unat (root_ino j) < 65536" "root_ino j \<noteq> 0" using that n(3) by (auto simp: root_ino_def ROOTINO_def unat_of_nat word_unat_eq_iff)
    show "ucast (de_inum (dir_entry nm' (root_ino j))) = root_ino j" by (rule entry_fields(1)[OF u(1)])
    then show "de_inum (dir_entry nm' (root_ino j)) \<noteq> 0" using u(2) by auto
  qed
  have dev: "idev (icache (opened pid m 1) ! 0) = ROOTDEV" by simp
  show ?thesis using n(1)
  proof (induction r arbitrary: j0)
    case 0
    then have j0: "j0 = k" "[j0..<K] = k # [Suc k..<K]" using n(2) by (simp_all add: upt_conv_Cons)
    show ?case unfolding j0(2) using rd[OF k] nz[OF k] eq dev by (simp add: entry_fields(2) DESIZE_def)
  next
    case (Suc r)
    then have j: "j0 < k" "j0 < length args + 2" "[j0..<K] = j0 # [Suc j0..<K]" using n(2) k by (simp_all add: upt_conv_Cons)
    show ?case unfolding j(3) using rd[OF j(2)] nz[OF j(2)] before[OF j(1)] Suc.IH[of "Suc j0"] Suc.prems by (simp add: entry_fields(2))
  qed
qed

lemma dirlookup_root:
  assumes ok: "image_ok m (length args + 2) (mk_content host args) fb" and k: "k < length args + 2" and n: "length args \<le> 198"
    and eq: "namecmp nm (name_pad (root_names args ! k)) = 0" and before: "\<And>j. j < k \<Longrightarrow> namecmp nm (name_pad (root_names args ! j)) \<noteq> 0"
  shows "\<exists>i s. dirlookup dt 0 nm (opened pid m 1) = Inr (Some (i, k * 16), s) \<and> inum (icache s ! i) = root_ino k"
proof -
  note I = image_okD[OF ok]
  define sz where "sz = ((length (mk_content host args 1)) div 512 + 1) * 512"
  have l: "length (mk_content host args 1) = 16 * (length args + 2)" by (simp add: mk_content_def)
  have "16 * (length args + 2) < sz" using dividend_less_div_times[of 512 "16 * (length args + 2)"] unfolding sz_def l by simp
  moreover have "16 * (length args + 2) div 512 < 7" using n by simp
  then have "sz \<le> 3584" unfolding sz_def l by simp
  moreover have "isize (din_at m 1) = of_nat sz" using I(9)[of 1] unfolding sz_def by simp
  ultimately have K: "unat (isize (icache (opened pid m 1) ! 0)) = sz" "k < (sz + 16 - 1) div 16" using k by (simp_all add: unat_of_nat)
  have "itype (icache (opened pid m 1) ! 0) = T_DIR" using I(8)[of 1] by simp
  then have "dirlookup dt 0 nm (opened pid m 1) = bind_r (iget ROOTDEV (root_ino k) (opened pid m 1)) (\<lambda>(i, s). Inr (Some (i, k * 16), s))"
    using lookup_root[OF ok k eq before, of 0 k "(sz + 16 - 1) div 16" dt pid] K n by (simp add: dirlookup_def offsets_def DESIZE_def)
  moreover have "\<exists>i s. iget ROOTDEV (root_ino k) (opened pid m 1) = Inr (i, s) \<and> inum (icache s ! i) = root_ino k"
  proof (cases "find_idx (\<lambda>ip. iref ip > 0 \<and> idev ip = ROOTDEV \<and> inum ip = root_ino k) (icache (opened pid m 1))")
    case (Some i)
    then have "i < NINODE" "inum (icache (opened pid m 1) ! i) = root_ino k" by (auto simp: find_idx_Some)
    then show ?thesis using Some by (simp add: iget_def upd_inode_def)
  next
    case None
    have "1 < length (icache (opened pid m 1)) \<and> iref (icache (opened pid m 1) ! 1) = 0" by (simp add: opened_def NINODE_def din0_def)
    then have "find_idx (\<lambda>ip. iref ip = 0) (icache (opened pid m 1)) \<noteq> None" unfolding find_idx_None_nth by blast
    then obtain i where i: "find_idx (\<lambda>ip. iref ip = 0) (icache (opened pid m 1)) = Some i" by blast
    then have "i < NINODE" using find_idx_lt by fastforce
    then show ?thesis using None i by (simp add: iget_def upd_inode_def)
  qed
  ultimately show ?thesis by auto
qed

section \<open>The image and the kernel\<close>

text \<open>
  C6: the kernel finds on the disk what \<open>mkfs\<close> was given. For up to 198 readable files whose names have no slash, of at most 140
  blocks each, that together with the directory fit the disk, \<open>mkfs\<close> succeeds. On the image it leaves, \<open>iinit\<close> reads the
  superblock back; every inode that is opened satisfies the file system's invariant with link count 1, has the type and
  size of its file, and \<open>readi\<close> returns the file's bytes; no two inodes share a block; and looking a name up in the root
  directory finds the first file whose name agrees with it in 14 bytes, behind \<open>.\<close> and \<open>..\<close>, which are the root.
\<close>

theorem mkfs_image:
  assumes "2 \<le> length argv" and "args = drop 2 argv" and "\<forall>a \<in> set args. file_fine host a" and "length args \<le> 198"
    and "blocks_needed host args \<le> unat FSSIZE"
  shows "\<exists>s. mkfs argv True host = Inr s \<and> readsb ROOTDEV (boot_fs (image s)) = Inr init_sb \<and>
    (\<forall>i \<in> {1..<length args + 2}. \<exists>t. open_inum pid (of_nat i) (image s) = Inr (0, t) \<and> file_ok t 0 \<and>
       st_type (stati 0 t) = (if i = 1 then T_DIR else T_FILE) \<and> st_nlink (stati 0 t) = 1 \<and>
       (i \<noteq> 1 \<longrightarrow> unat (st_size (stati 0 t)) = length (file_data host (args ! (i - 2))) \<and>
         readi dt 0 0 (st_size (stati 0 t)) t = Inr (int (length (file_data host (args ! (i - 2)))), file_data host (args ! (i - 2)), t))) \<and>
    (\<forall>i \<in> {1..<length args + 2}. \<forall>j \<in> {1..<length args + 2}. \<forall>t u b. open_inum pid (of_nat i) (image s) = Inr (0, t) \<longrightarrow>
       open_inum pid (of_nat j) (image s) = Inr (0, u) \<longrightarrow> owned t 0 b \<longrightarrow> owned u 0 b \<longrightarrow> i = j) \<and>
    (\<forall>k < length args + 2. \<forall>nm t. open_inum pid ROOTINO (image s) = Inr (0, t) \<longrightarrow> namecmp nm (name_pad (root_names args ! k)) = 0 \<longrightarrow>
       (\<forall>j < k. namecmp nm (name_pad (root_names args ! j)) \<noteq> 0) \<longrightarrow>
       (\<exists>i u. dirlookup dt 0 nm t = Inr (Some (i, k * 16), u) \<and> inum (icache u ! i) = root_ino k))"
proof -
  obtain s fb where s: "mkfs argv True host = Inr s" and ok: "image_ok (image s) (length args + 2) (mk_content host args) fb"
    using mkfs_ok[OF assms] by blast
  let ?m = "image s" and ?N = "length args + 2" and ?c = "mk_content host args"
  note I = image_okD[OF ok] and L = layD[OF image_okD(1)[OF ok]] and O = open_inum_ok[OF ok]
  have c1: "length (?c 1) < 71168" using assms(4) by (simp add: mk_content_def)
  have root: "open_inum pid ROOTINO ?m = Inr (0, opened pid ?m 1)" using O[of 1 pid] by (simp add: ROOTINO_def)
  have "unat (st_size (stati 0 (opened pid ?m i))) = length (?c i) \<and>
      readi dt 0 0 (st_size (stati 0 (opened pid ?m i))) (opened pid ?m i) = Inr (int (length (?c i)), ?c i, opened pid ?m i)"
    if i: "i \<in> {1..<?N}" "i \<noteq> 1" for i
    using readi_opened[OF ok i(1) c1, of 0 "length (?c i)" dt pid] I(9)[OF i(1)] I(6)[OF i(1)] i(2) by (simp add: stati_def Let_def file_holds_def unat_of_nat)
  moreover have "?c i = file_data host (args ! (i - 2))" if "i \<noteq> 1" for i using that by (simp add: mk_content_def)
  ultimately have files: "\<forall>i \<in> {1..<?N}. \<exists>t. open_inum pid (of_nat i) ?m = Inr (0, t) \<and> file_ok t 0 \<and>
       st_type (stati 0 t) = (if i = 1 then T_DIR else T_FILE) \<and> st_nlink (stati 0 t) = 1 \<and>
       (i \<noteq> 1 \<longrightarrow> unat (st_size (stati 0 t)) = length (file_data host (args ! (i - 2))) \<and>
         readi dt 0 0 (st_size (stati 0 t)) t = Inr (int (length (file_data host (args ! (i - 2)))), file_data host (args ! (i - 2)), t))"
    using O opened_file_ok[OF ok] I(7,8) by (auto simp: stati_def Let_def)
  have own: "\<forall>i \<in> {1..<?N}. \<forall>j \<in> {1..<?N}. \<forall>t u b. open_inum pid (of_nat i) ?m = Inr (0, t) \<longrightarrow>
       open_inum pid (of_nat j) ?m = Inr (0, u) \<longrightarrow> owned t 0 b \<longrightarrow> owned u 0 b \<longrightarrow> i = j"
  proof (intro ballI allI impI)
    fix i j t u b assume a: "i \<in> {1..<?N}" "j \<in> {1..<?N}" "open_inum pid (of_nat i) ?m = Inr (0, t)" "open_inum pid (of_nat j) ?m = Inr (0, u)"
      "owned t 0 b" "owned u 0 b"
    have o: "owned (opened pid ?m i) 0 b" "owned (opened pid ?m j) 0 b" using a(3-6) O[OF a(1), of pid] O[OF a(2), of pid] by simp_all
    obtain bn where bn: "bn \<le> 140" "adr (din_at ?m) ?m i bn = b" "b \<noteq> 0" using opened_addresses(4)[OF ok a(1) o(1)] by blast
    obtain bm where "bm \<le> 140" "adr (din_at ?m) ?m j bm = b" using opened_addresses(4)[OF ok a(2) o(2)] by blast
    then show "i = j" using L(8)[OF a(1,2) bn(1), of bm] bn(2,3) by simp
  qed
  have look: "\<forall>k < ?N. \<forall>nm t. open_inum pid ROOTINO ?m = Inr (0, t) \<longrightarrow> namecmp nm (name_pad (root_names args ! k)) = 0 \<longrightarrow>
       (\<forall>j < k. namecmp nm (name_pad (root_names args ! j)) \<noteq> 0) \<longrightarrow>
       (\<exists>i u. dirlookup dt 0 nm t = Inr (Some (i, k * 16), u) \<and> inum (icache u ! i) = root_ino k)"
  proof (intro allI impI)
    fix k nm t assume a: "k < ?N" "open_inum pid ROOTINO ?m = Inr (0, t)" "namecmp nm (name_pad (root_names args ! k)) = 0"
      "\<forall>j < k. namecmp nm (name_pad (root_names args ! j)) \<noteq> 0"
    have "t = opened pid ?m 1" using a(2) root by simp
    then show "\<exists>i u. dirlookup dt 0 nm t = Inr (Some (i, k * 16), u) \<and> inum (icache u ! i) = root_ino k"
      using dirlookup_root[OF ok a(1) assms(4) a(3)] a(4) by blast
  qed
  show ?thesis by (rule exI[of _ s], intro conjI) (rule s readsb_image[OF L(1) I(4)] files own look)+
qed

theorem mkfs_image_witness:
  "\<exists>s t. mkfs [[109], [105], [95, 97]] True (\<lambda>_. Some [[1, 2], [3]]) = Inr s \<and> open_inum 1 2 (image s) = Inr (0, t) \<and>
     readi (\<lambda>_. \<lparr>dread = None, dwrite = None\<rparr>) 0 0 (st_size (stati 0 t)) t = Inr (3, [1, 2, 3], t) \<and>
     (\<exists>r i u. open_inum 1 1 (image s) = Inr (0, r) \<and> dirlookup (\<lambda>_. \<lparr>dread = None, dwrite = None\<rparr>) 0 [97, 0] r = Inr (Some (i, 32), u) \<and> inum (icache u ! i) = 2)"
proof -
  let ?h = "\<lambda>_ :: u8 list. Some [[1, 2], [3 :: u8]]"
  have d: "file_data ?h a = [1, 2, 3]" for a by (simp add: file_data_def)
  have f: "\<forall>a \<in> set [[95, 97]]. file_fine ?h a" by (simp add: file_fine_def d slash_def MAXFILE_def BSIZE_def)
  have b: "blocks_needed ?h [[95, 97]] \<le> unat FSSIZE" by (simp add: blocks_needed_def d nblk_def FSSIZE_def)
  have r: "root_names [[95, 97]] = [[0x2E], [0x2E, 0x2E], [97]]" by (simp add: root_names_def file_name_def)
  have p: "namecmp [97, 0] (name_pad [97]) = 0" "namecmp [97, 0] (name_pad [0x2E]) \<noteq> 0" "namecmp [97, 0] (name_pad [0x2E, 0x2E]) \<noteq> 0" by code_simp+
  have n: "namecmp [97, 0] (name_pad (root_names [[95, 97]] ! 2)) = 0" "\<forall>j < 2. namecmp [97, 0] (name_pad (root_names [[95, 97]] ! j)) \<noteq> 0"
    using p by (auto simp: r less_2_cases_iff)
  have a: "2 \<le> length [[109], [105], [95, 97 :: u8]]" "[[95, 97]] = drop 2 [[109], [105], [95, 97 :: u8]]" "length [[95, 97 :: u8]] \<le> 198" by simp_all
  show ?thesis
  proof (insert mkfs_image[OF a(1,2) f a(3) b, of 1 "\<lambda>_. \<lparr>dread = None, dwrite = None\<rparr>"], elim exE conjE, goal_cases)
    case (1 s)
    have m: "(1 :: nat) \<in> {1..<length [[95, 97 :: u8]] + 2}" "(2 :: nat) \<in> {1..<length [[95, 97 :: u8]] + 2}" "(2 :: nat) < length [[95, 97 :: u8]] + 2" by simp_all
    obtain t where t: "open_inum 1 2 (image s) = Inr (0, t)" "readi (\<lambda>_. \<lparr>dread = None, dwrite = None\<rparr>) 0 0 (st_size (stati 0 t)) t = Inr (3, [1, 2, 3], t)"
      using bspec[OF 1(3) m(2)] by (auto simp: d)
    obtain r where r1: "open_inum 1 1 (image s) = Inr (0, r)" using bspec[OF 1(3) m(1)] by auto
    then have "open_inum 1 ROOTINO (image s) = Inr (0, r)" by (simp add: ROOTINO_def)
    then obtain i u where "dirlookup (\<lambda>_. \<lparr>dread = None, dwrite = None\<rparr>) 0 [97, 0] r = Inr (Some (i, 32), u)" "inum (icache u ! i) = 2"
      using 1(5)[rule_format, OF m(3) _ n(1)] n(2) by (fastforce simp: root_ino_def)
    then show ?case using 1(1) t r1 by blast
  qed
qed

end
