(* ===== verification/Kbd.thy ===== *)
theory Kbd
  imports Console
begin

text \<open>
  The keyboard (\<open>kbd.c\<close>, \<open>kbd.h\<close>): decoding of scan codes with the state of the modifier keys. The two ports are arguments:
  the status byte, and the scan code that the data port gives when there is one. Every scan code leaves a valid state and
  gives a character of 8 bits or none, so that the invariant of the console survives whatever is typed.
\<close>

section \<open>Tables\<close>

definition SHIFT :: u32 where "SHIFT = 1"
definition CTL :: u32 where "CTL = 2"
definition ALT :: u32 where "ALT = 4"
definition CAPSLOCK :: u32 where "CAPSLOCK = 8"
definition NUMLOCK :: u32 where "NUMLOCK = 16"
definition SCROLLLOCK :: u32 where "SCROLLLOCK = 32"
definition E0ESC :: u32 where "E0ESC = 64"
definition KBS_DIB :: u32 where "KBS_DIB = 1"

text \<open>A table of 256 bytes: the first entries in order, then the designated ones, and zero elsewhere.\<close>

definition entry :: "u32 list \<Rightarrow> (nat \<times> u32) list \<Rightarrow> nat \<Rightarrow> u32" where
  "entry first des i = (if i < length first then first ! i else case map_of des i of None \<Rightarrow> 0 | Some v \<Rightarrow> v)"

definition shiftcode :: "nat \<Rightarrow> u32" where
  "shiftcode = entry [] [(0x1D, CTL), (0x2A, SHIFT), (0x36, SHIFT), (0x38, ALT), (0x9D, CTL), (0xB8, ALT)]"

definition togglecode :: "nat \<Rightarrow> u32" where
  "togglecode = entry [] [(0x3A, CAPSLOCK), (0x45, NUMLOCK), (0x46, SCROLLLOCK)]"

text \<open>The keys behind an escape: \<open>KP_Enter\<close>, \<open>KP_Div\<close>, and the codes from \<open>KEY_HOME\<close> to \<open>KEY_DEL\<close>.\<close>

definition special_keys :: "u32 \<Rightarrow> u32 \<Rightarrow> (nat \<times> u32) list" where
  "special_keys enter slashkey = [(0x9C, enter), (0xB5, slashkey), (0xC8, 0xE2), (0xD0, 0xE3), (0xC9, 0xE6), (0xD1, 0xE7), (0xCB, 0xE4), (0xCD, 0xE5),
     (0x97, 0xE0), (0xCF, 0xE1), (0xD2, 0xE8), (0xD3, 0xE9)]"

definition chars :: "string \<Rightarrow> u32 list" where "chars s = map (\<lambda>c. of_nat (of_char c)) s"

definition normalmap :: "nat \<Rightarrow> u32" where
  "normalmap = entry
     ([0, 0x1B] @ chars ''1234567890-='' @ [8, 9] @ chars ''qwertyuiop[]'' @ [10, 0] @ chars ''asdfghjkl;'' @ [0x27, 0x60, 0, 0x5C] @
      chars ''zxcvbnm,./'' @ [0] @ chars ''*'' @ [0] @ chars '' '' @ replicate 13 0 @ chars ''789-456+1230.'' @ replicate 4 0)
     (special_keys 10 0x2F)"

definition shiftmap :: "nat \<Rightarrow> u32" where
  "shiftmap = entry
     ([0, 0x1B] @ chars ''!@#$%^&*()_+'' @ [8, 9] @ chars ''QWERTYUIOP{}'' @ [10, 0] @ chars ''ASDFGHJKL:'' @ [0x22, 0x7E, 0] @ chars ''|'' @
      chars ''ZXCVBNM<>?'' @ [0] @ chars ''*'' @ [0] @ chars '' '' @ replicate 13 0 @ chars ''789-456+1230.'' @ replicate 4 0)
     (special_keys 10 0x2F)"

text \<open>\<open>C(x)\<close> is \<open>x - '@'\<close> as a byte; for \<open>'/'\<close> this is negative and the \<open>uchar\<close> of the table has it modulo 256.\<close>

definition ctrl :: "string \<Rightarrow> u32 list" where "ctrl s = map (\<lambda>c. (c - 0x40) mod 256) (chars s)"

definition ctlmap :: "nat \<Rightarrow> u32" where
  "ctlmap = entry
     (replicate 16 0 @ ctrl ''QWERTYUIOP'' @ [0, 0, 13, 0] @ ctrl ''ASDFGHJKL'' @ [0, 0, 0, 0] @ [0x1C] @ ctrl ''ZXCVBNM'' @ [0, 0] @ ctrl ''/'' @ [0, 0])
     (special_keys 13 (hd (ctrl ''/'')))"

definition charcode :: "u32 \<Rightarrow> nat \<Rightarrow> u32" where
  "charcode i = (if i = 0 then normalmap else if i = 1 then shiftmap else ctlmap)"

section \<open>Decoding\<close>

definition kbdgetc :: "u32 \<Rightarrow> u32 \<Rightarrow> u32 \<Rightarrow> int \<times> u32" where
  "kbdgetc st data shift =
    (if and st KBS_DIB = 0 then (-1, shift)
     else if data = 0xE0 then (0, or shift E0ESC)
     else if and data 0x80 \<noteq> 0 then
       (let data = (if and shift E0ESC \<noteq> 0 then data else and data 0x7F) in (0, and shift (not (or (shiftcode (unat data)) E0ESC))))
     else
       (let (data, shift) = (if and shift E0ESC \<noteq> 0 then (or data 0x80, and shift (not E0ESC)) else (data, shift));
            shift = or shift (shiftcode (unat data));
            shift = xor shift (togglecode (unat data));
            c = charcode (and shift (or CTL SHIFT)) (unat data);
            c = (if and shift CAPSLOCK \<noteq> 0 then
                   (if 0x61 \<le> c \<and> c \<le> 0x7A then c - 0x20 else if 0x41 \<le> c \<and> c \<le> 0x5A then c + 0x20 else c)
                 else c)
        in (sint c, shift)))"

text \<open>An interrupt: the codes that are waiting, then a status without data.\<close>

fun kbd_chars :: "u32 list \<Rightarrow> u32 \<Rightarrow> int list \<times> u32" where
  "kbd_chars [] shift = (let (c, shift1) = kbdgetc 0 0 shift in ([c], shift1))"
| "kbd_chars (d # ds) shift = (let (c, shift1) = kbdgetc KBS_DIB d shift; (cs, shift2) = kbd_chars ds shift1 in (c # cs, shift2))"

definition kbdintr :: "u32 list \<Rightarrow> u32 \<Rightarrow> console \<Rightarrow> (console \<times> bool \<times> bool) result \<times> u32" where
  "kbdintr ds shift s = (let (cs, shift1) = kbd_chars ds shift in (consoleintr cs s, shift1))"

section \<open>Bounds\<close>

lemma entry_less: "\<forall>x \<in> set first. x < b \<Longrightarrow> \<forall>(k, v) \<in> set des. v < b \<Longrightarrow> 0 < b \<Longrightarrow> entry first des i < b"
  by (auto simp: entry_def dest!: map_of_SomeD split: option.splits)

lemma maps_less: "normalmap i < 256" "shiftmap i < 256" "ctlmap i < 256"
proof -
  show "normalmap i < 256" unfolding normalmap_def by (rule entry_less) code_simp+
  show "shiftmap i < 256" unfolding shiftmap_def by (rule entry_less) code_simp+
  show "ctlmap i < 256" unfolding ctlmap_def by (rule entry_less) code_simp+
qed

lemma codes_less: "shiftcode i < 128" "togglecode i < 128"
proof -
  show "shiftcode i < 128" unfolding shiftcode_def by (rule entry_less) code_simp+
  show "togglecode i < 128" unfolding togglecode_def by (rule entry_less) code_simp+
qed

text \<open>A state of the modifiers is a number of seven bits; the bitwise operations keep it so.\<close>

lemma seven_bits: "x < 128 \<longleftrightarrow> take_bit 7 x = (x :: u32)"
proof -
  have "unat x mod 128 = unat x \<longleftrightarrow> unat x < 128" by (metis mod_less mod_less_divisor zero_less_numeral)
  then show ?thesis by (simp add: take_bit_eq_mod word_unat_eq_iff unat_mod word_less_nat_alt)
qed

lemma bits_less:
  fixes x y :: u32
  assumes "x < 128"
  shows "and x z < 128" "y < 128 \<Longrightarrow> or x y < 128" "y < 128 \<Longrightarrow> xor x y < 128"
proof -
  show "and x z < 128" by (rule le_less_trans[OF word_and_le2 assms])
qed (use assms in \<open>simp_all add: seven_bits take_bit_or take_bit_xor\<close>)

lemma charcode_less: "charcode i k < 256"
  by (simp add: charcode_def maps_less)

lemma byte_sint: "c < (256 :: u32) \<Longrightarrow> -1 \<le> sint c \<and> sint c < 256"
proof -
  assume "c < 256"
  then have "unat c < 256" by (simp add: word_less_nat_alt)
  then have "sint c = int (unat c)" "int (unat c) < 256" by (simp add: sint_small, linarith)
  moreover have "0 \<le> int (unat c)" by (rule of_nat_0_le_iff)
  ultimately show ?thesis by linarith
qed

lemma caps_less:
  fixes c :: u32
  assumes "c < 256"
  shows "(if b then (if 0x61 \<le> c \<and> c \<le> 0x7A then c - 0x20 else if 0x41 \<le> c \<and> c \<le> 0x5A then c + 0x20 else c) else c) < 256"
proof -
  have "c - 0x20 < 256" if "0x61 \<le> c" "c \<le> 0x7A" using that by (simp add: word_less_nat_alt word_le_nat_alt unat_sub)
  moreover have "c + 0x20 < 256" if "c \<le> 0x5A" using that by (simp add: word_less_nat_alt word_le_nat_alt unat_word_ariths)
  ultimately show ?thesis using assms by auto
qed

lemma kbdgetc_bounds:
  assumes s: "shift < 128" and k: "kbdgetc st data shift = (c, shift')"
  shows "-1 \<le> c \<and> c < 256 \<and> shift' < 128"
proof -
  have e: "E0ESC < 128" by (simp add: E0ESC_def)
  consider "and st KBS_DIB = 0" | "and st KBS_DIB \<noteq> 0" "data = 0xE0" | "and st KBS_DIB \<noteq> 0" "data \<noteq> 0xE0" "and data 0x80 \<noteq> 0"
    | "and st KBS_DIB \<noteq> 0" "data \<noteq> 0xE0" "and data 0x80 = 0" by blast
  then show ?thesis
  proof cases
    case 4
    define d sh where "d = (if and shift E0ESC \<noteq> 0 then or data 0x80 else data)" and "sh = (if and shift E0ESC \<noteq> 0 then and shift (not E0ESC) else shift)"
    define sh1 where "sh1 = xor (or sh (shiftcode (unat d))) (togglecode (unat d))"
    have p: "(if and shift E0ESC \<noteq> 0 then (or data 0x80, and shift (not E0ESC)) else (data, shift)) = (d, sh)" by (simp add: d_def sh_def)
    have "sh < 128" using s bits_less(1)[OF s] by (simp add: sh_def)
    then have "sh1 < 128" using bits_less(2)[of sh "shiftcode (unat d)"] codes_less[of "unat d"] bits_less(3) by (simp add: sh1_def)
    then show ?thesis using k 4 byte_sint[OF caps_less[OF charcode_less[of "and sh1 (or CTL SHIFT)" "unat d"], of "and sh1 CAPSLOCK \<noteq> 0"]]
      unfolding kbdgetc_def p by (auto simp: Let_def sh1_def[symmetric])
  qed (use s k bits_less[OF s] e in \<open>auto simp: kbdgetc_def Let_def\<close>)
qed

section \<open>Typing\<close>

text \<open>Whatever codes arrive, the console stays a line editor and the modifiers a valid state; the characters are those \<open>kbdgetc\<close> returned.\<close>

lemma kbd_chars_bounds:
  "shift < 128 \<Longrightarrow> kbd_chars ds shift = (cs, shift') \<Longrightarrow> shift' < 128 \<and> (\<forall>c \<in> set cs. -1 \<le> c \<and> c < 256)"
proof (induction ds arbitrary: shift cs)
  case Nil
  then show ?case using kbdgetc_bounds[OF Nil.prems(1)] by (auto split: prod.splits)
next
  case (Cons d ds)
  obtain c s1 where k: "kbdgetc KBS_DIB d shift = (c, s1)" by (cases "kbdgetc KBS_DIB d shift")
  obtain cs1 where cs1: "kbd_chars ds s1 = (cs1, shift')" "cs = c # cs1" using Cons.prems(2) k by (auto split: prod.splits)
  have b: "-1 \<le> c \<and> c < 256 \<and> s1 < 128" by (rule kbdgetc_bounds[OF Cons.prems(1) k])
  then show ?case using Cons.IH[OF _ cs1(1)] cs1(2) by auto
qed

lemma consoleintr_keeps:
  "cinv s \<Longrightarrow> \<forall>c \<in> set cs. c < 256 \<Longrightarrow> \<exists>s' w d. consoleintr cs s = Inr (s', w, d) \<and> cinv s'"
proof (induction cs arbitrary: s)
  case (Cons c cs)
  show ?case
  proof (cases "c < 0")
    case False
    then obtain s1 w d where s1: "consoleintr_char c s = Inr (s1, w, d)" "cinv s1"
      using Cons.prems consoleintr_char_ok[of s c] by (metis linorder_not_le list.set_intros(1) not_less)
    then show ?thesis using False Cons.IH[OF s1(2)] Cons.prems(2) by auto
  qed (use Cons.prems in auto)
qed auto

lemma kbdintr_ok:
  assumes "cinv s" "shift < 128"
  shows "\<exists>s' w d shift'. kbdintr ds shift s = (Inr (s', w, d), shift') \<and> cinv s' \<and> shift' < 128"
proof -
  obtain cs shift' where k: "kbd_chars ds shift = (cs, shift')" by (cases "kbd_chars ds shift")
  then have "shift' < 128" "\<forall>c \<in> set cs. c < 256" using kbd_chars_bounds[OF assms(2) k] by auto
  then show ?thesis using consoleintr_keeps[OF assms(1), of cs] k by (auto simp: kbdintr_def)
qed

text \<open>Releasing one Shift key forgets that the other one is still held.\<close>

lemma second_shift_forgotten: "fst (kbd_chars [0x2A, 0x36, 0xAA, 0x1E] 0) = [0, 0, 0, 97, -1]"
  by code_simp

end
