(* ===== verification/Spec2Isabelle.thy ===== *)
theory Spec2Isabelle
  imports Sched_Props Printf Mergesort Cab Vm Fs_Props Fs_Layer Syscall Sh Grep Umalloc Console Biryani Spinlock Reverse Gosh Mkfs Kbd
begin

text \<open>
  A verification of the operating systems coursework in this repository. The largest program is a version of the teaching kernel
  xv6 (\<open>src/A5/xv6-public\<close>) whose scheduler was replaced by a choice of four policies; beside it stand the shell GOSH
  (\<open>src/A2\<close>), the concurrent programs of assignment 4 (\<open>src/A4\<close>) and the file reversal of assignment 1 (\<open>src/A1\<close>).

  \<^bold>\<open>How the parts fit together.\<close> In the kernel, a timer interrupt or a system call enters \<open>trap\<close>; \<open>syscall\<close> dispatches to the
  handlers of \<open>sysproc.c\<close> and \<open>sysfile.c\<close>, which work on the process table and the ready queues (\<open>proc.c\<close>), on address spaces
  (\<open>vm.c\<close> over the page allocator \<open>kalloc.c\<close>), and on open files: the file table (\<open>file.c\<close>) leads to pipes (\<open>pipe.c\<close>), devices
  (\<open>console.c\<close>) and inodes (\<open>fs.c\<close>), which live in the blocks of the buffer cache (\<open>bio.c\<close>) under a write-ahead log (\<open>log.c\<close>). The
  model has the same layers: each is a state record with one function per C function, and a layer calls the functions of the
  layer below. \<open>Proc_Life\<close> puts them into one record, \<open>kworld\<close>: the scheduling state extended by file system, file table and
  memory.

  \<^bold>\<open>Conventions.\<close> A C function that can panic, fault or run for ever returns a value of type \<open>'a result\<close> (\<open>Prelude\<close>), so every such
  branch is a value; \<open>None\<close> stands for a sleep that only another process can end. Machine integers are words, except where an
  invariant bounds them and the code's arithmetic is exact; conversions that can change a value are written out. Loops are
  recursive functions with termination proofs; those that need not end are \<open>partial_function (option)\<close> or have a bound, and the
  theorems show the bound is enough. Locks of the kernel delimit the atomic steps; that the spin locks themselves provide
  this is proved in \<open>Spinlock\<close>. What the sources only call is an argument: the contents of the disk, the linker's symbols
  (\<open>ksyms\<close>), the device switch (\<open>devtab\<close>), the answers of a host operating system (\<open>os\<close> in \<open>Gosh\<close>, \<open>host\<close> in \<open>Mkfs\<close>), the numbers \<open>rand()\<close> draws.

  \<^bold>\<open>Shared theories.\<close>
  \<^item> \<open>Prelude\<close>: the result type, its sequencing, scans of fixed tables, C remainder, and the collection \<open>res_simps\<close>.
  \<^item> \<open>Fifo\<close>: the locale \<open>fifo\<close>, the contract of a first-in first-out buffer; interpreted by the scheduler's rings
    (\<open>Sched_Props\<close>) and by the byte ring of a pipe (\<open>Pipe\<close>).
  \<^item> \<open>Systems\<close>: the locales \<open>invariant_system\<close> (a step relation with an invariant) and, extending it, \<open>simulated_system\<close>
    (with an abstract relation). They are interpreted by the kernel (\<open>Life_Props\<close>), the spin locks, the console and its terminal,
    the biryani serving and GOSH, so that facts about whole runs are proved once.
  \<^item> \<open>Kalloc\<close> has the locale \<open>page_alloc\<close>, what the virtual memory code relies on, interpreted by \<open>kalloc\<close> and \<open>kfree\<close>.

  \<^bold>\<open>Kernel: processes.\<close>
  \<^item> \<open>Proc_Table\<close> (\<open>proc.h\<close>, \<open>procstat.h\<close>): the process table, clock and accessors. \<open>Mlfq\<close>: the five ring buffers of the feedback queue
    with their in-place deletion. The rings refine lists (C2, C14).
  \<^item> \<open>Sched\<close>, \<open>Sched_Props\<close> (\<open>scheduler\<close>, \<open>sleep\<close>, \<open>wakeup\<close>, \<open>yield\<close>, timer branch of \<open>trap\<close>): a scheduling round never fails and runs
    the first eligible process (C1); aging (C3), wakeup (C4), requeueing and its gap (C5), a killed process that is never run
    (C8), preemption (C10), priorities (C12).
  \<^item> \<open>Proc_Life\<close>, \<open>Life_Props\<close> (\<open>allocproc\<close>, \<open>userinit\<close>, \<open>fork\<close>, \<open>exit\<close>, \<open>wait\<close>, \<open>waitx\<close>, \<open>growproc\<close>): the invariant of the kernel over all its
    steps, from which no zombie is lost (C40). \<open>Exec\<close> and \<open>Loader\<close> (\<open>exec.c\<close>, \<open>loaduvm\<close>): loading programs (C25).
  \<^item> \<open>Syscall\<close> (\<open>sysproc.c\<close>, the table of \<open>syscall.c\<close>, \<open>trap\<close>): every call, whatever its number and arguments, is a run of kernel steps that
    keeps the invariant and puts its value into the trap frame (C22).
  \<^item> \<open>Spinlock\<close> (\<open>spinlock.c\<close>): mutual exclusion and interrupt nesting, access by access on any number of processors (C11).

  \<^bold>\<open>Kernel: memory and files.\<close>
  \<^item> \<open>Kalloc\<close>, \<open>Vm\<close>: the free list and the two-level page tables in byte memory. Growing and freeing address spaces
    neither leaks nor shares a page (C28, C29).
  \<^item> \<open>Pipe\<close>: writers and readers interleaved; nothing is lost or reordered (C30), and a wakeup that is missing (C31).
  \<^item> \<open>Bio\<close>, \<open>Log\<close> (with \<open>sleeplock.c\<close> and the request part of \<open>ide.c\<close>): a commit is atomic at every crash point (C32); the reservation of
    log space falls short (C33).
  \<^item> \<open>Fs\<close>, \<open>Dir\<close>, \<open>Fs_Props\<close>, \<open>Fs_Layer\<close>: inodes, their contents and names; what is written is read back and nothing else changes
    (C34), and the block operations of the model are what buffer cache and log provide (C35).
  \<^item> \<open>File\<close>, \<open>Sysfile\<close>, \<open>Sysfile_Props\<close> (\<open>file.c\<close>, \<open>sysfile.c\<close>, argument fetching of \<open>syscall.c\<close>): exact reference counts on every path
    (C36) and no store outside the caller's memory (C37).
  \<^item> \<open>Mkfs\<close> (\<open>mkfs.c\<close>): on the image it makes, \<open>iinit\<close>, \<open>iget\<close>, \<open>ilock\<close>, \<open>readi\<close> and \<open>dirlookup\<close> of the kernel find the files it was
    given, in a state that satisfies the invariant C34 starts from (C6).
  \<^item> \<open>Console\<close> (\<open>console.c\<close>): the line discipline refines a line editor (C20); \<open>cprintf\<close> agrees with the user's \<open>printf\<close> (C17).
    \<open>Kbd\<close> (\<open>kbd.c\<close>, \<open>kbd.h\<close>) decodes the scan codes that become its input.

  \<^bold>\<open>User programs of xv6.\<close> \<open>Strings\<close> (\<open>string.c\<close>, \<open>ulib.c\<close>), \<open>Printf\<close>, \<open>Umalloc\<close> (C16), \<open>Sh\<close> (the parser of \<open>sh.c\<close>: C38, C39), \<open>Grep\<close>
  (C9, C13).

  \<^bold>\<open>The other assignments.\<close> \<open>Reverse\<close> (A1: reversing and checking a file, C7). \<open>Gosh_Text\<close> and \<open>Gosh\<close> (A2: history, C19; job table, C15;
  redirections, C27). \<open>Quicksort\<close> and \<open>Mergesort\<close> (A4: concurrent sorts, C21, C23), \<open>Biryani\<close> (A4 q2: C18, C26), \<open>Cab\<close> (A4 q3: C24).

  \<^bold>\<open>Bounds.\<close> The parser of the shell takes \<open>4 * length + 4\<close> units of fuel, which C38 shows to be enough for every line. Walks of a
  scheduler ring are bounded by its capacity \<open>RING\<close>, loops over pages by \<open>NPAGES\<close>, the number of pages below \<open>2 ^ 32\<close> (each iteration goes to
  a higher page), and \<open>copyout\<close> by \<open>NPAGES + 2\<close>. The free bitmap is one block, as \<open>mkfs\<close> makes it for a disk of 1000 blocks; its 200 inodes leave room for 198 files beside the root. \<open>nextpid\<close> is
  below \<open>2 ^ 31 - 1\<close>, since the code's increment is undefined there. The recursion of GOSH through recalled commands has fuel, because
  a recalled line of arrow keys can recall itself for ever.

  \<^bold>\<open>Not modelled.\<close> Device and processor registers: \<open>lapic.c\<close>, \<open>ioapic.c\<close>, \<open>picirq.c\<close>, \<open>mp.c\<close>, \<open>uart.c\<close>, \<open>memide.c\<close>, the port accesses of
  \<open>ide.c\<close>, segment and page-table registers in \<open>vm.c\<close>, and the start of the machine (\<open>main.c\<close>, \<open>bootmain.c\<close> and the assembly files): their effect
  is on hardware the sources do not define. \<open>swtch\<close> is the change of \<open>cproc\<close>. \<open>usertests.c\<close>, the other test and demonstration programs and
  the small user programs (\<open>cat\<close>, \<open>ls\<close>, \<open>wc\<close> and the like) only call what is modelled. Of the
  shell of xv6, \<open>runcmd\<close> is the sequence of the system calls it makes, without their effect. In GOSH the texts read from \<open>/proc\<close>, the long listing and the terminal modes are
  arguments. The tutorial programs of A4 other than the merge sort show single library calls.
\<close>

end
